(* ===== verification/Prelude.thy ===== *)
theory Prelude
  imports Main "HOL-Library.AList" "HOL-Library.Word"
begin

text \<open>
  What every component of the development shares.

  \<^item> \<open>py_error\<close> names the exceptions of the code that a model returns as the left side of a
    sum; \<open>'a result\<close> is that sum and \<open>rbind\<close> its sequencing: the first exception ends the call.
  \<^item> A Python \<open>dict\<close> or \<open>OrderedDict\<close> is an association list in insertion order
    (\<open>('k, 'v) odict\<close>): reading is \<open>map_of\<close>, \<open>d[k] = v\<close> is \<open>AList.update\<close> (which keeps
    the place of a key that is already there and appends a new one, as Python does),
    \<open>d.pop(k, None)\<close> is \<open>AList.delete\<close>. \<open>od_to_end\<close> is \<open>move_to_end\<close>, \<open>od_put_last\<close> is a
    \<open>pop\<close> followed by an assignment, and \<open>od_trim\<close> is the loop
    \<open>while len(d) > n: d.popitem(last=False)\<close> that bounds every book of the program.
  \<^item> The collection \<open>odict_simps\<close> holds the lookup, domain and distinctness facts of these
    operations.
  \<^item> The locale \<open>bounded_book\<close> is the contract every bounded table of the program promises: a
    step never takes a table past its bound. Each component interprets it on its own model.
\<close>

datatype py_error =
    ValueError
  | StructError
  | PacketError
  | KeyError
  | IndexError
  | AppAuthError

type_synonym 'a result = "py_error + 'a"

type_synonym ('k, 'v) odict = "('k \<times> 'v) list"

definition rbind :: "'a result \<Rightarrow> ('a \<Rightarrow> 'b result) \<Rightarrow> 'b result" where
  "rbind r f = (case r of Inl e \<Rightarrow> Inl e | Inr x \<Rightarrow> f x)"

lemma rbind_simps [simp]: "rbind (Inl e) f = Inl e" "rbind (Inr x) f = f x"
  by (simp_all add: rbind_def)

lemma rbind_Inr: "rbind r f = Inr y \<longleftrightarrow> (\<exists>x. r = Inr x \<and> f x = Inr y)"
  by (cases r) auto

named_theorems odict_simps

abbreviation od_keys :: "('k, 'v) odict \<Rightarrow> 'k list" where
  "od_keys d \<equiv> map fst d"

abbreviation od_ok :: "('k, 'v) odict \<Rightarrow> bool" where
  "od_ok d \<equiv> distinct (map fst d)"

definition od_to_end :: "'k \<Rightarrow> ('k, 'v) odict \<Rightarrow> ('k, 'v) odict" where
  "od_to_end k d = (case map_of d k of None \<Rightarrow> d | Some v \<Rightarrow> AList.delete k d @ [(k, v)])"

definition od_put_last :: "'k \<Rightarrow> 'v \<Rightarrow> ('k, 'v) odict \<Rightarrow> ('k, 'v) odict" where
  "od_put_last k v d = AList.delete k d @ [(k, v)]"

fun od_trim :: "nat \<Rightarrow> 'a list \<Rightarrow> 'a list" where
  "od_trim n [] = []"
| "od_trim n (x # xs) = (if n < length (x # xs) then od_trim n xs else x # xs)"

subsection \<open>Lists as ordered dictionaries\<close>
lemma od_trim_drop: "od_trim n d = drop (length d - n) d"
  by (induction d) (auto simp: Suc_diff_le)

lemma length_od_trim [simp]: "length (od_trim n d) = min n (length d)"
  by (simp add: od_trim_drop)

lemma od_trim_short [simp]: "length d \<le> n \<Longrightarrow> od_trim n d = d"
  by (simp add: od_trim_drop)

lemma set_od_trim: "set (od_trim n d) \<subseteq> set d"
  by (simp add: od_trim_drop set_drop_subset)

lemma od_ok_trim [simp, intro]: "od_ok d \<Longrightarrow> od_ok (od_trim n d)"
  by (simp add: od_trim_drop drop_map [symmetric])

lemma od_trim_snoc: "0 < n \<Longrightarrow> od_trim n (d @ [x]) = od_trim (n - 1) d @ [x]"
  by (simp add: od_trim_drop Suc_diff_le not_less_eq_eq)

lemma od_ok_delete [simp, intro]: "od_ok d \<Longrightarrow> od_ok (AList.delete k d)"
  by (rule distinct_delete)

lemma od_ok_update [simp, intro]: "od_ok d \<Longrightarrow> od_ok (AList.update k v d)"
  by (rule distinct_update)

lemma keys_delete [odict_simps]: "fst ` set (AList.delete k d) = fst ` set d - {k}"
  by (force simp: AList.delete_eq)

lemma od_ok_put_last [simp, intro]: "od_ok d \<Longrightarrow> od_ok (od_put_last k v d)"
  by (auto simp: od_put_last_def AList.delete_eq distinct_map_filter)

lemma map_of_put_last [odict_simps]:
  "map_of (od_put_last k v d) = (map_of d)(k \<mapsto> v)"
  by (rule ext) (auto simp: od_put_last_def map_add_def delete_conv split: option.splits)

lemma map_of_to_end [odict_simps]: "map_of (od_to_end k d) = map_of d"
  by (rule ext) (auto simp: od_to_end_def map_add_def delete_conv split: option.splits)

lemma od_ok_to_end [simp, intro]: "od_ok d \<Longrightarrow> od_ok (od_to_end k d)"
  by (auto simp: od_to_end_def AList.delete_eq distinct_map_filter split: option.splits)

lemma map_of_update_same [odict_simps]: "map_of (AList.update k v d) = (map_of d)(k \<mapsto> v)"
  by (rule update_conv')

lemma map_of_mem: "map_of d k = Some v \<Longrightarrow> k \<in> fst ` set d"
  by (auto dest: map_of_SomeD intro: rev_image_eqI)

lemma length_update_le: "length (AList.update k v d) \<le> Suc (length d)"
  by (induction d) auto

lemma length_update_present: "k \<in> fst ` set d \<Longrightarrow> length (AList.update k v d) = length d"
  by (induction d) auto

lemma length_update_absent: "k \<notin> fst ` set d \<Longrightarrow> length (AList.update k v d) = Suc (length d)"
  by (induction d) auto

lemma update_absent: "k \<notin> fst ` set d \<Longrightarrow> AList.update k v d = d @ [(k, v)]"
  by (induction d) auto

lemma delete_absent: "k \<notin> fst ` set d \<Longrightarrow> AList.delete k d = d"
  by (induction d) auto

lemma length_delete_present:
  "od_ok d \<Longrightarrow> k \<in> fst ` set d \<Longrightarrow> Suc (length (AList.delete k d)) = length d"
proof (induction d)
  case (Cons p d)
  then show ?case
    by (cases "fst p = k") (auto simp: delete_absent)
qed simp

lemma length_put_last:
  "od_ok d \<Longrightarrow> length (od_put_last k v d) = (if k \<in> fst ` set d then length d else Suc (length d))"
  by (auto simp: od_put_last_def delete_absent length_delete_present)

lemma length_to_end [simp]: "od_ok d \<Longrightarrow> length (od_to_end k d) = length d"
proof (cases "map_of d k")
  case (Some v)
  moreover from Some have "k \<in> fst ` set d"
    by (auto dest: map_of_SomeD intro: rev_image_eqI)
  ultimately show "od_ok d \<Longrightarrow> ?thesis"
    by (simp add: od_to_end_def length_delete_present)
qed (simp add: od_to_end_def)

text \<open>Deleting a set of its keys shortens a dictionary by exactly that many.\<close>
lemma length_filter_out:
  assumes "od_ok d" "distinct v" "set v \<subseteq> fst ` set d"
  shows "length (filter (\<lambda>(k, _). k \<notin> set v) d) = length d - length v"
proof -
  let ?ks = "filter (\<lambda>k. k \<notin> set v) (map fst d)"
  have "length (filter (\<lambda>(k, _). k \<notin> set v) d) = length ?ks"
    by (simp add: filter_map o_def case_prod_unfold)
  also have "\<dots> = card (set ?ks)" using assms(1) by (intro distinct_card [symmetric]) simp
  also have "set ?ks = fst ` set d - set v" by auto
  also have "card \<dots> = card (fst ` set d) - card (set v)"
    using assms(3) by (intro card_Diff_subset) auto
  also have "card (fst ` set d) = length d"
    using distinct_card [OF assms(1)] by simp
  finally show ?thesis using distinct_card [OF assms(2)] by simp
qed

subsection \<open>What holds of every entry\<close>

text \<open>\<open>od_all P d\<close>: every key and value of the dictionary satisfy \<open>P\<close>; the collection
  \<open>od_all_intros\<close> says which operations keep it.\<close>

named_theorems od_all_intros

definition od_all :: "('k \<Rightarrow> 'v \<Rightarrow> bool) \<Rightarrow> ('k, 'v) odict \<Rightarrow> bool" where
  "od_all P d \<longleftrightarrow> (\<forall>p \<in> set d. P (fst p) (snd p))"

lemma od_all_Nil [simp]: "od_all P []"
  by (simp add: od_all_def)

lemma od_all_Cons [simp]: "od_all P (p # d) \<longleftrightarrow> P (fst p) (snd p) \<and> od_all P d"
  by (simp add: od_all_def)

lemma od_all_append [simp]: "od_all P (d @ d') \<longleftrightarrow> od_all P d \<and> od_all P d'"
  by (auto simp: od_all_def)

lemma od_allD: "od_all P d \<Longrightarrow> map_of d k = Some v \<Longrightarrow> P k v"
  unfolding od_all_def by (drule map_of_SomeD) (drule bspec, assumption, simp)

lemma od_all_update [od_all_intros]: "od_all P d \<Longrightarrow> P k v \<Longrightarrow> od_all P (AList.update k v d)"
  by (induction d) auto

lemma od_all_delete [od_all_intros]: "od_all P d \<Longrightarrow> od_all P (AList.delete k d)"
  by (simp add: od_all_def AList.delete_eq)

lemma od_all_filter [od_all_intros]: "od_all P d \<Longrightarrow> od_all P (filter Q d)"
  by (simp add: od_all_def)

lemma od_all_map_entry [od_all_intros]:
  "od_all P d \<Longrightarrow> (\<And>v. P k v \<Longrightarrow> P k (f v)) \<Longrightarrow> od_all P (AList.map_entry k f d)"
  by (induction d) auto

lemma od_all_to_end [od_all_intros]: "od_all P d \<Longrightarrow> od_all P (od_to_end k d)"
  by (auto simp: od_to_end_def od_all_delete dest: od_allD split: option.splits)

lemma od_all_put_last [od_all_intros]: "od_all P d \<Longrightarrow> P k v \<Longrightarrow> od_all P (od_put_last k v d)"
  by (simp add: od_put_last_def od_all_delete)

lemma od_all_trim [od_all_intros]: "od_all P d \<Longrightarrow> od_all P (od_trim n d)"
  by (induction d) auto

lemma od_all_tl [od_all_intros]: "od_all P d \<Longrightarrow> od_all P (tl d)"
  by (cases d) auto

lemma length_map_entry [simp]: "length (AList.map_entry k f d) = length d"
  by (induction d) auto

lemma od_ok_map_entry [simp, intro]: "od_ok d \<Longrightarrow> od_ok (AList.map_entry k f d)"
  by (rule AList.distinct_map_entry)

lemma od_ok_filter [simp, intro]: "od_ok d \<Longrightarrow> od_ok (filter Q d)"
  by (rule distinct_map_filter)

lemma od_ok_tl [simp, intro]: "od_ok d \<Longrightarrow> od_ok (tl d)"
  by (cases d) auto

subsection \<open>The contract of a bounded table\<close>

locale bounded_book =
  fixes size_of :: "'s \<Rightarrow> nat"
    and bound_of :: "'s \<Rightarrow> nat"
    and step :: "'e \<Rightarrow> 's \<Rightarrow> 's"
    and inv :: "'s \<Rightarrow> bool"
  assumes step_bound: "inv s \<Longrightarrow> size_of s \<le> bound_of s \<Longrightarrow> size_of (step e s) \<le> bound_of s"
    and step_same_bound: "bound_of (step e s) = bound_of s"
    and step_inv: "inv s \<Longrightarrow> size_of s \<le> bound_of s \<Longrightarrow> inv (step e s)"
begin

lemma run_same_bound: "bound_of (fold step es s) = bound_of s"
  by (induction es arbitrary: s) (auto simp: step_same_bound)

lemma run_inv:
  "inv s \<Longrightarrow> size_of s \<le> bound_of s \<Longrightarrow>
     inv (fold step es s) \<and> size_of (fold step es s) \<le> bound_of s"
proof (induction es arbitrary: s)
  case (Cons e es)
  have "inv (step e s)" and "size_of (step e s) \<le> bound_of (step e s)"
    using Cons.prems by (simp_all add: step_bound step_inv step_same_bound)
  from Cons.IH [OF this] show ?case by (simp add: step_same_bound)
qed simp

lemma run_bound:
  "inv s \<Longrightarrow> size_of s \<le> bound_of s \<Longrightarrow> size_of (fold step es s) \<le> bound_of s"
  using run_inv by blast

end

end
