(* ===== verification/ReplayWindow.thy ===== *)
theory ReplayWindow
  imports Prelude
begin

text \<open>
  What the node asks of its replay window (\<open>MeshNode._is_seen\<close> in \<open>src/node.py\<close>): one operation
  that says whether an id was already recorded and records it if not. The locale states the
  promise, and its lemmas are the client's: a handler that acts only on an id that was not seen
  acts at most once on every id inside the window.
\<close>

locale replay_window =
  fixes mem :: "'s \<Rightarrow> 'v \<Rightarrow> bool"
    and record_id :: "'s \<Rightarrow> 'v \<Rightarrow> (bool \<times> 's) option"
    and capacity :: "'s \<Rightarrow> nat"
    and ok :: "'s \<Rightarrow> bool"
    and valid :: "'v \<Rightarrow> bool"
    and run :: "'s \<Rightarrow> 'v list \<Rightarrow> 's option"
  assumes record_reports: "ok s \<Longrightarrow> valid v \<Longrightarrow>
      \<exists>s'. record_id s v = Some (mem s v, s') \<and> ok s' \<and> capacity s' = capacity s"
    and run_Nil: "run s [] = Some s"
    and run_Cons: "run s (v # vs) = Option.bind (record_id s v) (\<lambda>(b, s'). run s' vs)"
    and survives: "ok s \<Longrightarrow> valid v \<Longrightarrow> list_all valid vs \<Longrightarrow> record_id s v = Some (False, s') \<Longrightarrow>
      run s' vs = Some s'' \<Longrightarrow> length vs < capacity s \<Longrightarrow> mem s'' v"
begin

lemma run_total: "ok s \<Longrightarrow> list_all valid vs \<Longrightarrow>
    \<exists>s'. run s vs = Some s' \<and> ok s' \<and> capacity s' = capacity s"
proof (induction vs arbitrary: s)
  case (Cons v vs)
  from record_reports [of s v] Cons.prems
  obtain s1 where s1: "record_id s v = Some (mem s v, s1)" "ok s1" "capacity s1 = capacity s"
    by auto
  with Cons.IH [of s1] Cons.prems show ?case by (auto simp: run_Cons)
qed (simp add: run_Nil)

text \<open>A second copy of an id inside the window is refused.\<close>
lemma duplicate_refused:
  assumes "ok s" "valid v" "list_all valid vs" "record_id s v = Some (False, s1)"
    and "length vs < capacity s"
  shows "\<exists>s2 s3. run s1 vs = Some s2 \<and> record_id s2 v = Some (True, s3)"
proof -
  from record_reports [OF assms(1,2)] assms(4) have "ok s1" by auto
  then obtain s2 where s2: "run s1 vs = Some s2" "ok s2" using run_total assms(3) by blast
  then have "mem s2 v" using survives assms by blast
  with record_reports [OF s2(2) assms(2)] s2 show ?thesis by auto
qed

end

end
