(* ===== verification/SeenSet.thy ===== *)
theory SeenSet
  imports ReplayWindow
begin

unbundle bit_operations_syntax

text \<open>
  The replay window (\<open>src/seen.py\<close>, class \<open>SeenSet\<close>): a bounded, exact set of 64-bit ids kept in
  two flat tables with open addressing, linear probing and generational eviction.

  A table is the list of the 8-byte slots of the \<open>bytearray\<close>, each read as the unsigned integer
  that \<open>struct.Struct("!Q")\<close> gives; 0 is the empty slot and the id 0 is held apart in a flag, as
  in the code. The probe loop \<open>while True\<close> is a \<open>partial_function\<close>, so not returning is \<open>None\<close>;
  \<open>slot_of_total\<close> shows it returns whenever a free slot exists, which the invariant \<open>seen_ok\<close>
  (a table is at most half full) guarantees. The invariant also says that every stored id is found
  by its own probe sequence. \<open>seen_ids\<close> is the abstract content; \<open>seen_contains_correct\<close> and
  \<open>seen_add_correct\<close> say the hash table is that set exactly, with no false positive and no false
  negative, and \<open>seen_window\<close> gives the length of the window.
\<close>

record seen_set =
  s_slots :: nat
  s_mask :: int
  s_limit :: nat
  s_seed :: int
  s_young :: "int list"
  s_old :: "int list"
  s_young_count :: nat
  s_old_count :: nat
  s_zero_young :: bool
  s_zero_old :: bool

definition MASK64 :: int where "MASK64 = 0xFFFFFFFFFFFFFFFF"
definition SEEN_MIX :: int where "SEEN_MIX = 0x9E3779B97F4A7C15"

text \<open>\<open>slots = 1; while slots < capacity * 2: slots <<= 1\<close>\<close>

function grow_slots :: "nat \<Rightarrow> nat \<Rightarrow> nat" where
  "grow_slots target slots =
     (if 0 < slots \<and> slots < target then grow_slots target (push_bit 1 slots) else slots)"
  by pat_completeness auto
termination
  by (relation "measure (\<lambda>(t, s). t - s)") (auto simp: push_bit_eq_mult)

declare grow_slots.simps [simp del]

definition new_seen :: "int \<Rightarrow> int \<Rightarrow> seen_set result" where
  "new_seen seed capacity =
     (if capacity < 1 then Inl ValueError
      else let slots = grow_slots (nat capacity * 2) 1 in
        Inr \<lparr> s_slots = slots, s_mask = int slots - 1, s_limit = slots div 2, s_seed = seed,
              s_young = replicate slots 0, s_old = replicate slots 0,
              s_young_count = 0, s_old_count = 0,
              s_zero_young = False, s_zero_old = False \<rparr>)"

definition seen_index :: "seen_set \<Rightarrow> int \<Rightarrow> nat" where
  "seen_index s value =
     nat (drop_bit 24 (((value XOR s_seed s) * SEEN_MIX) AND MASK64) AND s_mask s)"

text \<open>The probe loop: the slot that holds the value, or the first free one on its path.\<close>

partial_function (option) slot_walk :: "int \<Rightarrow> int list \<Rightarrow> int \<Rightarrow> nat \<Rightarrow> nat option" where
  "slot_walk msk table value index =
     (let held = table ! index in
      if held = 0 \<or> held = value then Some index
      else slot_walk msk table value (nat ((int index + 1) AND msk)))"

definition slot_of :: "seen_set \<Rightarrow> int list \<Rightarrow> int \<Rightarrow> nat option" where
  "slot_of s table value = slot_walk (s_mask s) table value (seen_index s value)"

definition seen_rotate :: "seen_set \<Rightarrow> seen_set" where
  "seen_rotate s = s\<lparr> s_old := s_young s, s_old_count := s_young_count s,
     s_zero_old := s_zero_young s, s_young := replicate (s_slots s) 0,
     s_young_count := 0, s_zero_young := False \<rparr>"

text \<open>\<open>__contains__\<close> and \<open>add\<close>; \<open>None\<close> stands for a probe that never ends.\<close>

definition seen_contains :: "seen_set \<Rightarrow> int \<Rightarrow> bool option" where
  "seen_contains s value =
     (if value = 0 then Some (s_zero_young s \<or> s_zero_old s)
      else Option.bind (slot_of s (s_young s) value) (\<lambda>i.
        if s_young s ! i = value then Some True
        else map_option (\<lambda>j. s_old s ! j = value) (slot_of s (s_old s) value)))"

definition seen_bump :: "seen_set \<Rightarrow> seen_set" where
  "seen_bump s =
     (let s' = s\<lparr> s_young_count := Suc (s_young_count s) \<rparr> in
      if s_limit s' \<le> s_young_count s' then seen_rotate s' else s')"

definition seen_add :: "seen_set \<Rightarrow> int \<Rightarrow> (py_error + bool \<times> seen_set) option" where
  "seen_add s value =
     (if \<not> (0 \<le> value \<and> value \<le> MASK64) then Some (Inl ValueError)
      else if value = 0 then
        (if s_zero_young s \<or> s_zero_old s then Some (Inr (True, s))
         else Some (Inr (False, seen_bump (s\<lparr> s_zero_young := True \<rparr>))))
      else Option.bind (slot_of s (s_old s) value) (\<lambda>j.
        if s_old s ! j = value then Some (Inr (True, s))
        else Option.bind (slot_of s (s_young s) value) (\<lambda>i.
          if s_young s ! i = value then Some (Inr (True, s))
          else Some (Inr (False, seen_bump (s\<lparr> s_young := (s_young s)[i := value] \<rparr>))))))"

definition seen_len :: "seen_set \<Rightarrow> nat" where
  "seen_len s = s_young_count s + s_old_count s"

definition seen_capacity :: "seen_set \<Rightarrow> nat" where
  "seen_capacity s = s_limit s"

definition seen_nbytes :: "seen_set \<Rightarrow> nat" where
  "seen_nbytes s = 2 * s_slots s * 8"

definition seen_clear :: "seen_set \<Rightarrow> seen_set" where
  "seen_clear s = s\<lparr> s_young := replicate (s_slots s) 0, s_old := replicate (s_slots s) 0,
     s_young_count := 0, s_old_count := 0, s_zero_young := False, s_zero_old := False \<rparr>"


subsection \<open>Well-formed windows and their content\<close>

definition filled :: "int list \<Rightarrow> nat" where
  "filled t = length (filter (\<lambda>x. x \<noteq> 0) t)"

definition table_ok :: "seen_set \<Rightarrow> int list \<Rightarrow> bool" where
  "table_ok s t \<longleftrightarrow> length t = s_slots s \<and> (\<forall>x \<in> set t. 0 \<le> x \<and> x \<le> MASK64) \<and>
     (\<forall>j < s_slots s. t ! j \<noteq> 0 \<longrightarrow> slot_of s t (t ! j) = Some j)"

definition geometry_ok :: "seen_set \<Rightarrow> bool" where
  "geometry_ok s \<longleftrightarrow> (\<exists>k > 0. s_slots s = 2 ^ k) \<and> s_mask s = int (s_slots s) - 1
     \<and> s_limit s = s_slots s div 2"

definition seen_ok :: "seen_set \<Rightarrow> bool" where
  "seen_ok s \<longleftrightarrow> geometry_ok s \<and> table_ok s (s_young s) \<and> table_ok s (s_old s)
     \<and> s_young_count s = filled (s_young s) + (if s_zero_young s then 1 else 0)
     \<and> s_old_count s = filled (s_old s) + (if s_zero_old s then 1 else 0)
     \<and> s_young_count s < s_limit s \<and> s_old_count s \<le> s_limit s"

definition young_ids :: "seen_set \<Rightarrow> int set" where
  "young_ids s = (set (s_young s) - {0}) \<union> (if s_zero_young s then {0} else {})"

definition old_ids :: "seen_set \<Rightarrow> int set" where
  "old_ids s = (set (s_old s) - {0}) \<union> (if s_zero_old s then {0} else {})"

definition seen_ids :: "seen_set \<Rightarrow> int set" where
  "seen_ids s = young_ids s \<union> old_ids s"

subsection \<open>Indices and the probe walk\<close>
lemma and_slots_mask: "x AND (int (2 ^ k) - 1) = x mod 2 ^ k"
  by (simp add: mask_eq_exp_minus_1 [symmetric] take_bit_eq_mask [symmetric] take_bit_eq_mod)

lemma seen_index_lt: "geometry_ok s \<Longrightarrow> seen_index s v < s_slots s"
  by (auto simp: geometry_ok_def seen_index_def and_slots_mask nat_less_iff)

lemma next_slot: "nat ((int i + 1) AND (int (2 ^ k) - 1)) = Suc i mod 2 ^ k"
proof -
  have "(int i + 1) mod 2 ^ k = int (Suc i mod 2 ^ k)" by (simp add: zmod_int add.commute)
  then show ?thesis by (simp only: and_slots_mask nat_int)
qed

lemma slot_walk_stop: "t ! i = 0 \<or> t ! i = v \<Longrightarrow> slot_walk m t v i = Some i"
  by (subst slot_walk.simps) (simp add: Let_def)

lemma slot_walk_go:
  "t ! i \<noteq> 0 \<Longrightarrow> t ! i \<noteq> v \<Longrightarrow> slot_walk m t v i = slot_walk m t v (nat ((int i + 1) AND m))"
  by (subst slot_walk.simps) (simp add: Let_def)

lemma slot_walk_induct [consumes 1, case_names stop go]:
  assumes ret: "slot_walk m t v i = Some r"
    and stop: "\<And>i. t ! i = 0 \<or> t ! i = v \<Longrightarrow> P i i"
    and go: "\<And>i r. t ! i \<noteq> 0 \<Longrightarrow> t ! i \<noteq> v \<Longrightarrow> P (nat ((int i + 1) AND m)) r \<Longrightarrow> P i r"
  shows "P i r"
proof -
  have "m' = m \<longrightarrow> t' = t \<longrightarrow> v' = v \<longrightarrow> P i' r'"
    if "slot_walk m' t' v' i' = Some r'" for m' t' v' i' r'
  proof (rule slot_walk.raw_induct
      [where P = "\<lambda>m' t' v' i' r'. m' = m \<longrightarrow> t' = t \<longrightarrow> v' = v \<longrightarrow> P i' r'", OF _ that])
    fix f m' t' v' i' r'
    assume IH: "\<And>m' t' v' i' r'. f m' t' v' i' = Some r' \<Longrightarrow>
        m' = m \<longrightarrow> t' = t \<longrightarrow> v' = v \<longrightarrow> P i' r'"
      and eq: "(let held = t' ! i' in if held = 0 \<or> held = v' then Some i'
        else f m' t' v' (nat ((int i' + 1) AND m'))) = Some r'"
    show "m' = m \<longrightarrow> t' = t \<longrightarrow> v' = v \<longrightarrow> P i' r'"
      using eq IH [of m' t' v' "nat ((int i' + 1) AND m')" r'] stop [of i'] go [of i' r']
      by (auto simp: Let_def split: if_splits)
  qed
  then show ?thesis using ret by blast
qed

lemma slot_walk_found: "slot_walk m t v i = Some r \<Longrightarrow> t ! r = 0 \<or> t ! r = v"
  by (induction rule: slot_walk_induct) auto

lemma slot_walk_lt:
  "slot_walk (int (2 ^ k) - 1) t v i = Some r \<Longrightarrow> i < 2 ^ k \<Longrightarrow> r < 2 ^ k"
  by (induction rule: slot_walk_induct) (simp_all only: next_slot, simp)

lemma slot_walk_other:
  "slot_walk m t v i = Some r \<Longrightarrow> t ! r = v \<Longrightarrow> v \<noteq> 0 \<Longrightarrow> t ! p = 0 \<Longrightarrow>
     slot_walk m (t[p := w]) v i = Some r"
proof (induction rule: slot_walk_induct)
  case (stop i)
  then have "i \<noteq> p" by auto
  with stop show ?case by (simp add: slot_walk_stop)
next
  case (go i r)
  then have "t[p := w] ! i = t ! i" by (cases "i = p") simp_all
  with go show ?case by (simp add: slot_walk_go [of "t[p := w]" i])
qed

lemma slot_walk_self:
  "slot_walk m t v i = Some r \<Longrightarrow> t ! r = 0 \<Longrightarrow> r < length t \<Longrightarrow>
     slot_walk m (t[r := v]) v i = Some r"
proof (induction rule: slot_walk_induct)
  case (stop i)
  then show ?case by (simp add: slot_walk_stop)
next
  case (go i r)
  then have "t[r := v] ! i = t ! i" by (cases "i = r") simp_all
  with go show ?case by (simp add: slot_walk_go [of "t[r := v]" i])
qed

text \<open>A free slot ahead stops the walk: induction on the distance to it.\<close>
lemma slot_walk_total:
  "t ! ((i + d) mod 2 ^ k) = 0 \<Longrightarrow> i < 2 ^ k \<Longrightarrow> \<exists>r. slot_walk (int (2 ^ k) - 1) t v i = Some r"
proof (induction d arbitrary: i)
  case 0
  then show ?case by (auto simp: slot_walk_stop)
next
  case (Suc d)
  show ?case
  proof (cases "t ! i = 0 \<or> t ! i = v")
    case False
    have "(Suc i mod 2 ^ k + d) mod 2 ^ k = (i + Suc d) mod 2 ^ k"
      by (simp add: mod_add_left_eq)
    with Suc.prems have "t ! ((Suc i mod 2 ^ k + d) mod 2 ^ k) = 0" by simp
    then have "\<exists>r. slot_walk (int (2 ^ k) - 1) t v (Suc i mod 2 ^ k) = Some r"
      by (rule Suc.IH) simp
    moreover from False have "slot_walk (int (2 ^ k) - 1) t v i
        = slot_walk (int (2 ^ k) - 1) t v (Suc i mod 2 ^ k)"
      using slot_walk_go [of t i v "int (2 ^ k) - 1"] by (simp only: next_slot) simp
    ultimately show ?thesis by simp
  qed (auto simp: slot_walk_stop)
qed

lemma free_slot: "filled t < length t \<Longrightarrow> \<exists>j < length t. t ! j = 0"
proof (rule ccontr)
  assume f: "filled t < length t" and "\<not> (\<exists>j < length t. t ! j = 0)"
  then have "filter (\<lambda>x. x \<noteq> 0) t = t" by (auto simp: filter_id_conv in_set_conv_nth)
  with f show False by (simp add: filled_def)
qed

lemma slot_of_total:
  assumes "geometry_ok s" "length t = s_slots s" "filled t < s_slots s"
  shows "\<exists>i < s_slots s. slot_of s t v = Some i"
proof -
  obtain k where k: "s_slots s = 2 ^ k" "s_mask s = int (2 ^ k) - 1"
    using assms(1) by (auto simp: geometry_ok_def)
  obtain j where j: "j < 2 ^ k" "t ! j = 0" using free_slot [of t] assms(2,3) k by auto
  let ?a = "seen_index s v"
  have a: "?a < 2 ^ k" using seen_index_lt [OF assms(1), of v] k by simp
  have "(?a + (2 ^ k - ?a + j)) mod 2 ^ k = j" using a j(1) by simp
  then obtain i where i: "slot_walk (int (2 ^ k) - 1) t v ?a = Some i"
    using slot_walk_total [of t ?a "2 ^ k - ?a + j" k v] a j(2) by auto
  with slot_walk_lt [OF i a] k show ?thesis by (auto simp: slot_of_def)
qed

subsection \<open>Writing an id into a table\<close>
lemma slot_of_hit:
  assumes "table_ok s t" "v \<noteq> 0" "slot_of s t v = Some i" "i < s_slots s"
  shows "t ! i = v \<longleftrightarrow> v \<in> set t"
  using assms by (auto simp: table_ok_def in_set_conv_nth)

lemma filled_card: "filled t = card {j. j < length t \<and> t ! j \<noteq> 0}"
  by (simp add: filled_def length_filter_conv_card)

lemma filled_write:
  assumes "i < length t" "t ! i = 0" "v \<noteq> 0"
  shows "filled (t[i := v]) = Suc (filled t)"
proof -
  have "{j. j < length t \<and> t[i := v] ! j \<noteq> 0} = insert i {j. j < length t \<and> t ! j \<noteq> 0}"
    using assms by (auto simp: nth_list_update)
  then show ?thesis using assms by (simp add: filled_card)
qed

lemma set_write:
  assumes "i < length t" "t ! i = 0"
  shows "set (t[i := v]) - {0} = insert v (set t) - {0}"
proof (intro set_eqI)
  fix x
  show "x \<in> set (t[i := v]) - {0} \<longleftrightarrow> x \<in> insert v (set t) - {0}"
    using assms by (auto simp: in_set_conv_nth nth_list_update)
qed

lemma table_ok_write:
  assumes "geometry_ok s" "table_ok s t" "v \<noteq> 0" "0 \<le> v" "v \<le> MASK64"
    and "slot_of s t v = Some i" "t ! i = 0" "i < s_slots s"
  shows "table_ok s (t[i := v])"
  unfolding table_ok_def
proof (intro conjI ballI allI impI)
  show "length (t[i := v]) = s_slots s" using assms by (simp add: table_ok_def)
next
  fix x assume "x \<in> set (t[i := v])"
  then have "x = v \<or> x \<in> set t" using set_update_subset_insert by fastforce
  with assms show "0 \<le> x" "x \<le> MASK64" by (auto simp: table_ok_def)
next
  fix j assume j: "j < s_slots s" "t[i := v] ! j \<noteq> 0"
  have len: "length t = s_slots s" using assms by (simp add: table_ok_def)
  show "slot_of s (t[i := v]) (t[i := v] ! j) = Some j"
  proof (cases "j = i")
    case True
    with assms len show ?thesis by (simp add: slot_of_def slot_walk_self)
  next
    case False
    with j assms have "slot_of s t (t ! j) = Some j" by (simp add: table_ok_def)
    with False j assms show ?thesis by (simp add: slot_of_def slot_walk_other)
  qed
qed

subsection \<open>The abstract window and the refinement\<close>

text \<open>
  What the class promises, without tables: two generations of ids; an id in either is seen, a new
  id joins the young one, and a young generation that reaches the capacity becomes the old one.
\<close>

record gen_window =
  g_young :: "int set"
  g_old :: "int set"
  g_capacity :: nat

definition gen_add :: "gen_window \<Rightarrow> int \<Rightarrow> bool \<times> gen_window" where
  "gen_add g v =
     (if v \<in> g_young g \<union> g_old g then (True, g)
      else let y = insert v (g_young g) in
        if g_capacity g \<le> card y then (False, g\<lparr> g_young := {}, g_old := y \<rparr>)
        else (False, g\<lparr> g_young := y \<rparr>))"

definition seen_abs :: "seen_set \<Rightarrow> gen_window" where
  "seen_abs s = \<lparr> g_young = young_ids s, g_old = old_ids s, g_capacity = seen_capacity s \<rparr>"

lemma table_ok_distinct:
  assumes "table_ok s t"
  shows "filled t = card (set t - {0})"
proof -
  have "inj_on (\<lambda>j. t ! j) {j. j < length t \<and> t ! j \<noteq> 0}"
    using assms by (auto simp: inj_on_def table_ok_def) (metis option.inject)
  from card_image [OF this] have "card ((\<lambda>j. t ! j) ` {j. j < length t \<and> t ! j \<noteq> 0}) = filled t" by (simp only: filled_card)
  moreover have "(\<lambda>j. t ! j) ` {j. j < length t \<and> t ! j \<noteq> 0} = set t - {0}"
    by (auto simp: in_set_conv_nth image_def)
  ultimately show ?thesis by simp
qed

lemma card_young_ids: "seen_ok s \<Longrightarrow> card (young_ids s) = s_young_count s"
  by (auto simp: seen_ok_def young_ids_def table_ok_distinct card.insert_remove)

lemma half_full:
  assumes "seen_ok s"
  shows "filled (s_young s) < s_slots s" "filled (s_old s) < s_slots s"
  using assms by (auto simp: seen_ok_def geometry_ok_def split: if_splits)

lemma young_probe:
  assumes "seen_ok s" "v \<noteq> 0"
  obtains i where "slot_of s (s_young s) v = Some i" "i < s_slots s"
    "s_young s ! i = v \<longleftrightarrow> v \<in> set (s_young s)"
proof -
  have "geometry_ok s" "length (s_young s) = s_slots s" "table_ok s (s_young s)"
    using assms by (auto simp: seen_ok_def table_ok_def)
  with slot_of_total [of s "s_young s" v] half_full [OF assms(1)] slot_of_hit assms(2) that
  show ?thesis by blast
qed

lemma old_probe:
  assumes "seen_ok s" "v \<noteq> 0"
  obtains i where "slot_of s (s_old s) v = Some i" "i < s_slots s"
    "s_old s ! i = v \<longleftrightarrow> v \<in> set (s_old s)"
proof -
  have "geometry_ok s" "length (s_old s) = s_slots s" "table_ok s (s_old s)"
    using assms by (auto simp: seen_ok_def table_ok_def)
  with slot_of_total [of s "s_old s" v] half_full [OF assms(1)] slot_of_hit assms(2) that
  show ?thesis by blast
qed

lemma seen_contains_iff:
  assumes "seen_ok s"
  shows "seen_contains s v = Some (v \<in> seen_ids s)"
proof (cases "v = 0")
  case True
  then show ?thesis by (simp add: seen_contains_def seen_ids_def young_ids_def old_ids_def)
next
  case False
  obtain i j where "slot_of s (s_young s) v = Some i" "s_young s ! i = v \<longleftrightarrow> v \<in> set (s_young s)"
    and "slot_of s (s_old s) v = Some j" "s_old s ! j = v \<longleftrightarrow> v \<in> set (s_old s)"
    using young_probe [OF assms False] old_probe [OF assms False] by metis
  with False show ?thesis
    by (auto simp: seen_contains_def seen_ids_def young_ids_def old_ids_def)
qed

lemma table_ok_cong:
  "s_slots s' = s_slots s \<Longrightarrow> s_mask s' = s_mask s \<Longrightarrow> s_seed s' = s_seed s \<Longrightarrow>
     table_ok s' t = table_ok s t"
  by (simp add: table_ok_def slot_of_def seen_index_def)

lemma table_ok_empty: "table_ok s (replicate (s_slots s) 0)"
  by (auto simp: table_ok_def MASK64_def)

lemma filled_empty [simp]: "filled (replicate n 0) = 0"
  by (simp add: filled_def)

text \<open>An id was written (or the zero flag set) and is not counted yet.\<close>

definition bump_pre :: "seen_set \<Rightarrow> bool" where
  "bump_pre s \<longleftrightarrow> geometry_ok s \<and> table_ok s (s_young s) \<and> table_ok s (s_old s)
     \<and> Suc (s_young_count s) = filled (s_young s) + (if s_zero_young s then 1 else 0)
     \<and> s_old_count s = filled (s_old s) + (if s_zero_old s then 1 else 0)
     \<and> s_young_count s < s_limit s \<and> s_old_count s \<le> s_limit s"

lemma geometry_limit_pos: "geometry_ok s \<Longrightarrow> 0 < s_limit s"
  by (auto simp: geometry_ok_def dest: gr0_implies_Suc)

lemma seen_bump_spec:
  assumes "bump_pre s"
  shows "seen_ok (seen_bump s)"
    and "seen_abs (seen_bump s) =
      (if s_limit s \<le> Suc (s_young_count s)
       then \<lparr> g_young = {}, g_old = young_ids s, g_capacity = s_limit s \<rparr>
       else \<lparr> g_young = young_ids s, g_old = old_ids s, g_capacity = s_limit s \<rparr>)"
proof -
  let ?s = "s\<lparr> s_young_count := Suc (s_young_count s) \<rparr>"
  have tab: "table_ok ?s t = table_ok s t" "table_ok (seen_rotate ?s) t = table_ok s t" for t
    by (rule table_ok_cong; simp add: seen_rotate_def)+
  have geo: "geometry_ok ?s = geometry_ok s" "geometry_ok (seen_rotate ?s) = geometry_ok s"
    by (simp_all add: geometry_ok_def seen_rotate_def)
  have pos: "0 < s_limit s"
    using assms geometry_limit_pos by (simp add: bump_pre_def)
  have keep: "seen_ok ?s" if "Suc (s_young_count s) < s_limit s"
    unfolding seen_ok_def tab geo using assms that by (simp add: bump_pre_def)
  have rot: "seen_ok (seen_rotate ?s)"
    unfolding seen_ok_def tab geo using assms pos table_ok_empty [of s]
    by (simp add: bump_pre_def seen_rotate_def)
  show "seen_ok (seen_bump s)"
    using keep rot by (simp add: seen_bump_def Let_def not_le)
  show "seen_abs (seen_bump s) =
      (if s_limit s \<le> Suc (s_young_count s)
       then \<lparr> g_young = {}, g_old = young_ids s, g_capacity = s_limit s \<rparr>
       else \<lparr> g_young = young_ids s, g_old = old_ids s, g_capacity = s_limit s \<rparr>)"
    by (simp add: seen_bump_def Let_def seen_abs_def seen_rotate_def young_ids_def old_ids_def
        seen_capacity_def set_replicate_conv_if)
qed

lemma young_ids_write:
  assumes "i < length (s_young s)" "s_young s ! i = 0" "v \<noteq> 0"
  shows "young_ids (s\<lparr> s_young := (s_young s)[i := v] \<rparr>) = insert v (young_ids s)"
  using set_write [OF assms(1,2), of v] assms(3) by (simp add: young_ids_def insert_Diff_if)

text \<open>
  The refinement: on a well-formed window and a 64-bit id, \<open>add\<close> always returns, keeps the window
  well formed, and its answer and its effect are those of the abstract window.
\<close>
lemma seen_add_new_zero:
  assumes "seen_ok s" "0 \<notin> seen_ids s"
  shows "bump_pre (s\<lparr> s_zero_young := True \<rparr>)"
    and "young_ids (s\<lparr> s_zero_young := True \<rparr>) = insert 0 (young_ids s)"
    and "old_ids (s\<lparr> s_zero_young := True \<rparr>) = old_ids s"
proof -
  have tab: "table_ok (s\<lparr> s_zero_young := True \<rparr>) t = table_ok s t" for t
    by (rule table_ok_cong) simp_all
  have "\<not> s_zero_young s" using assms(2) by (auto simp: seen_ids_def young_ids_def)
  with assms(1) show "bump_pre (s\<lparr> s_zero_young := True \<rparr>)"
    by (auto simp: bump_pre_def seen_ok_def tab geometry_ok_def)
qed (auto simp: young_ids_def old_ids_def)

lemma seen_add_new_nonzero:
  assumes "seen_ok s" "v \<noteq> 0" "0 \<le> v" "v \<le> MASK64"
    and "slot_of s (s_young s) v = Some i" "i < s_slots s" "s_young s ! i = 0"
  shows "bump_pre (s\<lparr> s_young := (s_young s)[i := v] \<rparr>)"
    and "young_ids (s\<lparr> s_young := (s_young s)[i := v] \<rparr>) = insert v (young_ids s)"
    and "old_ids (s\<lparr> s_young := (s_young s)[i := v] \<rparr>) = old_ids s"
proof -
  let ?s = "s\<lparr> s_young := (s_young s)[i := v] \<rparr>"
  have ok: "geometry_ok s" "table_ok s (s_young s)" "length (s_young s) = s_slots s"
    using assms(1) by (auto simp: seen_ok_def table_ok_def)
  have tab: "table_ok ?s t = table_ok s t" for t by (rule table_ok_cong) simp_all
  have "table_ok s ((s_young s)[i := v])"
    using ok assms by (intro table_ok_write) auto
  moreover have "filled ((s_young s)[i := v]) = Suc (filled (s_young s))"
    using ok assms by (intro filled_write) auto
  ultimately show "bump_pre ?s"
    using assms(1) by (auto simp: bump_pre_def seen_ok_def tab geometry_ok_def)
  show "young_ids ?s = insert v (young_ids s)"
    using ok assms by (intro young_ids_write) auto
qed (simp add: old_ids_def)

lemma seen_add_refines_ex:
  assumes ok: "seen_ok s" and v: "0 \<le> v" "v \<le> MASK64"
  shows "\<exists>b s'. seen_add s v = Some (Inr (b, s')) \<and> seen_ok s' \<and>
    gen_add (seen_abs s) v = (b, seen_abs s')"
proof -
  have bump: "seen_ok (seen_bump t) \<and> gen_add (seen_abs s) v = (False, seen_abs (seen_bump t))"
    if "bump_pre t" "young_ids t = insert v (young_ids s)" "old_ids t = old_ids s"
      "v \<notin> seen_ids s" "s_limit t = s_limit s" "s_young_count t = s_young_count s" for t
  proof -
    have "finite (young_ids s)" "v \<notin> young_ids s"
      using that(4) by (auto simp: young_ids_def seen_ids_def)
    then have "card (young_ids t) = Suc (s_young_count s)"
      using that(2) card_young_ids [OF ok] by simp
    with that seen_bump_spec [OF that(1)] show ?thesis
      by (auto simp: gen_add_def seen_abs_def seen_ids_def seen_capacity_def Let_def)
  qed
  have hit: "gen_add (seen_abs s) v = (True, seen_abs s)" if "v \<in> seen_ids s"
    using that by (simp add: gen_add_def seen_abs_def seen_ids_def)
  show ?thesis
  proof (cases "v = 0")
    case True
    show ?thesis
    proof (cases "0 \<in> seen_ids s")
      case seen: True
      then have "s_zero_young s \<or> s_zero_old s"
        by (auto simp: seen_ids_def young_ids_def old_ids_def split: if_splits)
      with True seen hit ok show ?thesis by (auto simp: seen_add_def MASK64_def)
    next
      case new: False
      then have "\<not> s_zero_young s" "\<not> s_zero_old s"
        by (auto simp: seen_ids_def young_ids_def old_ids_def)
      with True new bump [of "s\<lparr> s_zero_young := True \<rparr>"] seen_add_new_zero [OF ok new]
      show ?thesis by (auto simp: seen_add_def MASK64_def)
    qed
  next
    case False
    obtain j where j: "slot_of s (s_old s) v = Some j" "j < s_slots s"
      "s_old s ! j = v \<longleftrightarrow> v \<in> set (s_old s)" using old_probe [OF ok False] by blast
    obtain i where i: "slot_of s (s_young s) v = Some i" "i < s_slots s"
      "s_young s ! i = v \<longleftrightarrow> v \<in> set (s_young s)" using young_probe [OF ok False] by blast
    show ?thesis
    proof (cases "v \<in> seen_ids s")
      case True
      with False i j hit ok v show ?thesis
        by (auto simp: seen_add_def seen_ids_def young_ids_def old_ids_def split: if_splits)
    next
      case new: False
      with False i j have miss: "s_old s ! j \<noteq> v" "s_young s ! i \<noteq> v"
        by (auto simp: seen_ids_def young_ids_def old_ids_def)
      have "s_young s ! i = 0"
        using slot_walk_found [of _ "s_young s" v _ i] i(1) miss by (auto simp: slot_of_def)
      with new False i j miss v bump [of "s\<lparr> s_young := (s_young s)[i := v] \<rparr>"]
        seen_add_new_nonzero [OF ok False v i(1,2)]
      show ?thesis by (auto simp: seen_add_def)
    qed
  qed
qed

subsection \<open>The length of the window\<close>

fun gen_run :: "gen_window \<Rightarrow> int list \<Rightarrow> gen_window" where
  "gen_run g [] = g"
| "gen_run g (v # vs) = gen_run (snd (gen_add g v)) vs"

definition gen_ids :: "gen_window \<Rightarrow> int set" where
  "gen_ids g = g_young g \<union> g_old g"

definition gen_ok :: "gen_window \<Rightarrow> bool" where
  "gen_ok g \<longleftrightarrow> finite (g_young g) \<and> card (g_young g) < g_capacity g"

lemma gen_add_ok: "gen_ok g \<Longrightarrow> gen_ok (snd (gen_add g v)) \<and> g_capacity (snd (gen_add g v)) = g_capacity g"
  by (auto simp: gen_add_def gen_ok_def Let_def card_insert_if)

lemma gen_add_new:
  "v \<notin> gen_ids g \<Longrightarrow> v \<in> g_young (snd (gen_add g v)) \<or>
     v \<in> g_old (snd (gen_add g v)) \<and> g_young (snd (gen_add g v)) = {}"
  by (simp add: gen_add_def Let_def gen_ids_def)

lemma gen_old_survives:
  "gen_ok g \<Longrightarrow> v \<in> g_old g \<Longrightarrow> card (g_young g) + length vs < g_capacity g \<Longrightarrow>
     v \<in> gen_ids (gen_run g vs)"
proof (induction vs arbitrary: g)
  case (Cons x vs)
  let ?g = "snd (gen_add g x)"
  have "v \<in> g_old ?g \<and> card (g_young ?g) \<le> Suc (card (g_young g))"
    using Cons.prems by (auto simp: gen_add_def Let_def gen_ok_def card_insert_if)
  with Cons gen_add_ok [of g x] show ?case by simp
qed (simp add: gen_ids_def)

lemma gen_survives:
  "gen_ok g \<Longrightarrow> v \<in> g_young g \<or> (v \<in> g_old g \<and> g_young g = {}) \<Longrightarrow>
     length vs < g_capacity g \<Longrightarrow> v \<in> gen_ids (gen_run g vs)"
proof (induction vs arbitrary: g)
  case (Cons x vs)
  let ?g = "snd (gen_add g x)"
  show ?case
  proof (cases "v \<in> g_young g")
    case True
    then have "v \<in> g_young ?g \<or> (v \<in> g_old ?g \<and> g_young ?g = {})"
      by (auto simp: gen_add_def Let_def)
    with Cons gen_add_ok [of g x] show ?thesis by simp
  next
    case False
    with Cons.prems gen_old_survives [of g v "x # vs"] show ?thesis by simp
  qed
qed (auto simp: gen_ids_def)

subsection \<open>Construction, and the window the node uses\<close>
lemma grow_slots_pow:
  "\<exists>k. grow_slots target (2 ^ j) = 2 ^ k \<and> j \<le> k \<and> target \<le> 2 ^ k"
proof (induction "target - 2 ^ j" arbitrary: j rule: less_induct)
  case less
  show ?case
  proof (cases "(2 :: nat) ^ j < target")
    case True
    then have "target - 2 ^ Suc j < target - 2 ^ j" by (intro diff_less_mono2) auto
    from less [OF this] obtain k where
      "grow_slots target (2 ^ Suc j) = 2 ^ k" "Suc j \<le> k" "target \<le> 2 ^ k" by auto
    with True show ?thesis
      by (subst grow_slots.simps) (auto simp: push_bit_eq_mult mult.commute intro!: exI [of _ k])
  next
    case False
    then show ?thesis by (subst grow_slots.simps) auto
  qed
qed

lemma new_seen_ok:
  assumes "new_seen seed cap = Inr s"
  shows "seen_ok s" "seen_abs s = \<lparr> g_young = {}, g_old = {}, g_capacity = s_limit s \<rparr>"
    "nat cap \<le> s_limit s"
proof -
  have cap: "1 \<le> cap" using assms by (auto simp: new_seen_def split: if_splits)
  obtain k where k: "grow_slots (nat cap * 2) 1 = 2 ^ k" "nat cap * 2 \<le> 2 ^ k"
    using grow_slots_pow [of "nat cap * 2" 0] by auto
  have "0 < k" using k(2) cap by (cases k) auto
  have fields: "s_slots s = 2 ^ k" "s_mask s = int (s_slots s) - 1" "s_limit s = s_slots s div 2"
    "s_young s = replicate (s_slots s) 0" "s_old s = replicate (s_slots s) 0"
    "s_young_count s = 0" "s_old_count s = 0" "\<not> s_zero_young s" "\<not> s_zero_old s"
    using assms cap k by (auto simp: new_seen_def Let_def)
  have geo: "geometry_ok s" using fields \<open>0 < k\<close> by (auto simp: geometry_ok_def)
  with geometry_limit_pos [OF geo] table_ok_empty [of s] fields
  show "seen_ok s" by (simp add: seen_ok_def)
  show "seen_abs s = \<lparr> g_young = {}, g_old = {}, g_capacity = s_limit s \<rparr>"
    using fields by (simp add: seen_abs_def young_ids_def old_ids_def seen_capacity_def
        set_replicate_conv_if)
  show "nat cap \<le> s_limit s" using fields k by simp
qed

text \<open>\<open>MeshNode._is_seen\<close> is \<open>add\<close>; a raise is \<open>None\<close>.\<close>

definition is_seen :: "seen_set \<Rightarrow> int \<Rightarrow> (bool \<times> seen_set) option" where
  "is_seen s key = (case seen_add s key of Some (Inr p) \<Rightarrow> Some p | _ \<Rightarrow> None)"

primrec seen_run :: "seen_set \<Rightarrow> int list \<Rightarrow> seen_set option" where
  "seen_run s [] = Some s"
| "seen_run s (v # vs) = Option.bind (is_seen s v) (\<lambda>(b, s'). seen_run s' vs)"

abbreviation valid_id :: "int \<Rightarrow> bool" where
  "valid_id v \<equiv> 0 \<le> v \<and> v \<le> MASK64"

lemma is_seen_sim:
  assumes "seen_ok s" "valid_id v"
  shows "\<exists>s'. is_seen s v = Some (v \<in> seen_ids s, s') \<and> seen_ok s' \<and>
    snd (gen_add (seen_abs s) v) = seen_abs s' \<and> s_limit s' = s_limit s"
proof -
  obtain b s' where s': "seen_add s v = Some (Inr (b, s'))" "seen_ok s'"
    "gen_add (seen_abs s) v = (b, seen_abs s')" using seen_add_refines_ex assms by blast
  from s'(3) have "b = (v \<in> seen_ids s)" "g_capacity (seen_abs s') = g_capacity (seen_abs s)"
    by (auto simp: gen_add_def Let_def seen_ids_def seen_abs_def split: if_splits)
  with s' show ?thesis by (auto simp: is_seen_def seen_abs_def seen_capacity_def)
qed

lemma seen_run_sim:
  "seen_ok s \<Longrightarrow> list_all valid_id vs \<Longrightarrow>
     \<exists>s'. seen_run s vs = Some s' \<and> seen_ok s' \<and> seen_abs s' = gen_run (seen_abs s) vs"
proof (induction vs arbitrary: s)
  case (Cons v vs)
  then obtain s1 where "is_seen s v = Some (v \<in> seen_ids s, s1)" "seen_ok s1"
    "snd (gen_add (seen_abs s) v) = seen_abs s1" using is_seen_sim [of s v] by auto
  with Cons show ?case by auto
qed simp

lemma seen_ids_abs: "seen_ids s = gen_ids (seen_abs s)"
  by (simp add: seen_ids_def gen_ids_def seen_abs_def)

lemma seen_abs_ok: "seen_ok s \<Longrightarrow> gen_ok (seen_abs s)"
proof -
  assume ok: "seen_ok s"
  then have "s_young_count s < s_limit s" by (simp add: seen_ok_def)
  with card_young_ids [OF ok] show ?thesis
    by (simp add: gen_ok_def seen_abs_def seen_capacity_def young_ids_def)
qed

interpretation seen: replay_window "\<lambda>s v. v \<in> seen_ids s" is_seen s_limit seen_ok valid_id seen_run
proof unfold_locales
  fix s v assume "seen_ok s" "valid_id v"
  then show "\<exists>s'. is_seen s v = Some (v \<in> seen_ids s, s') \<and> seen_ok s' \<and> s_limit s' = s_limit s"
    using is_seen_sim by blast
next
  fix s v vs s' s''
  assume a: "seen_ok s" "valid_id v" "list_all valid_id vs" "is_seen s v = Some (False, s')"
    "seen_run s' vs = Some s''" "length vs < s_limit s"
  obtain s1 where s1: "is_seen s v = Some (v \<in> seen_ids s, s1)" "seen_ok s1"
    "snd (gen_add (seen_abs s) v) = seen_abs s1" "s_limit s1 = s_limit s"
    using is_seen_sim [OF a(1,2)] by blast
  with a(4) have s': "s1 = s'" "v \<notin> seen_ids s" by auto
  have "v \<in> g_young (seen_abs s') \<or> v \<in> g_old (seen_abs s') \<and> g_young (seen_abs s') = {}"
    using gen_add_new [of v "seen_abs s"] s' s1(3) by (simp add: seen_ids_abs)
  moreover obtain s2 where "seen_run s' vs = Some s2" "seen_abs s2 = gen_run (seen_abs s') vs"
    using seen_run_sim [of s' vs] s1(2) s'(1) a(3) by blast
  ultimately show "v \<in> seen_ids s''"
    using gen_survives [of "seen_abs s'" v vs] seen_abs_ok [of s'] s1(2,4) s'(1) a(5,6)
    by (simp add: seen_ids_abs seen_abs_def seen_capacity_def)
qed simp_all

subsection \<open>Properties\<close>

text \<open>
  C22: A replay window built by the constructor is, after any sequence of 64-bit ids, exactly the
  abstract generational window: every \<open>add\<close> returned (the probe loop stopped and nothing was
  raised), and a lookup answers membership in the two abstract generations for every id, so there
  is neither a false positive nor a false negative.
\<close>
theorem seen_refines:
  assumes "new_seen seed cap = Inr s" and "list_all valid_id vs"
  shows "\<exists>s'. seen_run s vs = Some s' \<and>
    seen_abs s' = gen_run \<lparr> g_young = {}, g_old = {}, g_capacity = seen_capacity s \<rparr> vs \<and>
    (\<forall>v. seen_contains s' v = Some (v \<in> gen_ids (seen_abs s')))"
proof -
  have "seen_ok s" by (rule new_seen_ok(1) [OF assms(1)])
  then obtain s' where "seen_run s vs = Some s'" "seen_ok s'"
    "seen_abs s' = gen_run (seen_abs s) vs" using seen_run_sim assms(2) by blast
  with new_seen_ok(2) [OF assms(1)] seen_contains_iff [of s'] show ?thesis
    by (simp add: seen_ids_abs seen_capacity_def)
qed

theorem seen_refines_witness:
  "\<exists>s s'. new_seen 99 1 = Inr s \<and> seen_run s [5, 5, 0] = Some s' \<and>
     seen_contains s' 5 = Some False \<and> seen_contains s' 0 = Some True"
proof -
  obtain s where s: "new_seen 99 1 = Inr s" "s_limit s = 1"
    by (simp add: new_seen_def grow_slots.simps Let_def push_bit_eq_mult)
  have "list_all valid_id [5, 5, 0]" by (simp add: MASK64_def)
  from seen_refines [OF s(1) this] s show ?thesis
    by (auto simp: seen_capacity_def gen_add_def gen_ids_def Let_def)
qed

text \<open>
  C21: The anti-replay guarantee. An id that \<open>_is_seen\<close> reported as new is reported as already seen
  whenever it comes again, as long as fewer than \<open>capacity\<close> other ids arrived in between,
  whatever they are.
\<close>
theorem seen_window:
  assumes "seen_ok s" and "valid_id v" and "list_all valid_id vs"
    and "is_seen s v = Some (False, s1)" and "length vs < seen_capacity s"
  shows "\<exists>s2 s3. seen_run s1 vs = Some s2 \<and> is_seen s2 v = Some (True, s3)"
  using seen.duplicate_refused assms unfolding seen_capacity_def by blast

theorem seen_window_witness:
  "\<exists>s s1 s2 s3. new_seen 99 2 = Inr s \<and> is_seen s 5 = Some (False, s1) \<and>
     seen_run s1 [7] = Some s2 \<and> is_seen s2 5 = Some (True, s3)"
proof -
  obtain s where s: "new_seen 99 2 = Inr s" "s_limit s = 2"
    by (simp add: new_seen_def grow_slots.simps Let_def push_bit_eq_mult)
  have ok: "seen_ok s" by (rule new_seen_ok(1) [OF s(1)])
  have v: "valid_id 5" "list_all valid_id [7]" by (simp_all add: MASK64_def)
  have "5 \<notin> seen_ids s" by (simp add: seen_ids_abs new_seen_ok(2) [OF s(1)] gen_ids_def)
  with is_seen_sim [OF ok v(1)] obtain s1 where s1: "is_seen s 5 = Some (False, s1)" by auto
  from seen_window [OF ok v s1] s s1 show ?thesis by (auto simp: seen_capacity_def)
qed

text \<open>
  The window stays bounded. Whatever 64-bit ids arrive, it remembers at most twice its
  capacity less one, its two tables never grow, and at least the requested number of ids is its
  capacity.
\<close>
theorem seen_bounded:
  assumes "new_seen seed cap = Inr s" and "list_all valid_id vs" and "seen_run s vs = Some s'"
  shows "seen_len s' < 2 * seen_capacity s' \<and> seen_capacity s' = seen_capacity s \<and>
    nat cap \<le> seen_capacity s' \<and> length (s_young s') = s_slots s' \<and> length (s_old s') = s_slots s'"
proof -
  have ok: "seen_ok s" by (rule new_seen_ok(1) [OF assms(1)])
  from seen.run_total [OF ok assms(2)] assms(3) have "seen_ok s'" "s_limit s' = s_limit s" by auto
  with new_seen_ok(3) [OF assms(1)] show ?thesis
    by (auto simp: seen_ok_def seen_len_def seen_capacity_def table_ok_def)
qed

theorem seen_bounded_witness:
  "\<exists>s s'. new_seen 99 2 = Inr s \<and> seen_run s [1, 2, 3, 4] = Some s' \<and> seen_len s' < 4"
proof -
  obtain s where s: "new_seen 99 2 = Inr s" "s_limit s = 2"
    by (simp add: new_seen_def grow_slots.simps Let_def push_bit_eq_mult)
  have v: "list_all valid_id [1, 2, 3, 4]" by (simp add: MASK64_def)
  obtain s' where s': "seen_run s [1, 2, 3, 4] = Some s'" "s_limit s' = 2"
    using seen.run_total [OF new_seen_ok(1) [OF s(1)] v] s(2) by auto
  from seen_bounded [OF s(1) v s'(1)] s s' show ?thesis by (auto simp: seen_capacity_def)
qed

end
