(* ===== verification/Bytes.thy ===== *)
theory Bytes
  imports Prelude
begin

text \<open>
  Byte strings and the part of Python's \<open>struct\<close> module the wire formats use.

  A \<open>bytes\<close> value is a list of 8-bit words. \<open>be_bytes n v\<close> is the big-endian field of \<open>n\<close> bytes
  that a \<open>!B\<close>, \<open>!H\<close>, \<open>!I\<close> or \<open>!Q\<close> code writes (\<open>int.to_bytes(n, 'big')\<close>) and \<open>be_val\<close> is
  \<open>int.from_bytes(b, 'big')\<close>, what unpacking such a field returns. \<open>pack_uint\<close> raises
  \<open>struct.error\<close> for a value that does not fit, as \<open>struct.pack\<close> does. A slice \<open>data[a:b]\<close> with
  \<open>0 \<le> a \<le> b\<close> is \<open>slice a b data\<close>; like Python's it is shorter where the data end early.

  The locale \<open>wire_codec\<close> is the contract of an encoder and its parser; the components that own a
  wire format interpret it.
\<close>

type_synonym byte = "8 word"
type_synonym bytes = "byte list"

named_theorems bytes_simps

fun be_bytes :: "nat \<Rightarrow> nat \<Rightarrow> bytes" where
  "be_bytes 0 v = []"
| "be_bytes (Suc n) v = be_bytes n (v div 256) @ [word_of_nat (v mod 256)]"

definition be_val :: "bytes \<Rightarrow> nat" where
  "be_val bs = foldl (\<lambda>a b. a * 256 + unat b) 0 bs"

definition slice :: "nat \<Rightarrow> nat \<Rightarrow> 'a list \<Rightarrow> 'a list" where
  "slice a b xs = take (b - a) (drop a xs)"

definition pack_uint :: "nat \<Rightarrow> int \<Rightarrow> bytes result" where
  "pack_uint n v = (if 0 \<le> v \<and> v < 256 ^ n then Inr (be_bytes n (nat v)) else Inl StructError)"

text \<open>A fixed-width byte field \<open>ns\<close>: \<open>struct\<close> cuts a longer value and pads a shorter one with zeros.\<close>

definition pack_str :: "nat \<Rightarrow> bytes \<Rightarrow> bytes" where
  "pack_str n bs = take n bs @ replicate (n - length bs) 0"

lemma length_pack_str [simp]: "length (pack_str n bs) = n"
  by (simp add: pack_str_def)

lemma pack_str_exact [simp]: "length bs = n \<Longrightarrow> pack_str n bs = bs"
  by (simp add: pack_str_def)

lemma length_be_bytes [simp]: "length (be_bytes n v) = n"
  by (induction n arbitrary: v) auto

lemma be_val_Nil [simp]: "be_val [] = 0"
  by (simp add: be_val_def)

lemma be_val_snoc [simp]: "be_val (bs @ [b]) = be_val bs * 256 + unat b"
  by (simp add: be_val_def)

lemma unat_byte_lt [simp]: "unat (b :: byte) < 256"
  using unsigned_less [of b] by simp

lemma be_val_zeros [simp]: "be_val (replicate n 0) = 0"
proof (induction n)
  case (Suc n)
  then show ?case by (simp only: replicate_Suc replicate_append_same [symmetric] be_val_snoc) simp
qed simp

lemma be_val_bound: "be_val bs < 256 ^ length bs"
proof (induction bs rule: rev_induct)
  case (snoc b bs)
  have "unat b < 256" by (rule unat_byte_lt)
  with snoc have "be_val bs * 256 + unat b < 256 ^ length bs * 256" by linarith
  then show ?case by simp
qed simp

lemma unat_byte_of_nat: "n < 256 \<Longrightarrow> unat (word_of_nat n :: byte) = n"
  by (simp add: unat_of_nat)

lemma be_val_be_bytes [simp]: "v < 256 ^ n \<Longrightarrow> be_val (be_bytes n v) = v"
proof (induction n arbitrary: v)
  case (Suc n)
  from Suc.prems have "v div 256 < 256 ^ n"
    by (simp add: less_mult_imp_div_less mult.commute)
  then show ?case by (simp add: Suc.IH unat_byte_of_nat)
qed simp

lemma be_bytes_be_val [simp]: "be_bytes (length bs) (be_val bs) = bs"
proof (induction bs rule: rev_induct)
  case (snoc b bs)
  have b: "unat b < 256" by (rule unat_byte_lt)
  then have "(be_val bs * 256 + unat b) div 256 = be_val bs" by simp
  moreover have "word_of_nat ((be_val bs * 256 + unat b) mod 256) = b"
    using b by simp
  ultimately show ?case using snoc by simp
qed simp

lemma be_bytes_be_val_len: "length bs = n \<Longrightarrow> be_bytes n (be_val bs) = bs"
  using be_bytes_be_val by blast

lemma be_bytes_inj: "v < 256 ^ n \<Longrightarrow> w < 256 ^ n \<Longrightarrow> be_bytes n v = be_bytes n w \<Longrightarrow> v = w"
  by (metis be_val_be_bytes)

lemma pack_uint_Inr: "pack_uint n v = Inr bs \<longleftrightarrow> 0 \<le> v \<and> v < 256 ^ n \<and> bs = be_bytes n (nat v)"
  by (auto simp: pack_uint_def)

lemma nat_lt_pow: "0 \<le> v \<Longrightarrow> v < 256 ^ n \<Longrightarrow> nat v < 256 ^ n"
  by (simp add: nat_less_iff)

subsection \<open>Slices\<close>
lemma slice_append_right [bytes_simps]:
  "length xs \<le> a \<Longrightarrow> slice a b (xs @ ys) = slice (a - length xs) (b - length xs) ys"
  by (simp add: slice_def)

lemma slice_append_exact [bytes_simps]: "length xs = b \<Longrightarrow> slice 0 b (xs @ ys) = xs"
  by (simp add: slice_def)

lemma length_slice: "length (slice a b xs) = min (b - a) (length xs - a)"
  by (simp add: slice_def)

lemma slice_concat: "a \<le> b \<Longrightarrow> b \<le> c \<Longrightarrow> slice a b xs @ slice b c xs = slice a c xs"
proof -
  assume "a \<le> b" "b \<le> c"
  then have "slice a c xs = take ((b - a) + (c - b)) (drop a xs)" by (simp add: slice_def)
  also have "\<dots> = take (b - a) (drop a xs) @ take (c - b) (drop (b - a) (drop a xs))"
    by (rule take_add)
  finally show ?thesis using \<open>a \<le> b\<close> by (simp add: slice_def add.commute)
qed

lemma slice_0_drop: "slice 0 a xs @ drop a xs = xs"
  by (simp add: slice_def)

subsection \<open>UTF-8\<close>

text \<open>
  Whether \<open>bytes.decode("utf-8")\<close> succeeds. Decoding is strict, so a string is determined by its
  encoding and the models keep the encoding where the code keeps the string.
\<close>

definition cont_byte :: "byte \<Rightarrow> bool" where
  "cont_byte b \<longleftrightarrow> 0x80 \<le> unat b \<and> unat b \<le> 0xBF"

fun utf8_ok :: "bytes \<Rightarrow> bool" where
  "utf8_ok [] = True"
| "utf8_ok (b # bs) =
     (let n = unat b in
      if n < 0x80 then utf8_ok bs
      else if 0xC2 \<le> n \<and> n \<le> 0xDF
      then (case bs of c # r \<Rightarrow> cont_byte c \<and> utf8_ok r | _ \<Rightarrow> False)
      else if 0xE0 \<le> n \<and> n \<le> 0xEF
      then (case bs of c # d # r \<Rightarrow>
              (if n = 0xE0 then 0xA0 \<le> unat c \<and> unat c \<le> 0xBF
               else if n = 0xED then 0x80 \<le> unat c \<and> unat c \<le> 0x9F else cont_byte c)
              \<and> cont_byte d \<and> utf8_ok r | _ \<Rightarrow> False)
      else if 0xF0 \<le> n \<and> n \<le> 0xF4
      then (case bs of c # d # e # r \<Rightarrow>
              (if n = 0xF0 then 0x90 \<le> unat c \<and> unat c \<le> 0xBF
               else if n = 0xF4 then 0x80 \<le> unat c \<and> unat c \<le> 0x8F else cont_byte c)
              \<and> cont_byte d \<and> cont_byte e \<and> utf8_ok r | _ \<Rightarrow> False)
      else False)"

definition ascii :: "string \<Rightarrow> bytes" where
  "ascii s = map (\<lambda>c. word_of_nat (of_char c)) s"

subsection \<open>The contract of a wire format\<close>

locale wire_codec =
  fixes enc :: "'a \<Rightarrow> bytes"
    and dec :: "bytes \<Rightarrow> 'a option"
    and valid :: "'a \<Rightarrow> bool"
  assumes dec_enc: "valid x \<Longrightarrow> dec (enc x) = Some x"
    and dec_valid: "dec bs = Some x \<Longrightarrow> valid x \<and> enc x = bs"
begin

lemma enc_inj: "valid x \<Longrightarrow> valid y \<Longrightarrow> enc x = enc y \<Longrightarrow> x = y"
  by (metis dec_enc option.inject)

lemma dec_canonical: "dec bs = Some x \<Longrightarrow> dec bs' = Some x \<Longrightarrow> bs = bs'"
  by (drule dec_valid)+ simp

lemma dec_iff: "dec bs = Some x \<longleftrightarrow> valid x \<and> bs = enc x"
proof
  assume "dec bs = Some x"
  then have "valid x \<and> enc x = bs" by (rule dec_valid)
  then show "valid x \<and> bs = enc x" by simp
next
  assume "valid x \<and> bs = enc x"
  then show "dec bs = Some x" by (simp add: dec_enc)
qed

end

end
