(* ===== verification/Packet.thy ===== *)
theory Packet
  imports Bytes
begin

text \<open>
  The packet of the mesh (\<open>src/packet.py\<close>): its wire form, the two content ids a header may
  carry, the replay key, the per-link and per-hop rewriting, the nonce pool and payload
  encryption.

  \<open>hashlib\<close> is a parameter, the record \<open>hash_env\<close>. The lazily computed ids are caches of the object,
  so reading one returns the packet with the cache filled. \<open>packet_ok h p\<close> says the caches agree
  with the content; every operation keeps it. The session of \<open>create_encrypted\<close> and
  \<open>decrypt_payload\<close> is a pair of functions.
\<close>

record hash_env =
  h_sha256 :: "bytes \<Rightarrow> bytes"
  h_blake2b :: "nat \<Rightarrow> bytes \<Rightarrow> bytes \<Rightarrow> bytes"

definition HEADER_SIZE :: nat where "HEADER_SIZE = 79"
definition MAX_PAYLOAD :: nat where "MAX_PAYLOAD = 60000"

datatype id_algorithm = MSG_ID_SHA256 | MSG_ID_BLAKE2B

text \<open>The ASCII of \<open>_BLAKE2B_PERSON = b"nmesh-msg-id"\<close>.\<close>

definition BLAKE2B_PERSON :: bytes where
  "BLAKE2B_PERSON = [110, 109, 101, 115, 104, 45, 109, 115, 103, 45, 105, 100]"

definition sha256_id :: "hash_env \<Rightarrow> bytes \<Rightarrow> bytes \<Rightarrow> int" where
  "sha256_id h prefix payload = int (be_val (take 8 (h_sha256 h (prefix @ payload))))"

definition blake2b_id :: "hash_env \<Rightarrow> bytes \<Rightarrow> bytes \<Rightarrow> int" where
  "blake2b_id h prefix payload = int (be_val (h_blake2b h 8 BLAKE2B_PERSON (prefix @ payload)))"

subsection \<open>The nonce pool\<close>

record nonce_pool =
  np_pool :: bytes
  np_at :: nat

definition NONCE_SIZE :: nat where "NONCE_SIZE = 12"

text \<open>\<open>block\<close> is what \<open>os.urandom(4096)\<close> would return now.\<close>

definition nonce_draw :: "bytes \<Rightarrow> nonce_pool \<Rightarrow> bytes \<times> nonce_pool" where
  "nonce_draw block st =
     (let st' = (if length (np_pool st) < np_at st + NONCE_SIZE
                 then \<lparr> np_pool = block, np_at = 0 \<rparr> else st)
      in (slice (np_at st') (np_at st' + NONCE_SIZE) (np_pool st'),
          st'\<lparr> np_at := np_at st' + NONCE_SIZE \<rparr>))"

definition reset_nonce_pool :: nonce_pool where
  "reset_nonce_pool = \<lparr> np_pool = [], np_at = 0 \<rparr>"

subsection \<open>The packet\<close>

record packet =
  p_version :: int
  p_type :: int
  p_ttl :: int
  p_src_id :: bytes
  p_dst_id :: bytes
  p_msg_id :: "int option"
  p_nonce :: bytes
  p_gcm_tag :: bytes
  p_payload :: bytes
  p_sha256_id :: "int option"
  p_blake2b_id :: "int option"

definition new_packet ::
  "int \<Rightarrow> int \<Rightarrow> int \<Rightarrow> bytes \<Rightarrow> bytes \<Rightarrow> int option \<Rightarrow> bytes \<Rightarrow> bytes \<Rightarrow> bytes \<Rightarrow> packet result" where
  "new_packet version type ttl src_id dst_id msg_id nonce gcm_tag payload =
     (if length src_id \<noteq> 20 then Inl PacketError
      else if length dst_id \<noteq> 20 then Inl PacketError
      else if length nonce \<noteq> 12 then Inl PacketError
      else if length gcm_tag \<noteq> 16 then Inl PacketError
      else if MAX_PAYLOAD < length payload then Inl PacketError
      else Inr \<lparr> p_version = version, p_type = type, p_ttl = ttl, p_src_id = src_id,
        p_dst_id = dst_id, p_msg_id = msg_id, p_nonce = nonce, p_gcm_tag = gcm_tag,
        p_payload = payload, p_sha256_id = None, p_blake2b_id = None \<rparr>)"

text \<open>\<open>struct.pack('!BB20s20s12s16s', ...)\<close> and the id over it.\<close>

definition msg_id_prefix :: "int \<Rightarrow> int \<Rightarrow> bytes \<Rightarrow> bytes \<Rightarrow> bytes \<Rightarrow> bytes \<Rightarrow> bytes result" where
  "msg_id_prefix version type src_id dst_id nonce gcm_tag =
     rbind (pack_uint 1 version) (\<lambda>v. rbind (pack_uint 1 type) (\<lambda>t.
       Inr (v @ t @ pack_str 20 src_id @ pack_str 20 dst_id @ pack_str 12 nonce
         @ pack_str 16 gcm_tag)))"

definition msg_id_over ::
  "hash_env \<Rightarrow> int \<Rightarrow> int \<Rightarrow> bytes \<Rightarrow> bytes \<Rightarrow> bytes \<Rightarrow> bytes \<Rightarrow> bytes \<Rightarrow> id_algorithm \<Rightarrow> int result" where
  "msg_id_over h version type src_id dst_id nonce gcm_tag payload algorithm =
     rbind (msg_id_prefix version type src_id dst_id nonce gcm_tag) (\<lambda>prefix.
       Inr (if algorithm = MSG_ID_BLAKE2B then blake2b_id h prefix payload
            else sha256_id h prefix payload))"

abbreviation content_id :: "hash_env \<Rightarrow> packet \<Rightarrow> id_algorithm \<Rightarrow> int result" where
  "content_id h p alg \<equiv> msg_id_over h (p_version p) (p_type p) (p_src_id p) (p_dst_id p)
     (p_nonce p) (p_gcm_tag p) (p_payload p) alg"

definition id_under :: "hash_env \<Rightarrow> id_algorithm \<Rightarrow> packet \<Rightarrow> int result \<times> packet" where
  "id_under h algorithm p =
     (if algorithm = MSG_ID_BLAKE2B then
        (case p_blake2b_id p of
           Some i \<Rightarrow> (Inr i, p)
         | None \<Rightarrow> (case content_id h p MSG_ID_BLAKE2B of
             Inl e \<Rightarrow> (Inl e, p)
           | Inr i \<Rightarrow> (Inr i, p\<lparr> p_blake2b_id := Some i \<rparr>)))
      else
        (case p_sha256_id p of
           Some i \<Rightarrow> (Inr i, p)
         | None \<Rightarrow> (case content_id h p MSG_ID_SHA256 of
             Inl e \<Rightarrow> (Inl e, p)
           | Inr i \<Rightarrow> (Inr i, p\<lparr> p_sha256_id := Some i \<rparr>))))"

definition compute_msg_id :: "hash_env \<Rightarrow> packet \<Rightarrow> int result \<times> packet" where
  "compute_msg_id h p = id_under h MSG_ID_SHA256 p"

text \<open>The property \<open>msg_id\<close>: reading it the first time fixes the header to the SHA-256 id.\<close>

definition packet_msg_id :: "hash_env \<Rightarrow> packet \<Rightarrow> int result \<times> packet" where
  "packet_msg_id h p =
     (case p_msg_id p of
        Some i \<Rightarrow> (Inr i, p)
      | None \<Rightarrow> (case id_under h MSG_ID_SHA256 p of
          (Inl e, p') \<Rightarrow> (Inl e, p')
        | (Inr i, p') \<Rightarrow> (Inr i, p'\<lparr> p_msg_id := Some i \<rparr>)))"

definition packet_replay_key :: "hash_env \<Rightarrow> packet \<Rightarrow> int option result \<times> packet" where
  "packet_replay_key h p =
     (case id_under h MSG_ID_BLAKE2B p of
        (Inl e, p1) \<Rightarrow> (Inl e, p1)
      | (Inr key, p1) \<Rightarrow> (case packet_msg_id h p1 of
          (Inl e, p2) \<Rightarrow> (Inl e, p2)
        | (Inr header, p2) \<Rightarrow>
            (if header = key then (Inr (Some key), p2)
             else (case id_under h MSG_ID_SHA256 p2 of
                 (Inl e, p3) \<Rightarrow> (Inl e, p3)
               | (Inr sha, p3) \<Rightarrow> (Inr (if header = sha then Some key else None), p3)))))"

definition packet_twin :: "packet \<Rightarrow> int \<Rightarrow> int option \<Rightarrow> packet result" where
  "packet_twin p ttl msg_id =
     rbind (new_packet (p_version p) (p_type p) ttl (p_src_id p) (p_dst_id p) msg_id
         (p_nonce p) (p_gcm_tag p) (p_payload p))
       (\<lambda>t. Inr (t\<lparr> p_sha256_id := p_sha256_id p, p_blake2b_id := p_blake2b_id p \<rparr>))"

text \<open>\<open>for_link\<close> returns the packet to send and the packet it was called on, updated.\<close>

definition packet_for_link :: "hash_env \<Rightarrow> id_algorithm \<Rightarrow> packet \<Rightarrow> packet result \<times> packet" where
  "packet_for_link h algorithm p =
     (case id_under h algorithm p of
        (Inl e, p1) \<Rightarrow> (Inl e, p1)
      | (Inr msg_id, p1) \<Rightarrow>
          (let p2 = (if p_msg_id p1 = None \<and> algorithm = MSG_ID_SHA256
                     then p1\<lparr> p_msg_id := Some msg_id \<rparr> else p1) in
           if p_msg_id p2 = Some msg_id then (Inr p2, p2)
           else (packet_twin p2 (p_ttl p2) (Some msg_id), p2)))"

definition packet_with_ttl :: "int \<Rightarrow> packet \<Rightarrow> packet result" where
  "packet_with_ttl ttl p = packet_twin p ttl (p_msg_id p)"

definition packet_with_decremented_ttl :: "packet \<Rightarrow> packet result" where
  "packet_with_decremented_ttl p = packet_with_ttl (p_ttl p - 1) p"

definition packet_create ::
  "bytes \<Rightarrow> nonce_pool \<Rightarrow> int \<Rightarrow> bytes \<Rightarrow> bytes \<Rightarrow> bytes \<Rightarrow> int \<Rightarrow> int \<Rightarrow> packet result \<times> nonce_pool" where
  "packet_create block st type src_id dst_id payload ttl version =
     (let (nonce, st') = nonce_draw block st in
      (new_packet version type ttl src_id dst_id None nonce (replicate 16 0) payload, st'))"

subsection \<open>The wire form\<close>

text \<open>\<open>struct.pack('!BBB20s20sQ12s16s', ...) + payload\<close>\<close>

definition frame_bytes :: "packet \<Rightarrow> int \<Rightarrow> bytes result" where
  "frame_bytes p msg_id =
     rbind (pack_uint 1 (p_version p)) (\<lambda>v. rbind (pack_uint 1 (p_type p)) (\<lambda>t.
     rbind (pack_uint 1 (p_ttl p)) (\<lambda>l. rbind (pack_uint 8 msg_id) (\<lambda>m.
       Inr (v @ t @ l @ pack_str 20 (p_src_id p) @ pack_str 20 (p_dst_id p) @ m
         @ pack_str 12 (p_nonce p) @ pack_str 16 (p_gcm_tag p) @ p_payload p)))))"

definition packet_pack :: "hash_env \<Rightarrow> packet \<Rightarrow> bytes result \<times> packet" where
  "packet_pack h p =
     (case packet_msg_id h p of
        (Inl e, p') \<Rightarrow> (Inl e, p')
      | (Inr m, p') \<Rightarrow> (frame_bytes p' m, p'))"

definition packet_unpack :: "bytes \<Rightarrow> packet result" where
  "packet_unpack data =
     (if length data < HEADER_SIZE then Inl PacketError
      else new_packet (int (be_val (slice 0 1 data))) (int (be_val (slice 1 2 data)))
        (int (be_val (slice 2 3 data))) (slice 3 23 data) (slice 23 43 data)
        (Some (int (be_val (slice 43 51 data)))) (slice 51 63 data) (slice 63 79 data)
        (drop HEADER_SIZE data))"

definition packet_aad :: "packet \<Rightarrow> bytes result" where
  "packet_aad p =
     rbind (pack_uint 1 (p_version p)) (\<lambda>v. rbind (pack_uint 1 (p_type p)) (\<lambda>t.
       Inr (v @ t @ pack_str 20 (p_src_id p) @ pack_str 20 (p_dst_id p) @ pack_str 12 (p_nonce p))))"

text \<open>
  \<open>enc plaintext nonce aad\<close> is the session's AES-GCM encryption (ciphertext and tag), \<open>dec\<close> its
  decryption, which raises when the tag does not verify. \<open>nonce\<close> is what \<open>os.urandom(12)\<close> gave.
\<close>

definition packet_create_encrypted ::
  "(bytes \<Rightarrow> bytes \<Rightarrow> bytes \<Rightarrow> bytes \<times> bytes) \<Rightarrow> bytes \<Rightarrow> int \<Rightarrow> bytes \<Rightarrow> bytes \<Rightarrow> bytes \<Rightarrow> int \<Rightarrow> int
     \<Rightarrow> packet result" where
  "packet_create_encrypted enc nonce type src_id dst_id plaintext ttl version =
     rbind (pack_uint 1 version) (\<lambda>v. rbind (pack_uint 1 type) (\<lambda>t.
       let partial_aad = v @ t @ pack_str 20 src_id @ pack_str 20 dst_id @ pack_str 12 nonce;
           (ciphertext, gcm_tag) = enc plaintext nonce partial_aad
       in new_packet version type ttl src_id dst_id None nonce gcm_tag ciphertext))"

definition packet_decrypt_payload ::
  "(bytes \<Rightarrow> bytes \<Rightarrow> bytes \<Rightarrow> bytes \<Rightarrow> bytes result) \<Rightarrow> packet \<Rightarrow> bytes result" where
  "packet_decrypt_payload dec p =
     rbind (packet_aad p) (\<lambda>aad. dec (p_payload p) (p_nonce p) (p_gcm_tag p) aad)"

subsection \<open>Well-formed packets and their caches\<close>

definition packet_shape :: "packet \<Rightarrow> bool" where
  "packet_shape p \<longleftrightarrow> length (p_src_id p) = 20 \<and> length (p_dst_id p) = 20 \<and>
     length (p_nonce p) = 12 \<and> length (p_gcm_tag p) = 16 \<and> length (p_payload p) \<le> MAX_PAYLOAD"

definition packet_ok :: "hash_env \<Rightarrow> packet \<Rightarrow> bool" where
  "packet_ok h p \<longleftrightarrow> packet_shape p \<and>
     (\<forall>i. p_sha256_id p = Some i \<longrightarrow> content_id h p MSG_ID_SHA256 = Inr i) \<and>
     (\<forall>i. p_blake2b_id p = Some i \<longrightarrow> content_id h p MSG_ID_BLAKE2B = Inr i)"

text \<open>Two packets with the same content: only the TTL, the header id and the caches may differ.\<close>

definition same_content :: "packet \<Rightarrow> packet \<Rightarrow> bool" where
  "same_content p q \<longleftrightarrow> p_version q = p_version p \<and> p_type q = p_type p \<and>
     p_src_id q = p_src_id p \<and> p_dst_id q = p_dst_id p \<and> p_nonce q = p_nonce p \<and>
     p_gcm_tag q = p_gcm_tag p \<and> p_payload q = p_payload p"

lemma same_content_refl [simp]: "same_content p p"
  by (simp add: same_content_def)

lemma same_content_trans: "same_content p q \<Longrightarrow> same_content q r \<Longrightarrow> same_content p r"
  by (simp add: same_content_def)

lemma content_id_cong: "same_content p q \<Longrightarrow> content_id h q alg = content_id h p alg"
  by (simp add: same_content_def)

lemma packet_aad_cong: "same_content p q \<Longrightarrow> packet_aad q = packet_aad p"
  by (simp add: same_content_def packet_aad_def)

lemma new_packet_Inr:
  "new_packet v t l s d m n g pl = Inr p \<Longrightarrow> packet_ok h p \<and> p_ttl p = l \<and> p_msg_id p = m \<and>
     p_version p = v \<and> p_type p = t \<and> p_src_id p = s \<and> p_dst_id p = d \<and> p_nonce p = n \<and>
     p_gcm_tag p = g \<and> p_payload p = pl \<and> p_sha256_id p = None \<and> p_blake2b_id p = None"
  by (auto simp: new_packet_def packet_ok_def packet_shape_def split: if_splits)

lemma id_under_spec:
  assumes "packet_ok h p" "id_under h alg p = (r, p')"
  shows "r = content_id h p alg" "packet_ok h p'" "same_content p p'"
    "p_ttl p' = p_ttl p" "p_msg_id p' = p_msg_id p"
  using assms
  by (auto simp: id_under_def packet_ok_def same_content_def packet_shape_def
      split: if_splits option.splits sum.splits)
    (cases alg; simp)+

lemma id_under_total: "\<exists>r p'. id_under h alg p = (r, p')"
  by (cases "id_under h alg p") simp

lemma packet_msg_id_spec:
  assumes "packet_ok h p" "packet_msg_id h p = (r, p')"
  shows "r = (case p_msg_id p of Some m \<Rightarrow> Inr m | None \<Rightarrow> content_id h p MSG_ID_SHA256)"
    "packet_ok h p'" "same_content p p'" "p_ttl p' = p_ttl p"
proof -
  obtain r1 p1 where id: "id_under h MSG_ID_SHA256 p = (r1, p1)" by (meson surj_pair)
  note sp = id_under_spec [OF assms(1) id]
  have up: "packet_ok h (p1\<lparr> p_msg_id := m \<rparr>)" for m
    using sp(2) by (simp add: packet_ok_def packet_shape_def)
  have sc: "same_content p (p1\<lparr> p_msg_id := m \<rparr>)" for m
    using sp(3) by (simp add: same_content_def)
  show "r = (case p_msg_id p of Some m \<Rightarrow> Inr m | None \<Rightarrow> content_id h p MSG_ID_SHA256)"
    "packet_ok h p'" "same_content p p'" "p_ttl p' = p_ttl p"
    using assms id sp up sc
    by (auto simp: packet_msg_id_def split: option.splits sum.splits)
qed

lemma replay_key_spec:
  assumes ok: "packet_ok h p"
    and b: "content_id h p MSG_ID_BLAKE2B = Inr b" and s: "content_id h p MSG_ID_SHA256 = Inr s"
  shows "fst (packet_replay_key h p) =
    Inr (case p_msg_id p of None \<Rightarrow> Some b | Some m \<Rightarrow> if m = b \<or> m = s then Some b else None)"
proof -
  obtain r1 p1 where 1: "id_under h MSG_ID_BLAKE2B p = (r1, p1)" by (meson surj_pair)
  note s1 = id_under_spec [OF ok 1]
  obtain r2 p2 where 2: "packet_msg_id h p1 = (r2, p2)" by (meson surj_pair)
  note s2 = packet_msg_id_spec [OF s1(2) 2]
  obtain r3 p3 where 3: "id_under h MSG_ID_SHA256 p2 = (r3, p3)" by (meson surj_pair)
  note s3 = id_under_spec [OF s2(2) 3]
  have "content_id h p1 MSG_ID_SHA256 = Inr s" using content_id_cong [OF s1(3)] s by simp
  moreover from this have "content_id h p2 MSG_ID_SHA256 = Inr s"
    using content_id_cong [OF s2(3)] by simp
  ultimately have "r1 = Inr b" "r3 = Inr s"
    "r2 = Inr (case p_msg_id p of Some m \<Rightarrow> m | None \<Rightarrow> s)"
    using s1(1,5) s2(1) s3(1) b by (simp_all split: option.split)
  then show ?thesis
    using 1 2 3 by (simp add: packet_replay_key_def split: option.split)
qed

lemma content_id_Inr_iff:
  "(\<exists>i. content_id h p alg = Inr i) \<longleftrightarrow> 0 \<le> p_version p \<and> p_version p < 256 \<and> 0 \<le> p_type p \<and> p_type p < 256"
  by (auto simp: msg_id_over_def msg_id_prefix_def pack_uint_def)

lemma packet_twin_spec:
  assumes "packet_ok h p" "packet_twin p ttl m = Inr q"
  shows "packet_ok h q" "same_content p q" "p_ttl q = ttl" "p_msg_id q = m"
  using assms
  by (auto simp: packet_twin_def rbind_Inr new_packet_def packet_ok_def packet_shape_def
      same_content_def split: if_splits)

lemma packet_twin_total: "packet_shape p \<Longrightarrow> \<exists>q. packet_twin p ttl m = Inr q"
  by (simp add: packet_twin_def new_packet_def packet_shape_def)

lemma packet_for_link_eq:
  assumes "id_under h alg p = (Inr i, p1)"
    and "p2 = (if p_msg_id p1 = None \<and> alg = MSG_ID_SHA256 then p1\<lparr> p_msg_id := Some i \<rparr> else p1)"
  shows "packet_for_link h alg p =
    (if p_msg_id p2 = Some i then (Inr p2, p2) else (packet_twin p2 (p_ttl p2) (Some i), p2))"
  unfolding packet_for_link_def assms(1) prod.case sum.case Let_def assms(2) ..

lemma packet_for_link_spec:
  assumes "packet_ok h p" "packet_for_link h alg p = (Inr q, p')"
  shows "packet_ok h q" "packet_ok h p'" "same_content p q" "same_content p p'"
    "p_ttl q = p_ttl p" "Inr (the (p_msg_id q)) = content_id h p alg" "p_msg_id q \<noteq> None"
proof -
  obtain r1 p1 where 1: "id_under h alg p = (r1, p1)" by (meson surj_pair)
  note s1 = id_under_spec [OF assms(1) 1]
  from assms(2) 1 obtain i where i: "r1 = Inr i" by (cases r1) (auto simp: packet_for_link_def)
  define p2 where "p2 = (if p_msg_id p1 = None \<and> alg = MSG_ID_SHA256
    then p1\<lparr> p_msg_id := Some i \<rparr> else p1)"
  have p2: "packet_ok h p2" "same_content p p2" "p_ttl p2 = p_ttl p"
    using s1 by (auto simp: p2_def packet_ok_def packet_shape_def same_content_def)
  from assms(2) packet_for_link_eq [OF 1 [unfolded i] p2_def] have "(if p_msg_id p2 = Some i then (Inr p2, p2)
      else (packet_twin p2 (p_ttl p2) (Some i), p2)) = (Inr q, p')" by simp
  then have "p' = p2" and q: "q = p2 \<and> p_msg_id p2 = Some i \<or> packet_twin p2 (p_ttl p2) (Some i) = Inr q"
    by (auto split: if_splits)
  with p2 packet_twin_spec [OF p2(1), of "p_ttl p2" "Some i" q] same_content_trans [OF p2(2)]
  have "packet_ok h q \<and> same_content p q \<and> p_ttl q = p_ttl p \<and> p_msg_id q = Some i" by auto
  with p2 \<open>p' = p2\<close> s1(1) i
  show "packet_ok h q" "packet_ok h p'" "same_content p q" "same_content p p'"
    "p_ttl q = p_ttl p" "Inr (the (p_msg_id q)) = content_id h p alg" "p_msg_id q \<noteq> None"
    by auto
qed

subsection \<open>The wire form\<close>

definition wire_valid :: "packet \<Rightarrow> bool" where
  "wire_valid p \<longleftrightarrow> packet_shape p \<and> 0 \<le> p_version p \<and> p_version p < 256 \<and>
     0 \<le> p_type p \<and> p_type p < 256 \<and> 0 \<le> p_ttl p \<and> p_ttl p < 256 \<and>
     p_sha256_id p = None \<and> p_blake2b_id p = None \<and>
     (\<exists>m. p_msg_id p = Some m \<and> 0 \<le> m \<and> m < 256 ^ 8)"

definition wire_enc :: "packet \<Rightarrow> bytes" where
  "wire_enc p = (case frame_bytes p (the (p_msg_id p)) of Inr bs \<Rightarrow> bs | Inl _ \<Rightarrow> [])"

definition wire_dec :: "bytes \<Rightarrow> packet option" where
  "wire_dec bs = (case packet_unpack bs of Inr p \<Rightarrow> Some p | Inl _ \<Rightarrow> None)"

lemma frame_bytes_eq:
  assumes "packet_shape p" "frame_bytes p m = Inr bs"
  shows "bs = be_bytes 1 (nat (p_version p)) @ be_bytes 1 (nat (p_type p)) @ be_bytes 1 (nat (p_ttl p))
     @ p_src_id p @ p_dst_id p @ be_bytes 8 (nat m) @ p_nonce p @ p_gcm_tag p @ p_payload p"
    and "0 \<le> p_version p \<and> p_version p < 256" "0 \<le> p_type p \<and> p_type p < 256"
    and "0 \<le> p_ttl p \<and> p_ttl p < 256" "0 \<le> m \<and> m < 256 ^ 8"
  using assms by (auto simp: frame_bytes_def rbind_Inr pack_uint_Inr packet_shape_def)

lemma slice_at: "slice a (a + n) (xs @ ys @ zs) = ys" if "length xs = a" "length ys = n"
  using that by (simp add: slice_def)

lemma packet_unpack_fields:
  assumes "length v = 1" "length t = 1" "length l = 1" "length s = 20" "length d = 20"
    "length m = 8" "length n = 12" "length g = 16"
  shows "packet_unpack (v @ t @ l @ s @ d @ m @ n @ g @ pl) =
    new_packet (int (be_val v)) (int (be_val t)) (int (be_val l)) s d (Some (int (be_val m))) n g pl"
proof -
  let ?bs = "v @ t @ l @ s @ d @ m @ n @ g @ pl"
  have sl: "slice 0 1 ?bs = v" "slice 1 2 ?bs = t" "slice 2 3 ?bs = l" "slice 3 23 ?bs = s"
    "slice 23 43 ?bs = d" "slice 43 51 ?bs = m" "slice 51 63 ?bs = n" "slice 63 79 ?bs = g"
    "drop 79 ?bs = pl"
    using assms by (simp_all add: slice_def)
  have "\<not> length ?bs < HEADER_SIZE" using assms by (simp add: HEADER_SIZE_def)
  then show ?thesis by (simp only: packet_unpack_def sl if_False HEADER_SIZE_def)
qed

lemma packet_unpack_frame:
  assumes "packet_shape p" "frame_bytes p m = Inr bs"
  shows "packet_unpack bs = Inr (p\<lparr> p_msg_id := Some m, p_sha256_id := None, p_blake2b_id := None \<rparr>)"
proof -
  note f = frame_bytes_eq [OF assms]
  have bv: "be_val (be_bytes 1 (nat (p_version p))) = nat (p_version p)"
    "be_val (be_bytes 1 (nat (p_type p))) = nat (p_type p)"
    "be_val (be_bytes 1 (nat (p_ttl p))) = nat (p_ttl p)"
    "be_val (be_bytes 8 (nat m)) = nat m"
    using f(2-5) by (intro be_val_be_bytes; simp add: nat_less_iff)+
  have "packet_unpack bs = new_packet (int (be_val (be_bytes 1 (nat (p_version p)))))
      (int (be_val (be_bytes 1 (nat (p_type p))))) (int (be_val (be_bytes 1 (nat (p_ttl p)))))
      (p_src_id p) (p_dst_id p) (Some (int (be_val (be_bytes 8 (nat m))))) (p_nonce p)
      (p_gcm_tag p) (p_payload p)"
    unfolding f(1) using assms(1)
    by (intro packet_unpack_fields) (simp_all add: packet_shape_def)
  with assms(1) f(2-5) show ?thesis
    unfolding bv by (simp add: packet_shape_def new_packet_def)
qed

lemma data_split:
  assumes "79 \<le> length data"
  shows "data = slice 0 1 data @ slice 1 2 data @ slice 2 3 data @ slice 3 23 data
    @ slice 23 43 data @ slice 43 51 data @ slice 51 63 data @ slice 63 79 data @ drop 79 data"
proof -
  have "slice 0 1 data @ slice 1 2 data @ slice 2 3 data @ slice 3 23 data @ slice 23 43 data
    @ slice 43 51 data @ slice 51 63 data @ slice 63 79 data = slice 0 79 data"
    by (simp add: slice_concat)
  then show ?thesis by (metis append_assoc slice_0_drop)
qed

lemma packet_frame_unpack:
  assumes "packet_unpack data = Inr p"
  shows "frame_bytes p (the (p_msg_id p)) = Inr data" "wire_valid p"
proof -
  have len: "79 \<le> length data" using assms by (auto simp: packet_unpack_def HEADER_SIZE_def split: if_splits)
  then have sl: "length (slice a b data) = b - a" if "b \<le> 79" for a b
    using that by (simp add: length_slice)
  have bnd: "int (be_val (slice a b data)) < 256 ^ (b - a)" if "b \<le> 79" for a b
  proof -
    have "be_val (slice a b data) < 256 ^ (b - a)" using be_val_bound [of "slice a b data"] sl [OF that] by simp
    then show ?thesis by (metis of_nat_less_iff of_nat_power of_nat_numeral)
  qed
  have p: "p = \<lparr> p_version = int (be_val (slice 0 1 data)), p_type = int (be_val (slice 1 2 data)),
      p_ttl = int (be_val (slice 2 3 data)), p_src_id = slice 3 23 data, p_dst_id = slice 23 43 data,
      p_msg_id = Some (int (be_val (slice 43 51 data))), p_nonce = slice 51 63 data,
      p_gcm_tag = slice 63 79 data, p_payload = drop 79 data,
      p_sha256_id = None, p_blake2b_id = None \<rparr>" and shape: "length (drop 79 data) \<le> MAX_PAYLOAD"
    using assms len by (auto simp: packet_unpack_def new_packet_def HEADER_SIZE_def split: if_splits)
  show "wire_valid p"
    using shape bnd [of 1 0] bnd [of 2 1] bnd [of 3 2] bnd [of 51 43]
    by (simp add: p wire_valid_def packet_shape_def sl)
  have be: "be_bytes (b - a) (be_val (slice a b data)) = slice a b data" if "b \<le> 79" for a b
    using be_bytes_be_val_len sl [OF that] by blast
  have pk: "pack_uint (b - a) (int (be_val (slice a b data))) = Inr (slice a b data)" if "b \<le> 79" for a b
    using be [OF that] bnd [OF that] by (simp add: pack_uint_def)
  show "frame_bytes p (the (p_msg_id p)) = Inr data"
    using pk [of 1 0] pk [of 2 1] pk [of 3 2] pk [of 51 43] data_split [OF len]
    by (simp add: p frame_bytes_def sl)
qed

interpretation packet_wire: wire_codec wire_enc wire_dec wire_valid
proof unfold_locales
  fix p assume v: "wire_valid p"
  then obtain m bs where m: "p_msg_id p = Some m" and bs: "frame_bytes p m = Inr bs"
    by (auto simp: wire_valid_def frame_bytes_def pack_uint_def)
  have "p\<lparr> p_msg_id := Some m, p_sha256_id := None, p_blake2b_id := None \<rparr> = p"
    using v m by (simp add: wire_valid_def)
  moreover have "packet_shape p" using v by (simp add: wire_valid_def)
  ultimately show "wire_dec (wire_enc p) = Some p"
    using packet_unpack_frame [OF _ bs] m bs by (simp add: wire_dec_def wire_enc_def)
next
  fix bs p assume "wire_dec bs = Some p"
  then have "packet_unpack bs = Inr p" by (simp add: wire_dec_def split: sum.splits)
  from packet_frame_unpack [OF this] show "wire_valid p \<and> wire_enc p = bs"
    by (simp add: wire_enc_def)
qed

subsection \<open>Crossing a link\<close>
lemma packet_pack_spec:
  assumes "packet_ok h p" "p_msg_id p = Some m" "packet_pack h p = (Inr bs, p')"
  shows "packet_unpack bs = Inr (p\<lparr> p_msg_id := Some m, p_sha256_id := None, p_blake2b_id := None \<rparr>)"
  using assms packet_unpack_frame [of p m bs]
  by (auto simp: packet_pack_def packet_msg_id_def packet_ok_def)

text \<open>
  One hop: the packet is rewritten for the hash the link agreed, given its hop budget, packed,
  and parsed by the other end.
\<close>

definition packet_hop :: "hash_env \<Rightarrow> id_algorithm \<Rightarrow> int \<Rightarrow> packet \<Rightarrow> packet result" where
  "packet_hop h alg ttl p =
     rbind (packet_with_ttl ttl p) (\<lambda>p. rbind (fst (packet_for_link h alg p)) (\<lambda>p.
       rbind (fst (packet_pack h p)) packet_unpack))"

lemma packet_hop_spec:
  assumes "packet_ok h p" "packet_hop h alg ttl p = Inr r"
  shows "packet_ok h r" "same_content p r" "p_ttl r = ttl"
    "\<exists>m. p_msg_id r = Some m \<and> content_id h p alg = Inr m"
proof -
  obtain p1 where 1: "packet_twin p ttl (p_msg_id p) = Inr p1"
    and r1: "rbind (fst (packet_for_link h alg p1)) (\<lambda>p. rbind (fst (packet_pack h p)) packet_unpack) = Inr r"
    using assms(2) by (auto simp: packet_hop_def rbind_Inr packet_with_ttl_def)
  note s1 = packet_twin_spec [OF assms(1) 1]
  obtain p2 p2' where 2: "packet_for_link h alg p1 = (Inr p2, p2')"
    and r2: "rbind (fst (packet_pack h p2)) packet_unpack = Inr r"
    using r1 by (auto simp: rbind_Inr) (metis prod.collapse)
  note s2 = packet_for_link_spec [OF s1(1) 2]
  obtain m where m: "p_msg_id p2 = Some m" using s2(7) by auto
  obtain bs p3 where 3: "packet_pack h p2 = (Inr bs, p3)" and r3: "packet_unpack bs = Inr r"
    using r2 by (auto simp: rbind_Inr) (metis prod.collapse)
  have r: "r = p2\<lparr> p_msg_id := Some m, p_sha256_id := None, p_blake2b_id := None \<rparr>"
    using packet_pack_spec [OF s2(1) m 3] r3 by simp
  then show "same_content p r" "p_ttl r = ttl"
    using s1 s2 by (simp_all add: same_content_def)
  show "packet_ok h r" using s2(1) r by (simp add: packet_ok_def packet_shape_def)
  show "\<exists>m. p_msg_id r = Some m \<and> content_id h p alg = Inr m"
    using s2(6) m r content_id_cong [OF s1(2)] by simp
qed

lemma hop_replay_key:
  assumes ok: "packet_ok h p" and hop: "packet_hop h alg ttl p = Inr r"
  shows "\<exists>k. content_id h p MSG_ID_BLAKE2B = Inr k \<and> fst (packet_replay_key h r) = Inr (Some k)"
proof -
  note s = packet_hop_spec [OF ok hop]
  obtain m where m: "p_msg_id r = Some m" "content_id h p alg = Inr m" using s(4) by blast
  then obtain b sh where b: "content_id h p MSG_ID_BLAKE2B = Inr b" "content_id h p MSG_ID_SHA256 = Inr sh"
    using content_id_Inr_iff by metis
  have "m = b \<or> m = sh" using m(2) b by (cases alg) auto
  with replay_key_spec [OF s(1), of b sh] b m(1) content_id_cong [OF s(2)] show ?thesis by auto
qed

fun packet_route :: "hash_env \<Rightarrow> (id_algorithm \<times> int) list \<Rightarrow> packet \<Rightarrow> packet result" where
  "packet_route h [] p = Inr p"
| "packet_route h ((alg, ttl) # hops) p = rbind (packet_hop h alg ttl p) (packet_route h hops)"

lemma packet_route_spec:
  "packet_ok h p \<Longrightarrow> packet_route h hops p = Inr r \<Longrightarrow> packet_ok h r \<and> same_content p r"
proof (induction h hops p arbitrary: r rule: packet_route.induct)
  case (2 h alg ttl hops p)
  then obtain q where q: "packet_hop h alg ttl p = Inr q" "packet_route h hops q = Inr r"
    by (auto simp: rbind_Inr)
  note s = packet_hop_spec [OF "2.prems"(1) q(1)]
  with "2.IH" [OF s(1) q(2)] show ?case by (auto intro: same_content_trans)
qed simp

lemma route_last_hop:
  "hops \<noteq> [] \<Longrightarrow> packet_ok h p \<Longrightarrow> packet_route h hops p = Inr r \<Longrightarrow>
     \<exists>k. content_id h p MSG_ID_BLAKE2B = Inr k \<and> fst (packet_replay_key h r) = Inr (Some k)"
proof (induction h hops p arbitrary: r rule: packet_route.induct)
  case (2 h alg ttl hops p)
  then obtain q where q: "packet_hop h alg ttl p = Inr q" "packet_route h hops q = Inr r"
    by (auto simp: rbind_Inr)
  note s = packet_hop_spec [OF "2.prems"(2) q(1)]
  show ?case
  proof (cases "hops = []")
    case True
    with q hop_replay_key [OF "2.prems"(2) q(1)] show ?thesis by simp
  next
    case False
    from "2.IH" [OF this s(1) q(2)] content_id_cong [OF s(2)] show ?thesis by simp
  qed
qed simp

text \<open>The hashes return what \<open>hashlib\<close> documents: an eight-byte BLAKE2b digest.\<close>

definition hash_lengths_ok :: "hash_env \<Rightarrow> bool" where
  "hash_lengths_ok h \<longleftrightarrow> (\<forall>person d. length (h_blake2b h 8 person d) = 8)"

lemma be_val_8: "length bs \<le> 8 \<Longrightarrow> int (be_val bs) < 256 ^ 8"
proof -
  assume "length bs \<le> 8"
  have "be_val bs < 256 ^ length bs" by (rule be_val_bound)
  also have "\<dots> \<le> (256 :: nat) ^ 8" using \<open>length bs \<le> 8\<close> by (intro power_increasing) auto
  finally have "be_val bs < 256 ^ 8" .
  then show ?thesis by simp
qed

lemma content_id_range:
  assumes "hash_lengths_ok h" "content_id h p alg = Inr i"
  shows "0 \<le> i \<and> i < 256 ^ 8"
proof -
  obtain prefix where i: "i = (if alg = MSG_ID_BLAKE2B then blake2b_id h prefix (p_payload p)
      else sha256_id h prefix (p_payload p))"
    using assms(2) unfolding msg_id_over_def rbind_Inr by blast
  have "sha256_id h prefix (p_payload p) < 256 ^ 8"
    unfolding sha256_id_def by (rule be_val_8) simp
  moreover have "blake2b_id h prefix (p_payload p) < 256 ^ 8"
    unfolding blake2b_id_def using assms(1) by (intro be_val_8) (simp add: hash_lengths_ok_def)
  ultimately show ?thesis unfolding i by (simp add: sha256_id_def blake2b_id_def)
qed

lemma packet_hop_total:
  assumes h: "hash_lengths_ok h" and ok: "packet_ok h p"
    and rng: "0 \<le> p_version p" "p_version p < 256" "0 \<le> p_type p" "p_type p < 256"
    and ttl: "0 \<le> ttl" "ttl < 256"
  shows "\<exists>r. packet_hop h alg ttl p = Inr r"
proof -
  obtain p1 where 1: "packet_twin p ttl (p_msg_id p) = Inr p1"
    using packet_twin_total ok unfolding packet_ok_def by blast
  note s1 = packet_twin_spec [OF ok 1]
  obtain i p1' where id: "id_under h alg p1 = (Inr i, p1')" and i: "content_id h p alg = Inr i"
  proof -
    obtain r q where "id_under h alg p1 = (r, q)" by (meson surj_pair)
    with id_under_spec [OF s1(1)] content_id_Inr_iff [of h p alg] rng content_id_cong [OF s1(2)] that
    show thesis by metis
  qed
  have shape: "packet_shape p1'" using id_under_spec [OF s1(1) id] by (simp add: packet_ok_def)
  obtain p2 p2' where 2: "packet_for_link h alg p1 = (Inr p2, p2')"
  proof -
    define q where "q = (if p_msg_id p1' = None \<and> alg = MSG_ID_SHA256
      then p1'\<lparr> p_msg_id := Some i \<rparr> else p1')"
    have "packet_shape q" using shape by (simp add: q_def packet_shape_def)
    from packet_twin_total [OF this] obtain t where "packet_twin q (p_ttl q) (Some i) = Inr t" by blast
    with packet_for_link_eq [OF id q_def] that show thesis by (cases "p_msg_id q = Some i") auto
  qed
  note s2 = packet_for_link_spec [OF s1(1) 2]
  have m: "p_msg_id p2 = Some i" using s2(6,7) content_id_cong [OF s1(2)] i by auto
  have "p_version p2 = p_version p \<and> p_type p2 = p_type p \<and> p_ttl p2 = ttl"
    using s1 s2 by (simp add: same_content_def)
  then have "\<exists>bs. frame_bytes p2 i = Inr bs"
    using rng ttl content_id_range [OF h i] by (simp add: frame_bytes_def pack_uint_def)
  then have "\<exists>bs. packet_pack h p2 = (Inr bs, p2)"
    by (simp add: packet_pack_def packet_msg_id_def m)
  with packet_pack_spec [OF s2(1) m] obtain bs r where "packet_pack h p2 = (Inr bs, p2)" "packet_unpack bs = Inr r"
    by blast
  with 1 2 show ?thesis by (auto simp: packet_hop_def packet_with_ttl_def)
qed

lemma packet_route_total:
  "hash_lengths_ok h \<Longrightarrow> packet_ok h p \<Longrightarrow> 0 \<le> p_version p \<Longrightarrow> p_version p < 256 \<Longrightarrow>
     0 \<le> p_type p \<Longrightarrow> p_type p < 256 \<Longrightarrow> list_all (\<lambda>(a, ttl). 0 \<le> ttl \<and> ttl < 256) hops \<Longrightarrow>
     \<exists>r. packet_route h hops p = Inr r"
proof (induction h hops p rule: packet_route.induct)
  case (2 h alg ttl hops p)
  then obtain q where q: "packet_hop h alg ttl p = Inr q" using packet_hop_total [of h p ttl alg] by auto
  note s = packet_hop_spec [OF "2.prems"(2) q]
  with 2 q show ?case by (simp add: same_content_def)
qed simp

subsection \<open>The nonce pool hands out a block once\<close>

fun nonce_draws :: "bytes \<Rightarrow> nat \<Rightarrow> nonce_pool \<Rightarrow> bytes list \<times> nonce_pool" where
  "nonce_draws block 0 st = ([], st)"
| "nonce_draws block (Suc n) st =
     (let (x, st1) = nonce_draw block st; (xs, st2) = nonce_draws block n st1 in (x # xs, st2))"

lemma nonce_draws_from:
  "np_at st + 12 * n \<le> length (np_pool st) \<Longrightarrow> nonce_draws block n st = (xs, st') \<Longrightarrow>
     concat xs = slice (np_at st) (np_at st + 12 * n) (np_pool st) \<and> length xs = n \<and>
     (\<forall>x \<in> set xs. length x = 12) \<and> st' = st\<lparr> np_at := np_at st + 12 * n \<rparr>"
proof (induction n arbitrary: st xs st')
  case 0
  then show ?case by (simp add: slice_def)
next
  case (Suc n)
  let ?x = "slice (np_at st) (np_at st + 12) (np_pool st)"
  let ?st = "st\<lparr> np_at := np_at st + 12 \<rparr>"
  have draw: "nonce_draw block st = (?x, ?st)"
    using Suc.prems(1) by (simp add: nonce_draw_def NONCE_SIZE_def)
  obtain ys st2 where ys: "nonce_draws block n ?st = (ys, st2)" by (meson surj_pair)
  with Suc.prems(2) draw have res: "xs = ?x # ys" "st' = st2" by auto
  have "np_at ?st + 12 * n \<le> length (np_pool ?st)" using Suc.prems(1) by simp
  from Suc.IH [OF this ys] Suc.prems(1) show ?case
    by (auto simp: res slice_concat length_slice algebra_simps)
qed

subsection \<open>Properties\<close>

text \<open>
  C30: Packing and parsing are inverse to each other. A byte string parses to a packet exactly when
  the packet is well formed and the string is the packet's own packed form, so a packet has one
  encoding and every accepted frame repacks to itself byte for byte.
\<close>
theorem packet_codec_roundtrip:
  "wire_dec bs = Some p \<longleftrightarrow> wire_valid p \<and> bs = wire_enc p"
  by (rule packet_wire.dec_iff)

text \<open>
  What a replay window files a packet under. On any packet whose version and type are bytes,
  the answer is the BLAKE2b content id when the header carries either content id (or no link has
  carried the packet yet) and nothing otherwise: a header that does not commit to the content is
  refused, and the key never depends on which of the two hashes the header used.
\<close>
theorem replay_key_commits:
  assumes "packet_ok h p" and "content_id h p MSG_ID_BLAKE2B = Inr b"
    and "content_id h p MSG_ID_SHA256 = Inr s"
  shows "fst (packet_replay_key h p) =
    Inr (if p_msg_id p \<in> {None, Some b, Some s} then Some b else None)"
  using replay_key_spec [OF assms] by (auto split: option.split)

definition sample_hash :: hash_env where
  "sample_hash = \<lparr> h_sha256 = (\<lambda>d. replicate 31 0 @ [1]),
     h_blake2b = (\<lambda>n person d. replicate 7 0 @ [word_of_nat (length d)]) \<rparr>"

definition sample_packet :: packet where
  "sample_packet = \<lparr> p_version = 1, p_type = 2, p_ttl = 64, p_src_id = replicate 20 7,
     p_dst_id = replicate 20 9, p_msg_id = None, p_nonce = replicate 12 3,
     p_gcm_tag = replicate 16 0, p_payload = [104, 105], p_sha256_id = None, p_blake2b_id = None \<rparr>"

lemma sample_packet_ok: "packet_ok sample_hash sample_packet"
  by (simp add: packet_ok_def packet_shape_def sample_packet_def MAX_PAYLOAD_def)

lemma sample_ids: "content_id sample_hash sample_packet MSG_ID_BLAKE2B = Inr 72"
    "content_id sample_hash sample_packet MSG_ID_SHA256 = Inr 0"
  by (simp_all add: msg_id_over_def msg_id_prefix_def pack_uint_def sample_packet_def sample_hash_def
      blake2b_id_def sha256_id_def take_replicate)

theorem replay_key_commits_witness:
  "fst (packet_replay_key sample_hash sample_packet) = Inr (Some 72) \<and>
   fst (packet_replay_key sample_hash (sample_packet\<lparr> p_msg_id := Some 5 \<rparr>)) = Inr None"
proof -
  have ok: "packet_ok sample_hash (sample_packet\<lparr> p_msg_id := m \<rparr>)" for m
    using sample_packet_ok by (simp add: packet_ok_def packet_shape_def)
  have ids: "content_id sample_hash (sample_packet\<lparr> p_msg_id := m \<rparr>) MSG_ID_BLAKE2B = Inr 72"
    "content_id sample_hash (sample_packet\<lparr> p_msg_id := m \<rparr>) MSG_ID_SHA256 = Inr 0" for m
    using sample_ids by simp_all
  have none: "sample_packet\<lparr> p_msg_id := None \<rparr> = sample_packet" "p_msg_id sample_packet = None"
    by (simp_all add: sample_packet_def)
  show ?thesis
    using replay_key_commits [OF ok ids, of None] replay_key_commits [OF ok ids, of "Some 5"]
    by (simp add: none)
qed

text \<open>
  A packet is one packet however it travels. Over any route of links, each with its own hash
  and its own hop budget, from a packet whose fields fit the wire, every hop succeeds and the far
  end holds the same content and files it under the same replay key, the BLAKE2b id of the
  original.
\<close>
theorem route_keeps_identity:
  assumes "hash_lengths_ok h" and "packet_ok h p" and "0 \<le> p_version p" "p_version p < 256"
    and "0 \<le> p_type p" "p_type p < 256" and "list_all (\<lambda>(a, ttl). 0 \<le> ttl \<and> ttl < 256) hops"
    and "hops \<noteq> []"
  shows "\<exists>r k. packet_route h hops p = Inr r \<and> same_content p r \<and>
    content_id h p MSG_ID_BLAKE2B = Inr k \<and> fst (packet_replay_key h r) = Inr (Some k)"
  using packet_route_total [OF assms(1-7)] packet_route_spec [OF assms(2)]
    route_last_hop [OF assms(8,2)] by blast

theorem route_keeps_identity_witness:
  "\<exists>r. packet_route sample_hash [(MSG_ID_SHA256, 63), (MSG_ID_BLAKE2B, 62)] sample_packet = Inr r \<and>
     fst (packet_replay_key sample_hash r) = Inr (Some 72)"
proof -
  have h: "hash_lengths_ok sample_hash" by (simp add: hash_lengths_ok_def sample_hash_def)
  have "0 \<le> p_version sample_packet" "p_version sample_packet < 256"
    "0 \<le> p_type sample_packet" "p_type sample_packet < 256" by (simp_all add: sample_packet_def)
  from route_keeps_identity [OF h sample_packet_ok this,
      of "[(MSG_ID_SHA256, 63), (MSG_ID_BLAKE2B, 62)]"] sample_ids show ?thesis by auto
qed

text \<open>
  C34: A payload encrypted at the source decrypts at the destination after any route, because the
  TTL and the header id, the two fields a relay rewrites, are outside the authenticated data. The
  hypothesis on the session is that decryption inverts encryption under the same nonce and
  authenticated data.
\<close>
theorem encrypted_survives_route:
  assumes "\<And>m n a. dec (fst (enc m n a)) n (snd (enc m n a)) a = Inr m"
    and "packet_create_encrypted enc nonce type src dst plaintext ttl version = Inr p"
    and "packet_route h hops p = Inr r"
  shows "packet_decrypt_payload dec r = Inr plaintext"
proof -
  obtain v t where vt: "pack_uint 1 version = Inr v" "pack_uint 1 type = Inr t"
    and new: "new_packet version type ttl src dst None nonce
      (snd (enc plaintext nonce (v @ t @ pack_str 20 src @ pack_str 20 dst @ pack_str 12 nonce)))
      (fst (enc plaintext nonce (v @ t @ pack_str 20 src @ pack_str 20 dst @ pack_str 12 nonce))) = Inr p"
    using assms(2) by (auto simp: packet_create_encrypted_def rbind_Inr Let_def case_prod_unfold)
  note f = new_packet_Inr [OF new]
  have sc: "same_content p r" using packet_route_spec [of h p hops r] f assms(3) by blast
  have "packet_aad p = Inr (v @ t @ pack_str 20 src @ pack_str 20 dst @ pack_str 12 nonce)"
    using f vt by (simp add: packet_aad_def)
  with f sc show ?thesis
    by (simp add: packet_decrypt_payload_def packet_aad_cong [OF sc] assms(1)) (simp add: same_content_def assms(1))
qed

theorem encrypted_survives_route_witness:
  "\<exists>p r. packet_create_encrypted (\<lambda>m n a. (m, replicate 16 1)) (replicate 12 3) 0
       (replicate 20 7) (replicate 20 9) [1, 2] 64 1 = Inr p \<and>
     packet_route sample_hash [(MSG_ID_SHA256, 63)] p = Inr r \<and>
     packet_decrypt_payload (\<lambda>c n t a. if t = replicate 16 1 then Inr c else Inl ValueError) r = Inr [1, 2]"
proof -
  obtain p where p: "packet_create_encrypted (\<lambda>m n a. (m, replicate 16 1)) (replicate 12 3) 0
      (replicate 20 7) (replicate 20 9) [1, 2] 64 1 = Inr p" "p_version p = 1" "p_type p = 0"
    "packet_ok sample_hash p"
    by (simp add: packet_create_encrypted_def pack_uint_def new_packet_def MAX_PAYLOAD_def
        packet_ok_def packet_shape_def)
  have h: "hash_lengths_ok sample_hash" by (simp add: hash_lengths_ok_def sample_hash_def)
  obtain r where r: "packet_route sample_hash [(MSG_ID_SHA256, 63)] p = Inr r"
    using packet_route_total [OF h p(4), of "[(MSG_ID_SHA256, 63)]"] p by auto
  have "packet_decrypt_payload (\<lambda>c n t a. if t = replicate 16 1 then Inr c else Inl ValueError) r = Inr [1, 2]"
    by (rule encrypted_survives_route [OF _ p(1) r]) simp
  with p(1) r show ?thesis by blast
qed

text \<open>
  The pool never hands a byte out twice. Starting from the empty pool of a new (or forked)
  process and a full block, the first 341 nonces are twelve bytes each and are, in order, the
  block itself cut into pieces.
\<close>
theorem nonces_disjoint:
  assumes "length block = 4096" and "n \<le> 340" and "nonce_draws block (Suc n) reset_nonce_pool = (xs, st)"
  shows "concat xs = take (12 * Suc n) block \<and> length xs = Suc n \<and> (\<forall>x \<in> set xs. length x = 12)"
proof -
  let ?st = "\<lparr> np_pool = block, np_at = 0 \<rparr>"
  have "nonce_draw block reset_nonce_pool = nonce_draw block ?st"
    using assms(1) by (simp add: nonce_draw_def reset_nonce_pool_def NONCE_SIZE_def)
  then have "nonce_draws block (Suc n) ?st = (xs, st)" using assms(3) by simp
  from nonce_draws_from [OF _ this] assms(1,2) show ?thesis by (simp add: slice_def)
qed

theorem nonces_disjoint_witness:
  "\<exists>xs st. nonce_draws (replicate 4096 5) 2 reset_nonce_pool = (xs, st) \<and>
     concat xs = replicate 24 5 \<and> length xs = 2"
proof -
  obtain xs st where d: "nonce_draws (replicate 4096 5) (Suc 1) reset_nonce_pool = (xs, st)"
    by (meson surj_pair)
  from nonces_disjoint [OF _ _ d] d show ?thesis by (auto simp: numeral_2_eq_2)
qed

end
