(* ===== verification/NodeId.thy ===== *)
theory NodeId
  imports Packet
begin

unbundle bit_operations_syntax

text \<open>
  Identities (\<open>src/node_id.py\<close>, class \<open>NodeID\<close>), addresses (\<open>src/uri.py\<close>) and the Kademlia
  distance.

  A \<open>NodeID\<close> is its raw 20 bytes; \<open>new_node_id\<close> is the constructor with its length check, the
  integer the class caches is \<open>be_val\<close> of the raw bytes, and equality is equality of the raw bytes
  (\<open>__eq__\<close>). A Python string is the list of its code points; one with a
  lone surrogate, which \<open>str.encode\<close> refuses, is outside the model.
\<close>

type_synonym node_id = bytes
type_synonym pystr = "nat list"

definition new_node_id :: "bytes \<Rightarrow> node_id result" where
  "new_node_id raw = (if length raw \<noteq> 20 then Inl ValueError else Inr raw)"

definition node_id_from_public_key :: "hash_env \<Rightarrow> bytes \<Rightarrow> node_id result" where
  "node_id_from_public_key h dsa_pub = new_node_id (take 20 (h_sha256 h dsa_pub))"

definition distance :: "node_id \<Rightarrow> node_id \<Rightarrow> nat" where
  "distance a b = be_val a XOR be_val b"

text \<open>\<open>int.bit_length\<close> of a non-negative integer.\<close>

fun bit_length :: "nat \<Rightarrow> nat" where
  "bit_length n = (if n = 0 then 0 else Suc (bit_length (n div 2)))"

declare bit_length.simps [simp del]

subsection \<open>Distance\<close>
lemma distance_sym: "distance a b = distance b a"
  by (simp add: distance_def xor.commute)

lemma distance_self [simp]: "distance a a = 0"
  by (simp add: distance_def)

lemma distance_eq_0: "length a = length b \<Longrightarrow> distance a b = 0 \<longleftrightarrow> a = b"
proof -
  assume len: "length a = length b"
  have "be_val a XOR be_val b = 0 \<longleftrightarrow> be_val a = be_val b"
    by (metis bit.xor_self bit_eq_iff bit_xor_iff xor_self_eq bit_0_eq bot_apply bot_bool_def)
  moreover have "be_val a = be_val b \<longleftrightarrow> a = b"
    using len be_bytes_be_val by metis
  ultimately show ?thesis by (simp add: distance_def)
qed

text \<open>The unidirectional property of the XOR metric: the target and a distance determine one id.\<close>
lemma distance_inj:
  "length a = length b \<Longrightarrow> distance t a = distance t b \<Longrightarrow> a = b"
proof -
  assume len: "length a = length b" and eq: "distance t a = distance t b"
  have "be_val a = be_val t XOR (be_val t XOR be_val a)"
    by (simp add: xor.assoc [symmetric])
  also have "\<dots> = be_val t XOR (be_val t XOR be_val b)"
    using eq by (simp add: distance_def)
  also have "\<dots> = be_val b" by (simp add: xor.assoc [symmetric])
  finally show "a = b" using len be_bytes_be_val by metis
qed

lemma bit_length_le_iff: "bit_length n \<le> k \<longleftrightarrow> n < 2 ^ k"
proof (induction k arbitrary: n)
  case 0
  then show ?case by (subst bit_length.simps) simp
next
  case (Suc k)
  show ?case
  proof (cases "n = 0")
    case False
    then have "bit_length n \<le> Suc k \<longleftrightarrow> bit_length (n div 2) \<le> k"
      by (subst bit_length.simps) simp
    also have "\<dots> \<longleftrightarrow> n div 2 < 2 ^ k" by (rule Suc)
    also have "\<dots> \<longleftrightarrow> n < 2 ^ Suc k" by (simp add: div_less_iff_less_mult mult.commute)
    finally show ?thesis .
  qed (simp add: bit_length.simps)
qed

lemma bit_length_0: "bit_length n = 0 \<longleftrightarrow> n = 0"
  by (subst bit_length.simps) simp

lemma xor_nat_bound: "a < 2 ^ k \<Longrightarrow> b < 2 ^ k \<Longrightarrow> (a XOR b :: nat) < 2 ^ k"
  by (metis take_bit_nat_eq_self_iff take_bit_xor)

lemma distance_bound:
  assumes "length a = 20" "length b = 20"
  shows "distance a b < 2 ^ 160"
proof -
  have "be_val x < 2 ^ 160" if "length x = 20" for x
    using be_val_bound [of x] that by simp
  with assms show ?thesis unfolding distance_def by (blast intro: xor_nat_bound)
qed

subsection \<open>Addresses\<close>

definition MAX_ADDRESSES :: nat where "MAX_ADDRESSES = 8"
definition MAX_URI_LEN :: nat where "MAX_URI_LEN = 256"

definition utf8_length :: "pystr \<Rightarrow> nat" where
  "utf8_length s = sum_list (map (\<lambda>c. if c < 0x80 then 1 else if c < 0x800 then 2
     else if c < 0x10000 then 3 else 4) s)"

text \<open>\<open>s.find('://')\<close>: the first position where the separator starts.\<close>

fun find_sep :: "pystr \<Rightarrow> nat option" where
  "find_sep [] = None"
| "find_sep (c # cs) =
     (if take 3 (c # cs) = [58, 47, 47] then Some 0 else map_option Suc (find_sep cs))"

text \<open>\<open>^[a-z][a-z0-9]{0,15}$\<close>; a trailing newline, which \<open>$\<close> would let through, is a control
  character and refused by the loop that follows.\<close>

definition scheme_ok :: "pystr \<Rightarrow> bool" where
  "scheme_ok s =
     (let t = (if s \<noteq> [] \<and> last s = 10 then butlast s else s) in
      t \<noteq> [] \<and> length t \<le> 16 \<and> 97 \<le> hd t \<and> hd t \<le> 122 \<and>
      list_all (\<lambda>c. (97 \<le> c \<and> c \<le> 122) \<or> (48 \<le> c \<and> c \<le> 57)) t)"

definition validate_uri :: "pystr \<Rightarrow> (pystr \<times> pystr) option" where
  "validate_uri s =
     (if MAX_URI_LEN < utf8_length s then None
      else (case find_sep s of
          None \<Rightarrow> None
        | Some sep \<Rightarrow>
            (let scheme = take sep s; opaque = drop (sep + 3) s in
             if \<not> scheme_ok scheme then None
             else if list_ex (\<lambda>ch. ch < 0x20 \<or> ch = 0x7F) s then None
             else Some (scheme, opaque))))"

lemma find_sep_split: "find_sep s = Some i \<Longrightarrow> s = take i s @ [58, 47, 47] @ drop (i + 3) s"
proof (induction s arbitrary: i rule: find_sep.induct)
  case (2 c cs)
  show ?case
  proof (cases "take 3 (c # cs) = [58, 47, 47]")
    case True
    with 2 show ?thesis by (metis append_Nil append_take_drop_id add_0 find_sep.simps(2)
      option.inject take0)
  next
    case False
    with "2.prems" obtain j where "find_sep cs = Some j" "i = Suc j" by auto
    moreover have "drop (i + 3) (c # cs) = drop (j + 3) cs"
      by (simp only: \<open>i = Suc j\<close> add_Suc drop_Suc_Cons)
    ultimately show ?thesis using "2.IH" [OF False] by simp
  qed
qed simp

lemma validate_uri_split:
  "validate_uri s = Some (scheme, opaque) \<Longrightarrow> s = scheme @ [58, 47, 47] @ opaque"
  using find_sep_split by (auto simp: validate_uri_def Let_def split: if_splits option.splits)

text \<open>The remembered scheme of an address (\<open>uri_scheme\<close> with its table \<open>_scheme_memo\<close>).\<close>

definition SCHEME_MEMO_MAX :: nat where "SCHEME_MEMO_MAX = 1024"

type_synonym scheme_memo = "(pystr, pystr option) odict"

definition uri_scheme :: "pystr \<Rightarrow> scheme_memo \<Rightarrow> pystr option \<times> scheme_memo" where
  "uri_scheme s memo =
     (case map_of memo s of
        Some r \<Rightarrow> (r, memo)
      | None \<Rightarrow>
          (let scheme = map_option fst (validate_uri s) in
           if length s \<le> MAX_URI_LEN then
             (scheme, AList.update s scheme (if SCHEME_MEMO_MAX \<le> length memo then [] else memo))
           else (scheme, memo)))"

definition memo_ok :: "scheme_memo \<Rightarrow> bool" where
  "memo_ok memo \<longleftrightarrow> (\<forall>s r. map_of memo s = Some r \<longrightarrow> r = map_option fst (validate_uri s))
     \<and> length memo \<le> SCHEME_MEMO_MAX"

lemma uri_scheme_memo:
  assumes "memo_ok memo"
  shows "fst (uri_scheme s memo) = map_option fst (validate_uri s)"
    and "memo_ok (snd (uri_scheme s memo))"
proof -
  show "fst (uri_scheme s memo) = map_option fst (validate_uri s)"
    using assms by (auto simp: uri_scheme_def memo_ok_def Let_def split: option.splits)
  have "length (AList.update s r (if SCHEME_MEMO_MAX \<le> length memo then [] else memo)) \<le> SCHEME_MEMO_MAX" for r
    using length_update_le [of s r memo] by (auto simp: SCHEME_MEMO_MAX_def)
  then show "memo_ok (snd (uri_scheme s memo))"
    using assms by (auto simp: uri_scheme_def memo_ok_def Let_def odict_simps split: option.splits)
qed

end
