(* ===== verification/Cert.thy ===== *)
theory Cert
  imports NodeId
begin

text \<open>
  Membership certificates (\<open>src/cert.py\<close>, class \<open>Certificate\<close>) and content keys.

  A certificate is a record of its seven fields. Parsing goes through \<open>cert_build\<close>, the class
  method \<open>_build\<close>: both ids must be the hash of their keys and the signature must verify, so every
  certificate the rest of the program handles satisfies \<open>cert_valid\<close>. The hash is that of
  \<open>hash_env\<close> and \<open>vf message signature public_key\<close> stands for \<open>crypto.verify_signature\<close>.

  Every integer of a certificate is a Python integer: one that does not fit its eight bytes is
  refused by \<open>struct.pack\<close>, which the model returns as \<open>StructError\<close>.
\<close>

type_synonym verifier = "bytes \<Rightarrow> bytes \<Rightarrow> bytes \<Rightarrow> bool"

definition FINGERPRINT_LEN :: nat where "FINGERPRINT_LEN = 16"
definition CERT_HEADER_SIZE :: nat where "CERT_HEADER_SIZE = 62"

record certificate =
  ce_subject_id :: node_id
  ce_subject_pub :: bytes
  ce_issuer_id :: node_id
  ce_issuer_pub :: bytes
  ce_issued_at :: int
  ce_expires_at :: int
  ce_signature :: bytes

definition is_self_signed :: "certificate \<Rightarrow> bool" where
  "is_self_signed c \<longleftrightarrow> ce_subject_id c = ce_issuer_id c"

text \<open>The cached value of \<open>fingerprint\<close> is this one: a certificate never changes.\<close>

definition fingerprint :: "hash_env \<Rightarrow> certificate \<Rightarrow> bytes" where
  "fingerprint h c = take FINGERPRINT_LEN (h_sha256 h (ce_signature c))"

definition is_expired :: "int \<Rightarrow> certificate \<Rightarrow> bool" where
  "is_expired now c \<longleftrightarrow> (if ce_expires_at c = 0 then False else ce_expires_at c < now)"

definition cert_signed_body :: "certificate \<Rightarrow> bytes result" where
  "cert_signed_body c =
     rbind (pack_uint 2 (int (length (ce_subject_pub c)))) (\<lambda>sl.
     rbind (pack_uint 2 (int (length (ce_issuer_pub c)))) (\<lambda>il.
     rbind (pack_uint 8 (ce_issued_at c)) (\<lambda>ia.
     rbind (pack_uint 8 (ce_expires_at c)) (\<lambda>ea.
       Inr (ce_subject_id c @ sl @ ce_subject_pub c @ ce_issuer_id c @ il @ ce_issuer_pub c @ ia @ ea)))))"

definition cert_build :: "hash_env \<Rightarrow> verifier \<Rightarrow> certificate \<Rightarrow> certificate result" where
  "cert_build h vf c =
     rbind (node_id_from_public_key h (ce_subject_pub c)) (\<lambda>sid.
       if sid \<noteq> ce_subject_id c then Inl ValueError
       else rbind (node_id_from_public_key h (ce_issuer_pub c)) (\<lambda>iid.
         if iid \<noteq> ce_issuer_id c then Inl ValueError
         else rbind (cert_signed_body c) (\<lambda>body.
           if \<not> vf body (ce_signature c) (ce_issuer_pub c) then Inl ValueError else Inr c)))"

definition cert_serialize :: "certificate \<Rightarrow> bytes result" where
  "cert_serialize c =
     rbind (pack_uint 2 (int (length (ce_subject_pub c)))) (\<lambda>sl.
     rbind (pack_uint 2 (int (length (ce_issuer_pub c)))) (\<lambda>il.
     rbind (pack_uint 8 (ce_issued_at c)) (\<lambda>ia.
     rbind (pack_uint 8 (ce_expires_at c)) (\<lambda>ea.
     rbind (pack_uint 2 (int (length (ce_signature c)))) (\<lambda>gl.
       Inr (pack_str 20 (ce_subject_id c) @ sl @ pack_str 20 (ce_issuer_id c) @ il @ ia @ ea @ gl @
            ce_subject_pub c @ ce_issuer_pub c @ ce_signature c))))))"

definition cert_deserialize :: "hash_env \<Rightarrow> verifier \<Rightarrow> bytes \<Rightarrow> certificate result" where
  "cert_deserialize h vf data =
     (if length data < CERT_HEADER_SIZE then Inl ValueError
      else
        (let raw_sid = slice 0 20 data; spub_len = be_val (slice 20 22 data);
             raw_iid = slice 22 42 data; ipub_len = be_val (slice 42 44 data);
             issued_at = be_val (slice 44 52 data); expires_at = be_val (slice 52 60 data);
             sig_len = be_val (slice 60 62 data); off = CERT_HEADER_SIZE
         in if length data < off + spub_len + ipub_len + sig_len then Inl ValueError
            else
              (let subject_pub = slice off (off + spub_len) data; off = off + spub_len;
                   issuer_pub = slice off (off + ipub_len) data; off = off + ipub_len;
                   signature = slice off (off + sig_len) data
               in rbind (new_node_id raw_sid) (\<lambda>sid. rbind (new_node_id raw_iid) (\<lambda>iid.
                    cert_build h vf
                      \<lparr> ce_subject_id = sid, ce_subject_pub = subject_pub, ce_issuer_id = iid,
                        ce_issuer_pub = issuer_pub, ce_issued_at = int issued_at,
                        ce_expires_at = int expires_at, ce_signature = signature \<rparr>)))))"

subsection \<open>Valid certificates\<close>

definition cert_valid :: "hash_env \<Rightarrow> verifier \<Rightarrow> certificate \<Rightarrow> bool" where
  "cert_valid h vf c \<longleftrightarrow> cert_build h vf c = Inr c"

definition cert_fits :: "certificate \<Rightarrow> bool" where
  "cert_fits c \<longleftrightarrow> length (ce_signature c) < 65536"

lemma cert_build_Inr:
  "cert_build h vf c = Inr c' \<longleftrightarrow> c' = c \<and>
     node_id_from_public_key h (ce_subject_pub c) = Inr (ce_subject_id c) \<and>
     node_id_from_public_key h (ce_issuer_pub c) = Inr (ce_issuer_id c) \<and>
     (\<exists>body. cert_signed_body c = Inr body \<and> vf body (ce_signature c) (ce_issuer_pub c))"
  by (auto simp: cert_build_def rbind_Inr)

lemma cert_valid_iff:
  "cert_valid h vf c \<longleftrightarrow>
     node_id_from_public_key h (ce_subject_pub c) = Inr (ce_subject_id c) \<and>
     node_id_from_public_key h (ce_issuer_pub c) = Inr (ce_issuer_id c) \<and>
     (\<exists>body. cert_signed_body c = Inr body \<and> vf body (ce_signature c) (ce_issuer_pub c))"
  by (simp add: cert_valid_def cert_build_Inr)

lemma node_id_of_key: "node_id_from_public_key h p = Inr i \<longleftrightarrow> i = take 20 (h_sha256 h p) \<and> length i = 20"
  by (auto simp: node_id_from_public_key_def new_node_id_def)

lemma cert_valid_ids:
  "cert_valid h vf c \<Longrightarrow> ce_subject_id c = take 20 (h_sha256 h (ce_subject_pub c)) \<and>
     ce_issuer_id c = take 20 (h_sha256 h (ce_issuer_pub c)) \<and>
     length (ce_subject_id c) = 20 \<and> length (ce_issuer_id c) = 20"
  unfolding cert_valid_iff node_id_of_key by blast

lemma cert_body_fits:
  "cert_signed_body c = Inr body \<Longrightarrow> length (ce_subject_pub c) < 65536 \<and> length (ce_issuer_pub c) < 65536 \<and>
     0 \<le> ce_issued_at c \<and> ce_issued_at c < 2 ^ 64 \<and> 0 \<le> ce_expires_at c \<and> ce_expires_at c < 2 ^ 64"
  by (auto simp: cert_signed_body_def rbind_Inr pack_uint_Inr)

lemma cert_valid_fits:
  "cert_valid h vf c \<Longrightarrow> length (ce_subject_pub c) < 65536 \<and> length (ce_issuer_pub c) < 65536 \<and>
     0 \<le> ce_issued_at c \<and> ce_issued_at c < 2 ^ 64 \<and> 0 \<le> ce_expires_at c \<and> ce_expires_at c < 2 ^ 64"
  using cert_body_fits by (auto simp: cert_valid_iff)

definition cert_bytes :: "certificate \<Rightarrow> bytes" where
  "cert_bytes c = ce_subject_id c @ be_bytes 2 (length (ce_subject_pub c)) @ ce_issuer_id c @
     be_bytes 2 (length (ce_issuer_pub c)) @ be_bytes 8 (nat (ce_issued_at c)) @
     be_bytes 8 (nat (ce_expires_at c)) @ be_bytes 2 (length (ce_signature c)) @
     ce_subject_pub c @ ce_issuer_pub c @ ce_signature c"

lemma cert_serialize_valid:
  assumes "cert_valid h vf c" "cert_fits c"
  shows "cert_serialize c = Inr (cert_bytes c)"
proof -
  have ids: "length (ce_subject_id c) = 20" "length (ce_issuer_id c) = 20"
    using cert_valid_ids [OF assms(1)] by blast+
  have "pack_uint 2 (int (length (ce_subject_pub c))) = Inr (be_bytes 2 (length (ce_subject_pub c)))"
    "pack_uint 2 (int (length (ce_issuer_pub c))) = Inr (be_bytes 2 (length (ce_issuer_pub c)))"
    "pack_uint 8 (ce_issued_at c) = Inr (be_bytes 8 (nat (ce_issued_at c)))"
    "pack_uint 8 (ce_expires_at c) = Inr (be_bytes 8 (nat (ce_expires_at c)))"
    "pack_uint 2 (int (length (ce_signature c))) = Inr (be_bytes 2 (length (ce_signature c)))"
    using cert_valid_fits [OF assms(1)] assms(2) by (simp_all add: pack_uint_def cert_fits_def)
  then show ?thesis using ids by (simp add: cert_serialize_def cert_bytes_def)
qed

text \<open>Parsing what was serialized gives the certificate back, whatever follows it.\<close>

lemma cert_parse_serialized:
  assumes "cert_valid h vf c" "cert_fits c"
  shows "cert_deserialize h vf (cert_bytes c @ rest) = Inr c"
proof -
  let ?sl = "length (ce_subject_pub c)" and ?il = "length (ce_issuer_pub c)" and ?gl = "length (ce_signature c)"
  have ids: "length (ce_subject_id c) = 20" "length (ce_issuer_id c) = 20"
    using cert_valid_ids [OF assms(1)] by blast+
  have vals: "be_val (be_bytes 2 ?sl) = ?sl" "be_val (be_bytes 2 ?il) = ?il" "be_val (be_bytes 2 ?gl) = ?gl"
    "be_val (be_bytes 8 (nat (ce_issued_at c))) = nat (ce_issued_at c)"
    "be_val (be_bytes 8 (nat (ce_expires_at c))) = nat (ce_expires_at c)"
    using cert_valid_fits [OF assms(1)] assms(2) by (simp_all add: cert_fits_def nat_less_iff del: be_bytes.simps)
  have nonneg: "0 \<le> ce_issued_at c" "0 \<le> ce_expires_at c" using cert_valid_fits [OF assms(1)] by simp_all
  define h1 h2 h3 h4 h5 where "h1 = be_bytes 2 ?sl" and "h2 = be_bytes 2 ?il" and
    "h3 = be_bytes 8 (nat (ce_issued_at c))" and "h4 = be_bytes 8 (nat (ce_expires_at c))" and "h5 = be_bytes 2 ?gl"
  have hl: "length h1 = 2" "length h2 = 2" "length h3 = 8" "length h4 = 8" "length h5 = 2"
    by (simp_all add: h1_def h2_def h3_def h4_def h5_def del: be_bytes.simps)
  define data where "data = cert_bytes c @ rest"
  have data: "data = ce_subject_id c @ h1 @ ce_issuer_id c @ h2 @ h3 @ h4 @ h5 @ ce_subject_pub c @
      ce_issuer_pub c @ ce_signature c @ rest"
    by (simp add: data_def cert_bytes_def h1_def h2_def h3_def h4_def h5_def)
  have f: "slice 0 20 data = ce_subject_id c" "slice 20 22 data = h1" "slice 22 42 data = ce_issuer_id c"
    "slice 42 44 data = h2" "slice 44 52 data = h3" "slice 52 60 data = h4" "slice 60 62 data = h5"
    "slice 62 (62 + ?sl) data = ce_subject_pub c" "slice (62 + ?sl) (62 + ?sl + ?il) data = ce_issuer_pub c"
    "slice (62 + ?sl + ?il) (62 + ?sl + ?il + ?gl) data = ce_signature c"
    by (simp_all add: data slice_def ids hl)
  have len: "62 \<le> length data" "62 + ?sl + ?il + ?gl \<le> length data" by (simp_all add: data ids hl)
  have v: "be_val h1 = ?sl" "be_val h2 = ?il" "be_val h5 = ?gl" "int (be_val h3) = ce_issued_at c"
    "int (be_val h4) = ce_expires_at c"
    using vals nonneg by (simp_all add: h1_def h2_def h3_def h4_def h5_def del: be_bytes.simps)
  have same: "\<lparr> ce_subject_id = ce_subject_id c, ce_subject_pub = ce_subject_pub c, ce_issuer_id = ce_issuer_id c,
      ce_issuer_pub = ce_issuer_pub c, ce_issued_at = ce_issued_at c, ce_expires_at = ce_expires_at c,
      ce_signature = ce_signature c \<rparr> = c" by simp
  have "cert_deserialize h vf data = cert_build h vf c"
    using len by (simp add: same cert_deserialize_def CERT_HEADER_SIZE_def f v ids new_node_id_def Let_def)
  then show ?thesis using assms(1) by (simp add: data_def cert_valid_def)
qed

text \<open>And what parses is a valid certificate, followed by whatever the parser did not read.\<close>

lemma slice_split: "a \<le> b \<Longrightarrow> drop a xs = slice a b xs @ drop b xs"
  by (simp add: slice_def) (metis append_take_drop_id drop_drop le_add_diff_inverse2)

lemma cert_parsed:
  assumes "cert_deserialize h vf data = Inr c"
  shows "cert_valid h vf c \<and> cert_fits c \<and> (\<exists>rest. data = cert_bytes c @ rest)"
proof -
  let ?sl = "be_val (slice 20 22 data)" and ?il = "be_val (slice 42 44 data)" and ?gl = "be_val (slice 60 62 data)"
  have len: "62 \<le> length data" "62 + ?sl + ?il + ?gl \<le> length data"
    and build: "cert_build h vf \<lparr> ce_subject_id = slice 0 20 data, ce_subject_pub = slice 62 (62 + ?sl) data,
        ce_issuer_id = slice 22 42 data, ce_issuer_pub = slice (62 + ?sl) (62 + ?sl + ?il) data,
        ce_issued_at = int (be_val (slice 44 52 data)), ce_expires_at = int (be_val (slice 52 60 data)),
        ce_signature = slice (62 + ?sl + ?il) (62 + ?sl + ?il + ?gl) data \<rparr> = Inr c"
    using assms by (auto simp: cert_deserialize_def CERT_HEADER_SIZE_def Let_def new_node_id_def length_slice
        split: if_splits)
  then have c: "c = \<lparr> ce_subject_id = slice 0 20 data, ce_subject_pub = slice 62 (62 + ?sl) data,
        ce_issuer_id = slice 22 42 data, ce_issuer_pub = slice (62 + ?sl) (62 + ?sl + ?il) data,
        ce_issued_at = int (be_val (slice 44 52 data)), ce_expires_at = int (be_val (slice 52 60 data)),
        ce_signature = slice (62 + ?sl + ?il) (62 + ?sl + ?il + ?gl) data \<rparr>"
    by (simp add: cert_build_Inr)
  have pl: "length (slice 62 (62 + ?sl) data) = ?sl" "length (slice (62 + ?sl) (62 + ?sl + ?il) data) = ?il"
    "length (slice (62 + ?sl + ?il) (62 + ?sl + ?il + ?gl) data) = ?gl"
    using len by (simp_all add: length_slice)
  have hb: "be_bytes 2 (be_val (slice 20 22 data)) = slice 20 22 data"
    "be_bytes 2 (be_val (slice 42 44 data)) = slice 42 44 data"
    "be_bytes 2 (be_val (slice 60 62 data)) = slice 60 62 data"
    "be_bytes 8 (be_val (slice 44 52 data)) = slice 44 52 data"
    "be_bytes 8 (be_val (slice 52 60 data)) = slice 52 60 data"
    using len(1) by (auto intro!: be_bytes_be_val_len simp: length_slice simp del: be_bytes.simps)
  have gl: "?gl < 65536" using be_val_bound [of "slice 60 62 data"] len(1) by (simp add: length_slice)
  have "data = drop 0 data" by simp
  also have "\<dots> = slice 0 20 data @ slice 20 22 data @ slice 22 42 data @ slice 42 44 data @ slice 44 52 data @
      slice 52 60 data @ slice 60 62 data @ slice 62 (62 + ?sl) data @ slice (62 + ?sl) (62 + ?sl + ?il) data @
      slice (62 + ?sl + ?il) (62 + ?sl + ?il + ?gl) data @ drop (62 + ?sl + ?il + ?gl) data"
    by (subst slice_split [of 0 20], simp, subst slice_split [of 20 22], simp, subst slice_split [of 22 42], simp,
        subst slice_split [of 42 44], simp, subst slice_split [of 44 52], simp, subst slice_split [of 52 60], simp,
        subst slice_split [of 60 62], simp, subst slice_split [of 62 "62 + ?sl"], simp,
        subst slice_split [of "62 + ?sl" "62 + ?sl + ?il"], simp,
        subst slice_split [of "62 + ?sl + ?il" "62 + ?sl + ?il + ?gl"], simp, rule refl)
  also have "\<dots> = cert_bytes c @ drop (62 + ?sl + ?il + ?gl) data"
    unfolding cert_bytes_def c by (simp only: certificate.select_convs pl hb nat_int append_assoc)
  finally have "\<exists>rest. data = cert_bytes c @ rest" by blast
  moreover have "cert_valid h vf c" using build c unfolding cert_valid_def by simp
  moreover have "cert_fits c" using gl unfolding cert_fits_def c by (simp only: certificate.select_convs pl)
  ultimately show ?thesis by blast
qed

subsection \<open>Property\<close>

text \<open>
  A certificate is what it was signed as. A byte string parses to a certificate exactly when the
  certificate is valid - both ids are the hashes of their keys, the signature verifies over the
  body - and the string begins with its serialization; what follows it is ignored.
\<close>
theorem certificate_codec:
  "cert_deserialize h vf data = Inr c \<longleftrightarrow>
     cert_valid h vf c \<and> (\<exists>bs rest. cert_serialize c = Inr bs \<and> data = bs @ rest)"
proof -
  have "cert_fits c" if "cert_serialize c = Inr bs" for bs
    using that by (auto simp: cert_serialize_def rbind_Inr pack_uint_Inr cert_fits_def)
  then show ?thesis using cert_parsed cert_serialize_valid cert_parse_serialized by (metis sum.inject(2))
qed

end
