(* ===== verification/Routing.thy ===== *)
theory Routing
  imports Cert Complex_Main "HOL-Library.Multiset"
begin

text \<open>
  The Kademlia routing table (\<open>src/routing.py\<close>): \<open>NodeEntry\<close>, \<open>KBucket\<close>, \<open>RoutingTable\<close>.

  A bucket is the ordered dictionary from a raw id to its entry, oldest contact first; the table
  is its own id, its 160 buckets and the ordered dictionary of the addresses that answered as
  somebody else. Where the code edits an entry that a bucket holds, the model rewrites it in its
  place (\<open>AList.map_entry\<close>). Times are readings of \<open>time.monotonic()\<close>: an operation that reads the
  clock takes the reading as \<open>now\<close> and uses one reading throughout the call.

  \<open>rt_ok\<close> is the invariant: 160 buckets of at most \<open>K\<close> entries, each entry filed under its own id
  in the bucket of its distance, the table's own id nowhere, and at most \<open>MAX_WRONG_ADDRESSES\<close>
  remembered refusals. \<open>rt_capped\<close> is the bound on the addresses of an entry, which \<open>evict_and_add\<close>
  leaves to its caller.
\<close>

definition WRONG_ADDRESS_TTL :: real where "WRONG_ADDRESS_TTL = 600"
definition WRONG_ADDRESS_TTL_MAX :: real where "WRONG_ADDRESS_TTL_MAX = 6 * 3600"
definition MAX_WRONG_ADDRESSES :: nat where "MAX_WRONG_ADDRESSES = 256"
definition SILENT_AFTER :: nat where "SILENT_AFTER = 5"
definition SILENT_RETRY :: real where "SILENT_RETRY = 300"
definition BUCKET_K :: nat where "BUCKET_K = 20"

record node_entry =
  ne_node_id :: node_id
  ne_addresses :: "pystr list"
  ne_dsa_pub :: bytes
  ne_cert_chain :: "certificate list"
  ne_last_seen :: real
  ne_answered_at :: "real option"
  ne_unanswered :: nat
  ne_asked_at :: real

definition new_entry :: "real \<Rightarrow> node_id \<Rightarrow> pystr list \<Rightarrow> bytes \<Rightarrow> node_entry" where
  "new_entry now node_id addresses dsa_pub =
     \<lparr> ne_node_id = node_id, ne_addresses = addresses, ne_dsa_pub = dsa_pub, ne_cert_chain = [],
       ne_last_seen = now, ne_answered_at = None, ne_unanswered = 0, ne_asked_at = 0 \<rparr>"

subsection \<open>One bucket\<close>

type_synonym kbucket = "(bytes, node_entry) odict"

definition bucket_get :: "node_id \<Rightarrow> kbucket \<Rightarrow> node_entry option" where
  "bucket_get node_id b = map_of b node_id"

definition bucket_add :: "node_entry \<Rightarrow> kbucket \<Rightarrow> node_entry option \<times> kbucket" where
  "bucket_add entry b =
     (let key = ne_node_id entry in
      (case map_of b key of
         Some _ \<Rightarrow> (None, od_to_end key (AList.update key entry b))
       | None \<Rightarrow>
           (if length b < BUCKET_K then (None, AList.update key entry b)
            else (Some (snd (hd b)), b))))"

definition bucket_touch :: "node_id \<Rightarrow> kbucket \<Rightarrow> bool \<times> kbucket" where
  "bucket_touch node_id b =
     (case map_of b node_id of None \<Rightarrow> (False, b) | Some _ \<Rightarrow> (True, od_to_end node_id b))"

definition bucket_evict_oldest :: "node_entry \<Rightarrow> kbucket \<Rightarrow> kbucket result" where
  "bucket_evict_oldest replacement b =
     (case b of [] \<Rightarrow> Inl KeyError
      | _ # rest \<Rightarrow> Inr (AList.update (ne_node_id replacement) replacement rest))"

definition bucket_remove :: "node_id \<Rightarrow> kbucket \<Rightarrow> kbucket" where
  "bucket_remove node_id b = AList.delete node_id b"

definition bucket_oldest :: "kbucket \<Rightarrow> node_entry option" where
  "bucket_oldest b = (case b of [] \<Rightarrow> None | (_, e) # _ \<Rightarrow> Some e)"

definition bucket_entries :: "kbucket \<Rightarrow> node_entry list" where
  "bucket_entries b = map snd b"

subsection \<open>The table\<close>

text \<open>(node, address) to (who answered, held until, strikes, forgotten at).\<close>

type_synonym wrong_table = "(node_id \<times> pystr, bytes \<times> real \<times> nat \<times> real) odict"

record routing_table =
  rt_own_id :: node_id
  rt_buckets :: "kbucket list"
  rt_wrong :: wrong_table

definition new_routing_table :: "node_id \<Rightarrow> routing_table" where
  "new_routing_table own_id = \<lparr> rt_own_id = own_id, rt_buckets = replicate 160 [], rt_wrong = [] \<rparr>"

definition bucket_index :: "routing_table \<Rightarrow> node_id \<Rightarrow> int" where
  "bucket_index rt node_id =
     (let d = distance (rt_own_id rt) node_id in if d \<noteq> 0 then int (bit_length d) - 1 else -1)"

definition rt_get :: "routing_table \<Rightarrow> node_id \<Rightarrow> node_entry option" where
  "rt_get rt node_id =
     (let index = bucket_index rt node_id in
      if index < 0 then None else bucket_get node_id (rt_buckets rt ! nat index))"

definition rt_contains :: "routing_table \<Rightarrow> node_id \<Rightarrow> bool" where
  "rt_contains rt node_id \<longleftrightarrow> rt_get rt node_id \<noteq> None"

text \<open>The entry a reference from \<open>get\<close> designates is edited where the bucket holds it.\<close>

definition rt_edit :: "node_id \<Rightarrow> (node_entry \<Rightarrow> node_entry) \<Rightarrow> routing_table \<Rightarrow> routing_table" where
  "rt_edit node_id f rt =
     (let index = bucket_index rt node_id in
      if index < 0 then rt
      else rt\<lparr> rt_buckets := (rt_buckets rt)[nat index :=
             AList.map_entry node_id f (rt_buckets rt ! nat index)] \<rparr>)"

definition wrong_address :: "real \<Rightarrow> routing_table \<Rightarrow> node_id \<Rightarrow> pystr \<Rightarrow> bytes option" where
  "wrong_address now rt node_id address =
     (case map_of (rt_wrong rt) (node_id, address) of
        None \<Rightarrow> None
      | Some (answered_as, until, _, _) \<Rightarrow> if now < until then Some answered_as else None)"

text \<open>\<open>list(dict.fromkeys(xs))\<close>: the first occurrences, in order.\<close>

definition fromkeys :: "'a list \<Rightarrow> 'a list" where
  "fromkeys xs = rev (remdups (rev xs))"

definition rt_add :: "real \<Rightarrow> node_id \<Rightarrow> pystr list \<Rightarrow> bytes \<Rightarrow> routing_table
    \<Rightarrow> node_entry option \<times> routing_table" where
  "rt_add now node_id addresses dsa_pub rt =
     (if node_id = rt_own_id rt then (None, rt)
      else
        (let existing = rt_get rt node_id;
             merged_addrs = fromkeys (addresses @ (case existing of None \<Rightarrow> [] | Some e \<Rightarrow> ne_addresses e));
             merged_addrs = take MAX_ADDRESSES
               (filter (\<lambda>a. wrong_address now rt node_id a = None) merged_addrs);
             merged_pub = (if dsa_pub \<noteq> [] then dsa_pub
               else (case existing of None \<Rightarrow> [] | Some e \<Rightarrow> ne_dsa_pub e));
             entry = new_entry now node_id merged_addrs merged_pub;
             entry = (case existing of None \<Rightarrow> entry
               | Some e \<Rightarrow> entry\<lparr> ne_answered_at := ne_answered_at e, ne_unanswered := ne_unanswered e,
                   ne_asked_at := ne_asked_at e \<rparr>);
             index = nat (bucket_index rt node_id);
             (evictee, b) = bucket_add entry (rt_buckets rt ! index)
         in (evictee, rt\<lparr> rt_buckets := (rt_buckets rt)[index := b] \<rparr>)))"

definition rt_touch :: "real \<Rightarrow> node_id \<Rightarrow> routing_table \<Rightarrow> bool \<times> routing_table" where
  "rt_touch now node_id rt =
     (let index = bucket_index rt node_id in
      if index < 0 then (False, rt)
      else (case bucket_get node_id (rt_buckets rt ! nat index) of
          None \<Rightarrow> (False, rt)
        | Some _ \<Rightarrow>
            (let b = AList.map_entry node_id (\<lambda>e. e\<lparr> ne_last_seen := now \<rparr>) (rt_buckets rt ! nat index)
             in (True, rt\<lparr> rt_buckets := (rt_buckets rt)[nat index := snd (bucket_touch node_id b)] \<rparr>))))"

definition rt_note_answered :: "real \<Rightarrow> node_id \<Rightarrow> routing_table \<Rightarrow> routing_table" where
  "rt_note_answered now node_id rt =
     rt_edit node_id (\<lambda>e. e\<lparr> ne_answered_at := Some now, ne_asked_at := now, ne_unanswered := 0 \<rparr>) rt"

definition rt_note_unanswered :: "real \<Rightarrow> node_id \<Rightarrow> routing_table \<Rightarrow> routing_table" where
  "rt_note_unanswered now node_id rt =
     rt_edit node_id (\<lambda>e. e\<lparr> ne_asked_at := now, ne_unanswered := Suc (ne_unanswered e) \<rparr>) rt"

definition is_silent :: "real \<Rightarrow> node_entry \<Rightarrow> bool" where
  "is_silent now entry =
     (if ne_answered_at entry \<noteq> None \<or> ne_unanswered entry < SILENT_AFTER then False
      else now - ne_asked_at entry < SILENT_RETRY)"

definition rt_drop_address :: "node_id \<Rightarrow> pystr \<Rightarrow> routing_table \<Rightarrow> bool \<times> routing_table" where
  "rt_drop_address node_id address rt =
     (case rt_get rt node_id of
        None \<Rightarrow> (False, rt)
      | Some e \<Rightarrow>
          (if address \<notin> set (ne_addresses e) then (False, rt)
           else (True, rt_edit node_id
             (\<lambda>e. e\<lparr> ne_addresses := filter (\<lambda>a. a \<noteq> address) (ne_addresses e) \<rparr>) rt)))"

definition prune_wrong :: "real \<Rightarrow> routing_table \<Rightarrow> routing_table" where
  "prune_wrong now rt = rt\<lparr> rt_wrong := filter (\<lambda>(_, (_, _, _, forgotten)). \<not> forgotten \<le> now) (rt_wrong rt) \<rparr>"

definition wrong_hold :: "nat \<Rightarrow> real" where
  "wrong_hold strikes = min (WRONG_ADDRESS_TTL * 2 ^ strikes) WRONG_ADDRESS_TTL_MAX"

definition rt_note_wrong_address ::
  "real \<Rightarrow> node_id \<Rightarrow> pystr \<Rightarrow> node_id \<Rightarrow> routing_table \<Rightarrow> routing_table" where
  "rt_note_wrong_address now node_id address answered_as rt =
     (let rt = prune_wrong now (snd (rt_drop_address node_id address rt));
          key = (node_id, address);
          previous = map_of (rt_wrong rt) key;
          wrong = AList.delete key (rt_wrong rt);
          strikes = (case previous of None \<Rightarrow> 0
            | Some (who, _, n, _) \<Rightarrow> if who = answered_as then min (n + 1) 16 else 0);
          wrong = od_trim (MAX_WRONG_ADDRESSES - 1) wrong;
          held = wrong_hold strikes
      in rt\<lparr> rt_wrong := AList.update key
           (answered_as, now + held, strikes, now + held + WRONG_ADDRESS_TTL_MAX) wrong \<rparr>)"

definition rt_evict_and_add :: "real \<Rightarrow> node_id \<Rightarrow> pystr list \<Rightarrow> bytes \<Rightarrow> routing_table
    \<Rightarrow> routing_table result" where
  "rt_evict_and_add now node_id addresses dsa_pub rt =
     (let index = bucket_index rt node_id in
      if index < 0 then Inr rt
      else rbind (bucket_evict_oldest (new_entry now node_id addresses dsa_pub) (rt_buckets rt ! nat index))
        (\<lambda>b. Inr (rt\<lparr> rt_buckets := (rt_buckets rt)[nat index := b] \<rparr>)))"

definition rt_remove :: "node_id \<Rightarrow> routing_table \<Rightarrow> routing_table" where
  "rt_remove node_id rt =
     (let index = bucket_index rt node_id in
      if index < 0 then rt
      else rt\<lparr> rt_buckets := (rt_buckets rt)[nat index := bucket_remove node_id (rt_buckets rt ! nat index)] \<rparr>)"

definition rt_all_entries :: "routing_table \<Rightarrow> node_entry list" where
  "rt_all_entries rt = concat (map bucket_entries (rt_buckets rt))"

text \<open>\<open>heapq.nsmallest(count, it, key=...)\<close> is documented as \<open>sorted(it, key=...)[:count]\<close>.\<close>

definition get_closest :: "real \<Rightarrow> routing_table \<Rightarrow> node_id \<Rightarrow> nat \<Rightarrow> node_entry list" where
  "get_closest now rt target cnt =
     take cnt (sort_key (\<lambda>e. distance target (ne_node_id e))
       (filter (\<lambda>e. \<not> is_silent now e) (rt_all_entries rt)))"

definition silent_ids :: "real \<Rightarrow> routing_table \<Rightarrow> bytes list" where
  "silent_ids now rt = map ne_node_id (filter (is_silent now) (rt_all_entries rt))"

subsection \<open>The invariant\<close>

definition entry_ok :: "node_id \<Rightarrow> nat \<Rightarrow> bytes \<Rightarrow> node_entry \<Rightarrow> bool" where
  "entry_ok own i k e \<longleftrightarrow> ne_node_id e = k \<and> length k = 20 \<and> k \<noteq> own \<and>
     bit_length (distance own k) = Suc i"

definition bucket_ok :: "node_id \<Rightarrow> nat \<Rightarrow> kbucket \<Rightarrow> bool" where
  "bucket_ok own i b \<longleftrightarrow> od_ok b \<and> length b \<le> BUCKET_K \<and> od_all (entry_ok own i) b"

definition rt_ok :: "routing_table \<Rightarrow> bool" where
  "rt_ok rt \<longleftrightarrow> length (rt_own_id rt) = 20 \<and> length (rt_buckets rt) = 160 \<and>
     (\<forall>i < 160. bucket_ok (rt_own_id rt) i (rt_buckets rt ! i)) \<and>
     od_ok (rt_wrong rt) \<and> length (rt_wrong rt) \<le> MAX_WRONG_ADDRESSES"

abbreviation capped :: "bytes \<Rightarrow> node_entry \<Rightarrow> bool" where
  "capped k e \<equiv> length (ne_addresses e) \<le> MAX_ADDRESSES"

definition rt_capped :: "routing_table \<Rightarrow> bool" where
  "rt_capped rt \<longleftrightarrow> (\<forall>b \<in> set (rt_buckets rt). od_all capped b)"

lemma bucket_index_range:
  assumes "length (rt_own_id rt) = 20" "length nid = 20" "nid \<noteq> rt_own_id rt"
  shows "0 \<le> bucket_index rt nid" "bucket_index rt nid < 160"
    "bit_length (distance (rt_own_id rt) nid) = Suc (nat (bucket_index rt nid))"
proof -
  let ?d = "distance (rt_own_id rt) nid"
  have d: "?d \<noteq> 0" using distance_eq_0 [of "rt_own_id rt" nid] assms by auto
  moreover have "bit_length ?d \<le> 160"
    using distance_bound [OF assms(1,2)] by (simp add: bit_length_le_iff)
  moreover have "0 < bit_length ?d" using d bit_length_0 [of ?d] by simp
  ultimately show "0 \<le> bucket_index rt nid" "bucket_index rt nid < 160"
    "bit_length ?d = Suc (nat (bucket_index rt nid))"
    by (simp_all add: bucket_index_def Let_def)
qed

lemma bucket_index_own: "bucket_index rt (rt_own_id rt) = -1"
  by (simp add: bucket_index_def)

lemma rt_ok_bucket: "rt_ok rt \<Longrightarrow> i < 160 \<Longrightarrow> bucket_ok (rt_own_id rt) i (rt_buckets rt ! i)"
  by (simp add: rt_ok_def)

lemma rt_ok_set_bucket:
  assumes "rt_ok rt" "i < 160 \<Longrightarrow> bucket_ok (rt_own_id rt) i b"
  shows "rt_ok (rt\<lparr> rt_buckets := (rt_buckets rt)[i := b] \<rparr>)"
proof -
  have "bucket_ok (rt_own_id rt) j ((rt_buckets rt)[i := b] ! j)" if "j < 160" for j
    using assms that by (cases "j = i") (auto simp: rt_ok_def)
  with assms(1) show ?thesis by (simp add: rt_ok_def)
qed

lemma bucket_add_ok:
  assumes b: "bucket_ok own i b" and e: "entry_ok own i (ne_node_id e) e"
  shows "bucket_ok own i (snd (bucket_add e b))"
proof (cases "map_of b (ne_node_id e)")
  case None
  then show ?thesis
    using assms length_update_le [of "ne_node_id e" e b]
    by (simp add: bucket_ok_def bucket_add_def Let_def od_all_update)
next
  case (Some x)
  then have "ne_node_id e \<in> fst ` set b" by (auto dest: map_of_SomeD intro: rev_image_eqI)
  with Some assms show ?thesis
    by (simp add: bucket_ok_def bucket_add_def Let_def length_update_present od_all_update od_all_to_end)
qed

lemma bucket_touch_ok: "bucket_ok own i b \<Longrightarrow> bucket_ok own i (snd (bucket_touch k b))"
  by (auto simp: bucket_ok_def bucket_touch_def intro!: od_all_intros split: option.splits)

lemma bucket_edit_ok:
  "bucket_ok own i b \<Longrightarrow> (\<And>e. entry_ok own i k e \<Longrightarrow> entry_ok own i k (f e)) \<Longrightarrow>
     bucket_ok own i (AList.map_entry k f b)"
  by (auto simp: bucket_ok_def intro!: od_all_intros)

lemma bucket_remove_ok: "bucket_ok own i b \<Longrightarrow> bucket_ok own i (bucket_remove k b)"
  using AList.length_delete_le [of k b]
  by (auto simp: bucket_ok_def bucket_remove_def intro!: od_all_intros)

lemma rt_edit_ok:
  "rt_ok rt \<Longrightarrow> (\<And>own i k e. entry_ok own i k e \<Longrightarrow> entry_ok own i k (f e)) \<Longrightarrow> rt_ok (rt_edit nid f rt)"
  by (auto simp: rt_edit_def Let_def intro!: rt_ok_set_bucket bucket_edit_ok rt_ok_bucket)

lemma rt_own_edit [simp]: "rt_own_id (rt_edit nid f rt) = rt_own_id rt"
  by (simp add: rt_edit_def Let_def)

lemma rt_wrong_edit [simp]: "rt_wrong (rt_edit nid f rt) = rt_wrong rt"
  by (simp add: rt_edit_def Let_def)

lemma new_routing_table_ok: "length own = 20 \<Longrightarrow> rt_ok (new_routing_table own)"
  by (simp add: rt_ok_def new_routing_table_def bucket_ok_def)

subsection \<open>Every operation keeps it\<close>
lemma rt_add_ok:
  assumes ok: "rt_ok rt" and len: "length nid = 20"
  shows "rt_ok (snd (rt_add now nid addrs pub rt))"
proof (cases "nid = rt_own_id rt")
  case False
  let ?i = "nat (bucket_index rt nid)"
  have idx: "?i < 160" "bit_length (distance (rt_own_id rt) nid) = Suc ?i"
    using bucket_index_range [of rt nid] ok len False by (auto simp: rt_ok_def)
  have e: "entry_ok (rt_own_id rt) ?i (ne_node_id e) e"
    if "ne_node_id e = nid" for e
    using that len False idx by (simp add: entry_ok_def)
  show ?thesis
    unfolding rt_add_def Let_def using False
    by (auto simp: case_prod_unfold new_entry_def split: option.splits
        intro!: rt_ok_set_bucket bucket_add_ok rt_ok_bucket ok e)
qed (simp add: rt_add_def ok)

lemma rt_touch_ok: "rt_ok rt \<Longrightarrow> rt_ok (snd (rt_touch now nid rt))"
  by (auto simp: rt_touch_def Let_def entry_ok_def split: option.splits
      intro!: rt_ok_set_bucket bucket_touch_ok bucket_edit_ok rt_ok_bucket)

lemma rt_note_answered_ok: "rt_ok rt \<Longrightarrow> rt_ok (rt_note_answered now nid rt)"
  by (auto simp: rt_note_answered_def entry_ok_def intro!: rt_edit_ok)

lemma rt_note_unanswered_ok: "rt_ok rt \<Longrightarrow> rt_ok (rt_note_unanswered now nid rt)"
  by (auto simp: rt_note_unanswered_def entry_ok_def intro!: rt_edit_ok)

lemma rt_drop_address_ok: "rt_ok rt \<Longrightarrow> rt_ok (snd (rt_drop_address nid a rt))"
  by (auto simp: rt_drop_address_def entry_ok_def split: option.splits intro!: rt_edit_ok)

lemma rt_remove_ok: "rt_ok rt \<Longrightarrow> rt_ok (rt_remove nid rt)"
  by (auto simp: rt_remove_def Let_def intro!: rt_ok_set_bucket bucket_remove_ok rt_ok_bucket)

lemma rt_evict_and_add_ok:
  assumes ok: "rt_ok rt" and len: "length nid = 20" and run: "rt_evict_and_add now nid addrs pub rt = Inr rt'"
  shows "rt_ok rt'"
proof (cases "bucket_index rt nid < 0")
  case True
  with ok run show ?thesis by (simp add: rt_evict_and_add_def)
next
  case False
  then have "nid \<noteq> rt_own_id rt" by (auto simp: bucket_index_own)
  then have idx: "nat (bucket_index rt nid) < 160"
    "bit_length (distance (rt_own_id rt) nid) = Suc (nat (bucket_index rt nid))"
    using bucket_index_range [of rt nid] ok len by (auto simp: rt_ok_def)
  let ?b = "rt_buckets rt ! nat (bucket_index rt nid)" and ?e = "new_entry now nid addrs pub"
  have e: "entry_ok (rt_own_id rt) (nat (bucket_index rt nid)) nid ?e"
    using \<open>nid \<noteq> rt_own_id rt\<close> len idx by (simp add: entry_ok_def new_entry_def)
  obtain x rest where b: "?b = x # rest"
    "rt' = rt\<lparr> rt_buckets := (rt_buckets rt)[nat (bucket_index rt nid) := AList.update nid ?e rest] \<rparr>"
    using run False
    by (cases ?b) (auto simp: rt_evict_and_add_def Let_def bucket_evict_oldest_def new_entry_def)
  have "bucket_ok (rt_own_id rt) (nat (bucket_index rt nid)) (x # rest)" using rt_ok_bucket [OF ok idx(1)] b(1) by simp
  then have "bucket_ok (rt_own_id rt) (nat (bucket_index rt nid)) (AList.update nid ?e rest)"
    using length_update_le [of nid ?e rest] e by (auto simp: bucket_ok_def od_all_def intro: od_all_update [unfolded od_all_def, rule_format])
  with ok show ?thesis unfolding b(2) by (intro rt_ok_set_bucket)
qed

lemma prune_wrong_ok: "rt_ok rt \<Longrightarrow> rt_ok (prune_wrong now rt)"
  by (auto simp: rt_ok_def prune_wrong_def intro: le_trans [OF length_filter_le])

lemma rt_note_wrong_address_ok:
  assumes "rt_ok rt"
  shows "rt_ok (rt_note_wrong_address now nid a who rt)"
proof -
  define rt' where "rt' = prune_wrong now (snd (rt_drop_address nid a rt))"
  have ok: "rt_ok rt'" unfolding rt'_def by (intro prune_wrong_ok rt_drop_address_ok assms)
  have "rt_ok (rt'\<lparr> rt_wrong := AList.update k v (od_trim (MAX_WRONG_ADDRESSES - 1)
      (AList.delete k (rt_wrong rt'))) \<rparr>)" for k v
    using ok length_update_le [of k v "od_trim (MAX_WRONG_ADDRESSES - 1) (AList.delete k (rt_wrong rt'))"]
    by (auto simp: rt_ok_def MAX_WRONG_ADDRESSES_def min_def split: if_splits)
  then show ?thesis by (simp add: rt_note_wrong_address_def Let_def rt'_def)
qed

subsection \<open>Reading the table after an operation\<close>
lemma rt_get_own [simp]: "rt_get rt (rt_own_id rt) = None"
  by (simp add: rt_get_def bucket_index_own)

lemma rt_get_set_bucket:
  assumes ok: "rt_ok rt" and n: "length nid = 20" "nid \<noteq> rt_own_id rt"
  shows "rt_get (rt\<lparr> rt_buckets := (rt_buckets rt)[nat (bucket_index rt nid) := b] \<rparr>) m =
    (if bucket_index rt m = bucket_index rt nid then bucket_get m b else rt_get rt m)"
proof -
  let ?rt = "rt\<lparr> rt_buckets := (rt_buckets rt)[nat (bucket_index rt nid) := b] \<rparr>"
  have len: "length (rt_own_id rt) = 20" "length (rt_buckets rt) = 160" using ok by (simp_all add: rt_ok_def)
  note r = bucket_index_range [OF len(1) n]
  have bi: "bucket_index ?rt m = bucket_index rt m" by (simp add: bucket_index_def)
  show ?thesis
  proof (cases "bucket_index rt m = bucket_index rt nid")
    case True
    with r len bi show ?thesis by (simp add: rt_get_def Let_def)
  next
    case False
    moreover from this have "nat (bucket_index rt nid) \<noteq> nat (bucket_index rt m)" if "\<not> bucket_index rt m < 0"
      using that r(1) by simp
    ultimately show ?thesis by (simp add: rt_get_def Let_def bi)
  qed
qed

lemma rt_get_bucket:
  "rt_ok rt \<Longrightarrow> length nid = 20 \<Longrightarrow> nid \<noteq> rt_own_id rt \<Longrightarrow>
     rt_get rt nid = map_of (rt_buckets rt ! nat (bucket_index rt nid)) nid"
  using bucket_index_range [of rt nid] by (simp add: rt_get_def Let_def bucket_get_def rt_ok_def)

lemma map_of_map_entry_other: "m \<noteq> k \<Longrightarrow> map_of (AList.map_entry k f d) m = map_of d m"
  by (simp add: AList.map_of_map_entry)

lemma rt_get_edit:
  assumes ok: "rt_ok rt" and n: "length nid = 20" "nid \<noteq> rt_own_id rt"
  shows "rt_get (rt_edit nid f rt) m = (if m = nid then map_option f (rt_get rt m) else rt_get rt m)"
proof -
  have len: "length (rt_own_id rt) = 20" using ok by (simp add: rt_ok_def)
  note r = bucket_index_range [OF len n]
  have m: "rt_get rt k = map_of (rt_buckets rt ! nat (bucket_index rt nid)) k"
    if "bucket_index rt k = bucket_index rt nid" for k
    using that r(1) by (simp add: rt_get_def Let_def bucket_get_def)
  have e: "rt_edit nid f rt = rt\<lparr> rt_buckets := (rt_buckets rt)[nat (bucket_index rt nid) :=
      AList.map_entry nid f (rt_buckets rt ! nat (bucket_index rt nid))] \<rparr>"
    using r(1) by (simp add: rt_edit_def Let_def)
  show ?thesis
    unfolding e rt_get_set_bucket [OF ok n]
    by (auto simp: bucket_get_def AList.map_of_map_entry m split: option.splits)
qed

definition merged_entry ::
  "real \<Rightarrow> node_id \<Rightarrow> pystr list \<Rightarrow> bytes \<Rightarrow> routing_table \<Rightarrow> node_entry" where
  "merged_entry now nid addrs pub rt =
     (let old = rt_get rt nid;
          a = take MAX_ADDRESSES (filter (\<lambda>a. wrong_address now rt nid a = None)
                (fromkeys (addrs @ (case old of None \<Rightarrow> [] | Some e \<Rightarrow> ne_addresses e))));
          p = (if pub \<noteq> [] then pub else (case old of None \<Rightarrow> [] | Some e \<Rightarrow> ne_dsa_pub e))
      in (case old of None \<Rightarrow> new_entry now nid a p
          | Some e \<Rightarrow> (new_entry now nid a p)\<lparr> ne_answered_at := ne_answered_at e,
              ne_unanswered := ne_unanswered e, ne_asked_at := ne_asked_at e \<rparr>))"

lemma bucket_add_get:
  "od_ok b \<Longrightarrow> bucket_add e b = (r, b') \<Longrightarrow>
     (r = None \<longrightarrow> map_of b' = (map_of b)(ne_node_id e \<mapsto> e)) \<and> (r \<noteq> None \<longrightarrow> b' = b)"
  by (auto simp: bucket_add_def Let_def odict_simps split: option.splits if_splits)

lemma rt_add_unfold:
  "nid \<noteq> rt_own_id rt \<Longrightarrow> rt_add now nid addrs pub rt =
     (let i = nat (bucket_index rt nid); r = bucket_add (merged_entry now nid addrs pub rt) (rt_buckets rt ! i)
      in (fst r, rt\<lparr> rt_buckets := (rt_buckets rt)[i := snd r] \<rparr>))"
  by (simp add: rt_add_def merged_entry_def Let_def case_prod_unfold)

lemma rt_add_get:
  assumes ok: "rt_ok rt" and n: "length nid = 20" "nid \<noteq> rt_own_id rt"
    and add: "rt_add now nid addrs pub rt = (r, rt')"
  shows "r = None \<Longrightarrow> rt_get rt' m = (if m = nid then Some (merged_entry now nid addrs pub rt) else rt_get rt m)"
    and "r \<noteq> None \<Longrightarrow> rt_get rt' m = rt_get rt m"
proof -
  let ?i = "nat (bucket_index rt nid)" and ?e = "merged_entry now nid addrs pub rt"
  have len: "length (rt_own_id rt) = 20" using ok by (simp add: rt_ok_def)
  note r = bucket_index_range [OF len n]
  have od: "od_ok (rt_buckets rt ! ?i)" using rt_ok_bucket [OF ok, of ?i] r by (simp add: bucket_ok_def)
  obtain b where b: "bucket_add ?e (rt_buckets rt ! ?i) = (r, b)"
    and rt': "rt' = rt\<lparr> rt_buckets := (rt_buckets rt)[?i := b] \<rparr>"
    using add rt_add_unfold [OF n(2)] by (auto simp: Let_def prod_eq_iff)
  have id: "ne_node_id ?e = nid"
    by (simp add: merged_entry_def Let_def new_entry_def split: option.split)
  have m: "rt_get rt k = map_of (rt_buckets rt ! ?i) k" if "bucket_index rt k = bucket_index rt nid" for k
    using that r(1) by (simp add: rt_get_def Let_def bucket_get_def)
  note g = bucket_add_get [OF od b]
  show "r = None \<Longrightarrow> rt_get rt' m = (if m = nid then Some ?e else rt_get rt m)"
    "r \<noteq> None \<Longrightarrow> rt_get rt' m = rt_get rt m"
    unfolding rt' rt_get_set_bucket [OF ok n] using g id by (auto simp: bucket_get_def m)
qed

lemma rt_get_drop_address:
  assumes ok: "rt_ok rt" and n: "length nid = 20"
  shows "rt_get (snd (rt_drop_address nid a rt)) nid =
    map_option (\<lambda>e. e\<lparr> ne_addresses := filter (\<lambda>x. x \<noteq> a) (ne_addresses e) \<rparr>) (rt_get rt nid)"
proof (cases "rt_get rt nid")
  case (Some e)
  then have "nid \<noteq> rt_own_id rt" by auto
  moreover have "e\<lparr> ne_addresses := filter (\<lambda>x. x \<noteq> a) (ne_addresses e) \<rparr> = e"
    if "a \<notin> set (ne_addresses e)"
  proof -
    have "filter (\<lambda>x. x \<noteq> a) (ne_addresses e) = ne_addresses e" using that by (auto simp: filter_id_conv)
    then show ?thesis by simp
  qed
  ultimately show ?thesis
    using Some rt_get_edit [OF ok n] by (simp add: rt_drop_address_def)
qed (simp add: rt_drop_address_def)

lemma rt_get_wrong_cong: "rt_get (rt\<lparr> rt_wrong := w \<rparr>) m = rt_get rt m"
  by (simp add: rt_get_def bucket_index_def Let_def)

lemma rt_get_note_wrong:
  assumes "rt_ok rt" "length nid = 20"
  shows "rt_get (rt_note_wrong_address now nid a who rt) nid =
    map_option (\<lambda>e. e\<lparr> ne_addresses := filter (\<lambda>x. x \<noteq> a) (ne_addresses e) \<rparr>) (rt_get rt nid)"
  using rt_get_drop_address [OF assms, of a]
  by (simp add: rt_note_wrong_address_def Let_def rt_get_wrong_cong prune_wrong_def)

lemma note_wrong_recorded:
  "\<exists>n. map_of (rt_wrong (rt_note_wrong_address now nid a who rt)) (nid, a) =
     Some (who, now + wrong_hold n, n, now + wrong_hold n + WRONG_ADDRESS_TTL_MAX)"
  by (simp add: rt_note_wrong_address_def Let_def odict_simps)

lemma wrong_hold_ge: "WRONG_ADDRESS_TTL \<le> wrong_hold n"
proof -
  have "(1 :: real) \<le> 2 ^ n" by simp
  then show ?thesis by (simp add: wrong_hold_def WRONG_ADDRESS_TTL_def WRONG_ADDRESS_TTL_MAX_def)
qed

subsection \<open>Runs of operations\<close>

datatype rt_op =
    OpAdd bytes "pystr list" bytes
  | OpTouch node_id
  | OpAnswered node_id
  | OpUnanswered node_id
  | OpWrong node_id pystr node_id
  | OpDrop node_id pystr
  | OpRemove node_id
  | OpEvictAdd bytes "pystr list" bytes

text \<open>An id reaches \<open>add\<close> and \<open>evict_and_add\<close> through the \<open>NodeID\<close> constructor, which raises on a wrong length;
  \<open>evict_and_add\<close> raises on an empty bucket.\<close>

fun rt_step :: "real \<times> rt_op \<Rightarrow> routing_table \<Rightarrow> routing_table" where
  "rt_step (now, OpAdd raw addrs pub) rt =
     (case new_node_id raw of Inl _ \<Rightarrow> rt | Inr nid \<Rightarrow> snd (rt_add now nid addrs pub rt))"
| "rt_step (now, OpTouch nid) rt = snd (rt_touch now nid rt)"
| "rt_step (now, OpAnswered nid) rt = rt_note_answered now nid rt"
| "rt_step (now, OpUnanswered nid) rt = rt_note_unanswered now nid rt"
| "rt_step (now, OpWrong nid a who) rt = rt_note_wrong_address now nid a who rt"
| "rt_step (now, OpDrop nid a) rt = snd (rt_drop_address nid a rt)"
| "rt_step (now, OpRemove nid) rt = rt_remove nid rt"
| "rt_step (now, OpEvictAdd raw addrs pub) rt =
     (case new_node_id raw of
        Inl _ \<Rightarrow> rt
      | Inr nid \<Rightarrow> (case rt_evict_and_add now nid addrs pub rt of Inl _ \<Rightarrow> rt | Inr rt' \<Rightarrow> rt'))"

lemma rt_step_ok: "rt_ok rt \<Longrightarrow> rt_ok (rt_step e rt)"
  by (induction e rt rule: rt_step.induct)
    (simp_all add: new_node_id_def rt_add_ok rt_touch_ok rt_note_answered_ok rt_note_unanswered_ok
      rt_note_wrong_address_ok rt_drop_address_ok rt_remove_ok rt_evict_and_add_ok split: sum.split)

text \<open>The one operation that does not trim the addresses it is given.\<close>

fun op_fits :: "rt_op \<Rightarrow> bool" where
  "op_fits (OpEvictAdd _ addrs _) \<longleftrightarrow> length addrs \<le> MAX_ADDRESSES"
| "op_fits _ \<longleftrightarrow> True"

lemma capped_set:
  assumes "rt_capped rt" "i < length (rt_buckets rt) \<Longrightarrow> od_all capped b"
  shows "rt_capped (rt\<lparr> rt_buckets := (rt_buckets rt)[i := b] \<rparr>)"
proof (cases "i < length (rt_buckets rt)")
  case True
  then have "set ((rt_buckets rt)[i := b]) \<subseteq> insert b (set (rt_buckets rt))" by (rule_tac set_update_subset_insert)
  with assms True show ?thesis by (auto simp: rt_capped_def)
qed (use assms(1) in \<open>simp add: rt_capped_def list_update_beyond\<close>)

lemma capped_bucket: "rt_capped rt \<Longrightarrow> i < length (rt_buckets rt) \<Longrightarrow> od_all capped (rt_buckets rt ! i)"
  by (simp add: rt_capped_def)

lemma capped_edit:
  "rt_capped rt \<Longrightarrow> (\<And>e. capped nid e \<Longrightarrow> capped nid (f e)) \<Longrightarrow> rt_capped (rt_edit nid f rt)"
  by (auto simp: rt_edit_def Let_def intro!: capped_set od_all_intros capped_bucket)

lemma capped_wrong [simp]: "rt_capped (rt\<lparr> rt_wrong := w \<rparr>) = rt_capped rt"
  by (simp add: rt_capped_def)

lemma capped_drop: "rt_capped rt \<Longrightarrow> rt_capped (snd (rt_drop_address nid a rt))"
  by (auto simp: rt_drop_address_def split: option.split intro!: capped_edit intro: le_trans [OF length_filter_le])

lemma capped_add:
  assumes "rt_capped rt"
  shows "rt_capped (snd (rt_add now nid addrs pub rt))"
proof -
  have put: "od_all capped (snd (bucket_add e b))" if "od_all capped b" "capped [] e" for e b
    using that by (auto simp: bucket_add_def Let_def intro!: od_all_intros split: option.split)
  show ?thesis
    using assms
    by (auto simp: rt_add_def Let_def case_prod_unfold new_entry_def split: option.split
        intro!: capped_set put capped_bucket)
qed

lemma capped_evict:
  assumes "rt_capped rt" "length addrs \<le> MAX_ADDRESSES" "rt_evict_and_add now nid addrs pub rt = Inr rt'"
  shows "rt_capped rt'"
proof (cases "bucket_index rt nid < 0")
  case True
  with assms show ?thesis by (simp add: rt_evict_and_add_def)
next
  case False
  let ?i = "nat (bucket_index rt nid)" and ?e = "new_entry now nid addrs pub"
  obtain x rest where b: "rt_buckets rt ! ?i = x # rest" "rt' = rt\<lparr> rt_buckets := (rt_buckets rt)[?i := AList.update nid ?e rest] \<rparr>"
    using assms(3) False
    by (cases "rt_buckets rt ! ?i") (auto simp: rt_evict_and_add_def Let_def bucket_evict_oldest_def new_entry_def)
  have "od_all capped (AList.update nid ?e rest)" if "?i < length (rt_buckets rt)"
  proof -
    have "od_all capped (x # rest)" using capped_bucket [OF assms(1) that] b(1) by simp
    then have "od_all capped rest" by (simp add: od_all_def)
    then show ?thesis using assms(2) by (intro od_all_update) (simp_all add: new_entry_def)
  qed
  with assms(1) show ?thesis unfolding b(2) by (intro capped_set)
qed

lemma capped_touch: "rt_capped rt \<Longrightarrow> rt_capped (snd (rt_touch now nid rt))"
proof -
  have t: "od_all capped b \<Longrightarrow> od_all capped (snd (bucket_touch k b))" for k b
    by (auto simp: bucket_touch_def intro!: od_all_intros split: option.split)
  show "rt_capped rt \<Longrightarrow> rt_capped (snd (rt_touch now nid rt))"
    by (auto simp: rt_touch_def Let_def split: option.split intro!: capped_set t od_all_intros capped_bucket)
qed

lemma capped_remove: "rt_capped rt \<Longrightarrow> rt_capped (rt_remove nid rt)"
proof -
  have t: "od_all capped b \<Longrightarrow> od_all capped (bucket_remove k b)" for k b
    by (auto simp: bucket_remove_def intro!: od_all_intros)
  show "rt_capped rt \<Longrightarrow> rt_capped (rt_remove nid rt)"
    by (auto simp: rt_remove_def Let_def intro!: capped_set t capped_bucket)
qed

lemma capped_answers:
  "rt_capped rt \<Longrightarrow> rt_capped (rt_note_answered now nid rt)" "rt_capped rt \<Longrightarrow> rt_capped (rt_note_unanswered now nid rt)"
  by (simp_all add: rt_note_answered_def rt_note_unanswered_def capped_edit)

lemma capped_note_wrong: "rt_capped rt \<Longrightarrow> rt_capped (rt_note_wrong_address now nid a who rt)"
  by (simp add: rt_note_wrong_address_def prune_wrong_def Let_def capped_drop)

lemma rt_step_capped: "rt_capped rt \<Longrightarrow> op_fits op \<Longrightarrow> rt_capped (rt_step (now, op) rt)"
  using capped_evict
  by (cases op) (auto simp: capped_add capped_touch capped_answers capped_note_wrong capped_drop capped_remove split: sum.split)

lemma rt_run_capped: "rt_capped rt \<Longrightarrow> list_all (\<lambda>(t, op). op_fits op) es \<Longrightarrow> rt_capped (fold rt_step es rt)"
  by (induction es arbitrary: rt) (auto intro: rt_step_capped)

lemma new_table_capped: "rt_capped (new_routing_table own)"
  by (simp add: rt_capped_def new_routing_table_def)

lemma rt_all_entries_bound:
  assumes "rt_ok rt"
  shows "length (rt_all_entries rt) \<le> 160 * BUCKET_K"
proof -
  have "list_all (\<lambda>b. length b \<le> BUCKET_K) (rt_buckets rt)"
    using assms by (auto simp: rt_ok_def bucket_ok_def list_all_length)
  moreover have "list_all (\<lambda>b. length b \<le> n) bs \<Longrightarrow>
      length (concat (map bucket_entries bs)) \<le> length bs * n" for bs :: "kbucket list" and n
    by (induction bs) (auto simp: bucket_entries_def)
  ultimately show ?thesis using assms by (fastforce simp: rt_all_entries_def rt_ok_def)
qed

interpretation rt: bounded_book "\<lambda>rt. length (rt_all_entries rt)" "\<lambda>_. 160 * BUCKET_K" rt_step rt_ok
  by unfold_locales (auto intro: rt_all_entries_bound rt_step_ok)

lemma rt_own_step [simp]: "rt_own_id (rt_step e rt) = rt_own_id rt"
  by (induction e rt rule: rt_step.induct)
    (auto simp: rt_add_def rt_touch_def rt_note_answered_def rt_note_unanswered_def
      rt_note_wrong_address_def prune_wrong_def rt_drop_address_def rt_remove_def rt_evict_and_add_def rbind_Inr
      Let_def case_prod_unfold split: sum.split option.split)

lemma rt_own_run: "rt_own_id (fold rt_step es rt) = rt_own_id rt"
  by (induction es arbitrary: rt) auto

lemma rt_get_touch:
  assumes ok: "rt_ok rt" and n: "length nid = 20"
  shows "rt_get (snd (rt_touch now nid rt)) m =
    (if m = nid then map_option (\<lambda>e. e\<lparr> ne_last_seen := now \<rparr>) (rt_get rt m) else rt_get rt m)"
proof (cases "nid = rt_own_id rt")
  case True
  then show ?thesis by (simp add: rt_touch_def bucket_index_own)
next
  case False
  have len: "length (rt_own_id rt) = 20" using ok by (simp add: rt_ok_def)
  note r = bucket_index_range [OF len n False]
  have k: "rt_get rt k = map_of (rt_buckets rt ! nat (bucket_index rt nid)) k"
    if "bucket_index rt k = bucket_index rt nid" for k
    using that r(1) by (simp add: rt_get_def Let_def bucket_get_def)
  let ?b = "rt_buckets rt ! nat (bucket_index rt nid)"
  let ?b' = "AList.map_entry nid (\<lambda>e. e\<lparr> ne_last_seen := now \<rparr>) ?b"
  show ?thesis
  proof (cases "map_of ?b nid")
    case None
    then show ?thesis using r(1) k [of nid] by (simp add: rt_touch_def Let_def bucket_get_def)
  next
    case (Some e)
    then have "snd (rt_touch now nid rt) =
        rt\<lparr> rt_buckets := (rt_buckets rt)[nat (bucket_index rt nid) := od_to_end nid ?b'] \<rparr>"
      using r(1) by (simp add: rt_touch_def Let_def bucket_get_def bucket_touch_def
          AList.map_of_map_entry)
    then show ?thesis
      using rt_get_set_bucket [OF ok n False, of "od_to_end nid ?b'" m]
      by (auto simp: bucket_get_def odict_simps AList.map_of_map_entry k split: option.splits)
  qed
qed

lemma rt_get_remove:
  assumes ok: "rt_ok rt" and n: "length nid = 20"
  shows "rt_get (rt_remove nid rt) m = (if m = nid then None else rt_get rt m)"
proof (cases "nid = rt_own_id rt")
  case True
  then show ?thesis by (simp add: rt_remove_def bucket_index_own)
next
  case False
  have len: "length (rt_own_id rt) = 20" using ok by (simp add: rt_ok_def)
  note r = bucket_index_range [OF len n False]
  have k: "rt_get rt k = map_of (rt_buckets rt ! nat (bucket_index rt nid)) k"
    if "bucket_index rt k = bucket_index rt nid" for k
    using that r(1) by (simp add: rt_get_def Let_def bucket_get_def)
  have "rt_remove nid rt = rt\<lparr> rt_buckets := (rt_buckets rt)[nat (bucket_index rt nid) :=
      AList.delete nid (rt_buckets rt ! nat (bucket_index rt nid))] \<rparr>"
    using r(1) by (simp add: rt_remove_def Let_def bucket_remove_def)
  then show ?thesis
    using rt_get_set_bucket [OF ok n False] by (simp add: bucket_get_def AList.delete_conv k)
qed

fun op_node :: "rt_op \<Rightarrow> node_id" where
  "op_node (OpAdd m _ _) = m"
| "op_node (OpTouch m) = m"
| "op_node (OpAnswered m) = m"
| "op_node (OpUnanswered m) = m"
| "op_node (OpWrong m _ _) = m"
| "op_node (OpDrop m _) = m"
| "op_node (OpRemove m) = m"
| "op_node (OpEvictAdd m _ _) = m"

text \<open>The operations that strike an address off, and the one that adds without asking whether it was.\<close>

fun strikes_or_evicts :: "rt_op \<Rightarrow> bool" where
  "strikes_or_evicts (OpWrong _ _ _) = True"
| "strikes_or_evicts (OpEvictAdd _ _ _) = True"
| "strikes_or_evicts _ = False"

lemma rt_wrong_step: "\<not> strikes_or_evicts op \<Longrightarrow> rt_wrong (rt_step (now, op) rt) = rt_wrong rt"
  by (cases op)
    (auto simp: rt_add_def rt_touch_def rt_note_answered_def rt_note_unanswered_def rt_drop_address_def
      rt_remove_def Let_def case_prod_unfold split: sum.split option.split)

text \<open>Which addresses an operation can give an entry.\<close>
lemma rt_edit_own: "nid = rt_own_id rt \<Longrightarrow> rt_edit nid f rt = rt"
  by (simp add: rt_edit_def bucket_index_own)

lemma rt_step_addresses:
  assumes ok: "rt_ok rt" and n: "length (op_node op) = 20"
    and e: "rt_get (rt_step (now, op) rt) nid = Some e" and a: "a \<in> set (ne_addresses e)"
    and op: "\<not> strikes_or_evicts op"
  shows "wrong_address now rt nid a = None \<or>
    (\<exists>e0. rt_get rt nid = Some e0 \<and> a \<in> set (ne_addresses e0))"
proof -
  have edit: "\<exists>e0. rt_get rt nid = Some e0 \<and> a \<in> set (ne_addresses e0)"
    if "rt_get (rt_edit m f rt) nid = Some e" "length m = 20"
      "\<And>e. set (ne_addresses (f e)) \<subseteq> set (ne_addresses e)" for m f
    using that a rt_get_edit [OF ok that(2)] rt_edit_own [of m rt f]
    by (cases "m = rt_own_id rt") (fastforce split: if_splits)+
  show ?thesis
  proof (cases op)
    case (OpAdd m addrs pub)
    then have m: "new_node_id m = Inr m" "length m = 20" using n by (simp_all add: new_node_id_def)
    obtain r rt' where add: "rt_add now m addrs pub rt = (r, rt')" by (meson surj_pair)
    show ?thesis
    proof (cases "m = rt_own_id rt")
      case True
      with OpAdd m e a show ?thesis by (auto simp: rt_add_def)
    next
      case False
      note g = rt_add_get [OF ok m(2) False add, of nid]
      have "a \<in> set (ne_addresses (merged_entry now m addrs pub rt)) \<Longrightarrow> wrong_address now rt m a = None"
        by (auto simp: merged_entry_def Let_def new_entry_def split: option.splits dest: in_set_takeD)
      with g e a OpAdd m add show ?thesis by (cases r) (auto split: if_splits)
    qed
  next
    case (OpTouch m)
    with e a n rt_get_touch [OF ok, of m now nid] show ?thesis
      by (cases "rt_get rt nid") (auto split: if_splits)
  next
    case (OpRemove m)
    with e a n rt_get_remove [OF ok, of m nid] show ?thesis by (auto split: if_splits)
  next
    case (OpAnswered m)
    with e have "rt_get (rt_edit m (\<lambda>e. e\<lparr> ne_answered_at := Some now, ne_asked_at := now,
        ne_unanswered := 0 \<rparr>) rt) nid = Some e" by (simp add: rt_note_answered_def)
    from edit [OF this] n OpAnswered show ?thesis by simp
  next
    case (OpUnanswered m)
    with e have "rt_get (rt_edit m (\<lambda>e. e\<lparr> ne_asked_at := now,
        ne_unanswered := Suc (ne_unanswered e) \<rparr>) rt) nid = Some e" by (simp add: rt_note_unanswered_def)
    from edit [OF this] n OpUnanswered show ?thesis by simp
  next
    case (OpDrop m x)
    with e n a show ?thesis using edit [of m "\<lambda>e. e\<lparr> ne_addresses := filter (\<lambda>a. a \<noteq> x) (ne_addresses e) \<rparr>"]
      by (auto simp: rt_drop_address_def split: option.splits if_splits)
  qed (use op in simp_all)
qed

subsection \<open>Properties\<close>

text \<open>
  C36: Whatever is added, touched, answered, struck off, removed or put in the place of a bucket's oldest, in any
  order and at any times, a routing table stays well formed: at most 20 entries in each of its 160 buckets, each
  entry in the bucket of its XOR distance and filed under its own id, at most 256 remembered refusals, and
  never its own id. Every entry has at most 8 addresses, as long as \<open>evict_and_add\<close>, which stores the list it is
  given as it is, is given no longer one.
\<close>
theorem rt_always_ok:
  assumes "new_node_id own = Inr me"
  shows "rt_ok (fold rt_step es (new_routing_table me)) \<and>
    length (rt_all_entries (fold rt_step es (new_routing_table me))) \<le> 3200 \<and>
    rt_get (fold rt_step es (new_routing_table me)) me = None \<and>
    (list_all (\<lambda>(t, op). op_fits op) es \<longrightarrow> rt_capped (fold rt_step es (new_routing_table me)))"
proof -
  have me: "length me = 20" using assms by (simp add: new_node_id_def split: if_splits)
  note ok = new_routing_table_ok [OF me]
  have "rt_own_id (fold rt_step es (new_routing_table me)) = me"
    by (simp add: rt_own_run new_routing_table_def)
  then have "rt_get (fold rt_step es (new_routing_table me)) me = None" by (metis rt_get_own)
  with rt.run_inv [OF ok rt_all_entries_bound [OF ok], of es] rt_run_capped [OF new_table_capped] show ?thesis
    by (simp add: BUCKET_K_def)
qed

theorem rt_always_ok_witness:
  "rt_ok (fold rt_step [(1, OpAdd (replicate 20 7) [[104, 105]] []), (2, OpTouch (replicate 20 7)),
     (3, OpEvictAdd (replicate 20 7) [[104]] [])] (new_routing_table (replicate 20 0))) \<and>
   rt_capped (fold rt_step [(1, OpAdd (replicate 20 7) [[104, 105]] []), (2, OpTouch (replicate 20 7)),
     (3, OpEvictAdd (replicate 20 7) [[104]] [])] (new_routing_table (replicate 20 0)))"
proof -
  have "new_node_id (replicate 20 0) = Inr (replicate 20 0)" by (simp add: new_node_id_def)
  note p = rt_always_ok [OF this, of "[(1, OpAdd (replicate 20 7) [[104, 105]] []), (2, OpTouch (replicate 20 7)),
     (3, OpEvictAdd (replicate 20 7) [[104]] [])]"]
  have "list_all (\<lambda>(t, op). op_fits op) [(1, OpAdd (replicate 20 7) [[104, 105]] []), (2, OpTouch (replicate 20 7)),
     (3, OpEvictAdd (replicate 20 7) [[104]] [])]"
    by (simp add: MAX_ADDRESSES_def)
  with p show ?thesis by blast
qed

definition struck :: "node_id \<Rightarrow> pystr \<Rightarrow> real \<Rightarrow> routing_table \<Rightarrow> bool" where
  "struck nid a until rt \<longleftrightarrow> rt_ok rt \<and>
     (\<exists>who u n f. map_of (rt_wrong rt) (nid, a) = Some (who, u, n, f) \<and> until \<le> u) \<and>
     (\<forall>e. rt_get rt nid = Some e \<longrightarrow> a \<notin> set (ne_addresses e))"

lemma struck_step:
  assumes "struck nid a until rt" "now < until" "length (op_node op) = 20" "\<not> strikes_or_evicts op"
  shows "struck nid a until (rt_step (now, op) rt)"
proof -
  have ok: "rt_ok rt" using assms(1) by (simp add: struck_def)
  have "wrong_address now rt nid a \<noteq> None"
    using assms(1,2) by (auto simp: struck_def wrong_address_def)
  then have "a \<notin> set (ne_addresses e)" if "rt_get (rt_step (now, op) rt) nid = Some e" for e
    using rt_step_addresses [OF ok assms(3) that _ assms(4), of a] assms(1) by (auto simp: struck_def)
  with assms(1) rt_step_ok [OF ok] rt_wrong_step [OF assms(4)] show ?thesis
    by (simp add: struck_def)
qed

lemma struck_run:
  "struck nid a until rt \<Longrightarrow>
     list_all (\<lambda>(t, op). t < until \<and> length (op_node op) = 20 \<and> \<not> strikes_or_evicts op) es \<Longrightarrow>
     struck nid a until (fold rt_step es rt)"
  by (induction es arbitrary: rt) (auto intro: struck_step)

text \<open>
  An address that answered as somebody else stays struck off. After it was noted at one time,
  any number of adds, touches, lookups, drops and removals within the next 600 seconds, whoever
  advertises the address again, leave the node's entry without it.
\<close>
theorem wrong_address_stays_struck:
  assumes "rt_ok rt" and "length nid = 20"
    and "list_all (\<lambda>(t, op). t < now + WRONG_ADDRESS_TTL \<and> length (op_node op) = 20 \<and> \<not> strikes_or_evicts op) es"
    and "rt_get (fold rt_step es (rt_note_wrong_address now nid a who rt)) nid = Some e"
  shows "a \<notin> set (ne_addresses e)"
proof -
  have "struck nid a (now + WRONG_ADDRESS_TTL) (rt_note_wrong_address now nid a who rt)"
    using note_wrong_recorded [of now nid a who rt] wrong_hold_ge rt_note_wrong_address_ok [OF assms(1)]
    by (auto simp: struck_def rt_get_note_wrong [OF assms(1,2)])
  from struck_run [OF this assms(3)] assms(4) show ?thesis by (simp add: struck_def)
qed

theorem wrong_address_stays_struck_witness:
  "\<exists>e. rt_get (fold rt_step [(10, OpAdd (replicate 20 1) [[97], [98]] [])]
       (rt_note_wrong_address 5 (replicate 20 1) [97] (replicate 20 2) (new_routing_table (replicate 20 0))))
     (replicate 20 1) = Some e \<and> [97] \<notin> set (ne_addresses e)"
proof -
  let ?rt = "new_routing_table (replicate 20 0)" and ?n = "replicate 20 1 :: bytes"
  let ?w = "rt_note_wrong_address 5 ?n [97] (replicate 20 2) ?rt"
  have ok: "rt_ok ?rt" by (rule new_routing_table_ok) simp
  have okw: "rt_ok ?w" by (rule rt_note_wrong_address_ok [OF ok])
  have own: "rt_own_id ?w = replicate 20 0"
    using rt_own_step [of "(5, OpWrong ?n [97] (replicate 20 2))" ?rt] by (simp add: new_routing_table_def)
  then have ne: "?n \<noteq> rt_own_id ?w" by simp
  have "rt_get ?rt ?n = None"
    using rt_get_bucket [OF ok, of ?n] bucket_index_range [of ?rt ?n]
    by (simp add: new_routing_table_def)
  then have none: "rt_get ?w ?n = None" using rt_get_note_wrong [OF ok] by simp
  obtain r rt' where add: "rt_add 10 ?n [[97], [98]] [] ?w = (r, rt')" by (meson surj_pair)
  have idx: "nat (bucket_index ?w ?n) < 160"
    using bucket_index_range(2) [of ?w ?n] own by simp
  have "rt_buckets ?w = replicate 160 []"
    using \<open>rt_get ?rt ?n = None\<close>
    by (simp add: rt_note_wrong_address_def Let_def prune_wrong_def rt_drop_address_def new_routing_table_def)
  with idx add rt_add_unfold [OF ne] have "r = None"
    by (simp add: Let_def bucket_add_def BUCKET_K_def)
  then have "rt_get (fold rt_step [(10, OpAdd ?n [[97], [98]] [])] ?w) ?n
      = Some (merged_entry 10 ?n [[97], [98]] [] ?w)" (is "_ = Some ?e")
    using rt_add_get(1) [OF okw _ ne add, of ?n] add by (simp add: new_node_id_def)
  from wrong_address_stays_struck [OF ok _ _ this] this show ?thesis
    by (simp add: WRONG_ADDRESS_TTL_def)
qed

text \<open>
  \<open>get_closest\<close> returns the nearest known nodes and only those worth asking: the answer is in
  order of distance, holds no silent entry, has \<open>count\<close> entries or every eligible one, and no
  eligible entry left out is nearer than one returned.
\<close>
theorem get_closest_nearest:
  fixes rt target cnt now
  defines "result \<equiv> get_closest now rt target cnt"
    and "eligible \<equiv> filter (\<lambda>e. \<not> is_silent now e) (rt_all_entries rt)"
  shows "sorted (map (\<lambda>e. distance target (ne_node_id e)) result) \<and>
    length result = min cnt (length eligible) \<and> set result \<subseteq> set eligible \<and>
    (\<exists>rest. mset eligible = mset result + mset rest \<and>
       (\<forall>e \<in> set result. \<forall>e' \<in> set rest. distance target (ne_node_id e) \<le> distance target (ne_node_id e')))"
proof -
  let ?f = "\<lambda>e. distance target (ne_node_id e)"
  let ?s = "sort_key ?f eligible"
  have res: "result = take cnt ?s" by (simp add: result_def eligible_def get_closest_def)
  have sorted: "sorted (map ?f ?s)" by simp
  then have app: "sorted (map ?f (take cnt ?s) @ map ?f (drop cnt ?s))"
    by (simp flip: map_append)
  have "mset eligible = mset result + mset (drop cnt ?s)"
    unfolding res by (metis append_take_drop_id mset_append mset_sort)
  moreover have "\<forall>e \<in> set result. \<forall>e' \<in> set (drop cnt ?s). ?f e \<le> ?f e'"
    using app unfolding res sorted_append by simp
  moreover have "sorted (map ?f result)"
    unfolding res using app by (simp add: sorted_append)
  moreover have "set result \<subseteq> set eligible"
    unfolding res using set_take_subset [of cnt ?s] by simp
  ultimately show ?thesis by (auto simp: res)
qed

definition two_node_table :: routing_table where
  "two_node_table = (new_routing_table (replicate 20 0))\<lparr> rt_buckets := replicate 159 [] @
     [[(replicate 20 255, new_entry 10 (replicate 20 255) [[97]] []),
       (replicate 20 254, new_entry 11 (replicate 20 254) [[98]] [])]] \<rparr>"

theorem get_closest_nearest_witness:
  "\<exists>e. get_closest 20 two_node_table (replicate 20 254) 1 = [e] \<and>
     (ne_node_id e = replicate 20 255 \<or> ne_node_id e = replicate 20 254)"
proof -
  have eligible: "filter (\<lambda>e. \<not> is_silent 20 e) (rt_all_entries two_node_table) =
      [new_entry 10 (replicate 20 255) [[97]] [], new_entry 11 (replicate 20 254) [[98]] []]"
    by (simp add: two_node_table_def rt_all_entries_def bucket_entries_def is_silent_def new_entry_def SILENT_AFTER_def)
  from get_closest_nearest [of "replicate 20 254" 20 two_node_table 1]
  have "length (get_closest 20 two_node_table (replicate 20 254) 1) = 1"
    "set (get_closest 20 two_node_table (replicate 20 254) 1) \<subseteq>
       {new_entry 10 (replicate 20 255) [[97]] [], new_entry 11 (replicate 20 254) [[98]] []}"
    unfolding eligible by simp_all
  then show ?thesis by (auto simp: length_Suc_conv new_entry_def)
qed

text \<open>
  An id that never answered keeps its count. Re-advertising a node, with whatever addresses
  and key, does not clear the unanswered count or the time it was last asked, so a silent id stays
  silent until its retry time comes.
\<close>
theorem add_keeps_silence:
  assumes "rt_ok rt" and "rt_get rt nid = Some e" and "length nid = 20" and "is_silent t e"
    and "rt_add now nid addrs pub rt = (r, rt')"
  shows "\<exists>e'. rt_get rt' nid = Some e' \<and> is_silent t e' \<and> ne_unanswered e' = ne_unanswered e"
proof -
  have ne: "nid \<noteq> rt_own_id rt" using assms(2) by auto
  have "is_silent t (merged_entry now nid addrs pub rt) \<and>
      ne_unanswered (merged_entry now nid addrs pub rt) = ne_unanswered e"
    using assms(2,4) by (auto simp: merged_entry_def is_silent_def Let_def new_entry_def split: if_splits)
  with rt_add_get [OF assms(1,3) ne assms(5), of nid] assms(2,4) show ?thesis by (cases r) auto
qed

text \<open>A table that knows one node, asked five times in vain.\<close>

definition one_node_table :: routing_table where
  "one_node_table = fold rt_step
     ((10, OpAdd (replicate 20 1) [[97]] []) # replicate 5 (20, OpUnanswered (replicate 20 1)))
     (new_routing_table (replicate 20 0))"

lemma new_table_get: "length own = 20 \<Longrightarrow> length nid = 20 \<Longrightarrow> rt_get (new_routing_table own) nid = None"
  using rt_get_bucket [OF new_routing_table_ok [of own], of nid]
    bucket_index_range(2) [of "new_routing_table own" nid]
  by (cases "nid = own") (auto simp: new_routing_table_def rt_get_def bucket_index_def)

lemma new_table_add:
  assumes own: "length own = 20" and n: "length nid = 20" "nid \<noteq> own"
  shows "rt_get (snd (rt_add now nid addrs pub (new_routing_table own))) nid =
    Some (merged_entry now nid addrs pub (new_routing_table own))"
proof -
  let ?rt = "new_routing_table own"
  note ok = new_routing_table_ok [OF own]
  have ne: "nid \<noteq> rt_own_id ?rt" using n by (simp add: new_routing_table_def)
  have "nat (bucket_index ?rt nid) < 160"
    using bucket_index_range(2) [of ?rt nid] own n by (simp add: new_routing_table_def)
  then have "fst (rt_add now nid addrs pub ?rt) = None"
    by (simp add: rt_add_unfold [OF ne] Let_def bucket_add_def BUCKET_K_def) (simp add: new_routing_table_def)
  then show ?thesis using rt_add_get(1) [OF ok n(1) ne, of now addrs pub _ _ nid]
    by (metis prod.collapse)
qed

theorem add_keeps_silence_witness:
  "\<exists>e r rt' e'. rt_get one_node_table (replicate 20 1) = Some e \<and> is_silent 100 e \<and>
     rt_add 50 (replicate 20 1) [[98]] [] one_node_table = (r, rt') \<and>
     rt_get rt' (replicate 20 1) = Some e' \<and> is_silent 100 e'"
proof -
  let ?n = "replicate 20 1 :: bytes" and ?own = "replicate 20 0 :: bytes"
  let ?rt0 = "snd (rt_add 10 ?n [[97]] [] (new_routing_table ?own))"
  have own: "rt_own_id ?rt0 = ?own" using rt_own_step [of "(10, OpAdd ?n [[97]] [])" "new_routing_table ?own"]
    by (simp add: new_node_id_def new_routing_table_def)
  have ok0: "rt_ok ?rt0" by (intro rt_add_ok new_routing_table_ok) simp_all
  have edit: "rt_ok rt \<and> rt_own_id rt = ?own \<and> rt_get rt ?n = Some e \<Longrightarrow>
      rt_ok (rt_note_unanswered 20 ?n rt) \<and> rt_own_id (rt_note_unanswered 20 ?n rt) = ?own \<and>
      rt_get (rt_note_unanswered 20 ?n rt) ?n
        = Some (e\<lparr> ne_asked_at := 20, ne_unanswered := Suc (ne_unanswered e) \<rparr>)" for rt e
    using rt_get_edit [of rt ?n] rt_note_unanswered_ok [of rt 20 ?n] by (simp add: rt_note_unanswered_def)
  have one: "one_node_table = rt_note_unanswered 20 ?n (rt_note_unanswered 20 ?n
      (rt_note_unanswered 20 ?n (rt_note_unanswered 20 ?n (rt_note_unanswered 20 ?n ?rt0))))"
    by (simp add: one_node_table_def new_node_id_def eval_nat_numeral)
  obtain e0 where e0: "rt_get ?rt0 ?n = Some e0" "ne_unanswered e0 = 0" "ne_answered_at e0 = None"
    using new_table_add [of ?own ?n 10 "[[97]]" "[]"]
    by (simp add: merged_entry_def Let_def new_entry_def new_table_get)
  have "rt_ok ?rt0 \<and> rt_own_id ?rt0 = ?own \<and> rt_get ?rt0 ?n = Some e0" using ok0 own e0 by simp
  from edit [OF edit [OF edit [OF edit [OF edit [OF this]]]]]
  obtain e where e: "rt_ok one_node_table" "rt_get one_node_table ?n = Some e"
    "ne_unanswered e = 5" "ne_answered_at e = None" "ne_asked_at e = 20"
    unfolding one [symmetric] using e0 by auto
  have silent: "is_silent 100 e" using e by (simp add: is_silent_def SILENT_AFTER_def SILENT_RETRY_def)
  obtain r rt' where add: "rt_add 50 ?n [[98]] [] one_node_table = (r, rt')" by (meson surj_pair)
  from add_keeps_silence [OF e(1,2) _ silent add] e silent add show ?thesis by auto
qed

end
