(* ===== verification/Reputation.thy ===== *)
theory Reputation
  imports NodeId Complex_Main "HOL-Library.Multiset"
begin

text \<open>
  What the node thinks of the nodes it talks to (\<open>src/reputation.py\<close>): the decaying score per
  identity of \<open>Reputation\<close> and the per-sender allowance of \<open>RateGate\<close>.

  Floats are real numbers. An operation that reads the clock takes \<open>clk\<close>, the reading of
  \<open>time.monotonic()\<close> for that call, and \<open>now\<close>, the optional keyword that replaces it as the
  operation's stamp. A \<open>KeyError\<close> the code could raise is the left side of a result.

  The lemmas up to \<open>rumour_below_suspect\<close> give the central guarantee: hearsay is bounded strictly
  below the first threshold, so only what the node saw itself moves a standing.
\<close>

datatype verdict = OK | SUSPECT | HOSTILE

definition MAX_WEIGHT :: real where "MAX_WEIGHT = 4"
definition MAX_ACCUSERS :: nat where "MAX_ACCUSERS = 64"
definition MAX_REASON :: nat where "MAX_REASON = 64"
definition MAX_SUBJECTS :: nat where "MAX_SUBJECTS = 16"

definition decay :: "real \<Rightarrow> real \<Rightarrow> real \<Rightarrow> real" where
  "decay value age halflife =
     (if value \<le> 0 \<or> age \<le> 0 then max 0 value
      else if halflife \<le> 0 then 0
      else value * (1 / 2) powr (age / halflife))"

type_synonym accusers = "(bytes, real \<times> real \<times> bytes) odict"

record rep_entry =
  re_direct :: real
  re_accusers :: accusers
  re_at :: real
  re_reason :: pystr
  re_reports :: nat

record reputation =
  rp_suspect :: real
  rp_hostile :: real
  rp_halflife :: real
  rp_max_tracked :: nat
  rp_standings :: "(bytes, rep_entry) odict"
  rp_rumour_ceiling :: real

definition new_reputation :: "real \<Rightarrow> real \<Rightarrow> real \<Rightarrow> int \<Rightarrow> reputation" where
  "new_reputation suspect hostile halflife max_tracked =
     (let s = max (1 / 10) suspect; h = max (s + 1 / 10) hostile in
      \<lparr> rp_suspect = s, rp_hostile = h, rp_halflife = max 1 halflife,
        rp_max_tracked = nat (max 1 max_tracked), rp_standings = [],
        rp_rumour_ceiling = max 0 (s - 1 / 10) \<rparr>)"

subsection \<open>Reading\<close>

text \<open>The loop of \<open>_by_family\<close> over the accusers, then its final filter.\<close>

definition loud_step :: "real \<Rightarrow> real \<Rightarrow> (bytes, real) odict \<Rightarrow> real \<times> real \<times> bytes \<Rightarrow> (bytes, real) odict" where
  "loud_step halflife now loudest = (\<lambda>(weight, since, family).
     (let value = decay weight (now - since) halflife;
          held = (case map_of loudest family of None \<Rightarrow> 0 | Some v \<Rightarrow> v)
      in if held < value then AList.update family value loudest else loudest))"

definition by_family :: "reputation \<Rightarrow> rep_entry \<Rightarrow> real \<Rightarrow> (bytes, real) odict" where
  "by_family r entry now =
     filter (\<lambda>(_, v). 0 < v) 
       (foldl (loud_step (rp_halflife r) now) [] (map snd (re_accusers entry)))"

definition entry_score :: "reputation \<Rightarrow> rep_entry \<Rightarrow> real \<Rightarrow> real" where
  "entry_score r entry stamp =
     decay (re_direct entry) (stamp - re_at entry) (rp_halflife r)
       + min (sum_list (map snd (by_family r entry stamp))) (rp_rumour_ceiling r)"

definition rep_score :: "reputation \<Rightarrow> node_id \<Rightarrow> real \<Rightarrow> real" where
  "rep_score r node_id stamp =
     (case map_of (rp_standings r) node_id of None \<Rightarrow> 0 | Some entry \<Rightarrow> entry_score r entry stamp)"

definition rep_voices :: "reputation \<Rightarrow> node_id \<Rightarrow> real \<Rightarrow> nat" where
  "rep_voices r node_id stamp =
     (case map_of (rp_standings r) node_id of None \<Rightarrow> 0 | Some entry \<Rightarrow> length (by_family r entry stamp))"

definition verdict_of :: "reputation \<Rightarrow> real \<Rightarrow> verdict" where
  "verdict_of r value =
     (if rp_hostile r \<le> value then HOSTILE else if rp_suspect r \<le> value then SUSPECT else OK)"

definition rep_standing :: "reputation \<Rightarrow> node_id \<Rightarrow> real \<Rightarrow> verdict" where
  "rep_standing r node_id stamp = verdict_of r (rep_score r node_id stamp)"

definition rep_direct_standing :: "reputation \<Rightarrow> node_id \<Rightarrow> real \<Rightarrow> verdict" where
  "rep_direct_standing r node_id stamp =
     (case map_of (rp_standings r) node_id of None \<Rightarrow> OK
      | Some entry \<Rightarrow>
          (let value = decay (re_direct entry) (stamp - re_at entry) (rp_halflife r) in
           if rp_hostile r \<le> value then HOSTILE
           else if rp_suspect r \<le> value then SUSPECT else OK))"

subsection \<open>Housekeeping\<close>

text \<open>\<open>_entry\<close>: the standing of an id, created when there is none.\<close>

definition rep_entry_for :: "real \<Rightarrow> bytes \<Rightarrow> reputation \<Rightarrow> rep_entry \<times> reputation" where
  "rep_entry_for clk raw r =
     (case map_of (rp_standings r) raw of
        Some e \<Rightarrow> (e, r)
      | None \<Rightarrow>
          (let e = \<lparr> re_direct = 0, re_accusers = [], re_at = clk, re_reason = [], re_reports = 0 \<rparr>
           in (e, r\<lparr> rp_standings := AList.update raw e (rp_standings r) \<rparr>)))"

definition rep_enforce_bound :: "real \<Rightarrow> reputation \<Rightarrow> reputation" where
  "rep_enforce_bound clk r =
     (if length (rp_standings r) \<le> rp_max_tracked r then r
      else
        (let ranked = sort_key (\<lambda>raw. rep_score r raw clk) (od_keys (rp_standings r));
             victims = take (length (rp_standings r) - rp_max_tracked r) ranked
         in r\<lparr> rp_standings := filter (\<lambda>(raw, _). raw \<notin> set victims) (rp_standings r) \<rparr>))"

text \<open>The accusers are cut to \<open>MAX_ACCUSERS\<close>, the one heard longest ago first.\<close>
lemma delete_shrinks: "k \<in> fst ` set d \<Longrightarrow> length (AList.delete k d) < length d"
proof (induction d)
  case (Cons p d)
  then show ?case using AList.length_delete_le [of k d] by (cases "fst p = k") auto
qed simp

function trim_accusers :: "accusers \<Rightarrow> accusers" where
  "trim_accusers d =
     (if MAX_ACCUSERS < length d
      then trim_accusers (AList.delete
        (arg_min_list (\<lambda>k. case map_of d k of Some (_, since, _) \<Rightarrow> since | None \<Rightarrow> 0) (od_keys d)) d)
      else d)"
  by pat_completeness auto
termination
proof (relation "measure length")
  fix d :: accusers
  let ?f = "\<lambda>k. case map_of d k of Some (_, since, _) \<Rightarrow> since | None \<Rightarrow> 0"
  assume "MAX_ACCUSERS < length d"
  then have "arg_min_list ?f (od_keys d) \<in> fst ` set d"
    using arg_min_list_in [of "od_keys d" ?f] by (cases d) auto
  then show "(AList.delete (arg_min_list ?f (od_keys d)) d, d) \<in> measure length"
    by (simp add: delete_shrinks)
qed simp

declare trim_accusers.simps [simp del]

subsection \<open>Reporting\<close>

definition stamp_of :: "real \<Rightarrow> real option \<Rightarrow> real" where
  "stamp_of clk now = (case now of None \<Rightarrow> clk | Some t \<Rightarrow> t)"

definition with_reason :: "pystr \<Rightarrow> rep_entry \<Rightarrow> rep_entry" where
  "with_reason reason e = (if reason \<noteq> [] then e\<lparr> re_reason := take MAX_REASON reason \<rparr> else e)"

definition rep_note ::
  "real \<Rightarrow> node_id \<Rightarrow> real \<Rightarrow> pystr \<Rightarrow> real option \<Rightarrow> reputation \<Rightarrow> verdict \<times> reputation" where
  "rep_note clk node_id weight reason now r =
     (let stamp = stamp_of clk now;
          (entry, r) = rep_entry_for clk node_id r;
          entry = entry\<lparr> re_direct := decay (re_direct entry) (stamp - re_at entry) (rp_halflife r)
                           + max 0 (min weight MAX_WEIGHT),
                         re_at := stamp, re_reports := Suc (re_reports entry) \<rparr>;
          entry = with_reason reason entry;
          r = rep_enforce_bound clk (r\<lparr> rp_standings := AList.update node_id entry (rp_standings r) \<rparr>)
      in (rep_standing r node_id stamp, r))"

text \<open>How many distinct nodes an accuser named inside a half-life, counted up to \<open>MAX_SUBJECTS\<close>.\<close>

fun reach_loop :: "real \<Rightarrow> real \<Rightarrow> bytes \<Rightarrow> rep_entry list \<Rightarrow> nat \<Rightarrow> nat" where
  "reach_loop halflife now accuser [] n = n"
| "reach_loop halflife now accuser (e # es) n =
     (case map_of (re_accusers e) accuser of
        Some (_, since, _) \<Rightarrow>
          (if now - since \<le> halflife
           then (if MAX_SUBJECTS \<le> Suc n then Suc n else reach_loop halflife now accuser es (Suc n))
           else reach_loop halflife now accuser es n)
      | None \<Rightarrow> reach_loop halflife now accuser es n)"

definition rep_reach :: "reputation \<Rightarrow> bytes \<Rightarrow> real \<Rightarrow> nat" where
  "rep_reach r accuser now = reach_loop (rp_halflife r) now accuser (map snd (rp_standings r)) 0"

definition set_accuser :: "bytes \<Rightarrow> bytes \<Rightarrow> real \<times> real \<times> bytes \<Rightarrow> reputation \<Rightarrow> reputation" where
  "set_accuser subject accuser v r =
     r\<lparr> rp_standings := AList.map_entry subject
          (\<lambda>e. e\<lparr> re_accusers := AList.update accuser v (re_accusers e) \<rparr>) (rp_standings r) \<rparr>"

definition cancel_if_mutual :: "bytes \<Rightarrow> bytes \<Rightarrow> reputation \<Rightarrow> reputation result" where
  "cancel_if_mutual subject accuser r =
     (case map_of (rp_standings r) accuser of
        None \<Rightarrow> Inr r
      | Some mirror \<Rightarrow>
          (case map_of (re_accusers mirror) subject of
             None \<Rightarrow> Inr r
           | Some (w, since, fam) \<Rightarrow>
               (if w \<le> 0 then Inr r
                else
                  (let r = set_accuser accuser subject (0, since, fam) r in
                   (case map_of (rp_standings r) subject of
                      None \<Rightarrow> Inl KeyError
                    | Some entry \<Rightarrow>
                        (case map_of (re_accusers entry) accuser of
                           None \<Rightarrow> Inl KeyError
                         | Some (_, since', fam') \<Rightarrow> Inr (set_accuser subject accuser (0, since', fam') r)))))))"

definition accusation_allowance :: "reputation \<Rightarrow> bytes \<Rightarrow> real \<Rightarrow> real \<Rightarrow> real" where
  "accusation_allowance r accuser weight stamp =
     (if MAX_SUBJECTS \<le> rep_reach r accuser stamp then 0 else max 0 (min weight MAX_WEIGHT))"

definition record_accusation ::
  "real \<Rightarrow> node_id \<Rightarrow> node_id \<Rightarrow> real \<times> real \<times> bytes \<Rightarrow> reputation \<Rightarrow> reputation" where
  "record_accusation clk node_id accuser said r =
     (let (entry, r) = rep_entry_for clk node_id r;
          entry = entry\<lparr> re_accusers := trim_accusers (AList.update accuser said (re_accusers entry)) \<rparr>
      in r\<lparr> rp_standings := AList.update node_id entry (rp_standings r) \<rparr>)"

definition finish_accusation :: "real \<Rightarrow> node_id \<Rightarrow> pystr \<Rightarrow> reputation \<Rightarrow> reputation" where
  "finish_accusation clk node_id reason r =
     rep_enforce_bound clk (r\<lparr> rp_standings := AList.map_entry node_id
       (\<lambda>e. with_reason reason (e\<lparr> re_reports := Suc (re_reports e) \<rparr>)) (rp_standings r) \<rparr>)"

definition rep_note_accusation ::
  "real \<Rightarrow> node_id \<Rightarrow> node_id \<Rightarrow> real \<Rightarrow> pystr \<Rightarrow> bytes option \<Rightarrow> real option \<Rightarrow> reputation
     \<Rightarrow> (verdict \<times> reputation) result" where
  "rep_note_accusation clk node_id accuser weight reason family now r =
     (let stamp = stamp_of clk now in
      if accuser = node_id then Inr (rep_standing r node_id stamp, r)
      else
        (let allowance = accusation_allowance r accuser weight stamp;
             fam = (case family of None \<Rightarrow> accuser | Some f \<Rightarrow> if f = [] then accuser else f);
             r = record_accusation clk node_id accuser (allowance, stamp, fam) r
         in rbind (if 0 < allowance then cancel_if_mutual node_id accuser r else Inr r) (\<lambda>r.
              let r = finish_accusation clk node_id reason r
              in Inr (rep_standing r node_id stamp, r))))"

definition rep_forgive :: "node_id \<Rightarrow> reputation \<Rightarrow> bool \<times> reputation" where
  "rep_forgive node_id r =
     (map_of (rp_standings r) node_id \<noteq> None,
      r\<lparr> rp_standings := AList.delete node_id (rp_standings r) \<rparr>)"

subsection \<open>Decay and the weight of a crowd\<close>
lemma decay_nonneg [simp]: "0 \<le> decay v a h"
  by (simp add: decay_def)

lemma powr_half_le: "0 \<le> x \<Longrightarrow> (1 / 2 :: real) powr x \<le> 1"
  using powr_mono' [of 0 x "1 / 2"] by simp

lemma decay_le: "0 \<le> v \<Longrightarrow> decay v a h \<le> v"
proof -
  assume "0 \<le> v"
  moreover have "v * (1 / 2) powr (a / h) \<le> v * 1" if "0 < a" "0 < h"
    using \<open>0 \<le> v\<close> that by (intro mult_left_mono powr_half_le) auto
  ultimately show ?thesis by (auto simp: decay_def)
qed

lemma decay_0 [simp]: "decay 0 a h = 0"
  by (simp add: decay_def)

lemma decay_antimono:
  assumes "a \<le> b" "0 < h" "0 \<le> v"
  shows "decay v b h \<le> decay v a h"
proof (cases "0 < a \<and> 0 < v")
  case True
  have "(1 / 2 :: real) powr (b / h) \<le> (1 / 2) powr (a / h)"
    using assms by (intro powr_mono') (auto simp: divide_right_mono)
  with True assms show ?thesis by (simp add: decay_def mult_left_mono)
next
  case False
  with assms decay_le [of v b h] show ?thesis by (auto simp: decay_def max_def)
qed

lemma loud_fold_ok: "od_ok d \<Longrightarrow> od_ok (foldl (loud_step h now) d xs)"
proof (induction xs arbitrary: d)
  case (Cons x xs)
  have "od_ok (loud_step h now d x)" using Cons.prems by (cases x) (simp add: loud_step_def Let_def)
  from Cons.IH [OF this] show ?case by simp
qed simp

lemma loud_step_all:
  "od_all (\<lambda>_ v. 0 \<le> v \<and> v \<le> m) d \<Longrightarrow> decay w (now - since) h \<le> m \<Longrightarrow>
     od_all (\<lambda>_ v. 0 \<le> v \<and> v \<le> m) (loud_step h now d (w, since, f))"
  by (simp add: loud_step_def Let_def od_all_update)

lemma loud_fold_all:
  "od_all (\<lambda>_ v. 0 \<le> v \<and> v \<le> m) d \<Longrightarrow> \<forall>(w, since, f) \<in> set xs. decay w (now - since) h \<le> m \<Longrightarrow>
     od_all (\<lambda>_ v. 0 \<le> v \<and> v \<le> m) (foldl (loud_step h now) d xs)"
  by (induction xs arbitrary: d) (auto intro: loud_step_all)

lemma loud_step_keys: "fst ` set (loud_step h now d (w, since, f)) \<subseteq> insert f (fst ` set d)"
  using dom_update [of f "decay w (now - since) h" d] by (simp add: loud_step_def Let_def subset_insertI)

lemma loud_fold_keys:
  "fst ` set (foldl (loud_step h now) d xs) \<subseteq> fst ` set d \<union> (\<lambda>(w, since, f). f) ` set xs"
proof (induction xs arbitrary: d)
  case (Cons x xs)
  obtain w since f where x: "x = (w, since, f)" by (metis surj_pair)
  have "fst ` set (foldl (loud_step h now) d (x # xs)) \<subseteq>
      fst ` set (loud_step h now d x) \<union> (\<lambda>(w, since, f). f) ` set xs" using Cons.IH by simp
  also have "\<dots> \<subseteq> insert f (fst ` set d) \<union> (\<lambda>(w, since, f). f) ` set xs"
    unfolding x using loud_step_keys by (intro Un_mono) auto
  finally show ?case by (simp add: x)
qed simp

definition rep_ok :: "reputation \<Rightarrow> bool" where
  "rep_ok r \<longleftrightarrow> 0 < rp_suspect r \<and> rp_suspect r < rp_hostile r \<and> 1 \<le> rp_halflife r \<and>
     1 \<le> rp_max_tracked r \<and> 0 \<le> rp_rumour_ceiling r \<and> rp_rumour_ceiling r < rp_suspect r \<and>
     od_ok (rp_standings r) \<and> length (rp_standings r) \<le> rp_max_tracked r \<and>
     od_all (\<lambda>raw e. 0 \<le> re_direct e \<and> od_ok (re_accusers e) \<and> length (re_accusers e) \<le> MAX_ACCUSERS \<and>
       od_all (\<lambda>k (w, since, f). k \<noteq> raw \<and> 0 \<le> w \<and> w \<le> MAX_WEIGHT) (re_accusers e)) (rp_standings r)"

lemma new_reputation_ok: "rep_ok (new_reputation s h hl m)"
  by (auto simp: rep_ok_def new_reputation_def Let_def max_def)

abbreviation accuser_ok :: "bytes \<Rightarrow> bytes \<Rightarrow> real \<times> real \<times> bytes \<Rightarrow> bool" where
  "accuser_ok raw k v \<equiv> (case v of (w, since, f) \<Rightarrow> k \<noteq> raw \<and> 0 \<le> w \<and> w \<le> MAX_WEIGHT)"

subsection \<open>The invariant is kept\<close>
lemma trim_accusers_spec:
  "od_ok d \<Longrightarrow> od_ok (trim_accusers d) \<and> length (trim_accusers d) \<le> MAX_ACCUSERS \<and>
     (od_all P d \<longrightarrow> od_all P (trim_accusers d))"
proof (induction d rule: trim_accusers.induct)
  case (1 d)
  then show ?case
    by (cases "MAX_ACCUSERS < length d")
      (simp_all add: trim_accusers.simps [of d] od_all_delete)
qed

abbreviation rep_entry_ok :: "bytes \<Rightarrow> rep_entry \<Rightarrow> bool" where
  "rep_entry_ok raw e \<equiv> 0 \<le> re_direct e \<and> od_ok (re_accusers e) \<and> length (re_accusers e) \<le> MAX_ACCUSERS \<and>
     od_all (accuser_ok raw) (re_accusers e)"

text \<open>The parts of the invariant that do not speak of the bound.\<close>

definition rep_pre :: "reputation \<Rightarrow> bool" where
  "rep_pre r \<longleftrightarrow> 0 < rp_suspect r \<and> rp_suspect r < rp_hostile r \<and> 1 \<le> rp_halflife r \<and>
     1 \<le> rp_max_tracked r \<and> 0 \<le> rp_rumour_ceiling r \<and> rp_rumour_ceiling r < rp_suspect r \<and>
     od_ok (rp_standings r) \<and> od_all rep_entry_ok (rp_standings r)"

lemma rep_ok_pre: "rep_ok r \<longleftrightarrow> rep_pre r \<and> length (rp_standings r) \<le> rp_max_tracked r"
  by (auto simp: rep_ok_def rep_pre_def)

lemma rep_entry_for_pre:
  "rep_pre r \<Longrightarrow> rep_entry_for clk raw r = (e, r') \<Longrightarrow>
     rep_pre r' \<and> rep_entry_ok raw e \<and> map_of (rp_standings r') raw = Some e"
  by (auto simp: rep_entry_for_def rep_pre_def Let_def odict_simps od_all_update dest: od_allD split: option.splits)

lemma rep_pre_update:
  "rep_pre r \<Longrightarrow> rep_entry_ok raw e \<Longrightarrow> rep_pre (r\<lparr> rp_standings := AList.update raw e (rp_standings r) \<rparr>)"
  by (simp add: rep_pre_def od_all_update)

lemma rep_pre_map_entry:
  "rep_pre r \<Longrightarrow> (\<And>e. rep_entry_ok raw e \<Longrightarrow> rep_entry_ok raw (f e)) \<Longrightarrow>
     rep_pre (r\<lparr> rp_standings := AList.map_entry raw f (rp_standings r) \<rparr>)"
  by (simp add: rep_pre_def od_all_map_entry)

lemma rep_enforce_bound_ok:
  assumes "rep_pre r"
  shows "rep_ok (rep_enforce_bound clk r)"
proof (cases "length (rp_standings r) \<le> rp_max_tracked r")
  case True
  then show ?thesis using assms by (simp add: rep_enforce_bound_def rep_ok_pre)
next
  case False
  let ?d = "rp_standings r" and ?f = "\<lambda>raw. rep_score r raw clk"
  let ?v = "take (length ?d - rp_max_tracked r) (sort_key ?f (od_keys ?d))"
  have od: "od_ok ?d" using assms by (simp add: rep_pre_def)
  have v: "distinct ?v" "set ?v \<subseteq> fst ` set ?d" "length ?v = length ?d - rp_max_tracked r"
    using od set_take_subset [of _ "sort_key ?f (od_keys ?d)"] by auto
  have "length (filter (\<lambda>(raw, _). raw \<notin> set ?v) ?d) = rp_max_tracked r"
    using length_filter_out [OF od v(1,2)] v(3) False by simp
  then show ?thesis
    using assms False by (simp add: rep_enforce_bound_def Let_def rep_ok_pre rep_pre_def od_all_filter)
qed

lemma set_accuser_pre: "rep_pre r \<Longrightarrow> accuser_ok subject accuser v \<Longrightarrow> accuser \<in> fst ` set (re_accusers e) \<Longrightarrow>
    map_of (rp_standings r) subject = Some e \<Longrightarrow> rep_pre (set_accuser subject accuser v r)"
proof -
  assume a: "rep_pre r" "accuser_ok subject accuser v" "accuser \<in> fst ` set (re_accusers e)"
    "map_of (rp_standings r) subject = Some e"
  have e: "rep_entry_ok subject e" using a od_allD by (fastforce simp: rep_pre_def)
  let ?e = "e\<lparr> re_accusers := AList.update accuser v (re_accusers e) \<rparr>"
  have "AList.map_entry k f d = AList.update k (f x) d" if "map_of d k = Some x" for k f x
    and d :: "(bytes, rep_entry) odict"
    using that by (induction d) auto
  then have "set_accuser subject accuser v r = r\<lparr> rp_standings := AList.update subject ?e (rp_standings r) \<rparr>"
    using a(4) by (simp add: set_accuser_def)
  moreover have "rep_entry_ok subject ?e"
    using e a(2,3) by (simp add: length_update_present od_all_update)
  ultimately show ?thesis using rep_pre_update [OF a(1)] by simp
qed

lemma map_of_set_accuser:
  "map_of (rp_standings (set_accuser subject accuser v r)) k =
     (if k = subject then map_option (\<lambda>e. e\<lparr> re_accusers := AList.update accuser v (re_accusers e) \<rparr>)
        (map_of (rp_standings r) k) else map_of (rp_standings r) k)"
  by (simp add: set_accuser_def AList.map_of_map_entry split: option.split)

lemma cancel_pre:
  assumes "rep_pre r" "subject \<noteq> accuser" "cancel_if_mutual subject accuser r = Inr r'"
  shows "rep_pre r'"
proof -
  have z: "accuser_ok a b (0, s, f)" if "a \<noteq> b" for a b s f using that by (simp add: MAX_WEIGHT_def)
  show ?thesis
    using assms z
    by (auto simp: cancel_if_mutual_def Let_def map_of_set_accuser split: option.splits if_splits
        intro!: set_accuser_pre map_of_mem)
qed

lemma rep_note_ok: "rep_ok r \<Longrightarrow> rep_ok (snd (rep_note clk nid w reason now r))"
proof -
  assume "rep_ok r"
  then have "rep_pre r" by (simp add: rep_ok_pre)
  obtain e r1 where e: "rep_entry_for clk nid r = (e, r1)" by (meson surj_pair)
  note s = rep_entry_for_pre [OF \<open>rep_pre r\<close> e]
  show ?thesis
    using s by (auto simp: rep_note_def e Let_def with_reason_def MAX_WEIGHT_def
        intro!: rep_enforce_bound_ok rep_pre_update)
qed

abbreviation family_of :: "bytes option \<Rightarrow> bytes \<Rightarrow> bytes" where
  "family_of fam accuser \<equiv> (case fam of None \<Rightarrow> accuser | Some f \<Rightarrow> if f = [] then accuser else f)"

lemma accusation_allowance_bounds:
  "0 \<le> accusation_allowance r a w t" "accusation_allowance r a w t \<le> MAX_WEIGHT"
  by (auto simp: accusation_allowance_def MAX_WEIGHT_def)

lemma rep_note_accusation_cases:
  assumes "rep_note_accusation clk nid accuser w reason fam now r = Inr (v, r')" "accuser \<noteq> nid"
  obtains r3 where "(let al = accusation_allowance r accuser w (stamp_of clk now);
      r2 = record_accusation clk nid accuser (al, stamp_of clk now, family_of fam accuser) r
      in if 0 < al then cancel_if_mutual nid accuser r2 else Inr r2) = Inr r3"
    "r' = finish_accusation clk nid reason r3" "v = rep_standing r' nid (stamp_of clk now)"
  using assms by (auto simp: rep_note_accusation_def Let_def rbind_Inr)

lemma record_accusation_pre:
  assumes pre: "rep_pre r" and ok: "accuser_ok nid accuser said"
  shows "rep_pre (record_accusation clk nid accuser said r)"
proof -
  obtain e r1 where e: "rep_entry_for clk nid r = (e, r1)" by (meson surj_pair)
  note s = rep_entry_for_pre [OF pre e]
  have "od_all (accuser_ok nid) (AList.update accuser said (re_accusers e))"
    using s ok by (intro od_all_update) auto
  then show ?thesis
    using s trim_accusers_spec [of "AList.update accuser said (re_accusers e)"]
    by (auto simp: record_accusation_def e intro!: rep_pre_update)
qed

lemma rep_note_accusation_ok:
  assumes "rep_ok r" "rep_note_accusation clk nid accuser w reason fam now r = Inr (v, r')"
  shows "rep_ok r'"
proof (cases "accuser = nid")
  case True
  then show ?thesis using assms by (simp add: rep_note_accusation_def Let_def)
next
  case False
  have pre: "rep_pre r" using assms(1) by (simp add: rep_ok_pre)
  from rep_note_accusation_cases [OF assms(2) False] obtain r3 where
    r3: "(let al = accusation_allowance r accuser w (stamp_of clk now);
      r2 = record_accusation clk nid accuser (al, stamp_of clk now, family_of fam accuser) r
      in if 0 < al then cancel_if_mutual nid accuser r2 else Inr r2) = Inr r3"
    and r': "r' = finish_accusation clk nid reason r3" .
  have "rep_pre (record_accusation clk nid accuser
      (accusation_allowance r accuser w (stamp_of clk now), stamp_of clk now, family_of fam accuser) r)"
    using False accusation_allowance_bounds by (intro record_accusation_pre pre) auto
  from cancel_pre [OF this, of nid accuser r3] this r3 False have "rep_pre r3" by (auto simp: Let_def split: if_splits)
  then show ?thesis
    unfolding r' finish_accusation_def
    by (intro rep_enforce_bound_ok rep_pre_map_entry) (auto simp: with_reason_def)
qed

lemma rep_forgive_ok: "rep_ok r \<Longrightarrow> rep_ok (snd (rep_forgive nid r))"
  using AList.length_delete_le [of nid "rp_standings r"]
  by (auto simp: rep_forgive_def rep_ok_pre rep_pre_def od_all_delete)

subsection \<open>What accusations cannot touch\<close>

definition direct_of :: "reputation \<Rightarrow> bytes \<Rightarrow> real" where
  "direct_of r raw = (case map_of (rp_standings r) raw of None \<Rightarrow> 0 | Some e \<Rightarrow> re_direct e)"

lemma map_of_filter_out:
  "map_of (filter (\<lambda>(k, _). k \<notin> V) d) k = (if k \<in> V then None else map_of d k)"
  by (induction d) auto

lemma direct_enforce: "direct_of (rep_enforce_bound clk r) raw \<in> {direct_of r raw, 0}"
  by (simp add: rep_enforce_bound_def direct_of_def Let_def map_of_filter_out split: option.split)

lemma direct_entry_for: "rep_entry_for clk m r = (e, r') \<Longrightarrow> direct_of r' raw = direct_of r raw \<and> re_direct e = direct_of r m"
  by (cases "map_of (rp_standings r) m"; cases "raw = m")
    (auto simp: rep_entry_for_def direct_of_def Let_def odict_simps split: option.splits)

lemma direct_set_accuser: "direct_of (set_accuser a b v r) raw = direct_of r raw"
  by (simp add: direct_of_def map_of_set_accuser split: option.split)

lemma direct_cancel: "cancel_if_mutual a b r = Inr r' \<Longrightarrow> direct_of r' raw = direct_of r raw"
  by (auto simp: cancel_if_mutual_def Let_def direct_set_accuser split: option.splits if_splits)

lemma direct_record: "direct_of (record_accusation clk nid accuser said r) raw = direct_of r raw"
proof -
  obtain e r1 where e: "rep_entry_for clk nid r = (e, r1)" by (meson surj_pair)
  from direct_entry_for [OF e, of raw] direct_entry_for [OF e, of nid] show ?thesis
    by (simp add: record_accusation_def e direct_of_def odict_simps)
qed

lemma direct_finish: "direct_of (finish_accusation clk nid reason r) raw \<in> {direct_of r raw, 0}"
proof -
  let ?r = "r\<lparr> rp_standings := AList.map_entry nid
    (\<lambda>e. with_reason reason (e\<lparr> re_reports := Suc (re_reports e) \<rparr>)) (rp_standings r) \<rparr>"
  have "direct_of ?r raw = direct_of r raw"
    by (simp add: direct_of_def AList.map_of_map_entry with_reason_def split: option.split)
  with direct_enforce [of clk ?r raw] show ?thesis by (simp add: finish_accusation_def)
qed

lemma direct_accusation:
  assumes "rep_note_accusation clk nid accuser w reason fam now r = Inr (v, r')"
  shows "direct_of r' raw \<in> {direct_of r raw, 0}"
proof (cases "accuser = nid")
  case True
  then show ?thesis using assms by (simp add: rep_note_accusation_def Let_def)
next
  case False
  from rep_note_accusation_cases [OF assms False] obtain r3 where
    r3: "(let al = accusation_allowance r accuser w (stamp_of clk now);
      r2 = record_accusation clk nid accuser (al, stamp_of clk now, family_of fam accuser) r
      in if 0 < al then cancel_if_mutual nid accuser r2 else Inr r2) = Inr r3"
    and r': "r' = finish_accusation clk nid reason r3" .
  have "direct_of r3 raw = direct_of r raw"
    using r3 by (auto simp: Let_def direct_record dest: direct_cancel [of _ _ _ _ raw] split: if_splits)
  with direct_finish [of clk nid reason r3 raw] r' show ?thesis by simp
qed

lemma direct_note_other:
  assumes "raw \<noteq> nid"
  shows "direct_of (snd (rep_note clk nid w reason now r)) raw \<in> {direct_of r raw, 0}"
proof -
  obtain e r1 where e: "rep_entry_for clk nid r = (e, r1)" by (meson surj_pair)
  have "direct_of (r1\<lparr> rp_standings := AList.update nid x (rp_standings r1) \<rparr>) raw = direct_of r raw" for x
    using direct_entry_for [OF e, of raw] assms by (simp add: direct_of_def odict_simps)
  with direct_enforce [of clk "r1\<lparr> rp_standings := AList.update nid x (rp_standings r1) \<rparr>" raw for x]
  show ?thesis unfolding rep_note_def e Let_def by (simp only: prod.case snd_conv)
qed

lemma direct_forgive: "direct_of (snd (rep_forgive nid r)) raw \<in> {direct_of r raw, 0}"
  by (simp add: rep_forgive_def direct_of_def AList.delete_conv)

lemma standing_without_direct:
  assumes "rep_ok r" "direct_of r raw = 0"
  shows "rep_standing r raw t = OK"
proof -
  have "rep_score r raw t \<le> rp_rumour_ceiling r"
    using assms by (cases "map_of (rp_standings r) raw")
      (simp_all add: rep_score_def entry_score_def direct_of_def rep_ok_def)
  with assms(1) show ?thesis by (auto simp: rep_standing_def verdict_of_def rep_ok_def)
qed

subsection \<open>Runs\<close>

datatype rep_event =
    RNote real node_id real pystr "real option"
  | RAccuse real node_id node_id real pystr "bytes option" "real option"
  | RForgive node_id

fun rep_step :: "rep_event \<Rightarrow> reputation \<Rightarrow> reputation result" where
  "rep_step (RNote clk nid w reason now) r = Inr (snd (rep_note clk nid w reason now r))"
| "rep_step (RAccuse clk nid accuser w reason fam now) r =
     rbind (rep_note_accusation clk nid accuser w reason fam now r) (\<lambda>(_, r). Inr r)"
| "rep_step (RForgive nid) r = Inr (snd (rep_forgive nid r))"

fun rep_run :: "rep_event list \<Rightarrow> reputation \<Rightarrow> reputation result" where
  "rep_run [] r = Inr r"
| "rep_run (e # es) r = rbind (rep_step e r) (rep_run es)"

fun seen_by_us :: "bytes \<Rightarrow> rep_event \<Rightarrow> bool" where
  "seen_by_us raw (RNote _ nid _ _ _) = (nid = raw)"
| "seen_by_us raw _ = False"

lemma rep_step_ok: "rep_ok r \<Longrightarrow> rep_step e r = Inr r' \<Longrightarrow> rep_ok r'"
  by (cases e) (auto simp: rbind_Inr rep_note_ok rep_forgive_ok dest: rep_note_accusation_ok)

lemma rep_run_ok: "rep_ok r \<Longrightarrow> rep_run es r = Inr r' \<Longrightarrow> rep_ok r'"
  by (induction es arbitrary: r) (auto simp: rbind_Inr dest: rep_step_ok)

lemma rep_step_direct:
  "rep_step e r = Inr r' \<Longrightarrow> \<not> seen_by_us raw e \<Longrightarrow> direct_of r' raw \<in> {direct_of r raw, 0}"
proof (cases e)
  case (RNote clk nid w reason now)
  assume "rep_step e r = Inr r'" "\<not> seen_by_us raw e"
  with RNote direct_note_other [of raw nid clk w reason now r] show ?thesis by auto
next
  case (RAccuse clk nid accuser w reason fam now)
  assume "rep_step e r = Inr r'"
  with RAccuse obtain v where "rep_note_accusation clk nid accuser w reason fam now r = Inr (v, r')"
    by (auto simp: rbind_Inr)
  from direct_accusation [OF this] show ?thesis .
next
  case (RForgive nid)
  assume "rep_step e r = Inr r'"
  with RForgive direct_forgive [of nid r raw] show ?thesis by auto
qed

lemma rep_run_direct:
  "rep_run es r = Inr r' \<Longrightarrow> direct_of r raw = 0 \<Longrightarrow> list_all (\<lambda>e. \<not> seen_by_us raw e) es \<Longrightarrow> direct_of r' raw = 0"
proof (induction es arbitrary: r)
  case (Cons e es)
  then obtain r1 where "rep_step e r = Inr r1" "rep_run es r1 = Inr r'" by (auto simp: rbind_Inr)
  with Cons rep_step_direct [of e r r1 raw] show ?case by auto
qed simp

subsection \<open>No KeyError\<close>

text \<open>The stamps of all accusations on record are at most T.\<close>

definition said_by :: "real \<Rightarrow> reputation \<Rightarrow> bool" where
  "said_by T r \<longleftrightarrow> od_all (\<lambda>_ e. od_all (\<lambda>_ (w, since, f). since \<le> T) (re_accusers e)) (rp_standings r)"

lemma arg_min_not_last:
  "ks \<noteq> [] \<Longrightarrow> a \<notin> set ks \<Longrightarrow> \<forall>k \<in> set ks. f k \<le> (f a :: real) \<Longrightarrow> arg_min_list f (ks @ [a]) \<in> set ks"
proof (induction f ks rule: arg_min_list.induct)
  case (2 f x y zs)
  then have "arg_min_list f ((y # zs) @ [a]) \<in> set (y # zs)" by simp
  then show ?case by (auto simp: Let_def)
qed auto

lemma trim_keeps_newest:
  assumes d: "od_ok d" "length d \<le> MAX_ACCUSERS" and T: "od_all (\<lambda>_ (w, since, f). since \<le> t) d"
  shows "a \<in> fst ` set (trim_accusers (AList.update a (w, t, f) d))"
proof (cases "a \<in> fst ` set d \<or> length d < MAX_ACCUSERS")
  case True
  then have "length (AList.update a (w, t, f) d) \<le> MAX_ACCUSERS"
    using d(2) length_update_present [of a d] length_update_absent [of a d]
    by (cases "a \<in> fst ` set d") simp_all
  then show ?thesis by (subst trim_accusers.simps) (simp add: dom_update)
next
  case False
  let ?v = "(w, t, f)" and ?d = "AList.update a (w, t, f) d"
  let ?f = "\<lambda>k. case map_of ?d k of Some (_, since, _) \<Rightarrow> since | None \<Rightarrow> 0"
  have a: "a \<notin> fst ` set d" and len: "length d = MAX_ACCUSERS" using False d(2) by auto
  have ks: "od_keys ?d = od_keys d @ [a]" using a by (simp add: update_absent)
  have "?f k \<le> ?f a" if k: "k \<in> set (od_keys d)" for k
  proof -
    from k obtain w' s' f' where kv: "map_of d k = Some (w', s', f')"
      using map_of_eq_None_iff [of d k] by (cases "map_of d k") auto
    with k a od_allD [OF T] show ?thesis by (fastforce simp: odict_simps)
  qed
  moreover have "od_keys d \<noteq> []" using len by (auto simp: MAX_ACCUSERS_def)
  ultimately have m: "arg_min_list ?f (od_keys ?d) \<in> set (od_keys d)"
    unfolding ks using a by (intro arg_min_not_last) auto
  let ?m = "arg_min_list ?f (od_keys ?d)"
  have ne: "?m \<noteq> a"
  proof
    assume "?m = a"
    with m have "a \<in> set (od_keys d)" by (simp only:)
    with a show False by simp
  qed
  have "length (AList.delete ?m ?d) \<le> MAX_ACCUSERS"
    using m a len length_delete_present [of ?d ?m] d(1) by (simp add: dom_update length_update_absent)
  moreover have "MAX_ACCUSERS < length ?d" using len a by (simp add: length_update_absent)
  ultimately have "trim_accusers ?d = AList.delete ?m ?d"
    by (subst trim_accusers.simps) (simp only: if_True, subst trim_accusers.simps, simp)
  then show ?thesis using ne [symmetric] by (simp add: keys_delete dom_update)
qed

lemma said_by_entry_for:
  assumes "said_by T r" "rep_entry_for clk raw r = (e, r')"
  shows "said_by T r' \<and> od_all (\<lambda>_ (w, since, f). since \<le> T) (re_accusers e)"
  using assms od_allD [of _ "rp_standings r" raw]
  by (cases "map_of (rp_standings r) raw") (fastforce simp: said_by_def rep_entry_for_def Let_def od_all_update)+

lemma said_by_set_accuser:
  assumes "said_by T r" "since \<le> T"
  shows "said_by T (set_accuser a b (w, since, f) r)"
  using assms by (auto simp: said_by_def set_accuser_def intro!: od_all_map_entry od_all_update)

lemma said_by_enforce: "said_by T r \<Longrightarrow> said_by T (rep_enforce_bound clk r)"
  by (simp add: said_by_def rep_enforce_bound_def Let_def od_all_filter)

lemma od_all_trim_accusers: "od_all P d \<Longrightarrow> od_all P (trim_accusers d)"
proof (induction d rule: trim_accusers.induct)
  case (1 d)
  then show ?case by (cases "MAX_ACCUSERS < length d") (simp_all add: trim_accusers.simps [of d] od_all_delete)
qed

lemma said_by_record:
  assumes "said_by T r"
  shows "said_by T (record_accusation clk nid a (w, T, f) r)"
proof -
  obtain e r1 where e: "rep_entry_for clk nid r = (e, r1)" by (meson surj_pair)
  with said_by_entry_for [OF assms e] show ?thesis
    by (auto simp: record_accusation_def said_by_def intro!: od_all_update od_all_trim_accusers)
qed

lemma said_by_mono: "said_by T r \<Longrightarrow> T \<le> T' \<Longrightarrow> said_by T' r"
  unfolding said_by_def od_all_def by fastforce

lemma said_by_held:
  assumes "said_by T r" "map_of (rp_standings r) k = Some e" "map_of (re_accusers e) a = Some (w, since, f)"
  shows "since \<le> T"
  using od_allD [OF od_allD [OF assms(1) [unfolded said_by_def] assms(2)] assms(3)] by simp

lemma cancel_total:
  assumes s: "said_by T r" and ne: "subject \<noteq> accuser"
    and e: "map_of (rp_standings r) subject = Some e" "map_of (re_accusers e) accuser = Some (w, since, f)"
  shows "\<exists>r'. cancel_if_mutual subject accuser r = Inr r' \<and> said_by T r'"
proof (cases "map_of (rp_standings r) accuser")
  case None
  then show ?thesis using s by (simp add: cancel_if_mutual_def)
next
  case (Some mirror)
  show ?thesis
  proof (cases "map_of (re_accusers mirror) subject")
    case None
    then show ?thesis using s Some by (simp add: cancel_if_mutual_def)
  next
    case (Some held)
    obtain w' since' f' where held: "held = (w', since', f')" by (metis surj_pair)
    let ?r = "set_accuser accuser subject (0, since', f') r"
    have le: "since' \<le> T" "since \<le> T"
      using said_by_held [OF s \<open>map_of (rp_standings r) accuser = Some mirror\<close>] said_by_held [OF s e] Some held by auto
    have "said_by T ?r" "said_by T (set_accuser subject accuser (0, since, f) ?r)"
      using le s by (simp_all add: said_by_set_accuser)
    then show ?thesis
      using s e ne \<open>map_of (rp_standings r) accuser = Some mirror\<close> Some held
      by (simp add: cancel_if_mutual_def map_of_set_accuser Let_def)
  qed
qed

lemma record_has_accuser:
  assumes ok: "rep_ok r" and s: "said_by T r"
  shows "\<exists>e w' since f'. map_of (rp_standings (record_accusation clk nid a (w, T, f) r)) nid = Some e \<and>
    map_of (re_accusers e) a = Some (w', since, f')"
proof -
  obtain e r1 where e: "rep_entry_for clk nid r = (e, r1)" by (meson surj_pair)
  have "rep_entry_ok nid e" using rep_entry_for_pre [OF _ e] ok by (simp add: rep_ok_pre)
  with said_by_entry_for [OF s e] have "a \<in> fst ` set (trim_accusers (AList.update a (w, T, f) (re_accusers e)))"
    by (intro trim_keeps_newest) auto
  then obtain v where "map_of (trim_accusers (AList.update a (w, T, f) (re_accusers e))) a = Some v"
    using map_of_eq_None_iff [of "trim_accusers (AList.update a (w, T, f) (re_accusers e))" a]
    by (cases "map_of (trim_accusers (AList.update a (w, T, f) (re_accusers e))) a") auto
  then show ?thesis by (cases v) (simp add: record_accusation_def e odict_simps)
qed

lemma said_by_finish: "said_by T r \<Longrightarrow> said_by T (finish_accusation clk nid reason r)"
  unfolding finish_accusation_def
  by (intro said_by_enforce) (auto simp: said_by_def with_reason_def intro!: od_all_map_entry)

lemma note_accusation_total:
  assumes ok: "rep_ok r" and s: "said_by (stamp_of clk now) r"
  shows "\<exists>v r'. rep_note_accusation clk nid a w reason fam now r = Inr (v, r') \<and> said_by (stamp_of clk now) r'"
proof (cases "a = nid")
  case True
  then show ?thesis using s by (simp add: rep_note_accusation_def Let_def)
next
  case False
  let ?T = "stamp_of clk now"
  let ?r2 = "record_accusation clk nid a (accusation_allowance r a w ?T, ?T, family_of fam a) r"
  have s2: "said_by ?T ?r2" using s by (rule said_by_record)
  obtain e w' since f where "map_of (rp_standings ?r2) nid = Some e" "map_of (re_accusers e) a = Some (w', since, f)"
    using record_has_accuser [OF ok s] by blast
  from cancel_total [OF s2 False [symmetric] this] s2
  obtain r3 where "(if 0 < accusation_allowance r a w ?T then cancel_if_mutual nid a ?r2 else Inr ?r2) = Inr r3"
    "said_by ?T r3" by (cases "0 < accusation_allowance r a w ?T") auto
  then show ?thesis using False by (simp add: rep_note_accusation_def Let_def said_by_finish)
qed

text \<open>The stamps an event reads or is given.\<close>

fun event_stamps :: "rep_event \<Rightarrow> real list" where
  "event_stamps (RAccuse clk nid a w reason fam now) = [stamp_of clk now]"
| "event_stamps _ = []"

lemma said_by_note: "said_by T r \<Longrightarrow> said_by T (snd (rep_note clk nid w reason now r))"
proof -
  assume s: "said_by T r"
  obtain e r1 where e: "rep_entry_for clk nid r = (e, r1)" by (meson surj_pair)
  from said_by_entry_for [OF s e] show ?thesis
    by (auto simp: rep_note_def e Let_def with_reason_def said_by_def
        intro!: said_by_enforce [unfolded said_by_def] od_all_update)
qed

lemma said_by_forgive: "said_by T r \<Longrightarrow> said_by T (snd (rep_forgive nid r))"
  by (simp add: rep_forgive_def said_by_def od_all_delete)

lemma rep_run_total:
  "rep_ok r \<Longrightarrow> said_by T r \<Longrightarrow> sorted (T # concat (map event_stamps es)) \<Longrightarrow> \<exists>r'. rep_run es r = Inr r'"
proof (induction es arbitrary: r T)
  case (Cons e es)
  have "\<exists>r1 T1. rep_step e r = Inr r1 \<and> said_by T1 r1 \<and> sorted (T1 # concat (map event_stamps es))"
  proof (cases e)
    case (RAccuse clk nid a w reason fam now)
    then have "T \<le> stamp_of clk now" "sorted (stamp_of clk now # concat (map event_stamps es))"
      using Cons.prems(3) by auto
    moreover from this obtain v r1 where
      "rep_note_accusation clk nid a w reason fam now r = Inr (v, r1)" "said_by (stamp_of clk now) r1"
      using note_accusation_total [OF Cons.prems(1), of clk now nid a w reason fam] said_by_mono [OF Cons.prems(2)]
      by blast
    ultimately show ?thesis using RAccuse by auto
  qed (use Cons.prems said_by_note said_by_forgive in \<open>auto intro!: exI [of _ T]\<close>)
  then obtain r1 T1 where "rep_step e r = Inr r1" "said_by T1 r1" "sorted (T1 # concat (map event_stamps es))"
    by blast
  with Cons.IH [of r1 T1] rep_step_ok [OF Cons.prems(1)] show ?case by simp
qed simp

lemma max_tracked_simps [simp]:
  "rp_max_tracked (rep_enforce_bound clk r) = rp_max_tracked r"
  "rp_max_tracked (set_accuser a b v r) = rp_max_tracked r"
  "rp_max_tracked (finish_accusation clk nid reason r) = rp_max_tracked r"
  by (simp_all add: rep_enforce_bound_def set_accuser_def finish_accusation_def Let_def)

lemma entry_for_settings: "rep_entry_for clk raw r = (e, r') \<Longrightarrow> rp_max_tracked r' = rp_max_tracked r"
  by (auto simp: rep_entry_for_def Let_def split: option.splits)

lemma record_settings [simp]: "rp_max_tracked (record_accusation clk nid a said r) = rp_max_tracked r"
  by (simp add: record_accusation_def case_prod_beta entry_for_settings [OF prod.collapse [symmetric]])

lemma cancel_settings: "cancel_if_mutual a b r = Inr r' \<Longrightarrow> rp_max_tracked r' = rp_max_tracked r"
  by (auto simp: cancel_if_mutual_def Let_def split: option.splits if_splits)

lemma note_settings [simp]: "rp_max_tracked (snd (rep_note clk nid w reason now r)) = rp_max_tracked r"
  by (simp add: rep_note_def case_prod_beta Let_def entry_for_settings [OF prod.collapse [symmetric]])

lemma accusation_settings:
  assumes "rep_note_accusation clk nid accuser w reason fam now r = Inr (v, r')"
  shows "rp_max_tracked r' = rp_max_tracked r"
proof (cases "accuser = nid")
  case True
  then show ?thesis using assms by (simp add: rep_note_accusation_def Let_def)
next
  case False
  from rep_note_accusation_cases [OF assms False] obtain r3 where
    "(let al = accusation_allowance r accuser w (stamp_of clk now);
      r2 = record_accusation clk nid accuser (al, stamp_of clk now, family_of fam accuser) r
      in if 0 < al then cancel_if_mutual nid accuser r2 else Inr r2) = Inr r3"
    "r' = finish_accusation clk nid reason r3" .
  then show ?thesis by (auto simp: Let_def dest: cancel_settings split: if_splits)
qed

lemma rep_step_settings: "rep_step e r = Inr r' \<Longrightarrow> rp_max_tracked r' = rp_max_tracked r"
  by (cases e) (auto simp: rbind_Inr rep_forgive_def dest: accusation_settings)

lemma rep_run_settings: "rep_run es r = Inr r' \<Longrightarrow> rp_max_tracked r' = rp_max_tracked r"
  by (induction es arbitrary: r) (auto simp: rbind_Inr dest: rep_step_settings)

subsection \<open>The guarantees\<close>
lemma decay_bound: "v \<le> m \<Longrightarrow> 0 \<le> m \<Longrightarrow> decay v a h \<le> m"
  using decay_le [of v a h] by (cases "0 \<le> v") (auto simp: decay_def)

lemma by_family_od: "od_ok (by_family r e t)"
  by (simp add: by_family_def loud_fold_ok)

lemma by_family_keys:
  "fst ` set (by_family r e t) \<subseteq> (\<lambda>(_, w, since, f). f) ` set (re_accusers e)"
  using loud_fold_keys [of "rp_halflife r" t "[]" "map snd (re_accusers e)"]
  by (force simp: by_family_def)

lemma by_family_values:
  assumes "od_all (accuser_ok raw) (re_accusers e)"
  shows "od_all (\<lambda>_ v. 0 \<le> v \<and> v \<le> MAX_WEIGHT) (by_family r e t)"
proof -
  have "\<forall>(w, since, f) \<in> set (map snd (re_accusers e)). decay w (t - since) (rp_halflife r) \<le> MAX_WEIGHT"
    using assms by (auto simp: od_all_def MAX_WEIGHT_def intro!: decay_bound)
  from loud_fold_all [OF _ this, of "[]"] show ?thesis by (simp add: by_family_def od_all_filter)
qed

lemma sum_values_bound:
  "od_all (\<lambda>_ v. 0 \<le> v \<and> v \<le> (m :: real)) d \<Longrightarrow> sum_list (map snd d) \<le> m * length d"
  by (induction d) (auto simp: od_all_def algebra_simps intro: add_mono)

text \<open>
  Hearsay is never authority. Whatever sequence of accusations, own observations of other
  nodes and operator pardons a node goes through from its start, with whatever settings, a node it has never
  itself seen misbehave stands at OK at every later moment: no number of accusers can make it
  suspect, let alone hostile.
\<close>
theorem hearsay_never_decides:
  assumes "rep_run es (new_reputation s h hl m) = Inr r"
    and "list_all (\<lambda>e. \<not> seen_by_us raw e) es"
  shows "rep_standing r raw t = OK"
  using rep_run_ok [OF new_reputation_ok assms(1)]
    rep_run_direct [OF assms(1) _ assms(2)] standing_without_direct [of r raw t]
  by (simp add: direct_of_def new_reputation_def Let_def)

theorem hearsay_never_decides_witness:
  "\<exists>r. rep_run [RAccuse 5 [1] [2] 4 [] None None, RNote 6 [3] 4 [] None]
       (new_reputation 8 20 3600 4096) = Inr r \<and> rep_standing r [1] 9 = OK"
proof -
  let ?es = "[RAccuse 5 [1] [2] 4 [] None None, RNote 6 [3] 4 [] None]"
  have "said_by 5 (new_reputation 8 20 3600 4096)" by (simp add: said_by_def new_reputation_def Let_def)
  then obtain r where r: "rep_run ?es (new_reputation 8 20 3600 4096) = Inr r"
    using rep_run_total [OF new_reputation_ok, of 5 8 20 3600 4096 ?es] by (auto simp: stamp_of_def)
  from hearsay_never_decides [OF r, of "[1]" 9] r show ?thesis by simp
qed

text \<open>
  A crowd of one line of descent is one voice. When every accuser of a node belongs to one of
  the families in F, at most card F voices are counted and the score exceeds the node's own
  (undecayed) evidence by at most four points per family, and never by more than the rumour
  ceiling, however many accusers there are.
\<close>
theorem families_not_accusers:
  assumes "rep_ok r" "map_of (rp_standings r) raw = Some e"
    and "finite F" "\<forall>(k, w, since, f) \<in> set (re_accusers e). f \<in> F"
  shows "rep_voices r raw t \<le> card F \<and>
    rep_score r raw t \<le> re_direct e + min (4 * card F) (rp_rumour_ceiling r)"
proof -
  have e: "rep_entry_ok raw e" using assms(1,2) od_allD by (fastforce simp: rep_ok_def)
  have "(\<lambda>(_, w, since, f). f) ` set (re_accusers e) \<subseteq> F" using assms(4) by auto
  with by_family_keys [of r e t] have "set (od_keys (by_family r e t)) \<subseteq> F" by (simp add: subset_trans)
  from card_mono [OF assms(3) this] distinct_card [OF by_family_od, of r e t]
  have len: "length (by_family r e t) \<le> card F" by simp
  have "sum_list (map snd (by_family r e t)) \<le> MAX_WEIGHT * length (by_family r e t)"
    using sum_values_bound [OF by_family_values] e by blast
  also have "\<dots> \<le> 4 * card F" using len by (simp add: MAX_WEIGHT_def)
  finally have "min (sum_list (map snd (by_family r e t))) (rp_rumour_ceiling r)
      \<le> min (4 * card F) (rp_rumour_ceiling r)" by (rule min.mono) simp
  moreover have "decay (re_direct e) (t - re_at e) (rp_halflife r) \<le> re_direct e"
    using e by (simp add: decay_le)
  ultimately have "rep_score r raw t \<le> re_direct e + min (4 * card F) (rp_rumour_ceiling r)"
    unfolding rep_score_def entry_score_def assms(2) option.case by (intro add_mono)
  then show ?thesis using len by (simp add: rep_voices_def assms(2))
qed

theorem families_not_accusers_witness:
  "\<exists>r. rep_voices r [1] 9 \<le> 1 \<and> rep_score r [1] 9 \<le> 4"
proof -
  let ?e = "\<lparr> re_direct = 0, re_accusers = [([2], 4, 0, [7]), ([3], 4, 1, [7])], re_at = 0, re_reason = [], re_reports = 2 \<rparr>"
  let ?r = "\<lparr> rp_suspect = 8, rp_hostile = 20, rp_halflife = 3600, rp_max_tracked = 4096,
    rp_standings = [([1], ?e)], rp_rumour_ceiling = 7 \<rparr>"
  have "rep_ok ?r" by (simp add: rep_ok_def od_all_def MAX_ACCUSERS_def MAX_WEIGHT_def)
  from families_not_accusers [OF this, of "[1]" ?e "{[7]}" 9] show ?thesis
    by (intro exI [of _ ?r]) simp
qed

subsection \<open>Fading and eviction\<close>

text \<open>The value a family has in a table of the loudest, and the score's rumour as a sum over families.\<close>

definition held_by :: "(bytes, real) odict \<Rightarrow> bytes \<Rightarrow> real" where
  "held_by d f = (case map_of d f of None \<Rightarrow> 0 | Some v \<Rightarrow> v)"

lemma held_by_step:
  "held_by (loud_step h now d (w, since, f)) g = (if g = f then max (held_by d f) (decay w (now - since) h) else held_by d g)"
  by (simp add: held_by_def loud_step_def Let_def odict_simps max_def)

lemma held_by_mono:
  assumes "0 < h" "t \<le> t'" "\<forall>(w, since, f) \<in> set xs. 0 \<le> w" "\<And>f. held_by d' f \<le> held_by d f"
  shows "held_by (foldl (loud_step h t') d' xs) g \<le> held_by (foldl (loud_step h t) d xs) g"
  using assms(3,4)
proof (induction xs arbitrary: d d')
  case (Cons x xs)
  obtain w since f where x: "x = (w, since, f)" by (metis surj_pair)
  have "decay w (t' - since) h \<le> decay w (t - since) h"
    using assms(1,2) Cons.prems(1) by (intro decay_antimono) (auto simp: x)
  then have "held_by (loud_step h t' d' x) f' \<le> held_by (loud_step h t d x) f'" for f'
    using Cons.prems(2) [of f'] by (auto simp: x held_by_step max_def)
  with Cons show ?case by simp
qed simp

lemma sum_positive_values:
  assumes "od_ok d" "od_all (\<lambda>_ v. 0 \<le> v) d" "finite G" "fst ` set d \<subseteq> G"
  shows "sum_list (map snd (filter (\<lambda>(_, v). 0 < v) d)) = (\<Sum>f\<in>G. held_by d f)"
  using assms
proof (induction d arbitrary: G)
  case (Cons p d)
  obtain k v where p: "p = (k, v)" by (cases p)
  have k: "held_by d k = 0" using Cons.prems(1) map_of_eq_None_iff [of d k] by (simp add: p held_by_def)
  have "held_by (p # d) f = held_by d f + (if f = k then v else 0)" for f
    using k by (simp add: p held_by_def)
  then have "(\<Sum>f\<in>G. held_by (p # d) f) = (\<Sum>f\<in>G. held_by d f) + v"
    using Cons.prems(3,4) by (simp add: p sum.distrib)
  moreover have "0 \<le> v" "od_all (\<lambda>_ v. 0 \<le> v) d" using Cons.prems(2) by (auto simp: p od_all_def)
  ultimately show ?case using Cons.IH [of G] Cons.prems by (auto simp: p)
qed (simp add: held_by_def)

lemma rumour_as_sum:
  assumes "od_all (accuser_ok raw) (re_accusers e)"
  defines "G \<equiv> (\<lambda>(w, since, f). f) ` set (map snd (re_accusers e))"
  shows "sum_list (map snd (by_family r e t)) =
    (\<Sum>f\<in>G. held_by (foldl (loud_step (rp_halflife r) t) [] (map snd (re_accusers e))) f)"
proof -
  have "\<forall>(w, since, f) \<in> set (map snd (re_accusers e)). decay w (t - since) (rp_halflife r) \<le> MAX_WEIGHT"
    using assms by (auto simp: od_all_def MAX_WEIGHT_def intro!: decay_bound)
  from loud_fold_all [OF _ this, of "[]"]
  have "od_all (\<lambda>_ v. 0 \<le> v) (foldl (loud_step (rp_halflife r) t) [] (map snd (re_accusers e)))"
    by (auto simp: od_all_def)
  with loud_fold_keys [of "rp_halflife r" t "[]" "map snd (re_accusers e)"] show ?thesis
    unfolding by_family_def G_def by (intro sum_positive_values) (auto simp: loud_fold_ok)
qed

text \<open>
  A node that behaves comes back. With nothing new recorded, neither the score nor what it is
  made of grows as time passes: the score at a later reading of the clock is never higher, so a
  standing only improves on its own.
\<close>
theorem score_fades:
  assumes "rep_ok r" "t \<le> t'"
  shows "rep_score r raw t' \<le> rep_score r raw t"
proof (cases "map_of (rp_standings r) raw")
  case (Some e)
  have e: "rep_entry_ok raw e" using assms(1) Some od_allD by (fastforce simp: rep_ok_def)
  have h: "0 < rp_halflife r" using assms(1) by (simp add: rep_ok_def)
  have "\<forall>(w, since, f) \<in> set (map snd (re_accusers e)). 0 \<le> w" using e by (auto simp: od_all_def)
  then have "sum_list (map snd (by_family r e t')) \<le> sum_list (map snd (by_family r e t))"
    unfolding rumour_as_sum [OF e [THEN conjunct2, THEN conjunct2, THEN conjunct2]]
    using h assms(2) by (intro sum_mono held_by_mono) auto
  moreover have "decay (re_direct e) (t' - re_at e) (rp_halflife r) \<le> decay (re_direct e) (t - re_at e) (rp_halflife r)"
    using e h assms(2) by (intro decay_antimono) auto
  ultimately show ?thesis by (auto simp: rep_score_def entry_score_def Some intro!: add_mono min.mono)
qed (simp add: rep_score_def)

theorem score_fades_witness:
  "rep_score (new_reputation 8 20 3600 4096) [1] 7 \<le> rep_score (new_reputation 8 20 3600 4096) [1] 5"
  using score_fades [OF new_reputation_ok, of 5 7] by simp

text \<open>
  Recording never fails. Whatever is noted, accused and pardoned, if the stamps of the
  accusations do not run backwards (they come from a monotonic clock) no operation raises a
  KeyError, and the opinion table stays within its bound.
\<close>
theorem reputation_never_raises:
  assumes "sorted (concat (map event_stamps es))"
  shows "\<exists>r. rep_run es (new_reputation s h hl m) = Inr r \<and> length (rp_standings r) \<le> nat (max 1 m)"
proof -
  let ?r = "new_reputation s h hl m"
  let ?T = "case concat (map event_stamps es) of [] \<Rightarrow> 0 | t # _ \<Rightarrow> t"
  have "said_by ?T ?r" by (simp add: said_by_def new_reputation_def Let_def)
  moreover have "sorted (?T # concat (map event_stamps es))"
    using assms by (cases "concat (map event_stamps es)") (simp_all del: concat_eq_Nil_conv)
  ultimately obtain r where r: "rep_run es ?r = Inr r" using rep_run_total [OF new_reputation_ok] by blast
  have "length (rp_standings r) \<le> rp_max_tracked r" using rep_run_ok [OF new_reputation_ok r] by (simp add: rep_ok_def)
  with r rep_run_settings [OF r] show ?thesis by (simp add: new_reputation_def Let_def)
qed

theorem reputation_never_raises_witness:
  "\<exists>r. rep_run [RAccuse 5 [1] [2] 4 [] None None, RAccuse 6 [2] [1] 4 [] None None] (new_reputation 8 20 3600 1) = Inr r
     \<and> length (rp_standings r) \<le> 1"
  using reputation_never_raises [of "[RAccuse 5 [1] [2] 4 [] None None, RAccuse 6 [2] [1] 4 [] None None]" 8 20 3600 1]
  by (simp add: stamp_of_def)

text \<open>
  With the default thresholds (8, 20, a half-life of an hour) two maximal reports made at
  different moments do not stop the node serving a peer: the first has decayed below 4 when the
  second arrives. Only two reports carrying the same stamp reach the threshold.
\<close>
theorem two_reports_not_enough:
  "fst (rep_note (t + d) nid 4 reason None
      (snd (rep_note t nid 4 reason None (new_reputation 8 20 3600 4096)))) =
     (if 0 < d then OK else SUSPECT)"
proof -
  let ?r = "new_reputation 8 20 3600 4096"
  let ?e = "with_reason reason \<lparr> re_direct = 4, re_accusers = [], re_at = t, re_reason = [], re_reports = 1 \<rparr>"
  have one: "snd (rep_note t nid 4 reason None ?r) = ?r\<lparr> rp_standings := [(nid, ?e)] \<rparr>"
    by (simp add: rep_note_def new_reputation_def rep_entry_for_def Let_def stamp_of_def MAX_WEIGHT_def
        rep_enforce_bound_def)
  have e: "re_direct ?e = 4" "re_at ?e = t" "re_accusers ?e = []" by (simp_all add: with_reason_def)
  have two: "fst (rep_note (t + d) nid 4 reason None (?r\<lparr> rp_standings := [(nid, ?e)] \<rparr>)) =
      verdict_of ?r (decay 4 d 3600 + 4)"
    unfolding rep_note_def rep_entry_for_def
    by (simp add: new_reputation_def Let_def stamp_of_def e MAX_WEIGHT_def rep_enforce_bound_def
        rep_standing_def rep_score_def entry_score_def by_family_def with_reason_def verdict_of_def
        decay_def [of _ 0])
  have "(1 / 2 :: real) powr (d / 3600) < 1" if "0 < d"
    using that powr_less_mono' [of "1 / 2 :: real" 0 "d / 3600"] by simp
  then have "verdict_of ?r (decay 4 d 3600 + 4) = (if 0 < d then OK else SUSPECT)"
    by (auto simp: decay_def verdict_of_def new_reputation_def Let_def)
  with one two show ?thesis by simp
qed

text \<open>
  Eviction forgets the least suspect. When the opinion table is over its bound, exactly the
  bound remains, every remaining standing is untouched, and every identity dropped scored no more
  than every identity kept: minting fresh identities cannot push out a node with a worse record.
\<close>
theorem least_suspect_evicted:
  fixes clk and r :: reputation
  assumes "od_ok (rp_standings r)" "rp_max_tracked r < length (rp_standings r)"
  defines "r' \<equiv> rep_enforce_bound clk r"
  shows "length (rp_standings r') = rp_max_tracked r \<and>
    (\<forall>k. map_of (rp_standings r') k \<noteq> None \<longrightarrow>
       map_of (rp_standings r') k = map_of (rp_standings r) k \<and>
       (\<forall>v. map_of (rp_standings r) v \<noteq> None \<and> map_of (rp_standings r') v = None \<longrightarrow>
          rep_score r v clk \<le> rep_score r k clk))"
proof -
  let ?d = "rp_standings r" and ?f = "\<lambda>raw. rep_score r raw clk"
  let ?s = "sort_key ?f (od_keys ?d)" and ?n = "length ?d - rp_max_tracked r"
  have v: "distinct (take ?n ?s)" "set (take ?n ?s) \<subseteq> fst ` set ?d" "length (take ?n ?s) = ?n"
    using assms(1) set_take_subset [of ?n ?s] by auto
  have r': "rp_standings r' = filter (\<lambda>(raw, _). raw \<notin> set (take ?n ?s)) ?d"
    using assms(2) by (simp add: r'_def rep_enforce_bound_def Let_def)
  have "length (rp_standings r') = rp_max_tracked r"
    using length_filter_out [OF assms(1) v(1,2)] v(3) assms(2) by (simp add: r')
  moreover have "?f a \<le> ?f k" if "a \<in> set (take ?n ?s)" "k \<in> set (drop ?n ?s)" for a k
  proof -
    have "sorted (map ?f (take ?n ?s @ drop ?n ?s))" unfolding append_take_drop_id by simp
    then have "sorted (map ?f (take ?n ?s) @ map ?f (drop ?n ?s))" by (simp only: map_append)
    then show ?thesis using that by (simp only: sorted_append) force
  qed
  moreover have "k \<in> set (drop ?n ?s)" if "k \<in> fst ` set ?d" "k \<notin> set (take ?n ?s)" for k
  proof -
    have "k \<in> set (take ?n ?s @ drop ?n ?s)" unfolding append_take_drop_id using that(1) by simp
    with that(2) show ?thesis by (simp only: set_append Un_iff simp_thms)
  qed
  ultimately have len: "length (rp_standings r') = rp_max_tracked r"
    and worse: "\<And>k v. k \<in> fst ` set ?d \<Longrightarrow> k \<notin> set (take ?n ?s) \<Longrightarrow> v \<in> set (take ?n ?s) \<Longrightarrow> ?f v \<le> ?f k"
    by blast+
  show ?thesis
  proof (intro conjI allI impI len)
    fix k v
    assume k: "map_of (rp_standings r') k \<noteq> None"
    then have k': "k \<notin> set (take ?n ?s)" unfolding r' map_of_filter_out by (rule contrapos_nn) simp
    with k have held: "map_of ?d k \<noteq> None" unfolding r' map_of_filter_out by (simp only: if_False simp_thms)
    show "map_of (rp_standings r') k = map_of ?d k" unfolding r' map_of_filter_out using k' by (simp only: if_False)
    assume v: "map_of ?d v \<noteq> None \<and> map_of (rp_standings r') v = None"
    then have "v \<in> set (take ?n ?s)" unfolding r' map_of_filter_out by (metis (no_types))
    with held k' show "?f v \<le> ?f k" by (intro worse) (auto intro: map_of_mem)
  qed
qed

theorem least_suspect_evicted_witness:
  "length (rp_standings (rep_enforce_bound 0 \<lparr> rp_suspect = 8, rp_hostile = 20, rp_halflife = 3600,
     rp_max_tracked = 1, rp_standings =
       [([1], \<lparr> re_direct = 3, re_accusers = [], re_at = 0, re_reason = [], re_reports = 1 \<rparr>),
        ([2], \<lparr> re_direct = 1, re_accusers = [], re_at = 0, re_reason = [], re_reports = 1 \<rparr>)],
     rp_rumour_ceiling = 7 \<rparr>)) = 1"
  by (subst least_suspect_evicted [THEN conjunct1]) simp_all

section \<open>The rate gate\<close>

text \<open>
  \<open>RateGate\<close>: a fixed-window allowance per sender. \<open>allow\<close> first drops every window that has run
  out, makes room by forgetting the sender held longest, then claims one event.
\<close>

record rate_gate =
  rg_max :: nat
  rg_window :: real
  rg_max_senders :: nat
  rg_seen :: "(bytes, nat \<times> real) odict"

definition new_rate_gate :: "int \<Rightarrow> real \<Rightarrow> int \<Rightarrow> rate_gate" where
  "new_rate_gate max_events window max_senders =
     \<lparr> rg_max = nat (max 1 max_events), rg_window = max (1 / 1000) window,
       rg_max_senders = nat (max 1 max_senders), rg_seen = [] \<rparr>"

fun make_room :: "nat \<Rightarrow> bytes \<Rightarrow> (bytes, 'a) odict \<Rightarrow> (bytes, 'a) odict" where
  "make_room cap sender [] = []"
| "make_room cap sender (p # d) =
     (if cap \<le> Suc (length d) \<and> sender \<notin> fst ` set (p # d) then make_room cap sender d else p # d)"

definition rate_allow :: "real \<Rightarrow> node_id \<Rightarrow> rate_gate \<Rightarrow> bool \<times> rate_gate" where
  "rate_allow stamp sender g =
     (let seen = filter (\<lambda>(_, _, start). \<not> rg_window g < stamp - start) (rg_seen g);
          seen = make_room (rg_max_senders g) sender seen;
          (n, start) = (case map_of seen sender of None \<Rightarrow> (0, stamp) | Some c \<Rightarrow> c);
          (n, start) = (if rg_window g < stamp - start then (0, stamp) else (n, start));
          n = Suc n
      in (n \<le> rg_max g, g\<lparr> rg_seen := AList.update sender (n, start) seen \<rparr>))"

definition rate_forget :: "node_id \<Rightarrow> rate_gate \<Rightarrow> rate_gate" where
  "rate_forget sender g = g\<lparr> rg_seen := AList.delete sender (rg_seen g) \<rparr>"

fun rate_run :: "(real \<times> node_id) list \<Rightarrow> rate_gate \<Rightarrow> bool list \<times> rate_gate" where
  "rate_run [] g = ([], g)"
| "rate_run ((t, s) # es) g =
     (let (b, g) = rate_allow t s g; (bs, g) = rate_run es g in (b # bs, g))"

lemma make_room_suffix: "\<exists>xs. d = xs @ make_room cap s d"
  by (induction d) (auto intro: exI [of _ "_ # _"])

lemma make_room_held: "s \<in> fst ` set d \<Longrightarrow> make_room cap s d = d"
  by (cases d) auto

lemma make_room_bound: "s \<notin> fst ` set d \<Longrightarrow> 1 \<le> cap \<Longrightarrow> Suc (length (make_room cap s d)) \<le> cap"
  by (induction d) auto

lemma make_room_id: "length d < cap \<Longrightarrow> make_room cap s d = d"
  by (cases d) auto

lemma make_room_ok: "od_ok d \<Longrightarrow> od_ok (make_room cap s d)"
  by (induction d) auto

definition rg_ok :: "rate_gate \<Rightarrow> bool" where
  "rg_ok g \<longleftrightarrow> 1 \<le> rg_max g \<and> 1 \<le> rg_max_senders g \<and> od_ok (rg_seen g) \<and> length (rg_seen g) \<le> rg_max_senders g"

lemma rate_allow_ok:
  assumes "rg_ok g"
  shows "rg_ok (snd (rate_allow t s g))"
proof -
  let ?d = "filter (\<lambda>(_, _, start). \<not> rg_window g < t - start) (rg_seen g)"
  have d: "od_ok ?d" "length ?d \<le> rg_max_senders g"
    using assms by (simp_all add: rg_ok_def le_trans [OF length_filter_le])
  have "length (AList.update s v (make_room (rg_max_senders g) s ?d)) \<le> rg_max_senders g" for v
  proof (cases "s \<in> fst ` set ?d")
    case True
    then show ?thesis using d by (simp add: make_room_held length_update_present)
  next
    case False
    with make_room_bound [of s ?d "rg_max_senders g"] assms
      length_update_le [of s v "make_room (rg_max_senders g) s ?d"]
    show ?thesis by (simp add: rg_ok_def)
  qed
  with assms d(1) show ?thesis
    by (simp add: rate_allow_def rg_ok_def Let_def case_prod_beta make_room_ok)
qed

definition rate_step :: "real \<times> node_id \<Rightarrow> rate_gate \<Rightarrow> rate_gate" where
  "rate_step e g = snd (rate_allow (fst e) (snd e) g)"

interpretation gate: bounded_book "\<lambda>g. length (rg_seen g)" rg_max_senders rate_step rg_ok
proof
  fix e :: "real \<times> node_id" and g
  show "rg_max_senders (rate_step e g) = rg_max_senders g"
    by (simp add: rate_step_def rate_allow_def Let_def case_prod_beta)
  assume "rg_ok g"
  then have "rg_ok (rate_step e g)" unfolding rate_step_def by (rule rate_allow_ok)
  then show "rg_ok (rate_step e g)" "length (rg_seen (rate_step e g)) \<le> rg_max_senders g"
    using \<open>rg_max_senders (rate_step e g) = rg_max_senders g\<close> by (simp_all add: rg_ok_def)
qed

text \<open>Within one window every sender is answered by position: the first \<open>rg_max\<close> of its events pass.\<close>

definition claimed :: "rate_gate \<Rightarrow> node_id \<Rightarrow> nat" where
  "claimed g s = (case map_of (rg_seen g) s of None \<Rightarrow> 0 | Some (n, _) \<Rightarrow> n)"

definition in_window :: "real \<Rightarrow> rate_gate \<Rightarrow> bool" where
  "in_window t0 g \<longleftrightarrow> od_all (\<lambda>_ (_, start). t0 \<le> start) (rg_seen g)"

lemma rate_allow_window:
  assumes g: "od_ok (rg_seen g)" "in_window t0 g" and t: "t0 \<le> t" "t \<le> t0 + rg_window g"
    and room: "length (rg_seen g) < rg_max_senders g \<or> s \<in> fst ` set (rg_seen g)"
  shows "rate_allow t s g = (claimed g s < rg_max g, snd (rate_allow t s g))"
    "claimed (snd (rate_allow t s g)) = (claimed g)(s := Suc (claimed g s))"
    "od_ok (rg_seen (snd (rate_allow t s g)))" "in_window t0 (snd (rate_allow t s g))"
    "fst ` set (rg_seen (snd (rate_allow t s g))) = insert s (fst ` set (rg_seen g))"
    "rg_max (snd (rate_allow t s g)) = rg_max g" "rg_window (snd (rate_allow t s g)) = rg_window g"
    "rg_max_senders (snd (rate_allow t s g)) = rg_max_senders g"
proof -
  let ?d = "rg_seen g"
  have keep: "filter (\<lambda>(_, _, start). \<not> rg_window g < t - start) ?d = ?d"
    using g(2) t by (intro filter_True) (auto simp: in_window_def od_all_def)
  have room': "make_room (rg_max_senders g) s ?d = ?d"
    using room make_room_id make_room_held by blast
  obtain n start where c: "(case map_of ?d s of None \<Rightarrow> (0, t) | Some c \<Rightarrow> c) = (n, start)" by (metis surj_pair)
  have start: "t0 \<le> start" and n: "n = claimed g s"
    using c t(1) od_allD [OF g(2) [unfolded in_window_def], of s] by (auto simp: claimed_def split: option.splits)
  have eq: "rate_allow t s g = (Suc (claimed g s) \<le> rg_max g,
      g\<lparr> rg_seen := AList.update s (Suc (claimed g s), start) ?d \<rparr>)"
    using start t n by (simp add: rate_allow_def keep room' c)
  show "rate_allow t s g = (claimed g s < rg_max g, snd (rate_allow t s g))" by (simp add: eq Suc_le_eq)
  show "claimed (snd (rate_allow t s g)) = (claimed g)(s := Suc (claimed g s))"
    by (rule ext) (simp add: eq claimed_def odict_simps)
  show "od_ok (rg_seen (snd (rate_allow t s g)))" "in_window t0 (snd (rate_allow t s g))"
    using g start by (simp_all add: eq in_window_def od_all_update)
  show "fst ` set (rg_seen (snd (rate_allow t s g))) = insert s (fst ` set (rg_seen g))"
    by (simp add: eq dom_update)
qed (simp_all add: rate_allow_def Let_def case_prod_beta)

fun positions_within :: "nat \<Rightarrow> (node_id \<Rightarrow> nat) \<Rightarrow> (real \<times> node_id) list \<Rightarrow> bool list" where
  "positions_within m f [] = []"
| "positions_within m f ((t, s) # es) = (f s < m) # positions_within m (f(s := Suc (f s))) es"

lemma rate_run_window:
  "od_ok (rg_seen g) \<Longrightarrow> in_window t0 g \<Longrightarrow> \<forall>(t, s) \<in> set es. t0 \<le> t \<and> t \<le> t0 + rg_window g \<Longrightarrow>
     card (fst ` set (rg_seen g) \<union> snd ` set es) \<le> rg_max_senders g \<Longrightarrow>
     fst (rate_run es g) = positions_within (rg_max g) (claimed g) es"
proof (induction es arbitrary: g)
  case (Cons x es)
  obtain t s where x: "x = (t, s)" by (cases x)
  have room: "length (rg_seen g) < rg_max_senders g \<or> s \<in> fst ` set (rg_seen g)"
  proof (rule ccontr)
    assume "\<not> ?thesis"
    then have s: "s \<notin> fst ` set (rg_seen g)" and len: "rg_max_senders g \<le> length (rg_seen g)" by auto
    have "Suc (length (rg_seen g)) = card (insert s (fst ` set (rg_seen g)))"
      using s distinct_card [OF Cons.prems(1)] by simp
    also have "\<dots> \<le> rg_max_senders g"
      by (rule order_trans [OF card_mono Cons.prems(4)]) (auto simp: x)
    finally show False using len by simp
  qed
  have t: "t0 \<le> t" "t \<le> t0 + rg_window g" using Cons.prems(3) by (auto simp: x)
  note step = rate_allow_window [OF Cons.prems(1,2) t room]
  let ?g = "snd (rate_allow t s g)"
  have "fst ` set (rg_seen ?g) \<union> snd ` set es = fst ` set (rg_seen g) \<union> snd ` set (x # es)"
    unfolding step(5) by (auto simp: x)
  with Cons.IH [of ?g] Cons.prems(3,4) step(3-)
  have "fst (rate_run es ?g) = positions_within (rg_max g) ((claimed g)(s := Suc (claimed g s))) es"
    by (simp add: step(2) fun_upd_def)
  then show ?case by (subst x, subst rate_run.simps, subst step(1)) (simp add: x case_prod_beta Let_def)
qed simp

text \<open>
  The rate gate counts per sender and never across senders. For any interleaving of events
  inside one window from at most as many senders as the gate tracks, each sender has exactly its
  first \<open>rg_max\<close> events allowed, whatever the others send; and after any run at all, window or
  not, no more senders are tracked than the bound.
\<close>
theorem rate_gate_exact:
  fixes m k :: int and w :: real
  defines "g \<equiv> new_rate_gate m w k"
  assumes "\<forall>(t, s) \<in> set es. t0 \<le> t \<and> t \<le> t0 + rg_window g"
    and "card (snd ` set es) \<le> rg_max_senders g"
  shows "fst (rate_run es g) = positions_within (nat (max 1 m)) (\<lambda>_. 0) es \<and>
    length (rg_seen (fold rate_step es' g)) \<le> nat (max 1 k)"
proof -
  have "rg_seen g = []" "rg_max g = nat (max 1 m)" "rg_max_senders g = nat (max 1 k)" "rg_ok g"
    by (simp_all add: g_def new_rate_gate_def rg_ok_def Suc_le_eq less_max_iff_disj)
  moreover from this have "claimed g = (\<lambda>_. 0)" by (simp add: claimed_def fun_eq_iff)
  ultimately show ?thesis
    using rate_run_window [of g t0 es] gate.run_bound [of g es'] assms(2,3) by (simp add: in_window_def)
qed

theorem rate_gate_exact_witness:
  "fst (rate_run [(0, [1]), (1, [2]), (2, [1]), (3, [1])] (new_rate_gate 2 10 4)) = [True, True, True, False]
    \<and> length (rg_seen (fold rate_step [(0, [1]), (9, [2])] (new_rate_gate 2 10 4))) \<le> 4"
  using rate_gate_exact [of "[(0, [1]), (1, [2]), (2, [1]), (3, [1])]" 0 2 10 4 "[(0, [1]), (9, [2])]"]
  by (simp add: new_rate_gate_def card_insert_if del: rate_run.simps)

end
