(* ===== verification/Metrics.thy ===== *)
theory Metrics
  imports Prelude Complex_Main
begin

text \<open>
  The measurements of a link (\<open>src/metrics.py\<close>): the node's cumulative \<open>Counters\<close> and
  \<open>LinkQuality\<close>, the bounded history of a link's probes on which the bundle (Mlo), the routed
  paths (Routed) and the reaper decide.

  Times are real numbers; the readings of the monotonic clock an operation makes itself are its
  argument \<open>clk\<close>. A probe token is any value ('t). A deque with a \<open>maxlen\<close> is a list to which
  \<open>push_bounded\<close> appends.
\<close>

subsection \<open>Counters\<close>

record counters =
  ct_pkts_in :: nat
  ct_pkts_out :: nat
  ct_bytes_in :: nat
  ct_bytes_out :: nat
  ct_dropped :: nat
  ct_pkts_relayed :: nat
  ct_bytes_relayed :: nat

definition new_counters :: counters where
  "new_counters = \<lparr> ct_pkts_in = 0, ct_pkts_out = 0, ct_bytes_in = 0, ct_bytes_out = 0,
     ct_dropped = 0, ct_pkts_relayed = 0, ct_bytes_relayed = 0 \<rparr>"

definition counters_on_in :: "nat \<Rightarrow> counters \<Rightarrow> counters" where
  "counters_on_in n c = c\<lparr> ct_pkts_in := ct_pkts_in c + 1, ct_bytes_in := ct_bytes_in c + n \<rparr>"

definition counters_on_out :: "nat \<Rightarrow> counters \<Rightarrow> counters" where
  "counters_on_out n c = c\<lparr> ct_pkts_out := ct_pkts_out c + 1, ct_bytes_out := ct_bytes_out c + n \<rparr>"

definition counters_on_drop :: "counters \<Rightarrow> counters" where
  "counters_on_drop c = c\<lparr> ct_dropped := ct_dropped c + 1 \<rparr>"

definition counters_on_relay :: "nat \<Rightarrow> counters \<Rightarrow> counters" where
  "counters_on_relay n c =
     c\<lparr> ct_pkts_relayed := ct_pkts_relayed c + 1, ct_bytes_relayed := ct_bytes_relayed c + n \<rparr>"

subsection \<open>Link quality\<close>

definition HISTORY :: nat where "HISTORY = 32"
definition WINDOW :: nat where "WINDOW = 50"
definition MAX_PENDING :: nat where "MAX_PENDING = 64"

record 't link_quality =
  lq_samples :: "real list"
  lq_pings :: nat
  lq_pongs :: nat
  lq_last :: "real option"
  lq_since_pong :: nat
  lq_answered_at :: real
  lq_window :: "real option list"
  lq_window_lost :: int
  lq_pending :: "('t, real) odict"

definition new_link_quality :: "real \<Rightarrow> 't link_quality" where
  "new_link_quality clk = \<lparr> lq_samples = [], lq_pings = 0, lq_pongs = 0, lq_last = None,
     lq_since_pong = 0, lq_answered_at = clk, lq_window = [], lq_window_lost = 0, lq_pending = [] \<rparr>"

definition push_bounded :: "nat \<Rightarrow> 'a list \<Rightarrow> 'a \<Rightarrow> 'a list" where
  "push_bounded n xs x = (let ys = xs @ [x] in drop (length ys - n) ys)"

definition lq_on_ping :: "'t link_quality \<Rightarrow> 't link_quality" where
  "lq_on_ping q = q\<lparr> lq_pings := lq_pings q + 1, lq_since_pong := lq_since_pong q + 1 \<rparr>"

definition lq_on_pong :: "real \<Rightarrow> real \<Rightarrow> 't link_quality \<Rightarrow> 't link_quality" where
  "lq_on_pong clk rtt q =
     q\<lparr> lq_pongs := lq_pongs q + 1, lq_since_pong := 0, lq_answered_at := clk,
        lq_last := Some rtt, lq_samples := push_bounded HISTORY (lq_samples q) rtt \<rparr>"

definition lq_on_answer :: "real \<Rightarrow> 't link_quality \<Rightarrow> 't link_quality" where
  "lq_on_answer clk q =
     q\<lparr> lq_pongs := lq_pongs q + 1, lq_since_pong := 0, lq_answered_at := clk \<rparr>"

definition lq_record :: "real option \<Rightarrow> 't link_quality \<Rightarrow> 't link_quality" where
  "lq_record outcome q =
     (let w = lq_window q;
          lost = (if length w = WINDOW \<and> w ! 0 = None then lq_window_lost q - 1 else lq_window_lost q);
          w = push_bounded WINDOW w outcome;
          lost = (if outcome = None then lost + 1 else lost)
      in q\<lparr> lq_window := w, lq_window_lost := lost \<rparr>)"

function lq_shed :: "'t link_quality \<Rightarrow> 't link_quality" where
  "lq_shed q =
     (if MAX_PENDING < length (lq_pending q)
      then lq_shed (lq_record None (q\<lparr> lq_pending := tl (lq_pending q) \<rparr>)) else q)"
  by pat_completeness auto
termination
  by (relation "measure (\<lambda>q. length (lq_pending q))") (auto simp: lq_record_def Let_def)

declare lq_shed.simps [simp del]

definition lq_sent :: "'t \<Rightarrow> real \<Rightarrow> 't link_quality \<Rightarrow> 't link_quality" where
  "lq_sent token at' q =
     (let q = lq_on_ping q in lq_shed (q\<lparr> lq_pending := AList.update token at' (lq_pending q) \<rparr>))"

definition lq_answered :: "real \<Rightarrow> 't option \<Rightarrow> real \<Rightarrow> 't link_quality \<Rightarrow> real option \<times> 't link_quality" where
  "lq_answered clk token at' q =
     (case (case token of None \<Rightarrow> None | Some k \<Rightarrow> map_of (lq_pending q) k) of
        None \<Rightarrow> (None, lq_on_answer clk q)
      | Some sent_at \<Rightarrow>
          (let q = (case token of None \<Rightarrow> q | Some k \<Rightarrow> q\<lparr> lq_pending := AList.delete k (lq_pending q) \<rparr>);
               rtt = max 0 (at' - sent_at)
           in (Some rtt, lq_record (Some rtt) (lq_on_pong clk rtt q))))"

fun lq_expire_loop :: "('t, real) odict \<Rightarrow> real \<Rightarrow> real \<Rightarrow> nat \<Rightarrow> 't link_quality \<Rightarrow> nat \<times> 't link_quality" where
  "lq_expire_loop [] now after lost q = (lost, q)"
| "lq_expire_loop ((token, at') # items) now after lost q =
     (if now - at' \<le> after then (lost, q)
      else lq_expire_loop items now after (lost + 1)
             (lq_record None (q\<lparr> lq_pending := AList.delete token (lq_pending q) \<rparr>)))"

definition lq_expire :: "real \<Rightarrow> real \<Rightarrow> 't link_quality \<Rightarrow> nat \<times> 't link_quality" where
  "lq_expire now after q = lq_expire_loop (lq_pending q) now after 0 q"

definition answered_of :: "real option list \<Rightarrow> real list" where
  "answered_of w = concat (map (\<lambda>v. case v of None \<Rightarrow> [] | Some r \<Rightarrow> [r]) w)"

definition lq_recent_ms :: "'t link_quality \<Rightarrow> real option" where
  "lq_recent_ms q =
     (let answered = answered_of (lq_window q)
      in if answered = [] then None else Some (sum_list answered / real (length answered) * 1000))"

definition lq_recent_loss :: "int \<Rightarrow> 't link_quality \<Rightarrow> real option" where
  "lq_recent_loss minimum q =
     (if int (length (lq_window q)) < max 1 minimum then None
      else Some (real_of_int (lq_window_lost q) / real (length (lq_window q))))"

definition lq_recent_probes :: "'t link_quality \<Rightarrow> nat" where
  "lq_recent_probes q = length (lq_window q)"

definition lq_in_flight :: "'t link_quality \<Rightarrow> nat" where
  "lq_in_flight q = length (lq_pending q)"

definition lq_jitter :: "'t link_quality \<Rightarrow> real option" where
  "lq_jitter q =
     (if length (lq_samples q) < 2 then None
      else (let gaps = map (\<lambda>(before, after). \<bar>after - before\<bar>) (zip (lq_samples q) (tl (lq_samples q)))
            in Some (sum_list gaps / real (length gaps))))"

definition lq_loss :: "'t link_quality \<Rightarrow> real option" where
  "lq_loss q =
     (if lq_pings q < 2 then None
      else Some (max 0 (min 1 ((real (lq_pings q) - real (lq_pongs q)) / real (lq_pings q)))))"

subsection \<open>What a link goes through\<close>

datatype 't probe_event =
    Sent 't real
  | Answered real "'t option" real
  | Expire real real

fun lq_step :: "'t probe_event \<Rightarrow> 't link_quality \<Rightarrow> 't link_quality" where
  "lq_step (Sent k t) q = lq_sent k t q"
| "lq_step (Answered clk k t) q = snd (lq_answered clk k t q)"
| "lq_step (Expire now after) q = snd (lq_expire now after q)"

fun sent_tokens :: "'t probe_event list \<Rightarrow> 't list" where
  "sent_tokens [] = []"
| "sent_tokens (Sent k t # es) = k # sent_tokens es"
| "sent_tokens (_ # es) = sent_tokens es"

fun sent_times :: "'t probe_event list \<Rightarrow> real list" where
  "sent_times [] = []"
| "sent_times (Sent k t # es) = t # sent_times es"
| "sent_times (_ # es) = sent_times es"

subsection \<open>The window counts what it holds\<close>

definition lost_in :: "real option list \<Rightarrow> nat" where
  "lost_in w = length (filter (\<lambda>v. v = None) w)"

lemma length_push_bounded [simp]: "length (push_bounded n xs x) = min n (Suc (length xs))"
  by (auto simp: push_bounded_def Let_def)

lemma lost_push:
  assumes "length w \<le> WINDOW"
  shows "int (lost_in (push_bounded WINDOW w v)) =
    int (lost_in w) - (if length w = WINDOW \<and> w ! 0 = None then 1 else 0) + (if v = None then 1 else 0)"
proof (cases "length w = WINDOW")
  case True
  then obtain a w' where "w = a # w'" by (cases w) (auto simp: WINDOW_def)
  with True show ?thesis by (simp add: push_bounded_def lost_in_def)
next
  case False
  with assms show ?thesis by (simp add: push_bounded_def lost_in_def)
qed

definition lq_ok :: "'t link_quality \<Rightarrow> bool" where
  "lq_ok q \<longleftrightarrow> length (lq_window q) \<le> WINDOW \<and> lq_window_lost q = int (lost_in (lq_window q)) \<and>
     length (lq_samples q) \<le> HISTORY \<and> od_ok (lq_pending q)"

lemma lq_record_ok: "lq_ok q \<Longrightarrow> lq_ok (lq_record v q)"
  using lost_push [of "lq_window q" v] by (auto simp: lq_ok_def lq_record_def Let_def)

lemma lq_record_simps [simp]:
  "lq_pending (lq_record v q) = lq_pending q" "lq_pings (lq_record v q) = lq_pings q"
  "length (lq_window (lq_record v q)) = min WINDOW (Suc (length (lq_window q)))"
  by (simp_all add: lq_record_def Let_def)

lemma lq_pending_upd_ok: "lq_ok q \<Longrightarrow> od_ok d \<Longrightarrow> lq_ok (q\<lparr> lq_pending := d \<rparr>)"
  by (simp add: lq_ok_def)

lemma lq_shed_ok: "lq_ok q \<Longrightarrow> lq_ok (lq_shed q) \<and> length (lq_pending (lq_shed q)) \<le> MAX_PENDING"
proof (induction q rule: lq_shed.induct)
  case (1 q)
  show ?case
  proof (cases "MAX_PENDING < length (lq_pending q)")
    case True
    have "od_ok (tl (lq_pending q))" using 1(2) by (simp add: lq_ok_def map_tl distinct_tl)
    then have "lq_ok (lq_record None (q\<lparr> lq_pending := tl (lq_pending q) \<rparr>))"
      using 1(2) by (intro lq_record_ok lq_pending_upd_ok)
    with 1(1) True show ?thesis by (simp add: lq_shed.simps [of q])
  qed (use 1(2) in \<open>simp add: lq_shed.simps [of q]\<close>)
qed

lemma lq_sent_ok: "lq_ok q \<Longrightarrow> lq_ok (lq_sent k t q) \<and> length (lq_pending (lq_sent k t q)) \<le> MAX_PENDING"
  unfolding lq_sent_def Let_def by (rule lq_shed_ok) (simp add: lq_ok_def lq_on_ping_def)

lemma lq_answered_ok:
  "lq_ok q \<Longrightarrow> lq_ok (snd (lq_answered clk k t q)) \<and> length (lq_pending (snd (lq_answered clk k t q))) \<le> length (lq_pending q)"
  using AList.length_delete_le [of _ "lq_pending q"]
  by (auto simp: lq_answered_def lq_on_answer_def lq_on_pong_def Let_def split: option.splits
      intro!: lq_record_ok) (simp_all add: lq_ok_def)

lemma lq_expire_loop_ok:
  "lq_ok q \<Longrightarrow> lq_ok (snd (lq_expire_loop items now after n q)) \<and>
     length (lq_pending (snd (lq_expire_loop items now after n q))) \<le> length (lq_pending q)"
proof (induction items arbitrary: n q)
  case (Cons i items)
  obtain k t where i: "i = (k, t)" by (cases i)
  let ?q = "lq_record None (q\<lparr> lq_pending := AList.delete k (lq_pending q) \<rparr>)"
  have "lq_ok ?q" using Cons.prems by (intro lq_record_ok lq_pending_upd_ok) (simp_all add: lq_ok_def)
  moreover have "length (lq_pending ?q) \<le> length (lq_pending q)" by (simp add: AList.length_delete_le)
  ultimately show ?case using Cons.IH [of ?q "Suc n"] Cons.prems by (simp add: i)
qed simp

lemma lq_step_ok:
  "lq_ok q \<Longrightarrow> length (lq_pending q) \<le> MAX_PENDING \<Longrightarrow>
     lq_ok (lq_step e q) \<and> length (lq_pending (lq_step e q)) \<le> MAX_PENDING"
  using lq_sent_ok [of q] lq_answered_ok [of q] lq_expire_loop_ok [of q]
    lq_answered_ok [of q, THEN conjunct2, THEN le_trans]
    lq_expire_loop_ok [of q, THEN conjunct2, THEN le_trans]
  by (cases e) (simp_all add: lq_expire_def)

lemma new_lq_ok: "lq_ok (new_link_quality clk)"
  by (simp add: lq_ok_def new_link_quality_def lost_in_def)

interpretation link: bounded_book "\<lambda>q. length (lq_pending q)" "\<lambda>_. MAX_PENDING" lq_step lq_ok
  by unfold_locales (auto simp: lq_step_ok)

text \<open>
  A link's recent window is exact and bounded. After any sequence of probes sent, answers (late,
  unmatched and repeated ones included) and expiries, at most 50 outcomes and at most 64 probes in
  flight are held, and the incrementally kept loss count equals the number of lost outcomes in the
  window: the recent loss the send path reads is the true share, hence between 0 and 1.
\<close>
theorem link_window_exact:
  fixes es :: "'t probe_event list" and clk :: real
  defines "q \<equiv> fold lq_step es (new_link_quality clk)"
  shows "length (lq_window q) \<le> 50 \<and> length (lq_pending q) \<le> 64 \<and>
    lq_recent_loss 1 q = (if lq_window q = [] then None
      else Some (real (length (filter (\<lambda>v. v = None) (lq_window q))) / real (length (lq_window q))))"
proof -
  have "lq_ok q \<and> length (lq_pending q) \<le> MAX_PENDING"
    unfolding q_def by (rule link.run_inv) (simp_all add: new_lq_ok, simp add: new_link_quality_def)
  then show ?thesis
    by (auto simp: lq_ok_def lq_recent_loss_def lost_in_def WINDOW_def MAX_PENDING_def Suc_le_eq not_less)
qed

subsection \<open>Every probe is resolved exactly once\<close>

definition settled :: "nat \<Rightarrow> 't link_quality \<Rightarrow> bool" where
  "settled n q \<longleftrightarrow> lq_ok q \<and> length (lq_pending q) \<le> n \<and>
     length (lq_window q) = min WINDOW (n - length (lq_pending q))"

lemma settled_record:
  assumes "settled n q" "od_ok d" "Suc (length d) = length (lq_pending q)"
  shows "settled n (lq_record v (q\<lparr> lq_pending := d \<rparr>))"
proof -
  have "n - length d = Suc (n - length (lq_pending q))" "length d \<le> n"
    using assms(1,3) by (auto simp: settled_def)
  moreover have "lq_ok (lq_record v (q\<lparr> lq_pending := d \<rparr>))"
    using assms(1,2) by (intro lq_record_ok lq_pending_upd_ok) (simp_all add: settled_def)
  ultimately show ?thesis using assms(1) by (simp add: settled_def min_def)
qed

lemma settled_shed: "settled n q \<Longrightarrow> settled n (lq_shed q)"
proof (induction q rule: lq_shed.induct)
  case (1 q)
  show ?case
  proof (cases "MAX_PENDING < length (lq_pending q)")
    case True
    have "od_ok (tl (lq_pending q))" using 1(2) by (simp add: settled_def lq_ok_def map_tl distinct_tl)
    then have "settled n (lq_record None (q\<lparr> lq_pending := tl (lq_pending q) \<rparr>))"
      using 1(2) True by (intro settled_record) auto
    with 1(1) True show ?thesis by (simp add: lq_shed.simps [of q])
  qed (use 1(2) in \<open>simp add: lq_shed.simps [of q]\<close>)
qed

lemma settled_sent:
  assumes "settled n q" "k \<notin> fst ` set (lq_pending q)"
  shows "settled (Suc n) (lq_sent k t q)"
  unfolding lq_sent_def Let_def
  by (rule settled_shed) (use assms in \<open>simp add: settled_def lq_on_ping_def lq_ok_def length_update_absent\<close>)

lemma settled_cong:
  "settled n q \<Longrightarrow> lq_pending q' = lq_pending q \<Longrightarrow> lq_window q' = lq_window q \<Longrightarrow>
     lq_window_lost q' = lq_window_lost q \<Longrightarrow> length (lq_samples q') \<le> HISTORY \<Longrightarrow> settled n q'"
  by (simp add: settled_def lq_ok_def)

lemma lq_on_pong_pending:
  "lq_on_pong clk r (q\<lparr> lq_pending := d \<rparr>) = (lq_on_pong clk r q)\<lparr> lq_pending := d \<rparr>"
  "lq_pending (lq_on_pong clk r q) = lq_pending q"
  by (cases q; simp add: lq_on_pong_def)+

lemma settled_answered:
  assumes s: "settled n q"
  shows "settled n (snd (lq_answered clk k t q))"
proof (cases "case k of None \<Rightarrow> None | Some k \<Rightarrow> map_of (lq_pending q) k")
  case None
  then show ?thesis using s
    by (auto simp: lq_answered_def lq_on_answer_def settled_def lq_ok_def split: option.splits)
next
  case (Some at0)
  then obtain k' where k: "k = Some k'" "map_of (lq_pending q) k' = Some at0" by (cases k) auto
  then have "k' \<in> fst ` set (lq_pending q)" by (auto dest: map_of_SomeD intro: rev_image_eqI)
  moreover have ok: "od_ok (lq_pending q)" using s by (simp add: settled_def lq_ok_def)
  ultimately have len: "Suc (length (AList.delete k' (lq_pending q))) = length (lq_pending q)"
    by (simp add: length_delete_present)
  let ?q = "lq_on_pong clk (max 0 (t - at0)) q"
  have "settled n ?q" using s by (rule settled_cong) (simp_all add: lq_on_pong_def)
  from settled_record [OF this, of "AList.delete k' (lq_pending q)" "Some (max 0 (t - at0))"] ok len
  show ?thesis by (simp add: lq_answered_def k Let_def lq_on_pong_pending)
qed

lemma settled_expire:
  "settled n q \<Longrightarrow> od_ok items \<Longrightarrow> fst ` set items \<subseteq> fst ` set (lq_pending q) \<Longrightarrow>
     settled n (snd (lq_expire_loop items now after m q))"
proof (induction items arbitrary: m q)
  case (Cons i items)
  obtain k t where i: "i = (k, t)" by (cases i)
  have ok: "od_ok (lq_pending q)" using Cons.prems(1) by (simp add: settled_def lq_ok_def)
  have k: "k \<in> fst ` set (lq_pending q)" using Cons.prems(3) by (auto simp: i)
  let ?q = "lq_record None (q\<lparr> lq_pending := AList.delete k (lq_pending q) \<rparr>)"
  have "settled n ?q" using Cons.prems(1) ok k by (intro settled_record) (simp_all add: length_delete_present)
  moreover have "fst ` set items \<subseteq> fst ` set (lq_pending ?q)"
    using Cons.prems(2,3) by (simp add: i keys_delete) blast
  ultimately show ?case using Cons.IH [of ?q "Suc m"] Cons.prems(1,2) by (simp add: i)
qed simp

lemma pending_shed: "set (lq_pending (lq_shed q)) \<subseteq> set (lq_pending q)"
proof (induction q rule: lq_shed.induct)
  case (1 q)
  then show ?case
    by (cases "MAX_PENDING < length (lq_pending q)"; cases "lq_pending q")
      (auto simp: lq_shed.simps [of q])
qed

lemma pending_expire: "set (lq_pending (snd (lq_expire_loop items now after m q))) \<subseteq> set (lq_pending q)"
proof (induction items arbitrary: m q)
  case (Cons i items)
  obtain k t where i: "i = (k, t)" by (cases i)
  let ?q = "lq_record None (q\<lparr> lq_pending := AList.delete k (lq_pending q) \<rparr>)"
  have "set (lq_pending ?q) \<subseteq> set (lq_pending q)" by (auto simp: AList.delete_eq)
  with Cons.IH [of "Suc m" ?q] show ?case by (auto simp: i)
qed simp

lemma pending_sent: "fst ` set (lq_pending (lq_sent k t q)) \<subseteq> insert k (fst ` set (lq_pending q))"
  using pending_shed [of "(lq_on_ping q)\<lparr> lq_pending := AList.update k t (lq_pending (lq_on_ping q)) \<rparr>"]
    dom_update [of k t "lq_pending q"]
  by (force simp: lq_sent_def Let_def lq_on_ping_def)

lemma pending_answered: "set (lq_pending (snd (lq_answered clk k t q))) \<subseteq> set (lq_pending q)"
  by (auto simp: lq_answered_def lq_on_answer_def lq_on_pong_def Let_def AList.delete_eq split: option.splits)

lemma settled_run:
  "settled n q \<Longrightarrow> fst ` set (lq_pending q) \<inter> set (sent_tokens es) = {} \<Longrightarrow> distinct (sent_tokens es) \<Longrightarrow>
     settled (n + length (sent_tokens es)) (fold lq_step es q)"
proof (induction es arbitrary: n q)
  case (Cons e es)
  show ?case
  proof (cases e)
    case (Sent k t)
    then have "settled (Suc n) (lq_sent k t q)" using Cons.prems(1,2) by (intro settled_sent) auto
    moreover have "fst ` set (lq_pending (lq_sent k t q)) \<inter> set (sent_tokens es) = {}"
      using pending_sent [of k t q] Cons.prems(2,3) Sent by auto
    ultimately show ?thesis using Cons.IH Cons.prems(3) Sent by fastforce
  next
    case (Answered clk k t)
    have "fst ` set (lq_pending (snd (lq_answered clk k t q))) \<inter> set (sent_tokens es) = {}"
      using image_mono [OF pending_answered [of clk k t q], of fst] Cons.prems(2) Answered by auto
    with Cons.IH [OF settled_answered [OF Cons.prems(1)]] Cons.prems(3) Answered show ?thesis by simp
  next
    case (Expire now after)
    have "fst ` set (lq_pending (snd (lq_expire now after q))) \<inter> set (sent_tokens es) = {}"
      using image_mono [OF pending_expire [of "lq_pending q" now after 0 q], of fst] Cons.prems(2) Expire
      by (auto simp: lq_expire_def)
    moreover have "settled n (snd (lq_expire now after q))"
      unfolding lq_expire_def using Cons.prems(1) by (intro settled_expire) (simp_all add: settled_def lq_ok_def)
    ultimately show ?thesis using Cons.IH Cons.prems(3) Expire by simp
  qed
qed simp

text \<open>
  Every probe is resolved exactly once. When each probe carries its own token, then whatever is
  answered, repeated, forged or expired in between, the outcomes in the window are those of the
  probes sent and no longer in flight, the last 50 of them: no answer is counted for a probe twice and no
  probe disappears unaccounted.
\<close>
theorem every_probe_resolved:
  fixes es :: "'t probe_event list" and clk :: real
  defines "q \<equiv> fold lq_step es (new_link_quality clk)"
  assumes "distinct (sent_tokens es)"
  shows "lq_in_flight q \<le> length (sent_tokens es) \<and>
    lq_recent_probes q = min 50 (length (sent_tokens es) - lq_in_flight q)"
proof -
  have "settled 0 (new_link_quality clk :: 't link_quality)"
    using new_lq_ok by (simp add: settled_def) (simp add: new_link_quality_def)
  from settled_run [OF this, of es] assms(2) show ?thesis
    by (simp add: q_def settled_def lq_in_flight_def lq_recent_probes_def WINDOW_def)
      (simp add: new_link_quality_def)
qed

theorem every_probe_resolved_witness:
  "lq_recent_probes (fold lq_step [Sent (1::nat) 0, Sent 2 1, Answered 2 (Some 1) 2, Answered 2 (Some 1) 2]
     (new_link_quality 0)) = 1"
  using every_probe_resolved [of "[Sent (1::nat) 0, Sent 2 1, Answered 2 (Some 1) 2, Answered 2 (Some 1) 2]" 0]
  by (simp add: lq_in_flight_def new_link_quality_def lq_sent_def lq_on_ping_def lq_shed.simps
      MAX_PENDING_def lq_answered_def lq_on_pong_def lq_on_answer_def lq_record_def Let_def)

definition keep_last :: "nat \<Rightarrow> 'a list \<Rightarrow> 'a list" where
  "keep_last n xs = drop (length xs - n) xs"

lemma keep_last_id: "length xs \<le> n \<Longrightarrow> keep_last n xs = xs"
  by (simp add: keep_last_def)

lemma push_keep_last: "push_bounded n (keep_last n xs) x = keep_last n (xs @ [x])"
proof (cases "length xs < n")
  case False
  then have "Suc (length xs - (length xs - n)) - n = 1" "Suc (length xs) - n = Suc (length xs - n)" by auto
  then show ?thesis by (cases "n = 0") (simp_all add: push_bounded_def keep_last_def Let_def drop_Suc tl_drop [symmetric])
qed (simp add: push_bounded_def keep_last_def Let_def)

lemma keep_last_pushes:
  "((\<lambda>w. push_bounded n w x) ^^ j) (keep_last n xs) = keep_last n (xs @ replicate j x)"
proof (induction j arbitrary: xs)
  case (Suc j)
  show ?case
    using Suc [of "xs @ [x]"] by (simp add: funpow_Suc_right push_keep_last del: funpow.simps)
qed simp

text \<open>
  No probe waits for ever. When probes are in flight in the order they were sent, an expiry
  removes exactly those older than the deadline, returns how many there were, and charges each of
  them to the recent window, of which the last 50 outcomes remain, as a loss.
\<close>
theorem expire_charges_the_late:
  assumes "lq_ok q" "sorted (map snd (lq_pending q))" "lq_expire now after q = (n, q')"
  shows "lq_pending q' = filter (\<lambda>(_, at'). now - at' \<le> after) (lq_pending q) \<and>
    n = length (filter (\<lambda>(_, at'). after < now - at') (lq_pending q)) \<and>
    lq_window q' = keep_last 50 (lq_window q @ replicate n None)"
proof -
  have step: "lq_window (lq_record None q1) = push_bounded WINDOW (lq_window q1) None" for q1 :: "'a link_quality"
    by (simp add: lq_record_def Let_def)
  have gen: "lq_pending q' = filter (\<lambda>(_, at'). now - at' \<le> after) items \<and>
      n = m + length (filter (\<lambda>(_, at'). after < now - at') items) \<and>
      lq_window q' = ((\<lambda>w. push_bounded WINDOW w None) ^^ length (filter (\<lambda>(_, at'). after < now - at') items)) (lq_window q1)"
    if "lq_expire_loop items now after m q1 = (n, q')" "sorted (map snd items)" "od_ok items" "lq_pending q1 = items"
    for items m q1
    using that
  proof (induction items arbitrary: m q1)
    case (Cons i items)
    obtain k t where i: "i = (k, t)" by (cases i)
    show ?case
    proof (cases "now - t \<le> after")
      case True
      then have "\<forall>p \<in> set items. now - snd p \<le> after" using Cons.prems(2) by (auto simp: i)
      then have "filter (\<lambda>(_, at'). now - at' \<le> after) items = items"
        "filter (\<lambda>(_, at'). after < now - at') items = []"
        by (auto intro!: filter_True simp: filter_empty_conv)
      with Cons.prems True show ?thesis by (auto simp: i)
    next
      case False
      let ?q = "lq_record None (q1\<lparr> lq_pending := AList.delete k (lq_pending q1) \<rparr>)"
      have "lq_pending ?q = items" using Cons.prems(3,4) by (simp add: i delete_absent)
      with Cons.IH [of "Suc m" ?q] Cons.prems False show ?thesis
        by (simp add: i step funpow_Suc_right del: funpow.simps)
    qed
  qed simp
  have "length (lq_window q) \<le> WINDOW" "od_ok (lq_pending q)" using assms(1) by (simp_all add: lq_ok_def)
  with gen [OF assms(3) [unfolded lq_expire_def] assms(2)] keep_last_pushes [where n = WINDOW and x = None and xs = "lq_window q"]
  show ?thesis by (simp add: keep_last_id) (simp add: WINDOW_def)
qed

theorem expire_charges_the_late_witness:
  "\<exists>q'. lq_expire 9 3 (lq_sent (2::nat) 8 (lq_sent 1 0 (new_link_quality 0))) = (1, q') \<and>
    lq_pending q' = [(2, 8)] \<and> lq_window q' = [None]"
proof -
  let ?q = "lq_sent (2::nat) 8 (lq_sent 1 0 (new_link_quality 0))"
  have q: "lq_pending ?q = [(1, 0), (2, 8)]" "lq_window ?q = []"
    by (simp_all add: new_link_quality_def lq_sent_def lq_on_ping_def lq_shed.simps MAX_PENDING_def Let_def)
  have ok: "lq_ok ?q" by (simp add: lq_sent_ok new_lq_ok)
  obtain n q' where e: "lq_expire 9 3 ?q = (n, q')" by (meson surj_pair)
  from expire_charges_the_late [OF ok _ e] q show ?thesis
    unfolding e by (simp add: keep_last_def)
qed

end
