(* ===== verification/Mlo.thy ===== *)
theory Mlo
  imports Prelude Complex_Main
begin

text \<open>
  Multi-link operation (\<open>src/mlo.py\<close>): the keepalive accord two nodes compute from the cadences
  they declare, and the \<open>Bundle\<close> that chooses which links to one node carry its traffic together.

  Python integers are \<open>int\<close>. The functions that read a peer's proposal call \<open>int()\<close> on values of
  any type; their arguments here are the outcomes of that call, \<open>None\<close> for a value it refuses. Link
  keys are any type 'k; two keys are equal when they are the same link object.
\<close>

section \<open>The keepalive accord\<close>

definition FLOOR_MS :: int where "FLOOR_MS = 50"
definition CEILING_MS :: int where "CEILING_MS = 600000"

record bounds =
  bd_fast_min :: int
  bd_fast_max :: int
  bd_slow_min :: int
  bd_slow_max :: int

definition default_bounds :: bounds where
  "default_bounds = \<lparr> bd_fast_min = 100, bd_fast_max = 1000, bd_slow_min = 15000, bd_slow_max = 20000 \<rparr>"

definition clamp_ms :: "int \<Rightarrow> int" where
  "clamp_ms v = max FLOOR_MS (min CEILING_MS v)"

definition clamp_bounds :: "int option \<Rightarrow> int option \<Rightarrow> int option \<Rightarrow> int option \<Rightarrow> bounds" where
  "clamp_bounds fast_min fast_max slow_min slow_max =
     (case (fast_min, fast_max, slow_min, slow_max) of
        (Some a, Some b, Some c, Some d) \<Rightarrow>
          (case sort (map clamp_ms [a, b, c, d]) of
             [a, b, c, d] \<Rightarrow> \<lparr> bd_fast_min = a, bd_fast_max = b, bd_slow_min = c, bd_slow_max = d \<rparr>
           | _ \<Rightarrow> default_bounds)
      | _ \<Rightarrow> default_bounds)"

definition well_formed :: "int option \<Rightarrow> int option \<Rightarrow> int option \<Rightarrow> int option \<Rightarrow> bool" where
  "well_formed fast_min fast_max slow_min slow_max =
     (case (fast_min, fast_max, slow_min, slow_max) of
        (Some a, Some b, Some c, Some d) \<Rightarrow> a < b \<and> c < d \<and> a \<le> c \<and> b \<le> d
      | _ \<Rightarrow> False)"

definition FLOOR_STEP_MS :: int where "FLOOR_STEP_MS = 50"

definition needed_floor :: "int \<Rightarrow> real \<Rightarrow> int" where
  "needed_floor fast_links budget =
     (if 0 < fast_links \<and> 0 < budget
      then - ((- \<lfloor>real_of_int fast_links * 1000 / budget\<rfloor>) div FLOOR_STEP_MS) * FLOOR_STEP_MS
      else 0)"

definition loaded_bounds :: "bounds \<Rightarrow> int \<Rightarrow> real \<Rightarrow> bounds" where
  "loaded_bounds configured fast_links budget =
     (let fast_min = min (max (bd_fast_min configured) (needed_floor fast_links budget)) (bd_fast_max configured - 1)
      in if fast_min \<le> bd_fast_min configured then configured
         else configured\<lparr> bd_fast_min := fast_min \<rparr>)"

record accord =
  ac_fast_ms :: int
  ac_slow_ms :: int
  ac_fast_ok :: bool

definition accord_window :: "accord \<Rightarrow> int \<times> int" where
  "accord_window a = (ac_fast_ms a, ac_slow_ms a)"

definition accord_of :: "bounds \<Rightarrow> bounds \<Rightarrow> accord" where
  "accord_of mine theirs =
     (let fast_ms = max (bd_fast_min mine) (bd_fast_min theirs);
          fast_ok = (fast_ms \<le> min (bd_fast_max mine) (bd_fast_max theirs));
          slow_ms = max (max (bd_slow_min mine) (bd_slow_min theirs)) (min (bd_slow_max mine) (bd_slow_max theirs));
          slow_ms = max slow_ms fast_ms
      in \<lparr> ac_fast_ms = fast_ms, ac_slow_ms = slow_ms, ac_fast_ok = fast_ok \<rparr>)"

definition inside :: "int option \<Rightarrow> int \<times> int \<Rightarrow> bool" where
  "inside v window = (case v of None \<Rightarrow> False | Some n \<Rightarrow> fst window \<le> n \<and> n \<le> snd window)"

abbreviation wf_bounds :: "bounds \<Rightarrow> bool" where
  "wf_bounds b \<equiv> well_formed (Some (bd_fast_min b)) (Some (bd_fast_max b)) (Some (bd_slow_min b)) (Some (bd_slow_max b))"

lemma length_4: "length xs = 4 \<Longrightarrow> \<exists>a b c d. xs = [a, b, c, d]"
  by (auto simp: numeral_eq_Suc length_Suc_conv)

text \<open>A sorted four-element list stays a four-element list, so the inner case always matches.\<close>
lemma sort4:
  obtains a b c d where "sort [w, x, y, z :: int] = [a, b, c, d]" "a \<le> b" "b \<le> c" "c \<le> d"
    "{a, b, c, d} = {w, x, y, z}"
proof -
  have "length (sort [w, x, y, z]) = 4" by simp
  from length_4 [OF this] obtain a b c d where s: "sort [w, x, y, z] = [a, b, c, d]" by blast
  moreover have "sorted (sort [w, x, y, z])" "set (sort [w, x, y, z]) = {w, x, y, z}"
    by (simp_all only: sorted_sort set_sort) simp
  ultimately show thesis using that by simp
qed

lemma clamp_bounds_shape:
  "FLOOR_MS \<le> bd_fast_min (clamp_bounds a b c d) \<and> bd_fast_min (clamp_bounds a b c d) \<le> bd_fast_max (clamp_bounds a b c d) \<and>
   bd_fast_max (clamp_bounds a b c d) \<le> bd_slow_min (clamp_bounds a b c d) \<and>
   bd_slow_min (clamp_bounds a b c d) \<le> bd_slow_max (clamp_bounds a b c d) \<and>
   bd_slow_max (clamp_bounds a b c d) \<le> CEILING_MS"
proof (cases "(a, b, c, d)")
  case (fields a b c d)
  have lim: "FLOOR_MS \<le> clamp_ms v \<and> clamp_ms v \<le> CEILING_MS" for v
    by (auto simp: clamp_ms_def FLOOR_MS_def CEILING_MS_def)
  show ?thesis
  proof (cases a; cases b; cases c; cases d)
    fix a' b' c' d'
    assume eqs: "a = Some a'" "b = Some b'" "c = Some c'" "d = Some d'"
    obtain p q r s where s: "sort [clamp_ms a', clamp_ms b', clamp_ms c', clamp_ms d'] = [p, q, r, s]"
      "p \<le> q" "q \<le> r" "r \<le> s" "{p, q, r, s} = {clamp_ms a', clamp_ms b', clamp_ms c', clamp_ms d'}"
      by (rule sort4)
    have "\<forall>v \<in> {p, q, r, s}. FLOOR_MS \<le> v \<and> v \<le> CEILING_MS" unfolding s(5) using lim by simp
    then have "FLOOR_MS \<le> p" "s \<le> CEILING_MS" by simp_all
    then show ?thesis using fields eqs s(1-4)
      by (simp add: clamp_bounds_def del: sort_key_simps)
  qed (use fields in \<open>simp_all add: clamp_bounds_def default_bounds_def FLOOR_MS_def CEILING_MS_def\<close>)
qed

text \<open>
  Both ends reach the same accord, and no declaration can make a node probe faster than it
  offered to. The accord is symmetric in the two declarations, the fast and slow cadences are never
  below either node's own floors, and the agreed window is not empty; if both declarations
  come out of \<open>clamp_bounds\<close>, whatever was proposed, both cadences are inside the hard limits.
\<close>
theorem accord_protects_floors:
  "accord_of mine theirs = accord_of theirs mine \<and>
   bd_fast_min mine \<le> ac_fast_ms (accord_of mine theirs) \<and>
   bd_slow_min mine \<le> ac_slow_ms (accord_of mine theirs) \<and>
   inside (Some (ac_slow_ms (accord_of mine theirs))) (accord_window (accord_of mine theirs)) \<and>
   (let ac = accord_of (clamp_bounds a b c d) (clamp_bounds a' b' c' d') in
      50 \<le> ac_fast_ms ac \<and> ac_fast_ms ac \<le> ac_slow_ms ac \<and> ac_slow_ms ac \<le> 600000)"
proof -
  have "50 \<le> ac_fast_ms ac \<and> ac_fast_ms ac \<le> ac_slow_ms ac \<and> ac_slow_ms ac \<le> 600000"
    if "ac = accord_of (clamp_bounds a b c d) (clamp_bounds a' b' c' d')" for ac
    using clamp_bounds_shape [of a b c d] clamp_bounds_shape [of a' b' c' d']
    unfolding that accord_of_def Let_def FLOOR_MS_def CEILING_MS_def
    by (simp add: le_max_iff_disj max.bounded_iff min_le_iff_disj)
  moreover have "accord_of mine theirs = accord_of theirs mine"
    by (simp add: accord_of_def Let_def max.commute min.commute)
  moreover have "bd_fast_min mine \<le> ac_fast_ms (accord_of mine theirs) \<and>
      bd_slow_min mine \<le> ac_slow_ms (accord_of mine theirs) \<and>
      inside (Some (ac_slow_ms (accord_of mine theirs))) (accord_window (accord_of mine theirs))"
    by (simp add: accord_of_def Let_def inside_def accord_window_def le_max_iff_disj)
  ultimately show ?thesis unfolding Let_def by blast
qed

text \<open>
  Yet a peer's smaller number can make a node probe more often at rest: between its two slow
  bounds the agreed idle cadence follows the lower of the two ceilings, so a peer declaring a lower
  slow ceiling brings it down from the node's own ceiling, as far as the node's own slow floor.
\<close>
theorem accord_idle_cadence_lowered:
  "ac_slow_ms (accord_of default_bounds default_bounds) = 20000 \<and>
   ac_slow_ms (accord_of default_bounds
     \<lparr> bd_fast_min = 100, bd_fast_max = 1000, bd_slow_min = 14000, bd_slow_max = 15000 \<rparr>) = 15000"
  by (simp add: accord_of_def default_bounds_def Let_def)

lemma needed_floor_enough: "0 < n \<Longrightarrow> 5 * n \<le> needed_floor n 200"
proof -
  assume "0 < n"
  have "real_of_int n * 1000 / 200 = real_of_int (5 * n)" by simp
  then have "\<lfloor>real_of_int n * 1000 / 200\<rfloor> = 5 * n" by (simp only: floor_of_int)
  moreover have "5 * n \<le> - ((- (5 * n)) div 50) * 50" by presburger
  ultimately show ?thesis using \<open>0 < n\<close> by (simp add: needed_floor_def FLOOR_STEP_MS_def)
qed

lemma clamp_bounds_id:
  "FLOOR_MS \<le> a \<Longrightarrow> a \<le> b \<Longrightarrow> b \<le> c \<Longrightarrow> c \<le> d \<Longrightarrow> d \<le> CEILING_MS \<Longrightarrow>
     clamp_bounds (Some a) (Some b) (Some c) (Some d) =
       \<lparr> bd_fast_min = a, bd_fast_max = b, bd_slow_min = c, bd_slow_max = d \<rparr>"
  by (simp add: clamp_bounds_def clamp_ms_def max_absorb2 min_absorb2)

text \<open>
  A node's own offer is one its peers accept as it stands. When its configured bounds lie within
  the hard limits with each mode a proper range, the offer it makes under any load is well formed
  (no peer can hold it to be impossible), survives a peer's clamping unchanged, never drops below
  the configured floor, and as long as the ceiling leaves room the probes of all fast links together
  stay within the budget of 200 a second.
\<close>
theorem offer_stays_honest:
  assumes "FLOOR_MS \<le> bd_fast_min b" "bd_fast_min b < bd_fast_max b" "bd_fast_max b \<le> bd_slow_min b"
    "bd_slow_min b < bd_slow_max b" "bd_slow_max b \<le> CEILING_MS"
  defines "offer n \<equiv> loaded_bounds b n 200"
  shows "wf_bounds (offer n) \<and> bd_fast_min b \<le> bd_fast_min (offer n) \<and>
    clamp_bounds (Some (bd_fast_min (offer n))) (Some (bd_fast_max (offer n)))
      (Some (bd_slow_min (offer n))) (Some (bd_slow_max (offer n))) = offer n \<and>
    (0 < n \<and> 5 * n < bd_fast_max b \<longrightarrow> 1000 * n \<le> 200 * bd_fast_min (offer n))"
proof -
  have "bd_fast_min b \<le> bd_fast_min (offer n)" "bd_fast_min (offer n) < bd_fast_max b"
    "bd_fast_max (offer n) = bd_fast_max b" "bd_slow_min (offer n) = bd_slow_min b"
    "bd_slow_max (offer n) = bd_slow_max b"
    using assms(2) by (auto simp: offer_def loaded_bounds_def Let_def)
  moreover have "5 * n \<le> bd_fast_min (offer n)" if "0 < n" "5 * n < bd_fast_max b"
    using needed_floor_enough [OF that(1)] that(2) by (auto simp: offer_def loaded_bounds_def Let_def)
  ultimately show ?thesis
    using assms(1-5) by (simp add: clamp_bounds_id) (simp add: well_formed_def)
qed

theorem offer_stays_honest_witness:
  "wf_bounds (loaded_bounds default_bounds 100 200) \<and> 100000 \<le> 200 * bd_fast_min (loaded_bounds default_bounds 100 200)"
  using offer_stays_honest [of default_bounds 100]
  by (simp add: default_bounds_def FLOOR_MS_def CEILING_MS_def)

text \<open>
  Clamping does not preserve the meaning of every declaration a correct node could make: of two
  well-formed declarations, one has its fast ceiling and slow floor exchanged, and one below the hard
  floor becomes a declaration that is not well formed, which the peers then count as impossible.
\<close>
theorem clamp_changes_well_formed:
  "well_formed (Some 100) (Some 5000) (Some 2000) (Some 20000) \<and>
   clamp_bounds (Some 100) (Some 5000) (Some 2000) (Some 20000) =
     \<lparr> bd_fast_min = 100, bd_fast_max = 2000, bd_slow_min = 5000, bd_slow_max = 20000 \<rparr> \<and>
   well_formed (Some 10) (Some 40) (Some 100) (Some 200) \<and>
   \<not> wf_bounds (clamp_bounds (Some 10) (Some 40) (Some 100) (Some 200))"
  by (simp add: well_formed_def clamp_bounds_def clamp_ms_def FLOOR_MS_def CEILING_MS_def)

section \<open>The bundle\<close>

definition MIN_PROBES :: nat where "MIN_PROBES = 8"
definition MAX_MEMBERS :: int where "MAX_MEMBERS = 2"
definition RECOVER_SHARE :: real where "RECOVER_SHARE = 1 / 2"

record mlo_settings =
  ms_skew_ms :: real
  ms_drop_percent :: real
  ms_max_members :: int

definition drop_share :: "mlo_settings \<Rightarrow> real" where
  "drop_share s = max 0 (min 1 (ms_drop_percent s / 100))"

definition recover_share :: "mlo_settings \<Rightarrow> real" where
  "recover_share s = drop_share s * RECOVER_SHARE"

record 'k candidate =
  cd_key :: 'k
  cd_mean_ms :: "real option"
  cd_drop :: "real option"
  cd_probes :: nat

definition measured :: "'k candidate \<Rightarrow> bool" where
  "measured c \<longleftrightarrow> cd_mean_ms c \<noteq> None \<and> cd_drop c \<noteq> None \<and> MIN_PROBES \<le> cd_probes c"

record 'k mlo_bundle =
  bu_settings :: mlo_settings
  bu_keys :: "'k list"
  bu_benched :: "'k list"
  bu_skew_ms :: real
  bu_apart_ms :: "real option"
  bu_turn :: nat

definition new_bundle :: "mlo_settings \<Rightarrow> 'k mlo_bundle" where
  "new_bundle s = \<lparr> bu_settings = s, bu_keys = [], bu_benched = [], bu_skew_ms = 0,
     bu_apart_ms = None, bu_turn = 0 \<rparr>"

definition bundle_active :: "'k mlo_bundle \<Rightarrow> bool" where
  "bundle_active b \<longleftrightarrow> 1 < length (bu_keys b)"

definition reorder_ms :: "'k mlo_bundle \<Rightarrow> real" where
  "reorder_ms b = 2 * bu_skew_ms b"

text \<open>
  The loop of \<open>update\<close> over the candidates: the bench and the eligible candidates in order. The
  bench is the keys of a dict, in the order they were benched.
\<close>

fun screen :: "mlo_settings \<Rightarrow> 'k candidate list \<Rightarrow> 'k list \<Rightarrow> 'k candidate list \<Rightarrow> 'k list \<times> 'k candidate list" where
  "screen s [] benched eligible = (benched, eligible)"
| "screen s (c # cs) benched eligible =
     (if \<not> measured c then screen s cs benched eligible
      else
        (let bar = (if cd_key c \<in> set benched then recover_share s else drop_share s) in
         if bar \<le> the (cd_drop c)
         then screen s cs (if cd_key c \<in> set benched then benched else benched @ [cd_key c]) eligible
         else screen s cs (removeAll (cd_key c) benched) (eligible @ [c])))"

abbreviation mean_of :: "'k candidate \<Rightarrow> real" where
  "mean_of c \<equiv> the (cd_mean_ms c)"

fun pick_members :: "real \<Rightarrow> 'k candidate list \<Rightarrow> 'k candidate list \<Rightarrow> 'k candidate list" where
  "pick_members skew [] chosen = chosen"
| "pick_members skew (c # cs) chosen =
     (if chosen \<noteq> [] \<and> skew < mean_of c - mean_of (hd chosen) then chosen
      else pick_members skew cs (chosen @ [c]))"

definition bundle_update :: "'k candidate list \<Rightarrow> 'k mlo_bundle \<Rightarrow> 'k mlo_bundle" where
  "bundle_update candidates b =
     (let s = bu_settings b;
          offered = map cd_key candidates;
          benched = filter (\<lambda>k. k \<in> set offered) (bu_benched b);
          (benched, eligible) = screen s candidates benched [];
          eligible = sort_key mean_of eligible;
          chosen = pick_members (ms_skew_ms s) (take (nat (max 1 (ms_max_members s))) eligible) []
      in if length chosen < 2
         then b\<lparr> bu_benched := benched, bu_keys := [], bu_skew_ms := 0,
                 bu_apart_ms := (if 2 \<le> length eligible
                   then Some (mean_of (eligible ! 1) - mean_of (eligible ! 0)) else None) \<rparr>
         else
           (let leader = mean_of (hd chosen) in
            b\<lparr> bu_benched := benched, bu_apart_ms := None,
               bu_skew_ms := sum_list (map (\<lambda>c. mean_of c - leader) (tl chosen)) / real (length chosen - 1),
               bu_keys := map cd_key chosen \<rparr>))"

definition next_key :: "'k mlo_bundle \<Rightarrow> 'k option \<times> 'k mlo_bundle" where
  "next_key b =
     (if length (bu_keys b) < 2 then (None, b)
      else (let t = bu_turn b + 1
            in (Some (bu_keys b ! (t mod length (bu_keys b))), b\<lparr> bu_turn := t \<rparr>)))"

fun turns :: "nat \<Rightarrow> 'k mlo_bundle \<Rightarrow> 'k option list" where
  "turns 0 b = []"
| "turns (Suc n) b = (let (k, b) = next_key b in k # turns n b)"

lemma pick_prefix: "\<exists>n. pick_members skew cs chosen = chosen @ take n cs"
proof (induction skew cs chosen rule: pick_members.induct)
  case (2 skew c cs chosen)
  show ?case
  proof (cases "chosen \<noteq> [] \<and> skew < mean_of c - mean_of (hd chosen)")
    case True
    then show ?thesis by (auto intro: exI [of _ 0])
  next
    case False
    with 2 obtain n where "pick_members skew cs (chosen @ [c]) = (chosen @ [c]) @ take n cs" by blast
    with False show ?thesis by (auto intro: exI [of _ "Suc n"])
  qed
qed simp

lemma pick_skew:
  "\<forall>c \<in> set chosen. mean_of c - mean_of (hd chosen) \<le> skew \<Longrightarrow> 0 \<le> skew \<Longrightarrow>
     c \<in> set (pick_members skew cs chosen) \<Longrightarrow> mean_of c - mean_of (hd (pick_members skew cs chosen)) \<le> skew"
proof (induction skew cs chosen rule: pick_members.induct)
  case (2 skew c' cs chosen)
  show ?case
  proof (cases "chosen \<noteq> [] \<and> skew < mean_of c' - mean_of (hd chosen)")
    case False
    then have "\<forall>x \<in> set (chosen @ [c']). mean_of x - mean_of (hd (chosen @ [c'])) \<le> skew"
      using 2(2,3) by (cases chosen) auto
    moreover have eq: "pick_members skew (c' # cs) chosen = pick_members skew cs (chosen @ [c'])"
      by (simp only: pick_members.simps if_not_P [OF False])
    ultimately show ?thesis using 2(1) [OF False] 2(3,4) unfolding eq by blast
  qed (use 2 in auto)
qed simp

text \<open>What screening decides of a candidate, when keys are offered once.\<close>
lemma screen_eligible:
  "distinct (map cd_key cs) \<Longrightarrow>
     snd (screen s cs benched el) = el @ filter (\<lambda>c. measured c \<and>
       the (cd_drop c) < (if cd_key c \<in> set benched then recover_share s else drop_share s)) cs"
proof (induction cs arbitrary: benched el)
  case (Cons c cs)
  have other: "cd_key x \<noteq> cd_key c" if "x \<in> set cs" for x using Cons.prems that by (auto simp: image_iff)
  have same: "filter (\<lambda>x. measured x \<and> the (cd_drop x) < (if cd_key x \<in> set b then recover_share s else drop_share s)) cs =
      filter (\<lambda>x. measured x \<and> the (cd_drop x) < (if cd_key x \<in> set benched then recover_share s else drop_share s)) cs"
    if "set b - {cd_key c} = set benched - {cd_key c}" for b
    by (rule filter_cong) (use other that in auto)
  show ?case
    using Cons.IH Cons.prems same [of "benched @ [cd_key c]"] same [of "removeAll (cd_key c) benched"]
    by (simp add: Let_def not_less)
qed simp

text \<open>
  What a bundle is made of. After every pass over a set of distinct links the bundle is either
  empty or holds between two and the configured number of distinct links, each of which was offered
  in this pass, is measured, loses less than the threshold (half of it, if the link was benched
  before the pass), and measures within the configured skew of the fastest member.
\<close>
theorem bundle_members:
  assumes "distinct (map cd_key cs)" "0 \<le> ms_skew_ms (bu_settings b)"
  defines "b' \<equiv> bundle_update cs b"
  shows "bu_keys b' = [] \<or>
    (2 \<le> length (bu_keys b') \<and> int (length (bu_keys b')) \<le> max 1 (ms_max_members (bu_settings b)) \<and>
     distinct (bu_keys b') \<and>
     (\<exists>ms. bu_keys b' = map cd_key ms \<and>
       (\<forall>c \<in> set ms. c \<in> set cs \<and> measured c \<and>
          the (cd_drop c) < (if cd_key c \<in> set (bu_benched b) then recover_share (bu_settings b)
                            else drop_share (bu_settings b)) \<and>
          mean_of c - mean_of (hd ms) \<le> ms_skew_ms (bu_settings b))))"
proof -
  let ?s = "bu_settings b"
  let ?held = "filter (\<lambda>k. k \<in> set (map cd_key cs)) (bu_benched b)"
  obtain bn el where sc: "screen ?s cs ?held [] = (bn, el)" by (meson surj_pair)
  let ?good = "\<lambda>c. measured c \<and> the (cd_drop c) < (if cd_key c \<in> set (bu_benched b) then recover_share ?s else drop_share ?s)"
  have "el = filter (\<lambda>c. measured c \<and> the (cd_drop c) < (if cd_key c \<in> set ?held then recover_share ?s else drop_share ?s)) cs"
    using screen_eligible [OF assms(1), of ?s ?held "[]"] sc by simp
  also have "\<dots> = filter ?good cs" by (rule filter_cong) auto
  finally have el: "el = filter ?good cs" .
  let ?e = "sort_key mean_of el" and ?m = "nat (max 1 (ms_max_members ?s))"
  let ?ch = "pick_members (ms_skew_ms ?s) (take ?m ?e) []"
  obtain n where n: "?ch = take n (take ?m ?e)" using pick_prefix [of "ms_skew_ms ?s" "take ?m ?e" "[]"] by auto
  have len: "int (length ?ch) \<le> max 1 (ms_max_members ?s)" unfolding n by auto
  have sub: "set ?ch \<subseteq> set el" unfolding n using set_take_subset by (metis set_sort subset_trans)
  have "distinct (map cd_key el)" unfolding el using assms(1) by (rule distinct_map_filter)
  then have "distinct (map cd_key ?e)"
    by (simp add: distinct_map)
  then have dist: "distinct (map cd_key ?ch)" unfolding n by (simp add: take_map [symmetric])
  have upd: "bu_keys b' = (if length ?ch < 2 then [] else map cd_key ?ch)"
    unfolding b'_def bundle_update_def Let_def sc prod.case by simp
  show ?thesis
  proof (cases "length ?ch < 2")
    case True
    then show ?thesis unfolding upd by simp
  next
    case False
    then have keys: "bu_keys b' = map cd_key ?ch" unfolding upd by simp
    have "c \<in> set cs \<and> ?good c \<and> mean_of c - mean_of (hd ?ch) \<le> ms_skew_ms ?s" if "c \<in> set ?ch" for c
      using sub that pick_skew [of "[]" "ms_skew_ms ?s" c "take ?m ?e"] assms(2) unfolding el by auto
    with False len dist show ?thesis unfolding keys by (intro disjI2 conjI exI [of _ ?ch]) auto
  qed
qed

theorem bundle_members_witness:
  "bu_keys (bundle_update
     [\<lparr> cd_key = 1::nat, cd_mean_ms = Some 40, cd_drop = Some 0, cd_probes = 50 \<rparr>,
      \<lparr> cd_key = 2, cd_mean_ms = Some 30, cd_drop = Some 0, cd_probes = 50 \<rparr>]
     (new_bundle \<lparr> ms_skew_ms = 30, ms_drop_percent = 10, ms_max_members = 2 \<rparr>)) = [2, 1]"
  (is "bu_keys (bundle_update ?cs ?b) = _")
proof -
  have "distinct (map cd_key ?cs)" "0 \<le> ms_skew_ms (bu_settings ?b)" by (simp_all add: new_bundle_def)
  note bundle_members [OF this]
  then show ?thesis
    by (simp add: bundle_update_def new_bundle_def measured_def MIN_PROBES_def drop_share_def Let_def)
qed

lemma screen_bench:
  "distinct (map cd_key cs) \<Longrightarrow> k \<in> set (fst (screen s cs benched el)) \<longleftrightarrow>
     (if \<exists>c \<in> set cs. cd_key c = k \<and> measured c
      then (\<exists>c \<in> set cs. cd_key c = k \<and> measured c \<and>
              (if k \<in> set benched then recover_share s else drop_share s) \<le> the (cd_drop c))
      else k \<in> set benched)"
proof (induction cs arbitrary: benched el)
  case (Cons c cs)
  have other: "cd_key x \<noteq> cd_key c" if "x \<in> set cs" for x using Cons.prems that by (auto simp: image_iff)
  show ?case
  proof (cases "cd_key c = k")
    case True
    with other have no: "\<forall>x \<in> set cs. cd_key x \<noteq> k" by auto
    then have bex: "(\<exists>x \<in> set (c # cs). cd_key x = k \<and> P x) \<longleftrightarrow> P c" for P using True by auto
    have rest: "k \<in> set (fst (screen s cs bs es)) \<longleftrightarrow> k \<in> set bs" for bs es
      using Cons.IH [of bs es] Cons.prems no by auto
    show ?thesis unfolding bex using True by (simp add: Let_def rest)
  next
    case False
    then show ?thesis using Cons by (auto simp: Let_def)
  qed
qed simp

text \<open>
  Leaving is cheap and coming back is not. A measured link is out of the bundle as soon as its
  loss reaches the threshold, and once benched it stays benched, pass after pass, until its measured
  loss falls below half the threshold or it is no longer offered; a pass that has no measure of it changes
  nothing.
\<close>
theorem bench_hysteresis:
  assumes "distinct (map cd_key cs)" "c \<in> set cs"
  shows "cd_key c \<in> set (bu_benched (bundle_update cs b)) \<longleftrightarrow>
    (if measured c
     then (if cd_key c \<in> set (bu_benched b) then drop_share (bu_settings b) / 2 else drop_share (bu_settings b))
            \<le> the (cd_drop c)
     else cd_key c \<in> set (bu_benched b))"
proof -
  have uniq: "x = c" if "x \<in> set cs" "cd_key x = cd_key c" for x
    using assms that by (simp add: distinct_map inj_on_def)
  let ?held = "filter (\<lambda>k. k \<in> set (map cd_key cs)) (bu_benched b)"
  have held: "cd_key c \<in> set ?held \<longleftrightarrow> cd_key c \<in> set (bu_benched b)" using assms(2) by auto
  have "bu_benched (bundle_update cs b) = fst (screen (bu_settings b) cs ?held [])"
    by (simp add: bundle_update_def Let_def case_prod_beta)
  moreover have "(\<exists>x \<in> set cs. cd_key x = cd_key c \<and> P x) \<longleftrightarrow> P c" for P using uniq assms(2) by blast
  ultimately have "cd_key c \<in> set (bu_benched (bundle_update cs b)) \<longleftrightarrow>
      (if measured c
       then (if cd_key c \<in> set ?held then recover_share (bu_settings b) else drop_share (bu_settings b)) \<le> the (cd_drop c)
       else cd_key c \<in> set ?held)"
    by (simp only: screen_bench [OF assms(1)] if_bool_eq_conj) blast
  then show ?thesis unfolding held by (simp add: recover_share_def RECOVER_SHARE_def)
qed

theorem bench_hysteresis_witness:
  "(1::nat) \<in> set (bu_benched (bundle_update
     [\<lparr> cd_key = 1, cd_mean_ms = Some 40, cd_drop = Some (7 / 100), cd_probes = 50 \<rparr>]
     ((new_bundle \<lparr> ms_skew_ms = 30, ms_drop_percent = 10, ms_max_members = 2 \<rparr>)\<lparr> bu_benched := [1] \<rparr>)))"
  by (subst bench_hysteresis [of "[\<lparr> cd_key = 1, cd_mean_ms = Some 40, cd_drop = Some (7 / 100), cd_probes = 50 \<rparr>]"
        "\<lparr> cd_key = 1, cd_mean_ms = Some 40, cd_drop = Some (7 / 100), cd_probes = 50 \<rparr>", simplified])
    (simp_all add: new_bundle_def measured_def MIN_PROBES_def drop_share_def)

lemma turns_nth:
  "i < n \<Longrightarrow> 2 \<le> length (bu_keys b) \<Longrightarrow>
     turns n b ! i = Some (bu_keys b ! ((bu_turn b + Suc i) mod length (bu_keys b)))"
proof (induction n arbitrary: b i)
  case (Suc n)
  then show ?case by (cases i) (simp_all add: next_key_def Let_def)
qed simp

lemma length_turns [simp]: "length (turns n b) = n"
  by (induction n arbitrary: b) (simp_all add: case_prod_beta)

text \<open>
  The members take turns. While a bundle stands, any consecutive turns as many as it has members
  hand out each member once.
\<close>
theorem round_robin_fair:
  assumes "2 \<le> length (bu_keys b)" "distinct (bu_keys b)"
  shows "distinct (turns (length (bu_keys b)) b) \<and>
    set (turns (length (bu_keys b)) b) = Some ` set (bu_keys b)"
proof -
  let ?n = "length (bu_keys b)"
  have inj: "i = j" if "i < ?n" "j < ?n" "(bu_turn b + Suc i) mod ?n = (bu_turn b + Suc j) mod ?n" for i j
  proof -
    have "int (bu_turn b + Suc i) mod int ?n = int (bu_turn b + Suc j) mod int ?n"
      using that(3) by (simp only: of_nat_mod [symmetric])
    from mod_diff_cong [OF this refl, of "int (Suc (bu_turn b))"]
    have "int i mod int ?n = int j mod int ?n" by simp
    then show ?thesis using that(1,2) by simp
  qed
  have pos: "m mod ?n < ?n" for m using assms(1) by (intro mod_less_divisor) linarith
  have d: "distinct (turns ?n b)"
    unfolding distinct_conv_nth length_turns
  proof (intro allI impI)
    fix i j
    assume ij: "i < ?n" "j < ?n" "i \<noteq> j"
    then have "(bu_turn b + Suc i) mod ?n \<noteq> (bu_turn b + Suc j) mod ?n" using inj by blast
    then show "turns ?n b ! i \<noteq> turns ?n b ! j"
      using assms(2) pos by (simp only: turns_nth [OF ij(1) assms(1)] turns_nth [OF ij(2) assms(1)]
          option.inject nth_eq_iff_index_eq simp_thms)
  qed
  have sub: "set (turns ?n b) \<subseteq> Some ` set (bu_keys b)"
  proof
    fix x
    assume "x \<in> set (turns ?n b)"
    then obtain i where "i < ?n" "x = turns ?n b ! i" by (auto simp: in_set_conv_nth)
    then show "x \<in> Some ` set (bu_keys b)"
      using pos by (simp only: turns_nth [OF _ assms(1)]) (intro imageI nth_mem)
  qed
  have "card (set (turns ?n b)) = card (Some ` set (bu_keys b))"
    using d assms(2) by (simp add: distinct_card card_image)
  with sub d show ?thesis by (simp add: card_subset_eq)
qed

theorem round_robin_fair_witness:
  "set (turns 2 ((new_bundle \<lparr> ms_skew_ms = 30, ms_drop_percent = 10, ms_max_members = 2 \<rparr>)\<lparr> bu_keys := [1::nat, 2] \<rparr>))
     = {Some 1, Some 2}"
  using round_robin_fair [of "(new_bundle \<lparr> ms_skew_ms = 30, ms_drop_percent = 10, ms_max_members = 2 \<rparr>)\<lparr> bu_keys := [1::nat, 2] \<rparr>"] by (simp add: numeral_2_eq_2)

end
