(* ===== verification/Routed.thy ===== *)
theory Routed
  imports Metrics NodeId "HOL-Library.Product_Lexorder" "HOL-Library.Multiset"
begin

text \<open>
  Routed paths (\<open>src/routed.py\<close>): a \<open>Path\<close> is one way to reach a node through a first hop with
  the measurements of Metrics, and the \<open>PathBook\<close> holds the paths per target, which targets are
  worth keeping paths for, and which first hops were given up on.

  The three ordered dictionaries are association lists. Probe tokens are the integers the node
  draws for its pings. The rank of a path is a tuple; an unmeasured round trip (infinity in the
  code) is the pair (1, 0) above every measured (0, rtt).
\<close>

definition MAX_TARGETS :: nat where "MAX_TARGETS = 16"
definition MAX_PER_TARGET :: nat where "MAX_PER_TARGET = 3"
definition DEAD_PROBES :: nat where "DEAD_PROBES = 3"
definition INTEREST_TTL :: real where "INTEREST_TTL = 300"
definition SHUN_MIN :: real where "SHUN_MIN = 60"
definition SHUN_MAX :: real where "SHUN_MAX = 900"
definition MAX_SHUNNED :: nat where "MAX_SHUNNED = 64"

record path =
  pa_target :: node_id
  pa_via :: node_id
  pa_quality :: "nat link_quality"
  pa_probed_at :: real
  pa_created_at :: real

definition new_path :: "real \<Rightarrow> node_id \<Rightarrow> node_id \<Rightarrow> path" where
  "new_path clk target via = \<lparr> pa_target = target, pa_via = via, pa_quality = new_link_quality clk,
     pa_probed_at = 0, pa_created_at = clk \<rparr>"

definition path_answered :: "real \<Rightarrow> nat option \<Rightarrow> real \<Rightarrow> path \<Rightarrow> real option \<times> path" where
  "path_answered clk token at' p =
     (let (rtt, q) = lq_answered clk token at' (pa_quality p) in (rtt, p\<lparr> pa_quality := q \<rparr>))"

definition path_sent :: "nat \<Rightarrow> real \<Rightarrow> path \<Rightarrow> path" where
  "path_sent token at' p = p\<lparr> pa_probed_at := at', pa_quality := lq_sent token at' (pa_quality p) \<rparr>"

definition path_loss :: "path \<Rightarrow> real option" where
  "path_loss p = (case lq_recent_loss 2 (pa_quality p) of None \<Rightarrow> lq_loss (pa_quality p) | Some l \<Rightarrow> Some l)"

definition path_dead :: "path \<Rightarrow> bool" where
  "path_dead p \<longleftrightarrow> DEAD_PROBES \<le> lq_since_pong (pa_quality p)"

definition path_unproven :: "path \<Rightarrow> bool" where
  "path_unproven p \<longleftrightarrow> lq_pongs (pa_quality p) = 0"

record path_book =
  pb_max_targets :: nat
  pb_max_per_target :: nat
  pb_interest_ttl :: real
  pb_paths :: "(bytes, (bytes, path) odict) odict"
  pb_interest :: "(bytes, real) odict"
  pb_shunned :: "(bytes \<times> bytes, nat \<times> real) odict"

definition new_path_book :: "int \<Rightarrow> int \<Rightarrow> real \<Rightarrow> path_book" where
  "new_path_book max_targets max_per_target ttl =
     \<lparr> pb_max_targets = nat (max 1 max_targets), pb_max_per_target = nat (max 1 max_per_target),
       pb_interest_ttl = ttl, pb_paths = [], pb_interest = [], pb_shunned = [] \<rparr>"

subsection \<open>What the node is talking to\<close>

function drop_oldest_interest :: "path_book \<Rightarrow> path_book" where
  "drop_oldest_interest b =
     (if pb_max_targets b < length (pb_interest b)
      then drop_oldest_interest
        (b\<lparr> pb_interest := tl (pb_interest b), pb_paths := AList.delete (fst (hd (pb_interest b))) (pb_paths b) \<rparr>)
      else b)"
  by pat_completeness auto
termination by (relation "measure (\<lambda>b. length (pb_interest b))") auto

declare drop_oldest_interest.simps [simp del]

definition note_interest :: "node_id \<Rightarrow> real \<Rightarrow> path_book \<Rightarrow> path_book" where
  "note_interest target stamp b =
     drop_oldest_interest (b\<lparr> pb_interest := od_put_last target stamp (pb_interest b) \<rparr>)"

fun warm_loop :: "(bytes \<times> real) list \<Rightarrow> real \<Rightarrow> path_book \<Rightarrow> node_id list \<times> path_book" where
  "warm_loop [] stamp b = ([], b)"
| "warm_loop ((raw, at') # items) stamp b =
     (if pb_interest_ttl b < stamp - at'
      then warm_loop items stamp
             (b\<lparr> pb_interest := AList.delete raw (pb_interest b), pb_paths := AList.delete raw (pb_paths b) \<rparr>)
      else (let (out, b) = warm_loop items stamp b in (raw # out, b)))"

definition warm :: "real \<Rightarrow> path_book \<Rightarrow> node_id list \<times> path_book" where
  "warm stamp b = warm_loop (rev (pb_interest b)) stamp b"

definition is_warm :: "node_id \<Rightarrow> real \<Rightarrow> path_book \<Rightarrow> bool" where
  "is_warm target stamp b =
     (case map_of (pb_interest b) target of None \<Rightarrow> False | Some at' \<Rightarrow> stamp - at' \<le> pb_interest_ttl b)"

subsection \<open>The paths themselves\<close>

abbreviation book_of :: "path_book \<Rightarrow> bytes \<Rightarrow> (bytes, path) odict" where
  "book_of b target \<equiv> (case map_of (pb_paths b) target of None \<Rightarrow> [] | Some book \<Rightarrow> book)"

definition set_book :: "bytes \<Rightarrow> (bytes, path) odict \<Rightarrow> path_book \<Rightarrow> path_book" where
  "set_book target book b =
     b\<lparr> pb_paths := (if book = [] then AList.delete target (pb_paths b)
                     else AList.update target book (pb_paths b)) \<rparr>"

definition ensure_path :: "real \<Rightarrow> node_id \<Rightarrow> node_id \<Rightarrow> path_book \<Rightarrow> path \<times> path_book" where
  "ensure_path clk target via b =
     (let paths = (case map_of (pb_paths b) target of
                     None \<Rightarrow> od_trim (pb_max_targets b - 1) (pb_paths b) @ [(target, [])]
                   | Some _ \<Rightarrow> pb_paths b);
          paths = od_to_end target paths;
          book = (case map_of paths target of None \<Rightarrow> [] | Some book \<Rightarrow> book)
      in (case map_of book via of
            Some path \<Rightarrow> (path, b\<lparr> pb_paths := paths \<rparr>)
          | None \<Rightarrow>
              (let path = new_path clk target via;
                   book = od_trim (pb_max_per_target b) (book @ [(via, path)])
               in (path, b\<lparr> pb_paths := AList.update target book paths \<rparr>))))"

definition get_path :: "node_id \<Rightarrow> node_id \<Rightarrow> path_book \<Rightarrow> path option" where
  "get_path target via b = map_of (book_of b target) via"

definition has_path :: "node_id \<Rightarrow> path_book \<Rightarrow> bool" where
  "has_path target b \<longleftrightarrow> book_of b target \<noteq> []"

definition rank :: "path \<Rightarrow> nat \<times> real \<times> nat \<times> real" where
  "rank p =
     (if path_unproven p then 1 else 0,
      (case path_loss p of None \<Rightarrow> 1 | Some l \<Rightarrow> l),
      (case lq_recent_ms (pa_quality p) of None \<Rightarrow> (1, 0) | Some rtt \<Rightarrow> (0, rtt)))"

definition paths_to :: "node_id \<Rightarrow> path_book \<Rightarrow> path list" where
  "paths_to target b = sort_key rank (map snd (book_of b target))"

definition live_paths :: "node_id \<Rightarrow> path_book \<Rightarrow> path list" where
  "live_paths target b = filter (\<lambda>p. \<not> path_dead p) (paths_to target b)"

definition drop_path :: "node_id \<Rightarrow> node_id \<Rightarrow> path_book \<Rightarrow> bool \<times> path_book" where
  "drop_path target via b =
     (case map_of (book_of b target) via of
        None \<Rightarrow> (False, b)
      | Some _ \<Rightarrow> (True, set_book target (AList.delete via (book_of b target)) b))"

fun forget_via_loop :: "node_id \<Rightarrow> bytes list \<Rightarrow> path_book \<Rightarrow> nat \<times> path_book" where
  "forget_via_loop via [] b = (0, b)"
| "forget_via_loop via (t # ts) b =
     (let gone = (case map_of (book_of b t) via of None \<Rightarrow> 0 | Some _ \<Rightarrow> 1);
          (n, b) = forget_via_loop via ts (set_book t (AList.delete via (book_of b t)) b)
      in (gone + n, b))"

definition forget_via :: "node_id \<Rightarrow> path_book \<Rightarrow> nat \<times> path_book" where
  "forget_via via b = forget_via_loop via (od_keys (pb_paths b)) b"

definition forget_target :: "node_id \<Rightarrow> path_book \<Rightarrow> path_book" where
  "forget_target target b =
     b\<lparr> pb_paths := AList.delete target (pb_paths b), pb_interest := AList.delete target (pb_interest b) \<rparr>"

subsection \<open>Giving up\<close>

definition shun_delay :: "nat \<Rightarrow> real" where
  "shun_delay tries = min SHUN_MAX (SHUN_MIN * 2 ^ min (tries - 1) 4)"

definition shun :: "node_id \<Rightarrow> node_id \<Rightarrow> real \<Rightarrow> path_book \<Rightarrow> path_book" where
  "shun target via now b =
     (let key = (target, via);
          tries = Suc (case map_of (pb_shunned b) key of None \<Rightarrow> 0 | Some (n, _) \<Rightarrow> n)
      in b\<lparr> pb_shunned := od_trim MAX_SHUNNED
              (od_put_last key (tries, now + shun_delay tries) (pb_shunned b)) \<rparr>)"

definition shunned :: "node_id \<Rightarrow> node_id \<Rightarrow> real \<Rightarrow> path_book \<Rightarrow> bool" where
  "shunned target via stamp b =
     (case map_of (pb_shunned b) (target, via) of None \<Rightarrow> False | Some (_, until) \<Rightarrow> stamp < until)"

definition forgive_path :: "node_id \<Rightarrow> node_id \<Rightarrow> path_book \<Rightarrow> path_book" where
  "forgive_path target via b = b\<lparr> pb_shunned := AList.delete (target, via) (pb_shunned b) \<rparr>"

fun reap_loop :: "node_id \<Rightarrow> real \<Rightarrow> path list \<Rightarrow> (bytes, path) odict \<Rightarrow> path_book \<Rightarrow> (bytes, path) odict \<times> path_book" where
  "reap_loop target stamp [] book b = (book, b)"
| "reap_loop target stamp (p # ps) book b =
     reap_loop target stamp ps (AList.delete (pa_via p) book) (shun target (pa_via p) stamp b)"

definition reap :: "node_id \<Rightarrow> real \<Rightarrow> path_book \<Rightarrow> path list \<times> path_book" where
  "reap target stamp b =
     (let book = book_of b target in
      if book = [] then ([], b)
      else
        (let dead = filter path_dead (map snd book);
             (book, b) = reap_loop target stamp dead book b
         in (dead, set_book target book b)))"

definition path_count :: "path_book \<Rightarrow> nat" where
  "path_count b = sum_list (map (\<lambda>(_, book). length book) (pb_paths b))"

text \<open>A \<open>Path\<close> held by the book is one shared object: recording a probe on it changes it in place.\<close>

definition update_path :: "node_id \<Rightarrow> node_id \<Rightarrow> (path \<Rightarrow> path) \<Rightarrow> path_book \<Rightarrow> path_book" where
  "update_path target via f b =
     b\<lparr> pb_paths := AList.map_entry target (AList.map_entry via f) (pb_paths b) \<rparr>"

subsection \<open>The book is bounded\<close>

abbreviation inner_ok :: "nat \<Rightarrow> bytes \<Rightarrow> (bytes, path) odict \<Rightarrow> bool" where
  "inner_ok m target book \<equiv> book \<noteq> [] \<and> od_ok book \<and> length book \<le> m \<and>
     od_all (\<lambda>via p. pa_via p = via \<and> pa_target p = target) book"

definition pb_ok :: "path_book \<Rightarrow> bool" where
  "pb_ok b \<longleftrightarrow> 1 \<le> pb_max_targets b \<and> 1 \<le> pb_max_per_target b \<and>
     od_ok (pb_paths b) \<and> length (pb_paths b) \<le> pb_max_targets b \<and>
     od_all (inner_ok (pb_max_per_target b)) (pb_paths b) \<and>
     od_ok (pb_interest b) \<and> length (pb_interest b) \<le> pb_max_targets b \<and>
     od_ok (pb_shunned b) \<and> length (pb_shunned b) \<le> MAX_SHUNNED \<and>
     od_all (\<lambda>_ (n, _). 1 \<le> n) (pb_shunned b)"

lemma new_path_book_ok: "pb_ok (new_path_book m k ttl)"
  by (simp add: pb_ok_def new_path_book_def Suc_le_eq less_max_iff_disj)

lemma pb_ok_delete: "pb_ok b \<Longrightarrow> pb_ok (b\<lparr> pb_paths := AList.delete t (pb_paths b) \<rparr>)"
  by (simp add: pb_ok_def od_all_delete le_trans [OF AList.length_delete_le])

lemma pb_ok_interest_delete: "pb_ok b \<Longrightarrow> pb_ok (b\<lparr> pb_interest := AList.delete t (pb_interest b) \<rparr>)"
  by (simp add: pb_ok_def le_trans [OF AList.length_delete_le])

lemma inner_ok_book: "pb_ok b \<Longrightarrow> map_of (pb_paths b) t = Some book \<Longrightarrow> inner_ok (pb_max_per_target b) t book"
  unfolding pb_ok_def by (blast dest: od_allD)

lemma set_book_ok:
  assumes "pb_ok b" "t \<in> fst ` set (pb_paths b)"
    "od_ok book" "length book \<le> pb_max_per_target b" "od_all (\<lambda>via p. pa_via p = via \<and> pa_target p = t) book"
  shows "pb_ok (set_book t book b)"
proof (cases "book = []")
  case True
  then show ?thesis using assms(1) by (simp add: set_book_def pb_ok_delete)
next
  case False
  with assms show ?thesis
    by (simp add: set_book_def pb_ok_def length_update_present od_all_update)
qed

lemma drop_oldest_interest_ok:
  assumes "pb_ok (b\<lparr> pb_interest := [] \<rparr>)" "od_ok (pb_interest b)"
  shows "pb_ok (drop_oldest_interest b)"
  using assms
proof (induction b rule: drop_oldest_interest.induct)
  case (1 b)
  show ?case
  proof (cases "pb_max_targets b < length (pb_interest b)")
    case True
    let ?b = "b\<lparr> pb_interest := tl (pb_interest b), pb_paths := AList.delete (fst (hd (pb_interest b))) (pb_paths b) \<rparr>"
    have "pb_ok (?b\<lparr> pb_interest := [] \<rparr>)"
      using 1(2) by (simp add: pb_ok_def od_all_delete le_trans [OF AList.length_delete_le])
    with 1(1) [OF True] 1(3) True show ?thesis by (simp add: drop_oldest_interest.simps [of b])
  next
    case False
    with 1(2,3) show ?thesis by (simp add: drop_oldest_interest.simps [of b] pb_ok_def)
  qed
qed

lemma note_interest_ok: "pb_ok b \<Longrightarrow> pb_ok (note_interest t stamp b)"
  unfolding note_interest_def by (rule drop_oldest_interest_ok) (simp_all add: pb_ok_def)

lemma warm_loop_ok: "pb_ok b \<Longrightarrow> pb_ok (snd (warm_loop items stamp b))"
proof (induction items arbitrary: b)
  case (Cons i items)
  obtain raw t where i: "i = (raw, t)" by (cases i)
  have "pb_ok (b\<lparr> pb_interest := AList.delete raw (pb_interest b), pb_paths := AList.delete raw (pb_paths b) \<rparr>)"
    using pb_ok_delete [OF pb_ok_interest_delete [OF Cons.prems]] by simp
  with Cons show ?case by (simp add: i case_prod_beta)
qed simp

lemma snoc_absent:
  "k \<notin> fst ` set d \<Longrightarrow> AList.update k v (d @ [(k, w)]) = d @ [(k, v)]"
  "k \<notin> fst ` set d \<Longrightarrow> AList.delete k (d @ [(k, w)]) = d"
  "k \<notin> fst ` set d \<Longrightarrow> map_of (d @ [(k, w)]) k = Some w"
  by (induction d) auto

lemma ensure_path_ok:
  assumes ok: "pb_ok b"
  shows "pb_ok (snd (ensure_path clk t v b))"
proof -
  let ?P = "inner_ok (pb_max_per_target b)"
  have one: "od_trim (pb_max_per_target b) (book @ [(v, new_path clk t v)]) \<noteq> []" for book :: "(bytes, path) odict"
    using ok by (simp add: pb_ok_def od_trim_snoc)
  show ?thesis
  proof (cases "map_of (pb_paths b) t")
    case None
    then have t: "t \<notin> fst ` set (pb_paths b)" by (simp add: map_of_eq_None_iff)
    let ?d = "od_trim (pb_max_targets b - 1) (pb_paths b)"
    have t': "t \<notin> fst ` set ?d" using t set_od_trim [of _ "pb_paths b"] by blast
    have "od_ok ?d" "length ?d < pb_max_targets b" "od_all ?P ?d"
      using ok by (auto simp: pb_ok_def od_all_trim)
    moreover have "snd (ensure_path clk t v b) = b\<lparr> pb_paths :=
        ?d @ [(t, od_trim (pb_max_per_target b) [(v, new_path clk t v)])] \<rparr>"
      using t' by (simp add: ensure_path_def None Let_def od_to_end_def snoc_absent del: map_of_append)
    moreover have "?P t (od_trim (pb_max_per_target b) [(v, new_path clk t v)])"
      using one [of "[]"] by (simp add: od_all_trim new_path_def)
    ultimately show ?thesis using ok t' by (simp add: pb_ok_def)
  next
    case (Some book)
    note inner = inner_ok_book [OF ok Some]
    have t: "t \<in> fst ` set (od_to_end t (pb_paths b))" using Some by (auto simp: od_to_end_def)
    have ok': "pb_ok (b\<lparr> pb_paths := od_to_end t (pb_paths b) \<rparr>)"
      using ok by (simp add: pb_ok_def od_all_to_end)
    show ?thesis
    proof (cases "map_of book v")
      case None
      then have v: "v \<notin> fst ` set book" by (simp add: map_of_eq_None_iff)
      have "?P t (od_trim (pb_max_per_target b) (book @ [(v, new_path clk t v)]))"
        using inner v one [of book] by (auto simp: od_all_trim new_path_def intro!: od_ok_trim)
      with ok' t show ?thesis
        by (simp add: ensure_path_def \<open>map_of (pb_paths b) t = Some book\<close> None Let_def odict_simps pb_ok_def
            length_update_present od_all_update del: length_od_trim)
    qed (use ok' in \<open>simp add: ensure_path_def \<open>map_of (pb_paths b) t = Some book\<close> Let_def odict_simps\<close>)
  qed
qed

lemma book_of_ok:
  assumes "pb_ok b"
  shows "od_ok (book_of b t)" "length (book_of b t) \<le> pb_max_per_target b"
    "od_all (\<lambda>via p. pa_via p = via \<and> pa_target p = t) (book_of b t)"
  using inner_ok_book [OF assms, of t] by (auto split: option.split)

lemma drop_path_ok: "pb_ok b \<Longrightarrow> pb_ok (snd (drop_path t v b))"
proof (cases "map_of (book_of b t) v")
  case (Some p)
  assume ok: "pb_ok b"
  have "t \<in> fst ` set (pb_paths b)" using Some map_of_mem [of "pb_paths b" t] by (auto split: option.splits)
  then have "pb_ok (set_book t (AList.delete v (book_of b t)) b)"
    by (rule set_book_ok [OF ok]) (use book_of_ok [OF ok] in \<open>auto intro: od_all_delete le_trans [OF AList.length_delete_le]\<close>)
  then show ?thesis by (simp add: drop_path_def Some)
qed (simp add: drop_path_def)

lemma set_book_keys: "t' \<noteq> t \<Longrightarrow> t' \<in> fst ` set (pb_paths b) \<Longrightarrow> t' \<in> fst ` set (pb_paths (set_book t book b))"
  by (simp add: set_book_def keys_delete dom_update)

lemma set_book_max [simp]: "pb_max_per_target (set_book t book b) = pb_max_per_target b"
  "pb_shunned (set_book t book b) = pb_shunned b"
  by (simp_all add: set_book_def)

lemma forget_via_loop_ok:
  "pb_ok b \<Longrightarrow> set ts \<subseteq> fst ` set (pb_paths b) \<Longrightarrow> distinct ts \<Longrightarrow> pb_ok (snd (forget_via_loop v ts b))"
proof (induction ts arbitrary: b)
  case (Cons t ts)
  let ?b = "set_book t (AList.delete v (book_of b t)) b"
  have "pb_ok ?b" using Cons.prems(2)
    by (intro set_book_ok [OF Cons.prems(1)])
      (use book_of_ok [OF Cons.prems(1)] in \<open>auto intro: od_all_delete le_trans [OF AList.length_delete_le]\<close>)
  moreover have "set ts \<subseteq> fst ` set (pb_paths ?b)"
  proof
    fix x
    assume "x \<in> set ts"
    with Cons.prems(2,3) have "x \<noteq> t" "x \<in> fst ` set (pb_paths b)" by auto
    then show "x \<in> fst ` set (pb_paths ?b)" by (rule set_book_keys)
  qed
  ultimately show ?case using Cons.IH [of ?b] Cons.prems(3) by (simp add: case_prod_beta)
qed simp

lemma forget_via_ok: "pb_ok b \<Longrightarrow> pb_ok (snd (forget_via v b))"
  unfolding forget_via_def by (rule forget_via_loop_ok) (simp_all add: pb_ok_def)

lemma forget_target_ok: "pb_ok b \<Longrightarrow> pb_ok (forget_target t b)"
  using pb_ok_interest_delete [OF pb_ok_delete] by (simp add: forget_target_def)

lemma shun_ok: "pb_ok b \<Longrightarrow> pb_ok (shun t v now b)"
  by (simp add: pb_ok_def shun_def Let_def od_all_trim od_all_put_last)

lemma shun_simps [simp]:
  "pb_paths (shun t v now b) = pb_paths b" "pb_max_per_target (shun t v now b) = pb_max_per_target b"
  by (simp_all add: shun_def Let_def)

lemma reap_loop_spec:
  "reap_loop t now ps book b = (book', b') \<Longrightarrow> pb_ok b \<Longrightarrow>
     pb_ok b' \<and> pb_paths b' = pb_paths b \<and> pb_max_per_target b' = pb_max_per_target b \<and>
     book' = filter (\<lambda>(v, _). v \<notin> pa_via ` set ps) book"
proof (induction ps arbitrary: book b)
  case Nil
  then show ?case by (auto intro: filter_True [symmetric])
next
  case (Cons p ps)
  from Cons.IH [OF _ shun_ok [OF Cons.prems(2)]] Cons.prems(1)
  have "pb_ok b' \<and> pb_paths b' = pb_paths b \<and> pb_max_per_target b' = pb_max_per_target b \<and>
      book' = filter (\<lambda>(v, _). v \<notin> pa_via ` set ps) (AList.delete (pa_via p) book)" by simp
  then show ?case by (auto simp: AList.delete_eq intro!: filter_cong)
qed

lemma reap_ok:
  assumes ok: "pb_ok b"
  shows "pb_ok (snd (reap t now b))"
proof (cases "book_of b t = []")
  case False
  then have t: "t \<in> fst ` set (pb_paths b)" using map_of_mem [of "pb_paths b" t] by (auto split: option.splits)
  obtain book b1 where r: "reap_loop t now (filter path_dead (map snd (book_of b t))) (book_of b t) b = (book, b1)"
    by (meson surj_pair)
  note spec = reap_loop_spec [OF r ok]
  have "pb_ok (set_book t book b1)"
    using spec t book_of_ok [OF ok, of t]
    by (intro set_book_ok) (auto intro: od_all_filter le_trans [OF length_filter_le])
  with False show ?thesis by (simp add: reap_def r Let_def)
qed (simp add: reap_def ok)

lemma update_path_ok:
  assumes "pb_ok b" "\<And>p. pa_via (f p) = pa_via p" "\<And>p. pa_target (f p) = pa_target p"
  shows "pb_ok (update_path t v f b)"
proof -
  have "od_all (inner_ok (pb_max_per_target b)) (AList.map_entry t (AList.map_entry v f) (pb_paths b))"
    using assms by (intro od_all_map_entry)
      (auto simp: pb_ok_def od_all_map_entry dest: arg_cong [of _ _ length])
  with assms(1) show ?thesis by (simp add: pb_ok_def update_path_def)
qed

subsection \<open>Runs\<close>

datatype book_event =
    BInterest node_id real
  | BWarm real
  | BEnsure real node_id node_id
  | BDrop node_id node_id
  | BForgetVia node_id
  | BForget node_id
  | BReap node_id real
  | BForgive node_id node_id
  | BProbe node_id node_id nat real
  | BAnswer node_id node_id real "nat option" real

fun book_step :: "book_event \<Rightarrow> path_book \<Rightarrow> path_book" where
  "book_step (BInterest t now) b = note_interest t now b"
| "book_step (BWarm now) b = snd (warm now b)"
| "book_step (BEnsure clk t v) b = snd (ensure_path clk t v b)"
| "book_step (BDrop t v) b = snd (drop_path t v b)"
| "book_step (BForgetVia v) b = snd (forget_via v b)"
| "book_step (BForget t) b = forget_target t b"
| "book_step (BReap t now) b = snd (reap t now b)"
| "book_step (BForgive t v) b = forgive_path t v b"
| "book_step (BProbe t v token now) b = update_path t v (path_sent token now) b"
| "book_step (BAnswer t v clk token now) b = update_path t v (\<lambda>p. snd (path_answered clk token now p)) b"

lemma book_step_ok: "pb_ok b \<Longrightarrow> pb_ok (book_step e b)"
proof (cases e)
  case (BForgive t v)
  then show "pb_ok b \<Longrightarrow> ?thesis"
    by (simp add: forgive_path_def pb_ok_def od_all_delete le_trans [OF AList.length_delete_le])
qed (simp_all add: note_interest_ok warm_def warm_loop_ok ensure_path_ok drop_path_ok forget_via_ok
    forget_target_ok reap_ok update_path_ok path_sent_def path_answered_def case_prod_beta)

definition book_bound :: "path_book \<Rightarrow> nat" where
  "book_bound b = pb_max_targets b * pb_max_per_target b"

lemma set_book_bound [simp]: "book_bound (set_book t book b) = book_bound b"
  by (simp add: book_bound_def set_book_def)

lemma interest_bound: "book_bound (drop_oldest_interest b) = book_bound b"
proof (induction b rule: drop_oldest_interest.induct)
  case (1 b)
  then show ?case by (subst drop_oldest_interest.simps) (simp add: book_bound_def)
qed

lemma warm_bound: "book_bound (snd (warm_loop items stamp b)) = book_bound b"
  by (induction items stamp b rule: warm_loop.induct) (auto simp: book_bound_def case_prod_beta)

lemma forget_via_bound: "book_bound (snd (forget_via_loop v ts b)) = book_bound b"
  by (induction ts arbitrary: b) (simp_all add: case_prod_beta)

lemma reap_loop_bound: "book_bound (snd (reap_loop t now ps book b)) = book_bound b"
  by (induction ps arbitrary: book b) (simp_all add: shun_def book_bound_def Let_def)

lemma book_step_bound: "book_bound (book_step e b) = book_bound b"
proof (cases e)
  case (BInterest t now)
  then show ?thesis by (simp add: note_interest_def interest_bound) (simp add: book_bound_def)
next
  case (BEnsure clk t v)
  then show ?thesis by (auto simp: ensure_path_def Let_def book_bound_def split: option.split)
next
  case (BDrop t v)
  then show ?thesis by (auto simp: drop_path_def split: option.split)
qed (simp_all add: warm_def warm_bound forget_via_def forget_via_bound reap_def Let_def case_prod_beta
    reap_loop_bound forgive_path_def update_path_def forget_target_def, simp_all add: book_bound_def)

lemma path_count_bound:
  assumes "pb_ok b"
  shows "path_count b \<le> book_bound b"
proof -
  have "sum_list (map (\<lambda>(_, book). length book) d) \<le> length d * m" if "od_all (inner_ok m) d" for d m
    using that by (induction d) auto
  then have "path_count b \<le> length (pb_paths b) * pb_max_per_target b"
    using assms by (simp add: path_count_def pb_ok_def)
  also have "\<dots> \<le> book_bound b" using assms by (simp add: book_bound_def pb_ok_def)
  finally show ?thesis .
qed

interpretation paths: bounded_book path_count book_bound book_step pb_ok
  by unfold_locales (auto simp: book_step_bound book_step_ok intro: path_count_bound [OF book_step_ok, unfolded book_step_bound])

text \<open>
  A partition that costs every route must not cost memory too. Whatever the node and its peers do,
  the book holds at most \<open>max_targets * max_per_target\<close> paths, at most \<open>max_targets\<close> targets of
  interest and at most 64 shunned first hops.
\<close>
theorem path_book_bounded:
  fixes es :: "book_event list" and m k :: int and ttl :: real
  defines "b \<equiv> fold book_step es (new_path_book m k ttl)"
  shows "path_count b \<le> nat (max 1 m) * nat (max 1 k) \<and> length (pb_interest b) \<le> pb_max_targets b \<and>
    length (pb_shunned b) \<le> 64"
proof -
  have "pb_ok b \<and> path_count b \<le> book_bound (new_path_book m k ttl)"
    unfolding b_def by (rule paths.run_inv) (simp_all add: new_path_book_ok path_count_bound)
  then show ?thesis by (simp add: pb_ok_def MAX_SHUNNED_def book_bound_def new_path_book_def)
qed

subsection \<open>A dead first hop is given up, and remembered\<close>
lemma delete_append: "AList.delete k (a @ b) = AList.delete k a @ AList.delete k b"
  by (simp add: AList.delete_eq)

abbreviation shun_entry :: "node_id \<Rightarrow> real \<Rightarrow> (path \<times> nat) \<Rightarrow> (bytes \<times> bytes) \<times> (nat \<times> real)" where
  "shun_entry t now pn \<equiv> ((t, pa_via (fst pn)), (snd pn, now + shun_delay (snd pn)))"

lemma reap_loop_shuns:
  "reap_loop t now ps book b = (book', b') \<Longrightarrow> distinct (map pa_via (map fst qs @ ps)) \<Longrightarrow>
     length qs + length ps \<le> MAX_SHUNNED \<Longrightarrow> pb_shunned b = X @ map (shun_entry t now) qs \<Longrightarrow>
     list_all (\<lambda>(_, n). 1 \<le> n) qs \<Longrightarrow>
     \<exists>Y ns. pb_shunned b' = Y @ map (shun_entry t now) (qs @ ns) \<and> map fst ns = ps \<and> list_all (\<lambda>(_, n). 1 \<le> n) ns"
proof (induction ps arbitrary: book b X qs)
  case (Cons p ps)
  let ?key = "(t, pa_via p)"
  define n where "n = Suc (case map_of (pb_shunned b) ?key of None \<Rightarrow> 0 | Some (n, _) \<Rightarrow> n)"
  let ?qs = "qs @ [(p, n)]"
  have "?key \<notin> fst ` set (map (shun_entry t now) qs)"
    using Cons.prems(2) by (auto intro: rev_image_eqI)
  then have "od_put_last ?key (n, now + shun_delay n) (pb_shunned b) =
      AList.delete ?key X @ map (shun_entry t now) ?qs"
    unfolding od_put_last_def Cons.prems(4) delete_append by (simp add: delete_absent)
  then have "pb_shunned (shun t (pa_via p) now b) =
      od_trim MAX_SHUNNED (AList.delete ?key X @ map (shun_entry t now) ?qs)"
    by (simp add: shun_def Let_def n_def)
  also have "\<dots> = drop (length (AList.delete ?key X) + length ?qs - MAX_SHUNNED) (AList.delete ?key X) @ map (shun_entry t now) ?qs"
    using Cons.prems(3) by (simp add: od_trim_drop)
  finally obtain X' where X': "pb_shunned (shun t (pa_via p) now b) = X' @ map (shun_entry t now) ?qs" by blast
  obtain Y ns where "pb_shunned b' = Y @ map (shun_entry t now) (?qs @ ns)" "map fst ns = ps" "list_all (\<lambda>(_, n). 1 \<le> n) ns"
  proof -
    have n1: "1 \<le> n" by (simp add: n_def)
    have "reap_loop t now ps (AList.delete (pa_via p) book) (shun t (pa_via p) now b) = (book', b')"
      using Cons.prems(1) by simp
    moreover have "distinct (map pa_via (map fst ?qs @ ps))" using Cons.prems(2) by auto
    moreover have "length ?qs + length ps \<le> MAX_SHUNNED" using Cons.prems(3) by simp
    moreover have "list_all (\<lambda>(_, n). 1 \<le> n) ?qs" using Cons.prems(5) n1 by simp
    ultimately show thesis using Cons.IH [of _ _ ?qs X'] X' that by blast
  qed
  moreover have "1 \<le> n" by (simp add: n_def)
  ultimately show ?case by (intro exI [of _ Y] exI [of _ "(p, n) # ns"]) simp
qed simp

lemma map_of_filter_keys:
  "map_of (filter (\<lambda>(k, _). k \<notin> V) d) k = (if k \<in> V then None else map_of d k)"
  by (induction d) auto

lemma shun_delay_bounds: "60 \<le> shun_delay n \<and> shun_delay n \<le> 900"
proof -
  have "1 \<le> (2::real) ^ min (n - 1) 4" by simp
  then show ?thesis by (simp add: shun_delay_def SHUN_MAX_def SHUN_MIN_def)
qed

text \<open>
  A first hop that stopped answering is given up and stays given up. Reaping a target removes
  exactly its dead paths and reports them; every other path is kept as it was; and each removed
  first hop is refused for that target for at least the next minute and not longer than fifteen, so
  the pass that dropped it cannot be followed by one that opens it again.
\<close>
theorem dead_paths_given_up:
  assumes ok: "pb_ok b" and max: "pb_max_per_target b \<le> 64"
    and r: "reap t now b = (dead, b')"
  shows "dead = filter path_dead (map snd (book_of b t)) \<and>
    (\<forall>v. get_path t v b' = (case get_path t v b of None \<Rightarrow> None | Some p \<Rightarrow> if path_dead p then None else Some p)) \<and>
    (\<forall>p \<in> set dead. \<forall>s. (s < now + 60 \<longrightarrow> shunned t (pa_via p) s b') \<and>
                         (now + 900 \<le> s \<longrightarrow> \<not> shunned t (pa_via p) s b'))"
proof (cases "book_of b t = []")
  case True
  with r show ?thesis by (simp add: reap_def get_path_def)
next
  case False
  let ?book = "book_of b t" and ?dead = "filter path_dead (map snd (book_of b t))"
  note bk = book_of_ok [OF ok, of t]
  obtain book1 b1 where loop: "reap_loop t now ?dead ?book b = (book1, b1)" by (meson surj_pair)
  note spec = reap_loop_spec [OF loop ok]
  have res: "dead = ?dead" "b' = set_book t book1 b1" using r False by (simp_all add: reap_def loop Let_def)
  have via: "pa_via p = v" if "(v, p) \<in> set ?book" for v p using bk(3) that by (auto simp: od_all_def)
  have dead_in: "path_dead p \<and> (pa_via p, p) \<in> set ?book" if "p \<in> set ?dead" for p
  proof -
    from that have d: "path_dead p" and "p \<in> snd ` set ?book"
      by (simp_all only: set_filter set_map mem_Collect_eq)
    then obtain x where "x \<in> set ?book" "p = snd x" by blast
    with via [of "fst x" p] d show ?thesis by (simp only: prod.collapse)
  qed
  have vias: "map pa_via (map snd ?book) = od_keys ?book" unfolding map_map by (rule map_cong) (auto simp: via)
  have dist: "distinct (map pa_via (map fst [] @ ?dead))"
    using bk(1) by (simp add: filter_map o_def flip: vias) (rule distinct_map_filter, simp add: o_def)
  have "length ?dead \<le> 64" 
    using bk(2) max length_filter_le [of path_dead "map snd ?book"] by (simp only: length_map)
  then obtain Y ns where ns: "pb_shunned b1 = Y @ map (shun_entry t now) ns" "map fst ns = ?dead"
    using reap_loop_shuns [OF loop dist, of "pb_shunned b"] by (auto simp: MAX_SHUNNED_def)
  have shun: "\<exists>n. map_of (pb_shunned b') (t, pa_via p) = Some (n, now + shun_delay n)" if p: "p \<in> set ?dead" for p
  proof -
    from p ns(2) obtain n where "(p, n) \<in> set ns" by (metis (no_types, lifting) imageE list.set_map prod.collapse)
    then have "((t, pa_via p), n, now + shun_delay n) \<in> set (pb_shunned b1)" by (force simp: ns(1))
    moreover have "od_ok (pb_shunned b1)" using spec by (simp add: pb_ok_def)
    ultimately show ?thesis by (auto simp: res(2))
  qed
  have b1: "book1 = filter (\<lambda>(v, _). v \<notin> pa_via ` set ?dead) ?book" using spec by blast
  have "map_of book1 v = (case map_of ?book v of None \<Rightarrow> None | Some p \<Rightarrow> if path_dead p then None else Some p)" for v
  proof (cases "map_of ?book v")
    case None
    then show ?thesis unfolding b1 map_of_filter_keys by (simp only: option.case if_cancel)
  next
    case (Some p)
    then have p: "(v, p) \<in> set ?book" by (rule map_of_SomeD)
    have "v \<in> pa_via ` set ?dead \<longleftrightarrow> path_dead p"
    proof
      assume "v \<in> pa_via ` set ?dead"
      then obtain p' where "p' \<in> set ?dead" "v = pa_via p'" by blast
      with dead_in have "(v, p') \<in> set ?book" "path_dead p'" by blast+
      with eq_key_imp_eq_value [OF bk(1) p] show "path_dead p" by blast
    next
      assume "path_dead p"
      moreover have "p \<in> snd ` set ?book" using p by (rule rev_image_eqI) simp
      ultimately have "p \<in> set ?dead" by (simp only: set_filter set_map mem_Collect_eq simp_thms)
      then show "v \<in> pa_via ` set ?dead" using via [OF p] by blast
    qed
    then show ?thesis unfolding b1 map_of_filter_keys Some by (simp only: option.case)
  qed
  moreover have "get_path t v b' = map_of book1 v" for v
    using spec by (simp add: res(2) get_path_def set_book_def odict_simps delete_conv)
  ultimately have "\<forall>v. get_path t v b' = (case get_path t v b of None \<Rightarrow> None | Some p \<Rightarrow> if path_dead p then None else Some p)"
    by (simp add: get_path_def [of _ _ b])
  moreover have "(s < now + 60 \<longrightarrow> shunned t (pa_via p) s b') \<and> (now + 900 \<le> s \<longrightarrow> \<not> shunned t (pa_via p) s b')"
    if "p \<in> set dead" for p s
  proof -
    from that shun [of p] obtain n where "map_of (pb_shunned b') (t, pa_via p) = Some (n, now + shun_delay n)"
      unfolding res(1) by blast
    with shun_delay_bounds [of n] show ?thesis by (simp add: shunned_def)
  qed
  ultimately show ?thesis using res(1) by blast
qed

theorem dead_paths_given_up_witness:
  "\<exists>b. fst (reap [9] 50 b) \<noteq> [] \<and> get_path [9] [1] (snd (reap [9] 50 b)) = None \<and>
     shunned [9] [1] 100 (snd (reap [9] 50 b))"
proof -
  let ?p = "(new_path 0 [9] [1])\<lparr> pa_quality := (new_link_quality 0)\<lparr> lq_since_pong := 3 \<rparr> \<rparr>"
  let ?b = "(new_path_book 16 3 300)\<lparr> pb_paths := [([9], [([1], ?p)])] \<rparr>"
  have ok: "pb_ok ?b" "pb_max_per_target ?b \<le> 64" by (simp_all add: pb_ok_def new_path_book_def new_path_def)
  have dead: "path_dead ?p" by (simp add: path_dead_def DEAD_PROBES_def)
  obtain d b' where r: "reap [9] 50 ?b = (d, b')" by (meson surj_pair)
  note facts = dead_paths_given_up [OF ok r]
  have d: "d = [?p]" using facts dead by simp
  have "get_path [9] [1] b' = None" using facts dead by (simp add: get_path_def)
  moreover have "shunned [9] [1] 100 b'" using facts by (auto simp: d new_path_def)
  ultimately show ?thesis using r d by (intro exI [of _ ?b]) simp
qed

text \<open>
  Losing a link loses its paths and nothing else. After \<open>forget_via\<close> no path to any target goes
  through that first hop, every path through another one is unchanged, and the count returned is
  the number of targets that had a path through it.
\<close>
theorem forget_via_exact:
  assumes ok: "pb_ok b" and f: "forget_via v b = (n, b')"
  shows "(\<forall>t u. get_path t u b' = (if u = v then None else get_path t u b)) \<and>
    n = length (filter (\<lambda>t. get_path t v b \<noteq> None) (od_keys (pb_paths b)))"
proof -
  have set_get: "get_path t u (set_book t' book b) = (if t = t' then map_of book u else get_path t u b)"
    for t u t' book b
    by (simp add: get_path_def set_book_def odict_simps delete_conv)
  have loop: "(\<forall>t u. get_path t u b' = (if u = v \<and> t \<in> set ts then None else get_path t u b)) \<and>
      n = length (filter (\<lambda>t. get_path t v b \<noteq> None) ts)"
    if "forget_via_loop v ts b = (n, b')" "distinct ts" for ts b n
    using that
  proof (induction ts arbitrary: b n)
    case (Cons t ts)
    let ?b = "set_book t (AList.delete v (book_of b t)) b"
    obtain m where m: "forget_via_loop v ts ?b = (m, b')" "n = (case get_path t v b of None \<Rightarrow> 0 | Some _ \<Rightarrow> 1) + m"
      using Cons.prems(1) by (auto simp: Let_def get_path_def split: prod.splits)
    have g: "get_path t' u ?b = (if t' = t \<and> u = v then None else get_path t' u b)" for t' u
      by (simp add: set_get delete_conv) (simp add: get_path_def)
    have "filter (\<lambda>t'. get_path t' v ?b \<noteq> None) ts = filter (\<lambda>t'. get_path t' v b \<noteq> None) ts"
      using Cons.prems(2) by (intro filter_cong) (auto simp: g)
    with Cons.IH [OF m(1)] Cons.prems(2) m(2) show ?case by (auto simp: g split: option.split)
  qed simp
  have "get_path t v b = None" if "t \<notin> set (od_keys (pb_paths b))" for t
    using that by (simp add: get_path_def map_of_eq_None_iff [symmetric])
  then show ?thesis using loop [OF f [unfolded forget_via_def]] ok by (auto simp: pb_ok_def)
qed

theorem forget_via_exact_witness:
  "\<exists>b. fst (forget_via [1] b) = 1"
proof -
  let ?b = "(new_path_book 16 3 300)\<lparr> pb_paths := [([9], [([1], new_path 0 [9] [1])])] \<rparr>"
  have "pb_ok ?b" by (simp add: pb_ok_def new_path_book_def new_path_def)
  from forget_via_exact [OF this, of "[1]" "fst (forget_via [1] ?b)" "snd (forget_via [1] ?b)"]
  show ?thesis by (intro exI [of _ ?b]) (simp add: get_path_def)
qed

text \<open>
  The send path is offered the best measured paths first. The paths to a target are exactly the
  ones held, none lost and none twice, in order of rank: proven before unproven, then the least
  lossy, then the fastest; those worth sending down are the same list without the dead.
\<close>
theorem paths_best_first:
  "mset (paths_to t b) = mset (map snd (book_of b t)) \<and> sorted (map rank (paths_to t b)) \<and>
   sorted (map rank (live_paths t b)) \<and> set (live_paths t b) = {p \<in> set (paths_to t b). \<not> path_dead p}"
  by (auto simp: paths_to_def live_paths_def sorted_filter)

end
