(* ===== verification/Json.thy ===== *)
theory Json
  imports Prelude Complex_Main
begin

text \<open>
  JSON values as \<open>json.loads\<close> returns them, and the pieces of Python's string handling that the
  modules reading them share. A string is a char list (code points below 256); an object is the
  ordered dictionary of its members.
\<close>

datatype json =
    JNull
  | JBool bool
  | JNum real
  | JStr string
  | JArr "json list"
  | JObj "(string, json) odict"

definition json_get :: "string \<Rightarrow> (string, json) odict \<Rightarrow> json" where
  "json_get k d = (case map_of d k of None \<Rightarrow> JNull | Some v \<Rightarrow> v)"

definition json_get_or :: "string \<Rightarrow> json \<Rightarrow> (string, json) odict \<Rightarrow> json" where
  "json_get_or k v d = (case map_of d k of None \<Rightarrow> v | Some v \<Rightarrow> v)"

definition newline :: char where "newline = CHR 0x0A"

text \<open>\<open>str.isprintable\<close> of one character below 256.\<close>

definition printable :: "char \<Rightarrow> bool" where
  "printable c = (let n = of_char c :: nat in (32 \<le> n \<and> n < 127) \<or> (161 \<le> n \<and> n \<noteq> 173))"

text \<open>\<open>str.strip\<close> of a string whose only white space is the blank.\<close>

definition strip_blanks :: "string \<Rightarrow> string" where
  "strip_blanks s = rev (dropWhile (\<lambda>c. c = CHR '' '') (rev (dropWhile (\<lambda>c. c = CHR '' '') s)))"

text \<open>
  \<open>re.match\<close> with \<open>^first rest{0,n}$\<close> for character classes that do not contain the line feed:
  \<open>$\<close> also matches before one line feed at the end of the string.
\<close>

definition before_end :: "string \<Rightarrow> string" where
  "before_end s = (if s \<noteq> [] \<and> last s = newline then butlast s else s)"

definition is_lower :: "char \<Rightarrow> bool" where
  "is_lower c = (let n = of_char c :: nat in 97 \<le> n \<and> n \<le> 122)"

definition is_digit :: "char \<Rightarrow> bool" where
  "is_digit c = (let n = of_char c :: nat in 48 \<le> n \<and> n \<le> 57)"

definition is_upper :: "char \<Rightarrow> bool" where
  "is_upper c = (let n = of_char c :: nat in 65 \<le> n \<and> n \<le> 90)"

definition word_class :: "char \<Rightarrow> bool" where
  "word_class c \<longleftrightarrow> is_lower c \<or> is_digit c \<or> c = CHR ''_''"

definition word_of_class :: "string \<Rightarrow> bool" where
  "word_of_class s = (case s of [] \<Rightarrow> False | c # cs \<Rightarrow> is_lower c \<and> list_all word_class cs \<and> length cs \<le> 31)"

lemma word_of_class_no_newline: "word_of_class s \<Longrightarrow> newline \<notin> set s"
  by (cases s) (auto simp: word_of_class_def newline_def word_class_def is_lower_def is_digit_def list_all_iff)

end
