(* ===== verification/AppPerms.thy ===== *)
theory AppPerms
  imports Json "HOL-Library.Product_Lexorder" "HOL-Library.List_Lexorder" "HOL-Library.Char_ord"
begin

text \<open>
  What an app may do on the node (\<open>src/app_perms.py\<close>): the tree of permissions, the manifest an
  app asks with, the \<open>PermissionBook\<close> that records what was asked and what a human granted, and the
  \<open>ControlGate\<close> the control plane asks before it answers an app.

  Names are strings. \<open>json.loads\<close> (parameter \<open>loads\<close>), the plane's and the app API's lookups and
  the text of a value that is no string are parameters. A \<open>ManifestError\<close> is the left side of
  a result and carries its message. Reading and writing the file itself is not modelled; what is
  kept of a document read from it is (\<open>book_load\<close>). The fields a page only displays (titles
  and descriptions of the tree) are left out.
\<close>

section \<open>The tree\<close>

datatype level = NORMAL | SENSITIVE | DANGEROUS

datatype perm = Perm (pm_name: string) (pm_level: level) (pm_children: "perm list")

definition PERMISSIONS :: "perm list" where
  "PERMISSIONS =
    [Perm ''network'' NORMAL [], Perm ''storage'' NORMAL [], Perm ''dht'' NORMAL [],
     Perm ''names'' NORMAL [], Perm ''identity'' NORMAL [], Perm ''log'' NORMAL [],
     Perm ''notify'' NORMAL [], Perm ''report'' NORMAL [],
     Perm ''readstate'' SENSITIVE
       [Perm ''readstate.node'' SENSITIVE [], Perm ''readstate.links'' SENSITIVE [],
        Perm ''readstate.logs'' SENSITIVE [], Perm ''readstate.alerts'' SENSITIVE [],
        Perm ''readstate.trace'' SENSITIVE [], Perm ''readstate.config'' SENSITIVE [],
        Perm ''readstate.trust'' SENSITIVE [], Perm ''readstate.updates'' SENSITIVE [],
        Perm ''readstate.apps'' SENSITIVE []],
     Perm ''contacts'' SENSITIVE
       [Perm ''contacts.read'' SENSITIVE [], Perm ''contacts.write'' SENSITIVE []],
     Perm ''control'' DANGEROUS
       [Perm ''control.node'' DANGEROUS [], Perm ''control.network'' DANGEROUS [],
        Perm ''control.config'' DANGEROUS [], Perm ''control.diagnostics'' DANGEROUS [],
        Perm ''control.trust'' DANGEROUS [], Perm ''control.updates'' DANGEROUS [],
        Perm ''control.apps'' DANGEROUS [], Perm ''control.appweb'' DANGEROUS []],
     Perm ''modding'' DANGEROUS []]"

text \<open>\<open>_index\<close>: the tree flattened, each entry with its parent.\<close>

fun walk :: "string option \<Rightarrow> perm \<Rightarrow> (string, perm \<times> string option) odict" where
  "walk parent (Perm n l cs) = (n, Perm n l cs, parent) # concat (map (walk (Some n)) cs)"

definition BY_NAME :: "(string, perm \<times> string option) odict" where
  "BY_NAME = concat (map (walk None) PERMISSIONS)"

definition NAMES :: "string list" where
  "NAMES = od_keys BY_NAME"

definition known_perm :: "string \<Rightarrow> bool" where
  "known_perm name = (case map_of BY_NAME name of None \<Rightarrow> False | Some _ \<Rightarrow> True)"

definition perm_level :: "string \<Rightarrow> level" where
  "perm_level name = (case map_of BY_NAME name of None \<Rightarrow> DANGEROUS | Some (p, _) \<Rightarrow> pm_level p)"

definition perm_parent :: "string \<Rightarrow> string option" where
  "perm_parent name = (case map_of BY_NAME name of None \<Rightarrow> None | Some (_, up) \<Rightarrow> up)"

definition perm_children :: "string \<Rightarrow> string list" where
  "perm_children name = (case map_of BY_NAME name of None \<Rightarrow> [] | Some (p, _) \<Rightarrow> map pm_name (pm_children p))"

definition perm_closure :: "string list \<Rightarrow> string set" where
  "perm_closure names =
     foldl (\<lambda>out name. if known_perm name then insert name out \<union> set (perm_children name) else out) {} names"

section \<open>What an operation of the control plane needs\<close>

definition MODULE_SCOPE :: "(string \<times> string \<times> string) list" where
  "MODULE_SCOPE =
    [(''node'', ''readstate.node'', ''control.node''), (''pseudo'', ''readstate.node'', ''control.node''),
     (''network'', ''readstate.node'', ''control.network''), (''config'', ''readstate.config'', ''control.config''),
     (''transports'', ''readstate.config'', ''control.config''), (''trace'', ''readstate.trace'', ''control.diagnostics''),
     (''logs'', ''readstate.logs'', ''control.diagnostics''), (''alerts'', ''readstate.alerts'', ''control.diagnostics''),
     (''trust'', ''readstate.trust'', ''control.trust''), (''join'', ''readstate.trust'', ''control.trust''),
     (''keys'', ''readstate.trust'', ''control.updates''), (''releases'', ''readstate.updates'', ''control.updates''),
     (''packages'', ''readstate.updates'', ''control.updates''), (''store'', ''readstate.updates'', ''control.updates''),
     (''transfer'', ''readstate.updates'', ''control.updates''), (''apps'', ''readstate.apps'', ''control.apps''),
     (''web'', ''readstate.apps'', ''control.appweb'')]"

definition OPEN_TO_APPS :: "string list" where
  "OPEN_TO_APPS = [''control.catalogue'', ''control.changes'', ''jobs.poll'', ''jobs.list'', ''jobs.forget'']"

definition OPERATOR_ONLY :: "string list" where
  "OPERATOR_ONLY = [''apps.grant'', ''apps.permit'', ''apps.token'', ''apps.forget'']"

definition NOT_MODDABLE_MODULES :: "string list" where
  "NOT_MODDABLE_MODULES = [''apps'', ''control'', ''jobs'', ''web'']"

definition module_of :: "string \<Rightarrow> string" where
  "module_of op = takeWhile (\<lambda>c. c \<noteq> CHR ''.'') op"

text \<open>\<open>required\<close>: \<open>None\<close> for an operation no app may call, the empty name for an open one.\<close>

definition required :: "string \<Rightarrow> bool \<Rightarrow> string option" where
  "required op changes =
     (if op \<in> set OPERATOR_ONLY then None
      else if op \<in> set OPEN_TO_APPS then Some []
      else (case map_of MODULE_SCOPE (module_of op) of
              None \<Rightarrow> None
            | Some (reads, drives) \<Rightarrow> Some (if changes then drives else reads)))"

definition moddable :: "string \<Rightarrow> bool" where
  "moddable op \<longleftrightarrow> length (filter (\<lambda>c. c = CHR ''.'') op) = 1 \<and>
     module_of op \<notin> set NOT_MODDABLE_MODULES \<and> op \<notin> set OPERATOR_ONLY"

section \<open>The manifest\<close>

definition MAX_APPS :: nat where "MAX_APPS = 64"
definition MAX_MANIFEST :: nat where "MAX_MANIFEST = 32 * 1024"
definition MAX_REQUESTS :: nat where "MAX_REQUESTS = 32"
definition MAX_WHY :: nat where "MAX_WHY = 200"
definition MAX_TITLE :: nat where "MAX_TITLE = 60"
definition MAX_DESCRIPTION :: nat where "MAX_DESCRIPTION = 400"
definition MAX_API :: nat where "MAX_API = 32"

definition name_re :: "string \<Rightarrow> bool" where
  "name_re s = word_of_class (before_end s)"

definition perm_re :: "string \<Rightarrow> bool" where
  "perm_re s =
     (let t = before_end s; a = takeWhile (\<lambda>c. c \<noteq> CHR ''.'') t; b = dropWhile (\<lambda>c. c \<noteq> CHR ''.'') t
      in word_of_class a \<and> (b = [] \<or> word_of_class (tl b)))"

definition hex_digit :: "char \<Rightarrow> bool" where
  "hex_digit c \<longleftrightarrow> is_digit c \<or> (let n = of_char c :: nat in 97 \<le> n \<and> n \<le> 102)"

definition hex_re :: "string \<Rightarrow> bool" where
  "hex_re s =
     (let t = before_end s in
      length t = 16 \<and> list_all hex_digit t)"

definition version_re :: "string \<Rightarrow> bool" where
  "version_re s =
     (let t = before_end s in
      1 \<le> length t \<and> length t \<le> 32 \<and>
      list_all (\<lambda>c. is_digit c \<or> is_upper c \<or> is_lower c \<or> c \<in> set ''.+_-'') t)"

definition json_text :: "json \<Rightarrow> nat \<Rightarrow> string" where
  "json_text v limit =
     (case v of JStr s \<Rightarrow> take limit (strip_blanks (filter printable s)) | _ \<Rightarrow> [])"

record manifest =
  mf_name :: string
  mf_title :: string
  mf_version :: string
  mf_description :: string
  mf_permissions :: "(string \<times> string) list"
  mf_api :: "(string, json) odict list"

datatype raw_manifest = RawBytes "nat list" | RawText string | RawValue json

type_synonym 'a manifest_result = "string + 'a"

text \<open>The loop over the permissions asked for: kept, unknown and seen so far.\<close>

fun parse_perms :: "json list \<Rightarrow> (string \<times> string) list \<Rightarrow> string list \<Rightarrow> string list
    \<Rightarrow> ((string \<times> string) list \<times> string list) manifest_result" where
  "parse_perms [] permissions unknown seen = Inr (permissions, unknown)"
| "parse_perms (item # items) permissions unknown seen =
     (case (case item of JStr s \<Rightarrow> JObj [(''name'', JStr s)] | v \<Rightarrow> v) of
        JObj d \<Rightarrow>
          (case json_get ''name'' d of
             JStr perm \<Rightarrow>
               (if \<not> perm_re perm then Inl ''permissions: not a permission name''
                else if \<not> known_perm perm then parse_perms items permissions (unknown @ [perm]) seen
                else if perm \<in> set seen then parse_perms items permissions unknown seen
                else parse_perms items (permissions @ [(perm, json_text (json_get ''why'' d) MAX_WHY)])
                       unknown (perm # seen))
           | _ \<Rightarrow> Inl ''permissions: not a permission name'')
      | _ \<Rightarrow> Inl ''permissions: each is a name or {name, why}'')"

fun join_names :: "string list \<Rightarrow> string" where
  "join_names [] = []"
| "join_names [x] = x"
| "join_names (x # xs) = x @ '', '' @ join_names xs"

definition parse_object :: "(string, json) odict \<Rightarrow> manifest manifest_result" where
  "parse_object raw =
     (case json_get ''name'' raw of
        JStr name \<Rightarrow>
          (if \<not> name_re name then Inl ''name: lowercase letters, digits and _, at most 32''
           else
             (let version = (case json_get_or ''version'' (JStr []) raw of
                               JStr v \<Rightarrow> if version_re v then v else [] | _ \<Rightarrow> [])
              in case json_get_or ''permissions'' (JArr []) raw of
                   JArr asked \<Rightarrow>
                     (if MAX_REQUESTS < length asked then Inl ''permissions: at most 32''
                      else case parse_perms asked [] [] [] of
                             Inl e \<Rightarrow> Inl e
                           | Inr (permissions, unknown) \<Rightarrow>
                               (if unknown \<noteq> []
                                then Inl (''unknown permission: '' @ take 200 (join_names (sort unknown)))
                                else case json_get_or ''api'' (JArr []) raw of
                                       JArr api \<Rightarrow>
                                         (if MAX_API < length api then Inl ''api: a list of at most 32''
                                          else
                                            (let title = json_text (json_get ''title'' raw) MAX_TITLE in
                                             Inr \<lparr> mf_name = name, mf_title = (if title = [] then name else title),
                                                   mf_version = version,
                                                   mf_description = json_text (json_get ''description'' raw) MAX_DESCRIPTION,
                                                   mf_permissions = permissions,
                                                   mf_api = concat (map (\<lambda>v. case v of JObj d \<Rightarrow> [d] | _ \<Rightarrow> []) api) \<rparr>))
                                     | _ \<Rightarrow> Inl ''api: a list of at most 32''))
                 | _ \<Rightarrow> Inl ''permissions: a list''))
      | _ \<Rightarrow> Inl ''name: lowercase letters, digits and _, at most 32'')"

definition parse_manifest ::
  "(nat list \<Rightarrow> json option) \<Rightarrow> (string \<Rightarrow> json option) \<Rightarrow> raw_manifest \<Rightarrow> manifest manifest_result" where
  "parse_manifest loads_bytes loads_text raw =
     (let too_large = (case raw of RawBytes b \<Rightarrow> MAX_MANIFEST < length b
                                 | RawText s \<Rightarrow> MAX_MANIFEST < length s | RawValue _ \<Rightarrow> False);
          value = (case raw of RawBytes b \<Rightarrow> loads_bytes b | RawText s \<Rightarrow> loads_text s | RawValue v \<Rightarrow> Some v)
      in if too_large then Inl ''manifest too large''
         else case value of
                None \<Rightarrow> Inl ''manifest is not JSON''
              | Some (JObj d) \<Rightarrow> parse_object d
              | Some _ \<Rightarrow> Inl ''a manifest is an object'')"

section \<open>The book\<close>

record app_entry =
  ae_manifest :: "manifest option"
  ae_grants :: "(string, bool) odict"
  ae_source :: string
  ae_seen :: real

record perm_book =
  pk_apps :: "(string, app_entry) odict"
  pk_fixed :: "string set"

definition new_book :: perm_book where
  "new_book = \<lparr> pk_apps = [], pk_fixed = {} \<rparr>"

text \<open>What \<open>_load\<close> keeps of a document.\<close>

fun load_apps :: "(json \<Rightarrow> manifest manifest_result) \<Rightarrow> (string \<times> json) list
    \<Rightarrow> (string, app_entry) odict \<Rightarrow> (string, app_entry) odict" where
  "load_apps parse [] apps = apps"
| "load_apps parse ((app_hex, stored) # items) apps =
     (case stored of
        JObj d \<Rightarrow>
          (if \<not> hex_re app_hex then load_apps parse items apps
           else
             (let grants = (case json_get ''grants'' d of JObj g \<Rightarrow> g | _ \<Rightarrow> []);
                  source = json_text (json_get ''source'' d) 16;
                  entry = \<lparr> ae_manifest = (case parse (json_get ''manifest'' d) of Inl _ \<Rightarrow> None | Inr m \<Rightarrow> Some m),
                            ae_grants = concat (map (\<lambda>(name, v). case v of
                                JBool b \<Rightarrow> if known_perm name then [(name, b)] else [] | _ \<Rightarrow> []) grants),
                            ae_source = (if source = [] then ''connector'' else source),
                            ae_seen = (case json_get ''seen'' d of JNum x \<Rightarrow> x | JBool b \<Rightarrow> (if b then 1 else 0) | _ \<Rightarrow> 0) \<rparr>
              in load_apps parse items (AList.update app_hex entry apps)))
      | _ \<Rightarrow> load_apps parse items apps)"

definition book_load :: "(json \<Rightarrow> manifest manifest_result) \<Rightarrow> json \<Rightarrow> perm_book" where
  "book_load parse document =
     (case document of
        JObj doc \<Rightarrow> (case json_get ''apps'' doc of
                      JObj apps \<Rightarrow> new_book\<lparr> pk_apps := load_apps parse (take MAX_APPS apps) [] \<rparr>
                    | _ \<Rightarrow> new_book)
      | _ \<Rightarrow> new_book)"

definition requested :: "perm_book \<Rightarrow> string \<Rightarrow> string set" where
  "requested b app_hex =
     (case map_of (pk_apps b) app_hex of
        None \<Rightarrow> {}
      | Some entry \<Rightarrow> (case ae_manifest entry of
                        None \<Rightarrow> {} | Some m \<Rightarrow> perm_closure (map fst (mf_permissions m))))"

definition make_room_for_app :: "perm_book \<Rightarrow> perm_book" where
  "make_room_for_app b =
     (if length (pk_apps b) < MAX_APPS then b
      else
        (let candidates = concat (map (\<lambda>(app_hex, entry).
               if app_hex \<in> pk_fixed b then []
               else [(list_ex snd (ae_grants entry), ae_seen entry, app_hex)]) (pk_apps b))
         in if candidates = [] then b
            else b\<lparr> pk_apps := AList.delete (snd (snd (fold min (tl candidates) (hd candidates)))) (pk_apps b) \<rparr>))"

definition declare_app ::
  "real \<Rightarrow> string \<Rightarrow> manifest manifest_result \<Rightarrow> string \<Rightarrow> bool \<Rightarrow> perm_book \<Rightarrow> perm_book manifest_result" where
  "declare_app clk app_hex parsed source fixed b =
     (if \<not> hex_re app_hex then Inl ''not an app id''
      else case parsed of
             Inl e \<Rightarrow> Inl e
           | Inr m \<Rightarrow>
               (let (entry, b) =
                      (case map_of (pk_apps b) app_hex of
                         Some entry \<Rightarrow> (entry, b)
                       | None \<Rightarrow>
                           (let b = make_room_for_app b;
                                entry = \<lparr> ae_manifest = None, ae_grants = [], ae_source = source, ae_seen = 0 \<rparr>
                            in (entry, b\<lparr> pk_apps := AList.update app_hex entry (pk_apps b) \<rparr>)))
                in if app_hex \<in> pk_fixed b \<and> \<not> fixed then Inr b
                   else
                     (let wanted = perm_closure (map fst (mf_permissions m));
                          entry = entry\<lparr> ae_manifest := Some m, ae_source := source, ae_seen := clk,
                                         ae_grants := filter (\<lambda>(name, _). name \<in> wanted) (ae_grants entry) \<rparr>
                      in Inr (b\<lparr> pk_apps := AList.update app_hex entry (pk_apps b),
                                pk_fixed := (if fixed then insert app_hex (pk_fixed b) else pk_fixed b) \<rparr>))))"

definition forget_app :: "string \<Rightarrow> perm_book \<Rightarrow> bool \<times> perm_book" where
  "forget_app app_hex b =
     (case map_of (pk_apps b) app_hex of
        None \<Rightarrow> (False, b)
      | Some _ \<Rightarrow> (if app_hex \<in> pk_fixed b then (False, b)
                    else (True, b\<lparr> pk_apps := AList.delete app_hex (pk_apps b) \<rparr>)))"

definition set_grant :: "string \<Rightarrow> string \<Rightarrow> bool \<Rightarrow> perm_book \<Rightarrow> bool \<times> perm_book" where
  "set_grant app_hex name granted b =
     (case map_of (pk_apps b) app_hex of
        None \<Rightarrow> (False, b)
      | Some entry \<Rightarrow>
          (if name \<notin> requested b app_hex then (False, b)
           else
             (let grants = AList.update name granted (ae_grants entry);
                  grants = (if granted then grants
                            else foldl (\<lambda>g child. if map_of g child = Some True then AList.update child False g else g)
                                   grants (perm_children name))
              in (True, b\<lparr> pk_apps := AList.update app_hex (entry\<lparr> ae_grants := grants \<rparr>) (pk_apps b) \<rparr>))))"

definition grants_of :: "perm_book \<Rightarrow> string \<Rightarrow> (string, bool) odict" where
  "grants_of b app_hex = (case map_of (pk_apps b) app_hex of None \<Rightarrow> [] | Some entry \<Rightarrow> ae_grants entry)"

definition allows :: "perm_book \<Rightarrow> string \<Rightarrow> string \<Rightarrow> bool \<Rightarrow> bool" where
  "allows b app_hex name identified =
     (if \<not> known_perm name then False
      else
        (let grants = grants_of b app_hex;
             m = (case map_of (pk_apps b) app_hex of None \<Rightarrow> None | Some entry \<Rightarrow> ae_manifest entry)
         in if perm_level name = NORMAL
            then (if map_of grants name = Some False then False
                  else (case m of None \<Rightarrow> True | Some _ \<Rightarrow> name \<in> requested b app_hex))
            else if \<not> identified then False
            else if map_of grants name = Some True then True
            else (case perm_parent name of None \<Rightarrow> False | Some up \<Rightarrow> map_of grants up = Some True)))"

definition allows_any :: "perm_book \<Rightarrow> string \<Rightarrow> string list \<Rightarrow> bool \<Rightarrow> bool" where
  "allows_any b app_hex names identified = list_ex (\<lambda>name. allows b app_hex name identified) names"

definition granted :: "perm_book \<Rightarrow> string \<Rightarrow> string list" where
  "granted b app_hex = sort (filter (\<lambda>name. allows b app_hex name True) NAMES)"

section \<open>The gate of the control plane\<close>

definition DRIVING :: "string list" where
  "DRIVING = [''readstate'', ''control'', ''contacts''] @
     concat (map perm_children [''readstate'', ''control'', ''contacts''])"

text \<open>An operation another app declared: the permission it names, if any, and whether it changes state.\<close>

record app_op =
  ao_permission :: "string option"
  ao_changes :: bool

definition app_call_need :: "app_op \<Rightarrow> string" where
  "app_call_need d =
     (case ao_permission d of
        Some named \<Rightarrow> if known_perm named then named else if ao_changes d then ''control.apps'' else ''readstate.apps''
      | None \<Rightarrow> if ao_changes d then ''control.apps'' else ''readstate.apps'')"

text \<open>
  The lookups a gate was given: \<open>plane\<close> finds an operation of the control plane and tells whether it
  changes state, \<open>app_op\<close> one of another app (\<open>None\<close> when there is none or the lookup raises);
  \<open>text_of\<close> is \<open>str(value or "")\<close>.
\<close>

record gate_env =
  ge_plane :: "(string \<Rightarrow> bool option) option"
  ge_app_op :: "(string \<Rightarrow> string \<Rightarrow> app_op option) option"
  ge_text_of :: "json \<Rightarrow> string"

datatype refusal =
    OperatorOnly string
  | NotOpen string
  | Needs string string
  | MayNotDrive
  | NestedJob
  | MayNotCall
  | CallNeeds string

definition carried_app_call :: "gate_env \<Rightarrow> perm_book \<Rightarrow> string \<Rightarrow> (string, json) odict option \<Rightarrow> refusal option" where
  "carried_app_call ge b app_hex params =
     (case (case params of None \<Rightarrow> None | Some d \<Rightarrow> (case map_of d ''app'' of None \<Rightarrow> None | Some _ \<Rightarrow> Some d)) of
        None \<Rightarrow>
          (if allows_any b app_hex [''readstate.apps'', ''control.apps'', ''contacts.read'', ''contacts.write''] True
           then None else Some MayNotCall)
      | Some d \<Rightarrow>
          (case (case ge_app_op ge of None \<Rightarrow> None
                 | Some look \<Rightarrow> look (ge_text_of ge (json_get ''app'' d)) (ge_text_of ge (json_get ''op'' d))) of
             None \<Rightarrow> None
           | Some declared \<Rightarrow>
               (if allows b app_hex (app_call_need declared) True then None
                else Some (CallNeeds (app_call_need declared)))))"

text \<open>
  \<open>_carried_job\<close> and \<open>_refusal\<close>. \<open>inner\<close> answers for the operation a job carries; it is absent one
  level down (depth 1 in the code), where a job may not start another.
\<close>

type_synonym inner_gate = "string \<Rightarrow> bool \<Rightarrow> (string, json) odict \<Rightarrow> refusal option"

definition carried_job ::
  "inner_gate option \<Rightarrow> gate_env \<Rightarrow> perm_book \<Rightarrow> string \<Rightarrow> (string, json) odict option \<Rightarrow> refusal option" where
  "carried_job inner ge b app_hex params =
     (case (case params of None \<Rightarrow> None | Some d \<Rightarrow> (case map_of d ''op'' of None \<Rightarrow> None | Some _ \<Rightarrow> Some d)) of
        None \<Rightarrow> if allows_any b app_hex DRIVING True then None else Some MayNotDrive
      | Some d \<Rightarrow>
          (case (inner, ge_plane ge) of
             (Some answer, Some look) \<Rightarrow>
               (case json_get ''op'' d of
                  JStr target \<Rightarrow>
                    (case look target of
                       None \<Rightarrow> None
                     | Some changes \<Rightarrow> answer target changes (case json_get ''params'' d of JObj p \<Rightarrow> p | _ \<Rightarrow> []))
                | _ \<Rightarrow> None)
           | _ \<Rightarrow> Some NestedJob))"

definition refusal_with ::
  "inner_gate option \<Rightarrow> gate_env \<Rightarrow> perm_book \<Rightarrow> string \<Rightarrow> string \<Rightarrow> bool \<Rightarrow> (string, json) odict option
     \<Rightarrow> refusal option" where
  "refusal_with inner ge b app_hex op changes params =
     (if op \<in> set OPERATOR_ONLY then Some (OperatorOnly op)
      else if op = ''jobs.start'' then carried_job inner ge b app_hex params
      else if op = ''apps.call'' then carried_app_call ge b app_hex params
      else case required op changes of
             None \<Rightarrow> Some (NotOpen op)
           | Some need \<Rightarrow> if need = [] \<or> allows b app_hex need True then None else Some (Needs op need))"

definition gate_refusal ::
  "gate_env \<Rightarrow> perm_book \<Rightarrow> string \<Rightarrow> string \<Rightarrow> bool \<Rightarrow> (string, json) odict option \<Rightarrow> refusal option" where
  "gate_refusal ge b app_hex =
     refusal_with (Some (\<lambda>op changes params. refusal_with None ge b app_hex op changes (Some params))) ge b app_hex"

section \<open>Facts of the tree\<close>
lemma perm_tree_facts:
  "list_all (\<lambda>(n, p, up). case up of None \<Rightarrow> True | Some u \<Rightarrow>
      known_perm u \<and> n \<in> set (perm_children u) \<and> perm_level u \<noteq> NORMAL \<and> perm_level n \<noteq> NORMAL \<and> perm_parent u = None) BY_NAME"
  by code_simp

lemma perm_child_facts:
  "list_all (\<lambda>(n, p, up). list_all (\<lambda>c. known_perm c \<and> perm_parent c = Some n) (map pm_name (pm_children p))) BY_NAME"
  by code_simp

lemma parent_child: "perm_parent n = Some up \<Longrightarrow> known_perm up \<and> n \<in> set (perm_children up) \<and> perm_parent up = None"
  using perm_tree_facts by (fastforce simp: perm_parent_def list_all_iff split: option.splits dest: map_of_SomeD)

lemma child_parent: "c \<in> set (perm_children n) \<Longrightarrow> known_perm c \<and> perm_parent c = Some n"
proof -
  assume c: "c \<in> set (perm_children n)"
  obtain p up where p: "map_of BY_NAME n = Some (p, up)" "c \<in> set (map pm_name (pm_children p))"
  proof (cases "map_of BY_NAME n")
    case (Some x)
    obtain p up where "x = (p, up)" by (cases x)
    with Some c that show thesis by (simp add: perm_children_def)
  qed (use c in \<open>simp add: perm_children_def\<close>)
  show ?thesis
    using bspec [OF perm_child_facts [unfolded list_all_iff] map_of_SomeD [OF p(1)]] p(2) by auto
qed

lemma perm_closure_iff:
  "x \<in> perm_closure ns \<longleftrightarrow> (\<exists>n \<in> set ns. known_perm n \<and> (x = n \<or> x \<in> set (perm_children n)))"
proof -
  let ?f = "\<lambda>out name. if known_perm name then insert name out \<union> set (perm_children name) else out"
  have "x \<in> foldl ?f out ns \<longleftrightarrow> x \<in> out \<or> (\<exists>n \<in> set ns. known_perm n \<and> (x = n \<or> x \<in> set (perm_children n)))" for out
    by (induction ns arbitrary: out) auto
  then show ?thesis by (simp add: perm_closure_def)
qed

text \<open>The closure covers the children of everything in it: the tree has two levels.\<close>
lemma perm_closure_children:
  "up \<in> perm_closure ns \<Longrightarrow> perm_parent n = Some up \<Longrightarrow> n \<in> perm_closure ns"
  using parent_child [of n up] child_parent [of up] by (fastforce simp: perm_closure_iff)

section \<open>Runs of the book\<close>

datatype book_op =
    PDeclare real string "manifest manifest_result" string bool
  | PGrant string string bool
  | PForget string

fun perm_step :: "book_op \<Rightarrow> perm_book \<Rightarrow> perm_book" where
  "perm_step (PDeclare clk a parsed source fixed) b =
     (case declare_app clk a parsed source fixed b of Inl _ \<Rightarrow> b | Inr b \<Rightarrow> b)"
| "perm_step (PGrant a name g) b = snd (set_grant a name g b)"
| "perm_step (PForget a) b = snd (forget_app a b)"

definition asked :: "app_entry \<Rightarrow> string set" where
  "asked e = (case ae_manifest e of None \<Rightarrow> {} | Some m \<Rightarrow> perm_closure (map fst (mf_permissions m)))"

definition book_ok :: "perm_book \<Rightarrow> bool" where
  "book_ok b \<longleftrightarrow> od_all (\<lambda>_ e. fst ` set (ae_grants e) \<subseteq> asked e) (pk_apps b)"

lemma new_book_ok: "book_ok new_book"
  by (simp add: book_ok_def new_book_def)

lemma requested_asked: "map_of (pk_apps b) a = Some e \<Longrightarrow> requested b a = asked e"
  by (simp add: requested_def asked_def split: option.split)

lemma make_room_apps: "set (pk_apps (make_room_for_app b)) \<subseteq> set (pk_apps b)"
  by (auto simp: make_room_for_app_def Let_def AList.delete_eq)

lemma make_room_book_ok: "book_ok b \<Longrightarrow> book_ok (make_room_for_app b)"
  using make_room_apps [of b] by (auto simp: book_ok_def od_all_def)

lemma revoke_children_keys:
  "fst ` set (foldl (\<lambda>g c. if map_of g c = Some True then AList.update c False g else g) g cs) = fst ` set g"
proof (induction cs arbitrary: g)
  case (Cons c cs)
  have "fst ` set (AList.update c False g) = fst ` set g" if "map_of g c = Some True"
    using that map_of_SomeD [of g c True] by (auto simp: dom_update intro: rev_image_eqI)
  with Cons show ?case by simp
qed simp

lemma perm_step_ok:
  assumes ok: "book_ok b"
  shows "book_ok (perm_step e b)"
proof (cases e)
  case (PDeclare clk a parsed source fixed)
  show ?thesis
  proof (cases "\<not> hex_re a \<or> (\<exists>x. parsed = Inl x)")
    case True
    then show ?thesis using PDeclare ok by (auto simp: declare_app_def)
  next
    case False
    then obtain m where m: "parsed = Inr m" "hex_re a" by (cases parsed) auto
    show ?thesis
      using ok PDeclare m make_room_book_ok [OF ok]
      by (cases "map_of (pk_apps b) a")
        (auto simp: declare_app_def Let_def book_ok_def asked_def intro!: od_all_update)
  qed
next
  case (PGrant a name g)
  show ?thesis
  proof (cases "map_of (pk_apps b) a")
    case None
    then show ?thesis using PGrant ok by (simp add: set_grant_def)
  next
    case (Some x)
    have x: "fst ` set (ae_grants x) \<subseteq> asked x" using ok Some od_allD by (fastforce simp: book_ok_def)
    show ?thesis
    proof (cases "name \<in> requested b a")
      case True
      then have "name \<in> asked x" by (simp add: requested_asked [OF Some])
      with x have keys: "fst ` set (AList.update name g (ae_grants x)) \<subseteq> asked x" by (simp add: dom_update)
      define gs where "gs = (if g then AList.update name g (ae_grants x)
        else foldl (\<lambda>g c. if map_of g c = Some True then AList.update c False g else g)
          (AList.update name g (ae_grants x)) (perm_children name))"
      have "fst ` set gs \<subseteq> asked (x\<lparr> ae_grants := gs \<rparr>)"
        using keys by (cases g) (simp_all add: gs_def revoke_children_keys asked_def)
      moreover have "perm_step e b = b\<lparr> pk_apps := AList.update a (x\<lparr> ae_grants := gs \<rparr>) (pk_apps b) \<rparr>"
        using PGrant Some True by (simp add: set_grant_def Let_def gs_def)
      ultimately show ?thesis using ok by (simp only: book_ok_def) (simp add: od_all_update)
    qed (use PGrant Some ok in \<open>simp add: set_grant_def\<close>)
  qed
next
  case (PForget a)
  then show ?thesis using ok by (auto simp: forget_app_def book_ok_def od_all_delete split: option.split)
qed

lemma perm_run_ok: "book_ok b \<Longrightarrow> book_ok (fold perm_step es b)"
  by (induction es arbitrary: b) (simp_all add: perm_step_ok)

subsection \<open>A grant is made by a human or not at all\<close>
lemma grants_make_room:
  "map_of (grants_of (make_room_for_app b) a) n = Some v \<Longrightarrow> map_of (grants_of b a) n = Some v"
  by (auto simp: make_room_for_app_def grants_of_def Let_def delete_conv split: if_splits option.splits)

lemma map_of_filter_set: "map_of (filter (\<lambda>(k, _). k \<in> V) d) k = (if k \<in> V then map_of d k else None)"
  by (induction d) auto

lemma revoke_children_true:
  "map_of (foldl (\<lambda>g c. if map_of g c = Some True then AList.update c False g else g) g cs) n = Some True \<longleftrightarrow>
     map_of g n = Some True \<and> n \<notin> set cs"
  by (induction cs arbitrary: g) (auto simp: odict_simps)

lemma perm_step_grant:
  assumes "map_of (grants_of (perm_step e b) a) n = Some True"
  shows "e = PGrant a n True \<or> map_of (grants_of b a) n = Some True"
proof (cases e)
  case (PDeclare clk a' parsed source fixed)
  then show ?thesis
    using assms grants_make_room [of b a n True]
    by (auto simp: declare_app_def Let_def grants_of_def odict_simps map_of_filter_set split: sum.splits option.splits if_splits)
next
  case (PGrant a' name g)
  then show ?thesis
    using assms
    by (cases g) (auto simp: set_grant_def Let_def grants_of_def odict_simps revoke_children_true split: option.splits if_splits)
next
  case (PForget a')
  then show ?thesis
    using assms by (auto simp: forget_app_def grants_of_def delete_conv split: option.splits if_splits)
qed

lemma perm_run_grant:
  "map_of (grants_of (fold perm_step es b) a) n = Some True \<Longrightarrow>
     PGrant a n True \<in> set es \<or> map_of (grants_of b a) n = Some True"
  by (induction es arbitrary: b) (auto dest: perm_step_grant)

lemma grants_requested:
  assumes "book_ok b" "map_of (grants_of b a) n = Some v"
  shows "n \<in> requested b a"
proof -
  from assms(2) obtain e where e: "map_of (pk_apps b) a = Some e" "map_of (ae_grants e) n = Some v"
    by (auto simp: grants_of_def split: option.splits)
  then have "n \<in> fst ` set (ae_grants e)" by (auto dest: map_of_SomeD intro: rev_image_eqI)
  with assms(1) e show ?thesis using od_allD [of _ "pk_apps b" a e] by (fastforce simp: book_ok_def requested_asked)
qed

lemma requested_children: "up \<in> requested b a \<Longrightarrow> perm_parent n = Some up \<Longrightarrow> n \<in> requested b a"
  by (auto simp: requested_def perm_closure_children split: option.splits)

text \<open>
  Permissions never move themselves. In any history of a book - apps declaring manifests,
  redeclaring, being forgotten, grants given and taken back - whatever an app may do beyond the normal
  set it may do because it authenticated as itself, a human granted that very permission (or the
  one above it) to that very app, and the app's present manifest asks for it.
\<close>
theorem power_is_granted:
  assumes "allows (fold perm_step es new_book) a n identified" "perm_level n \<noteq> NORMAL"
  shows "identified \<and> n \<in> requested (fold perm_step es new_book) a \<and>
    (PGrant a n True \<in> set es \<or> (\<exists>up. perm_parent n = Some up \<and> PGrant a up True \<in> set es))"
proof -
  let ?b = "fold perm_step es new_book"
  have ok: "book_ok ?b" by (rule perm_run_ok) (rule new_book_ok)
  have none: "map_of (grants_of new_book a) k \<noteq> Some True" for k by (simp add: grants_of_def new_book_def)
  from assms consider (own) "map_of (grants_of ?b a) n = Some True"
    | (up) up where "perm_parent n = Some up" "map_of (grants_of ?b a) up = Some True"
    by (auto simp: allows_def Let_def split: if_splits option.splits)
  then show ?thesis
  proof cases
    case own
    with perm_run_grant [OF own] none grants_requested [OF ok own] assms show ?thesis
      by (auto simp: allows_def Let_def split: if_splits)
  next
    case up
    with perm_run_grant [OF up(2)] none requested_children [OF grants_requested [OF ok up(2)] up(1)] assms
    show ?thesis by (auto simp: allows_def Let_def split: if_splits)
  qed
qed

definition demo_manifest :: manifest where
  "demo_manifest = \<lparr> mf_name = ''demo'', mf_title = ''demo'', mf_version = [], mf_description = [],
     mf_permissions = [(''readstate'', [])], mf_api = [] \<rparr>"

definition demo_run :: "book_op list" where
  "demo_run = [PDeclare 1 ''00112233445566aa'' (Inr demo_manifest) ''connector'' False,
     PGrant ''00112233445566aa'' ''readstate'' True]"

lemma demo_facts:
  "known_perm ''readstate.logs'' \<and> perm_level ''readstate.logs'' = SENSITIVE \<and>
   perm_parent ''readstate.logs'' = Some ''readstate'' \<and> perm_children ''readstate.logs'' = [] \<and>
   perm_parent ''readstate'' = None \<and> perm_level ''readstate'' = SENSITIVE \<and> hex_re ''00112233445566aa'' \<and>
   known_perm ''readstate'' \<and> ''readstate.logs'' \<in> set (perm_children ''readstate'')"
  by code_simp

lemma demo_grants:
  "grants_of (fold perm_step demo_run new_book) ''00112233445566aa'' = [(''readstate'', True)]"
  using demo_facts
  by (simp add: demo_run_def demo_manifest_def declare_app_def new_book_def make_room_for_app_def MAX_APPS_def
      set_grant_def requested_def perm_closure_def grants_of_def Let_def)

theorem power_is_granted_witness:
  "PGrant ''00112233445566aa'' ''readstate.logs'' True \<in> set demo_run \<or>
     (\<exists>up. perm_parent ''readstate.logs'' = Some up \<and> PGrant ''00112233445566aa'' up True \<in> set demo_run)"
  using power_is_granted [of demo_run "''00112233445566aa''" "''readstate.logs''" True] demo_facts demo_grants
  by (simp add: allows_def Let_def)

subsection \<open>The gate\<close>

definition ungranted :: "perm_book \<Rightarrow> string \<Rightarrow> bool" where
  "ungranted b a \<longleftrightarrow> (\<forall>n. map_of (grants_of b a) n \<noteq> Some True)"

lemma ungranted_allows: "ungranted b a \<Longrightarrow> perm_level n \<noteq> NORMAL \<Longrightarrow> \<not> allows b a n i"
  by (auto simp: ungranted_def allows_def Let_def split: option.split)

lemma scopes_above_normal:
  "list_all (\<lambda>(m, r, d). perm_level r \<noteq> NORMAL \<and> perm_level d \<noteq> NORMAL \<and> r \<noteq> [] \<and> d \<noteq> []) MODULE_SCOPE"
  by code_simp

lemma driving_above_normal: "list_all (\<lambda>n. perm_level n \<noteq> NORMAL) DRIVING"
  by code_simp

lemma call_above_normal:
  "list_all (\<lambda>n. perm_level n \<noteq> NORMAL) [''readstate.apps'', ''control.apps'', ''contacts.read'', ''contacts.write'']"
  by code_simp

lemma required_above_normal:
  "required op ch = Some need \<Longrightarrow> op \<notin> set OPEN_TO_APPS \<Longrightarrow> perm_level need \<noteq> NORMAL \<and> need \<noteq> []"
  using scopes_above_normal
  by (auto simp: required_def list_all_iff dest!: map_of_SomeD split: if_splits option.splits)

lemma ungranted_refused:
  assumes "ungranted b a" "op \<notin> set OPEN_TO_APPS" "op \<noteq> ''jobs.start''" "op \<noteq> ''apps.call''"
  shows "refusal_with inner ge b a op ch params \<noteq> None"
  using assms required_above_normal [of op ch] ungranted_allows [of b a]
  by (auto simp: refusal_with_def split: option.split)

lemma ungranted_any: "ungranted b a \<Longrightarrow> list_all (\<lambda>n. perm_level n \<noteq> NORMAL) ns \<Longrightarrow> \<not> allows_any b a ns i"
  by (auto simp: allows_any_def list_ex_iff list_all_iff ungranted_allows)

text \<open>
  An app without a grant drives nothing. Whatever the plane and the other apps offer, an app that
  holds no grant is refused every operation of the node except the open ones; a catalogue offers
  it neither jobs nor calls, and it cannot reach an operation of the plane inside a job either.
\<close>
theorem ungranted_app_drives_nothing:
  assumes "ungranted b a"
  shows "(op \<notin> set OPEN_TO_APPS \<longrightarrow> op \<noteq> ''jobs.start'' \<longrightarrow> op \<noteq> ''apps.call'' \<longrightarrow>
      gate_refusal ge b a op ch params \<noteq> None) \<and>
    gate_refusal ge b a ''jobs.start'' ch None \<noteq> None \<and> gate_refusal ge b a ''apps.call'' ch None \<noteq> None \<and>
    (map_of d ''op'' = Some (JStr op) \<longrightarrow> ge_plane ge = Some look \<longrightarrow> look op = Some ch' \<longrightarrow>
      op \<notin> set OPEN_TO_APPS \<longrightarrow> op \<noteq> ''apps.call'' \<longrightarrow> op \<noteq> ''jobs.start'' \<longrightarrow>
      gate_refusal ge b a ''jobs.start'' ch (Some d) \<noteq> None)"
proof -
  have job: "''jobs.start'' \<notin> set OPERATOR_ONLY" "''apps.call'' \<notin> set OPERATOR_ONLY"
    by (simp_all add: OPERATOR_ONLY_def)
  show ?thesis
    using ungranted_refused [OF assms] ungranted_any [OF assms driving_above_normal]
      ungranted_any [OF assms call_above_normal] job
    by (auto simp: gate_refusal_def refusal_with_def [of _ _ _ _ "''jobs.start''"] refusal_with_def [of _ _ _ _ "''apps.call''"]
        carried_job_def carried_app_call_def json_get_def)
qed

theorem ungranted_app_drives_nothing_witness:
  "gate_refusal \<lparr> ge_plane = None, ge_app_op = None, ge_text_of = (\<lambda>_. []) \<rparr> new_book ''00112233445566aa''
     ''node.restart'' True None \<noteq> None"
proof -
  have "ungranted new_book ''00112233445566aa''" by (simp add: ungranted_def grants_of_def new_book_def)
  from ungranted_app_drives_nothing [OF this, of "''node.restart''"] show ?thesis
    by (simp add: OPEN_TO_APPS_def)
qed

text \<open>
  What decides what apps may do is never answered to an app, whatever it was granted: not called
  directly, not drawn in a catalogue, and not carried inside a job.
\<close>
theorem operator_only_unreachable:
  assumes "op \<in> set OPERATOR_ONLY"
  shows "gate_refusal ge b a op ch params = Some (OperatorOnly op) \<and>
    (map_of d ''op'' = Some (JStr op) \<and> ge_plane ge = Some look \<and> look op = Some ch' \<longrightarrow>
      gate_refusal ge b a ''jobs.start'' ch (Some d) = Some (OperatorOnly op))"
  using assms by (auto simp: gate_refusal_def refusal_with_def carried_job_def json_get_def OPERATOR_ONLY_def)

theorem operator_only_unreachable_witness:
  "gate_refusal \<lparr> ge_plane = None, ge_app_op = None, ge_text_of = (\<lambda>_. []) \<rparr>
     (fold perm_step demo_run new_book) ''00112233445566aa'' ''apps.grant'' True None = Some (OperatorOnly ''apps.grant'')"
  by (rule operator_only_unreachable [THEN conjunct1]) (simp add: OPERATOR_ONLY_def)

subsection \<open>Taking back\<close>
lemma perm_tree_level: "c \<in> set (perm_children n) \<Longrightarrow> perm_level c \<noteq> NORMAL"
proof -
  assume "c \<in> set (perm_children n)"
  then have "perm_parent c = Some n" by (simp add: child_parent)
  then obtain p where "map_of BY_NAME c = Some (p, Some n)" by (auto simp: perm_parent_def split: option.splits)
  from bspec [OF perm_tree_facts [unfolded list_all_iff] map_of_SomeD [OF this]] show ?thesis by simp
qed

lemma demo_asked:
  "requested (fold perm_step demo_run new_book) ''00112233445566aa'' = perm_closure [''readstate'']"
  using demo_facts
  by (simp add: demo_run_def demo_manifest_def declare_app_def new_book_def make_room_for_app_def MAX_APPS_def
      set_grant_def requested_def perm_closure_def grants_of_def Let_def)

lemma demo_known: "map_of (pk_apps (fold perm_step demo_run new_book)) ''00112233445566aa'' \<noteq> None"
  using demo_grants
  by (cases "map_of (pk_apps (fold perm_step demo_run new_book)) ''00112233445566aa''") (simp_all add: grants_of_def)

lemma set_grant_done:
  "map_of (pk_apps b) a \<noteq> None \<Longrightarrow> n \<in> requested b a \<Longrightarrow> fst (set_grant a n g b)"
  by (auto simp: set_grant_def Let_def)

lemma demo_revocable:
  "fst (set_grant ''00112233445566aa'' ''readstate'' False (fold perm_step demo_run new_book))"
  "fst (set_grant ''00112233445566aa'' ''readstate.logs'' False (fold perm_step demo_run new_book))"
  using demo_facts by (auto intro!: set_grant_done [OF demo_known] simp: demo_asked perm_closure_iff)

lemma set_grant_grants:
  assumes "fst (set_grant a n g b)"
  shows "grants_of (snd (set_grant a n g b)) a =
      (if g then AList.update n True (grants_of b a)
       else foldl (\<lambda>g c. if map_of g c = Some True then AList.update c False g else g)
              (AList.update n False (grants_of b a)) (perm_children n))"
    "n \<in> requested b a"
  using assms by (auto simp: set_grant_def grants_of_def Let_def odict_simps split: option.splits if_splits)

text \<open>
  Taking back a permission takes back everything under it. Once a human withdraws a permission
  above normal that stands at the top of the tree, neither it nor any permission below it is
  allowed to the app any more.
\<close>
theorem revoking_takes_all:
  assumes "fst (set_grant a n False b)" "perm_parent n = None" "perm_level n \<noteq> NORMAL"
    and "c = n \<or> c \<in> set (perm_children n)"
  shows "\<not> allows (snd (set_grant a n False b)) a c i"
proof -
  have "map_of (grants_of (snd (set_grant a n False b)) a) k \<noteq> Some True" if "k = n \<or> k \<in> set (perm_children n)" for k
    using set_grant_grants(1) [OF assms(1)] that by (auto simp: revoke_children_true odict_simps)
  moreover have "perm_level c \<noteq> NORMAL" "perm_parent c = (if c = n then None else Some n)"
    using assms(2-4) child_parent [of c n] perm_tree_level [of c n] by auto
  ultimately show ?thesis
    using assms(4) by (auto simp: allows_def Let_def split: option.split)
qed

theorem revoking_takes_all_witness:
  "\<not> allows (snd (set_grant ''00112233445566aa'' ''readstate'' False (fold perm_step demo_run new_book)))
     ''00112233445566aa'' ''readstate.logs'' True"
  by (rule revoking_takes_all) (use demo_facts demo_revocable in simp_all)

text \<open>
  A permission below one that is granted cannot be taken back alone: the book records the refusal
  and reports success, yet goes on allowing the permission through its parent.
\<close>
theorem revoked_child_still_allowed:
  defines "b \<equiv> fold perm_step demo_run new_book"
  defines "r \<equiv> set_grant ''00112233445566aa'' ''readstate.logs'' False b"
  shows "fst r \<and> map_of (grants_of (snd r) ''00112233445566aa'') ''readstate.logs'' = Some False \<and>
    allows (snd r) ''00112233445566aa'' ''readstate.logs'' True"
proof -
  have "fst r" by (simp add: r_def b_def demo_revocable)
  with set_grant_grants(1) [of "''00112233445566aa''" "''readstate.logs''" False b] demo_grants demo_facts
  have "grants_of (snd r) ''00112233445566aa'' = [(''readstate'', True), (''readstate.logs'', False)]"
    by (simp add: r_def b_def)
  with \<open>fst r\<close> demo_facts show ?thesis by (simp add: allows_def)
qed

text \<open>
  A line feed at the end passes for nothing. The patterns of a manifest's name and of an app id
  accept one trailing line feed, so a declared name, and the key a declaration is filed under, may hold
  a character the patterns do not name and be longer than they say.
\<close>
theorem trailing_newline_accepted:
  "(name_re (s @ [newline]) \<longleftrightarrow> word_of_class s) \<and>
   (hex_re (h @ [newline]) \<longleftrightarrow> length h = 16 \<and> list_all hex_digit h)"
  by (simp add: name_re_def hex_re_def before_end_def)

end
