(* ===== verification/AppAuth.thy ===== *)
theory AppAuth
  imports NodeId ReplayWindow Complex_Main
begin

text \<open>
  The mesh identity used as a login (\<open>src/app_auth.py\<close>) and the sections of the application
  channel (\<open>src/app_channel.py\<close>): the signed \<open>Assertion\<close> with its parser and verifier, the
  single-use \<open>NonceCache\<close>, and the three-message mutual login of \<open>AppAuth\<close>.

  The signature scheme is the node's \<open>CryptoIdentity\<close>: a record of its public key, its signing
  function and its verifier (False also where the verifier raises, which the code treats alike).
  Random nonces and clock readings are arguments. A purpose is kept as its UTF-8 encoding.
\<close>

record signer =
  sg_pub :: bytes
  sg_sign :: "bytes \<Rightarrow> bytes"
  sg_verify :: "bytes \<Rightarrow> bytes \<Rightarrow> bytes \<Rightarrow> bool"

section \<open>Sections of the application channel\<close>

definition APP_ID_LEN :: nat where "APP_ID_LEN = 8"

definition builtin_preimage :: "bytes \<Rightarrow> bytes" where
  "builtin_preimage name = ascii ''nmesh.builtin.'' @ name"

definition builtin_id :: "hash_env \<Rightarrow> bytes \<Rightarrow> bytes" where
  "builtin_id h name = take APP_ID_LEN (h_sha256 h (builtin_preimage name))"

definition deployed_preimage :: "bytes \<Rightarrow> bytes \<Rightarrow> bytes" where
  "deployed_preimage author_pub name =
     ascii ''nmesh.deployed.'' @ be_bytes 4 (length author_pub) @ author_pub @ name"

definition deployed_id :: "hash_env \<Rightarrow> bytes \<Rightarrow> bytes \<Rightarrow> bytes" where
  "deployed_id h author_pub name = take APP_ID_LEN (h_sha256 h (deployed_preimage author_pub name))"

definition channel_frame :: "bytes \<Rightarrow> bytes \<Rightarrow> bytes result" where
  "channel_frame app_id payload = (if length app_id \<noteq> APP_ID_LEN then Inl ValueError else Inr (app_id @ payload))"

definition channel_unframe :: "bytes \<Rightarrow> (bytes \<times> bytes) option" where
  "channel_unframe data =
     (if length data < APP_ID_LEN then None else Some (take APP_ID_LEN data, drop APP_ID_LEN data))"

section \<open>The assertion\<close>

definition AUTH_DOMAIN :: bytes where "AUTH_DOMAIN = ascii ''nmesh-app-auth-v1''"
definition NONCE_LEN :: nat where "NONCE_LEN = 16"
definition CTX_LEN :: nat where "CTX_LEN = 32"
definition ANY_AUDIENCE :: bytes where "ANY_AUDIENCE = replicate 20 0"
definition MAX_PUB_LEN :: nat where "MAX_PUB_LEN = 8192"
definition MAX_SIG_LEN :: nat where "MAX_SIG_LEN = 8192"
definition MAX_PURPOSE_LEN :: nat where "MAX_PURPOSE_LEN = 64"
definition MAX_ASSERTION_LEN :: nat where "MAX_ASSERTION_LEN = 32 * 1024"
definition MAX_TTL :: int where "MAX_TTL = 86400"
definition MAX_SKEW :: int where "MAX_SKEW = 60"
definition MAX_NONCES :: nat where "MAX_NONCES = 8192"
definition AUTH_MAX_PENDING :: nat where "AUTH_MAX_PENDING = 512"

fun ctx_preimage :: "bytes list \<Rightarrow> bytes result" where
  "ctx_preimage [] = Inr []"
| "ctx_preimage (part # parts) =
     rbind (pack_uint 4 (int (length part))) (\<lambda>n. rbind (ctx_preimage parts) (\<lambda>rest. Inr (n @ part @ rest)))"

definition ctx_hash :: "hash_env \<Rightarrow> bytes list \<Rightarrow> bytes result" where
  "ctx_hash h parts = rbind (ctx_preimage parts) (\<lambda>b. Inr (h_sha256 h (AUTH_DOMAIN @ b)))"

record assertion =
  as_app_id :: bytes
  as_subject_pub :: bytes
  as_audience :: bytes
  as_purpose :: bytes
  as_nonce :: bytes
  as_issued_at :: int
  as_ttl :: int
  as_ctx :: bytes
  as_signature :: bytes

definition as_expires_at :: "assertion \<Rightarrow> int" where
  "as_expires_at a = as_issued_at a + as_ttl a"

text \<open>The part \<open>signed_body\<close> and \<open>serialize\<close> share, up to the context.\<close>

definition assertion_fields :: "assertion \<Rightarrow> bytes result" where
  "assertion_fields a =
     rbind (pack_uint 2 (int (length (as_subject_pub a)))) (\<lambda>pub_len.
     rbind (pack_uint 1 (int (length (as_purpose a)))) (\<lambda>purpose_len.
     rbind (pack_uint 8 (as_issued_at a)) (\<lambda>issued_at.
     rbind (pack_uint 4 (as_ttl a)) (\<lambda>ttl.
       Inr ([1, 0] @ pack_str 8 (as_app_id a) @ pub_len @ as_subject_pub a @
            pack_str 20 (as_audience a) @ purpose_len @ as_purpose a @
            pack_str 16 (as_nonce a) @ issued_at @ ttl @ pack_str 32 (as_ctx a))))))"

definition signed_body :: "assertion \<Rightarrow> bytes result" where
  "signed_body a = rbind (assertion_fields a) (\<lambda>b. Inr (AUTH_DOMAIN @ b))"

definition assertion_bytes :: "assertion \<Rightarrow> bytes result" where
  "assertion_bytes a =
     rbind (assertion_fields a) (\<lambda>b.
     rbind (pack_uint 2 (int (length (as_signature a)))) (\<lambda>sig_len. Inr (b @ sig_len @ as_signature a)))"

definition parse_assertion :: "bytes \<Rightarrow> assertion option" where
  "parse_assertion blob =
     (if MAX_ASSERTION_LEN < length blob then None
      else if length blob < 12 then None
      else
        (let version = unat (blob ! 0);
             app_id = slice 2 10 blob;
             pub_len = be_val (slice 10 12 blob);
             off = 12
         in if version \<noteq> 1 \<or> pub_len = 0 \<or> MAX_PUB_LEN < pub_len then None
            else if length blob < off + pub_len + 21 then None
            else
              (let subject_pub = slice off (off + pub_len) blob;
                   off = off + pub_len;
                   audience = slice off (off + 20) blob;
                   purpose_len = be_val (slice (off + 20) (off + 21) blob);
                   off = off + 21
               in if MAX_PURPOSE_LEN < purpose_len \<or> length blob < off + purpose_len + 62 then None
                  else
                    (let purpose = slice off (off + purpose_len) blob;
                         off = off + purpose_len;
                         nonce = slice off (off + 16) blob;
                         issued_at = be_val (slice (off + 16) (off + 24) blob);
                         ttl = be_val (slice (off + 24) (off + 28) blob);
                         ctx = slice (off + 28) (off + 60) blob;
                         sig_len = be_val (slice (off + 60) (off + 62) blob);
                         off = off + 62
                     in if \<not> utf8_ok purpose then None
                        else if sig_len = 0 \<or> MAX_SIG_LEN < sig_len \<or> length blob \<noteq> off + sig_len then None
                        else if ttl = 0 \<or> MAX_TTL < int ttl then None
                        else Some \<lparr> as_app_id = app_id, as_subject_pub = subject_pub, as_audience = audience,
                                    as_purpose = purpose, as_nonce = nonce, as_issued_at = int issued_at,
                                    as_ttl = int ttl, as_ctx = ctx,
                                    as_signature = slice off (off + sig_len) blob \<rparr>))))"

definition make_assertion ::
  "signer \<Rightarrow> bytes \<Rightarrow> bytes \<Rightarrow> bytes \<Rightarrow> bytes \<Rightarrow> int \<Rightarrow> bytes \<Rightarrow> int \<Rightarrow> assertion result" where
  "make_assertion sg app_id audience purpose ctx ttl nonce now =
     (if length app_id \<noteq> APP_ID_LEN then Inl AppAuthError
      else if length audience \<noteq> 20 then Inl AppAuthError
      else if length ctx \<noteq> CTX_LEN then Inl AppAuthError
      else if length purpose = 0 \<or> MAX_PURPOSE_LEN < length purpose then Inl AppAuthError
      else if ttl \<le> 0 \<or> MAX_TTL < ttl then Inl AppAuthError
      else
        (let unsigned = \<lparr> as_app_id = app_id, as_subject_pub = sg_pub sg, as_audience = audience,
                          as_purpose = purpose, as_nonce = nonce, as_issued_at = now, as_ttl = ttl,
                          as_ctx = ctx, as_signature = [] \<rparr>
         in rbind (signed_body unsigned) (\<lambda>body. Inr (unsigned\<lparr> as_signature := sg_sign sg body \<rparr>))))"

record principal =
  pr_node_id :: node_id
  pr_public_key :: bytes
  pr_app_id :: bytes
  pr_purpose :: bytes
  pr_ctx :: bytes
  pr_issued_at :: int
  pr_expires_at :: int

section \<open>Replay protection\<close>

record nonce_cache =
  nc_max :: nat
  nc_seen :: "(bytes, int) odict"

definition new_nonce_cache :: "int \<Rightarrow> nonce_cache" where
  "new_nonce_cache m = \<lparr> nc_max = nat (max 1 m), nc_seen = [] \<rparr>"

definition nonce_expire :: "int \<Rightarrow> nonce_cache \<Rightarrow> nonce_cache" where
  "nonce_expire stamp c =
     (if length (nc_seen c) < nc_max c div 2 then c
      else c\<lparr> nc_seen := filter (\<lambda>(_, exp). \<not> exp \<le> stamp) (nc_seen c) \<rparr>)"

definition nonce_claim :: "bytes \<Rightarrow> int \<Rightarrow> int \<Rightarrow> nonce_cache \<Rightarrow> bool \<times> nonce_cache" where
  "nonce_claim nonce expires_at stamp c =
     (if length nonce \<noteq> NONCE_LEN then (False, c)
      else
        (let c = nonce_expire stamp c in
         case map_of (nc_seen c) nonce of
           Some _ \<Rightarrow> (False, c)
         | None \<Rightarrow> (True, c\<lparr> nc_seen := od_trim (nc_max c - 1) (nc_seen c) @ [(nonce, expires_at)] \<rparr>)))"

section \<open>Verification\<close>

definition verify_assertion ::
  "hash_env \<Rightarrow> (bytes \<Rightarrow> bytes \<Rightarrow> bytes \<Rightarrow> bool) \<Rightarrow> bytes \<Rightarrow> bytes \<Rightarrow> bytes option \<Rightarrow> bytes option \<Rightarrow> int
     \<Rightarrow> bytes \<Rightarrow> nonce_cache option \<Rightarrow> (principal option \<times> nonce_cache option) result" where
  "verify_assertion h verifier app_id audience purpose ctx stamp blob nonces =
     (case parse_assertion blob of
        None \<Rightarrow> Inr (None, nonces)
      | Some parsed \<Rightarrow>
          (if as_app_id parsed \<noteq> app_id then Inr (None, nonces)
           else if as_audience parsed \<noteq> audience \<and> as_audience parsed \<noteq> ANY_AUDIENCE then Inr (None, nonces)
           else if (case purpose of None \<Rightarrow> False | Some p \<Rightarrow> as_purpose parsed \<noteq> p) then Inr (None, nonces)
           else if (case ctx of None \<Rightarrow> False | Some c \<Rightarrow> as_ctx parsed \<noteq> c) then Inr (None, nonces)
           else if stamp + MAX_SKEW < as_issued_at parsed \<or> as_expires_at parsed \<le> stamp then Inr (None, nonces)
           else if (case signed_body parsed of Inl _ \<Rightarrow> True
                    | Inr body \<Rightarrow> \<not> verifier body (as_signature parsed) (as_subject_pub parsed))
           then Inr (None, nonces)
           else
             (let (fresh, nonces) = (case nonces of None \<Rightarrow> (True, None)
                    | Some c \<Rightarrow> (let (ok, c) = nonce_claim (as_nonce parsed) (as_expires_at parsed) stamp c in (ok, Some c)))
              in if \<not> fresh then Inr (None, nonces)
                 else rbind (node_id_from_public_key h (as_subject_pub parsed)) (\<lambda>subject.
                   Inr (Some \<lparr> pr_node_id = subject, pr_public_key = as_subject_pub parsed,
                               pr_app_id = as_app_id parsed, pr_purpose = as_purpose parsed,
                               pr_ctx = as_ctx parsed, pr_issued_at = as_issued_at parsed,
                               pr_expires_at = as_expires_at parsed \<rparr>, nonces)))))"

section \<open>The mutual login\<close>

definition PURPOSE_LOGIN :: bytes where "PURPOSE_LOGIN = ascii ''auth.login''"
definition HELLO :: byte where "HELLO = 1"
definition CHALLENGE :: byte where "CHALLENGE = 2"
definition PROVE :: byte where "PROVE = 3"

definition session_id :: "hash_env \<Rightarrow> bytes \<Rightarrow> bytes \<Rightarrow> bytes result" where
  "session_id h nonce_a nonce_b =
     rbind (ctx_hash h [ascii ''session'', nonce_a, nonce_b]) (\<lambda>d. Inr (take 16 d))"

definition login_ctx :: "hash_env \<Rightarrow> bytes \<Rightarrow> bytes \<Rightarrow> bytes result" where
  "login_ctx h nonce_a nonce_b = ctx_hash h [ascii ''login'', nonce_a, nonce_b]"

record auth_session =
  se_sid :: bytes
  se_peer :: node_id
  se_peer_key :: bytes
  se_established_at :: real
  se_expires_at :: real

record app_auth =
  aa_signer :: signer
  aa_app_id :: bytes
  aa_node_id :: node_id
  aa_ttl :: real
  aa_max_sessions :: nat
  aa_nonces :: nonce_cache
  aa_sessions :: "(bytes, auth_session) odict"
  aa_pending :: "(bytes, node_id \<times> bytes \<times> real) odict"

definition new_app_auth :: "signer \<Rightarrow> bytes \<Rightarrow> node_id \<Rightarrow> real \<Rightarrow> int \<Rightarrow> app_auth result" where
  "new_app_auth sg app_id node_id session_ttl max_sessions =
     (if length app_id \<noteq> APP_ID_LEN then Inl AppAuthError
      else Inr \<lparr> aa_signer = sg, aa_app_id = app_id, aa_node_id = node_id, aa_ttl = session_ttl,
                 aa_max_sessions = nat (max 1 max_sessions), aa_nonces = new_nonce_cache (int MAX_NONCES),
                 aa_sessions = [], aa_pending = [] \<rparr>)"

definition assert_to :: "app_auth \<Rightarrow> bytes \<Rightarrow> bytes \<Rightarrow> bytes \<Rightarrow> int \<Rightarrow> bytes \<Rightarrow> int \<Rightarrow> bytes result" where
  "assert_to aa audience purpose ctx ttl nonce wall =
     rbind (make_assertion (aa_signer aa) (aa_app_id aa) audience purpose ctx ttl nonce wall) assertion_bytes"

definition auth_verify ::
  "hash_env \<Rightarrow> bytes \<Rightarrow> bytes option \<Rightarrow> bytes option \<Rightarrow> bytes option \<Rightarrow> int \<Rightarrow> app_auth
     \<Rightarrow> (principal option \<times> app_auth) result" where
  "auth_verify h blob purpose ctx audience wall aa =
     rbind (verify_assertion h (sg_verify (aa_signer aa)) (aa_app_id aa)
              (case audience of None \<Rightarrow> aa_node_id aa | Some a \<Rightarrow> a) purpose ctx wall blob (Some (aa_nonces aa)))
       (\<lambda>(p, c). Inr (p, case c of None \<Rightarrow> aa | Some c \<Rightarrow> aa\<lparr> aa_nonces := c \<rparr>))"

definition prune_pending :: "real \<Rightarrow> app_auth \<Rightarrow> app_auth" where
  "prune_pending tick aa =
     aa\<lparr> aa_pending := od_trim AUTH_MAX_PENDING
           (filter (\<lambda>(_, _, _, deadline). \<not> deadline \<le> tick) (aa_pending aa)) \<rparr>"

definition start_login :: "node_id \<Rightarrow> bytes \<Rightarrow> real \<Rightarrow> app_auth \<Rightarrow> bytes \<times> app_auth" where
  "start_login peer nonce_a tick aa =
     (let aa = prune_pending tick aa
      in (HELLO # nonce_a,
          aa\<lparr> aa_pending := AList.update nonce_a (peer, [], tick + aa_ttl aa) (aa_pending aa) \<rparr>))"

definition answer_login ::
  "hash_env \<Rightarrow> node_id \<Rightarrow> bytes \<Rightarrow> bytes \<Rightarrow> bytes \<Rightarrow> int \<Rightarrow> real \<Rightarrow> app_auth \<Rightarrow> (bytes option \<times> app_auth) result" where
  "answer_login h peer frame nonce_b nonce wall tick aa =
     (if length frame \<noteq> 1 + NONCE_LEN \<or> frame ! 0 \<noteq> HELLO then Inr (None, aa)
      else
        (let nonce_a = drop 1 frame;
             aa = prune_pending tick aa
         in if AUTH_MAX_PENDING \<le> length (aa_pending aa) then Inr (None, aa)
            else
              rbind (login_ctx h nonce_a nonce_b) (\<lambda>ctx.
              rbind (assert_to aa peer PURPOSE_LOGIN ctx 120 nonce wall) (\<lambda>proof.
                Inr (Some ([CHALLENGE] @ nonce_b @ proof),
                     aa\<lparr> aa_pending := AList.update nonce_b (peer, nonce_a, tick + aa_ttl aa) (aa_pending aa) \<rparr>)))))"

definition prune_sessions :: "real \<Rightarrow> app_auth \<Rightarrow> app_auth" where
  "prune_sessions now aa =
     aa\<lparr> aa_sessions := filter (\<lambda>(_, s). \<not> se_expires_at s \<le> now) (aa_sessions aa) \<rparr>"

definition store_session :: "bytes \<Rightarrow> principal \<Rightarrow> real \<Rightarrow> app_auth \<Rightarrow> auth_session \<times> app_auth" where
  "store_session sid p now aa =
     (let aa = prune_sessions now aa;
          session = \<lparr> se_sid = sid, se_peer = pr_node_id p, se_peer_key = pr_public_key p,
                      se_established_at = now, se_expires_at = now + aa_ttl aa \<rparr>
      in (session, aa\<lparr> aa_sessions := AList.update sid session
                         (od_trim (aa_max_sessions aa - 1) (aa_sessions aa)) \<rparr>))"

definition pending_hello :: "node_id \<Rightarrow> app_auth \<Rightarrow> bytes option" where
  "pending_hello peer aa =
     map_option fst (find (\<lambda>(_, p, prior, _). p = peer \<and> prior = []) (aa_pending aa))"

definition pending_challenge :: "node_id \<Rightarrow> app_auth \<Rightarrow> (bytes \<times> bytes) option" where
  "pending_challenge peer aa =
     map_option (\<lambda>(n, _, prior, _). (n, prior)) (find (\<lambda>(_, p, prior, _). p = peer \<and> prior \<noteq> []) (aa_pending aa))"

definition complete_login ::
  "hash_env \<Rightarrow> node_id \<Rightarrow> bytes \<Rightarrow> bytes \<Rightarrow> int \<Rightarrow> real \<Rightarrow> app_auth
     \<Rightarrow> ((bytes \<times> auth_session) option \<times> app_auth) result" where
  "complete_login h peer frame nonce wall tick aa =
     (if length frame < 1 + NONCE_LEN \<or> frame ! 0 \<noteq> CHALLENGE then Inr (None, aa)
      else
        (let nonce_b = slice 1 (1 + NONCE_LEN) frame;
             proof = drop (1 + NONCE_LEN) frame
         in case pending_hello peer aa of
              None \<Rightarrow> Inr (None, aa)
            | Some nonce_a \<Rightarrow>
                rbind (login_ctx h nonce_a nonce_b) (\<lambda>ctx.
                rbind (auth_verify h proof (Some PURPOSE_LOGIN) (Some ctx) None wall aa) (\<lambda>(principal, aa).
                  case principal of
                    None \<Rightarrow> Inr (None, aa)
                  | Some p \<Rightarrow>
                      (if pr_node_id p \<noteq> peer then Inr (None, aa)
                       else
                         (let aa = aa\<lparr> aa_pending := AList.delete nonce_a (aa_pending aa) \<rparr> in
                          rbind (assert_to aa peer PURPOSE_LOGIN ctx 120 nonce wall) (\<lambda>reply.
                          rbind (session_id h nonce_a nonce_b) (\<lambda>sid.
                            let (session, aa) = store_session sid p tick aa
                            in Inr (Some (PROVE # reply, session), aa)))))))))"

definition accept_login ::
  "hash_env \<Rightarrow> node_id \<Rightarrow> bytes \<Rightarrow> int \<Rightarrow> real \<Rightarrow> app_auth \<Rightarrow> (auth_session option \<times> app_auth) result" where
  "accept_login h peer frame wall tick aa =
     (if length frame < 1 \<or> frame ! 0 \<noteq> PROVE then Inr (None, aa)
      else case pending_challenge peer aa of
             None \<Rightarrow> Inr (None, aa)
           | Some (nonce_b, nonce_a) \<Rightarrow>
               rbind (login_ctx h nonce_a nonce_b) (\<lambda>ctx.
               rbind (auth_verify h (drop 1 frame) (Some PURPOSE_LOGIN) (Some ctx) None wall aa) (\<lambda>(principal, aa).
                 case principal of
                   None \<Rightarrow> Inr (None, aa)
                 | Some p \<Rightarrow>
                     (if pr_node_id p \<noteq> peer then Inr (None, aa)
                      else
                        rbind (session_id h nonce_a nonce_b) (\<lambda>sid.
                          let (session, aa) = store_session sid p tick (aa\<lparr> aa_pending := AList.delete nonce_b (aa_pending aa) \<rparr>)
                          in Inr (Some session, aa))))))"

definition auth_session_of :: "bytes \<Rightarrow> real \<Rightarrow> app_auth \<Rightarrow> auth_session option \<times> app_auth" where
  "auth_session_of sid tick aa =
     (case map_of (aa_sessions aa) sid of
        None \<Rightarrow> (None, aa)
      | Some s \<Rightarrow>
          (if \<not> tick < se_expires_at s then (None, aa\<lparr> aa_sessions := AList.delete sid (aa_sessions aa) \<rparr>)
           else (Some s, aa)))"

definition drop_session :: "bytes \<Rightarrow> app_auth \<Rightarrow> app_auth" where
  "drop_session sid aa = aa\<lparr> aa_sessions := AList.delete sid (aa_sessions aa) \<rparr>"

section \<open>The wire form and what is signed\<close>

definition valid_assertion :: "assertion \<Rightarrow> bool" where
  "valid_assertion a \<longleftrightarrow> length (as_app_id a) = 8 \<and> 0 < length (as_subject_pub a) \<and> length (as_subject_pub a) \<le> MAX_PUB_LEN \<and>
     length (as_audience a) = 20 \<and> length (as_purpose a) \<le> MAX_PURPOSE_LEN \<and> utf8_ok (as_purpose a) \<and>
     length (as_nonce a) = 16 \<and> 0 \<le> as_issued_at a \<and> as_issued_at a < 256 ^ 8 \<and> 0 < as_ttl a \<and> as_ttl a \<le> MAX_TTL \<and>
     length (as_ctx a) = 32 \<and> 0 < length (as_signature a) \<and> length (as_signature a) \<le> MAX_SIG_LEN"

lemma assertion_fields_eq:
  assumes "valid_assertion a"
  shows "assertion_fields a = Inr ([1, 0] @ as_app_id a @ be_bytes 2 (length (as_subject_pub a)) @ as_subject_pub a @
      as_audience a @ be_bytes 1 (length (as_purpose a)) @ as_purpose a @
      as_nonce a @ be_bytes 8 (nat (as_issued_at a)) @ be_bytes 4 (nat (as_ttl a)) @ as_ctx a)"
  using assms
  by (simp add: assertion_fields_def valid_assertion_def pack_uint_def MAX_PUB_LEN_def MAX_PURPOSE_LEN_def MAX_TTL_def
      del: be_bytes.simps)

text \<open>The field at an offset, once what precedes it is known to have that length.\<close>
lemma slice_piece: "length pre = a \<Longrightarrow> b = a + length f \<Longrightarrow> slice a b (pre @ f @ rest) = f"
  by (simp add: slice_def)

lemma parse_assertion_bytes:
  assumes v: "valid_assertion a" and b: "assertion_bytes a = Inr b"
  shows "parse_assertion b = Some a"
proof -
  let ?P = "length (as_subject_pub a)" and ?Q = "length (as_purpose a)" and ?S = "length (as_signature a)"
  define hd2 where "hd2 = ([1, 0] :: bytes)"
  let ?pl = "be_bytes 2 ?P" and ?ql = "be_bytes 1 ?Q" and ?sl = "be_bytes 2 ?S"
  let ?ia = "be_bytes 8 (nat (as_issued_at a))" and ?tt = "be_bytes 4 (nat (as_ttl a))"
  have lens: "length (as_app_id a) = 8" "length (as_audience a) = 20" "length (as_nonce a) = 16" "length (as_ctx a) = 32"
    "0 < ?P" "?P \<le> 8192" "?Q \<le> 64" "0 < ?S" "?S \<le> 8192"
    using v by (auto simp: valid_assertion_def MAX_PUB_LEN_def MAX_PURPOSE_LEN_def MAX_SIG_LEN_def)
  have b: "b = hd2 @ as_app_id a @ ?pl @ as_subject_pub a @ as_audience a @ ?ql @ as_purpose a @ as_nonce a @ ?ia @ ?tt @ as_ctx a @ ?sl @ as_signature a"
    using b lens by (simp add: assertion_bytes_def assertion_fields_eq [OF v] pack_uint_def hd2_def del: be_bytes.simps)
  have hd2: "length hd2 = 2" "hd2 ! 0 = 1" by (simp_all add: hd2_def)
  have len: "length b = 95 + ?P + ?Q + ?S" unfolding b using lens hd2 by (simp del: be_bytes.simps)
  have f: "slice 2 10 b = as_app_id a" "slice 10 12 b = ?pl" "slice 12 (12 + ?P) b = as_subject_pub a"
    "slice (12 + ?P) (12 + ?P + 20) b = as_audience a" "slice (12 + ?P + 20) (12 + ?P + 21) b = ?ql"
    "slice (12 + ?P + 21) (12 + ?P + 21 + ?Q) b = as_purpose a"
    "slice (12 + ?P + 21 + ?Q) (12 + ?P + 21 + ?Q + 16) b = as_nonce a"
    "slice (12 + ?P + 21 + ?Q + 16) (12 + ?P + 21 + ?Q + 24) b = ?ia"
    "slice (12 + ?P + 21 + ?Q + 24) (12 + ?P + 21 + ?Q + 28) b = ?tt"
    "slice (12 + ?P + 21 + ?Q + 28) (12 + ?P + 21 + ?Q + 60) b = as_ctx a"
    "slice (12 + ?P + 21 + ?Q + 60) (12 + ?P + 21 + ?Q + 62) b = ?sl"
    "slice (12 + ?P + 21 + ?Q + 62) (12 + ?P + 21 + ?Q + 62 + ?S) b = as_signature a"
    unfolding b using lens hd2 by (simp_all add: slice_def del: be_bytes.simps)
  have vals: "be_val ?pl = ?P" "be_val ?ql = ?Q" "be_val ?sl = ?S" "be_val ?ia = nat (as_issued_at a)"
    "be_val ?tt = nat (as_ttl a)"
    using v lens by (simp_all add: valid_assertion_def MAX_TTL_def nat_less_iff del: be_bytes.simps)
  have q: "be_val [word_of_nat ?Q] = ?Q" using lens by (simp add: be_val_def unat_byte_of_nat)
  have v0: "unat (b ! 0) = 1" unfolding b using hd2 by (simp add: nth_append)
  show ?thesis
    using v lens
    by (simp add: parse_assertion_def Let_def f [simplified] vals [simplified] q v0 len MAX_ASSERTION_LEN_def MAX_PUB_LEN_def MAX_PURPOSE_LEN_def
        MAX_SIG_LEN_def valid_assertion_def)
qed

lemma slice_eq_Nil: "slice a b xs = [] \<longleftrightarrow> b \<le> a \<or> length xs \<le> a"
  by (auto simp: slice_def)

lemma be_val_slice_8: "b - a = 8 \<Longrightarrow> be_val (slice a b xs) < 18446744073709551616"
proof -
  assume "b - a = 8"
  then have "length (slice a b xs) \<le> 8" by (simp add: length_slice)
  then have "(256::nat) ^ length (slice a b xs) \<le> 256 ^ 8" by (rule power_increasing) simp
  with be_val_bound [of "slice a b xs"] show ?thesis by simp
qed

lemma parse_assertion_valid:
  assumes "parse_assertion b = Some a"
  shows "valid_assertion a"
  using assms
  by (auto simp: parse_assertion_def Let_def valid_assertion_def length_slice MAX_TTL_def slice_eq_Nil be_val_slice_8
      split: if_splits)

text \<open>What a signature covers determines every field but the signature itself.\<close>
lemma assertion_fields_inj:
  assumes "valid_assertion a" "valid_assertion a'" "assertion_fields a = assertion_fields a'"
  shows "a' = a\<lparr> as_signature := as_signature a' \<rparr>"
proof -
  let ?u = "a\<lparr> as_signature := [0] \<rparr>" and ?u' = "a'\<lparr> as_signature := [0] \<rparr>"
  have v: "valid_assertion ?u" "valid_assertion ?u'"
    using assms(1,2) by (simp_all add: valid_assertion_def MAX_SIG_LEN_def)
  have "assertion_fields ?u = assertion_fields a" "assertion_fields ?u' = assertion_fields a'"
    by (simp_all add: assertion_fields_def)
  with assms(3) have eq: "assertion_bytes ?u = assertion_bytes ?u'" by (simp add: assertion_bytes_def)
  obtain b where b: "assertion_bytes ?u = Inr b"
    using assertion_fields_eq [OF v(1)] by (simp add: assertion_bytes_def pack_uint_def)
  from parse_assertion_bytes [OF v(1) b] parse_assertion_bytes [OF v(2) b [unfolded eq]] have "?u = ?u'" by simp
  then have "?u\<lparr> as_signature := as_signature a' \<rparr> = ?u'\<lparr> as_signature := as_signature a' \<rparr>" by simp
  then show ?thesis by simp
qed

text \<open>A verified assertion: what the checks leave.\<close>
lemma verify_assertion_accepts:
  assumes "verify_assertion h verifier app_id audience purpose ctx stamp blob nonces = Inr (Some p, nonces')"
  obtains a body where "parse_assertion blob = Some a" "signed_body a = Inr body"
    "verifier body (as_signature a) (as_subject_pub a)" "as_app_id a = app_id"
    "as_audience a = audience \<or> as_audience a = ANY_AUDIENCE" "\<forall>q. purpose = Some q \<longrightarrow> as_purpose a = q"
    "\<forall>c. ctx = Some c \<longrightarrow> as_ctx a = c" "as_issued_at a \<le> stamp + MAX_SKEW" "stamp < as_expires_at a"
    "node_id_from_public_key h (as_subject_pub a) = Inr (pr_node_id p)" "pr_public_key p = as_subject_pub a"
    "\<forall>c. nonces = Some c \<longrightarrow> nonce_claim (as_nonce a) (as_expires_at a) stamp c = (True, the nonces')"
  using assms
  by (fastforce simp: verify_assertion_def Let_def rbind_Inr split: option.splits sum.splits if_splits prod.splits)

text \<open>
  C37: An assertion is good for what it says and nothing else. Suppose verification succeeds and the
  signature scheme is sound for that key: what verifies under it is what its owner signed, be it an assertion
  or any other message of the owner - a certificate, a release, a claim - that does not begin with the tag of
  assertions. Then the owner really made an assertion for this application, for this audience (or for any), with
  the purpose and context asked for and a validity that covers the present moment (with a minute of clock skew);
  neither an assertion minted for another application, audience, purpose or context nor the signature of another kind
  of message can pass for it.
\<close>
theorem assertion_not_transferable:
  assumes "verify_assertion h verifier app_id audience (Some purpose) (Some ctx) stamp blob nonces = Inr (Some p, nonces')"
    and "\<And>m sig. verifier m sig (pr_public_key p) \<Longrightarrow> m \<in> other \<or> (\<exists>a \<in> made. valid_assertion a \<and> signed_body a = Inr m)"
    and "\<And>m. m \<in> other \<Longrightarrow> take (length AUTH_DOMAIN) m \<noteq> AUTH_DOMAIN"
  shows "\<exists>a \<in> made. as_app_id a = app_id \<and> (as_audience a = audience \<or> as_audience a = ANY_AUDIENCE) \<and>
    as_purpose a = purpose \<and> as_ctx a = ctx \<and> as_issued_at a \<le> stamp + 60 \<and> stamp < as_issued_at a + as_ttl a \<and>
    as_subject_pub a = pr_public_key p \<and> node_id_from_public_key h (as_subject_pub a) = Inr (pr_node_id p)"
proof -
  from assms(1) obtain a body where a: "parse_assertion blob = Some a" "signed_body a = Inr body"
    "verifier body (as_signature a) (as_subject_pub a)" "as_app_id a = app_id"
    "as_audience a = audience \<or> as_audience a = ANY_AUDIENCE" "as_purpose a = purpose" "as_ctx a = ctx"
    "as_issued_at a \<le> stamp + MAX_SKEW" "stamp < as_expires_at a"
    "node_id_from_public_key h (as_subject_pub a) = Inr (pr_node_id p)" "pr_public_key p = as_subject_pub a"
    by (rule verify_assertion_accepts) simp
  have "take (length AUTH_DOMAIN) body = AUTH_DOMAIN" using a(2) by (auto simp: signed_body_def rbind_Inr)
  with assms(2) [of body "as_signature a"] assms(3) [of body] a(3,11)
  obtain m where m: "m \<in> made" "valid_assertion m" "signed_body m = Inr body" by auto
  have "assertion_fields a = assertion_fields m"
    using a(2) m(3) by (auto simp: signed_body_def rbind_Inr)
  with parse_assertion_valid [OF a(1)] m(2) have "m = a\<lparr> as_signature := as_signature m \<rparr>"
    by (rule assertion_fields_inj)
  then have "as_app_id m = as_app_id a \<and> as_audience m = as_audience a \<and> as_purpose m = as_purpose a \<and>
      as_ctx m = as_ctx a \<and> as_issued_at m = as_issued_at a \<and> as_ttl m = as_ttl a \<and> as_subject_pub m = as_subject_pub a"
    by (metis assertion.select_convs assertion.surjective assertion.update_convs(9))
  with a(4-11) m(1) show ?thesis by (auto simp: MAX_SKEW_def as_expires_at_def)
qed

definition demo_assertion :: assertion where
  "demo_assertion = \<lparr> as_app_id = replicate 8 7, as_subject_pub = [5], as_audience = replicate 20 1, as_purpose = [],
    as_nonce = replicate 16 2, as_issued_at = 100, as_ttl = 120, as_ctx = replicate 32 0, as_signature = [9] \<rparr>"

definition login_sha :: hash_env where
  "login_sha = \<lparr> h_sha256 = (\<lambda>_. replicate 32 3), h_blake2b = (\<lambda>n _ _. replicate n 0) \<rparr>"

text \<open>What verifies in the example: the body of that assertion, and a message of another kind.\<close>

definition demo_verifier :: "bytes \<Rightarrow> bytes \<Rightarrow> bytes \<Rightarrow> bool" where
  "demo_verifier m sig key \<longleftrightarrow> signed_body demo_assertion = Inr m \<or> m = [1, 0]"

lemma demo_assertion_fields:
  "as_app_id demo_assertion = replicate 8 7" "as_subject_pub demo_assertion = [5]" "as_audience demo_assertion = replicate 20 1"
  "as_purpose demo_assertion = []" "as_nonce demo_assertion = replicate 16 2" "as_issued_at demo_assertion = 100"
  "as_ttl demo_assertion = 120" "as_ctx demo_assertion = replicate 32 0" "as_expires_at demo_assertion = 220"
  by (simp_all add: demo_assertion_def as_expires_at_def)

lemma demo_assertion_valid: "valid_assertion demo_assertion"
  by (simp add: demo_assertion_def valid_assertion_def MAX_PUB_LEN_def MAX_PURPOSE_LEN_def MAX_TTL_def MAX_SIG_LEN_def)

lemma demo_assertion_built: "\<exists>b body. assertion_bytes demo_assertion = Inr b \<and> signed_body demo_assertion = Inr body"
  using assertion_fields_eq [OF demo_assertion_valid]
  by (simp add: assertion_bytes_def signed_body_def pack_uint_def) (simp add: demo_assertion_def)

theorem assertion_not_transferable_witness:
  "\<exists>blob p. verify_assertion login_sha demo_verifier (replicate 8 7) (replicate 20 1) (Some []) (Some (replicate 32 0)) 110 blob None =
      Inr (Some p, None) \<and> demo_verifier [1, 0] [9] (pr_public_key p) \<and>
    as_app_id demo_assertion = replicate 8 7 \<and> as_purpose demo_assertion = [] \<and> as_ctx demo_assertion = replicate 32 0 \<and>
    as_issued_at demo_assertion \<le> 170 \<and> 110 < as_issued_at demo_assertion + as_ttl demo_assertion \<and>
    as_subject_pub demo_assertion = pr_public_key p"
proof -
  obtain b body where b: "assertion_bytes demo_assertion = Inr b" "signed_body demo_assertion = Inr body"
    using demo_assertion_built by blast
  obtain p where p: "verify_assertion login_sha demo_verifier (replicate 8 7) (replicate 20 1) (Some []) (Some (replicate 32 0)) 110 b None =
      Inr (Some p, None)"
    using parse_assertion_bytes [OF demo_assertion_valid b(1)] b(2)
    by (simp add: verify_assertion_def demo_verifier_def demo_assertion_fields MAX_SKEW_def node_id_from_public_key_def
        new_node_id_def login_sha_def Let_def)
  have tag: "take (length AUTH_DOMAIN) [1, 0 :: byte] \<noteq> AUTH_DOMAIN" by (simp add: AUTH_DOMAIN_def ascii_def)
  obtain a where "a \<in> {demo_assertion}" "as_app_id a = replicate 8 7" "as_purpose a = []" "as_ctx a = replicate 32 0"
    "as_issued_at a \<le> 170" "110 < as_issued_at a + as_ttl a" "as_subject_pub a = pr_public_key p"
    using assertion_not_transferable [OF p, of "{[1, 0]}" "{demo_assertion}"] demo_assertion_valid tag
    by (auto simp: demo_verifier_def)
  with p show ?thesis by (auto simp: demo_verifier_def)
qed

section \<open>Single use\<close>

type_synonym claim = "bytes \<times> int \<times> int"

definition nonce_held :: "nonce_cache \<Rightarrow> claim \<Rightarrow> bool" where
  "nonce_held c = (\<lambda>(n, e, t). n \<in> fst ` set (nc_seen (nonce_expire t c)))"

definition nonce_record :: "nonce_cache \<Rightarrow> claim \<Rightarrow> (bool \<times> nonce_cache) option" where
  "nonce_record c = (\<lambda>(n, e, t). let (fresh, c) = nonce_claim n e t c in Some (\<not> fresh, c))"

definition nonce_ok :: "nonce_cache \<Rightarrow> bool" where
  "nonce_ok c \<longleftrightarrow> 1 \<le> nc_max c \<and> od_ok (nc_seen c) \<and> length (nc_seen c) \<le> nc_max c"

text \<open>A well-sized nonce claimed while it is valid, at a moment up to T.\<close>

definition claim_valid :: "int \<Rightarrow> claim \<Rightarrow> bool" where
  "claim_valid T = (\<lambda>(n, e, t). length n = NONCE_LEN \<and> T < e \<and> t \<le> T)"

fun nonce_run :: "nonce_cache \<Rightarrow> claim list \<Rightarrow> nonce_cache option" where
  "nonce_run c [] = Some c"
| "nonce_run c (v # vs) = Option.bind (nonce_record c v) (\<lambda>(b, c'). nonce_run c' vs)"

lemma nonce_expire_simps [simp]: "nc_max (nonce_expire t c) = nc_max c" "nonce_ok c \<Longrightarrow> nonce_ok (nonce_expire t c)"
  by (auto simp: nonce_expire_def nonce_ok_def intro: le_trans [OF length_filter_le])

lemma nonce_claim_ok: "nonce_ok c \<Longrightarrow> nonce_ok (snd (nonce_claim n e t c)) \<and> nc_max (snd (nonce_claim n e t c)) = nc_max c"
proof -
  assume ok: "nonce_ok c"
  let ?c = "nonce_expire t c"
  have ok': "nonce_ok ?c" using ok by simp
  have "n \<notin> fst ` set (od_trim k (nc_seen ?c))" if "map_of (nc_seen ?c) n = None" for k
    using that set_od_trim [of k "nc_seen ?c"] by (auto simp: map_of_eq_None_iff)
  then show ?thesis using ok ok' by (auto simp: nonce_claim_def Let_def nonce_ok_def split: option.split)
qed

lemma nonce_record_report:
  "nonce_ok c \<Longrightarrow> claim_valid T v \<Longrightarrow>
     \<exists>c'. nonce_record c v = Some (nonce_held c v, c') \<and> nonce_ok c' \<and> nc_max c' = nc_max c"
proof -
  assume ok: "nonce_ok c" and v: "claim_valid T v"
  obtain n e t where [simp]: "v = (n, e, t)" by (metis surj_pair)
  have "fst (nonce_claim n e t c) \<longleftrightarrow> \<not> nonce_held c v"
    using v by (auto simp: nonce_claim_def nonce_held_def claim_valid_def Let_def map_of_eq_None_iff
        split: option.split dest: map_of_mem)
  then show ?thesis using nonce_claim_ok [OF ok, of n e t]
    by (simp add: nonce_record_def case_prod_beta)
qed

text \<open>After its claim, a nonce has at most one younger entry per later claim.\<close>

definition placed :: "bytes \<Rightarrow> int \<Rightarrow> nat \<Rightarrow> nonce_cache \<Rightarrow> bool" where
  "placed n e k c \<longleftrightarrow> (\<exists>A B. nc_seen c = A @ (n, e) # B \<and> length B \<le> k)"

lemma placed_expire: "placed n e k c \<Longrightarrow> t < e \<Longrightarrow> placed n e k (nonce_expire t c)"
proof -
  assume "placed n e k c" "t < e"
  then obtain A B where "nc_seen c = A @ (n, e) # B" "length B \<le> k" by (auto simp: placed_def)
  moreover from this have "length (filter (\<lambda>(_, exp). \<not> exp \<le> t) B) \<le> k"
    by (simp add: le_trans [OF length_filter_le])
  ultimately show ?thesis using \<open>t < e\<close> by (simp add: placed_def nonce_expire_def) blast
qed

lemma placed_claim:
  assumes "placed n e k c" "t < e" "Suc k < nc_max c"
  shows "placed n e (Suc k) (snd (nonce_claim n' e' t c))"
proof -
  obtain A B where AB: "nc_seen (nonce_expire t c) = A @ (n, e) # B" "length B \<le> k"
    using placed_expire [OF assms(1,2)] by (auto simp: placed_def)
  have "od_trim (nc_max c - 1) (A @ (n, e) # B) = drop (length A + Suc (length B) - (nc_max c - 1)) A @ (n, e) # B"
    using assms(3) AB(2) by (simp add: od_trim_drop drop_Cons')
  with AB(1) have trim: "\<exists>A'. od_trim (nc_max c - 1) (nc_seen (nonce_expire t c)) = A' @ (n, e) # B" by auto
  have kept: "placed n e (Suc k) c" "placed n e (Suc k) (nonce_expire t c)"
    using assms(1) AB by (auto simp: placed_def intro: le_SucI)
  consider "length n' \<noteq> NONCE_LEN" | (old) x where "length n' = NONCE_LEN" "map_of (nc_seen (nonce_expire t c)) n' = Some x"
    | (new) "length n' = NONCE_LEN" "map_of (nc_seen (nonce_expire t c)) n' = None" by blast
  then show ?thesis
  proof cases
    case new
    from trim obtain A' where "od_trim (nc_max c - 1) (nc_seen (nonce_expire t c)) = A' @ (n, e) # B" by blast
    with new AB(2) show ?thesis unfolding placed_def
      by (intro exI [of _ A'] exI [of _ "B @ [(n', e')]"]) (simp add: nonce_claim_def)
  qed (use kept in \<open>simp_all add: nonce_claim_def\<close>)
qed

lemma placed_run:
  "placed n e k c \<Longrightarrow> T < e \<Longrightarrow> list_all (claim_valid T) vs \<Longrightarrow> k + length vs < nc_max c \<Longrightarrow> nonce_ok c \<Longrightarrow>
     nonce_run c vs = Some c' \<Longrightarrow> placed n e (k + length vs) c'"
proof (induction vs arbitrary: k c)
  case (Cons v vs)
  obtain n' e' t where v: "v = (n', e', t)" by (metis surj_pair)
  let ?c = "snd (nonce_claim n' e' t c)"
  have "t < e" using Cons.prems(2,3) by (simp add: v claim_valid_def)
  with Cons.prems have "placed n e (Suc k) ?c" by (intro placed_claim) auto
  moreover have "nonce_ok ?c" "nc_max ?c = nc_max c" using nonce_claim_ok [OF Cons.prems(5)] by simp_all
  moreover have "nonce_run ?c vs = Some c'" using Cons.prems(6) by (simp add: v nonce_record_def case_prod_beta)
  ultimately show ?case using Cons.IH [of "Suc k" ?c] Cons.prems(2,3,4) by simp
qed simp

interpretation nonces: replay_window nonce_held nonce_record nc_max nonce_ok "claim_valid T" nonce_run for T
proof unfold_locales
  fix c v
  assume "nonce_ok c" "claim_valid T v"
  then show "\<exists>c'. nonce_record c v = Some (nonce_held c v, c') \<and> nonce_ok c' \<and> nc_max c' = nc_max c"
    by (rule nonce_record_report)
next
  fix c v vs c' c''
  assume a: "nonce_ok c" "claim_valid T v" "list_all (claim_valid T) vs" "nonce_record c v = Some (False, c')"
    "nonce_run c' vs = Some c''" "length vs < nc_max c"
  obtain n e t where v: "v = (n, e, t)" by (metis surj_pair)
  have te: "t < e" "T < e" "t \<le> T" using a(2) by (auto simp: v claim_valid_def)
  have c': "c' = snd (nonce_claim n e t c)" "fst (nonce_claim n e t c)"
    using a(4) by (auto simp: v nonce_record_def case_prod_beta)
  have "placed n e 0 c'"
    using c' by (auto simp: nonce_claim_def Let_def placed_def split: option.splits if_splits)
  moreover have "nonce_ok c'" "nc_max c' = nc_max c" using nonce_claim_ok [OF a(1)] c' by auto
  ultimately have "placed n e (length vs) c''" using placed_run [of n e 0 c' T vs c''] te a(3,5,6) by simp
  from placed_expire [OF this te(1)] show "nonce_held c'' v"
    by (auto simp: nonce_held_def v placed_def)
qed simp_all

text \<open>A claim that is refused leaves what is held where it was.\<close>

lemma placed_refused:
  assumes "placed n e k c" "t < e" "\<not> fst (nonce_claim n' e' t c)"
  shows "placed n e k (snd (nonce_claim n' e' t c))"
  using assms placed_expire [OF assms(1,2)]
  by (auto simp: nonce_claim_def Let_def split: option.splits if_splits)

text \<open>Verifications one after the other on the cache of a node: how many succeeded, and the cache they leave.\<close>

fun verify_run :: "hash_env \<Rightarrow> (bytes \<Rightarrow> bytes \<Rightarrow> bytes \<Rightarrow> bool) \<Rightarrow> bytes \<Rightarrow> bytes \<Rightarrow>
    (bytes option \<times> bytes option \<times> int \<times> bytes) list \<Rightarrow> nonce_cache \<Rightarrow> (nat \<times> nonce_cache) option" where
  "verify_run h verifier app_id audience [] c = Some (0, c)"
| "verify_run h verifier app_id audience ((purpose, ctx, stamp, blob) # calls) c =
     (case verify_assertion h verifier app_id audience purpose ctx stamp blob (Some c) of
        Inr (res, Some c') \<Rightarrow>
          map_option (\<lambda>(k, c'). ((if res = None then 0 else 1) + k, c')) (verify_run h verifier app_id audience calls c')
      | _ \<Rightarrow> None)"

lemma verify_keeps_placed:
  assumes run: "verify_assertion h verifier app_id audience purpose ctx stamp blob (Some c) = Inr (res, Some c')"
    and p: "placed n e k c" "stamp < e" "nonce_ok c" "Suc k < nc_max c \<or> res = None"
  shows "placed n e ((if res = None then 0 else 1) + k) c' \<and> nonce_ok c' \<and> nc_max c' = nc_max c"
proof -
  have "res = None \<and> c' = c \<or> (\<exists>n' e'. nonce_claim n' e' stamp c = (res \<noteq> None, c'))"
    using run
    by (auto simp: verify_assertion_def Let_def rbind_Inr split: option.splits sum.splits if_splits prod.splits)
  then consider "res = None" "c' = c" | n' e' where "nonce_claim n' e' stamp c = (res \<noteq> None, c')" by blast
  then show ?thesis
  proof cases
    case (2 n' e')
    then have c': "c' = snd (nonce_claim n' e' stamp c)" "fst (nonce_claim n' e' stamp c) \<longleftrightarrow> res \<noteq> None" by simp_all
    with nonce_claim_ok [OF p(3), of n' e' stamp] placed_refused [OF p(1,2), of n' e'] placed_claim [OF p(1,2), of n' e'] p(4)
    show ?thesis by auto
  qed (use p in simp)
qed

lemma verify_run_placed:
  "verify_run h verifier app_id audience calls c = Some (accepted, c2) \<Longrightarrow> placed n e k c \<Longrightarrow> T < e \<Longrightarrow> nonce_ok c \<Longrightarrow>
     list_all (\<lambda>(_, _, t, _). t \<le> T) calls \<Longrightarrow> k + accepted < nc_max c \<Longrightarrow> placed n e (k + accepted) c2"
proof (induction calls arbitrary: c k accepted)
  case (Cons call calls)
  obtain purpose ctx stamp blob where call: "call = (purpose, ctx, stamp, blob)" by (metis surj_pair)
  from Cons.prems(1) call obtain res c' m where v: "verify_assertion h verifier app_id audience purpose ctx stamp blob (Some c) = Inr (res, Some c')"
    "verify_run h verifier app_id audience calls c' = Some (m, c2)" "accepted = (if res = None then 0 else 1) + m"
    by (auto split: sum.splits option.splits)
  have "stamp < e" using Cons.prems(3,5) call by simp
  note keep = verify_keeps_placed [OF v(1) Cons.prems(2) this Cons.prems(4)]
  have "Suc k < nc_max c \<or> res = None" using Cons.prems(6) v(3) by auto
  note kept = keep [OF this]
  have "placed n e ((if res = None then 0 else 1) + k + m) c2"
    using Cons.IH [OF v(2), of "(if res = None then 0 else 1) + k"] kept Cons.prems(3,5,6) v(3) by simp
  then show ?case using v(3) by (simp add: ac_simps)
qed simp

text \<open>
  C38: An assertion opens a door once. After a verification that succeeded, any assertion carrying the
  same nonce - the same bytes again, or the same statement with its unsigned reserved byte changed - is refused,
  whatever was verified in between, as long as fewer other assertions than the cache holds were accepted in between
  and none of the moments is past the validity of the first.
\<close>
theorem assertion_single_use:
  assumes c: "nonce_ok c"
    and v: "verify_assertion h verifier app_id audience purpose ctx stamp blob (Some c) = Inr (Some p, Some c1)"
    and run: "verify_run h verifier app_id audience calls c1 = Some (accepted, c2)" "accepted < nc_max c"
    and times: "list_all (\<lambda>(_, _, t, _). t \<le> T) calls" "stamp \<le> T" "stamp' \<le> T" "T < as_expires_at a"
    and a: "parse_assertion blob = Some a"
    and b: "parse_assertion blob' = Some b" "as_nonce b = as_nonce a"
  shows "\<exists>c3. verify_assertion h verifier app_id audience purpose' ctx' stamp' blob' (Some c2) = Inr (None, c3)"
proof -
  have len: "length (as_nonce a) = NONCE_LEN"
    using parse_assertion_valid [OF a] by (simp add: valid_assertion_def NONCE_LEN_def)
  have claim: "nonce_claim (as_nonce a) (as_expires_at a) stamp c = (True, c1)"
    using v a by (rule_tac verify_assertion_accepts [OF v]) simp
  have "placed (as_nonce a) (as_expires_at a) 0 c1"
    using claim by (auto simp: nonce_claim_def Let_def placed_def split: option.splits if_splits)
  moreover have "nonce_ok c1" "nc_max c1 = nc_max c" using nonce_claim_ok [OF c, of "as_nonce a" "as_expires_at a" stamp] claim by auto
  ultimately have "placed (as_nonce a) (as_expires_at a) accepted c2"
    using verify_run_placed [OF run(1), of _ _ 0 T] run(2) times by simp
  then have "placed (as_nonce a) (as_expires_at a) accepted (nonce_expire stamp' c2)"
    using times by (intro placed_expire) auto
  then obtain A B where "nc_seen (nonce_expire stamp' c2) = A @ (as_nonce a, as_expires_at a) # B"
    by (auto simp: placed_def)
  then have "map_of (nc_seen (nonce_expire stamp' c2)) (as_nonce a) \<noteq> None" by (simp add: map_of_eq_None_iff)
  then have "\<not> fst (nonce_claim (as_nonce b) e stamp' c2)" for e
    using b(2) len by (auto simp: nonce_claim_def Let_def split: option.split)
  then show ?thesis using b(1) by (auto simp: verify_assertion_def Let_def case_prod_beta)
qed

theorem assertion_single_use_witness:
  "\<exists>blob c1 c3. (\<exists>p. verify_assertion login_sha (\<lambda>_ _ _. True) (replicate 8 7) (replicate 20 1) None None 110 blob
       (Some (new_nonce_cache 4)) = Inr (Some p, Some c1)) \<and>
     verify_run login_sha (\<lambda>_ _ _. True) (replicate 8 7) (replicate 20 1) [(None, None, 112, [1])] c1 = Some (0, c1) \<and>
     verify_assertion login_sha (\<lambda>_ _ _. True) (replicate 8 7) (replicate 20 1) None None 115 blob (Some c1) = Inr (None, c3)"
proof -
  obtain b body where b: "assertion_bytes demo_assertion = Inr b" "signed_body demo_assertion = Inr body"
    using demo_assertion_built by blast
  note parsed = parse_assertion_bytes [OF demo_assertion_valid b(1)]
  obtain p c1 where p: "verify_assertion login_sha (\<lambda>_ _ _. True) (replicate 8 7) (replicate 20 1) None None 110 b (Some (new_nonce_cache 4))
      = Inr (Some p, Some c1)"
    using parsed b(2)
    by (simp add: verify_assertion_def demo_assertion_fields MAX_SKEW_def node_id_from_public_key_def new_node_id_def Let_def
        login_sha_def nonce_claim_def NONCE_LEN_def nonce_expire_def new_nonce_cache_def)
  have run: "verify_run login_sha (\<lambda>_ _ _. True) (replicate 8 7) (replicate 20 1) [(None, None, 112, [1])] c1 = Some (0, c1)"
    by (simp add: verify_assertion_def parse_assertion_def)
  have "nonce_ok (new_nonce_cache 4)" by (simp add: nonce_ok_def new_nonce_cache_def)
  from assertion_single_use [OF this p run _ _ _ _ _ parsed parsed refl, of 200 115 None None]
  obtain c3 where "verify_assertion login_sha (\<lambda>_ _ _. True) (replicate 8 7) (replicate 20 1) None None 115 b (Some c1) = Inr (None, c3)"
    by (auto simp: demo_assertion_fields new_nonce_cache_def)
  with p run show ?thesis by blast
qed

section \<open>The login between two honest ends\<close>

text \<open>What the signature scheme promises of an honest pair: its keys and signatures are of a size the
  wire carries, and each end verifies what the other signs.\<close>

definition honest :: "hash_env \<Rightarrow> signer \<Rightarrow> node_id \<Rightarrow> signer \<Rightarrow> bool" where
  "honest h sg node_id other \<longleftrightarrow> node_id_from_public_key h (sg_pub sg) = Inr node_id \<and>
     0 < length (sg_pub sg) \<and> length (sg_pub sg) \<le> MAX_PUB_LEN \<and>
     (\<forall>m. 0 < length (sg_sign sg m) \<and> length (sg_sign sg m) \<le> MAX_SIG_LEN \<and>
          sg_verify other m (sg_sign sg m) (sg_pub sg))"

lemma login_purpose [simp]: "length PURPOSE_LOGIN = 10" "utf8_ok PURPOSE_LOGIN"
  by code_simp+

lemma assert_to_verifies:
  assumes hon: "honest h (aa_signer aa) (aa_node_id aa) (aa_signer bb)"
    and app: "aa_app_id bb = aa_app_id aa" "length (aa_app_id aa) = 8"
    and lens: "length (aa_node_id bb) = 20" "length ctx = 32" "length nonce = 16"
    and times: "0 \<le> w" "w < 2 ^ 62" "w \<le> w' + 60" "w' < w + 120"
    and fresh: "nonce_ok (aa_nonces bb)" "nonce \<notin> fst ` set (nc_seen (aa_nonces bb))"
  shows "\<exists>evid p c. assert_to aa (aa_node_id bb) PURPOSE_LOGIN ctx 120 nonce w = Inr evid \<and>
    auth_verify h evid (Some PURPOSE_LOGIN) (Some ctx) None w' bb = Inr (Some p, bb\<lparr> aa_nonces := c \<rparr>) \<and>
    pr_node_id p = aa_node_id aa \<and> pr_public_key p = sg_pub (aa_signer aa)"
proof -
  let ?u = "\<lparr> as_app_id = aa_app_id aa, as_subject_pub = sg_pub (aa_signer aa), as_audience = aa_node_id bb,
    as_purpose = PURPOSE_LOGIN, as_nonce = nonce, as_issued_at = w, as_ttl = 120, as_ctx = ctx, as_signature = [] \<rparr>"
  obtain body where body: "signed_body ?u = Inr body"
  proof -
    have "valid_assertion (?u\<lparr> as_signature := [0] \<rparr>)"
      using hon app lens times by (simp add: honest_def valid_assertion_def MAX_PURPOSE_LEN_def MAX_TTL_def MAX_SIG_LEN_def)
    from assertion_fields_eq [OF this] have "\<exists>b. assertion_fields (?u\<lparr> as_signature := [0] \<rparr>) = Inr b" by blast
    moreover have "assertion_fields (?u\<lparr> as_signature := [0] \<rparr>) = assertion_fields ?u" by (simp add: assertion_fields_def)
    ultimately show thesis using that by (auto simp: signed_body_def)
  qed
  let ?a = "?u\<lparr> as_signature := sg_sign (aa_signer aa) body \<rparr>"
  have v: "valid_assertion ?a"
    using hon app lens times by (simp add: honest_def valid_assertion_def MAX_PURPOSE_LEN_def MAX_TTL_def)
  have same: "signed_body ?a = Inr body" using body by (simp add: signed_body_def assertion_fields_def)
  have made: "make_assertion (aa_signer aa) (aa_app_id aa) (aa_node_id bb) PURPOSE_LOGIN ctx 120 nonce w = Inr ?a"
    using app lens body by (simp add: make_assertion_def APP_ID_LEN_def CTX_LEN_def MAX_PURPOSE_LEN_def MAX_TTL_def)
  obtain evid where pf: "assertion_bytes ?a = Inr evid"
  proof -
    obtain f where f: "assertion_fields ?a = Inr f" using assertion_fields_eq [OF v] by blast
    have "length (sg_sign (aa_signer aa) body) \<le> 8192" using hon by (simp add: honest_def MAX_SIG_LEN_def)
    with f show thesis using that by (simp add: assertion_bytes_def pack_uint_def)
  qed
  have seen: "map_of (nc_seen (nonce_expire w' (aa_nonces bb))) nonce = None"
    using fresh(2) by (auto simp: nonce_expire_def map_of_eq_None_iff)
  have claim: "fst (nonce_claim nonce (w + 120) w' (aa_nonces bb))"
    using seen lens by (simp add: nonce_claim_def NONCE_LEN_def Let_def)
  obtain c where c: "nonce_claim nonce (w + 120) w' (aa_nonces bb) = (True, c)"
    using claim by (metis prod.collapse)
  have "verify_assertion h (sg_verify (aa_signer bb)) (aa_app_id bb) (aa_node_id bb) (Some PURPOSE_LOGIN) (Some ctx) w' evid (Some (aa_nonces bb)) =
      Inr (Some \<lparr> pr_node_id = aa_node_id aa, pr_public_key = sg_pub (aa_signer aa), pr_app_id = aa_app_id aa,
        pr_purpose = PURPOSE_LOGIN, pr_ctx = ctx, pr_issued_at = w, pr_expires_at = w + 120 \<rparr>, Some c)"
  proof -
    have "sg_verify (aa_signer bb) body (sg_sign (aa_signer aa) body) (sg_pub (aa_signer aa))"
      "node_id_from_public_key h (sg_pub (aa_signer aa)) = Inr (aa_node_id aa)"
      using hon by (simp_all add: honest_def)
    with same c app(1) times show ?thesis
      by (simp add: verify_assertion_def parse_assertion_bytes [OF v pf] as_expires_at_def MAX_SKEW_def)
  qed
  then show ?thesis
    using made pf by (intro exI [of _ evid]) (simp add: assert_to_def auth_verify_def, blast)
qed

lemma ctx_hash_short:
  "list_all (\<lambda>p. length p < 256 ^ 4) parts \<Longrightarrow> \<exists>b. ctx_hash h parts = Inr (h_sha256 h b)"
proof -
  have pre: "list_all (\<lambda>p. length p < 256 ^ 4) parts \<Longrightarrow> \<exists>b. ctx_preimage parts = Inr b" for parts
    by (induction parts) (auto simp: pack_uint_def)
  assume "list_all (\<lambda>p. length p < 256 ^ 4) parts"
  from pre [OF this] show ?thesis by (auto simp: ctx_hash_def)
qed

text \<open>Two ends that have not spoken: nothing pending, no session, no nonce used.\<close>

definition idle :: "app_auth \<Rightarrow> bool" where
  "idle aa \<longleftrightarrow> aa_pending aa = [] \<and> aa_sessions aa = [] \<and> nc_seen (aa_nonces aa) = [] \<and> 1 \<le> nc_max (aa_nonces aa) \<and>
     length (aa_app_id aa) = 8 \<and> length (aa_node_id aa) = 20"

lemma login_ctx_ok:
  assumes "\<And>m. length (h_sha256 h m) = 32" "length na = 16" "length nb = 16"
  obtains ctx sid where "login_ctx h na nb = Inr ctx" "length ctx = 32" "session_id h na nb = Inr sid"
proof -
  have "length (ascii s) = length s" for s by (simp add: ascii_def)
  then obtain b b' where "login_ctx h na nb = Inr (h_sha256 h b)"
    "ctx_hash h [ascii ''session'', na, nb] = Inr (h_sha256 h b')"
    using ctx_hash_short [of "[ascii ''login'', na, nb]" h] ctx_hash_short [of "[ascii ''session'', na, nb]" h] assms
    by (auto simp: login_ctx_def)
  then show thesis using that assms(1) by (simp add: session_id_def)
qed

text \<open>
  Two honest ends agree. Started from rest, the three frames of the login carry both ends to an
  established session: they hold the same session id, and each holds the identity and the key the
  other proved, whatever random nonces were drawn, as long as each proof is checked within its
  two minutes of validity (with a minute of clock skew).
\<close>
theorem login_agrees:
  assumes A: "idle A" and B: "idle B" and app: "aa_app_id B = aa_app_id A"
    and sha: "\<And>m. length (h_sha256 h m) = 32"
    and hon: "honest h (aa_signer A) (aa_node_id A) (aa_signer B)" "honest h (aa_signer B) (aa_node_id B) (aa_signer A)"
    and lens: "length na = 16" "length nb = 16" "length n1 = 16" "length n2 = 16"
    and t: "0 \<le> w1" "w1 < 2 ^ 62" "w1 \<le> w2 + 60" "w2 < w1 + 120" "0 \<le> w2" "w2 < 2 ^ 62" "w2 \<le> w3 + 60" "w3 < w2 + 120"
  shows "\<exists>f1 A1 f2 B1 f3 sA A2 sB B2.
    start_login (aa_node_id B) na t0 A = (f1, A1) \<and>
    answer_login h (aa_node_id A) f1 nb n1 w1 t1 B = Inr (Some f2, B1) \<and>
    complete_login h (aa_node_id B) f2 n2 w2 t2 A1 = Inr (Some (f3, sA), A2) \<and>
    accept_login h (aa_node_id A) f3 w3 t3 B1 = Inr (Some sB, B2) \<and>
    se_sid sA = se_sid sB \<and> se_peer sA = aa_node_id B \<and> se_peer sB = aa_node_id A \<and>
    se_peer_key sA = sg_pub (aa_signer B) \<and> se_peer_key sB = sg_pub (aa_signer A)"
proof -
  let ?A1 = "A\<lparr> aa_pending := [(na, aa_node_id B, [], t0 + aa_ttl A)] \<rparr>"
  let ?B1 = "B\<lparr> aa_pending := [(nb, aa_node_id A, na, t1 + aa_ttl B)] \<rparr>"
  have start: "start_login (aa_node_id B) na t0 A = (HELLO # na, ?A1)"
    using A by (simp add: start_login_def prune_pending_def idle_def)
  obtain ctx sid where ctx: "login_ctx h na nb = Inr ctx" "length ctx = 32" "session_id h na nb = Inr sid"
    using login_ctx_ok [OF sha lens(1,2)] by blast
  obtain e1 p1 c1 where e1: "assert_to B (aa_node_id A) PURPOSE_LOGIN ctx 120 n1 w1 = Inr e1"
    "auth_verify h e1 (Some PURPOSE_LOGIN) (Some ctx) None w2 ?A1 = Inr (Some p1, ?A1\<lparr> aa_nonces := c1 \<rparr>)"
    "pr_node_id p1 = aa_node_id B" "pr_public_key p1 = sg_pub (aa_signer B)"
    using assert_to_verifies [of h B ?A1 ctx n1 w1 w2] A B app hon lens t ctx(2)
    by (auto simp: idle_def nonce_ok_def)
  have answer: "answer_login h (aa_node_id A) (HELLO # na) nb n1 w1 t1 B = Inr (Some (CHALLENGE # nb @ e1), ?B1)"
    using B lens e1(1) ctx(1)
    by (simp add: answer_login_def prune_pending_def idle_def NONCE_LEN_def AUTH_MAX_PENDING_def assert_to_def)
  obtain e2 p2 c2 where e2: "assert_to A (aa_node_id B) PURPOSE_LOGIN ctx 120 n2 w2 = Inr e2"
    "auth_verify h e2 (Some PURPOSE_LOGIN) (Some ctx) None w3 ?B1 = Inr (Some p2, ?B1\<lparr> aa_nonces := c2 \<rparr>)"
    "pr_node_id p2 = aa_node_id A" "pr_public_key p2 = sg_pub (aa_signer A)"
    using assert_to_verifies [of h A ?B1 ctx n2 w2 w3] A B app hon lens t ctx(2)
    by (auto simp: idle_def nonce_ok_def)
  obtain sA A2 where complete: "complete_login h (aa_node_id B) (CHALLENGE # nb @ e1) n2 w2 t2 ?A1 = Inr (Some (PROVE # e2, sA), A2)"
    "se_sid sA = sid" "se_peer sA = aa_node_id B" "se_peer_key sA = sg_pub (aa_signer B)"
    using lens e1(2-4) e2(1) ctx
    by (simp add: complete_login_def NONCE_LEN_def slice_def pending_hello_def assert_to_def store_session_def Let_def)
  obtain sB B2 where accept: "accept_login h (aa_node_id A) (PROVE # e2) w3 t3 ?B1 = Inr (Some sB, B2)"
    "se_sid sB = sid" "se_peer sB = aa_node_id A" "se_peer_key sB = sg_pub (aa_signer A)"
  proof -
    have "na \<noteq> []" using lens(1) by auto
    then show thesis
      using that e2(2-4) ctx by (simp add: accept_login_def pending_challenge_def store_session_def Let_def)
  qed
  show ?thesis
    by (intro exI conjI, rule start, rule answer, rule complete(1), rule accept(1))
      (simp_all add: complete(2-4) accept(2-4))
qed

definition demo_hash :: hash_env where
  "demo_hash = \<lparr> h_sha256 = (\<lambda>m. take 32 (m @ replicate 32 0)), h_blake2b = (\<lambda>n _ _. replicate n 0) \<rparr>"

definition demo_end :: "bytes \<Rightarrow> app_auth" where
  "demo_end key = \<lparr> aa_signer = \<lparr> sg_pub = key, sg_sign = (\<lambda>m. [1]), sg_verify = (\<lambda>m s k. True) \<rparr>,
     aa_app_id = replicate 8 7, aa_node_id = take 20 key, aa_ttl = 3600, aa_max_sessions = 512,
     aa_nonces = new_nonce_cache 8192, aa_sessions = [], aa_pending = [] \<rparr>"

theorem login_agrees_witness:
  "\<exists>f1 A1 f2 B1 f3 sA A2 sB B2.
    start_login (replicate 20 6) (replicate 16 1) 0 (demo_end (replicate 32 5)) = (f1, A1) \<and>
    answer_login demo_hash (replicate 20 5) f1 (replicate 16 2) (replicate 16 3) 100 0 (demo_end (replicate 32 6)) = Inr (Some f2, B1) \<and>
    complete_login demo_hash (replicate 20 6) f2 (replicate 16 4) 100 0 A1 = Inr (Some (f3, sA), A2) \<and>
    accept_login demo_hash (replicate 20 5) f3 101 0 B1 = Inr (Some sB, B2) \<and> se_sid sA = se_sid sB"
proof -
  let ?A = "demo_end (replicate 32 5)" and ?B = "demo_end (replicate 32 6)"
  have node: "aa_node_id ?A = replicate 20 5" "aa_node_id ?B = replicate 20 6" by (simp_all add: demo_end_def)
  have "idle ?A" "idle ?B" "aa_app_id ?B = aa_app_id ?A"
    "honest demo_hash (aa_signer ?A) (aa_node_id ?A) (aa_signer ?B)"
    "honest demo_hash (aa_signer ?B) (aa_node_id ?B) (aa_signer ?A)"
    by (simp_all add: idle_def demo_end_def honest_def demo_hash_def node_id_from_public_key_def new_node_id_def
        new_nonce_cache_def MAX_PUB_LEN_def MAX_SIG_LEN_def)
  note facts = this
  have sha: "length (h_sha256 demo_hash m) = 32" for m by (simp add: demo_hash_def)
  have "\<exists>f1 A1 f2 B1 f3 sA A2 sB B2.
    start_login (aa_node_id ?B) (replicate 16 1) 0 ?A = (f1, A1) \<and>
    answer_login demo_hash (aa_node_id ?A) f1 (replicate 16 2) (replicate 16 3) 100 0 ?B = Inr (Some f2, B1) \<and>
    complete_login demo_hash (aa_node_id ?B) f2 (replicate 16 4) 100 0 A1 = Inr (Some (f3, sA), A2) \<and>
    accept_login demo_hash (aa_node_id ?A) f3 101 0 B1 = Inr (Some sB, B2) \<and>
    se_sid sA = se_sid sB \<and> se_peer sA = aa_node_id ?B \<and> se_peer sB = aa_node_id ?A \<and>
    se_peer_key sA = sg_pub (aa_signer ?B) \<and> se_peer_key sB = sg_pub (aa_signer ?A)"
    by (rule login_agrees [OF facts(1-3) sha facts(4,5)]) simp_all
  then show ?thesis unfolding node by blast
qed

end
