(* ===== verification/Utf8.thy ===== *)
theory Utf8
  imports NodeId
begin

text \<open>
  \<open>str.encode("utf-8")\<close> and \<open>bytes.decode("utf-8")\<close> on a Python string as the list of its code
  points: encoding refuses a surrogate, decoding is strict (no overlong form, no surrogate, nothing
  above \<open>0x10FFFF\<close>).
\<close>

definition scalar :: "nat \<Rightarrow> bool" where
  "scalar c \<longleftrightarrow> c < 0x110000 \<and> \<not> (0xD800 \<le> c \<and> c \<le> 0xDFFF)"

definition byte_of :: "nat \<Rightarrow> byte" where
  "byte_of n = word_of_nat n"

lemma unat_byte_of [simp]: "n < 256 \<Longrightarrow> unat (byte_of n) = n"
  by (simp add: byte_of_def unat_byte_of_nat)

definition utf8_char :: "nat \<Rightarrow> bytes" where
  "utf8_char c =
     (if c < 0x80 then [byte_of c]
      else if c < 0x800 then [byte_of (0xC0 + c div 64), byte_of (0x80 + c mod 64)]
      else if c < 0x10000
      then [byte_of (0xE0 + c div 4096), byte_of (0x80 + c div 64 mod 64), byte_of (0x80 + c mod 64)]
      else [byte_of (0xF0 + c div 262144), byte_of (0x80 + c div 4096 mod 64),
            byte_of (0x80 + c div 64 mod 64), byte_of (0x80 + c mod 64)])"

definition utf8_encode :: "pystr \<Rightarrow> bytes result" where
  "utf8_encode s = (if list_all scalar s then Inr (concat (map utf8_char s)) else Inl ValueError)"

definition cont_val :: "byte \<Rightarrow> nat option" where
  "cont_val b = (if 0x80 \<le> unat b \<and> unat b \<le> 0xBF then Some (unat b - 0x80) else None)"

fun utf8_decode :: "bytes \<Rightarrow> pystr option" where
  "utf8_decode [] = Some []"
| "utf8_decode (b # bs) =
     (let n = unat b in
      if n < 0x80 then map_option ((#) n) (utf8_decode bs)
      else if 0xC2 \<le> n \<and> n \<le> 0xDF
      then (case bs of x # r \<Rightarrow>
              (case cont_val x of None \<Rightarrow> None | Some p \<Rightarrow> map_option ((#) ((n - 0xC0) * 64 + p)) (utf8_decode r))
            | _ \<Rightarrow> None)
      else if 0xE0 \<le> n \<and> n \<le> 0xEF
      then (case bs of x # y # r \<Rightarrow>
              (case (cont_val x, cont_val y) of
                 (Some p, Some q) \<Rightarrow>
                   (let c = (n - 0xE0) * 4096 + p * 64 + q in
                    if 0x800 \<le> c \<and> \<not> (0xD800 \<le> c \<and> c \<le> 0xDFFF) then map_option ((#) c) (utf8_decode r) else None)
               | _ \<Rightarrow> None)
            | _ \<Rightarrow> None)
      else if 0xF0 \<le> n \<and> n \<le> 0xF4
      then (case bs of x # y # z # r \<Rightarrow>
              (case (cont_val x, cont_val y, cont_val z) of
                 (Some p, Some q, Some w) \<Rightarrow>
                   (let c = (n - 0xF0) * 262144 + p * 4096 + q * 64 + w in
                    if 0x10000 \<le> c \<and> c < 0x110000 then map_option ((#) c) (utf8_decode r) else None)
               | _ \<Rightarrow> None)
            | _ \<Rightarrow> None)
      else None)"

lemma cont_val_of: "p < 64 \<Longrightarrow> cont_val (byte_of (0x80 + p)) = Some p"
  by (simp add: cont_val_def)

lemma utf8_decode_char:
  assumes "scalar c"
  shows "utf8_decode (utf8_char c @ bs) = map_option ((#) c) (utf8_decode bs)"
proof -
  have c: "c < 0x110000" "\<not> (0xD800 \<le> c \<and> c \<le> 0xDFFF)" using assms by (simp_all add: scalar_def)
  have low: "c mod 64 < 64" "c div 64 mod 64 < 64" "c div 4096 mod 64 < 64" by simp_all
  note cv = cont_val_of [OF low(1)] cont_val_of [OF low(2)] cont_val_of [OF low(3)]
  have d1: "c div 64 * 64 + c mod 64 = c" by simp
  have d2: "c div 4096 * 64 + c div 64 mod 64 = c div 64"
    using div_mult_mod_eq [of "c div 64" 64] by (simp add: div_mult2_eq [symmetric])
  have d3: "c div 262144 * 64 + c div 4096 mod 64 = c div 4096"
    using div_mult_mod_eq [of "c div 4096" 64] by (simp add: div_mult2_eq [symmetric])
  consider (1) "c < 0x80" | (2) "0x80 \<le> c" "c < 0x800" | (3) "0x800 \<le> c" "c < 0x10000" | (4) "0x10000 \<le> c"
    by linarith
  then show ?thesis
  proof cases
    case 1
    then show ?thesis by (simp add: utf8_char_def)
  next
    case 2
    have r: "2 \<le> c div 64" "c div 64 \<le> 31" using 2 by simp_all
    have "utf8_char c @ bs = byte_of (0xC0 + c div 64) # byte_of (0x80 + c mod 64) # bs"
      using 2 by (simp add: utf8_char_def)
    then show ?thesis using r by (simp add: cv Let_def)
  next
    case 3
    have r: "c div 4096 \<le> 15" using 3 by simp
    have e: "c div 4096 * 4096 + c div 64 mod 64 * 64 + c mod 64 = c" using d1 d2 by linarith
    have "utf8_char c @ bs = byte_of (0xE0 + c div 4096) # byte_of (0x80 + c div 64 mod 64) # byte_of (0x80 + c mod 64) # bs"
      using 3 by (simp add: utf8_char_def)
    then show ?thesis using r 3 c(2) by (simp add: cv Let_def e)
  next
    case 4
    have r: "c div 262144 \<le> 4" using c by simp
    have e: "c div 262144 * 262144 + c div 4096 mod 64 * 4096 + c div 64 mod 64 * 64 + c mod 64 = c" using d1 d2 d3 by linarith
    have "utf8_char c @ bs = byte_of (0xF0 + c div 262144) # byte_of (0x80 + c div 4096 mod 64) #
        byte_of (0x80 + c div 64 mod 64) # byte_of (0x80 + c mod 64) # bs"
      using 4 by (simp add: utf8_char_def)
    then show ?thesis using r 4 c(1) by (simp add: cv Let_def e)
  qed
qed

lemma utf8_roundtrip: "utf8_encode s = Inr bs \<Longrightarrow> utf8_decode bs = Some s"
proof -
  have "list_all scalar s \<Longrightarrow> utf8_decode (concat (map utf8_char s)) = Some s"
    by (induction s) (simp_all add: utf8_decode_char del: utf8_decode.simps(2))
  then show "utf8_encode s = Inr bs \<Longrightarrow> utf8_decode bs = Some s"
    by (auto simp: utf8_encode_def split: if_splits)
qed

lemma utf8_encode_length: "utf8_encode s = Inr bs \<Longrightarrow> length bs = utf8_length s"
proof -
  have "length (utf8_char c) = (if c < 0x80 then 1 else if c < 0x800 then 2 else if c < 0x10000 then 3 else 4)" for c
    by (simp add: utf8_char_def)
  then have "length (concat (map utf8_char s)) = utf8_length s" for s
    by (induction s) (simp_all add: utf8_length_def)
  then show "utf8_encode s = Inr bs \<Longrightarrow> length bs = utf8_length s"
    by (auto simp: utf8_encode_def split: if_splits)
qed

end
