(* ===== verification/Codecs.thy ===== *)
theory Codecs
  imports Utf8 Routing
begin

text \<open>
  The payloads of the mesh protocol (\<open>src/mesh/codecs.py\<close>, the field widths of
  \<open>src/mesh/constants.py\<close>): certificate chains, handshakes, address lists, the trailer of a ping,
  punch signalling, invitation seeks, the fingerprints of a lookup and the entries of its answer.

  A decoder walks the data by offset as the code does and returns \<open>Inl ValueError\<close> where the code
  raises it, \<open>None\<close> where it returns \<open>None\<close>. A string is its code points, encoded and decoded
  strictly (\<open>Utf8\<close>). Certificates go through \<open>cert_serialize\<close> and \<open>cert_deserialize\<close>, so whatever a
  decoder returns is a valid certificate. \<open>EntryPacker\<close> is the class that packs an answer under a
  budget: its pool of certificates, its index from fingerprints and the entries already packed.
\<close>

definition ENTRY_POOL_MAX :: nat where "ENTRY_POOL_MAX = 32"
definition CERT_REF :: nat where "CERT_REF = 0"
definition CERT_HINT_MAX :: nat where "CERT_HINT_MAX = 32"
definition ENTRY_CHAIN_MAX :: nat where "ENTRY_CHAIN_MAX = 6"
definition ENTRY_COUNT_MAX :: nat where "ENTRY_COUNT_MAX = 20"
definition PUNCH_SIG_MAX :: nat where "PUNCH_SIG_MAX = 5000"
definition SEEK_MAX_PAYLOAD :: nat where "SEEK_MAX_PAYLOAD = 8192"

definition pack_H :: "nat \<Rightarrow> bytes result" where
  "pack_H n = pack_uint 2 (int n)"

definition u16_at :: "nat \<Rightarrow> bytes \<Rightarrow> nat" where
  "u16_at off data = be_val (slice off (off + 2) data)"

lemma pack_H_Inr: "pack_H n = Inr bs \<longleftrightarrow> n < 65536 \<and> bs = be_bytes 2 n"
  by (simp add: pack_H_def pack_uint_Inr del: be_bytes.simps)

text \<open>Reading at the place something was written.\<close>

lemma slice_field: "a = length pre \<Longrightarrow> b = a + length f \<Longrightarrow> slice a b (pre @ f @ rest) = f"
  by (simp add: slice_def)

lemma u16_field: "n < 65536 \<Longrightarrow> a = length pre \<Longrightarrow> u16_at a (pre @ be_bytes 2 n @ rest) = n"
  by (simp add: u16_at_def slice_field del: be_bytes.simps)

section \<open>Certificate chains and handshakes\<close>

fun encode_certs :: "certificate list \<Rightarrow> bytes result" where
  "encode_certs [] = Inr []"
| "encode_certs (c # cs) =
     rbind (cert_serialize c) (\<lambda>b. rbind (pack_H (length b)) (\<lambda>l. rbind (encode_certs cs) (\<lambda>r. Inr (l @ b @ r))))"

definition encode_chain :: "certificate list \<Rightarrow> bytes result" where
  "encode_chain chain =
     (if 256 \<le> length chain then Inl ValueError
      else rbind (encode_certs chain) (\<lambda>r. Inr (byte_of (length chain) # r)))"

fun decode_certs :: "hash_env \<Rightarrow> verifier \<Rightarrow> nat \<Rightarrow> nat \<Rightarrow> bytes \<Rightarrow> certificate list result" where
  "decode_certs h vf 0 off data = Inr []"
| "decode_certs h vf (Suc n) off data =
     (if length data < off + 2 then Inl ValueError
      else
        (let cert_len = u16_at off data; off = off + 2
         in if length data < off + cert_len then Inl ValueError
            else rbind (cert_deserialize h vf (slice off (off + cert_len) data)) (\<lambda>c.
                 rbind (decode_certs h vf n (off + cert_len) data) (\<lambda>cs. Inr (c # cs)))))"

definition decode_chain :: "hash_env \<Rightarrow> verifier \<Rightarrow> bytes \<Rightarrow> certificate list result" where
  "decode_chain h vf data =
     (if data = [] then Inr []
      else (let n = unat (hd data)
            in if ENTRY_CHAIN_MAX < n then Inl ValueError else decode_certs h vf n 1 data))"

definition encode_handshake :: "bytes \<Rightarrow> bytes \<Rightarrow> certificate list \<Rightarrow> bytes \<Rightarrow> bytes result" where
  "encode_handshake kem_pub dsa_pub chain signature =
     rbind (encode_chain chain) (\<lambda>chain_bytes.
     rbind (pack_H (length kem_pub)) (\<lambda>k. rbind (pack_H (length dsa_pub)) (\<lambda>d.
     rbind (pack_H (length chain_bytes)) (\<lambda>c.
       Inr (k @ d @ c @ kem_pub @ dsa_pub @ chain_bytes @ signature)))))"

definition split_handshake :: "bytes \<Rightarrow> (bytes \<times> bytes \<times> bytes \<times> bytes) result" where
  "split_handshake data =
     (if length data < 6 then Inl ValueError
      else
        (let kem_len = u16_at 0 data; dsa_len = u16_at 2 data; chain_len = u16_at 4 data; off = 6
         in if length data < off + kem_len + dsa_len + chain_len then Inl ValueError
            else
              (let kem_pub = slice off (off + kem_len) data; off = off + kem_len;
                   dsa_pub = slice off (off + dsa_len) data; off = off + dsa_len;
                   chain_bytes = slice off (off + chain_len) data; off = off + chain_len
               in Inr (kem_pub, dsa_pub, chain_bytes, drop off data))))"

definition decode_handshake :: "hash_env \<Rightarrow> verifier \<Rightarrow> bytes \<Rightarrow> (bytes \<times> bytes \<times> certificate list \<times> bytes) result" where
  "decode_handshake h vf data =
     rbind (split_handshake data) (\<lambda>(kem_pub, dsa_pub, chain_bytes, signature).
     rbind (decode_chain h vf chain_bytes) (\<lambda>chain. Inr (kem_pub, dsa_pub, chain, signature)))"

definition encode_handshake_ack ::
  "bytes \<Rightarrow> bytes \<Rightarrow> certificate list \<Rightarrow> certificate option \<Rightarrow> bytes \<Rightarrow> bytes result" where
  "encode_handshake_ack ciphertext dsa_pub chain issued signature =
     rbind (encode_chain chain) (\<lambda>chain_bytes.
     rbind (case issued of None \<Rightarrow> Inr [] | Some c \<Rightarrow> cert_serialize c) (\<lambda>issued_bytes.
     rbind (pack_H (length ciphertext)) (\<lambda>k. rbind (pack_H (length dsa_pub)) (\<lambda>d.
     rbind (pack_H (length chain_bytes)) (\<lambda>c. rbind (pack_H (length issued_bytes)) (\<lambda>i.
       Inr (k @ d @ c @ i @ ciphertext @ dsa_pub @ chain_bytes @ issued_bytes @ signature)))))))"

definition decode_handshake_ack ::
  "hash_env \<Rightarrow> verifier \<Rightarrow> bytes \<Rightarrow> (bytes \<times> bytes \<times> certificate list \<times> certificate option \<times> bytes) result" where
  "decode_handshake_ack h vf data =
     (if length data < 8 then Inl ValueError
      else
        (let ct_len = u16_at 0 data; dsa_len = u16_at 2 data; chain_len = u16_at 4 data;
             issued_len = u16_at 6 data; off = 8
         in if length data < off + ct_len + dsa_len + chain_len + issued_len then Inl ValueError
            else
              (let ciphertext = slice off (off + ct_len) data; off = off + ct_len;
                   dsa_pub = slice off (off + dsa_len) data; off = off + dsa_len;
                   chain_bytes = slice off (off + chain_len) data; off = off + chain_len;
                   issued_bytes = slice off (off + issued_len) data; off = off + issued_len
               in rbind (decode_chain h vf chain_bytes) (\<lambda>chain.
                  rbind (if issued_bytes = [] then Inr None
                         else rbind (cert_deserialize h vf issued_bytes) (\<lambda>c. Inr (Some c))) (\<lambda>issued.
                    Inr (ciphertext, dsa_pub, chain, issued, drop off data))))))"

definition encode_e2e_handshake ::
  "bytes \<Rightarrow> bytes \<Rightarrow> bytes \<Rightarrow> certificate list \<Rightarrow> bytes \<Rightarrow> bytes result" where
  "encode_e2e_handshake nonce kem_pub dsa_pub chain signature =
     rbind (encode_chain chain) (\<lambda>chain_bytes.
     rbind (pack_H (length kem_pub)) (\<lambda>k. rbind (pack_H (length dsa_pub)) (\<lambda>d.
     rbind (pack_H (length chain_bytes)) (\<lambda>c.
       Inr (pack_str 32 nonce @ k @ d @ c @ kem_pub @ dsa_pub @ chain_bytes @ signature)))))"

definition decode_e2e_handshake ::
  "hash_env \<Rightarrow> verifier \<Rightarrow> bytes \<Rightarrow> (bytes \<times> bytes \<times> bytes \<times> certificate list \<times> bytes) result" where
  "decode_e2e_handshake h vf data =
     (if length data < 38 then Inl ValueError
      else
        (let nonce = slice 0 32 data; kem_len = u16_at 32 data; dsa_len = u16_at 34 data;
             chain_len = u16_at 36 data; off = 38
         in if length data < off + kem_len + dsa_len + chain_len then Inl ValueError
            else
              (let kem_pub = slice off (off + kem_len) data; off = off + kem_len;
                   dsa_pub = slice off (off + dsa_len) data; off = off + dsa_len;
                   chain_bytes = slice off (off + chain_len) data; off = off + chain_len
               in rbind (decode_chain h vf chain_bytes) (\<lambda>chain.
                    Inr (nonce, kem_pub, dsa_pub, chain, drop off data)))))"

text \<open>The answer has the layout of the question, the ciphertext in place of the key.\<close>

definition encode_e2e_handshake_ack ::
  "bytes \<Rightarrow> bytes \<Rightarrow> bytes \<Rightarrow> certificate list \<Rightarrow> bytes \<Rightarrow> bytes result" where
  "encode_e2e_handshake_ack nonce ciphertext dsa_pub chain signature =
     encode_e2e_handshake nonce ciphertext dsa_pub chain signature"

definition decode_e2e_handshake_ack ::
  "hash_env \<Rightarrow> verifier \<Rightarrow> bytes \<Rightarrow> (bytes \<times> bytes \<times> bytes \<times> certificate list \<times> bytes) result" where
  "decode_e2e_handshake_ack h vf data = decode_e2e_handshake h vf data"

lemma decode_certs_encoded:
  assumes "encode_certs cs = Inr bs" "list_all (cert_valid h vf) cs" "off = length pre"
  shows "decode_certs h vf (length cs) off (pre @ bs @ rest) = Inr cs"
  using assms
proof (induction cs arbitrary: bs off pre)
  case (Cons c cs)
  then obtain b r where b: "cert_serialize c = Inr b" "length b < 65536" "encode_certs cs = Inr r"
      "bs = be_bytes 2 (length b) @ b @ r"
    by (auto simp: rbind_Inr pack_H_Inr simp del: be_bytes.simps)
  let ?h = "be_bytes 2 (length b)"
  let ?data = "pre @ ?h @ b @ r @ rest"
  have data: "pre @ bs @ rest = ?data" by (simp add: b del: be_bytes.simps)
  have u: "u16_at off ?data = length b" using u16_field [OF b(2) Cons.prems(3)] .
  have fits: "cert_fits c" using b(1) by (auto simp: cert_serialize_def rbind_Inr pack_uint_Inr cert_fits_def)
  have "b = cert_bytes c" using cert_serialize_valid [OF _ fits] b(1) Cons.prems(2) by fastforce
  then have dc: "cert_deserialize h vf b = Inr c"
    using cert_parse_serialized [OF _ fits, of h vf "[]"] Cons.prems(2) by simp
  have sl: "slice (off + 2) (off + 2 + length b) ?data = b"
    using slice_field [of "off + 2" "pre @ ?h" "off + 2 + length b" b "r @ rest"] Cons.prems(3)
    by (simp del: be_bytes.simps)
  have rec: "decode_certs h vf (length cs) (off + 2 + length b) ?data = Inr cs"
    using Cons.IH [OF b(3), of "off + 2 + length b" "pre @ ?h @ b"] Cons.prems(2,3) by (simp del: be_bytes.simps)
  have len: "\<not> length ?data < off + 2" "\<not> length ?data < off + 2 + length b"
    using Cons.prems(3) by (simp_all del: be_bytes.simps)
  show ?case unfolding data length_Cons decode_certs.simps Let_def u
    by (simp only: len if_False sl dc rec rbind_simps)
qed simp

lemma decode_chain_encoded:
  assumes "encode_chain cs = Inr bs" "list_all (cert_valid h vf) cs" "length cs \<le> 6"
  shows "decode_chain h vf bs = Inr cs"
proof -
  from assms(1) obtain r where r: "encode_certs cs = Inr r" "bs = [byte_of (length cs)] @ r @ []"
    by (auto simp: encode_chain_def rbind_Inr split: if_splits)
  from decode_certs_encoded [OF r(1) assms(2), of 1 "[byte_of (length cs)]" "[]"] r(2) assms(3)
  show ?thesis by (simp add: decode_chain_def ENTRY_CHAIN_MAX_def)
qed

text \<open>Whatever a chain decodes to has been verified, certificate by certificate.\<close>

lemma decode_certs_valid: "decode_certs h vf n off data = Inr cs \<Longrightarrow> list_all (cert_valid h vf) cs \<and> length cs = n"
  by (induction n arbitrary: off cs) (auto simp: rbind_Inr Let_def cert_parsed split: if_splits)

lemma decode_chain_valid:
  "decode_chain h vf data = Inr cs \<Longrightarrow> list_all (cert_valid h vf) cs \<and> length cs \<le> ENTRY_CHAIN_MAX"
  using decode_certs_valid by (fastforce simp: decode_chain_def Let_def split: if_splits)

lemma handshake_fields:
  assumes chain: "list_all (cert_valid h vf) chain" "length chain \<le> 6"
  shows "encode_handshake kem dsa chain sg = Inr bs \<Longrightarrow> decode_handshake h vf bs = Inr (kem, dsa, chain, sg)"
    and "encode_handshake_ack ct dsa chain issued sg = Inr bs \<Longrightarrow> (case issued of None \<Rightarrow> True | Some c \<Rightarrow> cert_valid h vf c) \<Longrightarrow>
      decode_handshake_ack h vf bs = Inr (ct, dsa, chain, issued, sg)"
    and "encode_e2e_handshake nonce kem dsa chain sg = Inr bs \<Longrightarrow> length nonce = 32 \<Longrightarrow>
      decode_e2e_handshake h vf bs = Inr (nonce, kem, dsa, chain, sg)"
proof -
  assume e: "encode_handshake kem dsa chain sg = Inr bs"
  then obtain cb where cb: "encode_chain chain = Inr cb" "length kem < 65536" "length dsa < 65536" "length cb < 65536"
      "bs = be_bytes 2 (length kem) @ be_bytes 2 (length dsa) @ be_bytes 2 (length cb) @ kem @ dsa @ cb @ sg"
    by (auto simp: encode_handshake_def rbind_Inr pack_H_Inr simp del: be_bytes.simps)
  define h1 h2 h3 where "h1 = be_bytes 2 (length kem)" and "h2 = be_bytes 2 (length dsa)" and "h3 = be_bytes 2 (length cb)"
  have hv: "be_val h1 = length kem" "be_val h2 = length dsa" "be_val h3 = length cb" "length h1 = 2" "length h2 = 2" "length h3 = 2"
    using cb(2-4) by (simp_all add: h1_def h2_def h3_def del: be_bytes.simps)
  have bs: "bs = h1 @ h2 @ h3 @ kem @ dsa @ cb @ sg" by (simp add: cb(5) h1_def h2_def h3_def)
  have "split_handshake bs = Inr (kem, dsa, cb, sg)"
    unfolding split_handshake_def u16_at_def by (simp add: bs hv slice_def Let_def)
  then show "decode_handshake h vf bs = Inr (kem, dsa, chain, sg)"
    using decode_chain_encoded [OF cb(1) chain] by (simp add: decode_handshake_def)
next
  assume e: "encode_handshake_ack ct dsa chain issued sg = Inr bs"
    and iv: "case issued of None \<Rightarrow> True | Some c \<Rightarrow> cert_valid h vf c"
  from e obtain cb ib where cb: "encode_chain chain = Inr cb" "(case issued of None \<Rightarrow> Inr [] | Some c \<Rightarrow> cert_serialize c) = Inr ib"
      "length ct < 65536" "length dsa < 65536" "length cb < 65536" "length ib < 65536"
      "bs = be_bytes 2 (length ct) @ be_bytes 2 (length dsa) @ be_bytes 2 (length cb) @ be_bytes 2 (length ib) @ ct @ dsa @ cb @ ib @ sg"
    by (auto simp: encode_handshake_ack_def rbind_Inr pack_H_Inr simp del: be_bytes.simps)
  define h1 h2 h3 h4 where "h1 = be_bytes 2 (length ct)" and "h2 = be_bytes 2 (length dsa)" and
    "h3 = be_bytes 2 (length cb)" and "h4 = be_bytes 2 (length ib)"
  have hv: "be_val h1 = length ct" "be_val h2 = length dsa" "be_val h3 = length cb" "be_val h4 = length ib"
    "length h1 = 2" "length h2 = 2" "length h3 = 2" "length h4 = 2"
    using cb(3-6) by (simp_all add: h1_def h2_def h3_def h4_def del: be_bytes.simps)
  have bs: "bs = h1 @ h2 @ h3 @ h4 @ ct @ dsa @ cb @ ib @ sg" by (simp add: cb(7) h1_def h2_def h3_def h4_def)
  have "(if ib = [] then Inr None else rbind (cert_deserialize h vf ib) (\<lambda>c. Inr (Some c))) = Inr issued"
  proof (cases issued)
    case (Some c)
    then have c: "cert_valid h vf c" "cert_serialize c = Inr ib" using iv cb(2) by simp_all
    have fits: "cert_fits c" using c(2) by (auto simp: cert_serialize_def rbind_Inr pack_uint_Inr cert_fits_def)
    have "cert_deserialize h vf ib = Inr c" "ib = cert_bytes c"
      using cert_parse_serialized [OF c(1) fits, of "[]"] cert_serialize_valid [OF c(1) fits] c(2) by simp_all
    moreover have "length (cert_bytes c) \<noteq> 0" by (simp add: cert_bytes_def del: be_bytes.simps)
    ultimately show ?thesis by (simp add: Some)
  qed (use cb(2) in simp)
  note ih = this
  have f: "slice 0 2 bs = h1" "slice 2 4 bs = h2" "slice 4 6 bs = h3" "slice 6 8 bs = h4"
    "slice 8 (8 + length ct) bs = ct" "slice (8 + length ct) (8 + length ct + length dsa) bs = dsa"
    "slice (8 + length ct + length dsa) (8 + length ct + length dsa + length cb) bs = cb"
    "slice (8 + length ct + length dsa + length cb) (8 + length ct + length dsa + length cb + length ib) bs = ib"
    "drop (8 + length ct + length dsa + length cb + length ib) bs = sg"
    by (simp_all add: bs slice_def hv)
  have len: "\<not> length bs < 8" "\<not> length bs < 8 + length ct + length dsa + length cb + length ib"
    by (simp_all add: bs hv)
  have "u16_at 0 bs = length ct" by (simp only: u16_at_def add_0_left f hv)
  then have u: "u16_at 0 bs = length ct" "u16_at 2 bs = length dsa" "u16_at 4 bs = length cb" "u16_at 6 bs = length ib"
    by (simp_all add: u16_at_def f(2-4) hv)
  show "decode_handshake_ack h vf bs = Inr (ct, dsa, chain, issued, sg)"
    unfolding decode_handshake_ack_def Let_def u
    by (simp only: f len if_False decode_chain_encoded [OF cb(1) chain] ih rbind_simps)
next
  assume e: "encode_e2e_handshake nonce kem dsa chain sg = Inr bs" and n: "length nonce = 32"
  then obtain cb where cb: "encode_chain chain = Inr cb" "length kem < 65536" "length dsa < 65536" "length cb < 65536"
      "bs = nonce @ be_bytes 2 (length kem) @ be_bytes 2 (length dsa) @ be_bytes 2 (length cb) @ kem @ dsa @ cb @ sg"
    by (auto simp: encode_e2e_handshake_def rbind_Inr pack_H_Inr simp del: be_bytes.simps)
  define h1 h2 h3 where "h1 = be_bytes 2 (length kem)" and "h2 = be_bytes 2 (length dsa)" and "h3 = be_bytes 2 (length cb)"
  have hv: "be_val h1 = length kem" "be_val h2 = length dsa" "be_val h3 = length cb" "length h1 = 2" "length h2 = 2" "length h3 = 2"
    using cb(2-4) by (simp_all add: h1_def h2_def h3_def del: be_bytes.simps)
  have bs: "bs = nonce @ h1 @ h2 @ h3 @ kem @ dsa @ cb @ sg" by (simp add: cb(5) h1_def h2_def h3_def)
  show "decode_e2e_handshake h vf bs = Inr (nonce, kem, dsa, chain, sg)"
    unfolding decode_e2e_handshake_def u16_at_def
    by (simp add: bs hv n slice_def Let_def decode_chain_encoded [OF cb(1) chain])
qed

section \<open>Addresses and the trailer of a ping\<close>

fun pack_addresses :: "pystr list \<Rightarrow> bytes result" where
  "pack_addresses [] = Inr []"
| "pack_addresses (a # as) =
     rbind (utf8_encode a) (\<lambda>b. rbind (pack_H (length b)) (\<lambda>l. rbind (pack_addresses as) (\<lambda>r. Inr (l @ b @ r))))"

definition encode_addresses :: "pystr list \<Rightarrow> bytes result" where
  "encode_addresses addresses =
     (let n = min (length addresses) MAX_ADDRESSES
      in rbind (pack_addresses (take n addresses)) (\<lambda>r. Inr (byte_of n # r)))"

fun decode_address_list :: "nat \<Rightarrow> nat \<Rightarrow> bytes \<Rightarrow> (pystr list \<times> nat) result" where
  "decode_address_list 0 off data = Inr ([], off)"
| "decode_address_list (Suc n) off data =
     (if length data < off + 2 then Inl ValueError
      else
        (let addr_len = u16_at off data; off = off + 2
         in if MAX_URI_LEN < addr_len then Inl ValueError
            else if length data < off + addr_len then Inl ValueError
            else (case utf8_decode (slice off (off + addr_len) data) of
                    None \<Rightarrow> Inl ValueError
                  | Some addr \<Rightarrow>
                      rbind (decode_address_list n (off + addr_len) data) (\<lambda>(as, off). Inr (addr # as, off)))))"

definition decode_addresses_at :: "bytes \<Rightarrow> (pystr list \<times> nat) result" where
  "decode_addresses_at data =
     (if data = [] then Inl ValueError
      else (let n = unat (hd data) in if MAX_ADDRESSES < n then Inl ValueError else decode_address_list n 1 data))"

definition decode_addresses :: "bytes \<Rightarrow> pystr list result" where
  "decode_addresses data = rbind (decode_addresses_at data) (\<lambda>(addresses, _). Inr addresses)"

text \<open>A token is the eight bytes of its integer.\<close>

definition encode_ping_tail :: "int \<Rightarrow> int \<Rightarrow> bytes result" where
  "encode_ping_tail next_ms token =
     rbind (pack_uint 4 (max 0 (min 0xFFFFFFFF next_ms))) (\<lambda>m. rbind (pack_uint 8 token) (\<lambda>t. Inr (m @ t)))"

definition decode_ping_tail :: "bytes \<Rightarrow> nat \<Rightarrow> (nat \<times> nat) option" where
  "decode_ping_tail data off =
     (if int (length data) - int off \<noteq> 12 then None
      else Some (be_val (slice off (off + 4) data), be_val (slice (off + 4) (off + 12) data)))"

lemma decode_address_list_packed:
  assumes "pack_addresses as = Inr bs" "list_all (\<lambda>a. utf8_length a \<le> MAX_URI_LEN) as" "off = length pre"
  shows "decode_address_list (length as) off (pre @ bs @ rest) = Inr (as, off + length bs)"
  using assms
proof (induction as arbitrary: bs off pre)
  case (Cons a as)
  then obtain b r where b: "utf8_encode a = Inr b" "length b < 65536" "pack_addresses as = Inr r"
      "bs = be_bytes 2 (length b) @ b @ r"
    by (auto simp: rbind_Inr pack_H_Inr simp del: be_bytes.simps)
  let ?h = "be_bytes 2 (length b)"
  let ?data = "pre @ ?h @ b @ r @ rest"
  have data: "pre @ bs @ rest = ?data" by (simp add: b del: be_bytes.simps)
  have u: "u16_at off ?data = length b" using u16_field [OF b(2) Cons.prems(3)] .
  have small: "\<not> MAX_URI_LEN < length b" using utf8_encode_length [OF b(1)] Cons.prems(2) by simp
  have sl: "slice (off + 2) (off + 2 + length b) ?data = b"
    using slice_field [of "off + 2" "pre @ ?h" "off + 2 + length b" b "r @ rest"] Cons.prems(3)
    by (simp del: be_bytes.simps)
  have rec: "decode_address_list (length as) (off + 2 + length b) ?data = Inr (as, off + 2 + length b + length r)"
    using Cons.IH [OF b(3), of "off + 2 + length b" "pre @ ?h @ b"] Cons.prems(2,3) by (simp del: be_bytes.simps)
  have len: "\<not> length ?data < off + 2" "\<not> length ?data < off + 2 + length b"
    using Cons.prems(3) by (simp_all del: be_bytes.simps)
  have "decode_address_list (length (a # as)) off ?data = Inr (a # as, off + 2 + length b + length r)"
    unfolding length_Cons decode_address_list.simps Let_def u
    by (simp only: len small if_False sl utf8_roundtrip [OF b(1)] option.case rec rbind_simps prod.case)
  then show ?case unfolding data by (simp add: b(4) del: be_bytes.simps)
qed simp

lemma decode_addresses_encoded:
  assumes "encode_addresses as = Inr bs" "list_all (\<lambda>a. utf8_length a \<le> MAX_URI_LEN) as"
  shows "decode_addresses_at (bs @ rest) = Inr (take MAX_ADDRESSES as, length bs)"
proof -
  let ?n = "min (length as) MAX_ADDRESSES"
  obtain r where r: "pack_addresses (take ?n as) = Inr r" "bs = byte_of ?n # r"
    using assms(1) by (auto simp: encode_addresses_def rbind_Inr Let_def)
  have "list_all (\<lambda>a. utf8_length a \<le> MAX_URI_LEN) (take ?n as)"
    using assms(2) by (auto simp: list_all_iff dest: in_set_takeD)
  from decode_address_list_packed [OF r(1) this, of 1 "[byte_of ?n]" rest]
  have "decode_address_list ?n 1 (bs @ rest) = Inr (take ?n as, length bs)" by (simp add: r(2))
  moreover have "take ?n as = take MAX_ADDRESSES as" by (cases "length as \<le> MAX_ADDRESSES") (simp_all add: min_def)
  moreover have "unat (byte_of ?n) = ?n" by (simp add: MAX_ADDRESSES_def)
  ultimately show ?thesis by (simp add: decode_addresses_at_def r(2))
qed

lemma decode_tail_encoded:
  assumes "encode_ping_tail next_ms token = Inr t"
  shows "decode_ping_tail (bs @ t) (length bs) = Some (nat (max 0 (min 0xFFFFFFFF next_ms)), nat token)"
proof -
  define m where "m = max 0 (min 0xFFFFFFFF next_ms)"
  have m: "0 \<le> m" "m < 2 ^ 32" by (simp_all add: m_def)
  from assms have t: "0 \<le> token" "token < 2 ^ 64" "t = be_bytes 4 (nat m) @ be_bytes 8 (nat token)"
    by (auto simp: encode_ping_tail_def rbind_Inr pack_uint_Inr m_def simp del: be_bytes.simps)
  define h1 h2 where "h1 = be_bytes 4 (nat m)" and "h2 = be_bytes 8 (nat token)"
  have hv: "be_val h1 = nat m" "be_val h2 = nat token" "length h1 = 4" "length h2 = 8"
    using m t by (simp_all add: h1_def h2_def nat_less_iff del: be_bytes.simps)
  show ?thesis by (simp add: decode_ping_tail_def t(3) h1_def [symmetric] h2_def [symmetric] slice_def hv m_def [symmetric])
qed

section \<open>Seeks, punches and fingerprints\<close>

text \<open>The ASCII of \<open>NMESH-INVITE-SEEK-v1\<close>, \<open>NPPB\<close> and \<open>NPAK\<close>.\<close>

definition SEEK_TAG :: bytes where "SEEK_TAG = ascii ''NMESH-INVITE-SEEK-v1''"
definition PUNCH_PROBE_MAGIC :: bytes where "PUNCH_PROBE_MAGIC = ascii ''NPPB''"
definition PUNCH_ACK_MAGIC :: bytes where "PUNCH_ACK_MAGIC = ascii ''NPAK''"

definition seek_signed_blob :: "bytes \<Rightarrow> int \<Rightarrow> bytes result" where
  "seek_signed_blob h_code expiry = rbind (pack_uint 8 expiry) (\<lambda>e. Inr (SEEK_TAG @ h_code @ e))"

definition encode_seek :: "int \<Rightarrow> bytes \<Rightarrow> bytes \<Rightarrow> bytes \<Rightarrow> bytes result" where
  "encode_seek expiry h_code inviter_pub token =
     rbind (pack_uint 8 expiry) (\<lambda>e. rbind (pack_H (length inviter_pub)) (\<lambda>p. rbind (pack_H (length token)) (\<lambda>t.
       Inr (e @ h_code @ p @ inviter_pub @ t @ token))))"

definition decode_seek :: "bytes \<Rightarrow> (nat \<times> bytes \<times> bytes \<times> bytes) option" where
  "decode_seek payload =
     (if \<not> (40 < length payload \<and> length payload \<le> SEEK_MAX_PAYLOAD) then None
      else
        (let expiry = be_val (slice 0 8 payload); h_code = slice 8 40 payload
         in if length h_code \<noteq> 32 then None
            else if length payload < 42 then None
            else
              (let plen = u16_at 40 payload; inviter_pub = slice 42 (42 + plen) payload; off = 42 + plen
               in if length inviter_pub \<noteq> plen \<or> plen = 0 then None
                  else if length payload < off + 2 then None
                  else
                    (let tlen = u16_at off payload; token = slice (off + 2) (off + 2 + tlen) payload
                     in if length token \<noteq> tlen \<or> tlen = 0 then None
                        else Some (expiry, h_code, inviter_pub, token)))))"

definition encode_punch_request :: "bytes \<Rightarrow> int \<Rightarrow> bytes result" where
  "encode_punch_request target_id port = rbind (pack_uint 2 port) (\<lambda>p. Inr (pack_str 20 target_id @ p))"

definition decode_punch_request :: "bytes \<Rightarrow> (bytes \<times> nat) option" where
  "decode_punch_request data = (if length data < 22 then None else Some (slice 0 20 data, u16_at 20 data))"

definition encode_punch_relay :: "bytes \<Rightarrow> pystr \<Rightarrow> pystr \<Rightarrow> bytes result" where
  "encode_punch_relay peer_id peer_addr observed_addr =
     rbind (utf8_encode peer_addr) (\<lambda>pa. rbind (utf8_encode observed_addr) (\<lambda>oa.
     rbind (pack_H (length pa)) (\<lambda>pl. rbind (pack_H (length oa)) (\<lambda>ol. Inr (peer_id @ pl @ pa @ ol @ oa)))))"

definition decode_punch_relay :: "bytes \<Rightarrow> (bytes \<times> pystr \<times> pystr) option" where
  "decode_punch_relay data =
     (if length data < 22 then None
      else
        (let peer_id = take 20 data; pa_len = u16_at 20 data; off = 22
         in if length data < off + pa_len then None
            else (case utf8_decode (slice off (off + pa_len) data) of
                    None \<Rightarrow> None
                  | Some peer_addr \<Rightarrow>
                      (let off = off + pa_len
                       in if length data < off + 2 then None
                          else
                            (let oa_len = u16_at off data; off = off + 2
                             in if length data < off + oa_len then None
                                else (case utf8_decode (slice off (off + oa_len) data) of
                                        None \<Rightarrow> None
                                      | Some observed_addr \<Rightarrow> Some (peer_id, peer_addr, observed_addr)))))))"

definition punch_signed_blob :: "bytes \<Rightarrow> bytes \<Rightarrow> bytes \<Rightarrow> bytes \<Rightarrow> int \<Rightarrow> bytes result" where
  "punch_signed_blob magic src dst nonce minute = rbind (pack_uint 8 minute) (\<lambda>m. Inr (magic @ src @ dst @ nonce @ m))"

text \<open>\<open>int(now // 60)\<close> and the minute before.\<close>

definition punch_minutes :: "real \<Rightarrow> int \<times> int" where
  "punch_minutes now = (let minute = \<lfloor>now / 60\<rfloor> in (minute, minute - 1))"

definition build_punch_probe :: "bytes \<Rightarrow> bytes \<Rightarrow> bytes \<Rightarrow> bytes" where
  "build_punch_probe node_id nonce signature = PUNCH_PROBE_MAGIC @ pack_str 20 node_id @ pack_str 16 nonce @ signature"

definition build_punch_ack :: "bytes \<Rightarrow> bytes \<Rightarrow> bytes \<Rightarrow> bytes" where
  "build_punch_ack node_id nonce signature = PUNCH_ACK_MAGIC @ pack_str 20 node_id @ pack_str 16 nonce @ signature"

definition parse_punch_frame :: "bytes \<Rightarrow> bytes \<Rightarrow> (bytes \<times> bytes \<times> bytes) option" where
  "parse_punch_frame data expect_magic =
     (let sig_len = int (length data) - 40
      in if sig_len \<le> 0 \<or> int PUNCH_SIG_MAX < sig_len then None
         else if slice 0 4 data \<noteq> expect_magic then None
         else Some (slice 4 24 data, slice 24 40 data, drop 40 data))"

definition parse_punch_probe :: "bytes \<Rightarrow> (bytes \<times> bytes \<times> bytes) option" where
  "parse_punch_probe data = parse_punch_frame data PUNCH_PROBE_MAGIC"

definition parse_punch_ack :: "bytes \<Rightarrow> (bytes \<times> bytes \<times> bytes) option" where
  "parse_punch_ack data = parse_punch_frame data PUNCH_ACK_MAGIC"

definition encode_cert_hints :: "bytes list \<Rightarrow> bytes" where
  "encode_cert_hints prints = concat (take CERT_HINT_MAX prints)"

fun hint_pieces :: "nat \<Rightarrow> bytes \<Rightarrow> bytes list" where
  "hint_pieces 0 tail = []"
| "hint_pieces (Suc n) tail = take FINGERPRINT_LEN tail # hint_pieces n (drop FINGERPRINT_LEN tail)"

definition decode_cert_hints :: "bytes \<Rightarrow> bytes set option" where
  "decode_cert_hints tail =
     (if tail = [] then Some {}
      else if length tail mod FINGERPRINT_LEN \<noteq> 0 \<or> CERT_HINT_MAX * FINGERPRINT_LEN < length tail then None
      else Some (set (hint_pieces (length tail div FINGERPRINT_LEN) tail)))"

end
