(* ===== verification/FoundNode.thy ===== *)
theory FoundNode
  imports Codecs
begin

text \<open>
  The answer to a lookup (\<open>_EntryPacker\<close>, \<open>_encode_entries\<close> and \<open>_decode_entries\<close> of
  \<open>src/mesh/codecs.py\<close>): node entries packed under a byte budget, their certificates shared
  through a pool, and a certificate the querier already holds sent as its fingerprint.

  \<open>now\<close> is the clock reading a decoded \<open>NodeEntry\<close> takes as its \<open>last_seen\<close>.
\<close>

record entry_packer =
  ep_budget :: nat
  ep_known :: "bytes set"
  ep_pool :: "bytes list"
  ep_index :: "(bytes, nat) odict"
  ep_entries :: "bytes list"
  ep_used :: nat

definition new_packer :: "nat \<Rightarrow> bytes set \<Rightarrow> entry_packer" where
  "new_packer budget known =
     \<lparr> ep_budget = budget, ep_known = known, ep_pool = [], ep_index = [], ep_entries = [], ep_used = 3 \<rparr>"

text \<open>The loop over a chain: the certificates to add to the pool, \<open>None\<close> when the pool is full.\<close>

fun pool_additions :: "hash_env \<Rightarrow> entry_packer \<Rightarrow> certificate list \<Rightarrow> (bytes \<times> bytes) list
    \<Rightarrow> (bytes \<times> bytes) list option result" where
  "pool_additions h p [] added = Inr (Some added)"
| "pool_additions h p (c # cs) added =
     (let digest = fingerprint h c in
      if map_of (ep_index p) digest \<noteq> None \<or> digest \<in> fst ` set added then pool_additions h p cs added
      else if ENTRY_POOL_MAX \<le> length (ep_pool p) + length added then Inr None
      else rbind
        (if digest \<in> ep_known p then rbind (pack_H CERT_REF) (\<lambda>l. Inr (l @ digest))
         else rbind (cert_serialize c) (\<lambda>raw. rbind (pack_H (length raw)) (\<lambda>l. Inr (l @ raw))))
        (\<lambda>body. pool_additions h p cs (added @ [(digest, body)])))"

text \<open>The two dictionaries move together: a body goes to the end of the pool and its digest to the index.\<close>

definition pool_put :: "bytes \<times> bytes \<Rightarrow> entry_packer \<Rightarrow> entry_packer" where
  "pool_put = (\<lambda>(digest, body) p.
     p\<lparr> ep_index := AList.update digest (length (ep_pool p)) (ep_index p), ep_pool := ep_pool p @ [body] \<rparr>)"

fun pool_refs :: "hash_env \<Rightarrow> entry_packer \<Rightarrow> certificate list \<Rightarrow> bytes result" where
  "pool_refs h p [] = Inr []"
| "pool_refs h p (c # cs) =
     (case map_of (ep_index p) (fingerprint h c) of
        None \<Rightarrow> Inl KeyError
      | Some i \<Rightarrow> rbind (pack_H i) (\<lambda>b. rbind (pool_refs h p cs) (\<lambda>r. Inr (b @ r))))"

definition packer_add :: "hash_env \<Rightarrow> node_entry \<Rightarrow> entry_packer \<Rightarrow> (bool \<times> entry_packer) result" where
  "packer_add h e p =
     (if ENTRY_COUNT_MAX \<le> length (ep_entries p) \<or> ENTRY_CHAIN_MAX < length (ne_cert_chain e) then Inr (False, p)
      else
        (let addrs = take MAX_ADDRESSES (ne_addresses e); chain = ne_cert_chain e in
         rbind (pack_addresses addrs) (\<lambda>packed.
           (let blob = ne_node_id e @ [byte_of (length addrs), byte_of (length chain)] @ packed in
            rbind (pool_additions h p chain []) (\<lambda>r.
              case r of
                None \<Rightarrow> Inr (False, p)
              | Some added \<Rightarrow>
                  (let cost = length blob + 2 * length chain + sum_list (map (length \<circ> snd) added) in
                   if ep_budget p < ep_used p + cost then Inr (False, p)
                   else
                     (let p = fold pool_put added p in
                      rbind (pool_refs h p chain) (\<lambda>refs.
                        Inr (True, p\<lparr> ep_entries := ep_entries p @ [blob @ refs], ep_used := ep_used p + cost \<rparr>)))))))))"

definition packer_encode :: "entry_packer \<Rightarrow> bytes result" where
  "packer_encode p =
     (if 256 \<le> length (ep_entries p) then Inl ValueError
      else rbind (pack_H (length (ep_pool p))) (\<lambda>n.
        Inr (n @ concat (ep_pool p) @ [byte_of (length (ep_entries p))] @ concat (ep_entries p))))"

fun packer_add_all :: "hash_env \<Rightarrow> node_entry list \<Rightarrow> entry_packer \<Rightarrow> entry_packer result" where
  "packer_add_all h [] p = Inr p"
| "packer_add_all h (e # es) p = rbind (packer_add h e p) (\<lambda>(_, p). packer_add_all h es p)"

definition encode_entries :: "hash_env \<Rightarrow> node_entry list \<Rightarrow> bytes set \<Rightarrow> bytes result" where
  "encode_entries h entries known = rbind (packer_add_all h entries (new_packer (2 ^ 30) known)) packer_encode"

fun decode_pool :: "hash_env \<Rightarrow> verifier \<Rightarrow> (bytes \<Rightarrow> certificate option) option \<Rightarrow> nat \<Rightarrow> nat \<Rightarrow> bytes
    \<Rightarrow> (certificate option list \<times> nat) result" where
  "decode_pool h vf resolve 0 off data = Inr ([], off)"
| "decode_pool h vf resolve (Suc n) off data =
     (if length data < off + 2 then Inl ValueError
      else
        (let cert_len = u16_at off data; off = off + 2 in
         if cert_len = CERT_REF then
           (if length data < off + FINGERPRINT_LEN then Inl ValueError
            else
              (let cert = (case resolve of None \<Rightarrow> None | Some f \<Rightarrow> f (slice off (off + FINGERPRINT_LEN) data))
               in rbind (decode_pool h vf resolve n (off + FINGERPRINT_LEN) data) (\<lambda>(pool, off). Inr (cert # pool, off))))
         else if length data < off + cert_len then Inl ValueError
         else
           (let cert = (case cert_deserialize h vf (slice off (off + cert_len) data) of Inl _ \<Rightarrow> None | Inr c \<Rightarrow> Some c)
            in rbind (decode_pool h vf resolve n (off + cert_len) data) (\<lambda>(pool, off). Inr (cert # pool, off)))))"

fun decode_entry_addresses :: "nat \<Rightarrow> nat \<Rightarrow> bytes \<Rightarrow> (pystr list \<times> bool \<times> nat) result" where
  "decode_entry_addresses 0 off data = Inr ([], True, off)"
| "decode_entry_addresses (Suc n) off data =
     (if length data < off + 2 then Inl ValueError
      else
        (let addr_len = u16_at off data; off = off + 2 in
         if length data < off + addr_len then Inl ValueError
         else
           (let decoded = utf8_decode (slice off (off + addr_len) data);
                addr = (case decoded of None \<Rightarrow> [] | Some a \<Rightarrow> a);
                valid = (addr_len \<le> MAX_URI_LEN \<and> decoded \<noteq> None \<and> validate_uri addr \<noteq> None)
            in rbind (decode_entry_addresses n (off + addr_len) data)
                 (\<lambda>(as, ok, off). Inr (addr # as, valid \<and> ok, off)))))"

text \<open>The chain of an entry: \<open>None\<close> once one of its certificates is unusable.\<close>

fun decode_refs :: "certificate option list \<Rightarrow> nat \<Rightarrow> nat \<Rightarrow> bytes \<Rightarrow> (certificate list option \<times> nat) result" where
  "decode_refs pool 0 off data = Inr (Some [], off)"
| "decode_refs pool (Suc n) off data =
     (if length data < off + 2 then Inl ValueError
      else
        (let idx = u16_at off data in
         if length pool \<le> idx then Inl ValueError
         else rbind (decode_refs pool n (off + 2) data) (\<lambda>(chain, off).
           Inr (case (pool ! idx, chain) of (Some c, Some cs) \<Rightarrow> Some (c # cs) | _ \<Rightarrow> None, off))))"

fun decode_entry_list :: "real \<Rightarrow> certificate option list \<Rightarrow> nat \<Rightarrow> nat \<Rightarrow> bytes \<Rightarrow> (node_entry list \<times> nat) result" where
  "decode_entry_list now pool 0 off data = Inr ([], off)"
| "decode_entry_list now pool (Suc n) off data =
     (if length data < off + 22 then Inl ValueError
      else
        (let raw_id = slice off (off + 20) data; addr_count = unat (data ! (off + 20));
             chain_len = unat (data ! (off + 21)); off = off + 22 in
         if MAX_ADDRESSES < addr_count then Inl ValueError
         else if ENTRY_CHAIN_MAX < chain_len then Inl ValueError
         else rbind (decode_entry_addresses addr_count off data) (\<lambda>(addresses, valid, off).
              rbind (decode_refs pool chain_len off data) (\<lambda>(chain, off).
              rbind (decode_entry_list now pool n off data) (\<lambda>(entries, off).
                Inr (if valid
                     then (new_entry now raw_id addresses [])\<lparr> ne_cert_chain := (case chain of None \<Rightarrow> [] | Some cs \<Rightarrow> cs) \<rparr> # entries
                     else entries, off))))))"

definition decode_entries :: "hash_env \<Rightarrow> verifier \<Rightarrow> (bytes \<Rightarrow> certificate option) option \<Rightarrow> real \<Rightarrow> bytes
    \<Rightarrow> (node_entry list \<times> nat) result" where
  "decode_entries h vf resolve now data =
     (if length data < 2 then Inl ValueError
      else
        (let pool_count = u16_at 0 data in
         if ENTRY_POOL_MAX < pool_count then Inl ValueError
         else rbind (decode_pool h vf resolve pool_count 2 data) (\<lambda>(pool, off).
           if length data \<le> off then Inl ValueError
           else
             (let n = unat (data ! off) in
              if ENTRY_COUNT_MAX < n then Inl ValueError
              else decode_entry_list now pool n (off + 1) data))))"

section \<open>What the packer writes\<close>

definition cert_body :: "hash_env \<Rightarrow> bytes set \<Rightarrow> certificate \<Rightarrow> bytes" where
  "cert_body h known c =
     (if fingerprint h c \<in> known then be_bytes 2 0 @ fingerprint h c
      else be_bytes 2 (length (cert_bytes c)) @ cert_bytes c)"

definition packable :: "hash_env \<Rightarrow> verifier \<Rightarrow> bytes set \<Rightarrow> certificate \<Rightarrow> bool" where
  "packable h vf known c \<longleftrightarrow> cert_valid h vf c \<and> length (fingerprint h c) = 16 \<and>
     (fingerprint h c \<notin> known \<longrightarrow> cert_fits c \<and> length (cert_bytes c) < 65536)"

definition pool_holds :: "hash_env \<Rightarrow> certificate list \<Rightarrow> entry_packer \<Rightarrow> bool" where
  "pool_holds h cs p \<longleftrightarrow> ep_pool p = map (cert_body h (ep_known p)) cs \<and>
     ep_index p = zip (map (fingerprint h) cs) [0..<length cs] \<and>
     distinct (map (fingerprint h) cs) \<and> length cs \<le> ENTRY_POOL_MAX"

definition pool_pair :: "hash_env \<Rightarrow> bytes set \<Rightarrow> certificate \<Rightarrow> bytes \<times> bytes" where
  "pool_pair h known c = (fingerprint h c, cert_body h known c)"

lemma keys_zip: "fst ` set (zip (map (fingerprint h) cs) [0..<length cs]) = fingerprint h ` set cs"
  by (metis length_map length_upt list.set_map map_fst_zip minus_nat.diff_0)

lemma pool_index:
  assumes "pool_holds h cs p"
  shows "map_of (ep_index p) d \<noteq> None \<longleftrightarrow> d \<in> fingerprint h ` set cs"
    and "map_of (ep_index p) d = Some i \<Longrightarrow> i < length cs \<and> fingerprint h (cs ! i) = d"
proof -
  show "map_of (ep_index p) d \<noteq> None \<longleftrightarrow> d \<in> fingerprint h ` set cs"
    using assms keys_zip [of h cs] by (simp add: pool_holds_def map_of_eq_None_iff)
  show "map_of (ep_index p) d = Some i \<Longrightarrow> i < length cs \<and> fingerprint h (cs ! i) = d"
    using assms by (auto simp: pool_holds_def in_set_zip dest!: map_of_SomeD)
qed

lemma cert_body_written:
  assumes "cert_valid h vf c" "length (fingerprint h c) = 16"
    and "(if fingerprint h c \<in> known then rbind (pack_H CERT_REF) (\<lambda>l. Inr (l @ fingerprint h c))
          else rbind (cert_serialize c) (\<lambda>raw. rbind (pack_H (length raw)) (\<lambda>l. Inr (l @ raw)))) = Inr body"
  shows "body = cert_body h known c \<and> packable h vf known c"
proof (cases "fingerprint h c \<in> known")
  case True
  then show ?thesis using assms by (auto simp: cert_body_def packable_def rbind_Inr pack_H_Inr CERT_REF_def simp del: be_bytes.simps)
next
  case False
  then obtain raw where raw: "cert_serialize c = Inr raw" "length raw < 65536" "body = be_bytes 2 (length raw) @ raw"
    using assms(3) by (auto simp: rbind_Inr pack_H_Inr simp del: be_bytes.simps)
  have fits: "cert_fits c" using raw(1) by (auto simp: cert_serialize_def rbind_Inr pack_uint_Inr cert_fits_def)
  have "raw = cert_bytes c" using cert_serialize_valid [OF assms(1) fits] raw(1) by simp
  then show ?thesis using raw fits False assms(1,2) by (simp add: cert_body_def packable_def)
qed

lemma pool_additions_spec:
  assumes "pool_additions h p chain (map (pool_pair h (ep_known p)) as) = Inr (Some added)" "pool_holds h cs p"
    "distinct (map (fingerprint h) (cs @ as))" "length (cs @ as) \<le> ENTRY_POOL_MAX"
    "\<forall>c \<in> set chain. cert_valid h vf c \<and> length (fingerprint h c) = 16"
    "\<forall>c \<in> set as. packable h vf (ep_known p) c"
  shows "\<exists>new. added = map (pool_pair h (ep_known p)) new \<and> distinct (map (fingerprint h) (cs @ new)) \<and>
    length (cs @ new) \<le> ENTRY_POOL_MAX \<and> (\<forall>c \<in> set new. packable h vf (ep_known p) c) \<and>
    set new \<subseteq> set as \<union> set chain \<and> fingerprint h ` set chain \<subseteq> fingerprint h ` set (cs @ new) \<and>
    fingerprint h ` set as \<subseteq> fingerprint h ` set new"
  using assms
proof (induction chain arbitrary: as)
  case Nil
  then show ?case by auto
next
  case (Cons c chain)
  let ?d = "fingerprint h c"
  have keys: "fst ` set (map (pool_pair h (ep_known p)) as) = fingerprint h ` set as"
    by (auto simp: pool_pair_def image_iff)
  show ?case
  proof (cases "?d \<in> fingerprint h ` set (cs @ as)")
    case True
    then have "map_of (ep_index p) ?d \<noteq> None \<or> ?d \<in> fst ` set (map (pool_pair h (ep_known p)) as)"
      unfolding keys pool_index(1) [OF Cons.prems(2)] by auto
    then have "pool_additions h p chain (map (pool_pair h (ep_known p)) as) = Inr (Some added)"
      using Cons.prems(1) by (simp add: Let_def)
    from Cons.IH [OF this Cons.prems(2-4) _ Cons.prems(6)] Cons.prems(5)
    obtain new where new: "added = map (pool_pair h (ep_known p)) new" "distinct (map (fingerprint h) (cs @ new))"
      "length (cs @ new) \<le> ENTRY_POOL_MAX" "\<forall>c \<in> set new. packable h vf (ep_known p) c"
      "set new \<subseteq> set as \<union> set chain" "fingerprint h ` set chain \<subseteq> fingerprint h ` set (cs @ new)"
      "fingerprint h ` set as \<subseteq> fingerprint h ` set new" by auto
    have "?d \<in> fingerprint h ` set (cs @ new)" using True new(7) by auto
    then show ?thesis using new by (intro exI [of _ new]) auto
  next
    case False
    then have no: "\<not> (map_of (ep_index p) ?d \<noteq> None \<or> ?d \<in> fst ` set (map (pool_pair h (ep_known p)) as))"
      unfolding keys pool_index(1) [OF Cons.prems(2)] by auto
    have lp: "length (ep_pool p) = length cs" using Cons.prems(2) by (simp add: pool_holds_def)
    from Cons.prems(1) no obtain body where body:
      "(if ?d \<in> ep_known p then rbind (pack_H CERT_REF) (\<lambda>l. Inr (l @ ?d))
        else rbind (cert_serialize c) (\<lambda>raw. rbind (pack_H (length raw)) (\<lambda>l. Inr (l @ raw)))) = Inr body"
      "pool_additions h p chain (map (pool_pair h (ep_known p)) as @ [(?d, body)]) = Inr (Some added)"
      "length cs + length as < ENTRY_POOL_MAX"
      unfolding pool_additions.simps Let_def lp by (auto simp: rbind_Inr split: if_splits)
    have b: "body = cert_body h (ep_known p) c" "packable h vf (ep_known p) c"
      using cert_body_written [OF _ _ body(1)] Cons.prems(5) by auto
    have a1: "pool_additions h p chain (map (pool_pair h (ep_known p)) (as @ [c])) = Inr (Some added)"
      using body(2) b by (simp add: pool_pair_def)
    have a2: "distinct (map (fingerprint h) (cs @ (as @ [c])))" using False Cons.prems(3) by auto
    have a3: "length (cs @ (as @ [c])) \<le> ENTRY_POOL_MAX" using body(3) by simp
    have a4: "\<forall>c \<in> set (as @ [c]). packable h vf (ep_known p) c" using Cons.prems(6) b(2) by simp
    have a5: "\<forall>c \<in> set chain. cert_valid h vf c \<and> length (fingerprint h c) = 16" using Cons.prems(5) by simp
    have "\<exists>new. added = map (pool_pair h (ep_known p)) new \<and> distinct (map (fingerprint h) (cs @ new)) \<and>
      length (cs @ new) \<le> ENTRY_POOL_MAX \<and> (\<forall>c \<in> set new. packable h vf (ep_known p) c) \<and>
      set new \<subseteq> set (as @ [c]) \<union> set chain \<and> fingerprint h ` set chain \<subseteq> fingerprint h ` set (cs @ new) \<and>
      fingerprint h ` set (as @ [c]) \<subseteq> fingerprint h ` set new"
      by (rule Cons.IH [OF a1 Cons.prems(2) a2 a3 a5 a4])
    then obtain new where new: "added = map (pool_pair h (ep_known p)) new" "distinct (map (fingerprint h) (cs @ new))"
      "length (cs @ new) \<le> ENTRY_POOL_MAX" "\<forall>c \<in> set new. packable h vf (ep_known p) c"
      "set new \<subseteq> set (as @ [c]) \<union> set chain" "fingerprint h ` set chain \<subseteq> fingerprint h ` set (cs @ new)"
      "fingerprint h ` set (as @ [c]) \<subseteq> fingerprint h ` set new" by auto
    then show ?thesis by (intro exI [of _ new]) auto
  qed
qed

lemma pool_put_all:
  assumes "pool_holds h cs p" "distinct (map (fingerprint h) (cs @ new))" "length (cs @ new) \<le> ENTRY_POOL_MAX"
  shows "pool_holds h (cs @ new) (fold pool_put (map (pool_pair h (ep_known p)) new) p) \<and>
    (\<exists>i q. fold pool_put (map (pool_pair h (ep_known p)) new) p = p\<lparr> ep_index := i, ep_pool := q \<rparr>)"
  using assms
proof (induction new arbitrary: cs p)
  case Nil
  have "\<exists>i q. p = p\<lparr> ep_index := i, ep_pool := q \<rparr>" by (intro exI [of _ "ep_index p"] exI [of _ "ep_pool p"]) simp
  then show ?case using Nil by simp
next
  case (Cons c new)
  let ?p = "pool_put (pool_pair h (ep_known p) c) p"
  have "fingerprint h c \<notin> fst ` set (ep_index p)"
    using pool_index(1) [OF Cons.prems(1), of "fingerprint h c"] Cons.prems(2) by (simp add: map_of_eq_None_iff)
  then have "ep_index ?p = ep_index p @ [(fingerprint h c, length cs)]" "ep_pool ?p = ep_pool p @ [cert_body h (ep_known p) c]"
    "ep_known ?p = ep_known p"
    using Cons.prems(1) by (simp_all add: pool_put_def pool_pair_def update_absent pool_holds_def)
  then have "pool_holds h (cs @ [c]) ?p"
    using Cons.prems by (simp add: pool_holds_def)
  from Cons.IH [OF this] Cons.prems(2,3) obtain i q where
    "pool_holds h (cs @ c # new) (fold pool_put (map (pool_pair h (ep_known p)) new) ?p)"
    "fold pool_put (map (pool_pair h (ep_known p)) new) ?p = ?p\<lparr> ep_index := i, ep_pool := q \<rparr>"
    using \<open>ep_known ?p = ep_known p\<close> by auto
  moreover have "?p\<lparr> ep_index := i, ep_pool := q \<rparr> = p\<lparr> ep_index := i, ep_pool := q \<rparr>" for i q
    by (simp add: pool_put_def pool_pair_def)
  moreover have "fold pool_put (map (pool_pair h (ep_known p)) (c # new)) p =
      fold pool_put (map (pool_pair h (ep_known p)) new) ?p" by simp
  ultimately show ?case by metis
qed

text \<open>The references of a chain name its own certificates.\<close>

lemma pool_refs_spec:
  assumes "pool_holds h cs p" "fingerprint h ` set chain \<subseteq> fingerprint h ` set cs"
    "inj_on (fingerprint h) (set cs \<union> set chain)"
  shows "\<exists>is. list_all2 (\<lambda>c i. i < length cs \<and> cs ! i = c) chain is \<and> pool_refs h p chain = Inr (concat (map (be_bytes 2) is))"
  using assms(2,3)
proof (induction chain)
  case (Cons c chain)
  have "inj_on (fingerprint h) (set cs \<union> set chain)" by (rule inj_on_subset [OF Cons.prems(2)]) auto
  then obtain "is" where ih: "list_all2 (\<lambda>c i. i < length cs \<and> cs ! i = c) chain is"
    "pool_refs h p chain = Inr (concat (map (be_bytes 2) is))" using Cons by auto
  have "fingerprint h c \<in> fingerprint h ` set cs" using Cons.prems(1) by auto
  then obtain i where i: "map_of (ep_index p) (fingerprint h c) = Some i" using pool_index(1) [OF assms(1)] by blast
  with pool_index(2) [OF assms(1)] have n: "i < length cs" "fingerprint h (cs ! i) = fingerprint h c" by auto
  then have e: "cs ! i = c" using inj_onD [OF Cons.prems(2)] by simp
  have "length cs \<le> 32" using assms(1) by (simp add: pool_holds_def ENTRY_POOL_MAX_def)
  then have "pack_H i = Inr (be_bytes 2 i)" using n by (simp add: pack_H_Inr)
  then show ?case using i n e ih by (intro exI [of _ "i # is"]) (simp del: be_bytes.simps)
qed (auto intro: exI [of _ "[]"])

definition entry_written :: "certificate list \<Rightarrow> node_entry \<Rightarrow> bytes \<Rightarrow> bool" where
  "entry_written cs e b \<longleftrightarrow> (\<exists>packed is. pack_addresses (take MAX_ADDRESSES (ne_addresses e)) = Inr packed \<and>
     list_all2 (\<lambda>c i. i < length cs \<and> cs ! i = c) (ne_cert_chain e) is \<and>
     b = ne_node_id e @ [byte_of (length (take MAX_ADDRESSES (ne_addresses e))), byte_of (length (ne_cert_chain e))] @
         packed @ concat (map (be_bytes 2) is))"

lemma entry_written_more: "entry_written cs e b \<Longrightarrow> entry_written (cs @ new) e b"
  by (force simp: entry_written_def nth_append elim!: list_all2_mono)

definition written_size :: "entry_packer \<Rightarrow> nat" where
  "written_size p = 3 + sum_list (map length (ep_pool p)) + sum_list (map length (ep_entries p))"

definition packed :: "hash_env \<Rightarrow> verifier \<Rightarrow> certificate list \<Rightarrow> node_entry list \<Rightarrow> entry_packer \<Rightarrow> bool" where
  "packed h vf cs es p \<longleftrightarrow> pool_holds h cs p \<and> list_all2 (entry_written cs) es (ep_entries p) \<and>
     length es \<le> ENTRY_COUNT_MAX \<and> (\<forall>e \<in> set es. length (ne_cert_chain e) \<le> ENTRY_CHAIN_MAX) \<and>
     (\<forall>c \<in> set cs. packable h vf (ep_known p) c) \<and> ep_used p = written_size p \<and>
     ep_used p \<le> max 3 (ep_budget p)"

lemma sum_pool_pairs: "sum_list (map (length \<circ> snd) (map (pool_pair h known) new)) = sum_list (map length (map (cert_body h known) new))"
  by (simp add: pool_pair_def comp_def)

lemma length_refs: "length (concat (map (be_bytes 2) is)) = 2 * length is"
  by (induction "is") (simp_all del: be_bytes.simps)

lemma packer_add_spec:
  assumes "packer_add h e p = Inr (ok, p')" "packed h vf cs es p"
    "\<forall>c \<in> set (ne_cert_chain e). cert_valid h vf c \<and> length (fingerprint h c) = 16"
    "inj_on (fingerprint h) C" "set cs \<union> set (ne_cert_chain e) \<subseteq> C"
  shows "\<exists>cs'. packed h vf cs' (if ok then es @ [e] else es) p' \<and> set cs' \<subseteq> C \<and> ep_known p' = ep_known p \<and>
    ep_budget p' = ep_budget p"
proof (cases ok)
  case False
  then have "p' = p" using assms(1)
    by (auto simp: packer_add_def Let_def rbind_Inr split: if_splits option.splits)
  then show ?thesis using False assms(2,5) by auto
next
  case True
  let ?addrs = "take MAX_ADDRESSES (ne_addresses e)" and ?chain = "ne_cert_chain e"
  from assms(1) True obtain pk added refs where a:
    "\<not> ENTRY_COUNT_MAX \<le> length (ep_entries p)" "\<not> ENTRY_CHAIN_MAX < length ?chain"
    "pack_addresses ?addrs = Inr pk" "pool_additions h p ?chain [] = Inr (Some added)"
    "\<not> ep_budget p < ep_used p + (length (ne_node_id e @ [byte_of (length ?addrs), byte_of (length ?chain)] @ pk)
        + 2 * length ?chain + sum_list (map (length \<circ> snd) added))"
    "pool_refs h (fold pool_put added p) ?chain = Inr refs"
    "p' = (fold pool_put added p)\<lparr> ep_entries := ep_entries (fold pool_put added p) @
        [(ne_node_id e @ [byte_of (length ?addrs), byte_of (length ?chain)] @ pk) @ refs],
      ep_used := ep_used (fold pool_put added p) + (length (ne_node_id e @ [byte_of (length ?addrs), byte_of (length ?chain)] @ pk)
        + 2 * length ?chain + sum_list (map (length \<circ> snd) added)) \<rparr>"
    unfolding packer_add_def Let_def by (auto simp: rbind_Inr split: if_splits option.splits)
  have P: "pool_holds h cs p" "list_all2 (entry_written cs) es (ep_entries p)" "\<forall>c \<in> set cs. packable h vf (ep_known p) c"
    "ep_used p = written_size p" "\<forall>e \<in> set es. length (ne_cert_chain e) \<le> ENTRY_CHAIN_MAX"
    using assms(2) by (simp_all add: packed_def)
  have "pool_additions h p ?chain (map (pool_pair h (ep_known p)) []) = Inr (Some added)" using a(4) by simp
  from pool_additions_spec [OF this P(1) _ _ assms(3)] P(1) obtain new where new:
    "added = map (pool_pair h (ep_known p)) new" "distinct (map (fingerprint h) (cs @ new))"
    "length (cs @ new) \<le> ENTRY_POOL_MAX" "\<forall>c \<in> set new. packable h vf (ep_known p) c" "set new \<subseteq> set ?chain"
    "fingerprint h ` set ?chain \<subseteq> fingerprint h ` set (cs @ new)"
    by (auto simp: pool_holds_def)
  let ?q = "fold pool_put added p"
  from pool_put_all [OF P(1) new(2,3)] obtain i q where q: "pool_holds h (cs @ new) ?q"
    "?q = p\<lparr> ep_index := i, ep_pool := q \<rparr>" unfolding new(1) by blast
  have same: "ep_known ?q = ep_known p" "ep_entries ?q = ep_entries p" "ep_used ?q = ep_used p" "ep_budget ?q = ep_budget p"
    unfolding q(2) by simp_all
  have sub: "set (cs @ new) \<union> set ?chain \<subseteq> C" using assms(5) new(5) by auto
  from pool_refs_spec [OF q(1) new(6) inj_on_subset [OF assms(4) sub]] obtain "is" where
    rf: "list_all2 (\<lambda>c i. i < length (cs @ new) \<and> (cs @ new) ! i = c) ?chain is" "refs = concat (map (be_bytes 2) is)"
    using a(6) by auto
  have li: "length is = length ?chain" using rf(1) by (simp add: list_all2_lengthD)
  let ?b = "(ne_node_id e @ [byte_of (length ?addrs), byte_of (length ?chain)] @ pk) @ refs"
  have pool: "ep_pool ?q = ep_pool p @ map (cert_body h (ep_known p)) new"
    using q(1) P(1) same by (simp add: pool_holds_def)
  have "entry_written (cs @ new) e ?b" unfolding entry_written_def using a(3) rf by (intro exI [of _ pk] exI [of _ "is"]) simp
  moreover have "list_all2 (entry_written (cs @ new)) es (ep_entries p)"
    using P(2) by (rule list_all2_mono) (rule entry_written_more)
  ultimately have w: "list_all2 (entry_written (cs @ new)) (es @ [e]) (ep_entries p @ [?b])"
    by (intro list_all2_appendI) simp_all
  have size: "ep_used p' = written_size p'"
    unfolding a(7) written_size_def new(1) sum_pool_pairs using P(4) pool same li
    by (simp add: written_size_def new(1) rf(2) length_refs del: be_bytes.simps)
  have le: "length es < ENTRY_COUNT_MAX" using a(1) P(2) by (simp add: list_all2_lengthD)
  have "packed h vf (cs @ new) (es @ [e]) p'"
    unfolding packed_def
  proof (intro conjI)
    show "pool_holds h (cs @ new) p'" using q(1) by (simp add: a(7) pool_holds_def)
    show "list_all2 (entry_written (cs @ new)) (es @ [e]) (ep_entries p')" using w same by (simp add: a(7))
    show "length (es @ [e]) \<le> ENTRY_COUNT_MAX" using le by simp
    show "\<forall>e' \<in> set (es @ [e]). length (ne_cert_chain e') \<le> ENTRY_CHAIN_MAX" using P(5) a(2) by auto
    show "\<forall>c \<in> set (cs @ new). packable h vf (ep_known p') c" using P(3) new(4) same by (auto simp: a(7))
    show "ep_used p' = written_size p'" by (rule size)
    show "ep_used p' \<le> max 3 (ep_budget p')" using a(5) same by (simp add: a(7))
  qed
  then show ?thesis using True sub same by (intro exI [of _ "cs @ new"]) (simp add: a(7))
qed

section \<open>What the decoder reads back\<close>

definition resolves :: "hash_env \<Rightarrow> (bytes \<Rightarrow> certificate option) option \<Rightarrow> bytes set \<Rightarrow> certificate \<Rightarrow> bool" where
  "resolves h resolve known c \<longleftrightarrow> (fingerprint h c \<in> known \<longrightarrow>
     (case resolve of None \<Rightarrow> False | Some f \<Rightarrow> f (fingerprint h c) = Some c))"

lemma decode_pool_written:
  assumes "\<forall>c \<in> set cs. packable h vf known c \<and> resolves h resolve known c" "off = length pre"
  shows "decode_pool h vf resolve (length cs) off (pre @ concat (map (cert_body h known) cs) @ rest) =
    Inr (map Some cs, off + length (concat (map (cert_body h known) cs)))"
  using assms
proof (induction cs arbitrary: off pre)
  case (Cons c cs)
  let ?more = "concat (map (cert_body h known) cs) @ rest"
  have c: "packable h vf known c" "resolves h resolve known c" using Cons.prems(1) by simp_all
  show ?case
  proof (cases "fingerprint h c \<in> known")
    case True
    let ?d = "fingerprint h c"
    let ?data = "pre @ be_bytes 2 0 @ ?d @ ?more"
    have ld: "length ?d = FINGERPRINT_LEN" using c(1) by (simp add: packable_def FINGERPRINT_LEN_def)
    have b: "cert_body h known c = be_bytes 2 0 @ ?d" using True by (simp add: cert_body_def)
    have data: "pre @ concat (map (cert_body h known) (c # cs)) @ rest = ?data" by (simp add: b del: be_bytes.simps)
    have u: "u16_at off ?data = CERT_REF" using u16_field [of 0 off pre] Cons.prems(2) by (simp add: CERT_REF_def del: be_bytes.simps)
    have sl: "slice (off + 2) (off + 2 + FINGERPRINT_LEN) ?data = ?d"
      using slice_field [of "off + 2" "pre @ be_bytes 2 0" "off + 2 + FINGERPRINT_LEN" ?d ?more] Cons.prems(2) ld
      by (simp del: be_bytes.simps)
    have rec: "decode_pool h vf resolve (length cs) (off + 2 + FINGERPRINT_LEN) ?data =
        Inr (map Some cs, off + 2 + FINGERPRINT_LEN + length (concat (map (cert_body h known) cs)))"
      using Cons.IH [of "off + 2 + FINGERPRINT_LEN" "pre @ be_bytes 2 0 @ ?d"] Cons.prems ld by (simp del: be_bytes.simps)
    have len: "\<not> length ?data < off + 2" "\<not> length ?data < off + 2 + FINGERPRINT_LEN"
      using Cons.prems(2) ld by (simp_all del: be_bytes.simps)
    have res: "(case resolve of None \<Rightarrow> None | Some f \<Rightarrow> f ?d) = Some c"
      using c(2) True by (auto simp: resolves_def split: option.splits)
    have "decode_pool h vf resolve (length (c # cs)) off ?data =
        Inr (Some c # map Some cs, off + 2 + FINGERPRINT_LEN + length (concat (map (cert_body h known) cs)))"
      unfolding length_Cons decode_pool.simps Let_def u
      by (simp only: len if_False if_True refl sl res rec rbind_simps prod.case)
    then show ?thesis unfolding data by (simp add: b ld del: be_bytes.simps)
  next
    case False
    let ?b = "cert_bytes c"
    let ?data = "pre @ be_bytes 2 (length ?b) @ ?b @ ?more"
    have v: "cert_valid h vf c" "cert_fits c" "length ?b < 65536" using c(1) False by (simp_all add: packable_def)
    have b: "cert_body h known c = be_bytes 2 (length ?b) @ ?b" using False by (simp add: cert_body_def)
    have data: "pre @ concat (map (cert_body h known) (c # cs)) @ rest = ?data" by (simp add: b del: be_bytes.simps)
    have u: "u16_at off ?data = length ?b" using u16_field [OF v(3) Cons.prems(2)] .
    have nz: "length ?b \<noteq> CERT_REF" by (simp add: cert_bytes_def CERT_REF_def del: be_bytes.simps)
    have sl: "slice (off + 2) (off + 2 + length ?b) ?data = ?b"
      using slice_field [of "off + 2" "pre @ be_bytes 2 (length ?b)" "off + 2 + length ?b" ?b ?more] Cons.prems(2)
      by (simp del: be_bytes.simps)
    have dc: "cert_deserialize h vf ?b = Inr c" using cert_parse_serialized [OF v(1,2), of "[]"] by simp
    have rec: "decode_pool h vf resolve (length cs) (off + 2 + length ?b) ?data =
        Inr (map Some cs, off + 2 + length ?b + length (concat (map (cert_body h known) cs)))"
      using Cons.IH [of "off + 2 + length ?b" "pre @ be_bytes 2 (length ?b) @ ?b"] Cons.prems by (simp del: be_bytes.simps)
    have len: "\<not> length ?data < off + 2" "\<not> length ?data < off + 2 + length ?b"
      using Cons.prems(2) by (simp_all del: be_bytes.simps)
    have "decode_pool h vf resolve (length (c # cs)) off ?data =
        Inr (Some c # map Some cs, off + 2 + length ?b + length (concat (map (cert_body h known) cs)))"
      unfolding length_Cons decode_pool.simps Let_def u
      by (simp only: len nz if_False sl dc sum.case rec rbind_simps prod.case)
    then show ?thesis unfolding data by (simp add: b del: be_bytes.simps)
  qed
qed simp

lemma validate_uri_short: "validate_uri a \<noteq> None \<Longrightarrow> utf8_length a \<le> MAX_URI_LEN"
  by (auto simp: validate_uri_def split: if_splits)

lemma decode_entry_addresses_written:
  assumes "pack_addresses as = Inr bs" "\<forall>a \<in> set as. validate_uri a \<noteq> None" "off = length pre"
  shows "decode_entry_addresses (length as) off (pre @ bs @ rest) = Inr (as, True, off + length bs)"
  using assms
proof (induction as arbitrary: bs off pre)
  case (Cons a as)
  then obtain b r where b: "utf8_encode a = Inr b" "length b < 65536" "pack_addresses as = Inr r"
      "bs = be_bytes 2 (length b) @ b @ r"
    by (auto simp: rbind_Inr pack_H_Inr simp del: be_bytes.simps)
  let ?data = "pre @ be_bytes 2 (length b) @ b @ r @ rest"
  have data: "pre @ bs @ rest = ?data" by (simp add: b del: be_bytes.simps)
  have u: "u16_at off ?data = length b" using u16_field [OF b(2) Cons.prems(3)] .
  have va: "validate_uri a \<noteq> None" using Cons.prems(2) by simp
  have ok: "(length b \<le> MAX_URI_LEN \<and> Some a \<noteq> None \<and> validate_uri a \<noteq> None) = True"
    using utf8_encode_length [OF b(1)] validate_uri_short [OF va] va by simp
  have sl: "slice (off + 2) (off + 2 + length b) ?data = b"
    using slice_field [of "off + 2" "pre @ be_bytes 2 (length b)" "off + 2 + length b" b "r @ rest"] Cons.prems(3)
    by (simp del: be_bytes.simps)
  have rec: "decode_entry_addresses (length as) (off + 2 + length b) ?data = Inr (as, True, off + 2 + length b + length r)"
    using Cons.IH [OF b(3), of "off + 2 + length b" "pre @ be_bytes 2 (length b) @ b"] Cons.prems(2,3)
    by (simp del: be_bytes.simps)
  have len: "\<not> length ?data < off + 2" "\<not> length ?data < off + 2 + length b"
    using Cons.prems(3) by (simp_all del: be_bytes.simps)
  have "decode_entry_addresses (length (a # as)) off ?data = Inr (a # as, True, off + 2 + length b + length r)"
    unfolding length_Cons decode_entry_addresses.simps Let_def u
    by (simp only: len if_False sl utf8_roundtrip [OF b(1)] option.case rec rbind_simps prod.case ok simp_thms)
  then show ?case unfolding data by (simp add: b(4) del: be_bytes.simps)
qed simp

lemma decode_refs_written:
  assumes "list_all2 (\<lambda>c i. i < length cs \<and> cs ! i = c) chain is" "length cs \<le> 32" "off = length pre"
  shows "decode_refs (map Some cs) (length chain) off (pre @ concat (map (be_bytes 2) is) @ rest) =
    Inr (Some chain, off + 2 * length chain)"
  using assms
proof (induction chain "is" arbitrary: off pre rule: list_all2_induct)
  case (Cons c chain i "is")
  let ?data = "pre @ be_bytes 2 i @ concat (map (be_bytes 2) is) @ rest"
  have i: "i < length cs" "cs ! i = c" "i < 65536" using Cons.hyps(1) Cons.prems(1) by auto
  have u: "u16_at off ?data = i" using u16_field [OF i(3) Cons.prems(2)] .
  have rec: "decode_refs (map Some cs) (length chain) (off + 2) ?data = Inr (Some chain, off + 2 + 2 * length chain)"
    using Cons.IH [OF Cons.prems(1), of "off + 2" "pre @ be_bytes 2 i"] Cons.prems(2) by (simp del: be_bytes.simps)
  have len: "\<not> length ?data < off + 2" "\<not> length (map Some cs) \<le> i" using Cons.prems(2) i by (simp_all del: be_bytes.simps)
  have at: "map Some cs ! i = Some c" using i by simp
  have "decode_refs (map Some cs) (length (c # chain)) off ?data = Inr (Some (c # chain), off + 2 + 2 * length chain)"
    unfolding length_Cons decode_refs.simps Let_def u
    by (simp only: len if_False rec rbind_simps prod.case at option.case)
  then show ?case by (simp del: be_bytes.simps)
qed simp

text \<open>What a receiver makes of an entry it was sent.\<close>

definition received :: "real \<Rightarrow> node_entry \<Rightarrow> node_entry" where
  "received now e = (new_entry now (ne_node_id e) (take MAX_ADDRESSES (ne_addresses e)) [])\<lparr> ne_cert_chain := ne_cert_chain e \<rparr>"

lemma decode_entry_list_written:
  assumes "list_all2 (entry_written cs) es bs" "length cs \<le> 32" "off = length pre"
    "\<forall>e \<in> set es. length (ne_node_id e) = 20 \<and> length (ne_cert_chain e) \<le> ENTRY_CHAIN_MAX \<and>
       (\<forall>a \<in> set (ne_addresses e). validate_uri a \<noteq> None)"
  shows "decode_entry_list now (map Some cs) (length es) off (pre @ concat bs @ rest) =
    Inr (map (received now) es, off + length (concat bs))"
  using assms
proof (induction es bs arbitrary: off pre rule: list_all2_induct)
  case (Cons e es b bs)
  let ?as = "take MAX_ADDRESSES (ne_addresses e)" and ?chain = "ne_cert_chain e" and ?id = "ne_node_id e"
  from Cons.hyps(1) obtain pk "is" where w: "pack_addresses ?as = Inr pk"
    "list_all2 (\<lambda>c i. i < length cs \<and> cs ! i = c) ?chain is"
    "b = ?id @ [byte_of (length ?as), byte_of (length ?chain)] @ pk @ concat (map (be_bytes 2) is)"
    unfolding entry_written_def by blast
  have e: "length ?id = 20" "length ?chain \<le> 6" "\<forall>a \<in> set ?as. validate_uri a \<noteq> None"
    using Cons.prems(3) by (auto simp: ENTRY_CHAIN_MAX_def dest: in_set_takeD)
  have li: "length is = length ?chain" using w(2) by (simp add: list_all2_lengthD)
  let ?hd = "[byte_of (length ?as), byte_of (length ?chain)]" and ?refs = "concat (map (be_bytes 2) is)"
  let ?data = "pre @ ?id @ ?hd @ pk @ ?refs @ concat bs @ rest"
  have data: "pre @ concat (b # bs) @ rest = ?data" by (simp add: w(3))
  have id: "slice off (off + 20) ?data = ?id" using slice_field [of off pre "off + 20" ?id] Cons.prems(2) e(1) by simp
  have at: "?data ! (off + 20) = byte_of (length ?as)" "?data ! (off + 21) = byte_of (length ?chain)"
    using Cons.prems(2) e(1) by (simp_all add: nth_append)
  have cnt: "unat (?data ! (off + 20)) = length ?as" "unat (?data ! (off + 21)) = length ?chain"
    unfolding at using e(2) by (simp_all add: MAX_ADDRESSES_def)
  have as: "decode_entry_addresses (length ?as) (off + 22) ?data = Inr (?as, True, off + 22 + length pk)"
    using decode_entry_addresses_written [OF w(1) e(3), of "off + 22" "pre @ ?id @ ?hd" "?refs @ concat bs @ rest"]
      Cons.prems(2) e(1) by (simp del: be_bytes.simps)
  have rf: "decode_refs (map Some cs) (length ?chain) (off + 22 + length pk) ?data =
      Inr (Some ?chain, off + 22 + length pk + 2 * length ?chain)"
    using decode_refs_written [OF w(2) Cons.prems(1), of "off + 22 + length pk" "pre @ ?id @ ?hd @ pk" "concat bs @ rest"]
      Cons.prems(2) e(1) by (simp del: be_bytes.simps)
  have lb: "length b = 22 + length pk + 2 * length ?chain" by (simp add: w(3) e(1) length_refs li)
  have rec: "decode_entry_list now (map Some cs) (length es) (off + 22 + length pk + 2 * length ?chain) ?data =
      Inr (map (received now) es, off + 22 + length pk + 2 * length ?chain + length (concat bs))"
    using Cons.IH [OF Cons.prems(1), of "off + 22 + length pk + 2 * length ?chain" "pre @ b"] Cons.prems(2,3) lb
    by (simp add: w(3) del: be_bytes.simps)
  have len: "\<not> length ?data < off + 22" "\<not> MAX_ADDRESSES < length ?as" "\<not> ENTRY_CHAIN_MAX < length ?chain"
    using Cons.prems(2) e by (simp_all add: ENTRY_CHAIN_MAX_def)
  have "decode_entry_list now (map Some cs) (length (e # es)) off ?data =
      Inr (received now e # map (received now) es, off + 22 + length pk + 2 * length ?chain + length (concat bs))"
    unfolding length_Cons decode_entry_list.simps Let_def cnt
    by (simp only: len if_False if_True as rf rec rbind_simps prod.case option.case id received_def)
  then show ?case unfolding data by (simp add: lb)
qed simp

text \<open>Packing a list of entries: which were accepted, and the packer at the end.\<close>

fun packer_run :: "hash_env \<Rightarrow> node_entry list \<Rightarrow> entry_packer \<Rightarrow> (node_entry list \<times> entry_packer) result" where
  "packer_run h [] p = Inr ([], p)"
| "packer_run h (e # es) p =
     rbind (packer_add h e p) (\<lambda>(ok, p). rbind (packer_run h es p) (\<lambda>(acc, p). Inr (if ok then e # acc else acc, p)))"

lemma packer_run_all: "packer_add_all h es p = rbind (packer_run h es p) (\<lambda>(_, p). Inr p)"
proof (induction es arbitrary: p)
  case (Cons e es)
  show ?case
  proof (cases "packer_add h e p")
    case (Inr r)
    then show ?thesis using Cons by (cases r; cases "packer_run h es (snd r)") auto
  qed simp
qed simp

lemma packer_run_spec:
  assumes "packer_run h es p = Inr (acc, p')" "packed h vf cs done p" "inj_on (fingerprint h) C" "set cs \<subseteq> C"
    "\<forall>e \<in> set es. \<forall>c \<in> set (ne_cert_chain e). c \<in> C \<and> cert_valid h vf c \<and> length (fingerprint h c) = 16"
  shows "\<exists>cs'. packed h vf cs' (done @ acc) p' \<and> set cs' \<subseteq> C \<and> set acc \<subseteq> set es \<and> ep_known p' = ep_known p \<and>
    ep_budget p' = ep_budget p"
  using assms
proof (induction es arbitrary: p cs "done" acc)
  case Nil
  then show ?case by auto
next
  case (Cons e es)
  from Cons.prems(1) obtain ok p1 acc1 where a: "packer_add h e p = Inr (ok, p1)" "packer_run h es p1 = Inr (acc1, p')"
    "acc = (if ok then e # acc1 else acc1)" by (auto simp: rbind_Inr)
  from packer_add_spec [OF a(1) Cons.prems(2) _ Cons.prems(3), of] Cons.prems(4,5) obtain cs1 where
    cs1: "packed h vf cs1 (if ok then done @ [e] else done) p1" "set cs1 \<subseteq> C" "ep_known p1 = ep_known p" "ep_budget p1 = ep_budget p"
    by auto
  from Cons.IH [OF a(2) cs1(1) Cons.prems(3) cs1(2)] Cons.prems(5) obtain cs2 where
    "packed h vf cs2 ((if ok then done @ [e] else done) @ acc1) p'" "set cs2 \<subseteq> C" "set acc1 \<subseteq> set es"
    "ep_known p' = ep_known p1" "ep_budget p' = ep_budget p1" by auto
  then show ?case using a(3) cs1 by (intro exI [of _ cs2]) (auto split: if_splits)
qed

lemma new_packer_packed: "packed h vf [] [] (new_packer budget known)"
  by (simp add: packed_def pool_holds_def new_packer_def written_size_def)

lemma packed_decodes:
  assumes "packed h vf cs es p" "packer_encode p = Inr bs" "\<forall>c \<in> set cs. resolves h resolve (ep_known p) c"
    "\<forall>e \<in> set es. length (ne_node_id e) = 20 \<and> (\<forall>a \<in> set (ne_addresses e). validate_uri a \<noteq> None)"
  shows "decode_entries h vf resolve now (bs @ tail) = Inr (map (received now) es, length bs) \<and> length bs = written_size p"
proof -
  have p: "ep_pool p = map (cert_body h (ep_known p)) cs" "length cs \<le> 32" "list_all2 (entry_written cs) es (ep_entries p)"
    "length es \<le> 20" "\<forall>e \<in> set es. length (ne_cert_chain e) \<le> ENTRY_CHAIN_MAX" "\<forall>c \<in> set cs. packable h vf (ep_known p) c"
    using assms(1) by (simp_all add: packed_def pool_holds_def ENTRY_POOL_MAX_def ENTRY_COUNT_MAX_def)
  have le: "length (ep_entries p) = length es" using p(3) by (simp add: list_all2_lengthD)
  let ?pool = "concat (map (cert_body h (ep_known p)) cs)" and ?es = "concat (ep_entries p)"
  have bs: "bs = be_bytes 2 (length cs) @ ?pool @ [byte_of (length es)] @ ?es"
    using assms(2) p(1) le by (auto simp: packer_encode_def rbind_Inr pack_H_Inr simp del: be_bytes.simps split: if_splits)
  let ?data = "be_bytes 2 (length cs) @ ?pool @ [byte_of (length es)] @ ?es @ tail"
  have data: "bs @ tail = ?data" by (simp add: bs del: be_bytes.simps)
  have u: "u16_at 0 ?data = length cs" using u16_field [of "length cs" 0 "[]"] p(2) by (simp del: be_bytes.simps)
  have pool: "decode_pool h vf resolve (length cs) 2 ?data = Inr (map Some cs, 2 + length ?pool)"
    using decode_pool_written [of cs h vf "ep_known p" resolve 2 "be_bytes 2 (length cs)"] p(6) assms(3) by (simp del: be_bytes.simps)
  have at: "?data ! (2 + length ?pool) = byte_of (length es)" by (simp add: nth_append del: be_bytes.simps)
  have n: "unat (?data ! (2 + length ?pool)) = length es" unfolding at using p(4) by simp
  have el: "decode_entry_list now (map Some cs) (length es) (2 + length ?pool + 1) ?data =
      Inr (map (received now) es, 2 + length ?pool + 1 + length ?es)"
    using decode_entry_list_written [OF p(3) p(2), of "2 + length ?pool + 1" "be_bytes 2 (length cs) @ ?pool @ [byte_of (length es)]" now tail]
      p(5) assms(4) by (simp del: be_bytes.simps)
  have len: "\<not> length ?data < 2" "\<not> ENTRY_POOL_MAX < length cs" "\<not> length ?data \<le> 2 + length ?pool" "\<not> ENTRY_COUNT_MAX < length es"
    using p(2,4) by (simp_all add: ENTRY_POOL_MAX_def ENTRY_COUNT_MAX_def del: be_bytes.simps)
  have "decode_entries h vf resolve now ?data = Inr (map (received now) es, 2 + length ?pool + 1 + length ?es)"
    unfolding decode_entries_def Let_def u by (simp only: len if_False pool rbind_simps prod.case n el)
  moreover have "length bs = 2 + length ?pool + 1 + length ?es" by (simp add: bs del: be_bytes.simps)
  moreover have "length bs = written_size p" by (simp add: bs written_size_def p(1) length_concat comp_def del: be_bytes.simps)
  ultimately show ?thesis unfolding data by simp
qed

end
