(* ===== verification/Revocation.thy ===== *)
theory Revocation
  imports Cert
begin

text \<open>
  Signed revocations (\<open>src/revocation.py\<close>) and the lineage a root keeps of the members whose chains it
  shortened (\<open>src/lineage.py\<close>).

  \<open>vf\<close> is the verifier handed to \<open>parse\<close>; one that raises counts as one that refuses, which is how
  the code treats it. \<open>sign\<close> is the signing operation handed to \<open>build\<close>. \<open>key_id\<close> is the raw id
  of \<open>NodeID.from_public_key\<close>: its length check cannot fail because a SHA-256 digest has 32 bytes.
\<close>

definition key_id :: "hash_env \<Rightarrow> bytes \<Rightarrow> node_id" where
  "key_id h pub = take 20 (h_sha256 h pub)"

text \<open>The ASCII of \<open>nmesh-revocation-v1\<close>.\<close>

definition REV_DOMAIN :: bytes where
  "REV_DOMAIN = [110, 109, 101, 115, 104, 45, 114, 101, 118, 111, 99, 97, 116, 105, 111, 110, 45, 118, 49]"

definition REV_VERSION :: nat where "REV_VERSION = 1"
definition REV_HDR_SIZE :: nat where "REV_HDR_SIZE = 34"
definition REV_MAX_PUBKEY :: nat where "REV_MAX_PUBKEY = 4096"
definition REV_MAX_SIG :: nat where "REV_MAX_SIG = 5000"
definition REV_MAX_RECORD :: nat where "REV_MAX_RECORD = REV_HDR_SIZE + REV_MAX_PUBKEY + REV_MAX_SIG"
definition REASON_NAMES :: "nat list" where "REASON_NAMES = [0, 1, 2, 3]"

record revocation =
  rv_issuer_id :: node_id
  rv_issuer_pub :: bytes
  rv_subject_id :: node_id
  rv_issued_at :: nat
  rv_reason :: nat

definition rev_signing_input :: "nat \<Rightarrow> node_id \<Rightarrow> nat \<Rightarrow> bytes" where
  "rev_signing_input issued_at subject_id reason =
     REV_DOMAIN @ be_bytes 1 REV_VERSION @ be_bytes 8 issued_at @ subject_id @ be_bytes 1 reason"

definition rev_build :: "node_id \<Rightarrow> bytes \<Rightarrow> (bytes \<Rightarrow> bytes) \<Rightarrow> nat \<Rightarrow> int \<Rightarrow> bytes result" where
  "rev_build subject_id issuer_pub sign reason stamp =
     (if \<not> (0 \<le> stamp \<and> stamp \<le> 0xFFFFFFFFFFFFFFFF) then Inl ValueError
      else
        (let reason = (if reason \<notin> set REASON_NAMES then 0 else reason);
             signature = sign (rev_signing_input (nat stamp) subject_id reason)
         in if REV_MAX_PUBKEY < length issuer_pub \<or> REV_MAX_SIG < length signature then Inl ValueError
            else Inr (be_bytes 1 REV_VERSION @ be_bytes 8 (nat stamp) @ pack_str 20 subject_id @
                      be_bytes 1 reason @ be_bytes 2 (length issuer_pub) @ be_bytes 2 (length signature) @
                      issuer_pub @ signature)))"

definition rev_parse :: "hash_env \<Rightarrow> verifier \<Rightarrow> bytes \<Rightarrow> revocation option" where
  "rev_parse h vf data =
     (if \<not> (REV_HDR_SIZE \<le> length data \<and> length data \<le> REV_MAX_RECORD) then None
      else
        (let version = be_val (slice 0 1 data); issued_at = be_val (slice 1 9 data);
             subject_raw = slice 9 29 data; reason = be_val (slice 29 30 data);
             pub_len = be_val (slice 30 32 data); sig_len = be_val (slice 32 34 data)
         in if version \<noteq> REV_VERSION then None
            else if REV_MAX_PUBKEY < pub_len \<or> REV_MAX_SIG < sig_len \<or> pub_len = 0 \<or> sig_len = 0 then None
            else if length data \<noteq> REV_HDR_SIZE + pub_len + sig_len then None
            else
              (let issuer_pub = slice REV_HDR_SIZE (REV_HDR_SIZE + pub_len) data;
                   signature = drop (REV_HDR_SIZE + pub_len) data
               in if \<not> vf (rev_signing_input issued_at subject_raw reason) signature issuer_pub then None
                  else if key_id h issuer_pub = subject_raw then None
                  else Some \<lparr> rv_issuer_id = key_id h issuer_pub, rv_issuer_pub = issuer_pub,
                              rv_subject_id = subject_raw, rv_issued_at = issued_at,
                              rv_reason = reason \<rparr>)))"

text \<open>A record that parses was signed, over its own fields, by the key its issuer id is the hash of.\<close>

lemma rev_parse_signed:
  "rev_parse h vf data = Some r \<Longrightarrow>
     (\<exists>signature. vf (rev_signing_input (rv_issued_at r) (rv_subject_id r) (rv_reason r)) signature (rv_issuer_pub r)) \<and>
     rv_issuer_id r = key_id h (rv_issuer_pub r) \<and> rv_issuer_id r \<noteq> rv_subject_id r \<and>
     length (rv_subject_id r) = 20 \<and> length data \<le> REV_MAX_RECORD"
  by (auto simp: rev_parse_def Let_def length_slice REV_HDR_SIZE_def split: if_splits)

lemma rev_build_parses:
  assumes b: "rev_build subject pub sign reason stamp = Inr data"
    and s: "length subject = 20" "pub \<noteq> []" "key_id h pub \<noteq> subject"
    and hon: "\<And>m. sign m \<noteq> [] \<and> vf m (sign m) pub"
  shows "\<exists>r. rev_parse h vf data = Some r \<and> rv_issuer_id r = key_id h pub \<and> rv_subject_id r = subject \<and>
    int (rv_issued_at r) = stamp"
proof -
  define rs where "rs = (if reason \<notin> set REASON_NAMES then 0 else reason)"
  define sg where "sg = sign (rev_signing_input (nat stamp) subject rs)"
  have rng: "0 \<le> stamp" "nat stamp < 2 ^ 64" "length pub \<le> 4096" "length sg \<le> 5000"
    using b by (auto simp: rev_build_def Let_def rs_def [symmetric] sg_def [symmetric] REV_MAX_PUBKEY_def
        REV_MAX_SIG_def nat_less_iff split: if_splits)
  define h1 h2 h3 h4 h5 where "h1 = be_bytes 1 REV_VERSION" and "h2 = be_bytes 8 (nat stamp)" and
    "h3 = be_bytes 1 rs" and "h4 = be_bytes 2 (length pub)" and "h5 = be_bytes 2 (length sg)"
  have data: "data = h1 @ h2 @ subject @ h3 @ h4 @ h5 @ pub @ sg"
    using b s(1) by (simp add: rev_build_def Let_def rs_def [symmetric] sg_def [symmetric] h1_def h2_def h3_def
        h4_def h5_def del: be_bytes.simps split: if_splits)
  have hl: "length h1 = 1" "length h2 = 8" "length h3 = 1" "length h4 = 2" "length h5 = 2"
    by (simp_all add: h1_def h2_def h3_def h4_def h5_def del: be_bytes.simps)
  have "rs < 256" by (auto simp: rs_def REASON_NAMES_def)
  then have v: "be_val h1 = REV_VERSION" "be_val h2 = nat stamp" "be_val h3 = rs" "be_val h4 = length pub"
    "be_val h5 = length sg"
    using rng by (simp_all add: h1_def h2_def h3_def h4_def h5_def REV_VERSION_def del: be_bytes.simps)
  have f: "slice 0 1 data = h1" "slice 1 9 data = h2" "slice 9 29 data = subject" "slice 29 30 data = h3"
    "slice 30 32 data = h4" "slice 32 34 data = h5" "slice 34 (34 + length pub) data = pub"
    "drop (34 + length pub) data = sg"
    by (simp_all add: data slice_def s hl)
  have len: "length data = 34 + length pub + length sg" by (simp add: data hl s)
  have pos: "length pub \<noteq> 0" "length sg \<noteq> 0" using s(2) hon by (simp_all add: sg_def)
  have "vf (rev_signing_input (nat stamp) subject rs) sg pub" using hon by (simp add: sg_def)
  then show ?thesis
    using rng pos s(3) by (simp add: rev_parse_def REV_HDR_SIZE_def REV_MAX_RECORD_def REV_MAX_PUBKEY_def
        REV_MAX_SIG_def f [simplified] v len Let_def)
qed

section \<open>Lineage\<close>

definition MAX_ENTRIES :: nat where "MAX_ENTRIES = 65536"
definition MAX_ANCESTORS :: nat where "MAX_ANCESTORS = 8"

record lineage =
  ln_by_subject :: "(bytes, bytes list) odict"
  ln_max :: nat

definition new_lineage :: "nat \<Rightarrow> lineage" where
  "new_lineage max_entries = \<lparr> ln_by_subject = [], ln_max = max_entries \<rparr>"

definition lineage_record :: "bytes \<Rightarrow> bytes list \<Rightarrow> lineage \<Rightarrow> bool \<times> lineage" where
  "lineage_record subject ancestors b =
     (if length subject \<noteq> 20 \<or> ancestors = [] \<or> MAX_ANCESTORS < length ancestors \<or>
         list_ex (\<lambda>a. length a \<noteq> 20) ancestors \<or> subject \<in> set ancestors then (False, b)
      else if map_of (ln_by_subject b) subject = None \<and> ln_max b \<le> length (ln_by_subject b) then (False, b)
      else (True, b\<lparr> ln_by_subject := AList.update subject ancestors (ln_by_subject b) \<rparr>))"

definition lineage_ancestors :: "bytes \<Rightarrow> lineage \<Rightarrow> bytes list" where
  "lineage_ancestors subject b = (case map_of (ln_by_subject b) subject of None \<Rightarrow> [] | Some a \<Rightarrow> a)"

definition descendants :: "bytes \<Rightarrow> lineage \<Rightarrow> bytes list" where
  "descendants ancestor b = map fst (filter (\<lambda>(_, chain). ancestor \<in> set chain) (ln_by_subject b))"

definition lineage_forget :: "bytes \<Rightarrow> lineage \<Rightarrow> lineage" where
  "lineage_forget subject b = b\<lparr> ln_by_subject := AList.delete subject (ln_by_subject b) \<rparr>"

datatype lineage_event = LnRecord bytes "bytes list" | LnForget bytes

fun lineage_step :: "lineage_event \<Rightarrow> lineage \<Rightarrow> lineage" where
  "lineage_step (LnRecord subject ancestors) b = snd (lineage_record subject ancestors b)"
| "lineage_step (LnForget subject) b = lineage_forget subject b"

abbreviation lineage_ok :: "lineage \<Rightarrow> bool" where
  "lineage_ok b \<equiv> od_ok (ln_by_subject b)"

interpretation members: bounded_book "\<lambda>b. length (ln_by_subject b)" ln_max lineage_step lineage_ok
proof
  fix e and b :: lineage
  assume b: "lineage_ok b" and l: "length (ln_by_subject b) \<le> ln_max b"
  show "length (ln_by_subject (lineage_step e b)) \<le> ln_max b"
  proof (cases e)
    case (LnRecord s a)
    show ?thesis
    proof (cases "map_of (ln_by_subject b) s")
      case None
      then show ?thesis using l length_update_le [of s a "ln_by_subject b"]
        by (auto simp: LnRecord lineage_record_def)
    next
      case (Some x)
      then show ?thesis using l length_update_present [OF map_of_mem [OF Some]]
        by (auto simp: LnRecord lineage_record_def)
    qed
  next
    case (LnForget s)
    then show ?thesis using l length_delete_le [of s "ln_by_subject b"] by (simp add: lineage_forget_def)
  qed
next
  fix e and b :: lineage
  show "ln_max (lineage_step e b) = ln_max b"
    by (cases e) (auto simp: lineage_record_def lineage_forget_def)
next
  fix e and b :: lineage
  assume "lineage_ok b"
  then show "lineage_ok (lineage_step e b)"
    by (cases e) (auto simp: lineage_record_def lineage_forget_def)
qed

text \<open>A member whose lineage was recorded stays reachable by the revocation of any issuer above it.\<close>

lemma lineage_record_descends:
  assumes "lineage_ok b" "lineage_record s a b = (True, b')" "x \<in> set a"
  shows "s \<in> set (descendants x b')"
proof -
  have b': "b' = b\<lparr> ln_by_subject := AList.update s a (ln_by_subject b) \<rparr>"
    using assms(2) by (auto simp: lineage_record_def split: if_splits)
  have "map_of (ln_by_subject b') s = Some a" by (simp add: b' odict_simps)
  then have "(s, a) \<in> set (ln_by_subject b')" by (rule map_of_SomeD)
  then show ?thesis using assms(3) by (force simp: descendants_def)
qed

end
