(* ===== verification/CertStore.thy ===== *)
theory CertStore
  imports Revocation "HOL-Library.Product_Lexorder"
begin

text \<open>
  The certificate store (\<open>src/cert_store.py\<close>, class \<open>CertStore\<close>): every certificate a node holds,
  the roots it trusts, the revocations it has heard, and the search for the chain it presents.

  The state is a record of the class's fields; \<open>cs_certs\<close> is the insertion-ordered dict from a
  subject to its certificates, \<open>cs_chains\<close> the memo of \<open>get_chain_to_root\<close> with the time each chain
  is good until, \<open>cs_revoked\<close> the revocations by issuer and subject. The clock is an argument of every
  operation that reads it. The breadth-first search \<open>search\<close> is the loop of
  \<open>_build_chain_to_root\<close>; it ends because each pass either shortens the queue or visits a subject of
  the store for the first time.

  Lives are compared as integers; the code compares the same numbers as floats, which is the same
  below \<open>2 ^ 53\<close>.
\<close>

definition MAX_SUBJECT_ENTRIES :: nat where "MAX_SUBJECT_ENTRIES = 4096"
definition MAX_PER_SUBJECT :: nat where "MAX_PER_SUBJECT = 8"
definition MAX_REVOCATIONS :: nat where "MAX_REVOCATIONS = 4096"

text \<open>The sort key \<open>-_life\<close>, also that of \<open>sorted(..., key=_life, reverse=True)\<close>, which is stable: roots
  first, then the longest-lived.\<close>

definition life_rank :: "certificate \<Rightarrow> nat \<times> int" where
  "life_rank c = (if ce_expires_at c = 0 then (0, 0) else (1, - ce_expires_at c))"

definition earliest_expiry :: "certificate list \<Rightarrow> int" where
  "earliest_expiry chain =
     (let stamps = filter (\<lambda>t. t \<noteq> 0) (map ce_expires_at chain)
      in if stamps = [] then 0 else Min (set stamps))"

record revoked_entry =
  rk_issued_at :: nat
  rk_reason :: nat
  rk_record :: bytes

record cert_store =
  cs_own_id :: node_id
  cs_certs :: "(node_id, certificate list) odict"
  cs_roots :: "node_id set"
  cs_max_subjects :: nat
  cs_max_per_subject :: nat
  cs_chains :: "(node_id, certificate list option \<times> int) odict"
  cs_revoked :: "(node_id \<times> node_id, revoked_entry) odict"
  cs_max_revocations :: nat
  cs_lineage :: lineage

definition new_cert_store :: "node_id \<Rightarrow> nat \<Rightarrow> nat \<Rightarrow> nat \<Rightarrow> cert_store" where
  "new_cert_store own_id max_subjects max_per_subject max_revocations =
     \<lparr> cs_own_id = own_id, cs_certs = [], cs_roots = {own_id}, cs_max_subjects = max_subjects,
       cs_max_per_subject = max_per_subject, cs_chains = [], cs_revoked = [],
       cs_max_revocations = max_revocations, cs_lineage = new_lineage MAX_ENTRIES \<rparr>"

section \<open>Roots and revocations\<close>

definition add_root :: "node_id \<Rightarrow> cert_store \<Rightarrow> cert_store" where
  "add_root nid s = s\<lparr> cs_roots := insert nid (cs_roots s), cs_chains := [] \<rparr>"

definition is_root :: "node_id \<Rightarrow> cert_store \<Rightarrow> bool" where
  "is_root nid s \<longleftrightarrow> nid \<in> cs_roots s"

definition remove_root :: "node_id \<Rightarrow> cert_store \<Rightarrow> bool \<times> cert_store" where
  "remove_root nid s =
     (if nid = cs_own_id s \<or> nid \<notin> cs_roots s then (False, s)
      else (True, s\<lparr> cs_roots := cs_roots s - {nid}, cs_chains := [] \<rparr>))"

definition certs_of :: "node_id \<Rightarrow> cert_store \<Rightarrow> certificate list" where
  "certs_of key s = (case map_of (cs_certs s) key of None \<Rightarrow> [] | Some l \<Rightarrow> l)"

definition is_revoked :: "cert_store \<Rightarrow> certificate \<Rightarrow> bool" where
  "is_revoked s c =
     (case map_of (cs_revoked s) (ce_issuer_id c, ce_subject_id c) of
        None \<Rightarrow> False | Some held \<Rightarrow> ce_issued_at c \<le> int (rk_issued_at held))"

text \<open>One pass of \<open>_enforce_revocation_bound\<close>: the first revocation no root signed goes.\<close>

definition drop_revocation :: "node_id set \<Rightarrow> (node_id \<times> node_id, revoked_entry) odict
    \<Rightarrow> (node_id \<times> node_id, revoked_entry) odict" where
  "drop_revocation roots d =
     (case find (\<lambda>k. fst k \<notin> roots) (map fst d) of None \<Rightarrow> d | Some k \<Rightarrow> AList.delete k d)"

definition enforce_revocation_bound :: "cert_store \<Rightarrow> cert_store" where
  "enforce_revocation_bound s =
     s\<lparr> cs_revoked := (drop_revocation (cs_roots s) ^^ (length (cs_revoked s) - cs_max_revocations s))
        (cs_revoked s) \<rparr>"

text \<open>What is left of a subject's certificates once the voided ones are gone.\<close>

definition drop_voided :: "node_id \<Rightarrow> cert_store \<Rightarrow> cert_store" where
  "drop_voided subject s =
     (let certs = certs_of subject s
      in if filter (is_revoked s) certs = [] then s
         else (let live = filter (\<lambda>c. \<not> is_revoked s c) certs
               in s\<lparr> cs_certs := (if live \<noteq> [] then AList.update subject live (cs_certs s)
                                 else AList.delete subject (cs_certs s)) \<rparr>))"

definition cs_revoke :: "hash_env \<Rightarrow> verifier \<Rightarrow> bytes \<Rightarrow> cert_store \<Rightarrow> revocation option \<times> cert_store" where
  "cs_revoke h vf record_bytes s =
     (case rev_parse h vf record_bytes of
        None \<Rightarrow> (None, s)
      | Some p \<Rightarrow>
          (let key = (rv_issuer_id p, rv_subject_id p) in
           if (case map_of (cs_revoked s) key of None \<Rightarrow> False | Some held \<Rightarrow> rv_issued_at p \<le> rk_issued_at held)
           then (None, s)
           else
             (let entry = \<lparr> rk_issued_at = rv_issued_at p, rk_reason = rv_reason p, rk_record = record_bytes \<rparr>;
                  s = s\<lparr> cs_revoked := AList.update key entry (cs_revoked s), cs_chains := [] \<rparr>;
                  s = enforce_revocation_bound s
              in (Some p, drop_voided (rv_subject_id p) s))))"

text \<open>\<open>revocation_for\<close>: the newest revocation of a subject, the first of equals.\<close>

definition revocation_for :: "node_id \<Rightarrow> cert_store \<Rightarrow> revoked_entry option" where
  "revocation_for subject s =
     foldl (\<lambda>best ((_, subject_raw), held).
         if subject_raw \<noteq> subject then best
         else (case best of None \<Rightarrow> Some held
               | Some b \<Rightarrow> if rk_issued_at b < rk_issued_at held then Some held else best))
       None (cs_revoked s)"

definition revocations :: "cert_store \<Rightarrow> bytes list" where
  "revocations s = map (\<lambda>(_, held). rk_record held) (cs_revoked s)"

section \<open>The chain to a root\<close>

definition usable :: "cert_store \<Rightarrow> int \<Rightarrow> certificate \<Rightarrow> bool" where
  "usable s now c \<longleftrightarrow> \<not> is_expired now c \<and> \<not> is_revoked s c"

definition live_certs :: "cert_store \<Rightarrow> node_id \<Rightarrow> int \<Rightarrow> certificate list" where
  "live_certs s key now = sort_key life_rank (filter (usable s now) (certs_of key s))"

definition onward :: "cert_store \<Rightarrow> node_id \<Rightarrow> int \<Rightarrow> certificate list \<Rightarrow> (node_id \<times> certificate list) list" where
  "onward s key now path = map (\<lambda>c. (ce_issuer_id c, path @ [c])) (live_certs s key now)"

text \<open>The chain a path that reached a root closes into, if the root's own certificate is known.\<close>

definition closed_chain :: "cert_store \<Rightarrow> node_id \<Rightarrow> int \<Rightarrow> certificate list \<Rightarrow> certificate list option" where
  "closed_chain s root now path =
     (if is_self_signed (last path) then Some path
      else (case find is_self_signed (live_certs s root now) of
              None \<Rightarrow> None | Some rc \<Rightarrow> Some (path @ [rc])))"

definition unvisited :: "cert_store \<Rightarrow> node_id set \<Rightarrow> nat" where
  "unvisited s visited = card (fst ` set (cs_certs s) - visited)"

lemma onward_Nil: "key \<notin> fst ` set (cs_certs s) \<Longrightarrow> onward s key now path = []"
proof -
  assume "key \<notin> fst ` set (cs_certs s)"
  then have "map_of (cs_certs s) key = None" by (simp add: map_of_eq_None_iff)
  then show ?thesis by (simp add: onward_def live_certs_def certs_of_def)
qed

lemma unvisited_step:
  assumes "key \<notin> visited"
  shows "unvisited s (insert key visited) < unvisited s visited \<or>
    (unvisited s (insert key visited) = unvisited s visited \<and> onward s key now path = [])"
proof (cases "key \<in> fst ` set (cs_certs s)")
  case True
  with assms have "fst ` set (cs_certs s) - insert key visited \<subset> fst ` set (cs_certs s) - visited" by auto
  then show ?thesis unfolding unvisited_def by (intro disjI1 psubset_card_mono) auto
next
  case False
  then have "fst ` set (cs_certs s) - insert key visited = fst ` set (cs_certs s) - visited" by auto
  then show ?thesis using onward_Nil [OF False] by (simp add: unvisited_def)
qed

function search :: "cert_store \<Rightarrow> int \<Rightarrow> node_id set \<Rightarrow> (node_id \<times> certificate list) list
    \<Rightarrow> certificate list option \<Rightarrow> certificate list option" where
  "search s now visited [] self_anchored = self_anchored"
| "search s now visited ((current, path) # queue) self_anchored =
     (if current \<in> cs_roots s then
        (case closed_chain s current now path of
           None \<Rightarrow>
             (if current \<notin> visited
              then search s now (insert current visited) (queue @ onward s current now path) self_anchored
              else search s now visited queue self_anchored)
         | Some chain \<Rightarrow>
             (if current \<noteq> cs_own_id s then Some chain
              else search s now visited queue (if self_anchored = None then Some chain else self_anchored)))
      else if current \<in> visited then search s now visited queue self_anchored
      else search s now (insert current visited) (queue @ onward s current now path) self_anchored)"
  by pat_completeness auto
termination
proof (relation "measures [\<lambda>(s, now, visited, queue, sa). unvisited s visited,
    \<lambda>(s, now, visited, queue, sa). length queue]", goal_cases)
  case (2 s now visited current path queue sa)
  then show ?case using unvisited_step [of current visited s now path] by auto
next
  case (6 s now visited current path queue sa)
  then show ?case using unvisited_step [of current visited s now path] by auto
qed auto

definition build_chain :: "node_id \<Rightarrow> int \<Rightarrow> cert_store \<Rightarrow> certificate list option" where
  "build_chain target now s =
     (let target_certs = filter (usable s now) (certs_of target s)
      in if target_certs = [] then None
         else search s now {target}
           (map (\<lambda>c. (ce_issuer_id c, [c]))
             (sort_key (\<lambda>c. (if is_self_signed c then 1 else 0 :: nat, life_rank c)) target_certs)) None)"

definition get_chain :: "node_id \<Rightarrow> int \<Rightarrow> cert_store \<Rightarrow> certificate list option \<times> cert_store" where
  "get_chain target now s =
     (case map_of (cs_chains s) target of
        Some (chain, good_until) \<Rightarrow>
          if good_until = 0 \<or> now \<le> good_until then (chain, s)
          else (let chain = build_chain target now s
                in (chain, s\<lparr> cs_chains := AList.update target
                     (chain, (case chain of None \<Rightarrow> 0 | Some c \<Rightarrow> earliest_expiry c)) (cs_chains s) \<rparr>))
      | None \<Rightarrow>
          (let chain = build_chain target now s
           in (chain, s\<lparr> cs_chains := AList.update target
                (chain, (case chain of None \<Rightarrow> 0 | Some c \<Rightarrow> earliest_expiry c)) (cs_chains s) \<rparr>)))"

fun linked :: "certificate list \<Rightarrow> bool" where
  "linked (a # b # rest) \<longleftrightarrow> ce_issuer_id a = ce_subject_id b \<and> ce_issuer_pub a = ce_subject_pub b \<and> linked (b # rest)"
| "linked _ = True"

definition verify_chain :: "certificate list \<Rightarrow> int \<Rightarrow> cert_store \<Rightarrow> node_id option" where
  "verify_chain chain now s =
     (if chain = [] then None
      else if \<not> list_all (usable s now) chain then None
      else if \<not> linked chain then None
      else if \<not> is_self_signed (last chain) then None
      else if ce_subject_id (last chain) \<notin> cs_roots s then None
      else Some (ce_subject_id (last chain)))"

definition chain_expires_at :: "node_id \<Rightarrow> int \<Rightarrow> cert_store \<Rightarrow> int option \<times> cert_store" where
  "chain_expires_at target now s =
     (let (chain, s) = get_chain target now s in (map_option earliest_expiry chain, s))"

definition cs_ancestors :: "node_id \<Rightarrow> int \<Rightarrow> cert_store \<Rightarrow> node_id set \<times> cert_store" where
  "cs_ancestors nid now s =
     (case get_chain nid now s of
        (None, s) \<Rightarrow> ({}, s)
      | (Some chain, s) \<Rightarrow> (set (map ce_issuer_id chain) - {nid} - cs_roots s, s))"

definition cs_family :: "node_id \<Rightarrow> int \<Rightarrow> cert_store \<Rightarrow> node_id option \<times> cert_store" where
  "cs_family nid now s =
     (case get_chain nid now s of
        (None, s) \<Rightarrow> (None, s)
      | (Some chain, s) \<Rightarrow>
          (if chain = [] then None
           else if 2 \<le> length chain then Some (ce_subject_id (chain ! (length chain - 2))) else Some nid, s))"

section \<open>The certificates\<close>

definition touch_subject :: "node_id \<Rightarrow> cert_store \<Rightarrow> cert_store" where
  "touch_subject key s = s\<lparr> cs_certs := od_to_end key (cs_certs s) \<rparr>"

definition chain_signatures :: "int \<Rightarrow> cert_store \<Rightarrow> bytes set \<times> cert_store" where
  "chain_signatures now s =
     (let (chain, s) = get_chain (cs_own_id s) now s
      in (set (map ce_signature (case chain of None \<Rightarrow> [] | Some c \<Rightarrow> c)), s))"

definition own_chain_subjects :: "int \<Rightarrow> cert_store \<Rightarrow> node_id set \<times> cert_store" where
  "own_chain_subjects now s =
     (let (chain, s) = get_chain (cs_own_id s) now s;
          chain = (case chain of None \<Rightarrow> [] | Some c \<Rightarrow> c)
      in (insert (cs_own_id s) (set (map ce_subject_id chain) \<union> set (map ce_issuer_id chain)), s))"

text \<open>One pass of the eviction inside a subject: the first certificate our own chain does not need.\<close>

definition drop_certificate :: "bytes set \<Rightarrow> certificate list \<Rightarrow> certificate list" where
  "drop_certificate load_bearing certs =
     (case find (\<lambda>c. ce_signature c \<notin> load_bearing) certs of None \<Rightarrow> tl certs | Some v \<Rightarrow> remove1 v certs)"

definition trim_subject :: "node_id \<Rightarrow> int \<Rightarrow> cert_store \<Rightarrow> cert_store" where
  "trim_subject key now s =
     (let existing = certs_of key s in
      if cs_max_per_subject s < length existing
      then (let (load_bearing, s) = chain_signatures now s
            in s\<lparr> cs_certs := AList.update key
                 ((drop_certificate load_bearing ^^ (length existing - cs_max_per_subject s)) existing) (cs_certs s) \<rparr>)
      else s)"

text \<open>The first subject that may be evicted: \<open>_pinned\<close> asks for our own chain only off the roots.\<close>

primrec find_victim :: "int \<Rightarrow> node_id list \<Rightarrow> cert_store \<Rightarrow> node_id option \<times> cert_store" where
  "find_victim now [] s = (None, s)"
| "find_victim now (k # ks) s =
     (if k \<in> cs_roots s then find_victim now ks s
      else (let (subjects, s) = own_chain_subjects now s
            in if k \<in> subjects then find_victim now ks s else (Some k, s)))"

text \<open>Each pass of the bound takes one subject out, so it runs as often as there are too many.\<close>

primrec enforce_passes :: "nat \<Rightarrow> int \<Rightarrow> cert_store \<Rightarrow> cert_store" where
  "enforce_passes 0 now s = s"
| "enforce_passes (Suc n) now s =
     (case find_victim now (od_keys (cs_certs s)) s of
        (None, s) \<Rightarrow> s
      | (Some victim, s) \<Rightarrow> enforce_passes n now (s\<lparr> cs_certs := AList.delete victim (cs_certs s) \<rparr>))"

definition enforce_bounds :: "int \<Rightarrow> cert_store \<Rightarrow> cert_store" where
  "enforce_bounds now s = enforce_passes (length (cs_certs s) - cs_max_subjects s) now s"

definition cs_add :: "certificate \<Rightarrow> int \<Rightarrow> cert_store \<Rightarrow> bool \<times> cert_store" where
  "cs_add c now s =
     (if is_expired now c \<or> is_revoked s c then (False, s)
      else
        (let key = ce_subject_id c; existing = certs_of key s in
         if list_ex (\<lambda>e. ce_signature e = ce_signature c) existing then (True, touch_subject key s)
         else
           (let s = s\<lparr> cs_certs := AList.update key (existing @ [c]) (cs_certs s), cs_chains := [] \<rparr>;
                s = trim_subject key now s;
                s = touch_subject key s
            in (True, enforce_bounds now s))))"

definition add_all :: "certificate list \<Rightarrow> int \<Rightarrow> cert_store \<Rightarrow> cert_store" where
  "add_all certs now s = fold (\<lambda>c s. snd (cs_add c now s)) certs s"

definition certs_for :: "node_id \<Rightarrow> cert_store \<Rightarrow> certificate list" where
  "certs_for nid s = certs_of nid s"

definition fingerprints :: "hash_env \<Rightarrow> int \<Rightarrow> cert_store \<Rightarrow> bytes list" where
  "fingerprints h limit s =
     (if limit \<le> 0 then []
      else take (nat limit) (map (fingerprint h) (concat (map snd (rev (cs_certs s))))))"

definition by_fingerprint :: "hash_env \<Rightarrow> bytes \<Rightarrow> cert_store \<Rightarrow> certificate option" where
  "by_fingerprint h print s = find (\<lambda>c. fingerprint h c = print) (concat (map snd (cs_certs s)))"

definition knows :: "node_id \<Rightarrow> cert_store \<Rightarrow> bool" where
  "knows nid s \<longleftrightarrow> certs_of nid s \<noteq> []"

definition has_issued :: "cert_store \<Rightarrow> bool" where
  "has_issued s \<longleftrightarrow>
     list_ex (\<lambda>c. ce_issuer_id c = cs_own_id s \<and> \<not> is_self_signed c) (concat (map snd (cs_certs s)))"

definition prune_expired :: "int \<Rightarrow> cert_store \<Rightarrow> nat \<times> cert_store" where
  "prune_expired stamp s =
     (let live = (\<lambda>certs. filter (\<lambda>c. \<not> is_expired stamp c) certs);
          removed = sum_list (map (\<lambda>(_, certs). length certs - length (live certs)) (cs_certs s));
          kept = filter (\<lambda>(_, certs). length (live certs) = length certs \<or> live certs \<noteq> []) (cs_certs s)
      in (removed, s\<lparr> cs_certs := map (\<lambda>(key, certs). (key, live certs)) kept,
                     cs_chains := (if 0 < removed then [] else cs_chains s) \<rparr>))"

text \<open>What happens to a store: certificates and revocations arrive, chains are asked for, the sweep runs
  and the operator changes the roots.\<close>

datatype store_event =
    SvAdd certificate int
  | SvRevoke bytes
  | SvChain node_id int
  | SvPrune int
  | SvRoot node_id
  | SvUnroot node_id

fun store_step :: "hash_env \<Rightarrow> verifier \<Rightarrow> store_event \<Rightarrow> cert_store \<Rightarrow> cert_store" where
  "store_step h vf (SvAdd c now) s = snd (cs_add c now s)"
| "store_step h vf (SvRevoke record_bytes) s = snd (cs_revoke h vf record_bytes s)"
| "store_step h vf (SvChain target now) s = snd (get_chain target now s)"
| "store_step h vf (SvPrune now) s = snd (prune_expired now s)"
| "store_step h vf (SvRoot nid) s = add_root nid s"
| "store_step h vf (SvUnroot nid) s = snd (remove_root nid s)"

section \<open>What the search returns\<close>

text \<open>\<open>chain_from V s t ch\<close>: a chain of certificates satisfying \<open>V\<close>, none revoked, from \<open>t\<close> to the
  self-signed certificate of a root.\<close>

definition chain_from :: "(certificate \<Rightarrow> bool) \<Rightarrow> cert_store \<Rightarrow> node_id \<Rightarrow> certificate list \<Rightarrow> bool" where
  "chain_from V s target ch \<longleftrightarrow> ch \<noteq> [] \<and> ce_subject_id (hd ch) = target \<and>
     successively (\<lambda>a b. ce_issuer_id a = ce_subject_id b) ch \<and> is_self_signed (last ch) \<and>
     ce_subject_id (last ch) \<in> cs_roots s \<and> (\<forall>c \<in> set ch. V c \<and> \<not> is_revoked s c)"

definition certs_ok :: "(certificate \<Rightarrow> bool) \<Rightarrow> cert_store \<Rightarrow> bool" where
  "certs_ok V s \<longleftrightarrow> od_ok (cs_certs s) \<and>
     od_all (\<lambda>k l. \<forall>c \<in> set l. ce_subject_id c = k \<and> V c) (cs_certs s)"

definition path_to :: "(certificate \<Rightarrow> bool) \<Rightarrow> cert_store \<Rightarrow> int \<Rightarrow> node_id \<Rightarrow> node_id \<Rightarrow> certificate list \<Rightarrow> bool" where
  "path_to V s now target current path \<longleftrightarrow> path \<noteq> [] \<and> ce_subject_id (hd path) = target \<and>
     successively (\<lambda>a b. ce_issuer_id a = ce_subject_id b) path \<and> ce_issuer_id (last path) = current \<and>
     (\<forall>c \<in> set path. V c \<and> usable s now c)"

lemma certs_okD: "certs_ok V s \<Longrightarrow> c \<in> set (certs_of key s) \<Longrightarrow> ce_subject_id c = key \<and> V c"
  by (auto simp: certs_ok_def certs_of_def dest: od_allD split: option.splits)

lemma live_certs_mem: "c \<in> set (live_certs s key now) \<longleftrightarrow> c \<in> set (certs_of key s) \<and> usable s now c"
  by (auto simp: live_certs_def)

lemma path_to_onward:
  "certs_ok V s \<Longrightarrow> path_to V s now target key path \<Longrightarrow> (cur, p) \<in> set (onward s key now path) \<Longrightarrow>
     path_to V s now target cur p"
  by (auto simp: onward_def path_to_def live_certs_mem successively_append_iff dest: certs_okD)

lemma closed_chain_from:
  assumes "certs_ok V s" "path_to V s now target root path" "root \<in> cs_roots s"
    "closed_chain s root now path = Some ch"
  shows "chain_from V s target ch \<and> list_all (usable s now) ch"
proof (cases "is_self_signed (last path)")
  case True
  then show ?thesis using assms
    by (auto simp: closed_chain_def chain_from_def path_to_def is_self_signed_def usable_def list_all_iff)
next
  case False
  with assms(4) obtain rc where rc: "find is_self_signed (live_certs s root now) = Some rc" "ch = path @ [rc]"
    by (auto simp: closed_chain_def split: option.splits)
  then have "rc \<in> set (live_certs s root now)" "is_self_signed rc"
    by (auto simp: find_Some_iff)
  then show ?thesis using assms(1-3) certs_okD [OF assms(1)] rc(2)
    by (auto simp: chain_from_def path_to_def live_certs_mem usable_def list_all_iff successively_append_iff)
qed

lemma search_sound:
  assumes "search s now visited queue sa = Some ch" "certs_ok V s"
    "\<forall>(cur, p) \<in> set queue. path_to V s now target cur p"
    "sa \<noteq> None \<longrightarrow> chain_from V s target (the sa) \<and> list_all (usable s now) (the sa)"
  shows "chain_from V s target ch \<and> list_all (usable s now) ch"
  using assms
proof (induction s now visited queue sa rule: search.induct)
  case (2 s now visited current path queue sa)
  let ?more = "queue @ onward s current now path"
  have hd: "path_to V s now target current path" using "2.prems"(3) by simp
  have more: "\<forall>(cur, p) \<in> set ?more. path_to V s now target cur p"
    using "2.prems"(3) path_to_onward [OF "2.prems"(2) hd] by auto
  have rest: "\<forall>(cur, p) \<in> set queue. path_to V s now target cur p" using "2.prems"(3) by simp
  show ?case
  proof (cases "current \<in> cs_roots s")
    case root: True
    show ?thesis
    proof (cases "closed_chain s current now path")
      case None
      then show ?thesis using 2 root more rest by (auto split: if_splits)
    next
      case (Some c)
      have c: "chain_from V s target c \<and> list_all (usable s now) c"
        by (rule closed_chain_from [OF "2.prems"(2) hd root Some])
      show ?thesis
      proof (cases "current = cs_own_id s")
        case False
        then show ?thesis using "2.prems"(1) root Some c by simp
      next
        case True
        then show ?thesis
          using "2.IH"(3) [OF root Some] "2.prems"(1,2,4) rest root Some c by (auto split: if_splits)
      qed
    qed
  next
    case False
    then show ?thesis using 2 more rest by (auto split: if_splits)
  qed
qed simp

lemma build_chain_sound:
  assumes "build_chain target now s = Some ch" "certs_ok V s"
  shows "chain_from V s target ch \<and> list_all (usable s now) ch"
proof (rule search_sound [OF _ assms(2)])
  let ?certs = "sort_key (\<lambda>c. (if is_self_signed c then 1 else 0 :: nat, life_rank c)) (filter (usable s now) (certs_of target s))"
  show "search s now {target} (map (\<lambda>c. (ce_issuer_id c, [c])) ?certs) None = Some ch"
    using assms(1) by (auto simp: build_chain_def Let_def split: if_splits)
  show "\<forall>(cur, p) \<in> set (map (\<lambda>c. (ce_issuer_id c, [c])) ?certs). path_to V s now target cur p"
    using certs_okD [OF assms(2)] by (auto simp: path_to_def)
qed simp

section \<open>The invariant of a store\<close>

definition cache_ok :: "(certificate \<Rightarrow> bool) \<Rightarrow> cert_store \<Rightarrow> bool" where
  "cache_ok V s \<longleftrightarrow> od_all (\<lambda>t (chain, until). case chain of None \<Rightarrow> True
     | Some ch \<Rightarrow> chain_from V s t ch \<and> until = earliest_expiry ch) (cs_chains s)"

definition store_ok :: "(certificate \<Rightarrow> bool) \<Rightarrow> cert_store \<Rightarrow> bool" where
  "store_ok V s \<longleftrightarrow> certs_ok V s \<and> cache_ok V s"

lemma is_revoked_upd [simp]:
  "is_revoked (s\<lparr> cs_certs := x \<rparr>) c = is_revoked s c" "is_revoked (s\<lparr> cs_chains := y \<rparr>) c = is_revoked s c"
  "is_revoked (s\<lparr> cs_roots := z \<rparr>) c = is_revoked s c"
  by (simp_all add: is_revoked_def)

lemma chain_from_upd [simp]:
  "chain_from V (s\<lparr> cs_certs := x \<rparr>) t ch = chain_from V s t ch"
  "chain_from V (s\<lparr> cs_chains := y \<rparr>) t ch = chain_from V s t ch"
  by (simp_all add: chain_from_def)

lemma certs_ok_upd [simp]:
  "certs_ok V (s\<lparr> cs_chains := y \<rparr>) = certs_ok V s" "certs_ok V (s\<lparr> cs_roots := z \<rparr>) = certs_ok V s"
  "certs_ok V (s\<lparr> cs_revoked := w \<rparr>) = certs_ok V s"
  by (simp_all add: certs_ok_def)

lemma cache_ok_upd [simp]: "cache_ok V (s\<lparr> cs_certs := x \<rparr>) = cache_ok V s"
  unfolding cache_ok_def chain_from_upd by simp

lemma cache_ok_empty [simp]: "cs_chains s = [] \<Longrightarrow> cache_ok V s"
  by (simp add: cache_ok_def)

lemma not_expired_earliest:
  assumes "earliest_expiry ch = 0 \<or> now \<le> earliest_expiry ch" "c \<in> set ch"
  shows "\<not> is_expired now c"
proof (cases "ce_expires_at c = 0")
  case False
  let ?T = "set (filter (\<lambda>t. t \<noteq> 0) (map ce_expires_at ch))"
  have mem: "ce_expires_at c \<in> ?T" using assms(2) False by auto
  then have ne: "filter (\<lambda>t. t \<noteq> 0) (map ce_expires_at ch) \<noteq> []" by (metis empty_iff empty_set)
  then have e: "earliest_expiry ch = Min ?T" unfolding earliest_expiry_def Let_def by (simp only: if_False)
  have "Min ?T \<le> ce_expires_at c" using mem by (intro Min_le) auto
  moreover have "Min ?T \<noteq> 0"
  proof -
    have "Min ?T \<in> ?T" using mem by (intro Min_in) auto
    then show ?thesis by auto
  qed
  ultimately show ?thesis using assms(1) e False by (auto simp: is_expired_def)
qed (simp add: is_expired_def)

lemma get_chain_ok:
  assumes "store_ok V s" "get_chain target now s = (r, s')"
  shows "store_ok V s' \<and> (\<exists>x. s' = s\<lparr> cs_chains := x \<rparr>) \<and>
    (r \<noteq> None \<longrightarrow> chain_from V s target (the r) \<and> list_all (usable s now) (the r))"
proof -
  have ok: "certs_ok V s" "cache_ok V s" using assms(1) by (simp_all add: store_ok_def)
  let ?e = "(build_chain target now s, case build_chain target now s of None \<Rightarrow> 0 | Some c \<Rightarrow> earliest_expiry c)"
  have built: "(r, s') = (build_chain target now s, s\<lparr> cs_chains := AList.update target ?e (cs_chains s) \<rparr>) \<Longrightarrow> ?thesis"
  proof -
    assume e: "(r, s') = (build_chain target now s, s\<lparr> cs_chains := AList.update target ?e (cs_chains s) \<rparr>)"
    have b: "build_chain target now s = Some ch \<Longrightarrow> chain_from V s target ch \<and> list_all (usable s now) ch" for ch
      using build_chain_sound ok(1) by blast
    have "cache_ok V s'" using ok(2) b e
      by (auto simp: cache_ok_def split: option.splits intro!: od_all_update)
    then show ?thesis using e b ok(1) by (auto simp: store_ok_def)
  qed
  show ?thesis
  proof (cases "map_of (cs_chains s) target")
    case None
    then show ?thesis using assms(2) by (intro built) (auto simp: get_chain_def Let_def)
  next
    case (Some p)
    obtain chain until where p: "p = (chain, until)" by (cases p) auto
    show ?thesis
    proof (cases "until = 0 \<or> now \<le> until")
      case True
      then have r: "r = chain" "s' = s" using assms(2) Some p by (auto simp: get_chain_def)
      have "chain = Some ch \<Longrightarrow> chain_from V s target ch \<and> until = earliest_expiry ch" for ch
        using od_allD [OF ok(2) [unfolded cache_ok_def] Some] p by auto
      then have "chain = Some ch \<Longrightarrow> chain_from V s target ch \<and> list_all (usable s now) ch" for ch
        using True not_expired_earliest [of ch now] by (simp add: usable_def list_all_iff chain_from_def)
      moreover have "\<exists>x. s' = s\<lparr> cs_chains := x \<rparr>" using r by (intro exI [of _ "cs_chains s"]) simp
      ultimately show ?thesis using r assms(1) by (cases chain) simp_all
    next
      case False
      then show ?thesis using assms(2) Some p by (intro built) (auto simp: get_chain_def Let_def)
    qed
  qed
qed

lemma certs_ok_update:
  "certs_ok V s \<Longrightarrow> \<forall>c \<in> set l. ce_subject_id c = key \<and> V c \<Longrightarrow> certs_ok V (s\<lparr> cs_certs := AList.update key l (cs_certs s) \<rparr>)"
  by (auto simp: certs_ok_def intro: od_all_update)

lemma certs_ok_delete: "certs_ok V s \<Longrightarrow> certs_ok V (s\<lparr> cs_certs := AList.delete key (cs_certs s) \<rparr>)"
  by (auto simp: certs_ok_def intro: od_all_delete)

lemma touch_ok: "store_ok V s \<Longrightarrow> store_ok V (touch_subject key s)"
  by (auto simp: store_ok_def touch_subject_def certs_ok_def intro: od_all_to_end)

lemma set_drop_certificate: "set (drop_certificate lb certs) \<subseteq> set certs"
  using set_remove1_subset by (cases certs) (auto simp: drop_certificate_def split: option.splits)

lemma set_drop_certificates: "set ((drop_certificate lb ^^ n) certs) \<subseteq> set certs"
  by (induction n) (use set_drop_certificate in fastforce)+

lemma chain_signatures_ok:
  assumes "store_ok V s" "chain_signatures now s = (lb, s')"
  shows "store_ok V s' \<and> (\<exists>x. s' = s\<lparr> cs_chains := x \<rparr>)"
  using get_chain_ok [OF assms(1), of "cs_own_id s" now] assms(2)
  by (auto simp: chain_signatures_def split: prod.splits)

lemma own_chain_subjects_ok:
  assumes "store_ok V s" "own_chain_subjects now s = (lb, s')"
  shows "store_ok V s' \<and> (\<exists>x. s' = s\<lparr> cs_chains := x \<rparr>)"
  using get_chain_ok [OF assms(1), of "cs_own_id s" now] assms(2)
  by (auto simp: own_chain_subjects_def Let_def split: prod.splits)

lemma trim_subject_ok:
  assumes "store_ok V s"
  shows "store_ok V (trim_subject key now s)"
proof (cases "cs_max_per_subject s < length (certs_of key s)")
  case True
  obtain lb s' where lb: "chain_signatures now s = (lb, s')" by (cases "chain_signatures now s")
  from chain_signatures_ok [OF assms lb] obtain x where s': "store_ok V s'" "s' = s\<lparr> cs_chains := x \<rparr>" by blast
  let ?l = "(drop_certificate lb ^^ (length (certs_of key s) - cs_max_per_subject s)) (certs_of key s)"
  have "\<forall>c \<in> set ?l. ce_subject_id c = key \<and> V c"
    using set_drop_certificates certs_okD assms unfolding store_ok_def by blast
  then have "certs_ok V (s'\<lparr> cs_certs := AList.update key ?l (cs_certs s') \<rparr>)"
    using s'(1) certs_ok_update unfolding store_ok_def by blast
  then have "store_ok V (s'\<lparr> cs_certs := AList.update key ?l (cs_certs s') \<rparr>)"
    using s'(1) by (simp add: store_ok_def)
  then show ?thesis using True lb s'(2) by (simp add: trim_subject_def Let_def)
qed (simp add: trim_subject_def assms)

lemma find_victim_ok:
  "store_ok V s \<Longrightarrow> find_victim now ks s = (r, s') \<Longrightarrow> store_ok V s' \<and> (\<exists>x. s' = s\<lparr> cs_chains := x \<rparr>)"
proof (induction ks arbitrary: s)
  case Nil
  then show ?case by (auto intro: exI [of _ "cs_chains s"])
next
  case (Cons k ks)
  obtain subs s1 where o: "own_chain_subjects now s = (subs, s1)" by (cases "own_chain_subjects now s")
  from own_chain_subjects_ok [OF Cons.prems(1) o] obtain x where s1: "store_ok V s1" "s1 = s\<lparr> cs_chains := x \<rparr>" by blast
  show ?case
    using Cons.IH [OF Cons.prems(1)] Cons.IH [OF s1(1)] Cons.prems(2) o s1
    by (auto split: if_splits)
qed

lemma enforce_passes_ok: "store_ok V s \<Longrightarrow> store_ok V (enforce_passes n now s)"
proof (induction n arbitrary: s)
  case (Suc n)
  obtain r s' where f: "find_victim now (od_keys (cs_certs s)) s = (r, s')"
    by (cases "find_victim now (od_keys (cs_certs s)) s")
  have s': "store_ok V s'" using find_victim_ok [OF Suc.prems f] by blast
  then have "store_ok V (s'\<lparr> cs_certs := AList.delete v (cs_certs s') \<rparr>)" for v
    by (simp add: store_ok_def certs_ok_delete)
  then show ?case using f s' Suc.IH by (auto split: option.splits)
qed simp

lemma cs_add_ok:
  assumes "store_ok V s" "V c"
  shows "store_ok V (snd (cs_add c now s))"
proof -
  let ?key = "ce_subject_id c"
  let ?s1 = "s\<lparr> cs_certs := AList.update ?key (certs_of ?key s @ [c]) (cs_certs s), cs_chains := [] \<rparr>"
  have "\<forall>e \<in> set (certs_of ?key s @ [c]). ce_subject_id e = ?key \<and> V e"
    using certs_okD assms unfolding store_ok_def by auto
  then have "certs_ok V (s\<lparr> cs_certs := AList.update ?key (certs_of ?key s @ [c]) (cs_certs s) \<rparr>)"
    using certs_ok_update assms(1) unfolding store_ok_def by blast
  then have "store_ok V ?s1" by (simp add: store_ok_def)
  then have "store_ok V (enforce_bounds now (touch_subject ?key (trim_subject ?key now ?s1)))"
    unfolding enforce_bounds_def by (intro enforce_passes_ok touch_ok trim_subject_ok)
  then show ?thesis using touch_ok [OF assms(1)] assms(1) by (simp add: cs_add_def Let_def)
qed

lemma cs_revoke_ok: "store_ok V s \<Longrightarrow> store_ok V (snd (cs_revoke h vf b s))"
proof -
  assume s: "store_ok V s"
  have d: "certs_ok V s' \<Longrightarrow> cs_chains s' = [] \<Longrightarrow> store_ok V (drop_voided k s')" for s' k
    using certs_okD [of V s'] by (auto simp: drop_voided_def Let_def store_ok_def intro!: certs_ok_update certs_ok_delete)
  have "certs_ok V (enforce_revocation_bound (s\<lparr> cs_revoked := w, cs_chains := [] \<rparr>)) \<and>
      cs_chains (enforce_revocation_bound (s\<lparr> cs_revoked := w, cs_chains := [] \<rparr>)) = []" for w
    using s by (simp add: enforce_revocation_bound_def store_ok_def)
  then show ?thesis using d s by (auto simp: cs_revoke_def Let_def split: option.splits)
qed

lemma prune_ok: "store_ok V s \<Longrightarrow> store_ok V (snd (prune_expired now s))"
proof -
  assume s: "store_ok V s"
  let ?live = "\<lambda>certs. filter (\<lambda>c. \<not> is_expired now c) certs"
  let ?kept = "filter (\<lambda>(_, certs). length (?live certs) = length certs \<or> ?live certs \<noteq> []) (cs_certs s)"
  let ?cs = "map (\<lambda>(key, certs). (key, ?live certs)) ?kept"
  have "map fst ?cs = map fst ?kept" by (simp add: case_prod_beta comp_def)
  moreover have "od_ok ?kept" using s by (simp add: store_ok_def certs_ok_def)
  ultimately have "od_ok ?cs" by (simp only:)
  moreover have "od_all (\<lambda>k l. \<forall>c \<in> set l. ce_subject_id c = k \<and> V c) ?cs"
    using s by (auto simp: store_ok_def certs_ok_def od_all_def)
  ultimately have "certs_ok V (s\<lparr> cs_certs := ?cs \<rparr>)" by (simp add: certs_ok_def)
  then show ?thesis using s by (simp add: prune_expired_def store_ok_def Let_def)
qed

lemma store_step_ok:
  assumes "store_ok V s" "\<And>c now. e = SvAdd c now \<Longrightarrow> V c"
  shows "store_ok V (store_step h vf e s)"
proof (cases e)
  case (SvChain t now)
  then show ?thesis using get_chain_ok [OF assms(1), of t now]
    by (cases "get_chain t now s") simp
next
  case (SvRoot n)
  then show ?thesis using assms(1) by (simp add: store_ok_def add_root_def)
next
  case (SvUnroot n)
  then show ?thesis using assms(1) by (simp add: store_ok_def remove_root_def)
qed (simp_all add: assms cs_add_ok cs_revoke_ok prune_ok)

definition added :: "store_event list \<Rightarrow> certificate set" where
  "added es = {c. \<exists>now. SvAdd c now \<in> set es}"

lemma store_run_ok:
  "store_ok V s \<Longrightarrow> \<forall>c \<in> added es. V c \<Longrightarrow> store_ok V (fold (store_step h vf) es s)"
proof (induction es arbitrary: s)
  case (Cons e es)
  have "V c" if "e = SvAdd c now" for c now using that Cons.prems(2) by (auto simp: added_def)
  then have "store_ok V (store_step h vf e s)" using Cons.prems(1) store_step_ok by blast
  moreover have "\<forall>c \<in> added es. V c" using Cons.prems(2) by (auto simp: added_def)
  ultimately show ?case using Cons.IH by simp
qed simp

lemma new_store_ok [simp]: "store_ok V (new_cert_store own a b m)"
  by (simp add: new_cert_store_def store_ok_def certs_ok_def)

lemma linked_iff:
  "linked ch \<longleftrightarrow> successively (\<lambda>a b. ce_issuer_id a = ce_subject_id b \<and> ce_issuer_pub a = ce_subject_pub b) ch"
  by (induction ch rule: linked.induct) auto

text \<open>An issuer and a subject of the same id have the same key, as long as no two keys in sight collide.\<close>

lemma linked_by_keys:
  assumes "successively (\<lambda>a b. ce_issuer_id a = ce_subject_id b) ch" "\<forall>c \<in> set ch. cert_valid h vf c"
    "inj_on (key_id h) (ce_subject_pub ` set ch \<union> ce_issuer_pub ` set ch)"
  shows "linked ch"
  unfolding linked_iff
proof (rule successively_mono [OF assms(1)])
  fix a b assume ab: "a \<in> set ch" "b \<in> set ch" "ce_issuer_id a = ce_subject_id b"
  then have "key_id h (ce_issuer_pub a) = key_id h (ce_subject_pub b)"
    using cert_valid_ids assms(2) by (metis key_id_def)
  then show "ce_issuer_id a = ce_subject_id b \<and> ce_issuer_pub a = ce_subject_pub b"
    using assms(3) ab by (auto dest: inj_onD)
qed

section \<open>Completeness of the search\<close>

inductive vouched :: "cert_store \<Rightarrow> int \<Rightarrow> node_id \<Rightarrow> node_id \<Rightarrow> bool" for s now target where
  direct: "c \<in> set (certs_of target s) \<Longrightarrow> usable s now c \<Longrightarrow> vouched s now target (ce_issuer_id c)"
| higher: "vouched s now target key \<Longrightarrow> c \<in> set (certs_of key s) \<Longrightarrow> usable s now c \<Longrightarrow>
             vouched s now target (ce_issuer_id c)"

definition anchored :: "cert_store \<Rightarrow> int \<Rightarrow> node_id \<Rightarrow> bool" where
  "anchored s now r \<longleftrightarrow> r \<in> cs_roots s \<and> (\<exists>c \<in> set (certs_of r s). usable s now c \<and> is_self_signed c)"

lemma closed_chain_None: "closed_chain s r now path = None \<Longrightarrow> \<not> anchored s now r"
  by (auto simp: closed_chain_def anchored_def find_None_iff live_certs_mem split: if_splits option.splits)

lemma search_keeps_found: "search s now visited queue (Some ch) \<noteq> None"
proof (induction s now visited queue "Some ch" arbitrary: ch rule: search.induct)
  case (2 s now visited current path queue)
  show ?case
  proof (cases "current \<in> cs_roots s")
    case True
    then show ?thesis using 2 by (cases "closed_chain s current now path") auto
  next
    case False
    then show ?thesis using 2 by auto
  qed
qed simp

text \<open>Where the search found nothing, everything it reached is closed under issuance and anchors nothing.\<close>

definition explored :: "cert_store \<Rightarrow> int \<Rightarrow> node_id set \<Rightarrow> node_id set \<Rightarrow> bool" where
  "explored s now visited pending \<longleftrightarrow>
     (\<forall>v \<in> visited. \<forall>c \<in> set (live_certs s v now). ce_issuer_id c \<in> visited \<union> pending) \<and>
     (\<forall>v \<in> visited. anchored s now v \<longrightarrow> v \<in> pending)"

lemma explored_expand:
  assumes "explored s now visited (insert current pending)" "\<not> anchored s now current"
  shows "explored s now (insert current visited) (pending \<union> fst ` set (onward s current now path))"
  using assms unfolding explored_def onward_def by (auto simp: image_image)

lemma explored_skip:
  assumes "explored s now visited (insert current pending)" "\<not> anchored s now current" "current \<in> visited"
  shows "explored s now visited pending"
  using assms unfolding explored_def by auto

lemma search_none:
  assumes "search s now visited queue sa = None" "explored s now visited (fst ` set queue)"
  shows "\<exists>W. visited \<union> fst ` set queue \<subseteq> W \<and> explored s now W {}"
  using assms
proof (induction s now visited queue sa rule: search.induct)
  case (1 s now visited sa)
  then show ?case by auto
next
  case (2 s now visited current path queue sa)
  have found: "sa = None" using "2.prems"(1) search_keeps_found by (metis not_None_eq)
  have ex: "explored s now visited (insert current (fst ` set queue))" using "2.prems"(2) by simp
  have na: "\<not> anchored s now current"
  proof
    assume a: "anchored s now current"
    then have r: "current \<in> cs_roots s" by (simp add: anchored_def)
    obtain ch where ch: "closed_chain s current now path = Some ch" using a closed_chain_None by fastforce
    then show False using "2.prems"(1) r found search_keeps_found [of s now visited queue ch] by (auto split: if_splits)
  qed
  have none: "current \<in> cs_roots s \<Longrightarrow> closed_chain s current now path = Some ch \<Longrightarrow> False" for ch
    using "2.prems"(1) found search_keeps_found [of s now visited queue ch] by (auto split: if_splits)
  show ?case
  proof (cases "current \<in> visited")
    case True
    have nxt: "search s now visited queue sa = None"
      using "2.prems"(1) True none by (auto split: if_splits option.splits)
    have "\<exists>W. visited \<union> fst ` set queue \<subseteq> W \<and> explored s now W {}"
    proof (cases "current \<in> cs_roots s")
      case root: True
      then have c: "closed_chain s current now path = None" using none by (cases "closed_chain s current now path") auto
      show ?thesis using "2.IH"(2) [OF root c] True nxt explored_skip [OF ex na True] by simp
    next
      case False
      show ?thesis using "2.IH"(4) [OF False True nxt explored_skip [OF ex na True]] .
    qed
    then show ?thesis using True by (simp add: insert_absorb)
  next
    case False
    let ?q = "queue @ onward s current now path"
    have nxt: "search s now (insert current visited) ?q sa = None"
      using "2.prems"(1) False none by (auto split: if_splits option.splits)
    have e: "explored s now (insert current visited) (fst ` set ?q)"
      using explored_expand [OF ex na, of path] by (simp add: image_Un)
    have "\<exists>W. insert current visited \<union> fst ` set ?q \<subseteq> W \<and> explored s now W {}"
    proof (cases "current \<in> cs_roots s")
      case root: True
      then have c: "closed_chain s current now path = None" using none by (cases "closed_chain s current now path") auto
      show ?thesis by (rule "2.IH"(1) [OF root c False nxt e])
    next
      case nr: False
      show ?thesis by (rule "2.IH"(5) [OF nr False nxt e])
    qed
    then show ?thesis by auto
  qed
qed

lemma build_chain_complete:
  assumes ok: "certs_ok V s" and v: "vouched s now target r" and a: "anchored s now r"
  shows "build_chain target now s \<noteq> None"
proof
  assume none: "build_chain target now s = None"
  let ?l = "filter (usable s now) (certs_of target s)"
  let ?q = "map (\<lambda>c. (ce_issuer_id c, [c])) (sort_key (\<lambda>c. (if is_self_signed c then 1 else 0 :: nat, life_rank c)) ?l)"
  have "?l \<noteq> []" using v by (induction rule: vouched.induct) (auto simp: filter_empty_conv)
  then have s: "search s now {target} ?q None = None" using none by (simp add: build_chain_def Let_def)
  have q: "fst ` set ?q = ce_issuer_id ` set ?l" by (auto simp: image_image)
  have "explored s now {target} (fst ` set ?q)"
    using certs_okD [OF ok] unfolding explored_def q
    by (auto simp: live_certs_mem anchored_def is_self_signed_def image_iff)
  from search_none [OF s this] obtain W where W: "target \<in> W" "explored s now W {}" by auto
  have "r \<in> W" using v
  proof (induction rule: vouched.induct)
    case (direct c)
    then show ?case using W unfolding explored_def by (auto simp: live_certs_mem)
  next
    case (higher key c)
    then show ?case using W unfolding explored_def by (auto simp: live_certs_mem)
  qed
  then show False using W(2) a unfolding explored_def by blast
qed

lemma chain_vouches:
  "ch \<noteq> [] \<Longrightarrow> successively (\<lambda>a b. ce_issuer_id a = ce_subject_id b) ch \<Longrightarrow>
     \<forall>c \<in> set ch. c \<in> set (certs_of (ce_subject_id c) s) \<and> usable s now c \<Longrightarrow>
     vouched s now (ce_subject_id (hd ch)) (ce_issuer_id (last ch))"
proof (induction ch rule: rev_induct)
  case (snoc c ch)
  show ?case
  proof (cases "ch = []")
    case True
    then show ?thesis using snoc.prems by (auto intro: vouched.direct)
  next
    case False
    then have ih: "vouched s now (ce_subject_id (hd ch)) (ce_issuer_id (last ch))"
      and link: "ce_issuer_id (last ch) = ce_subject_id c"
      using snoc.IH snoc.prems by (auto simp: successively_append_iff)
    have "vouched s now (ce_subject_id (hd ch)) (ce_issuer_id c)"
      by (rule vouched.higher [OF ih]) (use snoc.prems link in auto)
    then show ?thesis using False by simp
  qed
qed simp

lemma build_chain_vouches:
  assumes "certs_ok V s" "build_chain target now s = Some ch"
  shows "\<exists>r. vouched s now target r \<and> anchored s now r"
proof -
  let ?V = "\<lambda>c. c \<in> set (certs_of (ce_subject_id c) s)"
  have "od_all (\<lambda>k l. \<forall>c \<in> set l. ce_subject_id c = k \<and> ?V c) (cs_certs s)"
    unfolding od_all_def
  proof (intro ballI)
    fix p c assume p: "p \<in> set (cs_certs s)" and c: "c \<in> set (snd p)"
    have "map_of (cs_certs s) (fst p) = Some (snd p)"
      using p assms(1) unfolding certs_ok_def by (intro map_of_is_SomeI) auto
    moreover have "ce_subject_id c = fst p" using assms(1) p c unfolding certs_ok_def od_all_def by blast
    ultimately show "ce_subject_id c = fst p \<and> ?V c" using c by (simp add: certs_of_def)
  qed
  then have ok: "certs_ok ?V s" using assms(1) by (simp add: certs_ok_def)
  from build_chain_sound [OF assms(2) ok]
  have ch: "ch \<noteq> []" "ce_subject_id (hd ch) = target" "is_self_signed (last ch)" "ce_subject_id (last ch) \<in> cs_roots s"
    "successively (\<lambda>a b. ce_issuer_id a = ce_subject_id b) ch"
    "\<forall>c \<in> set ch. c \<in> set (certs_of (ce_subject_id c) s) \<and> usable s now c"
    by (auto simp: chain_from_def list_all_iff)
  have "vouched s now target (ce_issuer_id (last ch))" using chain_vouches [OF ch(1,5,6)] ch(2) by simp
  moreover have "anchored s now (ce_issuer_id (last ch))"
    using ch(3,4,6) last_in_set [OF ch(1)] unfolding anchored_def is_self_signed_def
    by (intro conjI bexI [of _ "last ch"]) auto
  ultimately show ?thesis by blast
qed

section \<open>Revocations of a root\<close>

lemma get_chain_frame: "\<exists>x. snd (get_chain t now s) = s\<lparr> cs_chains := x \<rparr>"
  by (intro exI [of _ "cs_chains (snd (get_chain t now s))"])
    (auto simp: get_chain_def Let_def split: option.splits)

text \<open>What no operation on certificates touches.\<close>

definition same_law :: "cert_store \<Rightarrow> cert_store \<Rightarrow> bool" where
  "same_law s s' \<longleftrightarrow> cs_roots s' = cs_roots s \<and> cs_revoked s' = cs_revoked s \<and>
     cs_max_per_subject s' = cs_max_per_subject s"

lemma same_law_refl [simp]: "same_law s s"
  by (simp add: same_law_def)

lemma same_law_trans: "same_law s s' \<Longrightarrow> same_law s' s'' \<Longrightarrow> same_law s s''"
  by (simp add: same_law_def)

lemma same_law_upd [simp]:
  "same_law s (s'\<lparr> cs_certs := x \<rparr>) = same_law s s'" "same_law s (s'\<lparr> cs_chains := y \<rparr>) = same_law s s'"
  "same_law (s\<lparr> cs_certs := x \<rparr>) s' = same_law s s'" "same_law (s\<lparr> cs_chains := y \<rparr>) s' = same_law s s'"
  by (simp_all add: same_law_def)

lemma get_chain_law: "get_chain t now s = (r, s') \<Longrightarrow> same_law s s'"
  using get_chain_frame [of t now s] by auto

lemma find_victim_law: "find_victim now ks s = (r, s') \<Longrightarrow> same_law s s' \<and> cs_certs s' = cs_certs s"
proof (induction ks arbitrary: s)
  case (Cons k ks)
  obtain subs s1 where o: "own_chain_subjects now s = (subs, s1)" by (cases "own_chain_subjects now s")
  then have "same_law s s1 \<and> cs_certs s1 = cs_certs s"
    using get_chain_frame [of "cs_own_id s" now s] by (auto simp: own_chain_subjects_def Let_def split: prod.splits)
  then show ?case using Cons.IH [of s] Cons.IH [of s1] Cons.prems o
    by (auto simp: intro: same_law_trans split: if_splits)
qed simp

lemma enforce_passes_law: "same_law s (enforce_passes n now s)"
proof (induction n arbitrary: s)
  case (Suc n)
  obtain r s' where f: "find_victim now (od_keys (cs_certs s)) s = (r, s')"
    by (cases "find_victim now (od_keys (cs_certs s)) s")
  then have "same_law s s'" using find_victim_law by blast
  then show ?case using f Suc.IH [of "s'\<lparr> cs_certs := _ \<rparr>"] by (auto intro: same_law_trans split: option.splits)
qed simp

lemma trim_subject_law: "same_law s (trim_subject key now s)"
proof -
  obtain lb s' where c: "chain_signatures now s = (lb, s')" by (cases "chain_signatures now s")
  then have "same_law s s'" using get_chain_law by (auto simp: chain_signatures_def split: prod.splits)
  then show ?thesis using c by (simp add: trim_subject_def Let_def)
qed

lemma cs_add_law: "same_law s (snd (cs_add c now s))"
proof -
  have "same_law s (enforce_bounds now (touch_subject k (trim_subject k now (s\<lparr> cs_certs := x, cs_chains := [] \<rparr>))))" for k x
  proof -
    have "same_law s (touch_subject k (trim_subject k now (s\<lparr> cs_certs := x, cs_chains := [] \<rparr>)))"
      using trim_subject_law [of "s\<lparr> cs_certs := x, cs_chains := [] \<rparr>" k now] by (simp add: touch_subject_def)
    from same_law_trans [OF this enforce_passes_law] show ?thesis by (simp add: enforce_bounds_def)
  qed
  then show ?thesis by (simp add: cs_add_def Let_def touch_subject_def)
qed

definition revoked_by :: "node_id \<Rightarrow> node_id \<Rightarrow> nat \<Rightarrow> cert_store \<Rightarrow> bool" where
  "revoked_by issuer subject stamp s \<longleftrightarrow> issuer \<in> cs_roots s \<and>
     (case map_of (cs_revoked s) (issuer, subject) of None \<Rightarrow> False | Some e \<Rightarrow> stamp \<le> rk_issued_at e)"

lemma drop_revocation_keeps:
  "fst k \<in> roots \<Longrightarrow> map_of (drop_revocation roots d) k = map_of d k"
  by (auto simp: drop_revocation_def delete_conv find_Some_iff split: option.splits)

lemma enforce_revocation_keeps:
  "revoked_by i j t s \<Longrightarrow> revoked_by i j t (enforce_revocation_bound s)"
proof -
  have "fst k \<in> roots \<Longrightarrow> map_of ((drop_revocation roots ^^ n) d) k = map_of d k"
    for k :: "node_id \<times> node_id" and n and roots and d :: "(node_id \<times> node_id, revoked_entry) odict"
    by (induction n) (simp_all add: drop_revocation_keeps)
  then show "revoked_by i j t s \<Longrightarrow> revoked_by i j t (enforce_revocation_bound s)"
    by (simp add: revoked_by_def enforce_revocation_bound_def)
qed

lemma revoked_by_certs [simp]:
  "revoked_by i j t (drop_voided k s) = revoked_by i j t s"
  "revoked_by i j t (s\<lparr> cs_chains := y \<rparr>) = revoked_by i j t s"
  by (simp_all add: revoked_by_def drop_voided_def Let_def)

lemma revoke_revoked_by:
  assumes "cs_revoke h vf b s = (Some p, s')" "rv_issuer_id p \<in> cs_roots s"
  shows "revoked_by (rv_issuer_id p) (rv_subject_id p) (rv_issued_at p) s'"
proof -
  let ?e = "\<lparr> rk_issued_at = rv_issued_at p, rk_reason = rv_reason p, rk_record = b \<rparr>"
  let ?s1 = "s\<lparr> cs_revoked := AList.update (rv_issuer_id p, rv_subject_id p) ?e (cs_revoked s), cs_chains := [] \<rparr>"
  have s': "s' = drop_voided (rv_subject_id p) (enforce_revocation_bound ?s1)"
    using assms(1) by (auto simp: cs_revoke_def Let_def split: option.splits if_splits)
  have "revoked_by (rv_issuer_id p) (rv_subject_id p) (rv_issued_at p) ?s1"
    using assms(2) by (simp add: revoked_by_def odict_simps)
  then show ?thesis unfolding s' by (simp add: enforce_revocation_keeps)
qed

lemma revoke_keeps: "revoked_by i j t s \<Longrightarrow> revoked_by i j t (snd (cs_revoke h vf b s))"
proof -
  assume r: "revoked_by i j t s"
  have "revoked_by i j t (s\<lparr> cs_revoked := AList.update key e (cs_revoked s), cs_chains := [] \<rparr>)"
    if "\<not> (case map_of (cs_revoked s) key of None \<Rightarrow> False | Some held \<Rightarrow> rk_issued_at e \<le> rk_issued_at held)" for key e
    using r that by (auto simp: revoked_by_def odict_simps split: option.splits)
  then show ?thesis using r
    by (auto simp: cs_revoke_def Let_def intro!: enforce_revocation_keeps split: option.splits)
qed

lemma revoked_by_law: "same_law s s' \<Longrightarrow> revoked_by i j t s \<Longrightarrow> revoked_by i j t s'"
  by (simp add: revoked_by_def same_law_def)

lemma revoked_by_step:
  assumes "revoked_by i j t s" "e \<noteq> SvUnroot i"
  shows "revoked_by i j t (store_step h vf e s)"
proof (cases e)
  case (SvChain u now)
  then show ?thesis using assms(1) get_chain_law [of u now s] revoked_by_law
    by (cases "get_chain u now s") auto
next
  case (SvPrune now)
  have "same_law s (snd (prune_expired now s))" by (simp add: prune_expired_def Let_def same_law_def)
  then show ?thesis using assms(1) SvPrune revoked_by_law by simp
next
  case (SvRoot n)
  then show ?thesis using assms(1) by (simp add: revoked_by_def add_root_def)
next
  case (SvUnroot n)
  then show ?thesis using assms by (auto simp: revoked_by_def remove_root_def)
next
  case (SvAdd c now)
  then show ?thesis using revoked_by_law [OF cs_add_law assms(1)] by simp
next
  case (SvRevoke b)
  then show ?thesis using revoke_keeps [OF assms(1)] by simp
qed

lemma revoked_by_run:
  "revoked_by i j t s \<Longrightarrow> SvUnroot i \<notin> set es \<Longrightarrow> revoked_by i j t (fold (store_step h vf) es s)"
proof (induction es arbitrary: s)
  case (Cons e es)
  have "revoked_by i j t (store_step h vf e s)" using Cons.prems by (intro revoked_by_step) auto
  then show ?case using Cons.IH Cons.prems(2) by simp
qed simp

lemma revoked_by_voids:
  "revoked_by (ce_issuer_id c) (ce_subject_id c) t s \<Longrightarrow> ce_issued_at c \<le> int t \<Longrightarrow> is_revoked s c"
  by (auto simp: revoked_by_def is_revoked_def split: option.splits)

end
