(* ===== verification/Membership.thy ===== *)
theory Membership
  imports CertStore
begin

text \<open>
  What the certificate store promises its node: the chains it presents are chains it would accept,
  the search finds one whenever one exists, a revocation signed by a trusted root stands for good,
  and no subject's certificates crowd a store.
\<close>

section \<open>How much one subject may occupy\<close>

definition per_subject :: "nat \<Rightarrow> cert_store \<Rightarrow> bool" where
  "per_subject n s \<longleftrightarrow> cs_max_per_subject s = n \<and> od_all (\<lambda>_ l. length l \<le> n) (cs_certs s)"

lemma length_drop_certificate: "certs \<noteq> [] \<Longrightarrow> length (drop_certificate lb certs) = length certs - 1"
  by (auto simp: drop_certificate_def length_remove1 find_Some_iff split: option.splits)

lemma length_drop_certificates: "n \<le> length certs \<Longrightarrow> length ((drop_certificate lb ^^ n) certs) = length certs - n"
proof (induction n)
  case (Suc n)
  then have "(drop_certificate lb ^^ n) certs \<noteq> []" by fastforce
  then show ?case using Suc by (simp add: length_drop_certificate)
qed simp

lemma per_subject_find_victim:
  "per_subject n s \<Longrightarrow> find_victim now ks s = (r, s') \<Longrightarrow> per_subject n s'"
  using find_victim_law [of now ks s r s'] by (simp add: per_subject_def same_law_def)

lemma per_subject_enforce: "per_subject n s \<Longrightarrow> per_subject n (enforce_passes k now s)"
proof (induction k arbitrary: s)
  case (Suc k)
  obtain r s' where f: "find_victim now (od_keys (cs_certs s)) s = (r, s')"
    by (cases "find_victim now (od_keys (cs_certs s)) s")
  have s': "per_subject n s'" by (rule per_subject_find_victim [OF Suc.prems f])
  then have "per_subject n (s'\<lparr> cs_certs := AList.delete v (cs_certs s') \<rparr>)" for v
    by (simp add: per_subject_def od_all_delete)
  then show ?case using f s' Suc.IH by (cases r) auto
qed simp

lemma map_of_od_all: "od_ok d \<Longrightarrow> od_all P d \<longleftrightarrow> (\<forall>k v. map_of d k = Some v \<longrightarrow> P k v)"
  by (force simp: od_all_def)

lemma per_subject_trim:
  assumes "cs_max_per_subject s = n" "od_ok (cs_certs s)" "od_all (\<lambda>k l. k \<noteq> key \<longrightarrow> length l \<le> n) (cs_certs s)"
  shows "per_subject n (trim_subject key now s)"
proof -
  obtain lb s' where c: "chain_signatures now s = (lb, s')" by (cases "chain_signatures now s")
  then have s': "cs_certs s' = cs_certs s" "cs_max_per_subject s' = n"
    using get_chain_frame [of "cs_own_id s" now s] assms(1) by (auto simp: chain_signatures_def split: prod.splits)
  note ok = map_of_od_all [OF assms(2)] map_of_od_all [OF od_ok_update [OF assms(2)]]
  show ?thesis
  proof (cases "n < length (certs_of key s)")
    case True
    let ?l = "(drop_certificate lb ^^ (length (certs_of key s) - n)) (certs_of key s)"
    have "length ?l \<le> n" using True by (simp add: length_drop_certificates)
    then show ?thesis using True c s' assms(1,3)
      by (auto simp: trim_subject_def Let_def per_subject_def ok odict_simps)
  next
    case False
    have "length v \<le> n" if "map_of (cs_certs s) k = Some v" for k v
      using that False assms(3) by (cases "k = key") (auto simp: certs_of_def ok)
    then show ?thesis using False assms(1) by (simp add: trim_subject_def Let_def per_subject_def ok)
  qed
qed

lemma per_subject_add:
  assumes "per_subject n s" "od_ok (cs_certs s)"
  shows "per_subject n (snd (cs_add c now s))"
proof -
  let ?key = "ce_subject_id c"
  let ?s1 = "s\<lparr> cs_certs := AList.update ?key (certs_of ?key s @ [c]) (cs_certs s), cs_chains := [] \<rparr>"
  have "od_all (\<lambda>k l. k \<noteq> ?key \<longrightarrow> length l \<le> n) (cs_certs s)"
    using assms(1) by (auto simp: per_subject_def od_all_def)
  then have "od_all (\<lambda>k l. k \<noteq> ?key \<longrightarrow> length l \<le> n) (cs_certs ?s1)" by (simp add: od_all_update)
  then have "per_subject n (trim_subject ?key now ?s1)"
    using assms by (intro per_subject_trim) (simp_all add: per_subject_def)
  then have "per_subject n (enforce_bounds now (touch_subject ?key (trim_subject ?key now ?s1)))"
    unfolding enforce_bounds_def by (intro per_subject_enforce) (simp add: touch_subject_def per_subject_def od_all_to_end)
  moreover have "per_subject n (touch_subject ?key s)"
    using assms(1) by (simp add: touch_subject_def per_subject_def od_all_to_end)
  ultimately show ?thesis using assms(1) by (simp add: cs_add_def Let_def)
qed

lemma per_subject_step:
  assumes "per_subject n s" "od_ok (cs_certs s)"
  shows "per_subject n (store_step h vf e s)"
proof (cases e)
  case (SvAdd c now)
  then show ?thesis using per_subject_add [OF assms] by simp
next
  case (SvRevoke b)
  have "per_subject n (drop_voided k s')" if "per_subject n s'" "od_ok (cs_certs s')" for k s'
  proof -
    have "length (filter (\<lambda>c. \<not> is_revoked s' c) (certs_of k s')) \<le> n"
      using that(1) by (auto simp: certs_of_def per_subject_def dest!: od_allD intro: le_trans [OF length_filter_le]
          split: option.splits)
    then show ?thesis using that(1)
      by (auto simp: drop_voided_def Let_def per_subject_def od_all_update od_all_delete)
  qed
  moreover have "per_subject n (enforce_revocation_bound (s\<lparr> cs_revoked := x, cs_chains := [] \<rparr>))"
    "od_ok (cs_certs (enforce_revocation_bound (s\<lparr> cs_revoked := x, cs_chains := [] \<rparr>)))" for x
    using assms by (simp_all add: enforce_revocation_bound_def per_subject_def)
  ultimately show ?thesis using assms SvRevoke by (auto simp: cs_revoke_def Let_def split: option.splits)
next
  case (SvChain t now)
  then show ?thesis using assms get_chain_frame [of t now s] by (auto simp: per_subject_def)
next
  case (SvPrune now)
  have "od_all (\<lambda>_ l. length l \<le> n) (cs_certs (snd (prune_expired now s)))"
    using assms(1) by (auto simp: prune_expired_def Let_def per_subject_def od_all_def intro!: le_trans [OF length_filter_le])
  then show ?thesis using assms(1) SvPrune by (simp add: per_subject_def prune_expired_def Let_def)
next
  case (SvRoot x)
  then show ?thesis using assms by (simp add: add_root_def per_subject_def)
next
  case (SvUnroot x)
  then show ?thesis using assms by (simp add: remove_root_def per_subject_def)
qed

lemma per_subject_run:
  assumes "store_ok (\<lambda>_. True) s" "per_subject n s"
  shows "per_subject n (fold (store_step h vf) es s)"
  using assms
proof (induction es arbitrary: s)
  case (Cons e es)
  have "per_subject n (store_step h vf e s)"
    using Cons.prems by (intro per_subject_step) (simp_all add: store_ok_def certs_ok_def)
  moreover have "store_ok (\<lambda>_. True) (store_step h vf e s)" using Cons.prems(1) by (intro store_step_ok) simp_all
  ultimately show ?case using Cons.IH by simp
qed simp

text \<open>
  One subject cannot fill a store. Whatever certificates and revocations arrive, in any order and
  at any time, no subject ever has more certificates than the bound per subject, and each is filed
  under the id it was issued to.
\<close>
theorem store_per_subject:
  "od_all (\<lambda>key l. length l \<le> per_max) (cs_certs (fold (store_step h vf) es (new_cert_store own subjects per_max revs)))"
  using per_subject_run [of "new_cert_store own subjects per_max revs" per_max h vf es]
  by (simp add: per_subject_def new_cert_store_def) (simp add: new_store_ok [unfolded new_cert_store_def])

section \<open>Properties\<close>

text \<open>
  C3: What a node presents, it would accept. After any history of certificates, revocations, sweeps
  and changes of roots, the chain \<open>get_chain_to_root\<close> answers, memoised or not, starts at the node it
  was asked for and passes \<open>verify_chain\<close> at that moment, provided every certificate was parsed from
  the wire and no two keys seen have the same id.
\<close>
theorem presented_chain_verifies:
  assumes "fold (store_step h vf) es (new_cert_store own subjects per_max revs) = s"
    and "\<forall>c \<in> added es. cert_valid h vf c"
    and "inj_on (key_id h) (ce_subject_pub ` added es \<union> ce_issuer_pub ` added es)"
    and "get_chain target now s = (Some ch, s')"
  shows "ce_subject_id (hd ch) = target \<and> (\<exists>anchor \<in> cs_roots s. verify_chain ch now s' = Some anchor)"
proof -
  let ?V = "\<lambda>c. c \<in> added es \<and> cert_valid h vf c"
  have "store_ok ?V s" unfolding assms(1) [symmetric] by (rule store_run_ok) (use assms(2) in auto)
  from get_chain_ok [OF this assms(4)] obtain x where
    ch: "s' = s\<lparr> cs_chains := x \<rparr>" "chain_from ?V s target ch" "list_all (usable s now) ch" by auto
  have sub: "ce_subject_pub ` set ch \<union> ce_issuer_pub ` set ch \<subseteq> ce_subject_pub ` added es \<union> ce_issuer_pub ` added es"
    using ch(2) by (auto simp: chain_from_def)
  have "linked ch"
    using ch(2) by (intro linked_by_keys [where h = h and vf = vf] inj_on_subset [OF assms(3) sub]) (auto simp: chain_from_def)
  moreover have "usable s' now = usable s now" by (rule ext) (simp add: usable_def ch(1))
  ultimately show ?thesis using ch by (simp add: verify_chain_def chain_from_def)
qed

text \<open>Two members of a network rooted at \<open>demo_id 9\<close>: keys of twenty bytes that are their own ids.\<close>

definition demo_id :: "nat \<Rightarrow> bytes" where
  "demo_id n = word_of_nat n # replicate 19 0"

definition demo_cert :: "nat \<Rightarrow> nat \<Rightarrow> int \<Rightarrow> nat \<Rightarrow> certificate" where
  "demo_cert subject issuer expires sig =
     \<lparr> ce_subject_id = demo_id subject, ce_subject_pub = demo_id subject, ce_issuer_id = demo_id issuer,
       ce_issuer_pub = demo_id issuer, ce_issued_at = 0, ce_expires_at = expires, ce_signature = [word_of_nat sig] \<rparr>"

definition key_hash :: hash_env where
  "key_hash = \<lparr> h_sha256 = (\<lambda>m. take 32 (m @ replicate 32 0)), h_blake2b = (\<lambda>n _ _. replicate n 0) \<rparr>"

lemma demo_id_simps [simp]:
  "length (demo_id n) = 20"
  "n < 256 \<Longrightarrow> m < 256 \<Longrightarrow> demo_id n = demo_id m \<longleftrightarrow> n = m"
proof -
  show "length (demo_id n) = 20" by (simp add: demo_id_def)
  show "n < 256 \<Longrightarrow> m < 256 \<Longrightarrow> demo_id n = demo_id m \<longleftrightarrow> n = m"
    by (auto simp: demo_id_def word_of_nat_eq_iff take_bit_nat_eq_self)
qed

definition demo_history :: "store_event list" where
  "demo_history = [SvRoot (demo_id 9), SvAdd (demo_cert 9 9 0 1) 0, SvAdd (demo_cert 1 9 100 2) 0,
     SvAdd (demo_cert 1 1 0 3) 0, SvAdd (demo_cert 5 1 100 4) 0]"

definition demo_store :: cert_store where
  "demo_store = fold (store_step key_hash (\<lambda>_ _ _. True)) demo_history (new_cert_store (demo_id 1) 4096 8 4096)"

lemmas store_eval = cs_add_def certs_of_def is_expired_def is_revoked_def trim_subject_def touch_subject_def
  enforce_bounds_def od_to_end_def add_root_def new_cert_store_def demo_cert_def Let_def

lemma demo_store_eq:
  "demo_store = (new_cert_store (demo_id 1) 4096 8 4096)\<lparr> cs_roots := {demo_id 1, demo_id 9},
     cs_certs := [(demo_id 9, [demo_cert 9 9 0 1]), (demo_id 1, [demo_cert 1 9 100 2, demo_cert 1 1 0 3]),
       (demo_id 5, [demo_cert 5 1 100 4])] \<rparr>"
  by (simp add: demo_store_def demo_history_def store_eval insert_commute)

lemma demo_cert_ok: "s < 256 \<Longrightarrow> i < 256 \<Longrightarrow> 0 \<le> e \<Longrightarrow> e < 2 ^ 64 \<Longrightarrow> cert_valid key_hash (\<lambda>_ _ _. True) (demo_cert s i e g)"
  by (simp add: cert_valid_iff node_id_of_key demo_cert_def key_hash_def cert_signed_body_def pack_uint_def
      del: be_bytes.simps)

lemma demo_added: "added demo_history = {demo_cert 9 9 0 1, demo_cert 1 9 100 2, demo_cert 1 1 0 3, demo_cert 5 1 100 4}"
  by (auto simp: added_def demo_history_def)

lemma demo_keys: "inj_on (key_id key_hash) (ce_subject_pub ` added demo_history \<union> ce_issuer_pub ` added demo_history)"
  by (auto simp: demo_added inj_on_def key_id_def key_hash_def demo_cert_def)

lemmas chain_eval = build_chain_def closed_chain_def onward_def live_certs_def certs_of_def usable_def is_expired_def
  is_revoked_def is_self_signed_def life_rank_def new_cert_store_def demo_cert_def

theorem presented_chain_verifies_witness:
  "\<exists>ch s' anchor. get_chain (demo_id 1) 50 demo_store = (Some ch, s') \<and>
     ce_subject_id (hd ch) = demo_id 1 \<and> verify_chain ch 50 s' = Some anchor"
proof -
  have "build_chain (demo_id 1) 50 demo_store \<noteq> None"
    by (simp add: demo_store_eq chain_eval)
  then obtain ch s' where ch: "get_chain (demo_id 1) 50 demo_store = (Some ch, s')"
    by (auto simp: get_chain_def Let_def demo_store_eq new_cert_store_def)
  have "\<forall>c \<in> added demo_history. cert_valid key_hash (\<lambda>_ _ _. True) c" by (simp add: demo_added demo_cert_ok)
  from presented_chain_verifies [OF demo_store_def [symmetric] this demo_keys ch] ch show ?thesis by blast
qed

text \<open>
  C8: The search finds a chain exactly when there is one. In a store whose certificates are filed
  under their subjects, \<open>_build_chain_to_root\<close> answers a chain for a target precisely when some root
  holding a usable self-signed certificate vouches for it, through any number of usable
  certificates; the search always ends.
\<close>
theorem chain_found_iff:
  assumes "certs_ok (\<lambda>_. True) s"
  shows "build_chain target now s \<noteq> None \<longleftrightarrow> (\<exists>r. vouched s now target r \<and> anchored s now r)"
  using build_chain_complete [OF assms] build_chain_vouches [OF assms] by blast

theorem chain_found_iff_witness:
  "certs_ok (\<lambda>_. True) demo_store \<and> (\<exists>r. vouched demo_store 50 (demo_id 5) r \<and> anchored demo_store 50 r)"
proof -
  have ok: "certs_ok (\<lambda>_. True) demo_store" by (simp add: demo_store_eq certs_ok_def new_cert_store_def demo_cert_def)
  have "build_chain (demo_id 5) 50 demo_store \<noteq> None" by (simp add: demo_store_eq chain_eval)
  with chain_found_iff [OF ok] ok show ?thesis by blast
qed

text \<open>
  C4: What a trusted root took back stays taken back. After a revocation signed by a root of the
  node was absorbed, no later history - other revocations however many, certificates, sweeps, new
  roots - makes a chain that contains a certificate it voids pass, or lets one into the store, as
  long as the operator does not stop trusting that root.
\<close>
theorem root_revocation_stands:
  assumes "cs_revoke h vf b s = (Some p, s1)" and "rv_issuer_id p \<in> cs_roots s"
    and "SvUnroot (rv_issuer_id p) \<notin> set es" and "c \<in> set ch"
    and "ce_issuer_id c = rv_issuer_id p" "ce_subject_id c = rv_subject_id p" "ce_issued_at c \<le> int (rv_issued_at p)"
  shows "verify_chain ch now (fold (store_step h' vf') es s1) = None \<and>
    fst (cs_add c now (fold (store_step h' vf') es s1)) = False"
proof -
  let ?s = "fold (store_step h' vf') es s1"
  have "revoked_by (rv_issuer_id p) (rv_subject_id p) (rv_issued_at p) ?s"
    by (rule revoked_by_run [OF revoke_revoked_by [OF assms(1,2)] assms(3)])
  then have "is_revoked ?s c" using assms(5-7) by (intro revoked_by_voids) simp_all
  then show ?thesis using assms(4) by (auto simp: verify_chain_def usable_def list_all_iff cs_add_def)
qed

definition demo_revocation :: bytes where
  "demo_revocation = [1] @ be_bytes 8 10 @ demo_id 5 @ [0] @ be_bytes 2 20 @ be_bytes 2 1 @ demo_id 1 @ [7]"

theorem root_revocation_stands_witness:
  "\<exists>p s1. cs_revoke key_hash (\<lambda>_ _ _. True) demo_revocation demo_store = (Some p, s1) \<and>
     verify_chain [demo_cert 5 1 100 4, demo_cert 1 1 0 3] 50
       (fold (store_step key_hash (\<lambda>_ _ _. True)) [SvPrune 20, SvAdd (demo_cert 5 1 100 8) 30] s1) = None"
proof -
  have hdr: "slice 0 1 demo_revocation = [1]" "slice 1 9 demo_revocation = be_bytes 8 10"
    "slice 9 29 demo_revocation = demo_id 5" "slice 29 30 demo_revocation = [0]"
    "slice 30 32 demo_revocation = be_bytes 2 20" "slice 32 34 demo_revocation = be_bytes 2 1"
    "slice 34 54 demo_revocation = demo_id 1" "drop 54 demo_revocation = [7]" "length demo_revocation = 55"
    by (simp_all add: demo_revocation_def slice_def del: be_bytes.simps)
  have v: "be_val [1] = 1" "be_val [0] = 0" "be_val (be_bytes 8 10) = 10" "be_val (be_bytes 2 20) = 20"
    "be_val (be_bytes 2 1) = 1" by (simp_all add: be_val_def [of "[1]"] be_val_def [of "[0]"] del: be_bytes.simps)
  have k: "key_id key_hash (demo_id 1) = demo_id 1" "demo_id 1 \<noteq> demo_id 5" by (simp_all add: key_id_def key_hash_def)
  have "rev_parse key_hash (\<lambda>_ _ _. True) demo_revocation =
      Some \<lparr> rv_issuer_id = demo_id 1, rv_issuer_pub = demo_id 1, rv_subject_id = demo_id 5, rv_issued_at = 10, rv_reason = 0 \<rparr>"
    unfolding rev_parse_def Let_def hdr v REV_HDR_SIZE_def REV_MAX_RECORD_def REV_MAX_PUBKEY_def REV_MAX_SIG_def REV_VERSION_def
    using hdr k by simp
  then obtain p where p: "rev_parse key_hash (\<lambda>_ _ _. True) demo_revocation = Some p" "rv_issuer_id p = demo_id 1"
    "rv_subject_id p = demo_id 5" "rv_issued_at p = 10" by simp
  then obtain s1 where r: "cs_revoke key_hash (\<lambda>_ _ _. True) demo_revocation demo_store = (Some p, s1)"
    by (simp add: cs_revoke_def Let_def demo_store_eq new_cert_store_def)
  have "rv_issuer_id p \<in> cs_roots demo_store" using p by (simp add: demo_store_eq)
  from root_revocation_stands [OF r this, of "[SvPrune 20, SvAdd (demo_cert 5 1 100 8) 30]" "demo_cert 5 1 100 4"
      "[demo_cert 5 1 100 4, demo_cert 1 1 0 3]" 50 key_hash "\<lambda>_ _ _. True"] r p(2-4)
  show ?thesis by (simp add: demo_cert_def)
qed

text \<open>
  The chain a node presents for a member it invited itself stops at its own root. Here the node
  \<open>demo_id 1\<close> holds a certificate from the network's root \<open>demo_id 9\<close> and invited \<open>demo_id 5\<close>: a node
  that trusts the network's root accepts the chain through it, and refuses the one that
  \<open>get_chain_to_root\<close> answers, which ends on the node's own self-signed certificate.
\<close>
theorem invited_chain_self_rooted:
  defines "far \<equiv> add_root (demo_id 9) (new_cert_store (demo_id 7) 4096 8 4096)"
  shows "build_chain (demo_id 5) 50 demo_store = Some [demo_cert 5 1 100 4, demo_cert 1 1 0 3] \<and>
    verify_chain [demo_cert 5 1 100 4, demo_cert 1 1 0 3] 50 far = None \<and>
    verify_chain [demo_cert 5 1 100 4, demo_cert 1 9 100 2, demo_cert 9 9 0 1] 50 far = Some (demo_id 9) \<and>
    set [demo_cert 5 1 100 4, demo_cert 1 9 100 2, demo_cert 9 9 0 1] \<subseteq> set (concat (map snd (cs_certs demo_store)))"
  by (simp add: far_def verify_chain_def add_root_def demo_store_eq chain_eval)

end
