(* ===== verification/Protocol.thy ===== *)
theory Protocol
  imports FoundNode Membership
begin

text \<open>What the codecs of the mesh promise each other's ends.\<close>

text \<open>
  A handshake reads back as what was sent. Any keys, chain of at most six valid certificates and
  signature that \<open>_encode_handshake\<close>, \<open>_encode_handshake_ack\<close> and \<open>_encode_e2e_handshake\<close> accept are
  decoded to exactly the same fields.
\<close>
theorem handshake_roundtrip:
  assumes "list_all (cert_valid h vf) chain" "length chain \<le> 6" "length nonce = 32"
    "case issued of None \<Rightarrow> True | Some c \<Rightarrow> cert_valid h vf c"
    "encode_handshake kem dsa chain sg = Inr hs" "encode_handshake_ack ct dsa chain issued sg = Inr ack"
    "encode_e2e_handshake nonce kem dsa chain sg = Inr e2e"
  shows "decode_handshake h vf hs = Inr (kem, dsa, chain, sg) \<and>
    decode_handshake_ack h vf ack = Inr (ct, dsa, chain, issued, sg) \<and>
    decode_e2e_handshake h vf e2e = Inr (nonce, kem, dsa, chain, sg)"
  by (intro conjI handshake_fields assms)

definition demo_chain :: "certificate list" where
  "demo_chain = [demo_cert 1 9 100 2, demo_cert 9 9 0 1]"

definition demo_vf :: verifier where
  "demo_vf = (\<lambda>_ _ _. True)"

lemma demo_valid: "s < 256 \<Longrightarrow> i < 256 \<Longrightarrow> 0 \<le> e \<Longrightarrow> e < 2 ^ 64 \<Longrightarrow> cert_valid key_hash demo_vf (demo_cert s i e g)"
  unfolding demo_vf_def by (rule demo_cert_ok)

lemma demo_bytes: "s < 256 \<Longrightarrow> i < 256 \<Longrightarrow> 0 \<le> e \<Longrightarrow> e < 2 ^ 64 \<Longrightarrow>
    cert_serialize (demo_cert s i e g) = Inr (cert_bytes (demo_cert s i e g)) \<and> length (cert_bytes (demo_cert s i e g)) = 103"
proof -
  assume "s < 256" "i < 256" "0 \<le> e" "e < 2 ^ 64"
  from cert_serialize_valid [OF demo_valid [OF this]]
  show ?thesis by (simp add: cert_fits_def demo_cert_def cert_bytes_def del: be_bytes.simps)
qed

lemma demo_chain_bytes: "\<exists>cb. encode_chain demo_chain = Inr cb \<and> length cb = 211"
  using demo_bytes [of 1 9 100 2] demo_bytes [of 9 9 0 1]
  by (simp add: demo_chain_def encode_chain_def pack_H_def pack_uint_def del: be_bytes.simps)

theorem handshake_roundtrip_witness:
  "\<exists>hs ack e2e. encode_handshake [1] [2] demo_chain [3] = Inr hs \<and> decode_handshake key_hash demo_vf hs = Inr ([1], [2], demo_chain, [3]) \<and>
     encode_handshake_ack [4] [2] demo_chain None [3] = Inr ack \<and> decode_handshake_ack key_hash demo_vf ack = Inr ([4], [2], demo_chain, None, [3]) \<and>
     encode_e2e_handshake (replicate 32 7) [1] [2] demo_chain [3] = Inr e2e \<and>
     decode_e2e_handshake key_hash demo_vf e2e = Inr (replicate 32 7, [1], [2], demo_chain, [3])"
proof -
  obtain cb where cb: "encode_chain demo_chain = Inr cb" "length cb = 211" using demo_chain_bytes by blast
  have "\<exists>hs. encode_handshake [1] [2] demo_chain [3] = Inr hs" "\<exists>ack. encode_handshake_ack [4] [2] demo_chain None [3] = Inr ack"
    "\<exists>e2e. encode_e2e_handshake (replicate 32 7) [1] [2] demo_chain [3] = Inr e2e"
    by (simp_all add: encode_handshake_def encode_handshake_ack_def encode_e2e_handshake_def cb pack_H_def pack_uint_def
        del: be_bytes.simps)
  then obtain hs ack e2e where e: "encode_handshake [1] [2] demo_chain [3] = Inr hs"
    "encode_handshake_ack [4] [2] demo_chain None [3] = Inr ack"
    "encode_e2e_handshake (replicate 32 7) [1] [2] demo_chain [3] = Inr e2e" by blast
  have "list_all (cert_valid key_hash demo_vf) demo_chain" "length demo_chain \<le> 6" "length (replicate 32 (7 :: byte)) = 32"
    "case None of None \<Rightarrow> True | Some c \<Rightarrow> cert_valid key_hash demo_vf c"
    by (simp_all add: demo_chain_def demo_valid)
  from handshake_roundtrip [OF this e] e show ?thesis by blast
qed

text \<open>
  A ping reads back, by old builds and new. The addresses \<open>_encode_addresses\<close> packs (the first
  eight) decode to themselves whatever follows them, and the trailer a new build appends is found
  exactly where they end, with its interval clamped to four bytes and its token intact.
\<close>
theorem ping_roundtrip:
  assumes "encode_addresses addrs = Inr bs" "list_all (\<lambda>a. utf8_length a \<le> MAX_URI_LEN) addrs"
    "encode_ping_tail next_ms token = Inr tail"
  shows "decode_addresses (bs @ rest) = Inr (take MAX_ADDRESSES addrs) \<and>
    decode_addresses_at (bs @ tail) = Inr (take MAX_ADDRESSES addrs, length bs) \<and>
    decode_ping_tail (bs @ tail) (length bs) = Some (nat (max 0 (min 0xFFFFFFFF next_ms)), nat token)"
  using decode_addresses_encoded [OF assms(1,2)] decode_tail_encoded [OF assms(3)]
  by (simp add: decode_addresses_def)

theorem ping_roundtrip_witness:
  "\<exists>bs tail. encode_addresses [[117, 100, 112, 58, 47, 47, 233]] = Inr bs \<and> encode_ping_tail 2500 77 = Inr tail \<and>
     decode_addresses_at (bs @ tail) = Inr ([[117, 100, 112, 58, 47, 47, 233]], length bs) \<and>
     decode_ping_tail (bs @ tail) (length bs) = Some (2500, 77)"
proof -
  obtain bs where bs: "encode_addresses [[117, 100, 112, 58, 47, 47, 233]] = Inr bs"
    by (simp add: encode_addresses_def Let_def MAX_ADDRESSES_def utf8_encode_def scalar_def utf8_char_def pack_H_def
        pack_uint_def del: be_bytes.simps)
  obtain tail where tail: "encode_ping_tail 2500 77 = Inr tail"
    by (simp add: encode_ping_tail_def pack_uint_def del: be_bytes.simps)
  have "list_all (\<lambda>a. utf8_length a \<le> MAX_URI_LEN) [[117, 100, 112, 58, 47, 47, 233]]"
    by (simp add: utf8_length_def MAX_URI_LEN_def)
  from ping_roundtrip [OF bs this tail] bs tail show ?thesis by (simp add: MAX_ADDRESSES_def)
qed

text \<open>
  C35: An answer to a lookup carries what it was given. Suppose the entries offered to the packer have ids of 20
  bytes and addresses that \<open>_validate_uri\<close> accepts, their certificates are valid, have fingerprints of 16 bytes
  that differ, and those the asker said it knows can be resolved by it. Then every entry the packer accepted - and
  no other - comes out of \<open>_decode_entries\<close>, in order, with its first eight addresses and its whole certificate
  chain, certificates sent in full or named by fingerprint alike; the encoding stays within the byte budget (or the
  three bytes of an empty answer), and the reader stops exactly at its end.
\<close>
theorem found_node_roundtrip:
  assumes run: "packer_run h es (new_packer budget known) = Inr (acc, p)" "packer_encode p = Inr bs"
    and ids: "\<forall>e \<in> set es. length (ne_node_id e) = 20 \<and> (\<forall>a \<in> set (ne_addresses e). validate_uri a \<noteq> None)"
    and certs: "\<forall>e \<in> set es. \<forall>c \<in> set (ne_cert_chain e). c \<in> C"
    and C: "\<forall>c \<in> C. cert_valid h vf c \<and> length (fingerprint h c) = 16 \<and> resolves h resolve known c"
      "inj_on (fingerprint h) C"
  shows "decode_entries h vf resolve now (bs @ tail) = Inr (map (received now) acc, length bs) \<and>
    length bs \<le> max 3 budget \<and> set acc \<subseteq> set es"
proof -
  have known: "ep_known (new_packer budget known) = known" "ep_budget (new_packer budget known) = budget"
    by (simp_all add: new_packer_def)
  have all: "\<forall>e \<in> set es. \<forall>c \<in> set (ne_cert_chain e). c \<in> C \<and> cert_valid h vf c \<and> length (fingerprint h c) = 16"
    using certs C(1) by blast
  from packer_run_spec [OF run(1) new_packer_packed C(2) _ all] obtain cs where
    cs: "packed h vf cs acc p" "set cs \<subseteq> C" "set acc \<subseteq> set es" "ep_known p = known" "ep_budget p = budget"
    unfolding known by auto
  have "\<forall>c \<in> set cs. resolves h resolve (ep_known p) c" using cs(2,4) C(1) by auto
  moreover have "\<forall>e \<in> set acc. length (ne_node_id e) = 20 \<and> (\<forall>a \<in> set (ne_addresses e). validate_uri a \<noteq> None)"
    using cs(3) ids by auto
  ultimately have "decode_entries h vf resolve now (bs @ tail) = Inr (map (received now) acc, length bs) \<and>
      length bs = written_size p" by (rule packed_decodes [OF cs(1) run(2)])
  moreover have "written_size p \<le> max 3 budget" using cs(1,5) by (simp add: packed_def)
  ultimately show ?thesis using cs(3) by simp
qed

definition demo_entries :: "node_entry list" where
  "demo_entries = [(new_entry 0 (demo_id 1) [[97, 58, 47, 47, 98]] [])\<lparr> ne_cert_chain := demo_chain \<rparr>,
     (new_entry 0 (demo_id 9) [] [])\<lparr> ne_cert_chain := [demo_cert 9 9 0 1] \<rparr>]"

lemma demo_print: "fingerprint key_hash (demo_cert s i e g) = word_of_nat g # replicate 15 0"
  by (simp add: fingerprint_def key_hash_def demo_cert_def FINGERPRINT_LEN_def)

lemma demo_packed: "\<exists>p bs. packer_run key_hash demo_entries (new_packer 1000 {2 # replicate 15 0}) = Inr (demo_entries, p) \<and>
    packer_encode p = Inr bs"
proof -
  note b = demo_bytes [of 1 9 100 2] demo_bytes [of 9 9 0 1]
  have pa: "pack_addresses [[97, 58, 47, 47, 98]] = Inr (be_bytes 2 5 @ [97, 58, 47, 47, 98])"
    by (simp add: utf8_encode_def scalar_def utf8_char_def byte_of_def pack_H_def pack_uint_def del: be_bytes.simps)
  show ?thesis using b
    by (simp add: demo_entries_def new_packer_def packer_add_def demo_chain_def new_entry_def demo_print Let_def
        pack_H_def pack_uint_def CERT_REF_def ENTRY_COUNT_MAX_def ENTRY_CHAIN_MAX_def ENTRY_POOL_MAX_def MAX_ADDRESSES_def
        pa pool_put_def packer_encode_def del: be_bytes.simps pack_addresses.simps(2))
qed

theorem found_node_roundtrip_witness:
  "\<exists>bs. decode_entries key_hash demo_vf (Some (\<lambda>d. if d = 2 # replicate 15 0 then Some (demo_cert 1 9 100 2) else None)) 5 bs =
     Inr (map (received 5) demo_entries, length bs) \<and> length bs \<le> 1000"
proof -
  obtain p bs where r: "packer_run key_hash demo_entries (new_packer 1000 {2 # replicate 15 0}) = Inr (demo_entries, p)"
    "packer_encode p = Inr bs" using demo_packed by blast
  let ?C = "{demo_cert 1 9 100 2, demo_cert 9 9 0 1}"
  let ?res = "Some (\<lambda>d. if d = 2 # replicate 15 (0 :: byte) then Some (demo_cert 1 9 100 2) else None)"
  have "\<forall>e \<in> set demo_entries. length (ne_node_id e) = 20 \<and> (\<forall>a \<in> set (ne_addresses e). validate_uri a \<noteq> None)"
    by (simp add: demo_entries_def new_entry_def validate_uri_def utf8_length_def MAX_URI_LEN_def scheme_ok_def Let_def)
  moreover have "\<forall>e \<in> set demo_entries. \<forall>c \<in> set (ne_cert_chain e). c \<in> ?C"
    by (simp add: demo_entries_def demo_chain_def new_entry_def)
  moreover have "\<forall>c \<in> ?C. cert_valid key_hash demo_vf c \<and> length (fingerprint key_hash c) = 16 \<and>
      resolves key_hash ?res {2 # replicate 15 0} c"
    by (simp add: demo_valid demo_print resolves_def)
  moreover have "inj_on (fingerprint key_hash) ?C" by (auto simp: demo_print)
  ultimately show ?thesis using found_node_roundtrip [OF r, of ?C demo_vf ?res 5 "[]"] by auto
qed

end
