(* ===== verification/Behaviour.thy ===== *)
theory Behaviour
  imports Reputation
begin

text \<open>
  Noticing peers that do not play the protocol (\<open>src/behaviour.py\<close>): the observation of one sweep,
  the medians of its peer group, the rules, the books of habits (\<open>ProfileBook\<close>) and of admissions
  (\<open>IssuerBook\<close>), and the watch that runs the rules and decides what may be reported.

  Counters are integers, rates and ratios reals. \<open>report(...)\<close> is the list of calls the watch made,
  in order: subject, weight, rule, summary and response. The prose field \<open>wrong_when\<close> of a rule is
  left out. A book over its bound drops the entry with the least history, the oldest of equals,
  never the one just inserted (\<open>book_evict\<close>, shared by both books); one entry goes per pass.
\<close>

definition MIN_PACKETS :: int where "MIN_PACKETS = 64"
definition MIN_GROUP :: nat where "MIN_GROUP = 4"
definition UNIVERSAL_SHARE :: real where "UNIVERSAL_SHARE = 1 / 2"
definition OUTLIER_FACTOR :: real where "OUTLIER_FACTOR = 8"
definition RULE_RECHARGE :: real where "RULE_RECHARGE = 3600"
definition MAX_CHARGES :: nat where "MAX_CHARGES = 4096"
definition MIN_ANSWERS :: int where "MIN_ANSWERS = 12"
definition DISJOINT_FLOOR :: real where "DISJOINT_FLOOR = 1 / 2"
definition ISSUER_MATURITY :: nat where "ISSUER_MATURITY = 8"
definition ISSUER_ALPHA :: real where "ISSUER_ALPHA = 15 / 100"
definition ISSUER_BURST :: real where "ISSUER_BURST = 8"
definition ISSUER_FLOOR :: int where "ISSUER_FLOOR = 4"
definition MAX_ISSUERS :: nat where "MAX_ISSUERS = 512"
definition PROFILE_MATURITY :: nat where "PROFILE_MATURITY = 12"
definition PROFILE_ALPHA :: real where "PROFILE_ALPHA = 15 / 100"
definition PROFILE_BREAK :: real where "PROFILE_BREAK = 4"
definition PROFILE_DIMENSIONS :: nat where "PROFILE_DIMENSIONS = 2"
definition MAX_PROFILES :: nat where "MAX_PROFILES = 1024"

datatype response = SCORE | NOTICE

record observation =
  ob_node_id :: node_id
  ob_transport :: string
  ob_packets_in :: int
  ob_packets_out :: int
  ob_bytes_in :: int
  ob_bytes_out :: int
  ob_undeclared :: int
  ob_found_entries :: int
  ob_found_self :: int
  ob_answers_judged :: int
  ob_answers_disjoint :: int
  ob_ka_outside :: int
  ob_ka_ignored :: int
  ob_ka_impossible :: int
  ob_profile_break :: bool
  ob_issuer_burst :: bool

definition ratio_out :: "observation \<Rightarrow> real" where
  "ratio_out o' = (if ob_bytes_in o' \<noteq> 0 then real_of_int (ob_bytes_out o') / real_of_int (ob_bytes_in o') else 0)"

definition self_promotion :: "observation \<Rightarrow> real" where
  "self_promotion o' = (if ob_found_entries o' \<noteq> 0 then real_of_int (ob_found_self o') / real_of_int (ob_found_entries o') else 0)"

definition disjoint_share :: "observation \<Rightarrow> real" where
  "disjoint_share o' = (if ob_answers_judged o' = 0 then 0
     else real_of_int (ob_answers_disjoint o') / real_of_int (ob_answers_judged o'))"

definition sampled :: "observation \<Rightarrow> bool" where
  "sampled o' \<longleftrightarrow> MIN_PACKETS \<le> ob_packets_in o'"

record peer_group =
  gr_size :: nat
  gr_ratio_out :: real
  gr_self_promotion :: real
  gr_disjoint_share :: real

definition empty_group :: peer_group where
  "empty_group = \<lparr> gr_size = 0, gr_ratio_out = 0, gr_self_promotion = 0, gr_disjoint_share = 0 \<rparr>"

definition comparable :: "peer_group \<Rightarrow> bool" where
  "comparable g \<longleftrightarrow> MIN_GROUP \<le> gr_size g"

record rule =
  ru_id :: string
  ru_summary :: string
  ru_weight :: real
  ru_test :: "observation \<Rightarrow> peer_group \<Rightarrow> bool"
  ru_response :: response

section \<open>The books\<close>

text \<open>One pass of \<open>_evict\<close>; with nothing else to drop the protected key itself goes.\<close>

definition evict_one :: "('v \<Rightarrow> nat) \<Rightarrow> bytes \<Rightarrow> (bytes, 'v) odict \<Rightarrow> (bytes, 'v) odict" where
  "evict_one history protect d =
     (let others = filter (\<lambda>(k, _). k \<noteq> protect) d;
          victim = (if others = [] then protect else fst (arg_min_list (\<lambda>(_, v). history v) others))
      in AList.delete victim d)"

definition book_evict :: "nat \<Rightarrow> ('v \<Rightarrow> nat) \<Rightarrow> bytes \<Rightarrow> (bytes, 'v) odict \<Rightarrow> (bytes, 'v) odict" where
  "book_evict bound history protect d = (evict_one history protect ^^ (length d - bound)) d"

record profile =
  pf_packets_in :: int
  pf_bytes_in :: int
  pf_bytes_out :: int
  pf_rate :: real
  pf_ratio :: real
  pf_size :: real
  pf_sweeps :: nat

record profile_book =
  fb_profiles :: "(bytes, profile) odict"
  fb_max :: nat

definition new_profile_book :: "int \<Rightarrow> profile_book" where
  "new_profile_book max_profiles = \<lparr> fb_profiles = [], fb_max = nat (max 1 max_profiles) \<rparr>"

definition moved :: "real \<Rightarrow> real \<Rightarrow> bool" where
  "moved now before =
     (if before \<le> 0 \<and> now \<le> 0 then False
      else if before \<le> 0 \<or> now \<le> 0 then True
      else PROFILE_BREAK < max (now / before) (before / now))"

definition averaged :: "real \<Rightarrow> nat \<Rightarrow> real \<Rightarrow> real \<Rightarrow> real" where
  "averaged alpha n held value = (if n = 0 then value else held * (1 - alpha) + value * alpha)"

definition profile_observe :: "observation \<Rightarrow> profile_book \<Rightarrow> bool \<times> profile_book" where
  "profile_observe o' b =
     (let key = ob_node_id o' in
      case map_of (fb_profiles b) key of
        None \<Rightarrow>
          (let fresh = \<lparr> pf_packets_in = ob_packets_in o', pf_bytes_in = ob_bytes_in o',
                         pf_bytes_out = ob_bytes_out o', pf_rate = 0, pf_ratio = 0, pf_size = 0, pf_sweeps = 0 \<rparr>
           in (False, b\<lparr> fb_profiles := book_evict (fb_max b) pf_sweeps key (AList.update key fresh (fb_profiles b)) \<rparr>))
      | Some held \<Rightarrow>
          (let packets = ob_packets_in o' - pf_packets_in held in
           if packets \<le> 0 then (False, b)
           else
             (let bytes_in = max 0 (ob_bytes_in o' - pf_bytes_in held);
                  bytes_out = max 0 (ob_bytes_out o' - pf_bytes_out held);
                  rate = real_of_int packets;
                  ratio = (if bytes_in \<noteq> 0 then real_of_int bytes_out / real_of_int bytes_in else 0);
                  size = real_of_int bytes_in / real_of_int packets;
                  shifted = length (filter (\<lambda>(now, before). moved now before)
                    [(rate, pf_rate held), (ratio, pf_ratio held), (size, pf_size held)]);
                  broke = (PROFILE_MATURITY \<le> pf_sweeps held \<and> PROFILE_DIMENSIONS \<le> shifted);
                  n = pf_sweeps held;
                  held = \<lparr> pf_packets_in = ob_packets_in o', pf_bytes_in = ob_bytes_in o',
                           pf_bytes_out = ob_bytes_out o',
                           pf_rate = averaged PROFILE_ALPHA n (pf_rate held) rate,
                           pf_ratio = averaged PROFILE_ALPHA n (pf_ratio held) ratio,
                           pf_size = averaged PROFILE_ALPHA n (pf_size held) size,
                           pf_sweeps = Suc n \<rparr>
              in (broke, b\<lparr> fb_profiles := AList.update key held (fb_profiles b) \<rparr>))))"

definition profile_forget :: "node_id \<Rightarrow> profile_book \<Rightarrow> profile_book" where
  "profile_forget nid b = b\<lparr> fb_profiles := AList.delete nid (fb_profiles b) \<rparr>"

definition profiles_mature :: "profile_book \<Rightarrow> nat" where
  "profiles_mature b = length (filter (\<lambda>(_, held). PROFILE_MATURITY \<le> pf_sweeps held) (fb_profiles b))"

text \<open>An issuer is its rate and the windows it was watched over; its identity is its key.\<close>

record issuer_book =
  ib_issuers :: "(bytes, real \<times> nat) odict"
  ib_max :: nat

definition new_issuer_book :: "int \<Rightarrow> issuer_book" where
  "new_issuer_book max_issuers = \<lparr> ib_issuers = [], ib_max = nat (max 1 max_issuers) \<rparr>"

definition issuer_observe :: "node_id \<Rightarrow> int \<Rightarrow> issuer_book \<Rightarrow> bool \<times> issuer_book" where
  "issuer_observe key arrivals b =
     (let ((rate, windows), b) =
            (case map_of (ib_issuers b) key of
               Some held \<Rightarrow> (held, b)
             | None \<Rightarrow> ((0, 0), b\<lparr> ib_issuers := book_evict (ib_max b) snd key (AList.update key (0, 0) (ib_issuers b)) \<rparr>));
          arrivals = max 0 arrivals;
          burst = (ISSUER_MATURITY \<le> windows \<and> ISSUER_FLOOR \<le> arrivals \<and>
                   max rate 1 * ISSUER_BURST < real_of_int arrivals)
      in (burst, b\<lparr> ib_issuers := AList.update key
            (averaged ISSUER_ALPHA windows rate (real_of_int arrivals), Suc windows) (ib_issuers b) \<rparr>))"

definition issuers_known :: "issuer_book \<Rightarrow> node_id list" where
  "issuers_known b = od_keys (ib_issuers b)"

definition issuer_forget :: "node_id \<Rightarrow> issuer_book \<Rightarrow> issuer_book" where
  "issuer_forget key b = b\<lparr> ib_issuers := AList.delete key (ib_issuers b) \<rparr>"

definition issuers_mature :: "issuer_book \<Rightarrow> nat" where
  "issuers_mature b = length (filter (\<lambda>(_, _, windows). ISSUER_MATURITY \<le> windows) (ib_issuers b))"

definition median :: "real list \<Rightarrow> real" where
  "median values =
     (if values = [] then 0
      else
        (let ordered = sort values; middle = length ordered div 2
         in if odd (length ordered) then ordered ! middle
            else (ordered ! (middle - 1) + ordered ! middle) / 2))"

section \<open>The rules\<close>

definition traffic_asymmetry :: "observation \<Rightarrow> peer_group \<Rightarrow> bool" where
  "traffic_asymmetry o' g =
     (if \<not> (sampled o' \<and> comparable g \<and> 0 < gr_ratio_out g) then False
      else gr_ratio_out g * OUTLIER_FACTOR < ratio_out o')"

definition self_promotes :: "observation \<Rightarrow> peer_group \<Rightarrow> bool" where
  "self_promotes o' g =
     (if ob_found_entries o' < MIN_PACKETS \<or> \<not> comparable g then False
      else max (gr_self_promotion g * OUTLIER_FACTOR) (1 / 2) < self_promotion o')"

definition disjoint_answers :: "observation \<Rightarrow> peer_group \<Rightarrow> bool" where
  "disjoint_answers o' g =
     (if ob_answers_judged o' < MIN_ANSWERS \<or> \<not> comparable g then False
      else max (gr_disjoint_share g * OUTLIER_FACTOR) DISJOINT_FLOOR < disjoint_share o')"

definition RULES :: "rule list" where
  "RULES =
     [\<lparr> ru_id = ''C1'', ru_summary = ''used a plane it announced it does not speak'', ru_weight = 2,
        ru_test = (\<lambda>o' _. 0 < ob_undeclared o'), ru_response = SCORE \<rparr>,
      \<lparr> ru_id = ''D2'', ru_summary = ''sends far less than it is sent, against its peer group'', ru_weight = 1,
        ru_test = traffic_asymmetry, ru_response = SCORE \<rparr>,
      \<lparr> ru_id = ''E1'', ru_summary = ''answers routing queries mostly with itself'', ru_weight = 1,
        ru_test = self_promotes, ru_response = SCORE \<rparr>,
      \<lparr> ru_id = ''E2'', ru_summary = ''answers routing queries with a view nobody else shares'', ru_weight = 1,
        ru_test = disjoint_answers, ru_response = SCORE \<rparr>,
      \<lparr> ru_id = ''K1'', ru_summary = ''announced a keepalive cadence outside the window we agreed'', ru_weight = 1,
        ru_test = (\<lambda>o' _. 0 < ob_ka_outside o'), ru_response = SCORE \<rparr>,
      \<lparr> ru_id = ''K2'', ru_summary = ''ignored a cadence it was asked for, without announcing the floor that cancels the request'',
        ru_weight = 1, ru_test = (\<lambda>o' _. 0 < ob_ka_ignored o'), ru_response = SCORE \<rparr>,
      \<lparr> ru_id = ''K3'', ru_summary = ''proposed a keepalive window whose floor is above its ceiling'', ru_weight = 2,
        ru_test = (\<lambda>o' _. 0 < ob_ka_impossible o'), ru_response = SCORE \<rparr>,
      \<lparr> ru_id = ''D5'', ru_summary = ''an established peer's habits changed abruptly'', ru_weight = 0,
        ru_test = (\<lambda>o' _. ob_profile_break o'), ru_response = NOTICE \<rparr>]"

definition ISSUER_RULES :: "rule list" where
  "ISSUER_RULES =
     [\<lparr> ru_id = ''A1'', ru_summary = ''admitted far more members at once than it ever has'', ru_weight = 0,
        ru_test = (\<lambda>o' _. ob_issuer_burst o'), ru_response = NOTICE \<rparr>]"

section \<open>The watch\<close>

record watch =
  wa_rules :: "rule list"
  wa_issuer_rules :: "rule list"
  wa_universal :: real
  wa_recharge :: real
  wa_profiles :: profile_book
  wa_issuers :: issuer_book
  wa_charged :: "(bytes \<times> string, real) odict"
  wa_fired :: "(string, nat) odict"
  wa_disarmed :: "(string, nat) odict"

definition new_watch :: "rule list \<Rightarrow> real \<Rightarrow> rule list \<Rightarrow> real \<Rightarrow> watch" where
  "new_watch rules universal issuer_rules recharge =
     \<lparr> wa_rules = rules, wa_issuer_rules = issuer_rules, wa_universal = universal,
       wa_recharge = max 0 recharge, wa_profiles = new_profile_book (int MAX_PROFILES),
       wa_issuers = new_issuer_book (int MAX_ISSUERS), wa_charged = [], wa_fired = [], wa_disarmed = [] \<rparr>"

type_synonym finding = "node_id \<times> real \<times> string \<times> string \<times> response"

definition may_charge :: "node_id \<Rightarrow> string \<Rightarrow> real \<Rightarrow> watch \<Rightarrow> bool \<times> watch" where
  "may_charge nid rule_id now w =
     (let key = (nid, rule_id) in
      if (case map_of (wa_charged w) key of None \<Rightarrow> False | Some t0 \<Rightarrow> now - t0 < wa_recharge w)
      then (False, w\<lparr> wa_charged := od_to_end key (wa_charged w) \<rparr>)
      else (True, w\<lparr> wa_charged := od_trim MAX_CHARGES (od_put_last key now (wa_charged w)) \<rparr>))"

fun charge_hits :: "rule \<Rightarrow> real \<Rightarrow> observation list \<Rightarrow> watch \<Rightarrow> finding list \<times> watch" where
  "charge_hits r now [] w = ([], w)"
| "charge_hits r now (o' # os) w =
     (let (ok, w) = may_charge (ob_node_id o') (ru_id r) now w;
          (rest, w) = charge_hits r now os w
      in (if ok then (ob_node_id o', ru_weight r, ru_id r, ru_summary r, ru_response r) # rest else rest, w))"

definition rule_findings :: "rule list \<Rightarrow> (observation \<Rightarrow> peer_group) \<Rightarrow> observation list
    \<Rightarrow> (string, observation list) odict" where
  "rule_findings rules group_of observations =
     foldl (\<lambda>d r. let fired = filter (\<lambda>o'. ru_test r o' (group_of o')) observations
                  in if fired \<noteq> [] then AList.update (ru_id r) fired d else d) [] rules"

fun report_rules :: "(string, observation list) odict \<Rightarrow> nat \<Rightarrow> real \<Rightarrow> rule list \<Rightarrow> watch \<Rightarrow> finding list \<times> watch" where
  "report_rules findings population now [] w = ([], w)"
| "report_rules findings population now (r # rs) w =
     (case map_of findings (ru_id r) of
        None \<Rightarrow> report_rules findings population now rs w
      | Some hits \<Rightarrow>
          (if max 1 (real population * wa_universal w) < real (length hits)
           then report_rules findings population now rs
                  (w\<lparr> wa_disarmed := AList.update (ru_id r) (length hits) (wa_disarmed w) \<rparr>)
           else
             (let (these, w) = charge_hits r now hits w;
                  (rest, w) = report_rules findings population now rs w
              in (these @ rest, w))))"

definition judge :: "observation list \<Rightarrow> rule list \<Rightarrow> (observation \<Rightarrow> peer_group) \<Rightarrow> nat \<Rightarrow> real \<Rightarrow> watch
    \<Rightarrow> finding list \<times> watch" where
  "judge observations rules group_of population now w =
     (let findings = rule_findings rules group_of observations;
          fired = foldl (\<lambda>d r. AList.update (ru_id r)
            (case map_of findings (ru_id r) of None \<Rightarrow> 0 | Some hits \<Rightarrow> length hits) d) (wa_fired w) rules;
          disarmed = foldl (\<lambda>d r. AList.delete (ru_id r) d) (wa_disarmed w) rules
      in report_rules findings population now rules (w\<lparr> wa_fired := fired, wa_disarmed := disarmed \<rparr>))"

definition group_among :: "observation list \<Rightarrow> string \<Rightarrow> peer_group" where
  "group_among observations name =
     (let members = filter (\<lambda>o'. ob_transport o' = name) observations
      in if members = [] then empty_group
         else \<lparr> gr_size = length members,
                gr_ratio_out = median (map ratio_out (filter sampled members)),
                gr_self_promotion = median (map self_promotion (filter (\<lambda>o'. ob_found_entries o' \<noteq> 0) members)),
                gr_disjoint_share = median (map disjoint_share (filter (\<lambda>o'. ob_answers_judged o' \<noteq> 0) members)) \<rparr>)"

fun fold_profiles :: "observation list \<Rightarrow> profile_book \<Rightarrow> observation list \<times> profile_book" where
  "fold_profiles [] b = ([], b)"
| "fold_profiles (o' # os) b =
     (let (broke, b) = profile_observe o' b; (os, b) = fold_profiles os b
      in (o'\<lparr> ob_profile_break := broke \<rparr> # os, b))"

definition watch_sweep :: "observation list \<Rightarrow> real \<Rightarrow> watch \<Rightarrow> finding list \<times> watch" where
  "watch_sweep observations now w =
     (let (observations, profiles) = fold_profiles observations (wa_profiles w);
          w = w\<lparr> wa_profiles := profiles \<rparr>;
          group_of = (\<lambda>o'. group_among observations (ob_transport o'));
          n = length (filter (\<lambda>o'. comparable (group_of o')) observations)
      in judge observations (wa_rules w) group_of (if n \<noteq> 0 then n else length observations) now w)"

fun fold_issuers :: "(node_id \<times> int) list \<Rightarrow> issuer_book \<Rightarrow> observation list \<times> issuer_book" where
  "fold_issuers [] b = ([], b)"
| "fold_issuers ((issuer, n) # rest) b =
     (let (burst, b) = issuer_observe issuer n b; (os, b) = fold_issuers rest b
      in (\<lparr> ob_node_id = issuer, ob_transport = '''', ob_packets_in = 0, ob_packets_out = 0, ob_bytes_in = 0,
            ob_bytes_out = 0, ob_undeclared = 0, ob_found_entries = 0, ob_found_self = 0, ob_answers_judged = 0,
            ob_answers_disjoint = 0, ob_ka_outside = 0, ob_ka_ignored = 0, ob_ka_impossible = 0,
            ob_profile_break = False, ob_issuer_burst = burst \<rparr> # os, b))"

definition sweep_issuers :: "(node_id, int) odict \<Rightarrow> real \<Rightarrow> watch \<Rightarrow> finding list \<times> watch" where
  "sweep_issuers arrivals now w =
     (let counts = arrivals @ map (\<lambda>k. (k, 0))
            (filter (\<lambda>k. map_of arrivals k = None) (issuers_known (wa_issuers w)));
          (observations, issuers) = fold_issuers counts (wa_issuers w);
          w = w\<lparr> wa_issuers := issuers \<rparr>
      in judge observations (wa_issuer_rules w) (\<lambda>_. empty_group) (issuers_mature issuers) now w)"

definition watch_forget :: "node_id \<Rightarrow> watch \<Rightarrow> watch" where
  "watch_forget nid w =
     w\<lparr> wa_profiles := profile_forget nid (wa_profiles w), wa_issuers := issuer_forget nid (wa_issuers w),
        wa_charged := filter (\<lambda>((k, _), _). k \<noteq> nid) (wa_charged w) \<rparr>"

section \<open>The books stay within their bounds\<close>

lemma evict_one_set: "set (evict_one h p d) \<subseteq> set d"
  unfolding evict_one_def Let_def by (auto simp: AList.delete_eq)

lemma evict_one_ok: "od_ok d \<Longrightarrow> od_ok (evict_one h p d)"
  by (simp add: evict_one_def Let_def)

lemma evict_victim:
  assumes "p \<in> fst ` set d"
  shows "(let others = filter (\<lambda>(k, _). k \<noteq> p) d in
           if others = [] then p else fst (arg_min_list (\<lambda>(_, v). h v) others)) \<in> fst ` set d"
proof (cases "filter (\<lambda>(k, _). k \<noteq> p) d = []")
  case False
  then have "arg_min_list (\<lambda>(_, v). h v) (filter (\<lambda>(k, _). k \<noteq> p) d) \<in> set d"
    using arg_min_list_in [OF False, of "\<lambda>(_, v). h v"] by auto
  then show ?thesis using False by (simp add: Let_def)
qed (use assms in simp)

lemma evict_one_length:
  "od_ok d \<Longrightarrow> p \<in> fst ` set d \<Longrightarrow> Suc (length (evict_one h p d)) = length d"
  using evict_victim [of p d h] unfolding evict_one_def Let_def by (intro length_delete_present) auto

lemma evict_one_keeps:
  assumes "p \<in> fst ` set d" "Suc 0 < length d" "od_ok d"
  shows "p \<in> fst ` set (evict_one h p d)"
proof -
  let ?others = "filter (\<lambda>(k, _). k \<noteq> p) d"
  have ne: "?others \<noteq> []"
  proof
    assume "?others = []"
    then have "\<forall>x \<in> set d. fst x = p" by (auto simp: filter_empty_conv case_prod_unfold)
    then have "set (map fst d) \<subseteq> {p}" by auto
    then have "card (set (map fst d)) \<le> 1" by (metis card.empty card.insert empty_iff finite.emptyI subset_singletonD le_numeral_extra(4) zero_le One_nat_def)
    with assms(2,3) show False by (simp add: distinct_card del: set_map)
  qed
  then have "arg_min_list (\<lambda>(_, v). h v) ?others \<in> set ?others" by (rule arg_min_list_in)
  then have "fst (arg_min_list (\<lambda>(_, v). h v) ?others) \<noteq> p" by auto
  then show ?thesis using assms(1) ne by (simp add: evict_one_def Let_def keys_delete not_sym)
qed

lemma evict_pow:
  assumes "od_ok d" "p \<in> fst ` set d" "n < length d"
  shows "let d' = (evict_one h p ^^ n) d in
           od_ok d' \<and> p \<in> fst ` set d' \<and> length d' = length d - n \<and> set d' \<subseteq> set d"
  using assms
proof (induction n)
  case (Suc n)
  define e where "e = (evict_one h p ^^ n) d"
  have ok: "od_ok e" and pe: "p \<in> fst ` set e" and le: "length e = length d - n" and se: "set e \<subseteq> set d"
    using Suc by (simp_all add: e_def Let_def)
  have "length (evict_one h p e) = length d - Suc n"
    using evict_one_length [OF ok pe, of h] le by simp
  moreover have "p \<in> fst ` set (evict_one h p e)"
    using Suc.prems(3) le by (intro evict_one_keeps pe ok) simp
  ultimately show ?case
    using evict_one_ok [OF ok] evict_one_set [of h p e] se by (auto simp: Let_def e_def)
qed (simp add: Let_def)

lemma book_evict_spec:
  assumes "od_ok d" "p \<in> fst ` set d" "1 \<le> bound"
  shows "od_ok (book_evict bound h p d)" "p \<in> fst ` set (book_evict bound h p d)"
    "length (book_evict bound h p d) \<le> bound" "set (book_evict bound h p d) \<subseteq> set d"
proof -
  have "length d - bound < length d" using assms(2,3) by (cases d) auto
  from evict_pow [OF assms(1,2) this, of h] assms(3)
  show "od_ok (book_evict bound h p d)" "p \<in> fst ` set (book_evict bound h p d)"
    "length (book_evict bound h p d) \<le> bound" "set (book_evict bound h p d) \<subseteq> set d"
    by (simp_all add: book_evict_def Let_def)
qed

lemma update_key: "k \<in> fst ` set (AList.update k v d)"
  by (simp add: dom_update)

definition pb_ok :: "profile_book \<Rightarrow> bool" where
  "pb_ok b \<longleftrightarrow> od_ok (fb_profiles b) \<and> 1 \<le> fb_max b"

datatype profile_op = Observe observation | Drop node_id

fun profile_step :: "profile_op \<Rightarrow> profile_book \<Rightarrow> profile_book" where
  "profile_step (Observe o') b = snd (profile_observe o' b)"
| "profile_step (Drop nid) b = profile_forget nid b"

lemma profile_observe_book:
  assumes "pb_ok b" "length (fb_profiles b) \<le> fb_max b"
  shows "pb_ok (snd (profile_observe o' b))" "fb_max (snd (profile_observe o' b)) = fb_max b"
    "length (fb_profiles (snd (profile_observe o' b))) \<le> fb_max b"
  using assms book_evict_spec [OF od_ok_update update_key]
  by (auto simp: profile_observe_def pb_ok_def Let_def length_update_present map_of_mem split: option.splits)

interpretation habits: bounded_book "\<lambda>b. length (fb_profiles b)" fb_max profile_step pb_ok
proof
  show "length (fb_profiles (profile_step e b)) \<le> fb_max b"
    if "pb_ok b" "length (fb_profiles b) \<le> fb_max b" for b e
    using that profile_observe_book(3) [of b]
    by (cases e) (auto simp: profile_forget_def intro: order_trans [OF length_delete_le])
  show "fb_max (profile_step e b) = fb_max b" for b e
    by (cases e) (auto simp: profile_forget_def profile_observe_def Let_def split: option.splits)
  show "pb_ok (profile_step e b)" if "pb_ok b" "length (fb_profiles b) \<le> fb_max b" for b e
    using that profile_observe_book(1) by (cases e) (auto simp: profile_forget_def pb_ok_def)
qed

definition ib_ok :: "issuer_book \<Rightarrow> bool" where
  "ib_ok b \<longleftrightarrow> od_ok (ib_issuers b) \<and> 1 \<le> ib_max b"

datatype issuer_op = Window node_id int | Unlist node_id

fun issuer_step :: "issuer_op \<Rightarrow> issuer_book \<Rightarrow> issuer_book" where
  "issuer_step (Window k n) b = snd (issuer_observe k n b)"
| "issuer_step (Unlist k) b = issuer_forget k b"

lemma issuer_observe_book:
  assumes "ib_ok b" "length (ib_issuers b) \<le> ib_max b"
  shows "ib_ok (snd (issuer_observe k n b))" "ib_max (snd (issuer_observe k n b)) = ib_max b"
    "length (ib_issuers (snd (issuer_observe k n b))) \<le> ib_max b"
    "fst ` set (ib_issuers (snd (issuer_observe k n b))) \<subseteq> insert k (fst ` set (ib_issuers b))"
proof -
  let ?d = "AList.update k (0, 0) (ib_issuers b)"
  let ?e = "book_evict (ib_max b) snd k ?d"
  have spec: "od_ok ?e" "k \<in> fst ` set ?e" "length ?e \<le> ib_max b" "set ?e \<subseteq> set ?d"
    using book_evict_spec [of ?d k "ib_max b" snd] assms(1) by (simp_all add: ib_ok_def update_key)
  have keys: "fst ` set ?e \<subseteq> insert k (fst ` set (ib_issuers b))"
    using image_mono [OF spec(4), of fst] by (simp add: dom_update)
  show "ib_ok (snd (issuer_observe k n b))" "ib_max (snd (issuer_observe k n b)) = ib_max b"
    "length (ib_issuers (snd (issuer_observe k n b))) \<le> ib_max b"
    "fst ` set (ib_issuers (snd (issuer_observe k n b))) \<subseteq> insert k (fst ` set (ib_issuers b))"
    using assms spec keys
    by (auto simp: issuer_observe_def ib_ok_def Let_def length_update_present map_of_mem dom_update
        split: option.splits prod.splits)
qed

interpretation admissions: bounded_book "\<lambda>b. length (ib_issuers b)" ib_max issuer_step ib_ok
proof
  show "length (ib_issuers (issuer_step e b)) \<le> ib_max b"
    if "ib_ok b" "length (ib_issuers b) \<le> ib_max b" for b e
    using that issuer_observe_book(3) [of b]
    by (cases e) (auto simp: issuer_forget_def intro: order_trans [OF length_delete_le])
  show "ib_max (issuer_step e b) = ib_max b" for b e
    by (cases e) (auto simp: issuer_forget_def issuer_observe_def Let_def split: option.splits prod.splits)
  show "ib_ok (issuer_step e b)" if "ib_ok b" "length (ib_issuers b) \<le> ib_max b" for b e
    using that issuer_observe_book(1) by (cases e) (auto simp: issuer_forget_def ib_ok_def)
qed

section \<open>A condition is charged once\<close>

text \<open>Findings with the time they were reported at; \<open>spaced d lg\<close>: what one rule said about one
  subject is at least \<open>d\<close> apart.\<close>

type_synonym log_entry = "real \<times> finding"

fun about :: "log_entry \<Rightarrow> node_id \<times> string" where
  "about (t, nid, weight, rule_id, summary, resp) = (nid, rule_id)"

definition spaced :: "real \<Rightarrow> log_entry list \<Rightarrow> bool" where
  "spaced d = sorted_wrt (\<lambda>a b. about a = about b \<longrightarrow> fst a + d \<le> fst b)"

definition charged_ok :: "(node_id \<times> string) set \<Rightarrow> log_entry list \<Rightarrow> watch \<Rightarrow> bool" where
  "charged_ok K lg w \<longleftrightarrow> spaced (wa_recharge w) lg \<and> od_ok (wa_charged w) \<and> fst ` set (wa_charged w) \<subseteq> K \<and>
     (\<forall>e \<in> set lg. \<exists>t. map_of (wa_charged w) (about e) = Some t \<and> fst e \<le> t)"

lemma charged_ok_cong:
  "charged_ok K lg w \<Longrightarrow> wa_recharge w' = wa_recharge w \<Longrightarrow> wa_charged w' = wa_charged w \<Longrightarrow> charged_ok K lg w'"
  by (simp add: charged_ok_def del: map_of_eq_Some_iff)

lemma charged_ok_last:
  "charged_ok K lg w \<Longrightarrow> e \<in> set lg \<Longrightarrow> about e = k \<Longrightarrow> \<exists>t. map_of (wa_charged w) k = Some t \<and> fst e \<le> t"
  unfolding charged_ok_def by blast

lemma keys_put_last: "fst ` set (od_put_last k v d) = insert k (fst ` set d)"
  by (auto simp: od_put_last_def keys_delete)

lemma may_charge_ok:
  assumes inv: "charged_ok K lg w" and k: "(nid, rid) \<in> K"
    and K: "finite K" "card K \<le> MAX_CHARGES" and d: "0 \<le> wa_recharge w"
    and step: "may_charge nid rid now w = (ok, w')"
  shows "charged_ok K (if ok then lg @ [(now, nid, wt, rid, su, re)] else lg) w'"
    and "wa_recharge w' = wa_recharge w"
proof -
  let ?late = "case map_of (wa_charged w) (nid, rid) of None \<Rightarrow> False | Some t0 \<Rightarrow> now - t0 < wa_recharge w"
  show "wa_recharge w' = wa_recharge w" using step by (auto simp: may_charge_def Let_def split: if_splits)
  show "charged_ok K (if ok then lg @ [(now, nid, wt, rid, su, re)] else lg) w'"
  proof (cases ?late)
    case True
    then have [simp]: "\<not> ok" and w': "w' = w\<lparr> wa_charged := od_to_end (nid, rid) (wa_charged w) \<rparr>"
      using step by (simp_all add: may_charge_def)
    have "fst ` set (od_to_end (nid, rid) (wa_charged w)) = fst ` set (wa_charged w)"
      by (simp add: dom_map_of_conv_image_fst [symmetric] map_of_to_end)
    with inv show ?thesis by (simp add: w' charged_ok_def map_of_to_end od_ok_to_end del: map_of_eq_Some_iff)
  next
    case False
    let ?d = "od_put_last (nid, rid) now (wa_charged w)"
    have ok: "od_ok ?d" and sub: "fst ` set ?d \<subseteq> K"
      using inv k by (simp_all add: charged_ok_def od_ok_put_last keys_put_last)
    have "length ?d = card (fst ` set ?d)" using distinct_card [OF ok] by simp
    also have "\<dots> \<le> MAX_CHARGES" using card_mono [OF K(1) sub] K(2) by simp
    finally have w': "w' = w\<lparr> wa_charged := ?d \<rparr>" and [simp]: ok
      using step False by (simp_all add: may_charge_def)
    have last_one: "fst e + wa_recharge w \<le> now" if "e \<in> set lg" "about e = (nid, rid)" for e
    proof -
      have "\<exists>t. map_of (wa_charged w) (nid, rid) = Some t \<and> fst e \<le> t"
        by (rule charged_ok_last [OF inv that])
      then obtain t where "map_of (wa_charged w) (nid, rid) = Some t" "fst e \<le> t" by blast
      with False show ?thesis by simp
    qed
    moreover have "\<exists>t. map_of ?d (about e) = Some t \<and> fst e \<le> t" if "e \<in> set lg" for e
      using inv that last_one [OF that] d by (auto simp: charged_ok_def map_of_put_last)
    ultimately show ?thesis
      using inv ok sub by (auto simp: w' charged_ok_def spaced_def sorted_wrt_append map_of_put_last)
  qed
qed

lemma charge_hits_ok:
  assumes "charged_ok K lg w" "\<forall>o' \<in> set os. (ob_node_id o', ru_id r) \<in> K"
    "finite K" "card K \<le> MAX_CHARGES" "0 \<le> wa_recharge w" "charge_hits r now os w = (fs, w')"
  shows "charged_ok K (lg @ map (Pair now) fs) w' \<and> wa_recharge w' = wa_recharge w"
  using assms
proof (induction os arbitrary: lg w fs)
  case (Cons o' os)
  obtain ok w1 gs where step: "may_charge (ob_node_id o') (ru_id r) now w = (ok, w1)"
    and rec: "charge_hits r now os w1 = (gs, w')"
    and fs: "fs = (if ok then (ob_node_id o', ru_weight r, ru_id r, ru_summary r, ru_response r) # gs else gs)"
    using Cons.prems(6) by (auto split: prod.splits)
  have "(ob_node_id o', ru_id r) \<in> K" using Cons.prems(2) by simp
  note one = may_charge_ok [OF Cons.prems(1) this Cons.prems(3,4,5) step]
  have "charged_ok K ((if ok then lg @ [(now, ob_node_id o', ru_weight r, ru_id r, ru_summary r, ru_response r)] else lg)
      @ map (Pair now) gs) w' \<and> wa_recharge w' = wa_recharge w1"
    using one Cons.prems by (intro Cons.IH rec) auto
  then show ?case using one(2) by (cases ok) (simp_all add: fs)
qed simp

lemma report_rules_ok:
  assumes "charged_ok K lg w" "\<And>i hits o'. map_of findings i = Some hits \<Longrightarrow> o' \<in> set hits \<Longrightarrow> (ob_node_id o', i) \<in> K"
    "finite K" "card K \<le> MAX_CHARGES" "0 \<le> wa_recharge w" "report_rules findings n now rs w = (fs, w')"
  shows "charged_ok K (lg @ map (Pair now) fs) w' \<and> wa_recharge w' = wa_recharge w"
  using assms(1,5,6)
proof (induction rs arbitrary: lg w fs)
  case (Cons r rs)
  show ?case
  proof (cases "map_of findings (ru_id r)")
    case None
    with Cons show ?thesis by simp
  next
    case (Some hits)
    show ?thesis
    proof (cases "max 1 (real n * wa_universal w) < real (length hits)")
      case True
      with Some Cons.prems have "report_rules findings n now rs
          (w\<lparr> wa_disarmed := AList.update (ru_id r) (length hits) (wa_disarmed w) \<rparr>) = (fs, w')" by simp
      from Cons.IH [OF charged_ok_cong [OF Cons.prems(1)] _ this] Cons.prems(2) show ?thesis by simp
    next
      case False
      obtain these w1 rest where 1: "charge_hits r now hits w = (these, w1)"
        and 2: "report_rules findings n now rs w1 = (rest, w')" and fs: "fs = these @ rest"
        using Cons.prems(3) Some False by (auto split: prod.splits)
      have hit: "charged_ok K (lg @ map (Pair now) these) w1 \<and> wa_recharge w1 = wa_recharge w"
        using assms(2) [OF Some] Cons.prems by (intro charge_hits_ok [OF _ _ assms(3,4) _ 1]) auto
      have "charged_ok K ((lg @ map (Pair now) these) @ map (Pair now) rest) w' \<and> wa_recharge w' = wa_recharge w1"
        using hit Cons.prems(2) by (intro Cons.IH 2) auto
      with hit show ?thesis by (simp add: fs)
    qed
  qed
qed simp

lemma rule_findings_in:
  assumes "map_of (rule_findings rules g os) i = Some hits"
  shows "set hits \<subseteq> set os \<and> i \<in> ru_id ` set rules"
proof -
  have "map_of (foldl (\<lambda>d r. let fired = filter (\<lambda>o'. ru_test r o' (g o')) os
          in if fired \<noteq> [] then AList.update (ru_id r) fired d else d) d rules) i = Some hits \<Longrightarrow>
      map_of d i = Some hits \<or> set hits \<subseteq> set os \<and> i \<in> ru_id ` set rules" for d
  proof (induction rules arbitrary: d)
    case (Cons r rules)
    let ?fired = "filter (\<lambda>o'. ru_test r o' (g o')) os"
    from Cons.IH [of "if ?fired \<noteq> [] then AList.update (ru_id r) ?fired d else d"] Cons.prems
    have "map_of (if ?fired \<noteq> [] then AList.update (ru_id r) ?fired d else d) i = Some hits \<or>
        set hits \<subseteq> set os \<and> i \<in> ru_id ` set rules" by (simp add: Let_def)
    then show ?case by (auto simp: update_conv' split: if_splits)
  qed simp
  from this [of "[]"] assms show ?thesis by (simp add: rule_findings_def)
qed

lemma judge_ok:
  assumes "charged_ok K lg w" "ob_node_id ` set os \<times> ru_id ` set rules \<subseteq> K"
    "finite K" "card K \<le> MAX_CHARGES" "0 \<le> wa_recharge w" "judge os rules g n now w = (fs, w')"
  shows "charged_ok K (lg @ map (Pair now) fs) w' \<and> wa_recharge w' = wa_recharge w"
proof -
  obtain a b where w1: "report_rules (rule_findings rules g os) n now rules
      (w\<lparr> wa_fired := a, wa_disarmed := b \<rparr>) = (fs, w')"
    using assms(6) unfolding judge_def Let_def by blast
  let ?w = "w\<lparr> wa_fired := a, wa_disarmed := b \<rparr>"
  have "charged_ok K lg ?w" by (rule charged_ok_cong [OF assms(1)]) simp_all
  then have "charged_ok K (lg @ map (Pair now) fs) w' \<and> wa_recharge w' = wa_recharge ?w"
    using assms(2,5) by (intro report_rules_ok [OF _ _ assms(3,4) _ w1]) (auto dest!: rule_findings_in)
  then show ?thesis by simp
qed

text \<open>Sweeps in sequence, over links or over issuers, each at its time; an issuer window carries the
  arrivals counted per issuer.\<close>

datatype sweep_event = Links "observation list" | Issuers "(node_id, int) odict"

fun sweep_one :: "sweep_event \<Rightarrow> real \<Rightarrow> watch \<Rightarrow> finding list \<times> watch" where
  "sweep_one (Links os) now w = watch_sweep os now w"
| "sweep_one (Issuers arrivals) now w = sweep_issuers arrivals now w"

fun watch_run :: "(real \<times> sweep_event) list \<Rightarrow> watch \<Rightarrow> log_entry list \<times> watch" where
  "watch_run [] w = ([], w)"
| "watch_run ((now, e) # rest) w =
     (let (fs, w) = sweep_one e now w; (gs, w) = watch_run rest w in (map (Pair now) fs @ gs, w))"

fun subjects_of :: "sweep_event \<Rightarrow> node_id set" where
  "subjects_of (Links os) = ob_node_id ` set os"
| "subjects_of (Issuers arrivals) = fst ` set arrivals"

lemma fold_profiles_ids: "fold_profiles os b = (os', b') \<Longrightarrow> map ob_node_id os' = map ob_node_id os"
  by (induction os arbitrary: b os') (auto split: prod.splits)

lemma fold_issuers_keys:
  assumes "fold_issuers xs b = (os, b')" "ib_ok b" "length (ib_issuers b) \<le> ib_max b"
  shows "map ob_node_id os = map fst xs \<and> ib_ok b' \<and> length (ib_issuers b') \<le> ib_max b' \<and>
    fst ` set (ib_issuers b') \<subseteq> fst ` set xs \<union> fst ` set (ib_issuers b)"
  using assms
proof (induction xs arbitrary: b os)
  case (Cons x xs)
  obtain k n where x: "x = (k, n)" by (cases x)
  obtain burst b1 os1 where 1: "issuer_observe k n b = (burst, b1)" "fold_issuers xs b1 = (os1, b')"
    and os: "map ob_node_id os = k # map ob_node_id os1"
    using Cons.prems(1) by (auto simp: x split: prod.splits)
  note step = issuer_observe_book [OF Cons.prems(2,3), of k n, unfolded 1(1) snd_conv]
  have "map ob_node_id os1 = map fst xs \<and> ib_ok b' \<and> length (ib_issuers b') \<le> ib_max b' \<and>
      fst ` set (ib_issuers b') \<subseteq> fst ` set xs \<union> fst ` set (ib_issuers b1)"
    using step by (intro Cons.IH 1(2)) simp_all
  then have "map ob_node_id os1 = map fst xs" "ib_ok b'" "length (ib_issuers b') \<le> ib_max b'"
    and keys: "fst ` set (ib_issuers b') \<subseteq> fst ` set xs \<union> fst ` set (ib_issuers b1)" by blast+
  moreover have "fst ` set (ib_issuers b') \<subseteq> fst ` set (x # xs) \<union> fst ` set (ib_issuers b)"
    using order_trans [OF keys Un_mono [OF order_refl step(4)]] by (simp add: x Un_commute)
  ultimately show ?case using os by (simp add: x)
qed simp

definition watch_ok :: "node_id set \<Rightarrow> watch \<Rightarrow> bool" where
  "watch_ok S w \<longleftrightarrow> ib_ok (wa_issuers w) \<and> length (ib_issuers (wa_issuers w)) \<le> ib_max (wa_issuers w) \<and>
     fst ` set (ib_issuers (wa_issuers w)) \<subseteq> S \<and> 0 \<le> wa_recharge w"

abbreviation rule_ids :: "watch \<Rightarrow> string set" where
  "rule_ids w \<equiv> ru_id ` set (wa_rules w) \<union> ru_id ` set (wa_issuer_rules w)"

lemma may_charge_frame:
  "may_charge nid rid now w = (ok, w') \<Longrightarrow>
     wa_rules w' = wa_rules w \<and> wa_issuer_rules w' = wa_issuer_rules w \<and> wa_issuers w' = wa_issuers w \<and>
     wa_profiles w' = wa_profiles w"
  by (auto simp: may_charge_def Let_def split: if_splits)

lemma charge_hits_frame:
  "charge_hits r now os w = (fs, w') \<Longrightarrow>
     wa_rules w' = wa_rules w \<and> wa_issuer_rules w' = wa_issuer_rules w \<and> wa_issuers w' = wa_issuers w \<and>
     wa_profiles w' = wa_profiles w"
  by (induction os arbitrary: w fs) (auto dest!: may_charge_frame split: prod.splits)

lemma report_rules_frame:
  "report_rules findings n now rs w = (fs, w') \<Longrightarrow>
     wa_rules w' = wa_rules w \<and> wa_issuer_rules w' = wa_issuer_rules w \<and> wa_issuers w' = wa_issuers w \<and>
     wa_profiles w' = wa_profiles w"
proof (induction rs arbitrary: w fs)
  case (Cons r rs)
  show ?case
  proof (cases "map_of findings (ru_id r)")
    case None
    with Cons show ?thesis by simp
  next
    case (Some hits)
    show ?thesis
    proof (cases "max 1 (real n * wa_universal w) < real (length hits)")
      case True
      with Some Cons.prems have "report_rules findings n now rs
          (w\<lparr> wa_disarmed := AList.update (ru_id r) (length hits) (wa_disarmed w) \<rparr>) = (fs, w')" by simp
      from Cons.IH [OF this] show ?thesis by simp
    next
      case False
      obtain these w1 rest where "charge_hits r now hits w = (these, w1)"
        and "report_rules findings n now rs w1 = (rest, w')"
        using Cons.prems Some False by (auto split: prod.splits)
      from charge_hits_frame [OF this(1)] Cons.IH [OF this(2)] show ?thesis by simp
    qed
  qed
qed simp

lemma judge_frame:
  "judge os rules g n now w = (fs, w') \<Longrightarrow>
     wa_rules w' = wa_rules w \<and> wa_issuer_rules w' = wa_issuer_rules w \<and> wa_issuers w' = wa_issuers w \<and>
     wa_profiles w' = wa_profiles w"
  by (auto simp: judge_def Let_def dest!: report_rules_frame)

lemma sweep_one_ok:
  assumes inv: "charged_ok (S \<times> rule_ids w) lg w" "watch_ok S w" and sub: "subjects_of e \<subseteq> S"
    and K: "finite (S \<times> rule_ids w)" "card (S \<times> rule_ids w) \<le> MAX_CHARGES"
    and run: "sweep_one e now w = (fs, w')"
  shows "charged_ok (S \<times> rule_ids w') (lg @ map (Pair now) fs) w' \<and> watch_ok S w' \<and>
    wa_recharge w' = wa_recharge w \<and> rule_ids w' = rule_ids w"
proof (cases e)
  case (Links os)
  obtain os' b where fp: "fold_profiles os (wa_profiles w) = (os', b)" by force
  let ?w = "w\<lparr> wa_profiles := b \<rparr>"
  obtain g n where j: "judge os' (wa_rules w) g n now ?w = (fs, w')"
    using run by (simp add: Links watch_sweep_def fp Let_def)
  have ids: "ob_node_id ` set os' \<subseteq> S"
    using sub fold_profiles_ids [OF fp] by (simp add: Links flip: set_map)
  have "charged_ok (S \<times> rule_ids w) lg ?w" by (rule charged_ok_cong [OF inv(1)]) simp_all
  then have "charged_ok (S \<times> rule_ids w) (lg @ map (Pair now) fs) w' \<and> wa_recharge w' = wa_recharge ?w"
    using inv(2) ids by (intro judge_ok [OF _ _ K _ j]) (auto simp: watch_ok_def)
  with judge_frame [OF j] inv(2) show ?thesis by (simp add: watch_ok_def)
next
  case (Issuers arrivals)
  define counts where "counts = arrivals @ map (\<lambda>k. (k, 0))
            (filter (\<lambda>k. map_of arrivals k = None) (issuers_known (wa_issuers w)))"
  obtain os' b where fp: "fold_issuers counts (wa_issuers w) = (os', b)" by force
  let ?w = "w\<lparr> wa_issuers := b \<rparr>"
  have j: "judge os' (wa_issuer_rules w) (\<lambda>_. empty_group) (issuers_mature b) now ?w = (fs, w')"
    using run by (simp add: Issuers sweep_issuers_def fp Let_def flip: counts_def)
  have known: "fst ` set counts \<subseteq> S"
    using sub inv(2) by (auto simp: counts_def Issuers watch_ok_def issuers_known_def)
  have book: "map ob_node_id os' = map fst counts \<and> ib_ok b \<and> length (ib_issuers b) \<le> ib_max b \<and>
      fst ` set (ib_issuers b) \<subseteq> fst ` set counts \<union> fst ` set (ib_issuers (wa_issuers w))"
    using inv(2) by (intro fold_issuers_keys fp) (simp_all add: watch_ok_def)
  then have ids: "ob_node_id ` set os' \<subseteq> S" and keys: "fst ` set (ib_issuers b) \<subseteq> S"
    using known inv(2) by (auto simp: watch_ok_def simp flip: set_map)
  have "charged_ok (S \<times> rule_ids w) lg ?w" by (rule charged_ok_cong [OF inv(1)]) simp_all
  then have "charged_ok (S \<times> rule_ids w) (lg @ map (Pair now) fs) w' \<and> wa_recharge w' = wa_recharge ?w"
    using inv(2) ids by (intro judge_ok [OF _ _ K _ j]) (auto simp: watch_ok_def)
  with judge_frame [OF j] inv(2) keys book show ?thesis by (simp add: watch_ok_def)
qed

lemma watch_run_ok:
  assumes "charged_ok (S \<times> rule_ids w) lg w" "watch_ok S w" "\<forall>(t, e) \<in> set es. subjects_of e \<subseteq> S"
    "finite (S \<times> rule_ids w)" "card (S \<times> rule_ids w) \<le> MAX_CHARGES" "watch_run es w = (fs, w')"
  shows "spaced (wa_recharge w) (lg @ fs)"
  using assms
proof (induction es arbitrary: lg w fs)
  case Nil
  then show ?case by (simp add: charged_ok_def)
next
  case (Cons te es)
  obtain now e where te: "te = (now, e)" by (cases te)
  obtain f1 w1 gs where 1: "sweep_one e now w = (f1, w1)" "watch_run es w1 = (gs, w')"
    and fs: "fs = map (Pair now) f1 @ gs"
    using Cons.prems(6) by (auto simp: te split: prod.splits)
  have step: "charged_ok (S \<times> rule_ids w1) (lg @ map (Pair now) f1) w1 \<and> watch_ok S w1 \<and>
      wa_recharge w1 = wa_recharge w \<and> rule_ids w1 = rule_ids w"
    using Cons.prems(3) by (intro sweep_one_ok [OF Cons.prems(1,2) _ Cons.prems(4,5) 1(1)]) (simp add: te)
  have "spaced (wa_recharge w1) ((lg @ map (Pair now) f1) @ gs)"
  proof (rule Cons.IH [of w1 "lg @ map (Pair now) f1", OF _ _ _ _ _ 1(2)])
    show "\<forall>(t, e) \<in> set es. subjects_of e \<subseteq> S" using Cons.prems(3) by simp
    show "charged_ok (S \<times> rule_ids w1) (lg @ map (Pair now) f1) w1" "watch_ok S w1"
      using step by blast+
    show "finite (S \<times> rule_ids w1)" "card (S \<times> rule_ids w1) \<le> MAX_CHARGES"
      using Cons.prems(4,5) step by (simp_all only:)
  qed
  with step show ?case by (simp add: fs)
qed

lemma new_watch_ok: "charged_ok K [] (new_watch rules u irules d)" "watch_ok S (new_watch rules u irules d)"
  by (simp_all add: charged_ok_def spaced_def watch_ok_def ib_ok_def new_watch_def new_issuer_book_def)

text \<open>
  One rule charges one subject at most once per \<open>recharge\<close> seconds: over any run of sweeps
  of links and issuers, in whatever order and at whatever times, two findings of the same rule about
  the same subject are at least that far apart, as long as the subjects times the rules fit the
  book of charges.\<close>
theorem rule_recharge:
  assumes "finite S" "card S * card (ru_id ` set rules \<union> ru_id ` set issuer_rules) \<le> MAX_CHARGES"
    and "\<forall>(t, e) \<in> set es. subjects_of e \<subseteq> S"
    and "watch_run es (new_watch rules u issuer_rules recharge) = (lg, w)"
    and "i < j" "j < length lg" "about (lg ! i) = about (lg ! j)"
  shows "fst (lg ! i) + max 0 recharge \<le> fst (lg ! j)"
proof -
  let ?w = "new_watch rules u issuer_rules recharge"
  have ids: "rule_ids ?w = ru_id ` set rules \<union> ru_id ` set issuer_rules" and d: "wa_recharge ?w = max 0 recharge"
    by (simp_all add: new_watch_def)
  have "spaced (wa_recharge ?w) ([] @ lg)"
    using assms(1,2) by (intro watch_run_ok [OF new_watch_ok assms(3) _ _ assms(4)])
      (simp_all only: ids card_cartesian_product finite_SigmaI finite_Un finite_imageI finite_set simp_thms)
  with assms(5-7) show ?thesis by (simp add: spaced_def d sorted_wrt_iff_nth_less)
qed

definition quiet_link :: observation where
  "quiet_link = \<lparr> ob_node_id = [1], ob_transport = ''tcp'', ob_packets_in = 10, ob_packets_out = 10,
     ob_bytes_in = 100, ob_bytes_out = 100, ob_undeclared = 0, ob_found_entries = 0, ob_found_self = 0,
     ob_answers_judged = 0, ob_answers_disjoint = 0, ob_ka_outside = 0, ob_ka_ignored = 0,
     ob_ka_impossible = 1, ob_profile_break = False, ob_issuer_burst = False \<rparr>"

definition K3_only :: "rule list" where
  "K3_only = [\<lparr> ru_id = ''K3'', ru_summary = ''floor above ceiling'', ru_weight = 2,
     ru_test = (\<lambda>o' _. 0 < ob_ka_impossible o'), ru_response = SCORE \<rparr>]"

lemma demo_watch_run:
  "\<exists>w. watch_run [(0, Links [quiet_link]), (20, Links [quiet_link]), (3600, Links [quiet_link])]
     (new_watch K3_only (1 / 2) [] RULE_RECHARGE) =
   ([(0, [1], 2, ''K3'', ''floor above ceiling'', SCORE), (3600, [1], 2, ''K3'', ''floor above ceiling'', SCORE)], w)"
  by (simp add: new_watch_def K3_only_def watch_sweep_def profile_observe_def quiet_link_def new_profile_book_def
      book_evict_def MAX_PROFILES_def judge_def rule_findings_def may_charge_def RULE_RECHARGE_def
      MAX_CHARGES_def od_put_last_def od_to_end_def group_among_def comparable_def MIN_GROUP_def Let_def)

theorem rule_recharge_witness:
  "\<exists>lg w. watch_run [(0, Links [quiet_link]), (20, Links [quiet_link]), (3600, Links [quiet_link])]
     (new_watch K3_only (1 / 2) [] RULE_RECHARGE) = (lg, w) \<and> length lg = 2 \<and>
     fst (lg ! 0) + max 0 RULE_RECHARGE \<le> fst (lg ! 1)"
proof -
  obtain w where run: "watch_run [(0, Links [quiet_link]), (20, Links [quiet_link]), (3600, Links [quiet_link])]
     (new_watch K3_only (1 / 2) [] RULE_RECHARGE) =
   ([(0, [1], 2, ''K3'', ''floor above ceiling'', SCORE), (3600, [1], 2, ''K3'', ''floor above ceiling'', SCORE)], w)"
    using demo_watch_run by blast
  have "fst ((0::real, [1::8 word], 2::real, ''K3'', ''floor above ceiling'', SCORE)) + max 0 RULE_RECHARGE \<le> 3600"
    using rule_recharge [OF _ _ _ run, of "{[1]}" 0 1]
    by (simp add: quiet_link_def K3_only_def MAX_CHARGES_def)
  with run show ?thesis by simp
qed

section \<open>A rule that fires on everyone says nothing\<close>

abbreviation by_rule :: "string \<Rightarrow> finding list \<Rightarrow> finding list" where
  "by_rule i \<equiv> filter (\<lambda>f. fst (snd (snd f)) = i)"

lemma charge_hits_rule:
  "charge_hits r now os w = (fs, w') \<Longrightarrow> length fs \<le> length os \<and> (\<forall>f \<in> set fs. fst (snd (snd f)) = ru_id r) \<and>
     wa_disarmed w' = wa_disarmed w \<and> wa_universal w' = wa_universal w"
proof (induction os arbitrary: w fs)
  case (Cons o' os)
  obtain ok w1 gs where 1: "may_charge (ob_node_id o') (ru_id r) now w = (ok, w1)" "charge_hits r now os w1 = (gs, w')"
    and fs: "fs = (if ok then (ob_node_id o', ru_weight r, ru_id r, ru_summary r, ru_response r) # gs else gs)"
    using Cons.prems by (auto split: prod.splits)
  have "wa_disarmed w1 = wa_disarmed w \<and> wa_universal w1 = wa_universal w"
    using 1(1) by (auto simp: may_charge_def Let_def split: if_splits)
  with Cons.IH [OF 1(2)] show ?case by (auto simp: fs)
qed simp

lemma report_rules_absent:
  "report_rules findings n now rs w = (fs, w') \<Longrightarrow> i \<notin> ru_id ` set rs \<Longrightarrow>
     by_rule i fs = [] \<and> map_of (wa_disarmed w') i = map_of (wa_disarmed w) i"
proof (induction rs arbitrary: w fs)
  case (Cons r rs)
  show ?case
  proof (cases "map_of findings (ru_id r)")
    case None
    with Cons show ?thesis by simp
  next
    case (Some hits)
    show ?thesis
    proof (cases "max 1 (real n * wa_universal w) < real (length hits)")
      case True
      with Some Cons.prems have "report_rules findings n now rs
          (w\<lparr> wa_disarmed := AList.update (ru_id r) (length hits) (wa_disarmed w) \<rparr>) = (fs, w')" by simp
      from Cons.IH [OF this] Cons.prems(2) show ?thesis by (simp add: map_of_update_same)
    next
      case False
      obtain these w1 rest where 1: "charge_hits r now hits w = (these, w1)"
        and 2: "report_rules findings n now rs w1 = (rest, w')" and fs: "fs = these @ rest"
        using Cons.prems(1) Some False by (auto split: prod.splits)
      have "by_rule i these = []"
        using charge_hits_rule [OF 1] Cons.prems(2) by (auto simp: filter_empty_conv)
      with charge_hits_rule [OF 1] Cons.IH [OF 2] Cons.prems(2) show ?thesis by (simp add: fs)
    qed
  qed
qed simp

lemma report_rules_share:
  assumes "report_rules findings n now rs w = (fs, w')" "distinct (map ru_id rs)" "i \<in> ru_id ` set rs"
    "map_of (wa_disarmed w) i = None"
  shows "case map_of findings i of
      None \<Rightarrow> by_rule i fs = [] \<and> map_of (wa_disarmed w') i = None
    | Some hits \<Rightarrow>
        (if max 1 (real n * wa_universal w) < real (length hits)
         then by_rule i fs = [] \<and> map_of (wa_disarmed w') i = Some (length hits)
         else length (by_rule i fs) \<le> length hits \<and> map_of (wa_disarmed w') i = None)"
  using assms
proof (induction rs arbitrary: w fs)
  case (Cons r rs)
  have tail: "i \<notin> ru_id ` set rs" if "ru_id r = i" using that Cons.prems(2) by auto
  have more: "i \<in> ru_id ` set rs" if "ru_id r \<noteq> i" using that Cons.prems(3) by auto
  show ?case
  proof (cases "map_of findings (ru_id r)")
    case None
    then have run: "report_rules findings n now rs w = (fs, w')" using Cons.prems(1) by simp
    show ?thesis
    proof (cases "ru_id r = i")
      case True
      with report_rules_absent [OF run tail] None Cons.prems(4) show ?thesis by simp
    next
      case False
      with Cons.IH [OF run _ more] Cons.prems show ?thesis by simp
    qed
  next
    case (Some hits)
    show ?thesis
    proof (cases "max 1 (real n * wa_universal w) < real (length hits)")
      case True
      let ?w = "w\<lparr> wa_disarmed := AList.update (ru_id r) (length hits) (wa_disarmed w) \<rparr>"
      from True Some Cons.prems(1) have run: "report_rules findings n now rs ?w = (fs, w')" by simp
      show ?thesis
      proof (cases "ru_id r = i")
        case True
        with report_rules_absent [OF run tail] Some \<open>max 1 _ < _\<close> show ?thesis
          by (simp add: map_of_update_same)
      next
        case False
        have "map_of (wa_disarmed ?w) i = None" using False Cons.prems(4) by (simp add: map_of_update_same)
        note ih = Cons.IH [OF run _ more this]
        have u: "wa_universal ?w = wa_universal w" by simp
        from ih False Cons.prems(2) show ?thesis unfolding u by simp
      qed
    next
      case few: False
      obtain these w1 rest where 1: "charge_hits r now hits w = (these, w1)"
        and 2: "report_rules findings n now rs w1 = (rest, w')" and fs: "fs = these @ rest"
        using Cons.prems(1) Some few by (auto split: prod.splits)
      note c = charge_hits_rule [OF 1]
      show ?thesis
      proof (cases "ru_id r = i")
        case True
        with report_rules_absent [OF 2 tail] Some few c Cons.prems(4) show ?thesis
          by (simp add: fs order_trans [OF length_filter_le])
      next
        case False
        then have "by_rule i these = []" using c by (auto simp: filter_empty_conv)
        moreover have "map_of (wa_disarmed w1) i = None" using c Cons.prems(4) by simp
        note ih = Cons.IH [OF 2 _ more this]
        have u: "wa_universal w1 = wa_universal w" using c by blast
        ultimately have rest: "by_rule i fs = by_rule i rest" by (simp add: fs)
        from ih False Cons.prems(2) show ?thesis unfolding u rest by simp
      qed
    qed
  qed
qed simp

lemma rule_findings_of:
  assumes "distinct (map ru_id rules)" "r \<in> set rules"
  shows "map_of (rule_findings rules g os) (ru_id r) =
    (let fired = filter (\<lambda>o'. ru_test r o' (g o')) os in if fired = [] then None else Some fired)"
proof -
  let ?step = "\<lambda>d r. if filter (\<lambda>o'. ru_test r o' (g o')) os \<noteq> []
          then AList.update (ru_id r) (filter (\<lambda>o'. ru_test r o' (g o')) os) d else d"
  have skip: "i \<notin> ru_id ` set rs \<Longrightarrow> map_of (foldl ?step d rs) i = map_of d i" for i d rs
    by (induction rs arbitrary: d) (simp_all add: Let_def map_of_update_same)
  have "map_of d (ru_id r) = None \<Longrightarrow> map_of (foldl ?step d rules) (ru_id r) =
      (let fired = filter (\<lambda>o'. ru_test r o' (g o')) os in if fired = [] then None else Some fired)" for d
    using assms
  proof (induction rules arbitrary: d)
    case (Cons x rules)
    show ?case
    proof (cases "x = r")
      case True
      with Cons show ?thesis by (auto simp: Let_def map_of_update_same skip)
    next
      case False
      then have "r \<in> set rules" using Cons.prems(3) by simp
      then have "ru_id r \<in> ru_id ` set rules" by (rule imageI)
      then have "ru_id r \<noteq> ru_id x" using Cons.prems(2) by auto
      with False Cons.prems have "map_of (?step d x) (ru_id r) = None" "r \<in> set rules" "distinct (map ru_id rules)"
        by (auto simp: map_of_update_same)
      from Cons.IH [OF this(1,3,2)] show ?thesis by simp
    qed
  qed simp
  from this [of "[]"] show ?thesis by (simp add: rule_findings_def Let_def)
qed

lemma cleared: "i \<in> ru_id ` set rules \<Longrightarrow> map_of (foldl (\<lambda>d r. AList.delete (ru_id r) d) d rules) i = None"
proof -
  have keep: "map_of d j = None \<Longrightarrow> map_of (foldl (\<lambda>d r. AList.delete (ru_id r) d) d rs) j = None" for d j rs
    by (induction rs arbitrary: d) (simp_all add: delete_conv)
  show "i \<in> ru_id ` set rules \<Longrightarrow> map_of (foldl (\<lambda>d r. AList.delete (ru_id r) d) d rules) i = None"
  proof (induction rules arbitrary: d)
    case (Cons a rules)
    then show ?case by (cases "i \<in> ru_id ` set rules") (auto intro!: keep simp: delete_conv)
  qed simp
qed

lemma judge_share:
  assumes "judge os rules g n now w = (fs, w')" "distinct (map ru_id rules)" "r \<in> set rules"
  defines "fired \<equiv> length (filter (\<lambda>o'. ru_test r o' (g o')) os)"
  shows "if max 1 (real n * wa_universal w) < real fired
    then by_rule (ru_id r) fs = [] \<and> map_of (wa_disarmed w') (ru_id r) = Some fired
    else length (by_rule (ru_id r) fs) \<le> fired \<and> map_of (wa_disarmed w') (ru_id r) = None"
proof -
  obtain a where run: "report_rules (rule_findings rules g os) n now rules
      (w\<lparr> wa_fired := a, wa_disarmed := foldl (\<lambda>d r. AList.delete (ru_id r) d) (wa_disarmed w) rules \<rparr>) = (fs, w')"
    using assms(1) unfolding judge_def Let_def by blast
  have "ru_id r \<in> ru_id ` set rules" using assms(3) by simp
  from report_rules_share [OF run assms(2) this] cleared [OF this, of "wa_disarmed w"]
  show ?thesis
    by (cases "filter (\<lambda>o'. ru_test r o' (g o')) os = []")
      (simp_all add: rule_findings_of [OF assms(2,3)] fired_def Let_def)
qed

text \<open>
  A rule that fires on more than the universal share of the links it can judge, or on more
  than one when that share is smaller, reports nobody and is listed as disarmed; otherwise it is not
  listed and reports at most the links it fired on. So one sweep never reports more than that share
  under one rule.\<close>
theorem universal_disarm:
  assumes "watch_sweep os now w = (fs, w')" "distinct (map ru_id (wa_rules w))" "r \<in> set (wa_rules w)"
    "0 \<le> wa_universal w"
  shows "real (length (by_rule (ru_id r) fs)) \<le> max 1 (real (length os) * wa_universal w) \<and>
    (map_of (wa_disarmed w') (ru_id r) \<noteq> None \<longrightarrow> by_rule (ru_id r) fs = [])"
proof -
  obtain os' b where fp: "fold_profiles os (wa_profiles w) = (os', b)" by force
  let ?g = "\<lambda>o'. group_among os' (ob_transport o')"
  let ?m = "length (filter (\<lambda>o'. comparable (?g o')) os')"
  let ?n = "if ?m \<noteq> 0 then ?m else length os'"
  define m where "m = ?n"
  have j: "judge os' (wa_rules w) ?g m now (w\<lparr> wa_profiles := b \<rparr>) = (fs, w')"
    using assms(1) by (simp add: watch_sweep_def fp Let_def m_def)
  have "length os' = length os" using arg_cong [OF fold_profiles_ids [OF fp], of length] by simp
  then have "m \<le> length os" by (simp add: m_def order_trans [OF length_filter_le])
  then have le: "max 1 (real m * wa_universal w) \<le> max 1 (real (length os) * wa_universal w)"
    using assms(4) by (intro max.mono mult_right_mono) simp_all
  define f where "f = length (filter (\<lambda>o'. ru_test r o' (?g o')) os')"
  have s: "if max 1 (real m * wa_universal w) < real f
    then by_rule (ru_id r) fs = [] \<and> map_of (wa_disarmed w') (ru_id r) = Some f
    else length (by_rule (ru_id r) fs) \<le> f \<and> map_of (wa_disarmed w') (ru_id r) = None"
    using judge_share [OF j, of r] assms(2,3) by (simp add: f_def)
  show ?thesis
  proof (cases "max 1 (real m * wa_universal w) < real f")
    case True
    with s show ?thesis by simp
  next
    case False
    with s have few: "length (by_rule (ru_id r) fs) \<le> f" and "map_of (wa_disarmed w') (ru_id r) = None"
      by (simp_all only: if_False)
    moreover have "real f \<le> max 1 (real m * wa_universal w)" using False by (simp only: not_less)
    then have "real (length (by_rule (ru_id r) fs)) \<le> max 1 (real (length os) * wa_universal w)"
      using few le by linarith
    ultimately show ?thesis by simp
  qed
qed

theorem universal_disarm_witness:
  "\<exists>fs w'. watch_sweep [quiet_link, quiet_link\<lparr> ob_node_id := [2] \<rparr>, quiet_link\<lparr> ob_node_id := [3] \<rparr>] 5
      (new_watch K3_only (1 / 2) [] RULE_RECHARGE) = (fs, w') \<and>
    real (length (by_rule ''K3'' fs)) \<le> 3 / 2"
proof -
  let ?os = "[quiet_link, quiet_link\<lparr> ob_node_id := [2] \<rparr>, quiet_link\<lparr> ob_node_id := [3] \<rparr>]"
  let ?w = "new_watch K3_only (1 / 2) [] RULE_RECHARGE"
  obtain fs w' where run: "watch_sweep ?os 5 ?w = (fs, w')" by force
  have "real (length (by_rule ''K3'' fs)) \<le> max 1 (real (length ?os) * (1 / 2))"
    using universal_disarm [OF run, of "hd K3_only"] by (simp add: new_watch_def K3_only_def)
  with run show ?thesis by (intro exI [of _ fs] exI [of _ w']) simp
qed

end
