(* ===== verification/Accusation.thy ===== *)
theory Accusation
  imports Revocation
begin

text \<open>
  Two signed records about another node: accusations (\<open>src/accusation.py\<close>) and requests to stop
  relaying a node's traffic (\<open>src/stop_relay.py\<close>).

  \<open>vf\<close>, \<open>sign\<close> and \<open>h\<close> are as for revocations; \<open>stamp\<close> and \<open>now\<close> are the wall clock in whole
  seconds.
\<close>

section \<open>Accusations\<close>

definition ACC_DOMAIN :: bytes where "ACC_DOMAIN = ascii ''nmesh-accusation-v1''"
definition ACC_VERSION :: nat where "ACC_VERSION = 1"
definition ACC_HDR_SIZE :: nat where "ACC_HDR_SIZE = 35"
definition ACC_MAX_PUBKEY :: nat where "ACC_MAX_PUBKEY = 4096"
definition ACC_MAX_SIG :: nat where "ACC_MAX_SIG = 5000"
definition ACC_MAX_RECORD :: nat where "ACC_MAX_RECORD = ACC_HDR_SIZE + ACC_MAX_PUBKEY + ACC_MAX_SIG"
definition ACC_MAX_AGE :: int where "ACC_MAX_AGE = 3600"
definition ACC_MAX_SKEW :: int where "ACC_MAX_SKEW = 300"
definition MAX_SEVERITY :: nat where "MAX_SEVERITY = 8"

definition KIND_UNSPECIFIED :: nat where "KIND_UNSPECIFIED = 0"
definition KIND_MALFORMED :: nat where "KIND_MALFORMED = 2"

definition KIND_NAMES :: "(nat \<times> string) list" where
  "KIND_NAMES = [(0, ''unspecified''), (1, ''flooding''), (2, ''malformed input''), (3, ''unauthorised requests'')]"

record accusation =
  ac_accuser_id :: node_id
  ac_accuser_pub :: bytes
  ac_subject_id :: node_id
  ac_issued_at :: nat
  ac_severity :: nat
  ac_kind :: nat

definition acc_signing_input :: "nat \<Rightarrow> node_id \<Rightarrow> nat \<Rightarrow> nat \<Rightarrow> bytes" where
  "acc_signing_input issued_at subject_id severity kind =
     ACC_DOMAIN @ be_bytes 1 ACC_VERSION @ be_bytes 8 issued_at @ subject_id @ be_bytes 1 severity @ be_bytes 1 kind"

definition acc_build :: "node_id \<Rightarrow> bytes \<Rightarrow> (bytes \<Rightarrow> bytes) \<Rightarrow> int \<Rightarrow> nat \<Rightarrow> int \<Rightarrow> bytes result" where
  "acc_build subject_id accuser_pub sign severity kind stamp =
     (if \<not> (0 \<le> stamp \<and> stamp \<le> 0xFFFFFFFFFFFFFFFF) then Inl ValueError
      else
        (let severity = nat (max 1 (min severity (int MAX_SEVERITY)));
             kind = (if map_of KIND_NAMES kind = None then KIND_UNSPECIFIED else kind);
             signature = sign (acc_signing_input (nat stamp) subject_id severity kind)
         in if ACC_MAX_PUBKEY < length accuser_pub \<or> ACC_MAX_SIG < length signature then Inl ValueError
            else Inr (be_bytes 1 ACC_VERSION @ be_bytes 8 (nat stamp) @ pack_str 20 subject_id @
                      be_bytes 1 severity @ be_bytes 1 kind @ be_bytes 2 (length accuser_pub) @
                      be_bytes 2 (length signature) @ accuser_pub @ signature)))"

definition acc_parse :: "hash_env \<Rightarrow> verifier \<Rightarrow> bytes \<Rightarrow> int \<Rightarrow> accusation option" where
  "acc_parse h vf data stamp =
     (if \<not> (ACC_HDR_SIZE \<le> length data \<and> length data \<le> ACC_MAX_RECORD) then None
      else
        (let version = be_val (slice 0 1 data); issued_at = be_val (slice 1 9 data);
             subject_raw = slice 9 29 data; severity = be_val (slice 29 30 data);
             kind = be_val (slice 30 31 data); pub_len = be_val (slice 31 33 data);
             sig_len = be_val (slice 33 35 data)
         in if version \<noteq> ACC_VERSION then None
            else if \<not> (1 \<le> severity \<and> severity \<le> MAX_SEVERITY) then None
            else if ACC_MAX_PUBKEY < pub_len \<or> ACC_MAX_SIG < sig_len \<or> pub_len = 0 \<or> sig_len = 0 then None
            else if length data \<noteq> ACC_HDR_SIZE + pub_len + sig_len then None
            else if stamp + ACC_MAX_SKEW < int issued_at \<or> ACC_MAX_AGE < stamp - int issued_at then None
            else
              (let accuser_pub = slice ACC_HDR_SIZE (ACC_HDR_SIZE + pub_len) data;
                   signature = drop (ACC_HDR_SIZE + pub_len) data
               in if \<not> vf (acc_signing_input issued_at subject_raw severity kind) signature accuser_pub then None
                  else if key_id h accuser_pub = subject_raw then None
                  else Some \<lparr> ac_accuser_id = key_id h accuser_pub, ac_accuser_pub = accuser_pub,
                              ac_subject_id = subject_raw, ac_issued_at = issued_at,
                              ac_severity = severity, ac_kind = kind \<rparr>)))"

text \<open>What parsing guarantees: a signature over exactly these fields by the key the accuser is the
  hash of, about somebody else, inside the window, at a severity of the scale.\<close>

lemma acc_parse_signed:
  "acc_parse h vf data stamp = Some r \<Longrightarrow>
     (\<exists>signature. vf (acc_signing_input (ac_issued_at r) (ac_subject_id r) (ac_severity r) (ac_kind r))
        signature (ac_accuser_pub r)) \<and>
     ac_accuser_id r = key_id h (ac_accuser_pub r) \<and> ac_accuser_id r \<noteq> ac_subject_id r \<and>
     length (ac_subject_id r) = 20 \<and> 1 \<le> ac_severity r \<and> ac_severity r \<le> MAX_SEVERITY \<and>
     int (ac_issued_at r) \<le> stamp + ACC_MAX_SKEW \<and> stamp \<le> int (ac_issued_at r) + ACC_MAX_AGE"
  by (auto simp: acc_parse_def Let_def length_slice ACC_HDR_SIZE_def split: if_splits)

lemma acc_build_parses:
  assumes b: "acc_build subject pub sign severity kind stamp = Inr data"
    and s: "length subject = 20" "pub \<noteq> []" "key_id h pub \<noteq> subject"
    and hon: "\<And>m. sign m \<noteq> [] \<and> vf m (sign m) pub"
    and w: "stamp \<le> now + ACC_MAX_SKEW" "now \<le> stamp + ACC_MAX_AGE"
  shows "acc_parse h vf data now = Some \<lparr> ac_accuser_id = key_id h pub, ac_accuser_pub = pub,
      ac_subject_id = subject, ac_issued_at = nat stamp,
      ac_severity = nat (max 1 (min severity (int MAX_SEVERITY))),
      ac_kind = (if map_of KIND_NAMES kind = None then KIND_UNSPECIFIED else kind) \<rparr>"
proof -
  define sv where "sv = nat (max 1 (min severity (int MAX_SEVERITY)))"
  define kd where "kd = (if map_of KIND_NAMES kind = None then KIND_UNSPECIFIED else kind)"
  define sg where "sg = sign (acc_signing_input (nat stamp) subject sv kd)"
  have rng: "0 \<le> stamp" "nat stamp < 2 ^ 64" "length pub \<le> 4096" "length sg \<le> 5000"
    using b by (auto simp: acc_build_def Let_def sv_def [symmetric] kd_def [symmetric] sg_def [symmetric]
        ACC_MAX_PUBKEY_def ACC_MAX_SIG_def nat_less_iff split: if_splits)
  define h1 h2 h3 h4 h5 h6 where "h1 = be_bytes 1 ACC_VERSION" and "h2 = be_bytes 8 (nat stamp)" and
    "h3 = be_bytes 1 sv" and "h4 = be_bytes 1 kd" and "h5 = be_bytes 2 (length pub)" and
    "h6 = be_bytes 2 (length sg)"
  have data: "data = h1 @ h2 @ subject @ h3 @ h4 @ h5 @ h6 @ pub @ sg"
    using b s(1) by (simp add: acc_build_def Let_def sv_def [symmetric] kd_def [symmetric] sg_def [symmetric]
        h1_def h2_def h3_def h4_def h5_def h6_def del: be_bytes.simps split: if_splits)
  have hl: "length h1 = 1" "length h2 = 8" "length h3 = 1" "length h4 = 1" "length h5 = 2" "length h6 = 2"
    by (simp_all add: h1_def h2_def h3_def h4_def h5_def h6_def del: be_bytes.simps)
  have sv: "1 \<le> sv" "sv \<le> 8" by (auto simp: sv_def MAX_SEVERITY_def)
  have "kd < 256" by (auto simp: kd_def KIND_NAMES_def KIND_UNSPECIFIED_def)
  then have v: "be_val h1 = ACC_VERSION" "be_val h2 = nat stamp" "be_val h3 = sv" "be_val h4 = kd"
    "be_val h5 = length pub" "be_val h6 = length sg"
    using rng sv by (simp_all add: h1_def h2_def h3_def h4_def h5_def h6_def ACC_VERSION_def del: be_bytes.simps)
  have f: "slice 0 1 data = h1" "slice 1 9 data = h2" "slice 9 29 data = subject" "slice 29 30 data = h3"
    "slice 30 31 data = h4" "slice 31 33 data = h5" "slice 33 35 data = h6"
    "slice 35 (35 + length pub) data = pub" "drop (35 + length pub) data = sg"
    by (simp_all add: data slice_def s hl)
  have len: "length data = 35 + length pub + length sg" by (simp add: data hl s)
  have pos: "length pub \<noteq> 0" "length sg \<noteq> 0" using s(2) hon by (simp_all add: sg_def)
  have ok: "vf (acc_signing_input (nat stamp) subject sv kd) sg pub" using hon by (simp add: sg_def)
  show ?thesis
    unfolding sv_def [symmetric] kd_def [symmetric]
    using rng pos s(3) sv w ok by (simp add: acc_parse_def ACC_HDR_SIZE_def ACC_MAX_RECORD_def ACC_MAX_PUBKEY_def
        ACC_MAX_SIG_def MAX_SEVERITY_def f [simplified] v len Let_def)
qed

section \<open>Stop-relay requests\<close>

definition STOP_DOMAIN :: bytes where "STOP_DOMAIN = ascii ''nmesh-stop-relay-v1''"
definition STOP_HDR_SIZE :: nat where "STOP_HDR_SIZE = 41"
definition STOP_MAX_RECORD :: nat where "STOP_MAX_RECORD = STOP_HDR_SIZE + 4096 + 5000"
definition STOP_MAX_TTL :: int where "STOP_MAX_TTL = 3600"
definition STOP_CLOCK_SKEW :: int where "STOP_CLOCK_SKEW = 300"

record stop_request =
  sq_requester :: node_id
  sq_blocked :: node_id
  sq_issued_at :: nat
  sq_expires_at :: nat

definition stop_signed :: "nat \<Rightarrow> nat \<Rightarrow> node_id \<Rightarrow> node_id \<Rightarrow> bytes" where
  "stop_signed issued_at expires_at blocked requester =
     STOP_DOMAIN @ be_bytes 1 1 @ be_bytes 8 issued_at @ be_bytes 8 expires_at @ blocked @ requester"

text \<open>\<open>struct.pack\<close> refuses a time below zero or past 64 bits, and a key or a signature of 64 KiB.\<close>

definition stop_build :: "hash_env \<Rightarrow> node_id \<Rightarrow> bytes \<Rightarrow> (bytes \<Rightarrow> bytes) \<Rightarrow> int \<Rightarrow> int \<Rightarrow> bytes result" where
  "stop_build h blocked requester_pub sign ttl now =
     (let ttl = max 1 (min ttl STOP_MAX_TTL); requester = key_id h requester_pub in
      if requester = blocked then Inl ValueError
      else rbind (pack_uint 8 now) (\<lambda>issued. rbind (pack_uint 8 (now + ttl)) (\<lambda>expires.
        let signature = sign (stop_signed (nat now) (nat (now + ttl)) blocked requester) in
        rbind (pack_uint 2 (int (length requester_pub))) (\<lambda>pl. rbind (pack_uint 2 (int (length signature))) (\<lambda>sl.
          Inr (be_bytes 1 1 @ issued @ expires @ pack_str 20 blocked @ pl @ sl @ requester_pub @ signature))))))"

definition stop_parse :: "hash_env \<Rightarrow> verifier \<Rightarrow> bytes \<Rightarrow> int \<Rightarrow> stop_request option" where
  "stop_parse h vf data now =
     (if STOP_MAX_RECORD < length data then None
      else if length data < STOP_HDR_SIZE then None
      else
        (let version = be_val (slice 0 1 data); issued = be_val (slice 1 9 data);
             expires = be_val (slice 9 17 data); blocked = slice 17 37 data;
             pub_len = be_val (slice 37 39 data); sig_len = be_val (slice 39 41 data)
         in if version \<noteq> 1 \<or> 4096 < pub_len \<or> 5000 < sig_len then None
            else if STOP_HDR_SIZE + pub_len + sig_len \<noteq> length data then None
            else if int expires \<le> now \<or> expires \<le> issued \<or> STOP_MAX_TTL < int expires - int issued then None
            else if now + STOP_CLOCK_SKEW < int issued then None
            else
              (let pub = slice STOP_HDR_SIZE (STOP_HDR_SIZE + pub_len) data;
                   signature = drop (STOP_HDR_SIZE + pub_len) data;
                   requester = key_id h pub
               in if requester = blocked then None
                  else if \<not> vf (stop_signed issued expires blocked requester) signature pub then None
                  else Some \<lparr> sq_requester = requester, sq_blocked = blocked,
                              sq_issued_at = issued, sq_expires_at = expires \<rparr>)))"

lemma stop_parse_signed:
  "stop_parse h vf data now = Some r \<Longrightarrow>
     (\<exists>signature pub. key_id h pub = sq_requester r \<and>
        vf (stop_signed (sq_issued_at r) (sq_expires_at r) (sq_blocked r) (sq_requester r)) signature pub) \<and>
     sq_requester r \<noteq> sq_blocked r \<and> length (sq_blocked r) = 20 \<and> now < int (sq_expires_at r) \<and>
     int (sq_expires_at r) \<le> now + STOP_CLOCK_SKEW + STOP_MAX_TTL"
  by (auto simp: stop_parse_def Let_def length_slice STOP_HDR_SIZE_def split: if_splits) blast

end
