(* ===== verification/Features.thy ===== *)
theory Features
  imports Bytes "HOL-Library.List_Lexorder"
begin

text \<open>
  The capability negotiation (\<open>src/features.py\<close>): the record a node announces what it speaks with, its
  parser, and what two nodes may use together.

  A feature name is its ASCII bytes; Python's order of \<open>bytes\<close> is the lexicographic one. The name given
  to \<open>encode\<close> is a list of code points: those past ASCII are dropped, as \<open>encode("ascii", "ignore")\<close>
  does. \<open>FeatureError\<close> is \<open>ValueError\<close> here.
\<close>

type_synonym feature = bytes

definition BASE_VERSION :: nat where "BASE_VERSION = 1"
definition MAX_FEATURES :: nat where "MAX_FEATURES = 64"
definition MAX_NAME :: nat where "MAX_NAME = 16"
definition FEATURES_HDR_SIZE :: nat where "FEATURES_HDR_SIZE = 3"
definition FEATURES_MAX_RECORD :: nat where "FEATURES_MAX_RECORD = FEATURES_HDR_SIZE + MAX_FEATURES * (1 + MAX_NAME)"

definition name_byte :: "byte \<Rightarrow> bool" where
  "name_byte b \<longleftrightarrow> (97 \<le> unat b \<and> unat b \<le> 122) \<or> (48 \<le> unat b \<and> unat b \<le> 57) \<or> unat b = 95"

definition feature_name :: "bytes \<Rightarrow> bool" where
  "feature_name token \<longleftrightarrow> 1 \<le> length token \<and> length token \<le> MAX_NAME \<and> list_all name_byte token"

definition CORE :: feature where "CORE = ascii ''core''"
definition STOP_RELAY_PLANE :: feature where "STOP_RELAY_PLANE = ascii ''stoprelay''"

definition SPOKEN :: "feature set" where
  "SPOKEN = set (map ascii [''core'', ''kad'', ''e2e'', ''dir'', ''pseudo'', ''catalog'', ''release'', ''punch'', ''reach'',
     ''relay'', ''rdv'', ''certren'', ''revoke'', ''abuse'', ''keepalive'', ''mlo'', ''pkgdir'', ''handover'', ''speed'',
     ''msgid_b2b'', ''stoprelay'', ''linkrelease''])"

definition SINCE_NEGOTIATION :: "feature set" where
  "SINCE_NEGOTIATION = set (map ascii [''keepalive'', ''mlo'', ''pkgdir'', ''handover'', ''rdv'', ''speed'',
     ''msgid_b2b'', ''stoprelay'', ''linkrelease''])"

definition ascii_ignore :: "nat list \<Rightarrow> bytes" where
  "ascii_ignore name = map word_of_nat (filter (\<lambda>c. c < 128) name)"

fun encode_tokens :: "bytes list \<Rightarrow> bytes result" where
  "encode_tokens [] = Inr []"
| "encode_tokens (token # tokens) =
     (if \<not> feature_name token then Inl ValueError
      else rbind (encode_tokens tokens) (\<lambda>rest. Inr (word_of_nat (length token) # token @ rest)))"

definition encode_features :: "nat list list \<Rightarrow> bytes result" where
  "encode_features names =
     (let tokens = sort (remdups (map ascii_ignore names)) in
      if MAX_FEATURES < length tokens then Inl ValueError
      else rbind (encode_tokens tokens) (\<lambda>parts.
        Inr (be_bytes 1 BASE_VERSION @ be_bytes 2 (length tokens) @ parts)))"

text \<open>The loop over the announced names, from what is left of the record; it ends with nothing left.\<close>

fun decode_tokens :: "nat \<Rightarrow> bytes \<Rightarrow> feature set \<Rightarrow> feature set option" where
  "decode_tokens 0 data names = (if data = [] then Some names else None)"
| "decode_tokens (Suc n) data names =
     (case data of
        [] \<Rightarrow> None
      | b # rest \<Rightarrow>
          (let len = unat b in
           if len = 0 \<or> length rest < len then None
           else (let token = take len rest in
                 if \<not> feature_name token then None
                 else decode_tokens n (drop len rest) (insert token names))))"

definition decode_features :: "bytes \<Rightarrow> feature set option" where
  "decode_features data =
     (if \<not> (FEATURES_HDR_SIZE \<le> length data \<and> length data \<le> FEATURES_MAX_RECORD) then None
      else
        (let version = be_val (slice 0 1 data); n = be_val (slice 1 3 data) in
         if version \<noteq> BASE_VERSION \<or> MAX_FEATURES < n then None
         else decode_tokens n (drop 3 data) {}))"

definition agree :: "feature set \<Rightarrow> feature set \<Rightarrow> feature set" where
  "agree theirs ours = insert CORE (theirs \<inter> ours)"

section \<open>The record\<close>

lemma encode_tokens_spec:
  "encode_tokens tokens = Inr parts \<Longrightarrow>
     list_all feature_name tokens \<and> length parts \<le> length tokens * (1 + MAX_NAME) \<and>
     decode_tokens (length tokens) parts names = Some (names \<union> set tokens)"
proof (induction tokens arbitrary: parts names)
  case (Cons t ts)
  then obtain rest where t: "feature_name t" and rest: "encode_tokens ts = Inr rest"
    and parts: "parts = word_of_nat (length t) # t @ rest"
    by (auto simp: rbind_Inr split: if_splits)
  have len: "1 \<le> length t" "length t \<le> 16" using t by (simp_all add: feature_name_def MAX_NAME_def)
  then have u: "unat (word_of_nat (length t) :: byte) = length t" by (intro unat_byte_of_nat) simp
  have "t \<noteq> []" using len by auto
  with Cons.IH [OF rest, of "insert t names"] t len show ?case
    by (simp add: parts u MAX_NAME_def Let_def)
qed simp

lemma decode_tokens_names:
  "decode_tokens n data names = Some out \<Longrightarrow> names \<subseteq> out \<and> (\<forall>f \<in> out - names. feature_name f)"
proof (induction n arbitrary: data names)
  case (Suc n)
  then obtain b rest where data: "data = b # rest" by (cases data) auto
  define t where "t = take (unat b) rest"
  have ok: "feature_name t" and rec: "decode_tokens n (drop (unat b) rest) (insert t names) = Some out"
    using Suc.prems by (auto simp: data t_def Let_def split: if_splits)
  from Suc.IH [OF rec] ok show ?case by blast
qed (simp split: if_splits)

text \<open>
  What a node announces is what its peer reads: a record that can be built parses to exactly the
  names that went in, in any order and with any repetition, and it fits the bound the peer reads
  under.\<close>
theorem features_roundtrip:
  assumes "encode_features names = Inr data"
  shows "decode_features data = Some (ascii_ignore ` set names) \<and> length data \<le> FEATURES_MAX_RECORD"
proof -
  let ?ts = "sort (remdups (map ascii_ignore names))"
  obtain parts where n: "length ?ts \<le> 64" and parts: "encode_tokens ?ts = Inr parts"
    and r: "data = be_bytes 1 1 @ be_bytes 2 (length ?ts) @ parts"
    using assms by (auto simp: encode_features_def Let_def rbind_Inr MAX_FEATURES_def BASE_VERSION_def
        simp del: be_bytes.simps length_sort split: if_splits)
  define h1 h2 where "h1 = be_bytes 1 1" and "h2 = be_bytes 2 (length ?ts)"
  have d: "data = h1 @ h2 @ parts" by (simp only: r h1_def h2_def)
  have hl: "length h1 = 1" "length h2 = 2" by (simp_all add: h1_def h2_def del: be_bytes.simps)
  have v: "be_val h1 = 1" "be_val h2 = length ?ts"
    using n by (simp_all add: h1_def h2_def del: be_bytes.simps)
  have f: "slice 0 1 data = h1" "slice 1 3 data = h2" "drop 3 data = parts"
    by (simp_all add: d slice_def hl)
  note e = encode_tokens_spec [OF parts, of "{}"]
  have "length parts \<le> 64 * 17" using e n by (simp add: MAX_NAME_def)
  then have "length data \<le> FEATURES_MAX_RECORD" "3 \<le> length data"
    by (simp_all add: d hl FEATURES_MAX_RECORD_def FEATURES_HDR_SIZE_def MAX_FEATURES_def MAX_NAME_def)
  with e n show ?thesis
    by (simp add: decode_features_def f [simplified] v Let_def FEATURES_HDR_SIZE_def BASE_VERSION_def MAX_FEATURES_def)
qed

theorem features_roundtrip_witness:
  "\<exists>data. encode_features [[107, 97, 100], [101, 50, 101], [107, 97, 100]] = Inr data \<and>
     decode_features data = Some {[107, 97, 100], [101, 50, 101]}"
proof -
  obtain data where r: "encode_features [[107, 97, 100], [101, 50, 101], [107, 97, 100]] = Inr data"
    by (simp add: encode_features_def ascii_ignore_def Let_def MAX_FEATURES_def feature_name_def name_byte_def
        MAX_NAME_def del: be_bytes.simps)
  from features_roundtrip [OF r] r show ?thesis by (simp add: ascii_ignore_def insert_commute)
qed

lemma decode_features_names: "decode_features data = Some names \<Longrightarrow> \<forall>f \<in> names. feature_name f"
  by (auto simp: decode_features_def Let_def dest: decode_tokens_names split: if_splits)

lemma agree_core: "CORE \<in> agree theirs ours" "agree theirs ours \<subseteq> insert CORE ours"
  by (auto simp: agree_def)

lemma agree_sym: "CORE \<in> a \<Longrightarrow> CORE \<in> b \<Longrightarrow> agree a b = agree b a"
  by (auto simp: agree_def)

end
