(* ===== verification/Standing.thy ===== *)
theory Standing
  imports Accusation CertStore Behaviour Features Metrics
begin

text \<open>
  The node's judgement of other nodes (\<open>src/node.py\<close>, "Zero trust"): the one door complaints go
  through (\<open>report_abuse\<close>), what a crossed threshold does (\<open>_on_standing_changed\<close>, \<open>_tarpit\<close>,
  \<open>_maybe_announce\<close>), the handler of other nodes' accusations, the witnesses and the operator's
  pardon, and the sweep that hands the findings of the behaviour rules to the same door.

  The state is the part of \<open>MeshNode\<close> these methods read and write. A link is named by its place in
  \<open>gd_links\<close>. \<open>clk\<close> is the monotonic clock and \<open>wall\<close> the wall clock of one handler call: the
  readings of one call are taken to be the same instant. \<open>hold i\<close> is the random time link \<open>i\<close> is
  held for when it is tarpitted. What leaves the node is the list of effects, in order: an accusation
  of its own, one passed on (to a random sample of peers that excludes the sender and the subject), a
  link let go, a change of the console's board. Log lines and alerts are left out.

  A console call's hexadecimal id is the result of \<open>NodeID.from_hex\<close>, \<open>None\<close> when it raised.
\<close>

definition ABUSE_RATE_WINDOW :: real where "ABUSE_RATE_WINDOW = 10"
definition ABUSE_RATE_MAX :: nat where "ABUSE_RATE_MAX = 32"
definition ACCUSE_MIN_GAP :: real where "ACCUSE_MIN_GAP = 300"
definition ACCUSE_TRACKED :: nat where "ACCUSE_TRACKED = 256"
definition ACCUSE_SEEN_MAX :: nat where "ACCUSE_SEEN_MAX = 4096"
definition BEHAVIOUR_NOTICES :: nat where "BEHAVIOUR_NOTICES = 64"
definition CERT_ARRIVALS_MAX :: nat where "CERT_ARRIVALS_MAX = 4096"
definition MAX_PEERS :: nat where "MAX_PEERS = 128"
definition MAX_MALFORMED :: nat where "MAX_MALFORMED = 32"
definition MAX_WITNESSES :: nat where "MAX_WITNESSES = 64"

abbreviation py :: "string \<Rightarrow> pystr" where
  "py s \<equiv> map of_char s"

record link =
  lk_id :: "node_id option"
  lk_remote :: bytes
  lk_tarpit :: real
  lk_malformed :: nat
  lk_counts :: observation
  lk_serial :: nat
  lk_session :: bool
  lk_agreed :: "feature set option"
  lk_rtt :: "real option"
  lk_quality :: "nat link_quality"
  lk_last_used :: real

record guard =
  gd_id :: node_id
  gd_rep :: reputation
  gd_witnesses :: "node_id set"
  gd_sent :: "(bytes, real) odict"
  gd_seen :: "(bytes, unit) odict"
  gd_gossip :: bool
  gd_rate :: "(bytes, nat \<times> real) odict"
  gd_links :: "link list"
  gd_watch :: watch
  gd_notices :: "(bytes \<times> string, string \<times> real) odict"
  gd_arrivals :: "(node_id \<times> node_id) list"
  gd_certs :: cert_store

datatype effect =
    Accuse node_id nat nat
  | Pass_on bytes node_id
  | Let_go nat
  | Board

section \<open>What a crossed threshold does\<close>

definition tarpit :: "real \<Rightarrow> real \<Rightarrow> link \<Rightarrow> link" where
  "tarpit clk hold l = (if lk_tarpit l \<noteq> 0 then l else l\<lparr> lk_tarpit := clk + hold \<rparr>)"

definition tarpit_links :: "real \<Rightarrow> (nat \<Rightarrow> real) \<Rightarrow> node_id \<Rightarrow> link list \<Rightarrow> link list" where
  "tarpit_links clk hold nid links =
     map (\<lambda>(i, l). if lk_id l = Some nid then tarpit clk (hold i) l else l) (zip [0..<length links] links)"

definition reap_expired_tarpits :: "real \<Rightarrow> guard \<Rightarrow> effect list" where
  "reap_expired_tarpits clk g =
     map (\<lambda>(i, _). Let_go i)
       (filter (\<lambda>(_, l). lk_tarpit l \<noteq> 0 \<and> lk_tarpit l \<le> clk) (zip [0..<length (gd_links g)] (gd_links g)))"

definition on_standing_changed :: "real \<Rightarrow> (nat \<Rightarrow> real) \<Rightarrow> node_id \<Rightarrow> verdict \<Rightarrow> guard \<Rightarrow> effect list \<times> guard" where
  "on_standing_changed clk hold nid standing g =
     (if standing = OK then ([], g)
      else ([Board], g\<lparr> gd_links := tarpit_links clk hold nid (gd_links g) \<rparr>))"

definition claim_accusation :: "real \<Rightarrow> node_id \<Rightarrow> guard \<Rightarrow> bool \<times> guard" where
  "claim_accusation clk nid g =
     (if (case map_of (gd_sent g) nid of None \<Rightarrow> False | Some t0 \<Rightarrow> clk - t0 < ACCUSE_MIN_GAP) then (False, g)
      else (True, g\<lparr> gd_sent := od_trim ACCUSE_TRACKED (AList.update nid clk (gd_sent g)) \<rparr>))"

definition announced_severity :: "verdict \<Rightarrow> nat" where
  "announced_severity standing = (if standing = HOSTILE then MAX_SEVERITY else 1)"

definition maybe_announce :: "real \<Rightarrow> node_id \<Rightarrow> verdict \<Rightarrow> nat \<Rightarrow> guard \<Rightarrow> effect list \<times> guard" where
  "maybe_announce clk nid was kind g =
     (let direct = rep_direct_standing (gd_rep g) nid clk in
      if direct = OK \<or> direct = was then ([], g)
      else if \<not> gd_gossip g then ([], g)
      else
        (let (claimed, g) = claim_accusation clk nid g
         in (if claimed then [Accuse nid (announced_severity direct) kind] else [], g)))"

definition report_abuse ::
  "real \<Rightarrow> (nat \<Rightarrow> real) \<Rightarrow> node_id \<Rightarrow> real \<Rightarrow> pystr \<Rightarrow> nat \<Rightarrow> guard \<Rightarrow> verdict \<times> effect list \<times> guard" where
  "report_abuse clk hold nid weight reason kind g =
     (if nid = gd_id g then (OK, [], g)
      else
        (let before = rep_standing (gd_rep g) nid clk;
             was_ours = rep_direct_standing (gd_rep g) nid clk;
             (after, rep) = rep_note clk nid weight reason None (gd_rep g);
             g = g\<lparr> gd_rep := rep \<rparr>;
             (out, g) = (if after \<noteq> before then on_standing_changed clk hold nid after g else ([], g));
             (said, g) = maybe_announce clk nid was_ours kind g
         in (after, out @ said, g)))"

section \<open>Other nodes' accusations\<close>

text \<open>The rate limit of every gossip plane.\<close>

definition gossip_allowed ::
  "real \<Rightarrow> bytes \<Rightarrow> real \<Rightarrow> nat \<Rightarrow> (bytes, nat \<times> real) odict \<Rightarrow> bool \<times> (bytes, nat \<times> real) odict" where
  "gossip_allowed now key window maximum table =
     (let table = od_trim MAX_PEERS (filter (\<lambda>(_, _, ws). \<not> window < now - ws) table);
          (cnt, ws) = (case map_of table key of None \<Rightarrow> (0, now) | Some v \<Rightarrow> v);
          (cnt, ws) = (if window < now - ws then (0, now) else (cnt, ws))
      in if maximum \<le> cnt then (False, AList.update key (cnt, ws) table)
         else (True, AList.update key (Suc cnt, ws) table))"

definition rate_key :: "link \<Rightarrow> bytes" where
  "rate_key l = (case lk_id l of Some raw \<Rightarrow> raw | None \<Rightarrow> lk_remote l)"

definition abuse_allowed :: "real \<Rightarrow> nat \<Rightarrow> guard \<Rightarrow> bool \<times> guard" where
  "abuse_allowed clk i g =
     (let (ok, table) = gossip_allowed clk (rate_key (gd_links g ! i)) ABUSE_RATE_WINDOW ABUSE_RATE_MAX (gd_rate g)
      in (ok, g\<lparr> gd_rate := table \<rparr>))"

definition charge_identity_abuse :: "real \<Rightarrow> (nat \<Rightarrow> real) \<Rightarrow> nat \<Rightarrow> guard \<Rightarrow> effect list \<times> guard" where
  "charge_identity_abuse clk hold i g =
     (case lk_id (gd_links g ! i) of
        None \<Rightarrow> ([], g)
      | Some nid \<Rightarrow> snd (report_abuse clk hold nid 1 (py ''protocol violations'') KIND_MALFORMED g))"

definition charge_abuse :: "real \<Rightarrow> (nat \<Rightarrow> real) \<Rightarrow> nat \<Rightarrow> guard \<Rightarrow> effect list \<times> guard" where
  "charge_abuse clk hold i g =
     (let (out, g) = charge_identity_abuse clk hold i g;
          l = (gd_links g ! i)\<lparr> lk_malformed := Suc (lk_malformed (gd_links g ! i)) \<rparr>;
          g = g\<lparr> gd_links := (gd_links g)[i := l] \<rparr>
      in if \<not> MAX_MALFORMED < lk_malformed l then (out, g)
         else if lk_id l \<noteq> None then (out, g\<lparr> gd_links := (gd_links g)[i := tarpit clk (hold i) l] \<rparr>)
         else (out @ [Let_go i], g))"

definition accusation_digest :: "hash_env \<Rightarrow> accusation \<Rightarrow> bytes" where
  "accusation_digest h a = take 16 (h_sha256 h (ac_accuser_id a @ ac_subject_id a @ be_bytes 8 (ac_issued_at a)))"

definition is_accusation_seen :: "hash_env \<Rightarrow> accusation \<Rightarrow> guard \<Rightarrow> bool \<times> guard" where
  "is_accusation_seen h a g =
     (let digest = accusation_digest h a in
      if map_of (gd_seen g) digest \<noteq> None then (True, g)
      else (False, g\<lparr> gd_seen := od_trim ACCUSE_SEEN_MAX (AList.update digest () (gd_seen g)) \<rparr>))"

definition kind_label :: "nat \<Rightarrow> string" where
  "kind_label kind = (case map_of KIND_NAMES kind of None \<Rightarrow> '''' | Some s \<Rightarrow> s)"

definition witness_reason :: "string \<Rightarrow> string" where
  "witness_reason label = (if label = '''' then ''(witness)'' else label @ '' (witness)'')"

text \<open>Weighing an accusation that parsed and was new: \<open>None\<close> is a stranger's, which counts for nothing.\<close>

definition weigh_accusation :: "real \<Rightarrow> int \<Rightarrow> accusation \<Rightarrow> guard \<Rightarrow> (verdict option \<times> guard) result" where
  "weigh_accusation clk wall a g =
     (let accuser = ac_accuser_id a; subject = ac_subject_id a; label = kind_label (ac_kind a) in
      if accuser \<in> gd_witnesses g
      then (let (after, rep) = rep_note clk subject (real (ac_severity a)) (py (witness_reason label)) None (gd_rep g)
            in Inr (Some after, g\<lparr> gd_rep := rep \<rparr>))
      else
        (let (chain, certs) = get_chain accuser wall (gd_certs g); g = g\<lparr> gd_certs := certs \<rparr> in
         case chain of
           None \<Rightarrow> Inr (None, g)
         | Some _ \<Rightarrow>
             (let (fam, certs) = cs_family accuser wall (gd_certs g); g = g\<lparr> gd_certs := certs \<rparr>
              in rbind (rep_note_accusation clk subject accuser 1 (py label) fam None (gd_rep g))
                   (\<lambda>(after, rep). Inr (Some after, g\<lparr> gd_rep := rep \<rparr>)))))"

definition act_on_accusation ::
  "real \<Rightarrow> int \<Rightarrow> (nat \<Rightarrow> real) \<Rightarrow> bytes \<Rightarrow> accusation \<Rightarrow> guard \<Rightarrow> (effect list \<times> guard) result" where
  "act_on_accusation clk wall hold raw a g =
     (let subject = ac_subject_id a; before = rep_standing (gd_rep g) subject clk in
      rbind (weigh_accusation clk wall a g) (\<lambda>(after, g).
        case after of
          None \<Rightarrow> Inr ([], g)
        | Some after \<Rightarrow>
            (let (out, g) = (if after \<noteq> before then on_standing_changed clk hold subject after g else ([], g))
             in Inr (out @ [Pass_on raw subject], g))))"

definition handle_abuse_report ::
  "hash_env \<Rightarrow> verifier \<Rightarrow> real \<Rightarrow> int \<Rightarrow> (nat \<Rightarrow> real) \<Rightarrow> nat \<Rightarrow> bytes \<Rightarrow> guard \<Rightarrow> (effect list \<times> guard) result" where
  "handle_abuse_report h vf clk wall hold i raw g =
     (if \<not> gd_gossip g then Inr ([], g)
      else
        (let (ok, g) = abuse_allowed clk i g in
         if \<not> ok then Inr ([], g)
         else if raw = [] \<or> ACC_MAX_RECORD < length raw then Inr (charge_abuse clk hold i g)
         else
           (case acc_parse h vf raw wall of
              None \<Rightarrow> Inr (charge_abuse clk hold i g)
            | Some a \<Rightarrow>
                (let (dup, g) = is_accusation_seen h a g in
                 if dup then Inr ([], g)
                 else if ac_subject_id a = gd_id g then Inr ([], g)
                 else if rep_standing (gd_rep g) (ac_accuser_id a) clk \<noteq> OK then Inr ([], g)
                 else act_on_accusation clk wall hold raw a g))))"

section \<open>The operator\<close>

definition console_add_witness :: "node_id option \<Rightarrow> guard \<Rightarrow> bool \<times> guard" where
  "console_add_witness parsed g =
     (case parsed of
        None \<Rightarrow> (False, g)
      | Some nid \<Rightarrow>
          (if nid = gd_id g \<or> MAX_WITNESSES \<le> card (gd_witnesses g) then (False, g)
           else (True, g\<lparr> gd_witnesses := insert nid (gd_witnesses g) \<rparr>)))"

definition console_remove_witness :: "node_id option \<Rightarrow> guard \<Rightarrow> bool \<times> guard" where
  "console_remove_witness parsed g =
     (case parsed of
        None \<Rightarrow> (False, g)
      | Some nid \<Rightarrow>
          (if nid \<notin> gd_witnesses g then (False, g)
           else (True, g\<lparr> gd_witnesses := gd_witnesses g - {nid} \<rparr>)))"

definition console_forgive :: "node_id option \<Rightarrow> guard \<Rightarrow> bool \<times> effect list \<times> guard" where
  "console_forgive parsed g =
     (case parsed of
        None \<Rightarrow> (False, [], g)
      | Some nid \<Rightarrow>
          (let (held, rep) = rep_forgive nid (gd_rep g) in
           if \<not> held then (False, [], g)
           else (True, [Board], g\<lparr> gd_rep := rep, gd_sent := AList.delete nid (gd_sent g) \<rparr>)))"

definition set_abuse_gossip :: "bool \<Rightarrow> guard \<Rightarrow> bool \<times> guard" where
  "set_abuse_gossip enabled g = (enabled, g\<lparr> gd_gossip := enabled \<rparr>)"

section \<open>The behaviour sweep\<close>

definition note_behaviour :: "real \<Rightarrow> node_id \<Rightarrow> string \<Rightarrow> string \<Rightarrow> guard \<Rightarrow> effect list \<times> guard" where
  "note_behaviour wall_time nid rule_id summary g =
     (let key = (nid, rule_id) in
      if map_of (gd_notices g) key \<noteq> None then ([], g\<lparr> gd_notices := od_to_end key (gd_notices g) \<rparr>)
      else ([Board], g\<lparr> gd_notices := od_trim BEHAVIOUR_NOTICES
              (AList.update key (summary, wall_time) (gd_notices g)) \<rparr>))"

fun on_behaviour_finding :: "real \<Rightarrow> real \<Rightarrow> (nat \<Rightarrow> real) \<Rightarrow> finding \<Rightarrow> guard \<Rightarrow> effect list \<times> guard" where
  "on_behaviour_finding clk wall_time hold (nid, weight, rule_id, summary, resp) g =
     (if resp = NOTICE then note_behaviour wall_time nid rule_id summary g
      else snd (report_abuse clk hold nid weight (py (rule_id @ '': '' @ summary)) KIND_UNSPECIFIED g))"

fun on_findings :: "real \<Rightarrow> real \<Rightarrow> (nat \<Rightarrow> real) \<Rightarrow> finding list \<Rightarrow> guard \<Rightarrow> effect list \<times> guard" where
  "on_findings clk wall_time hold [] g = ([], g)"
| "on_findings clk wall_time hold (f # fs) g =
     (let (out, g) = on_behaviour_finding clk wall_time hold f g;
          (rest, g) = on_findings clk wall_time hold fs g
      in (out @ rest, g))"

definition observations_of :: "link list \<Rightarrow> observation list" where
  "observations_of links =
     map (\<lambda>l. (lk_counts l)\<lparr> ob_node_id := the (lk_id l), ob_profile_break := False, ob_issuer_burst := False \<rparr>)
       (filter (\<lambda>l. lk_id l \<noteq> None \<and> lk_tarpit l = 0) links)"

definition count_arrivals :: "(node_id \<times> node_id) list \<Rightarrow> (node_id, int) odict" where
  "count_arrivals pairs =
     foldl (\<lambda>d (issuer, _). AList.update issuer
       ((case map_of d issuer of None \<Rightarrow> 0 | Some n \<Rightarrow> n) + 1) d) [] pairs"

definition behaviour_sweep :: "real \<Rightarrow> real \<Rightarrow> (nat \<Rightarrow> real) \<Rightarrow> guard \<Rightarrow> effect list \<times> guard" where
  "behaviour_sweep clk wall_time hold g =
     (let observations = observations_of (gd_links g);
          (out, g) = (if observations = [] then ([], g)
             else (let (fs, w) = watch_sweep observations clk (gd_watch g)
                   in on_findings clk wall_time hold fs (g\<lparr> gd_watch := w \<rparr>)));
          arrivals = count_arrivals (gd_arrivals g);
          g = g\<lparr> gd_arrivals := [] \<rparr>;
          (fs, w) = sweep_issuers arrivals clk (gd_watch g);
          (rest, g) = on_findings clk wall_time hold fs (g\<lparr> gd_watch := w \<rparr>)
      in (out @ rest, g))"

definition note_cert_arrival :: "certificate \<Rightarrow> guard \<Rightarrow> guard" where
  "note_cert_arrival c g =
     (if ce_subject_id c = ce_issuer_id c \<or> ce_issuer_id c = gd_id g then g
      else if CERT_ARRIVALS_MAX \<le> length (gd_arrivals g) then g
      else if knows (ce_subject_id c) (gd_certs g) then g
      else if (ce_issuer_id c, ce_subject_id c) \<in> set (gd_arrivals g) then g
      else g\<lparr> gd_arrivals := gd_arrivals g @ [(ce_issuer_id c, ce_subject_id c)] \<rparr>)"

definition cert_take :: "int \<Rightarrow> certificate \<Rightarrow> guard \<Rightarrow> bool \<times> guard" where
  "cert_take wall c g =
     (let g = note_cert_arrival c g; (ok, certs) = cs_add c wall (gd_certs g)
      in (ok, g\<lparr> gd_certs := certs \<rparr>))"

definition console_accept_change :: "node_id option \<Rightarrow> guard \<Rightarrow> bool \<times> effect list \<times> guard" where
  "console_accept_change parsed g =
     (case parsed of
        None \<Rightarrow> (False, [], g)
      | Some nid \<Rightarrow>
          (let dropped = filter (\<lambda>(k, _). k = nid) (od_keys (gd_notices g))
           in (dropped \<noteq> [], if dropped \<noteq> [] then [Board] else [],
               g\<lparr> gd_notices := filter (\<lambda>((k, _), _). k \<noteq> nid) (gd_notices g),
                  gd_watch := watch_forget nid (gd_watch g) \<rparr>)))"

end
