(* ===== verification/Verdicts.thy ===== *)
theory Verdicts
  imports Standing
begin

text \<open>
  What the node's judgement can and cannot do: only its own eyes move a direct score or make it speak,
  one statement counts once, and the behaviour rules never amount to a ban.
\<close>

section \<open>Only what the node saw itself\<close>

lemma on_standing_changed_facts:
  "on_standing_changed clk hold nid v g = (out, g') \<Longrightarrow>
     set out \<subseteq> {Board} \<and> gd_rep g' = gd_rep g \<and> gd_seen g' = gd_seen g \<and> gd_witnesses g' = gd_witnesses g \<and>
     gd_id g' = gd_id g \<and> length (gd_links g') = length (gd_links g)"
  by (auto simp: on_standing_changed_def tarpit_links_def split: if_splits)

lemma maybe_announce_facts:
  assumes "maybe_announce clk nid was kind g = (out, g')"
  shows "gd_rep g' = gd_rep g \<and> gd_seen g' = gd_seen g \<and> gd_id g' = gd_id g \<and> gd_links g' = gd_links g \<and>
    (\<forall>x \<in> set out. \<exists>sev. x = Accuse nid sev kind \<and> rep_direct_standing (gd_rep g) nid clk \<notin> {OK, was})"
  using assms by (auto simp: maybe_announce_def claim_accusation_def Let_def split: if_splits option.splits)

lemma report_abuse_facts:
  assumes "report_abuse clk hold nid w reason kind g = (v, out, g')"
  shows "gd_seen g' = gd_seen g \<and> gd_id g' = gd_id g \<and> length (gd_links g') = length (gd_links g) \<and>
    gd_rep g' = (if nid = gd_id g then gd_rep g else snd (rep_note clk nid w reason None (gd_rep g))) \<and>
    (\<forall>n sev k. Accuse n sev k \<in> set out \<longrightarrow>
       n = nid \<and> nid \<noteq> gd_id g \<and> rep_direct_standing (gd_rep g') nid clk \<noteq> OK)"
proof (cases "nid = gd_id g")
  case False
  obtain after rep where noted: "rep_note clk nid w reason None (gd_rep g) = (after, rep)" by force
  let ?g = "g\<lparr> gd_rep := rep \<rparr>"
  obtain o1 g1 where 1: "(if after \<noteq> rep_standing (gd_rep g) nid clk then on_standing_changed clk hold nid after ?g
      else ([], ?g)) = (o1, g1)" by force
  obtain o2 where 2: "maybe_announce clk nid (rep_direct_standing (gd_rep g) nid clk) kind g1 = (o2, g')"
    and out: "out = o1 @ o2"
    using assms False noted 1 by (auto simp: report_abuse_def Let_def split: prod.splits)
  have o1: "set o1 \<subseteq> {Board} \<and> gd_rep g1 = rep \<and> gd_seen g1 = gd_seen g \<and> gd_id g1 = gd_id g \<and>
      length (gd_links g1) = length (gd_links g)"
    using 1 on_standing_changed_facts [of clk hold nid after ?g o1 g1] by (auto split: if_splits)
  have m: "gd_rep g' = gd_rep g1 \<and> gd_seen g' = gd_seen g1 \<and> gd_id g' = gd_id g1 \<and> gd_links g' = gd_links g1 \<and>
      (\<forall>x \<in> set o2. \<exists>sev. x = Accuse nid sev kind \<and>
         rep_direct_standing (gd_rep g1) nid clk \<notin> {OK, rep_direct_standing (gd_rep g) nid clk})"
    by (rule maybe_announce_facts [OF 2])
  have "n = nid \<and> rep_direct_standing (gd_rep g') nid clk \<noteq> OK" if a: "Accuse n sev k \<in> set out" for n sev k
  proof -
    have "Accuse n sev k \<in> set o2" using a o1 by (auto simp: out)
    with m show ?thesis by fastforce
  qed
  then show ?thesis using False o1 m noted by auto
qed (use assms in \<open>simp add: report_abuse_def\<close>)

lemma charge_abuse_facts:
  assumes "charge_abuse clk hold i g = (out, g')"
  shows "gd_seen g' = gd_seen g \<and>
    (\<forall>n. direct_of (gd_rep g') n \<notin> {direct_of (gd_rep g) n, 0} \<longrightarrow> lk_id (gd_links g ! i) = Some n) \<and>
    (\<forall>n sev k. Accuse n sev k \<in> set out \<longrightarrow> lk_id (gd_links g ! i) = Some n)"
proof -
  obtain o1 g1 where 1: "charge_identity_abuse clk hold i g = (o1, g1)" by force
  have rest: "gd_rep g' = gd_rep g1 \<and> gd_seen g' = gd_seen g1 \<and>
      (\<forall>n sev k. Accuse n sev k \<in> set out \<longrightarrow> Accuse n sev k \<in> set o1)"
    using assms 1 by (auto simp: charge_abuse_def Let_def split: if_splits)
  show ?thesis
  proof (cases "lk_id (gd_links g ! i)")
    case None
    with 1 have "g1 = g" "o1 = []" by (simp_all add: charge_identity_abuse_def)
    with rest show ?thesis by simp
  next
    case (Some nid)
    obtain v where "report_abuse clk hold nid 1 (py ''protocol violations'') KIND_MALFORMED g = (v, o1, g1)"
      using 1 Some by (cases "report_abuse clk hold nid 1 (py ''protocol violations'') KIND_MALFORMED g")
        (simp add: charge_identity_abuse_def)
    note f = report_abuse_facts [OF this]
    have "n = nid" if "direct_of (gd_rep g1) n \<notin> {direct_of (gd_rep g) n, 0}" for n
    proof (rule ccontr)
      assume "n \<noteq> nid"
      with f that direct_note_other [of n nid clk 1 "py ''protocol violations''" None "gd_rep g"]
      show False by (auto split: if_splits)
    qed
    moreover have "n = nid" if "Accuse n sev k \<in> set out" for n sev k
      using rest f that by blast
    ultimately show ?thesis using rest f Some by (intro conjI allI impI) auto
  qed
qed

lemma weigh_facts:
  assumes "weigh_accusation clk wall a g = Inr (v, g')"
  shows "gd_seen g' = gd_seen g \<and>
    (\<forall>n. direct_of (gd_rep g') n \<notin> {direct_of (gd_rep g) n, 0} \<longrightarrow>
       ac_subject_id a = n \<and> ac_accuser_id a \<in> gd_witnesses g)"
proof (cases "ac_accuser_id a \<in> gd_witnesses g")
  case True
  let ?r = "py (witness_reason (kind_label (ac_kind a)))"
  have g': "gd_seen g' = gd_seen g" "gd_rep g' = snd (rep_note clk (ac_subject_id a) (real (ac_severity a)) ?r None (gd_rep g))"
    using assms True by (auto simp: weigh_accusation_def Let_def split: prod.splits)
  have "ac_subject_id a = n" if "direct_of (gd_rep g') n \<notin> {direct_of (gd_rep g) n, 0}" for n
  proof (rule ccontr)
    assume "ac_subject_id a \<noteq> n"
    with that g'(2) direct_note_other [of n "ac_subject_id a" clk "real (ac_severity a)" ?r None "gd_rep g"]
    show False by auto
  qed
  with True g'(1) show ?thesis by blast
next
  case False
  obtain chain certs where c: "get_chain (ac_accuser_id a) wall (gd_certs g) = (chain, certs)" by force
  obtain fam certs' where f: "cs_family (ac_accuser_id a) wall certs = (fam, certs')" by force
  show ?thesis
  proof (cases chain)
    case None
    with assms False c show ?thesis by (auto simp: weigh_accusation_def Let_def)
  next
    case (Some ch)
    obtain after rep where noted: "rep_note_accusation clk (ac_subject_id a) (ac_accuser_id a) 1
        (py (kind_label (ac_kind a))) fam None (gd_rep g) = Inr (after, rep)" and g': "gd_rep g' = rep" "gd_seen g' = gd_seen g"
      using assms False c f Some by (auto simp: weigh_accusation_def Let_def rbind_Inr)
    from direct_accusation [OF noted] show ?thesis by (auto simp: g')
  qed
qed

lemma act_facts:
  assumes "act_on_accusation clk wall hold raw a g = Inr (out, g')"
  shows "gd_seen g' = gd_seen g \<and> (\<forall>n sev k. Accuse n sev k \<notin> set out) \<and>
    (\<forall>n. direct_of (gd_rep g') n \<notin> {direct_of (gd_rep g) n, 0} \<longrightarrow>
       ac_subject_id a = n \<and> ac_accuser_id a \<in> gd_witnesses g)"
proof -
  obtain after g3 where w: "weigh_accusation clk wall a g = Inr (after, g3)"
    and fin: "(case after of None \<Rightarrow> Inr ([], g3) | Some after \<Rightarrow>
          (let (out, g) = (if after \<noteq> rep_standing (gd_rep g) (ac_subject_id a) clk
             then on_standing_changed clk hold (ac_subject_id a) after g3 else ([], g3))
           in Inr (out @ [Pass_on raw (ac_subject_id a)], g))) = (Inr (out, g') :: (effect list \<times> guard) result)"
    using assms unfolding act_on_accusation_def Let_def rbind_Inr by auto
  have "gd_rep g' = gd_rep g3 \<and> gd_seen g' = gd_seen g3 \<and> (\<forall>n sev k. Accuse n sev k \<notin> set out)"
  proof (cases after)
    case None
    with fin show ?thesis by simp
  next
    case (Some v)
    obtain o1 g4 where 1: "(if v \<noteq> rep_standing (gd_rep g) (ac_subject_id a) clk
             then on_standing_changed clk hold (ac_subject_id a) v g3 else ([], g3)) = (o1, g4)" by force
    then have "set o1 \<subseteq> {Board} \<and> gd_rep g4 = gd_rep g3 \<and> gd_seen g4 = gd_seen g3"
      using on_standing_changed_facts [of clk hold "ac_subject_id a" v g3 o1 g4] by (cases "v = rep_standing (gd_rep g) (ac_subject_id a) clk") simp_all
    with fin show ?thesis unfolding Some option.case 1 by auto
  qed
  with weigh_facts [OF w] show ?thesis by simp
qed

lemma is_seen_frame:
  "is_accusation_seen h a g = (dup, g') \<Longrightarrow>
     gd_rep g' = gd_rep g \<and> gd_witnesses g' = gd_witnesses g \<and> gd_id g' = gd_id g"
  by (auto simp: is_accusation_seen_def Let_def split: if_splits)

text \<open>How far a delivery gets.\<close>

lemma handle_cases:
  assumes "handle_abuse_report h vf clk wall hold i raw g = Inr (out, g')"
  obtains (dropped) "out = []" "gd_rep g' = gd_rep g" "gd_seen g' = gd_seen g"
    | (charged) g1 where "gd_rep g1 = gd_rep g" "gd_links g1 = gd_links g" "gd_seen g1 = gd_seen g"
        "raw = [] \<or> ACC_MAX_RECORD < length raw \<or> acc_parse h vf raw wall = None"
        "charge_abuse clk hold i g1 = (out, g')"
    | (parsed) a g1 where "gd_rep g1 = gd_rep g" "gd_witnesses g1 = gd_witnesses g" "gd_seen g1 = gd_seen g"
        "acc_parse h vf raw wall = Some a"
        "let (dup, g2) = is_accusation_seen h a g1 in
           (if dup \<or> ac_subject_id a = gd_id g2 \<or> rep_standing (gd_rep g2) (ac_accuser_id a) clk \<noteq> OK
            then out = [] \<and> g' = g2
            else act_on_accusation clk wall hold raw a g2 = Inr (out, g'))"
proof (cases "gd_gossip g")
  case False
  with assms dropped show thesis by (simp add: handle_abuse_report_def)
next
  case True
  obtain ok g1 where allow: "abuse_allowed clk i g = (ok, g1)" by force
  have g1: "gd_rep g1 = gd_rep g" "gd_links g1 = gd_links g" "gd_witnesses g1 = gd_witnesses g"
    "gd_id g1 = gd_id g" "gd_seen g1 = gd_seen g"
    using allow by (auto simp: abuse_allowed_def Let_def split: prod.splits)
  note H = assms(1) [unfolded handle_abuse_report_def allow Let_def prod.case]
  consider "\<not> ok" | "ok" "raw = [] \<or> ACC_MAX_RECORD < length raw \<or> acc_parse h vf raw wall = None"
    | a where "ok" "\<not> (raw = [] \<or> ACC_MAX_RECORD < length raw)" "acc_parse h vf raw wall = Some a" by auto
  then show thesis
  proof cases
    case 1
    with H True g1 dropped show thesis by simp
  next
    case 2
    with H True have "charge_abuse clk hold i g1 = (out, g')" by (auto split: if_splits)
    with charged g1 2(2) show thesis by blast
  next
    case 3
    obtain dup g2 where seen: "is_accusation_seen h a g1 = (dup, g2)" by force
    show thesis
      by (rule parsed [OF g1(1,3,5) 3(3)]) (use H True 3 seen in \<open>auto split: if_splits\<close>)
  qed
qed

text \<open>
  C32: What the node hears never becomes what it saw, and never goes out under its own name. Handling
  an accusation moves the direct score of a node (other than to forget it) only when the accuser is a
  witness the operator chose, or to charge the peer that sent rubbish; and the node accuses somebody
  of its own only in that last case.\<close>
theorem hearsay_never_repeated:
  assumes "handle_abuse_report h vf clk wall hold i raw g = Inr (out, g')"
  defines "rubbish \<equiv> raw = [] \<or> ACC_MAX_RECORD < length raw \<or> acc_parse h vf raw wall = None"
  shows "(Accuse n sev k \<in> set out \<longrightarrow> rubbish \<and> lk_id (gd_links g ! i) = Some n) \<and>
    (direct_of (gd_rep g') n \<notin> {direct_of (gd_rep g) n, 0} \<longrightarrow>
       rubbish \<and> lk_id (gd_links g ! i) = Some n \<or>
       (\<exists>a. acc_parse h vf raw wall = Some a \<and> ac_subject_id a = n \<and> ac_accuser_id a \<in> gd_witnesses g))"
  using assms(1)
proof (cases rule: handle_cases)
  case (charged g1)
  have r: rubbish using charged(4) by (simp add: rubbish_def)
  note f = charge_abuse_facts [OF charged(5), unfolded charged(1,2)]
  have a: "lk_id (gd_links g ! i) = Some n" if "Accuse n sev k \<in> set out"
    by (rule f [THEN conjunct2, THEN conjunct2, rule_format, OF that])
  have b: "direct_of (gd_rep g') n \<notin> {direct_of (gd_rep g) n, 0} \<Longrightarrow> lk_id (gd_links g ! i) = Some n"
    using f by simp
  show ?thesis
  proof (intro conjI impI)
    show rubbish by (rule r)
    show "lk_id (gd_links g ! i) = Some n" if "Accuse n sev k \<in> set out" by (rule a [OF that])
    show "rubbish \<and> lk_id (gd_links g ! i) = Some n \<or>
       (\<exists>a. acc_parse h vf raw wall = Some a \<and> ac_subject_id a = n \<and> ac_accuser_id a \<in> gd_witnesses g)"
      if "direct_of (gd_rep g') n \<notin> {direct_of (gd_rep g) n, 0}"
      by (rule disjI1) (rule conjI [OF r b [OF that]])
  qed
next
  case (parsed a g1)
  obtain dup g2 where seen: "is_accusation_seen h a g1 = (dup, g2)" by force
  have g2: "gd_rep g2 = gd_rep g" "gd_witnesses g2 = gd_witnesses g"
    using is_seen_frame [OF seen] parsed(1,2) by simp_all
  show ?thesis
  proof (cases "dup \<or> ac_subject_id a = gd_id g2 \<or> rep_standing (gd_rep g2) (ac_accuser_id a) clk \<noteq> OK")
    case True
    with parsed(5) have "out = []" "g' = g2" by (simp_all only: seen Let_def prod.case if_True)
    then show ?thesis by (simp add: g2)
  next
    case False
    with parsed(5) have "act_on_accusation clk wall hold raw a g2 = Inr (out, g')"
      by (simp only: seen Let_def prod.case if_False)
    note f = act_facts [OF this, unfolded g2]
    show ?thesis
    proof (intro conjI impI)
      assume "Accuse n sev k \<in> set out"
      with f [THEN conjunct2, THEN conjunct1] show rubbish "lk_id (gd_links g ! i) = Some n" by simp_all
    next
      assume d: "direct_of (gd_rep g') n \<notin> {direct_of (gd_rep g) n, 0}"
      have "ac_subject_id a = n \<and> ac_accuser_id a \<in> gd_witnesses g"
        by (rule f [THEN conjunct2, THEN conjunct2, rule_format, OF d])
      with parsed(4) show "rubbish \<and> lk_id (gd_links g ! i) = Some n \<or>
          (\<exists>a. acc_parse h vf raw wall = Some a \<and> ac_subject_id a = n \<and> ac_accuser_id a \<in> gd_witnesses g)"
        by (intro disjI2 exI [of _ a]) simp
    qed
  qed
qed simp

definition demo_hash :: hash_env where
  "demo_hash = \<lparr> h_sha256 = (\<lambda>m. take 32 (m @ replicate 32 0)), h_blake2b = (\<lambda>n _ _. replicate n 0) \<rparr>"

definition demo_counts :: observation where
  "demo_counts = \<lparr> ob_node_id = [7], ob_transport = ''tcp'', ob_packets_in = 0, ob_packets_out = 0,
     ob_bytes_in = 0, ob_bytes_out = 0, ob_undeclared = 0, ob_found_entries = 0, ob_found_self = 0,
     ob_answers_judged = 0, ob_answers_disjoint = 0, ob_ka_outside = 0, ob_ka_ignored = 0,
     ob_ka_impossible = 0, ob_profile_break = False, ob_issuer_burst = False \<rparr>"

definition demo_guard :: guard where
  "demo_guard = \<lparr> gd_id = [9], gd_rep = new_reputation 1 2 3600 10, gd_witnesses = {}, gd_sent = [], gd_seen = [],
     gd_gossip = True, gd_rate = [],
     gd_links = [\<lparr> lk_id = Some [7], lk_remote = [], lk_tarpit = 0, lk_malformed = 0, lk_counts = demo_counts,
       lk_serial = 1, lk_session = True, lk_agreed = None, lk_rtt = None, lk_quality = new_link_quality 0,
       lk_last_used = 0 \<rparr>],
     gd_watch = new_watch RULES (1 / 2) ISSUER_RULES RULE_RECHARGE, gd_notices = [], gd_arrivals = [],
     gd_certs = new_cert_store [9] 16 4 16 \<rparr>"

lemma demo_rubbish:
  "\<exists>g'. handle_abuse_report demo_hash (\<lambda>_ _ _. True) 0 0 (\<lambda>_. 60) 0 [0] demo_guard =
     Inr ([Board, Accuse [7] 1 KIND_MALFORMED], g')"
  by (simp add: handle_abuse_report_def demo_guard_def abuse_allowed_def gossip_allowed_def rate_key_def
      ABUSE_RATE_WINDOW_def ABUSE_RATE_MAX_def MAX_PEERS_def ACC_MAX_RECORD_def acc_parse_def ACC_HDR_SIZE_def
      charge_abuse_def charge_identity_abuse_def report_abuse_def rep_standing_def rep_direct_standing_def
      rep_score_def new_reputation_def rep_note_def rep_entry_for_def stamp_of_def with_reason_def
      rep_enforce_bound_def verdict_of_def MAX_WEIGHT_def entry_score_def by_family_def decay_def
      on_standing_changed_def tarpit_links_def tarpit_def maybe_announce_def claim_accusation_def
      ACCUSE_TRACKED_def announced_severity_def MAX_MALFORMED_def Let_def)

theorem hearsay_never_repeated_witness:
  "\<exists>out g'. handle_abuse_report demo_hash (\<lambda>_ _ _. True) 0 0 (\<lambda>_. 60) 0 [0] demo_guard = Inr (out, g') \<and>
     Accuse [7] 1 KIND_MALFORMED \<in> set out \<and> lk_id (gd_links demo_guard ! 0) = Some [7]"
proof -
  obtain g' where run: "handle_abuse_report demo_hash (\<lambda>_ _ _. True) 0 0 (\<lambda>_. 60) 0 [0] demo_guard =
     Inr ([Board, Accuse [7] 1 KIND_MALFORMED], g')" using demo_rubbish by blast
  have "lk_id (gd_links demo_guard ! 0) = Some [7]"
    using hearsay_never_repeated [OF run, of "[7]" 1 KIND_MALFORMED] by simp
  with run show ?thesis by auto
qed

section \<open>One statement counts once\<close>

text \<open>A key among the last \<open>n\<close> of a book.\<close>

definition recent :: "'k \<Rightarrow> nat \<Rightarrow> ('k, 'v) odict \<Rightarrow> bool" where
  "recent k n d \<longleftrightarrow> k \<in> fst ` set (drop (length d - n) d)"

lemma recent_mem: "recent k n d \<Longrightarrow> k \<in> fst ` set d"
  by (auto simp: recent_def dest: in_set_dropD intro: rev_image_eqI)

lemma recent_snoc: "recent k n d \<Longrightarrow> recent k (Suc n) (d @ [x])"
  by (simp add: recent_def Suc_diff_le image_Un)

lemma recent_trim: "recent k n d \<Longrightarrow> n \<le> m \<Longrightarrow> recent k n (od_trim m d)"
proof -
  assume r: "recent k n d" and le: "n \<le> m"
  have "drop (length (od_trim m d) - n) (od_trim m d) = drop (length d - n) d"
    using le by (cases "length d \<le> m") (simp_all add: od_trim_drop)
  with r show ?thesis by (simp add: recent_def)
qed

lemma recent_mono: "recent k n d \<Longrightarrow> n \<le> m \<Longrightarrow> recent k m d"
  unfolding recent_def by (metis (no_types, lifting) diff_le_mono2 image_mono set_drop_subset_set_drop subsetD)

lemma seen_step:
  assumes "is_accusation_seen h a g = (dup, g')"
  shows "recent (accusation_digest h a) ACCUSE_SEEN_MAX (gd_seen g') \<or> dup"
    and "recent k n (gd_seen g) \<Longrightarrow> Suc n \<le> ACCUSE_SEEN_MAX \<Longrightarrow> recent k (Suc n) (gd_seen g')"
    and "\<not> dup \<Longrightarrow> recent (accusation_digest h a) 1 (gd_seen g')"
proof -
  let ?k = "accusation_digest h a"
  have dup: "dup \<longleftrightarrow> map_of (gd_seen g) ?k \<noteq> None"
    using assms by (auto simp: is_accusation_seen_def Let_def split: if_splits)
  have new: "gd_seen g' = od_trim ACCUSE_SEEN_MAX (gd_seen g @ [(?k, ())])" if "\<not> dup"
  proof -
    have "?k \<notin> fst ` set (gd_seen g)" using that dup by (simp add: map_of_eq_None_iff)
    then show ?thesis
      using assms that by (auto simp: is_accusation_seen_def Let_def update_absent split: if_splits)
  qed
  show one: "recent ?k 1 (gd_seen g')" if "\<not> dup"
    unfolding new [OF that] by (intro recent_trim) (simp_all add: recent_def ACCUSE_SEEN_MAX_def)
  then show "recent ?k ACCUSE_SEEN_MAX (gd_seen g') \<or> dup"
    using recent_mono [of ?k 1 "gd_seen g'" ACCUSE_SEEN_MAX] by (auto simp: ACCUSE_SEEN_MAX_def)
  show "recent k (Suc n) (gd_seen g')" if "recent k n (gd_seen g)" "Suc n \<le> ACCUSE_SEEN_MAX"
  proof (cases dup)
    case True
    then have "gd_seen g' = gd_seen g" using assms dup by (auto simp: is_accusation_seen_def Let_def)
    with that(1) show ?thesis by (simp add: recent_mono [of k n _ "Suc n"])
  next
    case False
    show ?thesis unfolding new [OF False] using that by (intro recent_trim recent_snoc)
  qed
qed

text \<open>One delivery, and deliveries in sequence: the clock, the wall clock, the holds, the link it came
  over and the bytes.\<close>

type_synonym delivery = "real \<times> int \<times> (nat \<Rightarrow> real) \<times> nat \<times> bytes"

fun deliver :: "hash_env \<Rightarrow> verifier \<Rightarrow> delivery list \<Rightarrow> guard \<Rightarrow> (effect list \<times> guard) result" where
  "deliver h vf [] g = Inr ([], g)"
| "deliver h vf ((clk, wall, hold, i, raw) # ds) g =
     rbind (handle_abuse_report h vf clk wall hold i raw g) (\<lambda>(out, g).
       rbind (deliver h vf ds g) (\<lambda>(rest, g). Inr (out @ rest, g)))"

lemma handle_seen:
  assumes "handle_abuse_report h vf clk wall hold i raw g = Inr (out, g')"
  shows "gd_seen g' = gd_seen g \<or>
    (\<exists>a g1 g2 dup. gd_seen g1 = gd_seen g \<and> is_accusation_seen h a g1 = (dup, g2) \<and> gd_seen g' = gd_seen g2)"
  using assms
proof (cases rule: handle_cases)
  case (charged g1)
  with charge_abuse_facts [OF charged(5)] show ?thesis by simp
next
  case (parsed a g1)
  obtain dup g2 where seen: "is_accusation_seen h a g1 = (dup, g2)" by force
  have "gd_seen g' = gd_seen g2"
  proof (cases "dup \<or> ac_subject_id a = gd_id g2 \<or> rep_standing (gd_rep g2) (ac_accuser_id a) clk \<noteq> OK")
    case True
    with parsed(5) show ?thesis by (simp only: seen Let_def prod.case if_True)
  next
    case False
    with parsed(5) have "act_on_accusation clk wall hold raw a g2 = Inr (out, g')"
      by (simp only: seen Let_def prod.case if_False)
    then show ?thesis by (rule act_facts [THEN conjunct1])
  qed
  with parsed(3) seen show ?thesis by blast
qed simp

lemma handle_recent:
  assumes "handle_abuse_report h vf clk wall hold i raw g = Inr (out, g')"
    "recent k n (gd_seen g)" "Suc n \<le> ACCUSE_SEEN_MAX"
  shows "recent k (Suc n) (gd_seen g')"
  using handle_seen [OF assms(1)]
proof
  assume "gd_seen g' = gd_seen g"
  with assms(2) show ?thesis by (simp add: recent_mono [of k n _ "Suc n"])
next
  assume "\<exists>a g1 g2 dup. gd_seen g1 = gd_seen g \<and> is_accusation_seen h a g1 = (dup, g2) \<and> gd_seen g' = gd_seen g2"
  then obtain a g1 g2 dup where "gd_seen g1 = gd_seen g" "is_accusation_seen h a g1 = (dup, g2)" "gd_seen g' = gd_seen g2"
    by blast
  with seen_step(2) [of h a g1 dup g2 k n] assms(2,3) show ?thesis by simp
qed

lemma deliver_recent:
  "deliver h vf ds g = Inr (out, g') \<Longrightarrow> recent k n (gd_seen g) \<Longrightarrow> n + length ds \<le> ACCUSE_SEEN_MAX \<Longrightarrow>
     recent k (n + length ds) (gd_seen g')"
proof (induction ds arbitrary: g n out)
  case (Cons d ds)
  obtain clk wall hold i raw where d: "d = (clk, wall, hold, i, raw)" by (metis surj_pair)
  obtain o1 g1 o2 where 1: "handle_abuse_report h vf clk wall hold i raw g = Inr (o1, g1)"
    and 2: "deliver h vf ds g1 = Inr (o2, g')"
    using Cons.prems(1) by (auto simp: d rbind_Inr)
  have "recent k (Suc n) (gd_seen g1)" using Cons.prems by (intro handle_recent [OF 1]) simp_all
  from Cons.IH [OF 2 this] Cons.prems(3) show ?case by simp
qed simp

lemma handle_duplicate:
  assumes "handle_abuse_report h vf clk wall hold i raw g = Inr (out, g')"
    "acc_parse h vf raw wall = Some a" "accusation_digest h a \<in> fst ` set (gd_seen g)"
  shows "out = [] \<and> gd_rep g' = gd_rep g \<or> raw = [] \<or> ACC_MAX_RECORD < length raw"
  using assms(1)
proof (cases rule: handle_cases)
  case (charged g1)
  with assms(2) show ?thesis by simp
next
  case (parsed b g1)
  have "map_of (gd_seen g1) (accusation_digest h b) \<noteq> None"
    using parsed(3,4) assms(2,3) by (simp add: map_of_eq_None_iff)
  then have "is_accusation_seen h b g1 = (True, g1)" by (auto simp: is_accusation_seen_def Let_def)
  with parsed(5) have "out = [] \<and> g' = g1" by simp
  with parsed(1) show ?thesis by simp
qed simp

lemma parsed_length: "acc_parse h vf raw wall = Some a \<Longrightarrow> raw \<noteq> [] \<and> length raw \<le> ACC_MAX_RECORD"
  by (auto simp: acc_parse_def ACC_HDR_SIZE_def split: if_splits)

lemma handle_counted:
  assumes "handle_abuse_report h vf clk wall hold i raw g = Inr (out, g')"
    "acc_parse h vf raw wall = Some a" "gd_rep g' \<noteq> gd_rep g"
  shows "recent (accusation_digest h a) 1 (gd_seen g')"
  using assms(1)
proof (cases rule: handle_cases)
  case (charged g1)
  with assms(2) parsed_length [OF assms(2)] show ?thesis by simp
next
  case (parsed b g1)
  then have b: "b = a" using assms(2) by simp
  obtain dup g2 where seen: "is_accusation_seen h a g1 = (dup, g2)" by force
  have rep: "gd_rep g2 = gd_rep g" using is_seen_frame [OF seen] parsed(1) by simp
  show ?thesis
  proof (cases "dup \<or> ac_subject_id a = gd_id g2 \<or> rep_standing (gd_rep g2) (ac_accuser_id a) clk \<noteq> OK")
    case True
    with parsed(5) have "g' = g2" by (simp_all only: b seen Let_def prod.case if_True)
    with rep assms(3) show ?thesis by simp
  next
    case False
    with parsed(5) have act: "act_on_accusation clk wall hold raw a g2 = Inr (out, g')"
      by (simp only: b seen Let_def prod.case if_False)
    have "recent (accusation_digest h a) 1 (gd_seen g2)" using False by (intro seen_step(3) [OF seen]) simp
    with act_facts [OF act] show ?thesis by simp
  qed
qed (use assms(3) in simp)

text \<open>
  One accuser saying one thing about one node at one moment counts once: after an accusation has
  moved the ledger, no record of the same accuser, subject and time, whatever its signature, its
  severity or the link it comes over, has any effect for as many deliveries as the table of digests
  holds.\<close>
theorem one_statement_counts_once:
  assumes first: "handle_abuse_report h vf clk wall hold i raw g = Inr (out, g1)"
    "acc_parse h vf raw wall = Some a" "gd_rep g1 \<noteq> gd_rep g"
    and between: "deliver h vf ds g1 = Inr (outs, g2)" "length ds < ACCUSE_SEEN_MAX"
    and again: "handle_abuse_report h vf clk' wall' hold' j raw' g2 = Inr (out', g3)"
    "acc_parse h vf raw' wall' = Some b" "ac_accuser_id b = ac_accuser_id a"
    "ac_subject_id b = ac_subject_id a" "ac_issued_at b = ac_issued_at a"
  shows "out' = [] \<and> gd_rep g3 = gd_rep g2"
proof -
  have "recent (accusation_digest h a) (1 + length ds) (gd_seen g2)"
    using between(2) by (intro deliver_recent [OF between(1) handle_counted [OF first]]) simp
  then have "accusation_digest h b \<in> fst ` set (gd_seen g2)"
    using again(3-5) by (simp add: accusation_digest_def recent_mem)
  from handle_duplicate [OF again(1,2) this] parsed_length [OF again(2)] show ?thesis by auto
qed

definition demo_accusation :: accusation where
  "demo_accusation = \<lparr> ac_accuser_id = take 20 ([5] @ replicate 32 0), ac_accuser_pub = [5],
     ac_subject_id = replicate 20 1, ac_issued_at = 1000, ac_severity = 3, ac_kind = 1 \<rparr>"

definition demo_record :: "byte \<Rightarrow> bytes" where
  "demo_record sig = be_bytes 1 1 @ be_bytes 8 1000 @ replicate 20 1 @ be_bytes 1 3 @ be_bytes 1 1 @
     be_bytes 2 1 @ be_bytes 2 1 @ [5, sig]"

lemma demo_parse: "acc_parse demo_hash (\<lambda>_ _ _. True) (demo_record s) 1000 = Some demo_accusation"
proof -
  have b: "acc_build (replicate 20 1) [5] (\<lambda>_. [s]) 3 1 1000 = Inr (demo_record s)"
    by (simp add: acc_build_def ACC_VERSION_def MAX_SEVERITY_def ACC_MAX_PUBKEY_def ACC_MAX_SIG_def demo_record_def
        KIND_NAMES_def Let_def del: be_bytes.simps)
  have "acc_parse demo_hash (\<lambda>_ _ _. True) (demo_record s) 1000 = Some \<lparr> ac_accuser_id = key_id demo_hash [5],
      ac_accuser_pub = [5], ac_subject_id = replicate 20 1, ac_issued_at = nat 1000,
      ac_severity = nat (max 1 (min 3 (int MAX_SEVERITY))),
      ac_kind = (if map_of KIND_NAMES 1 = None then KIND_UNSPECIFIED else 1) \<rparr>"
    by (rule acc_build_parses [OF b])
      (simp_all add: key_id_def demo_hash_def ACC_MAX_SKEW_def ACC_MAX_AGE_def numeral_eq_Suc)
  then show ?thesis
    by (simp add: demo_accusation_def key_id_def demo_hash_def MAX_SEVERITY_def KIND_NAMES_def)
qed

definition demo_witnessed :: guard where
  "demo_witnessed = demo_guard\<lparr> gd_witnesses := {ac_accuser_id demo_accusation} \<rparr>"

lemma demo_counted:
  "\<exists>out g1. handle_abuse_report demo_hash (\<lambda>_ _ _. True) 0 1000 (\<lambda>_. 60) 0 (demo_record 6) demo_witnessed =
     Inr (out, g1) \<and> gd_rep g1 \<noteq> gd_rep demo_witnessed \<and> gd_gossip g1 \<and>
     gd_rate g1 = [([7], 1, 0)] \<and> gd_links g1 = gd_links demo_guard"
proof -
  have len: "demo_record 6 \<noteq> []" "\<not> ACC_MAX_RECORD < length (demo_record 6)"
    using parsed_length [OF demo_parse [of 6]] by auto
  show ?thesis
    by (simp add: handle_abuse_report_def demo_witnessed_def demo_guard_def abuse_allowed_def gossip_allowed_def
        rate_key_def ABUSE_RATE_WINDOW_def ABUSE_RATE_MAX_def MAX_PEERS_def len demo_parse Let_def
        is_accusation_seen_def ACCUSE_SEEN_MAX_def rep_standing_def rep_score_def new_reputation_def verdict_of_def
        act_on_accusation_def weigh_accusation_def rep_note_def rep_entry_for_def stamp_of_def with_reason_def
        rep_enforce_bound_def MAX_WEIGHT_def entry_score_def by_family_def decay_def on_standing_changed_def
        tarpit_links_def tarpit_def demo_accusation_def numeral_eq_Suc)
qed

theorem one_statement_counts_once_witness:
  "\<exists>out g1 out' g2. handle_abuse_report demo_hash (\<lambda>_ _ _. True) 0 1000 (\<lambda>_. 60) 0 (demo_record 6) demo_witnessed =
       Inr (out, g1) \<and> gd_rep g1 \<noteq> gd_rep demo_witnessed \<and>
     handle_abuse_report demo_hash (\<lambda>_ _ _. True) 1 1000 (\<lambda>_. 60) 0 (demo_record 8) g1 = Inr (out', g2) \<and>
     out' = [] \<and> gd_rep g2 = gd_rep g1"
proof -
  obtain out g1 where 1: "handle_abuse_report demo_hash (\<lambda>_ _ _. True) 0 1000 (\<lambda>_. 60) 0 (demo_record 6) demo_witnessed =
     Inr (out, g1)" "gd_rep g1 \<noteq> gd_rep demo_witnessed" "gd_gossip g1" "gd_rate g1 = [([7], 1, 0)]"
    "gd_links g1 = gd_links demo_guard" using demo_counted by blast
  have seen: "recent (accusation_digest demo_hash demo_accusation) 1 (gd_seen g1)"
    by (rule handle_counted [OF 1(1) demo_parse 1(2)])
  have len: "demo_record 8 \<noteq> []" "\<not> ACC_MAX_RECORD < length (demo_record 8)"
    using parsed_length [OF demo_parse [of 8]] by auto
  have "map_of (gd_seen g1) (accusation_digest demo_hash demo_accusation) \<noteq> None"
    using recent_mem [OF seen] by (simp add: map_of_eq_None_iff)
  then have "\<exists>out' g2. handle_abuse_report demo_hash (\<lambda>_ _ _. True) 1 1000 (\<lambda>_. 60) 0 (demo_record 8) g1 = Inr (out', g2)"
    by (auto simp: handle_abuse_report_def 1 demo_guard_def abuse_allowed_def gossip_allowed_def rate_key_def
        ABUSE_RATE_WINDOW_def ABUSE_RATE_MAX_def MAX_PEERS_def len demo_parse is_accusation_seen_def Let_def)
  then obtain out' g2 where 2:
    "handle_abuse_report demo_hash (\<lambda>_ _ _. True) 1 1000 (\<lambda>_. 60) 0 (demo_record 8) g1 = Inr (out', g2)" by blast
  have "out' = [] \<and> gd_rep g2 = gd_rep g1"
    by (rule one_statement_counts_once [OF 1(1) demo_parse 1(2) _ _ 2 demo_parse, where ds = "[]"])
      (simp_all add: ACCUSE_SEEN_MAX_def)
  with 1(1,2) 2 show ?thesis by blast
qed

end
