(* ===== verification/Doctrine.thy ===== *)
theory Doctrine
  imports Verdicts
begin

text \<open>
  The doctrine of the behaviour rules as a theorem about the watch and the ledger together: what one
  rule says converges on twice its weight, so no rule alone makes a node suspect, and all of them
  together never make it hostile. \<open>worth\<close> is the decayed sum of the charges a log holds against a
  node; the ledger's direct score never exceeds it.
\<close>

section \<open>The behaviour rules never amount to a ban\<close>

text \<open>What the findings about a node are worth at a time: each at its weight, halved per half-life.\<close>

definition charge_of :: "node_id \<Rightarrow> log_entry \<Rightarrow> real" where
  "charge_of nid e = (case e of (t, n, w, i, s, resp) \<Rightarrow> if n = nid \<and> resp = SCORE then w else 0)"

definition worth :: "real \<Rightarrow> node_id \<Rightarrow> real \<Rightarrow> log_entry list \<Rightarrow> real" where
  "worth h nid T lg = (\<Sum>e\<leftarrow>lg. charge_of nid e * (1 / 2) powr ((T - fst e) / h))"

lemma worth_snoc: "worth h nid T (lg @ [e]) = worth h nid T lg + charge_of nid e * (1 / 2) powr ((T - fst e) / h)"
  by (simp add: worth_def)

lemma worth_later: "worth h nid (T + d) lg = worth h nid T lg * (1 / 2) powr (d / h)"
proof -
  have "(1 / 2 :: real) powr ((T + d - t) / h) = (1 / 2) powr ((T - t) / h) * (1 / 2) powr (d / h)" for t
    by (simp add: powr_add [symmetric] add_divide_distrib [symmetric] algebra_simps)
  then show ?thesis by (induction lg) (simp_all add: worth_def algebra_simps)
qed

lemma worth_nonneg: "\<forall>e \<in> set lg. 0 \<le> charge_of nid e \<Longrightarrow> 0 \<le> worth h nid T lg"
  unfolding worth_def by (intro sum_list_nonneg) auto

lemma decay_halves:
  assumes "0 < h" "0 \<le> v" "0 \<le> a"
  shows "decay v a h = v * (1 / 2) powr (a / h)"
  using assms by (auto simp: decay_def)

fun findings_run :: "real \<Rightarrow> (nat \<Rightarrow> real) \<Rightarrow> log_entry list \<Rightarrow> guard \<Rightarrow> effect list \<times> guard" where
  "findings_run wall hold [] g = ([], g)"
| "findings_run wall hold ((t, f) # lg) g =
     (let (out, g) = on_behaviour_finding t wall hold f g; (rest, g) = findings_run wall hold lg g
      in (out @ rest, g))"

lemma note_entry:
  assumes "rep_note clk nid w reason None r = (v, r')"
  shows "n \<noteq> nid \<Longrightarrow> map_of (rp_standings r') n = Some e \<Longrightarrow> map_of (rp_standings r) n = Some e"
    and "map_of (rp_standings r') nid = Some e \<Longrightarrow> re_at e = clk \<and>
      re_direct e = (case map_of (rp_standings r) nid of None \<Rightarrow> 0
        | Some e0 \<Rightarrow> decay (re_direct e0) (clk - re_at e0) (rp_halflife r)) + max 0 (min w MAX_WEIGHT)"
    and "rp_halflife r' = rp_halflife r \<and> rp_suspect r' = rp_suspect r \<and> rp_hostile r' = rp_hostile r"
proof -
  have filt: "map_of (filter (\<lambda>(k, _). k \<notin> V) d) m = Some x \<Longrightarrow> map_of d m = Some x" for V and d :: "(bytes, rep_entry) odict" and m x
    by (auto simp: map_of_filter_out split: if_splits)
  have bound: "map_of (rp_standings (rep_enforce_bound c q)) m = Some x \<Longrightarrow> map_of (rp_standings q) m = Some x"
    "rp_halflife (rep_enforce_bound c q) = rp_halflife q" "rp_suspect (rep_enforce_bound c q) = rp_suspect q"
    "rp_hostile (rep_enforce_bound c q) = rp_hostile q" for c q m x
    by (auto simp: rep_enforce_bound_def Let_def dest: filt split: if_splits)
  obtain e0 r0 where e0: "rep_entry_for clk nid r = (e0, r0)" by force
  have r0: "rp_halflife r0 = rp_halflife r" "rp_suspect r0 = rp_suspect r" "rp_hostile r0 = rp_hostile r"
    "n \<noteq> nid \<Longrightarrow> map_of (rp_standings r0) n = map_of (rp_standings r) n" for n
    using e0 by (auto simp: rep_entry_for_def Let_def map_of_update_same split: option.splits)
  define e1 where "e1 = with_reason reason (e0\<lparr> re_direct := decay (re_direct e0) (clk - re_at e0) (rp_halflife r0)
      + max 0 (min w MAX_WEIGHT), re_at := clk, re_reports := Suc (re_reports e0) \<rparr>)"
  have r': "r' = rep_enforce_bound clk (r0\<lparr> rp_standings := AList.update nid e1 (rp_standings r0) \<rparr>)"
    using assms by (simp add: rep_note_def e0 Let_def stamp_of_def e1_def)
  have e1: "re_at e1 = clk" "re_direct e1 = decay (re_direct e0) (clk - re_at e0) (rp_halflife r) + max 0 (min w MAX_WEIGHT)"
    by (simp_all add: e1_def with_reason_def r0)
  show "rp_halflife r' = rp_halflife r \<and> rp_suspect r' = rp_suspect r \<and> rp_hostile r' = rp_hostile r"
    by (simp add: r' bound(2-4) r0)
  show "map_of (rp_standings r) n = Some e" if "n \<noteq> nid" "map_of (rp_standings r') n = Some e"
    using bound(1) [OF that(2) [unfolded r']] that(1) r0(4) [OF that(1)] by (simp add: map_of_update_same)
  show "re_at e = clk \<and> re_direct e = (case map_of (rp_standings r) nid of None \<Rightarrow> 0
        | Some e0 \<Rightarrow> decay (re_direct e0) (clk - re_at e0) (rp_halflife r)) + max 0 (min w MAX_WEIGHT)"
    if "map_of (rp_standings r') nid = Some e"
  proof -
    have "e = e1" using bound(1) [OF that [unfolded r']] by (simp add: map_of_update_same)
    moreover have "decay (re_direct e0) (clk - re_at e0) (rp_halflife r) = (case map_of (rp_standings r) nid of None \<Rightarrow> 0
        | Some e0 \<Rightarrow> decay (re_direct e0) (clk - re_at e0) (rp_halflife r))"
      using e0 by (auto simp: rep_entry_for_def Let_def split: option.splits)
    ultimately show ?thesis using e1 by simp
  qed
qed

text \<open>Charges at least a half-life apart never add up to two.\<close>

lemma halving_sum:
  assumes "0 < h" "sorted_wrt (\<lambda>a b. a + h \<le> b) ts" "ts \<noteq> []"
  shows "(\<Sum>t\<leftarrow>ts. (1 / 2 :: real) powr ((T - t) / h)) \<le> 2 * (1 / 2) powr ((T - last ts) / h)"
  using assms(2,3)
proof (induction ts rule: rev_induct)
  case (snoc t ts)
  show ?case
  proof (cases "ts = []")
    case False
    have gap: "last ts + h \<le> t" using snoc.prems(1) False by (simp add: sorted_wrt_append)
    have "(\<Sum>t\<leftarrow>ts. (1 / 2 :: real) powr ((T - t) / h)) \<le> 2 * (1 / 2) powr ((T - last ts) / h)"
      using snoc False by (simp add: sorted_wrt_append)
    also have "\<dots> \<le> 2 * (1 / 2) powr ((T - t) / h + 1)"
    proof -
      have "(T - t) / h + 1 = (T - t + h) / h" using assms(1) by (simp add: add_divide_distrib)
      also have "\<dots> \<le> (T - last ts) / h" using gap assms(1) by (intro divide_right_mono) auto
      finally show ?thesis by (intro mult_left_mono powr_mono') auto
    qed
    also have "\<dots> = (1 / 2) powr ((T - t) / h)" by (simp add: powr_add)
    finally show ?thesis by simp
  qed simp
qed simp

lemma halving_le:
  assumes "0 < h" "sorted_wrt (\<lambda>a b. a + h \<le> b) ts" "\<forall>t \<in> set ts. t \<le> T"
  shows "(\<Sum>t\<leftarrow>ts. (1 / 2 :: real) powr ((T - t) / h)) \<le> 2"
proof (cases "ts = []")
  case False
  have "(1 / 2 :: real) powr ((T - last ts) / h) \<le> 1"
    using assms False by (intro powr_half_le divide_nonneg_pos) auto
  with halving_sum [OF assms(1,2) False, of T] show ?thesis by simp
qed simp

lemma sum_list_groups:
  fixes f :: "'a \<Rightarrow> real"
  assumes "finite I" "key ` set xs \<subseteq> I"
  shows "sum_list (map f xs) = (\<Sum>i \<in> I. sum_list (map f (filter (\<lambda>x. key x = i) xs)))"
  using assms(2)
proof (induction xs)
  case (Cons x xs)
  have "(\<Sum>i \<in> I. sum_list (map f (filter (\<lambda>x. key x = i) (x # xs)))) =
      (\<Sum>i \<in> I. (if key x = i then f x else 0) + sum_list (map f (filter (\<lambda>x. key x = i) xs)))"
    by (intro sum.cong) simp_all
  also have "\<dots> = f x + (\<Sum>i \<in> I. sum_list (map f (filter (\<lambda>x. key x = i) xs)))"
    using Cons.prems assms(1) by (simp add: sum.distrib sum.delta)
  finally show ?case using Cons by simp
qed simp

fun rule_of :: "log_entry \<Rightarrow> string" where
  "rule_of (t, nid, weight, rule_id, summary, resp) = rule_id"

lemma worth_bound:
  assumes h: "0 < h" and sp: "spaced h lg" and I: "finite I" "\<forall>i \<in> I. 0 \<le> wt i"
    and x: "\<forall>x \<in> set lg. charge_of nid x \<noteq> 0 \<longrightarrow>
      rule_of x \<in> I \<and> 0 \<le> charge_of nid x \<and> charge_of nid x \<le> wt (rule_of x) \<and> fst x \<le> T"
  shows "worth h nid T lg \<le> (\<Sum>i \<in> I. 2 * wt i)"
proof -
  define f where "f = (\<lambda>x. charge_of nid x * (1 / 2) powr ((T - fst x) / h))"
  define lg' where "lg' = filter (\<lambda>x. charge_of nid x \<noteq> 0) lg"
  have "worth h nid T lg = sum_list (map f lg')"
    unfolding worth_def lg'_def by (induction lg) (simp_all add: f_def)
  also have "\<dots> = (\<Sum>i \<in> I. sum_list (map f (filter (\<lambda>x. rule_of x = i) lg')))"
    using x by (intro sum_list_groups I) (auto simp: lg'_def)
  also have "\<dots> \<le> (\<Sum>i \<in> I. 2 * wt i)"
  proof (rule sum_mono)
    fix i assume i: "i \<in> I"
    let ?xs = "filter (\<lambda>x. rule_of x = i) lg'"
    have about: "about x = (nid, i)" if "x \<in> set ?xs" for x
    proof -
      have "charge_of nid x \<noteq> 0 \<and> rule_of x = i" using that by (simp add: lg'_def)
      then show ?thesis by (cases x) (simp add: charge_of_def split: if_splits)
    qed
    have "sorted_wrt (\<lambda>a b. about a = about b \<longrightarrow> fst a + h \<le> fst b) ?xs"
      using sp unfolding lg'_def spaced_def by (intro sorted_wrt_filter)
    then have "sorted_wrt (\<lambda>a b. fst a + h \<le> fst b) ?xs"
      by (rule sorted_wrt_mono_rel [rotated]) (simp add: about)
    then have ts: "sorted_wrt (\<lambda>a b. a + h \<le> b) (map fst ?xs)" by (simp add: sorted_wrt_map)
    have "sum_list (map f ?xs) \<le> (\<Sum>x\<leftarrow>?xs. wt i * (1 / 2) powr ((T - fst x) / h))"
      using x by (intro sum_list_mono) (auto simp: f_def lg'_def intro!: mult_right_mono)
    also have "\<dots> = wt i * (\<Sum>t\<leftarrow>map fst ?xs. (1 / 2) powr ((T - t) / h))"
      by (simp add: sum_list_const_mult o_def)
    also have "\<dots> \<le> wt i * 2"
      using x i I(2) by (intro mult_left_mono halving_le [OF h ts]) (auto simp: lg'_def)
    finally show "sum_list (map f ?xs) \<le> 2 * wt i" by simp
  qed
  finally show ?thesis .
qed

section \<open>The ledger under the findings\<close>

definition ledger_le :: "real \<Rightarrow> node_id \<Rightarrow> real \<Rightarrow> log_entry list \<Rightarrow> reputation \<Rightarrow> bool" where
  "ledger_le h nid T lg r \<longleftrightarrow> rp_halflife r = h \<and>
     (\<forall>e. map_of (rp_standings r) nid = Some e \<longrightarrow>
        0 \<le> re_direct e \<and> re_direct e \<le> worth h nid (re_at e) lg \<and> re_at e \<le> T \<and>
        (\<forall>x \<in> set lg. charge_of nid x \<noteq> 0 \<longrightarrow> fst x \<le> re_at e))"

lemma ledger_le_mono:
  "ledger_le h nid T lg r \<Longrightarrow> T \<le> T' \<Longrightarrow> rp_halflife r' = rp_halflife r \<Longrightarrow>
     (\<And>e. map_of (rp_standings r') nid = Some e \<Longrightarrow> map_of (rp_standings r) nid = Some e) \<Longrightarrow>
     charge_of nid x = 0 \<Longrightarrow> ledger_le h nid T' (lg @ [x]) r'"
  unfolding ledger_le_def by (fastforce simp: worth_snoc)

lemma ledger_note:
  assumes inv: "ledger_le h nid T lg r" and t: "T \<le> t" and h: "0 < h" and w: "0 \<le> w"
    and lg: "\<forall>e \<in> set lg. 0 \<le> charge_of nid e \<and> fst e \<le> T"
    and run: "rep_note t nid w reason None r = (v, r')" and x: "charge_of nid x = w" "fst x = t"
  shows "ledger_le h nid t (lg @ [x]) r'"
  unfolding ledger_le_def
proof (intro conjI allI impI)
  show "rp_halflife r' = h" using note_entry(3) [OF run] inv by (simp add: ledger_le_def)
  fix e assume e: "map_of (rp_standings r') nid = Some e"
  let ?old = "case map_of (rp_standings r) nid of None \<Rightarrow> 0 | Some e0 \<Rightarrow> decay (re_direct e0) (t - re_at e0) (rp_halflife r)"
  have at: "re_at e = t" and d: "re_direct e = ?old + max 0 (min w MAX_WEIGHT)"
    using note_entry(2) [OF run e] by simp_all
  have old: "0 \<le> ?old \<and> ?old \<le> worth h nid t lg"
  proof (cases "map_of (rp_standings r) nid")
    case None
    then show ?thesis using lg worth_nonneg [of lg nid h t] by simp
  next
    case (Some e0)
    have e0: "0 \<le> re_direct e0" "re_direct e0 \<le> worth h nid (re_at e0) lg" "re_at e0 \<le> T"
      "rp_halflife r = h"
      using inv Some by (simp_all add: ledger_le_def)
    have "decay (re_direct e0) (t - re_at e0) h = re_direct e0 * (1 / 2) powr ((t - re_at e0) / h)"
      using e0 t h by (intro decay_halves) auto
    also have "\<dots> \<le> worth h nid (re_at e0) lg * (1 / 2) powr ((t - re_at e0) / h)"
      using e0(2) by (rule mult_right_mono) simp
    also have "\<dots> = worth h nid t lg" using worth_later [of h nid "re_at e0" "t - re_at e0" lg] by simp
    finally show ?thesis using e0 Some by simp
  qed
  show "0 \<le> re_direct e" using old d by simp
  show "re_direct e \<le> worth h nid (re_at e) (lg @ [x])"
  proof -
    have "re_direct e \<le> worth h nid t lg + w"
      unfolding d by (rule add_mono) (use old w in auto)
    then show ?thesis using x h by (simp add: at worth_snoc)
  qed
  show "re_at e \<le> t" by (simp add: at)
  show "\<forall>y \<in> set (lg @ [x]). charge_of nid y \<noteq> 0 \<longrightarrow> fst y \<le> re_at e"
    using lg t x(2) by (auto simp: at intro: order_trans)
qed

lemma notice_frame:
  "note_behaviour wall nid i s g = (out, g') \<Longrightarrow>
     gd_rep g' = gd_rep g \<and> gd_id g' = gd_id g \<and> (\<forall>n sev k. Accuse n sev k \<notin> set out)"
  by (auto simp: note_behaviour_def Let_def split: if_splits)

text \<open>One finding applied to the node: the ledger stays under the worth of the log, and an accusation
  of a node comes with a direct standing against it.\<close>

lemma ledger_finding:
  assumes inv: "ledger_le h nid T lg (gd_rep g)" and t: "T \<le> t" and h: "0 < h" and me: "nid \<noteq> gd_id g"
    and lg: "\<forall>e \<in> set lg. 0 \<le> charge_of nid e \<and> fst e \<le> T" and x: "0 \<le> charge_of nid (t, f)"
    and run: "on_behaviour_finding t wall hold f g = (out, g')"
  shows "ledger_le h nid t (lg @ [(t, f)]) (gd_rep g')" "gd_id g' = gd_id g"
    "Accuse nid sev k \<in> set out \<Longrightarrow> rep_direct_standing (gd_rep g') nid t \<noteq> OK"
proof -
  obtain n w i s resp where f: "f = (n, w, i, s, resp)" by (metis surj_pair)
  have "ledger_le h nid t (lg @ [(t, f)]) (gd_rep g') \<and> gd_id g' = gd_id g \<and>
    (Accuse nid sev k \<in> set out \<longrightarrow> rep_direct_standing (gd_rep g') nid t \<noteq> OK)"
  proof (cases "resp = NOTICE")
    case True
    then have n: "gd_rep g' = gd_rep g \<and> gd_id g' = gd_id g \<and> (\<forall>n sev k. Accuse n sev k \<notin> set out)"
      using run by (intro notice_frame) (simp add: f)
    have "charge_of nid (t, f) = 0" by (simp add: charge_of_def f True)
    then have "ledger_le h nid t (lg @ [(t, f)]) (gd_rep g')"
      using n by (intro ledger_le_mono [OF inv t]) simp_all
    with n show ?thesis by simp
  next
    case False
    then have score: "resp = SCORE" by (cases resp) simp_all
    obtain v where ra: "report_abuse t hold n w (py (i @ '': '' @ s)) KIND_UNSPECIFIED g = (v, out, g')"
      using run False by (cases "report_abuse t hold n w (py (i @ '': '' @ s)) KIND_UNSPECIFIED g") (simp add: f)
    note ra = report_abuse_facts [OF ra]
    obtain u r' where note': "rep_note t n w (py (i @ '': '' @ s)) None (gd_rep g) = (u, r')" by force
    have "ledger_le h nid t (lg @ [(t, f)]) (gd_rep g')"
    proof (cases "n = nid")
      case True
      have "charge_of nid (t, f) = w" using True score by (simp add: charge_of_def f)
      then have "ledger_le h nid t (lg @ [(t, f)]) r'"
        using x True by (intro ledger_note [OF inv t h _ lg note' [unfolded True]]) simp_all
      with ra me True note' show ?thesis by simp
    next
      case other: False
      have z: "charge_of nid (t, f) = 0" using other by (simp add: charge_of_def f)
      show ?thesis
      proof (cases "n = gd_id g")
        case True
        then show ?thesis using ra z by (intro ledger_le_mono [OF inv t]) simp_all
      next
        case False
        then have "gd_rep g' = r'" using ra note' by simp
        then show ?thesis
          using note_entry(1,3) [OF note'] other z by (intro ledger_le_mono [OF inv t]) auto
      qed
    qed
    with ra show ?thesis by blast
  qed
  then show "ledger_le h nid t (lg @ [(t, f)]) (gd_rep g')" "gd_id g' = gd_id g"
    "Accuse nid sev k \<in> set out \<Longrightarrow> rep_direct_standing (gd_rep g') nid t \<noteq> OK" by blast+
qed

lemma direct_standing_below:
  assumes "ledger_le h nid T lg r" "\<And>T. (\<forall>x \<in> set lg. charge_of nid x \<noteq> 0 \<longrightarrow> fst x \<le> T) \<Longrightarrow> worth h nid T lg \<le> b"
  shows "b < rp_suspect r \<Longrightarrow> b < rp_hostile r \<Longrightarrow> rep_direct_standing r nid t = OK"
    and "b < rp_hostile r \<Longrightarrow> rep_direct_standing r nid t \<noteq> HOSTILE"
proof -
  have "decay (re_direct e) (t - re_at e) (rp_halflife r) \<le> b" if "map_of (rp_standings r) nid = Some e" for e
  proof -
    have e: "0 \<le> re_direct e" "re_direct e \<le> worth h nid (re_at e) lg"
      "\<forall>x \<in> set lg. charge_of nid x \<noteq> 0 \<longrightarrow> fst x \<le> re_at e"
      using assms(1) that by (simp_all add: ledger_le_def)
    have "decay (re_direct e) (t - re_at e) (rp_halflife r) \<le> re_direct e" by (rule decay_le [OF e(1)])
    also have "\<dots> \<le> b" using e(2) assms(2) [OF e(3)] by simp
    finally show ?thesis .
  qed
  note v = this
  show "rep_direct_standing r nid t = OK" if "b < rp_suspect r" "b < rp_hostile r"
  proof (cases "map_of (rp_standings r) nid")
    case (Some e)
    from v [OF Some] that show ?thesis by (simp add: rep_direct_standing_def Some Let_def)
  qed (simp add: rep_direct_standing_def)
  show "rep_direct_standing r nid t \<noteq> HOSTILE" if "b < rp_hostile r"
  proof (cases "map_of (rp_standings r) nid")
    case (Some e)
    from v [OF Some] that show ?thesis by (simp add: rep_direct_standing_def Some Let_def)
  qed (simp add: rep_direct_standing_def)
qed

lemma finding_settings:
  assumes "on_behaviour_finding t wall hold f g = (out, g')"
  shows "rp_suspect (gd_rep g') = rp_suspect (gd_rep g) \<and> rp_hostile (gd_rep g') = rp_hostile (gd_rep g)"
proof -
  obtain n w i s resp where f: "f = (n, w, i, s, resp)" by (metis surj_pair)
  show ?thesis
  proof (cases "resp = NOTICE")
    case True
    with assms notice_frame [of wall n i s g out g'] show ?thesis by (simp add: f)
  next
    case False
    obtain v where ra: "report_abuse t hold n w (py (i @ '': '' @ s)) KIND_UNSPECIFIED g = (v, out, g')"
      using assms False by (cases "report_abuse t hold n w (py (i @ '': '' @ s)) KIND_UNSPECIFIED g") (simp add: f)
    obtain u r' where r': "rep_note t n w (py (i @ '': '' @ s)) None (gd_rep g) = (u, r')" by force
    from note_entry(3) [OF r'] report_abuse_facts [OF ra] r' show ?thesis by simp
  qed
qed

text \<open>\<open>worth_within b h nid lg\<close>: at no time past its charges are the findings of any prefix worth more.\<close>

definition worth_within :: "real \<Rightarrow> real \<Rightarrow> node_id \<Rightarrow> log_entry list \<Rightarrow> bool" where
  "worth_within b h nid lg \<longleftrightarrow>
     (\<forall>n T. (\<forall>x \<in> set (take n lg). charge_of nid x \<noteq> 0 \<longrightarrow> fst x \<le> T) \<longrightarrow> worth h nid T (take n lg) \<le> b)"

lemma worth_within_prefix: "worth_within b h nid (xs @ ys) \<Longrightarrow>
    \<forall>x \<in> set xs. charge_of nid x \<noteq> 0 \<longrightarrow> fst x \<le> T \<Longrightarrow> worth h nid T xs \<le> b"
  unfolding worth_within_def by (drule spec [of _ "length xs"]) simp

lemma findings_run_ledger:
  assumes "ledger_le h nid T old (gd_rep g)" "0 < h" "nid \<noteq> gd_id g"
    "\<forall>x \<in> set old. 0 \<le> charge_of nid x \<and> fst x \<le> T" "\<forall>x \<in> set lg. 0 \<le> charge_of nid x \<and> T \<le> fst x"
    "sorted (map fst lg)" "findings_run wall hold lg g = (out, g')"
  shows "\<exists>T'. ledger_le h nid T' (old @ lg) (gd_rep g') \<and> rp_suspect (gd_rep g') = rp_suspect (gd_rep g) \<and>
      rp_hostile (gd_rep g') = rp_hostile (gd_rep g) \<and>
      (worth_within b h nid (old @ lg) \<and> b < rp_suspect (gd_rep g) \<and> b < rp_hostile (gd_rep g) \<longrightarrow>
         Accuse nid sev k \<notin> set out)"
  using assms
proof (induction lg arbitrary: old g T out)
  case Nil
  then show ?case by auto
next
  case (Cons x lg)
  obtain t f where x: "x = (t, f)" by (cases x)
  obtain o1 g1 o2 where 1: "on_behaviour_finding t wall hold f g = (o1, g1)"
    and 2: "findings_run wall hold lg g1 = (o2, g')" and out: "out = o1 @ o2"
    using Cons.prems(7) by (auto simp: x split: prod.splits)
  have xt: "T \<le> t" "0 \<le> charge_of nid (t, f)" using Cons.prems(5) by (simp_all add: x)
  note one = ledger_finding [OF Cons.prems(1) xt(1) Cons.prems(2,3,4) xt(2) 1]
  have settings: "rp_suspect (gd_rep g1) = rp_suspect (gd_rep g) \<and> rp_hostile (gd_rep g1) = rp_hostile (gd_rep g)"
    by (rule finding_settings [OF 1])
  have "\<exists>T'. ledger_le h nid T' ((old @ [x]) @ lg) (gd_rep g') \<and> rp_suspect (gd_rep g') = rp_suspect (gd_rep g1) \<and>
      rp_hostile (gd_rep g') = rp_hostile (gd_rep g1) \<and>
      (worth_within b h nid ((old @ [x]) @ lg) \<and> b < rp_suspect (gd_rep g1) \<and> b < rp_hostile (gd_rep g1) \<longrightarrow>
         Accuse nid sev k \<notin> set o2)"
  proof (rule Cons.IH [of t])
    show "ledger_le h nid t (old @ [x]) (gd_rep g1)" using one(1) by (simp add: x)
    show "nid \<noteq> gd_id g1" using one(2) Cons.prems(3) by simp
    show "\<forall>y \<in> set (old @ [x]). 0 \<le> charge_of nid y \<and> fst y \<le> t"
      using Cons.prems(4) xt by (auto simp: x)
    show "\<forall>y \<in> set lg. 0 \<le> charge_of nid y \<and> t \<le> fst y"
      using Cons.prems(5,6) by (auto simp: x)
    show "sorted (map fst lg)" using Cons.prems(6) by simp
  qed (rule Cons.prems(2), rule 2)
  moreover have "Accuse nid sev k \<notin> set o1"
    if b: "worth_within b h nid (old @ x # lg)" "b < rp_suspect (gd_rep g)" "b < rp_hostile (gd_rep g)"
  proof
    assume "Accuse nid sev k \<in> set o1"
    then have "rep_direct_standing (gd_rep g1) nid t \<noteq> OK" by (rule one(3))
    moreover have "rep_direct_standing (gd_rep g1) nid t = OK"
      using b settings worth_within_prefix [of b h nid "old @ [x]" lg]
      by (intro direct_standing_below(1) [OF one(1), of b]) (simp_all add: x)
    ultimately show False by simp
  qed
  ultimately show ?case using settings by (auto simp: out)
qed

section \<open>What the watch can say\<close>

definition from_rules :: "rule set \<Rightarrow> finding list \<Rightarrow> bool" where
  "from_rules R fs \<longleftrightarrow>
     (\<forall>f \<in> set fs. \<exists>r \<in> R. fst (snd f) = ru_weight r \<and> fst (snd (snd f)) = ru_id r \<and>
        snd (snd (snd (snd f))) = ru_response r)"

lemma from_rules_append: "from_rules R (xs @ ys) \<longleftrightarrow> from_rules R xs \<and> from_rules R ys"
  by (auto simp: from_rules_def)

lemma charge_hits_from: "charge_hits r now os w = (fs, w') \<Longrightarrow> from_rules {r} fs"
  by (induction os arbitrary: w fs) (fastforce simp: from_rules_def split: prod.splits if_splits)+

lemma from_rules_mono: "from_rules R fs \<Longrightarrow> R \<subseteq> R' \<Longrightarrow> from_rules R' fs"
  by (fastforce simp: from_rules_def)

lemma report_rules_from: "report_rules findings n now rs w = (fs, w') \<Longrightarrow> from_rules (set rs) fs"
proof (induction rs arbitrary: w fs)
  case (Cons r rs)
  show ?case
  proof (cases "map_of findings (ru_id r)")
    case None
    with Cons show ?thesis by (auto intro: from_rules_mono)
  next
    case (Some hits)
    show ?thesis
    proof (cases "max 1 (real n * wa_universal w) < real (length hits)")
      case True
      with Some Cons.prems have "report_rules findings n now rs
          (w\<lparr> wa_disarmed := AList.update (ru_id r) (length hits) (wa_disarmed w) \<rparr>) = (fs, w')" by simp
      from Cons.IH [OF this] show ?thesis by (auto intro: from_rules_mono)
    next
      case False
      obtain these w1 rest where 1: "charge_hits r now hits w = (these, w1)"
        and 2: "report_rules findings n now rs w1 = (rest, w')" and fs: "fs = these @ rest"
        using Cons.prems(1) Some False by (auto split: prod.splits)
      from charge_hits_from [OF 1] Cons.IH [OF 2] show ?thesis
        by (auto simp: fs from_rules_append intro: from_rules_mono)
    qed
  qed
qed (simp add: from_rules_def)

lemma sweep_one_from:
  assumes "sweep_one e now w = (fs, w')"
  shows "from_rules (set (wa_rules w) \<union> set (wa_issuer_rules w)) fs \<and>
    wa_rules w' = wa_rules w \<and> wa_issuer_rules w' = wa_issuer_rules w"
proof (cases e)
  case (Links os)
  obtain os' b where fp: "fold_profiles os (wa_profiles w) = (os', b)" by force
  obtain g n where j: "judge os' (wa_rules w) g n now (w\<lparr> wa_profiles := b \<rparr>) = (fs, w')"
    using assms by (simp add: Links watch_sweep_def fp Let_def)
  then have "from_rules (set (wa_rules w)) fs" by (auto simp: judge_def Let_def dest: report_rules_from)
  with judge_frame [OF j] show ?thesis by (auto intro: from_rules_mono)
next
  case (Issuers arrivals)
  obtain os' n b where j: "judge os' (wa_issuer_rules w) (\<lambda>_. empty_group) n now (w\<lparr> wa_issuers := b \<rparr>) = (fs, w')"
    using assms by (auto simp: Issuers sweep_issuers_def Let_def split: prod.splits)
  then have "from_rules (set (wa_issuer_rules w)) fs" by (auto simp: judge_def Let_def dest: report_rules_from)
  with judge_frame [OF j] show ?thesis by (auto intro: from_rules_mono)
qed

lemma watch_run_from:
  "watch_run es w = (lg, w') \<Longrightarrow> sorted (map fst es) \<Longrightarrow>
     sorted (map fst lg) \<and> from_rules (set (wa_rules w) \<union> set (wa_issuer_rules w)) (map snd lg) \<and>
     fst ` set lg \<subseteq> fst ` set es"
proof (induction es arbitrary: w lg)
  case (Cons te es)
  obtain now e where te: "te = (now, e)" by (cases te)
  obtain f1 w1 gs where 1: "sweep_one e now w = (f1, w1)" "watch_run es w1 = (gs, w')"
    and lg: "lg = map (Pair now) f1 @ gs"
    using Cons.prems(1) by (auto simp: te split: prod.splits)
  note one = sweep_one_from [OF 1(1)]
  have rest: "sorted (map fst gs) \<and> from_rules (set (wa_rules w) \<union> set (wa_issuer_rules w)) (map snd gs) \<and>
      fst ` set gs \<subseteq> fst ` set es"
    using Cons.IH [OF 1(2)] Cons.prems(2) one by simp
  moreover have "\<forall>t \<in> fst ` set es. now \<le> t" using Cons.prems(2) by (auto simp: te)
  then have "\<forall>t \<in> fst ` set gs. now \<le> t" using rest by blast
  moreover have "sorted (map fst (map (Pair now) f1))" by (simp add: o_def sorted_wrt_map sorted_wrt_iff_nth_less)
  ultimately show ?case using one by (auto simp: lg te sorted_append from_rules_append o_def)
qed (simp add: from_rules_def)

definition scoring_ids :: "string set" where
  "scoring_ids = {''C1'', ''D2'', ''E1'', ''E2'', ''K1'', ''K2'', ''K3''}"

definition weight_of :: "string \<Rightarrow> real" where
  "weight_of i = (if i = ''C1'' \<or> i = ''K3'' then 2 else 1)"

lemma scoring_rules:
  "r \<in> set RULES \<union> set ISSUER_RULES \<Longrightarrow>
     0 \<le> ru_weight r \<and> (ru_response r = SCORE \<longrightarrow> ru_id r \<in> scoring_ids \<and> ru_weight r = weight_of (ru_id r))"
  by (auto simp: RULES_def ISSUER_RULES_def scoring_ids_def weight_of_def)

lemma rule_ids_card: "card (ru_id ` set RULES \<union> ru_id ` set ISSUER_RULES) = 9"
  by (simp add: RULES_def ISSUER_RULES_def)

lemma charges_from:
  assumes "from_rules (set RULES \<union> set ISSUER_RULES) (map snd lg)" "x \<in> set lg"
  shows "0 \<le> charge_of nid x \<and> (charge_of nid x \<noteq> 0 \<longrightarrow>
    rule_of x \<in> scoring_ids \<and> charge_of nid x = weight_of (rule_of x))"
proof -
  obtain t n w i s resp where x: "x = (t, n, w, i, s, resp)" by (metis surj_pair)
  have "(n, w, i, s, resp) \<in> set (map snd lg)" using assms(2) by (force simp: x)
  with assms(1) obtain r where "r \<in> set RULES \<union> set ISSUER_RULES" "w = ru_weight r" "i = ru_id r" "resp = ru_response r"
    unfolding from_rules_def by fastforce
  with scoring_rules [OF this(1)] show ?thesis by (simp add: x charge_of_def weight_of_def)
qed

lemma spaced_take: "spaced h lg \<Longrightarrow> spaced h (take n lg)"
  unfolding spaced_def by (simp add: sorted_wrt_take)

text \<open>
  C31: No behaviour rule bans. Over any run of sweeps at the real weights and thresholds, starting from
  an empty ledger, in which at most 455 different links and issuers are judged (9 rules each, which is what the
  book of 4096 charges holds: past that the oldest charge is forgotten and a rule may charge again before its
  time), all the rules together never make a node hostile by what this node saw; and a node only one rule ever
  fires on is never even suspect, nor accused to the network, however long the rule goes on firing.\<close>
theorem rules_never_ban:
  assumes "finite S" "card S * 9 \<le> MAX_CHARGES" "\<forall>(t, e) \<in> set es. subjects_of e \<subseteq> S" "sorted (map fst es)"
    and run: "watch_run es (new_watch RULES UNIVERSAL_SHARE ISSUER_RULES RULE_RECHARGE) = (lg, w)"
    and g: "gd_rep g = new_reputation 8 20 RULE_RECHARGE m" "nid \<noteq> gd_id g"
    and out: "findings_run wall hold lg g = (out, g')"
  shows "rep_direct_standing (gd_rep g') nid t \<noteq> HOSTILE \<and>
    ((\<exists>i. \<forall>x \<in> set lg. charge_of nid x \<noteq> 0 \<longrightarrow> rule_of x = i) \<longrightarrow>
       rep_direct_standing (gd_rep g') nid t = OK \<and> Accuse nid sev k \<notin> set out)"
proof -
  let ?w = "new_watch RULES UNIVERSAL_SHARE ISSUER_RULES RULE_RECHARGE"
  let ?h = "RULE_RECHARGE"
  have h: "0 < ?h" by (simp add: RULE_RECHARGE_def)
  have rules: "wa_rules ?w = RULES" "wa_issuer_rules ?w = ISSUER_RULES" "wa_recharge ?w = ?h"
    by (simp_all add: new_watch_def RULE_RECHARGE_def)
  have sp: "spaced ?h lg"
    using watch_run_ok [OF new_watch_ok assms(3) _ _ run] assms(1,2)
    by (simp add: rules card_cartesian_product rule_ids_card)
  have fr: "sorted (map fst lg)" "from_rules (set RULES \<union> set ISSUER_RULES) (map snd lg)"
    using watch_run_from [OF run assms(4)] by (simp_all add: rules)
  have within: "worth_within (\<Sum>i \<in> I. 2 * weight_of i) ?h nid lg"
    if I: "finite I" "\<forall>x \<in> set lg. charge_of nid x \<noteq> 0 \<longrightarrow> rule_of x \<in> I" for I
    unfolding worth_within_def
  proof (intro allI impI)
    fix n T assume T: "\<forall>x \<in> set (take n lg). charge_of nid x \<noteq> 0 \<longrightarrow> fst x \<le> T"
    have "\<forall>x \<in> set (take n lg). charge_of nid x \<noteq> 0 \<longrightarrow>
      rule_of x \<in> I \<and> 0 \<le> charge_of nid x \<and> charge_of nid x \<le> weight_of (rule_of x) \<and> fst x \<le> T"
      using T I(2) charges_from [OF fr(2)] by (auto dest: in_set_takeD)
    then show "worth ?h nid T (take n lg) \<le> (\<Sum>i \<in> I. 2 * weight_of i)"
      by (intro worth_bound h spaced_take sp I(1)) (simp_all add: weight_of_def)
  qed
  have ends: "\<exists>T'. ledger_le ?h nid T' lg (gd_rep g') \<and> rp_suspect (gd_rep g') = 8 \<and> rp_hostile (gd_rep g') = 20 \<and>
      (worth_within b ?h nid lg \<and> b < 8 \<longrightarrow> Accuse nid sev k \<notin> set out)" for b
  proof -
    define T where "T = (if lg = [] then 0 else fst (hd lg))"
    have "ledger_le ?h nid T [] (gd_rep g)" and set: "rp_suspect (gd_rep g) = 8" "rp_hostile (gd_rep g) = 20"
      by (simp_all add: g ledger_le_def new_reputation_def RULE_RECHARGE_def)
    moreover have "\<forall>x \<in> set lg. 0 \<le> charge_of nid x \<and> T \<le> fst x"
      using charges_from [OF fr(2)] fr(1) by (cases lg) (auto simp: T_def)
    ultimately have "\<exists>T'. ledger_le ?h nid T' ([] @ lg) (gd_rep g') \<and>
      rp_suspect (gd_rep g') = rp_suspect (gd_rep g) \<and> rp_hostile (gd_rep g') = rp_hostile (gd_rep g) \<and>
      (worth_within b ?h nid ([] @ lg) \<and> b < rp_suspect (gd_rep g) \<and> b < rp_hostile (gd_rep g) \<longrightarrow>
         Accuse nid sev k \<notin> set out)"
      by (intro findings_run_ledger [OF _ h g(2) _ _ fr(1) out]) (assumption | simp)+
    with set show ?thesis by (auto intro: less_trans)
  qed
  have all: "worth_within 18 ?h nid lg"
    using within [of scoring_ids] charges_from [OF fr(2)]
    by (simp add: scoring_ids_def weight_of_def)
  obtain T' where T': "ledger_le ?h nid T' lg (gd_rep g')" "rp_suspect (gd_rep g') = 8" "rp_hostile (gd_rep g') = 20"
    using ends by blast
  have "rep_direct_standing (gd_rep g') nid t \<noteq> HOSTILE"
    using T'(3) worth_within_prefix [of 18 ?h nid lg "[]"] all
    by (intro direct_standing_below(2) [OF T'(1), of 18]) simp_all
  moreover have "rep_direct_standing (gd_rep g') nid t = OK \<and> Accuse nid sev k \<notin> set out"
    if one: "\<exists>i. \<forall>x \<in> set lg. charge_of nid x \<noteq> 0 \<longrightarrow> rule_of x = i"
  proof -
    obtain i where i: "\<forall>x \<in> set lg. charge_of nid x \<noteq> 0 \<longrightarrow> rule_of x = i" using one by blast
    let ?b = "2 * weight_of i"
    have b: "worth_within ?b ?h nid lg" using within [of "{i}"] i by simp
    have lt: "?b < 8" by (simp add: weight_of_def)
    have "rep_direct_standing (gd_rep g') nid t = OK"
      using T'(2,3) worth_within_prefix [of ?b ?h nid lg "[]"] b lt
      by (intro direct_standing_below(1) [OF T'(1), of ?b]) simp_all
    with ends [of ?b] b lt show ?thesis by blast
  qed
  ultimately show ?thesis by blast
qed

theorem rules_never_ban_witness:
  "\<exists>lg w out g'. watch_run [(0, Links [quiet_link]), (3600, Links [quiet_link])]
      (new_watch RULES UNIVERSAL_SHARE ISSUER_RULES RULE_RECHARGE) = (lg, w) \<and>
    findings_run 0 (\<lambda>_. 60) lg (demo_guard\<lparr> gd_rep := new_reputation 8 20 RULE_RECHARGE 10 \<rparr>) = (out, g') \<and>
    rep_direct_standing (gd_rep g') [1] 3600 \<noteq> HOSTILE"
proof -
  let ?g = "demo_guard\<lparr> gd_rep := new_reputation 8 20 RULE_RECHARGE 10 \<rparr>"
  obtain lg w where run: "watch_run [(0, Links [quiet_link]), (3600, Links [quiet_link])]
      (new_watch RULES UNIVERSAL_SHARE ISSUER_RULES RULE_RECHARGE) = (lg, w)" by force
  obtain out g' where out: "findings_run 0 (\<lambda>_. 60) lg ?g = (out, g')" by force
  have "rep_direct_standing (gd_rep g') [1] 3600 \<noteq> HOSTILE"
    using rules_never_ban [OF _ _ _ _ run _ _ out, of "{[1]}" 10 "[1]" 3600]
    by (simp add: quiet_link_def MAX_CHARGES_def demo_guard_def)
  with run out show ?thesis by blast
qed

end
