(* ===== verification/Traffic.thy ===== *)
theory Traffic
  imports Bytes Complex_Main
begin

text \<open>
  What applications say their traffic to one node needs (\<open>src/mesh/traffic.py\<close>): who declared
  \<open>realtime\<close> or \<open>bulk\<close> for which target, and until when.

  A \<open>TrafficProfiles\<close> object is its one dict, \<open>target -> {app_id: (profile, expires_at)}\<close>; times
  are reals. \<open>declare\<close> returns whether the declaration is held, beside the table; \<open>expire\<close> whether
  anything ran out. \<open>view\<close>, which renders the table for an operator, is left out.
\<close>

type_synonym app_entries = "(bytes, string \<times> real) odict"
type_synonym profiles = "(bytes, app_entries) odict"

definition REALTIME :: string where "REALTIME = ''realtime''"
definition BULK :: string where "BULK = ''bulk''"
definition PROFILES :: "string set" where "PROFILES = {REALTIME, BULK}"
definition TRAFFIC_DEFAULT_TTL :: real where "TRAFFIC_DEFAULT_TTL = 60"
definition TRAFFIC_MAX_TTL :: real where "TRAFFIC_MAX_TTL = 600"
definition MAX_PER_APP :: nat where "MAX_PER_APP = 64"
definition TRAFFIC_MAX_TARGETS :: nat where "TRAFFIC_MAX_TARGETS = 256"

definition clamp_traffic_ttl :: "real \<Rightarrow> real" where
  "clamp_traffic_ttl ttl = (if 0 < ttl then min (max ttl 1) TRAFFIC_MAX_TTL else TRAFFIC_DEFAULT_TTL)"

definition app_count :: "bytes \<Rightarrow> profiles \<Rightarrow> nat" where
  "app_count app held = length (filter (\<lambda>(_, entries). app \<in> fst ` set entries) held)"

definition alive_entries :: "real \<Rightarrow> app_entries \<Rightarrow> app_entries" where
  "alive_entries now = filter (\<lambda>(_, _, until). \<not> until \<le> now)"

definition traffic_expire :: "real \<Rightarrow> profiles \<Rightarrow> bool \<times> profiles" where
  "traffic_expire now held =
     (\<exists>(_, entries) \<in> set held. \<exists>(_, _, until) \<in> set entries. until \<le> now,
      filter (\<lambda>(_, entries). entries \<noteq> []) (map (map_prod id (alive_entries now)) held))"

definition traffic_drop :: "bytes \<Rightarrow> bytes \<Rightarrow> profiles \<Rightarrow> profiles" where
  "traffic_drop app target held =
     (case map_of held target of
        None \<Rightarrow> held
      | Some entries \<Rightarrow>
          (let entries = AList.delete app entries in
           if entries = [] then AList.delete target held else AList.update target entries held))"

definition traffic_declare ::
  "bytes \<Rightarrow> bytes \<Rightarrow> string option \<Rightarrow> real \<Rightarrow> real \<Rightarrow> profiles \<Rightarrow> bool \<times> profiles" where
  "traffic_declare app target profile ttl now held =
     (case profile of
        None \<Rightarrow> (True, traffic_drop app target held)
      | Some p \<Rightarrow>
          if p \<notin> PROFILES then (False, held)
          else
            (let ttl = clamp_traffic_ttl ttl;
                 held = snd (traffic_expire now held);
                 entries = map_of held target;
                 added = (case entries of None \<Rightarrow> True | Some es \<Rightarrow> app \<notin> fst ` set es) in
             if added \<and> (entries = None \<and> TRAFFIC_MAX_TARGETS \<le> length held \<or> MAX_PER_APP \<le> app_count app held)
             then (False, held)
             else (True, AList.update target
                     (AList.update app (p, now + ttl) (case entries of None \<Rightarrow> [] | Some es \<Rightarrow> es)) held)))"

definition traffic_forget_app :: "bytes \<Rightarrow> profiles \<Rightarrow> profiles" where
  "traffic_forget_app app held =
     fold (\<lambda>target h. snd (traffic_declare app target None 0 0 h)) (od_keys held) held"

definition traffic_of :: "bytes \<Rightarrow> profiles \<Rightarrow> string set" where
  "traffic_of target held =
     (case map_of held target of None \<Rightarrow> {} | Some entries \<Rightarrow> (\<lambda>(_, p, _). p) ` set entries)"

definition traffic_realtime :: "bytes \<Rightarrow> profiles \<Rightarrow> bool" where
  "traffic_realtime target held =
     (case map_of held target of None \<Rightarrow> False | Some entries \<Rightarrow> (\<exists>(_, p, _) \<in> set entries. p = REALTIME))"

definition traffic_targets :: "profiles \<Rightarrow> bytes list" where
  "traffic_targets held = od_keys held"

section \<open>The table's invariant\<close>

text \<open>Who has declared what: the abstract table.\<close>

definition declared :: "profiles \<Rightarrow> bytes \<Rightarrow> bytes \<Rightarrow> (string \<times> real) option" where
  "declared held target app =
     (case map_of held target of None \<Rightarrow> None | Some entries \<Rightarrow> map_of entries app)"

definition entries_ok :: "app_entries \<Rightarrow> bool" where
  "entries_ok es \<longleftrightarrow> od_ok es \<and> es \<noteq> []"

definition tp_ok :: "profiles \<Rightarrow> bool" where
  "tp_ok held \<longleftrightarrow> od_ok held \<and> od_all (\<lambda>_. entries_ok) held \<and> (\<forall>app. app_count app held \<le> MAX_PER_APP)"

lemma map_of_map_snd: "map_of (map (map_prod id f) d) k = map_option f (map_of d k)"
  by (induction d) auto

lemma map_of_filter_nonempty:
  "od_ok d \<Longrightarrow> map_of (filter (\<lambda>(_, es). es \<noteq> []) d) k =
     (case map_of d k of None \<Rightarrow> None | Some es \<Rightarrow> if es = [] then None else Some es)"
  by (induction d) (auto split: option.splits simp: image_iff dest!: map_of_mem)

lemma map_of_alive:
  "od_ok es \<Longrightarrow> map_of (alive_entries now es) a =
     (case map_of es a of None \<Rightarrow> None | Some (p, until) \<Rightarrow> if until \<le> now then None else Some (p, until))"
proof (induction es)
  case (Cons e es)
  have "map_of es (fst e) = None" using Cons.prems by (simp add: map_of_eq_None_iff)
  with Cons show ?case
    by (cases e) (auto simp: alive_entries_def simp del: map_of_eq_Some_iff)
qed (simp add: alive_entries_def)

lemma declared_expire:
  assumes "tp_ok held"
  shows "declared (snd (traffic_expire now held)) t a =
    (case declared held t a of None \<Rightarrow> None | Some (p, until) \<Rightarrow> if until \<le> now then None else Some (p, until))"
proof -
  have ok: "od_ok (map (map_prod id (alive_entries now)) held)"
    using assms by (simp add: tp_ok_def)
  show ?thesis
  proof (cases "map_of held t")
    case None
    then show ?thesis
      by (simp add: declared_def traffic_expire_def map_of_filter_nonempty [OF ok] map_of_map_snd)
  next
    case (Some es)
    with assms have "od_ok es" by (auto simp: tp_ok_def entries_ok_def dest: od_allD simp del: map_of_eq_Some_iff)
    from map_of_alive [OF this, of now a] Some show ?thesis
      by (auto simp: declared_def traffic_expire_def map_of_filter_nonempty [OF ok] map_of_map_snd
          simp del: map_of_eq_Some_iff split: option.splits)
  qed
qed

lemma app_count_le:
  "list_all2 (\<lambda>(_, es) (_, es'). fst ` set es' \<subseteq> fst ` set es) held held' \<Longrightarrow>
     app_count app (filter Q held') \<le> app_count app held"
proof (induction rule: list_all2_induct)
  case (Cons x xs y ys)
  then show ?case by (cases x; cases y) (auto simp: app_count_def)
qed (simp add: app_count_def)

lemma expire_ok:
  assumes "tp_ok held"
  shows "tp_ok (snd (traffic_expire now held))" "length (snd (traffic_expire now held)) \<le> length held"
proof -
  let ?m = "map (map_prod id (alive_entries now)) held"
  have "list_all2 (\<lambda>(_, es) (_, es'). fst ` set es' \<subseteq> fst ` set es) held ?m"
    by (induction held) (auto simp: alive_entries_def)
  from app_count_le [OF this] have "\<And>app. app_count app (snd (traffic_expire now held)) \<le> app_count app held"
    by (simp add: traffic_expire_def)
  then have "\<And>app. app_count app (snd (traffic_expire now held)) \<le> MAX_PER_APP"
    using assms order_trans by (fastforce simp: tp_ok_def)
  moreover have "od_ok (snd (traffic_expire now held))"
    using assms by (simp add: traffic_expire_def tp_ok_def)
  moreover have "od_all (\<lambda>_. entries_ok) (snd (traffic_expire now held))"
    using assms by (force simp: traffic_expire_def tp_ok_def od_all_def entries_ok_def alive_entries_def)
  ultimately show "tp_ok (snd (traffic_expire now held))" by (simp add: tp_ok_def)
  show "length (snd (traffic_expire now held)) \<le> length held"
    by (simp add: traffic_expire_def order_trans [OF length_filter_le])
qed

lemma app_count_drop_le: "app_count app (AList.delete t held) \<le> app_count app held"
  by (induction held) (auto simp: app_count_def)

lemma app_count_update_absent:
  "t \<notin> fst ` set held \<Longrightarrow>
     app_count app (AList.update t es held) = app_count app held + (if app \<in> fst ` set es then 1 else 0)"
  by (simp add: update_absent app_count_def)

lemma app_count_update_present:
  "od_ok held \<Longrightarrow> map_of held t = Some es \<Longrightarrow>
     app_count app (AList.update t es' held) + (if app \<in> fst ` set es then 1 else 0) =
     app_count app held + (if app \<in> fst ` set es' then 1 else 0)"
proof (induction held)
  case (Cons x held)
  show ?case
  proof (cases "fst x = t")
    case True
    with Cons.prems show ?thesis by (cases x) (auto simp: app_count_def)
  next
    case False
    with Cons show ?thesis by (cases x) (auto simp: app_count_def simp del: map_of_eq_Some_iff)
  qed
qed simp

lemma drop_ok:
  assumes "tp_ok held"
  shows "tp_ok (traffic_drop app target held)" "length (traffic_drop app target held) \<le> length held"
proof -
  have held: "od_ok held" "od_all (\<lambda>_. entries_ok) held" "\<And>a. app_count a held \<le> MAX_PER_APP"
    using assms by (simp_all add: tp_ok_def)
  show "tp_ok (traffic_drop app target held)"
  proof (cases "map_of held target")
    case None
    with assms show ?thesis by (simp add: traffic_drop_def)
  next
    case (Some es)
    have es: "od_ok es" using od_allD [OF held(2) Some] by (simp add: entries_ok_def)
    have "app_count a (AList.update target (AList.delete app es) held) \<le> app_count a held" for a
      using app_count_update_present [OF held(1) Some, of a "AList.delete app es"]
      by (auto simp: keys_delete split: if_splits)
    then have "app_count a (AList.update target (AList.delete app es) held) \<le> MAX_PER_APP" for a
      using held(3) order_trans by blast
    moreover have "app_count a (AList.delete target held) \<le> MAX_PER_APP" for a
      using held(3) app_count_drop_le order_trans by blast
    ultimately show ?thesis
      using held es Some
      by (auto simp: traffic_drop_def tp_ok_def Let_def entries_ok_def od_all_intros simp del: map_of_eq_Some_iff)
  qed
  show "length (traffic_drop app target held) \<le> length held"
    by (auto simp: traffic_drop_def Let_def length_update_present map_of_mem simp del: map_of_eq_Some_iff
        intro: order_trans [OF length_delete_le] split: option.splits)
qed

lemma declare_ok:
  assumes "tp_ok held" "length held \<le> TRAFFIC_MAX_TARGETS"
  shows "tp_ok (snd (traffic_declare app target profile ttl now held))"
    "length (snd (traffic_declare app target profile ttl now held)) \<le> TRAFFIC_MAX_TARGETS"
proof -
  define h where "h = snd (traffic_expire now held)"
  have h: "od_ok h" "od_all (\<lambda>_. entries_ok) h" "\<And>a. app_count a h \<le> MAX_PER_APP" "length h \<le> TRAFFIC_MAX_TARGETS"
    using expire_ok [OF assms(1), of now] assms(2) by (simp_all add: h_def tp_ok_def)
  define es where "es = (case map_of h target of None \<Rightarrow> [] | Some es \<Rightarrow> es)"
  define e where "e = (\<lambda>v. AList.update app v es)"
  have es: "od_ok es" using od_allD [OF h(2)]
    by (auto simp: es_def entries_ok_def simp del: map_of_eq_Some_iff split: option.splits)
  have new: "od_ok (AList.update target (e v) h) \<and> od_all (\<lambda>_. entries_ok) (AList.update target (e v) h)" for v
    using h es by (auto simp: e_def entries_ok_def od_all_intros update_nonempty)
  have keys: "fst ` set (e v) = insert app (fst ` set es)" for v by (simp add: e_def dom_update)
  have count: "app_count a (AList.update target (e v) h) \<le> MAX_PER_APP"
    if "app \<notin> fst ` set es \<longrightarrow> app_count app h < MAX_PER_APP" for a v
  proof (cases "map_of h target")
    case None
    then have "target \<notin> fst ` set h" "es = []" by (simp add: map_of_eq_None_iff) (simp add: None es_def)
    with app_count_update_absent [of target h a "e v"] that h(3) [of a] keys show ?thesis
      by (cases "a = app") auto
  next
    case (Some es')
    with app_count_update_present [OF h(1) Some, of a "e v"] that h(3) [of a] keys show ?thesis
      by (cases "a = app") (auto simp: es_def split: if_splits)
  qed
  have eq: "traffic_declare app target (Some p) ttl now held =
      (if p \<notin> PROFILES then (False, held)
       else if app \<notin> fst ` set es \<and> (map_of h target = None \<and> TRAFFIC_MAX_TARGETS \<le> length h \<or> MAX_PER_APP \<le> app_count app h)
       then (False, h) else (True, AList.update target (e (p, now + clamp_traffic_ttl ttl)) h))" for p
    by (simp add: traffic_declare_def h_def [symmetric] e_def es_def Let_def split: option.split)
  have eq_None: "traffic_declare app target None ttl now held = (True, traffic_drop app target held)"
    by (simp add: traffic_declare_def)
  have len: "length (AList.update target v h) \<le> TRAFFIC_MAX_TARGETS"
    if "map_of h target = None \<longrightarrow> length h < TRAFFIC_MAX_TARGETS" for v
    using that h(4) by (cases "map_of h target")
      (auto simp: length_update_present map_of_mem simp del: map_of_eq_Some_iff
        intro: order_trans [OF length_update_le])
  have absent: "app \<in> fst ` set es \<Longrightarrow> map_of h target \<noteq> None"
    by (cases "map_of h target") (simp_all add: es_def del: map_of_eq_Some_iff)
  show "tp_ok (snd (traffic_declare app target profile ttl now held))"
    using assms h new count drop_ok(1) [OF assms(1)]
    by (cases profile) (simp_all add: eq eq_None tp_ok_def del: map_of_eq_Some_iff)
  show "length (snd (traffic_declare app target profile ttl now held)) \<le> TRAFFIC_MAX_TARGETS"
    using assms h(4) len absent order_trans [OF drop_ok(2) [OF assms(1)] assms(2)]
    by (cases profile) (simp_all add: eq eq_None del: map_of_eq_Some_iff not_None_eq image_iff, auto)
qed

datatype traffic_op = Declare bytes bytes "string option" real real | Expire real

fun traffic_step :: "traffic_op \<Rightarrow> profiles \<Rightarrow> profiles" where
  "traffic_step (Declare app target profile ttl now) held = snd (traffic_declare app target profile ttl now held)"
| "traffic_step (Expire now) held = snd (traffic_expire now held)"

interpretation traffic: bounded_book length "\<lambda>_. TRAFFIC_MAX_TARGETS" traffic_step tp_ok
proof
  show "length (traffic_step e held) \<le> TRAFFIC_MAX_TARGETS" if "tp_ok held" "length held \<le> TRAFFIC_MAX_TARGETS" for held e
    using that declare_ok(2) order_trans [OF expire_ok(2)] by (cases e) auto
  show "tp_ok (traffic_step e held)" if "tp_ok held" "length held \<le> TRAFFIC_MAX_TARGETS" for held e
    using that declare_ok(1) expire_ok(1) by (cases e) auto
qed simp

lemma traffic_table_bounded:
  "length (fold traffic_step ops []) \<le> TRAFFIC_MAX_TARGETS \<and> app_count app (fold traffic_step ops []) \<le> MAX_PER_APP"
  using traffic.run_inv [of "[]" ops] by (auto simp: tp_ok_def app_count_def)

section \<open>What one application declares is its own\<close>

lemma declared_drop:
  assumes "od_ok held" "od_all (\<lambda>_. entries_ok) held"
  shows "declared (traffic_drop app target held) t a = (if t = target \<and> a = app then None else declared held t a)"
proof (cases "map_of held target")
  case None
  then show ?thesis by (auto simp: traffic_drop_def declared_def)
next
  case (Some es)
  have "a \<noteq> app \<Longrightarrow> AList.delete app es = [] \<Longrightarrow> map_of es a = None"
    using delete_conv' [of app es] by (metis fun_upd_apply map_of.simps(1))
  then show ?thesis
    using Some by (auto simp: traffic_drop_def declared_def Let_def delete_conv' odict_simps simp del: map_of_eq_Some_iff)
qed

text \<open>
  One application cannot push out another's declaration: whatever it declares or withdraws, for
  whatever target and however full the table is, every other live declaration stands unchanged.\<close>
theorem traffic_never_evicts:
  assumes "tp_ok held" "declared held t a = Some (p, until)" "now < until" "(t, a) \<noteq> (target, app)"
  shows "declared (snd (traffic_declare app target profile ttl now held)) t a = Some (p, until)"
proof (cases profile)
  case None
  with assms show ?thesis by (auto simp: traffic_declare_def declared_drop tp_ok_def)
next
  case (Some q)
  have "declared (snd (traffic_expire now held)) t a = Some (p, until)"
    using assms by (simp add: declared_expire)
  with assms Some show ?thesis
    by (auto simp: traffic_declare_def Let_def declared_def odict_simps simp del: map_of_eq_Some_iff
        split: option.splits)
qed

theorem traffic_never_evicts_witness:
  "declared (snd (traffic_declare [1] [9] None 0 5 [([9], [([1], (REALTIME, 60)), ([2], (BULK, 70))])])) [9] [2] =
     Some (BULK, 70)"
proof (rule traffic_never_evicts)
  show "tp_ok [([9], [([1], (REALTIME, 60)), ([2], (BULK, 70))])]"
    by (simp add: tp_ok_def entries_ok_def app_count_def MAX_PER_APP_def)
qed (simp_all add: declared_def)

lemma realtime_of: "traffic_realtime target held \<longleftrightarrow> REALTIME \<in> traffic_of target held"
  by (force simp: traffic_realtime_def traffic_of_def split: option.splits)

lemma declaration_held:
  assumes "fst (traffic_declare app target (Some p) ttl now held)"
  shows "declared (snd (traffic_declare app target (Some p) ttl now held)) target app =
    Some (p, now + clamp_traffic_ttl ttl)" "now < now + clamp_traffic_ttl ttl"
    "now + clamp_traffic_ttl ttl \<le> now + TRAFFIC_MAX_TTL"
  using assms
  by (auto simp: traffic_declare_def Let_def declared_def odict_simps clamp_traffic_ttl_def TRAFFIC_MAX_TTL_def
      TRAFFIC_DEFAULT_TTL_def simp del: map_of_eq_Some_iff split: if_splits)

lemma forget_app_declared:
  assumes "tp_ok held"
  shows "declared (traffic_forget_app app held) t a = (if a = app then None else declared held t a)"
proof -
  have "tp_ok h \<Longrightarrow>
      tp_ok (fold (\<lambda>target h. snd (traffic_declare app target None 0 0 h)) ts h) \<and>
      declared (fold (\<lambda>target h. snd (traffic_declare app target None 0 0 h)) ts h) t a =
        (if t \<in> set ts \<and> a = app then None else declared h t a)" for ts h
  proof (induction ts arbitrary: h)
    case (Cons x ts)
    have "tp_ok (traffic_drop app x h)" by (rule drop_ok(1) [OF Cons.prems])
    from Cons.IH [OF this] Cons.prems show ?case
      by (auto simp: traffic_declare_def declared_drop tp_ok_def)
  qed simp
  from this [OF assms, of "od_keys held"] show ?thesis
    by (auto simp: traffic_forget_app_def declared_def map_of_eq_None_iff simp del: map_of_eq_Some_iff
        split: option.splits dest: map_of_mem)
qed

end
