(* ===== verification/Links.thy ===== *)
theory Links
  imports Standing Mlo Routed Packet SeenSet Traffic "HOL-Library.Product_Lexorder"
begin

text \<open>
  The links of a node as its send path sees them (\<open>src/node.py\<close>, "choosing between the links to one
  node", and \<open>src/mesh/peers.py\<close>): the score of a link, the best link to an identity, one link per
  identity.

  A \<open>_Peer\<close> is named by its serial number, which is what object identity compares. \<open>prio l\<close> is what the
  transport manager's setting answers for the address of the link: \<open>None\<close> when that address has no
  scheme, \<open>Some None\<close> when asking raised; \<open>balance\<close> is the operator's weight of priority against
  latency, in percent. The cache of scores in \<open>_authenticated_peers\<close> is not a state of its own here: it
  holds the score of the link already chosen.
\<close>

definition LOSS_PENALTY_EXP :: nat where "LOSS_PENALTY_EXP = 4"
definition PRIORITY_SPAN :: int where "PRIORITY_SPAN = 254"
definition LATENCY_HALF_MS :: real where "LATENCY_HALF_MS = 25"

record scoring =
  sc_prio :: "link \<Rightarrow> int option option"
  sc_balance :: int

definition transport_priority :: "int option option \<Rightarrow> int" where
  "transport_priority setting =
     (case setting of
        None \<Rightarrow> - PRIORITY_SPAN
      | Some None \<Rightarrow> 0
      | Some (Some v) \<Rightarrow> max (- PRIORITY_SPAN) (min PRIORITY_SPAN v))"

definition address_score :: "int \<Rightarrow> int \<Rightarrow> real option \<Rightarrow> real" where
  "address_score balance prio ms =
     (let priority = real_of_int (prio + PRIORITY_SPAN) / real_of_int (2 * PRIORITY_SPAN);
          latency = (case ms of
              None \<Rightarrow> LATENCY_HALF_MS / (LATENCY_HALF_MS + LATENCY_HALF_MS)
            | Some m \<Rightarrow> if m < 0 then LATENCY_HALF_MS / (LATENCY_HALF_MS + LATENCY_HALF_MS)
                        else LATENCY_HALF_MS / (LATENCY_HALF_MS + m));
          weight = real_of_int (max 0 (min 100 balance)) / 100
      in weight * priority + (1 - weight) * latency)"

definition loss_factor :: "link \<Rightarrow> real" where
  "loss_factor l =
     (case (case lq_recent_loss 2 (lk_quality l) of None \<Rightarrow> lq_loss (lk_quality l) | Some x \<Rightarrow> Some x) of
        None \<Rightarrow> 1
      | Some loss \<Rightarrow> (max 0 (1 - loss)) ^ LOSS_PENALTY_EXP)"

definition link_score :: "scoring \<Rightarrow> link \<Rightarrow> real" where
  "link_score sc l =
     address_score (sc_balance sc) (transport_priority (sc_prio sc l)) (map_option (\<lambda>rtt. rtt * 1000) (lk_rtt l))
       * loss_factor l"

text \<open>A live link is authenticated and has a session; \<open>peer is exclude\<close> compares objects.\<close>

definition usable_link :: "nat option \<Rightarrow> link \<Rightarrow> bool" where
  "usable_link exclude l \<longleftrightarrow> exclude \<noteq> Some (lk_serial l) \<and> lk_id l \<noteq> None \<and> lk_session l"

fun best_link :: "scoring \<Rightarrow> link list \<Rightarrow> link option \<times> real \<Rightarrow> link option" where
  "best_link sc [] (best, best_score) = best"
| "best_link sc (l # ls) (best, best_score) =
     (if best_score < link_score sc l then best_link sc ls (Some l, link_score sc l)
      else best_link sc ls (best, best_score))"

definition link_to :: "scoring \<Rightarrow> nat option \<Rightarrow> node_id \<Rightarrow> link list \<Rightarrow> link option" where
  "link_to sc exclude target links =
     best_link sc (filter (\<lambda>l. usable_link exclude l \<and> lk_id l = Some target) links) (None, -1)"

fun keep_best :: "scoring \<Rightarrow> link list \<Rightarrow> (node_id, link) odict \<Rightarrow> (node_id, link) odict" where
  "keep_best sc [] best = best"
| "keep_best sc (l # ls) best =
     (case map_of best (the (lk_id l)) of
        None \<Rightarrow> keep_best sc ls (best @ [(the (lk_id l), l)])
      | Some held \<Rightarrow>
          keep_best sc ls (if link_score sc held < link_score sc l then AList.update (the (lk_id l)) l best else best))"

definition authenticated_peers :: "scoring \<Rightarrow> nat option \<Rightarrow> link list \<Rightarrow> link list" where
  "authenticated_peers sc exclude links = map snd (keep_best sc (filter (usable_link exclude) links) [])"

section \<open>Scores\<close>

lemma address_score_nonneg: "- PRIORITY_SPAN \<le> p \<Longrightarrow> 0 \<le> address_score b p ms"
  by (auto simp: address_score_def Let_def PRIORITY_SPAN_def LATENCY_HALF_MS_def split: option.splits
      intro!: add_nonneg_nonneg mult_nonneg_nonneg divide_nonneg_nonneg)

lemma transport_priority_range: "- PRIORITY_SPAN \<le> transport_priority s" "transport_priority s \<le> PRIORITY_SPAN"
  by (auto simp: transport_priority_def PRIORITY_SPAN_def split: option.splits)

lemma loss_factor_nonneg: "0 \<le> loss_factor l"
  by (auto simp: loss_factor_def split: option.splits)

lemma link_score_nonneg: "0 \<le> link_score sc l"
  by (simp add: link_score_def address_score_nonneg transport_priority_range loss_factor_nonneg)

lemma address_score_le_1: "p \<le> PRIORITY_SPAN \<Longrightarrow> address_score b p ms \<le> 1"
proof -
  assume p: "p \<le> PRIORITY_SPAN"
  define w where "w = real_of_int (max 0 (min 100 b)) / 100"
  define q where "q = real_of_int (p + PRIORITY_SPAN) / real_of_int (2 * PRIORITY_SPAN)"
  define t where "t = (case ms of
              None \<Rightarrow> LATENCY_HALF_MS / (LATENCY_HALF_MS + LATENCY_HALF_MS)
            | Some m \<Rightarrow> if m < 0 then LATENCY_HALF_MS / (LATENCY_HALF_MS + LATENCY_HALF_MS)
                        else LATENCY_HALF_MS / (LATENCY_HALF_MS + m))"
  have "0 \<le> w" "w \<le> 1" by (auto simp: w_def)
  moreover have "q \<le> 1" using p by (simp add: q_def PRIORITY_SPAN_def)
  moreover have "t \<le> 1" by (auto simp: t_def LATENCY_HALF_MS_def split: option.splits)
  ultimately have "w * q + (1 - w) * t \<le> w * 1 + (1 - w) * 1"
    by (intro add_mono mult_left_mono) auto
  then show ?thesis by (simp add: address_score_def Let_def w_def q_def t_def)
qed

lemma loss_factor_le_1:
  assumes "lq_ok (lk_quality l)"
  shows "loss_factor l \<le> 1"
proof -
  have "0 \<le> x" if "lq_recent_loss 2 (lk_quality l) = Some x" for x
    using that assms by (auto simp: lq_recent_loss_def lq_ok_def split: if_splits)
  moreover have "0 \<le> x" if "lq_loss (lk_quality l) = Some x" for x
    using that by (auto simp: lq_loss_def split: if_splits)
  ultimately show ?thesis
    by (auto simp: loss_factor_def split: option.splits intro!: power_le_one)
qed

lemma link_score_le_1: "lq_ok (lk_quality l) \<Longrightarrow> link_score sc l \<le> 1"
  using mult_mono [OF address_score_le_1 [OF transport_priority_range(2)] loss_factor_le_1]
  by (simp add: link_score_def loss_factor_nonneg)

section \<open>The best link\<close>

lemma best_link_in: "best_link sc ls (b, s) = Some l \<Longrightarrow> l \<in> set ls \<or> b = Some l"
  by (induction ls arbitrary: b s) (auto split: if_splits)

lemma best_link_None: "best_link sc ls (b, s) = None \<Longrightarrow> b = None \<and> (\<forall>l \<in> set ls. link_score sc l \<le> s)"
proof (induction ls arbitrary: b s)
  case (Cons x xs)
  then show ?case
    using Cons.IH [of "Some x" "link_score sc x"] Cons.IH [of b s]
    by (cases "s < link_score sc x") simp_all
qed simp

lemma best_link_above: "best_link sc ls (Some h, link_score sc h) = Some l \<Longrightarrow>
    link_score sc h \<le> link_score sc l \<and> (\<forall>k \<in> set ls. link_score sc k \<le> link_score sc l)"
proof (induction ls arbitrary: h)
  case (Cons x xs)
  show ?case
  proof (cases "link_score sc h < link_score sc x")
    case True
    with Cons.prems have "best_link sc xs (Some x, link_score sc x) = Some l" by simp
    from Cons.IH [OF this] True show ?thesis by auto
  next
    case False
    with Cons.prems have "best_link sc xs (Some h, link_score sc h) = Some l" by simp
    from Cons.IH [OF this] False show ?thesis by auto
  qed
qed simp

lemma best_link_start: "best_link sc (l # ls) (None, -1) = best_link sc ls (Some l, link_score sc l)"
  using link_score_nonneg [of sc l] by simp

lemma best_link_max:
  "best_link sc ls (None, -1) = Some l \<Longrightarrow> k \<in> set ls \<Longrightarrow> link_score sc k \<le> link_score sc l"
proof (cases ls)
  case (Cons x xs)
  assume "best_link sc ls (None, -1) = Some l" "k \<in> set ls"
  then show ?thesis using best_link_above [of sc xs x l] by (auto simp: Cons best_link_start simp del: best_link.simps)
qed simp

lemma best_link_ex: "best_link sc ls (None, -1) = None \<longleftrightarrow> ls = []"
proof (cases ls)
  case (Cons x xs)
  then show ?thesis
    using best_link_None [of sc xs "Some x" "link_score sc x"]
    by (auto simp: best_link_start simp del: best_link.simps)
qed simp

lemma link_to_Some:
  assumes "link_to sc exclude target links = Some l"
  shows "l \<in> set links" "usable_link exclude l" "lk_id l = Some target"
    "\<And>k. k \<in> set links \<Longrightarrow> usable_link exclude k \<Longrightarrow> lk_id k = Some target \<Longrightarrow> link_score sc k \<le> link_score sc l"
  using assms best_link_in [of sc _ None "-1" l] best_link_max [of sc _ l]
  by (fastforce simp: link_to_def)+

lemma link_to_None:
  "link_to sc exclude target links = None \<longleftrightarrow> (\<forall>l \<in> set links. usable_link exclude l \<longrightarrow> lk_id l \<noteq> Some target)"
  by (auto simp: link_to_def best_link_ex filter_empty_conv)

section \<open>One link per identity\<close>

lemma keep_best_map_of:
  "list_all (\<lambda>l. lk_id l \<noteq> None) ls \<Longrightarrow>
   map_of (keep_best sc ls best) n =
     best_link sc (filter (\<lambda>l. lk_id l = Some n) ls)
       (case map_of best n of None \<Rightarrow> (None, -1) | Some h \<Rightarrow> (Some h, link_score sc h))"
proof (induction ls arbitrary: best)
  case Nil
  then show ?case by (simp split: option.split)
next
  case (Cons l ls)
  obtain m where m: "lk_id l = Some m" using Cons.prems by auto
  show ?case
  proof (cases "map_of best m")
    case None
    have "map_of (best @ [(m, l)]) n = (if n = m then Some l else map_of best n)"
      using None by (auto simp: map_add_def split: option.splits)
    then show ?thesis
      using Cons None m by (auto simp: best_link_start simp del: best_link.simps)
  next
    case (Some held)
    then show ?thesis
      using Cons m by (auto simp: odict_simps)
  qed
qed

lemma keep_best_keys:
  "list_all (\<lambda>l. lk_id l \<noteq> None) ls \<Longrightarrow> od_ok best \<Longrightarrow> od_ok (keep_best sc ls best)"
proof (induction ls arbitrary: best)
  case (Cons l ls)
  then show ?case by (auto split: option.splits simp: map_of_eq_None_iff simp del: map_of_eq_Some_iff)
qed simp

text \<open>The two rules of the code agree: the link kept for an identity is the one \<open>_link_to\<close> answers.\<close>

lemma authenticated_peers_iff:
  "l \<in> set (authenticated_peers sc exclude links) \<longleftrightarrow>
     (\<exists>n. lk_id l = Some n \<and> link_to sc exclude n links = Some l)"
proof -
  let ?ls = "filter (usable_link exclude) links"
  let ?d = "keep_best sc ?ls []"
  have ids: "list_all (\<lambda>l. lk_id l \<noteq> None) ?ls" by (simp add: list_all_iff usable_link_def)
  have ok: "od_ok ?d" by (rule keep_best_keys [OF ids]) simp
  have get: "map_of ?d n = link_to sc exclude n links" for n
    using keep_best_map_of [OF ids, of sc "[]" n] by (simp add: link_to_def conj_commute)
  have "l \<in> snd ` set ?d \<longleftrightarrow> (\<exists>n. map_of ?d n = Some l)"
    using ok by force
  then show ?thesis
    using link_to_Some(3) by (force simp: authenticated_peers_def get)
qed

lemma authenticated_peers_distinct: "distinct (map lk_id (authenticated_peers sc exclude links))"
proof -
  let ?ls = "filter (usable_link exclude) links"
  let ?d = "keep_best sc ?ls []"
  have ids: "list_all (\<lambda>l. lk_id l \<noteq> None) ?ls" by (simp add: list_all_iff usable_link_def)
  have ok: "od_ok ?d" by (rule keep_best_keys [OF ids]) simp
  have "lk_id (snd p) = Some (fst p)" if "p \<in> set ?d" for p
  proof -
    have "map_of ?d (fst p) = Some (snd p)" by (rule map_of_is_SomeI [OF ok]) (simp add: that)
    then have "best_link sc (filter (\<lambda>l. lk_id l = Some (fst p)) ?ls) (None, -1) = Some (snd p)"
      by (simp only: keep_best_map_of [OF ids]) simp
    then show ?thesis using best_link_in by fastforce
  qed
  then have "map lk_id (authenticated_peers sc exclude links) = map Some (map fst ?d)"
    by (simp add: authenticated_peers_def)
  moreover have "distinct (map Some (map fst ?d))"
    by (rule iffD2 [OF distinct_map]) (intro conjI ok, simp add: inj_on_def)
  ultimately show ?thesis by (rule ssubst)
qed

lemma authenticated_peers_usable:
  "l \<in> set (authenticated_peers sc exclude links) \<Longrightarrow> l \<in> set links \<and> usable_link exclude l"
  using authenticated_peers_iff link_to_Some by blast

end
