(* ===== verification/Invites.thy ===== *)
theory Invites
  imports Standing Codecs
begin

text \<open>
  What a node keeps for the relayed invitation (\<open>src/node.py\<close>, \<open>src/invite.py\<close>): the three rate tables of
  the early handlers, the way back to each seeker (\<open>_rdv\<close>), the offers other nodes left (\<open>_offers\<close>), the
  seeks addressed to it (\<open>_pending_seeks\<close>), the tunnels that are open (\<open>_relay_peers\<close>, by the serial of the
  virtual peer) and the invite codes (\<open>InviteManager._codes\<close>: the text of a code, when it was made and for
  how long it lives). A peer is the serial number of its link.
\<close>

definition INVITE_SEEK :: int where "INVITE_SEEK = 0x14"
definition RELAY_CARRY :: int where "RELAY_CARRY = 0x15"
definition INVITE_OFFER :: int where "INVITE_OFFER = 0x30"
definition SEEK_MAX_FUTURE :: real where "SEEK_MAX_FUTURE = 3600"
definition SEEK_TTL_PREAUTH :: int where "SEEK_TTL_PREAUTH = 6"
definition SEEK_FANOUT :: nat where "SEEK_FANOUT = 2"
definition RDV_MAX :: nat where "RDV_MAX = 512"
definition RDV_TTL :: real where "RDV_TTL = 120"
definition SEEK_RATE_MAX :: nat where "SEEK_RATE_MAX = 20"
definition SEEK_RATE_WINDOW :: real where "SEEK_RATE_WINDOW = 10"
definition MAX_PENDING_SEEKS :: nat where "MAX_PENDING_SEEKS = 128"
definition CARRY_RATE_MAX :: nat where "CARRY_RATE_MAX = 256"
definition SHORT_SEEK_LEN :: nat where "SHORT_SEEK_LEN = 40"
definition OFFER_MAX :: nat where "OFFER_MAX = 256"
definition OFFER_RATE_MAX :: nat where "OFFER_RATE_MAX = 8"
definition SHORT_SEEK_GAP :: real where "SHORT_SEEK_GAP = 2"

record seek_offer =
  so_inviter :: bytes
  so_exp :: nat
  so_pub :: bytes
  so_token :: bytes
  so_last :: real

record pending_seek =
  ps_code :: bytes
  ps_known :: bool
  ps_link :: nat
  ps_at :: real

record invites =
  iv_seek_rate :: "(bytes, nat \<times> real) odict"
  iv_carry_rate :: "(bytes, nat \<times> real) odict"
  iv_offer_rate :: "(bytes, nat \<times> real) odict"
  iv_rdv :: "(bytes, nat \<times> real) odict"
  iv_offers :: "(bytes, seek_offer) odict"
  iv_pending :: "(bytes, pending_seek) odict"
  iv_relays :: "(bytes, nat) odict"
  iv_codes :: "(bytes, real \<times> real) odict"

section \<open>Rate limits\<close>

text \<open>The body the three limits share; it differs from \<open>gossip_allowed\<close> in the size of the table.\<close>

definition ingress_allowed ::
  "real \<Rightarrow> bytes \<Rightarrow> nat \<Rightarrow> (bytes, nat \<times> real) odict \<Rightarrow> bool \<times> (bytes, nat \<times> real) odict" where
  "ingress_allowed now key maximum table =
     (let table = od_trim RDV_MAX (filter (\<lambda>(_, _, ws). \<not> SEEK_RATE_WINDOW < now - ws) table);
          (cnt, ws) = (case map_of table key of None \<Rightarrow> (0, now) | Some v \<Rightarrow> v);
          (cnt, ws) = (if SEEK_RATE_WINDOW < now - ws then (0, now) else (cnt, ws))
      in if maximum \<le> cnt then (False, AList.update key (cnt, ws) table)
         else (True, AList.update key (Suc cnt, ws) table))"

definition seek_allowed :: "real \<Rightarrow> bytes \<Rightarrow> invites \<Rightarrow> bool \<times> invites" where
  "seek_allowed now key v =
     (let (ok, table) = ingress_allowed now key SEEK_RATE_MAX (iv_seek_rate v) in (ok, v\<lparr> iv_seek_rate := table \<rparr>))"

definition carry_allowed :: "real \<Rightarrow> bytes \<Rightarrow> invites \<Rightarrow> bool \<times> invites" where
  "carry_allowed now key v =
     (let (ok, table) = ingress_allowed now key CARRY_RATE_MAX (iv_carry_rate v) in (ok, v\<lparr> iv_carry_rate := table \<rparr>))"

definition offer_allowed :: "real \<Rightarrow> bytes \<Rightarrow> invites \<Rightarrow> bool \<times> invites" where
  "offer_allowed now key v =
     (let (ok, table) = ingress_allowed now key OFFER_RATE_MAX (iv_offer_rate v) in (ok, v\<lparr> iv_offer_rate := table \<rparr>))"

section \<open>The way back to a seeker\<close>

definition rdv_record :: "real \<Rightarrow> bytes \<Rightarrow> nat \<Rightarrow> invites \<Rightarrow> invites" where
  "rdv_record now seeker s v =
     v\<lparr> iv_rdv := od_trim (RDV_MAX - 1) (AList.delete seeker (iv_rdv v)) @ [(seeker, s, now + RDV_TTL)] \<rparr>"

text \<open>\<open>present\<close>: the serials of the node's links.\<close>

definition rdv_lookup :: "real \<Rightarrow> nat set \<Rightarrow> bytes \<Rightarrow> invites \<Rightarrow> nat option \<times> invites" where
  "rdv_lookup now present seeker v =
     (case map_of (iv_rdv v) seeker of
        None \<Rightarrow> (None, v)
      | Some (s, until) \<Rightarrow>
          (if until < now \<or> s \<notin> present then (None, v\<lparr> iv_rdv := AList.delete seeker (iv_rdv v) \<rparr>)
           else (Some s, v)))"

section \<open>Codes and offers\<close>

definition live_codes :: "real \<Rightarrow> (bytes, real \<times> real) odict \<Rightarrow> (bytes, real \<times> real) odict" where
  "live_codes now codes = filter (\<lambda>(_, created, window). \<not> window < now - created) codes"

definition recognize_seek :: "hash_env \<Rightarrow> real \<Rightarrow> bytes \<Rightarrow> invites \<Rightarrow> bool \<times> invites" where
  "recognize_seek h now h_code v =
     (let codes = live_codes now (iv_codes v)
      in (\<exists>(code, _) \<in> set codes. h_sha256 h code = h_code, v\<lparr> iv_codes := codes \<rparr>))"

definition prune_offers :: "real \<Rightarrow> invites \<Rightarrow> invites" where
  "prune_offers now v = v\<lparr> iv_offers := filter (\<lambda>(_, offer). \<not> real (so_exp offer) < now) (iv_offers v) \<rparr>"

definition file_offer :: "bytes \<Rightarrow> seek_offer \<Rightarrow> invites \<Rightarrow> invites" where
  "file_offer h_code offer v = v\<lparr> iv_offers := AList.update h_code offer (od_trim (OFFER_MAX - 1) (iv_offers v)) \<rparr>"

text \<open>The checks of a moment and of a signature that a seek and an offer share.\<close>

definition seek_in_time :: "real \<Rightarrow> nat \<Rightarrow> bool" where
  "seek_in_time now until \<longleftrightarrow> \<not> (real until < now \<or> now + SEEK_MAX_FUTURE < real until)"

definition seek_authorised :: "hash_env \<Rightarrow> verifier \<Rightarrow> bytes \<Rightarrow> nat \<Rightarrow> bytes \<Rightarrow> bytes \<Rightarrow> bytes \<Rightarrow> bool" where
  "seek_authorised h vf inviter until h_code pub token \<longleftrightarrow>
     node_id_from_public_key h pub = Inr inviter \<and>
     (case seek_signed_blob h_code (int until) of Inl _ \<Rightarrow> False | Inr blob \<Rightarrow> vf blob token pub)"

end
