(* ===== verification/Router.thy ===== *)
theory Router
  imports Links Invites
begin

text \<open>
  The send path of a routed packet (\<open>src/node.py\<close>): hints learned from traffic, the measured first hops
  and the lead one of them holds, bundles, the candidates of a target and their order, trying them one
  after the other, and the book of the ways a packet went.

  \<open>router\<close> is the part of \<open>MeshNode\<close> these methods read and write, around the \<open>guard\<close> of
  \<open>Standing\<close>, which holds the links. \<open>net\<close> is what one call reads from outside: the clocks, the hashes
  and signatures, the random tarpit times, the nonce of a packet it makes, and \<open>wire\<close>, how the transport of a link takes a packet:
  \<open>Sent\<close>, \<open>Busy\<close> for a \<open>LinkBusy\<close>, \<open>Broken\<close> for any other exception. One call is one step: what other
  tasks do while a send is awaited is not modelled. A peer is its serial number; a candidate list holds
  the links as they were when it was made. What leaves the node is a list of effects, in order: a packet
  on a link, a link torn down, a packet left to the task that looks for a route, a node worth dialling, a
  stop request handed to a link, a packet given to its handler, a task left to invite a seeker, a packet
  fed to a tunnel, an effect of the judgement.

  The reconnect book and the wake-ups of \<open>_end_link\<close> are the effect \<open>Ended\<close>; \<open>_note_neighbor_candidate\<close>
  is \<open>Candidate\<close>.
\<close>

definition ROUTE_SEND_FANOUT :: nat where "ROUTE_SEND_FANOUT = 5"
definition ROUTE_HINT_MAX :: nat where "ROUTE_HINT_MAX = 256"
definition ROUTE_HINT_TTL :: real where "ROUTE_HINT_TTL = 120"
definition FWD_BOOK_MAX :: nat where "FWD_BOOK_MAX = 4096"
definition ROUTE_LEADS_TRACKED :: nat where "ROUTE_LEADS_TRACKED = 256"
definition LOSS_RESCUE_SHARE :: real where "LOSS_RESCUE_SHARE = 1 / 5"
definition BROADCAST_ID :: bytes where "BROADCAST_ID = replicate 20 0xFF"
definition CONVERSATION_TYPES :: "int set" where "CONVERSATION_TYPES = {0x00, 0x0D, 0x0E}"
definition BLAKE2B_IDS :: feature where "BLAKE2B_IDS = ascii ''msgid_b2b''"

datatype outcome = Sent | Busy | Broken

record net =
  nt_clk :: real
  nt_wall :: real
  nt_hash :: hash_env
  nt_verify :: verifier
  nt_sign :: "bytes \<Rightarrow> bytes"
  nt_pub :: bytes
  nt_hold :: "nat \<Rightarrow> real"
  nt_nonce :: bytes
  nt_scoring :: scoring
  nt_wire :: "nat \<Rightarrow> packet \<Rightarrow> outcome"

datatype net_effect =
    Judged effect
  | Out nat packet
  | Ended nat
  | Defer packet "nat option"
  | Candidate node_id
  | Stop_out nat bytes
  | Handle int nat packet
  | Invited node_id nat
  | Fed bytes packet

text \<open>A bundle member: a direct link, or a routed path, which is its first hop.\<close>

datatype member = Direct nat | Via node_id

record stop_rule =
  su_until :: real
  su_record :: bytes
  su_told :: "(bytes, real) odict"
  su_charged :: "bytes set"

record stop_ask =
  sa_at :: real
  sa_until :: real
  sa_charged :: bool

record router =
  ro_guard :: guard
  ro_hints :: "(node_id, node_id \<times> real) odict"
  ro_paths :: path_book
  ro_leads :: "(node_id, node_id \<times> real) odict"
  ro_route_hold :: real
  ro_bundles :: "(node_id, member mlo_bundle) odict"
  ro_traffic :: profiles
  ro_seen :: seen_set
  ro_fwd :: "(int, bytes list \<times> bytes list) odict"
  ro_stop_rules :: "(bytes \<times> bytes, stop_rule) odict"
  ro_stops_asked :: "(bytes \<times> bytes, stop_ask) odict"
  ro_stop_rate :: "(bytes, nat \<times> real) odict"
  ro_total :: counters
  ro_invites :: invites

abbreviation ro_links :: "router \<Rightarrow> link list" where
  "ro_links r \<equiv> gd_links (ro_guard r)"

abbreviation ro_id :: "router \<Rightarrow> node_id" where
  "ro_id r \<equiv> gd_id (ro_guard r)"

definition set_links :: "link list \<Rightarrow> router \<Rightarrow> router" where
  "set_links ls r = r\<lparr> ro_guard := (ro_guard r)\<lparr> gd_links := ls \<rparr> \<rparr>"

definition find_link :: "nat \<Rightarrow> router \<Rightarrow> link option" where
  "find_link s r = List.find (\<lambda>l. lk_serial l = s) (ro_links r)"

definition change_link :: "nat \<Rightarrow> (link \<Rightarrow> link) \<Rightarrow> router \<Rightarrow> router" where
  "change_link s f r = set_links (map (\<lambda>l. if lk_serial l = s then f l else l) (ro_links r)) r"

abbreviation best_to :: "net \<Rightarrow> nat option \<Rightarrow> node_id \<Rightarrow> router \<Rightarrow> link option" where
  "best_to n exclude target r \<equiv> link_to (nt_scoring n) exclude target (ro_links r)"

section \<open>Hints and measured first hops\<close>

definition learn_reverse_path :: "net \<Rightarrow> link \<Rightarrow> packet \<Rightarrow> router \<Rightarrow> net_effect list \<times> router" where
  "learn_reverse_path n l p r =
     (if lk_id l = None \<or> p_dst_id p = BROADCAST_ID then ([], r)
      else
        (let src = p_src_id p in
         if src = ro_id r then ([], r)
         else if lk_id l = Some src then ([], r\<lparr> ro_hints := AList.delete src (ro_hints r) \<rparr>)
         else ([Candidate src],
               r\<lparr> ro_hints := od_trim ROUTE_HINT_MAX
                   (od_to_end src (AList.update src (the (lk_id l), nt_clk n) (ro_hints r))) \<rparr>)))"

definition forget_route_hint :: "node_id \<Rightarrow> router \<Rightarrow> router" where
  "forget_route_hint target r = r\<lparr> ro_hints := AList.delete target (ro_hints r) \<rparr>"

definition forget_hints_via :: "node_id option \<Rightarrow> router \<Rightarrow> router" where
  "forget_hints_via node r =
     (case node of
        None \<Rightarrow> r
      | Some via \<Rightarrow> r\<lparr> ro_hints := filter (\<lambda>(_, v, _). v \<noteq> via) (ro_hints r) \<rparr>)"

definition route_hint_peer :: "net \<Rightarrow> node_id \<Rightarrow> nat option \<Rightarrow> router \<Rightarrow> link option \<times> router" where
  "route_hint_peer n target exclude r =
     (case map_of (ro_hints r) target of
        None \<Rightarrow> (None, r)
      | Some (via, seen_at) \<Rightarrow>
          if ROUTE_HINT_TTL < nt_clk n - seen_at then (None, r\<lparr> ro_hints := AList.delete target (ro_hints r) \<rparr>)
          else (best_to n exclude via r, r))"

definition lead_through :: "node_id \<Rightarrow> node_id \<Rightarrow> real \<Rightarrow> router \<Rightarrow> node_id option \<times> router" where
  "lead_through target via now r =
     (Some via, r\<lparr> ro_leads := od_trim ROUTE_LEADS_TRACKED (od_put_last target (via, now) (ro_leads r)) \<rparr>)"

definition healthy_path :: "path \<Rightarrow> bool" where
  "healthy_path p \<longleftrightarrow> (case path_loss p of None \<Rightarrow> 0 | Some l \<Rightarrow> l) \<le> LOSS_RESCUE_SHARE"

text \<open>The choice among the paths that live and those that are healthy; \<open>live\<close> is not empty.\<close>

definition choose_lead :: "net \<Rightarrow> node_id \<Rightarrow> path list \<Rightarrow> path list \<Rightarrow> router \<Rightarrow> node_id option \<times> router" where
  "choose_lead n target live healthy r =
     (let stamp = nt_clk n; pick = pa_via (hd (if healthy = [] then live else healthy)) in
      case map_of (ro_leads r) target of
        None \<Rightarrow> lead_through target pick stamp r
      | Some (via, since) \<Rightarrow>
          (if \<not> (\<exists>p \<in> set healthy. pa_via p = via) then lead_through target pick stamp r
           else if stamp - since < ro_route_hold r then (Some via, r)
           else
             (case filter (\<lambda>p. pa_via p \<noteq> via) healthy of
                [] \<Rightarrow> (Some via, r\<lparr> ro_leads := AList.update target (via, stamp) (ro_leads r) \<rparr>)
              | q # _ \<Rightarrow> lead_through target (pa_via q) stamp r)))"

definition route_lead :: "net \<Rightarrow> node_id \<Rightarrow> router \<Rightarrow> node_id option \<times> router" where
  "route_lead n target r =
     (if ro_route_hold r \<le> 0 then (None, r)
      else
        (let live = filter (\<lambda>p. best_to n None (pa_via p) r \<noteq> None) (live_paths target (ro_paths r)) in
         if live = [] then (None, r\<lparr> ro_leads := AList.delete target (ro_leads r) \<rparr>)
         else choose_lead n target live (filter healthy_path live) r))"

definition add_hop :: "link option \<Rightarrow> link list \<Rightarrow> link list" where
  "add_hop l out =
     (case l of None \<Rightarrow> out | Some l \<Rightarrow> if lk_serial l \<in> lk_serial ` set out then out else out @ [l])"

definition measured_first_hops :: "net \<Rightarrow> node_id \<Rightarrow> nat option \<Rightarrow> router \<Rightarrow> link list \<times> router" where
  "measured_first_hops n target exclude r =
     (if \<not> has_path target (ro_paths r) then ([], r)
      else
        (let (lead, r) = route_lead n target r;
             out = (case lead of None \<Rightarrow> [] | Some via \<Rightarrow> add_hop (best_to n exclude via r) []);
             out = foldl (\<lambda>out p. add_hop (best_to n exclude (pa_via p) r) out) out (live_paths target (ro_paths r))
         in (out, r)))"

section \<open>The candidates of a target\<close>

definition member_peer :: "net \<Rightarrow> member \<Rightarrow> nat option \<Rightarrow> router \<Rightarrow> link option" where
  "member_peer n m exclude r =
     (case m of
        Via via \<Rightarrow> best_to n exclude via r
      | Direct s \<Rightarrow>
          (case find_link s r of
             None \<Rightarrow> None
           | Some l \<Rightarrow> if exclude = Some s \<or> \<not> lk_session l then None else Some l))"

definition stripe :: "net \<Rightarrow> node_id \<Rightarrow> link list \<Rightarrow> nat option \<Rightarrow> router \<Rightarrow> link list \<times> router" where
  "stripe n target peers exclude r =
     (if ro_bundles r = [] \<or> peers = [] then (peers, r)
      else case map_of (ro_bundles r) target of
        None \<Rightarrow> (peers, r)
      | Some bundle \<Rightarrow>
          (if \<not> bundle_active bundle then (peers, r)
           else if ro_traffic r \<noteq> [] \<and> traffic_realtime target (ro_traffic r) then (peers, r)
           else
             (let (turn, bundle) = next_key bundle;
                  r = r\<lparr> ro_bundles := AList.update target bundle (ro_bundles r) \<rparr>
              in case turn of
                   None \<Rightarrow> (peers, r)
                 | Some m \<Rightarrow>
                     (case member_peer n m exclude r of
                        None \<Rightarrow> (peers, r)
                      | Some lead \<Rightarrow>
                          (if lk_serial lead = lk_serial (hd peers) then (peers, r)
                           else (lead # filter (\<lambda>l. lk_serial l \<noteq> lk_serial lead) peers, r))))))"

text \<open>The order of the guess: a link to the target itself first, then by distance.\<close>

definition hop_key :: "node_id \<Rightarrow> link \<Rightarrow> nat \<times> nat" where
  "hop_key target l = (if lk_id l = Some target then 0 else 1, distance target (the (lk_id l)))"

definition without_ids :: "link list \<Rightarrow> link list \<Rightarrow> link list" where
  "without_ids chosen = filter (\<lambda>l. lk_id l \<notin> lk_id ` set chosen)"

definition ordered_hops :: "net \<Rightarrow> node_id \<Rightarrow> nat option \<Rightarrow> router \<Rightarrow> link list \<times> router" where
  "ordered_hops n target exclude r =
     (let peers = take ROUTE_SEND_FANOUT
            (sort_key (hop_key target) (authenticated_peers (nt_scoring n) exclude (ro_links r)))
      in if peers \<noteq> [] \<and> lk_id (hd peers) = Some target then (peers, r)
         else
           (let (hops, r) = measured_first_hops n target exclude r in
            if hops \<noteq> [] then (hops @ without_ids hops peers, r)
            else
              (let (hint, r) = route_hint_peer n target exclude r
               in (case hint of None \<Rightarrow> peers | Some l \<Rightarrow> l # without_ids [l] peers, r))))"

definition route_candidates :: "net \<Rightarrow> node_id \<Rightarrow> nat option \<Rightarrow> router \<Rightarrow> link list \<times> router" where
  "route_candidates n target exclude r =
     (let (peers, r) = ordered_hops n target exclude r
      in stripe n target (take ROUTE_SEND_FANOUT peers) exclude r)"

section \<open>Sending\<close>

definition msg_id_algorithm :: "link \<Rightarrow> id_algorithm" where
  "msg_id_algorithm l =
     (case lk_agreed l of
        None \<Rightarrow> MSG_ID_SHA256
      | Some agreed \<Rightarrow> if BLAKE2B_IDS \<in> agreed then MSG_ID_BLAKE2B else MSG_ID_SHA256)"

definition count_out :: "nat \<Rightarrow> link \<Rightarrow> link" where
  "count_out nbytes l =
     l\<lparr> lk_counts := (lk_counts l)\<lparr> ob_packets_out := ob_packets_out (lk_counts l) + 1,
                                   ob_bytes_out := ob_bytes_out (lk_counts l) + int nbytes \<rparr> \<rparr>"

definition packet_bytes :: "packet \<Rightarrow> nat" where
  "packet_bytes p = HEADER_SIZE + length (p_payload p)"

definition peer_send :: "net \<Rightarrow> packet \<Rightarrow> link \<Rightarrow> router \<Rightarrow> outcome \<times> net_effect list \<times> router" where
  "peer_send n p l r =
     (case fst (packet_for_link (nt_hash n) (msg_id_algorithm l) p) of
        Inl _ \<Rightarrow> (Broken, [], r)
      | Inr q \<Rightarrow>
          (case nt_wire n (lk_serial l) q of
             Sent \<Rightarrow> (Sent, [Out (lk_serial l) q],
               (change_link (lk_serial l) (count_out (packet_bytes q)) r)
                 \<lparr> ro_total := counters_on_out (packet_bytes q) (ro_total r) \<rparr>)
           | Busy \<Rightarrow> (Busy, [], r)
           | Broken \<Rightarrow> (Broken, [], r)))"

definition forget_bundle :: "link \<Rightarrow> router \<Rightarrow> router" where
  "forget_bundle l r =
     (case lk_id l of None \<Rightarrow> r | Some node \<Rightarrow> r\<lparr> ro_bundles := AList.delete node (ro_bundles r) \<rparr>)"

definition end_link :: "link \<Rightarrow> router \<Rightarrow> net_effect list \<times> router" where
  "end_link l r =
     (let r = set_links (filter (\<lambda>k. lk_serial k \<noteq> lk_serial l) (ro_links r)) r;
          r = forget_hints_via (lk_id l) r;
          r = (case lk_id l of None \<Rightarrow> r | Some via \<Rightarrow> r\<lparr> ro_paths := snd (forget_via via (ro_paths r)) \<rparr>)
      in ([Ended (lk_serial l)], forget_bundle l r))"

fun send_to_candidates ::
  "net \<Rightarrow> packet \<Rightarrow> packet \<Rightarrow> link list \<Rightarrow> router \<Rightarrow> link option \<times> net_effect list \<times> router" where
  "send_to_candidates n p outgoing [] r = (None, [], r)"
| "send_to_candidates n p outgoing (l # ls) r =
     (let (sent, out, r) = peer_send n outgoing l r in
      case sent of
        Sent \<Rightarrow> (Some l, out,
          if p_type p \<in> CONVERSATION_TYPES then change_link (lk_serial l) (\<lambda>k. k\<lparr> lk_last_used := nt_clk n \<rparr>) r
          else r)
      | Busy \<Rightarrow> (let (res, rest, r) = send_to_candidates n p outgoing ls r in (res, out @ rest, r))
      | Broken \<Rightarrow>
          (let (gone, r) = end_link l r;
               (res, rest, r) = send_to_candidates n p outgoing ls r
           in (res, out @ gone @ rest, r)))"

section \<open>Forwarding\<close>

definition hold_way :: "bytes \<Rightarrow> bytes list \<Rightarrow> bytes list" where
  "hold_way raw held = (if raw \<notin> set held \<and> length held \<le> ROUTE_SEND_FANOUT then held @ [raw] else held)"

definition note_forwarded :: "int option \<Rightarrow> link \<Rightarrow> link \<Rightarrow> router \<Rightarrow> router" where
  "note_forwarded key arrived sent_to r =
     (case (key, lk_id arrived, lk_id sent_to) of
        (Some k, Some a, Some s) \<Rightarrow>
          (let book = (if map_of (ro_fwd r) k = None then od_trim (FWD_BOOK_MAX - 1) (ro_fwd r) @ [(k, [], [])]
                       else ro_fwd r);
               (from, to) = the (map_of book k)
           in r\<lparr> ro_fwd := AList.update k (hold_way a from, hold_way s to) book \<rparr>)
      | _ \<Rightarrow> r)"

definition relayed :: "packet \<Rightarrow> router \<Rightarrow> router" where
  "relayed p r = r\<lparr> ro_total := counters_on_relay (packet_bytes p) (ro_total r) \<rparr>"

text \<open>The neighbours a copy that came back may still take, and the book once it took one.\<close>

definition reroute_pool :: "net \<Rightarrow> link \<Rightarrow> packet \<Rightarrow> bytes set \<Rightarrow> router \<Rightarrow> link list" where
  "reroute_pool n l p skip r =
     take ROUTE_SEND_FANOUT (sort_key (\<lambda>k. distance (p_dst_id p) (the (lk_id k)))
       (filter (\<lambda>k. the (lk_id k) \<notin> skip) (authenticated_peers (nt_scoring n) (Some (lk_serial l)) (ro_links r))))"

definition set_ways :: "int \<Rightarrow> bytes list \<Rightarrow> bytes list \<Rightarrow> router \<Rightarrow> router" where
  "set_ways key arrived sent r = r\<lparr> ro_fwd := AList.update key (arrived, sent) (ro_fwd r) \<rparr>"

definition rerouted :: "packet \<Rightarrow> int \<Rightarrow> bytes list \<Rightarrow> bytes list \<Rightarrow> link option \<Rightarrow> router \<Rightarrow> router" where
  "rerouted p key arrived sent res r =
     (case res of
        None \<Rightarrow> r
      | Some k \<Rightarrow> (case lk_id k of None \<Rightarrow> r | Some to \<Rightarrow> relayed p (set_ways key arrived (sent @ [to]) r)))"

definition reroute_copy ::
  "net \<Rightarrow> link \<Rightarrow> packet \<Rightarrow> int \<Rightarrow> bytes list \<Rightarrow> bytes list \<Rightarrow> router \<Rightarrow> net_effect list \<times> router" where
  "reroute_copy n l p key arrived sent r =
     (let r = set_ways key arrived sent r in
      case packet_with_decremented_ttl p of
        Inl _ \<Rightarrow> ([], r)
      | Inr outgoing \<Rightarrow>
          (let (res, out, r) = send_to_candidates n p outgoing (reroute_pool n l p (set arrived \<union> set sent) r) r
           in (out, rerouted p key arrived sent res r)))"

definition reroute_looped :: "net \<Rightarrow> link \<Rightarrow> packet \<Rightarrow> int \<Rightarrow> router \<Rightarrow> net_effect list \<times> router" where
  "reroute_looped n l p key r =
     (case (map_of (ro_fwd r) key, lk_id l) of
        (Some (arrived, sent), Some via) \<Rightarrow>
          (if p_ttl p \<le> 1 \<or> via \<in> set arrived \<or> ROUTE_SEND_FANOUT \<le> length sent
              \<or> ROUTE_SEND_FANOUT < length arrived then ([], r)
           else reroute_copy n l p key (arrived @ [via]) sent r)
      | _ \<Rightarrow> ([], r))"

definition forward_packet :: "net \<Rightarrow> link \<Rightarrow> packet \<Rightarrow> int option \<Rightarrow> router \<Rightarrow> net_effect list \<times> router" where
  "forward_packet n l p key r =
     (if p_ttl p \<le> 1 then ([], r)
      else
        (let (candidates, r) = route_candidates n (p_dst_id p) (Some (lk_serial l)) r in
         case packet_with_decremented_ttl p of
           Inl _ \<Rightarrow> ([], r)
         | Inr outgoing \<Rightarrow>
             (case send_to_candidates n p outgoing candidates r of
                (Some sent, out, r) \<Rightarrow> (out, note_forwarded key l sent (relayed p r))
              | (None, out, r) \<Rightarrow> (out @ [Defer p (Some (lk_serial l))], r))))"

text \<open>The task behind \<open>Defer\<close>, once \<open>_ensure_route_to\<close> has answered \<open>acquired\<close>.\<close>

definition deferred_route_task ::
  "net \<Rightarrow> packet \<Rightarrow> bool \<Rightarrow> nat option \<Rightarrow> link option \<Rightarrow> router \<Rightarrow> net_effect list \<times> router" where
  "deferred_route_task n p decrement exclude acquired r =
     (let (candidates, r) =
            (case acquired of
               Some l \<Rightarrow> if exclude \<noteq> Some (lk_serial l) then ([l], r) else route_candidates n (p_dst_id p) exclude r
             | None \<Rightarrow> route_candidates n (p_dst_id p) exclude r)
      in case (if decrement then packet_with_decremented_ttl p else Inr p) of
           Inl _ \<Rightarrow> ([], r)
         | Inr outgoing \<Rightarrow> snd (send_to_candidates n p outgoing candidates r))"

end
