(* ===== verification/Seeking.thy ===== *)
theory Seeking
  imports Router
begin

text \<open>
  The early handlers of the relayed invitation (\<open>src/node.py\<close>): a seek, short or in full, an offer left by
  an inviter, a tunnelled packet, and \<open>_forward_seek\<close>, which hands one packet to two neighbours when it
  has no link to the target. They run before the gates of the door, so each starts with its own limits.

  \<open>Invited seeker link\<close> is the task \<open>_start_relay_invite\<close> left behind, \<open>Fed seeker packet\<close> a packet put in
  the queue of the tunnel to a seeker. An exception of a send ends the call, except in the fan-out, which
  goes on with the next neighbour.
\<close>

definition set_invites :: "invites \<Rightarrow> router \<Rightarrow> router" where
  "set_invites v r = r\<lparr> ro_invites := v \<rparr>"

text \<open>\<open>replay_key\<close> and \<open>_is_seen\<close>: the packet with the ids it computed, when it is new.\<close>

definition first_sight :: "net \<Rightarrow> packet \<Rightarrow> router \<Rightarrow> packet option \<times> router" where
  "first_sight n p r =
     (case packet_replay_key (nt_hash n) p of
        (Inl _, _) \<Rightarrow> (None, r)
      | (Inr None, _) \<Rightarrow> (None, r)
      | (Inr (Some key), p) \<Rightarrow>
          (case is_seen (ro_seen r) key of
             None \<Rightarrow> (None, r)
           | Some (dup, seen) \<Rightarrow> (if dup then None else Some p, r\<lparr> ro_seen := seen \<rparr>)))"

section \<open>Forwarding a seek\<close>

fun send_each :: "net \<Rightarrow> packet \<Rightarrow> link list \<Rightarrow> router \<Rightarrow> net_effect list \<times> router" where
  "send_each n outgoing [] r = ([], r)"
| "send_each n outgoing (l # ls) r =
     (let (_, out, r) = peer_send n outgoing l r; (rest, r) = send_each n outgoing ls r in (out @ rest, r))"

definition seek_budget :: "link \<Rightarrow> packet \<Rightarrow> packet result" where
  "seek_budget l p =
     (if lk_id l = None \<and> SEEK_TTL_PREAUTH < p_ttl p then packet_with_ttl SEEK_TTL_PREAUTH p else Inr p)"

definition seek_candidates :: "link \<Rightarrow> bytes \<Rightarrow> router \<Rightarrow> link list" where
  "seek_candidates l target r =
     take SEEK_FANOUT (sort_key (\<lambda>k. distance target (the (lk_id k)))
       (filter (usable_link (Some (lk_serial l))) (ro_links r)))"

definition forward_seek :: "net \<Rightarrow> link \<Rightarrow> packet \<Rightarrow> router \<Rightarrow> net_effect list \<times> router" where
  "forward_seek n l p r =
     (if p_ttl p \<le> 1 then ([], r)
      else
        (case rbind (seek_budget l p) packet_with_decremented_ttl of
           Inl _ \<Rightarrow> ([], r)
         | Inr outgoing \<Rightarrow>
             (case best_to n (Some (lk_serial l)) (p_dst_id p) r of
                Some direct \<Rightarrow> send_each n outgoing [direct] r
              | None \<Rightarrow> send_each n outgoing (seek_candidates l (p_dst_id p) r) r)))"

section \<open>A seek\<close>

definition handle_short_seek :: "net \<Rightarrow> link \<Rightarrow> packet \<Rightarrow> router \<Rightarrow> net_effect list \<times> router" where
  "handle_short_seek n l p r =
     (let until = be_val (slice 0 8 (p_payload p)); h_code = slice 8 SHORT_SEEK_LEN (p_payload p);
          v = ro_invites r in
      if \<not> seek_in_time (nt_wall n) until then ([], r)
      else
        (case map_of (iv_offers v) h_code of
           None \<Rightarrow> ([], r)
         | Some offer \<Rightarrow>
             (if real (so_exp offer) < nt_wall n
              then ([], set_invites (v\<lparr> iv_offers := AList.delete h_code (iv_offers v) \<rparr>) r)
              else if p_dst_id p \<noteq> so_inviter offer \<or> p_src_id p = so_inviter offer then ([], r)
              else if nt_clk n - so_last offer < SHORT_SEEK_GAP then ([], r)
              else
                (let v = v\<lparr> iv_offers := AList.update h_code (offer\<lparr> so_last := nt_clk n \<rparr>) (iv_offers v) \<rparr>;
                     r = set_invites (rdv_record (nt_clk n) (p_src_id p) (lk_serial l) v) r
                 in case rbind (encode_seek (int (so_exp offer)) h_code (so_pub offer) (so_token offer))
                        (new_packet 1 INVITE_SEEK SEEK_TTL_PREAUTH (p_src_id p) (so_inviter offer) None (nt_nonce n)
                           (replicate 16 0)) of
                      Inl _ \<Rightarrow> ([], r)
                    | Inr full \<Rightarrow> forward_seek n l full r))))"

definition on_seek_for_self :: "net \<Rightarrow> link \<Rightarrow> bytes \<Rightarrow> bytes \<Rightarrow> router \<Rightarrow> net_effect list \<times> router" where
  "on_seek_for_self n l seeker h_code r =
     (let (recognized, v) = recognize_seek (nt_hash n) (nt_wall n) h_code (ro_invites r);
          pending = AList.update seeker
            \<lparr> ps_code = h_code, ps_known = recognized, ps_link = lk_serial l, ps_at = nt_clk n \<rparr>
            (od_trim (MAX_PENDING_SEEKS - 1) (iv_pending v))
      in (if recognized \<and> map_of (iv_relays v) seeker = None then [Invited seeker (lk_serial l)] else [],
          set_invites (v\<lparr> iv_pending := pending \<rparr>) r))"

definition take_seek :: "net \<Rightarrow> link \<Rightarrow> packet \<Rightarrow> router \<Rightarrow> net_effect list \<times> router" where
  "take_seek n l p r =
     (case decode_seek (p_payload p) of
        None \<Rightarrow> ([], r)
      | Some (until, h_code, pub, token) \<Rightarrow>
          (if \<not> seek_in_time (nt_wall n) until then ([], r)
           else if p_src_id p = ro_id r then ([], r)
           else if \<not> seek_authorised (nt_hash n) (nt_verify n) (p_dst_id p) until h_code pub token then ([], r)
           else
             (let r = set_invites (rdv_record (nt_clk n) (p_src_id p) (lk_serial l) (ro_invites r)) r in
              if p_dst_id p = ro_id r then on_seek_for_self n l (p_src_id p) h_code r
              else forward_seek n l p r)))"

definition handle_invite_seek :: "net \<Rightarrow> link \<Rightarrow> packet \<Rightarrow> router \<Rightarrow> net_effect list \<times> router" where
  "handle_invite_seek n l p r =
     (if p_ttl p \<le> 0 then ([], r)
      else
        (let (ok, v) = seek_allowed (nt_clk n) (rate_key l) (ro_invites r); r = set_invites v r in
         if \<not> ok then ([], r)
         else
           (case first_sight n p r of
              (None, r) \<Rightarrow> ([], r)
            | (Some p, r) \<Rightarrow>
                (if length (p_payload p) = SHORT_SEEK_LEN then handle_short_seek n l p r else take_seek n l p r))))"

section \<open>An offer, a tunnelled packet\<close>

definition take_offer :: "net \<Rightarrow> packet \<Rightarrow> invites \<Rightarrow> invites" where
  "take_offer n p v =
     (case decode_seek (p_payload p) of
        None \<Rightarrow> v
      | Some (until, h_code, pub, token) \<Rightarrow>
          (if seek_in_time (nt_wall n) until \<and>
              seek_authorised (nt_hash n) (nt_verify n) (p_src_id p) until h_code pub token
           then file_offer h_code
             \<lparr> so_inviter = p_src_id p, so_exp = until, so_pub = pub, so_token = token, so_last = 0 \<rparr>
             (prune_offers (nt_wall n) v)
           else v))"

definition handle_invite_offer :: "net \<Rightarrow> link \<Rightarrow> packet \<Rightarrow> router \<Rightarrow> router" where
  "handle_invite_offer n l p r =
     (if lk_id l = None \<or> p_ttl p \<le> 0 \<or> lk_id l \<noteq> Some (p_src_id p) then r
      else
        (let (ok, v) = offer_allowed (nt_clk n) (rate_key l) (ro_invites r) in
         if \<not> ok then set_invites v r
         else
           (case fst (packet_replay_key (nt_hash n) p) of
              Inl _ \<Rightarrow> set_invites v r
            | Inr None \<Rightarrow> set_invites v r
            | Inr (Some _) \<Rightarrow> set_invites (take_offer n p v) r)))"

definition feed_tunnel :: "packet \<Rightarrow> router \<Rightarrow> net_effect list" where
  "feed_tunnel p r =
     (case map_of (iv_relays (ro_invites r)) (p_src_id p) of
        None \<Rightarrow> []
      | Some _ \<Rightarrow> (case packet_unpack (p_payload p) of Inl _ \<Rightarrow> [] | Inr inner \<Rightarrow> [Fed (p_src_id p) inner]))"

text \<open>Onward: the way back to a seeker this node bridged, if it is another link, else as a seek.\<close>

definition carry_on :: "net \<Rightarrow> link \<Rightarrow> packet \<Rightarrow> router \<Rightarrow> net_effect list \<times> router" where
  "carry_on n l p r =
     (let (back, v) = rdv_lookup (nt_clk n) (lk_serial ` set (ro_links r)) (p_dst_id p) (ro_invites r);
          r = set_invites v r in
      case Option.bind back (\<lambda>s. find_link s r) of
        Some k \<Rightarrow>
          (if lk_serial k = lk_serial l then forward_seek n l p r
           else if 1 < p_ttl p then
             (case packet_with_decremented_ttl p of Inl _ \<Rightarrow> ([], r) | Inr outgoing \<Rightarrow> send_each n outgoing [k] r)
           else ([], r))
      | None \<Rightarrow> forward_seek n l p r)"

definition handle_relay_carry :: "net \<Rightarrow> link \<Rightarrow> packet \<Rightarrow> router \<Rightarrow> net_effect list \<times> router" where
  "handle_relay_carry n l p r =
     (if p_ttl p \<le> 0 then ([], r)
      else
        (let (ok, v) = carry_allowed (nt_clk n) (rate_key l) (ro_invites r); r = set_invites v r in
         if \<not> ok then ([], r)
         else
           (case first_sight n p r of
              (None, r) \<Rightarrow> ([], r)
            | (Some p, r) \<Rightarrow> if p_dst_id p = ro_id r then (feed_tunnel p r, r) else carry_on n l p r)))"

end
