(* ===== verification/Delivery.thy ===== *)
theory Delivery
  imports Seeking
begin

text \<open>
  The door every packet comes through (\<open>MeshNode._handle_packet\<close> in \<open>src/node.py\<close>) and the stop-relay plane
  it leans on: what is refused on its header, the request a node sends to the relay that keeps delivering
  it a refused node's packets, the request passed back towards the source, and the handler that files a
  destination's signed request.

  A type outside \<open>_HANDLERS\<close> is dropped. The handlers of \<open>STOP_RELAY\<close> and \<open>ABUSE_REPORT\<close> are the models
  of this development; any other is the effect \<open>Handle type link packet\<close>. The early handlers of the relayed
  invitation (\<open>INVITE_SEEK\<close>, \<open>INVITE_OFFER\<close>, \<open>RELAY_CARRY\<close>) are those of \<open>Seeking\<close>. An exception ends
  the call where it was raised: the receive loop drops the packet and goes on.
\<close>

definition STOP_RELAY_TTL :: int where "STOP_RELAY_TTL = 900"
definition STOP_RELAY_GRACE :: real where "STOP_RELAY_GRACE = 10"
definition STOP_RULES_MAX :: nat where "STOP_RULES_MAX = 4096"
definition STOP_RULES_PER_DST :: nat where "STOP_RULES_PER_DST = 64"
definition STOP_RELAY_RATE_WINDOW :: real where "STOP_RELAY_RATE_WINDOW = 60"
definition STOP_RELAY_RATE_MAX :: nat where "STOP_RELAY_RATE_MAX = 32"
definition STOP_RELAY_MAX :: nat where "STOP_RELAY_MAX = 8192"
definition STOP_RELAY_REFUSAL_WEIGHT :: real where "STOP_RELAY_REFUSAL_WEIGHT = 1"

definition ABUSE_REPORT :: int where "ABUSE_REPORT = 0x25"
definition STOP_RELAY :: int where "STOP_RELAY = 0x33"

definition DIRECT_TYPES :: "int set" where
  "DIRECT_TYPES = {0x01, 0x02, 0x0F, 0x10, 0x11, 0x16, 0x17, 0x18, 0x1E, 0x21, 0x2C, 0x24, 0x25, 0x27, 0x28, 0x33, 0x34}"

definition ROUTABLE_TYPES :: "int set" where
  "ROUTABLE_TYPES = {0x00, 0x0D, 0x0E, 0x1C, 0x1D, 0x03, 0x04, 0x05, 0x06, 0x07, 0x19, 0x1A, 0x1B, 0x29, 0x2A, 0x2B,
     0x2D, 0x2E, 0x2F, 0x1F, 0x20, 0x22, 0x23}"

definition HANDLED_TYPES :: "int set" where
  "HANDLED_TYPES = {0x00, 0x01, 0x02, 0x03, 0x04, 0x05, 0x06, 0x07, 0x0F, 0x08, 0x09, 0x0C, 0x0A, 0x0B, 0x0D, 0x0E,
     0x10, 0x11, 0x16, 0x17, 0x18, 0x21, 0x1E, 0x1F, 0x20, 0x19, 0x1A, 0x1B, 0x29, 0x2A, 0x2B, 0x2C, 0x2D, 0x2E, 0x2F,
     0x1C, 0x31, 0x32, 0x33, 0x34, 0x1D, 0x22, 0x23, 0x24, 0x25, 0x26, 0x27, 0x28}"

definition MESSAGE_PLANE :: "(int \<times> feature) list" where
  "MESSAGE_PLANE = map (map_prod id ascii)
     [(0x03, ''kad''), (0x04, ''kad''), (0x05, ''kad''), (0x06, ''kad''), (0x07, ''kad''),
      (0x0D, ''e2e''), (0x0E, ''e2e''), (0x19, ''dir''), (0x1A, ''dir''), (0x1B, ''dir''),
      (0x29, ''pkgdir''), (0x2A, ''pkgdir''), (0x2B, ''pkgdir''), (0x2C, ''pkgdir''),
      (0x2D, ''handover''), (0x2E, ''handover''), (0x2F, ''handover''), (0x21, ''pseudo''), (0x18, ''catalog''),
      (0x1E, ''release''), (0x1F, ''release''), (0x20, ''release''), (0x10, ''punch''), (0x11, ''punch''),
      (0x16, ''reach''), (0x17, ''reach''), (0x14, ''relay''), (0x15, ''relay''), (0x30, ''rdv''),
      (0x22, ''certren''), (0x23, ''certren''), (0x24, ''revoke''), (0x25, ''abuse''), (0x27, ''keepalive''),
      (0x28, ''keepalive''), (0x31, ''speed''), (0x32, ''speed''), (0x33, ''stoprelay''), (0x34, ''linkrelease'')]"

definition peer_announces :: "link \<Rightarrow> feature \<Rightarrow> bool" where
  "peer_announces l f \<longleftrightarrow> (case lk_agreed l of None \<Rightarrow> False | Some agreed \<Rightarrow> f \<in> agreed)"

text \<open>A complaint of the node's own, through the door of \<open>Standing\<close>.\<close>

definition complain :: "net \<Rightarrow> node_id \<Rightarrow> real \<Rightarrow> string \<Rightarrow> router \<Rightarrow> net_effect list \<times> router" where
  "complain n node weight reason r =
     (let (_, out, g) = report_abuse (nt_clk n) (nt_hold n) node weight (py reason) KIND_UNSPECIFIED (ro_guard r)
      in (map Judged out, r\<lparr> ro_guard := g \<rparr>))"

section \<open>Refusing on the header\<close>

definition ask_stop_relay :: "net \<Rightarrow> link \<Rightarrow> bytes \<Rightarrow> router \<Rightarrow> net_effect list \<times> router" where
  "ask_stop_relay n l src r =
     (if \<not> peer_announces l STOP_RELAY_PLANE then ([], r)
      else
        (let via = the (lk_id l); now = nt_clk n; key = (src, via);
             build = (case stop_build (nt_hash n) src (nt_pub n) (nt_sign n) STOP_RELAY_TTL \<lfloor>nt_wall n\<rfloor> of
                 Inl _ \<Rightarrow> ([], r)
               | Inr data \<Rightarrow>
                   ([Stop_out (lk_serial l) data],
                    r\<lparr> ro_stops_asked := od_trim STOP_RULES_MAX (od_to_end key (AList.update key
                        \<lparr> sa_at = now, sa_until = now + real_of_int STOP_RELAY_TTL * (4 / 5), sa_charged = False \<rparr>
                        (ro_stops_asked r))) \<rparr>))
         in case map_of (ro_stops_asked r) key of
              None \<Rightarrow> build
            | Some asked \<Rightarrow>
                (if now < sa_until asked
                 then (if STOP_RELAY_GRACE < now - sa_at asked \<and> \<not> sa_charged asked
                       then complain n via STOP_RELAY_REFUSAL_WEIGHT ''kept relaying a node it was asked to stop relaying''
                              (r\<lparr> ro_stops_asked := AList.update key (asked\<lparr> sa_charged := True \<rparr>) (ro_stops_asked r) \<rparr>)
                       else ([], r))
                 else build)))"

definition pass_stop_upstream :: "net \<Rightarrow> link \<Rightarrow> bytes \<times> bytes \<Rightarrow> stop_rule \<Rightarrow> router \<Rightarrow> net_effect list \<times> router" where
  "pass_stop_upstream n l key rule r =
     (let via = the (lk_id l); now = nt_clk n in
      case map_of (su_told rule) via of
        None \<Rightarrow>
          (if peer_announces l STOP_RELAY_PLANE \<and> length (su_told rule) < 16
           then ([Stop_out (lk_serial l) (su_record rule)],
                 r\<lparr> ro_stop_rules := AList.update key (rule\<lparr> su_told := AList.update via now (su_told rule) \<rparr>)
                      (ro_stop_rules r) \<rparr>)
           else ([], r))
      | Some told \<Rightarrow>
          (if STOP_RELAY_GRACE < now - told \<and> via \<notin> su_charged rule
           then complain n via STOP_RELAY_REFUSAL_WEIGHT ''kept relaying a node it was asked to stop relaying''
                  (r\<lparr> ro_stop_rules := AList.update key (rule\<lparr> su_charged := insert via (su_charged rule) \<rparr>)
                      (ro_stop_rules r) \<rparr>)
           else ([], r)))"

definition refuse_routed :: "net \<Rightarrow> link \<Rightarrow> packet \<Rightarrow> router \<Rightarrow> bool \<times> net_effect list \<times> router" where
  "refuse_routed n l p r =
     (let src = p_src_id p; dst = p_dst_id p in
      if dst = ro_id r then
        (if lk_id l = Some src then (False, [], r)
         else if rep_standing (gd_rep (ro_guard r)) src (nt_clk n) = OK then (False, [], r)
         else (True, ask_stop_relay n l src r))
      else
        (case map_of (ro_stop_rules r) (src, dst) of
           None \<Rightarrow> (False, [], r)
         | Some rule \<Rightarrow>
             (if su_until rule \<le> nt_clk n
              then (False, [], r\<lparr> ro_stop_rules := AList.delete (src, dst) (ro_stop_rules r) \<rparr>)
              else if lk_id l = Some src then (True, [], r)
              else (True, pass_stop_upstream n l (src, dst) rule r))))"

section \<open>A destination's request\<close>

definition file_stop_rule :: "real \<Rightarrow> bytes \<times> bytes \<Rightarrow> real \<Rightarrow> bytes \<Rightarrow> (bytes \<times> bytes, stop_rule) odict \<Rightarrow> (bytes \<times> bytes, stop_rule) odict" where
  "file_stop_rule now key until data rules =
     (let rules = filter (\<lambda>(_, rule). \<not> su_until rule \<le> now) rules in
      case map_of rules key of
        None \<Rightarrow>
          (if STOP_RULES_PER_DST \<le> length (filter (\<lambda>((_, dst), _). dst = snd key) rules) then rules
           else od_trim (STOP_RULES_MAX - 1) rules
             @ [(key, \<lparr> su_until = until, su_record = data, su_told = [], su_charged = {} \<rparr>)])
      | Some rule \<Rightarrow>
          (if su_until rule < until
           then AList.update key (rule\<lparr> su_until := until, su_record := data, su_told := [] \<rparr>) rules
           else rules))"

definition handle_stop_relay :: "net \<Rightarrow> link \<Rightarrow> packet \<Rightarrow> router \<Rightarrow> router" where
  "handle_stop_relay n l p r =
     (let (ok, table) = gossip_allowed (nt_clk n) (rate_key l) STOP_RELAY_RATE_WINDOW STOP_RELAY_RATE_MAX (ro_stop_rate r);
          r = r\<lparr> ro_stop_rate := table \<rparr>; raw = p_payload p in
      if \<not> ok \<or> raw = [] \<or> STOP_RELAY_MAX < length raw then r
      else
        (case stop_parse (nt_hash n) (nt_verify n) raw \<lfloor>nt_wall n\<rfloor> of
           None \<Rightarrow> r
         | Some req \<Rightarrow>
             (if sq_requester req = ro_id r then r
              else r\<lparr> ro_stop_rules := file_stop_rule (nt_clk n) (sq_blocked req, sq_requester req)
                        (nt_clk n + max 0 (real (sq_expires_at req) - nt_wall n)) raw (ro_stop_rules r) \<rparr>)))"

section \<open>The door\<close>

fun position :: "nat \<Rightarrow> link list \<Rightarrow> nat" where
  "position s [] = 0"
| "position s (l # ls) = (if lk_serial l = s then 0 else Suc (position s ls))"

definition dispatch :: "net \<Rightarrow> link \<Rightarrow> packet \<Rightarrow> router \<Rightarrow> net_effect list \<times> router" where
  "dispatch n l p r =
     (if p_type p \<notin> HANDLED_TYPES then ([], r)
      else if p_type p = STOP_RELAY then ([], handle_stop_relay n l p r)
      else if p_type p = ABUSE_REPORT then
        (case handle_abuse_report (nt_hash n) (nt_verify n) (nt_clk n) \<lfloor>nt_wall n\<rfloor> (nt_hold n)
                (position (lk_serial l) (ro_links r)) (p_payload p) (ro_guard r) of
           Inl _ \<Rightarrow> ([], r)
         | Inr (out, g) \<Rightarrow> (map Judged out, r\<lparr> ro_guard := g \<rparr>))
      else ([Handle (p_type p) (lk_serial l) p], r))"

definition count_undeclared :: "link \<Rightarrow> packet \<Rightarrow> router \<Rightarrow> router" where
  "count_undeclared l p r =
     (case lk_agreed l of
        None \<Rightarrow> r
      | Some agreed \<Rightarrow>
          (case map_of MESSAGE_PLANE (p_type p) of
             None \<Rightarrow> r
           | Some plane \<Rightarrow>
               (if plane \<in> agreed then r
                else change_link (lk_serial l)
                  (\<lambda>k. k\<lparr> lk_counts := (lk_counts k)\<lparr> ob_undeclared := ob_undeclared (lk_counts k) + 1 \<rparr> \<rparr>) r)))"

definition for_us :: "packet \<Rightarrow> router \<Rightarrow> bool" where
  "for_us p r \<longleftrightarrow> p_dst_id p = ro_id r \<or> p_dst_id p = BROADCAST_ID"

definition pass_to_handler :: "net \<Rightarrow> link \<Rightarrow> packet \<Rightarrow> router \<Rightarrow> net_effect list \<times> router" where
  "pass_to_handler n l p r = dispatch n l p (count_undeclared l p r)"

text \<open>From \<open>replay_key\<close> on; the packet keeps the ids it computed.\<close>

definition take_routed :: "net \<Rightarrow> link \<Rightarrow> packet \<Rightarrow> router \<Rightarrow> net_effect list \<times> router" where
  "take_routed n l p r =
     (case packet_replay_key (nt_hash n) p of
        (Inl _, _) \<Rightarrow> ([], r)
      | (Inr None, _) \<Rightarrow> ([], r)
      | (Inr (Some key), p) \<Rightarrow>
          (case is_seen (ro_seen r) key of
             None \<Rightarrow> ([], r)
           | Some (True, seen) \<Rightarrow>
               (let r = r\<lparr> ro_seen := seen \<rparr> in if for_us p r then ([], r) else reroute_looped n l p key r)
           | Some (False, seen) \<Rightarrow>
               (let (learnt, r) = learn_reverse_path n l p (r\<lparr> ro_seen := seen \<rparr>);
                    (out, r) = (if for_us p r then pass_to_handler n l p r else forward_packet n l p (Some key) r)
                in (learnt @ out, r))))"

definition take_authenticated :: "net \<Rightarrow> link \<Rightarrow> packet \<Rightarrow> router \<Rightarrow> net_effect list \<times> router" where
  "take_authenticated n l p r =
     (let r = (if p_type p \<in> CONVERSATION_TYPES then change_link (lk_serial l) (\<lambda>k. k\<lparr> lk_last_used := nt_clk n \<rparr>) r
               else r) in
      if p_type p \<in> ROUTABLE_TYPES then
        (if lk_id l = None then ([], r)
         else
           (case refuse_routed n l p r of
              (True, out, r) \<Rightarrow> (out, r)
            | (False, out, r) \<Rightarrow> take_routed n l p r))
      else pass_to_handler n l p r)"

definition handle_packet :: "net \<Rightarrow> link \<Rightarrow> packet \<Rightarrow> router \<Rightarrow> net_effect list \<times> router" where
  "handle_packet n l p r =
     (if lk_tarpit l \<noteq> 0 then ([], r)
      else if p_type p = INVITE_SEEK then handle_invite_seek n l p r
      else if p_type p = INVITE_OFFER then ([], handle_invite_offer n l p r)
      else if p_type p = RELAY_CARRY then handle_relay_carry n l p r
      else if p_type p \<in> DIRECT_TYPES \<and> lk_id l \<noteq> Some (p_src_id p) then ([], r)
      else take_authenticated n l p r)"

end
