(* ===== verification/Forwarding.thy ===== *)
theory Forwarding
  imports Delivery
begin

text \<open>
  What the send path and the door keep: which links a node has, that a bundle names links it has, and
  where a packet may be sent. \<open>router_ok\<close> is the invariant; every handler of a packet keeps it.
\<close>

named_theorems router_frame

section \<open>Links keep their identity\<close>

definition link_end :: "link \<Rightarrow> nat \<times> node_id option \<times> bool" where
  "link_end l = (lk_serial l, lk_id l, lk_session l)"

definition same_ends :: "guard \<Rightarrow> guard \<Rightarrow> bool" where
  "same_ends g g' \<longleftrightarrow> gd_id g' = gd_id g \<and> map link_end (gd_links g') = map link_end (gd_links g)"

lemma same_ends_refl [simp]: "same_ends g g"
  by (simp add: same_ends_def)

lemma same_ends_trans: "same_ends g g' \<Longrightarrow> same_ends g' g'' \<Longrightarrow> same_ends g g''"
  by (simp add: same_ends_def)

lemma tarpit_end [simp]: "link_end (tarpit clk h l) = link_end l"
  by (simp add: tarpit_def link_end_def)

lemma tarpit_fields [simp]:
  "lk_serial (tarpit clk h l) = lk_serial l" "lk_id (tarpit clk h l) = lk_id l"
  "lk_session (tarpit clk h l) = lk_session l"
  by (simp_all add: tarpit_def)

lemma tarpit_links_ends: "map link_end (tarpit_links clk hold nid ls) = map link_end ls"
proof -
  have "map link_end (map (\<lambda>(i, l). if lk_id l = Some nid then tarpit clk (hold i) l else l) (zip is ls)) =
      map link_end ls" if "length is = length ls" for "is" :: "nat list" and hold
    using that by (induction "is" ls rule: list_induct2) auto
  from this [of "[0..<length ls]"] show ?thesis by (simp add: tarpit_links_def)
qed

lemma on_standing_changed_ends: "same_ends g (snd (on_standing_changed clk hold nid v g))"
  by (simp add: on_standing_changed_def same_ends_def tarpit_links_ends)

lemma maybe_announce_ends: "same_ends g (snd (maybe_announce clk nid was kind g))"
  by (auto simp: maybe_announce_def claim_accusation_def Let_def same_ends_def split: option.splits)

lemma report_abuse_ends: "same_ends g (snd (snd (report_abuse clk hold nid w reason kind g)))"
proof (cases "nid = gd_id g")
  case False
  obtain after rep where n: "rep_note clk nid w reason None (gd_rep g) = (after, rep)" by (meson surj_pair)
  define g1 where "g1 = g\<lparr> gd_rep := rep \<rparr>"
  have 1: "same_ends g g1" by (simp add: g1_def same_ends_def)
  obtain out g2 where m: "(if after \<noteq> rep_standing (gd_rep g) nid clk then on_standing_changed clk hold nid after g1
      else ([], g1)) = (out, g2)" by (meson surj_pair)
  have 2: "same_ends g1 g2"
    using m on_standing_changed_ends [of g1 clk hold nid after] by (auto split: if_splits)
  obtain said g3 where a: "maybe_announce clk nid (rep_direct_standing (gd_rep g) nid clk) kind g2 = (said, g3)"
    by (meson surj_pair)
  have "same_ends g g3"
    using same_ends_trans [OF same_ends_trans [OF 1 2] maybe_announce_ends] a by (metis snd_conv)
  moreover have "report_abuse clk hold nid w reason kind g = (after, out @ said, g3)"
    using False n m a by (cases "after = rep_standing (gd_rep g) nid clk") (simp_all add: report_abuse_def Let_def g1_def)
  ultimately show ?thesis by simp
qed (simp add: report_abuse_def)

lemma charge_identity_abuse_ends: "same_ends g (snd (charge_identity_abuse clk hold i g))"
  using report_abuse_ends by (auto simp: charge_identity_abuse_def split: option.split)

lemma map_update_same: "f x = f (xs ! i) \<Longrightarrow> map f (xs[i := x]) = map f xs"
  by (metis list_update_id map_update)

lemma charge_abuse_ends: "same_ends g (snd (charge_abuse clk hold i g))"
proof -
  obtain out g1 where c: "charge_identity_abuse clk hold i g = (out, g1)" by (meson surj_pair)
  have 1: "same_ends g g1" using charge_identity_abuse_ends [of g clk hold i] c by simp
  have 2: "same_ends g1 (g1\<lparr> gd_links := (gd_links g1)[i := l] \<rparr>)" if "link_end l = link_end (gd_links g1 ! i)" for l
    using that by (simp add: same_ends_def map_update_same)
  have 3: "same_ends g1 (g1\<lparr> gd_links := (gd_links g1)[i := x, i := l] \<rparr>)"
    if "link_end l = link_end (gd_links g1 ! i)" for x l
    using 2 [OF that] by simp
  show ?thesis
    using same_ends_trans [OF 1 2] same_ends_trans [OF 1 3]
    by (simp add: charge_abuse_def c Let_def link_end_def)
qed

lemma weigh_accusation_ends: "weigh_accusation clk wall a g = Inr (v, g') \<Longrightarrow> same_ends g g'"
  by (auto simp: weigh_accusation_def Let_def rbind_Inr same_ends_def split: if_splits option.splits prod.splits)

lemma act_on_accusation_ends: "act_on_accusation clk wall hold raw a g = Inr (out, g') \<Longrightarrow> same_ends g g'"
proof -
  assume act: "act_on_accusation clk wall hold raw a g = Inr (out, g')"
  then obtain after g1 where w: "weigh_accusation clk wall a g = Inr (after, g1)"
    by (auto simp: act_on_accusation_def Let_def rbind_Inr)
  have 1: "same_ends g g1" by (rule weigh_accusation_ends [OF w])
  from act w have "g' = g1 \<or> (\<exists>v. g' = snd (on_standing_changed clk hold (ac_subject_id a) v g1))"
    by (auto simp: act_on_accusation_def Let_def split: option.splits prod.splits if_splits) (metis snd_conv)
  with 1 on_standing_changed_ends same_ends_trans show ?thesis by blast
qed

lemma handle_abuse_report_ends:
  assumes "handle_abuse_report h vf clk wall hold i raw g = Inr (out, g')"
  shows "same_ends g g'"
proof -
  obtain ok g1 where a: "abuse_allowed clk i g = (ok, g1)" by (meson surj_pair)
  have 1: "same_ends g g1"
    using a by (auto simp: abuse_allowed_def same_ends_def split: prod.splits)
  have charged: "same_ends g g2" if "charge_abuse clk hold i g1 = (o2, g2)" for o2 g2
    using same_ends_trans [OF 1 charge_abuse_ends [of g1 clk hold i]] that by simp
  show ?thesis
  proof (cases "\<not> gd_gossip g \<or> \<not> ok \<or> raw = [] \<or> ACC_MAX_RECORD < length raw \<or> acc_parse h vf raw wall = None")
    case True
    with assms a 1 charged show ?thesis
      by (auto simp: handle_abuse_report_def split: if_splits)
  next
    case False
    then obtain x where x: "acc_parse h vf raw wall = Some x" by auto
    obtain dup g2 where d: "is_accusation_seen h x g1 = (dup, g2)" by (meson surj_pair)
    have 2: "same_ends g g2"
      using 1 d by (auto simp: is_accusation_seen_def Let_def same_ends_def split: if_splits)
    from assms False a x d have "g' = g2 \<or> act_on_accusation clk wall hold raw x g2 = Inr (out, g')"
      by (auto simp: handle_abuse_report_def split: if_splits)
    with 2 act_on_accusation_ends same_ends_trans show ?thesis by blast
  qed
qed

section \<open>The invariant\<close>

definition bundles_ok :: "link list \<Rightarrow> (node_id, member mlo_bundle) odict \<Rightarrow> bool" where
  "bundles_ok ls bundles \<longleftrightarrow> od_ok bundles \<and>
     od_all (\<lambda>t b. \<forall>s. Direct s \<in> set (bu_keys b) \<longrightarrow> (\<exists>l \<in> set ls. lk_serial l = s \<and> lk_id l = Some t)) bundles"

definition router_ok :: "router \<Rightarrow> bool" where
  "router_ok r \<longleftrightarrow> distinct (map lk_serial (ro_links r)) \<and> bundles_ok (ro_links r) (ro_bundles r)"

text \<open>A candidate of a list that is still being tried: if its link is still there, it is the same link.\<close>

definition known :: "router \<Rightarrow> link \<Rightarrow> bool" where
  "known r l \<longleftrightarrow> (\<forall>k \<in> set (ro_links r). lk_serial k = lk_serial l \<longrightarrow> lk_id k = lk_id l \<and> lk_session k = lk_session l)"

lemma serial_inj:
  "router_ok r \<Longrightarrow> k \<in> set (ro_links r) \<Longrightarrow> l \<in> set (ro_links r) \<Longrightarrow> lk_serial k = lk_serial l \<Longrightarrow> k = l"
  by (auto simp: router_ok_def distinct_map dest: inj_onD)

lemma known_member: "router_ok r \<Longrightarrow> l \<in> set (ro_links r) \<Longrightarrow> known r l"
  by (auto simp: known_def dest: serial_inj)

lemma bundles_ok_mono:
  assumes "bundles_ok ls bundles" "\<And>l. l \<in> set ls \<Longrightarrow> \<exists>k \<in> set ls'. lk_serial k = lk_serial l \<and> lk_id k = lk_id l"
  shows "bundles_ok ls' bundles"
  using assms unfolding bundles_ok_def od_all_def by metis

lemma bundles_ok_ends:
  assumes "bundles_ok ls bundles" "map link_end ls' = map link_end ls"
  shows "bundles_ok ls' bundles"
proof (rule bundles_ok_mono [OF assms(1)])
  fix l assume "l \<in> set ls"
  then have "link_end l \<in> link_end ` set ls'" using assms(2) by (metis image_eqI list.set_map)
  then show "\<exists>k \<in> set ls'. lk_serial k = lk_serial l \<and> lk_id k = lk_id l"
    by (auto simp: link_end_def)
qed

lemma serials_of_ends: "map link_end ls' = map link_end ls \<Longrightarrow> map lk_serial ls' = map lk_serial ls"
proof -
  assume "map link_end ls' = map link_end ls"
  then have "map (fst \<circ> link_end) ls' = map (fst \<circ> link_end) ls" by (metis map_map)
  then show ?thesis by (simp add: link_end_def o_def)
qed

lemma router_ok_ends:
  "router_ok r \<Longrightarrow> map link_end (ro_links r') = map link_end (ro_links r) \<Longrightarrow> ro_bundles r' = ro_bundles r \<Longrightarrow> router_ok r'"
  unfolding router_ok_def by (metis bundles_ok_ends serials_of_ends)

lemma known_ends:
  assumes "known r l" "map link_end (ro_links r') = map link_end (ro_links r)"
  shows "known r' l"
  unfolding known_def
proof (intro ballI impI)
  fix k assume k: "k \<in> set (ro_links r')" and s: "lk_serial k = lk_serial l"
  then have "link_end k \<in> link_end ` set (ro_links r)" using assms(2) by (metis image_eqI list.set_map)
  then obtain k' where "k' \<in> set (ro_links r)" "lk_serial k' = lk_serial k" "lk_id k' = lk_id k"
    "lk_session k' = lk_session k" by (auto simp: link_end_def)
  with assms(1) s show "lk_id k = lk_id l \<and> lk_session k = lk_session l" by (auto simp: known_def)
qed

section \<open>Choosing the way\<close>

lemma self_leads: "\<exists>ld. r = r\<lparr> ro_leads := ld \<rparr>"
  by (rule exI [of _ "ro_leads r"]) simp

lemma self_hints: "\<exists>h. r = r\<lparr> ro_hints := h \<rparr>"
  by (rule exI [of _ "ro_hints r"]) simp

lemma new_leads: "\<exists>ld. r\<lparr> ro_leads := x \<rparr> = r\<lparr> ro_leads := ld \<rparr>"
  by (rule exI [of _ x]) (rule refl)

lemma choose_lead_frame: "\<exists>ld. snd (choose_lead n t live healthy r) = r\<lparr> ro_leads := ld \<rparr>"
proof (cases "map_of (ro_leads r) t")
  case None
  then show ?thesis by (simp add: choose_lead_def lead_through_def Let_def new_leads)
next
  case (Some v)
  then show ?thesis
    by (cases v; cases "filter (\<lambda>p. pa_via p \<noteq> fst v) healthy")
      (simp_all add: choose_lead_def Let_def lead_through_def self_leads new_leads del: map_of_eq_Some_iff)
qed

lemma route_lead_frame: "\<exists>ld. snd (route_lead n t r) = r\<lparr> ro_leads := ld \<rparr>"
  using choose_lead_frame by (simp add: route_lead_def Let_def self_leads new_leads)

lemma measured_first_hops_frame: "\<exists>ld. snd (measured_first_hops n t e r) = r\<lparr> ro_leads := ld \<rparr>"
proof -
  obtain lead r1 where l: "route_lead n t r = (lead, r1)" by (meson surj_pair)
  then show ?thesis
    using self_leads [of r] route_lead_frame [of n t r] by (simp add: measured_first_hops_def Let_def)
qed

lemma route_hint_peer_frame: "\<exists>h. snd (route_hint_peer n t e r) = r\<lparr> ro_hints := h \<rparr>"
proof -
  have "\<exists>h. r\<lparr> ro_hints := x \<rparr> = r\<lparr> ro_hints := h \<rparr>" for x by (rule exI [of _ x]) (rule refl)
  then show ?thesis
    by (cases "map_of (ro_hints r) t") (simp_all add: route_hint_peer_def self_hints split: prod.split)
qed

lemma ordered_hops_frame: "\<exists>h ld. snd (ordered_hops n t e r) = r\<lparr> ro_hints := h, ro_leads := ld \<rparr>"
proof -
  have same: "\<exists>h ld. r = r\<lparr> ro_hints := h, ro_leads := ld \<rparr>"
    by (rule exI [of _ "ro_hints r"], rule exI [of _ "ro_leads r"]) simp
  obtain hops r1 where m: "measured_first_hops n t e r = (hops, r1)" by (meson surj_pair)
  then obtain ld where r1: "r1 = r\<lparr> ro_leads := ld \<rparr>" using measured_first_hops_frame [of n t e r] by auto
  obtain hint r2 where h: "route_hint_peer n t e r1 = (hint, r2)" by (meson surj_pair)
  then obtain hs where r2: "r2 = r1\<lparr> ro_hints := hs \<rparr>" using route_hint_peer_frame [of n t e r1] by auto
  have "\<exists>h ld. r1 = r\<lparr> ro_hints := h, ro_leads := ld \<rparr>"
    by (rule exI [of _ "ro_hints r"], rule exI [of _ ld]) (simp add: r1)
  moreover have "\<exists>h ld. r2 = r\<lparr> ro_hints := h, ro_leads := ld \<rparr>"
    by (rule exI [of _ hs], rule exI [of _ ld]) (simp add: r1 r2)
  ultimately show ?thesis using same by (simp add: ordered_hops_def m h Let_def)
qed

lemma stripe_frame: "\<exists>b. snd (stripe n t ps e r) = r\<lparr> ro_bundles := b \<rparr> \<and>
    (bundles_ok (ro_links r) (ro_bundles r) \<longrightarrow> bundles_ok (ro_links r) b)"
proof -
  have same: "\<exists>b. r = r\<lparr> ro_bundles := b \<rparr> \<and> (bundles_ok (ro_links r) (ro_bundles r) \<longrightarrow> bundles_ok (ro_links r) b)"
    by (rule exI [of _ "ro_bundles r"]) simp
  have keys: "bu_keys (snd (next_key b)) = bu_keys b" for b :: "member mlo_bundle"
    by (simp add: next_key_def Let_def)
  have turn: "bundles_ok (ro_links r) (AList.update t (snd (next_key b)) (ro_bundles r))"
    if "bundles_ok (ro_links r) (ro_bundles r)" "map_of (ro_bundles r) t = Some b" for b
    using that od_allD [OF _ that(2)] unfolding bundles_ok_def keys
    by (intro conjI od_all_update od_ok_update) (auto simp: keys)
  show ?thesis
  proof (cases "ro_bundles r = [] \<or> ps = []")
    case False
    show ?thesis
    proof (cases "map_of (ro_bundles r) t")
      case (Some b)
      obtain tn b' where nk: "next_key b = (tn, b')" by (meson surj_pair)
      have "\<exists>bs. r\<lparr> ro_bundles := AList.update t b' (ro_bundles r) \<rparr> = r\<lparr> ro_bundles := bs \<rparr> \<and>
          (bundles_ok (ro_links r) (ro_bundles r) \<longrightarrow> bundles_ok (ro_links r) bs)"
        using turn [OF _ Some] nk by (intro exI [of _ "AList.update t b' (ro_bundles r)"]) simp
      moreover have "snd (stripe n t ps e r) = r \<or> snd (stripe n t ps e r) = r\<lparr> ro_bundles := AList.update t b' (ro_bundles r) \<rparr>"
        using False Some nk by (simp add: stripe_def Let_def split: option.split del: map_of_eq_Some_iff)
      ultimately show ?thesis using same by (elim disjE) (simp_all only:)
    qed (use False same in \<open>simp add: stripe_def\<close>)
  qed (use same in \<open>auto simp: stripe_def\<close>)
qed

lemma route_candidates_frame:
  assumes "route_candidates n t e r = (ls, r')"
  shows "\<exists>h ld b. r' = r\<lparr> ro_hints := h, ro_leads := ld, ro_bundles := b \<rparr> \<and>
    (bundles_ok (ro_links r) (ro_bundles r) \<longrightarrow> bundles_ok (ro_links r) b)"
proof -
  obtain ps r1 where o1: "ordered_hops n t e r = (ps, r1)" by (meson surj_pair)
  then obtain h ld where r1: "r1 = r\<lparr> ro_hints := h, ro_leads := ld \<rparr>" using ordered_hops_frame [of n t e r] by auto
  obtain b where "r' = r1\<lparr> ro_bundles := b \<rparr>"
    "bundles_ok (ro_links r1) (ro_bundles r1) \<longrightarrow> bundles_ok (ro_links r1) b"
    using assms o1 stripe_frame [of n t "take ROUTE_SEND_FANOUT ps" e r1] by (auto simp: route_candidates_def)
  with r1 show ?thesis by auto
qed

definition all_usable :: "router \<Rightarrow> nat option \<Rightarrow> link list \<Rightarrow> bool" where
  "all_usable r e ls \<longleftrightarrow> (\<forall>l \<in> set ls. l \<in> set (ro_links r) \<and> usable_link e l)"

lemma best_to_usable: "best_to n e via r = Some l \<Longrightarrow> l \<in> set (ro_links r) \<and> usable_link e l \<and> lk_id l = Some via"
  using link_to_Some by blast

lemma add_hops_usable:
  "all_usable r e out \<Longrightarrow> distinct (map lk_serial out) \<Longrightarrow>
     all_usable r e (foldl (\<lambda>out p. add_hop (best_to n e (pa_via p) r) out) out ps) \<and>
     distinct (map lk_serial (foldl (\<lambda>out p. add_hop (best_to n e (pa_via p) r) out) out ps))"
proof (induction ps arbitrary: out)
  case (Cons p ps)
  have "all_usable r e (add_hop (best_to n e (pa_via p) r) out)"
    using Cons.prems best_to_usable [of n e "pa_via p" r] by (auto simp: add_hop_def all_usable_def split: option.split)
  moreover have "distinct (map lk_serial (add_hop (best_to n e (pa_via p) r) out))"
    using Cons.prems by (auto simp: add_hop_def split: option.split)
  ultimately show ?case using Cons.IH by simp
qed simp

lemma measured_first_hops_usable:
  assumes "measured_first_hops n t e r = (hops, r')"
  shows "all_usable r e hops" "distinct (map lk_serial hops)"
proof -
  obtain lead r1 where l: "route_lead n t r = (lead, r1)" by (meson surj_pair)
  then obtain ld where r1: "r1 = r\<lparr> ro_leads := ld \<rparr>" using route_lead_frame [of n t r] by auto
  let ?start = "case lead of None \<Rightarrow> [] | Some via \<Rightarrow> add_hop (best_to n e via r) []"
  have "all_usable r e ?start" "distinct (map lk_serial ?start)"
    using best_to_usable [of n e _ r] by (auto simp: r1 add_hop_def all_usable_def split: option.splits)
  from add_hops_usable [OF this, of n "live_paths t (ro_paths r)"] assms l
  show "all_usable r e hops" "distinct (map lk_serial hops)"
    by (auto simp: measured_first_hops_def r1 all_usable_def split: if_splits cong: option.case_cong)
qed

lemma all_usable_append [simp]: "all_usable r e (xs @ ys) \<longleftrightarrow> all_usable r e xs \<and> all_usable r e ys"
  by (auto simp: all_usable_def)

lemma all_usable_subset: "all_usable r e ys \<Longrightarrow> set xs \<subseteq> set ys \<Longrightarrow> all_usable r e xs"
  by (auto simp: all_usable_def)

lemma distinct_serials: "all_usable r e ls \<Longrightarrow> router_ok r \<Longrightarrow> distinct (map lk_id ls) \<Longrightarrow> distinct (map lk_serial ls)"
proof -
  assume u: "all_usable r e ls" and ok: "router_ok r" and d: "distinct (map lk_id ls)"
  have "inj_on lk_serial (set ls)" using u serial_inj [OF ok] by (auto simp: inj_on_def all_usable_def)
  with d show ?thesis by (simp add: distinct_map)
qed

lemma without_ids_distinct:
  assumes "router_ok r" "all_usable r e hops" "all_usable r e peers"
    "distinct (map lk_serial hops)" "distinct (map lk_serial peers)"
  shows "all_usable r e (hops @ without_ids hops peers)" "distinct (map lk_serial (hops @ without_ids hops peers))"
proof -
  show "all_usable r e (hops @ without_ids hops peers)"
    using assms by (auto simp: without_ids_def intro: all_usable_subset)
  have "lk_serial ` set hops \<inter> lk_serial ` set (without_ids hops peers) = {}"
  proof -
    have False if "h \<in> set hops" "k \<in> set (without_ids hops peers)" "lk_serial h = lk_serial k" for h k
    proof -
      have "h = k" using that assms(2,3) serial_inj [OF assms(1)] by (auto simp: all_usable_def without_ids_def)
      with that show False by (auto simp: without_ids_def)
    qed
    then show ?thesis by blast
  qed
  with assms(4,5) show "distinct (map lk_serial (hops @ without_ids hops peers))"
    by (simp add: without_ids_def distinct_map_filter)
qed

lemma guessed_hops_usable:
  fixes n t e k
  assumes "router_ok r"
  defines "ps \<equiv> take k (sort_key (hop_key t) (authenticated_peers (nt_scoring n) e (ro_links r)))"
  shows "all_usable r e ps" "distinct (map lk_serial ps)"
proof -
  show u: "all_usable r e ps"
    using authenticated_peers_usable by (auto simp: all_usable_def ps_def dest!: in_set_takeD)
  have "mset (map lk_id (sort_key (hop_key t) (authenticated_peers (nt_scoring n) e (ro_links r)))) =
      mset (map lk_id (authenticated_peers (nt_scoring n) e (ro_links r)))" by simp
  then have "distinct (map lk_id (sort_key (hop_key t) (authenticated_peers (nt_scoring n) e (ro_links r))))"
    using authenticated_peers_distinct mset_eq_imp_distinct_iff by blast
  then have "distinct (map lk_id ps)" by (simp add: ps_def take_map [symmetric] distinct_take)
  with distinct_serials [OF u assms(1)] show "distinct (map lk_serial ps)" .
qed

lemma ordered_hops_usable:
  assumes "ordered_hops n t e r = (ps, r')" "router_ok r"
  shows "all_usable r e ps" "distinct (map lk_serial ps)"
proof -
  let ?g = "take ROUTE_SEND_FANOUT (sort_key (hop_key t) (authenticated_peers (nt_scoring n) e (ro_links r)))"
  note g = guessed_hops_usable [OF assms(2), where n = n and t = t and e = e and k = ROUTE_SEND_FANOUT]
  obtain hops r1 where m: "measured_first_hops n t e r = (hops, r1)" by (meson surj_pair)
  note ms = measured_first_hops_usable [OF m]
  obtain ld where r1: "r1 = r\<lparr> ro_leads := ld \<rparr>" using measured_first_hops_frame [of n t e r] m by auto
  obtain hint r2 where h: "route_hint_peer n t e r1 = (hint, r2)" by (meson surj_pair)
  have hl: "all_usable r e [l]" if "hint = Some l" for l
    using h that best_to_usable [of n e _ r1 l]
    by (auto simp: route_hint_peer_def r1 all_usable_def split: option.splits if_splits prod.splits)
  note w = without_ids_distinct [OF assms(2) ms(1) g(1) ms(2) g(2)]
  have w1: "all_usable r e (l # without_ids [l] ?g)" "distinct (map lk_serial (l # without_ids [l] ?g))" if "hint = Some l" for l
    using without_ids_distinct [OF assms(2) hl [OF that] g(1) _ g(2)] by simp_all
  have "ps = ?g \<or> ps = hops @ without_ids hops ?g \<or> (\<exists>l. hint = Some l \<and> ps = l # without_ids [l] ?g)"
    using assms(1) m h by (auto simp: ordered_hops_def Let_def split: if_splits option.splits)
  then show "all_usable r e ps" "distinct (map lk_serial ps)"
    using g w w1 by blast+
qed

lemma member_peer_usable:
  assumes ok: "router_ok r" and b: "map_of (ro_bundles r) t = Some b" and m: "m \<in> set (bu_keys b)"
    and l: "member_peer n m e r = Some l"
  shows "l \<in> set (ro_links r) \<and> usable_link e l"
proof (cases m)
  case (Direct s)
  then obtain k where find: "find_link s r = Some k" and k: "k = l" "e \<noteq> Some s" "lk_session l"
    using l by (auto simp: member_peer_def split: option.splits if_splits)
  have l': "l \<in> set (ro_links r)" "lk_serial l = s"
    using find k(1) by (auto simp: find_link_def find_Some_iff)
  have "od_all (\<lambda>t b. \<forall>s. Direct s \<in> set (bu_keys b) \<longrightarrow> (\<exists>l \<in> set (ro_links r). lk_serial l = s \<and> lk_id l = Some t))
      (ro_bundles r)" using ok by (simp add: router_ok_def bundles_ok_def)
  from od_allD [OF this b] m Direct obtain k' where "k' \<in> set (ro_links r)" "lk_serial k' = s" "lk_id k' = Some t"
    by auto
  then have "lk_id l = Some t" using serial_inj [OF ok l'(1)] l'(2) by metis
  with k l' show ?thesis by (auto simp: usable_link_def)
next
  case (Via v)
  with l best_to_usable [of n e v r l] show ?thesis by (simp add: member_peer_def)
qed

lemma stripe_usable:
  assumes ok: "router_ok r" and ps: "all_usable r e ps" "distinct (map lk_serial ps)"
    and st: "stripe n t ps e r = (ls, r')"
  shows "all_usable r e ls" "distinct (map lk_serial ls)" "length ls \<le> Suc (length ps)" "ls = [] \<longleftrightarrow> ps = []"
proof -
  have "ls = ps \<or> (\<exists>l. l \<in> set (ro_links r) \<and> usable_link e l \<and> ps \<noteq> [] \<and>
      ls = l # filter (\<lambda>k. lk_serial k \<noteq> lk_serial l) ps)"
  proof (cases "ro_bundles r = [] \<or> ps = []")
    case False
    show ?thesis
    proof (cases "map_of (ro_bundles r) t")
      case (Some b)
      obtain tn b' where nk: "next_key b = (tn, b')" by (meson surj_pair)
      let ?r = "r\<lparr> ro_bundles := AList.update t b' (ro_bundles r) \<rparr>"
      have same: "member_peer n m e ?r = member_peer n m e r" for m
        by (auto simp: member_peer_def find_link_def split: member.split)
      show ?thesis
      proof (cases "ls = ps")
        case False
        with st Some nk \<open>\<not> (ro_bundles r = [] \<or> ps = [])\<close> obtain m l where m: "tn = Some m" "member_peer n m e ?r = Some l"
          "ls = l # filter (\<lambda>k. lk_serial k \<noteq> lk_serial l) ps"
          by (auto simp: stripe_def Let_def simp del: map_of_eq_Some_iff split: if_splits option.splits)
        have "m \<in> set (bu_keys b)"
          using nk m(1) by (auto simp: next_key_def Let_def split: if_splits intro!: nth_mem mod_less_divisor)
        from member_peer_usable [OF ok Some this] m False \<open>\<not> (ro_bundles r = [] \<or> ps = [])\<close> show ?thesis
          by (auto simp: same)
      qed simp
    qed (use st False in \<open>simp add: stripe_def\<close>)
  qed (use st in \<open>auto simp: stripe_def\<close>)
  then show "all_usable r e ls" "distinct (map lk_serial ls)" "length ls \<le> Suc (length ps)" "ls = [] \<longleftrightarrow> ps = []"
    using ps by (auto simp: all_usable_def distinct_map_filter)
qed

text \<open>What \<open>_route_candidates\<close> answers: links the node has, authenticated, with a session, none of them the one
  excluded, each once; and one more than the fan-out at most, when a bundle's turn leads.\<close>

lemma route_candidates_usable:
  assumes "route_candidates n t e r = (ls, r')" "router_ok r"
  shows "all_usable r e ls" "distinct (map lk_serial ls)" "length ls \<le> Suc ROUTE_SEND_FANOUT"
proof -
  obtain ps r1 where o1: "ordered_hops n t e r = (ps, r1)" by (meson surj_pair)
  note u = ordered_hops_usable [OF o1 assms(2)]
  obtain h ld where r1: "r1 = r\<lparr> ro_hints := h, ro_leads := ld \<rparr>" using ordered_hops_frame [of n t e r] o1 by auto
  have ok: "router_ok r1" using assms(2) by (simp add: router_ok_def r1)
  have "all_usable r1 e (take ROUTE_SEND_FANOUT ps)"
    using u(1) by (auto simp: all_usable_def r1 dest: in_set_takeD)
  moreover have "distinct (map lk_serial (take ROUTE_SEND_FANOUT ps))"
    using u(2) by (simp add: take_map [symmetric] distinct_take)
  ultimately have "all_usable r1 e ls" "distinct (map lk_serial ls)" "length ls \<le> Suc ROUTE_SEND_FANOUT"
    using stripe_usable [OF ok, of e "take ROUTE_SEND_FANOUT ps" n t ls r'] assms(1) o1
    by (simp_all add: route_candidates_def)
  then show "all_usable r e ls" "distinct (map lk_serial ls)" "length ls \<le> Suc ROUTE_SEND_FANOUT"
    by (simp_all add: all_usable_def r1)
qed

lemma route_candidates_ok:
  assumes "route_candidates n t e r = (ls, r')" "router_ok r"
  shows "router_ok r' \<and> ro_guard r' = ro_guard r"
  using route_candidates_frame [OF assms(1)] assms(2) by (auto simp: router_ok_def)

section \<open>Sending\<close>

lemma change_link_ends:
  assumes "\<And>l. link_end (f l) = link_end l"
  shows "map link_end (ro_links (change_link s f r)) = map link_end (ro_links r)"
  using assms by (simp add: change_link_def set_links_def)

lemma end_link_links: "ro_links (snd (end_link l r)) = filter (\<lambda>k. lk_serial k \<noteq> lk_serial l) (ro_links r)"
  by (simp add: end_link_def set_links_def forget_hints_via_def forget_bundle_def Let_def split: option.split)

lemma end_link_ok:
  assumes "router_ok r" "known r l"
  shows "router_ok (snd (end_link l r))"
proof -
  have d: "distinct (map lk_serial (ro_links (snd (end_link l r))))"
    using assms(1) by (simp add: end_link_links router_ok_def distinct_map_filter)
  have bs: "ro_bundles (snd (end_link l r)) = (case lk_id l of None \<Rightarrow> ro_bundles r | Some m \<Rightarrow> AList.delete m (ro_bundles r))"
    by (simp add: end_link_def set_links_def forget_hints_via_def forget_bundle_def Let_def split: option.split)
  have keep: "\<exists>k \<in> set (ro_links (snd (end_link l r))). lk_serial k = s \<and> lk_id k = Some t"
    if "k \<in> set (ro_links r)" "lk_serial k = s" "lk_id k = Some t" "lk_id l \<noteq> Some t" for k s t
    using that assms(2) by (auto simp: end_link_links known_def)
  have "bundles_ok (ro_links r) (ro_bundles r)" using assms(1) by (simp add: router_ok_def)
  then have "bundles_ok (ro_links (snd (end_link l r))) (ro_bundles (snd (end_link l r)))"
    unfolding bs bundles_ok_def od_all_def
  proof (intro conjI ballI impI allI)
    fix p s assume all: "od_ok (ro_bundles r) \<and> (\<forall>p \<in> set (ro_bundles r). \<forall>s. Direct s \<in> set (bu_keys (snd p)) \<longrightarrow>
        (\<exists>l \<in> set (ro_links r). lk_serial l = s \<and> lk_id l = Some (fst p)))"
      and p: "p \<in> set (case lk_id l of None \<Rightarrow> ro_bundles r | Some m \<Rightarrow> AList.delete m (ro_bundles r))"
      and s: "Direct s \<in> set (bu_keys (snd p))"
    have "p \<in> set (ro_bundles r)" "lk_id l \<noteq> Some (fst p)"
      using p by (auto simp: AList.delete_eq split: option.splits)
    with all s keep show "\<exists>l \<in> set (ro_links (snd (end_link l r))). lk_serial l = s \<and> lk_id l = Some (fst p)" by blast
  qed (auto split: option.split)
  with d show ?thesis by (simp add: router_ok_def)
qed

lemma end_link_known: "known r k \<Longrightarrow> known (snd (end_link l r)) k"
  by (auto simp: known_def end_link_links)

text \<open>What a send leaves alone.\<close>

definition same_routes :: "router \<Rightarrow> router \<Rightarrow> bool" where
  "same_routes r r' \<longleftrightarrow> ro_id r' = ro_id r \<and> gd_rep (ro_guard r') = gd_rep (ro_guard r) \<and> ro_seen r' = ro_seen r \<and>
     ro_fwd r' = ro_fwd r \<and> ro_stop_rules r' = ro_stop_rules r \<and> ro_stops_asked r' = ro_stops_asked r \<and>
     ro_stop_rate r' = ro_stop_rate r \<and> link_end ` set (ro_links r') \<subseteq> link_end ` set (ro_links r)"

lemma same_routes_refl [simp]: "same_routes r r"
  by (simp add: same_routes_def)

lemma same_routes_trans: "same_routes r r' \<Longrightarrow> same_routes r' r'' \<Longrightarrow> same_routes r r''"
  by (simp add: same_routes_def) (meson subset_trans)

lemma end_link_routes: "same_routes r (snd (end_link l r))"
  by (auto simp: same_routes_def end_link_def set_links_def forget_hints_via_def forget_bundle_def Let_def split: option.split)

lemma change_link_routes: "(\<And>l. link_end (f l) = link_end l) \<Longrightarrow> same_routes r (change_link s f r)"
  by (auto simp: same_routes_def change_link_def set_links_def)

lemma route_candidates_routes: "route_candidates n t e r = (ls, r') \<Longrightarrow> same_routes r r'"
  using route_candidates_frame by (fastforce simp: same_routes_def)

lemma count_out_end [simp]: "link_end (count_out b l) = link_end l"
  by (simp add: count_out_def link_end_def)

lemma last_used_end [simp]: "link_end (l\<lparr> lk_last_used := t \<rparr>) = link_end l"
  by (simp add: link_end_def)

definition on_link :: "net \<Rightarrow> packet \<Rightarrow> link \<Rightarrow> packet \<Rightarrow> bool" where
  "on_link n outgoing l q \<longleftrightarrow> fst (packet_for_link (nt_hash n) (msg_id_algorithm l) outgoing) = Inr q"

lemma peer_send_spec:
  assumes "peer_send n p l r = (sent, out, r')"
  shows "(sent = Sent \<and> (\<exists>q. out = [Out (lk_serial l) q] \<and> on_link n p l q) \<or> sent \<noteq> Sent \<and> out = [] \<and> r' = r) \<and>
    same_routes r r' \<and> map link_end (ro_links r') = map link_end (ro_links r) \<and> ro_bundles r' = ro_bundles r"
  using assms change_link_ends [of "count_out _"] change_link_routes [of "count_out _"]
  by (auto simp: peer_send_def on_link_def same_routes_def change_link_def set_links_def
      split: sum.splits outcome.splits)

lemma same_routes_known: "same_routes r r' \<Longrightarrow> known r l \<Longrightarrow> known r' l"
  unfolding known_def
proof (intro ballI impI)
  fix k assume s: "same_routes r r'" and a: "\<forall>k \<in> set (ro_links r). lk_serial k = lk_serial l \<longrightarrow>
      lk_id k = lk_id l \<and> lk_session k = lk_session l"
    and k: "k \<in> set (ro_links r')" "lk_serial k = lk_serial l"
  have "link_end k \<in> link_end ` set (ro_links r)" using s k(1) by (auto simp: same_routes_def)
  then obtain k' where "k' \<in> set (ro_links r)" "link_end k' = link_end k" by auto
  with a k(2) show "lk_id k = lk_id l \<and> lk_session k = lk_session l" by (auto simp: link_end_def)
qed

text \<open>Trying the candidates in turn: the links that failed are ended, the first that takes the packet has it,
  and it leaves once.\<close>

definition tried :: "net \<Rightarrow> packet \<Rightarrow> link list \<Rightarrow> link option \<Rightarrow> net_effect list \<Rightarrow> bool" where
  "tried n p ls res out \<longleftrightarrow>
     (\<exists>gone. (\<forall>x \<in> set gone. \<exists>l \<in> set ls. x = Ended (lk_serial l)) \<and>
        (case res of
           None \<Rightarrow> out = gone
         | Some l \<Rightarrow> l \<in> set ls \<and> (\<exists>q. out = gone @ [Out (lk_serial l) q] \<and> on_link n p l q)))"

lemma tried_Nil: "tried n p [] None []"
  by (simp add: tried_def)

lemma tried_first: "on_link n p l q \<Longrightarrow> tried n p (l # ls) (Some l) [Out (lk_serial l) q]"
  by (simp add: tried_def)

lemma tried_skip: "tried n p ls res out \<Longrightarrow> tried n p (l # ls) res out"
  by (auto simp: tried_def split: option.splits)

lemma tried_gone: "tried n p ls res out \<Longrightarrow> tried n p (l # ls) res (Ended (lk_serial l) # out)"
proof -
  assume "tried n p ls res out"
  then obtain gone where g: "\<forall>x \<in> set gone. \<exists>l \<in> set ls. x = Ended (lk_serial l)"
    "case res of None \<Rightarrow> out = gone
       | Some l \<Rightarrow> l \<in> set ls \<and> (\<exists>q. out = gone @ [Out (lk_serial l) q] \<and> on_link n p l q)"
    by (auto simp: tried_def)
  then show ?thesis unfolding tried_def
    by (intro exI [of _ "Ended (lk_serial l) # gone"]) (auto split: option.splits)
qed

lemma send_to_candidates_spec:
  assumes "send_to_candidates n p outgoing ls r = (res, out, r')" "router_ok r" "\<forall>l \<in> set ls. known r l"
  shows "router_ok r' \<and> same_routes r r' \<and> tried n outgoing ls res out"
  using assms
proof (induction ls arbitrary: r out)
  case Nil
  then show ?case by (simp add: tried_Nil)
next
  case (Cons l ls)
  obtain sent o1 r1 where s1: "peer_send n outgoing l r = (sent, o1, r1)" by (rule prod_cases3)
  note sp = peer_send_spec [OF s1]
  have ok1: "router_ok r1" using sp Cons.prems(2) by (auto intro: router_ok_ends)
  have rt1: "same_routes r r1" using sp by simp
  have k1: "\<forall>k \<in> set (l # ls). known r1 k" using rt1 same_routes_known Cons.prems(3) by blast
  show ?case
  proof (cases sent)
    case Sent
    then obtain q where q: "o1 = [Out (lk_serial l) q]" "on_link n outgoing l q" using sp by auto
    let ?r2 = "change_link (lk_serial l) (\<lambda>k. k\<lparr> lk_last_used := nt_clk n \<rparr>) r1"
    have ok2: "router_ok ?r2" by (rule router_ok_ends [OF ok1]) (simp_all add: change_link_ends change_link_def set_links_def)
    have rt2: "same_routes r ?r2" by (rule same_routes_trans [OF rt1 change_link_routes]) simp
    have "res = Some l" "out = o1" "r' = r1 \<or> r' = ?r2"
      using Cons.prems(1) s1 Sent by (auto split: if_splits)
    with ok1 ok2 rt1 rt2 tried_first [OF q(2)] q(1) show ?thesis by auto
  next
    case Busy
    obtain res2 o2 r2 where rec: "send_to_candidates n p outgoing ls r1 = (res2, o2, r2)" by (rule prod_cases3)
    have eq: "o1 = []" "res2 = res" "o2 = out" "r2 = r'" using Cons.prems(1) s1 Busy rec sp by auto
    have "\<forall>k \<in> set ls. known r1 k" using k1 by simp
    from Cons.IH [OF rec [unfolded eq] ok1 this] rt1 same_routes_trans tried_skip show ?thesis by blast
  next
    case Broken
    obtain gone r2 where e: "end_link l r1 = (gone, r2)" by (meson surj_pair)
    obtain res3 o3 r3 where rec: "send_to_candidates n p outgoing ls r2 = (res3, o3, r3)" by (rule prod_cases3)
    have eq: "o1 = []" "res3 = res" "out = gone @ o3" "r3 = r'" using Cons.prems(1) s1 Broken e rec sp by auto
    note rec = rec [unfolded eq(2,4)]
    have gone: "gone = [Ended (lk_serial l)]" using e by (simp add: end_link_def Let_def)
    have ok2: "router_ok r2" using end_link_ok [OF ok1, of l] k1 e by simp
    have rt: "same_routes r r2" using same_routes_trans [OF rt1 end_link_routes [of r1 l]] e by simp
    have k2: "\<forall>k \<in> set ls. known r2 k" using k1 end_link_known [of r1 _ l] e by simp
    note IH = Cons.IH [OF rec ok2 k2]
    have "tried n outgoing (l # ls) res out" using tried_gone IH eq(3) gone by simp
    with IH same_routes_trans [OF rt] show ?thesis by blast
  qed
qed

section \<open>Forwarding\<close>

text \<open>The copies of a packet that leave: on a link, or left to the task that looks for a route.\<close>

fun copy_of :: "net_effect \<Rightarrow> packet list" where
  "copy_of (Out s q) = [q]"
| "copy_of (Defer q e) = [q]"
| "copy_of _ = []"

definition copies :: "net_effect list \<Rightarrow> packet list" where
  "copies out = concat (map copy_of out)"

lemma copies_simps [simp]:
  "copies [] = []" "copies (x # xs) = copy_of x @ copies xs" "copies (xs @ ys) = copies xs @ copies ys"
  by (simp_all add: copies_def)

text \<open>What may leave for a packet \<open>p\<close> that arrived on link \<open>s\<close>: one copy at most, with one hop less, on a link
  to an authenticated node other than \<open>s\<close>.\<close>

definition hop_on :: "router \<Rightarrow> nat \<Rightarrow> packet \<Rightarrow> nat \<Rightarrow> packet \<Rightarrow> bool" where
  "hop_on r s p s' q \<longleftrightarrow> same_content p q \<and> p_ttl q = p_ttl p - 1 \<and> 1 < p_ttl p \<and> s' \<noteq> s \<and>
     (\<exists>l \<in> set (ro_links r). lk_serial l = s' \<and> lk_id l \<noteq> None \<and> lk_session l)"

fun fair_effect :: "router \<Rightarrow> nat \<Rightarrow> packet \<Rightarrow> net_effect \<Rightarrow> bool" where
  "fair_effect r s p (Out s' q) \<longleftrightarrow> hop_on r s p s' q"
| "fair_effect r s p (Defer q e) \<longleftrightarrow> same_content p q \<and> p_ttl q = p_ttl p \<and> 1 < p_ttl p \<and> e = Some s"
| "fair_effect r s p (Ended s') \<longleftrightarrow> s' \<noteq> s"
| "fair_effect r s p _ \<longleftrightarrow> True"

definition fair_out :: "router \<Rightarrow> nat \<Rightarrow> packet \<Rightarrow> net_effect list \<Rightarrow> bool" where
  "fair_out r s p out \<longleftrightarrow> (\<forall>x \<in> set out. fair_effect r s p x) \<and> length (copies out) \<le> 1"

lemma decremented_total: "packet_ok h p \<Longrightarrow> \<exists>q. packet_with_decremented_ttl p = Inr q"
  by (simp add: packet_with_decremented_ttl_def packet_with_ttl_def packet_ok_def packet_twin_total)

lemma on_link_hop:
  assumes "packet_ok (nt_hash n) p" "packet_with_decremented_ttl p = Inr outgoing" "on_link n outgoing l q"
  shows "same_content p q \<and> p_ttl q = p_ttl p - 1 \<and> packet_ok (nt_hash n) q"
proof -
  have t: "packet_twin p (p_ttl p - 1) (p_msg_id p) = Inr outgoing"
    using assms(2) by (simp add: packet_with_decremented_ttl_def packet_with_ttl_def)
  note o1 = packet_twin_spec [OF assms(1) t]
  obtain p' where f: "packet_for_link (nt_hash n) (msg_id_algorithm l) outgoing = (Inr q, p')"
    using assms(3) by (metis on_link_def prod.collapse)
  note q = packet_for_link_spec [OF o1(1) f]
  from same_content_trans [OF o1(2) q(3)] q(1,5) o1(3) show ?thesis by simp
qed

lemma tried_fair:
  assumes t: "tried n outgoing ls res out" and u: "all_usable r (Some s) ls" and ttl: "1 < p_ttl p"
    and ok: "packet_ok (nt_hash n) p" "packet_with_decremented_ttl p = Inr outgoing"
  shows "fair_out r s p out" "res = None \<Longrightarrow> copies out = []"
proof -
  obtain gone where g: "\<forall>x \<in> set gone. \<exists>l \<in> set ls. x = Ended (lk_serial l)"
    "case res of None \<Rightarrow> out = gone
       | Some l \<Rightarrow> l \<in> set ls \<and> (\<exists>q. out = gone @ [Out (lk_serial l) q] \<and> on_link n outgoing l q)"
    using t by (auto simp: tried_def)
  have other: "lk_serial l \<noteq> s" if "l \<in> set ls" for l
    using that u by (auto simp: all_usable_def usable_link_def)
  have none: "copies gone = []"
    using g(1) by (induction gone) auto
  have ended: "\<forall>x \<in> set gone. fair_effect r s p x" using g(1) other by fastforce
  have sent: "hop_on r s p (lk_serial l) q" if "l \<in> set ls" "on_link n outgoing l q" for l q
    using on_link_hop [OF ok that(2)] that(1) u other [OF that(1)] ttl
    by (auto simp: hop_on_def all_usable_def usable_link_def)
  show "fair_out r s p out" using g(2) none ended sent
    by (auto simp: fair_out_def split: option.splits)
  show "res = None \<Longrightarrow> copies out = []" using g(2) none by simp
qed

lemma known_all: "all_usable r e ls \<Longrightarrow> router_ok r \<Longrightarrow> same_routes r r' \<Longrightarrow> \<forall>l \<in> set ls. known r' l"
  using known_member same_routes_known by (blast dest: all_usable_def [THEN iffD1, rule_format])

lemma note_forwarded_frame: "\<exists>b. note_forwarded k a s r = r\<lparr> ro_fwd := b \<rparr>"
proof -
  have "note_forwarded k a s r = r\<lparr> ro_fwd := ro_fwd (note_forwarded k a s r) \<rparr>"
    by (simp add: note_forwarded_def Let_def split: option.split prod.split)
  then show ?thesis by (rule exI)
qed

definition same_place :: "router \<Rightarrow> router \<Rightarrow> bool" where
  "same_place r r' \<longleftrightarrow> ro_id r' = ro_id r \<and> ro_seen r' = ro_seen r \<and> ro_stop_rules r' = ro_stop_rules r \<and>
     link_end ` set (ro_links r') \<subseteq> link_end ` set (ro_links r)"

lemma same_place_refl [simp]: "same_place r r"
  by (simp add: same_place_def)

lemma same_place_trans: "same_place r r' \<Longrightarrow> same_place r' r'' \<Longrightarrow> same_place r r''"
  by (simp add: same_place_def) (meson subset_trans)

lemma same_routes_place: "same_routes r r' \<Longrightarrow> same_place r r'"
  by (simp add: same_routes_def same_place_def)

lemma forward_packet_spec:
  assumes "forward_packet n l p key r = (out, r')" "router_ok r" "packet_ok (nt_hash n) p"
  shows "fair_out r (lk_serial l) p out \<and> router_ok r' \<and> same_place r r'"
proof (cases "p_ttl p \<le> 1")
  case False
  obtain ls r1 where c: "route_candidates n (p_dst_id p) (Some (lk_serial l)) r = (ls, r1)" by (meson surj_pair)
  note u = route_candidates_usable(1) [OF c assms(2)]
  have ok1: "router_ok r1" and rt1: "same_routes r r1"
    using route_candidates_ok [OF c assms(2)] route_candidates_routes [OF c] by simp_all
  obtain outgoing where o1: "packet_with_decremented_ttl p = Inr outgoing"
    using decremented_total [OF assms(3)] by blast
  obtain res o2 r2 where s: "send_to_candidates n p outgoing ls r1 = (res, o2, r2)" by (rule prod_cases3)
  note sp = send_to_candidates_spec [OF s ok1 known_all [OF u assms(2) rt1]]
  have tr: "tried n outgoing ls res o2" using sp by simp
  note f = tried_fair [OF tr u _ assms(3) o1]
  have rt2: "same_place r r2" using sp rt1 same_routes_trans same_routes_place by blast
  show ?thesis
  proof (cases res)
    case None
    then have "out = o2 @ [Defer p (Some (lk_serial l))]" "r' = r2"
      using assms(1) False c o1 s by (auto simp: forward_packet_def)
    with f False None sp rt2 show ?thesis by (auto simp: fair_out_def)
  next
    case (Some sent)
    then have out: "out = o2" and r': "r' = note_forwarded key l sent (relayed p r2)"
      using assms(1) False c o1 s by (auto simp: forward_packet_def)
    obtain b where "note_forwarded key l sent (relayed p r2) = (relayed p r2)\<lparr> ro_fwd := b \<rparr>"
      using note_forwarded_frame by blast
    with r' have r'': "r' = (relayed p r2)\<lparr> ro_fwd := b \<rparr>" by (rule trans)
    have "fair_out r (lk_serial l) p out" using f(1) False out by simp
    with sp rt2 show ?thesis unfolding r'' by (simp add: relayed_def router_ok_def same_place_def)
  qed
qed (use assms in \<open>auto simp: forward_packet_def fair_out_def same_place_def\<close>)

lemma reroute_pool_usable: "all_usable r (Some (lk_serial l)) (reroute_pool n l p skip r)"
  using authenticated_peers_usable by (fastforce simp: all_usable_def reroute_pool_def dest!: in_set_takeD)

lemma rerouted_frame: "\<exists>b c. rerouted p key arrived sent res r = r\<lparr> ro_fwd := b, ro_total := c \<rparr>"
proof -
  have "\<exists>b c. r = r\<lparr> ro_fwd := b, ro_total := c \<rparr>"
    by (rule exI [of _ "ro_fwd r"], rule exI [of _ "ro_total r"]) simp
  moreover have "\<exists>b c. relayed p (set_ways key a s r) = r\<lparr> ro_fwd := b, ro_total := c \<rparr>" for a s
    by (rule exI [of _ "AList.update key (a, s) (ro_fwd r)"], rule exI) (simp add: relayed_def set_ways_def)
  ultimately show ?thesis by (simp add: rerouted_def split: option.split)
qed

lemma reroute_copy_spec:
  assumes "reroute_copy n l p key arrived sent r = (out, r')" "router_ok r" "packet_ok (nt_hash n) p" "1 < p_ttl p"
  shows "fair_out r (lk_serial l) p out \<and> router_ok r' \<and> same_place r r'"
proof -
  let ?r1 = "set_ways key arrived sent r"
  let ?pool = "reroute_pool n l p (set arrived \<union> set sent) ?r1"
  have ok1: "router_ok ?r1" and pl1: "same_place r ?r1"
    using assms(2) by (simp_all add: set_ways_def router_ok_def same_place_def)
  obtain outgoing where o1: "packet_with_decremented_ttl p = Inr outgoing"
    using decremented_total [OF assms(3)] by blast
  obtain res o2 r2 where s: "send_to_candidates n p outgoing ?pool ?r1 = (res, o2, r2)" by (rule prod_cases3)
  note sp = send_to_candidates_spec [OF s ok1 known_all [OF reroute_pool_usable ok1 same_routes_refl]]
  have u: "all_usable r (Some (lk_serial l)) ?pool"
    using reroute_pool_usable [of ?r1 l n p "set arrived \<union> set sent"] by (simp add: all_usable_def set_ways_def)
  have f: "fair_out r (lk_serial l) p o2" using tried_fair(1) [OF _ u assms(4) assms(3) o1] sp by blast
  have out: "out = o2" "r' = rerouted p key arrived sent res r2"
    using assms(1) by (simp_all add: reroute_copy_def Let_def o1 s)
  have pl2: "same_place r r2" using same_place_trans [OF pl1 same_routes_place] sp by blast
  obtain b c where "rerouted p key arrived sent res r2 = r2\<lparr> ro_fwd := b, ro_total := c \<rparr>"
    using rerouted_frame by blast
  with out(2) have r': "r' = r2\<lparr> ro_fwd := b, ro_total := c \<rparr>" by (rule trans)
  from f pl2 sp show ?thesis unfolding r' out(1) by (simp add: router_ok_def same_place_def)
qed

lemma reroute_looped_spec:
  assumes "reroute_looped n l p key r = (out, r')" "router_ok r" "packet_ok (nt_hash n) p"
  shows "fair_out r (lk_serial l) p out \<and> router_ok r' \<and> same_place r r'"
proof -
  have "out = [] \<and> r' = r \<or>
      (\<exists>arrived sent. reroute_copy n l p key arrived sent r = (out, r') \<and> 1 < p_ttl p)"
    using assms(1) by (auto simp: reroute_looped_def simp del: map_of_eq_Some_iff split: option.splits if_splits)
  then show ?thesis
  proof (elim disjE exE conjE)
    assume "out = []" "r' = r"
    with assms(2) show ?thesis by (simp add: fair_out_def)
  qed (rule reroute_copy_spec [OF _ assms(2,3)])
qed

section \<open>The door\<close>

text \<open>A complaint changes no route; what the judgement says is not a copy of a packet.\<close>

lemma judged_fair [simp]: "fair_out r s p (map Judged js)"
  by (induction js) (auto simp: fair_out_def)

lemma complain_spec:
  assumes "complain n node w reason r = (out, r')"
  shows "fair_out r0 s p out \<and> (\<exists>js. out = map Judged js) \<and> (router_ok r \<longrightarrow> router_ok r') \<and> same_place r r'"
proof -
  obtain v js g where a: "report_abuse (nt_clk n) (nt_hold n) node w (py reason) KIND_UNSPECIFIED (ro_guard r) = (v, js, g)"
    by (rule prod_cases3)
  have e: "same_ends (ro_guard r) g" using report_abuse_ends a by (metis snd_conv)
  have out: "out = map Judged js" "r' = r\<lparr> ro_guard := g \<rparr>" using assms a by (simp_all add: complain_def)
  have "router_ok r \<longrightarrow> router_ok r'" using e by (auto simp: out same_ends_def intro: router_ok_ends)
  moreover have "same_place r r'"
    using e by (auto simp: out same_place_def same_ends_def) (metis image_eqI list.set_map)
  ultimately show ?thesis using out by auto
qed

lemma stop_out_fair [simp]: "fair_out r s p [Stop_out s' d]" "fair_out r s p []" "fair_out r s p [Handle t s' q]"
    "fair_out r s p [Candidate c]"
  by (simp_all add: fair_out_def)

lemma router_ok_stops [simp]:
  "router_ok (r\<lparr> ro_stops_asked := a \<rparr>) \<longleftrightarrow> router_ok r" "router_ok (r\<lparr> ro_stop_rules := b \<rparr>) \<longleftrightarrow> router_ok r"
  "router_ok (r\<lparr> ro_seen := c \<rparr>) \<longleftrightarrow> router_ok r" "router_ok (r\<lparr> ro_hints := h \<rparr>) \<longleftrightarrow> router_ok r"
  "router_ok (r\<lparr> ro_stop_rate := d \<rparr>) \<longleftrightarrow> router_ok r"
  by (simp_all add: router_ok_def)

definition fair_step :: "router \<Rightarrow> nat \<Rightarrow> packet \<Rightarrow> net_effect list \<Rightarrow> router \<Rightarrow> bool" where
  "fair_step r s p out r' \<longleftrightarrow> fair_out r s p out \<and> router_ok r' \<and> ro_id r' = ro_id r \<and>
     link_end ` set (ro_links r') \<subseteq> link_end ` set (ro_links r)"

lemma fair_step_place: "fair_out r s p out \<Longrightarrow> router_ok r' \<Longrightarrow> same_place r r' \<Longrightarrow> fair_step r s p out r'"
  by (simp add: fair_step_def same_place_def)

lemma ask_stop_relay_fair:
  assumes "ask_stop_relay n l src r = (out, r')" "router_ok r"
  shows "fair_step r s p out r'"
proof -
  have c: "fair_step r s p o2 r2"
    if "complain n via w reason (r\<lparr> ro_stops_asked := a \<rparr>) = (o2, r2)" for via w reason a o2 r2
    using complain_spec [OF that] assms(2) by (simp add: fair_step_def same_place_def)
  have t: "fair_step r s p [] r" "fair_step r s p [Stop_out s' d] (r\<lparr> ro_stops_asked := a \<rparr>)" for s' d a
    using assms(2) by (simp_all add: fair_step_def)
  show ?thesis
    using assms(1) c t
    by (auto simp: ask_stop_relay_def Let_def simp del: map_of_eq_Some_iff
        split: if_splits option.splits sum.splits)
qed

lemma pass_stop_upstream_fair:
  assumes "pass_stop_upstream n l key rule r = (out, r')" "router_ok r"
  shows "fair_step r s p out r'"
proof -
  have c: "fair_step r s p o2 r2"
    if "complain n via w reason (r\<lparr> ro_stop_rules := a \<rparr>) = (o2, r2)" for via w reason a o2 r2
    using complain_spec [OF that] assms(2) by (simp add: fair_step_def same_place_def)
  have t: "fair_step r s p [] r" "fair_step r s p [Stop_out s' d] (r\<lparr> ro_stop_rules := a \<rparr>)" for s' d a
    using assms(2) by (simp_all add: fair_step_def)
  show ?thesis
    using assms(1) c t
    by (auto simp: pass_stop_upstream_def Let_def simp del: map_of_eq_Some_iff split: if_splits option.splits)
qed

lemma refuse_routed_fair:
  assumes "refuse_routed n l p r = (b, out, r')" "router_ok r"
  shows "fair_step r s p out r'" "\<not> b \<Longrightarrow> out = [] \<and> (\<exists>rules. r' = r\<lparr> ro_stop_rules := rules \<rparr>)"
proof -
  have self: "\<exists>rules. r = r\<lparr> ro_stop_rules := rules \<rparr>" by (rule exI [of _ "ro_stop_rules r"]) simp
  have t: "fair_step r s p [] r" "fair_step r s p [] (r\<lparr> ro_stop_rules := a \<rparr>)" for a
    using assms(2) by (simp_all add: fair_step_def)
  have new: "\<exists>rules. r\<lparr> ro_stop_rules := x \<rparr> = r\<lparr> ro_stop_rules := rules \<rparr>" for x by blast
  show "fair_step r s p out r'"
    using assms(1) t ask_stop_relay_fair [OF _ assms(2)] pass_stop_upstream_fair [OF _ assms(2)]
    by (auto simp: refuse_routed_def Let_def simp del: map_of_eq_Some_iff split: if_splits option.splits)
  show "\<not> b \<Longrightarrow> out = [] \<and> (\<exists>rules. r' = r\<lparr> ro_stop_rules := rules \<rparr>)"
    using assms(1) self new
    by (auto simp: refuse_routed_def Let_def simp del: map_of_eq_Some_iff split: if_splits option.splits)
qed

lemma handle_stop_relay_frame: "\<exists>a b. handle_stop_relay n l p r = r\<lparr> ro_stop_rate := a, ro_stop_rules := b \<rparr>"
proof -
  obtain ok table where g: "gossip_allowed (nt_clk n) (rate_key l) STOP_RELAY_RATE_WINDOW STOP_RELAY_RATE_MAX (ro_stop_rate r)
    = (ok, table)" by (meson surj_pair)
  have 1: "\<exists>a b. r\<lparr> ro_stop_rate := table \<rparr> = r\<lparr> ro_stop_rate := a, ro_stop_rules := b \<rparr>"
    by (rule exI [of _ table], rule exI [of _ "ro_stop_rules r"]) simp
  have 2: "\<exists>a b. r\<lparr> ro_stop_rate := table, ro_stop_rules := x \<rparr> = r\<lparr> ro_stop_rate := a, ro_stop_rules := b \<rparr>" for x
    by blast
  show ?thesis using 1 2 by (simp add: handle_stop_relay_def g Let_def split: option.split)
qed

lemma dispatch_fair:
  assumes "dispatch n l p r = (out, r')" "router_ok r"
  shows "fair_step r s q out r'"
proof -
  have stop: "fair_step r s q [] (handle_stop_relay n l p r)"
  proof -
    obtain a b where "handle_stop_relay n l p r = r\<lparr> ro_stop_rate := a, ro_stop_rules := b \<rparr>"
      using handle_stop_relay_frame by blast
    with assms(2) show ?thesis by (simp add: fair_step_def)
  qed
  have report: "fair_step r s q (map Judged js) (r\<lparr> ro_guard := g \<rparr>)"
    if "handle_abuse_report h vf clk wall hold i raw (ro_guard r) = Inr (js, g)" for h vf clk wall hold i raw js g
  proof -
    have e: "same_ends (ro_guard r) g" by (rule handle_abuse_report_ends [OF that])
    then have "router_ok (r\<lparr> ro_guard := g \<rparr>)" using assms(2) by (auto simp: same_ends_def intro: router_ok_ends)
    moreover have "link_end ` set (gd_links g) \<subseteq> link_end ` set (ro_links r)"
      using e unfolding same_ends_def list.set_map [symmetric] by simp
    ultimately show ?thesis using e by (simp add: fair_step_def same_ends_def)
  qed
  have rest: "fair_step r s q [] r" "fair_step r s q [Handle t s' p] r" for t s'
    using assms(2) by (simp_all add: fair_step_def)
  show ?thesis
    using assms(1) stop report rest
    by (auto simp: dispatch_def split: if_splits sum.splits prod.splits)
qed

lemma undeclared_end [simp]: "link_end (k\<lparr> lk_counts := c \<rparr>) = link_end k"
  by (simp add: link_end_def)

lemma change_link_ok: "(\<And>l. link_end (f l) = link_end l) \<Longrightarrow> router_ok r \<Longrightarrow> router_ok (change_link s f r)"
  by (erule router_ok_ends) (simp_all add: change_link_ends, simp add: change_link_def set_links_def)

lemma count_undeclared_spec: "router_ok r \<Longrightarrow> router_ok (count_undeclared l p r)" "same_routes r (count_undeclared l p r)"
  by (auto simp: count_undeclared_def intro!: change_link_ok change_link_routes split: option.split)

lemma fair_step_mono:
  assumes "fair_step r' s p out r''" "same_routes r r'"
  shows "fair_step r s p out r''"
proof -
  have "fair_effect r s p x" if "fair_effect r' s p x" for x
  proof (cases x)
    case (Out s' q)
    with that obtain k where k: "k \<in> set (ro_links r')" "lk_serial k = s'" "lk_id k \<noteq> None" "lk_session k"
      "same_content p q" "p_ttl q = p_ttl p - 1" "1 < p_ttl p" "s' \<noteq> s" by (auto simp: hop_on_def)
    have "link_end k \<in> link_end ` set (ro_links r)" using assms(2) k(1) by (auto simp: same_routes_def)
    with k Out show ?thesis by (auto simp: hop_on_def link_end_def)
  qed (use that in auto)
  moreover have "link_end ` set (ro_links r'') \<subseteq> link_end ` set (ro_links r)"
    using assms by (auto simp: fair_step_def same_routes_def)
  ultimately show ?thesis using assms by (simp add: fair_step_def fair_out_def same_routes_def)
qed

lemma replay_key_packet:
  assumes "packet_ok h p" "packet_replay_key h p = (res, p')"
  shows "packet_ok h p' \<and> same_content p p' \<and> p_ttl p' = p_ttl p"
proof -
  obtain r1 p1 where 1: "id_under h MSG_ID_BLAKE2B p = (r1, p1)" by (meson surj_pair)
  note s1 = id_under_spec [OF assms(1) 1]
  obtain r2 p2 where 2: "packet_msg_id h p1 = (r2, p2)" by (meson surj_pair)
  note s2 = packet_msg_id_spec [OF s1(2) 2]
  obtain r3 p3 where 3: "id_under h MSG_ID_SHA256 p2 = (r3, p3)" by (meson surj_pair)
  note s3 = id_under_spec [OF s2(2) 3]
  have "p' \<in> {p1, p2, p3}"
    using assms(2) 1 2 3 by (auto simp: packet_replay_key_def split: sum.splits if_splits)
  with s1 s2 s3 same_content_trans show ?thesis by (metis empty_iff insert_iff)
qed

lemma fair_step_content:
  assumes "fair_step r s p' out r'" "same_content p p'" "p_ttl p' = p_ttl p"
  shows "fair_step r s p out r'"
proof -
  have "fair_effect r s p x" if "fair_effect r s p' x" for x
    using that assms(2,3) by (cases x) (auto simp: hop_on_def intro: same_content_trans)
  with assms(1) show ?thesis by (simp add: fair_step_def fair_out_def)
qed

lemma learn_reverse_path_frame:
  "\<exists>o2 h. learn_reverse_path n l p r = (o2, r\<lparr> ro_hints := h \<rparr>) \<and> (o2 = [] \<or> o2 = [Candidate (p_src_id p)])"
proof -
  have "\<exists>h. r = r\<lparr> ro_hints := h \<rparr>" by (rule self_hints)
  moreover have "\<exists>h. r\<lparr> ro_hints := x \<rparr> = r\<lparr> ro_hints := h \<rparr>" for x by blast
  ultimately show ?thesis by (simp add: learn_reverse_path_def Let_def)
qed

lemma pass_to_handler_fair:
  assumes "pass_to_handler n l p r = (out, r')" "router_ok r"
  shows "fair_step r s q out r'"
proof -
  note c = count_undeclared_spec [of r l p]
  have "fair_step (count_undeclared l p r) s q out r'"
    using dispatch_fair assms c(1) by (auto simp: pass_to_handler_def)
  then show ?thesis by (rule fair_step_mono [OF _ c(2)])
qed

lemma fair_step_Cons:
  "fair_step r s p out r' \<Longrightarrow> o2 = [] \<or> o2 = [Candidate c] \<Longrightarrow> fair_step r s p (o2 @ out) r'"
  by (auto simp: fair_step_def fair_out_def)

lemma take_routed_fair:
  assumes "take_routed n l p r = (out, r')" "router_ok r" "packet_ok (nt_hash n) p"
  shows "fair_step r (lk_serial l) p out r'"
proof -
  obtain res q where k: "packet_replay_key (nt_hash n) p = (res, q)" by (meson surj_pair)
  note q = replay_key_packet [OF assms(3) k]
  have idle: "fair_step r (lk_serial l) p [] (r\<lparr> ro_seen := sn \<rparr>)" "fair_step r (lk_serial l) p [] r" for sn
    using assms(2) by (simp_all add: fair_step_def)
  show ?thesis
  proof (cases res)
    case (Inl e)
    with assms(1) k idle show ?thesis by (simp add: take_routed_def)
  next
    case (Inr key)
    show ?thesis
    proof (cases key)
      case None
      with Inr assms(1) k idle show ?thesis by (simp add: take_routed_def)
    next
      case (Some key')
      show ?thesis
      proof (cases "is_seen (ro_seen r) key'")
        case None
        with Inr Some assms(1) k idle show ?thesis by (simp add: take_routed_def)
      next
        case (Some st)
        obtain dup sn where st: "st = (dup, sn)" by (cases st)
        let ?r1 = "r\<lparr> ro_seen := sn \<rparr>"
        have same: "fair_step r (lk_serial l) p o2 r2" if "fair_step ?r1 (lk_serial l) q o2 r2" for o2 r2
        proof -
          have "fair_effect r s p' x" if "fair_effect ?r1 s p' x" for s p' x
            using that by (cases x) (auto simp: hop_on_def)
          then have "fair_step r (lk_serial l) q o2 r2" using that by (simp add: fair_step_def fair_out_def)
          with q show ?thesis by (blast intro: fair_step_content)
        qed
        show ?thesis
        proof (cases dup)
          case True
          have "for_us q ?r1 \<and> out = [] \<and> r' = ?r1 \<or> reroute_looped n l q key' ?r1 = (out, r')"
            using assms(1) k Inr \<open>key = Some key'\<close> Some st True
            by (auto simp: take_routed_def Let_def split: if_splits)
          with idle same reroute_looped_spec [of n l q key' ?r1 out r'] assms(2) q show ?thesis
            by (auto intro: fair_step_place)
        next
          case False
          obtain o2 h where lr: "learn_reverse_path n l q ?r1 = (o2, ?r1\<lparr> ro_hints := h \<rparr>)"
            "o2 = [] \<or> o2 = [Candidate (p_src_id q)]" using learn_reverse_path_frame by blast
          let ?r2 = "?r1\<lparr> ro_hints := h \<rparr>"
          obtain o3 r3 where step: "(if for_us q ?r2 then pass_to_handler n l q ?r2
            else forward_packet n l q (Some key') ?r2) = (o3, r3)" by (meson surj_pair)
          have out: "out = o2 @ o3" "r' = r3"
            using assms(1) k Inr \<open>key = Some key'\<close> Some st False lr(1) step
            by (simp_all add: take_routed_def Let_def)
          have "fair_step ?r2 (lk_serial l) q o3 r3"
            using step pass_to_handler_fair [of n l q ?r2] forward_packet_spec [of n l q "Some key'" ?r2] assms(2) q
            by (auto intro: fair_step_place split: if_splits)
          then have "fair_step ?r1 (lk_serial l) q o3 r3"
            by (rule fair_step_mono) (simp add: same_routes_def)
          with same fair_step_Cons lr(2) show ?thesis unfolding out by blast
        qed
      qed
    qed
  qed
qed

lemma take_authenticated_fair:
  assumes "take_authenticated n l p r = (out, r')" "router_ok r" "packet_ok (nt_hash n) p"
  shows "fair_step r (lk_serial l) p out r'"
proof -
  define r1 where "r1 = (if p_type p \<in> CONVERSATION_TYPES
    then change_link (lk_serial l) (\<lambda>k. k\<lparr> lk_last_used := nt_clk n \<rparr>) r else r)"
  have ok1: "router_ok r1" and rt: "same_routes r r1"
    using assms(2) by (auto simp: r1_def intro: change_link_ok change_link_routes)
  obtain b o2 r2 where ref: "refuse_routed n l p r1 = (b, o2, r2)" by (rule prod_cases3)
  note rf = refuse_routed_fair [OF ref ok1]
  have through: "fair_step r1 (lk_serial l) p out r'"
    if nb: "\<not> b" and t: "take_routed n l p r2 = (out, r')"
  proof -
    obtain rules where r2: "r2 = r1\<lparr> ro_stop_rules := rules \<rparr>" using rf(2) [OF nb] by blast
    have eff: "fair_effect r1 s q x" if "fair_effect r2 s q x" for s q x
      using that by (cases x) (auto simp: hop_on_def r2)
    have "fair_step r2 (lk_serial l) p out r'"
      using take_routed_fair [OF t _ assms(3)] ok1 by (simp add: r2)
    then show ?thesis using eff by (simp add: fair_step_def fair_out_def r2)
  qed
  have "fair_step r1 (lk_serial l) p out r'"
  proof (cases "p_type p \<in> ROUTABLE_TYPES")
    case False
    then show ?thesis
      using assms(1) pass_to_handler_fair [OF _ ok1] by (simp add: take_authenticated_def r1_def [symmetric])
  next
    case True
    show ?thesis
    proof (cases "lk_id l = None")
      case True
      with \<open>p_type p \<in> ROUTABLE_TYPES\<close> assms(1) ok1 show ?thesis
        by (simp add: take_authenticated_def r1_def [symmetric] fair_step_def)
    next
      case False
      with True assms(1) ref rf(1) through show ?thesis
        by (cases b) (simp_all add: take_authenticated_def r1_def [symmetric])
    qed
  qed
  then show ?thesis by (rule fair_step_mono [OF _ rt])
qed

section \<open>The relayed invitation\<close>

text \<open>The early handlers leave the routes of a node, and what the send path reads of it, as they were.\<close>

definition beside :: "router \<Rightarrow> router \<Rightarrow> bool" where
  "beside r r' \<longleftrightarrow> ro_id r' = ro_id r \<and> ro_hints r' = ro_hints r \<and> ro_leads r' = ro_leads r \<and> ro_paths r' = ro_paths r \<and>
     ro_bundles r' = ro_bundles r \<and> ro_fwd r' = ro_fwd r \<and> ro_stop_rules r' = ro_stop_rules r \<and>
     ro_stops_asked r' = ro_stops_asked r \<and> map link_end (ro_links r') = map link_end (ro_links r)"

lemma beside_refl [simp]: "beside r r"
  by (simp add: beside_def)

lemma beside_trans: "beside r r' \<Longrightarrow> beside r' r'' \<Longrightarrow> beside r r''"
  by (simp add: beside_def)

lemma beside_set [simp]:
  "beside r (set_invites v r)" "beside r (r\<lparr> ro_seen := sn \<rparr>)" "ro_seen (set_invites v r) = ro_seen r"
  "ro_links (set_invites v r) = ro_links r" "ro_id (set_invites v r) = ro_id r"
  "ro_invites (set_invites v r) = v"
  by (simp_all add: beside_def set_invites_def)

lemma beside_ok: "beside r r' \<Longrightarrow> router_ok r \<Longrightarrow> router_ok r'"
  by (rule router_ok_ends) (simp_all add: beside_def)

text \<open>What such a handler may say: at most two packets, on links other than the one it was called from, or
  one effect that is not a packet of the mesh.\<close>

definition seek_out :: "nat \<Rightarrow> net_effect list \<Rightarrow> bool" where
  "seek_out s out \<longleftrightarrow> length out \<le> 2 \<and>
     (\<forall>x \<in> set out. (\<exists>s' q. x = Out s' q \<and> s' \<noteq> s) \<or> (\<exists>a b. x = Invited a b) \<or> (\<exists>a b. x = Fed a b))"

lemma seek_out_simps [simp]: "seek_out s []" "seek_out s [Invited a b]" "seek_out s [Fed c q]"
  by (simp_all add: seek_out_def)

definition early_step :: "router \<Rightarrow> nat \<Rightarrow> net_effect list \<times> router \<Rightarrow> bool" where
  "early_step r s = (\<lambda>(out, r'). seek_out s out \<and> beside r r' \<and> ro_seen r' = ro_seen r)"

lemma early_idle [simp]:
  "early_step r s ([], r)" "early_step r s ([], set_invites v r)" "early_step r s ([Invited a b], set_invites v r)"
  "early_step r s ([Fed c q], r)"
  by (simp_all add: early_step_def)

lemma early_after:
  "early_step (set_invites v r) s res \<Longrightarrow> early_step r s res"
  by (auto simp: early_step_def beside_trans [OF beside_set(1)])

lemma send_each_spec:
  assumes "send_each n outgoing ls r = (out, r')"
  shows "length out \<le> length ls \<and> (\<forall>x \<in> set out. \<exists>l \<in> set ls. \<exists>q. x = Out (lk_serial l) q) \<and>
    beside r r' \<and> ro_seen r' = ro_seen r"
  using assms
proof (induction ls arbitrary: r out)
  case (Cons l ls)
  obtain sent o1 r1 where s1: "peer_send n outgoing l r = (sent, o1, r1)" by (rule prod_cases3)
  obtain o2 r2 where s2: "send_each n outgoing ls r1 = (o2, r2)" by (meson surj_pair)
  have eq: "out = o1 @ o2" "r' = r2" using Cons.prems s1 s2 by auto
  have o1: "o1 = [] \<or> (\<exists>q. o1 = [Out (lk_serial l) q])" using peer_send_spec [OF s1] by auto
  have b1: "beside r r1 \<and> ro_seen r1 = ro_seen r"
    using s1 change_link_ends [of "count_out _"]
    by (auto simp: peer_send_def beside_def change_link_def set_links_def split: sum.splits outcome.splits)
  from Cons.IH [OF s2 [folded eq(2)]] o1 b1 beside_trans [of r r1 r'] show ?case
    unfolding eq(1) by (elim disjE exE) auto
qed simp

lemma send_each_early:
  assumes "\<forall>k \<in> set ls. lk_serial k \<noteq> s" "length ls \<le> 2"
  shows "early_step r s (send_each n outgoing ls r)"
proof -
  obtain out r' where s: "send_each n outgoing ls r = (out, r')" by (meson surj_pair)
  from send_each_spec [OF s] assms s show ?thesis by (fastforce simp: early_step_def seek_out_def)
qed

lemma forward_seek_early: "early_step r (lk_serial l) (forward_seek n l p r)"
proof -
  have direct: "lk_serial k \<noteq> lk_serial l" if "best_to n (Some (lk_serial l)) t r = Some k" for k t
    using link_to_Some [OF that] by (auto simp: usable_link_def)
  have wide: "\<forall>k \<in> set (seek_candidates l t r). lk_serial k \<noteq> lk_serial l" "length (seek_candidates l t r) \<le> 2" for t
    by (auto simp: seek_candidates_def usable_link_def SEEK_FANOUT_def dest!: in_set_takeD)
  show ?thesis
    using send_each_early [OF wide] send_each_early [of "[k]" for k] direct
    by (simp add: forward_seek_def del: send_each.simps split: sum.split option.split)
qed

lemma handle_short_seek_early: "early_step r (lk_serial l) (handle_short_seek n l p r)"
  using early_after [OF forward_seek_early]
  by (simp add: handle_short_seek_def Let_def split: option.split sum.split)

lemma take_seek_early: "early_step r (lk_serial l) (take_seek n l p r)"
proof -
  have "early_step r (lk_serial l) (on_seek_for_self n l s h (set_invites v r))" for s h v
    by (rule early_after [where v = v]) (simp add: on_seek_for_self_def Let_def split: prod.split)
  with early_after [OF forward_seek_early] show ?thesis
    by (simp add: take_seek_def Let_def split: option.split prod.split)
qed

lemma carry_on_early: "early_step r (lk_serial l) (carry_on n l p r)"
proof -
  obtain rp v where
    look: "rdv_lookup (nt_clk n) (lk_serial ` set (ro_links r)) (p_dst_id p) (ro_invites r) = (rp, v)"
    by (meson surj_pair)
  let ?r = "set_invites v r"
  have one: "early_step ?r (lk_serial l) (send_each n q [k] ?r)" if "lk_serial k \<noteq> lk_serial l" for q k
    using that by (intro send_each_early) simp_all
  have "early_step ?r (lk_serial l) (carry_on n l p r)"
    using one forward_seek_early [of ?r l n p]
    by (simp add: carry_on_def look Let_def del: send_each.simps split: option.split sum.split)
  then show ?thesis by (rule early_after)
qed

text \<open>The replay window takes one key at most.\<close>

definition one_key :: "net \<Rightarrow> packet \<Rightarrow> router \<Rightarrow> router \<Rightarrow> bool" where
  "one_key n p r r' \<longleftrightarrow> ro_seen r' = ro_seen r \<or>
     (\<exists>key dup. fst (packet_replay_key (nt_hash n) p) = Inr (Some key) \<and> is_seen (ro_seen r) key = Some (dup, ro_seen r'))"

lemma first_sight_spec:
  assumes "first_sight n p r = (q, r1)"
  shows "beside r r1 \<and> one_key n p r r1 \<and> ro_invites r1 = ro_invites r"
  using assms by (auto simp: first_sight_def one_key_def split: sum.splits option.splits prod.splits if_splits)

lemma early_rest:
  assumes "first_sight n p (set_invites v r) = (q, r1)" "early_step r1 s (out, r')"
  shows "seek_out s out \<and> beside r r' \<and> one_key n p r r'"
proof -
  have "beside r r1" "one_key n p r r1"
    using first_sight_spec [OF assms(1)] beside_trans [OF beside_set(1)] by (auto simp: one_key_def)
  with assms(2) beside_trans show ?thesis by (fastforce simp: early_step_def one_key_def)
qed

lemma handle_invite_seek_spec:
  assumes "handle_invite_seek n l p r = (out, r')"
  shows "seek_out (lk_serial l) out \<and> beside r r' \<and> one_key n p r r'"
proof -
  obtain ok v where a: "seek_allowed (nt_clk n) (rate_key l) (ro_invites r) = (ok, v)" by (meson surj_pair)
  obtain q r1 where f: "first_sight n p (set_invites v r) = (q, r1)" by (meson surj_pair)
  have some: "early_step r1 (lk_serial l) (if length (p_payload p') = SHORT_SEEK_LEN then handle_short_seek n l p' r1
      else take_seek n l p' r1)" for p'
    by (simp add: handle_short_seek_early take_seek_early)
  have "out = [] \<and> (r' = r \<or> r' = set_invites v r) \<or> early_step r1 (lk_serial l) (out, r')"
  proof (cases "p_ttl p \<le> 0 \<or> \<not> ok")
    case True
    with assms a show ?thesis by (auto simp: handle_invite_seek_def split: if_splits)
  next
    case False
    show ?thesis
    proof (cases q)
      case None
      with False assms a f show ?thesis by (simp add: handle_invite_seek_def)
    next
      case (Some p')
      with False assms a f have "(if length (p_payload p') = SHORT_SEEK_LEN then handle_short_seek n l p' r1
          else take_seek n l p' r1) = (out, r')"
        by (simp add: handle_invite_seek_def)
      with some [of p'] show ?thesis by simp
    qed
  qed
  then show ?thesis
  proof (elim disjE conjE)
    assume "early_step r1 (lk_serial l) (out, r')"
    then show ?thesis by (rule early_rest [OF f])
  qed (simp_all add: one_key_def)
qed

lemma handle_relay_carry_spec:
  assumes "handle_relay_carry n l p r = (out, r')"
  shows "seek_out (lk_serial l) out \<and> beside r r' \<and> one_key n p r r'"
proof -
  obtain ok v where a: "carry_allowed (nt_clk n) (rate_key l) (ro_invites r) = (ok, v)" by (meson surj_pair)
  obtain q r1 where f: "first_sight n p (set_invites v r) = (q, r1)" by (meson surj_pair)
  have fed: "early_step r1 (lk_serial l) (feed_tunnel q' r1, r1)" for q'
    by (simp add: feed_tunnel_def split: option.split sum.split)
  have some: "early_step r1 (lk_serial l) (if p_dst_id p' = ro_id r1 then (feed_tunnel p' r1, r1) else carry_on n l p' r1)" for p'
    by (simp add: fed carry_on_early)
  have "out = [] \<and> (r' = r \<or> r' = set_invites v r) \<or> early_step r1 (lk_serial l) (out, r')"
  proof (cases "p_ttl p \<le> 0 \<or> \<not> ok")
    case True
    with assms a show ?thesis by (auto simp: handle_relay_carry_def split: if_splits)
  next
    case False
    show ?thesis
    proof (cases q)
      case None
      with False assms a f show ?thesis by (simp add: handle_relay_carry_def)
    next
      case (Some p')
      with False assms a f have "(if p_dst_id p' = ro_id r1 then (feed_tunnel p' r1, r1) else carry_on n l p' r1) = (out, r')"
        by (simp add: handle_relay_carry_def)
      with some [of p'] show ?thesis by simp
    qed
  qed
  then show ?thesis
  proof (elim disjE conjE)
    assume "early_step r1 (lk_serial l) (out, r')"
    then show ?thesis by (rule early_rest [OF f])
  qed (simp_all add: one_key_def)
qed

lemma handle_invite_offer_spec: "beside r (handle_invite_offer n l p r) \<and> ro_seen (handle_invite_offer n l p r) = ro_seen r"
  by (simp add: handle_invite_offer_def split: prod.split sum.split option.split)

definition EARLY_TYPES :: "int set" where "EARLY_TYPES = {INVITE_SEEK, INVITE_OFFER, RELAY_CARRY}"

text \<open>A seek may fan out, to two neighbours at most and never back over the link it came on.\<close>

lemma handle_early:
  assumes "handle_packet n l p r = (out, r')" "p_type p \<in> EARLY_TYPES"
  shows "seek_out (lk_serial l) out \<and> beside r r' \<and> one_key n p r r'"
proof -
  have idle: "seek_out (lk_serial l) [] \<and> beside r r \<and> one_key n p r r" by (simp add: one_key_def)
  have offer: "seek_out (lk_serial l) [] \<and> beside r (handle_invite_offer n l p r) \<and> one_key n p r (handle_invite_offer n l p r)"
    using handle_invite_offer_spec [of r n l p] by (simp add: one_key_def)
  consider "lk_tarpit l \<noteq> 0" | "p_type p = INVITE_SEEK" "lk_tarpit l = 0" | "p_type p = INVITE_OFFER" "lk_tarpit l = 0"
    | "p_type p = RELAY_CARRY" "lk_tarpit l = 0"
    using assms(2) by (auto simp: EARLY_TYPES_def)
  then show ?thesis
    using assms(1) idle offer handle_invite_seek_spec handle_relay_carry_spec
    by cases (simp_all add: handle_packet_def INVITE_SEEK_def INVITE_OFFER_def RELAY_CARRY_def)
qed

lemma handle_other:
  "p_type p \<notin> EARLY_TYPES \<Longrightarrow> handle_packet n l p r =
     (if lk_tarpit l \<noteq> 0 \<or> p_type p \<in> DIRECT_TYPES \<and> lk_id l \<noteq> Some (p_src_id p) then ([], r) else take_authenticated n l p r)"
  by (auto simp: EARLY_TYPES_def handle_packet_def)

lemma routable_not_early: "t \<in> ROUTABLE_TYPES \<Longrightarrow> t \<notin> EARLY_TYPES"
  by (auto simp: ROUTABLE_TYPES_def EARLY_TYPES_def INVITE_SEEK_def INVITE_OFFER_def RELAY_CARRY_def)

text \<open>Whatever arrives, from whomever, and is not a seek or a tunnelled packet: at most one copy leaves, with one
  hop less, on another link, to an authenticated node; and the invariant holds afterwards.\<close>

lemma handle_packet_fair:
  assumes "handle_packet n l p r = (out, r')" "router_ok r" "packet_ok (nt_hash n) p"
    and "p_type p \<notin> {INVITE_SEEK, RELAY_CARRY}"
  shows "fair_step r (lk_serial l) p out r'"
proof (cases "p_type p \<in> EARLY_TYPES")
  case True
  then have "p_type p = INVITE_OFFER" using assms(4) by (auto simp: EARLY_TYPES_def)
  then have "out = []"
    using assms(1) by (simp add: handle_packet_def INVITE_OFFER_def INVITE_SEEK_def split: if_splits)
  moreover have b: "beside r r'" using handle_early [OF assms(1) True] by simp
  then have "link_end ` set (ro_links r') = link_end ` set (ro_links r)" by (metis beside_def list.set_map)
  ultimately show ?thesis using beside_ok [OF b assms(2)] b by (simp add: fair_step_def beside_def)
next
  case False
  with assms(1,2) take_authenticated_fair [OF _ assms(2,3)] show ?thesis
    by (auto simp: handle_other fair_step_def split: if_splits)
qed

fun late_effect :: "nat option \<Rightarrow> packet \<Rightarrow> net_effect \<Rightarrow> bool" where
  "late_effect e p (Out s q) \<longleftrightarrow> same_content p q \<and> p_ttl q = p_ttl p - 1 \<and> e \<noteq> Some s"
| "late_effect e p (Ended s) \<longleftrightarrow> True"
| "late_effect e p _ \<longleftrightarrow> False"

lemma deferred_route_task_fair:
  assumes run: "deferred_route_task n p True e acquired r = (out, r')" and ok: "router_ok r"
    and p: "packet_ok (nt_hash n) p" and k: "\<And>l. acquired = Some l \<Longrightarrow> known r l"
  shows "router_ok r' \<and> length (copies out) \<le> 1 \<and> (\<forall>x \<in> set out. late_effect e p x)"
proof -
  define pick where "pick = (case acquired of
      Some l \<Rightarrow> if e \<noteq> Some (lk_serial l) then ([l], r) else route_candidates n (p_dst_id p) e r
    | None \<Rightarrow> route_candidates n (p_dst_id p) e r)"
  obtain ls r1 where c: "pick = (ls, r1)" by (meson surj_pair)
  have looked: "router_ok x2 \<and> (\<forall>l \<in> set x1. known x2 l \<and> e \<noteq> Some (lk_serial l))"
    if rc: "route_candidates n (p_dst_id p) e r = (x1, x2)" for x1 x2
  proof -
    have u: "all_usable r e x1" by (rule route_candidates_usable(1) [OF rc ok])
    have "\<forall>l \<in> set x1. known x2 l" by (rule known_all [OF u ok route_candidates_routes [OF rc]])
    with u route_candidates_ok [OF rc ok] show ?thesis by (auto simp: all_usable_def usable_link_def)
  qed
  have r1: "router_ok r1 \<and> (\<forall>l \<in> set ls. known r1 l \<and> e \<noteq> Some (lk_serial l))"
    using c ok k looked by (auto simp: pick_def split: option.splits if_splits)
  obtain outgoing where o1: "packet_with_decremented_ttl p = Inr outgoing" using decremented_total [OF p] by blast
  obtain res o2 r2 where s: "send_to_candidates n p outgoing ls r1 = (res, o2, r2)" by (rule prod_cases3)
  have "out = o2" "r' = r2"
    using run c s by (simp_all add: deferred_route_task_def pick_def [symmetric] o1)
  moreover have "router_ok r2 \<and> tried n outgoing ls res o2" using send_to_candidates_spec [OF s] r1 by blast
  moreover obtain gone where g: "\<forall>x \<in> set gone. \<exists>l \<in> set ls. x = Ended (lk_serial l)"
    "case res of None \<Rightarrow> o2 = gone
       | Some l \<Rightarrow> l \<in> set ls \<and> (\<exists>q. o2 = gone @ [Out (lk_serial l) q] \<and> on_link n outgoing l q)"
    using calculation(3) by (auto simp: tried_def)
  moreover have "copies gone = []" using g(1) by (induction gone) auto
  ultimately show ?thesis
    using on_link_hop [OF p o1] r1 by (fastforce split: option.splits)
qed

end
