(* ===== verification/Transit.thy ===== *)
theory Transit
  imports Forwarding
begin

text \<open>
  What the door and the send path promise across packets and across nodes: a routed packet never multiplies
  and dies within its hop budget, one copy of it is handled, a reply follows its request, and only a
  destination's signature stops what is relayed to it.
\<close>

section \<open>A packet never multiplies\<close>

text \<open>
  One packet, put on one link of a network of any nodes: the copies that are on a link, and those a node's
  route task holds. A copy may be lost at any moment; each node may be in any state, as long as it satisfies
  the invariant. The count is the number of times a copy was taken in hand. A seek is followed as well, and
  may fan out.
\<close>

definition sent_packets :: "net_effect list \<Rightarrow> packet multiset" where
  "sent_packets out = mset (concat (map (\<lambda>x. case x of Out s q \<Rightarrow> [q] | _ \<Rightarrow> []) out))"

definition left_packets :: "net_effect list \<Rightarrow> (packet \<times> nat option) multiset" where
  "left_packets out = mset (concat (map (\<lambda>x. case x of Defer q e \<Rightarrow> [(q, e)] | _ \<Rightarrow> []) out))"

inductive under_way ::
  "packet \<Rightarrow> nat \<Rightarrow> packet multiset \<Rightarrow> (packet \<times> nat option) multiset \<Rightarrow> bool" for p0 where
  sent: "under_way p0 0 {#p0#} {#}"
| lost: "under_way p0 k (add_mset p A) D \<Longrightarrow> under_way p0 k A D"
| handled: "under_way p0 k (add_mset p A) D \<Longrightarrow> same_content p q \<Longrightarrow> p_ttl q = p_ttl p \<Longrightarrow>
    router_ok r \<Longrightarrow> packet_ok (nt_hash n) q \<Longrightarrow> handle_packet n l q r = (out, r') \<Longrightarrow>
    under_way p0 (Suc k) (A + sent_packets out) (D + left_packets out)"
| searched: "under_way p0 k A (add_mset (p, e) D) \<Longrightarrow> router_ok r \<Longrightarrow> packet_ok (nt_hash n) p \<Longrightarrow>
    (\<And>l. acquired = Some l \<Longrightarrow> known r l) \<Longrightarrow> deferred_route_task n p True e acquired r = (out, r') \<Longrightarrow>
    under_way p0 (Suc k) (A + sent_packets out) D"

definition hops_left :: "packet multiset \<Rightarrow> (packet \<times> nat option) multiset \<Rightarrow> nat" where
  "hops_left A D = sum_mset (image_mset (\<lambda>p. 2 * nat (p_ttl p) + 1) A) + sum_mset (image_mset (\<lambda>(p, _). 2 * nat (p_ttl p)) D)"

lemma size_copies: "size (sent_packets out) + size (left_packets out) = length (copies out)"
  by (induction out) (auto simp: sent_packets_def left_packets_def split: net_effect.split)

lemma sent_mem: "q \<in># sent_packets out \<longleftrightarrow> (\<exists>s. Out s q \<in> set out)"
  by (induction out) (auto simp: sent_packets_def split: net_effect.splits)

lemma left_mem: "(q, e) \<in># left_packets out \<longleftrightarrow> Defer q e \<in> set out"
  by (induction out) (auto simp: left_packets_def split: net_effect.splits)

lemma mset_at_most_one: "size M \<le> 1 \<Longrightarrow> M = {#} \<or> (\<exists>x. M = {#x#})"
  by (cases M) auto

text \<open>One hop costs at least one unit of what is left.\<close>

lemma fair_out_weight:
  assumes "fair_out r s p out"
  shows "hops_left (sent_packets out) (left_packets out) \<le> 2 * nat (p_ttl p)"
proof -
  have one: "size (sent_packets out) + size (left_packets out) \<le> 1"
    using assms by (simp add: size_copies fair_out_def)
  have snt: "1 < p_ttl p \<and> p_ttl q = p_ttl p - 1" if "q \<in># sent_packets out" for q
    using that assms by (fastforce simp: sent_mem fair_out_def hop_on_def)
  have lft: "p_ttl q = p_ttl p" if "(q, e) \<in># left_packets out" for q e
    using that assms by (fastforce simp: left_mem fair_out_def)
  consider "sent_packets out = {#}" "left_packets out = {#}" | q where "sent_packets out = {#q#}" "left_packets out = {#}"
    | q e where "sent_packets out = {#}" "left_packets out = {#(q, e)#}"
  proof -
    have "sent_packets out = {#} \<or> (\<exists>q. sent_packets out = {#q#})" using one by (intro mset_at_most_one) simp
    moreover have "left_packets out = {#} \<or> (\<exists>x. left_packets out = {#x#})" using one by (intro mset_at_most_one) simp
    ultimately show thesis using one that by auto
  qed
  then show ?thesis
  proof cases
    case (2 q)
    then have "1 < p_ttl p" "p_ttl q = p_ttl p - 1" using snt [of q] by simp_all
    then have "2 * nat (p_ttl q) + 1 \<le> 2 * nat (p_ttl p)" by linarith
    with 2 show ?thesis by (simp add: hops_left_def)
  next
    case (3 q e)
    with lft [of q e] show ?thesis by (simp add: hops_left_def)
  qed (simp add: hops_left_def)
qed

lemma late_weight:
  assumes "\<forall>x \<in> set out. late_effect e p x" "length (copies out) \<le> 1" "1 < p_ttl p"
  shows "hops_left (sent_packets out) {#} \<le> 2 * nat (p_ttl p) - 1" "left_packets out = {#}"
proof -
  have snt: "p_ttl q = p_ttl p - 1" if "q \<in># sent_packets out" for q
    using that assms(1) by (fastforce simp: sent_mem)
  have "size (sent_packets out) \<le> 1" using assms(2) size_copies [of out] by simp
  then have "sent_packets out = {#} \<or> (\<exists>q. sent_packets out = {#q#})" by (rule mset_at_most_one)
  moreover have "2 * nat (p_ttl p - 1) + 1 \<le> 2 * nat (p_ttl p) - 1" using assms(3) by linarith
  ultimately show "hops_left (sent_packets out) {#} \<le> 2 * nat (p_ttl p) - 1"
    using snt by (auto simp: hops_left_def)
  show "left_packets out = {#}"
  proof (rule ccontr)
    assume "left_packets out \<noteq> {#}"
    then obtain q x where "(q, x) \<in># left_packets out" by (metis multiset_nonemptyE surj_pair)
    with assms(1) show False by (fastforce simp: left_mem)
  qed
qed

lemma hops_left_plus: "hops_left (A + B) (C + D) = hops_left A C + hops_left B D"
  by (simp add: hops_left_def)

lemma under_way_spec:
  "under_way p0 k A D \<Longrightarrow> p_type p0 \<notin> {INVITE_SEEK, RELAY_CARRY} \<Longrightarrow> k + hops_left A D \<le> 2 * nat (p_ttl p0) + 1 \<and> size A + size D \<le> 1 \<and>
     (\<forall>p \<in># A. same_content p0 p \<and> p_ttl p \<le> p_ttl p0) \<and>
     (\<forall>(p, e) \<in># D. same_content p0 p \<and> p_ttl p \<le> p_ttl p0 \<and> 1 < p_ttl p)"
proof (induction rule: under_way.induct)
  case sent
  then show ?case by (simp add: hops_left_def)
next
  case (lost k p A D)
  then show ?case by (auto simp: hops_left_def)
next
  case (handled k p A D q r n l out r')
  note IH = handled.IH [OF handled.prems]
  have "p_type q = p_type p0" using IH handled.hyps(2) by (auto simp: same_content_def)
  then have f: "fair_out r (lk_serial l) q out"
    using handle_packet_fair [OF handled.hyps(6,4,5)] handled.prems by (simp add: fair_step_def)
  have A: "A = {#}" "D = {#}" using IH by auto
  have "hops_left (sent_packets out) (left_packets out) \<le> 2 * nat (p_ttl p)"
    using fair_out_weight [OF f] handled.hyps(3) by simp
  moreover have "size (sent_packets out) + size (left_packets out) \<le> 1"
    using f by (simp add: size_copies fair_out_def)
  moreover have "same_content p0 x \<and> p_ttl x \<le> p_ttl p0" if "x \<in># sent_packets out" for x
    using that f IH handled.hyps(2,3)
    by (fastforce simp: sent_mem fair_out_def hop_on_def intro: same_content_trans)
  moreover have "same_content p0 x \<and> p_ttl x \<le> p_ttl p0 \<and> 1 < p_ttl x" if "(x, e) \<in># left_packets out" for x e
    using that f IH handled.hyps(2,3)
    by (fastforce simp: left_mem fair_out_def intro: same_content_trans)
  ultimately show ?case
    using IH unfolding A by (auto simp: hops_left_def)
next
  case (searched k A p e D r n acquired out r')
  have f: "length (copies out) \<le> 1 \<and> (\<forall>x \<in> set out. late_effect e p x)"
    using deferred_route_task_fair [OF searched.hyps(5,2,3,4)] by blast
  note IH = searched.IH [OF searched.prems]
  have A: "A = {#}" "D = {#}" and t: "1 < p_ttl p" "same_content p0 p" "p_ttl p \<le> p_ttl p0"
    using IH by auto
  note w = late_weight [OF conjunct2 [OF f] conjunct1 [OF f] t(1)]
  have "same_content p0 x \<and> p_ttl x \<le> p_ttl p0" if "x \<in># sent_packets out" for x
    using that f t by (fastforce simp: sent_mem intro: same_content_trans)
  moreover have "size (sent_packets out) \<le> 1" using f size_copies [of out] by simp
  ultimately show ?case
    using IH w(1) t unfolding A by (auto simp: hops_left_def)
qed

text \<open>
  C1: A packet never multiplies in transit and dies within its hop budget. Take one copy of a packet that is put
  on a link, of any type but the two of the relayed invitation that a node may hand to two neighbours
  (\<open>INVITE_SEEK\<close> and \<open>RELAY_CARRY\<close>). Whatever the states of the nodes it crosses, as long as each keeps its
  invariant, at any moment one copy of it at most is on a link or waits for a route, it is the packet that was
  sent, and copies of it are taken in hand at most twice per hop of its TTL and once more. (A source that
  itself puts several copies on its links, as a first contact does, sends several such packets.)\<close>
theorem packet_dies_out:
  assumes "under_way p k A D" "p_type p \<notin> {INVITE_SEEK, RELAY_CARRY}"
  shows "k \<le> 2 * nat (p_ttl p) + 1 \<and> size A + size D \<le> 1 \<and> (\<forall>q. q \<in># A \<longrightarrow> same_content p q \<and> p_ttl q \<le> p_ttl p)"
  using under_way_spec [OF assms] by auto

section \<open>A node in the middle\<close>

text \<open>Node \<open>9\<close> holds links 1 and 2 to the nodes \<open>1\<close> and \<open>2\<close>; a packet for node \<open>3\<close> arrives on the first.\<close>

definition node_of :: "nat \<Rightarrow> node_id" where
  "node_of k = replicate 20 (word_of_nat k)"

definition mid_link :: "nat \<Rightarrow> link" where
  "mid_link k = \<lparr> lk_id = Some (node_of k), lk_remote = [], lk_tarpit = 0, lk_malformed = 0,
     lk_counts = \<lparr> ob_node_id = node_of k, ob_transport = ''tcp'', ob_packets_in = 0, ob_packets_out = 0,
       ob_bytes_in = 0, ob_bytes_out = 0, ob_undeclared = 0, ob_found_entries = 0, ob_found_self = 0,
       ob_answers_judged = 0, ob_answers_disjoint = 0, ob_ka_outside = 0, ob_ka_ignored = 0,
       ob_ka_impossible = 0, ob_profile_break = False, ob_issuer_burst = False \<rparr>,
     lk_serial = k, lk_session = True, lk_agreed = None, lk_rtt = None, lk_quality = new_link_quality 0,
     lk_last_used = 0 \<rparr>"

definition mid_guard :: guard where
  "mid_guard = \<lparr> gd_id = node_of 9, gd_rep = new_reputation 1 2 3600 10, gd_witnesses = {}, gd_sent = [], gd_seen = [],
     gd_gossip = True, gd_rate = [], gd_links = [mid_link 1, mid_link 2],
     gd_watch = new_watch RULES (1 / 2) ISSUER_RULES RULE_RECHARGE, gd_notices = [], gd_arrivals = [],
     gd_certs = new_cert_store (node_of 9) 16 4 16 \<rparr>"

definition mid_router :: router where
  "mid_router = \<lparr> ro_guard = mid_guard, ro_hints = [], ro_paths = new_path_book 16 3 300, ro_leads = [],
     ro_route_hold = 600, ro_bundles = [], ro_traffic = [],
     ro_seen = \<lparr> s_slots = 4, s_mask = 3, s_limit = 2, s_seed = 0, s_young = [0, 0, 0, 0], s_old = [0, 0, 0, 0],
       s_young_count = 0, s_old_count = 0, s_zero_young = False, s_zero_old = False \<rparr>,
     ro_fwd = [], ro_stop_rules = [], ro_stops_asked = [], ro_stop_rate = [], ro_total = new_counters,
     ro_invites = \<lparr> iv_seek_rate = [], iv_carry_rate = [], iv_offer_rate = [], iv_rdv = [], iv_offers = [], iv_pending = [],
       iv_relays = [], iv_codes = [] \<rparr> \<rparr>"

definition zero_hash :: hash_env where
  "zero_hash = \<lparr> h_sha256 = (\<lambda>m. replicate 32 0), h_blake2b = (\<lambda>n _ _. replicate n 0) \<rparr>"

definition mid_net :: net where
  "mid_net = \<lparr> nt_clk = 1, nt_wall = 1000, nt_hash = zero_hash, nt_verify = (\<lambda>_ _ _. True), nt_sign = (\<lambda>_. []),
     nt_pub = [], nt_hold = (\<lambda>_. 60), nt_nonce = replicate 12 0, nt_scoring = \<lparr> sc_prio = (\<lambda>_. None), sc_balance = 50 \<rparr>,
     nt_wire = (\<lambda>_ _. Sent) \<rparr>"

definition echo_packet :: "int \<Rightarrow> packet" where
  "echo_packet ttl = \<lparr> p_version = 1, p_type = 0x1C, p_ttl = ttl, p_src_id = node_of 7, p_dst_id = node_of 3,
     p_msg_id = None, p_nonce = replicate 12 0, p_gcm_tag = replicate 16 0, p_payload = [], p_sha256_id = None,
     p_blake2b_id = None \<rparr>"

lemma mid_router_ok: "router_ok mid_router"
  by (simp add: router_ok_def mid_router_def mid_guard_def mid_link_def bundles_ok_def)

lemma echo_packet_ok: "packet_ok zero_hash (echo_packet ttl)"
  by (simp add: packet_ok_def packet_shape_def echo_packet_def node_of_def MAX_PAYLOAD_def)

lemma node_of_inj: "k < 256 \<Longrightarrow> m < 256 \<Longrightarrow> node_of k = node_of m \<longleftrightarrow> k = m"
proof -
  assume "k < 256" "m < 256"
  then have "(word_of_nat k :: byte) = word_of_nat m \<longleftrightarrow> k = m"
    by (metis unat_byte_of_nat)
  then show ?thesis by (simp add: node_of_def)
qed

lemma echo_key: "packet_replay_key zero_hash (echo_packet ttl) =
    (Inr (Some 0), (echo_packet ttl)\<lparr> p_msg_id := Some 0, p_sha256_id := Some 0, p_blake2b_id := Some 0 \<rparr>)"
  by (simp add: packet_replay_key_def id_under_def packet_msg_id_def msg_id_over_def msg_id_prefix_def pack_uint_def
      echo_packet_def zero_hash_def blake2b_id_def sha256_id_def take_replicate)

lemma echo_fields [simp]:
  "p_type (echo_packet ttl) = 0x1C" "p_ttl (echo_packet ttl) = ttl" "p_src_id (echo_packet ttl) = node_of 7"
  "p_dst_id (echo_packet ttl) = node_of 3" "p_payload (echo_packet ttl) = []"
  by (simp_all add: echo_packet_def)

lemma mid_fields [simp]:
  "lk_id (mid_link k) = Some (node_of k)" "lk_tarpit (mid_link k) = 0" "lk_serial (mid_link k) = k"
  "lk_session (mid_link k)" "lk_agreed (mid_link k) = None" "lk_remote (mid_link k) = []"
  "ro_links mid_router = [mid_link 1, mid_link 2]" "ro_id mid_router = node_of 9" "ro_hints mid_router = []"
  "ro_bundles mid_router = []" "ro_stop_rules mid_router = []" "ro_fwd mid_router = []"
  "has_path t (ro_paths mid_router) = False"
  by (simp_all add: mid_link_def mid_router_def mid_guard_def has_path_def new_path_book_def)

lemma mid_net_fields [simp]:
  "nt_clk mid_net = 1" "nt_hash mid_net = zero_hash" "nt_wire mid_net s p = Sent"
  by (simp_all add: mid_net_def)

lemma mid_fresh: "\<exists>sn. is_seen (ro_seen mid_router) 0 = Some (False, sn)"
  by (simp add: is_seen_def seen_add_def MASK64_def mid_router_def)

lemma node_of_other [simp]:
  "node_of 1 \<noteq> node_of 3" "node_of 2 \<noteq> node_of 3" "node_of 3 \<noteq> node_of 9" "node_of 7 \<noteq> node_of 1" "node_of 7 \<noteq> node_of 9"
  "node_of 3 \<noteq> BROADCAST_ID" "node_of (Suc 0) \<noteq> node_of 3" "node_of (Suc 0) \<noteq> node_of 7" "node_of (Suc 0) \<noteq> node_of 2"
  by (simp_all add: node_of_inj) (simp add: node_of_def BROADCAST_ID_def)

lemma mid_candidates:
  "fst (route_candidates mid_net (node_of 3) (Some 1) (mid_router\<lparr> ro_seen := sn, ro_hints := [(node_of 7, v)] \<rparr>)) = [mid_link 2]"
  by (simp add: route_candidates_def ordered_hops_def authenticated_peers_def usable_link_def measured_first_hops_def
      stripe_def ROUTE_SEND_FANOUT_def hop_key_def route_hint_peer_def node_of_inj)

abbreviation keyed :: "packet \<Rightarrow> packet" where
  "keyed p \<equiv> p\<lparr> p_msg_id := Some 0, p_sha256_id := Some 0, p_blake2b_id := Some 0 \<rparr>"

lemma keyed_decrement: "packet_with_decremented_ttl (keyed (echo_packet ttl)) = Inr (keyed (echo_packet (ttl - 1)))"
  by (simp add: packet_with_decremented_ttl_def packet_with_ttl_def packet_twin_def new_packet_def echo_packet_def
      node_of_def MAX_PAYLOAD_def)

lemma keyed_for_link: "fst (packet_for_link zero_hash alg (keyed (echo_packet ttl))) = Inr (keyed (echo_packet ttl))"
  by (cases alg) (simp_all add: packet_for_link_def id_under_def echo_packet_def Let_def)

lemma mid_forwards:
  "\<exists>r'. forward_packet mid_net (mid_link 1) (keyed (echo_packet 2)) key
      (mid_router\<lparr> ro_seen := sn, ro_hints := [(node_of 7, v)] \<rparr>) = ([Out 2 (keyed (echo_packet 1))], r')"
proof -
  let ?r = "mid_router\<lparr> ro_seen := sn, ro_hints := [(node_of 7, v)] \<rparr>"
  obtain r1 where c: "route_candidates mid_net (node_of 3) (Some 1) ?r = ([mid_link 2], r1)"
    using mid_candidates by (metis prod.collapse)
  have d: "packet_with_decremented_ttl (keyed (echo_packet 2)) = Inr (keyed (echo_packet 1))"
    using keyed_decrement [of 2] by simp
  show ?thesis
    using c by (simp add: forward_packet_def d peer_send_def keyed_for_link CONVERSATION_TYPES_def)
qed

lemma mid_handles:
  "\<exists>r'. handle_packet mid_net (mid_link 1) (echo_packet 2) mid_router =
     ([Candidate (node_of 7), Out 2 (keyed (echo_packet 1))], r')"
proof -
  obtain sn where sn: "is_seen (ro_seen mid_router) 0 = Some (False, sn)" using mid_fresh by blast
  obtain r' where f: "forward_packet mid_net (mid_link 1) (keyed (echo_packet 2)) (Some 0)
      (mid_router\<lparr> ro_seen := sn, ro_hints := [(node_of 7, node_of 1, 1)] \<rparr>) = ([Out 2 (keyed (echo_packet 1))], r')"
    using mid_forwards by blast
  show ?thesis
    using sn f
    by (simp add: handle_packet_def take_authenticated_def take_routed_def echo_key INVITE_SEEK_def INVITE_OFFER_def
        RELAY_CARRY_def DIRECT_TYPES_def CONVERSATION_TYPES_def ROUTABLE_TYPES_def refuse_routed_def
        learn_reverse_path_def for_us_def Let_def ROUTE_HINT_MAX_def od_to_end_def)
qed

theorem packet_dies_out_witness:
  "\<exists>A D. under_way (echo_packet 2) 1 A D \<and> A = {#keyed (echo_packet 1)#} \<and> D = {#} \<and>
     1 \<le> 2 * nat (p_ttl (echo_packet 2)) + 1 \<and> size A + size D \<le> 1"
proof -
  obtain r' where h: "handle_packet mid_net (mid_link 1) (echo_packet 2) mid_router =
     ([Candidate (node_of 7), Out 2 (keyed (echo_packet 1))], r')" using mid_handles by blast
  have "under_way (echo_packet 2) (Suc 0) ({#} + sent_packets [Candidate (node_of 7), Out 2 (keyed (echo_packet 1))])
      ({#} + left_packets [Candidate (node_of 7), Out 2 (keyed (echo_packet 1))])"
    by (rule under_way.handled [OF under_way.sent same_content_refl refl mid_router_ok _ h])
      (simp add: echo_packet_ok)
  then have u: "under_way (echo_packet 2) 1 {#keyed (echo_packet 1)#} {#}"
    by (simp add: sent_packets_def left_packets_def)
  from packet_dies_out [OF u] u show ?thesis by (simp add: INVITE_SEEK_def RELAY_CARRY_def)
qed

section \<open>One copy of a packet is handled\<close>

definition quiet :: "net_effect list \<Rightarrow> bool" where
  "quiet out \<longleftrightarrow> (\<forall>x \<in> set out. (\<exists>j. x = Judged j) \<or> (\<exists>s d. x = Stop_out s d))"

lemma quiet_simps [simp]: "quiet []" "quiet [Stop_out s d]" "quiet (map Judged js)"
  by (auto simp: quiet_def)

lemma complain_quiet:
  "complain n node w reason r = (out, r') \<Longrightarrow> quiet out \<and> ro_seen r' = ro_seen r \<and> ro_stop_rules r' = ro_stop_rules r"
  using complain_spec by (fastforce simp: same_place_def)

lemma ask_stop_relay_quiet:
  "ask_stop_relay n l src r = (out, r') \<Longrightarrow> quiet out \<and> ro_seen r' = ro_seen r \<and> ro_stop_rules r' = ro_stop_rules r"
  by (auto simp: ask_stop_relay_def Let_def simp del: map_of_eq_Some_iff dest: complain_quiet
      split: if_splits option.splits sum.splits)

lemma pass_stop_upstream_quiet:
  "pass_stop_upstream n l key rule r = (out, r') \<Longrightarrow> quiet out \<and> ro_seen r' = ro_seen r"
  by (auto simp: pass_stop_upstream_def Let_def simp del: map_of_eq_Some_iff dest: complain_quiet
      split: if_splits option.splits)

lemma refuse_routed_quiet:
  "refuse_routed n l p r = (b, out, r') \<Longrightarrow> quiet out \<and> ro_seen r' = ro_seen r"
  by (auto simp: refuse_routed_def Let_def simp del: map_of_eq_Some_iff
      dest: ask_stop_relay_quiet pass_stop_upstream_quiet split: if_splits option.splits)

lemma change_link_seen [simp]: "ro_seen (change_link s f r) = ro_seen r" "ro_stop_rules (change_link s f r) = ro_stop_rules r"
  by (simp_all add: change_link_def set_links_def)

text \<open>A routed packet is either dropped before the replay window or goes through it.\<close>

lemma handle_routable:
  assumes "handle_packet n l p r = (out, r')" "p_type p \<in> ROUTABLE_TYPES"
  shows "quiet out \<and> ro_seen r' = ro_seen r \<or>
    (\<exists>r2. take_routed n l p r2 = (out, r') \<and> ro_seen r2 = ro_seen r \<and> (router_ok r \<longrightarrow> router_ok r2))"
proof -
  define r1 where "r1 = (if p_type p \<in> CONVERSATION_TYPES
    then change_link (lk_serial l) (\<lambda>k. k\<lparr> lk_last_used := nt_clk n \<rparr>) r else r)"
  have r1: "ro_seen r1 = ro_seen r" "router_ok r \<longrightarrow> router_ok r1"
    by (auto simp: r1_def intro: change_link_ok)
  have no: "p_type p \<notin> EARLY_TYPES" using assms(2) by (rule routable_not_early)
  obtain b o2 r2 where ref: "refuse_routed n l p r1 = (b, o2, r2)" by (rule prod_cases3)
  note q = refuse_routed_quiet [OF ref]
  have ok2: "router_ok r \<longrightarrow> router_ok r2" if "\<not> b" 
    using r1(2) refuse_routed_fair(1) [OF ref] by (auto simp: fair_step_def)
  show ?thesis
  proof (cases "lk_tarpit l \<noteq> 0 \<or> p_type p \<in> DIRECT_TYPES \<and> lk_id l \<noteq> Some (p_src_id p) \<or> lk_id l = None")
    case True
    then have "out = [] \<and> ro_seen r' = ro_seen r"
      using assms no r1 by (auto simp: handle_other take_authenticated_def r1_def [symmetric] split: if_splits)
    then show ?thesis by simp
  next
    case False
    then have "handle_packet n l p r = take_authenticated n l p r" using no by (auto simp: handle_other)
    also obtain via where "lk_id l = Some via" using False by auto
    then have "take_authenticated n l p r = (if b then (o2, r2) else take_routed n l p r2)"
      using assms(2) ref by (simp add: take_authenticated_def r1_def [symmetric])
    finally show ?thesis using assms(1) q r1(1) ok2 by (auto split: if_splits)
  qed
qed

lemma dispatch_seen: "dispatch n l p r = (out, r') \<Longrightarrow> ro_seen r' = ro_seen r"
proof -
  assume d: "dispatch n l p r = (out, r')"
  obtain a b where "handle_stop_relay n l p r = r\<lparr> ro_stop_rate := a, ro_stop_rules := b \<rparr>"
    using handle_stop_relay_frame by blast
  then have "ro_seen (handle_stop_relay n l p r) = ro_seen r" by simp
  with d show ?thesis by (auto simp: dispatch_def split: if_splits sum.splits prod.splits)
qed

lemma pass_to_handler_seen: "pass_to_handler n l p r = (out, r') \<Longrightarrow> ro_seen r' = ro_seen r"
  using count_undeclared_spec(2) [of r l p] by (auto simp: pass_to_handler_def same_routes_def dest!: dispatch_seen)

definition handed :: "net_effect list \<Rightarrow> bool" where
  "handed out \<longleftrightarrow> (\<exists>t s q. Handle t s q \<in> set out)"

lemma handed_simps [simp]: "\<not> handed []" "handed (xs @ ys) \<longleftrightarrow> handed xs \<or> handed ys"
    "\<not> handed [Out s p]" "\<not> handed [Ended s]" "\<not> handed [Defer p e]" "\<not> handed [Candidate c]"
  by (auto simp: handed_def)

lemma quiet_not_handed: "quiet out \<Longrightarrow> \<not> handed out"
  by (auto simp: quiet_def handed_def)

lemma send_plain:
  "send_to_candidates n p outgoing ls r = (res, out, r') \<Longrightarrow>
     \<not> handed out \<and> ro_seen r' = ro_seen r \<and> ro_stop_rules r' = ro_stop_rules r"
proof (induction ls arbitrary: r out)
  case (Cons l ls)
  obtain sent o1 r1 where s1: "peer_send n outgoing l r = (sent, o1, r1)" by (rule prod_cases3)
  have sp: "\<not> handed o1 \<and> ro_seen r1 = ro_seen r \<and> ro_stop_rules r1 = ro_stop_rules r"
    using peer_send_spec [OF s1] by (auto simp: same_routes_def)
  obtain gone r2 where e: "end_link l r1 = (gone, r2)" by (meson surj_pair)
  have gone: "\<not> handed gone \<and> ro_seen r2 = ro_seen r \<and> ro_stop_rules r2 = ro_stop_rules r"
    using sp e end_link_routes [of r1 l] by (auto simp: same_routes_def end_link_def Let_def)
  show ?case
  proof (cases sent)
    case Sent
    then show ?thesis using Cons.prems s1 sp by auto
  next
    case Busy
    obtain res2 o2 r3 where rec: "send_to_candidates n p outgoing ls r1 = (res2, o2, r3)" by (rule prod_cases3)
    have eq: "res2 = res" "out = o1 @ o2" "r3 = r'" using Cons.prems s1 Busy rec by auto
    from Cons.IH [OF rec [unfolded eq(1,3)]] sp show ?thesis by (simp add: eq(2))
  next
    case Broken
    obtain res2 o2 r3 where rec: "send_to_candidates n p outgoing ls r2 = (res2, o2, r3)" by (rule prod_cases3)
    have eq: "res2 = res" "out = o1 @ gone @ o2" "r3 = r'" using Cons.prems s1 Broken e rec by auto
    from Cons.IH [OF rec [unfolded eq(1,3)]] sp gone show ?thesis by (simp add: eq(2))
  qed
qed simp

lemma forward_plain:
  assumes "forward_packet n l p key r = (out, r')"
  shows "\<not> handed out \<and> ro_seen r' = ro_seen r \<and> ro_stop_rules r' = ro_stop_rules r"
proof -
  obtain ls r1 where c: "route_candidates n (p_dst_id p) (Some (lk_serial l)) r = (ls, r1)" by (meson surj_pair)
  have r1: "ro_seen r1 = ro_seen r" "ro_stop_rules r1 = ro_stop_rules r"
    using route_candidates_routes [OF c] by (simp_all add: same_routes_def)
  show ?thesis
  proof (cases "packet_with_decremented_ttl p")
    case (Inl e)
    with assms c r1 show ?thesis by (auto simp: forward_packet_def split: if_splits)
  next
    case (Inr o1)
    obtain res o2 r2 where s: "send_to_candidates n p o1 ls r1 = (res, o2, r2)" by (rule prod_cases3)
    note sp = send_plain [OF s]
    have nf: "ro_seen (note_forwarded key l k (relayed p r2)) = ro_seen r2"
      "ro_stop_rules (note_forwarded key l k (relayed p r2)) = ro_stop_rules r2" for k
      using note_forwarded_frame [of key l k "relayed p r2"] by (auto simp: relayed_def)
    show ?thesis using assms c Inr s sp r1 nf
      by (auto simp: forward_packet_def split: if_splits option.splits)
  qed
qed

lemma reroute_plain:
  assumes "reroute_looped n l p key r = (out, r')"
  shows "\<not> handed out \<and> ro_seen r' = ro_seen r \<and> ro_stop_rules r' = ro_stop_rules r"
proof -
  have copy: "\<not> handed o2 \<and> ro_seen r2 = ro_seen r \<and> ro_stop_rules r2 = ro_stop_rules r"
    if "reroute_copy n l p key arrived way r = (o2, r2)" for arrived way o2 r2
  proof (cases "packet_with_decremented_ttl p")
    case (Inl e)
    with that show ?thesis by (auto simp: reroute_copy_def set_ways_def)
  next
    case (Inr o1)
    let ?r1 = "set_ways key arrived way r"
    obtain res o3 r3 where s: "send_to_candidates n p o1 (reroute_pool n l p (set arrived \<union> set way) ?r1) ?r1 = (res, o3, r3)"
      by (rule prod_cases3)
    have eq: "o2 = o3" "r2 = rerouted p key arrived way res r3"
      using that Inr s by (simp_all add: reroute_copy_def Let_def)
    have "ro_seen (rerouted p key arrived way res r3) = ro_seen r3"
      "ro_stop_rules (rerouted p key arrived way res r3) = ro_stop_rules r3"
      using rerouted_frame [of p key arrived way res r3] by auto
    with send_plain [OF s] eq show ?thesis by (simp add: set_ways_def)
  qed
  with assms show ?thesis
    by (auto simp: reroute_looped_def simp del: map_of_eq_Some_iff split: option.splits if_splits)
qed

lemma take_routed_seen:
  assumes "take_routed n l p r = (out, r')"
  shows "\<not> handed out \<and> ro_seen r' = ro_seen r \<or>
    (\<exists>key dup. fst (packet_replay_key (nt_hash n) p) = Inr (Some key) \<and>
       is_seen (ro_seen r) key = Some (dup, ro_seen r') \<and> (dup \<longrightarrow> \<not> handed out))"
proof -
  obtain res q where k: "packet_replay_key (nt_hash n) p = (res, q)" by (meson surj_pair)
  show ?thesis
  proof (cases "\<exists>key. res = Inr (Some key) \<and> is_seen (ro_seen r) key \<noteq> None")
    case False
    then have "out = [] \<and> r' = r"
      using assms k by (auto simp: take_routed_def split: sum.splits option.splits)
    then show ?thesis by simp
  next
    case True
    then obtain key dup sn where key: "res = Inr (Some key)" and sn: "is_seen (ro_seen r) key = Some (dup, sn)" by auto
    let ?r1 = "r\<lparr> ro_seen := sn \<rparr>"
    show ?thesis
    proof (cases dup)
      case True
      have "out = [] \<and> r' = ?r1 \<or> reroute_looped n l q key ?r1 = (out, r')"
        using assms k key sn True by (auto simp: take_routed_def Let_def split: if_splits)
      then have "\<not> handed out \<and> ro_seen r' = sn" using reroute_plain [of n l q key ?r1 out r'] by auto
      with k key sn show ?thesis by auto
    next
      case False
      obtain o2 h where lr: "learn_reverse_path n l q ?r1 = (o2, ?r1\<lparr> ro_hints := h \<rparr>)"
        using learn_reverse_path_frame by blast
      let ?r2 = "?r1\<lparr> ro_hints := h \<rparr>"
      obtain o3 r3 where step: "(if for_us q ?r2 then pass_to_handler n l q ?r2
        else forward_packet n l q (Some key) ?r2) = (o3, r3)" by (meson surj_pair)
      have "r' = r3" using assms k key sn False lr step by (simp add: take_routed_def Let_def)
      moreover have "ro_seen r3 = sn"
        using step pass_to_handler_seen [of n l q ?r2] forward_plain [of n l q "Some key" ?r2]
        by (auto split: if_splits)
      ultimately show ?thesis using k key sn False by auto
    qed
  qed
qed

lemma replay_key_is:
  assumes "packet_ok h p" "fst (packet_replay_key h p) = Inr (Some key)"
  shows "content_id h p MSG_ID_BLAKE2B = Inr key"
proof -
  obtain r1 p1 where 1: "id_under h MSG_ID_BLAKE2B p = (r1, p1)" by (meson surj_pair)
  have "r1 = Inr key" using assms(2) 1 by (auto simp: packet_replay_key_def split: sum.splits prod.splits if_splits)
  with id_under_spec(1) [OF assms(1) 1] show ?thesis by simp
qed

lemma replay_key_valid:
  "hash_lengths_ok h \<Longrightarrow> packet_ok h p \<Longrightarrow> fst (packet_replay_key h p) = Inr (Some key) \<Longrightarrow> valid_id key"
  using content_id_range [OF _ replay_key_is] by (fastforce simp: MASK64_def)

text \<open>Packets that arrive, one after the other, each on its link and with what the node reads at that moment.\<close>

type_synonym arrival = "net \<times> link \<times> packet"

fun take_all :: "arrival list \<Rightarrow> router \<Rightarrow> router" where
  "take_all [] r = r"
| "take_all ((n, l, p) # es) r = take_all es (snd (handle_packet n l p r))"

definition well_formed_arrival :: "hash_env \<Rightarrow> arrival \<Rightarrow> bool" where
  "well_formed_arrival h = (\<lambda>(n, l, p). nt_hash n = h \<and> packet_ok h p)"

lemma handle_packet_seen:
  assumes "handle_packet n l p r = (out, r')" "well_formed_arrival h (n, l, p)" "hash_lengths_ok h"
  shows "\<exists>vs. length vs \<le> 1 \<and> list_all valid_id vs \<and> seen_run (ro_seen r) vs = Some (ro_seen r')"
proof -
  have same: ?thesis if "ro_seen r' = ro_seen r" using that by (intro exI [of _ "[]"]) simp
  have p: "nt_hash n = h" "packet_ok h p" using assms(2) by (simp_all add: well_formed_arrival_def)
  show ?thesis
  proof (cases "p_type p \<in> ROUTABLE_TYPES \<union> EARLY_TYPES")
    case True
    have "ro_seen r' = ro_seen r \<or> one_key n p r r'"
    proof (cases "p_type p \<in> ROUTABLE_TYPES")
      case True
      from handle_routable [OF assms(1) this] take_routed_seen show ?thesis by (fastforce simp: one_key_def)
    qed (use True handle_early [OF assms(1)] in auto)
    then show ?thesis
    proof (elim disjE)
      assume "one_key n p r r'"
      then consider "ro_seen r' = ro_seen r" | key dup where "fst (packet_replay_key h p) = Inr (Some key)"
        "is_seen (ro_seen r) key = Some (dup, ro_seen r')" using p(1) by (auto simp: one_key_def)
      then show ?thesis
      proof cases
        case (2 key dup)
        then show ?thesis using replay_key_valid [OF assms(3) p(2) 2(1)] by (intro exI [of _ "[key]"]) simp
      qed (rule same)
    qed (rule same)
  next
    case False
    have "ro_seen r' = ro_seen r"
      using assms(1) False pass_to_handler_seen
      by (auto simp: handle_other take_authenticated_def split: if_splits)
    then show ?thesis by (rule same)
  qed
qed

lemma seen_run_append: "seen_run s vs = Some s1 \<Longrightarrow> seen_run s1 ws = Some s2 \<Longrightarrow> seen_run s (vs @ ws) = Some s2"
  by (induction vs arbitrary: s) (auto simp: bind_eq_Some_conv)

lemma take_all_seen:
  "list_all (well_formed_arrival h) es \<Longrightarrow> hash_lengths_ok h \<Longrightarrow>
     \<exists>vs. length vs \<le> length es \<and> list_all valid_id vs \<and> seen_run (ro_seen r) vs = Some (ro_seen (take_all es r))"
proof (induction es arbitrary: r)
  case Nil
  show ?case by (rule exI [of _ "[]"]) simp
next
  case (Cons e es)
  obtain n l p where e: "e = (n, l, p)" by (cases e)
  obtain out r1 where h: "handle_packet n l p r = (out, r1)" by (meson surj_pair)
  obtain vs where vs: "length vs \<le> 1" "list_all valid_id vs" "seen_run (ro_seen r) vs = Some (ro_seen r1)"
    using handle_packet_seen [OF h] Cons.prems e by auto
  obtain ws where ws: "length ws \<le> length es" "list_all valid_id ws"
      "seen_run (ro_seen r1) ws = Some (ro_seen (take_all es r1))"
    using Cons.IH [of r1] Cons.prems by auto
  have "seen_run (ro_seen r) (vs @ ws) = Some (ro_seen (take_all (e # es) r))"
    using seen_run_append [OF vs(3) ws(3)] h by (simp add: e)
  with vs ws show ?case by (intro exI [of _ "vs @ ws"]) simp
qed

text \<open>
  C2: A routed packet is handled at most once. Once a packet has been given to its handler, no packet with the
  same content is, under whichever of the two ids and whatever TTL it comes back and on whatever link, as
  long as fewer packets than the capacity of the replay window arrived in between.\<close>
theorem handled_at_most_once:
  assumes first: "handle_packet n l p r = (out, r1)" "handed out" "well_formed_arrival h (n, l, p)"
    and types: "p_type p \<in> ROUTABLE_TYPES" and state: "seen_ok (ro_seen r)" "hash_lengths_ok h"
    and between: "list_all (well_formed_arrival h) es" "length es < seen_capacity (ro_seen r)"
    and again: "well_formed_arrival h (n', l', p')" "same_content p p'"
  shows "\<not> handed (fst (handle_packet n' l' p' (take_all es r1)))"
proof
  let ?r2 = "take_all es r1"
  assume second: "handed (fst (handle_packet n' l' p' ?r2))"
  obtain out' r3 where h3: "handle_packet n' l' p' ?r2 = (out', r3)" by (meson surj_pair)
  have types': "p_type p' \<in> ROUTABLE_TYPES" using types again(2) by (simp add: same_content_def)
  have p: "nt_hash n = h" "packet_ok h p" "nt_hash n' = h" "packet_ok h p'"
    using first(3) again(1) by (simp_all add: well_formed_arrival_def)
  have fresh: "\<exists>key s'. content_id h q MSG_ID_BLAKE2B = Inr key \<and> valid_id key \<and> is_seen (ro_seen ra) key = Some (False, s') \<and>
      s' = ro_seen rb"
    if run: "handle_packet m k q ra = (o1, rb)" "handed o1" "p_type q \<in> ROUTABLE_TYPES" "nt_hash m = h" "packet_ok h q"
    for m k q ra o1 rb
  proof -
    from handle_routable [OF run(1,3)] quiet_not_handed run(2)
    obtain r2 where t: "take_routed m k q r2 = (o1, rb)" "ro_seen r2 = ro_seen ra" by blast
    from take_routed_seen [OF t(1)] run(2) obtain key where key: "fst (packet_replay_key (nt_hash m) q) = Inr (Some key)"
      "is_seen (ro_seen r2) key = Some (False, ro_seen rb)" by auto
    with replay_key_is [OF run(5)] replay_key_valid [OF state(2) run(5)] run(4) t(2) show ?thesis by auto
  qed
  obtain key where key: "content_id h p MSG_ID_BLAKE2B = Inr key" "valid_id key"
    "is_seen (ro_seen r) key = Some (False, ro_seen r1)"
    using fresh [OF first(1,2) types p(1,2)] by auto
  obtain vs where vs: "length vs \<le> length es" "list_all valid_id vs" "seen_run (ro_seen r1) vs = Some (ro_seen ?r2)"
    using take_all_seen [OF between(1) state(2)] by blast
  have "length vs < seen_capacity (ro_seen r)" using vs(1) between(2) by simp
  then obtain s3 where s3: "is_seen (ro_seen ?r2) key = Some (True, s3)"
    using seen.duplicate_refused [OF state(1) key(2) vs(2) key(3)] vs(3) by (auto simp: seen_capacity_def)
  obtain key' where "content_id h p' MSG_ID_BLAKE2B = Inr key'" "is_seen (ro_seen ?r2) key' = Some (False, ro_seen r3)"
    using fresh [OF h3 _ types' p(3,4)] second h3 by auto
  with s3 key(1) content_id_cong [OF again(2)] show False by simp
qed

lemma mid_seen: "new_seen 0 2 = Inr (ro_seen mid_router)"
  by (simp add: new_seen_def grow_slots.simps Let_def push_bit_eq_mult mid_router_def) (simp add: numeral_eq_Suc)

definition own_packet :: packet where
  "own_packet = (echo_packet 2)\<lparr> p_dst_id := node_of 9 \<rparr>"

lemma own_packet_ok: "packet_ok zero_hash own_packet"
  by (simp add: packet_ok_def packet_shape_def own_packet_def echo_packet_def node_of_def MAX_PAYLOAD_def)

lemma mid_takes_own: "\<exists>r'. handle_packet mid_net (mid_link 1) own_packet mid_router =
    ([Candidate (node_of 7), Handle 0x1C 1 (keyed own_packet)], r')"
proof -
  have key: "packet_replay_key zero_hash own_packet = (Inr (Some 0), keyed own_packet)"
    by (simp add: packet_replay_key_def id_under_def packet_msg_id_def msg_id_over_def msg_id_prefix_def pack_uint_def
        own_packet_def echo_packet_def zero_hash_def blake2b_id_def sha256_id_def take_replicate)
  obtain sn where "is_seen (ro_seen mid_router) 0 = Some (False, sn)" using mid_fresh by blast
  moreover have "p_type own_packet = 0x1C" "p_dst_id own_packet = node_of 9" "p_src_id own_packet = node_of 7"
    by (simp_all add: own_packet_def)
  moreover have "node_of 9 \<noteq> BROADCAST_ID" by (simp add: node_of_def BROADCAST_ID_def)
  ultimately show ?thesis
    by (simp add: handle_packet_def take_authenticated_def take_routed_def key INVITE_SEEK_def INVITE_OFFER_def
        RELAY_CARRY_def DIRECT_TYPES_def CONVERSATION_TYPES_def ROUTABLE_TYPES_def refuse_routed_def
        learn_reverse_path_def for_us_def Let_def pass_to_handler_def count_undeclared_def dispatch_def
        HANDLED_TYPES_def STOP_RELAY_def ABUSE_REPORT_def mid_router_def mid_guard_def new_reputation_def
        rep_standing_def rep_score_def verdict_of_def)
qed

theorem handled_at_most_once_witness:
  "\<exists>out r1. handle_packet mid_net (mid_link 1) own_packet mid_router = (out, r1) \<and> handed out \<and>
     \<not> handed (fst (handle_packet mid_net (mid_link 2) (own_packet\<lparr> p_ttl := 9 \<rparr>) (take_all [] r1)))"
proof -
  obtain r1 where first: "handle_packet mid_net (mid_link 1) own_packet mid_router =
    ([Candidate (node_of 7), Handle 0x1C 1 (keyed own_packet)], r1)" using mid_takes_own by blast
  have wf: "well_formed_arrival zero_hash (mid_net, mid_link 1, own_packet)"
    "well_formed_arrival zero_hash (mid_net, mid_link 2, own_packet\<lparr> p_ttl := 9 \<rparr>)"
    using own_packet_ok by (simp_all add: well_formed_arrival_def packet_ok_def packet_shape_def)
  have hd: "handed [Candidate (node_of 7), Handle 0x1C 1 (keyed own_packet)]" by (auto simp: handed_def)
  have "\<not> handed (fst (handle_packet mid_net (mid_link 2) (own_packet\<lparr> p_ttl := 9 \<rparr>) (take_all [] r1)))"
  proof (rule handled_at_most_once [OF first hd wf(1)])
    show "p_type own_packet \<in> ROUTABLE_TYPES" by (simp add: own_packet_def ROUTABLE_TYPES_def)
    show "seen_ok (ro_seen mid_router)" by (rule new_seen_ok(1) [OF mid_seen])
    show "hash_lengths_ok zero_hash" by (simp add: hash_lengths_ok_def zero_hash_def)
    show "length [] < seen_capacity (ro_seen mid_router)" by (simp add: seen_capacity_def mid_router_def)
    show "same_content own_packet (own_packet\<lparr> p_ttl := 9 \<rparr>)" by (simp add: same_content_def)
  qed (use wf(2) in simp_all)
  with first hd show ?thesis by auto
qed

section \<open>Only a destination stops what is relayed to it\<close>

definition signed_rule :: "hash_env \<Rightarrow> verifier \<Rightarrow> bytes \<times> bytes \<Rightarrow> stop_rule \<Rightarrow> bool" where
  "signed_rule h vf key rule \<longleftrightarrow>
     (\<exists>now req. stop_parse h vf (su_record rule) now = Some req \<and> key = (sq_blocked req, sq_requester req))"

abbreviation rules_signed :: "hash_env \<Rightarrow> verifier \<Rightarrow> router \<Rightarrow> bool" where
  "rules_signed h vf r \<equiv> od_all (signed_rule h vf) (ro_stop_rules r)"

lemma file_stop_rule_signed:
  assumes "od_all (signed_rule h vf) rules" "stop_parse h vf data now = Some req"
  shows "od_all (signed_rule h vf) (file_stop_rule clk (sq_blocked req, sq_requester req) until data rules)"
proof -
  have new: "signed_rule h vf (sq_blocked req, sq_requester req) rule" if "su_record rule = data" for rule
    using assms(2) that by (auto simp: signed_rule_def)
  show ?thesis
    using assms(1) by (auto simp: file_stop_rule_def Let_def new intro!: od_all_intros split: option.split)
qed

lemma pass_stop_upstream_signed:
  assumes "pass_stop_upstream n l key rule r = (out, r')" "rules_signed h vf r" "signed_rule h vf key rule"
  shows "rules_signed h vf r'"
proof -
  have same: "signed_rule h vf key rule'" if "su_record rule' = su_record rule" for rule'
    using assms(3) that by (simp add: signed_rule_def)
  have upd: "od_all (signed_rule h vf) (AList.update key rule' (ro_stop_rules r))" if "su_record rule' = su_record rule" for rule'
    using assms(2) same [OF that] by (rule od_all_update)
  show ?thesis
    using assms(1,2) upd
    by (auto simp: pass_stop_upstream_def Let_def simp del: map_of_eq_Some_iff dest!: complain_quiet
        split: if_splits option.splits)
qed

lemma refuse_routed_signed:
  assumes "refuse_routed n l p r = (b, out, r')" "rules_signed h vf r"
  shows "rules_signed h vf r'" "b \<Longrightarrow> p_dst_id p \<noteq> ro_id r \<Longrightarrow> \<exists>rule. signed_rule h vf (p_src_id p, p_dst_id p) rule"
proof -
  show "rules_signed h vf r'"
  proof (cases "p_dst_id p = ro_id r")
    case True
    with assms ask_stop_relay_quiet [of n l "p_src_id p" r] show ?thesis
      by (auto simp: refuse_routed_def Let_def split: if_splits)
  next
    case False
    show ?thesis
    proof (cases "map_of (ro_stop_rules r) (p_src_id p, p_dst_id p)")
      case None
      with assms False show ?thesis by (simp add: refuse_routed_def Let_def)
    next
      case (Some rule)
      note od_allD [OF assms(2) Some]
      with assms False Some pass_stop_upstream_signed [of n l "(p_src_id p, p_dst_id p)" rule r out r'] show ?thesis
        by (auto simp: refuse_routed_def Let_def od_all_delete simp del: map_of_eq_Some_iff split: if_splits)
    qed
  qed
  show "b \<Longrightarrow> p_dst_id p \<noteq> ro_id r \<Longrightarrow> \<exists>rule. signed_rule h vf (p_src_id p, p_dst_id p) rule"
    using assms od_allD [OF assms(2)]
    by (auto simp: refuse_routed_def Let_def simp del: map_of_eq_Some_iff split: option.splits)
qed

lemma handle_stop_relay_signed:
  "rules_signed (nt_hash n) (nt_verify n) r \<Longrightarrow> rules_signed (nt_hash n) (nt_verify n) (handle_stop_relay n l p r)"
  by (auto simp: handle_stop_relay_def Let_def intro!: file_stop_rule_signed split: prod.split option.split)

lemma pass_to_handler_signed:
  assumes "pass_to_handler n l p r = (out, r')" "rules_signed (nt_hash n) (nt_verify n) r"
  shows "rules_signed (nt_hash n) (nt_verify n) r'"
proof -
  have "ro_stop_rules (count_undeclared l p r) = ro_stop_rules r"
    using count_undeclared_spec(2) [of r l p] by (simp add: same_routes_def)
  then have c: "rules_signed (nt_hash n) (nt_verify n) (count_undeclared l p r)" using assms(2) by simp
  show ?thesis
    using assms(1) c handle_stop_relay_signed [OF c, of l p]
    by (auto simp: pass_to_handler_def dispatch_def split: if_splits sum.splits prod.splits)
qed

lemma take_routed_signed:
  assumes "take_routed n l p r = (out, r')" "rules_signed (nt_hash n) (nt_verify n) r"
  shows "rules_signed (nt_hash n) (nt_verify n) r'"
proof -
  obtain res q where k: "packet_replay_key (nt_hash n) p = (res, q)" by (meson surj_pair)
  show ?thesis
  proof (cases "\<exists>key dup sn. res = Inr (Some key) \<and> is_seen (ro_seen r) key = Some (dup, sn)")
    case False
    then have "r' = r" using assms(1) k by (auto simp: take_routed_def split: sum.splits option.splits)
    with assms(2) show ?thesis by simp
  next
    case True
    then obtain key dup sn where key: "res = Inr (Some key)" and sn: "is_seen (ro_seen r) key = Some (dup, sn)" by auto
    let ?r1 = "r\<lparr> ro_seen := sn \<rparr>"
    show ?thesis
    proof (cases dup)
      case True
      have "r' = ?r1 \<or> reroute_looped n l q key ?r1 = (out, r')"
        using assms(1) k key sn True by (auto simp: take_routed_def Let_def split: if_splits)
      with reroute_plain [of n l q key ?r1 out r'] assms(2) show ?thesis by auto
    next
      case False
      obtain o2 h where lr: "learn_reverse_path n l q ?r1 = (o2, ?r1\<lparr> ro_hints := h \<rparr>)"
        using learn_reverse_path_frame by blast
      let ?r2 = "?r1\<lparr> ro_hints := h \<rparr>"
      obtain o3 r3 where step: "(if for_us q ?r2 then pass_to_handler n l q ?r2
        else forward_packet n l q (Some key) ?r2) = (o3, r3)" by (meson surj_pair)
      have "r' = r3" using assms(1) k key sn False lr step by (simp add: take_routed_def Let_def)
      moreover have "rules_signed (nt_hash n) (nt_verify n) r3"
        using step pass_to_handler_signed [of n l q ?r2] forward_plain [of n l q "Some key" ?r2] assms(2)
        by (auto split: if_splits)
      ultimately show ?thesis by simp
    qed
  qed
qed

lemma handle_packet_signed:
  assumes "handle_packet n l p r = (out, r')" "rules_signed (nt_hash n) (nt_verify n) r"
  shows "rules_signed (nt_hash n) (nt_verify n) r'"
proof (cases "p_type p \<in> EARLY_TYPES")
  case True
  with handle_early [OF assms(1)] assms(2) show ?thesis by (simp add: beside_def)
next
  case False
  define r1 where "r1 = (if p_type p \<in> CONVERSATION_TYPES
    then change_link (lk_serial l) (\<lambda>k. k\<lparr> lk_last_used := nt_clk n \<rparr>) r else r)"
  have r1: "rules_signed (nt_hash n) (nt_verify n) r1" using assms(2) by (simp add: r1_def)
  obtain b o2 r2 where ref: "refuse_routed n l p r1 = (b, o2, r2)" by (rule prod_cases3)
  note r2 = refuse_routed_signed(1) [OF ref r1]
  have "r' \<in> {r, r1, r2} \<or> take_routed n l p r2 = (out, r') \<or> pass_to_handler n l p r1 = (out, r')"
    using assms(1) ref False
    by (cases b) (auto simp: handle_other take_authenticated_def r1_def [symmetric] split: if_splits)
  with assms(2) r1 r2 take_routed_signed [OF _ r2] pass_to_handler_signed [OF _ r1] show ?thesis by auto
qed

lemma take_all_signed:
  "rules_signed h vf r \<Longrightarrow> \<forall>(n, l, p) \<in> set es. nt_hash n = h \<and> nt_verify n = vf \<Longrightarrow> rules_signed h vf (take_all es r)"
proof (induction es arbitrary: r)
  case (Cons e es)
  obtain n l p where e: "e = (n, l, p)" by (cases e)
  obtain o1 r1 where h1: "handle_packet n l p r = (o1, r1)" by (meson surj_pair)
  with handle_packet_signed [OF h1] Cons.prems e have "rules_signed h vf r1" by simp
  with Cons.IH [of r1] Cons.prems(2) h1 e show ?case by simp
qed simp

text \<open>A packet for another node that is new and has hops left is sent on, or left to the task that looks for a route.\<close>

lemma forward_packet_copies:
  assumes "forward_packet n l p key r = (out, r')" "packet_ok (nt_hash n) p" "1 < p_ttl p"
  shows "copies out \<noteq> []"
proof -
  obtain ls r1 where c: "route_candidates n (p_dst_id p) (Some (lk_serial l)) r = (ls, r1)" by (meson surj_pair)
  obtain o1 where o1: "packet_with_decremented_ttl p = Inr o1" using decremented_total [OF assms(2)] by blast
  obtain res o2 r2 where s: "send_to_candidates n p o1 ls r1 = (res, o2, r2)" by (rule prod_cases3)
  have sent: "send_to_candidates n p o1 ls ra = (Some k, oa, rb) \<Longrightarrow> copies oa \<noteq> []" for ls ra k oa rb
  proof (induction ls arbitrary: ra oa)
    case (Cons m ms)
    obtain x ox rx where px: "peer_send n o1 m ra = (x, ox, rx)" by (rule prod_cases3)
    obtain gone rg where e: "end_link m rx = (gone, rg)" by (meson surj_pair)
    obtain a b c where bz: "send_to_candidates n p o1 ms rx = (a, b, c)" by (rule prod_cases3)
    obtain a' b' c' where br: "send_to_candidates n p o1 ms rg = (a', b', c')" by (rule prod_cases3)
    show ?case
    proof (cases x)
      case Sent
      then have "copies ox \<noteq> []" using peer_send_spec [OF px] by auto
      with Cons.prems px Sent show ?thesis by auto
    next
      case Busy
      with Cons.prems px bz Cons.IH [of rx b] show ?thesis by auto
    next
      case Broken
      with Cons.prems px br e Cons.IH [of rg b'] show ?thesis by auto
    qed
  qed simp
  show ?thesis
    using assms(1,3) c o1 s sent by (cases res) (auto simp: forward_packet_def)
qed

lemma take_routed_copies:
  assumes "take_routed n l p r = (out, r')" "packet_ok (nt_hash n) p" "1 < p_ttl p" "\<not> for_us p r"
    and key: "fst (packet_replay_key (nt_hash n) p) = Inr (Some key)" "is_seen (ro_seen r) key = Some (False, sn)"
  shows "copies out \<noteq> []"
proof -
  obtain q where k: "packet_replay_key (nt_hash n) p = (Inr (Some key), q)" using key(1) by (metis prod.collapse)
  note q = replay_key_packet [OF assms(2) k]
  let ?r1 = "r\<lparr> ro_seen := sn \<rparr>"
  obtain o2 h where lr: "learn_reverse_path n l q ?r1 = (o2, ?r1\<lparr> ro_hints := h \<rparr>)" using learn_reverse_path_frame by blast
  let ?r2 = "?r1\<lparr> ro_hints := h \<rparr>"
  have away: "\<not> for_us q ?r2" using assms(4) q by (simp add: for_us_def same_content_def)
  obtain o3 r3 where f: "forward_packet n l q (Some key) ?r2 = (o3, r3)" by (meson surj_pair)
  have "copies o3 \<noteq> []" using forward_packet_copies [OF f] q assms(3) by simp
  moreover have "out = o2 @ o3" using assms(1) k key(2) lr away f by (simp add: take_routed_def Let_def)
  ultimately show ?thesis by simp
qed

lemma relays_or_refuses:
  assumes "handle_packet n l p r = (out, r')" "p_type p \<in> ROUTABLE_TYPES" "lk_tarpit l = 0" "lk_id l \<noteq> None"
    and "packet_ok (nt_hash n) p" "1 < p_ttl p" "\<not> for_us p r"
    and key: "fst (packet_replay_key (nt_hash n) p) = Inr (Some key)" "is_seen (ro_seen r) key = Some (False, sn)"
    and none: "copies out = []"
  shows "\<exists>r1 o2 r2. refuse_routed n l p r1 = (True, o2, r2) \<and> ro_stop_rules r1 = ro_stop_rules r \<and> ro_id r1 = ro_id r"
proof -
  define r1 where "r1 = (if p_type p \<in> CONVERSATION_TYPES
    then change_link (lk_serial l) (\<lambda>k. k\<lparr> lk_last_used := nt_clk n \<rparr>) r else r)"
  have r1: "ro_seen r1 = ro_seen r" "ro_stop_rules r1 = ro_stop_rules r" "ro_id r1 = ro_id r"
    by (simp_all add: r1_def change_link_def set_links_def)
  obtain b o2 r2 where ref: "refuse_routed n l p r1 = (b, o2, r2)" by (rule prod_cases3)
  have "p_type p \<notin> DIRECT_TYPES" using assms(2) by (auto simp: ROUTABLE_TYPES_def DIRECT_TYPES_def)
  then have "handle_packet n l p r = take_authenticated n l p r"
    using assms(2,3) by (simp add: handle_other routable_not_early)
  also have "take_authenticated n l p r = (if b then (o2, r2) else take_routed n l p r2)"
    using assms(2,4) ref by (auto simp: take_authenticated_def r1_def [symmetric])
  finally have go: "(if b then (o2, r2) else take_routed n l p r2) = (out, r')" using assms(1) by simp
  have b
  proof (rule ccontr)
    assume "\<not> b"
    then have t: "take_routed n l p r2 = (out, r')" using go by simp
    have self: "\<exists>x. r1 = r1\<lparr> ro_stop_rules := x \<rparr>" by (rule exI [of _ "ro_stop_rules r1"]) simp
    have "\<exists>x. r2 = r1\<lparr> ro_stop_rules := x \<rparr>"
      using ref \<open>\<not> b\<close> self
      by (auto simp: refuse_routed_def Let_def simp del: map_of_eq_Some_iff split: if_splits option.splits)
    then have r2: "ro_seen r2 = ro_seen r" "\<not> for_us p r2" using r1 assms(7) by (auto simp: for_us_def)
    from take_routed_copies [OF t assms(5,6) r2(2) key(1)] key(2) r2(1) none show False by simp
  qed
  with ref have "refuse_routed n l p r1 = (True, o2, r2)" by simp
  with r1 show ?thesis by blast
qed


text \<open>Node \<open>0\<close> asks node \<open>9\<close>, over link 1, to stop relaying node \<open>7\<close> to it.\<close>

definition stop_record :: bytes where
  "stop_record = be_bytes 1 1 @ be_bytes 8 1000 @ be_bytes 8 2000 @ node_of 7 @ be_bytes 2 1 @ be_bytes 2 1 @ [5, 6]"

definition stop_packet :: packet where
  "stop_packet = (echo_packet 1)\<lparr> p_type := STOP_RELAY, p_src_id := node_of 1, p_dst_id := node_of 9, p_payload := stop_record \<rparr>"

definition silenced_packet :: packet where
  "silenced_packet = (echo_packet 5)\<lparr> p_dst_id := node_of 0 \<rparr>"

lemma stop_record_parses:
  "stop_parse zero_hash (\<lambda>_ _ _. True) stop_record 1000 =
     Some \<lparr> sq_requester = node_of 0, sq_blocked = node_of 7, sq_issued_at = 1000, sq_expires_at = 2000 \<rparr>"
proof -
  define h0 h1 h2 h3 h4 h5 where "h0 = be_bytes 1 1" and "h1 = be_bytes 8 1000" and "h2 = be_bytes 8 2000"
    and "h3 = node_of 7" and "h4 = be_bytes 2 1" and "h5 = be_bytes 2 1"
  note hd = h0_def h1_def h2_def h3_def h4_def h5_def
  have d: "stop_record = h0 @ h1 @ h2 @ h3 @ h4 @ h5 @ [5, 6]" by (simp only: stop_record_def hd)
  have hl: "length h0 = 1" "length h1 = 8" "length h2 = 8" "length h3 = 20" "length h4 = 2" "length h5 = 2"
    by (simp_all add: hd node_of_def del: be_bytes.simps)
  have v: "be_val h0 = 1" "be_val h1 = 1000" "be_val h2 = 2000" "be_val h4 = 1" "be_val h5 = 1"
    by (simp_all add: hd del: be_bytes.simps)
  have f: "slice 0 1 stop_record = h0" "slice 1 9 stop_record = h1" "slice 9 17 stop_record = h2"
    "slice 17 37 stop_record = h3" "slice 37 39 stop_record = h4" "slice 39 41 stop_record = h5"
    by (simp_all add: d slice_def hl)
  have "key_id zero_hash x = node_of 0" for x by (simp add: key_id_def zero_hash_def node_of_def)
  moreover have "node_of 0 \<noteq> h3" by (simp add: hd node_of_inj)
  moreover have "length stop_record = 43" by (simp add: d hl)
  ultimately show ?thesis
    by (simp add: stop_parse_def f [simplified] v STOP_MAX_RECORD_def STOP_HDR_SIZE_def STOP_MAX_TTL_def
        STOP_CLOCK_SKEW_def Let_def) (simp add: hd)
qed

lemma mid_takes_stop:
  "snd (handle_packet mid_net (mid_link 1) stop_packet mid_router) =
     mid_router\<lparr> ro_stop_rate := [(node_of 1, 1, 1)],
       ro_stop_rules := [((node_of 7, node_of 0), \<lparr> su_until = 1001, su_record = stop_record, su_told = [], su_charged = {} \<rparr>)] \<rparr>"
proof -
  have len: "length stop_record = 43" by (simp add: stop_record_def node_of_def del: be_bytes.simps)
  then have ne: "stop_record \<noteq> []" by auto
  have f: "p_type stop_packet = 0x33" "p_src_id stop_packet = node_of 1" "p_payload stop_packet = stop_record"
    by (simp_all add: stop_packet_def STOP_RELAY_def)
  have n: "nt_wall mid_net = 1000" "nt_verify mid_net = (\<lambda>_ _ _. True)" by (simp_all add: mid_net_def)
  have r: "ro_stop_rate mid_router = []" by (simp add: mid_router_def)
  show ?thesis
    using stop_record_parses node_of_inj [of 0 9]
    by (simp add: handle_packet_def take_authenticated_def f n r len ne INVITE_SEEK_def INVITE_OFFER_def RELAY_CARRY_def
        CONVERSATION_TYPES_def ROUTABLE_TYPES_def pass_to_handler_def count_undeclared_def dispatch_def
        HANDLED_TYPES_def STOP_RELAY_def handle_stop_relay_def gossip_allowed_def rate_key_def
        STOP_RELAY_RATE_WINDOW_def STOP_RELAY_RATE_MAX_def MAX_PEERS_def STOP_RELAY_MAX_def file_stop_rule_def
        STOP_RULES_PER_DST_def Let_def)
qed

lemma quiet_no_copies: "quiet out \<Longrightarrow> copies out = []"
  by (induction out) (auto simp: quiet_def)


section \<open>A reply follows its request\<close>

text \<open>What the send path reads of a node: the ends of its links, its hints, paths, bundles and who it is.\<close>

definition same_map :: "router \<Rightarrow> router \<Rightarrow> bool" where
  "same_map r r' \<longleftrightarrow> map link_end (ro_links r') = map link_end (ro_links r) \<and> ro_hints r' = ro_hints r \<and>
     ro_paths r' = ro_paths r \<and> ro_bundles r' = ro_bundles r \<and> ro_id r' = ro_id r"

lemma same_map_trans: "same_map r r' \<Longrightarrow> same_map r' r'' \<Longrightarrow> same_map r r''"
  by (simp add: same_map_def)

lemma change_link_map: "(\<And>l. link_end (f l) = link_end l) \<Longrightarrow> same_map r (change_link s f r)"
  by (simp add: same_map_def change_link_ends) (simp add: change_link_def set_links_def)

lemma count_undeclared_map: "same_map r (count_undeclared l p r)"
proof -
  have "same_map r r" by (simp add: same_map_def)
  then show ?thesis
    by (auto simp: count_undeclared_def intro!: change_link_map split: option.split)
qed

lemma handed_through:
  assumes "handle_packet n l p r = (out, r')" "p_type p \<in> ROUTABLE_TYPES" "handed out"
  shows "\<exists>r2. take_routed n l p r2 = (out, r') \<and> same_map r r2"
proof -
  define r1 where "r1 = (if p_type p \<in> CONVERSATION_TYPES
    then change_link (lk_serial l) (\<lambda>k. k\<lparr> lk_last_used := nt_clk n \<rparr>) r else r)"
  have m1: "same_map r r1"
    using change_link_map [of "\<lambda>k. k\<lparr> lk_last_used := nt_clk n \<rparr>"] by (auto simp: r1_def same_map_def)
  have no: "p_type p \<notin> EARLY_TYPES" using assms(2) by (rule routable_not_early)
  obtain b o2 r2 where ref: "refuse_routed n l p r1 = (b, o2, r2)" by (rule prod_cases3)
  have nq: "\<not> handed o2" using refuse_routed_quiet [OF ref] quiet_not_handed by blast
  have go: "take_authenticated n l p r = (out, r')" using assms no by (auto simp: handle_other split: if_splits)
  then have auth: "\<not> lk_id l = None" "\<not> b" "take_routed n l p r2 = (out, r')"
    using assms(2,3) nq ref by (auto simp: take_authenticated_def r1_def [symmetric] split: if_splits bool.splits)
  obtain rules where "r2 = r1\<lparr> ro_stop_rules := rules \<rparr>"
  proof -
    have self: "\<exists>rules. r1 = r1\<lparr> ro_stop_rules := rules \<rparr>" by (rule exI [of _ "ro_stop_rules r1"]) simp
    have new: "\<exists>rules. r1\<lparr> ro_stop_rules := x \<rparr> = r1\<lparr> ro_stop_rules := rules \<rparr>" for x by blast
    have "\<exists>rules. r2 = r1\<lparr> ro_stop_rules := rules \<rparr>"
      using ref auth(2) self new
      by (auto simp: refuse_routed_def Let_def simp del: map_of_eq_Some_iff split: if_splits option.splits)
    with that show thesis by blast
  qed
  then have "same_map r1 r2" by (simp add: same_map_def)
  with m1 auth(3) same_map_trans show ?thesis by blast
qed

lemma dispatch_handed: "dispatch n l p r = (out, r') \<Longrightarrow> handed out \<Longrightarrow> r' = r"
  by (auto simp: dispatch_def handed_def split: if_splits sum.splits)

lemma take_routed_learns:
  assumes "take_routed n l p r = (out, r')" "handed out" "packet_ok (nt_hash n) p"
  shows "same_map (snd (learn_reverse_path n l p r)) r'"
proof -
  obtain res q where k: "packet_replay_key (nt_hash n) p = (res, q)" by (meson surj_pair)
  have qp: "p_src_id q = p_src_id p" "p_dst_id q = p_dst_id p"
    using replay_key_packet [OF assms(3) k] by (simp_all add: same_content_def)
  obtain key dup sn where key: "res = Inr (Some key)" and sn: "is_seen (ro_seen r) key = Some (dup, sn)"
    using assms k by (auto simp: take_routed_def split: sum.splits option.splits)
  let ?r1 = "r\<lparr> ro_seen := sn \<rparr>"
  have "\<not> dup"
  proof
    assume dup
    then have "out = [] \<or> reroute_looped n l q key ?r1 = (out, r')"
      using assms(1) k key sn by (auto simp: take_routed_def Let_def split: if_splits)
    with reroute_plain assms(2) show False by fastforce
  qed
  obtain o2 h where lr: "learn_reverse_path n l q ?r1 = (o2, ?r1\<lparr> ro_hints := h \<rparr>)"
    "o2 = [] \<or> o2 = [Candidate (p_src_id q)]" using learn_reverse_path_frame by blast
  let ?r2 = "?r1\<lparr> ro_hints := h \<rparr>"
  obtain o3 r3 where step: "(if for_us q ?r2 then pass_to_handler n l q ?r2
    else forward_packet n l q (Some key) ?r2) = (o3, r3)" by (meson surj_pair)
  have out: "out = o2 @ o3" "r' = r3"
    using assms(1) k key sn \<open>\<not> dup\<close> lr(1) step by (simp_all add: take_routed_def Let_def)
  have h3: "handed o3" using assms(2) lr(2) out by auto
  have "for_us q ?r2" using step h3 forward_plain [of n l q "Some key" ?r2 o3 r3] by (auto split: if_splits)
  then have "r3 = count_undeclared l q ?r2"
    using step h3 dispatch_handed by (fastforce simp: pass_to_handler_def)
  then have m: "same_map ?r2 r'" using count_undeclared_map out(2) by simp
  have "ro_hints (snd (learn_reverse_path n l p r)) = ro_hints (snd (learn_reverse_path n l q ?r1))"
    by (simp add: learn_reverse_path_def Let_def qp)
  then have "ro_hints (snd (learn_reverse_path n l p r)) = h" by (simp add: lr(1))
  moreover obtain h' o4 where "learn_reverse_path n l p r = (o4, r\<lparr> ro_hints := h' \<rparr>)"
    using learn_reverse_path_frame by blast
  ultimately have "same_map (snd (learn_reverse_path n l p r)) ?r2" by (simp add: same_map_def)
  with m same_map_trans show ?thesis by blast
qed

lemma map_of_trimmed_last: "0 < m \<Longrightarrow> map_of (od_trim m (AList.delete k d @ [(k, v)])) k = Some v"
proof -
  assume "0 < m"
  then obtain d' where d': "od_trim m (AList.delete k d @ [(k, v)]) = d' @ [(k, v)]" "set d' \<subseteq> set (AList.delete k d)"
    using set_od_trim [of "m - 1" "AList.delete k d"] by (auto simp: od_trim_snoc)
  have "map_of d' k = None"
    using d'(2) by (auto simp: map_of_eq_None_iff AList.delete_eq)
  with d'(1) show ?thesis by (simp add: map_add_def)
qed

lemma hint_left:
  assumes run: "handle_packet n l p r = (out, r')" "p_type p \<in> ROUTABLE_TYPES" "handed out"
    and ok: "packet_ok (nt_hash n) p" "p_dst_id p \<noteq> BROADCAST_ID" "p_src_id p \<noteq> ro_id r"
    and via: "lk_id l = Some via" "via \<noteq> p_src_id p"
  shows "map_of (ro_hints r') (p_src_id p) = Some (via, nt_clk n)"
proof -
  let ?src = "p_src_id p"
  obtain r2 where r2: "take_routed n l p r2 = (out, r')" "same_map r r2" using handed_through [OF run] by blast
  have learnt: "same_map (snd (learn_reverse_path n l p r2)) r'" by (rule take_routed_learns [OF r2(1) run(3) ok(1)])
  have "map_of (ro_hints (snd (learn_reverse_path n l p r2))) ?src = Some (via, nt_clk n)"
    using ok(2,3) via r2(2) map_of_trimmed_last [of ROUTE_HINT_MAX ?src "AList.update ?src (via, nt_clk n) (ro_hints r2)" "(via, nt_clk n)"]
    by (simp add: learn_reverse_path_def same_map_def od_to_end_def odict_simps ROUTE_HINT_MAX_def Let_def)
  with learnt show ?thesis by (simp add: same_map_def)
qed

lemma handled_keeps_map:
  assumes "handle_packet n l p r = (out, r')" "p_type p \<in> ROUTABLE_TYPES" "handed out" "packet_ok (nt_hash n) p"
  shows "map link_end (ro_links r') = map link_end (ro_links r) \<and> ro_paths r' = ro_paths r \<and> ro_bundles r' = ro_bundles r"
proof -
  obtain r2 where r2: "take_routed n l p r2 = (out, r')" "same_map r r2" using handed_through [OF assms(1-3)] by blast
  obtain o4 h where "learn_reverse_path n l p r2 = (o4, r2\<lparr> ro_hints := h \<rparr>)" using learn_reverse_path_frame by blast
  with r2(2) take_routed_learns [OF r2(1) assms(3,4)] show ?thesis by (simp add: same_map_def)
qed

text \<open>
  C23: A reply follows the way its request came. A node handed a routed request, not a broadcast and not its own,
  to its handler, and the request came through a neighbour that is not its source. Then at any later moment,
  up to 120 seconds after the request, the first link the node tries towards the request's source is one to that
  neighbour, as long as: its hint for that source is still the one the request left (no later packet of that
  source came another way, no other hints pushed it out), it still holds a link with a session to that
  neighbour, and it has nothing better - no link to the source itself, no measured path to it, no bundle.\<close>
theorem reply_follows_request:
  assumes run: "handle_packet n l p r = (out, r')" "p_type p \<in> ROUTABLE_TYPES" "handed out"
    and ok: "packet_ok (nt_hash n) p" "p_dst_id p \<noteq> BROADCAST_ID" "p_src_id p \<noteq> ro_id r"
    and via: "lk_id l = Some via" "via \<noteq> p_src_id p"
    and later: "map_of (ro_hints later) (p_src_id p) = map_of (ro_hints r') (p_src_id p)"
      "m \<in> set (ro_links later)" "lk_session m" "lk_id m = Some via"
    and alone: "\<forall>k \<in> set (ro_links later). lk_session k \<longrightarrow> lk_id k \<noteq> Some (p_src_id p)"
      "\<not> has_path (p_src_id p) (ro_paths later)" "map_of (ro_bundles later) (p_src_id p) = None"
    and soon: "nt_clk n' - nt_clk n \<le> ROUTE_HINT_TTL"
  shows "\<exists>k rest. fst (route_candidates n' (p_src_id p) None later) = k # rest \<and> lk_id k = Some via"
proof -
  let ?src = "p_src_id p"
  have "map_of (ro_hints r') ?src = Some (via, nt_clk n)" by (rule hint_left [OF run ok via])
  then have hint: "map_of (ro_hints later) ?src = Some (via, nt_clk n)" using later(1) by simp
  have none: "\<not> usable_link None k \<or> lk_id k \<noteq> Some ?src" if "k \<in> set (ro_links later)" for k
    using alone(1) that by (auto simp: usable_link_def)
  obtain k where k: "best_to n' None via later = Some k" "lk_id k = Some via"
  proof -
    have "\<not> (\<forall>x \<in> set (ro_links later). usable_link None x \<longrightarrow> lk_id x \<noteq> Some via)"
      using later(2-4) by (auto simp: usable_link_def)
    then obtain k where "best_to n' None via later = Some k" using link_to_None by (metis not_None_eq)
    with link_to_Some(3) that show thesis by blast
  qed
  define peers where "peers = take ROUTE_SEND_FANOUT
    (sort_key (hop_key ?src) (authenticated_peers (nt_scoring n') None (ro_links later)))"
  have "\<not> (peers \<noteq> [] \<and> lk_id (hd peers) = Some ?src)"
  proof
    assume a: "peers \<noteq> [] \<and> lk_id (hd peers) = Some ?src"
    then have "hd peers \<in> set (authenticated_peers (nt_scoring n') None (ro_links later))"
      by (metis hd_in_set in_set_takeD peers_def set_sort)
    with authenticated_peers_usable none a show False by blast
  qed
  then have "ordered_hops n' ?src None later = (k # without_ids [k] peers, later)"
    using alone(2) hint soon k(1)
    by (auto simp: ordered_hops_def peers_def [symmetric] Let_def measured_first_hops_def route_hint_peer_def
        simp del: map_of_eq_Some_iff)
  then have "fst (route_candidates n' ?src None later) = take ROUTE_SEND_FANOUT (k # without_ids [k] peers)"
    using alone(3) by (simp add: route_candidates_def stripe_def)
  with k(2) show ?thesis by (simp add: ROUTE_SEND_FANOUT_def)
qed

theorem reply_follows_request_witness:
  "\<exists>out r' k rest. handle_packet mid_net (mid_link 1) own_packet mid_router = (out, r') \<and>
     fst (route_candidates (mid_net\<lparr> nt_clk := 100 \<rparr>) (node_of 7) None r') = k # rest \<and> lk_id k = Some (node_of 1)"
proof -
  obtain r' where run: "handle_packet mid_net (mid_link 1) own_packet mid_router =
    ([Candidate (node_of 7), Handle 0x1C 1 (keyed own_packet)], r')" using mid_takes_own by blast
  have f: "p_src_id own_packet = node_of 7" "p_dst_id own_packet = node_of 9" "p_type own_packet = 0x1C"
    by (simp_all add: own_packet_def)
  have hd: "handed [Candidate (node_of 7), Handle 0x1C 1 (keyed own_packet)]" by (auto simp: handed_def)
  have "map link_end (ro_links r') = map link_end [mid_link 1, mid_link 2] \<and> ro_paths r' = ro_paths mid_router \<and>
      ro_bundles r' = []"
    using handled_keeps_map [OF run _ hd] by (simp add: f own_packet_ok ROUTABLE_TYPES_def)
  then obtain k1 k2 where links: "ro_links r' = [k1, k2]" "link_end k1 = link_end (mid_link 1)" "link_end k2 = link_end (mid_link 2)"
    and same: "ro_paths r' = ro_paths mid_router" "ro_bundles r' = []" by auto
  then have ids: "lk_id k1 = Some (node_of 1)" "lk_session k1" "lk_id k2 = Some (node_of 2)"
    by (simp_all add: link_end_def)
  have "\<exists>k rest. fst (route_candidates (mid_net\<lparr> nt_clk := 100 \<rparr>) (p_src_id own_packet) None r') = k # rest \<and>
      lk_id k = Some (node_of 1)"
  proof (rule reply_follows_request [OF run])
    show "p_dst_id own_packet \<noteq> BROADCAST_ID" by (simp add: f node_of_def BROADCAST_ID_def)
    show "handed [Candidate (node_of 7), Handle 0x1C 1 (keyed own_packet)]" by (rule hd)
    show "k1 \<in> set (ro_links r')" by (simp add: links)
  qed (simp_all add: f own_packet_ok ROUTABLE_TYPES_def node_of_inj ROUTE_HINT_TTL_def links ids same)
  with run f show ?thesis by auto
qed

section \<open>Two links to one neighbour\<close>

text \<open>
  \<open>_route_candidates\<close> excludes the link a packet came in on, not the neighbour at its far end: with a second
  link to that neighbour the packet goes straight back to the node it came from. (\<open>_reroute_looped\<close> does
  compare identities.)
\<close>

definition twin_link :: link where
  "twin_link = (mid_link 1)\<lparr> lk_serial := 3 \<rparr>"

definition twin_router :: router where
  "twin_router = set_links [mid_link 1, twin_link] mid_router"

lemma twin_fields [simp]:
  "lk_id twin_link = Some (node_of 1)" "lk_serial twin_link = 3" "lk_session twin_link" "lk_agreed twin_link = None"
  "ro_links twin_router = [mid_link 1, twin_link]" "ro_id twin_router = node_of 9" "ro_hints twin_router = []"
  "ro_bundles twin_router = []" "ro_stop_rules twin_router = []" "ro_fwd twin_router = []"
  "has_path t (ro_paths twin_router) = False" "ro_seen twin_router = ro_seen mid_router"
  by (simp_all add: twin_link_def twin_router_def set_links_def)

lemma twin_forwards:
  "\<exists>r'. forward_packet mid_net (mid_link 1) (keyed (echo_packet 2)) key
      (twin_router\<lparr> ro_seen := sn, ro_hints := [(node_of 7, v)] \<rparr>) = ([Out 3 (keyed (echo_packet 1))], r')"
proof -
  let ?r = "twin_router\<lparr> ro_seen := sn, ro_hints := [(node_of 7, v)] \<rparr>"
  have "fst (route_candidates mid_net (node_of 3) (Some 1) ?r) = [twin_link]"
    by (simp add: route_candidates_def ordered_hops_def authenticated_peers_def usable_link_def measured_first_hops_def
        stripe_def ROUTE_SEND_FANOUT_def hop_key_def route_hint_peer_def node_of_inj)
  then obtain r1 where c: "route_candidates mid_net (node_of 3) (Some 1) ?r = ([twin_link], r1)"
    by (metis prod.collapse)
  have d: "packet_with_decremented_ttl (keyed (echo_packet 2)) = Inr (keyed (echo_packet 1))"
    using keyed_decrement [of 2] by simp
  show ?thesis
    using c by (simp add: forward_packet_def d peer_send_def keyed_for_link CONVERSATION_TYPES_def)
qed

lemma packet_sent_back:
  "router_ok twin_router \<and> lk_id twin_link = lk_id (mid_link 1) \<and> twin_link \<in> set (ro_links twin_router) \<and>
   (\<exists>r'. handle_packet mid_net (mid_link 1) (echo_packet 2) twin_router =
      ([Candidate (node_of 7), Out (lk_serial twin_link) (keyed (echo_packet 1))], r'))"
proof -
  obtain sn where sn: "is_seen (ro_seen mid_router) 0 = Some (False, sn)" using mid_fresh by blast
  obtain r' where f: "forward_packet mid_net (mid_link 1) (keyed (echo_packet 2)) (Some 0)
      (twin_router\<lparr> ro_seen := sn, ro_hints := [(node_of 7, node_of 1, 1)] \<rparr>) = ([Out 3 (keyed (echo_packet 1))], r')"
    using twin_forwards by blast
  have "router_ok twin_router" by (simp add: router_ok_def bundles_ok_def)
  then show ?thesis
    using sn f
    by (simp add: handle_packet_def take_authenticated_def take_routed_def echo_key INVITE_SEEK_def INVITE_OFFER_def
        RELAY_CARRY_def DIRECT_TYPES_def CONVERSATION_TYPES_def ROUTABLE_TYPES_def refuse_routed_def
        learn_reverse_path_def for_us_def Let_def ROUTE_HINT_MAX_def od_to_end_def)
qed

end
