(* ===== verification/RouterBooks.thy ===== *)
theory RouterBooks
  imports Transit
begin

text \<open>
  The books of the routing plane are bounded (\<open>src/node.py\<close>): the hints, the held first hops, the ways
  packets went, the stop-relay rules and the requests made. \<open>books_ok\<close> is the bound of all of them; every
  packet that arrives keeps it, and a destination has a share of the rules only.
\<close>

section \<open>The book of stop-relay rules\<close>

definition rules_of :: "bytes \<Rightarrow> (bytes \<times> bytes, stop_rule) odict \<Rightarrow> nat" where
  "rules_of dst rules = length (filter (\<lambda>((_, d), _). d = dst) rules)"

definition rules_ok :: "(bytes \<times> bytes, stop_rule) odict \<Rightarrow> bool" where
  "rules_ok rules \<longleftrightarrow> od_ok rules \<and> (\<forall>dst. rules_of dst rules \<le> STOP_RULES_PER_DST)"

lemma rules_of_filter_le: "rules_of dst (filter P rules) \<le> rules_of dst rules"
  by (induction rules) (auto simp: rules_of_def)

lemma rules_of_drop_le: "rules_of dst (drop k rules) \<le> rules_of dst rules"
proof (induction rules arbitrary: k)
  case (Cons r rules)
  then show ?case by (cases k) (auto simp: rules_of_def intro: le_SucI)
qed simp

lemma rules_of_update: "k \<in> fst ` set rules \<Longrightarrow> rules_of dst (AList.update k v rules) = rules_of dst rules"
  by (induction rules) (auto simp: rules_of_def)

lemma rules_ok_filter: "rules_ok rules \<Longrightarrow> rules_ok (filter P rules)"
  using order_trans [OF rules_of_filter_le] by (auto simp: rules_ok_def)

lemma rules_ok_delete: "rules_ok rules \<Longrightarrow> rules_ok (AList.delete k rules)"
  by (simp add: AList.delete_eq rules_ok_filter)

lemma rules_ok_update: "rules_ok rules \<Longrightarrow> map_of rules k = Some v \<Longrightarrow> rules_ok (AList.update k v' rules)"
  by (simp add: rules_ok_def rules_of_update map_of_mem del: map_of_eq_Some_iff)

lemma file_stop_rule_ok:
  assumes "rules_ok rules" "length rules \<le> STOP_RULES_MAX"
  shows "rules_ok (file_stop_rule now key until data rules)" "length (file_stop_rule now key until data rules) \<le> STOP_RULES_MAX"
proof -
  define live where "live = filter (\<lambda>(_, rule). \<not> su_until rule \<le> now) rules"
  have live: "rules_ok live" "length live \<le> STOP_RULES_MAX"
    using rules_ok_filter [OF assms(1)] assms(2) by (auto simp: live_def intro: order_trans [OF length_filter_le])
  define new where "new = od_trim (STOP_RULES_MAX - 1) live @
      [(key, \<lparr> su_until = until, su_record = data, su_told = [], su_charged = {} \<rparr>)]"
  have eq: "file_stop_rule now key until data rules = (case map_of live key of
        None \<Rightarrow> if STOP_RULES_PER_DST \<le> rules_of (snd key) live then live else new
      | Some rule \<Rightarrow> if su_until rule < until
          then AList.update key (rule\<lparr> su_until := until, su_record := data, su_told := [] \<rparr>) live else live)"
    by (simp add: file_stop_rule_def live_def [symmetric] new_def rules_of_def Let_def split: option.split)
  have added: "rules_ok new" "length new \<le> STOP_RULES_MAX"
    if "map_of live key = None" "\<not> STOP_RULES_PER_DST \<le> rules_of (snd key) live"
  proof -
    have trim: "od_trim (STOP_RULES_MAX - 1) live = drop (length live - (STOP_RULES_MAX - 1)) live" by (rule od_trim_drop)
    have "key \<notin> fst ` set (od_trim (STOP_RULES_MAX - 1) live)"
    proof -
      have "key \<notin> fst ` set live" using that(1) by (simp add: map_of_eq_None_iff)
      then show ?thesis using set_od_trim [of "STOP_RULES_MAX - 1" live] by blast
    qed
    moreover have "rules_of dst new \<le> STOP_RULES_PER_DST" for dst
    proof -
      have "rules_of dst (od_trim (STOP_RULES_MAX - 1) live) \<le> rules_of dst live" by (simp only: trim rules_of_drop_le)
      moreover have "rules_of dst live \<le> STOP_RULES_PER_DST" using live(1) by (simp add: rules_ok_def)
      moreover have "rules_of dst new = rules_of dst (od_trim (STOP_RULES_MAX - 1) live) + (if snd key = dst then 1 else 0)"
        by (cases key) (auto simp: new_def rules_of_def)
      ultimately show ?thesis using that(2) by (cases "snd key = dst") auto
    qed
    ultimately show "rules_ok new" using live(1) by (auto simp: rules_ok_def new_def)
    show "length new \<le> STOP_RULES_MAX" by (simp add: new_def STOP_RULES_MAX_def)
  qed
  show "rules_ok (file_stop_rule now key until data rules)"
    using live(1) added(1) rules_ok_update [OF live(1)] unfolding eq by (auto split: option.split simp del: map_of_eq_Some_iff)
  show "length (file_stop_rule now key until data rules) \<le> STOP_RULES_MAX"
    using live(2) added(2) unfolding eq
    by (auto split: option.split simp: length_update_present map_of_mem simp del: map_of_eq_Some_iff)
qed

datatype rule_op = File real "bytes \<times> bytes" real bytes | Lapse "bytes \<times> bytes"

fun rule_step :: "rule_op \<Rightarrow> (bytes \<times> bytes, stop_rule) odict \<Rightarrow> (bytes \<times> bytes, stop_rule) odict" where
  "rule_step (File now key until data) rules = file_stop_rule now key until data rules"
| "rule_step (Lapse key) rules = AList.delete key rules"

interpretation stop_rules: bounded_book length "\<lambda>_. STOP_RULES_MAX" rule_step rules_ok
proof
  show "length (rule_step e rules) \<le> STOP_RULES_MAX" if "rules_ok rules" "length rules \<le> STOP_RULES_MAX" for rules e
    using that file_stop_rule_ok(2) by (cases e) (auto intro: order_trans [OF length_delete_le])
  show "rules_ok (rule_step e rules)" if "rules_ok rules" "length rules \<le> STOP_RULES_MAX" for rules e
    using that file_stop_rule_ok(1) rules_ok_delete by (cases e) auto
qed simp

section \<open>All the books\<close>

definition books_ok :: "router \<Rightarrow> bool" where
  "books_ok r \<longleftrightarrow> length (ro_hints r) \<le> ROUTE_HINT_MAX \<and> length (ro_leads r) \<le> ROUTE_LEADS_TRACKED \<and>
     length (ro_fwd r) \<le> FWD_BOOK_MAX \<and> length (ro_stop_rules r) \<le> STOP_RULES_MAX \<and> rules_ok (ro_stop_rules r) \<and>
     length (ro_stops_asked r) \<le> STOP_RULES_MAX"

text \<open>A step that leaves every book as long as it was, or shorter, and the rules as they were.\<close>

definition no_longer :: "router \<Rightarrow> router \<Rightarrow> bool" where
  "no_longer r r' \<longleftrightarrow> length (ro_hints r') \<le> length (ro_hints r) \<and> ro_leads r' = ro_leads r \<and> ro_fwd r' = ro_fwd r \<and>
     ro_stop_rules r' = ro_stop_rules r \<and> ro_stops_asked r' = ro_stops_asked r"

lemma no_longer_refl [simp]: "no_longer r r"
  by (simp add: no_longer_def)

lemma no_longer_trans: "no_longer r r' \<Longrightarrow> no_longer r' r'' \<Longrightarrow> no_longer r r''"
  by (simp add: no_longer_def)

lemma no_longer_ok: "no_longer r r' \<Longrightarrow> books_ok r \<Longrightarrow> books_ok r'"
  by (simp add: no_longer_def books_ok_def)

lemma change_link_shorter: "no_longer r (change_link s f r)"
  by (simp add: no_longer_def change_link_def set_links_def)

lemma end_link_shorter: "no_longer r (snd (end_link l r))"
  by (auto simp: no_longer_def end_link_def set_links_def forget_hints_via_def forget_bundle_def Let_def
      intro: order_trans [OF length_filter_le] split: option.split)

lemma peer_send_shorter: "peer_send n p l r = (sent, out, r') \<Longrightarrow> no_longer r r'"
  using change_link_shorter [of r "lk_serial l"]
  by (auto simp: peer_send_def no_longer_def split: sum.splits outcome.splits)

lemma send_to_candidates_shorter:
  "send_to_candidates n p outgoing ls r = (res, out, r') \<Longrightarrow> no_longer r r'"
proof (induction ls arbitrary: r out)
  case (Cons l ls)
  obtain sent o1 r1 where s1: "peer_send n outgoing l r = (sent, o1, r1)" by (rule prod_cases3)
  note n1 = peer_send_shorter [OF s1]
  obtain gone r2 where e: "end_link l r1 = (gone, r2)" by (meson surj_pair)
  have n2: "no_longer r r2" using no_longer_trans [OF n1 end_link_shorter [of r1 l]] e by simp
  show ?case
  proof (cases sent)
    case Sent
    then show ?thesis using Cons.prems s1 n1 no_longer_trans [OF n1 change_link_shorter] by (auto split: if_splits)
  next
    case Busy
    obtain res2 o2 r3 where rec: "send_to_candidates n p outgoing ls r1 = (res2, o2, r3)" by (rule prod_cases3)
    have eq: "res2 = res" "r3 = r'" using Cons.prems s1 Busy rec by auto
    from no_longer_trans [OF n1 Cons.IH [OF rec [unfolded eq]]] show ?thesis .
  next
    case Broken
    obtain res2 o2 r3 where rec: "send_to_candidates n p outgoing ls r2 = (res2, o2, r3)" by (rule prod_cases3)
    have eq: "res2 = res" "r3 = r'" using Cons.prems s1 Broken e rec by auto
    from no_longer_trans [OF n2 Cons.IH [OF rec [unfolded eq]]] show ?thesis .
  qed
qed simp

lemma choose_lead_bounded:
  "length (ro_leads r) \<le> ROUTE_LEADS_TRACKED \<Longrightarrow> length (ro_leads (snd (choose_lead n t live healthy r))) \<le> ROUTE_LEADS_TRACKED"
proof (cases "map_of (ro_leads r) t")
  case None
  then show ?thesis by (simp add: choose_lead_def lead_through_def Let_def)
next
  case (Some v)
  assume "length (ro_leads r) \<le> ROUTE_LEADS_TRACKED"
  moreover have "t \<in> fst ` set (ro_leads r)" using Some by (rule map_of_mem)
  ultimately show ?thesis using Some
    by (cases v; cases "filter (\<lambda>p. pa_via p \<noteq> fst v) healthy")
      (simp_all add: choose_lead_def Let_def lead_through_def length_update_present del: map_of_eq_Some_iff)
qed

lemma route_lead_bounded:
  "length (ro_leads r) \<le> ROUTE_LEADS_TRACKED \<Longrightarrow> length (ro_leads (snd (route_lead n t r))) \<le> ROUTE_LEADS_TRACKED"
  using choose_lead_bounded [of r n t] order_trans [OF length_delete_le [of t "ro_leads r"]]
  by (auto simp: route_lead_def Let_def)

lemma measured_first_hops_bounded:
  "length (ro_leads r) \<le> ROUTE_LEADS_TRACKED \<Longrightarrow>
     length (ro_leads (snd (measured_first_hops n t e r))) \<le> ROUTE_LEADS_TRACKED"
  using route_lead_bounded [of r n t]
  by (cases "route_lead n t r") (simp add: measured_first_hops_def Let_def)

lemma route_hint_peer_shorter: "no_longer r (snd (route_hint_peer n t e r))"
  using length_delete_le [of t "ro_hints r"]
  by (auto simp: route_hint_peer_def no_longer_def split: option.split prod.split)

lemma route_candidates_books:
  assumes "route_candidates n t e r = (ls, r')" "books_ok r"
  shows "books_ok r'"
proof -
  obtain hops rm where m: "measured_first_hops n t e r = (hops, rm)" by (meson surj_pair)
  then obtain ld where rm: "rm = r\<lparr> ro_leads := ld \<rparr>" using measured_first_hops_frame [of n t e r] by auto
  have "length ld \<le> ROUTE_LEADS_TRACKED"
    using measured_first_hops_bounded [of r n t e] m rm assms(2) by (simp add: books_ok_def)
  then have okm: "books_ok rm" using assms(2) by (simp add: books_ok_def rm)
  obtain hint rh where h: "route_hint_peer n t e rm = (hint, rh)" by (meson surj_pair)
  have okh: "books_ok rh" using no_longer_ok [OF route_hint_peer_shorter [of rm n t e] okm] h by simp
  obtain ps r1 where o1: "ordered_hops n t e r = (ps, r1)" by (meson surj_pair)
  have "r1 \<in> {r, rm, rh}" using o1 m h by (auto simp: ordered_hops_def Let_def split: if_splits)
  then have ok1: "books_ok r1" using assms(2) okm okh by auto
  obtain b where "r' = r1\<lparr> ro_bundles := b \<rparr>"
    using assms(1) o1 stripe_frame [of n t "take ROUTE_SEND_FANOUT ps" e r1] by (auto simp: route_candidates_def)
  with ok1 show ?thesis by (simp add: books_ok_def)
qed

lemma note_forwarded_books: "books_ok r \<Longrightarrow> books_ok (note_forwarded key a s r)"
proof -
  assume ok: "books_ok r"
  have up: "books_ok (r\<lparr> ro_fwd := AList.update k v d \<rparr>)" if "length d \<le> FWD_BOOK_MAX" "k \<in> fst ` set d" for k v d
    using that ok by (simp add: books_ok_def length_update_present)
  have new: "length (od_trim (FWD_BOOK_MAX - 1) (ro_fwd r) @ [x]) \<le> FWD_BOOK_MAX" for x
    by (simp add: FWD_BOOK_MAX_def)
  have old: "length (ro_fwd r) \<le> FWD_BOOK_MAX" using ok by (simp add: books_ok_def)
  show ?thesis
    using ok up new old
    by (auto simp: note_forwarded_def Let_def map_of_mem simp del: map_of_eq_Some_iff split: option.split prod.split)
qed

lemma relayed_books [simp]: "books_ok (relayed p r) \<longleftrightarrow> books_ok r"
  by (simp add: relayed_def books_ok_def)

lemma forward_packet_books:
  assumes "forward_packet n l p key r = (out, r')" "books_ok r"
  shows "books_ok r'"
proof -
  obtain ls r1 where c: "route_candidates n (p_dst_id p) (Some (lk_serial l)) r = (ls, r1)" by (meson surj_pair)
  note ok1 = route_candidates_books [OF c assms(2)]
  show ?thesis
  proof (cases "packet_with_decremented_ttl p")
    case (Inl e)
    with assms c ok1 show ?thesis by (auto simp: forward_packet_def split: if_splits)
  next
    case (Inr o1)
    obtain res o2 r2 where s: "send_to_candidates n p o1 ls r1 = (res, o2, r2)" by (rule prod_cases3)
    have ok2: "books_ok r2" by (rule no_longer_ok [OF send_to_candidates_shorter [OF s] ok1])
    then have "books_ok (note_forwarded key l k (relayed p r2))" for k by (intro note_forwarded_books) simp
    with assms c Inr s ok2 show ?thesis
      by (auto simp: forward_packet_def split: if_splits option.splits)
  qed
qed

lemma set_ways_books: "books_ok r \<Longrightarrow> key \<in> fst ` set (ro_fwd r) \<Longrightarrow> books_ok (set_ways key a s r)"
  by (simp add: books_ok_def set_ways_def length_update_present)

lemma reroute_looped_books:
  assumes "reroute_looped n l p key r = (out, r')" "books_ok r"
  shows "books_ok r'"
proof -
  have copy: "books_ok r2"
    if "reroute_copy n l p key arrived way r = (o2, r2)" and k: "key \<in> fst ` set (ro_fwd r)" for arrived way o2 r2
  proof -
    let ?r1 = "set_ways key arrived way r"
    have ok1: "books_ok ?r1" by (rule set_ways_books [OF assms(2) k])
    have k1: "key \<in> fst ` set (ro_fwd ?r1)" by (simp add: set_ways_def dom_update)
    show ?thesis
    proof (cases "packet_with_decremented_ttl p")
      case (Inl e)
      with that ok1 show ?thesis by (auto simp: reroute_copy_def)
    next
      case (Inr o1)
      obtain res o3 r3 where s: "send_to_candidates n p o1 (reroute_pool n l p (set arrived \<union> set way) ?r1) ?r1 = (res, o3, r3)"
        by (rule prod_cases3)
      note sh = send_to_candidates_shorter [OF s]
      have ok3: "books_ok r3" by (rule no_longer_ok [OF sh ok1])
      have "key \<in> fst ` set (ro_fwd r3)" using sh k1 by (simp add: no_longer_def)
      with set_ways_books [OF ok3] ok3 have "books_ok (rerouted p key arrived way res r3)"
        by (simp add: rerouted_def split: option.split)
      then show ?thesis using that Inr s by (simp add: reroute_copy_def Let_def)
    qed
  qed
  show ?thesis
    using assms copy
    by (auto simp: reroute_looped_def map_of_mem simp del: map_of_eq_Some_iff split: option.splits if_splits)
qed

section \<open>At the door\<close>

lemma complain_books:
  assumes "complain n node w reason r = (out, r')" "books_ok r"
  shows "books_ok r'"
proof -
  obtain v js g where "report_abuse (nt_clk n) (nt_hold n) node w (py reason) KIND_UNSPECIFIED (ro_guard r) = (v, js, g)"
    by (rule prod_cases3)
  with assms show ?thesis by (auto simp: complain_def books_ok_def)
qed

lemma ask_stop_relay_books:
  assumes "ask_stop_relay n l src r = (out, r')" "books_ok r"
  shows "books_ok r'"
proof -
  have c: "books_ok r2"
    if "complain n via w reason (r\<lparr> ro_stops_asked := AList.update k v (ro_stops_asked r) \<rparr>) = (o2, r2)"
      "map_of (ro_stops_asked r) k = Some u" for via w reason k v o2 r2 u
    using complain_books [OF that(1)] assms(2) that(2)
    by (simp add: books_ok_def length_update_present map_of_mem del: map_of_eq_Some_iff)
  have t: "books_ok (r\<lparr> ro_stops_asked := od_trim STOP_RULES_MAX x \<rparr>)" for x
    using assms(2) by (simp add: books_ok_def)
  show ?thesis
    using assms c t
    by (auto simp: ask_stop_relay_def Let_def simp del: map_of_eq_Some_iff split: if_splits option.splits sum.splits)
qed

lemma rule_update_books:
  "books_ok r \<Longrightarrow> map_of (ro_stop_rules r) key = Some rule \<Longrightarrow>
     books_ok (r\<lparr> ro_stop_rules := AList.update key rule' (ro_stop_rules r) \<rparr>)"
  by (simp add: books_ok_def rules_ok_update length_update_present map_of_mem del: map_of_eq_Some_iff)

lemma pass_stop_upstream_books:
  assumes "pass_stop_upstream n l key rule r = (out, r')" "books_ok r" "map_of (ro_stop_rules r) key = Some rule"
  shows "books_ok r'"
  using assms(1,2) rule_update_books [OF assms(2,3)] complain_books [OF _ rule_update_books [OF assms(2,3)]]
  by (auto simp: pass_stop_upstream_def Let_def simp del: map_of_eq_Some_iff split: if_splits option.splits)

lemma refuse_routed_books:
  assumes "refuse_routed n l p r = (b, out, r')" "books_ok r"
  shows "books_ok r'"
proof -
  have d: "books_ok (r\<lparr> ro_stop_rules := AList.delete k (ro_stop_rules r) \<rparr>)" for k
    using assms(2) order_trans [OF length_delete_le [of k "ro_stop_rules r"]] by (simp add: books_ok_def rules_ok_delete)
  show ?thesis
    using assms d ask_stop_relay_books pass_stop_upstream_books
    by (auto simp: refuse_routed_def Let_def simp del: map_of_eq_Some_iff split: if_splits option.splits)
qed

lemma handle_stop_relay_books: "books_ok r \<Longrightarrow> books_ok (handle_stop_relay n l p r)"
  using file_stop_rule_ok
  by (auto simp: handle_stop_relay_def books_ok_def Let_def split: prod.split option.split)

lemma pass_to_handler_books:
  assumes "pass_to_handler n l p r = (out, r')" "books_ok r"
  shows "books_ok r'"
proof -
  have "no_longer r (count_undeclared l p r)"
    using change_link_shorter by (auto simp: count_undeclared_def split: option.split)
  then have c: "books_ok (count_undeclared l p r)" by (rule no_longer_ok [OF _ assms(2)])
  then have "books_ok ((count_undeclared l p r)\<lparr> ro_guard := g \<rparr>)" for g by (simp add: books_ok_def)
  with assms(1) c handle_stop_relay_books [OF c, of n l p] show ?thesis
    by (auto simp: pass_to_handler_def dispatch_def split: if_splits sum.splits prod.splits)
qed

lemma learn_reverse_path_books:
  "learn_reverse_path n l p r = (out, r') \<Longrightarrow> books_ok r \<Longrightarrow> books_ok r'"
  using length_delete_le [of "p_src_id p" "ro_hints r"]
  by (auto simp: learn_reverse_path_def books_ok_def Let_def split: if_splits)

lemma take_routed_books:
  assumes "take_routed n l p r = (out, r')" "books_ok r"
  shows "books_ok r'"
proof -
  have seen: "books_ok (r\<lparr> ro_seen := sn \<rparr>)" for sn using assms(2) by (simp add: books_ok_def)
  obtain res q where k: "packet_replay_key (nt_hash n) p = (res, q)" by (meson surj_pair)
  show ?thesis
  proof (cases "\<exists>key dup sn. res = Inr (Some key) \<and> is_seen (ro_seen r) key = Some (dup, sn)")
    case False
    then have "r' = r" using assms(1) k by (auto simp: take_routed_def split: sum.splits option.splits)
    with assms(2) show ?thesis by simp
  next
    case True
    then obtain key dup sn where key: "res = Inr (Some key)" and sn: "is_seen (ro_seen r) key = Some (dup, sn)" by auto
    let ?r1 = "r\<lparr> ro_seen := sn \<rparr>"
    show ?thesis
    proof (cases dup)
      case True
      have "r' = ?r1 \<or> reroute_looped n l q key ?r1 = (out, r')"
        using assms(1) k key sn True by (auto simp: take_routed_def Let_def split: if_splits)
      with reroute_looped_books [of n l q key ?r1 out r'] seen show ?thesis by blast
    next
      case False
      obtain o2 r2 where lr: "learn_reverse_path n l q ?r1 = (o2, r2)" by (meson surj_pair)
      note ok2 = learn_reverse_path_books [OF lr seen]
      obtain o3 r3 where step: "(if for_us q r2 then pass_to_handler n l q r2
        else forward_packet n l q (Some key) r2) = (o3, r3)" by (meson surj_pair)
      have "r' = r3" using assms(1) k key sn False lr step by (simp add: take_routed_def Let_def)
      with step pass_to_handler_books [OF _ ok2] forward_packet_books [OF _ ok2] show ?thesis
        by (auto split: if_splits)
    qed
  qed
qed

lemma beside_books: "beside r r' \<Longrightarrow> books_ok r \<Longrightarrow> books_ok r'"
  by (simp add: beside_def books_ok_def)

lemma handle_packet_books:
  assumes "handle_packet n l p r = (out, r')" "books_ok r"
  shows "books_ok r'"
proof (cases "p_type p \<in> EARLY_TYPES")
  case True
  with handle_early [OF assms(1)] beside_books assms(2) show ?thesis by blast
next
  case False
  define r1 where "r1 = (if p_type p \<in> CONVERSATION_TYPES
    then change_link (lk_serial l) (\<lambda>k. k\<lparr> lk_last_used := nt_clk n \<rparr>) r else r)"
  have ok1: "books_ok r1" using no_longer_ok [OF change_link_shorter assms(2)] assms(2) by (simp add: r1_def)
  obtain b o2 r2 where ref: "refuse_routed n l p r1 = (b, o2, r2)" by (rule prod_cases3)
  note ok2 = refuse_routed_books [OF ref ok1]
  have "r' \<in> {r, r1, r2} \<or> take_routed n l p r2 = (out, r') \<or> pass_to_handler n l p r1 = (out, r')"
    using assms(1) ref False
    by (cases b) (auto simp: handle_other take_authenticated_def r1_def [symmetric] split: if_splits)
  with assms(2) ok1 ok2 take_routed_books [OF _ ok2] pass_to_handler_books [OF _ ok1] show ?thesis by auto
qed

text \<open>
  C25: No peer can grow the routing plane. Starting with empty books, whatever packets arrive, in whatever number
  and from whomever, a node remembers at most 256 hints, 256 held first hops, the ways of 4096 packets, 4096
  stop-relay rules of which 64 at most for any one destination, and 4096 requests of its own.\<close>
theorem routing_books_bounded:
  assumes "ro_hints r = []" "ro_leads r = []" "ro_fwd r = []" "ro_stop_rules r = []" "ro_stops_asked r = []"
  shows "length (ro_hints (take_all es r)) \<le> 256 \<and> length (ro_leads (take_all es r)) \<le> 256 \<and>
    length (ro_fwd (take_all es r)) \<le> 4096 \<and> length (ro_stop_rules (take_all es r)) \<le> 4096 \<and>
    rules_of dst (ro_stop_rules (take_all es r)) \<le> 64 \<and> length (ro_stops_asked (take_all es r)) \<le> 4096"
proof -
  have run: "books_ok r \<Longrightarrow> books_ok (take_all es r)" for r
  proof (induction es arbitrary: r)
    case (Cons e es)
    obtain n l p where e: "e = (n, l, p)" by (cases e)
    obtain o1 r1 where h1: "handle_packet n l p r = (o1, r1)" by (meson surj_pair)
    with Cons.IH [OF handle_packet_books [OF h1 Cons.prems]] e show ?case by simp
  qed simp
  have "books_ok r" using assms by (simp add: books_ok_def rules_ok_def rules_of_def)
  then have "books_ok (take_all es r)" by (rule run)
  then show ?thesis
    by (simp add: books_ok_def rules_ok_def ROUTE_HINT_MAX_def ROUTE_LEADS_TRACKED_def FWD_BOOK_MAX_def
        STOP_RULES_MAX_def STOP_RULES_PER_DST_def)
qed

theorem routing_books_bounded_witness:
  "length (ro_stop_rules (take_all [(mid_net, mid_link 1, stop_packet)] mid_router)) = 1 \<and>
   length (ro_fwd (take_all [(mid_net, mid_link 1, stop_packet)] mid_router)) \<le> 4096"
proof -
  have "ro_hints mid_router = []" "ro_leads mid_router = []" "ro_fwd mid_router = []" "ro_stop_rules mid_router = []"
    "ro_stops_asked mid_router = []" by (simp_all add: mid_router_def)
  from routing_books_bounded [OF this, of "[(mid_net, mid_link 1, stop_packet)]"] mid_takes_stop [unfolded One_nat_def]
  show ?thesis by simp
qed

end
