(* ===== verification/Params.thy ===== *)
theory Params
  imports Json Bytes
begin

text \<open>
  The arguments of a control operation (\<open>src/control/params.py\<close>, the shared kinds of
  \<open>src/app_api.py\<close>, the codes of \<open>src/control/errors.py\<close>).

  A refusal (\<open>ControlError\<close>) is its code; the sentence beside the code is left out. Values arrive as
  parsed JSON. \<open>str_of\<close> is \<open>str(raw)\<close> of a value that is neither text nor \<open>None\<close>, and \<open>b64\<close> is
  \<open>base64.b64decode(raw, validate=True)\<close>, \<open>None\<close> where it raises. Numbers are finite: the \<open>NaN\<close> and
  \<open>Infinity\<close> that \<open>json.loads\<close> accepts are not modelled. A declared default that is \<open>None\<close> is \<open>JNull\<close>.
\<close>

datatype control_code =
    Bad_request
  | Unauthorized
  | Refused
  | Not_found
  | Conflict
  | Unavailable
  | Failed

type_synonym 'a answer = "control_code + 'a"

definition abind :: "'a answer \<Rightarrow> ('a \<Rightarrow> 'b answer) \<Rightarrow> 'b answer" where
  "abind r f = (case r of Inl e \<Rightarrow> Inl e | Inr x \<Rightarrow> f x)"

lemma abind_simps [simp]: "abind (Inl e) f = Inl e" "abind (Inr x) f = f x"
  by (simp_all add: abind_def)

lemma abind_Inr: "abind r f = Inr y \<longleftrightarrow> (\<exists>x. r = Inr x \<and> f x = Inr y)"
  by (cases r) auto

section \<open>Python's string methods\<close>

text \<open>\<open>str.isspace\<close>, \<open>str.strip\<close> and \<open>str.lower\<close> of characters below 256.\<close>

definition py_space :: "char \<Rightarrow> bool" where
  "py_space c = (let n = of_char c :: nat in 9 \<le> n \<and> n \<le> 13 \<or> 28 \<le> n \<and> n \<le> 32 \<or> n = 133 \<or> n = 160)"

definition py_strip :: "string \<Rightarrow> string" where
  "py_strip s = rev (dropWhile py_space (rev (dropWhile py_space s)))"

definition lower_char :: "char \<Rightarrow> char" where
  "lower_char c =
     (let n = of_char c :: nat in
      if 65 \<le> n \<and> n \<le> 90 \<or> 192 \<le> n \<and> n \<le> 222 \<and> n \<noteq> 215 then char_of (n + 32) else c)"

definition py_lower :: "string \<Rightarrow> string" where
  "py_lower s = map lower_char s"

text \<open>\<open>str.split\<close> on one character: always at least one part.\<close>

fun split_on :: "char \<Rightarrow> string \<Rightarrow> string list" where
  "split_on d [] = [[]]"
| "split_on d (c # cs) = (if c = d then [] # split_on d cs else (c # hd (split_on d cs)) # tl (split_on d cs))"

text \<open>
  \<open>int(raw)\<close>: of a text, white space around it, one sign, digits with single underscores between them;
  of a float, the part before the point. At most 4300 digits.
\<close>

definition digit_val :: "char \<Rightarrow> nat" where
  "digit_val c = of_char c - 48"

fun read_digits :: "nat \<Rightarrow> bool \<Rightarrow> string \<Rightarrow> nat option" where
  "read_digits n after_digit [] = (if after_digit then Some n else None)"
| "read_digits n after_digit (c # cs) =
     (if is_digit c then read_digits (n * 10 + digit_val c) True cs
      else if c = CHR ''_'' \<and> after_digit then read_digits n False cs
      else None)"

definition int_of_text :: "string \<Rightarrow> int option" where
  "int_of_text s =
     (let s = py_strip s;
          (neg, body) = (case s of
              c # cs \<Rightarrow> if c = CHR ''-'' then (True, cs) else if c = CHR ''+'' then (False, cs) else (False, s)
            | [] \<Rightarrow> (False, s))
      in if 4300 < length (filter is_digit body) then None
         else map_option (\<lambda>n. if neg then - int n else int n) (read_digits 0 False body))"

definition py_int :: "json \<Rightarrow> int option" where
  "py_int raw =
     (case raw of
        JBool b \<Rightarrow> Some (if b then 1 else 0)
      | JNum r \<Rightarrow> Some (if 0 \<le> r then \<lfloor>r\<rfloor> else \<lceil>r\<rceil>)
      | JStr s \<Rightarrow> int_of_text s
      | _ \<Rightarrow> None)"

section \<open>Declarations\<close>

definition API_MAX_TEXT :: nat where "API_MAX_TEXT = 200"
definition MAX_TOKENS :: nat where "MAX_TOKENS = 16"
definition MAX_TOKEN :: nat where "MAX_TOKEN = 32"
definition MAX_COUNT :: int where "MAX_COUNT = 10 ^ 6"
definition API_KINDS :: "string list" where
  "API_KINDS = [''node'', ''text'', ''flag'', ''count'', ''tokens'']"

definition MAX_LINE :: nat where "MAX_LINE = 1024"
definition MAX_KEYS :: nat where "MAX_KEYS = 64"
definition MAX_KEY :: nat where "MAX_KEY = 64"
definition MAX_VALUE :: nat where "MAX_VALUE = 512"
definition MAX_CHOICES :: nat where "MAX_CHOICES = 32"
definition MAX_HEX :: int where "MAX_HEX = 20000"
definition MAX_SECRET :: nat where "MAX_SECRET = 512"
definition MAX_BLOB :: int where "MAX_BLOB = 32 * 1024"
definition PARAM_KINDS :: "string list" where
  "PARAM_KINDS = API_KINDS @ [''line'', ''document'', ''choice'', ''hex'', ''secret'', ''payload'', ''blob'']"

definition lower_hex :: "char \<Rightarrow> bool" where
  "lower_hex c = (let n = of_char c :: nat in 48 \<le> n \<and> n \<le> 57 \<or> 97 \<le> n \<and> n \<le> 102)"

definition node_re :: "string \<Rightarrow> bool" where
  "node_re s = (let b = before_end s in length b = 40 \<and> list_all lower_hex b)"

definition token_char :: "char \<Rightarrow> bool" where
  "token_char c \<longleftrightarrow> is_lower c \<or> is_digit c \<or> c = CHR ''_'' \<or> c = CHR ''-''"

definition token_re :: "string \<Rightarrow> bool" where
  "token_re s = (let b = before_end s in 1 \<le> length b \<and> length b \<le> MAX_TOKEN \<and> list_all token_char b)"

definition param_name_re :: "string \<Rightarrow> bool" where
  "param_name_re s = word_of_class (before_end s)"

definition param_hex_re :: "string \<Rightarrow> bool" where
  "param_hex_re s = list_all lower_hex (before_end s)"

definition key_char :: "char \<Rightarrow> bool" where
  "key_char c \<longleftrightarrow> is_lower c \<or> is_upper c \<or> is_digit c \<or> c \<in> {CHR ''_'', CHR ''.'', CHR '':'', CHR ''-''}"

definition key_re :: "string \<Rightarrow> bool" where
  "key_re s =
     (case before_end s of
        [] \<Rightarrow> False
      | c # cs \<Rightarrow> (is_lower c \<or> is_upper c) \<and> list_all key_char cs \<and> length cs \<le> MAX_KEY - 1)"

record param_field =
  fd_name :: string
  fd_kind :: string
  fd_required :: bool
  fd_default :: json
  fd_help :: string
  fd_choices :: "string list"
  fd_limit :: "int option"

definition api_param :: "string \<Rightarrow> string \<Rightarrow> bool \<Rightarrow> json \<Rightarrow> string \<Rightarrow> param_field answer" where
  "api_param name kind required preset help =
     (if kind \<notin> set API_KINDS then Inl Bad_request
      else if \<not> param_name_re name then Inl Bad_request
      else Inr \<lparr> fd_name = name, fd_kind = kind, fd_required = required, fd_default = preset, fd_help = help,
                 fd_choices = [], fd_limit = None \<rparr>)"

definition param :: "string \<Rightarrow> string \<Rightarrow> bool \<Rightarrow> json \<Rightarrow> string \<Rightarrow> string list \<Rightarrow> int option \<Rightarrow> param_field answer" where
  "param name kind required preset help choices limit =
     (if kind \<in> set API_KINDS then
        abind (api_param name kind required preset help) (\<lambda>field.
        (case limit of
           None \<Rightarrow> Inr field
         | Some n \<Rightarrow> if kind \<noteq> ''count'' then Inl Bad_request else Inr (field\<lparr> fd_limit := Some (max 0 n) \<rparr>)))
      else if kind \<notin> set PARAM_KINDS then Inl Bad_request
      else if \<not> param_name_re name then Inl Bad_request
      else
        (let field = \<lparr> fd_name = name, fd_kind = kind, fd_required = required, fd_default = preset, fd_help = help,
                       fd_choices = [], fd_limit = None \<rparr> in
         if kind = ''choice'' then
           (let allowed = take MAX_CHOICES choices in
            if allowed = [] then Inl Bad_request else Inr (field\<lparr> fd_choices := allowed \<rparr>))
         else if kind = ''hex'' then
           (case limit of None \<Rightarrow> Inl Bad_request | Some n \<Rightarrow> Inr (field\<lparr> fd_limit := Some (min (max 0 n) MAX_HEX) \<rparr>))
         else if kind = ''blob'' then
           (case limit of None \<Rightarrow> Inl Bad_request | Some n \<Rightarrow> Inr (field\<lparr> fd_limit := Some (min (max 0 n) MAX_BLOB) \<rparr>))
         else Inr field))"

section \<open>Coercion\<close>

text \<open>A coerced argument: a JSON value, or the bytes of a blob.\<close>

datatype arg = Value json | Blob_of bytes

definition none_text :: "(json \<Rightarrow> string) \<Rightarrow> json \<Rightarrow> string" where
  "none_text str_of raw = (case raw of JNull \<Rightarrow> [] | JStr s \<Rightarrow> s | _ \<Rightarrow> str_of raw)"

definition full_text :: "(json \<Rightarrow> string) \<Rightarrow> json \<Rightarrow> string" where
  "full_text str_of raw = (case raw of JStr s \<Rightarrow> s | _ \<Rightarrow> str_of raw)"

definition one_line :: "string \<Rightarrow> bool" where
  "one_line s \<longleftrightarrow> newline \<notin> set s \<and> CHR 0x0D \<notin> set s"

definition add_token :: "string \<Rightarrow> string list \<Rightarrow> string list" where
  "add_token token out = (if token \<in> set out then out else out @ [token])"

fun read_tokens :: "string list \<Rightarrow> string list \<Rightarrow> string list answer" where
  "read_tokens [] out = Inr out"
| "read_tokens (entry # es) out =
     (let token = py_lower (py_strip entry) in
      if \<not> token_re token then Inl Bad_request else read_tokens es (add_token token out))"

definition coerce_tokens :: "(json \<Rightarrow> string) \<Rightarrow> json \<Rightarrow> arg answer" where
  "coerce_tokens str_of raw =
     (let entries =
        (case raw of
           JStr s \<Rightarrow> Some (filter (\<lambda>p. p \<noteq> []) (map py_strip (split_on (CHR '','') s)))
         | JArr xs \<Rightarrow> Some (map (full_text str_of) xs)
         | _ \<Rightarrow> None)
      in case entries of
           None \<Rightarrow> Inl Bad_request
         | Some es \<Rightarrow>
             if MAX_TOKENS < length es then Inl Bad_request
             else abind (read_tokens es []) (\<lambda>out. Inr (Value (JArr (map JStr out)))))"

definition coerce_flag :: "(json \<Rightarrow> string) \<Rightarrow> json \<Rightarrow> arg answer" where
  "coerce_flag str_of raw =
     (case raw of
        JBool b \<Rightarrow> Inr (Value raw)
      | _ \<Rightarrow>
          (let text = py_lower (py_strip (full_text str_of raw)) in
           if text \<in> {''1'', ''true'', ''yes'', ''on''} then Inr (Value (JBool True))
           else if text \<in> {''0'', ''false'', ''no'', ''off'', []} then Inr (Value (JBool False))
           else Inl Bad_request))"

text \<open>\<open>app_api.coerce\<close>, with the refusal in this plane's vocabulary.\<close>

definition api_coerce :: "(json \<Rightarrow> string) \<Rightarrow> param_field \<Rightarrow> json \<Rightarrow> arg answer" where
  "api_coerce str_of f raw =
     (if fd_kind f = ''node'' then
        (let text = py_lower (py_strip (none_text str_of raw)) in
         if node_re text then Inr (Value (JStr text)) else Inl Bad_request)
      else if fd_kind f = ''text'' then
        (let text = py_strip (none_text str_of raw) in
         if API_MAX_TEXT < length text \<or> \<not> one_line text then Inl Bad_request else Inr (Value (JStr text)))
      else if fd_kind f = ''flag'' then coerce_flag str_of raw
      else if fd_kind f = ''count'' then
        (case py_int raw of
           None \<Rightarrow> Inl Bad_request
         | Some n \<Rightarrow> if 0 \<le> n \<and> n \<le> MAX_COUNT then Inr (Value (JNum (real_of_int n))) else Inl Bad_request)
      else if fd_kind f = ''tokens'' then coerce_tokens str_of raw
      else Inl Bad_request)"

text \<open>
  Whether \<open>_scalar\<close> hands its argument back, and whether \<open>_document\<close> does; both refuse with
  \<open>bad_request\<close> otherwise. A list of scalars may hold lists.
\<close>

fun doc_scalar :: "json \<Rightarrow> bool" where
  "doc_scalar (JStr s) \<longleftrightarrow> length s \<le> MAX_VALUE \<and> CHR 0x00 \<notin> set s \<and> one_line s"
| "doc_scalar (JArr xs) \<longleftrightarrow> length xs \<le> MAX_KEYS \<and> (\<forall>x \<in> set xs. doc_scalar x)"
| "doc_scalar (JObj d) \<longleftrightarrow> False"
| "doc_scalar _ \<longleftrightarrow> True"

primrec document :: "nat \<Rightarrow> (string, json) odict \<Rightarrow> bool" where
  "document 0 d \<longleftrightarrow>
     length d \<le> MAX_KEYS \<and>
     (\<forall>p \<in> set d. key_re (fst p) \<and> (case snd p of JObj inner \<Rightarrow> False | value \<Rightarrow> doc_scalar value))"
| "document (Suc depth) d \<longleftrightarrow>
     length d \<le> MAX_KEYS \<and>
     (\<forall>p \<in> set d. key_re (fst p) \<and> (case snd p of JObj inner \<Rightarrow> document depth inner | value \<Rightarrow> doc_scalar value))"

declare document.simps [simp del]

definition coerce_hex :: "int \<Rightarrow> json \<Rightarrow> arg answer" where
  "coerce_hex limit raw =
     (case raw of
        JStr s \<Rightarrow>
          (let text = py_lower (py_strip s) in
           if limit < int (length text) then Inl Bad_request
           else if text = [] \<or> odd (length text) \<or> \<not> param_hex_re text then Inl Bad_request
           else Inr (Value (JStr text)))
      | _ \<Rightarrow> Inl Bad_request)"

definition limit_or :: "int \<Rightarrow> param_field \<Rightarrow> int" where
  "limit_or widest f = (case fd_limit f of None \<Rightarrow> widest | Some n \<Rightarrow> n)"

text \<open>The kinds of this plane.\<close>

definition plane_coerce :: "(json \<Rightarrow> string) \<Rightarrow> (string \<Rightarrow> bytes option) \<Rightarrow> param_field \<Rightarrow> json \<Rightarrow> arg answer" where
  "plane_coerce str_of b64 f raw =
     (if fd_kind f = ''line'' then
        (let text = none_text str_of raw in
         if MAX_LINE < length text \<or> \<not> one_line text \<or> CHR 0x00 \<in> set text then Inl Bad_request
         else Inr (Value (JStr text)))
      else if fd_kind f = ''document'' then
        (case raw of JObj d \<Rightarrow> if document 1 d then Inr (Value raw) else Inl Bad_request | _ \<Rightarrow> Inl Bad_request)
      else if fd_kind f = ''payload'' then
        (case raw of
           JNull \<Rightarrow> Inr (Value (JObj []))
         | JObj d \<Rightarrow>
             if length d \<le> MAX_KEYS \<and> list_all key_re (od_keys d) then Inr (Value raw) else Inl Bad_request
         | _ \<Rightarrow> Inl Bad_request)
      else if fd_kind f = ''choice'' then
        (let text = py_strip (none_text str_of raw) in
         if text \<in> set (fd_choices f) then Inr (Value (JStr text)) else Inl Bad_request)
      else if fd_kind f = ''secret'' then
        (case raw of
           JStr s \<Rightarrow> if MAX_SECRET < length s \<or> CHR 0x00 \<in> set s then Inl Bad_request else Inr (Value raw)
         | _ \<Rightarrow> Inl Bad_request)
      else if fd_kind f = ''blob'' then
        (case raw of
           JStr s \<Rightarrow>
             if limit_or MAX_BLOB f < int (length s) then Inl Bad_request
             else (case b64 s of None \<Rightarrow> Inl Bad_request | Some bs \<Rightarrow> Inr (Blob_of bs))
         | _ \<Rightarrow> Inl Bad_request)
      else if fd_kind f = ''hex'' then coerce_hex (limit_or MAX_HEX f) raw
      else Inl Bad_request)"

text \<open>What a frame sends for a flag and for a text: the value itself or nothing.\<close>

definition flag_shaped :: "json \<Rightarrow> bool" where
  "flag_shaped raw = (case raw of JNull \<Rightarrow> True | JBool _ \<Rightarrow> True | _ \<Rightarrow> False)"

definition text_shaped :: "json \<Rightarrow> bool" where
  "text_shaped raw = (case raw of JNull \<Rightarrow> True | JStr _ \<Rightarrow> True | _ \<Rightarrow> False)"

definition coerce :: "(json \<Rightarrow> string) \<Rightarrow> (string \<Rightarrow> bytes option) \<Rightarrow> param_field \<Rightarrow> json \<Rightarrow> arg answer" where
  "coerce str_of b64 f raw =
     (if fd_kind f = ''count'' \<and> fd_limit f \<noteq> None then
        (case py_int raw of
           None \<Rightarrow> Inl Bad_request
         | Some n \<Rightarrow> Inr (Value (JNum (real_of_int (max 0 (min n (the (fd_limit f))))))))
      else if fd_kind f = ''flag'' \<and> \<not> flag_shaped raw then Inl Bad_request
      else if fd_kind f = ''text'' \<and> \<not> text_shaped raw then Inl Bad_request
      else if fd_kind f \<in> set API_KINDS then api_coerce str_of f raw
      else plane_coerce str_of b64 f raw)"

section \<open>Binding\<close>

fun bind_fields ::
  "(json \<Rightarrow> string) \<Rightarrow> (string \<Rightarrow> bytes option) \<Rightarrow> param_field list \<Rightarrow> (string, json) odict \<Rightarrow> (string, arg) odict answer" where
  "bind_fields str_of b64 [] params = Inr []"
| "bind_fields str_of b64 (f # fs) params =
     abind
       (case map_of params (fd_name f) of
          None \<Rightarrow> if fd_required f then Inl Bad_request else Inr (Value (fd_default f))
        | Some raw \<Rightarrow> coerce str_of b64 f raw)
       (\<lambda>v. abind (bind_fields str_of b64 fs params) (\<lambda>out. Inr ((fd_name f, v) # out)))"

text \<open>\<open>bind\<close>; a declaration has no two fields of one name, so that the dictionary of the code is the list.\<close>

definition bind_args ::
  "(json \<Rightarrow> string) \<Rightarrow> (string \<Rightarrow> bytes option) \<Rightarrow> param_field list \<Rightarrow> (string, json) odict \<Rightarrow> (string, arg) odict answer" where
  "bind_args str_of b64 fs params =
     (if \<exists>k \<in> set (od_keys params). k \<notin> fd_name ` set fs then Inl Bad_request
      else bind_fields str_of b64 fs params)"

section \<open>What a bound argument satisfies\<close>

lemma strip_ends: "py_strip s = [] \<or> \<not> py_space (hd (py_strip s)) \<and> \<not> py_space (last (py_strip s))"
proof -
  let ?r = "rev (dropWhile py_space s)" and ?t = "dropWhile py_space (rev (dropWhile py_space s))"
  show ?thesis
  proof (cases "?t = []")
    case False
    then obtain n where t: "?t = drop n ?r" by (metis dropWhile_eq_drop)
    have h: "\<not> py_space (hd ?t)" using False by (rule hd_dropWhile)
    have l: "last ?t = last ?r" using False t by (metis last_drop drop_eq_Nil not_le)
    have "dropWhile py_space s \<noteq> []" using False by (metis dropWhile.simps(1) rev.simps(1))
    then have "\<not> py_space (last ?r)" by (simp add: hd_dropWhile last_rev)
    with h l False show ?thesis by (simp add: py_strip_def hd_rev last_rev)
  qed (simp add: py_strip_def)
qed

lemma space_newline: "py_space newline"
  by (simp add: py_space_def newline_def)

lemma lower_newline: "lower_char c = newline \<longleftrightarrow> c = newline"
proof (cases "65 \<le> (of_char c :: nat) \<and> of_char c \<le> (90 :: nat) \<or> 192 \<le> (of_char c :: nat) \<and> of_char c \<le> (222 :: nat) \<and> of_char c \<noteq> (215 :: nat)")
  case True
  let ?n = "of_char c :: nat"
  have "lower_char c = char_of (?n + 32)" using True by (simp add: lower_char_def)
  moreover have "of_char (char_of (?n + 32) :: char) = ?n + 32" using True by (auto simp: of_char_of)
  moreover have "of_char newline = (10 :: nat)" "?n + 32 \<noteq> 10" by (simp_all add: newline_def)
  ultimately have "lower_char c \<noteq> newline" by metis
  moreover have "c \<noteq> newline" using True by (auto simp: newline_def)
  ultimately show ?thesis by simp
next
  case False
  then have "lower_char c = c" unfolding lower_char_def Let_def by (rule if_not_P)
  then show ?thesis by simp
qed

lemma lowered_before_end: "before_end (py_lower (py_strip s)) = py_lower (py_strip s)"
proof (cases "py_strip s = []")
  case False
  with strip_ends [of s] space_newline have "last (py_strip s) \<noteq> newline" by metis
  with False show ?thesis by (simp add: before_end_def py_lower_def last_map lower_newline)
qed (simp add: before_end_def py_lower_def)

definition arg_ok :: "param_field \<Rightarrow> arg \<Rightarrow> bool" where
  "arg_ok f v =
     (case v of
        Blob_of bs \<Rightarrow> fd_kind f = ''blob''
      | Value j \<Rightarrow>
          (case j of
             JStr s \<Rightarrow>
               fd_kind f = ''node'' \<and> length s = 40 \<and> list_all lower_hex s
               \<or> fd_kind f = ''text'' \<and> length s \<le> API_MAX_TEXT \<and> one_line s
               \<or> fd_kind f = ''line'' \<and> length s \<le> MAX_LINE \<and> one_line s \<and> CHR 0x00 \<notin> set s
               \<or> fd_kind f = ''choice'' \<and> s \<in> set (fd_choices f)
               \<or> fd_kind f = ''secret'' \<and> length s \<le> MAX_SECRET \<and> CHR 0x00 \<notin> set s
               \<or> fd_kind f = ''hex'' \<and> s \<noteq> [] \<and> even (length s) \<and> int (length s) \<le> limit_or MAX_HEX f \<and> list_all lower_hex s
           | JBool b \<Rightarrow> fd_kind f = ''flag''
           | JNum r \<Rightarrow> fd_kind f = ''count'' \<and> (\<exists>n. r = real_of_int n \<and> 0 \<le> n \<and> n \<le> max 0 (limit_or MAX_COUNT f))
           | JArr xs \<Rightarrow> fd_kind f = ''tokens'' \<and>
               (\<exists>ts. xs = map JStr ts \<and> length ts \<le> MAX_TOKENS \<and> distinct ts \<and>
                  (\<forall>t \<in> set ts. t \<noteq> [] \<and> length t \<le> MAX_TOKEN \<and> list_all token_char t))
           | JObj d \<Rightarrow> fd_kind f = ''document'' \<and> document 1 d
               \<or> fd_kind f = ''payload'' \<and> length d \<le> MAX_KEYS \<and> list_all key_re (od_keys d)
           | JNull \<Rightarrow> False))"

lemma read_tokens_ok:
  assumes "read_tokens es out = Inr ts" "distinct out" "\<forall>t \<in> set out. t \<noteq> [] \<and> length t \<le> MAX_TOKEN \<and> list_all token_char t"
  shows "length ts \<le> length es + length out \<and> distinct ts \<and>
    (\<forall>t \<in> set ts. t \<noteq> [] \<and> length t \<le> MAX_TOKEN \<and> list_all token_char t)"
  using assms
proof (induction es arbitrary: out)
  case (Cons e es)
  let ?t = "py_lower (py_strip e)"
  have t: "token_re ?t" and r: "read_tokens es (add_token ?t out) = Inr ts"
    using Cons.prems(1) by (simp_all add: Let_def split: if_splits)
  have good: "?t \<noteq> [] \<and> length ?t \<le> MAX_TOKEN \<and> list_all token_char ?t"
    using t by (auto simp: token_re_def lowered_before_end Let_def)
  have "distinct (add_token ?t out)" "\<forall>t \<in> set (add_token ?t out). t \<noteq> [] \<and> length t \<le> MAX_TOKEN \<and> list_all token_char t"
    "length (add_token ?t out) \<le> Suc (length out)"
    using Cons.prems(2,3) good by (auto simp: add_token_def)
  with Cons.IH [OF r] show ?case by auto
qed auto

lemma coerce_tokens_ok:
  assumes "coerce_tokens str_of raw = Inr v" "fd_kind f = ''tokens''"
  shows "arg_ok f v"
proof -
  obtain es ts where "length es \<le> MAX_TOKENS" "read_tokens es [] = Inr ts" "v = Value (JArr (map JStr ts))"
    using assms(1) unfolding coerce_tokens_def Let_def
    by (clarsimp simp: abind_Inr split: option.splits if_splits) (metis not_le)
  with read_tokens_ok [of es "[]" ts] assms(2) show ?thesis by (auto simp: arg_ok_def)
qed

lemma coerce_flag_ok: "coerce_flag str_of raw = Inr v \<Longrightarrow> fd_kind f = ''flag'' \<Longrightarrow> arg_ok f v"
  by (auto simp: coerce_flag_def arg_ok_def Let_def split: json.splits if_splits)

lemma api_coerce_ok:
  assumes "api_coerce str_of f raw = Inr v" "fd_limit f = None \<or> fd_kind f \<noteq> ''count''"
  shows "arg_ok f v"
proof -
  consider "fd_kind f = ''node''" | "fd_kind f = ''text''" | "fd_kind f = ''flag''" | "fd_kind f = ''count''"
    | "fd_kind f = ''tokens''" using assms(1) by (auto simp: api_coerce_def split: if_splits)
  then show ?thesis
  proof cases
    case 1
    with assms(1) show ?thesis
      by (auto simp: api_coerce_def arg_ok_def Let_def node_re_def lowered_before_end split: if_splits)
  next
    case 2
    with assms(1) show ?thesis by (auto simp: api_coerce_def arg_ok_def Let_def split: if_splits)
  next
    case 3
    with assms(1) show ?thesis by (simp add: api_coerce_def coerce_flag_ok)
  next
    case 4
    with assms show ?thesis
      by (auto simp: api_coerce_def arg_ok_def limit_or_def split: option.splits if_splits)
  next
    case 5
    with assms(1) show ?thesis by (simp add: api_coerce_def coerce_tokens_ok)
  qed
qed

lemma coerce_hex_ok:
  assumes "coerce_hex (limit_or MAX_HEX f) raw = Inr v" "fd_kind f = ''hex''"
  shows "arg_ok f v"
  using assms by (auto simp: coerce_hex_def arg_ok_def Let_def param_hex_re_def lowered_before_end split: json.splits if_splits)

lemma plane_coerce_ok:
  assumes "plane_coerce str_of b64 f raw = Inr v"
  shows "arg_ok f v"
proof -
  consider "fd_kind f = ''line''" | "fd_kind f = ''document''" | "fd_kind f = ''payload''" | "fd_kind f = ''choice''"
    | "fd_kind f = ''secret''" | "fd_kind f = ''blob''" | "fd_kind f = ''hex''"
    using assms by (auto simp: plane_coerce_def split: if_splits)
  then show ?thesis
  proof cases
    case 7
    with assms show ?thesis by (simp add: plane_coerce_def coerce_hex_ok)
  qed (use assms in \<open>auto simp: plane_coerce_def arg_ok_def Let_def split: json.splits if_splits option.splits\<close>)
qed

lemma coerce_ok:
  assumes "coerce str_of b64 f raw = Inr v"
  shows "arg_ok f v"
proof (cases "fd_kind f = ''count'' \<and> fd_limit f \<noteq> None")
  case True
  then obtain n m where "fd_kind f = ''count''" "fd_limit f = Some m" "v = Value (JNum (real_of_int (max 0 (min n m))))"
    using assms by (auto simp: coerce_def split: option.splits)
  then show ?thesis
    by (simp add: arg_ok_def limit_or_def)
next
  case False
  then have "api_coerce str_of f raw = Inr v \<or> plane_coerce str_of b64 f raw = Inr v"
    using assms by (auto simp: coerce_def split: if_splits)
  with False show ?thesis using api_coerce_ok plane_coerce_ok by metis
qed

definition bound_as ::
  "(json \<Rightarrow> string) \<Rightarrow> (string \<Rightarrow> bytes option) \<Rightarrow> (string, json) odict \<Rightarrow> param_field \<Rightarrow> arg \<Rightarrow> bool" where
  "bound_as str_of b64 params f v =
     (case map_of params (fd_name f) of
        None \<Rightarrow> \<not> fd_required f \<and> v = Value (fd_default f)
      | Some raw \<Rightarrow> coerce str_of b64 f raw = Inr v)"

lemma bind_fields_Cons:
  "bind_fields str_of b64 (f # fs) params = Inr out \<longleftrightarrow>
     (\<exists>v rest. out = (fd_name f, v) # rest \<and> bound_as str_of b64 params f v \<and> bind_fields str_of b64 fs params = Inr rest)"
  by (auto simp: abind_Inr bound_as_def split: option.splits if_splits)

lemma bind_fields_spec:
  "bind_fields str_of b64 fs params = Inr out \<Longrightarrow>
     od_keys out = map fd_name fs \<and> list_all2 (\<lambda>f p. bound_as str_of b64 params f (snd p)) fs out"
proof (induction fs arbitrary: out)
  case (Cons f fs)
  from Cons.prems obtain v rest where "out = (fd_name f, v) # rest" "bound_as str_of b64 params f v"
    "bind_fields str_of b64 fs params = Inr rest" unfolding bind_fields_Cons by blast
  with Cons.IH show ?case by auto
qed simp

lemma bind_spec:
  assumes "bind_args str_of b64 fs params = Inr out" "distinct (map fd_name fs)"
  shows "od_keys out = map fd_name fs \<and> set (od_keys params) \<subseteq> set (map fd_name fs) \<and>
    (\<forall>f \<in> set fs. \<exists>v. map_of out (fd_name f) = Some v \<and>
       (if fd_name f \<in> set (od_keys params) then arg_ok f v else \<not> fd_required f \<and> v = Value (fd_default f)))"
proof -
  have b: "bind_fields str_of b64 fs params = Inr out" and known: "set (od_keys params) \<subseteq> set (map fd_name fs)"
    using assms(1) by (auto simp: bind_args_def split: if_splits)
  note keys = bind_fields_spec [OF b, THEN conjunct1]
  have "\<exists>v. map_of out (fd_name f) = Some v \<and>
      (if fd_name f \<in> set (od_keys params) then arg_ok f v else \<not> fd_required f \<and> v = Value (fd_default f))"
    if "f \<in> set fs" for f
  proof -
    from that obtain i where i: "i < length fs" "fs ! i = f" by (auto simp: in_set_conv_nth)
    have len: "length out = length fs" using keys by (metis length_map)
    obtain k v where kv: "out ! i = (k, v)" by (meson surj_pair)
    have k: "k = fd_name f" using keys i len kv by (metis fst_conv nth_map)
    have "bound_as str_of b64 params f v"
      using list_all2_nthD [OF bind_fields_spec [OF b, THEN conjunct2] i(1)] by (simp only: i(2) kv snd_conv)
    moreover have "map_of out (fd_name f) = Some v"
      using keys assms(2) i len kv k by (metis map_of_eq_Some_iff nth_mem)
    moreover have "map_of params (fd_name f) = None \<longleftrightarrow> fd_name f \<notin> set (od_keys params)"
      by (simp add: map_of_eq_None_iff)
    ultimately show ?thesis by (auto simp: bound_as_def intro: coerce_ok split: option.splits)
  qed
  with keys known show ?thesis by blast
qed

text \<open>
  C9: Arguments are refused by default and typed when they pass. When \<open>bind\<close> answers, nothing was
  supplied that the operation did not declare, the handler gets exactly the declared names, every
  supplied value is one the declared kind allows (bounded, one line where that is promised, among the
  choices, hexadecimal, ...), and only an optional argument that was left out is its default.
\<close>
theorem bind_well_typed:
  assumes "bind_args str_of b64 fs params = Inr out" "distinct (map fd_name fs)"
  shows "od_keys out = map fd_name fs \<and> set (od_keys params) \<subseteq> set (map fd_name fs) \<and>
    (\<forall>f \<in> set fs. \<exists>v. map_of out (fd_name f) = Some v \<and>
       (if fd_name f \<in> set (od_keys params) then arg_ok f v else \<not> fd_required f \<and> v = Value (fd_default f)))"
  by (rule bind_spec [OF assms])

definition demo_field :: "string \<Rightarrow> string \<Rightarrow> bool \<Rightarrow> param_field" where
  "demo_field name kind needed =
     \<lparr> fd_name = name, fd_kind = kind, fd_required = needed, fd_default = JNum 0, fd_help = [], fd_choices = [],
       fd_limit = None \<rparr>"

theorem bind_well_typed_witness:
  "\<exists>out. bind_args (\<lambda>_. []) (\<lambda>_. None) [demo_field ''seq'' ''count'' False, demo_field ''path'' ''line'' True]
       [(''path'', JStr ''a.txt'')] = Inr out \<and> od_keys out = [''seq'', ''path''] \<and>
     map_of out ''path'' = Some (Value (JStr ''a.txt'')) \<and> arg_ok (demo_field ''path'' ''line'' True) (Value (JStr ''a.txt''))"
proof -
  let ?fs = "[demo_field ''seq'' ''count'' False, demo_field ''path'' ''line'' True]"
  let ?out = "[(''seq'', Value (JNum 0)), (''path'', Value (JStr ''a.txt''))]"
  have b: "bind_args (\<lambda>_. []) (\<lambda>_. None) ?fs [(''path'', JStr ''a.txt'')] = Inr ?out"
    by (simp add: bind_args_def demo_field_def coerce_def API_KINDS_def plane_coerce_def none_text_def MAX_LINE_def
        one_line_def newline_def)
  have "distinct (map fd_name ?fs)" by (simp add: demo_field_def)
  from bind_well_typed [OF b this] b show ?thesis by (auto simp: demo_field_def)
qed

section \<open>What passes all the same\<close>

fun nested_list :: "nat \<Rightarrow> json" where
  "nested_list 0 = JNull"
| "nested_list (Suc n) = JArr [nested_list n]"

text \<open>A list in a \<open>document\<close> may be nested to any depth.\<close>

lemma document_nests_lists: "document 1 [(''a'', nested_list n)]"
proof -
  have "doc_scalar (nested_list n)" by (induction n) (simp_all add: MAX_KEYS_def)
  then show ?thesis
    by (cases n) (simp_all add: document.simps MAX_KEYS_def key_re_def before_end_def newline_def is_lower_def)
qed

text \<open>A key may end in a line feed.\<close>

lemma key_with_newline: "key_re (''listen'' @ [newline])"
  by (simp add: key_re_def before_end_def newline_def is_lower_def key_char_def MAX_KEY_def)

text \<open>A count is truncated, not refused.\<close>

lemma count_truncated:
  "coerce str_of b64 (demo_field ''n'' ''count'' True) (JNum (7 / 2)) = Inr (Value (JNum 3))"
  by (simp add: coerce_def demo_field_def api_coerce_def API_KINDS_def py_int_def MAX_COUNT_def)

end
