(* ===== verification/Plane.thy ===== *)
theory Plane
  imports Params AppPerms "HOL-Library.List_Lexorder" "HOL-Library.Char_ord"
begin

text \<open>
  The control plane (\<open>src/control/plane.py\<close>): declared operations, who reaches them, and the one door
  they are called through.

  The node an operation acts on is the type variable \<open>'w\<close>; a module's handlers, the app gate and the
  hooks of mods are functions of it, a handler and a hook giving back the node they leave. An operation
  answers a value, refuses with a code or raises anything else (\<open>Crashes\<close>). The sentences and details of
  refusals and the notes to the fault log are left out, so that \<open>_refusal\<close> is whether it answers \<open>None\<close>.
\<close>

section \<open>Origins and reach\<close>

definition LOCAL :: string where "LOCAL = ''local''"
definition GOVERN :: string where "GOVERN = ''govern''"
definition REMOTE :: string where "REMOTE = ''remote''"
definition REMOTE_APPS :: string where "REMOTE_APPS = ''remote+apps''"
definition GOVERN_APPS :: string where "GOVERN_APPS = ''govern+apps''"
definition FULL :: string where "FULL = ''full''"
definition ALL_ORIGINS :: "string list" where
  "ALL_ORIGINS = [LOCAL, GOVERN, REMOTE, REMOTE_APPS, GOVERN_APPS, FULL]"
definition APP_PREFIX :: string where "APP_PREFIX = ''app:''"

definition app_origin :: "string \<Rightarrow> string" where
  "app_origin app_hex = APP_PREFIX @ app_hex"

definition app_of :: "string \<Rightarrow> string" where
  "app_of origin =
     (if take (length APP_PREFIX) origin = APP_PREFIX then
        (let ident = drop (length APP_PREFIX) origin in
         if length ident = 16 \<and> list_all lower_hex ident then ident else [])
      else [])"

datatype reach = Reach_local | Reach_govern | Reach_remote

definition REACHED_BY :: "(string \<times> reach list) list" where
  "REACHED_BY =
     [(LOCAL, [Reach_local, Reach_govern, Reach_remote]), (FULL, [Reach_local, Reach_govern, Reach_remote]),
      (GOVERN, [Reach_govern, Reach_remote]), (GOVERN_APPS, [Reach_govern, Reach_remote]),
      (REMOTE, [Reach_remote]), (REMOTE_APPS, [Reach_remote])]"

definition CARRIES_APPS :: "string list" where
  "CARRIES_APPS = [LOCAL, FULL, REMOTE_APPS, GOVERN_APPS]"

definition carries_apps :: "string \<Rightarrow> bool" where
  "carries_apps origin \<longleftrightarrow> origin \<in> set CARRIES_APPS"

definition at_a_distance :: "string \<Rightarrow> bool" where
  "at_a_distance origin \<longleftrightarrow> origin \<in> set ALL_ORIGINS \<and> origin \<noteq> LOCAL"

section \<open>Declarations\<close>

definition MAX_MODULES :: nat where "MAX_MODULES = 32"
definition MAX_OPERATIONS :: nat where "MAX_OPERATIONS = 32"
definition MAX_PARAMS :: nat where "MAX_PARAMS = 12"
definition REMOTE_BUDGET :: real where "REMOTE_BUDGET = 15"

record op_entry =
  oe_name :: string
  oe_summary :: string
  oe_params :: "param_field list"
  oe_changes :: bool
  oe_reach :: reach
  oe_background :: bool
  oe_timeout :: real
  oe_wants_origin :: bool

definition reaches :: "string \<Rightarrow> op_entry \<Rightarrow> bool" where
  "reaches origin e \<longleftrightarrow> (case map_of REACHED_BY origin of None \<Rightarrow> False | Some rs \<Rightarrow> oe_reach e \<in> set rs)"

definition operation ::
  "string \<Rightarrow> string \<Rightarrow> param_field list \<Rightarrow> bool \<Rightarrow> bool \<Rightarrow> bool \<Rightarrow> bool \<Rightarrow> real \<Rightarrow> bool \<Rightarrow> op_entry answer" where
  "operation name summary ps changes remote govern background timeout wants_origin =
     (let travels = remote \<or> govern in
      if \<not> param_name_re name then Inl Bad_request
      else if MAX_PARAMS < length ps then Inl Bad_request
      else if \<not> distinct (map fd_name ps) then Inl Bad_request
      else if wants_origin \<and> ''origin'' \<in> fd_name ` set ps then Inl Bad_request
      else if timeout \<le> 0 then Inl Bad_request
      else if remote \<and> govern then Inl Bad_request
      else if travels \<and> REMOTE_BUDGET < timeout \<and> \<not> background then Inl Bad_request
      else if background \<and> timeout \<le> REMOTE_BUDGET then Inl Bad_request
      else if background \<and> \<not> travels then Inl Bad_request
      else Inr \<lparr> oe_name = name, oe_summary = take 200 summary, oe_params = ps, oe_changes = changes,
                 oe_reach = (if remote then Reach_remote else if govern then Reach_govern else Reach_local),
                 oe_background = background, oe_timeout = timeout, oe_wants_origin = wants_origin \<rparr>)"

datatype handled = Answers json | Says_no control_code | Crashes

type_synonym args = "(string, arg) odict"
type_synonym 'w handler = "args \<Rightarrow> 'w \<Rightarrow> handled \<times> 'w"

record 'w module =
  md_name :: string
  md_operations :: "op_entry list"
  md_handlers :: "string \<Rightarrow> 'w handler option"

fun first_named :: "op_entry list \<Rightarrow> string set \<Rightarrow> op_entry list" where
  "first_named [] taken = []"
| "first_named (e # es) taken =
     (if oe_name e \<in> taken then first_named es taken else e # first_named es (insert (oe_name e) taken))"

definition declared_ops :: "'w module \<Rightarrow> op_entry list" where
  "declared_ops m = first_named (take MAX_OPERATIONS (md_operations m)) {}"

section \<open>The plane\<close>

datatype gate_reply = Says "string option" | Gate_raises

type_synonym 'w app_gate = "'w \<Rightarrow> string \<Rightarrow> string \<Rightarrow> op_entry \<Rightarrow> (string, json) odict option \<Rightarrow> gate_reply"

record 'w hook =
  hk_app :: string
  hk_mode :: string
  hk_call :: "string \<Rightarrow> args \<Rightarrow> (string, json) odict option \<Rightarrow> 'w \<Rightarrow> json option \<times> 'w"

datatype 'w hook_found = No_hook | Hooked "'w hook" | Lookup_raises

record 'w plane =
  pl_modules :: "(string, 'w module) odict"
  pl_gate :: "'w app_gate option"
  pl_hooks :: "('w \<Rightarrow> string \<Rightarrow> 'w hook_found) option"
  pl_str_of :: "json \<Rightarrow> string"
  pl_b64 :: "string \<Rightarrow> bytes option"

definition new_plane :: "(json \<Rightarrow> string) \<Rightarrow> (string \<Rightarrow> bytes option) \<Rightarrow> 'w plane" where
  "new_plane str_of b64 = \<lparr> pl_modules = [], pl_gate = None, pl_hooks = None, pl_str_of = str_of, pl_b64 = b64 \<rparr>"

definition register :: "'w module \<Rightarrow> 'w plane \<Rightarrow> 'w plane answer" where
  "register m pl =
     (if \<not> param_name_re (md_name m) then Inl Bad_request
      else if md_name m \<in> set (od_keys (pl_modules pl)) then Inl Conflict
      else if MAX_MODULES \<le> length (pl_modules pl) then Inl Conflict
      else if declared_ops m = [] then Inl Bad_request
      else if \<exists>e \<in> set (declared_ops m). md_handlers m (oe_name e) = None then Inl Bad_request
      else Inr (pl\<lparr> pl_modules := pl_modules pl @ [(md_name m, m)] \<rparr>))"

definition permits :: "'w plane \<Rightarrow> 'w \<Rightarrow> string \<Rightarrow> string \<Rightarrow> op_entry \<Rightarrow> (string, json) odict option \<Rightarrow> bool" where
  "permits pl w origin op e params =
     (if app_of origin \<noteq> [] then
        (case pl_gate pl of
           None \<Rightarrow> False
         | Some gate \<Rightarrow>
             (case gate w (app_of origin) op e params of
                Says None \<Rightarrow> True
              | Says (Some reason) \<Rightarrow> reason = []
              | Gate_raises \<Rightarrow> False))
      else reaches origin e)"

definition find_op :: "'w plane \<Rightarrow> string \<Rightarrow> ('w module \<times> op_entry) option" where
  "find_op pl op =
     (case split_on (CHR ''.'') op of
        [module_name, name] \<Rightarrow>
          (case map_of (pl_modules pl) module_name of
             None \<Rightarrow> None
           | Some m \<Rightarrow>
               (case List.find (\<lambda>e. oe_name e = name) (declared_ops m) of
                  None \<Rightarrow> None
                | Some e \<Rightarrow> Some (m, e)))
      | _ \<Rightarrow> None)"

definition catalogue :: "'w plane \<Rightarrow> 'w \<Rightarrow> string \<Rightarrow> (string \<times> op_entry list) list" where
  "catalogue pl w origin =
     filter (\<lambda>(_, es). es \<noteq> [])
       (map (\<lambda>(name, m). (name, filter (\<lambda>e. permits pl w origin (name @ ''.'' @ oe_name e) e None) (declared_ops m)))
          (sort_key fst (pl_modules pl)))"

definition check_call ::
  "'w plane \<Rightarrow> 'w \<Rightarrow> string \<Rightarrow> (string, json) odict option \<Rightarrow> string \<Rightarrow> ('w module \<times> op_entry \<times> args) answer" where
  "check_call pl w op params origin =
     (if origin \<notin> set ALL_ORIGINS \<and> app_of origin = [] then Inl Bad_request
      else case find_op pl op of
        None \<Rightarrow> Inl Not_found
      | Some (m, e) \<Rightarrow>
          (if \<not> permits pl w origin op e params then Inl Refused
           else abind (bind_args (pl_str_of pl) (pl_b64 pl) (oe_params e) (case params of None \<Rightarrow> [] | Some d \<Rightarrow> d)) (\<lambda>arguments.
             Inr (m, e, if oe_wants_origin e then AList.update ''origin'' (Value (JStr origin)) arguments else arguments))))"

section \<open>Calling\<close>

definition as_dict :: "json \<Rightarrow> (string, json) odict" where
  "as_dict result = (case result of JObj d \<Rightarrow> d | _ \<Rightarrow> [(''result'', result)])"

definition run_handler :: "'w handler \<Rightarrow> args \<Rightarrow> 'w \<Rightarrow> (string, json) odict answer \<times> 'w" where
  "run_handler handler arguments w =
     (case handler arguments w of
        (Answers result, w) \<Rightarrow> (Inr (as_dict result), w)
      | (Says_no code, w) \<Rightarrow> (Inl code, w)
      | (Crashes, w) \<Rightarrow> (Inl Failed, w))"

definition hook_for :: "'w plane \<Rightarrow> 'w \<Rightarrow> string \<Rightarrow> string \<Rightarrow> 'w hook option" where
  "hook_for pl w op origin =
     (case pl_hooks pl of
        None \<Rightarrow> None
      | Some lookup \<Rightarrow>
          (case lookup w op of
             Hooked hook \<Rightarrow> if hk_app hook = app_of origin then None else Some hook
           | _ \<Rightarrow> None))"

definition ask_hook :: "'w hook \<Rightarrow> string \<Rightarrow> args \<Rightarrow> (string, json) odict option \<Rightarrow> 'w \<Rightarrow> (string, json) odict option \<times> 'w" where
  "ask_hook hook op public result w =
     (case hk_call hook op public result w of
        (Some (JObj d), w) \<Rightarrow> (Some d, w)
      | (_, w) \<Rightarrow> (None, w))"

text \<open>What a hook's answer holds under a name, when that is a mapping.\<close>

definition mapping_of :: "string \<Rightarrow> (string, json) odict option \<Rightarrow> (string, json) odict option" where
  "mapping_of name reply =
     (case reply of
        None \<Rightarrow> None
      | Some d \<Rightarrow> (case json_get name d of JObj inner \<Rightarrow> Some inner | _ \<Rightarrow> None))"

definition rebind :: "'w plane \<Rightarrow> op_entry \<Rightarrow> args \<Rightarrow> (string, json) odict \<Rightarrow> args" where
  "rebind pl e arguments changed =
     (case bind_args (pl_str_of pl) (pl_b64 pl) (oe_params e) changed of
        Inl _ \<Rightarrow> arguments
      | Inr rebound \<Rightarrow>
          (case map_of arguments ''origin'' of
             None \<Rightarrow> rebound
           | Some v \<Rightarrow> AList.update ''origin'' v rebound))"

definition modded ::
  "'w plane \<Rightarrow> 'w hook \<Rightarrow> string \<Rightarrow> op_entry \<Rightarrow> args \<Rightarrow> 'w handler \<Rightarrow> 'w \<Rightarrow> (string, json) odict answer \<times> 'w" where
  "modded pl hook op e arguments handler w =
     (let public = AList.delete ''origin'' arguments in
      if hk_mode hook = ''before'' then
        (let (reply, w) = ask_hook hook op public None w
         in run_handler handler
              (case mapping_of ''params'' reply of None \<Rightarrow> arguments | Some changed \<Rightarrow> rebind pl e arguments changed) w)
      else if hk_mode hook = ''replace'' then
        (let (reply, w) = ask_hook hook op public None w
         in case mapping_of ''result'' reply of
              Some result \<Rightarrow> (Inr result, w)
            | None \<Rightarrow> run_handler handler arguments w)
      else
        (case run_handler handler arguments w of
           (Inl code, w) \<Rightarrow> (Inl code, w)
         | (Inr result, w) \<Rightarrow>
             (if hk_mode hook = ''after'' then
                (let (reply, w) = ask_hook hook op public (Some result) w
                 in (Inr (case mapping_of ''result'' reply of None \<Rightarrow> result | Some changed \<Rightarrow> changed), w))
              else (Inr result, w))))"

definition invoke ::
  "'w plane \<Rightarrow> string \<Rightarrow> (string, json) odict option \<Rightarrow> string \<Rightarrow> 'w \<Rightarrow> (string, json) odict answer \<times> 'w" where
  "invoke pl op params origin w =
     (case check_call pl w op params origin of
        Inl code \<Rightarrow> (Inl code, w)
      | Inr (m, e, arguments) \<Rightarrow>
          (case md_handlers m (oe_name e) of
             None \<Rightarrow> (Inl Not_found, w)
           | Some handler \<Rightarrow>
               (case hook_for pl w op origin of
                  Some hook \<Rightarrow> modded pl hook op e arguments handler w
                | None \<Rightarrow> run_handler handler arguments w)))"

definition plane_call ::
  "'w plane \<Rightarrow> string \<Rightarrow> (string, json) odict option \<Rightarrow> string \<Rightarrow> 'w \<Rightarrow> (string, json) odict answer \<times> 'w" where
  "plane_call pl op params origin w =
     (if (case find_op pl op of
            None \<Rightarrow> False
          | Some (_, e) \<Rightarrow> oe_background e \<and> origin \<noteq> LOCAL \<and> permits pl w origin op e params)
      then (Inl Refused, w)
      else invoke pl op params origin w)"

record request =
  rq_op :: string
  rq_params :: "(string, json) odict"
  rq_id :: string

record reply =
  rp_ok :: bool
  rp_result :: "(string, json) odict"
  rp_code :: "control_code option"
  rp_id :: string

definition reply_of :: "string \<Rightarrow> (string, json) odict answer \<Rightarrow> reply" where
  "reply_of ident outcome =
     (case outcome of
        Inl code \<Rightarrow> \<lparr> rp_ok = False, rp_result = [], rp_code = Some code, rp_id = ident \<rparr>
      | Inr result \<Rightarrow> \<lparr> rp_ok = True, rp_result = result, rp_code = None, rp_id = ident \<rparr>)"

definition dispatch_request :: "'w plane \<Rightarrow> request \<Rightarrow> string \<Rightarrow> 'w \<Rightarrow> reply \<times> 'w" where
  "dispatch_request pl req origin w =
     (let (outcome, w) = plane_call pl (rq_op req) (Some (rq_params req)) origin w in (reply_of (rq_id req) outcome, w))"

end
