(* ===== verification/PlaneSafe.thy ===== *)
theory PlaneSafe
  imports Plane
begin

text \<open>What the control plane promises: declared, permitted, bound, or nothing happens.\<close>

section \<open>The declaration of an operation\<close>

text \<open>
  A declaration that is accepted fits the relay. An operation that travels is a background job exactly
  when its ceiling is above what one call across the mesh may take, one that does not travel is never a
  job; its arguments are distinctly named, at most twelve, and none of them is the injected origin.
\<close>
theorem operation_fits_relay:
  assumes "operation name summary ps changes remote govern background timeout wants_origin = Inr e"
  shows "(oe_reach e \<noteq> Reach_local \<longrightarrow> (oe_background e \<longleftrightarrow> REMOTE_BUDGET < oe_timeout e)) \<and>
    (oe_reach e = Reach_local \<longrightarrow> \<not> oe_background e) \<and> 0 < oe_timeout e \<and>
    distinct (map fd_name (oe_params e)) \<and> length (oe_params e) \<le> MAX_PARAMS \<and>
    (oe_wants_origin e \<longrightarrow> ''origin'' \<notin> fd_name ` set (oe_params e))"
  using assms by (auto simp: operation_def Let_def split: if_splits)

theorem operation_fits_relay_witness:
  "\<exists>e. operation ''commit'' [] [demo_field ''transfer'' ''line'' True] True True False True 300 True = Inr e \<and>
     oe_background e \<and> oe_reach e = Reach_remote"
proof -
  obtain e where e: "operation ''commit'' [] [demo_field ''transfer'' ''line'' True] True True False True 300 True = Inr e"
    "oe_reach e = Reach_remote" "oe_timeout e = 300"
    by (simp add: operation_def Let_def param_name_re_def before_end_def newline_def word_of_class_def is_lower_def
        word_class_def MAX_PARAMS_def demo_field_def REMOTE_BUDGET_def)
  from operation_fits_relay [OF e(1)] e show ?thesis by (auto simp: REMOTE_BUDGET_def)
qed

section \<open>Nothing runs that was not permitted\<close>

lemma find_op_declared:
  assumes "find_op pl op = Some (m, e)"
  shows "\<exists>name. map_of (pl_modules pl) name = Some m" "e \<in> set (declared_ops m)"
  using assms by (auto simp: find_op_def find_Some_iff split: list.splits option.splits)

definition cleared ::
  "'w plane \<Rightarrow> 'w \<Rightarrow> string \<Rightarrow> (string, json) odict \<Rightarrow> string \<Rightarrow> op_entry \<Rightarrow> bool" where
  "cleared pl w op params origin e \<longleftrightarrow>
     (if app_of origin \<noteq> [] then
        (\<exists>gate. pl_gate pl = Some gate \<and> gate w (app_of origin) op e (Some params) \<in> {Says None, Says (Some [])})
      else origin \<in> set ALL_ORIGINS \<and> reaches origin e) \<and>
     (\<exists>arguments. bind_args (pl_str_of pl) (pl_b64 pl) (oe_params e) params = Inr arguments) \<and>
     (oe_background e \<longrightarrow> origin = LOCAL)"

lemma app_of_known: "origin \<in> set ALL_ORIGINS \<Longrightarrow> app_of origin = []"
  by (auto simp: ALL_ORIGINS_def app_of_def APP_PREFIX_def LOCAL_def GOVERN_def REMOTE_def REMOTE_APPS_def
      GOVERN_APPS_def FULL_def)

lemma check_call_Inr:
  assumes "check_call pl w op params origin = Inr (m, e, arguments)"
  shows "find_op pl op = Some (m, e)" "permits pl w origin op e params" "origin \<in> set ALL_ORIGINS \<or> app_of origin \<noteq> []"
    "\<exists>bound. bind_args (pl_str_of pl) (pl_b64 pl) (oe_params e) (case params of None \<Rightarrow> [] | Some d \<Rightarrow> d) = Inr bound \<and>
      arguments = (if oe_wants_origin e then AList.update ''origin'' (Value (JStr origin)) bound else bound)"
  using assms unfolding check_call_def
  by (auto simp: abind_Inr split: if_splits option.splits prod.splits)

lemma check_cleared:
  assumes "check_call pl w op (Some params) origin = Inr (m, e, arguments)"
    "\<not> (oe_background e \<and> origin \<noteq> LOCAL \<and> permits pl w origin op e (Some params))"
  shows "cleared pl w op params origin e"
  using check_call_Inr [OF assms(1)] assms(2)
  by (auto simp: cleared_def permits_def split: if_splits option.splits gate_reply.splits)

text \<open>
  C6: A request changes nothing unless it was cleared. If answering a request leaves the node different,
  then its operation was declared by a registered module, its caller was allowed it (for an application,
  by the gate; for a console, by the reach the operation declares), all its arguments were bound, and it
  was not a long operation asked for from elsewhere. In every other case the reply is a refusal.
\<close>
theorem only_cleared_requests_act:
  assumes "snd (dispatch_request pl req origin w) \<noteq> w \<or> rp_ok (fst (dispatch_request pl req origin w))"
  shows "\<exists>m e. find_op pl (rq_op req) = Some (m, e) \<and> e \<in> set (declared_ops m) \<and>
    cleared pl w (rq_op req) (rq_params req) origin e"
proof -
  let ?op = "rq_op req" and ?ps = "rq_params req"
  have call: "snd (plane_call pl ?op (Some ?ps) origin w) \<noteq> w \<or> (\<exists>d. fst (plane_call pl ?op (Some ?ps) origin w) = Inr d)"
    using assms by (auto simp: dispatch_request_def reply_of_def Let_def case_prod_unfold split: sum.splits)
  have not_deferred: "\<not> (case find_op pl ?op of None \<Rightarrow> False
      | Some (_, e) \<Rightarrow> oe_background e \<and> origin \<noteq> LOCAL \<and> permits pl w origin ?op e (Some ?ps))"
    using call by (auto simp: plane_call_def)
  then have inv: "plane_call pl ?op (Some ?ps) origin w = invoke pl ?op (Some ?ps) origin w"
    by (simp add: plane_call_def)
  obtain m e arguments where c: "check_call pl w ?op (Some ?ps) origin = Inr (m, e, arguments)"
  proof (cases "check_call pl w ?op (Some ?ps) origin")
    case (Inl code)
    then show ?thesis using call by (simp add: inv invoke_def)
  next
    case (Inr x)
    then show ?thesis using that by (metis prod_cases3)
  qed
  have f: "find_op pl ?op = Some (m, e)" by (rule check_call_Inr(1) [OF c])
  have "cleared pl w ?op ?ps origin e" by (rule check_cleared [OF c]) (use not_deferred f in simp)
  with f find_op_declared(2) [OF f] show ?thesis by blast
qed

definition demo_op :: "string \<Rightarrow> reach \<Rightarrow> param_field list \<Rightarrow> op_entry" where
  "demo_op name r ps =
     \<lparr> oe_name = name, oe_summary = [], oe_params = ps, oe_changes = True, oe_reach = r, oe_background = False,
       oe_timeout = 10, oe_wants_origin = False \<rparr>"

definition demo_module :: "nat module" where
  "demo_module =
     \<lparr> md_name = ''node'',
       md_operations = [demo_op ''rename'' Reach_govern [demo_field ''name'' ''text'' True]],
       md_handlers = (\<lambda>n. if n = ''rename'' then Some (\<lambda>_ w. (Answers JNull, Suc w)) else None) \<rparr>"

definition demo_plane :: "nat plane" where
  "demo_plane = (new_plane (\<lambda>_. []) (\<lambda>_. None))\<lparr> pl_modules := [(''node'', demo_module)] \<rparr>"

lemma demo_plane_registered: "register demo_module (new_plane (\<lambda>_. []) (\<lambda>_. None)) = Inr demo_plane"
  by (simp add: register_def demo_module_def demo_plane_def new_plane_def param_name_re_def before_end_def newline_def
      word_of_class_def is_lower_def word_class_def declared_ops_def demo_op_def MAX_MODULES_def MAX_OPERATIONS_def)

definition demo_request :: request where
  "demo_request = \<lparr> rq_op = ''node.rename'', rq_params = [(''name'', JStr ''hill'')], rq_id = ''7'' \<rparr>"

lemma demo_find: "find_op demo_plane ''node.rename'' =
    Some (demo_module, demo_op ''rename'' Reach_govern [demo_field ''name'' ''text'' True])"
  by (simp add: find_op_def demo_plane_def new_plane_def demo_module_def declared_ops_def demo_op_def MAX_OPERATIONS_def)

lemma demo_bound: "bind_args (\<lambda>_. []) (\<lambda>_. None) [demo_field ''name'' ''text'' True] [(''name'', JStr ''hill'')] =
    Inr [(''name'', Value (JStr ''hill''))]"
  by (simp add: bind_args_def demo_field_def coerce_def text_shaped_def API_KINDS_def api_coerce_def none_text_def
      py_strip_def py_space_def API_MAX_TEXT_def one_line_def newline_def)

lemma demo_fields: "md_handlers demo_module ''rename'' = Some (\<lambda>_ w. (Answers JNull, Suc w))"
  "oe_background (demo_op name r ps) = False" "oe_name (demo_op name r ps) = name" "pl_hooks demo_plane = None"
  "rq_op demo_request = ''node.rename''" "rq_params demo_request = [(''name'', JStr ''hill'')]" "rq_id demo_request = ''7''"
  by (simp_all add: demo_module_def demo_op_def demo_plane_def new_plane_def demo_request_def)

lemma demo_check: "check_call demo_plane 0 ''node.rename'' (Some [(''name'', JStr ''hill'')]) GOVERN =
    Inr (demo_module, demo_op ''rename'' Reach_govern [demo_field ''name'' ''text'' True], [(''name'', Value (JStr ''hill''))])"
proof -
  have r: "app_of GOVERN = []" "GOVERN \<in> set ALL_ORIGINS" "permits demo_plane 0 GOVERN ''node.rename'' (demo_op ''rename'' Reach_govern ps) x" for ps x
    by (simp_all add: app_of_def APP_PREFIX_def GOVERN_def ALL_ORIGINS_def permits_def reaches_def REACHED_BY_def LOCAL_def
        FULL_def demo_op_def)
  then show ?thesis
    using demo_bound by (simp add: check_call_def demo_find) (simp add: demo_op_def demo_plane_def new_plane_def)
qed

lemma demo_answered: "dispatch_request demo_plane demo_request GOVERN 0 = (reply_of ''7'' (Inr [(''result'', JNull)]), 1)"
  using demo_check
  by (simp add: dispatch_request_def plane_call_def demo_fields demo_find invoke_def hook_for_def run_handler_def as_dict_def)

theorem only_cleared_requests_act_witness:
  "snd (dispatch_request demo_plane demo_request GOVERN 0) = 1 \<and>
     (\<exists>m e. find_op demo_plane ''node.rename'' = Some (m, e) \<and> cleared demo_plane 0 ''node.rename'' [(''name'', JStr ''hill'')] GOVERN e)"
  using only_cleared_requests_act [of demo_plane demo_request GOVERN 0] demo_answered
  by (auto simp: demo_fields)

section \<open>Handlers see declared arguments only\<close>

text \<open>What a handler may be given: the declared names and nothing else, each value of its kind.\<close>

definition well_bound :: "op_entry \<Rightarrow> args \<Rightarrow> bool" where
  "well_bound e arguments \<longleftrightarrow>
     fst ` set arguments \<subseteq> fd_name ` set (oe_params e) \<union> (if oe_wants_origin e then {''origin''} else {}) \<and>
     (\<forall>f \<in> set (oe_params e). \<exists>v. map_of arguments (fd_name f) = Some v \<and>
        (arg_ok f v \<or> \<not> fd_required f \<and> v = Value (fd_default f)))"

definition shielded :: "op_entry \<Rightarrow> 'w handler \<Rightarrow> 'w handler" where
  "shielded e handler arguments w = (if well_bound e arguments then handler arguments w else (Crashes, w))"

definition shield_module :: "'w module \<Rightarrow> 'w module" where
  "shield_module m = m\<lparr> md_handlers := (\<lambda>name.
     case List.find (\<lambda>e. oe_name e = name) (declared_ops m) of
       None \<Rightarrow> md_handlers m name
     | Some e \<Rightarrow> map_option (shielded e) (md_handlers m name)) \<rparr>"

definition shield_plane :: "'w plane \<Rightarrow> 'w plane" where
  "shield_plane pl = pl\<lparr> pl_modules := map (map_prod id shield_module) (pl_modules pl) \<rparr>"

definition well_declared :: "'w plane \<Rightarrow> bool" where
  "well_declared pl \<longleftrightarrow>
     (\<forall>m \<in> snd ` set (pl_modules pl). \<forall>e \<in> set (md_operations m).
        distinct (map fd_name (oe_params e)) \<and> (oe_wants_origin e \<longrightarrow> ''origin'' \<notin> fd_name ` set (oe_params e)))"

lemma declared_ops_shield: "declared_ops (shield_module m) = declared_ops m"
  by (simp add: declared_ops_def shield_module_def)

lemma first_named_subset: "set (first_named es taken) \<subseteq> set es"
  by (induction es taken rule: first_named.induct) auto

lemma first_named_fresh: "e \<in> set (first_named es taken) \<Longrightarrow> oe_name e \<notin> taken"
  by (induction es taken rule: first_named.induct) (auto split: if_splits)

lemma first_named_distinct: "distinct (map oe_name (first_named es taken))"
  by (induction es taken rule: first_named.induct) (auto dest: first_named_fresh)

lemma find_distinct_name:
  "distinct (map oe_name es) \<Longrightarrow> e \<in> set es \<Longrightarrow> List.find (\<lambda>k. oe_name k = oe_name e) es = Some e"
  by (induction es) (auto simp: rev_image_eqI)

lemma find_declared: "e \<in> set (declared_ops m) \<Longrightarrow> List.find (\<lambda>k. oe_name k = oe_name e) (declared_ops m) = Some e"
  unfolding declared_ops_def by (rule find_distinct_name [OF first_named_distinct])

lemma map_of_shield: "map_of (pl_modules (shield_plane pl)) name = map_option shield_module (map_of (pl_modules pl) name)"
  unfolding shield_plane_def by (induction "pl_modules pl") (auto simp: map_of_map map_prod_def)

lemma find_op_shield: "find_op (shield_plane pl) op = map_option (map_prod shield_module id) (find_op pl op)"
  unfolding find_op_def
  by (simp add: map_of_shield declared_ops_shield split: list.split option.split)

lemma shield_fields: "pl_gate (shield_plane pl) = pl_gate pl" "pl_hooks (shield_plane pl) = pl_hooks pl"
  "pl_str_of (shield_plane pl) = pl_str_of pl" "pl_b64 (shield_plane pl) = pl_b64 pl"
  by (simp_all add: shield_plane_def)

lemma permits_shield: "permits (shield_plane pl) = permits pl"
  by (intro ext) (simp add: permits_def shield_fields)

lemma hook_for_shield: "hook_for (shield_plane pl) = hook_for pl"
  by (intro ext) (simp add: hook_for_def shield_fields)

lemma check_call_shield:
  "check_call (shield_plane pl) w op params origin =
     (case check_call pl w op params origin of Inl c \<Rightarrow> Inl c | Inr (m, e, a) \<Rightarrow> Inr (shield_module m, e, a))"
  by (simp add: check_call_def find_op_shield permits_shield shield_fields abind_def split: option.split sum.split)

lemma bound_well_bound:
  assumes "bind_args (pl_str_of pl) (pl_b64 pl) (oe_params e) params = Inr bound" "distinct (map fd_name (oe_params e))"
  shows "fst ` set bound = fd_name ` set (oe_params e)"
    "\<forall>f \<in> set (oe_params e). \<exists>v. map_of bound (fd_name f) = Some v \<and>
       (arg_ok f v \<or> \<not> fd_required f \<and> v = Value (fd_default f))"
  using bind_spec [OF assms] by (metis list.set_map, metis (full_types))

lemma well_bound_call:
  assumes "check_call pl w op params origin = Inr (m, e, arguments)" "well_declared pl"
  shows "well_bound e arguments"
proof -
  note c = check_call_Inr [OF assms(1)]
  from c(4) obtain bound where b: "bind_args (pl_str_of pl) (pl_b64 pl) (oe_params e) (case params of None \<Rightarrow> [] | Some d \<Rightarrow> d) = Inr bound"
    "arguments = (if oe_wants_origin e then AList.update ''origin'' (Value (JStr origin)) bound else bound)" by blast
  obtain name where "map_of (pl_modules pl) name = Some m" using find_op_declared(1) [OF c(1)] by blast
  then have "m \<in> snd ` set (pl_modules pl)" by (auto dest: map_of_SomeD intro: rev_image_eqI)
  moreover have "e \<in> set (md_operations m)"
    using find_op_declared(2) [OF c(1)] first_named_subset [of "take MAX_OPERATIONS (md_operations m)" "{}"]
    by (auto simp: declared_ops_def dest: in_set_takeD)
  ultimately have d: "distinct (map fd_name (oe_params e))" "oe_wants_origin e \<longrightarrow> ''origin'' \<notin> fd_name ` set (oe_params e)"
    using assms(2) by (auto simp: well_declared_def)
  note s = bound_well_bound [OF b(1) d(1)]
  show ?thesis
  proof (cases "oe_wants_origin e")
    case True
    have "map_of arguments (fd_name f) = map_of bound (fd_name f)" if "f \<in> set (oe_params e)" for f
    proof -
      have "fd_name f \<noteq> ''origin''" using True d(2) that by (metis imageI)
      with True show ?thesis by (simp add: b(2) update_conv')
    qed
    then show ?thesis using s True by (simp add: well_bound_def b(2) dom_update)
  next
    case False
    with s show ?thesis by (simp add: well_bound_def b(2))
  qed
qed

lemma well_bound_rebind:
  assumes "well_bound e arguments" "distinct (map fd_name (oe_params e))"
  shows "well_bound e (rebind pl e arguments changed)"
proof (cases "bind_args (pl_str_of pl) (pl_b64 pl) (oe_params e) changed")
  case (Inr bound)
  note s = bound_well_bound [OF Inr assms(2)]
  show ?thesis
  proof (cases "map_of arguments ''origin''")
    case None
    with Inr s show ?thesis by (simp add: rebind_def well_bound_def)
  next
    case (Some v)
    let ?new = "AList.update ''origin'' v bound"
    have "\<exists>u. map_of ?new (fd_name f) = Some u \<and> (arg_ok f u \<or> \<not> fd_required f \<and> u = Value (fd_default f))"
      if "f \<in> set (oe_params e)" for f
    proof (cases "fd_name f = ''origin''")
      case True
      from assms(1) that obtain u where "map_of arguments (fd_name f) = Some u"
        "arg_ok f u \<or> \<not> fd_required f \<and> u = Value (fd_default f)" unfolding well_bound_def by blast
      with Some True show ?thesis by (simp add: update_conv')
    next
      case False
      then have "map_of ?new (fd_name f) = map_of bound (fd_name f)" by (simp add: update_conv')
      with s(2) that show ?thesis by simp
    qed
    moreover have "''origin'' \<in> fst ` set arguments" using Some by (rule map_of_mem)
    then have "''origin'' \<in> fd_name ` set (oe_params e) \<union> (if oe_wants_origin e then {''origin''} else {})"
      using assms(1) unfolding well_bound_def by blast
    then have "fst ` set ?new \<subseteq> fd_name ` set (oe_params e) \<union> (if oe_wants_origin e then {''origin''} else {})"
      by (auto simp: dom_update s(1))
    ultimately show ?thesis using Inr Some by (simp add: rebind_def well_bound_def)
  qed
qed (simp add: rebind_def assms(1))

lemma run_shielded: "well_bound e arguments \<Longrightarrow> run_handler (shielded e h) arguments w = run_handler h arguments w"
  by (simp add: run_handler_def shielded_def)

lemma modded_shielded:
  assumes "well_bound e arguments" "distinct (map fd_name (oe_params e))"
  shows "modded (shield_plane pl) hook op e arguments (shielded e h) w = modded pl hook op e arguments h w"
proof -
  have r: "rebind (shield_plane pl) e arguments changed = rebind pl e arguments changed" for changed
    by (simp add: rebind_def shield_fields)
  note changed = run_shielded [OF well_bound_rebind [OF assms]]
  show ?thesis
    by (simp add: modded_def Let_def case_prod_unfold r changed run_shielded [OF assms(1)] split: option.split)
qed

text \<open>
  C10: A handler never meets an argument its operation did not declare. Whatever is asked, by whom, and
  whatever a mod standing in front of the operation hands back, every answer is the one the node would
  give if each handler crashed on arguments that are not the declared names with values of their kinds.
\<close>
theorem handlers_see_declared_arguments:
  assumes "well_declared pl"
  shows "dispatch_request (shield_plane pl) req origin w = dispatch_request pl req origin w"
proof -
  have inv: "invoke (shield_plane pl) op params origin w = invoke pl op params origin w" for op params
  proof (cases "check_call pl w op params origin")
    case (Inr x)
    then obtain m e a where c: "check_call pl w op params origin = Inr (m, e, a)" by (metis prod_cases3)
    note f = check_call_Inr(1) [OF c]
    have mem: "e \<in> set (declared_ops m)" by (rule find_op_declared(2) [OF f])
    have wb: "well_bound e a" by (rule well_bound_call [OF c assms])
    have d: "distinct (map fd_name (oe_params e))"
      using mem first_named_subset [of "take MAX_OPERATIONS (md_operations m)" "{}"] find_op_declared(1) [OF f] assms
      by (fastforce simp: declared_ops_def well_declared_def dest: in_set_takeD map_of_SomeD)
    have h: "md_handlers (shield_module m) (oe_name e) = map_option (shielded e) (md_handlers m (oe_name e))"
      by (simp add: shield_module_def find_declared [OF mem])
    show ?thesis
      by (simp add: invoke_def check_call_shield c h hook_for_shield modded_shielded [OF wb d] run_shielded [OF wb]
          split: option.split)
  qed (simp add: invoke_def check_call_shield)
  have "plane_call (shield_plane pl) op params origin w = plane_call pl op params origin w" for op params
    by (auto simp: plane_call_def inv find_op_shield permits_shield split: option.split)
  then show ?thesis by (simp add: dispatch_request_def)
qed

theorem handlers_see_declared_arguments_witness:
  "dispatch_request (shield_plane demo_plane) demo_request GOVERN 0 = (reply_of ''7'' (Inr [(''result'', JNull)]), 1)"
proof -
  have "well_declared demo_plane"
    by (simp add: well_declared_def demo_plane_def new_plane_def demo_module_def demo_op_def)
  from handlers_see_declared_arguments [OF this] show ?thesis by (simp add: demo_answered)
qed

section \<open>Mods\<close>

text \<open>
  C40: A mod that fails is never felt. If the hooks of mods leave the node alone and answer nothing that is a
  mapping (they raise, time out or answer a number), every request is answered as if there were none.
\<close>
theorem broken_mods_unfelt:
  assumes "pl_hooks pl = Some lookup"
    "\<And>w0 op hook op' a r w. lookup w0 op = Hooked hook \<Longrightarrow>
       snd (hk_call hook op' a r w) = w \<and> (\<forall>d. fst (hk_call hook op' a r w) \<noteq> Some (JObj d))"
  shows "dispatch_request pl req origin w = dispatch_request (pl\<lparr> pl_hooks := None \<rparr>) req origin w"
proof -
  let ?q = "pl\<lparr> pl_hooks := None \<rparr>"
  have p: "permits ?q = permits pl" by (intro ext) (simp add: permits_def)
  have f: "find_op ?q = find_op pl" by (intro ext) (simp add: find_op_def split: list.split)
  have c: "check_call ?q = check_call pl" by (intro ext) (simp add: check_call_def p f split: option.split)
  have ask: "ask_hook hook op' a r w = (None, w)" if "lookup w0 op = Hooked hook" for hook op op' a r w w0
  proof -
    obtain v w' where v: "hk_call hook op' a r w = (v, w')" by (meson surj_pair)
    have "w' = w" "\<forall>d. v \<noteq> Some (JObj d)" using assms(2) [OF that, of op' a r w] v by auto
    then show ?thesis using v by (auto simp: ask_hook_def split: option.split json.split)
  qed
  have same: "modded pl hook op e a h w = run_handler h a w" if "lookup w0 op' = Hooked hook" for hook op e a h w w0 op'
    by (simp add: modded_def Let_def ask [OF that] mapping_of_def case_prod_unfold prod_eq_iff split: sum.split)
  have "invoke pl op params origin w = invoke ?q op params origin w" for op params
    by (auto simp: invoke_def c hook_for_def assms(1) same split: sum.split option.split hook_found.split)
  then show ?thesis by (simp add: dispatch_request_def plane_call_def p f split: option.split)
qed

definition broken_hook :: "nat hook" where
  "broken_hook = \<lparr> hk_app = ''00112233445566aa'', hk_mode = ''replace'', hk_call = (\<lambda>_ _ _ w. (None, w)) \<rparr>"

theorem broken_mods_unfelt_witness:
  "dispatch_request (demo_plane\<lparr> pl_hooks := Some (\<lambda>_ _. Hooked broken_hook) \<rparr>) demo_request GOVERN 0 =
     (reply_of ''7'' (Inr [(''result'', JNull)]), 1)"
proof -
  let ?pl = "demo_plane\<lparr> pl_hooks := Some (\<lambda>_ _. Hooked broken_hook) \<rparr>"
  have "dispatch_request ?pl demo_request GOVERN 0 = dispatch_request (?pl\<lparr> pl_hooks := None \<rparr>) demo_request GOVERN 0"
    by (rule broken_mods_unfelt) (auto simp: broken_hook_def)
  also have "?pl\<lparr> pl_hooks := None \<rparr> = demo_plane" by (simp add: demo_plane_def new_plane_def)
  finally show ?thesis by (simp add: demo_answered)
qed

section \<open>Applications\<close>

text \<open>
  \<open>ControlGate\<close> of \<open>AppPerms\<close> behind the plane: the gate answers a sentence, here \<open>''refused''\<close>, for each of
  its refusals. The environment and the book are read from the node.
\<close>

definition control_gate :: "('w \<Rightarrow> gate_env) \<Rightarrow> ('w \<Rightarrow> perm_book) \<Rightarrow> 'w app_gate" where
  "control_gate env book w app_hex op e params =
     Says (map_option (\<lambda>_. ''refused'') (gate_refusal (env w) (book w) app_hex op (oe_changes e) params))"

text \<open>
  C7: An application without a grant leaves the node as it was. With the permission book behind the plane's
  gate, no request from it changes anything except through the operations open to every application
  and the two that carry others (\<open>jobs.start\<close> and \<open>apps.call\<close>, judged by what they carry); nor does it
  when no gate is set at all.
\<close>
theorem ungranted_app_changes_nothing:
  assumes "pl_gate pl = None \<or> pl_gate pl = Some (control_gate env book) \<and> ungranted (book w) (app_of origin)"
    "app_of origin \<noteq> []" "rq_op req \<notin> set OPEN_TO_APPS" "rq_op req \<noteq> ''jobs.start''" "rq_op req \<noteq> ''apps.call''"
  shows "snd (dispatch_request pl req origin w) = w \<and> \<not> rp_ok (fst (dispatch_request pl req origin w))"
proof -
  have "\<not> cleared pl w (rq_op req) ps origin e" for ps e
  proof (cases "pl_gate pl")
    case (Some gate)
    with assms(1) have g: "gate = control_gate env book" "ungranted (book w) (app_of origin)" by auto
    have "gate_refusal (env w) (book w) (app_of origin) (rq_op req) (oe_changes e) (Some ps) \<noteq> None"
      using ungranted_refused [OF g(2)] assms(3-5) by (auto simp: gate_refusal_def refusal_with_def OPERATOR_ONLY_def)
    then show ?thesis using Some g(1) assms(2) by (auto simp: cleared_def control_gate_def)
  qed (use assms(2) in \<open>simp add: cleared_def\<close>)
  then show ?thesis using only_cleared_requests_act [of pl req origin w] by blast
qed

theorem ungranted_app_changes_nothing_witness:
  "snd (dispatch_request (demo_plane\<lparr> pl_gate := Some (control_gate
       (\<lambda>_. \<lparr> ge_plane = None, ge_app_op = None, ge_text_of = (\<lambda>_. []) \<rparr>) (\<lambda>_. new_book)) \<rparr>)
     demo_request (app_origin ''00112233445566aa'') 0) = 0"
proof -
  have a: "app_of (app_origin ''00112233445566aa'') = ''00112233445566aa''"
    by (simp add: app_of_def app_origin_def APP_PREFIX_def lower_hex_def)
  have u: "ungranted new_book ''00112233445566aa''" by (simp add: ungranted_def grants_of_def new_book_def)
  show ?thesis
    by (rule ungranted_app_changes_nothing [THEN conjunct1])
      (use u in \<open>simp_all add: a demo_fields OPEN_TO_APPS_def\<close>)
qed

end
