(* ===== verification/Jobs.thy ===== *)
theory Jobs
  imports PlaneSafe
begin

text \<open>
  Background jobs (\<open>src/control/jobs.py\<close>, \<open>src/control/modules/jobs.py\<close>): tickets for operations that take
  longer than one call across the mesh.

  The book is the dictionary of \<open>JobBook\<close>; every method runs under its lock, and the thread of a job is two
  steps of the model, the call (\<open>invoke\<close>) and \<open>job_finish\<close>, what it does with the outcome under the lock.
  The ticket (\<open>secrets.token_hex\<close>) and the clock are arguments. Ages, the sentences of refusals and the
  listing, which is sorted by rounded ages, are left out.
\<close>

definition MAX_RUNNING :: nat where "MAX_RUNNING = 4"
definition MAX_RUNNING_REMOTE :: nat where "MAX_RUNNING_REMOTE = 2"
definition MAX_JOBS :: nat where "MAX_JOBS = 24"
definition JOB_KEEP :: real where "JOB_KEEP = 900"
definition JOB_GRACE :: real where "JOB_GRACE = 30"

datatype job_state = Running | Finished | Job_failed

record job =
  jb_op :: string
  jb_origin :: string
  jb_state :: job_state
  jb_started :: real
  jb_deadline :: real
  jb_finished :: real
  jb_result :: "(string, json) odict"
  jb_code :: "control_code option"

type_synonym job_book = "(string, job) odict"

section \<open>Tidying\<close>

definition give_up :: "real \<Rightarrow> job \<Rightarrow> job" where
  "give_up now j = j\<lparr> jb_state := Job_failed, jb_finished := now, jb_code := Some Unavailable \<rparr>"

definition job_kept :: "real \<Rightarrow> job \<Rightarrow> bool" where
  "job_kept now j \<longleftrightarrow> jb_state j = Running \<or> \<not> JOB_KEEP < now - jb_finished j"

definition job_tidied :: "real \<Rightarrow> job \<Rightarrow> job" where
  "job_tidied now j = (if jb_state j = Running \<and> jb_deadline j < now then give_up now j else j)"

text \<open>\<open>min(..., key=lambda job: job["finished"])\<close>: the first of the least.\<close>

fun oldest_finished :: "job_book \<Rightarrow> string option" where
  "oldest_finished [] = None"
| "oldest_finished ((k, j) # js) =
     (if jb_state j = Running then oldest_finished js
      else case oldest_finished js of
        None \<Rightarrow> Some k
      | Some k' \<Rightarrow>
          (case map_of js k' of
             None \<Rightarrow> Some k
           | Some j' \<Rightarrow> if jb_finished j \<le> jb_finished j' then Some k else Some k'))"

lemma oldest_finished_mem:
  "oldest_finished js = Some k \<Longrightarrow> \<exists>j. (k, j) \<in> set js \<and> jb_state j \<noteq> Running"
  by (induction js) (auto split: option.splits if_splits)

lemma length_delete_mem: "k \<in> fst ` set js \<Longrightarrow> length (AList.delete k js) < length js"
proof (induction js)
  case (Cons p js)
  have "length (AList.delete k js) \<le> length js" by (simp add: AList.delete_eq)
  with Cons show ?case by (cases "fst p = k") (auto simp: less_Suc_eq_le)
qed simp

function trim_finished :: "nat \<Rightarrow> job_book \<Rightarrow> job_book" where
  "trim_finished room js =
     (if MAX_JOBS < length js + room then
        (case oldest_finished js of None \<Rightarrow> js | Some k \<Rightarrow> trim_finished room (AList.delete k js))
      else js)"
  by auto

termination
proof (relation "measure (\<lambda>(room, js). length js)")
  fix room :: nat and js k
  assume "oldest_finished js = Some k"
  then obtain j where "(k, j) \<in> set js" using oldest_finished_mem by blast
  then have "k \<in> fst ` set js" by (rule image_eqI [rotated]) simp
  then show "((room, AList.delete k js), room, js) \<in> measure (\<lambda>(room, js). length js)"
    by (simp add: length_delete_mem)
qed simp

declare trim_finished.simps [simp del]

definition job_prune :: "real \<Rightarrow> nat \<Rightarrow> job_book \<Rightarrow> job_book" where
  "job_prune now room js =
     trim_finished room (map (\<lambda>(k, j). (k, job_tidied now j)) (filter (\<lambda>(_, j). job_kept now j) js))"

section \<open>The book\<close>

definition running_jobs :: "job_book \<Rightarrow> job_book" where
  "running_jobs js = filter (\<lambda>(_, j). jb_state j = Running) js"

definition remote_jobs :: "job_book \<Rightarrow> job_book" where
  "remote_jobs js = filter (\<lambda>(_, j). jb_origin j \<noteq> LOCAL) js"

definition job_start ::
  "'w plane \<Rightarrow> 'w \<Rightarrow> string \<Rightarrow> (string, json) odict \<Rightarrow> string \<Rightarrow> real \<Rightarrow> string \<Rightarrow> job_book \<Rightarrow> string answer \<times> job_book" where
  "job_start pl w op params origin now ident js =
     (case find_op pl op of
        None \<Rightarrow> (Inl Not_found, js)
      | Some (m, e) \<Rightarrow>
          (if \<not> permits pl w origin op e (Some params) then (Inl Refused, js)
           else if take 5 op = ''jobs.'' then (Inl Refused, js)
           else case check_call pl w op (Some params) origin of
             Inl code \<Rightarrow> (Inl code, js)
           | Inr _ \<Rightarrow>
               (let js = job_prune now 1 js in
                if MAX_RUNNING \<le> length (running_jobs js) then (Inl Conflict, js)
                else if origin \<noteq> LOCAL \<and> MAX_RUNNING_REMOTE \<le> length (remote_jobs (running_jobs js)) then (Inl Conflict, js)
                else if MAX_JOBS \<le> length js then (Inl Conflict, js)
                else (Inr ident, AList.update ident
                       \<lparr> jb_op = op, jb_origin = origin, jb_state = Running, jb_started = now,
                         jb_deadline = now + oe_timeout e + JOB_GRACE, jb_finished = 0, jb_result = [], jb_code = None \<rparr> js))))"

definition job_finish :: "string \<Rightarrow> (string, json) odict answer \<Rightarrow> real \<Rightarrow> job_book \<Rightarrow> job_book" where
  "job_finish ident outcome now js =
     (case map_of js ident of
        None \<Rightarrow> js
      | Some j \<Rightarrow>
          (if jb_state j \<noteq> Running then js
           else AList.update ident
             (case outcome of
                Inr result \<Rightarrow> j\<lparr> jb_state := Finished, jb_finished := now, jb_result := result, jb_code := None \<rparr>
              | Inl code \<Rightarrow> j\<lparr> jb_state := Job_failed, jb_finished := now, jb_result := [], jb_code := Some code \<rparr>) js))"

text \<open>The thread of a job: it calls the operation when its turn comes and files the outcome.\<close>

definition job_thread ::
  "'w plane \<Rightarrow> string \<Rightarrow> (string, json) odict \<Rightarrow> string \<Rightarrow> 'w \<Rightarrow> (string, json) odict answer \<times> 'w" where
  "job_thread pl op params origin w = invoke pl op (Some params) origin w"

definition job_visible :: "job \<Rightarrow> string \<Rightarrow> bool" where
  "job_visible j origin \<longleftrightarrow> jb_origin j = origin"

record job_view =
  jv_op :: string
  jv_state :: job_state
  jv_code :: "control_code option"
  jv_result :: "(string, json) odict"

definition job_describe :: "job \<Rightarrow> job_view" where
  "job_describe j =
     \<lparr> jv_op = jb_op j, jv_state = jb_state j,
       jv_code = (if jb_state j = Job_failed then jb_code j else None),
       jv_result = (if jb_state j = Finished then jb_result j else []) \<rparr>"

definition job_poll :: "string \<Rightarrow> string \<Rightarrow> real \<Rightarrow> job_book \<Rightarrow> job_view answer \<times> job_book" where
  "job_poll ident origin now js =
     (let js = job_prune now 0 js in
      case map_of js ident of
        None \<Rightarrow> (Inl Not_found, js)
      | Some j \<Rightarrow> (if job_visible j origin then Inr (job_describe j) else Inl Not_found, js))"

definition job_forget :: "string \<Rightarrow> string \<Rightarrow> job_book \<Rightarrow> unit answer \<times> job_book" where
  "job_forget ident origin js =
     (case map_of js ident of
        None \<Rightarrow> (Inl Not_found, js)
      | Some j \<Rightarrow>
          (if \<not> job_visible j origin then (Inl Not_found, js)
           else if jb_state j = Running then (Inl Conflict, js)
           else (Inr (), AList.delete ident js)))"

section \<open>Bounds\<close>

lemma oldest_finished_None: "oldest_finished js = None \<longleftrightarrow> running_jobs js = js"
proof (induction js rule: oldest_finished.induct)
  case (2 k j js)
  have "length (running_jobs js) \<le> length js" by (simp add: running_jobs_def)
  then have "running_jobs js \<noteq> (k, j) # js" by auto
  with 2 show ?case by (auto simp: running_jobs_def split: option.splits)
qed (simp add: running_jobs_def)

lemma filter_delete_not: "od_ok js \<Longrightarrow> (k, j) \<in> set js \<Longrightarrow> \<not> P (k, j) \<Longrightarrow> filter P (AList.delete k js) = filter P js"
proof (induction js)
  case (Cons p js)
  show ?case
  proof (cases "fst p = k")
    case True
    with Cons.prems have "k \<notin> fst ` set js" "p = (k, j)" by (auto intro: rev_image_eqI)
    with Cons.prems show ?thesis by (simp add: delete_absent)
  next
    case False
    with Cons show ?thesis by (cases p) auto
  qed
qed simp

lemma trim_finished_spec:
  assumes "od_ok js"
  shows "od_ok (trim_finished room js) \<and> set (trim_finished room js) \<subseteq> set js \<and>
    running_jobs (trim_finished room js) = running_jobs js \<and>
    (length (trim_finished room js) + room \<le> MAX_JOBS \<or> running_jobs js = trim_finished room js)"
  using assms
proof (induction room js rule: trim_finished.induct)
  case (1 room js)
  show ?case
  proof (cases "MAX_JOBS < length js + room")
    case over: True
    show ?thesis
    proof (cases "oldest_finished js")
      case None
      then have "running_jobs js = js" by (simp only: oldest_finished_None)
      with None over 1(2) show ?thesis by (simp add: trim_finished.simps [of room js])
    next
      case (Some k)
      obtain j where j: "(k, j) \<in> set js" "jb_state j \<noteq> Running" using oldest_finished_mem [OF Some] by blast
      have run: "running_jobs (AList.delete k js) = running_jobs js"
        unfolding running_jobs_def by (rule filter_delete_not [OF 1(2) j(1)]) (simp add: j(2))
      have sub: "set (AList.delete k js) \<subseteq> set js" by (auto simp: AList.delete_eq)
      from 1(1) [OF over Some] 1(2) have
        "od_ok (trim_finished room (AList.delete k js)) \<and> set (trim_finished room (AList.delete k js)) \<subseteq> set (AList.delete k js) \<and>
         running_jobs (trim_finished room (AList.delete k js)) = running_jobs (AList.delete k js) \<and>
         (length (trim_finished room (AList.delete k js)) + room \<le> MAX_JOBS \<or>
          running_jobs (AList.delete k js) = trim_finished room (AList.delete k js))" by simp
      with over Some run sub show ?thesis by (simp add: trim_finished.simps [of room js]) blast
    qed
  qed (use 1(2) in \<open>simp add: trim_finished.simps [of room js]\<close>)
qed

definition job_book_ok :: "job_book \<Rightarrow> bool" where
  "job_book_ok js \<longleftrightarrow>
     od_ok js \<and> length (running_jobs js) \<le> MAX_RUNNING \<and> length (remote_jobs (running_jobs js)) \<le> MAX_RUNNING_REMOTE"

abbreviation tidied_jobs :: "real \<Rightarrow> job_book \<Rightarrow> job_book" where
  "tidied_jobs now js \<equiv> map (\<lambda>(k, j). (k, job_tidied now j)) (filter (\<lambda>(_, j). job_kept now j) js)"

lemma running_tidied: "running_jobs (tidied_jobs now js) = filter (\<lambda>(_, j). \<not> jb_deadline j < now) (running_jobs js)"
  by (induction js) (auto simp: running_jobs_def job_tidied_def give_up_def job_kept_def split: if_splits)

lemma sublist_running:
  "length (running_jobs (tidied_jobs now js)) \<le> length (running_jobs js)"
  "length (remote_jobs (running_jobs (tidied_jobs now js))) \<le> length (remote_jobs (running_jobs js))"
proof -
  show "length (running_jobs (tidied_jobs now js)) \<le> length (running_jobs js)"
    unfolding running_tidied by (rule length_filter_le)
  have "remote_jobs (filter P xs) = filter P (remote_jobs xs)" for P and xs :: job_book
    by (simp add: remote_jobs_def conj_commute)
  then show "length (remote_jobs (running_jobs (tidied_jobs now js))) \<le> length (remote_jobs (running_jobs js))"
    unfolding running_tidied by (metis length_filter_le)
qed

lemma job_prune_spec:
  assumes "job_book_ok js"
  shows "od_ok (job_prune now room js)" "running_jobs (job_prune now room js) = running_jobs (tidied_jobs now js)"
    "set (job_prune now room js) \<subseteq> set (tidied_jobs now js)"
    "length (job_prune now room js) + room \<le> MAX_JOBS \<or> job_prune now room js = running_jobs (tidied_jobs now js)"
proof -
  have "od_ok js" using assms by (simp add: job_book_ok_def)
  then have ok: "od_ok (tidied_jobs now js)" by (simp add: distinct_map_filter o_def case_prod_unfold)
  note t = trim_finished_spec [OF ok, of room, folded job_prune_def]
  show "od_ok (job_prune now room js)" using t by (rule conjunct1)
  show "set (job_prune now room js) \<subseteq> set (tidied_jobs now js)" using t by (rule conjunct1 [OF conjunct2])
  show "running_jobs (job_prune now room js) = running_jobs (tidied_jobs now js)"
    using t by (rule conjunct1 [OF conjunct2 [OF conjunct2]])
  have "length (job_prune now room js) + room \<le> MAX_JOBS \<or> running_jobs (tidied_jobs now js) = job_prune now room js"
    using t by (rule conjunct2 [OF conjunct2 [OF conjunct2]])
  then show "length (job_prune now room js) + room \<le> MAX_JOBS \<or> job_prune now room js = running_jobs (tidied_jobs now js)"
    by metis
qed

lemma job_prune_ok:
  assumes "job_book_ok js" "room \<le> 1"
  shows "job_book_ok (job_prune now room js)" "length (job_prune now room js) + room \<le> MAX_JOBS"
proof -
  note t = job_prune_spec [OF assms(1), of now room]
  note s = sublist_running [of now js]
  have b: "length (running_jobs js) \<le> MAX_RUNNING" "length (remote_jobs (running_jobs js)) \<le> MAX_RUNNING_REMOTE"
    using assms(1) by (simp_all add: job_book_ok_def)
  show "job_book_ok (job_prune now room js)"
    unfolding job_book_ok_def t(2) by (intro conjI t(1) order.trans [OF s(1) b(1)] order.trans [OF s(2) b(2)])
  have "length (running_jobs (tidied_jobs now js)) \<le> MAX_RUNNING" by (rule order.trans [OF s(1) b(1)])
  then have "length (job_prune now room js) + room \<le> MAX_JOBS \<or> length (job_prune now room js) \<le> MAX_RUNNING"
    using t(4) by (elim disjE) (rule disjI1, assumption, rule disjI2, simp only:)
  then show "length (job_prune now room js) + room \<le> MAX_JOBS"
    using assms(2) by (auto simp: MAX_RUNNING_def MAX_JOBS_def)
qed

lemma length_filter_update: "length (filter P (AList.update k v d)) \<le> Suc (length (filter P d))"
  by (induction d) auto

lemma length_filter_update_not: "\<not> P (k, v) \<Longrightarrow> length (filter P (AList.update k v d)) \<le> length (filter P d)"
  by (induction d) (auto simp: le_SucI)

lemma remote_running: "remote_jobs (running_jobs js) = filter (\<lambda>(_, j). jb_state j = Running \<and> jb_origin j \<noteq> LOCAL) js"
  by (simp add: remote_jobs_def running_jobs_def case_prod_unfold conj_commute)

definition new_job :: "string \<Rightarrow> string \<Rightarrow> real \<Rightarrow> real \<Rightarrow> job" where
  "new_job op origin now timeout =
     \<lparr> jb_op = op, jb_origin = origin, jb_state = Running, jb_started = now, jb_deadline = now + timeout + JOB_GRACE,
       jb_finished = 0, jb_result = [], jb_code = None \<rparr>"

lemma job_add_ok:
  assumes "job_book_ok js" "length (running_jobs js) < MAX_RUNNING"
    "jb_origin j \<noteq> LOCAL \<Longrightarrow> length (remote_jobs (running_jobs js)) < MAX_RUNNING_REMOTE"
  shows "job_book_ok (AList.update ident j js)"
proof -
  have "length (running_jobs (AList.update ident j js)) \<le> MAX_RUNNING"
    using length_filter_update [of "\<lambda>(_, j). jb_state j = Running" ident j js] assms(2) by (simp add: running_jobs_def)
  moreover have "length (remote_jobs (running_jobs (AList.update ident j js))) \<le> MAX_RUNNING_REMOTE"
  proof (cases "jb_origin j = LOCAL")
    case True
    then have "length (remote_jobs (running_jobs (AList.update ident j js))) \<le> length (remote_jobs (running_jobs js))"
      unfolding remote_running by (intro length_filter_update_not) simp
    with assms(1) show ?thesis by (simp add: job_book_ok_def)
  next
    case False
    have "length (remote_jobs (running_jobs (AList.update ident j js))) \<le> Suc (length (remote_jobs (running_jobs js)))"
      unfolding remote_running by (rule length_filter_update)
    with assms(3) [OF False] show ?thesis by simp
  qed
  ultimately show ?thesis using assms(1) by (simp add: job_book_ok_def)
qed

text \<open>The shape of \<open>start\<close>: refused before the book is touched, refused for want of room, or begun.\<close>

lemma job_start_cases:
  obtains (early) code where "job_start pl w op params origin now ident js = (Inl code, js)"
  | (full) "job_start pl w op params origin now ident js = (Inl Conflict, job_prune now 1 js)"
  | (begun) m e arguments where "find_op pl op = Some (m, e)" "permits pl w origin op e (Some params)"
    "take 5 op \<noteq> ''jobs.''" "check_call pl w op (Some params) origin = Inr (m, e, arguments)"
    "length (running_jobs (job_prune now 1 js)) < MAX_RUNNING"
    "origin \<noteq> LOCAL \<Longrightarrow> length (remote_jobs (running_jobs (job_prune now 1 js))) < MAX_RUNNING_REMOTE"
    "job_start pl w op params origin now ident js =
      (Inr ident, AList.update ident (new_job op origin now (oe_timeout e)) (job_prune now 1 js))"
proof (cases "find_op pl op")
  case None
  then show ?thesis using early by (simp add: job_start_def)
next
  case (Some me)
  obtain m e where me: "find_op pl op = Some (m, e)" using Some by (cases me) simp
  consider (a) "\<not> permits pl w origin op e (Some params) \<or> take 5 op = ''jobs.''"
    | (b) code where "check_call pl w op (Some params) origin = Inl code"
    | (c) x where "check_call pl w op (Some params) origin = Inr x" "permits pl w origin op e (Some params)" "take 5 op \<noteq> ''jobs.''"
    by (cases "check_call pl w op (Some params) origin") auto
  then show ?thesis
  proof cases
    case a
    then have "job_start pl w op params origin now ident js = (Inl Refused, js)" using me by (auto simp: job_start_def)
    then show ?thesis by (rule early)
  next
    case b
    then have "job_start pl w op params origin now ident js \<in> {(Inl Refused, js), (Inl code, js)}"
      using me by (auto simp: job_start_def)
    then show ?thesis using early by blast
  next
    case c
    obtain m' e' args where x: "x = (m', e', args)" by (rule prod_cases3)
    have "m' = m" "e' = e" using check_call_Inr(1) c(1) me x by fastforce+
    then have chk: "check_call pl w op (Some params) origin = Inr (m, e, args)" using c(1) x by simp
    let ?js = "job_prune now 1 js"
    show ?thesis
    proof (cases "MAX_RUNNING \<le> length (running_jobs ?js) \<or> (origin \<noteq> LOCAL \<and> MAX_RUNNING_REMOTE \<le> length (remote_jobs (running_jobs ?js)))
        \<or> MAX_JOBS \<le> length ?js")
      case True
      then have "job_start pl w op params origin now ident js = (Inl Conflict, ?js)"
        using me c(2,3) chk by (auto simp: job_start_def Let_def)
      then show ?thesis by (rule full)
    next
      case False
      then have "job_start pl w op params origin now ident js =
          (Inr ident, AList.update ident (new_job op origin now (oe_timeout e)) ?js)"
        using me c(2,3) chk by (auto simp: job_start_def Let_def new_job_def)
      with False me c(2,3) chk begun show ?thesis by (meson not_le)
    qed
  qed
qed

lemma job_start_ok:
  assumes "job_book_ok js" "length js \<le> MAX_JOBS"
  shows "job_book_ok (snd (job_start pl w op params origin now ident js))"
    "length (snd (job_start pl w op params origin now ident js)) \<le> MAX_JOBS"
proof -
  note p = job_prune_ok [OF assms(1), of 1 now]
  have "job_book_ok (snd (job_start pl w op params origin now ident js)) \<and>
    length (snd (job_start pl w op params origin now ident js)) \<le> MAX_JOBS"
  proof (cases rule: job_start_cases [of pl w op params origin now ident js])
    case (begun m e args)
    have "job_book_ok (AList.update ident (new_job op origin now (oe_timeout e)) (job_prune now 1 js))"
      by (rule job_add_ok) (use p begun(5,6) in \<open>auto simp: new_job_def\<close>)
    moreover have "length (AList.update ident (new_job op origin now (oe_timeout e)) (job_prune now 1 js)) \<le> MAX_JOBS"
      using p(2) length_update_le [of ident "new_job op origin now (oe_timeout e)" "job_prune now 1 js"] by simp
    ultimately show ?thesis by (simp add: begun(7))
  qed (use p assms in auto)
  then show "job_book_ok (snd (job_start pl w op params origin now ident js))"
    "length (snd (job_start pl w op params origin now ident js)) \<le> MAX_JOBS" by blast+
qed

lemma job_finish_ok:
  assumes "job_book_ok js"
  shows "job_book_ok (job_finish ident outcome now js)" "length (job_finish ident outcome now js) \<le> length js"
proof -
  have "job_book_ok (job_finish ident outcome now js) \<and> length (job_finish ident outcome now js) \<le> length js"
  proof (cases "\<exists>j. map_of js ident = Some j \<and> jb_state j = Running")
    case True
    then obtain j where j: "map_of js ident = Some j" "jb_state j = Running" by blast
    obtain j' where j': "job_finish ident outcome now js = AList.update ident j' js" "jb_state j' \<noteq> Running"
    proof (cases outcome)
      case (Inl code)
      with j show ?thesis by (intro that [of "j\<lparr> jb_state := Job_failed, jb_finished := now, jb_result := [], jb_code := Some code \<rparr>"])
          (simp_all add: job_finish_def)
    next
      case (Inr result)
      with j show ?thesis by (intro that [of "j\<lparr> jb_state := Finished, jb_finished := now, jb_result := result, jb_code := None \<rparr>"])
          (simp_all add: job_finish_def)
    qed
    have "length (running_jobs (AList.update ident j' js)) \<le> length (running_jobs js)"
      "length (remote_jobs (running_jobs (AList.update ident j' js))) \<le> length (remote_jobs (running_jobs js))"
    proof -
      show "length (running_jobs (AList.update ident j' js)) \<le> length (running_jobs js)"
        unfolding running_jobs_def by (rule length_filter_update_not) (simp add: j'(2))
      show "length (remote_jobs (running_jobs (AList.update ident j' js))) \<le> length (remote_jobs (running_jobs js))"
        unfolding remote_running by (rule length_filter_update_not) (simp add: j'(2))
    qed
    moreover have "length (AList.update ident j' js) = length js"
      using j(1) by (intro length_update_present map_of_mem)
    ultimately show ?thesis using assms by (auto simp: job_book_ok_def j'(1))
  next
    case False
    then have "job_finish ident outcome now js = js" by (auto simp: job_finish_def split: option.split)
    with assms show ?thesis by simp
  qed
  then show "job_book_ok (job_finish ident outcome now js)" "length (job_finish ident outcome now js) \<le> length js" by blast+
qed

lemma job_forget_ok:
  assumes "job_book_ok js"
  shows "job_book_ok (snd (job_forget ident origin js))" "length (snd (job_forget ident origin js)) \<le> length js"
proof -
  have le: "length (filter P (AList.delete ident js)) \<le> length (filter P js)" for P
  proof -
    have "filter P (AList.delete ident js) = filter (\<lambda>(k', _). ident \<noteq> k') (filter P js)"
      by (simp add: AList.delete_eq conj_commute)
    then show ?thesis by (simp only: length_filter_le)
  qed
  have d: "job_book_ok (AList.delete ident js)"
    using assms le [of "\<lambda>(_, j). jb_state j = Running", folded running_jobs_def]
      le [of "\<lambda>(_, j). jb_state j = Running \<and> jb_origin j \<noteq> LOCAL", folded remote_running]
    unfolding job_book_ok_def by (auto intro: order.trans)
  show "job_book_ok (snd (job_forget ident origin js))" "length (snd (job_forget ident origin js)) \<le> length js"
    using d assms by (auto simp: job_forget_def AList.delete_eq split: option.split)
qed

datatype 'w job_event =
    Start_job "'w plane" 'w string "(string, json) odict" string real string
  | Finish_job string "(string, json) odict answer" real
  | Poll_job string string real
  | Forget_job string string

fun job_step :: "'w job_event \<Rightarrow> job_book \<Rightarrow> job_book" where
  "job_step (Start_job pl w op params origin now ident) js = snd (job_start pl w op params origin now ident js)"
| "job_step (Finish_job ident outcome now) js = job_finish ident outcome now js"
| "job_step (Poll_job ident origin now) js = snd (job_poll ident origin now js)"
| "job_step (Forget_job ident origin) js = snd (job_forget ident origin js)"

lemma job_poll_book: "snd (job_poll ident origin now js) = job_prune now 0 js"
  by (simp add: job_poll_def Let_def split: option.split)

interpretation jobs: bounded_book length "\<lambda>_. MAX_JOBS" "job_step :: 'w job_event \<Rightarrow> _" job_book_ok
proof
  fix e :: "'w job_event" and js
  assume ok: "job_book_ok js" and len: "length js \<le> MAX_JOBS"
  show "length (job_step e js) \<le> MAX_JOBS"
    using job_start_ok(2) [OF ok len] order.trans [OF job_finish_ok(2) [OF ok] len] order.trans [OF job_forget_ok(2) [OF ok] len]
      job_prune_ok(2) [OF ok, of 0] by (cases e) (simp_all add: job_poll_book)
  show "job_book_ok (job_step e js)"
    using job_start_ok(1) [OF ok len] job_finish_ok(1) [OF ok] job_forget_ok(1) [OF ok] job_prune_ok(1) [OF ok, of 0]
    by (cases e) (simp_all add: job_poll_book)
qed simp

text \<open>
  C19: The job book keeps its bounds whatever is asked of it. After any sequence of starts, outcomes, polls
  and deletions, by any callers and over any planes, at most four jobs run, at most two of them for a
  console or application elsewhere, and at most 24 records are held.
\<close>
theorem job_book_bounded:
  "length (fold job_step es []) \<le> MAX_JOBS \<and> length (running_jobs (fold job_step es [])) \<le> MAX_RUNNING \<and>
     length (remote_jobs (running_jobs (fold job_step es []))) \<le> MAX_RUNNING_REMOTE"
proof -
  have "job_book_ok []" by (simp add: job_book_ok_def running_jobs_def remote_jobs_def)
  then have "job_book_ok (fold job_step es []) \<and> length (fold job_step es []) \<le> MAX_JOBS" by (rule jobs.run_inv) simp
  then show ?thesis by (simp add: job_book_ok_def)
qed

section \<open>What a ticket is worth\<close>

text \<open>
  C20: Work is refused only for work that is running. If a call passes the plane's own checks, fewer than
  four jobs are still within their time, and fewer than two of those are from elsewhere when the caller is,
  then a ticket is handed out, and polling it at once, from the same origin, finds the job running. No
  number of finished records stands in the way.
\<close>
theorem job_room_means_ticket:
  assumes "job_book_ok js" "find_op pl op = Some (m, e)" "check_call pl w op (Some params) origin = Inr (m, e, arguments)"
    "take 5 op \<noteq> ''jobs.''" "0 < oe_timeout e"
    "length (filter (\<lambda>(_, j). \<not> jb_deadline j < now) (running_jobs js)) < MAX_RUNNING"
    "origin = LOCAL \<or> length (remote_jobs (filter (\<lambda>(_, j). \<not> jb_deadline j < now) (running_jobs js))) < MAX_RUNNING_REMOTE"
  shows "\<exists>js'. job_start pl w op params origin now ident js = (Inr ident, js') \<and>
    fst (job_poll ident origin now js') = Inr \<lparr> jv_op = op, jv_state = Running, jv_code = None, jv_result = [] \<rparr>"
proof -
  have p: "permits pl w origin op e (Some params)" using check_call_Inr(2) [OF assms(3)] .
  let ?js = "job_prune now 1 js" and ?j = "new_job op origin now (oe_timeout e)"
  note pr = job_prune_spec [OF assms(1), of now 1] and ok = job_prune_ok [OF assms(1), of 1 now]
  have r: "running_jobs ?js = filter (\<lambda>(_, j). \<not> jb_deadline j < now) (running_jobs js)"
    using pr(2) by (simp only: running_tidied)
  let ?js' = "AList.update ident ?j ?js"
  have s: "job_start pl w op params origin now ident js = (Inr ident, ?js')"
    using assms(2-4,6,7) p ok(2) by (auto simp: job_start_def Let_def r new_job_def simp del: One_nat_def)
  have ok': "job_book_ok ?js'"
    by (rule job_add_ok [OF ok(1)]) (use assms(6,7) in \<open>auto simp: r new_job_def simp del: One_nat_def\<close>)
  let ?p = "job_prune now 0 ?js'"
  note pr' = job_prune_spec [OF ok', of now 0]
  have held: "map_of ?js' ident = Some ?j" by (simp add: update_conv')
  have "(ident, ?j) \<in> set (running_jobs ?js')" using map_of_SomeD [OF held] by (simp add: running_jobs_def new_job_def)
  then have "(ident, ?j) \<in> set (running_jobs ?p)"
    using assms(5) unfolding pr'(2) running_tidied by (simp add: new_job_def JOB_GRACE_def)
  then have "map_of ?p ident = Some ?j" using pr'(1) by (auto simp: running_jobs_def)
  then have "fst (job_poll ident origin now ?js') = Inr \<lparr> jv_op = op, jv_state = Running, jv_code = None, jv_result = [] \<rparr>"
    by (simp add: job_poll_def Let_def job_visible_def job_describe_def new_job_def)
  with s show ?thesis by blast
qed

theorem job_room_means_ticket_witness:
  "\<exists>js'. job_start demo_plane 0 ''node.rename'' [(''name'', JStr ''hill'')] GOVERN 5 ''0123456789abcdef'' [] =
       (Inr ''0123456789abcdef'', js') \<and>
     fst (job_poll ''0123456789abcdef'' GOVERN 5 js') =
       Inr \<lparr> jv_op = ''node.rename'', jv_state = Running, jv_code = None, jv_result = [] \<rparr>"
  by (rule job_room_means_ticket [OF _ demo_find demo_check])
    (simp_all add: job_book_ok_def running_jobs_def remote_jobs_def MAX_RUNNING_def MAX_RUNNING_REMOTE_def demo_op_def)

text \<open>
  A ticket is only worth something to whoever could have made it. Polling or deleting a job from any
  other origin, an application with another id included, is answered exactly as if the job did not exist
  in the book.
\<close>
theorem job_ticket_private:
  assumes "od_ok js" "map_of js ident = Some j" "jb_origin j \<noteq> origin"
  shows "fst (job_poll ident origin now js) = Inl Not_found \<and> job_forget ident origin js = (Inl Not_found, js)"
proof -
  let ?p = "job_prune now 0 js"
  have ok: "od_ok (tidied_jobs now js)" using assms(1) by (simp add: distinct_map_filter o_def case_prod_unfold)
  have sub: "set ?p \<subseteq> set (tidied_jobs now js)"
    using trim_finished_spec [OF ok, of 0, folded job_prune_def] by (elim conjE)
  have other: "jb_origin j' = jb_origin j" if "map_of ?p ident = Some j'" for j'
  proof -
    have "(ident, j') \<in> set (tidied_jobs now js)" using map_of_SomeD [OF that] sub by blast
    then obtain i where i: "(ident, i) \<in> set js" "j' = job_tidied now i" by auto
    have "map_of js ident = Some i" by (rule map_of_is_SomeI [OF assms(1) i(1)])
    with assms(2) i(2) show ?thesis by (simp add: job_tidied_def give_up_def)
  qed
  have "fst (job_poll ident origin now js) = Inl Not_found"
  proof (cases "map_of ?p ident")
    case (Some j')
    with other [OF Some] assms(3) show ?thesis by (simp add: job_poll_def Let_def job_visible_def)
  qed (simp add: job_poll_def Let_def)
  then show ?thesis using assms(2,3) by (simp add: job_forget_def job_visible_def)
qed

theorem job_ticket_private_witness:
  "fst (job_poll ''ab'' REMOTE 6 [(''ab'', new_job ''release.publish'' GOVERN 5 300)]) = Inl Not_found"
  by (rule job_ticket_private [THEN conjunct1, of _ _ "new_job ''release.publish'' GOVERN 5 300"])
    (simp_all add: new_job_def GOVERN_def REMOTE_def)

text \<open>
  A job is the operation's permission, not a way around it: a ticket is only handed out where the plane's
  checks pass, never for an operation of the book itself, and when the thread runs, what it does is a
  call that is checked again. A job given up on stays given up on, whatever its thread brings back.
\<close>

lemma job_needs_permission:
  assumes "fst (job_start pl w op params origin now ident js) = Inr t"
  shows "\<exists>m e arguments. check_call pl w op (Some params) origin = Inr (m, e, arguments) \<and> take 5 op \<noteq> ''jobs.''"
  by (cases rule: job_start_cases [of pl w op params origin now ident js]) (use assms in auto)

lemma job_checked_again:
  assumes "snd (job_thread pl op params origin w) \<noteq> w"
  shows "\<exists>m e arguments. check_call pl w op (Some params) origin = Inr (m, e, arguments)"
  using assms by (auto simp: job_thread_def invoke_def split: sum.splits prod.splits)

lemma job_late_outcome_ignored:
  "map_of js ident = Some j \<Longrightarrow> jb_state j \<noteq> Running \<Longrightarrow> job_finish ident outcome now js = js"
  by (simp add: job_finish_def)

end
