(* ===== verification/Transfers.thy ===== *)
theory Transfers
  imports PlaneSafe
begin

text \<open>
  Files on the control channel (\<open>src/control/transfer.py\<close>, \<open>src/control/modules/transfer.py\<close>): named byte
  streams carried a chunk per call.

  The book is the dictionary of \<open>TransferBook\<close>; each method runs under its lock. The ticket and the clock
  are arguments. A chunk number is a natural: the operations declare it as a count. What a kind reads from
  and writes to the node is left out: \<open>commit\<close> gives what is handed to the kind's writer.
\<close>

definition UP_CHUNK :: nat where "UP_CHUNK = 12 * 1024"
definition DOWN_CHUNK :: nat where "DOWN_CHUNK = 192 * 1024"
definition MAX_OPEN :: nat where "MAX_OPEN = 6"
definition MAX_OPEN_REMOTE :: nat where "MAX_OPEN_REMOTE = 3"
definition MAX_TRANSFER_FILES :: nat where "MAX_TRANSFER_FILES = 256"
definition MAX_HELD :: nat where "MAX_HELD = 16 * 1024 * 1024"
definition TRANSFER_IDLE :: real where "TRANSFER_IDLE = 180"

datatype way = Up | Down

record kind =
  kd_name :: string
  kd_way :: way
  kd_reach :: reach
  kd_limit :: nat

record transfer =
  tr_kind :: kind
  tr_meta :: json
  tr_origin :: string
  tr_way :: way
  tr_touched :: real
  tr_held :: "(string, bytes) odict"
  tr_chunks :: "(string, nat) odict"
  tr_closed :: "string set"

type_synonym transfer_book = "(string, transfer) odict"

section \<open>Names\<close>

definition slash :: "char \<Rightarrow> char" where
  "slash c = (if c = CHR 0x5C then CHR ''/'' else c)"

definition join_parts :: "string list \<Rightarrow> string" where
  "join_parts parts = (case parts of [] \<Rightarrow> [] | p # ps \<Rightarrow> p @ concat (map (\<lambda>q. CHR ''/'' # q) ps))"

definition clean_path :: "string \<Rightarrow> string answer" where
  "clean_path raw =
     (if raw = [] then Inl Bad_request
      else
        (let text = py_strip (map slash raw) in
         if 200 < length text then Inl Bad_request
         else if take 1 text = ''/'' \<or> CHR '':'' \<in> set text then Inl Bad_request
         else
           (let parts = filter (\<lambda>p. p \<noteq> []) (split_on (CHR ''/'') text) in
            if parts = [] \<or> (\<exists>p \<in> set parts. p = ''.'' \<or> p = ''..'') then Inl Bad_request
            else if \<exists>p \<in> set parts. CHR 0x00 \<in> set p then Inl Bad_request
            else Inr (join_parts parts))))"

section \<open>The rules\<close>

definition held_bytes :: "(string, bytes) odict \<Rightarrow> nat" where
  "held_bytes held = sum_list (map (\<lambda>(_, blob). length blob) held)"

definition book_bytes :: "transfer_book \<Rightarrow> nat" where
  "book_bytes ts = sum_list (map (\<lambda>(_, t). held_bytes (tr_held t)) ts)"

definition transfer_prune :: "real \<Rightarrow> transfer_book \<Rightarrow> transfer_book" where
  "transfer_prune now ts = filter (\<lambda>(_, t). \<not> TRANSFER_IDLE < now - tr_touched t) ts"

definition remote_transfers :: "transfer_book \<Rightarrow> transfer_book" where
  "remote_transfers ts = filter (\<lambda>(_, t). tr_origin t \<noteq> LOCAL) ts"

definition enrol :: "kind \<Rightarrow> json \<Rightarrow> string \<Rightarrow> way \<Rightarrow> real \<Rightarrow> string \<Rightarrow> transfer_book \<Rightarrow> transfer_book answer" where
  "enrol kind meta origin way now ident ts =
     (if MAX_OPEN \<le> length ts then Inl Conflict
      else if origin \<noteq> LOCAL \<and> MAX_OPEN_REMOTE \<le> length (remote_transfers ts) then Inl Conflict
      else Inr (AList.update ident
        \<lparr> tr_kind = kind, tr_meta = meta, tr_origin = origin, tr_way = way, tr_touched = now,
          tr_held = [], tr_chunks = [], tr_closed = {} \<rparr> ts))"

text \<open>\<open>_entry\<close>, after its pruning.\<close>

definition open_entry :: "string \<Rightarrow> string \<Rightarrow> way \<Rightarrow> transfer_book \<Rightarrow> transfer option" where
  "open_entry ident origin way ts =
     (case map_of ts ident of
        None \<Rightarrow> None
      | Some t \<Rightarrow> if tr_origin t = origin \<and> tr_way t = way then Some t else None)"

section \<open>Opening\<close>

definition transfer_offer :: "kind \<Rightarrow> json \<Rightarrow> string \<Rightarrow> real \<Rightarrow> string \<Rightarrow> transfer_book \<Rightarrow> string answer \<times> transfer_book" where
  "transfer_offer kind meta origin now ident ts =
     (let ts = transfer_prune now ts in
      if MAX_HELD < book_bytes ts then (Inl Conflict, ts)
      else case enrol kind meta origin Up now ident ts of
        Inl code \<Rightarrow> (Inl code, ts)
      | Inr ts \<Rightarrow> (Inr ident, ts))"

fun clean_files :: "(string, bytes) odict \<Rightarrow> (string, bytes) odict \<Rightarrow> (string, bytes) odict answer" where
  "clean_files [] held = Inr held"
| "clean_files ((path, blob) # files) held =
     abind (clean_path path) (\<lambda>name. clean_files files (AList.update name blob held))"

definition transfer_fetch ::
  "kind \<Rightarrow> json \<Rightarrow> (string, bytes) odict \<Rightarrow> string \<Rightarrow> real \<Rightarrow> string \<Rightarrow> transfer_book
     \<Rightarrow> (string \<times> (string \<times> nat) list) answer \<times> transfer_book" where
  "transfer_fetch kind meta files origin now ident ts =
     (let ts = transfer_prune now ts; total = held_bytes files in
      if MAX_HELD < book_bytes ts + total then (Inl Conflict, ts)
      else if kd_limit kind < total then (Inl Conflict, ts)
      else case enrol kind meta origin Down now ident ts of
        Inl code \<Rightarrow> (Inl code, ts)
      | Inr ts \<Rightarrow>
          (case clean_files files [] of
             Inl code \<Rightarrow> (Inl code, ts)
           | Inr held \<Rightarrow>
               (Inr (ident, sort_key fst (map (\<lambda>(path, blob). (path, length blob)) held)),
                AList.map_entry ident (\<lambda>t. t\<lparr> tr_held := held \<rparr>) ts)))"

section \<open>Moving\<close>

definition put_answer :: "string \<Rightarrow> transfer \<Rightarrow> nat \<times> bool \<times> nat" where
  "put_answer name t =
     (length (the (map_of (tr_held t) name)), name \<in> tr_closed t, held_bytes (tr_held t))"

definition append_chunk :: "string \<Rightarrow> bytes \<Rightarrow> real \<Rightarrow> transfer \<Rightarrow> transfer" where
  "append_chunk name chunk now t =
     t\<lparr> tr_held := AList.map_entry name (\<lambda>blob. blob @ chunk) (tr_held t),
        tr_chunks := AList.map_entry name Suc (tr_chunks t),
        tr_closed := (if length chunk < UP_CHUNK then insert name (tr_closed t) else tr_closed t),
        tr_touched := now \<rparr>"

text \<open>The file of that name, begun if it is new; what follows may still refuse the chunk.\<close>

definition begin_file :: "string \<Rightarrow> transfer \<Rightarrow> transfer" where
  "begin_file name t =
     (if map_of (tr_held t) name = None
      then t\<lparr> tr_held := tr_held t @ [(name, [])], tr_chunks := AList.update name 0 (tr_chunks t) \<rparr> else t)"

definition transfer_put ::
  "string \<Rightarrow> string \<Rightarrow> nat \<Rightarrow> bytes \<Rightarrow> string \<Rightarrow> real \<Rightarrow> transfer_book \<Rightarrow> (nat \<times> bool \<times> nat) answer \<times> transfer_book" where
  "transfer_put ident path seq chunk origin now ts =
     (case clean_path path of
        Inl code \<Rightarrow> (Inl code, ts)
      | Inr name \<Rightarrow>
          (let ts = transfer_prune now ts in
           case open_entry ident origin Up ts of
             None \<Rightarrow> (Inl Not_found, ts)
           | Some t \<Rightarrow>
               (if map_of (tr_held t) name = None \<and> MAX_TRANSFER_FILES \<le> length (tr_held t) then (Inl Conflict, ts)
                else
                  (let t = begin_file name t; ts = AList.update ident t ts in
                   if name \<in> tr_closed t then (Inl Conflict, ts)
                   else if map_of (tr_chunks t) name \<noteq> Some seq then (Inl Conflict, ts)
                   else if UP_CHUNK < length chunk then (Inl Bad_request, ts)
                   else if MAX_HELD < book_bytes ts + length chunk then (Inl Conflict, ts)
                   else if kd_limit (tr_kind t) < held_bytes (tr_held t) + length chunk then (Inl Conflict, ts)
                   else
                     (let t = append_chunk name chunk now t
                      in (Inr (put_answer name t), AList.update ident t ts))))))"

definition transfer_take ::
  "string \<Rightarrow> string \<Rightarrow> nat \<Rightarrow> string \<Rightarrow> real \<Rightarrow> transfer_book \<Rightarrow> (bytes \<times> bool) answer \<times> transfer_book" where
  "transfer_take ident path seq origin now ts =
     (case clean_path path of
        Inl code \<Rightarrow> (Inl code, ts)
      | Inr name \<Rightarrow>
          (let ts = transfer_prune now ts in
           case open_entry ident origin Down ts of
             None \<Rightarrow> (Inl Not_found, ts)
           | Some t \<Rightarrow>
               (case map_of (tr_held t) name of
                  None \<Rightarrow> (Inl Not_found, ts)
                | Some held \<Rightarrow>
                    (let start = seq * DOWN_CHUNK in
                     if length held < start then (Inl Bad_request, ts)
                     else
                       (let chunk = slice start (start + DOWN_CHUNK) held
                        in (Inr (chunk, length held \<le> start + length chunk),
                            AList.update ident (t\<lparr> tr_touched := now \<rparr>) ts))))))"

section \<open>Ending\<close>

definition transfer_collect ::
  "string \<Rightarrow> string \<Rightarrow> real \<Rightarrow> transfer_book \<Rightarrow> (kind \<times> json \<times> (string, bytes) odict) answer \<times> transfer_book" where
  "transfer_collect ident origin now ts =
     (let ts = transfer_prune now ts in
      case open_entry ident origin Up ts of
        None \<Rightarrow> (Inl Not_found, ts)
      | Some t \<Rightarrow>
          (if tr_held t = [] then (Inl Conflict, ts)
           else (Inr (tr_kind t, tr_meta t, tr_held t), AList.delete ident ts)))"

definition transfer_drop :: "string \<Rightarrow> string \<Rightarrow> transfer_book \<Rightarrow> unit answer \<times> transfer_book" where
  "transfer_drop ident origin ts =
     (case map_of ts ident of
        None \<Rightarrow> (Inl Not_found, ts)
      | Some t \<Rightarrow> if tr_origin t \<noteq> origin then (Inl Not_found, ts) else (Inr (), AList.delete ident ts))"

section \<open>The kinds\<close>

definition MAX_APP :: nat where "MAX_APP = 4 * 1024 * 1024"
definition MAX_PACKAGE :: nat where "MAX_PACKAGE = 8 * 1024 * 1024"

definition KINDS :: "kind list" where
  "KINDS =
     [\<lparr> kd_name = ''package'', kd_way = Down, kd_reach = Reach_remote, kd_limit = MAX_PACKAGE \<rparr>,
      \<lparr> kd_name = ''app'', kd_way = Up, kd_reach = Reach_govern, kd_limit = MAX_APP \<rparr>,
      \<lparr> kd_name = ''release'', kd_way = Up, kd_reach = Reach_govern, kd_limit = MAX_APP \<rparr>]"

definition kind_open_to :: "'w plane option \<Rightarrow> 'w \<Rightarrow> kind \<Rightarrow> string \<Rightarrow> bool" where
  "kind_open_to provided w k origin =
     (if app_of origin \<noteq> [] then
        (case provided of
           None \<Rightarrow> False
         | Some pl \<Rightarrow>
             (let carrier = (if kd_way k = Down then ''transfer.fetch'' else ''transfer.offer'') in
              case find_op pl carrier of None \<Rightarrow> False | Some (_, e) \<Rightarrow> permits pl w origin carrier e None))
      else (case map_of REACHED_BY origin of None \<Rightarrow> False | Some rs \<Rightarrow> kd_reach k \<in> set rs))"

definition kind_for :: "'w plane option \<Rightarrow> 'w \<Rightarrow> string \<Rightarrow> string \<Rightarrow> way \<Rightarrow> kind answer" where
  "kind_for provided w name origin way =
     (case List.find (\<lambda>k. kd_name k = name) KINDS of
        None \<Rightarrow> Inl Not_found
      | Some k \<Rightarrow>
          (if \<not> kind_open_to provided w k origin then Inl Refused
           else if kd_way k \<noteq> way then Inl Bad_request
           else Inr k))"

definition op_offer ::
  "'w plane option \<Rightarrow> 'w \<Rightarrow> string \<Rightarrow> json \<Rightarrow> string \<Rightarrow> real \<Rightarrow> string \<Rightarrow> transfer_book \<Rightarrow> string answer \<times> transfer_book" where
  "op_offer provided w name meta origin now ident ts =
     (case kind_for provided w name origin Up of
        Inl code \<Rightarrow> (Inl code, ts)
      | Inr k \<Rightarrow> transfer_offer k meta origin now ident ts)"

text \<open>Up to the call of the kind's writer, which gets the last component.\<close>

definition op_commit ::
  "'w plane option \<Rightarrow> 'w \<Rightarrow> string \<Rightarrow> string \<Rightarrow> real \<Rightarrow> transfer_book
     \<Rightarrow> (kind \<times> json \<times> (string, bytes) odict) answer \<times> transfer_book" where
  "op_commit provided w ident origin now ts =
     (case transfer_collect ident origin now ts of
        (Inl code, ts) \<Rightarrow> (Inl code, ts)
      | (Inr (k, meta, files), ts) \<Rightarrow>
          (case kind_for provided w (kd_name k) origin Up of
             Inl code \<Rightarrow> (Inl code, ts)
           | Inr _ \<Rightarrow> (Inr (k, meta, files), ts)))"

section \<open>The bounds\<close>

text \<open>What every open transfer satisfies, and the book.\<close>

definition transfer_ok :: "transfer \<Rightarrow> bool" where
  "transfer_ok t \<longleftrightarrow>
     od_ok (tr_held t) \<and> held_bytes (tr_held t) \<le> kd_limit (tr_kind t) \<and>
     (tr_way t = Up \<longrightarrow> length (tr_held t) \<le> MAX_TRANSFER_FILES \<and> od_keys (tr_chunks t) = od_keys (tr_held t) \<and>
        tr_closed t \<subseteq> set (od_keys (tr_held t)))"

definition transfers_ok :: "transfer_book \<Rightarrow> bool" where
  "transfers_ok ts \<longleftrightarrow>
     od_ok ts \<and> od_all (\<lambda>_. transfer_ok) ts \<and> book_bytes ts \<le> MAX_HELD \<and>
     length (remote_transfers ts) \<le> MAX_OPEN_REMOTE"

lemma held_bytes_simps [simp]: "held_bytes [] = 0" "held_bytes (p # held) = length (snd p) + held_bytes held"
  "held_bytes (xs @ ys) = held_bytes xs + held_bytes ys"
  by (simp_all add: held_bytes_def case_prod_unfold)

lemma book_bytes_simps [simp]: "book_bytes [] = 0" "book_bytes (p # ts) = held_bytes (tr_held (snd p)) + book_bytes ts"
  by (simp_all add: book_bytes_def case_prod_unfold)

lemma book_bytes_filter: "book_bytes (filter P ts) \<le> book_bytes ts"
  by (induction ts) auto

lemma held_bytes_update: "held_bytes (AList.update name blob held) \<le> held_bytes held + length blob"
  by (induction held) auto

lemma book_bytes_update: "od_ok ts \<Longrightarrow>
    book_bytes (AList.update ident t ts) =
      book_bytes ts + held_bytes (tr_held t) - (case map_of ts ident of None \<Rightarrow> 0 | Some u \<Rightarrow> held_bytes (tr_held u))"
proof (induction ts)
  case (Cons p ts)
  show ?case
  proof (cases "fst p = ident")
    case False
    have "(case map_of ts ident of None \<Rightarrow> 0 | Some u \<Rightarrow> held_bytes (tr_held u)) \<le> book_bytes ts"
      by (induction ts) auto
    with False Cons show ?thesis by (cases p) auto
  qed (cases p, simp)
qed simp

lemma book_bytes_ge: "map_of ts ident = Some t \<Longrightarrow> held_bytes (tr_held t) \<le> book_bytes ts"
  by (induction ts) (auto split: if_splits)

lemma transfer_prune_ok:
  assumes "transfers_ok ts"
  shows "transfers_ok (transfer_prune now ts)" "length (transfer_prune now ts) \<le> length ts"
proof -
  have "length (remote_transfers (transfer_prune now ts)) \<le> length (remote_transfers ts)"
  proof -
    have "remote_transfers (transfer_prune now ts) = filter (\<lambda>(_, t). \<not> TRANSFER_IDLE < now - tr_touched t) (remote_transfers ts)"
      by (simp add: remote_transfers_def transfer_prune_def conj_commute)
    then show ?thesis by (simp only: length_filter_le)
  qed
  moreover have "book_bytes (transfer_prune now ts) \<le> book_bytes ts" by (simp add: transfer_prune_def book_bytes_filter)
  moreover have "od_ok (transfer_prune now ts)" "od_all (\<lambda>_. transfer_ok) (transfer_prune now ts)"
    using assms by (simp_all add: transfers_ok_def transfer_prune_def od_all_filter)
  ultimately show "transfers_ok (transfer_prune now ts)" using assms by (simp add: transfers_ok_def)
  show "length (transfer_prune now ts) \<le> length ts" by (simp add: transfer_prune_def)
qed

text \<open>A transfer that changes in place: the bounds that have to be checked.\<close>

lemma transfers_change:
  assumes "transfers_ok ts" "map_of ts ident = Some t" "transfer_ok t'" "tr_origin t' = tr_origin t"
    "book_bytes ts + held_bytes (tr_held t') \<le> MAX_HELD + held_bytes (tr_held t)"
  shows "transfers_ok (AList.update ident t' ts)" "length (AList.update ident t' ts) = length ts"
proof -
  have len: "length (remote_transfers (AList.update ident t' ts)) \<le> length (remote_transfers ts)"
    using assms(2,4) unfolding remote_transfers_def by (induction ts) (auto split: if_splits)
  have "book_bytes (AList.update ident t' ts) \<le> MAX_HELD"
    using assms(1,2,5) book_bytes_ge [OF assms(2)] by (simp add: transfers_ok_def book_bytes_update)
  with len assms(1,3) show "transfers_ok (AList.update ident t' ts)"
    by (auto simp: transfers_ok_def od_all_update)
  show "length (AList.update ident t' ts) = length ts" using assms(2) by (intro length_update_present map_of_mem)
qed

lemma transfer_delete_ok:
  assumes "transfers_ok ts"
  shows "transfers_ok (AList.delete ident ts)" "length (AList.delete ident ts) \<le> length ts"
proof -
  have d: "AList.delete ident ts = filter (\<lambda>(k, _). ident \<noteq> k) ts" by (simp add: AList.delete_eq)
  have "remote_transfers (AList.delete ident ts) = filter (\<lambda>(k, _). ident \<noteq> k) (remote_transfers ts)"
    by (simp add: remote_transfers_def d conj_commute)
  then have "length (remote_transfers (AList.delete ident ts)) \<le> length (remote_transfers ts)"
    by (simp only: length_filter_le)
  moreover have "book_bytes (AList.delete ident ts) \<le> book_bytes ts" unfolding d by (rule book_bytes_filter)
  ultimately show "transfers_ok (AList.delete ident ts)" using assms by (simp add: transfers_ok_def od_all_delete)
  show "length (AList.delete ident ts) \<le> length ts" by (simp add: d)
qed

definition opened :: "kind \<Rightarrow> json \<Rightarrow> string \<Rightarrow> way \<Rightarrow> real \<Rightarrow> transfer" where
  "opened kind meta origin way now =
     \<lparr> tr_kind = kind, tr_meta = meta, tr_origin = origin, tr_way = way, tr_touched = now,
       tr_held = [], tr_chunks = [], tr_closed = {} \<rparr>"

lemma opened_ok [simp]: "transfer_ok (opened kind meta origin way now)" "tr_held (opened kind meta origin way now) = []"
  "tr_origin (opened kind meta origin way now) = origin" "tr_kind (opened kind meta origin way now) = kind"
  "tr_way (opened kind meta origin way now) = way"
  by (simp_all add: opened_def transfer_ok_def)

lemma enrol_Inr:
  assumes "enrol kind meta origin way now ident ts = Inr ts'"
  shows "ts' = AList.update ident (opened kind meta origin way now) ts" "length ts < MAX_OPEN"
    "origin \<noteq> LOCAL \<Longrightarrow> length (remote_transfers ts) < MAX_OPEN_REMOTE"
  using assms by (auto simp: enrol_def opened_def split: if_splits)

lemma enrol_ok:
  assumes "enrol kind meta origin way now ident ts = Inr ts'" "transfers_ok ts"
  shows "transfers_ok ts'" "length ts' \<le> MAX_OPEN" "book_bytes ts' \<le> book_bytes ts"
    "map_of ts' ident = Some (opened kind meta origin way now)"
proof -
  note e = enrol_Inr [OF assms(1)]
  have ok: "od_ok ts" using assms(2) by (simp add: transfers_ok_def)
  show b: "book_bytes ts' \<le> book_bytes ts"
    using book_bytes_ge [of ts ident] by (auto simp: e(1) book_bytes_update [OF ok] split: option.split)
  have "length (remote_transfers ts') \<le> MAX_OPEN_REMOTE"
  proof (cases "origin = LOCAL")
    case True
    have "length (filter P (AList.update ident t ts)) \<le> length (filter P ts)" if "\<not> P (ident, t)" for P t
      using that by (induction ts) (auto simp: le_SucI)
    note le = this
    have "length (remote_transfers ts') \<le> length (remote_transfers ts)"
      unfolding e(1) remote_transfers_def by (rule le) (simp add: True)
    with assms(2) show ?thesis by (simp add: transfers_ok_def)
  next
    case False
    have "length (filter P (AList.update ident t ts)) \<le> Suc (length (filter P ts))" for P t
      by (induction ts) auto
    with e(3) [OF False] show ?thesis unfolding e(1) remote_transfers_def by (meson Suc_leI order.trans)
  qed
  with b assms(2) show "transfers_ok ts'" by (simp add: transfers_ok_def e(1) od_all_update)
  show "length ts' \<le> MAX_OPEN" using e(2) length_update_le [of ident "opened kind meta origin way now" ts] by (simp add: e(1))
  show "map_of ts' ident = Some (opened kind meta origin way now)" by (simp add: e(1) update_conv')
qed

lemma clean_files_ok:
  "clean_files files held = Inr out \<Longrightarrow> od_ok held \<Longrightarrow> od_ok out \<and> held_bytes out \<le> held_bytes held + held_bytes files"
proof (induction files arbitrary: held)
  case (Cons p files)
  obtain path blob where p: "p = (path, blob)" by (cases p)
  from Cons.prems(1) obtain name where "clean_files files (AList.update name blob held) = Inr out"
    by (auto simp: p abind_Inr)
  from Cons.IH [OF this] Cons.prems(2) held_bytes_update [of name blob held] show ?case by (auto simp: p)
qed simp

lemma map_entry_update: "map_of d k = Some v \<Longrightarrow> AList.map_entry k f d = AList.update k (f v) d"
  by (induction d) auto

lemma transfer_offer_ok:
  assumes "transfers_ok ts" "length ts \<le> MAX_OPEN"
  shows "transfers_ok (snd (transfer_offer kind meta origin now ident ts))"
    "length (snd (transfer_offer kind meta origin now ident ts)) \<le> MAX_OPEN"
proof -
  note p = transfer_prune_ok [OF assms(1), of now]
  show "transfers_ok (snd (transfer_offer kind meta origin now ident ts))"
    using p enrol_ok(1) [of kind meta origin Up now ident "transfer_prune now ts"]
    by (auto simp: transfer_offer_def Let_def split: sum.split)
  show "length (snd (transfer_offer kind meta origin now ident ts)) \<le> MAX_OPEN"
    using p assms(2) enrol_ok(2) [of kind meta origin Up now ident "transfer_prune now ts"]
    by (auto simp: transfer_offer_def Let_def split: sum.split)
qed

lemma transfer_fetch_ok:
  assumes "transfers_ok ts" "length ts \<le> MAX_OPEN"
  shows "transfers_ok (snd (transfer_fetch kind meta files origin now ident ts)) \<and>
    length (snd (transfer_fetch kind meta files origin now ident ts)) \<le> MAX_OPEN"
proof -
  let ?ts = "transfer_prune now ts"
  note p = transfer_prune_ok [OF assms(1), of now]
  show ?thesis
  proof (cases "MAX_HELD < book_bytes ?ts + held_bytes files \<or> kd_limit kind < held_bytes files")
    case True
    then have "snd (transfer_fetch kind meta files origin now ident ts) = ?ts" by (auto simp: transfer_fetch_def Let_def)
    with p assms(2) show ?thesis by simp
  next
    case room: False
    show ?thesis
    proof (cases "enrol kind meta origin Down now ident ?ts")
      case (Inl code)
      with room have "snd (transfer_fetch kind meta files origin now ident ts) = ?ts" by (simp add: transfer_fetch_def Let_def)
      with p assms(2) show ?thesis by simp
    next
      case (Inr ts')
      note e = enrol_ok [OF Inr p(1)]
      show ?thesis
      proof (cases "clean_files files []")
        case (Inl code)
        with room Inr have "snd (transfer_fetch kind meta files origin now ident ts) = ts'"
          by (simp add: transfer_fetch_def Let_def)
        with e(1,2) show ?thesis by simp
      next
        case cleaned: (Inr held)
        note c = clean_files_ok [OF cleaned, simplified]
        let ?t = "opened kind meta origin Down now" and ?t' = "(opened kind meta origin Down now)\<lparr> tr_held := held \<rparr>"
        have m: "AList.map_entry ident (\<lambda>t. t\<lparr> tr_held := held \<rparr>) ts' = AList.update ident ?t' ts'"
          by (rule map_entry_update [OF e(4)])
        have "transfer_ok ?t'" using c room by (simp add: transfer_ok_def)
        moreover have "book_bytes ts' + held_bytes (tr_held ?t') \<le> MAX_HELD + held_bytes (tr_held ?t)"
          using c room e(3) by simp
        ultimately have "transfers_ok (AList.update ident ?t' ts')" "length (AList.update ident ?t' ts') = length ts'"
          using transfers_change [OF e(1,4), of ?t'] by simp_all
        moreover have "snd (transfer_fetch kind meta files origin now ident ts) = AList.update ident ?t' ts'"
          using room Inr cleaned m by (simp add: transfer_fetch_def Let_def)
        ultimately show ?thesis using e(2) by simp
      qed
    qed
  qed
qed

lemma begin_file_ok:
  assumes "transfer_ok t" "tr_way t = Up" "map_of (tr_held t) name = None \<Longrightarrow> length (tr_held t) < MAX_TRANSFER_FILES"
  shows "transfer_ok (begin_file name t)" "held_bytes (tr_held (begin_file name t)) = held_bytes (tr_held t)"
    "tr_origin (begin_file name t) = tr_origin t" "tr_kind (begin_file name t) = tr_kind t" "tr_way (begin_file name t) = Up"
    "name \<in> set (od_keys (tr_held (begin_file name t)))"
proof -
  have "transfer_ok (begin_file name t)"
  proof (cases "map_of (tr_held t) name")
    case None
    have k: "od_keys (tr_chunks t) = od_keys (tr_held t)" using assms(1,2) by (simp add: transfer_ok_def)
    have n: "name \<notin> fst ` set (tr_held t)" using None by (simp add: map_of_eq_None_iff)
    then have "name \<notin> fst ` set (tr_chunks t)" using k by (metis list.set_map)
    then have "AList.update name 0 (tr_chunks t) = tr_chunks t @ [(name, 0)]" by (rule update_absent)
    with assms n k show ?thesis by (auto simp: transfer_ok_def begin_file_def None)
  qed (use assms in \<open>simp add: begin_file_def\<close>)
  then show "transfer_ok (begin_file name t)" .
  show "held_bytes (tr_held (begin_file name t)) = held_bytes (tr_held t)"
    "tr_origin (begin_file name t) = tr_origin t" "tr_kind (begin_file name t) = tr_kind t" "tr_way (begin_file name t) = Up"
    using assms(2) by (simp_all add: begin_file_def)
  show "name \<in> set (od_keys (tr_held (begin_file name t)))"
    by (cases "map_of (tr_held t) name") (auto simp: begin_file_def dest: map_of_mem)
qed

lemma keys_map_entry: "od_keys (AList.map_entry k f d) = od_keys d"
  by (induction d) auto

lemma map_entry_absent: "k \<notin> fst ` set d \<Longrightarrow> AList.map_entry k f d = d"
  by (induction d) auto

lemma held_bytes_append_chunk:
  assumes "name \<in> set (od_keys held)" "od_ok held"
  shows "held_bytes (AList.map_entry name (\<lambda>blob. blob @ chunk) held) = held_bytes held + length chunk"
  using assms by (induction held) (auto simp: map_entry_absent)

lemma append_chunk_ok:
  assumes "transfer_ok t" "tr_way t = Up" "name \<in> set (od_keys (tr_held t))"
    "held_bytes (tr_held t) + length chunk \<le> kd_limit (tr_kind t)"
  shows "transfer_ok (append_chunk name chunk now t)"
    "held_bytes (tr_held (append_chunk name chunk now t)) = held_bytes (tr_held t) + length chunk"
    "tr_origin (append_chunk name chunk now t) = tr_origin t"
proof -
  have ok: "od_ok (tr_held t)" using assms(1) by (simp add: transfer_ok_def)
  show h: "held_bytes (tr_held (append_chunk name chunk now t)) = held_bytes (tr_held t) + length chunk"
    by (simp add: append_chunk_def held_bytes_append_chunk [OF assms(3) ok])
  then show "transfer_ok (append_chunk name chunk now t)"
    using assms by (auto simp: transfer_ok_def append_chunk_def keys_map_entry)
  show "tr_origin (append_chunk name chunk now t) = tr_origin t" by (simp add: append_chunk_def)
qed

text \<open>The shape of \<open>put\<close>: nothing found, a file begun and no more, or a chunk stored.\<close>

lemma transfer_put_cases:
  obtains (none) code where "transfer_put ident path seq chunk origin now ts = (Inl code, ts)"
  | (pruned) code where "transfer_put ident path seq chunk origin now ts = (Inl code, transfer_prune now ts)"
  | (refused) code name t where "transfer_put ident path seq chunk origin now ts =
        (Inl code, AList.update ident (begin_file name t) (transfer_prune now ts))"
      "open_entry ident origin Up (transfer_prune now ts) = Some t" "clean_path path = Inr name"
      "map_of (tr_held t) name = None \<Longrightarrow> length (tr_held t) < MAX_TRANSFER_FILES"
  | (stored) name t where "transfer_put ident path seq chunk origin now ts =
        (Inr (put_answer name (append_chunk name chunk now (begin_file name t))),
         AList.update ident (append_chunk name chunk now (begin_file name t))
           (AList.update ident (begin_file name t) (transfer_prune now ts)))"
      "open_entry ident origin Up (transfer_prune now ts) = Some t" "clean_path path = Inr name"
      "map_of (tr_held t) name = None \<Longrightarrow> length (tr_held t) < MAX_TRANSFER_FILES"
      "name \<notin> tr_closed (begin_file name t)" "map_of (tr_chunks (begin_file name t)) name = Some seq"
      "length chunk \<le> UP_CHUNK"
      "book_bytes (AList.update ident (begin_file name t) (transfer_prune now ts)) + length chunk \<le> MAX_HELD"
      "held_bytes (tr_held (begin_file name t)) + length chunk \<le> kd_limit (tr_kind (begin_file name t))"
proof (cases "clean_path path")
  case (Inl code)
  then show ?thesis using none by (simp add: transfer_put_def)
next
  case path: (Inr name)
  let ?ts = "transfer_prune now ts"
  show ?thesis
  proof (cases "open_entry ident origin Up ?ts")
    case None
    then have "transfer_put ident path seq chunk origin now ts = (Inl Not_found, ?ts)"
      using path by (simp add: transfer_put_def Let_def)
    then show ?thesis by (rule pruned)
  next
    case (Some t)
    show ?thesis
    proof (cases "map_of (tr_held t) name = None \<and> MAX_TRANSFER_FILES \<le> length (tr_held t)")
      case True
      then have "transfer_put ident path seq chunk origin now ts = (Inl Conflict, ?ts)"
        using path Some by (simp add: transfer_put_def Let_def)
      then show ?thesis by (rule pruned)
    next
      case room: False
      let ?t = "begin_file name t"
      let ?b = "AList.update ident ?t ?ts"
      have room': "map_of (tr_held t) name = None \<Longrightarrow> length (tr_held t) < MAX_TRANSFER_FILES" using room by auto
      have eq: "transfer_put ident path seq chunk origin now ts =
          (if name \<in> tr_closed ?t then (Inl Conflict, ?b)
           else if map_of (tr_chunks ?t) name \<noteq> Some seq then (Inl Conflict, ?b)
           else if UP_CHUNK < length chunk then (Inl Bad_request, ?b)
           else if MAX_HELD < book_bytes ?b + length chunk then (Inl Conflict, ?b)
           else if kd_limit (tr_kind ?t) < held_bytes (tr_held ?t) + length chunk then (Inl Conflict, ?b)
           else (Inr (put_answer name (append_chunk name chunk now ?t)), AList.update ident (append_chunk name chunk now ?t) ?b))"
        using path Some by (simp only: transfer_put_def sum.case option.case Let_def room if_False)
      show ?thesis
      proof (cases "name \<in> tr_closed ?t \<or> map_of (tr_chunks ?t) name \<noteq> Some seq \<or> UP_CHUNK < length chunk \<or>
          MAX_HELD < book_bytes ?b + length chunk \<or> kd_limit (tr_kind ?t) < held_bytes (tr_held ?t) + length chunk")
        case True
        then have "\<exists>code. transfer_put ident path seq chunk origin now ts = (Inl code, ?b)" unfolding eq by auto
        then obtain code where "transfer_put ident path seq chunk origin now ts = (Inl code, ?b)" by blast
        from refused [OF this Some path room'] show ?thesis .
      next
        case False
        then show ?thesis by (intro stored [OF _ Some path room']) (simp_all add: eq)
      qed
    qed
  qed
qed

lemma open_entry_Some:
  "open_entry ident origin way ts = Some t \<longleftrightarrow> map_of ts ident = Some t \<and> tr_origin t = origin \<and> tr_way t = way"
  by (auto simp: open_entry_def split: option.split)

lemma begun_ok:
  assumes "transfers_ok ts" "open_entry ident origin Up ts = Some t"
    "map_of (tr_held t) name = None \<Longrightarrow> length (tr_held t) < MAX_TRANSFER_FILES"
  shows "transfer_ok t" "transfers_ok (AList.update ident (begin_file name t) ts)"
    "length (AList.update ident (begin_file name t) ts) = length ts"
    "map_of (AList.update ident (begin_file name t) ts) ident = Some (begin_file name t)"
proof -
  have o: "map_of ts ident = Some t" "tr_way t = Up" using assms(2) by (simp_all add: open_entry_Some)
  show t: "transfer_ok t" using assms(1) o(1) by (auto simp: transfers_ok_def dest: od_allD)
  note b = begin_file_ok [OF t o(2) assms(3)]
  have s: "book_bytes ts + held_bytes (tr_held (begin_file name t)) \<le> MAX_HELD + held_bytes (tr_held t)"
    using assms(1) by (simp add: b(2) transfers_ok_def)
  show "transfers_ok (AList.update ident (begin_file name t) ts)"
    "length (AList.update ident (begin_file name t) ts) = length ts"
    using transfers_change [OF assms(1) o(1) b(1,3) s] by simp_all
  show "map_of (AList.update ident (begin_file name t) ts) ident = Some (begin_file name t)" by (simp add: update_conv')
qed

lemma transfer_put_ok:
  assumes "transfers_ok ts" "length ts \<le> MAX_OPEN"
  shows "transfers_ok (snd (transfer_put ident path seq chunk origin now ts)) \<and>
    length (snd (transfer_put ident path seq chunk origin now ts)) \<le> MAX_OPEN"
proof (cases rule: transfer_put_cases [of ident path seq chunk origin now ts])
  case (refused code name t)
  note b = begun_ok [OF transfer_prune_ok(1) [OF assms(1)] refused(2,4)]
  with assms transfer_prune_ok(2) [OF assms(1), of now] show ?thesis by (simp add: refused(1))
next
  case (stored name t)
  note b = begun_ok [OF transfer_prune_ok(1) [OF assms(1)] stored(2,4)]
  have up: "tr_way t = Up" using stored(2) by (simp add: open_entry_Some)
  note bf = begin_file_ok [OF b(1) up stored(4)]
  note a = append_chunk_ok [OF bf(1,5,6) stored(9)]
  have s: "book_bytes (AList.update ident (begin_file name t) (transfer_prune now ts)) +
      held_bytes (tr_held (append_chunk name chunk now (begin_file name t))) \<le> MAX_HELD + held_bytes (tr_held (begin_file name t))"
    using stored(8) by (simp add: a(2))
  from transfers_change [OF b(2,4) a(1,3) s] b(3) assms transfer_prune_ok(2) [OF assms(1), of now]
  show ?thesis by (simp add: stored(1))
qed (use assms transfer_prune_ok [OF assms(1), of now] in auto)

lemma transfer_take_ok:
  assumes "transfers_ok ts" "length ts \<le> MAX_OPEN"
  shows "transfers_ok (snd (transfer_take ident path seq origin now ts)) \<and>
    length (snd (transfer_take ident path seq origin now ts)) \<le> MAX_OPEN"
proof -
  let ?ts = "transfer_prune now ts"
  note p = transfer_prune_ok [OF assms(1), of now]
  have "snd (transfer_take ident path seq origin now ts) \<in> {ts, ?ts} \<or>
    (\<exists>t. open_entry ident origin Down ?ts = Some t \<and>
      snd (transfer_take ident path seq origin now ts) = AList.update ident (t\<lparr> tr_touched := now \<rparr>) ?ts)"
    by (simp add: transfer_take_def Let_def split: sum.split option.split)
  then show ?thesis
  proof (elim disjE exE conjE)
    fix t
    assume o: "open_entry ident origin Down ?ts = Some t"
      and eq: "snd (transfer_take ident path seq origin now ts) = AList.update ident (t\<lparr> tr_touched := now \<rparr>) ?ts"
    have m: "map_of ?ts ident = Some t" using o by (simp add: open_entry_Some)
    then have t: "transfer_ok t" using p(1) by (auto simp: transfers_ok_def dest: od_allD)
    have "transfers_ok (AList.update ident (t\<lparr> tr_touched := now \<rparr>) ?ts)"
      "length (AList.update ident (t\<lparr> tr_touched := now \<rparr>) ?ts) = length ?ts"
      using transfers_change [OF p(1) m, of "t\<lparr> tr_touched := now \<rparr>"] t p(1) by (simp_all add: transfer_ok_def transfers_ok_def)
    with p(2) assms(2) show ?thesis by (simp add: eq)
  qed (use p assms in auto)
qed

lemma transfer_collect_book:
  "snd (transfer_collect ident origin now ts) \<in> {transfer_prune now ts, AList.delete ident (transfer_prune now ts)}"
  by (simp add: transfer_collect_def Let_def split: option.split)

lemma transfer_drop_book: "snd (transfer_drop ident origin ts) \<in> {ts, AList.delete ident ts}"
  by (simp add: transfer_drop_def split: option.split)

datatype transfer_event =
    Offer kind json string real string
  | Fetch kind json "(string, bytes) odict" string real string
  | Put string string nat bytes string real
  | Take string string nat string real
  | Collect string string real
  | Drop_transfer string string

fun transfer_step :: "transfer_event \<Rightarrow> transfer_book \<Rightarrow> transfer_book" where
  "transfer_step (Offer k meta origin now ident) ts = snd (transfer_offer k meta origin now ident ts)"
| "transfer_step (Fetch k meta files origin now ident) ts = snd (transfer_fetch k meta files origin now ident ts)"
| "transfer_step (Put ident path seq chunk origin now) ts = snd (transfer_put ident path seq chunk origin now ts)"
| "transfer_step (Take ident path seq origin now) ts = snd (transfer_take ident path seq origin now ts)"
| "transfer_step (Collect ident origin now) ts = snd (transfer_collect ident origin now ts)"
| "transfer_step (Drop_transfer ident origin) ts = snd (transfer_drop ident origin ts)"

lemma transfer_step_ok:
  assumes "transfers_ok ts" "length ts \<le> MAX_OPEN"
  shows "transfers_ok (transfer_step e ts) \<and> length (transfer_step e ts) \<le> MAX_OPEN"
proof (cases e)
  case (Collect ident origin now)
  note p = transfer_prune_ok [OF assms(1), of now]
  show ?thesis using transfer_collect_book [of ident origin now ts] p transfer_delete_ok [OF p(1), of ident] assms(2)
    by (auto simp: Collect)
next
  case (Drop_transfer ident origin)
  show ?thesis using transfer_drop_book [of ident origin ts] transfer_delete_ok [OF assms(1), of ident] assms
    by (auto simp: Drop_transfer)
qed (use transfer_offer_ok [OF assms] transfer_fetch_ok [OF assms] transfer_put_ok [OF assms] transfer_take_ok [OF assms]
    in simp_all)

interpretation transfers: bounded_book length "\<lambda>_. MAX_OPEN" transfer_step transfers_ok
  by unfold_locales (use transfer_step_ok in auto)

text \<open>
  C17: The transfer book keeps its bounds whatever is sent or asked. After any sequence of offers, fetches,
  chunks up and down, commits and drops, at most six transfers are open, at most three from elsewhere,
  together they hold at most 16 MiB, and each holds no more than its kind may carry and, going up, at most
  256 files.
\<close>
theorem transfer_book_bounded:
  "length (fold transfer_step es []) \<le> MAX_OPEN \<and> length (remote_transfers (fold transfer_step es [])) \<le> MAX_OPEN_REMOTE \<and>
     book_bytes (fold transfer_step es []) \<le> MAX_HELD \<and>
     (\<forall>(ident, t) \<in> set (fold transfer_step es []). held_bytes (tr_held t) \<le> kd_limit (tr_kind t) \<and>
        (tr_way t = Up \<longrightarrow> length (tr_held t) \<le> MAX_TRANSFER_FILES))"
proof -
  have "transfers_ok []" by (simp add: transfers_ok_def remote_transfers_def)
  then have "transfers_ok (fold transfer_step es []) \<and> length (fold transfer_step es []) \<le> MAX_OPEN"
    by (rule transfers.run_inv) simp
  then show ?thesis by (auto simp: transfers_ok_def od_all_def transfer_ok_def)
qed

theorem transfer_book_bounded_witness:
  "list_all (\<lambda>(ident, t). held_bytes (tr_held t) \<le> kd_limit (tr_kind t)) (fold transfer_step
      [Offer \<lparr> kd_name = ''app'', kd_way = Up, kd_reach = Reach_govern, kd_limit = 3 \<rparr> JNull LOCAL 0 ''t'',
       Put ''t'' ''a'' 0 [1, 2] LOCAL 1, Put ''t'' ''b'' 0 [1, 2] LOCAL 1] [])"
  using transfer_book_bounded [of
      "[Offer \<lparr> kd_name = ''app'', kd_way = Up, kd_reach = Reach_govern, kd_limit = 3 \<rparr> JNull LOCAL 0 ''t'',
        Put ''t'' ''a'' 0 [1, 2] LOCAL 1, Put ''t'' ''b'' 0 [1, 2] LOCAL 1]"]
  unfolding list_all_iff by blast

end
