(* ===== verification/Carriage.thy ===== *)
theory Carriage
  imports Transfers
begin

text \<open>What a transfer carries: names that stay inside it, every chunk once, every file whole.\<close>

section \<open>Names\<close>

lemma split_on_nonempty: "split_on d s \<noteq> []"
  by (induction s) auto

lemma split_on_chars: "p \<in> set (split_on d s) \<Longrightarrow> set p \<subseteq> set s - {d}"
proof (induction s arbitrary: p)
  case (Cons c cs)
  have h: "hd (split_on d cs) \<in> set (split_on d cs)" using split_on_nonempty by (rule hd_in_set)
  have t: "set (tl (split_on d cs)) \<subseteq> set (split_on d cs)" by (cases "split_on d cs") auto
  show ?case
  proof (cases "c = d")
    case True
    with Cons show ?thesis by auto
  next
    case False
    then have "p = c # hd (split_on d cs) \<or> p \<in> set (split_on d cs)" using Cons.prems t by auto
    with Cons.IH [OF h] Cons.IH [of p] False show ?thesis by auto
  qed
qed simp

lemma split_on_length: "sum_list (map (\<lambda>p. Suc (length p)) (split_on d s)) = Suc (length s)"
proof (induction s)
  case (Cons c cs)
  have "split_on d cs = hd (split_on d cs) # tl (split_on d cs)" using split_on_nonempty by simp
  then have "sum_list (map (\<lambda>p. Suc (length p)) (split_on d cs)) =
      Suc (length (hd (split_on d cs))) + sum_list (map (\<lambda>p. Suc (length p)) (tl (split_on d cs)))"
    by (metis list.simps(9) sum_list.Cons)
  with Cons show ?case by simp
qed simp

lemma sum_list_filter_le: "sum_list (map f (filter P xs)) \<le> (sum_list (map f xs) :: nat)"
  by (induction xs) auto

lemma length_join_parts: "parts \<noteq> [] \<Longrightarrow> Suc (length (join_parts parts)) = sum_list (map (\<lambda>p. Suc (length p)) parts)"
  by (cases parts) (simp_all add: join_parts_def length_concat o_def)

lemma split_on_append: "d \<notin> set p \<Longrightarrow> split_on d (p @ d # rest) = p # split_on d rest"
  by (induction p) auto

lemma split_on_whole: "d \<notin> set p \<Longrightarrow> split_on d p = [p]"
  by (induction p) auto

lemma split_join: "parts \<noteq> [] \<Longrightarrow> \<forall>p \<in> set parts. CHR ''/'' \<notin> set p \<Longrightarrow> split_on (CHR ''/'') (join_parts parts) = parts"
proof (induction parts)
  case (Cons p ps)
  show ?case
  proof (cases ps)
    case Nil
    with Cons.prems show ?thesis by (simp add: join_parts_def split_on_whole)
  next
    case (Cons q qs)
    have "join_parts (p # ps) = p @ CHR ''/'' # join_parts ps" by (simp add: join_parts_def Cons)
    moreover have "split_on (CHR ''/'') (join_parts ps) = ps" using Cons.IH Cons.prems Cons by simp
    ultimately show ?thesis using Cons.prems by (simp add: split_on_append)
  qed
qed simp

lemma set_strip: "set (py_strip s) \<subseteq> set s"
  by (auto simp: py_strip_def dest!: set_dropWhileD)

lemma no_backslash: "CHR 0x5C \<notin> set (py_strip (map slash raw))"
  using set_strip [of "map slash raw"] by (auto simp: slash_def split: if_splits)

text \<open>
  C18: A name never climbs out of its transfer. Whatever text is given for a path, the name it is filed under
  is a list of components joined by slashes, none of them empty, \<open>.\<close> or \<open>..\<close>, none holding a slash, a
  backslash, a colon or a null character, and at most 200 characters long.
\<close>
theorem clean_path_stays_inside:
  assumes "clean_path raw = Inr name"
  shows "length name \<le> 200 \<and> split_on (CHR ''/'') name \<noteq> [] \<and>
    (\<forall>p \<in> set (split_on (CHR ''/'') name). p \<noteq> [] \<and> p \<noteq> ''.'' \<and> p \<noteq> ''..'' \<and>
       set p \<inter> {CHR ''/'', CHR 0x5C, CHR '':'', CHR 0x00} = {})"
proof -
  let ?text = "py_strip (map slash raw)"
  let ?parts = "filter (\<lambda>p. p \<noteq> []) (split_on (CHR ''/'') ?text)"
  have c: "length ?text \<le> 200" "CHR '':'' \<notin> set ?text" "?parts \<noteq> []" "\<forall>p \<in> set ?parts. p \<noteq> ''.'' \<and> p \<noteq> ''..''"
    "\<forall>p \<in> set ?parts. CHR 0x00 \<notin> set p" "name = join_parts ?parts"
    using assms by (auto simp: clean_path_def Let_def split: if_splits)
  have chars: "set p \<subseteq> set ?text - {CHR ''/''}" if "p \<in> set ?parts" for p using that split_on_chars by auto
  have s: "split_on (CHR ''/'') name = ?parts" unfolding c(6) by (rule split_join [OF c(3)]) (use chars in blast)
  have "Suc (length name) \<le> Suc (length ?text)"
    unfolding c(6) length_join_parts [OF c(3)]
    using sum_list_filter_le [of "\<lambda>p. Suc (length p)" "\<lambda>p. p \<noteq> []" "split_on (CHR ''/'') ?text"] split_on_length by metis
  then have len: "length name \<le> 200" using c(1) by simp
  have "p \<noteq> [] \<and> p \<noteq> ''.'' \<and> p \<noteq> ''..'' \<and> set p \<inter> {CHR ''/'', CHR 0x5C, CHR '':'', CHR 0x00} = {}"
    if "p \<in> set ?parts" for p
    using that chars [OF that] c(2,4,5) no_backslash [of raw] by auto
  with len c(3) s show ?thesis by (simp only:) blast
qed

theorem clean_path_stays_inside_witness:
  "clean_path (''a'' @ [CHR 0x5C] @ ''b//c.txt'') = Inr ''a/b/c.txt'' \<and>
     list_all (\<lambda>p. p \<noteq> ''..'') (split_on (CHR ''/'') ''a/b/c.txt'')"
proof -
  have c: "clean_path (''a'' @ [CHR 0x5C] @ ''b//c.txt'') = Inr ''a/b/c.txt''"
    by (simp add: clean_path_def slash_def py_strip_def py_space_def Let_def join_parts_def)
  from clean_path_stays_inside [OF c] c show ?thesis unfolding list_all_iff by blast
qed

end
