(* ===== verification/Uploads.thy ===== *)
theory Uploads
  imports Carriage
begin

text \<open>
  A file goes up and comes down whole: what a client sends a piece at a time with the operations of
  \<open>Transfers\<close> is what is handed to the kind's writer, and what a kind produced is what a client reads.

  The client is the one the channel documents: the pieces of a file are cut at the chunk size, an empty file
  is one empty piece, a reader stops at the piece marked last. The clock readings of its calls are a list;
  \<open>paced\<close> says that no call comes later than the idle time after the one before.
\<close>

function pieces :: "nat \<Rightarrow> bytes \<Rightarrow> bytes list" where
  "pieces n blob = (if n = 0 \<or> length blob \<le> n then [blob] else take n blob # pieces n (drop n blob))"
  by pat_completeness auto
termination by (relation "measure (\<lambda>(_, blob). length blob)") auto

declare pieces.simps [simp del]

fun upload_calls :: "(string, bytes) odict \<Rightarrow> (string \<times> nat \<times> bytes) list" where
  "upload_calls [] = []"
| "upload_calls ((path, blob) # files) =
     map (\<lambda>(seq, chunk). (path, seq, chunk)) (enumerate 0 (pieces UP_CHUNK blob)) @ upload_calls files"

fun send_calls :: "string \<Rightarrow> string \<Rightarrow> (string \<times> nat \<times> bytes) list \<Rightarrow> real list \<Rightarrow> transfer_book \<Rightarrow> transfer_book" where
  "send_calls ident origin ((path, seq, chunk) # calls) (now # nows) ts =
     send_calls ident origin calls nows (snd (transfer_put ident path seq chunk origin now ts))"
| "send_calls ident origin _ _ ts = ts"

fun paced :: "real \<Rightarrow> real list \<Rightarrow> bool" where
  "paced before [] = True"
| "paced before (now # nows) = (now - before \<le> TRANSFER_IDLE \<and> paced now nows)"

fun latest :: "real \<Rightarrow> real list \<Rightarrow> real" where
  "latest before [] = before"
| "latest before (now # nows) = latest now nows"

lemma paced_append: "paced before (xs @ ys) \<longleftrightarrow> paced before xs \<and> paced (latest before xs) ys"
  by (induction xs arbitrary: before) auto

lemma latest_append: "latest before (xs @ ys) = latest (latest before xs) ys"
  by (induction xs arbitrary: before) auto

lemma send_calls_append:
  "length calls = length nows \<Longrightarrow>
     send_calls ident origin (calls @ calls') (nows @ nows') ts =
       send_calls ident origin calls' nows' (send_calls ident origin calls nows ts)"
  by (induction ident origin calls nows ts rule: send_calls.induct) auto

section \<open>One call\<close>

text \<open>An open transfer as its owner sees it: the ticket leads to it, and it has not been idle.\<close>

definition waiting :: "string \<Rightarrow> string \<Rightarrow> way \<Rightarrow> transfer \<Rightarrow> transfer_book \<Rightarrow> bool" where
  "waiting ident origin way t ts \<longleftrightarrow>
     transfers_ok ts \<and> map_of ts ident = Some t \<and> tr_origin t = origin \<and> tr_way t = way"

lemma map_of_prune:
  "od_ok ts \<Longrightarrow> map_of ts ident = Some t \<Longrightarrow> now - tr_touched t \<le> TRANSFER_IDLE \<Longrightarrow>
     map_of (transfer_prune now ts) ident = Some t"
proof (induction ts)
  case (Cons p ts)
  have "ident \<notin> fst ` set (transfer_prune now ts)" if "ident \<notin> fst ` set ts"
    using that by (auto simp: transfer_prune_def)
  with Cons show ?case by (cases p) (auto simp: transfer_prune_def split: if_splits)
qed simp

lemma waiting_prune:
  assumes "waiting ident origin way t ts" "now - tr_touched t \<le> TRANSFER_IDLE"
  shows "waiting ident origin way t (transfer_prune now ts)" "open_entry ident origin way (transfer_prune now ts) = Some t"
proof -
  have "od_ok ts" using assms(1) by (simp add: waiting_def transfers_ok_def)
  with assms show w: "waiting ident origin way t (transfer_prune now ts)"
    by (simp add: waiting_def map_of_prune transfer_prune_ok(1))
  then show "open_entry ident origin way (transfer_prune now ts) = Some t" by (simp add: waiting_def open_entry_Some)
qed

lemma waiting_step:
  assumes "waiting ident origin way t ts" "transfer_ok t'" "tr_origin t' = origin" "tr_way t' = way"
    "book_bytes ts + held_bytes (tr_held t') \<le> MAX_HELD + held_bytes (tr_held t)"
  shows "waiting ident origin way t' (AList.update ident t' ts)"
    "book_bytes (AList.update ident t' ts) + held_bytes (tr_held t) = book_bytes ts + held_bytes (tr_held t')"
proof -
  have w: "transfers_ok ts" "map_of ts ident = Some t" "tr_origin t = origin" using assms(1) by (simp_all add: waiting_def)
  have o: "tr_origin t' = tr_origin t" using w(3) assms(3) by simp
  show "waiting ident origin way t' (AList.update ident t' ts)"
    using transfers_change(1) [OF w(1,2) assms(2) o assms(5)] assms(3,4) by (simp add: waiting_def update_conv')
  show "book_bytes (AList.update ident t' ts) + held_bytes (tr_held t) = book_bytes ts + held_bytes (tr_held t')"
    using w book_bytes_ge [OF w(2)] by (simp add: book_bytes_update transfers_ok_def)
qed

text \<open>The next piece of a file: where it goes and what it may cost.\<close>

definition ready :: "string \<Rightarrow> nat \<Rightarrow> nat \<Rightarrow> transfer \<Rightarrow> bool" where
  "ready name seq n t \<longleftrightarrow>
     (map_of (tr_held t) name = None \<longrightarrow> length (tr_held t) < MAX_TRANSFER_FILES) \<and>
     name \<notin> tr_closed (begin_file name t) \<and> map_of (tr_chunks (begin_file name t)) name = Some seq \<and>
     held_bytes (tr_held t) + n \<le> kd_limit (tr_kind t)"

lemma put_next:
  assumes "waiting ident origin Up t ts" "now - tr_touched t \<le> TRANSFER_IDLE" "clean_path path = Inr name"
    "ready name seq (length chunk) t" "length chunk \<le> UP_CHUNK" "book_bytes ts + length chunk \<le> MAX_HELD"
  shows "waiting ident origin Up (append_chunk name chunk now (begin_file name t))
      (snd (transfer_put ident path seq chunk origin now ts))"
    "book_bytes (snd (transfer_put ident path seq chunk origin now ts)) \<le> book_bytes ts + length chunk"
proof -
  let ?ts = "transfer_prune now ts" and ?t = "begin_file name t"
  let ?u = "append_chunk name chunk now ?t" and ?b = "AList.update ident ?t ?ts"
  note p = waiting_prune [OF assms(1,2)]
  have le: "book_bytes ?ts \<le> book_bytes ts" by (simp add: transfer_prune_def book_bytes_filter)
  have new: "map_of (tr_held t) name = None \<Longrightarrow> length (tr_held t) < MAX_TRANSFER_FILES" using assms(4) by (simp add: ready_def)
  have t: "transfer_ok t" "tr_way t = Up" "tr_origin t = origin" "transfers_ok ?ts"
    using p(1) by (auto simp: waiting_def transfers_ok_def dest: od_allD)
  note b = begin_file_ok [OF t(1,2) new]
  have bo: "tr_origin ?t = origin" using b(3) t(3) by simp
  have "book_bytes ?ts + held_bytes (tr_held ?t) \<le> MAX_HELD + held_bytes (tr_held t)" using t(4) by (simp add: b(2) transfers_ok_def)
  note w = waiting_step [OF p(1) b(1) bo b(5) this]
  have bb: "book_bytes ?b = book_bytes ?ts" using w(2) by (simp add: b(2))
  have room: "held_bytes (tr_held ?t) + length chunk \<le> kd_limit (tr_kind ?t)" using assms(4) by (simp add: b(2,4) ready_def)
  note a = append_chunk_ok [OF b(1,5,6) room]
  have ao: "tr_origin ?u = origin" "tr_way ?u = Up" using a(3) bo b(5) by (simp_all add: append_chunk_def)
  have "book_bytes ?b + held_bytes (tr_held ?u) \<le> MAX_HELD + held_bytes (tr_held ?t)"
    using assms(6) le by (simp add: bb a(2))
  note u = waiting_step [OF w(1) a(1) ao this]
  have eq: "snd (transfer_put ident path seq chunk origin now ts) = AList.update ident ?u ?b"
    using assms(3-6) p(2) new room bb le by (auto simp: transfer_put_def Let_def ready_def)
  show "waiting ident origin Up ?u (snd (transfer_put ident path seq chunk origin now ts))" unfolding eq by (rule u(1))
  show "book_bytes (snd (transfer_put ident path seq chunk origin now ts)) \<le> book_bytes ts + length chunk"
    unfolding eq using u(2) le by (simp add: a(2) bb)
qed

section \<open>One file\<close>

lemma begin_file_begun [simp]: "map_of (tr_held t) name \<noteq> None \<Longrightarrow> begin_file name t = t"
  by (auto simp: begin_file_def)

lemma map_of_map_entry: "map_of (AList.map_entry k f d) = (\<lambda>k'. if k' = k then map_option f (map_of d k) else map_of d k')"
  by (induction d) (auto simp: fun_eq_iff)

lemma map_entry_twice: "AList.map_entry k f (AList.map_entry k g d) = AList.map_entry k (\<lambda>v. f (g v)) d"
  by (induction d) auto

lemma map_of_begin_file: "map_of (tr_held (begin_file name t)) name \<noteq> None"
  by (auto simp: begin_file_def map_add_def split: option.split)

text \<open>A transfer once a file of it is in: that file at the end of the files begun, and nothing else changed.\<close>

definition grown :: "string \<Rightarrow> bytes \<Rightarrow> transfer \<Rightarrow> transfer \<Rightarrow> bool" where
  "grown name blob t t' \<longleftrightarrow>
     tr_held t' = AList.map_entry name (\<lambda>b. b @ blob) (tr_held (begin_file name t)) \<and>
     (\<forall>n. n \<noteq> name \<longrightarrow> (n \<in> tr_closed t' \<longleftrightarrow> n \<in> tr_closed t)) \<and>
     tr_kind t' = tr_kind t \<and> tr_meta t' = tr_meta t"

lemma grown_chunk: "grown name chunk t (append_chunk name chunk now (begin_file name t))"
  by (auto simp: grown_def append_chunk_def begin_file_def)

lemma held_bytes_grown:
  assumes "grown name blob t t'" "od_ok (tr_held (begin_file name t))"
  shows "held_bytes (tr_held t') = held_bytes (tr_held t) + length blob"
proof -
  have "name \<in> set (od_keys (tr_held (begin_file name t)))"
    using map_of_begin_file [of name t] by (auto simp: map_of_eq_None_iff)
  moreover have "held_bytes (tr_held (begin_file name t)) = held_bytes (tr_held t)" by (simp add: begin_file_def)
  ultimately show ?thesis using assms by (simp add: grown_def held_bytes_append_chunk)
qed

lemma pieces_cons: "\<exists>c cs. pieces n blob = c # cs"
  by (subst pieces.simps) simp

lemma send_pieces:
  assumes "waiting ident origin Up t ts" "clean_path path = Inr name" "ready name seq (length blob) t"
    "book_bytes ts + length blob \<le> MAX_HELD" "paced (tr_touched t) nows" "length nows = length (pieces UP_CHUNK blob)"
  shows "\<exists>t'. let ts' = send_calls ident origin (map (\<lambda>(i, c). (path, i, c)) (enumerate seq (pieces UP_CHUNK blob))) nows ts in
    waiting ident origin Up t' ts' \<and> grown name blob t t' \<and> tr_touched t' = latest (tr_touched t) nows \<and>
    book_bytes ts' \<le> book_bytes ts + length blob"
  using assms
proof (induction UP_CHUNK blob arbitrary: t ts seq nows rule: pieces.induct)
  case (1 blob)
  have pos: "UP_CHUNK \<noteq> 0" by (simp add: UP_CHUNK_def)
  from pieces_cons obtain c cs where cs: "pieces UP_CHUNK blob = c # cs" by blast
  with 1(7) obtain now nows' where nows: "nows = now # nows'" by (cases nows) auto
  have idle: "now - tr_touched t \<le> TRANSFER_IDLE" using 1(6) by (simp add: nows)
  have c: "c = take UP_CHUNK blob" using cs pos by (auto simp: pieces.simps [of UP_CHUNK blob] split: if_splits)
  have len: "length c \<le> UP_CHUNK" "length c \<le> length blob" by (simp_all add: c)
  have r: "ready name seq (length c) t" using 1(4) len by (simp add: ready_def)
  have m: "book_bytes ts + length c \<le> MAX_HELD" using 1(5) len by simp
  let ?u = "append_chunk name c now (begin_file name t)"
  let ?ts = "snd (transfer_put ident path seq c origin now ts)"
  note p = put_next [OF 1(2) idle 1(3) r len(1) m]
  have touched: "tr_touched ?u = now" by (simp add: append_chunk_def)
  show ?case
  proof (cases "length blob \<le> UP_CHUNK")
    case True
    then have "cs = []" "c = blob" using cs by (simp_all add: pieces.simps [of UP_CHUNK blob])
    moreover have "nows' = []" using 1(7) \<open>cs = []\<close> by (simp add: cs nows)
    ultimately show ?thesis using p grown_chunk [of name c t now] touched by (intro exI [of _ ?u]) (simp add: cs nows)
  next
    case False
    let ?rest = "drop UP_CHUNK blob"
    have tl: "cs = pieces UP_CHUNK ?rest" "length c = UP_CHUNK" "blob = c @ ?rest"
      using cs False pos by (simp_all add: pieces.simps [of UP_CHUNK blob] c)
    have begun: "begin_file name ?u = ?u"
      using map_of_begin_file [of name t] by (intro begin_file_begun) (auto simp: append_chunk_def map_of_map_entry)
    have tok: "od_ok (tr_held (begin_file name t))"
      using 1(2) by (auto simp: waiting_def transfers_ok_def transfer_ok_def begin_file_def map_of_eq_None_iff dest!: od_allD)
    have "held_bytes (tr_held ?u) = held_bytes (tr_held t) + length c" by (rule held_bytes_grown [OF grown_chunk tok])
    then have r': "ready name (Suc seq) (length ?rest) ?u"
      using 1(4) tl(2) False begun map_of_begin_file [of name t]
      by (auto simp: ready_def append_chunk_def map_of_map_entry begin_file_def)
    have m': "book_bytes ?ts + length ?rest \<le> MAX_HELD" using 1(5) p(2) tl(2) False by simp
    have q: "paced (tr_touched ?u) nows'" "length nows' = length (pieces UP_CHUNK ?rest)"
      using 1(6,7) by (simp_all add: nows touched cs tl(1))
    have n: "\<not> (UP_CHUNK = 0 \<or> length blob \<le> UP_CHUNK)" using pos False by simp
    from 1(1) [OF n p(1) 1(3) r' m' q] obtain t' where
      t': "waiting ident origin Up t' (send_calls ident origin (map (\<lambda>(i, c). (path, i, c)) (enumerate (Suc seq) cs)) nows' ?ts)"
        "grown name ?rest ?u t'" "tr_touched t' = latest now nows'"
        "book_bytes (send_calls ident origin (map (\<lambda>(i, c). (path, i, c)) (enumerate (Suc seq) cs)) nows' ?ts)
           \<le> book_bytes ?ts + length ?rest"
      unfolding Let_def tl(1) [symmetric] touched by blast
    have "grown name blob t t'"
      using t'(2) grown_chunk [of name c t now] unfolding grown_def begun
      by (subst tl(3)) (simp add: map_entry_twice)
    with t' p(2) tl(2) False show ?thesis by (intro exI [of _ t']) (simp add: cs nows)
  qed
qed

section \<open>A whole upload\<close>

lemma ready_new:
  assumes "transfer_ok t" "tr_way t = Up" "name \<notin> fst ` set (tr_held t)" "length (tr_held t) < MAX_TRANSFER_FILES"
    "held_bytes (tr_held t) + n \<le> kd_limit (tr_kind t)"
  shows "ready name 0 n t"
proof -
  have "map_of (tr_held t) name = None" using assms(3) by (simp add: map_of_eq_None_iff)
  moreover have "name \<notin> tr_closed t" using assms(1-3) by (auto simp: transfer_ok_def)
  ultimately show ?thesis using assms(4,5) by (simp add: ready_def begin_file_def update_conv')
qed

lemma grown_new:
  assumes "grown name blob t t'" "name \<notin> fst ` set (tr_held t)"
  shows "tr_held t' = tr_held t @ [(name, blob)]"
proof -
  have "map_of (tr_held t) name = None" using assms(2) by (simp add: map_of_eq_None_iff)
  then have "tr_held (begin_file name t) = tr_held t @ [(name, [])]" by (simp add: begin_file_def)
  moreover have "AList.map_entry name f (d @ [(name, [])]) = d @ [(name, f [])]" if "name \<notin> fst ` set d" for f and d :: "(string, bytes) odict"
    using that by (induction d) auto
  ultimately show ?thesis using assms by (simp add: grown_def)
qed

lemma send_upload:
  assumes "waiting ident origin Up t ts" "\<forall>(path, blob) \<in> set files. clean_path path = Inr path"
    "od_ok (tr_held t @ files)" "length (tr_held t) + length files \<le> MAX_TRANSFER_FILES"
    "held_bytes (tr_held t) + held_bytes files \<le> kd_limit (tr_kind t)" "book_bytes ts + held_bytes files \<le> MAX_HELD"
    "paced (tr_touched t) nows" "length nows = length (upload_calls files)"
  shows "\<exists>t'. waiting ident origin Up t' (send_calls ident origin (upload_calls files) nows ts) \<and>
    tr_held t' = tr_held t @ files \<and> tr_kind t' = tr_kind t \<and> tr_meta t' = tr_meta t \<and>
    tr_touched t' = latest (tr_touched t) nows"
  using assms
proof (induction files arbitrary: t ts nows)
  case (Cons p files)
  obtain name blob where p: "p = (name, blob)" by (cases p)
  let ?calls = "map (\<lambda>(i, c). (name, i, c)) (enumerate 0 (pieces UP_CHUNK blob))"
  let ?k = "length (pieces UP_CHUNK blob)"
  obtain ns ms where nows: "nows = ns @ ms" "length ns = ?k" "length ms = length (upload_calls files)"
    using Cons.prems(8) by (intro that [of "take ?k nows" "drop ?k nows"]) (simp_all add: p)
  have new: "name \<notin> fst ` set (tr_held t)" using Cons.prems(3) by (auto simp: p)
  have t: "transfer_ok t" "tr_way t = Up" using Cons.prems(1) by (auto simp: waiting_def transfers_ok_def dest: od_allD)
  have r: "ready name 0 (length blob) t" using t new Cons.prems(4,5) by (intro ready_new) (simp_all add: p)
  have c: "clean_path name = Inr name" using Cons.prems(2) by (simp add: p)
  have m: "book_bytes ts + length blob \<le> MAX_HELD" using Cons.prems(6) by (simp add: p)
  have pc: "paced (tr_touched t) ns" "paced (latest (tr_touched t) ns) ms" using Cons.prems(7) by (simp_all add: nows(1) paced_append)
  from send_pieces [OF Cons.prems(1) c r m pc(1) nows(2)] obtain u where
    u: "waiting ident origin Up u (send_calls ident origin ?calls ns ts)" "grown name blob t u"
      "tr_touched u = latest (tr_touched t) ns" "book_bytes (send_calls ident origin ?calls ns ts) \<le> book_bytes ts + length blob"
    unfolding Let_def by blast
  have h: "tr_held u = tr_held t @ [(name, blob)]" "tr_kind u = tr_kind t" "tr_meta u = tr_meta t"
    using u(2) grown_new [OF u(2) new] by (simp_all add: grown_def)
  have "\<exists>t'. waiting ident origin Up t' (send_calls ident origin (upload_calls files) ms (send_calls ident origin ?calls ns ts)) \<and>
    tr_held t' = tr_held u @ files \<and> tr_kind t' = tr_kind u \<and> tr_meta t' = tr_meta u \<and> tr_touched t' = latest (tr_touched u) ms"
    using Cons.prems(2-6) pc(2) u(3,4) nows(3) by (intro Cons.IH [OF u(1)]) (simp_all add: p h)
  then show ?case using nows by (simp add: p send_calls_append h u(3) latest_append)
qed (auto simp: intro!: exI)

text \<open>
  C11: What is sent up arrives whole. After anything that went before, a console that offers a transfer, sends
  files whose names are clean and distinct in pieces of the chunk size, none of its calls later than the idle
  time after the one before, and commits, has exactly those files handed over under the kind and the
  description it offered, in the order it sent them, empty files included, as long as the node has a place
  for the transfer and the files fit the kind and the node.
\<close>
theorem upload_arrives_whole:
  assumes "ts = fold transfer_step es []"
    and "length (transfer_prune now ts) < MAX_OPEN"
    and "origin \<noteq> LOCAL \<Longrightarrow> length (remote_transfers (transfer_prune now ts)) < MAX_OPEN_REMOTE"
    and "files \<noteq> []" "od_ok files" "length files \<le> MAX_TRANSFER_FILES" "\<forall>(path, blob) \<in> set files. clean_path path = Inr path"
    and "held_bytes files \<le> kd_limit k" "book_bytes ts + held_bytes files \<le> MAX_HELD"
    and "paced now (nows @ [ended])" "length nows = length (upload_calls files)"
  shows "fst (transfer_offer k meta origin now ident ts) = Inr ident \<and>
    fst (transfer_collect ident origin ended
      (send_calls ident origin (upload_calls files) nows (snd (transfer_offer k meta origin now ident ts)))) =
        Inr (k, meta, files)"
proof -
  have ok: "transfers_ok ts" unfolding assms(1)
    using transfers.run_inv [of "[]" es] by (simp add: transfers_ok_def remote_transfers_def)
  let ?ts = "transfer_prune now ts"
  let ?new = "AList.update ident (opened k meta origin Up now) ?ts"
  have le: "book_bytes ?ts \<le> book_bytes ts" by (simp add: transfer_prune_def book_bytes_filter)
  have e: "enrol k meta origin Up now ident ?ts = Inr ?new" using assms(2,3) by (auto simp: enrol_def opened_def not_le)
  have offer: "transfer_offer k meta origin now ident ts = (Inr ident, ?new)"
    using e le assms(9) by (simp add: transfer_offer_def Let_def)
  note o = enrol_ok [OF e transfer_prune_ok(1) [OF ok]]
  have w: "waiting ident origin Up (opened k meta origin Up now) ?new" using o(1,4) by (simp add: waiting_def)
  have touched: "tr_touched (opened k meta origin Up now) = now" by (simp add: opened_def)
  have "\<exists>t'. waiting ident origin Up t' (send_calls ident origin (upload_calls files) nows ?new) \<and>
    tr_held t' = tr_held (opened k meta origin Up now) @ files \<and> tr_kind t' = tr_kind (opened k meta origin Up now) \<and>
    tr_meta t' = tr_meta (opened k meta origin Up now) \<and> tr_touched t' = latest (tr_touched (opened k meta origin Up now)) nows"
    using assms(5-11) o(3) le by (intro send_upload [OF w]) (simp_all add: touched paced_append)
  then obtain t where
    t: "waiting ident origin Up t (send_calls ident origin (upload_calls files) nows ?new)"
      "tr_held t = files" "tr_kind t = k" "tr_meta t = meta" "tr_touched t = latest now nows"
    by (auto simp: opened_def)
  have "ended - tr_touched t \<le> TRANSFER_IDLE" using assms(10) t(5) by (simp add: paced_append)
  from waiting_prune(2) [OF t(1) this] t(2-4) assms(4) show ?thesis
    by (simp add: offer transfer_collect_def Let_def)
qed

definition demo_kind :: "way \<Rightarrow> kind" where
  "demo_kind way = \<lparr> kd_name = ''app'', kd_way = way, kd_reach = Reach_govern, kd_limit = MAX_APP \<rparr>"

lemma demo_names: "clean_path ''a'' = Inr ''a''" "clean_path ''b'' = Inr ''b''"
  by (simp_all add: clean_path_def slash_def py_strip_def py_space_def Let_def join_parts_def)

theorem upload_arrives_whole_witness:
  "fst (transfer_collect ''t'' LOCAL 3
     (send_calls ''t'' LOCAL (upload_calls [(''a'', [1, 2]), (''b'', [])]) [1, 2]
       (snd (transfer_offer (demo_kind Up) JNull LOCAL 0 ''t'' [])))) =
     Inr (demo_kind Up, JNull, [(''a'', [1, 2]), (''b'', [])])"
proof -
  have none: "([] :: transfer_book) = fold transfer_step [] []" by simp
  have "length [1 :: real, 2] = length (upload_calls [(''a'', [1, 2]), (''b'', [])])"
    by (simp add: pieces.simps UP_CHUNK_def)
  from upload_arrives_whole [OF none _ _ _ _ _ _ _ _ _ this, of 0 LOCAL "demo_kind Up" 3 JNull "''t''"] show ?thesis
    by (simp add: transfer_prune_def MAX_OPEN_def MAX_TRANSFER_FILES_def demo_names demo_kind_def MAX_APP_def MAX_HELD_def
        TRANSFER_IDLE_def)
qed

section \<open>A download\<close>

fun receive :: "string \<Rightarrow> string \<Rightarrow> string \<Rightarrow> nat \<Rightarrow> real list \<Rightarrow> transfer_book \<Rightarrow> bytes option" where
  "receive ident origin path seq [] ts = None"
| "receive ident origin path seq (now # nows) ts =
     (case transfer_take ident path seq origin now ts of
        (Inl code, _) \<Rightarrow> None
      | (Inr (chunk, lst), ts) \<Rightarrow>
          (if lst then Some chunk
           else map_option (\<lambda>more. chunk @ more) (receive ident origin path (Suc seq) nows ts)))"

lemma take_next:
  assumes "waiting ident origin Down t ts" "now - tr_touched t \<le> TRANSFER_IDLE" "clean_path path = Inr name"
    "map_of (tr_held t) name = Some blob" "seq * DOWN_CHUNK \<le> length blob"
  shows "\<exists>ts'. transfer_take ident path seq origin now ts =
      (Inr (take DOWN_CHUNK (drop (seq * DOWN_CHUNK) blob), length blob \<le> seq * DOWN_CHUNK + DOWN_CHUNK), ts') \<and>
    waiting ident origin Down (t\<lparr> tr_touched := now \<rparr>) ts'"
proof -
  note p = waiting_prune [OF assms(1,2)]
  let ?ts = "AList.update ident (t\<lparr> tr_touched := now \<rparr>) (transfer_prune now ts)"
  have t: "transfer_ok t" "tr_way t = Down" "tr_origin t = origin" "transfers_ok (transfer_prune now ts)"
    using p(1) by (auto simp: waiting_def transfers_ok_def dest: od_allD)
  have "waiting ident origin Down (t\<lparr> tr_touched := now \<rparr>) ?ts"
    using t by (intro waiting_step(1) [OF p(1)]) (simp_all add: transfer_ok_def transfers_ok_def)
  moreover have "transfer_take ident path seq origin now ts =
      (Inr (take DOWN_CHUNK (drop (seq * DOWN_CHUNK) blob), length blob \<le> seq * DOWN_CHUNK + DOWN_CHUNK), ?ts)"
    using assms(3-5) p(2) by (auto simp: transfer_take_def Let_def slice_def)
  ultimately show ?thesis by blast
qed

lemma receive_rest:
  assumes "waiting ident origin Down t ts" "clean_path path = Inr name" "map_of (tr_held t) name = Some blob"
    "seq * DOWN_CHUNK \<le> length blob" "paced (tr_touched t) nows"
    "length (pieces DOWN_CHUNK (drop (seq * DOWN_CHUNK) blob)) \<le> length nows"
  shows "receive ident origin path seq nows ts = Some (drop (seq * DOWN_CHUNK) blob)"
  using assms
proof (induction nows arbitrary: t ts seq)
  case Nil
  with pieces_cons [of DOWN_CHUNK "drop (seq * DOWN_CHUNK) blob"] show ?case by auto
next
  case (Cons now nows)
  have idle: "now - tr_touched t \<le> TRANSFER_IDLE" "paced now nows" using Cons.prems(5) by simp_all
  from take_next [OF Cons.prems(1) idle(1) Cons.prems(2-4)] obtain ts' where
    n: "transfer_take ident path seq origin now ts =
      (Inr (take DOWN_CHUNK (drop (seq * DOWN_CHUNK) blob), length blob \<le> seq * DOWN_CHUNK + DOWN_CHUNK), ts')"
      "waiting ident origin Down (t\<lparr> tr_touched := now \<rparr>) ts'" by blast
  show ?case
  proof (cases "length blob \<le> seq * DOWN_CHUNK + DOWN_CHUNK")
    case True
    then show ?thesis by (simp add: n(1))
  next
    case False
    have d: "drop (Suc seq * DOWN_CHUNK) blob = drop DOWN_CHUNK (drop (seq * DOWN_CHUNK) blob)" by simp
    have "length (pieces DOWN_CHUNK (drop (seq * DOWN_CHUNK) blob)) =
        Suc (length (pieces DOWN_CHUNK (drop (Suc seq * DOWN_CHUNK) blob)))"
    proof -
      have "\<not> (DOWN_CHUNK = 0 \<or> length (drop (seq * DOWN_CHUNK) blob) \<le> DOWN_CHUNK)"
        using False unfolding DOWN_CHUNK_def length_drop by linarith
      then show ?thesis unfolding d by (subst pieces.simps) simp
    qed
    then have "receive ident origin path (Suc seq) nows ts' = Some (drop (Suc seq * DOWN_CHUNK) blob)"
      using Cons.prems(2,3,6) False idle(2) by (intro Cons.IH [OF n(2)]) simp_all
    moreover have "take DOWN_CHUNK (drop (seq * DOWN_CHUNK) blob) @ drop (Suc seq * DOWN_CHUNK) blob = drop (seq * DOWN_CHUNK) blob"
      unfolding d by (rule append_take_drop_id)
    ultimately show ?thesis using False by (simp add: n(1))
  qed
qed

lemma clean_files_clean:
  "\<forall>(path, blob) \<in> set files. clean_path path = Inr path \<Longrightarrow> od_ok (held @ files) \<Longrightarrow>
     clean_files files held = Inr (held @ files)"
proof (induction files arbitrary: held)
  case (Cons p files)
  obtain path blob where p: "p = (path, blob)" by (cases p)
  have "AList.update path blob held = held @ [(path, blob)]" using Cons.prems(2) by (intro update_absent) (auto simp: p)
  with Cons show ?case by (simp add: p abind_def)
qed simp

text \<open>
  C16: What is fetched comes down whole. After anything that went before, if fetching what a kind produced,
  under clean and distinct names, is answered with a ticket, then a console that asks for a file of it one
  piece after another from the first on, no call later than the idle time after the one before, and stops at
  the piece marked last, ends with exactly the bytes of that file after as many calls as it has pieces; and
  the sizes it was told are those of the files.
\<close>
theorem download_arrives_whole:
  assumes "ts = fold transfer_step es []"
    and "transfer_fetch k meta files origin now ident ts = (Inr (ident, sizes), ts')"
    and "od_ok files" "\<forall>(path, blob) \<in> set files. clean_path path = Inr path"
    and "(path, blob) \<in> set files" "paced now nows" "length nows = length (pieces DOWN_CHUNK blob)"
  shows "receive ident origin path 0 nows ts' = Some blob \<and> (path, length blob) \<in> set sizes"
proof -
  have ok: "transfers_ok ts \<and> length ts \<le> MAX_OPEN" unfolding assms(1)
    by (rule transfers.run_inv) (simp_all add: transfers_ok_def remote_transfers_def)
  let ?ts = "transfer_prune now ts"
  have c: "clean_files files [] = Inr files" using clean_files_clean [of files "[]"] assms(3,4) by simp
  obtain us where e: "enrol k meta origin Down now ident ?ts = Inr us"
    using assms(2) by (cases "enrol k meta origin Down now ident ?ts") (auto simp: transfer_fetch_def Let_def split: if_splits)
  have eq: "sizes = sort_key fst (map (\<lambda>(path, blob). (path, length blob)) files)"
    "ts' = AList.map_entry ident (\<lambda>t. t\<lparr> tr_held := files \<rparr>) us"
    using assms(2) by (auto simp: transfer_fetch_def Let_def e c split: if_splits)
  note o = enrol_ok(4) [OF e transfer_prune_ok(1)]
  let ?t = "opened k meta origin Down now\<lparr> tr_held := files \<rparr>"
  have m: "map_of ts' ident = Some ?t" using o ok by (simp add: eq(2) map_of_map_entry)
  have "transfers_ok ts'" using transfer_fetch_ok [of ts k meta files origin now ident] ok assms(2) by simp
  then have w: "waiting ident origin Down ?t ts'" using m by (simp add: waiting_def opened_def)
  have cp: "clean_path path = Inr path" using assms(4,5) by auto
  have f: "map_of (tr_held ?t) path = Some blob" using assms(3,5) by simp
  have q: "paced (tr_touched ?t) nows" using assms(6) by (simp add: opened_def)
  have "receive ident origin path 0 nows ts' = Some (drop (0 * DOWN_CHUNK) blob)"
    using assms(7) q by (intro receive_rest [OF w cp f]) simp_all
  then show ?thesis using assms(5) by (auto simp: eq(1) intro: rev_image_eqI)
qed

theorem download_arrives_whole_witness:
  "\<exists>sizes ts'. transfer_fetch (demo_kind Down) JNull [(''a'', [1, 2])] LOCAL 0 ''t'' [] = (Inr (''t'', sizes), ts') \<and>
     receive ''t'' LOCAL ''a'' 0 [1] ts' = Some [1, 2]"
proof -
  have none: "([] :: transfer_book) = fold transfer_step [] []" by simp
  obtain sizes ts' where f: "transfer_fetch (demo_kind Down) JNull [(''a'', [1, 2])] LOCAL 0 ''t'' [] = (Inr (''t'', sizes), ts')"
    by (simp add: transfer_fetch_def transfer_prune_def enrol_def MAX_OPEN_def demo_names demo_kind_def MAX_APP_def MAX_HELD_def
        Let_def abind_def)
  from download_arrives_whole [OF none f, of "''a''" "[1, 2]" "[1]"] f show ?thesis
    by (auto simp: demo_names pieces.simps DOWN_CHUNK_def TRANSFER_IDLE_def)
qed

end
