(* ===== verification/Retransmit.thy ===== *)
theory Retransmit
  imports Uploads
begin

text \<open>A chunk goes in once: what was stored at a position is never rewritten, whoever tries and however long after.\<close>

text \<open>The file called \<open>name\<close> of the transfer, if it is still open, has gone past chunk \<open>seq\<close>.\<close>

definition past :: "string \<Rightarrow> string \<Rightarrow> nat \<Rightarrow> transfer_book \<Rightarrow> bool" where
  "past ident name seq ts \<longleftrightarrow>
     (\<forall>t. map_of ts ident = Some t \<longrightarrow> (\<exists>n. map_of (tr_chunks t) name = Some n \<and> seq < n))"

fun opens :: "string \<Rightarrow> transfer_event \<Rightarrow> bool" where
  "opens ident (Offer k meta origin now ident') \<longleftrightarrow> ident = ident'"
| "opens ident (Fetch k meta files origin now ident') \<longleftrightarrow> ident = ident'"
| "opens ident _ \<longleftrightarrow> False"

lemma map_of_filter_Some: "od_ok d \<Longrightarrow> map_of (filter P d) k = Some v \<Longrightarrow> map_of d k = Some v"
  by (rule map_of_is_SomeI) (auto dest: map_of_SomeD)

lemma past_filter: "od_ok ts \<Longrightarrow> past ident name seq ts \<Longrightarrow> past ident name seq (filter P ts)"
  by (auto simp: past_def dest: map_of_filter_Some)

lemma past_prune: "od_ok ts \<Longrightarrow> past ident name seq ts \<Longrightarrow> past ident name seq (transfer_prune now ts)"
  by (simp add: transfer_prune_def past_filter)

lemma past_delete: "od_ok ts \<Longrightarrow> past ident name seq ts \<Longrightarrow> past ident name seq (AList.delete ident' ts)"
  by (simp add: AList.delete_eq past_filter)

lemma past_update:
  "past ident name seq ts \<Longrightarrow> (ident' = ident \<Longrightarrow> \<exists>n. map_of (tr_chunks t) name = Some n \<and> seq < n) \<Longrightarrow>
     past ident name seq (AList.update ident' t ts)"
  by (auto simp: past_def update_conv')

lemma past_begin_file:
  assumes "transfer_ok t" "tr_way t = Up" "map_of (tr_chunks t) name = Some n"
  shows "map_of (tr_chunks (begin_file name' t)) name = Some n"
proof -
  have k: "od_keys (tr_chunks t) = od_keys (tr_held t)" using assms(1,2) by (simp add: transfer_ok_def)
  have "name \<in> set (od_keys (tr_chunks t))" using assms(3) by (auto dest: map_of_mem)
  then have "map_of (tr_held t) name \<noteq> None" unfolding k by (auto simp: map_of_eq_None_iff)
  with assms(3) show ?thesis by (auto simp: begin_file_def update_conv')
qed

lemma past_put:
  assumes "transfers_ok ts" "past ident name seq ts"
  shows "past ident name seq (snd (transfer_put ident' path i chunk origin now ts))"
proof -
  have ok: "od_ok ts" using assms(1) by (simp add: transfers_ok_def)
  note p = past_prune [OF ok assms(2), of now]
  have b: "\<exists>n. map_of (tr_chunks (begin_file name' t)) name = Some n \<and> seq < n"
    if "open_entry ident' origin Up (transfer_prune now ts) = Some t" "ident' = ident" for name' t
  proof -
    have t: "map_of (transfer_prune now ts) ident = Some t" "tr_way t = Up" using that by (simp_all add: open_entry_Some)
    then have "transfer_ok t" using transfer_prune_ok(1) [OF assms(1), of now] by (auto simp: transfers_ok_def dest: od_allD)
    with t p show ?thesis by (auto simp: past_def intro: past_begin_file)
  qed
  show ?thesis
  proof (cases rule: transfer_put_cases [of ident' path i chunk origin now ts])
    case (refused code name' t)
    show ?thesis unfolding refused(1) snd_conv by (rule past_update [OF p]) (rule b [OF refused(2)])
  next
    case (stored name' t)
    have "\<exists>n. map_of (tr_chunks (append_chunk name' chunk now (begin_file name' t))) name = Some n \<and> seq < n"
      if "ident' = ident"
      using b [OF stored(2) that, of name'] by (auto simp: append_chunk_def map_of_map_entry)
    note a = this
    show ?thesis unfolding stored(1) snd_conv
      by (rule past_update [OF past_update [OF p b [OF stored(2)]] a])
  qed (simp_all add: assms(2) p)
qed

lemma past_step:
  assumes "transfers_ok ts" "past ident name seq ts" "\<not> opens ident e"
  shows "past ident name seq (transfer_step e ts)"
proof -
  have ok: "od_ok ts" using assms(1) by (simp add: transfers_ok_def)
  note p = past_prune [OF ok assms(2)]
  have d: "past ident name seq (AList.delete ident' (transfer_prune now ts))" for ident' now
    by (rule past_delete [OF _ p]) (simp add: transfer_prune_def ok)
  show ?thesis
  proof (cases e)
    case (Offer k meta origin now ident')
    with assms(3) p show ?thesis
      by (auto simp: transfer_offer_def Let_def past_update dest!: enrol_Inr(1) split: sum.split)
  next
    case (Fetch k meta files origin now ident')
    have "past ident name seq (AList.map_entry ident' f us)" if "past ident name seq us" for f us
      using that assms(3) by (simp add: past_def map_of_map_entry Fetch)
    with assms(3) p show ?thesis
      by (auto simp: Fetch transfer_fetch_def Let_def past_update dest!: enrol_Inr(1) split: sum.split)
  next
    case (Put ident' path i chunk origin now)
    with past_put [OF assms(1,2)] show ?thesis by simp
  next
    case (Take ident' path i origin now)
    have "past ident name seq (AList.update ident' (t\<lparr> tr_touched := now \<rparr>) (transfer_prune now ts))"
      if "map_of (transfer_prune now ts) ident' = Some t" for t
      using p [of now] that by (intro past_update) (auto simp: past_def)
    with assms(2) p show ?thesis
      by (simp add: Take transfer_take_def Let_def open_entry_Some split: sum.split option.split)
  next
    case (Collect ident' origin now)
    with transfer_collect_book [of ident' origin now ts] p d show ?thesis by auto
  next
    case (Drop_transfer ident' origin)
    with transfer_drop_book [of ident' origin ts] assms(2) past_delete [OF ok assms(2)] show ?thesis by auto
  qed
qed

lemma past_run:
  assumes "transfers_ok ts" "length ts \<le> MAX_OPEN" "past ident name seq ts" "\<forall>e \<in> set es. \<not> opens ident e"
  shows "past ident name seq (fold transfer_step es ts)"
  using assms
proof (induction es arbitrary: ts)
  case (Cons e es)
  have "\<not> opens ident e" using Cons.prems(4) by simp
  note s = past_step [OF Cons.prems(1,3) this]
  from Cons transfer_step_ok [OF Cons.prems(1,2), of e] s show ?case by simp
qed simp

lemma past_refuses:
  assumes "transfers_ok ts" "past ident name seq ts" "clean_path path = Inr name"
  shows "\<exists>code. fst (transfer_put ident path seq chunk origin now ts) = Inl code"
proof (cases rule: transfer_put_cases [of ident path seq chunk origin now ts])
  case (stored name' t)
  have t: "map_of (transfer_prune now ts) ident = Some t" "tr_way t = Up" using stored(2) by (simp_all add: open_entry_Some)
  then have tok: "transfer_ok t" using transfer_prune_ok(1) [OF assms(1), of now] by (auto simp: transfers_ok_def dest: od_allD)
  have "od_ok ts" using assms(1) by (simp add: transfers_ok_def)
  from past_prune [OF this assms(2), of now] t(1) obtain n where "map_of (tr_chunks t) name = Some n" "seq < n"
    by (auto simp: past_def)
  with past_begin_file [OF tok t(2)] stored(3,6) assms(3) show ?thesis by auto
qed simp_all

lemma put_moves_past:
  assumes "transfer_put ident path seq chunk origin now ts = (Inr a, ts')" "clean_path path = Inr name"
  shows "past ident name seq ts'"
proof (cases rule: transfer_put_cases [of ident path seq chunk origin now ts])
  case (stored name' t)
  then show ?thesis using assms by (auto simp: past_def update_conv' append_chunk_def map_of_map_entry)
qed (use assms in auto)

text \<open>
  C15: A chunk goes in once. Once a chunk of a file was stored in a transfer, no later call for the same
  position of that file, under any spelling of its name, with any bytes, from anybody, stores anything again:
  whatever happens to the book in between, as long as the ticket is not drawn a second time.
\<close>
theorem chunk_never_rewritten:
  assumes "ts = fold transfer_step es []" "transfer_put ident path seq chunk origin now ts = (Inr a, ts')"
    and "\<forall>e \<in> set es'. \<not> opens ident e" "clean_path path' = clean_path path"
  shows "\<exists>code. fst (transfer_put ident path' seq chunk' origin' now' (fold transfer_step es' ts')) = Inl code"
proof -
  obtain name where name: "clean_path path = Inr name"
    using assms(2) by (cases "clean_path path") (auto simp: transfer_put_def)
  have ok: "transfers_ok ts \<and> length ts \<le> MAX_OPEN" unfolding assms(1)
    by (rule transfers.run_inv) (simp_all add: transfers_ok_def remote_transfers_def)
  then have ok': "transfers_ok ts' \<and> length ts' \<le> MAX_OPEN"
    using transfer_put_ok [of ts ident path seq chunk origin now] assms(2) by simp
  from past_run [OF _ _ put_moves_past [OF assms(2) name] assms(3)] ok'
  have p: "past ident name seq (fold transfer_step es' ts')" by blast
  from transfers.run_inv [of ts' es'] ok' have "transfers_ok (fold transfer_step es' ts')" by blast
  from past_refuses [OF this p] assms(4) name show ?thesis by simp
qed

theorem chunk_never_rewritten_witness:
  "\<exists>a ts' code. transfer_put ''t'' ''a'' 0 [1] LOCAL 1 (fold transfer_step [Offer (demo_kind Up) JNull LOCAL 0 ''t''] []) =
       (Inr a, ts') \<and>
     fst (transfer_put ''t'' ''a'' 0 [2] LOCAL 2 (fold transfer_step [Put ''t'' ''b'' 0 [] LOCAL 1] ts')) = Inl code"
proof -
  obtain a ts' where p: "transfer_put ''t'' ''a'' 0 [1] LOCAL 1
      (fold transfer_step [Offer (demo_kind Up) JNull LOCAL 0 ''t''] []) = (Inr a, ts')"
    by (simp add: transfer_put_def transfer_offer_def transfer_prune_def enrol_def open_entry_def begin_file_def append_chunk_def
        MAX_OPEN_def MAX_TRANSFER_FILES_def UP_CHUNK_def TRANSFER_IDLE_def demo_names demo_kind_def MAX_APP_def MAX_HELD_def Let_def)
  have "\<forall>e \<in> set [Put ''t'' ''b'' 0 [] LOCAL 1]. \<not> opens ''t'' e" by simp
  from chunk_never_rewritten [OF refl p this refl, of "[2]" LOCAL 2] p show ?thesis by blast
qed

section \<open>What a refusal leaves\<close>

text \<open>A chunk refused for its number still leaves the file it named, empty, and a commit hands that over.\<close>

lemma refused_chunk_leaves_file:
  "fst (transfer_collect ''t'' LOCAL 2
     (snd (transfer_put ''t'' ''a'' 5 [1] LOCAL 1 (snd (transfer_offer (demo_kind Up) JNull LOCAL 0 ''t'' []))))) =
   Inr (demo_kind Up, JNull, [(''a'', [])])"
  by (simp add: transfer_put_def transfer_offer_def transfer_collect_def transfer_prune_def enrol_def open_entry_def
      begin_file_def MAX_OPEN_def MAX_TRANSFER_FILES_def TRANSFER_IDLE_def demo_names demo_kind_def MAX_HELD_def Let_def)

text \<open>A fetch refused for a name of what the kind produced has enrolled a transfer nobody knows the ticket of.\<close>

lemma refused_fetch_stays_open:
  "transfer_fetch (demo_kind Down) JNull [(''..'', [])] LOCAL 0 ''t'' [] =
     (Inl Bad_request, [(''t'', opened (demo_kind Down) JNull LOCAL Down 0)])"
  by (simp add: transfer_fetch_def transfer_prune_def enrol_def opened_def MAX_OPEN_def demo_kind_def MAX_HELD_def Let_def
      clean_path_def slash_def py_strip_def py_space_def abind_def)

end
