(* ===== verification/Content.thy ===== *)
theory Content
  imports Packet
begin

text \<open>
  The content-addressed store of the DHT (\<open>src/dht.py\<close>, \<open>content_key\<close> of \<open>src/app_package.py\<close>): values
  other nodes ask this one to hold, each under its own hash, the least recently used pushed out first.
  The two bounds are the operator's and are naturals.
\<close>

definition KEY_LEN :: nat where "KEY_LEN = 20"
definition MAX_VALUE_LEN :: nat where "MAX_VALUE_LEN = 60000"
definition MAX_CONTENT_ENTRIES :: nat where "MAX_CONTENT_ENTRIES = 8192"
definition MAX_CONTENT_BYTES :: nat where "MAX_CONTENT_BYTES = 32 * 1024 * 1024"

definition content_key :: "hash_env \<Rightarrow> bytes \<Rightarrow> bytes" where
  "content_key h data = take KEY_LEN (h_sha256 h data)"

record content_store =
  ct_held :: "(bytes, bytes) odict"
  ct_bytes :: nat
  ct_max_entries :: nat
  ct_max_bytes :: nat

definition new_content_store :: "nat \<Rightarrow> nat \<Rightarrow> content_store" where
  "new_content_store max_entries max_bytes =
     \<lparr> ct_held = [], ct_bytes = 0, ct_max_entries = max_entries, ct_max_bytes = max_bytes \<rparr>"

fun evict_content :: "nat \<Rightarrow> nat \<Rightarrow> (bytes, bytes) odict \<Rightarrow> nat \<Rightarrow> (bytes, bytes) odict \<times> nat" where
  "evict_content max_entries max_bytes [] used = ([], used)"
| "evict_content max_entries max_bytes ((k, v) # d) used =
     (if max_entries < length ((k, v) # d) \<or> max_bytes < used
      then evict_content max_entries max_bytes d (used - length v)
      else ((k, v) # d, used))"

definition content_put :: "hash_env \<Rightarrow> bytes \<Rightarrow> bytes \<Rightarrow> content_store \<Rightarrow> bool \<times> content_store" where
  "content_put h key value s =
     (if length key \<noteq> KEY_LEN \<or> MAX_VALUE_LEN < length value then (False, s)
      else if content_key h value \<noteq> key then (False, s)
      else if key \<in> set (od_keys (ct_held s)) then (True, s\<lparr> ct_held := od_to_end key (ct_held s) \<rparr>)
      else
        (let (d, used) = evict_content (ct_max_entries s) (ct_max_bytes s) (ct_held s @ [(key, value)]) (ct_bytes s + length value)
         in (True, s\<lparr> ct_held := d, ct_bytes := used \<rparr>)))"

definition content_get :: "bytes \<Rightarrow> content_store \<Rightarrow> bytes option \<times> content_store" where
  "content_get key s = (map_of (ct_held s) key, s\<lparr> ct_held := od_to_end key (ct_held s) \<rparr>)"

definition content_contains :: "bytes \<Rightarrow> content_store \<Rightarrow> bool" where
  "content_contains key s \<longleftrightarrow> key \<in> set (od_keys (ct_held s))"

definition content_len :: "content_store \<Rightarrow> nat" where
  "content_len s = length (ct_held s)"

section \<open>The invariant\<close>

definition bytes_of :: "(bytes, bytes) odict \<Rightarrow> nat" where
  "bytes_of d = sum_list (map (\<lambda>(_, v). length v) d)"

lemma bytes_of_simps [simp]: "bytes_of [] = 0" "bytes_of (p # d) = length (snd p) + bytes_of d"
  "bytes_of (d @ d') = bytes_of d + bytes_of d'"
  by (simp_all add: bytes_of_def case_prod_unfold)

definition addressed :: "hash_env \<Rightarrow> bytes \<Rightarrow> bytes \<Rightarrow> bool" where
  "addressed h k v \<longleftrightarrow> content_key h v = k \<and> length k = KEY_LEN \<and> length v \<le> MAX_VALUE_LEN"

definition content_ok :: "hash_env \<Rightarrow> content_store \<Rightarrow> bool" where
  "content_ok h s \<longleftrightarrow>
     od_ok (ct_held s) \<and> od_all (addressed h) (ct_held s) \<and> ct_bytes s = bytes_of (ct_held s) \<and>
     length (ct_held s) \<le> ct_max_entries s \<and> ct_bytes s \<le> ct_max_bytes s"

lemma evict_content_drop:
  assumes "evict_content m b d (bytes_of d) = (d', used)"
  shows "\<exists>n. d' = drop n d \<and> used = bytes_of d' \<and> length d' \<le> m \<and> used \<le> b"
  using assms
proof (induction d)
  case (Cons p d)
  obtain k v where p: "p = (k, v)" by (cases p)
  show ?case
  proof (cases "m < length (p # d) \<or> b < bytes_of (p # d)")
    case True
    then have "evict_content m b d (bytes_of d) = (d', used)" using Cons.prems by (simp add: p)
    from Cons.IH [OF this] obtain n where "d' = drop (Suc n) (p # d) \<and> used = bytes_of d' \<and> length d' \<le> m \<and> used \<le> b"
      by auto
    then show ?thesis by blast
  next
    case False
    then have "d' = p # d" "used = bytes_of (p # d)" using Cons.prems by (auto simp: p)
    with False show ?thesis by (intro exI [of _ 0]) simp
  qed
qed simp

lemma bytes_of_to_end: "od_ok d \<Longrightarrow> bytes_of (od_to_end k d) = bytes_of d"
proof (cases "map_of d k")
  case (Some v)
  assume "od_ok d"
  then have "bytes_of (AList.delete k d) + length v = bytes_of d"
    using Some by (induction d) (auto simp: delete_absent rev_image_eqI split: if_splits)
  then show ?thesis by (simp add: od_to_end_def Some)
qed (simp add: od_to_end_def)

lemma content_put_ok:
  assumes "content_ok h s"
  shows "content_ok h (snd (content_put h key value s))"
proof (cases "length key \<noteq> KEY_LEN \<or> MAX_VALUE_LEN < length value \<or> content_key h value \<noteq> key")
  case True
  with assms show ?thesis by (auto simp: content_put_def)
next
  case fits: False
  show ?thesis
  proof (cases "key \<in> set (od_keys (ct_held s))")
    case True
    with fits assms show ?thesis by (simp add: content_put_def content_ok_def bytes_of_to_end od_all_to_end)
  next
    case False
    let ?d = "ct_held s @ [(key, value)]"
    obtain d used where e: "evict_content (ct_max_entries s) (ct_max_bytes s) ?d (bytes_of ?d) = (d, used)" by (meson surj_pair)
    from evict_content_drop [OF e] obtain n where
      n: "d = drop n ?d" "used = bytes_of d" "length d \<le> ct_max_entries s" "used \<le> ct_max_bytes s" by blast
    have "od_ok ?d" using assms False by (auto simp: content_ok_def)
    then have "od_ok d" unfolding n(1) by (simp only: drop_map [symmetric] distinct_drop)
    moreover have "od_all (addressed h) ?d" using assms fits by (auto simp: content_ok_def addressed_def)
    then have "od_all (addressed h) d" unfolding n(1) od_all_def by (blast dest: in_set_dropD)
    ultimately have "content_ok h (s\<lparr> ct_held := d, ct_bytes := used \<rparr>)" using n by (simp add: content_ok_def)
    moreover have "snd (content_put h key value s) = s\<lparr> ct_held := d, ct_bytes := used \<rparr>"
      using fits False e assms by (simp add: content_put_def content_ok_def)
    ultimately show ?thesis by simp
  qed
qed

lemma content_get_ok: "content_ok h s \<Longrightarrow> content_ok h (snd (content_get key s))"
  by (simp add: content_get_def content_ok_def bytes_of_to_end od_all_to_end)

datatype content_op = Content_put bytes bytes | Content_get bytes

fun content_step :: "hash_env \<Rightarrow> content_op \<Rightarrow> content_store \<Rightarrow> content_store" where
  "content_step h (Content_put k v) s = snd (content_put h k v s)"
| "content_step h (Content_get k) s = snd (content_get k s)"

lemma content_step_bounds: "ct_max_entries (content_step h op s) = ct_max_entries s"
  "ct_max_bytes (content_step h op s) = ct_max_bytes s"
  by (cases op; simp add: content_put_def content_get_def Let_def case_prod_unfold)+

interpretation content_entries: bounded_book "\<lambda>s. length (ct_held s)" ct_max_entries "content_step h" "content_ok h" for h
proof
  fix s e
  assume "content_ok h s"
  then have "content_ok h (content_step h e s)" by (cases e) (simp_all add: content_put_ok content_get_ok)
  then show "content_ok h (content_step h e s)" and "length (ct_held (content_step h e s)) \<le> ct_max_entries s"
    using content_step_bounds [of h e s] by (simp_all add: content_ok_def)
qed (rule content_step_bounds)

lemma evict_content_newest:
  assumes "0 < m" "length v \<le> b"
  shows "\<exists>pre. fst (evict_content m b (d @ [(k, v)]) (bytes_of (d @ [(k, v)]))) = pre @ [(k, v)]"
proof (induction d)
  case (Cons p d)
  obtain k' v' where "p = (k', v')" by (cases p)
  with Cons show ?case by auto
qed (use assms in auto)

text \<open>
  C39: What the store answers is what was asked for. After any sequence of values offered and asked for by
  anybody, what is held under a key hashes to that key, the store holds no more entries and no more bytes
  than it was given, and a value that was just taken in is answered, if it fits the store at all.
\<close>
theorem content_is_addressed:
  assumes s_def: "s = fold (content_step h) es (new_content_store m b)"
  shows "(\<forall>k v. fst (content_get k s) = Some v \<longrightarrow> content_key h v = k) \<and>
    length (ct_held s) \<le> m \<and> bytes_of (ct_held s) \<le> b \<and>
    (fst (content_put h k v s) \<and> 0 < m \<and> length v \<le> b \<longrightarrow>
       (\<exists>u. fst (content_get k (snd (content_put h k v s))) = Some u \<and> content_key h u = k))"
proof -
  have "content_ok h (new_content_store m b)" by (simp add: content_ok_def new_content_store_def)
  then have ok: "content_ok h s" unfolding s_def using content_entries.run_inv [of h "new_content_store m b" es]
    by (simp add: new_content_store_def)
  have same: "ct_max_entries s = m \<and> ct_max_bytes s = b" unfolding s_def
  proof (induction es rule: rev_induct)
    case Nil
    show ?case by (simp add: new_content_store_def)
  next
    case (snoc e es)
    then show ?case by (simp add: content_step_bounds)
  qed
  have sound: "content_key h v = k" if "content_ok h s'" "map_of (ct_held s') k = Some v" for s' k v
    using that by (auto simp: content_ok_def addressed_def dest: od_allD)
  have "\<exists>u. map_of (ct_held (snd (content_put h k v s))) k = Some u"
    if p: "fst (content_put h k v s)" "0 < m" "length v \<le> b"
  proof (cases "k \<in> set (od_keys (ct_held s))")
    case True
    moreover have "ct_held (snd (content_put h k v s)) = od_to_end k (ct_held s)"
      using p(1) True by (auto simp: content_put_def split: if_splits)
    ultimately show ?thesis by (metis map_of_to_end list.set_map map_of_eq_None_iff not_None_eq)
  next
    case False
    let ?d = "ct_held s @ [(k, v)]"
    obtain d used where e: "evict_content m b ?d (bytes_of ?d) = (d, used)" by (meson surj_pair)
    obtain pre where "d = pre @ [(k, v)]" using evict_content_newest [OF p(2,3)] e by (metis fst_conv)
    moreover have "od_ok d" using content_put_ok [OF ok, of k v] False p(1) e same ok
      by (auto simp: content_put_def content_ok_def split: if_splits)
    ultimately have "map_of d k = Some v" by (intro map_of_is_SomeI) simp_all
    moreover have "ct_held (snd (content_put h k v s)) = d"
      using p(1) False e same ok by (auto simp: content_put_def content_ok_def split: if_splits)
    ultimately show ?thesis by simp
  qed
  then have new: "\<exists>u. fst (content_get k (snd (content_put h k v s))) = Some u \<and> content_key h u = k"
    if "fst (content_put h k v s)" "0 < m" "length v \<le> b"
    using that sound [OF content_put_ok [OF ok]] by (fastforce simp: content_get_def)
  have "length (ct_held s) \<le> m" "bytes_of (ct_held s) \<le> b" using ok same by (auto simp: content_ok_def)
  with sound [OF ok] new show ?thesis by (simp add: content_get_def)
qed

definition padded_hash :: hash_env where
  "padded_hash = \<lparr> h_sha256 = (\<lambda>m. take 32 (m @ replicate 32 0)), h_blake2b = (\<lambda>n _ _. replicate n 0) \<rparr>"

theorem content_is_addressed_witness:
  "fst (content_put padded_hash (7 # replicate 19 0) [7] (new_content_store 2 10)) \<and>
     (\<exists>u. fst (content_get (7 # replicate 19 0)
        (snd (content_put padded_hash (7 # replicate 19 0) [7] (new_content_store 2 10)))) = Some u \<and>
      content_key padded_hash u = 7 # replicate 19 0)"
proof -
  have taken: "fst (content_put padded_hash (7 # replicate 19 0) [7] (new_content_store 2 10))"
  proof -
    have "content_key padded_hash [7] = 7 # replicate 19 0" by (simp add: padded_hash_def content_key_def KEY_LEN_def)
    then show ?thesis by (simp add: content_put_def KEY_LEN_def MAX_VALUE_LEN_def new_content_store_def split: prod.split)
  qed
  have "new_content_store 2 10 = fold (content_step padded_hash) [] (new_content_store 2 10)" by simp
  from content_is_addressed [OF this, of "7 # replicate 19 0" "[7]"] taken show ?thesis by simp
qed

end
