(* ===== verification/Version.thy ===== *)
theory Version
  imports Params "HOL-Library.List_Lexorder" "HOL-Library.Char_ord"
begin

text \<open>
  Version numbers (\<open>src/version.py\<close>): what a version text means and when one is newer than another.
  Texts are of characters below 256, where the digits are \<open>0\<close> to \<open>9\<close>; a number of more than 4300 digits
  makes \<open>int\<close> raise.
\<close>

type_synonym version_key = "nat \<times> nat \<times> nat \<times> string"

definition version_number :: "string \<Rightarrow> nat option" where
  "version_number ds = (if 4300 < length ds then None else Some (foldl (\<lambda>n d. n * 10 + digit_val d) 0 ds))"

text \<open>An optional group \<open>(?:\.(\d+))?\<close>: the digits and what follows.\<close>

definition dotted_group :: "string \<Rightarrow> string \<times> string" where
  "dotted_group r =
     (case r of
        [] \<Rightarrow> ([], [])
      | c # cs \<Rightarrow> if c = CHR ''.'' \<and> takeWhile is_digit cs \<noteq> [] then (takeWhile is_digit cs, dropWhile is_digit cs) else ([], r))"

definition version_parse :: "string \<Rightarrow> version_key option" where
  "version_parse text =
     (let s = py_strip text;
          s = (case s of [] \<Rightarrow> [] | c # cs \<Rightarrow> if c = CHR ''v'' then cs else s);
          major = takeWhile is_digit s;
          (minor, r) = dotted_group (dropWhile is_digit s);
          (patch, suffix) = dotted_group r
      in if major = [] \<or> CHR 0x0A \<in> set suffix then None
         else case (version_number major, version_number minor, version_number patch) of
           (Some a, Some b, Some c) \<Rightarrow> Some (a, b, c, suffix)
         | _ \<Rightarrow> None)"

definition numbers_above :: "version_key \<Rightarrow> version_key \<Rightarrow> bool" where
  "numbers_above l r =
     (case (l, r) of ((a, b, c, _), (a', b', c', _)) \<Rightarrow> a' < a \<or> a' = a \<and> (b' < b \<or> b' = b \<and> c' < c))"

definition same_numbers :: "version_key \<Rightarrow> version_key \<Rightarrow> bool" where
  "same_numbers l r = (case (l, r) of ((a, b, c, _), (a', b', c', _)) \<Rightarrow> a = a' \<and> b = b' \<and> c = c')"

definition suffix_of :: "version_key \<Rightarrow> string" where
  "suffix_of k = (case k of (_, _, _, s) \<Rightarrow> s)"

definition key_newer :: "version_key \<Rightarrow> version_key \<Rightarrow> bool" where
  "key_newer l r =
     (if \<not> same_numbers l r then numbers_above l r
      else if suffix_of l = suffix_of r then False
      else if suffix_of l = [] then True
      else if suffix_of r = [] then False
      else suffix_of r < suffix_of l)"

definition is_newer :: "string \<Rightarrow> string \<Rightarrow> bool" where
  "is_newer candidate current =
     (case (version_parse candidate, version_parse current) of (Some l, Some r) \<Rightarrow> key_newer l r | _ \<Rightarrow> False)"

definition suffix_newer :: "string \<Rightarrow> string \<Rightarrow> bool" where
  "suffix_newer s t \<longleftrightarrow> s \<noteq> t \<and> (s = [] \<or> t \<noteq> [] \<and> t < s)"

lemma suffix_newer_trans: "suffix_newer s t \<Longrightarrow> suffix_newer t u \<Longrightarrow> suffix_newer s u"
  by (auto simp: suffix_newer_def)

lemma suffix_newer_total: "s = t \<or> suffix_newer s t \<or> suffix_newer t s"
  by (auto simp: suffix_newer_def)

lemma key_newer_lex: "key_newer (a, b, c, s) (a', b', c', s') \<longleftrightarrow>
    a' < a \<or> a' = a \<and> (b' < b \<or> b' = b \<and> (c' < c \<or> c' = c \<and> suffix_newer s s'))"
  by (auto simp: key_newer_def same_numbers_def numbers_above_def suffix_of_def suffix_newer_def)

lemma lex_trans:
  "(a' :: nat) < a \<or> a' = a \<and> P \<Longrightarrow> a'' < a' \<or> a'' = a' \<and> Q \<Longrightarrow> (P \<Longrightarrow> Q \<Longrightarrow> R) \<Longrightarrow> a'' < a \<or> a'' = a \<and> R"
  by auto

lemma key_newer_irrefl: "\<not> key_newer k k"
  by (cases k) (simp add: key_newer_lex suffix_newer_def)

lemma key_newer_trans: "key_newer k l \<Longrightarrow> key_newer l m \<Longrightarrow> key_newer k m"
  by (cases k; cases l; cases m) (simp only: key_newer_lex, (erule (1) lex_trans)+, erule (1) suffix_newer_trans)

lemma key_newer_total: "k = l \<or> key_newer k l \<or> key_newer l k"
  by (cases k; cases l) (use suffix_newer_total in \<open>auto simp only: key_newer_lex prod.inject linorder_neq_iff\<close>)

lemma is_newer_irrefl: "\<not> is_newer v v"
  by (simp add: is_newer_def key_newer_irrefl split: option.split)

lemma is_newer_trans: "is_newer a b \<Longrightarrow> is_newer b c \<Longrightarrow> is_newer a c"
  by (auto simp: is_newer_def split: option.splits dest: key_newer_trans)

lemma is_newer_parsed: "is_newer a b \<Longrightarrow> version_parse a \<noteq> None \<and> version_parse b \<noteq> None"
  by (auto simp: is_newer_def split: option.splits)

text \<open>
  Being newer is a strict order on version texts, under which any two texts that read as a version are
  comparable unless they read as the same one, and nothing unreadable is newer or older than anything.
\<close>
theorem newer_is_strict_order:
  "\<not> is_newer v v \<and> (is_newer a b \<and> is_newer b c \<longrightarrow> is_newer a c) \<and>
     (is_newer a b \<or> is_newer b a \<longleftrightarrow> version_parse a \<noteq> None \<and> version_parse b \<noteq> None \<and> version_parse a \<noteq> version_parse b)"
proof -
  have "is_newer a b \<or> is_newer b a \<longleftrightarrow> version_parse a \<noteq> None \<and> version_parse b \<noteq> None \<and> version_parse a \<noteq> version_parse b"
    using key_newer_total [of "the (version_parse a)" "the (version_parse b)"] key_newer_irrefl
    by (cases "version_parse a"; cases "version_parse b") (auto simp: is_newer_def)
  then show ?thesis by (blast intro: is_newer_trans dest: is_newer_irrefl [THEN notE])
qed

theorem newer_is_strict_order_witness:
  "is_newer ''1.10.0'' ''1.9'' \<and> is_newer ''1.9'' ''1.9-rc2'' \<and> is_newer ''1.10.0'' ''1.9-rc2''"
proof -
  have "is_newer ''1.10.0'' ''1.9''" "is_newer ''1.9'' ''1.9-rc2''" by code_simp+
  with newer_is_strict_order [of _ "''1.10.0''" "''1.9''" "''1.9-rc2''"] show ?thesis by blast
qed

end
