(* ===== verification/Names.thy ===== *)
theory Names
  imports Utf8 "HOL-Library.Sublist"
begin

text \<open>
  Pseudos (\<open>src/pseudo.py\<close>): the one accepted form of a name, the key it is searched under, and the terms
  it is filed under. A text is the list of its code points.

  The tables of the Unicode standard are the record \<open>unicode\<close>: normalisation to NFC and NFD, case
  folding, the general category of a character and whether it is white space.
\<close>

record unicode =
  uc_nfc :: "pystr \<Rightarrow> pystr"
  uc_nfd :: "pystr \<Rightarrow> pystr"
  uc_casefold :: "pystr \<Rightarrow> pystr"
  uc_category :: "nat \<Rightarrow> string"
  uc_space :: "nat \<Rightarrow> bool"

definition MAX_PSEUDO :: nat where "MAX_PSEUDO = 50"
definition FORBIDDEN_CATEGORIES :: "string list" where "FORBIDDEN_CATEGORIES = [''Cc'', ''Cf'', ''Cs'', ''Co'', ''Cn'']"
definition SEPARATOR_CATEGORIES :: "string list" where "SEPARATOR_CATEGORIES = [''Zl'', ''Zp'', ''Zs'']"
definition SPACE :: nat where "SPACE = 32"

section \<open>The accepted form\<close>

text \<open>The loop of \<open>canonical\<close>; \<open>out\<close> is what it has let through.\<close>

fun scan_name :: "unicode \<Rightarrow> pystr \<Rightarrow> pystr \<Rightarrow> pystr result" where
  "scan_name u [] out = Inr out"
| "scan_name u (ch # cs) out =
     (let category = uc_category u ch in
      if category \<in> set FORBIDDEN_CATEGORIES then Inl ValueError
      else if category \<in> set SEPARATOR_CATEGORIES \<and> ch \<noteq> SPACE then Inl ValueError
      else if category \<in> set SEPARATOR_CATEGORIES \<and> out \<noteq> [] \<and> last out = SPACE then scan_name u cs out
      else scan_name u cs (out @ [ch]))"

definition strip_spaces :: "pystr \<Rightarrow> pystr" where
  "strip_spaces s = rev (dropWhile (\<lambda>c. c = SPACE) (rev (dropWhile (\<lambda>c. c = SPACE) s)))"

definition canonical_name :: "unicode \<Rightarrow> pystr \<Rightarrow> pystr result" where
  "canonical_name u text =
     rbind (scan_name u (uc_nfc u text) []) (\<lambda>out.
       let pseudo = strip_spaces out in
       if pseudo = [] then Inl ValueError
       else if MAX_PSEUDO < length pseudo then Inl ValueError
       else Inr pseudo)"

definition is_canonical :: "unicode \<Rightarrow> pystr \<Rightarrow> bool" where
  "is_canonical u text \<longleftrightarrow> canonical_name u text = Inr text"

section \<open>The search key\<close>

text \<open>\<open>str.split()\<close> and \<open>str.split(" ")\<close>.\<close>

fun words_by :: "(nat \<Rightarrow> bool) \<Rightarrow> pystr \<Rightarrow> pystr \<Rightarrow> pystr list" where
  "words_by P [] w = (if w = [] then [] else [w])"
| "words_by P (c # cs) w = (if P c then (if w = [] then [] else [w]) @ words_by P cs [] else words_by P cs (w @ [c]))"

fun split_spaces :: "pystr \<Rightarrow> pystr list" where
  "split_spaces [] = [[]]"
| "split_spaces (c # cs) =
     (if c = SPACE then [] # split_spaces cs else (c # hd (split_spaces cs)) # tl (split_spaces cs))"

definition join_spaces :: "pystr list \<Rightarrow> pystr" where
  "join_spaces ws = (case ws of [] \<Rightarrow> [] | w # ws \<Rightarrow> w @ concat (map (\<lambda>v. SPACE # v) ws))"

definition fold_canonical :: "unicode \<Rightarrow> pystr \<Rightarrow> pystr" where
  "fold_canonical u pseudo =
     uc_nfc u (filter (\<lambda>ch. uc_category u ch \<noteq> ''Mn'') (uc_nfd u (uc_casefold u pseudo)))"

definition fold_name :: "unicode \<Rightarrow> pystr \<Rightarrow> pystr" where
  "fold_name u text =
     (case canonical_name u text of
        Inr pseudo \<Rightarrow> fold_canonical u pseudo
      | Inl _ \<Rightarrow>
          (let pseudo = take MAX_PSEUDO (join_spaces (words_by (uc_space u) (uc_nfc u text) [])) in
           if pseudo = [] then [] else fold_canonical u pseudo))"

section \<open>Ranking and filing\<close>

datatype match = EXACT | PREFIX | WORD | CONTAINS

definition rank_folded :: "pystr \<Rightarrow> pystr \<Rightarrow> match option" where
  "rank_folded q p =
     (if q = [] \<or> p = [] then None
      else if q = p then Some EXACT
      else if prefix q p then Some PREFIX
      else if \<exists>w \<in> set (split_spaces p). prefix q w then Some WORD
      else if sublist q p then Some CONTAINS
      else None)"

definition name_rank :: "unicode \<Rightarrow> pystr \<Rightarrow> pystr \<Rightarrow> match option" where
  "name_rank u query pseudo = rank_folded (fold_name u query) (fold_name u pseudo)"

definition MAX_INDEX_TERMS :: nat where "MAX_INDEX_TERMS = 24"
definition MAX_TERM :: nat where "MAX_TERM = 12"
definition MIN_TERM :: nat where "MIN_TERM = 2"

text \<open>The keys of a dictionary filled by \<open>setdefault\<close>: the first occurrence of each.\<close>

definition first_of_each :: "'a list \<Rightarrow> 'a list" where
  "first_of_each xs = rev (remdups (rev xs))"

definition word_terms :: "pystr \<Rightarrow> pystr list" where
  "word_terms w = map (\<lambda>n. take n w) [min MIN_TERM (length w)..<min (length w) MAX_TERM + 1]"

definition key_terms :: "unicode \<Rightarrow> pystr \<Rightarrow> pystr list" where
  "key_terms u text =
     (let folded = fold_name u text in
      if folded = [] then []
      else take MAX_INDEX_TERMS
        (first_of_each (filter (\<lambda>t. t \<noteq> []) (folded # concat (map word_terms (split_spaces folded))))))"

section \<open>What a canonical name looks like\<close>

lemma hd_dropWhile_not: "dropWhile P xs \<noteq> [] \<Longrightarrow> \<not> P (hd (dropWhile P xs))"
  by (induction xs) auto

text \<open>No two spaces in a row.\<close>

fun single_spaced :: "pystr \<Rightarrow> bool" where
  "single_spaced (a # b # s) = (\<not> (a = SPACE \<and> b = SPACE) \<and> single_spaced (b # s))"
| "single_spaced _ = True"

lemma spaced_snoc: "single_spaced (s @ [c]) \<longleftrightarrow> single_spaced s \<and> (s \<noteq> [] \<longrightarrow> \<not> (last s = SPACE \<and> c = SPACE))"
  by (induction s rule: single_spaced.induct) auto

lemma spaced_rev [simp]: "single_spaced (rev s) = single_spaced s"
proof (induction s rule: single_spaced.induct)
  case (1 a b s)
  have "single_spaced (rev (b # s) @ [a]) \<longleftrightarrow> single_spaced (rev (b # s)) \<and> \<not> (last (rev (b # s)) = SPACE \<and> a = SPACE)"
    by (subst spaced_snoc) simp
  then show ?case unfolding rev.simps(2) [of a] 1 by auto
qed simp_all

lemma spaced_dropWhile: "single_spaced s \<Longrightarrow> single_spaced (dropWhile P s)"
  by (induction s rule: single_spaced.induct) auto

text \<open>A character the standard lets through: visible, and a separator only if it is the plain space.\<close>

definition plain :: "unicode \<Rightarrow> nat \<Rightarrow> bool" where
  "plain u ch \<longleftrightarrow> uc_category u ch \<notin> set FORBIDDEN_CATEGORIES \<and> (uc_category u ch \<in> set SEPARATOR_CATEGORIES \<longrightarrow> ch = SPACE)"

lemma scan_name_plain:
  "scan_name u cs out = Inr res \<Longrightarrow> uc_category u SPACE \<in> set SEPARATOR_CATEGORIES \<Longrightarrow> single_spaced out \<Longrightarrow> list_all (plain u) out \<Longrightarrow>
     single_spaced res \<and> list_all (plain u) res"
proof (induction cs arbitrary: out)
  case (Cons ch cs)
  show ?case
  proof (cases "uc_category u ch \<in> set SEPARATOR_CATEGORIES \<and> out \<noteq> [] \<and> last out = SPACE")
    case True
    then have "scan_name u cs out = Inr res" using Cons.prems(1) by (simp add: Let_def split: if_splits)
    with Cons show ?thesis by blast
  next
    case False
    then have n: "scan_name u cs (out @ [ch]) = Inr res" and p: "plain u ch"
      using Cons.prems(1) by (auto simp: plain_def Let_def split: if_splits)
    have "single_spaced (out @ [ch])" using Cons.prems(2,3) False by (auto simp: spaced_snoc)
    with Cons.IH [OF n Cons.prems(2)] Cons.prems(4) p show ?thesis by simp
  qed
qed simp

lemma set_strip_spaces: "set (strip_spaces s) \<subseteq> set s"
  by (auto simp: strip_spaces_def dest!: set_dropWhileD)

lemma spaced_strip: "single_spaced s \<Longrightarrow> single_spaced (strip_spaces s)"
  by (simp add: strip_spaces_def spaced_dropWhile)

lemma strip_edges: "strip_spaces s \<noteq> [] \<Longrightarrow> hd (strip_spaces s) \<noteq> SPACE \<and> last (strip_spaces s) \<noteq> SPACE"
proof -
  let ?l = "dropWhile (\<lambda>c. c = SPACE) s"
  let ?r = "dropWhile (\<lambda>c. c = SPACE) (rev ?l)"
  assume ne: "strip_spaces s \<noteq> []"
  then have r: "?r \<noteq> []" by (simp add: strip_spaces_def)
  obtain k where k: "?r = drop k (rev ?l)" by (metis dropWhile_eq_drop)
  then have "hd (rev ?r) = hd ?l" using r by (simp add: rev_drop take_rev hd_rev last_drop hd_take drop_rev)
  moreover have "?l \<noteq> []" using r by (metis dropWhile.simps(1) rev.simps(1))
  then have "hd ?l \<noteq> SPACE" using hd_dropWhile_not [of "\<lambda>c. c = SPACE" s] by simp
  ultimately show ?thesis using hd_dropWhile_not [OF r] r by (simp add: strip_spaces_def last_rev)
qed

text \<open>
  A name that was let through renders as what it is. It is not empty and at most 50 characters long, holds
  no control, format, surrogate, private or unassigned character and no separator but the plain space, has
  no space at either end and no two in a row.
\<close>
theorem canonical_name_is_plain:
  assumes "canonical_name u text = Inr pseudo" "uc_category u SPACE = ''Zs''"
  shows "pseudo \<noteq> [] \<and> length pseudo \<le> MAX_PSEUDO \<and> list_all (plain u) pseudo \<and>
    hd pseudo \<noteq> SPACE \<and> last pseudo \<noteq> SPACE \<and> single_spaced pseudo"
proof -
  from assms(1) obtain out where
    o: "scan_name u (uc_nfc u text) [] = Inr out" "pseudo = strip_spaces out" "pseudo \<noteq> []" "length pseudo \<le> MAX_PSEUDO"
    by (auto simp: canonical_name_def rbind_Inr Let_def split: if_splits)
  have z: "uc_category u SPACE \<in> set SEPARATOR_CATEGORIES" by (simp add: assms(2) SEPARATOR_CATEGORIES_def)
  from scan_name_plain [OF o(1) z] have "single_spaced out" "list_all (plain u) out" by simp_all
  then have "single_spaced pseudo" "list_all (plain u) pseudo"
    using spaced_strip set_strip_spaces [of out] by (auto simp: o(2) list_all_iff)
  with o(2-4) strip_edges [of out] show ?thesis by simp
qed

definition plain_unicode :: unicode where
  "plain_unicode = \<lparr> uc_nfc = (\<lambda>s. s), uc_nfd = (\<lambda>s. s), uc_casefold = (\<lambda>s. s),
     uc_category = (\<lambda>c. if c = SPACE then ''Zs'' else if c < SPACE then ''Cc'' else ''Ll''), uc_space = (\<lambda>c. c \<le> SPACE) \<rparr>"

theorem canonical_name_is_plain_witness:
  "canonical_name plain_unicode [32, 97, 32, 32, 98] = Inr [97, 32, 98] \<and> single_spaced [97, 32, 98]"
proof -
  have c: "canonical_name plain_unicode [32, 97, 32, 32, 98] = Inr [97, 32, 98]" by code_simp
  have "uc_category plain_unicode SPACE = ''Zs''" by (simp add: plain_unicode_def)
  from canonical_name_is_plain [OF c this] c show ?thesis by blast
qed

section \<open>What a query finds\<close>

lemma set_first_of_each [simp]: "set (first_of_each xs) = set xs"
  by (simp add: first_of_each_def)

lemma distinct_first_of_each [simp]: "distinct (first_of_each xs)"
  by (simp add: first_of_each_def)

lemma word_terms_mem:
  assumes "prefix q w" "min MIN_TERM (length w) \<le> length q" "length q \<le> MAX_TERM"
  shows "q \<in> set (word_terms w)"
proof -
  have "length q \<le> length w" using assms(1) by (rule prefix_length_le)
  with assms(2,3) have "length q \<in> {min MIN_TERM (length w)..<min (length w) MAX_TERM + 1}" by auto
  moreover have "q = take (length q) w" using assms(1) by (auto simp: prefix_def)
  ultimately show ?thesis unfolding word_terms_def set_map set_upt by (rule rev_image_eqI)
qed

text \<open>
  Half a name finds the whole one. Whatever was typed, if it folds to the folded name itself or to the
  beginning, of 2 to 12 characters, of one of its words, then the key it is looked up under is one the name
  was filed under, unless the name has more terms than are filed.
\<close>
theorem typed_beginning_is_filed:
  assumes "q = fold_name u query" "q \<noteq> []" "p = fold_name u pseudo"
    and "q = p \<or> (\<exists>w \<in> set (split_spaces p). prefix q w \<and> MIN_TERM \<le> length q \<and> length q \<le> MAX_TERM)"
    and "card (set (p # concat (map word_terms (split_spaces p)))) \<le> MAX_INDEX_TERMS"
  shows "q \<in> set (key_terms u pseudo)"
proof -
  let ?all = "p # concat (map word_terms (split_spaces p))"
  have "q \<in> set ?all" using assms(4) by (auto intro!: word_terms_mem)
  moreover have "length (first_of_each (filter (\<lambda>t. t \<noteq> []) ?all)) \<le> MAX_INDEX_TERMS"
  proof -
    have "length (first_of_each (filter (\<lambda>t. t \<noteq> []) ?all)) = card (set (filter (\<lambda>t. t \<noteq> []) ?all))"
      by (metis distinct_first_of_each set_first_of_each distinct_card)
    also have "\<dots> \<le> card (set ?all)" by (rule card_mono) auto
    finally show ?thesis using assms(5) by (rule order.trans)
  qed
  moreover have "p \<noteq> []" using assms(2,4) by (auto simp: prefix_def)
  ultimately show ?thesis using assms(2) by (simp add: key_terms_def Let_def assms(3) [symmetric])
qed

theorem typed_beginning_is_filed_witness:
  "[98, 111] \<in> set (key_terms plain_unicode [97, 108, 32, 98, 111, 98])"
proof -
  have f: "fold_name plain_unicode [98, 111] = [98, 111]" "fold_name plain_unicode [97, 108, 32, 98, 111, 98] = [97, 108, 32, 98, 111, 98]"
    by code_simp+
  have s: "split_spaces [97, 108, 32, 98, 111, 98] = [[97, 108], [98, 111, 98]]" by code_simp
  have "card (set ([97, 108, 32, 98, 111, 98] # concat (map word_terms [[97, 108], [98, 111, 98]]))) \<le>
      length ([97, 108, 32, 98, 111, 98] # concat (map word_terms [[97, 108], [98, 111, 98 :: nat]]))" by (rule card_length)
  also have "\<dots> \<le> MAX_INDEX_TERMS" by (simp add: word_terms_def MIN_TERM_def MAX_TERM_def MAX_INDEX_TERMS_def)
  finally have n: "card (set ([97, 108, 32, 98, 111, 98] # concat (map word_terms (split_spaces [97, 108, 32, 98, 111, 98])))) \<le> MAX_INDEX_TERMS"
    unfolding s .
  show ?thesis
    by (rule typed_beginning_is_filed [OF f(1) [symmetric] _ f(2) [symmetric] _ n])
      (simp_all add: s MIN_TERM_def MAX_TERM_def del: split_spaces.simps)
qed

text \<open>What ranks as the beginning of the whole name need not be filed: two words and a half are not.\<close>

lemma beginning_of_two_words_unfiled:
  "name_rank plain_unicode [97, 108, 32, 98] [97, 108, 32, 98, 111] = Some PREFIX \<and>
     [97, 108, 32, 98] \<notin> set (key_terms plain_unicode [97, 108, 32, 98, 111])"
  by code_simp

end
