(* ===== verification/Claims.thy ===== *)
theory Claims
  imports Names Revocation
begin

text \<open>
  Claims of a pseudo (\<open>src/pseudo_dir.py\<close>, the first half): what a node signs to be called something, how
  it is parsed and under which keys it is filed, and the list of claims of a directory answer.

  \<open>vf\<close> is the verifier handed to \<open>parse_claim\<close> (one that raises counts as one that refuses), \<open>sign\<close> the
  signing operation of \<open>build_claim\<close>, \<open>u\<close> the tables of the Unicode standard.
\<close>

definition NAME_DOMAIN :: bytes where "NAME_DOMAIN = ascii ''nmesh-pseudo-v2''"
definition NAME_KEY_LEN :: nat where "NAME_KEY_LEN = 20"
definition CLAIM_VERSION :: nat where "CLAIM_VERSION = 2"
definition CLAIM_HDR_SIZE :: nat where "CLAIM_HDR_SIZE = 15"
definition MAX_PSEUDO_BYTES :: nat where "MAX_PSEUDO_BYTES = MAX_PSEUDO * 4"
definition CLAIM_MAX_PUBKEY :: nat where "CLAIM_MAX_PUBKEY = 4096"
definition CLAIM_MAX_SIG :: nat where "CLAIM_MAX_SIG = 5000"
definition MAX_CLAIM :: nat where "MAX_CLAIM = CLAIM_HDR_SIZE + CLAIM_MAX_PUBKEY + MAX_PSEUDO_BYTES + CLAIM_MAX_SIG"

record name_claim =
  cl_node :: node_id
  cl_pubkey :: bytes
  cl_pseudo :: pystr
  cl_ts :: nat
  cl_key :: bytes
  cl_keys :: "bytes list"

section \<open>Directory keys\<close>

definition term_key :: "hash_env \<Rightarrow> pystr \<Rightarrow> bytes result" where
  "term_key h t = rbind (utf8_encode t) (\<lambda>raw. Inr (take NAME_KEY_LEN (h_sha256 h (NAME_DOMAIN @ ascii '':'' @ raw))))"

definition dir_key :: "hash_env \<Rightarrow> unicode \<Rightarrow> pystr \<Rightarrow> bytes result" where
  "dir_key h u pseudo = term_key h (fold_name u pseudo)"

fun term_keys :: "hash_env \<Rightarrow> pystr list \<Rightarrow> bytes list result" where
  "term_keys h [] = Inr []"
| "term_keys h (t # ts) = rbind (term_key h t) (\<lambda>k. rbind (term_keys h ts) (\<lambda>ks. Inr (k # ks)))"

definition dir_keys :: "hash_env \<Rightarrow> unicode \<Rightarrow> pystr \<Rightarrow> bytes list result" where
  "dir_keys h u pseudo = term_keys h (key_terms u pseudo)"

section \<open>Building and parsing\<close>

definition claim_input :: "node_id \<Rightarrow> bytes \<Rightarrow> nat \<Rightarrow> bytes" where
  "claim_input nid encoded ts = NAME_DOMAIN @ nid @ be_bytes 8 ts @ encoded"

definition build_claim :: "hash_env \<Rightarrow> unicode \<Rightarrow> pystr \<Rightarrow> bytes \<Rightarrow> (bytes \<Rightarrow> bytes) \<Rightarrow> int \<Rightarrow> bytes result" where
  "build_claim h u pseudo pubkey sign ts =
     (if \<not> is_canonical u pseudo then Inl ValueError
      else if ts < 0 \<or> 0xFFFFFFFFFFFFFFFF < ts then Inl ValueError
      else rbind (utf8_encode pseudo) (\<lambda>encoded.
        let sig = sign (claim_input (key_id h pubkey) encoded (nat ts)) in
        if CLAIM_MAX_PUBKEY < length pubkey \<or> CLAIM_MAX_SIG < length sig then Inl ValueError
        else Inr (be_bytes 1 CLAIM_VERSION @ be_bytes 8 (nat ts) @ be_bytes 2 (length pubkey) @
                  be_bytes 2 (length encoded) @ be_bytes 2 (length sig) @ pubkey @ encoded @ sig)))"

text \<open>The keys are computed outside the code's \<open>try\<close>: a term that cannot be encoded would raise there.\<close>

definition parse_claim :: "hash_env \<Rightarrow> unicode \<Rightarrow> verifier \<Rightarrow> bytes \<Rightarrow> name_claim option result" where
  "parse_claim h u vf data =
     (if \<not> (CLAIM_HDR_SIZE \<le> length data \<and> length data \<le> MAX_CLAIM) then Inr None
      else
        (let version = be_val (slice 0 1 data); ts = be_val (slice 1 9 data); pk_len = be_val (slice 9 11 data);
             ps_len = be_val (slice 11 13 data); sig_len = be_val (slice 13 15 data); off = CLAIM_HDR_SIZE
         in if version \<noteq> CLAIM_VERSION then Inr None
            else if CLAIM_MAX_PUBKEY < pk_len \<or> MAX_PSEUDO_BYTES < ps_len \<or> CLAIM_MAX_SIG < sig_len then Inr None
            else if length data \<noteq> off + pk_len + ps_len + sig_len then Inr None
            else
              (let pubkey = slice off (off + pk_len) data; encoded = slice (off + pk_len) (off + pk_len + ps_len) data;
                   sig = drop (off + pk_len + ps_len) data
               in case utf8_decode encoded of
                    None \<Rightarrow> Inr None
                  | Some pseudo \<Rightarrow>
                      (if \<not> is_canonical u pseudo then Inr None
                       else if \<not> vf (claim_input (key_id h pubkey) encoded ts) sig pubkey then Inr None
                       else rbind (dir_key h u pseudo) (\<lambda>key. rbind (dir_keys h u pseudo) (\<lambda>keys.
                         Inr (Some \<lparr> cl_node = key_id h pubkey, cl_pubkey = pubkey, cl_pseudo = pseudo, cl_ts = ts,
                                     cl_key = key, cl_keys = keys \<rparr>)))))))"

section \<open>A directory answer\<close>

definition FOUND_BUDGET :: nat where "FOUND_BUDGET = 56 * 1024"
definition MAX_PER_KEY :: nat where "MAX_PER_KEY = 8"

fun encode_claims_from :: "nat \<Rightarrow> bytes list \<Rightarrow> bytes" where
  "encode_claims_from used [] = []"
| "encode_claims_from used (c # cs) =
     (if MAX_CLAIM < length c then encode_claims_from used cs
      else if FOUND_BUDGET < used + 2 + length c then []
      else be_bytes 2 (length c) @ c @ encode_claims_from (used + 2 + length c) cs)"

definition encode_claims :: "bytes list \<Rightarrow> bytes" where
  "encode_claims cs = encode_claims_from 0 cs"

text \<open>\<open>left\<close> is the number of claims that may still be taken.\<close>

fun decode_claims_from :: "nat \<Rightarrow> bytes \<Rightarrow> bytes list" where
  "decode_claims_from 0 blob = []"
| "decode_claims_from (Suc left) blob =
     (if length blob < 2 then []
      else
        (let ln = be_val (slice 0 2 blob) in
         if ln = 0 \<or> MAX_CLAIM < ln \<or> length blob < 2 + ln then []
         else slice 2 (2 + ln) blob # decode_claims_from left (drop (2 + ln) blob)))"

definition decode_claims :: "bytes \<Rightarrow> bytes list" where
  "decode_claims blob = decode_claims_from MAX_PER_KEY blob"

section \<open>What a claim says\<close>

lemmas claim_sizes = CLAIM_HDR_SIZE_def CLAIM_MAX_PUBKEY_def CLAIM_MAX_SIG_def MAX_CLAIM_def MAX_PSEUDO_BYTES_def MAX_PSEUDO_def

lemma cont_val_Some: "cont_val x = Some p \<Longrightarrow> p < 64 \<and> byte_of (0x80 + p) = x"
proof -
  assume a: "cont_val x = Some p"
  then have "0x80 \<le> unat x" "unat x \<le> 0xBF" "p = unat x - 0x80" by (auto simp: cont_val_def split: if_splits)
  then have "p < 64" "0x80 + p = unat x" by simp_all
  then show ?thesis by (simp add: byte_of_def)
qed

lemma byte_of_unat: "n = unat b \<Longrightarrow> byte_of n = b"
  by (simp add: byte_of_def)

lemma div_mod_low: "q < k \<Longrightarrow> (x * k + q) div k = (x :: nat) \<and> (x * k + q) mod k = q"
  by simp

text \<open>Decoding takes one character after the other, each in its only encoding.\<close>

lemma utf8_decode_step:
  assumes "utf8_decode (b # bs) = Some s"
  shows "\<exists>c rest s'. s = c # s' \<and> scalar c \<and> b # bs = utf8_char c @ rest \<and> utf8_decode rest = Some s'"
proof -
  let ?n = "unat b"
  consider (1) "?n < 0x80" | (2) "0xC2 \<le> ?n" "?n \<le> 0xDF" | (3) "0xE0 \<le> ?n" "?n \<le> 0xEF" | (4) "0xF0 \<le> ?n" "?n \<le> 0xF4"
    using assms by (auto simp: Let_def split: if_splits)
  then show ?thesis
  proof cases
    case 1
    then obtain s' where "utf8_decode bs = Some s'" "s = ?n # s'" using assms by (auto simp: Let_def)
    with 1 show ?thesis by (intro exI [of _ ?n] exI [of _ bs] exI [of _ s']) (simp add: scalar_def utf8_char_def byte_of_def)
  next
    case 2
    then obtain x r p s' where x: "bs = x # r" "cont_val x = Some p" "utf8_decode r = Some s'" "s = ((?n - 0xC0) * 64 + p) # s'"
      using assms by (auto simp: Let_def split: list.splits option.splits)
    let ?c = "(?n - 0xC0) * 64 + p"
    note p = cont_val_Some [OF x(2)]
    have d: "?c div 64 = ?n - 0xC0" "?c mod 64 = p" using p by simp_all
    have "scalar ?c" "0x80 \<le> ?c" "?c < 0x800" using 2 p by (auto simp: scalar_def)
    moreover have "byte_of (0xC0 + ?c div 64) = b" unfolding d using 2 by (intro byte_of_unat) simp
    ultimately have "utf8_char ?c @ r = b # bs" using p by (simp add: utf8_char_def d x(1))
    with x \<open>scalar ?c\<close> show ?thesis by metis
  next
    case 3
    then obtain x y r p q s' where x: "bs = x # y # r" "cont_val x = Some p" "cont_val y = Some q" "utf8_decode r = Some s'"
      "s = ((?n - 0xE0) * 4096 + p * 64 + q) # s'"
      "0x800 \<le> (?n - 0xE0) * 4096 + p * 64 + q" "\<not> (0xD800 \<le> (?n - 0xE0) * 4096 + p * 64 + q \<and> (?n - 0xE0) * 4096 + p * 64 + q \<le> 0xDFFF)"
      using assms by (auto simp: Let_def split: list.splits option.splits if_splits)
    let ?c = "(?n - 0xE0) * 4096 + p * 64 + q"
    note p = cont_val_Some [OF x(2)] cont_val_Some [OF x(3)]
    have d: "?c div 4096 = ?n - 0xE0" "?c div 64 mod 64 = p" "?c mod 64 = q"
    proof -
      have "p * 64 + q < 4096" using p by linarith
      then show "?c div 4096 = ?n - 0xE0" by (simp add: add.assoc)
      have "?c = ((?n - 0xE0) * 64 + p) * 64 + q" by simp
      then have "?c div 64 = (?n - 0xE0) * 64 + p" "?c mod 64 = q" using div_mod_low [of q 64 "(?n - 0xE0) * 64 + p"] p by metis+
      then show "?c div 64 mod 64 = p" "?c mod 64 = q" using p by simp_all
    qed
    have "?c < 0x10000" using 3 p by linarith
    then have "scalar ?c" using x(7) by (simp add: scalar_def)
    moreover have "byte_of (0xE0 + ?c div 4096) = b" unfolding d using 3 by (intro byte_of_unat) simp
    ultimately have "utf8_char ?c @ r = b # bs" using p x(6) \<open>?c < 0x10000\<close> by (simp add: utf8_char_def d x(1))
    with x \<open>scalar ?c\<close> show ?thesis by metis
  next
    case 4
    then obtain x y z r p q w s' where x: "bs = x # y # z # r" "cont_val x = Some p" "cont_val y = Some q" "cont_val z = Some w"
      "utf8_decode r = Some s'" "s = ((?n - 0xF0) * 262144 + p * 4096 + q * 64 + w) # s'"
      "0x10000 \<le> (?n - 0xF0) * 262144 + p * 4096 + q * 64 + w" "(?n - 0xF0) * 262144 + p * 4096 + q * 64 + w < 0x110000"
      using assms by (auto simp: Let_def split: list.splits option.splits if_splits)
    let ?c = "(?n - 0xF0) * 262144 + p * 4096 + q * 64 + w"
    note p = cont_val_Some [OF x(2)] cont_val_Some [OF x(3)] cont_val_Some [OF x(4)]
    have d: "?c div 262144 = ?n - 0xF0" "?c div 4096 mod 64 = p" "?c div 64 mod 64 = q" "?c mod 64 = w"
    proof -
      have "p * 4096 + q * 64 + w < 262144" using p by linarith
      then show "?c div 262144 = ?n - 0xF0" by (simp add: add.assoc)
      have l: "q * 64 + w < 4096" using p by linarith
      have "?c = ((?n - 0xF0) * 64 + p) * 4096 + (q * 64 + w)" by simp
      then have "?c div 4096 = (?n - 0xF0) * 64 + p" using div_mod_low [OF l, of "(?n - 0xF0) * 64 + p"] by metis
      then show "?c div 4096 mod 64 = p" using p by simp
      have "?c = (((?n - 0xF0) * 64 + p) * 64 + q) * 64 + w" by simp
      then have "?c div 64 = ((?n - 0xF0) * 64 + p) * 64 + q" "?c mod 64 = w"
        using div_mod_low [of w 64 "((?n - 0xF0) * 64 + p) * 64 + q"] p by metis+
      then show "?c div 64 mod 64 = q" "?c mod 64 = w" using div_mod_low [of q 64 "(?n - 0xF0) * 64 + p"] p by metis+
    qed
    have "scalar ?c" using x(7,8) by (simp add: scalar_def)
    moreover have "byte_of (0xF0 + ?c div 262144) = b" unfolding d using 4 by (intro byte_of_unat) simp
    ultimately have "utf8_char ?c @ r = b # bs" using p x(7) by (simp add: utf8_char_def d x(1))
    with x \<open>scalar ?c\<close> show ?thesis by metis
  qed
qed

lemma utf8_decode_encode: "utf8_decode bs = Some s \<Longrightarrow> utf8_encode s = Inr bs"
proof -
  have "utf8_decode bs = Some s \<Longrightarrow> list_all scalar s \<and> concat (map utf8_char s) = bs"
  proof (induction "length bs" arbitrary: bs s rule: less_induct)
    case less
    show ?case
    proof (cases bs)
      case (Cons b r)
      from utf8_decode_step [OF less.prems [unfolded Cons]] obtain c rest s' where
        c: "s = c # s'" "scalar c" "b # r = utf8_char c @ rest" "utf8_decode rest = Some s'" by blast
      have "utf8_char c \<noteq> []" by (simp add: utf8_char_def)
      then have "length rest < length bs" using c(3) Cons by (metis length_append length_greater_0_conv less_add_same_cancel2)
      from less.hyps [OF this c(4)] c Cons show ?thesis by simp
    qed (use less.prems in simp)
  qed
  then show "utf8_decode bs = Some s \<Longrightarrow> utf8_encode s = Inr bs" by (simp add: utf8_encode_def)
qed

lemma parsed_claim:
  assumes "parse_claim h u vf data = Inr (Some c)"
  shows "cl_node c = key_id h (cl_pubkey c) \<and> is_canonical u (cl_pseudo c) \<and>
    dir_key h u (cl_pseudo c) = Inr (cl_key c) \<and> dir_keys h u (cl_pseudo c) = Inr (cl_keys c) \<and>
    (\<exists>encoded sig. utf8_encode (cl_pseudo c) = Inr encoded \<and> vf (claim_input (cl_node c) encoded (cl_ts c)) sig (cl_pubkey c))"
proof -
  let ?pk = "be_val (slice 9 11 data)" and ?ps = "be_val (slice 11 13 data)" and ?ts = "be_val (slice 1 9 data)"
  let ?pub = "slice 15 (15 + ?pk) data" and ?enc = "slice (15 + ?pk) (15 + ?pk + ?ps) data" and ?sig = "drop (15 + ?pk + ?ps) data"
  obtain pseudo key keys where
    p: "utf8_decode ?enc = Some pseudo" "is_canonical u pseudo" "vf (claim_input (key_id h ?pub) ?enc ?ts) ?sig ?pub"
      "dir_key h u pseudo = Inr key" "dir_keys h u pseudo = Inr keys"
      "c = \<lparr> cl_node = key_id h ?pub, cl_pubkey = ?pub, cl_pseudo = pseudo, cl_ts = ?ts, cl_key = key, cl_keys = keys \<rparr>"
    using assms by (auto simp: parse_claim_def CLAIM_HDR_SIZE_def Let_def rbind_Inr split: if_splits option.splits)
  from utf8_decode_encode [OF p(1)] p show ?thesis by auto
qed

lemma parsed_claim_signed:
  assumes "parse_claim h u vf data = Inr (Some c)"
  shows "cl_node c = key_id h (cl_pubkey c) \<and>
    (\<exists>encoded sig. utf8_encode (cl_pseudo c) = Inr encoded \<and> vf (claim_input (cl_node c) encoded (cl_ts c)) sig (cl_pubkey c))"
  using parsed_claim [OF assms] by blast

text \<open>
  A name is only ever bound to the key that signed it. Whatever bytes are parsed, a claim that comes out
  names the node whose id is the hash of the key inside, that key verifies a signature over exactly this id,
  this instant and this name, the name is in the accepted form, and the keys it is filed under are those of
  the name it carries.
\<close>
theorem claim_binds_own_id:
  assumes "parse_claim h u vf data = Inr (Some c)"
  shows "cl_node c = key_id h (cl_pubkey c) \<and> is_canonical u (cl_pseudo c) \<and>
    dir_key h u (cl_pseudo c) = Inr (cl_key c) \<and> dir_keys h u (cl_pseudo c) = Inr (cl_keys c) \<and>
    (\<exists>encoded sig. utf8_encode (cl_pseudo c) = Inr encoded \<and> vf (claim_input (cl_node c) encoded (cl_ts c)) sig (cl_pubkey c))"
  by (rule parsed_claim [OF assms])

lemma utf8_inj: "utf8_encode s = Inr bs \<Longrightarrow> utf8_encode t = Inr bs \<Longrightarrow> s = t"
  by (metis utf8_roundtrip option.inject)

section \<open>A claim arrives\<close>

lemma utf8_length_le: "utf8_encode s = Inr bs \<Longrightarrow> length bs \<le> 4 * length s"
proof -
  have "length (utf8_char c) \<le> 4" for c by (simp add: utf8_char_def)
  then have "length (concat (map utf8_char s)) \<le> 4 * length s"
  proof (induction s)
    case (Cons c s)
    from Cons.prems [of c] Cons.IH [OF Cons.prems] show ?case by simp
  qed simp
  then show "utf8_encode s = Inr bs \<Longrightarrow> length bs \<le> 4 * length s" by (auto simp: utf8_encode_def split: if_splits)
qed

lemma parse_built_claim:
  assumes "build_claim h u pseudo pubkey sign ts = Inr data"
    and "\<And>m. vf m (sign m) pubkey"
    and "dir_key h u pseudo = Inr key" "dir_keys h u pseudo = Inr keys"
  shows "parse_claim h u vf data = Inr (Some \<lparr> cl_node = key_id h pubkey, cl_pubkey = pubkey, cl_pseudo = pseudo,
      cl_ts = nat ts, cl_key = key, cl_keys = keys \<rparr>)"
proof -
  from assms(1) obtain enc where
    e: "is_canonical u pseudo" "0 \<le> ts" "ts \<le> 0xFFFFFFFFFFFFFFFF" "utf8_encode pseudo = Inr enc"
      "length pubkey \<le> 4096" "length (sign (claim_input (key_id h pubkey) enc (nat ts))) \<le> 5000"
      "data = be_bytes 1 CLAIM_VERSION @ be_bytes 8 (nat ts) @ be_bytes 2 (length pubkey) @ be_bytes 2 (length enc) @
         be_bytes 2 (length (sign (claim_input (key_id h pubkey) enc (nat ts)))) @ pubkey @ enc @
         sign (claim_input (key_id h pubkey) enc (nat ts))"
    by (auto simp: build_claim_def rbind_Inr Let_def claim_sizes simp del: be_bytes.simps split: if_splits)
  define sg where "sg = sign (claim_input (key_id h pubkey) enc (nat ts))"
  define h1 h2 h3 h4 h5 where "h1 = be_bytes 1 CLAIM_VERSION" and "h2 = be_bytes 8 (nat ts)" and
    "h3 = be_bytes 2 (length pubkey)" and "h4 = be_bytes 2 (length enc)" and "h5 = be_bytes 2 (length sg)"
  have data: "data = h1 @ h2 @ h3 @ h4 @ h5 @ pubkey @ enc @ sg"
    using e(7) by (simp only: h1_def h2_def h3_def h4_def h5_def sg_def)
  have hl: "length h1 = 1" "length h2 = 8" "length h3 = 2" "length h4 = 2" "length h5 = 2"
    by (simp_all add: h1_def h2_def h3_def h4_def h5_def del: be_bytes.simps)
  have "length pseudo \<le> 50"
    using e(1) by (auto simp: is_canonical_def canonical_name_def rbind_Inr Let_def MAX_PSEUDO_def split: if_splits)
  then have el: "length enc \<le> 200" using utf8_length_le [OF e(4)] by simp
  have sl: "length sg \<le> 5000" using e(6) by (simp add: sg_def)
  have tl: "nat ts < 256 ^ 8" using e(2,3) by (simp add: nat_less_iff)
  have v: "be_val h1 = CLAIM_VERSION" "be_val h2 = nat ts" "be_val h3 = length pubkey" "be_val h4 = length enc"
    "be_val h5 = length sg"
    using tl e(5) el sl by (simp_all add: h1_def h2_def h3_def h4_def h5_def CLAIM_VERSION_def del: be_bytes.simps)
  have f: "slice 0 1 data = h1" "slice 1 9 data = h2" "slice 9 11 data = h3" "slice 11 13 data = h4" "slice 13 15 data = h5"
    "slice 15 (15 + length pubkey) data = pubkey" "slice (15 + length pubkey) (15 + length pubkey + length enc) data = enc"
    "drop (15 + length pubkey + length enc) data = sg"
    by (simp_all add: data slice_def hl)
  have len: "length data = 15 + length pubkey + length enc + length sg" by (simp add: data hl)
  show ?thesis
    using e(5) el sl utf8_roundtrip [OF e(4)] e(1) assms(2) [of "claim_input (key_id h pubkey) enc (nat ts)"] assms(3,4)
    by (simp add: parse_claim_def claim_sizes f [simplified] v len Let_def sg_def [symmetric])
qed

text \<open>
  C33: A claim arrives as it was made. What a node builds for a name in the accepted form is parsed by every other
  node with the same tables as a claim of that name, by that key, for that instant, when the signature the
  node makes is one its own public key verifies and the terms of the name can be encoded.
\<close>
theorem claim_roundtrip:
  assumes "build_claim h u pseudo pubkey sign ts = Inr data"
    and "\<And>m. vf m (sign m) pubkey"
    and "dir_key h u pseudo = Inr key" "dir_keys h u pseudo = Inr keys"
  shows "parse_claim h u vf data = Inr (Some \<lparr> cl_node = key_id h pubkey, cl_pubkey = pubkey, cl_pseudo = pseudo,
      cl_ts = nat ts, cl_key = key, cl_keys = keys \<rparr>)"
  using assms by (rule parse_built_claim)

lemma decode_claims_step:
  assumes "0 < length c" "length c \<le> MAX_CLAIM"
  shows "decode_claims_from (Suc left) (be_bytes 2 (length c) @ c @ rest) = c # decode_claims_from left rest"
proof -
  have "length c < 256 ^ 2" using assms(2) by (simp add: claim_sizes)
  then have v: "be_val (slice 0 2 (be_bytes 2 (length c) @ c @ rest)) = length c"
    by (simp add: slice_append_exact del: be_bytes.simps)
  have "slice 2 (2 + length c) (be_bytes 2 (length c) @ c @ rest) = c" "drop (2 + length c) (be_bytes 2 (length c) @ c @ rest) = rest"
    by (simp_all add: slice_def del: be_bytes.simps)
  with v assms show ?thesis by (simp add: Let_def del: be_bytes.simps)
qed

lemma decode_claims_empty: "decode_claims_from left [] = []"
  by (cases left) simp_all

lemma decode_encode_claims:
  assumes "\<forall>c \<in> set cs. 0 < length c \<and> length c \<le> MAX_CLAIM"
  shows "prefix (decode_claims_from left (encode_claims_from used cs)) cs \<and>
    (length cs \<le> left \<and> used + sum_list (map (\<lambda>c. 2 + length c) cs) \<le> FOUND_BUDGET \<longrightarrow>
       decode_claims_from left (encode_claims_from used cs) = cs)"
  using assms
proof (induction cs arbitrary: left used)
  case Nil
  show ?case by (simp add: decode_claims_empty)
next
  case (Cons c cs)
  have c: "0 < length c" "length c \<le> MAX_CLAIM" using Cons.prems by simp_all
  show ?case
  proof (cases left)
    case (Suc n)
    show ?thesis
    proof (cases "FOUND_BUDGET < used + 2 + length c")
      case False
      then have e: "encode_claims_from used (c # cs) = be_bytes 2 (length c) @ c @ encode_claims_from (used + 2 + length c) cs"
        using c by (simp del: be_bytes.simps)
      from Cons.IH [of n "used + 2 + length c"] Cons.prems show ?thesis
        unfolding e Suc decode_claims_step [OF c] by (simp add: algebra_simps)
    qed (use c in \<open>simp add: decode_claims_empty\<close>)
  qed simp
qed

lemma length_encode_claims: "length (encode_claims_from used cs) + used \<le> max used FOUND_BUDGET"
proof (induction used cs rule: encode_claims_from.induct)
  case (2 used c cs)
  then show ?case by (auto simp del: be_bytes.simps split: if_splits)
qed simp

text \<open>
  A directory answer carries claims whole. What is encoded is never more than the budget of one packet; what
  the asker decodes is a beginning of the list that was to be sent; and when there are at most eight claims
  and they fit, it is the whole list.
\<close>
theorem claims_answer_roundtrip:
  assumes "\<forall>c \<in> set cs. 0 < length c \<and> length c \<le> MAX_CLAIM"
  shows "length (encode_claims cs) \<le> FOUND_BUDGET \<and> prefix (decode_claims (encode_claims cs)) cs \<and>
    (length cs \<le> MAX_PER_KEY \<and> sum_list (map (\<lambda>c. 2 + length c) cs) \<le> FOUND_BUDGET \<longrightarrow>
       decode_claims (encode_claims cs) = cs)"
  using decode_encode_claims [OF assms, of MAX_PER_KEY 0] length_encode_claims [of 0 cs]
  by (simp add: decode_claims_def encode_claims_def)

theorem claims_answer_roundtrip_witness: "decode_claims (encode_claims [[1, 2], [3]]) = [[1, 2], [3]]"
  using claims_answer_roundtrip [of "[[1, 2], [3]]"] by (simp add: claim_sizes MAX_PER_KEY_def FOUND_BUDGET_def)

definition flat_hash :: hash_env where
  "flat_hash = \<lparr> h_sha256 = (\<lambda>m. take 32 (m @ replicate 32 0)), h_blake2b = (\<lambda>n _ _. replicate n 0) \<rparr>"

definition demo_key :: bytes where
  "demo_key = take 20 (h_sha256 flat_hash (NAME_DOMAIN @ ascii '':'' @ [97]))"

lemma demo_fold: "fold_name plain_unicode [97] = [97]" "key_terms plain_unicode [97] = [[97]]"
  "is_canonical plain_unicode [97]"
  by code_simp+

lemma demo_name_bytes: "utf8_encode [97] = Inr [97]"
  by (simp add: utf8_encode_def scalar_def utf8_char_def byte_of_def)

lemma demo_name: "dir_key flat_hash plain_unicode [97] = Inr demo_key" "dir_keys flat_hash plain_unicode [97] = Inr [demo_key]"
  by (simp_all add: dir_key_def dir_keys_def term_key_def demo_fold demo_name_bytes demo_key_def NAME_KEY_LEN_def)

theorem claim_roundtrip_witness:
  "\<exists>data c. build_claim flat_hash plain_unicode [97] [5] (\<lambda>_. [9]) 7 = Inr data \<and>
     parse_claim flat_hash plain_unicode (\<lambda>_ _ _. True) data = Inr (Some c) \<and> cl_pseudo c = [97] \<and> cl_ts c = 7"
proof -
  obtain data where b: "build_claim flat_hash plain_unicode [97] [5] (\<lambda>_. [9]) 7 = Inr data"
    by (simp add: build_claim_def demo_fold demo_name_bytes claim_sizes)
  from claim_roundtrip [where vf = "\<lambda>_ _ _. True", OF b _ demo_name] b show ?thesis by simp
qed

theorem claim_binds_own_id_witness:
  "\<exists>data c. parse_claim flat_hash plain_unicode (\<lambda>_ _ k. k = [5]) data = Inr (Some c) \<and> cl_pubkey c = [5] \<and>
     cl_node c = key_id flat_hash (cl_pubkey c)"
proof -
  obtain data where b: "build_claim flat_hash plain_unicode [97] [5] (\<lambda>_. [9]) 7 = Inr data"
    by (simp add: build_claim_def demo_fold demo_name_bytes claim_sizes)
  from parse_built_claim [where vf = "\<lambda>_ _ k. k = [5]", OF b _ demo_name] obtain c where
    "parse_claim flat_hash plain_unicode (\<lambda>_ _ k. k = [5]) data = Inr (Some c)" "cl_pubkey c = [5]" by auto
  with claim_binds_own_id show ?thesis by blast
qed

end
