(* ===== verification/ReleaseDoc.thy ===== *)
theory ReleaseDoc
  imports Revocation Complex_Main
begin

text \<open>
  The signed descriptor of a release (\<open>src/core_release.py\<close>, from \<open>publisher_id\<close> to \<open>parse_release\<close>).

  Here JSON keeps its integers apart from its floats, because the parser does: the type \<open>doc\<close>. Reading and
  writing the text itself is \<open>json.loads\<close> and \<open>json.dumps(.., sort_keys=True)\<close>, the record \<open>json_codec\<close>; the
  models give \<open>dumps\<close> the fields in sorted order. An exception of the parser is its left result.
\<close>

datatype doc = DNull | DBool bool | DInt int | DFloat real | DStr string | DList "doc list" | DDict "(string \<times> doc) list"

record json_codec =
  js_loads :: "bytes \<Rightarrow> doc option"
  js_dumps :: "(string \<times> doc) list \<Rightarrow> bytes"

section \<open>Hexadecimal\<close>

definition hex_digit_of :: "nat \<Rightarrow> char" where
  "hex_digit_of n = (if n < 10 then char_of (48 + n) else char_of (87 + n))"

definition hex_of :: "bytes \<Rightarrow> string" where
  "hex_of bs = concat (map (\<lambda>b. [hex_digit_of (unat b div 16), hex_digit_of (unat b mod 16)]) bs)"

definition hex_val :: "char \<Rightarrow> nat option" where
  "hex_val c =
     (let n = of_char c :: nat in
      if 48 \<le> n \<and> n \<le> 57 then Some (n - 48)
      else if 97 \<le> n \<and> n \<le> 102 then Some (n - 87)
      else if 65 \<le> n \<and> n \<le> 70 then Some (n - 55) else None)"

definition ascii_space :: "char \<Rightarrow> bool" where
  "ascii_space c = (let n = of_char c :: nat in n = 32 \<or> 9 \<le> n \<and> n \<le> 13)"

text \<open>\<open>bytes.fromhex\<close>: white space is passed over between two bytes.\<close>

fun from_hex :: "string \<Rightarrow> bytes option" where
  "from_hex [] = Some []"
| "from_hex [c] = (if ascii_space c then Some [] else None)"
| "from_hex (c # d # cs) =
     (if ascii_space c then from_hex (d # cs)
      else case (hex_val c, hex_val d) of
        (Some a, Some b) \<Rightarrow> map_option ((#) (word_of_nat (16 * a + b))) (from_hex cs)
      | _ \<Rightarrow> None)"

lemma hex_val_digit: "n < 16 \<Longrightarrow> hex_val (hex_digit_of n) = Some n \<and> \<not> ascii_space (hex_digit_of n)"
  by (simp add: hex_val_def hex_digit_of_def ascii_space_def Let_def)

lemma from_hex_of [simp]: "from_hex (hex_of bs) = Some bs"
proof (induction bs)
  case (Cons b bs)
  have "unat b div 16 < 16" "unat b mod 16 < 16" using unat_byte_lt [of b] by (simp_all add: less_mult_imp_div_less)
  note h = hex_val_digit [OF this(1)] hex_val_digit [OF this(2)]
  have "word_of_nat (16 * (unat b div 16) + unat b mod 16) = b" by (simp only: mult_div_mod_eq) simp
  with Cons h show ?case by (simp add: hex_of_def)
qed (simp add: hex_of_def)

lemma length_hex_of [simp]: "length (hex_of bs) = 2 * length bs"
  by (induction bs) (simp_all add: hex_of_def)

section \<open>The descriptor\<close>

definition RELEASE_DOMAIN :: bytes where "RELEASE_DOMAIN = ascii ''nmesh-core-release-v1''"
definition MAX_PACKAGE_BYTES :: nat where "MAX_PACKAGE_BYTES = 32 * 1024 * 1024"
definition MAX_VERSION_LEN :: nat where "MAX_VERSION_LEN = 64"
definition MAX_NOTES_LEN :: nat where "MAX_NOTES_LEN = 4000"
definition PUBLISHER_ID_LEN :: nat where "PUBLISHER_ID_LEN = 20"

definition publisher_id :: "hash_env \<Rightarrow> bytes \<Rightarrow> bytes" where
  "publisher_id h public_key = take PUBLISHER_ID_LEN (h_sha256 h public_key)"

record release_doc =
  rd_version :: string
  rd_size :: int
  rd_sha256 :: string
  rd_publisher :: bytes
  rd_publisher_id :: bytes
  rd_ts :: int
  rd_notes :: string

text \<open>\<open>v\<close>, \<open>publisher\<close> and \<open>sha256\<close> are signed as they are written in the document.\<close>

definition release_input :: "json_codec \<Rightarrow> doc \<Rightarrow> string \<Rightarrow> int \<Rightarrow> string \<Rightarrow> string \<Rightarrow> int \<Rightarrow> string \<Rightarrow> bytes" where
  "release_input js v version amount sha256 publisher ts notes =
     RELEASE_DOMAIN @ js_dumps js [(''notes'', DStr notes), (''publisher'', DStr publisher), (''sha256'', DStr sha256),
       (''size'', DInt amount), (''ts'', DInt ts), (''v'', v), (''version'', DStr version)]"

text \<open>The fields of the document that is written, the signature among them.\<close>

definition built_fields ::
  "hash_env \<Rightarrow> json_codec \<Rightarrow> bytes \<Rightarrow> string \<Rightarrow> bytes \<Rightarrow> (bytes \<Rightarrow> bytes) \<Rightarrow> int \<Rightarrow> string \<Rightarrow> (string \<times> doc) list" where
  "built_fields h js package version publisher_pub sign ts notes =
     (let sha = hex_of (h_sha256 h package); pub = hex_of publisher_pub; notes = take MAX_NOTES_LEN notes;
          sig = sign (release_input js (DInt 2) version (int (length package)) sha pub ts notes)
      in [(''notes'', DStr notes), (''publisher'', DStr pub), (''sha256'', DStr sha), (''sig'', DStr (hex_of sig)),
          (''size'', DInt (int (length package))), (''ts'', DInt ts), (''v'', DInt 2), (''version'', DStr version)])"

definition build_release ::
  "hash_env \<Rightarrow> json_codec \<Rightarrow> bytes \<Rightarrow> string \<Rightarrow> bytes \<Rightarrow> (bytes \<Rightarrow> bytes) \<Rightarrow> int \<Rightarrow> string \<Rightarrow> bytes result" where
  "build_release h js package version publisher_pub sign ts notes =
     (if version = [] \<or> MAX_VERSION_LEN < length version then Inl ValueError
      else if package = [] then Inl ValueError
      else if MAX_PACKAGE_BYTES < length package then Inl ValueError
      else Inr (js_dumps js (built_fields h js package version publisher_pub sign ts notes)))"

definition is_two :: "doc \<Rightarrow> bool" where
  "is_two d = (case d of DInt n \<Rightarrow> n = 2 | DFloat r \<Rightarrow> r = 2 | _ \<Rightarrow> False)"

definition doc_str :: "string \<Rightarrow> (string \<times> doc) list \<Rightarrow> string option" where
  "doc_str k d = (case map_of d k of Some (DStr s) \<Rightarrow> Some s | _ \<Rightarrow> None)"

definition doc_int :: "string \<Rightarrow> (string \<times> doc) list \<Rightarrow> int option" where
  "doc_int k d = (case map_of d k of Some (DInt n) \<Rightarrow> Some n | _ \<Rightarrow> None)"

text \<open>The checks of the fields, then the signature over them.\<close>

definition check_release ::
  "hash_env \<Rightarrow> json_codec \<Rightarrow> verifier \<Rightarrow> doc \<Rightarrow> string \<Rightarrow> string \<Rightarrow> string \<Rightarrow> string \<Rightarrow> int \<Rightarrow> string \<Rightarrow> int \<Rightarrow> release_doc result" where
  "check_release h js vf v version sha pub sig amount notes ts =
     (if \<not> (0 < amount \<and> amount \<le> int MAX_PACKAGE_BYTES) then Inl ValueError
      else if version = [] \<or> MAX_VERSION_LEN < length version then Inl ValueError
      else if MAX_NOTES_LEN < length notes then Inl ValueError
      else if \<not> (0 \<le> ts \<and> ts \<le> 2 ^ 62) then Inl ValueError
      else case (from_hex pub, from_hex sig, from_hex sha) of
        (Some publisher, Some signature, Some _) \<Rightarrow>
          (if length sha \<noteq> 64 then Inl ValueError
           else if publisher = [] \<or> 8192 < length publisher then Inl ValueError
           else if \<not> vf (release_input js v version amount sha pub ts notes) signature publisher then Inl ValueError
           else Inr \<lparr> rd_version = version, rd_size = amount, rd_sha256 = sha, rd_publisher = publisher,
                      rd_publisher_id = publisher_id h publisher, rd_ts = ts, rd_notes = notes \<rparr>)
      | _ \<Rightarrow> Inl ValueError)"

definition doc_notes :: "(string \<times> doc) list \<Rightarrow> string option" where
  "doc_notes d = (case map_of d ''notes'' of None \<Rightarrow> Some [] | Some (DStr s) \<Rightarrow> Some s | _ \<Rightarrow> None)"

definition parse_release :: "hash_env \<Rightarrow> json_codec \<Rightarrow> verifier \<Rightarrow> bytes \<Rightarrow> release_doc result" where
  "parse_release h js vf data =
     (if 64 * 1024 < length data then Inl ValueError
      else case js_loads js data of
        Some (DDict d) \<Rightarrow>
          (case map_of d ''v'' of
             None \<Rightarrow> Inl ValueError
           | Some v \<Rightarrow>
               (if \<not> is_two v then Inl ValueError
                else case (doc_str ''version'' d, doc_str ''sha256'' d, doc_str ''publisher'' d, doc_str ''sig'' d) of
                  (Some version, Some sha, Some pub, Some sig) \<Rightarrow>
                    (case (doc_int ''size'' d, doc_notes d, doc_int ''ts'' d) of
                       (Some amount, Some notes, Some ts) \<Rightarrow> check_release h js vf v version sha pub sig amount notes ts
                     | _ \<Rightarrow> Inl ValueError)
                | _ \<Rightarrow> Inl ValueError))
      | _ \<Rightarrow> Inl ValueError)"

lemma parsed_release:
  assumes "parse_release h js vf data = Inr r"
  shows "rd_publisher_id r = publisher_id h (rd_publisher r) \<and> rd_publisher r \<noteq> [] \<and> length (rd_sha256 r) = 64 \<and>
    0 < length (rd_version r) \<and> length (rd_version r) \<le> MAX_VERSION_LEN \<and> length (rd_notes r) \<le> MAX_NOTES_LEN \<and>
    0 < rd_size r \<and> rd_size r \<le> int MAX_PACKAGE_BYTES \<and>
    (\<exists>v pub sig. is_two v \<and> from_hex pub = Some (rd_publisher r) \<and>
       vf (release_input js v (rd_version r) (rd_size r) (rd_sha256 r) pub (rd_ts r) (rd_notes r)) sig (rd_publisher r))"
proof -
  obtain v version sha pub sig amount nts ts where
    v: "is_two v" and c: "check_release h js vf v version sha pub sig amount nts ts = Inr r"
    using assms by (auto simp: parse_release_def split: if_splits option.splits doc.splits prod.splits)
  from c obtain publisher signature where
    "r = \<lparr> rd_version = version, rd_size = amount, rd_sha256 = sha, rd_publisher = publisher,
       rd_publisher_id = publisher_id h publisher, rd_ts = ts, rd_notes = nts \<rparr>"
    "from_hex pub = Some publisher" "publisher \<noteq> []" "length sha = 64" "version \<noteq> []" "length version \<le> MAX_VERSION_LEN"
    "length nts \<le> MAX_NOTES_LEN" "0 < amount" "amount \<le> int MAX_PACKAGE_BYTES"
    "vf (release_input js v version amount sha pub ts nts) signature publisher"
    by (auto simp: check_release_def split: if_splits option.splits prod.splits)
  with v show ?thesis by simp blast
qed

lemma parsed_release_signed:
  "parse_release h js vf data = Inr r \<Longrightarrow>
     \<exists>v pub sig. vf (release_input js v (rd_version r) (rd_size r) (rd_sha256 r) pub (rd_ts r) (rd_notes r)) sig (rd_publisher r)"
  using parsed_release by blast

text \<open>
  A release is signed by the publisher it names. Whatever bytes are parsed, a descriptor that comes out
  carries bounded fields, the publisher's id is the hash of the key inside, and that key verifies a signature
  over exactly this version, size, hash, key, time and these notes.
\<close>
theorem release_signed_by_publisher:
  assumes "parse_release h js vf data = Inr r"
  shows "rd_publisher_id r = publisher_id h (rd_publisher r) \<and> rd_publisher r \<noteq> [] \<and> length (rd_sha256 r) = 64 \<and>
    0 < length (rd_version r) \<and> length (rd_version r) \<le> MAX_VERSION_LEN \<and> length (rd_notes r) \<le> MAX_NOTES_LEN \<and>
    0 < rd_size r \<and> rd_size r \<le> int MAX_PACKAGE_BYTES \<and>
    (\<exists>v pub sig. is_two v \<and> from_hex pub = Some (rd_publisher r) \<and>
       vf (release_input js v (rd_version r) (rd_size r) (rd_sha256 r) pub (rd_ts r) (rd_notes r)) sig (rd_publisher r))"
  by (rule parsed_release [OF assms])

text \<open>
  A release arrives as it was published: every node reads a built descriptor as one of that version and
  package by that publisher, when the signature made is one its public key verifies, JSON reads back what it
  wrote and the text is not too long.
\<close>
theorem release_roundtrip:
  assumes "build_release h js package version pub sign ts notes = Inr data"
    and "pub \<noteq> []" "length pub \<le> 8192" "length (h_sha256 h package) = 32" "0 \<le> ts" "ts \<le> 2 ^ 62" "\<And>m. vf m (sign m) pub"
    and "js_loads js data = Some (DDict (built_fields h js package version pub sign ts notes))" "length data \<le> 64 * 1024"
  shows "parse_release h js vf data = Inr \<lparr> rd_version = version, rd_size = int (length package),
    rd_sha256 = hex_of (h_sha256 h package), rd_publisher = pub, rd_publisher_id = publisher_id h pub,
    rd_ts = ts, rd_notes = take MAX_NOTES_LEN notes \<rparr>"
proof -
  let ?sha = "hex_of (h_sha256 h package)" and ?notes = "take MAX_NOTES_LEN notes"
  let ?sig = "sign (release_input js (DInt 2) version (int (length package)) ?sha (hex_of pub) ts ?notes)"
  have b: "version \<noteq> []" "length version \<le> MAX_VERSION_LEN" "package \<noteq> []" "length package \<le> MAX_PACKAGE_BYTES"
    using assms(1) by (auto simp: build_release_def split: if_splits)
  have c: "check_release h js vf (DInt 2) version ?sha (hex_of pub) (hex_of ?sig) (int (length package)) ?notes ts =
      Inr \<lparr> rd_version = version, rd_size = int (length package), rd_sha256 = ?sha, rd_publisher = pub,
        rd_publisher_id = publisher_id h pub, rd_ts = ts, rd_notes = ?notes \<rparr>"
    using b assms(2-7) by (simp add: check_release_def)
  show ?thesis
    using assms(9) by (simp add: parse_release_def assms(8) built_fields_def Let_def is_two_def doc_str_def doc_int_def doc_notes_def c)
qed

text \<open>A JSON that writes every document as the empty text and reads any text as one document.\<close>

definition one_text :: "(string \<times> doc) list \<Rightarrow> json_codec" where
  "one_text d = \<lparr> js_loads = (\<lambda>_. Some (DDict d)), js_dumps = (\<lambda>_. []) \<rparr>"

definition demo_sha :: hash_env where
  "demo_sha = \<lparr> h_sha256 = (\<lambda>m. take 32 (m @ replicate 32 0)), h_blake2b = (\<lambda>n _ _. replicate n 0) \<rparr>"

definition demo_release :: "(string \<times> doc) list" where
  "demo_release = [(''notes'', DStr []), (''publisher'', DStr (hex_of [5])), (''sha256'', DStr (hex_of (take 32 ([1, 2] @ replicate 32 0)))),
     (''sig'', DStr (hex_of [9])), (''size'', DInt 2), (''ts'', DInt 7), (''v'', DInt 2), (''version'', DStr ''1.2'')]"

lemma demo_release_built: "built_fields demo_sha (one_text demo_release) [1, 2] ''1.2'' [5] (\<lambda>_. [9]) 7 [] = demo_release"
  by (simp add: built_fields_def demo_release_def demo_sha_def Let_def)

theorem release_roundtrip_witness:
  "build_release demo_sha (one_text demo_release) [1, 2] ''1.2'' [5] (\<lambda>_. [9]) 7 [] = Inr [] \<and>
     (\<exists>r. parse_release demo_sha (one_text demo_release) (\<lambda>_ _ _. True) [] = Inr r \<and> rd_version r = ''1.2'' \<and> rd_publisher r = [5])"
proof -
  have b: "build_release demo_sha (one_text demo_release) [1, 2] ''1.2'' [5] (\<lambda>_. [9]) 7 [] = Inr []"
    by (simp add: build_release_def MAX_VERSION_LEN_def MAX_PACKAGE_BYTES_def one_text_def)
  have l: "js_loads (one_text demo_release) [] =
      Some (DDict (built_fields demo_sha (one_text demo_release) [1, 2] ''1.2'' [5] (\<lambda>_. [9]) 7 []))"
    unfolding demo_release_built by (simp add: one_text_def)
  from release_roundtrip [where vf = "\<lambda>_ _ _. True", OF b _ _ _ _ _ _ l] b show ?thesis by (simp add: demo_sha_def)
qed

theorem release_signed_by_publisher_witness:
  "\<exists>r. parse_release demo_sha (one_text demo_release) (\<lambda>_ _ k. k = [5]) [] = Inr r \<and> rd_version r = ''1.2'' \<and>
     rd_publisher_id r = publisher_id demo_sha (rd_publisher r)"
proof -
  have "\<exists>r. parse_release demo_sha (one_text demo_release) (\<lambda>_ _ k. k = [5]) [] = Inr r \<and> rd_version r = ''1.2''"
    by (simp add: parse_release_def one_text_def demo_release_def is_two_def doc_str_def doc_int_def doc_notes_def
        check_release_def MAX_PACKAGE_BYTES_def MAX_VERSION_LEN_def)
  then show ?thesis using release_signed_by_publisher by blast
qed

end
