(* ===== verification/Equivocation.thy ===== *)
theory Equivocation
  imports Claims ReleaseDoc
begin

text \<open>
  Proofs that one identity contradicted itself (\<open>src/equivocation.py\<close>): two records signed by one key that
  cannot both have been meant, wrapped as one.
\<close>

definition EQ_VERSION :: nat where "EQ_VERSION = 1"
definition KIND_RELEASE :: nat where "KIND_RELEASE = 1"
definition KIND_PSEUDO :: nat where "KIND_PSEUDO = 2"
definition EQ_KINDS :: "nat list" where "EQ_KINDS = [KIND_RELEASE, KIND_PSEUDO]"
definition EQ_HDR_SIZE :: nat where "EQ_HDR_SIZE = 6"
definition EQ_MAX_RECORD :: nat where "EQ_MAX_RECORD = 64 * 1024"
definition MAX_PROOF :: nat where "MAX_PROOF = EQ_HDR_SIZE + 2 * EQ_MAX_RECORD"

text \<open>A record of 65536 bytes passes the check and then does not fit its field: \<open>struct.error\<close>.\<close>

definition equiv_build :: "nat \<Rightarrow> bytes \<Rightarrow> bytes \<Rightarrow> bytes result" where
  "equiv_build kind first second =
     (if kind \<notin> set EQ_KINDS then Inl ValueError
      else if first = [] \<or> EQ_MAX_RECORD < length first then Inl ValueError
      else if second = [] \<or> EQ_MAX_RECORD < length second then Inl ValueError
      else rbind (pack_uint 2 (int (length first))) (\<lambda>la. rbind (pack_uint 2 (int (length second))) (\<lambda>lb.
        Inr (be_bytes 1 EQ_VERSION @ be_bytes 1 kind @ la @ lb @ first @ second))))"

definition equiv_split :: "bytes \<Rightarrow> (nat \<times> bytes \<times> bytes) option" where
  "equiv_split data =
     (if \<not> (EQ_HDR_SIZE \<le> length data \<and> length data \<le> MAX_PROOF) then None
      else
        (let version = be_val (slice 0 1 data); kind = be_val (slice 1 2 data); len_a = be_val (slice 2 4 data);
             len_b = be_val (slice 4 6 data); off = EQ_HDR_SIZE
         in if version \<noteq> EQ_VERSION \<or> kind \<notin> set EQ_KINDS then None
            else if length data \<noteq> off + len_a + len_b \<or> len_a = 0 \<or> len_b = 0 then None
            else Some (kind, slice off (off + len_a) data, drop (off + len_a) data)))"

text \<open>The pairs; a parser that raises is no verdict.\<close>

definition release_pair :: "hash_env \<Rightarrow> json_codec \<Rightarrow> verifier \<Rightarrow> bytes \<Rightarrow> bytes \<Rightarrow> (node_id \<times> bytes) option" where
  "release_pair h js vf first second =
     (case (parse_release h js vf first, parse_release h js vf second) of
        (Inr one, Inr two) \<Rightarrow>
          (if rd_publisher one \<noteq> rd_publisher two then None
           else if rd_version one \<noteq> rd_version two then None
           else if rd_sha256 one = rd_sha256 two then None
           else Some (key_id h (rd_publisher one), rd_publisher one))
      | _ \<Rightarrow> None)"

definition pseudo_pair :: "hash_env \<Rightarrow> unicode \<Rightarrow> verifier \<Rightarrow> bytes \<Rightarrow> bytes \<Rightarrow> (node_id \<times> bytes) option" where
  "pseudo_pair h u vf first second =
     (case (parse_claim h u vf first, parse_claim h u vf second) of
        (Inr (Some one), Inr (Some two)) \<Rightarrow>
          (if cl_pubkey one \<noteq> cl_pubkey two then None
           else if cl_ts one \<noteq> cl_ts two then None
           else if cl_pseudo one = cl_pseudo two then None
           else Some (cl_node one, cl_pubkey one))
      | _ \<Rightarrow> None)"

definition equiv_verify :: "hash_env \<Rightarrow> json_codec \<Rightarrow> unicode \<Rightarrow> verifier \<Rightarrow> bytes \<Rightarrow> (nat \<times> node_id \<times> bytes) option" where
  "equiv_verify h js u vf data =
     (case equiv_split data of
        None \<Rightarrow> None
      | Some (kind, first, second) \<Rightarrow>
          (if first = second then None
           else map_option (\<lambda>(subject, pub). (kind, subject, pub))
             (if kind = KIND_RELEASE then release_pair h js vf first second else pseudo_pair h u vf first second)))"

section \<open>What a proof proves\<close>

lemma equiv_split_build:
  assumes "equiv_build kind first second = Inr data"
  shows "equiv_split data = Some (kind, first, second)"
proof -
  have b: "kind \<in> set EQ_KINDS" "first \<noteq> []" "second \<noteq> []" "length first < 65536" "length second < 65536"
    "data = be_bytes 1 EQ_VERSION @ be_bytes 1 kind @ be_bytes 2 (length first) @ be_bytes 2 (length second) @ first @ second"
    using assms by (auto simp: equiv_build_def rbind_Inr pack_uint_Inr simp del: be_bytes.simps split: if_splits)
  define h1 h2 h3 h4 where "h1 = be_bytes 1 EQ_VERSION" and "h2 = be_bytes 1 kind" and "h3 = be_bytes 2 (length first)" and
    "h4 = be_bytes 2 (length second)"
  have data: "data = h1 @ h2 @ h3 @ h4 @ first @ second" using b(6) by (simp only: h1_def h2_def h3_def h4_def)
  have hl: "length h1 = 1" "length h2 = 1" "length h3 = 2" "length h4 = 2"
    by (simp_all add: h1_def h2_def h3_def h4_def del: be_bytes.simps)
  have v: "be_val h1 = EQ_VERSION" "be_val h2 = kind" "be_val h3 = length first" "be_val h4 = length second"
    using b by (auto simp: h1_def h2_def h3_def h4_def EQ_VERSION_def EQ_KINDS_def KIND_RELEASE_def KIND_PSEUDO_def
        simp del: be_bytes.simps)
  have f: "slice 0 1 data = h1" "slice 1 2 data = h2" "slice 2 4 data = h3" "slice 4 6 data = h4"
    "slice 6 (6 + length first) data = first" "drop (6 + length first) data = second"
    by (simp_all add: data slice_def hl)
  have len: "length data = 6 + length first + length second" by (simp add: data hl)
  show ?thesis using b(1-5)
    by (simp add: equiv_split_def EQ_HDR_SIZE_def MAX_PROOF_def EQ_MAX_RECORD_def f [simplified] v len Let_def)
qed

lemma claim_input_inj: "claim_input nid e ts = claim_input nid e' ts \<longleftrightarrow> e = e'"
  by (simp add: claim_input_def)

text \<open>
  C14: Nobody is convicted without their own key. Whatever bytes are offered as a proof, when they are accepted
  the subject is the hash of the public key inside, and that key verifies two different statements: two
  different names for one instant, or two descriptors of one version with different contents.
\<close>
theorem conviction_needs_the_key:
  assumes "equiv_verify h js u vf data = Some (kind, subject, pub)"
  shows "subject = key_id h pub \<and>
    ((\<exists>ts e1 e2 s1 s2. e1 \<noteq> e2 \<and> vf (claim_input subject e1 ts) s1 pub \<and> vf (claim_input subject e2 ts) s2 pub) \<or>
     (\<exists>v1 v2 version n1 n2 sha1 sha2 p1 p2 t1 t2 r1 r2 s1 s2. sha1 \<noteq> sha2 \<and>
        vf (release_input js v1 version n1 sha1 p1 t1 r1) s1 pub \<and> vf (release_input js v2 version n2 sha2 p2 t2 r2) s2 pub))"
proof -
  obtain first second where s: "equiv_split data = Some (kind, first, second)"
    and p: "(if kind = KIND_RELEASE then release_pair h js vf first second else pseudo_pair h u vf first second) = Some (subject, pub)"
    using assms by (auto simp: equiv_verify_def split: option.splits if_splits)
  show ?thesis
  proof (cases "kind = KIND_RELEASE")
    case True
    then obtain one two where r: "parse_release h js vf first = Inr one" "parse_release h js vf second = Inr two"
      "rd_publisher one = pub" "rd_publisher two = pub" "rd_version one = rd_version two" "rd_sha256 one \<noteq> rd_sha256 two"
      "subject = key_id h pub"
      using p by (auto simp: release_pair_def split: sum.splits if_splits)
    with parsed_release_signed [OF r(1)] parsed_release_signed [OF r(2)] show ?thesis by metis
  next
    case False
    then obtain one two where r: "parse_claim h u vf first = Inr (Some one)" "parse_claim h u vf second = Inr (Some two)"
      "cl_pubkey one = pub" "cl_pubkey two = pub" "cl_ts one = cl_ts two" "cl_pseudo one \<noteq> cl_pseudo two" "subject = cl_node one"
      using p by (auto simp: pseudo_pair_def split: sum.splits option.splits if_splits)
    from parsed_claim_signed [OF r(1)] parsed_claim_signed [OF r(2)] r obtain e1 e2 s1 s2 where
      e: "utf8_encode (cl_pseudo one) = Inr e1" "utf8_encode (cl_pseudo two) = Inr e2" "subject = key_id h pub"
        "vf (claim_input subject e1 (cl_ts one)) s1 pub" "vf (claim_input subject e2 (cl_ts one)) s2 pub" by metis
    have "e1 \<noteq> e2" using e(1,2) r(6) utf8_inj by blast
    with e show ?thesis by blast
  qed
qed

lemma pseudo_proof_verifies:
  assumes "parse_claim h u vf first = Inr (Some one)" "parse_claim h u vf second = Inr (Some two)"
    and "cl_pubkey one = cl_pubkey two" "cl_ts one = cl_ts two" "cl_pseudo one \<noteq> cl_pseudo two"
    and "equiv_build KIND_PSEUDO first second = Inr pr"
  shows "equiv_verify h js u vf pr = Some (KIND_PSEUDO, cl_node one, cl_pubkey one)"
proof -
  have "first \<noteq> second" using assms(1,2,5) by auto
  with assms equiv_split_build [OF assms(6)] show ?thesis
    by (simp add: equiv_verify_def pseudo_pair_def KIND_PSEUDO_def KIND_RELEASE_def)
qed

lemma contradiction_proved:
  assumes "parse_claim h u vf first = Inr (Some one)" "parse_claim h u vf second = Inr (Some two)"
    and "cl_pubkey one = cl_pubkey two" "cl_ts one = cl_ts two" "cl_pseudo one \<noteq> cl_pseudo two"
  shows "\<exists>proof. equiv_build KIND_PSEUDO first second = Inr proof \<and>
    equiv_verify h js u vf proof = Some (KIND_PSEUDO, cl_node one, cl_pubkey one)"
proof -
  have l: "first \<noteq> []" "second \<noteq> []" "length first \<le> MAX_CLAIM" "length second \<le> MAX_CLAIM"
    using assms(1,2) by (auto simp: parse_claim_def CLAIM_HDR_SIZE_def split: if_splits)
  then obtain pr where b: "equiv_build KIND_PSEUDO first second = Inr pr"
    by (simp add: equiv_build_def EQ_KINDS_def EQ_MAX_RECORD_def pack_uint_def claim_sizes)
  from pseudo_proof_verifies [OF assms b] b show ?thesis by blast
qed

text \<open>
  A contradiction that was seen can be shown. Two claims that a node parsed, by one key, for one instant, of
  different names, make a proof that every node with the same verifier accepts against that key.
\<close>
theorem contradiction_convicts:
  assumes "parse_claim h u vf first = Inr (Some one)" "parse_claim h u vf second = Inr (Some two)"
    and "cl_pubkey one = cl_pubkey two" "cl_ts one = cl_ts two" "cl_pseudo one \<noteq> cl_pseudo two"
  shows "\<exists>proof. equiv_build KIND_PSEUDO first second = Inr proof \<and>
    equiv_verify h js u vf proof = Some (KIND_PSEUDO, cl_node one, cl_pubkey one)"
  by (rule contradiction_proved [OF assms])

definition demo_key_b :: bytes where
  "demo_key_b = take 20 (h_sha256 flat_hash (NAME_DOMAIN @ ascii '':'' @ [98]))"

lemma demo_fold_b: "fold_name plain_unicode [98] = [98]" "key_terms plain_unicode [98] = [[98]]"
  "is_canonical plain_unicode [98]"
  by code_simp+

lemma demo_bytes_b: "utf8_encode [98] = Inr [98]"
  by (simp add: utf8_encode_def scalar_def utf8_char_def byte_of_def)

lemma demo_name_b: "dir_key flat_hash plain_unicode [98] = Inr demo_key_b" "dir_keys flat_hash plain_unicode [98] = Inr [demo_key_b]"
  by (simp_all add: dir_key_def dir_keys_def term_key_def demo_fold_b demo_bytes_b demo_key_b_def NAME_KEY_LEN_def)

lemma demo_two_names:
  obtains first second one two where "parse_claim flat_hash plain_unicode (\<lambda>_ _ k. k = [5]) first = Inr (Some one)"
    "parse_claim flat_hash plain_unicode (\<lambda>_ _ k. k = [5]) second = Inr (Some two)"
    "cl_pubkey one = cl_pubkey two" "cl_ts one = cl_ts two" "cl_pseudo one \<noteq> cl_pseudo two"
proof -
  obtain first where a: "build_claim flat_hash plain_unicode [97] [5] (\<lambda>_. [9]) 7 = Inr first"
    by (simp add: build_claim_def demo_fold demo_name_bytes claim_sizes)
  obtain second where b: "build_claim flat_hash plain_unicode [98] [5] (\<lambda>_. [9]) 7 = Inr second"
    by (simp add: build_claim_def demo_fold_b demo_bytes_b claim_sizes)
  from that [OF parse_built_claim [where vf = "\<lambda>_ _ k. k = [5]", OF a _ demo_name]
      parse_built_claim [where vf = "\<lambda>_ _ k. k = [5]", OF b _ demo_name_b]] show ?thesis by simp
qed

theorem contradiction_convicts_witness:
  "\<exists>proof subject pub. equiv_verify flat_hash undefined plain_unicode (\<lambda>_ _ k. k = [5]) proof = Some (KIND_PSEUDO, subject, pub)"
proof -
  obtain first second one two where d: "parse_claim flat_hash plain_unicode (\<lambda>_ _ k. k = [5]) first = Inr (Some one)"
    "parse_claim flat_hash plain_unicode (\<lambda>_ _ k. k = [5]) second = Inr (Some two)"
    "cl_pubkey one = cl_pubkey two" "cl_ts one = cl_ts two" "cl_pseudo one \<noteq> cl_pseudo two" by (rule demo_two_names)
  from contradiction_convicts [OF d] show ?thesis by blast
qed

theorem conviction_needs_the_key_witness:
  "\<exists>proof subject pub. equiv_verify flat_hash undefined plain_unicode (\<lambda>_ _ k. k = [5]) proof = Some (KIND_PSEUDO, subject, pub) \<and>
     subject = key_id flat_hash pub"
proof -
  obtain first second one two where d: "parse_claim flat_hash plain_unicode (\<lambda>_ _ k. k = [5]) first = Inr (Some one)"
    "parse_claim flat_hash plain_unicode (\<lambda>_ _ k. k = [5]) second = Inr (Some two)"
    "cl_pubkey one = cl_pubkey two" "cl_ts one = cl_ts two" "cl_pseudo one \<noteq> cl_pseudo two" by (rule demo_two_names)
  from contradiction_proved [OF d, where js = undefined] obtain pr where
    "equiv_verify flat_hash undefined plain_unicode (\<lambda>_ _ k. k = [5]) pr = Some (KIND_PSEUDO, cl_node one, cl_pubkey one)" by blast
  with conviction_needs_the_key [OF this] show ?thesis by blast
qed

end
