(* ===== verification/NameBook.thy ===== *)
theory NameBook
  imports Equivocation
begin

text \<open>
  The book of pseudos (\<open>src/pseudo_dir.py\<close>, class \<open>PseudoBook\<close>): one entry per node id, found by node and by
  directory key, bounded in entries and in bytes.
\<close>

record name_entry =
  nm_ts :: nat
  nm_pseudo :: pystr
  nm_key :: bytes
  nm_keys :: "bytes list"
  nm_raw :: bytes
  nm_folded :: pystr

record name_book =
  nb_max_nodes :: nat
  nb_max_bytes :: nat
  nb_max_per_key :: nat
  nb_by_node :: "(node_id, name_entry) odict"
  nb_by_key :: "(bytes, node_id list) odict"
  nb_bytes :: nat
  nb_equiv :: "(node_id, bytes) odict"

definition MAX_NAME_NODES :: nat where "MAX_NAME_NODES = 1024"
definition MAX_NAME_BYTES :: nat where "MAX_NAME_BYTES = 4 * 1024 * 1024"
definition MAX_EQUIVOCATIONS :: nat where "MAX_EQUIVOCATIONS = 8"

definition new_name_book :: "nat \<Rightarrow> nat \<Rightarrow> nat \<Rightarrow> name_book" where
  "new_name_book max_nodes max_bytes max_per_key =
     \<lparr> nb_max_nodes = max_nodes, nb_max_bytes = max_bytes, nb_max_per_key = max_per_key, nb_by_node = [], nb_by_key = [],
       nb_bytes = 0, nb_equiv = [] \<rparr>"

section \<open>The index\<close>

definition entry_keys :: "name_entry \<Rightarrow> bytes list" where
  "entry_keys e = (if nm_keys e = [] then [nm_key e] else nm_keys e)"

definition bucket_of :: "(bytes, node_id list) odict \<Rightarrow> bytes \<Rightarrow> node_id list" where
  "bucket_of idx key = (case map_of idx key of None \<Rightarrow> [] | Some b \<Rightarrow> b)"

text \<open>\<open>del bucket[:-n]\<close>, which deletes nothing when \<open>n\<close> is 0.\<close>

definition keep_newest :: "nat \<Rightarrow> 'a list \<Rightarrow> 'a list" where
  "keep_newest n xs = (if n = 0 then xs else drop (length xs - n) xs)"

fun index_name :: "nat \<Rightarrow> node_id \<Rightarrow> bytes list \<Rightarrow> (bytes, node_id list) odict \<Rightarrow> (bytes, node_id list) odict" where
  "index_name m nid [] idx = idx"
| "index_name m nid (k # ks) idx = index_name m nid ks (AList.update k (keep_newest m (bucket_of idx k @ [nid])) idx)"

fun unindex_name :: "node_id \<Rightarrow> bytes list \<Rightarrow> (bytes, node_id list) odict \<Rightarrow> (bytes, node_id list) odict" where
  "unindex_name nid [] idx = idx"
| "unindex_name nid (k # ks) idx =
     unindex_name nid ks
       (case map_of idx k of
          None \<Rightarrow> idx
        | Some bucket \<Rightarrow> if remove1 nid bucket = [] then AList.delete k idx else AList.update k (remove1 nid bucket) idx)"

fun evict_names ::
  "nat \<Rightarrow> nat \<Rightarrow> (node_id, name_entry) odict \<Rightarrow> (bytes, node_id list) odict \<Rightarrow> nat
     \<Rightarrow> (node_id, name_entry) odict \<times> (bytes, node_id list) odict \<times> nat" where
  "evict_names m b [] idx used = ([], idx, used)"
| "evict_names m b ((nid, e) # d) idx used =
     (if m < length ((nid, e) # d) \<or> b < used
      then evict_names m b d (unindex_name nid (entry_keys e) idx) (used - length (nm_raw e))
      else ((nid, e) # d, idx, used))"

definition enforce_name_bounds :: "name_book \<Rightarrow> name_book" where
  "enforce_name_bounds b =
     (let (d, idx, used) = evict_names (nb_max_nodes b) (nb_max_bytes b) (nb_by_node b) (nb_by_key b) (nb_bytes b)
      in b\<lparr> nb_by_node := d, nb_by_key := idx, nb_bytes := used \<rparr>)"

section \<open>Taking a claim\<close>

definition note_equivocation :: "node_id \<Rightarrow> bytes \<Rightarrow> bytes \<Rightarrow> name_book \<Rightarrow> name_book" where
  "note_equivocation nid held incoming b =
     (if nid \<in> set (od_keys (nb_equiv b)) \<or> MAX_EQUIVOCATIONS \<le> length (nb_equiv b) then b
      else case equiv_build KIND_PSEUDO held incoming of
        Inl _ \<Rightarrow> b
      | Inr proof \<Rightarrow> b\<lparr> nb_equiv := nb_equiv b @ [(nid, proof)] \<rparr>)"

definition unindex_entry :: "node_id \<Rightarrow> name_entry \<Rightarrow> name_book \<Rightarrow> name_book" where
  "unindex_entry nid e b =
     b\<lparr> nb_bytes := nb_bytes b - length (nm_raw e), nb_by_key := unindex_name nid (entry_keys e) (nb_by_key b) \<rparr>"

definition entry_of :: "unicode \<Rightarrow> name_claim \<Rightarrow> bytes \<Rightarrow> name_entry" where
  "entry_of u c raw =
     \<lparr> nm_ts = cl_ts c, nm_pseudo = cl_pseudo c, nm_key = cl_key c,
       nm_keys = (if cl_keys c = [] then [cl_key c] else cl_keys c), nm_raw = raw, nm_folded = fold_name u (cl_pseudo c) \<rparr>"

definition take_claim :: "unicode \<Rightarrow> name_claim \<Rightarrow> bytes \<Rightarrow> name_book \<Rightarrow> bool \<times> name_book" where
  "take_claim u c raw b =
     (let e = entry_of u c raw;
          b = enforce_name_bounds (b\<lparr> nb_by_node := od_put_last (cl_node c) e (nb_by_node b), nb_bytes := nb_bytes b + length raw,
                nb_by_key := index_name (nb_max_per_key b) (cl_node c) (nm_keys e) (nb_by_key b) \<rparr>)
      in (cl_node c \<in> set (od_keys (nb_by_node b)), b))"

definition name_offer :: "unicode \<Rightarrow> name_claim \<Rightarrow> bytes \<Rightarrow> name_book \<Rightarrow> bool \<times> name_book" where
  "name_offer u c raw b =
     (if MAX_CLAIM < length raw then (False, b)
      else case map_of (nb_by_node b) (cl_node c) of
        None \<Rightarrow> take_claim u c raw b
      | Some cur \<Rightarrow>
          (let b = (if cl_ts c = nm_ts cur \<and> cl_pseudo c \<noteq> nm_pseudo cur
                    then note_equivocation (cl_node c) (nm_raw cur) raw b else b)
           in if cl_ts c \<le> nm_ts cur then (False, b)
              else take_claim u c raw (unindex_entry (cl_node c) cur b)))"

definition name_forget :: "node_id \<Rightarrow> name_book \<Rightarrow> name_book" where
  "name_forget nid b =
     (case map_of (nb_by_node b) nid of
        None \<Rightarrow> b
      | Some e \<Rightarrow> unindex_entry nid e (b\<lparr> nb_by_node := AList.delete nid (nb_by_node b) \<rparr>))"

section \<open>Reading\<close>

definition names_get :: "bytes \<Rightarrow> name_book \<Rightarrow> bytes list" where
  "names_get key b =
     concat (map (\<lambda>nid. case map_of (nb_by_node b) nid of None \<Rightarrow> [] | Some e \<Rightarrow> [nm_raw e]) (bucket_of (nb_by_key b) key))"

definition pseudo_of :: "node_id \<Rightarrow> name_book \<Rightarrow> pystr option" where
  "pseudo_of nid b = map_option nm_pseudo (map_of (nb_by_node b) nid)"

definition name_ts_of :: "node_id \<Rightarrow> name_book \<Rightarrow> nat option" where
  "name_ts_of nid b = map_option nm_ts (map_of (nb_by_node b) nid)"

definition claim_of :: "node_id \<Rightarrow> name_book \<Rightarrow> bytes option" where
  "claim_of nid b = map_option nm_raw (map_of (nb_by_node b) nid)"

definition name_claims :: "name_book \<Rightarrow> bytes list" where
  "name_claims b = map (\<lambda>(_, e). nm_raw e) (nb_by_node b)"

definition recent_claims :: "int \<Rightarrow> name_book \<Rightarrow> bytes list" where
  "recent_claims limit b = take (nat (max 0 limit)) (rev (name_claims b))"

definition equivocated :: "node_id \<Rightarrow> name_book \<Rightarrow> bytes option" where
  "equivocated nid b = map_of (nb_equiv b) nid"

section \<open>The index names what is held\<close>

lemma bucket_of_update: "bucket_of (AList.update k v idx) key = (if key = k then v else bucket_of idx key)"
  by (simp add: bucket_of_def update_conv')

lemma bucket_of_delete: "bucket_of (AList.delete k idx) key = (if key = k then [] else bucket_of idx key)"
  by (simp add: bucket_of_def delete_conv')

lemma count_remove1: "count_list (remove1 x xs) y = (if x = y then count_list xs y - 1 else count_list xs y)"
  by (induction xs) (auto simp: count_list_0_iff)

lemma bucket_of_unindex_step:
  "bucket_of (case map_of idx k of None \<Rightarrow> idx
     | Some bucket \<Rightarrow> if remove1 nid bucket = [] then AList.delete k idx else AList.update k (remove1 nid bucket) idx) key =
   (if key = k then remove1 nid (bucket_of idx k) else bucket_of idx key)"
  by (auto simp: bucket_of_update bucket_of_delete split: option.split) (simp_all add: bucket_of_def)

lemma count_unindex:
  "count_list (bucket_of (unindex_name nid ks idx) key) n =
     (if n = nid then count_list (bucket_of idx key) n - count_list ks key else count_list (bucket_of idx key) n)"
  by (induction ks arbitrary: idx) (auto simp: bucket_of_unindex_step count_remove1)

lemma count_keep_newest: "count_list (keep_newest m xs) n \<le> count_list xs n"
proof -
  have "count_list (drop k xs) n \<le> count_list xs n" for k
    by (metis append_take_drop_id count_list_append le_add2)
  then show ?thesis by (simp add: keep_newest_def)
qed

lemma count_index:
  "count_list (bucket_of (index_name m nid ks idx) key) n \<le>
     count_list (bucket_of idx key) n + (if n = nid then count_list ks key else 0)"
proof (induction ks arbitrary: idx)
  case (Cons k ks)
  let ?idx = "AList.update k (keep_newest m (bucket_of idx k @ [nid])) idx"
  have "count_list (bucket_of ?idx key) n \<le> count_list (bucket_of idx key) n + (if n = nid \<and> key = k then 1 else 0)"
    using count_keep_newest [of m "bucket_of idx k @ [nid]" n] by (auto simp: bucket_of_update)
  with Cons.IH [of ?idx] show ?case by (auto split: if_splits)
qed simp

definition index_ok :: "nat \<Rightarrow> (bytes, node_id list) odict \<Rightarrow> bool" where
  "index_ok m idx \<longleftrightarrow> od_ok idx \<and> od_all (\<lambda>_ bucket. bucket \<noteq> [] \<and> (0 < m \<longrightarrow> length bucket \<le> m)) idx"

lemma index_ok_unindex: "index_ok m idx \<Longrightarrow> index_ok m (unindex_name nid ks idx)"
proof (induction ks arbitrary: idx)
  case (Cons k ks)
  have "index_ok m (case map_of idx k of None \<Rightarrow> idx
     | Some bucket \<Rightarrow> if remove1 nid bucket = [] then AList.delete k idx else AList.update k (remove1 nid bucket) idx)"
    using Cons.prems od_allD [of _ idx k]
    by (auto simp: index_ok_def od_all_delete length_remove1 split: option.split intro!: od_all_update)
      (force simp: length_remove1)+
  from Cons.IH [OF this] show ?case by simp
qed simp

lemma index_ok_index: "index_ok m idx \<Longrightarrow> index_ok m (index_name m nid ks idx)"
proof (induction ks arbitrary: idx)
  case (Cons k ks)
  have "index_ok m (AList.update k (keep_newest m (bucket_of idx k @ [nid])) idx)"
    using Cons.prems by (auto simp: index_ok_def keep_newest_def intro!: od_all_update)
  from Cons.IH [OF this] show ?case by simp
qed simp

text \<open>Every pointer of the index is accounted for by a key its entry was filed under.\<close>

definition index_sound :: "(node_id, name_entry) odict \<Rightarrow> (bytes, node_id list) odict \<Rightarrow> bool" where
  "index_sound d idx \<longleftrightarrow>
     (\<forall>key n. count_list (bucket_of idx key) n \<le> (case map_of d n of None \<Rightarrow> 0 | Some e \<Rightarrow> count_list (entry_keys e) key))"

lemma index_sound_unindex:
  assumes "index_sound d idx" "map_of d nid = Some e"
  shows "index_sound (AList.delete nid d) (unindex_name nid (entry_keys e) idx)"
  unfolding index_sound_def
proof (intro allI)
  fix key n
  have c: "count_list (bucket_of idx key) n \<le> (case map_of d n of None \<Rightarrow> 0 | Some e \<Rightarrow> count_list (entry_keys e) key)"
    using assms(1) unfolding index_sound_def by blast
  show "count_list (bucket_of (unindex_name nid (entry_keys e) idx) key) n \<le>
      (case map_of (AList.delete nid d) n of None \<Rightarrow> 0 | Some e \<Rightarrow> count_list (entry_keys e) key)"
    using c assms(2) by (cases "n = nid") (simp_all add: count_unindex delete_conv')
qed

lemma index_sound_index:
  assumes "index_sound (AList.delete nid d) idx" "entry_keys e = ks"
  shows "index_sound (od_put_last nid e d) (index_name m nid ks idx)"
  unfolding index_sound_def
proof (intro allI)
  fix key n
  have c: "count_list (bucket_of idx key) n \<le> (case map_of (AList.delete nid d) n of None \<Rightarrow> 0 | Some e \<Rightarrow> count_list (entry_keys e) key)"
    using assms(1) unfolding index_sound_def by blast
  show "count_list (bucket_of (index_name m nid ks idx) key) n \<le>
      (case map_of (od_put_last nid e d) n of None \<Rightarrow> 0 | Some e \<Rightarrow> count_list (entry_keys e) key)"
    using c count_index [of m nid ks idx key n] assms(2) by (cases "n = nid") (simp_all add: map_of_put_last delete_conv')
qed

section \<open>The invariant\<close>

definition raw_bytes :: "(node_id, name_entry) odict \<Rightarrow> nat" where
  "raw_bytes d = sum_list (map (\<lambda>(_, e). length (nm_raw e)) d)"

lemma raw_bytes_simps [simp]: "raw_bytes [] = 0" "raw_bytes (p # d) = length (nm_raw (snd p)) + raw_bytes d"
  "raw_bytes (d @ d') = raw_bytes d + raw_bytes d'"
  by (simp_all add: raw_bytes_def case_prod_unfold)

lemma raw_bytes_delete: "od_ok d \<Longrightarrow> map_of d nid = Some e \<Longrightarrow> raw_bytes (AList.delete nid d) = raw_bytes d - length (nm_raw e)"
proof (induction d)
  case (Cons p d)
  have "length (nm_raw e) \<le> raw_bytes d" if "map_of d nid = Some e" using that by (induction d) (auto split: if_splits)
  with Cons show ?case by (cases p) (auto simp: delete_absent split: if_splits)
qed simp

definition tables_ok :: "nat \<Rightarrow> (node_id, name_entry) odict \<Rightarrow> (bytes, node_id list) odict \<Rightarrow> nat \<Rightarrow> bool" where
  "tables_ok m d idx used \<longleftrightarrow> od_ok d \<and> used = raw_bytes d \<and> index_ok m idx \<and> index_sound d idx"

definition name_book_ok :: "name_book \<Rightarrow> bool" where
  "name_book_ok b \<longleftrightarrow>
     tables_ok (nb_max_per_key b) (nb_by_node b) (nb_by_key b) (nb_bytes b) \<and>
     length (nb_by_node b) \<le> nb_max_nodes b \<and> nb_bytes b \<le> nb_max_bytes b \<and> length (nb_equiv b) \<le> MAX_EQUIVOCATIONS"

lemma tables_ok_unindex:
  assumes "tables_ok m d idx used" "map_of d nid = Some e"
  shows "tables_ok m (AList.delete nid d) (unindex_name nid (entry_keys e) idx) (used - length (nm_raw e))"
  using assms by (simp add: tables_ok_def raw_bytes_delete index_ok_unindex index_sound_unindex)

lemma evict_names_ok:
  assumes "tables_ok mk d idx used" "evict_names m b d idx used = (d', idx', used')"
  shows "(\<exists>n. d' = drop n d) \<and> tables_ok mk d' idx' used' \<and> length d' \<le> m \<and> used' \<le> b"
  using assms
proof (induction d arbitrary: idx used)
  case Nil
  then show ?case by (auto simp: tables_ok_def)
next
  case (Cons p d)
  obtain nid e where p: "p = (nid, e)" by (cases p)
  show ?case
  proof (cases "m < length (p # d) \<or> b < used")
    case True
    have "AList.delete nid (p # d) = d" using Cons.prems(1) by (auto simp: p tables_ok_def delete_absent)
    then have "tables_ok mk d (unindex_name nid (entry_keys e) idx) (used - length (nm_raw e))"
      using tables_ok_unindex [OF Cons.prems(1), of nid e] by (simp add: p)
    from Cons.IH [OF this] True Cons.prems(2) obtain n where
      "d' = drop (Suc n) (p # d)" "tables_ok mk d' idx' used'" "length d' \<le> m" "used' \<le> b" by (auto simp: p)
    then show ?thesis by blast
  next
    case False
    with Cons.prems have e: "d' = p # d" "idx' = idx" "used' = used" by (auto simp: p)
    show ?thesis using False Cons.prems(1) by (intro conjI exI [of _ "0 :: nat"]) (simp_all add: e)
  qed
qed

text \<open>What a claim is worth is what parses back from its bytes.\<close>

definition genuine :: "hash_env \<Rightarrow> unicode \<Rightarrow> verifier \<Rightarrow> node_id \<Rightarrow> name_entry \<Rightarrow> bool" where
  "genuine h u vf nid e \<longleftrightarrow>
     (\<exists>c. parse_claim h u vf (nm_raw e) = Inr (Some c) \<and> cl_node c = nid \<and> e = entry_of u c (nm_raw e))"

text \<open>A kept proof pairs two claims of the node for one instant; it convicts their key.\<close>

definition proof_genuine :: "hash_env \<Rightarrow> json_codec \<Rightarrow> unicode \<Rightarrow> verifier \<Rightarrow> node_id \<Rightarrow> bytes \<Rightarrow> bool" where
  "proof_genuine h js u vf nid pr \<longleftrightarrow>
     (\<exists>a b ca cb. equiv_split pr = Some (KIND_PSEUDO, a, b) \<and> parse_claim h u vf a = Inr (Some ca) \<and>
        parse_claim h u vf b = Inr (Some cb) \<and> cl_node ca = nid \<and> cl_node cb = nid \<and> cl_ts ca = cl_ts cb \<and>
        cl_pseudo ca \<noteq> cl_pseudo cb \<and>
        (cl_pubkey ca = cl_pubkey cb \<longrightarrow> equiv_verify h js u vf pr = Some (KIND_PSEUDO, nid, cl_pubkey ca)))"

definition book_genuine :: "hash_env \<Rightarrow> json_codec \<Rightarrow> unicode \<Rightarrow> verifier \<Rightarrow> name_book \<Rightarrow> bool" where
  "book_genuine h js u vf b \<longleftrightarrow>
     od_all (genuine h u vf) (nb_by_node b) \<and> od_all (proof_genuine h js u vf) (nb_equiv b)"

lemma od_all_drop: "od_all P d \<Longrightarrow> od_all P (drop n d)"
  by (auto simp: od_all_def dest: in_set_dropD)

lemma entry_keys_of [simp]: "entry_keys (entry_of u c raw) = (if cl_keys c = [] then [cl_key c] else cl_keys c)"
  "nm_keys (entry_of u c raw) = entry_keys (entry_of u c raw)" "nm_raw (entry_of u c raw) = raw" "nm_ts (entry_of u c raw) = cl_ts c"
  "nm_pseudo (entry_of u c raw) = cl_pseudo c"
  by (simp_all add: entry_keys_def entry_of_def)

text \<open>Taking a claim whose node is not in the index: what the tables are afterwards.\<close>

lemma take_claim_spec:
  assumes "tables_ok (nb_max_per_key b) (AList.delete (cl_node c) (nb_by_node b)) (nb_by_key b) (nb_bytes b)"
    and "take_claim u c raw b = (changed, b')"
  obtains n where "nb_by_node b' = drop n (AList.delete (cl_node c) (nb_by_node b) @ [(cl_node c, entry_of u c raw)])"
    "tables_ok (nb_max_per_key b) (nb_by_node b') (nb_by_key b') (nb_bytes b')"
    "length (nb_by_node b') \<le> nb_max_nodes b" "nb_bytes b' \<le> nb_max_bytes b"
    "nb_equiv b' = nb_equiv b" "nb_max_nodes b' = nb_max_nodes b" "nb_max_bytes b' = nb_max_bytes b"
    "nb_max_per_key b' = nb_max_per_key b" "changed \<longleftrightarrow> cl_node c \<in> set (od_keys (nb_by_node b'))"
proof -
  let ?e = "entry_of u c raw" and ?nid = "cl_node c"
  let ?d = "od_put_last ?nid ?e (nb_by_node b)" and ?idx = "index_name (nb_max_per_key b) ?nid (entry_keys ?e) (nb_by_key b)"
  have gone: "(?nid, x) \<notin> set (AList.delete ?nid d)" for x and d :: "(node_id, name_entry) odict"
    by (simp add: AList.delete_eq)
  have t: "tables_ok (nb_max_per_key b) ?d ?idx (nb_bytes b + length raw)"
    using assms(1) index_sound_index [of ?nid "nb_by_node b" "nb_by_key b" ?e "entry_keys ?e"]
    by (auto simp: tables_ok_def index_ok_index od_put_last_def gone simp del: entry_keys_of(1))
  obtain d' idx' used' where e: "evict_names (nb_max_nodes b) (nb_max_bytes b) ?d ?idx (nb_bytes b + length raw) = (d', idx', used')"
    by (metis prod_cases3)
  have b': "b' = b\<lparr> nb_by_node := d', nb_by_key := idx', nb_bytes := used' \<rparr>" "changed \<longleftrightarrow> ?nid \<in> set (od_keys d')"
    using assms(2) e by (auto simp: take_claim_def Let_def enforce_name_bounds_def simp del: entry_keys_of(1))
  from evict_names_ok [OF t e] obtain n where
    n: "d' = drop n ?d" "tables_ok (nb_max_per_key b) d' idx' used'" "length d' \<le> nb_max_nodes b" "used' \<le> nb_max_bytes b" by blast
  show ?thesis by (rule that [of n]) (use n b' in \<open>simp_all add: od_put_last_def\<close>)
qed

lemma note_equivocation_same [simp]:
  "nb_by_node (note_equivocation nid held incoming b) = nb_by_node b"
  "nb_by_key (note_equivocation nid held incoming b) = nb_by_key b"
  "nb_bytes (note_equivocation nid held incoming b) = nb_bytes b"
  "nb_max_nodes (note_equivocation nid held incoming b) = nb_max_nodes b"
  "nb_max_bytes (note_equivocation nid held incoming b) = nb_max_bytes b"
  "nb_max_per_key (note_equivocation nid held incoming b) = nb_max_per_key b"
  by (simp_all add: note_equivocation_def split: sum.split)

lemma note_equivocation_length:
  "length (nb_equiv b) \<le> MAX_EQUIVOCATIONS \<Longrightarrow> length (nb_equiv (note_equivocation nid held incoming b)) \<le> MAX_EQUIVOCATIONS"
  by (simp add: note_equivocation_def split: sum.split)

text \<open>The ways an offer ends.\<close>

lemma name_offer_cases:
  obtains (too_large) "name_offer u c raw b = (False, b)"
  | (stale) cur b1 where "name_offer u c raw b = (False, b1)" "map_of (nb_by_node b) (cl_node c) = Some cur" "cl_ts c \<le> nm_ts cur"
      "b1 = (if cl_ts c = nm_ts cur \<and> cl_pseudo c \<noteq> nm_pseudo cur then note_equivocation (cl_node c) (nm_raw cur) raw b else b)"
  | (newer) cur where "name_offer u c raw b = take_claim u c raw (unindex_entry (cl_node c) cur b)"
      "map_of (nb_by_node b) (cl_node c) = Some cur" "nm_ts cur < cl_ts c" "length raw \<le> MAX_CLAIM"
  | (first) "name_offer u c raw b = take_claim u c raw b" "map_of (nb_by_node b) (cl_node c) = None" "length raw \<le> MAX_CLAIM"
  by (cases "MAX_CLAIM < length raw"; cases "map_of (nb_by_node b) (cl_node c)"; cases "cl_ts c \<le> nm_ts (the (map_of (nb_by_node b) (cl_node c)))")
    (auto simp: name_offer_def Let_def split: if_splits)

lemma unindex_entry_equiv: "nb_equiv (unindex_entry nid e b) = nb_equiv b"
  by (simp add: unindex_entry_def)

lemma take_claim_same [simp]: "nb_equiv (snd (take_claim u c raw b)) = nb_equiv b"
  "nb_max_nodes (snd (take_claim u c raw b)) = nb_max_nodes b" "nb_max_bytes (snd (take_claim u c raw b)) = nb_max_bytes b"
  "nb_max_per_key (snd (take_claim u c raw b)) = nb_max_per_key b"
  by (simp_all add: take_claim_def Let_def enforce_name_bounds_def split: prod.split)

lemma name_offer_same: "nb_max_nodes (snd (name_offer u c raw b)) = nb_max_nodes b"
  "nb_max_bytes (snd (name_offer u c raw b)) = nb_max_bytes b"
  by (simp_all add: name_offer_def Let_def unindex_entry_def split: option.split)

text \<open>Where a claim is taken, the tables are in order without its node.\<close>

lemma tables_ready:
  assumes "name_book_ok b"
  shows "map_of (nb_by_node b) nid = None \<Longrightarrow> tables_ok (nb_max_per_key b) (AList.delete nid (nb_by_node b)) (nb_by_key b) (nb_bytes b)"
    and "map_of (nb_by_node b) nid = Some cur \<Longrightarrow>
      tables_ok (nb_max_per_key (unindex_entry nid cur b)) (AList.delete nid (nb_by_node (unindex_entry nid cur b)))
        (nb_by_key (unindex_entry nid cur b)) (nb_bytes (unindex_entry nid cur b))"
proof -
  have t: "tables_ok (nb_max_per_key b) (nb_by_node b) (nb_by_key b) (nb_bytes b)" using assms by (simp add: name_book_ok_def)
  show "tables_ok (nb_max_per_key b) (AList.delete nid (nb_by_node b)) (nb_by_key b) (nb_bytes b)" if "map_of (nb_by_node b) nid = None"
    using t that by (simp add: delete_absent map_of_eq_None_iff)
  show "tables_ok (nb_max_per_key (unindex_entry nid cur b)) (AList.delete nid (nb_by_node (unindex_entry nid cur b)))
        (nb_by_key (unindex_entry nid cur b)) (nb_bytes (unindex_entry nid cur b))" if "map_of (nb_by_node b) nid = Some cur"
    using tables_ok_unindex [OF t that] by (simp add: unindex_entry_def)
qed

text \<open>What an offer does to the tables, whichever way it ends.\<close>

lemma name_offer_spec:
  assumes "name_book_ok b" "name_offer u c raw b = (changed, b')"
  shows "name_book_ok b'" "nb_max_nodes b' = nb_max_nodes b" "nb_max_bytes b' = nb_max_bytes b" "nb_max_per_key b' = nb_max_per_key b"
    and "nb_by_node b' = nb_by_node b \<and> \<not> changed \<or>
      (\<exists>n. nb_by_node b' = drop n (AList.delete (cl_node c) (nb_by_node b) @ [(cl_node c, entry_of u c raw)])) \<and>
      (changed \<longleftrightarrow> cl_node c \<in> set (od_keys (nb_by_node b'))) \<and> nb_equiv b' = nb_equiv b \<and>
      (\<forall>cur. map_of (nb_by_node b) (cl_node c) = Some cur \<longrightarrow> nm_ts cur < cl_ts c)"
proof -
  have eq: "length (nb_equiv b) \<le> MAX_EQUIVOCATIONS" using assms(1) by (simp add: name_book_ok_def)
  have "name_book_ok b' \<and> nb_max_nodes b' = nb_max_nodes b \<and> nb_max_bytes b' = nb_max_bytes b \<and> nb_max_per_key b' = nb_max_per_key b \<and>
    (nb_by_node b' = nb_by_node b \<and> \<not> changed \<or>
      (\<exists>n. nb_by_node b' = drop n (AList.delete (cl_node c) (nb_by_node b) @ [(cl_node c, entry_of u c raw)])) \<and>
      (changed \<longleftrightarrow> cl_node c \<in> set (od_keys (nb_by_node b'))) \<and> nb_equiv b' = nb_equiv b \<and>
      (\<forall>cur. map_of (nb_by_node b) (cl_node c) = Some cur \<longrightarrow> nm_ts cur < cl_ts c))"
  proof (cases rule: name_offer_cases [of u c raw b])
    case too_large
    with assms show ?thesis by simp
  next
    case (stale cur b1)
    then have "b' = b1" "\<not> changed" using assms(2) by simp_all
    with stale(4) assms(1) note_equivocation_length [OF eq] show ?thesis by (auto simp: name_book_ok_def)
  next
    case (newer cur)
    have o: "take_claim u c raw (unindex_entry (cl_node c) cur b) = (changed, b')" using assms(2) newer(1) by simp
    show ?thesis
      by (rule take_claim_spec [OF tables_ready(2) [OF assms(1) newer(2)] o])
        (use eq newer(2,3) in \<open>auto simp: name_book_ok_def unindex_entry_def\<close>)
  next
    case first
    have o: "take_claim u c raw b = (changed, b')" using assms(2) first(1) by simp
    show ?thesis
      by (rule take_claim_spec [OF tables_ready(1) [OF assms(1) first(2)] o])
        (use eq first(2) in \<open>auto simp: name_book_ok_def\<close>)
  qed
  then show "name_book_ok b'" "nb_max_nodes b' = nb_max_nodes b" "nb_max_bytes b' = nb_max_bytes b" "nb_max_per_key b' = nb_max_per_key b"
    and "nb_by_node b' = nb_by_node b \<and> \<not> changed \<or>
      (\<exists>n. nb_by_node b' = drop n (AList.delete (cl_node c) (nb_by_node b) @ [(cl_node c, entry_of u c raw)])) \<and>
      (changed \<longleftrightarrow> cl_node c \<in> set (od_keys (nb_by_node b'))) \<and> nb_equiv b' = nb_equiv b \<and>
      (\<forall>cur. map_of (nb_by_node b) (cl_node c) = Some cur \<longrightarrow> nm_ts cur < cl_ts c)"
    by blast+
qed

section \<open>A history of the book\<close>

datatype name_event = Claim_arrives bytes | Forget_name node_id

fun name_step :: "hash_env \<Rightarrow> unicode \<Rightarrow> verifier \<Rightarrow> name_event \<Rightarrow> name_book \<Rightarrow> name_book" where
  "name_step h u vf (Claim_arrives raw) b =
     (case parse_claim h u vf raw of Inr (Some c) \<Rightarrow> snd (name_offer u c raw b) | _ \<Rightarrow> b)"
| "name_step h u vf (Forget_name nid) b = name_forget nid b"

lemma name_forget_ok:
  assumes "name_book_ok b"
  shows "name_book_ok (name_forget nid b)"
proof (cases "map_of (nb_by_node b) nid")
  case (Some e)
  have t: "tables_ok (nb_max_per_key b) (nb_by_node b) (nb_by_key b) (nb_bytes b)" using assms by (simp add: name_book_ok_def)
  have "length (AList.delete nid (nb_by_node b)) \<le> length (nb_by_node b)" by (simp add: AList.delete_eq)
  with tables_ok_unindex [OF t Some] Some assms show ?thesis by (auto simp: name_forget_def unindex_entry_def name_book_ok_def)
qed (use assms in \<open>simp add: name_forget_def\<close>)

lemma name_forget_same: "nb_max_nodes (name_forget nid b) = nb_max_nodes b" "nb_max_bytes (name_forget nid b) = nb_max_bytes b"
  "nb_equiv (name_forget nid b) = nb_equiv b"
  by (simp_all add: name_forget_def unindex_entry_def split: option.split)

lemma name_step_ok:
  assumes "name_book_ok b"
  shows "name_book_ok (name_step h u vf e b)" "nb_max_nodes (name_step h u vf e b) = nb_max_nodes b"
    "nb_max_bytes (name_step h u vf e b) = nb_max_bytes b"
proof -
  have o: "name_book_ok (snd (name_offer u c raw b)) \<and> nb_max_nodes (snd (name_offer u c raw b)) = nb_max_nodes b \<and>
      nb_max_bytes (snd (name_offer u c raw b)) = nb_max_bytes b" for c raw
    using name_offer_spec(1-3) [OF assms] by (metis surjective_pairing)
  show "name_book_ok (name_step h u vf e b)" "nb_max_nodes (name_step h u vf e b) = nb_max_nodes b"
    "nb_max_bytes (name_step h u vf e b) = nb_max_bytes b"
    using o assms by (cases e; auto simp: name_forget_ok name_forget_same split: sum.split option.split)+
qed

lemma genuine_offer:
  assumes "name_book_ok b" "book_genuine h js u vf b" "parse_claim h u vf raw = Inr (Some c)"
  shows "book_genuine h js u vf (snd (name_offer u c raw b))"
proof -
  obtain changed b' where o: "name_offer u c raw b = (changed, b')" by (metis surj_pair)
  have g: "od_all (genuine h u vf) (nb_by_node b)" "od_all (proof_genuine h js u vf) (nb_equiv b)"
    using assms(2) by (simp_all add: book_genuine_def)
  have new: "genuine h u vf (cl_node c) (entry_of u c raw)" using assms(3) by (auto simp: genuine_def)
  have d: "od_all (genuine h u vf) (drop n (AList.delete (cl_node c) (nb_by_node b) @ [(cl_node c, entry_of u c raw)]))" for n
    using g(1) new by (intro od_all_drop) (simp add: od_all_delete)
  have "book_genuine h js u vf b'"
  proof (cases rule: name_offer_cases [of u c raw b])
    case too_large
    with o assms(2) show ?thesis by simp
  next
    case (stale cur b1)
    then have b': "b' = b1" using o by simp
    show ?thesis
    proof (cases "cl_ts c = nm_ts cur \<and> cl_pseudo c \<noteq> nm_pseudo cur")
      case True
      from od_allD [OF g(1) stale(2)] obtain a where
        a: "parse_claim h u vf (nm_raw cur) = Inr (Some a)" "cl_node a = cl_node c" "cur = entry_of u a (nm_raw cur)"
        by (auto simp: genuine_def)
      have s: "cl_ts a = cl_ts c" "cl_pseudo a \<noteq> cl_pseudo c" using True a(3) by (metis entry_keys_of(4), metis entry_keys_of(5))
      have "proof_genuine h js u vf (cl_node c) pr" if "equiv_build KIND_PSEUDO (nm_raw cur) raw = Inr pr" for pr
        unfolding proof_genuine_def
        by (intro exI [of _ "nm_raw cur"] exI [of _ raw] exI [of _ a] exI [of _ c] conjI impI)
          (use that a assms(3) s pseudo_proof_verifies [OF a(1) assms(3) _ s that] equiv_split_build [OF that] in auto)
      then show ?thesis using True g stale(4)
        by (auto simp: b' book_genuine_def note_equivocation_def split: sum.split)
    next
      case False
      then have "b1 = b" unfolding stale(4) by (simp only: if_False)
      with assms(2) b' show ?thesis by simp
    qed
  next
    case (newer cur)
    then have "nb_equiv b' = nb_equiv b" using o by (metis snd_conv take_claim_same(1) unindex_entry_equiv)
    with name_offer_spec(5) [OF assms(1) o] g d show ?thesis by (auto simp only: book_genuine_def)
  next
    case first
    then have "nb_equiv b' = nb_equiv b" using o by (metis snd_conv take_claim_same(1))
    with name_offer_spec(5) [OF assms(1) o] g d show ?thesis by (auto simp only: book_genuine_def)
  qed
  with o show ?thesis by simp
qed

lemma genuine_step:
  assumes "name_book_ok b" "book_genuine h js u vf b"
  shows "book_genuine h js u vf (name_step h u vf e b)"
proof (cases e)
  case (Claim_arrives raw)
  with assms genuine_offer [OF assms] show ?thesis by (auto split: sum.split option.split)
next
  case (Forget_name nid)
  with assms(2) show ?thesis
    by (auto simp: book_genuine_def name_forget_def unindex_entry_def od_all_delete split: option.split)
qed

lemma new_name_book_ok: "name_book_ok (new_name_book m b k)" "book_genuine h js u vf (new_name_book m b k)"
  by (simp_all add: name_book_ok_def new_name_book_def tables_ok_def index_ok_def index_sound_def bucket_of_def book_genuine_def)

interpretation names: bounded_book "\<lambda>b. length (nb_by_node b)" nb_max_nodes "name_step h u vf" "name_book_ok" for h u vf
proof
  fix b e
  assume "name_book_ok b"
  from name_step_ok [OF this, of h u vf e] show "length (nb_by_node (name_step h u vf e b)) \<le> nb_max_nodes b"
    and "name_book_ok (name_step h u vf e b)"
    by (simp_all add: name_book_ok_def)
next
  fix b e
  show "nb_max_nodes (name_step h u vf e b) = nb_max_nodes b"
    by (cases e) (simp_all add: name_offer_same name_forget_same split: sum.split option.split)
qed

lemma genuine_run:
  "name_book_ok b \<Longrightarrow> book_genuine h js u vf b \<Longrightarrow>
     name_book_ok (fold (name_step h u vf) es b) \<and> book_genuine h js u vf (fold (name_step h u vf) es b)"
  by (induction es arbitrary: b) (simp_all add: name_step_ok genuine_step)

lemma names_get_sound:
  assumes "name_book_ok b" "book_genuine h js u vf b" "raw \<in> set (names_get key b)"
  shows "\<exists>c. parse_claim h u vf raw = Inr (Some c) \<and> key \<in> set (cl_key c # cl_keys c)"
proof -
  from assms(3) obtain nid e where e: "nid \<in> set (bucket_of (nb_by_key b) key)" "map_of (nb_by_node b) nid = Some e" "raw = nm_raw e"
  proof -
    from assms(3) obtain nid where
      n: "nid \<in> set (bucket_of (nb_by_key b) key)"
        "raw \<in> set (case map_of (nb_by_node b) nid of None \<Rightarrow> [] | Some e \<Rightarrow> [nm_raw e])"
      by (auto simp: names_get_def)
    then show ?thesis using that by (cases "map_of (nb_by_node b) nid") auto
  qed
  have "count_list (bucket_of (nb_by_key b) key) nid \<le>
      (case map_of (nb_by_node b) nid of None \<Rightarrow> 0 | Some e \<Rightarrow> count_list (entry_keys e) key)"
    using assms(1) by (simp add: name_book_ok_def tables_ok_def index_sound_def)
  moreover have "count_list (bucket_of (nb_by_key b) key) nid \<noteq> 0" using e(1) by (simp add: count_list_0_iff)
  ultimately have "key \<in> set (entry_keys e)" using e(2) by (metis count_list_0_iff le_zero_eq option.case(2))
  moreover have "genuine h u vf nid e" using assms(2) e(2) by (auto simp: book_genuine_def dest: od_allD)
  ultimately show ?thesis using e(3) unfolding genuine_def by (metis entry_keys_of(1) list.set_intros(1) list.set_intros(2) singletonD empty_set list.simps(15))
qed

lemma evict_all:
  "evict_names m b (d @ [(n, e)]) idx (raw_bytes (d @ [(n, e)])) = ([], idx', used') \<Longrightarrow> m = 0 \<or> b < length (nm_raw e)"
proof (induction d arbitrary: idx)
  case (Cons p d)
  then show ?case by (cases p) (auto split: if_splits)
qed (auto split: if_splits)

text \<open>A claim that does not survive its own arrival would not survive another.\<close>

lemma take_claim_lost:
  assumes "tables_ok (nb_max_per_key b) (AList.delete (cl_node c) (nb_by_node b)) (nb_by_key b) (nb_bytes b)"
    and "take_claim u c raw b = (False, b')"
  shows "nb_by_node b' = [] \<and> nb_bytes b' = 0 \<and> (nb_max_nodes b' = 0 \<or> nb_max_bytes b' < length raw)"
proof (rule take_claim_spec [OF assms])
  fix n
  let ?e = "entry_of u c raw" and ?d = "AList.delete (cl_node c) (nb_by_node b)"
  assume s: "nb_by_node b' = drop n (?d @ [(cl_node c, ?e)])" "False \<longleftrightarrow> cl_node c \<in> set (od_keys (nb_by_node b'))"
    "tables_ok (nb_max_per_key b) (nb_by_node b') (nb_by_key b') (nb_bytes b')"
    "nb_max_nodes b' = nb_max_nodes b" "nb_max_bytes b' = nb_max_bytes b"
  have "length (?d @ [(cl_node c, ?e)]) \<le> n"
  proof (rule ccontr)
    assume "\<not> length (?d @ [(cl_node c, ?e)]) \<le> n"
    then have "(cl_node c, ?e) \<in> set (nb_by_node b')" unfolding s(1) by (simp add: drop_append)
    with s(2) show False by (force simp: image_iff)
  qed
  then have empty: "nb_by_node b' = []" unfolding s(1) by simp
  obtain idx' used' where e: "evict_names (nb_max_nodes b) (nb_max_bytes b) (?d @ [(cl_node c, ?e)])
      (index_name (nb_max_per_key b) (cl_node c) (entry_keys ?e) (nb_by_key b)) (nb_bytes b + length raw) = ([], idx', used')"
  proof -
    obtain d' idx' used' where ev: "evict_names (nb_max_nodes b) (nb_max_bytes b) (?d @ [(cl_node c, ?e)])
      (index_name (nb_max_per_key b) (cl_node c) (entry_keys ?e) (nb_by_key b)) (nb_bytes b + length raw) = (d', idx', used')"
      by (metis prod_cases3)
    then have "nb_by_node b' = d'"
      using assms(2) by (auto simp: take_claim_def Let_def enforce_name_bounds_def od_put_last_def simp del: entry_keys_of(1))
    with ev empty show ?thesis using that by simp
  qed
  have used: "nb_bytes b + length raw = raw_bytes (?d @ [(cl_node c, ?e)])" using assms(1) by (simp add: tables_ok_def)
  from evict_all [OF e [unfolded used]] have "nb_max_nodes b = 0 \<or> nb_max_bytes b < length raw" by simp
  with empty s(3-5) show ?thesis by (simp add: tables_ok_def)
qed

lemma take_claim_again:
  assumes "nb_by_node b = []" "nb_bytes b = 0" "nb_max_nodes b = 0 \<or> nb_max_bytes b < length raw"
  shows "\<not> fst (take_claim u c raw b)"
  using assms by (auto simp: take_claim_def Let_def enforce_name_bounds_def od_put_last_def)

lemma offer_twice:
  assumes "name_book_ok b" "name_offer u c raw b = (changed, b')"
  shows "\<not> fst (name_offer u c raw b')"
proof -
  have again: "\<not> fst (name_offer u c raw b')" if "map_of (nb_by_node b') (cl_node c) = Some e" "cl_ts c \<le> nm_ts e" for e
    using that by (simp add: name_offer_def Let_def)
  have taken: "\<not> fst (name_offer u c raw b')"
    if t: "tables_ok (nb_max_per_key b1) (AList.delete (cl_node c) (nb_by_node b1)) (nb_by_key b1) (nb_bytes b1)"
      "take_claim u c raw b1 = (changed, b')" for b1
  proof (cases changed)
    case True
    show ?thesis
    proof (rule take_claim_spec [OF t])
      fix n
      let ?l = "AList.delete (cl_node c) (nb_by_node b1) @ [(cl_node c, entry_of u c raw)]"
      assume s: "nb_by_node b' = drop n ?l" "changed \<longleftrightarrow> cl_node c \<in> set (od_keys (nb_by_node b'))"
      from True s(2) have "map_of (nb_by_node b') (cl_node c) \<noteq> None" by (simp add: map_of_eq_None_iff)
      then obtain e where e: "map_of (nb_by_node b') (cl_node c) = Some e" by blast
      then have "(cl_node c, e) \<in> set ?l" using s(1) by (metis in_set_dropD map_of_SomeD)
      then have "e = entry_of u c raw" by (auto simp: AList.delete_eq)
      with again [OF e] show ?thesis by simp
    qed
  next
    case False
    note lost = take_claim_lost [OF t(1), of u raw b'] t(2) False
    then have l: "nb_by_node b' = []" "nb_bytes b' = 0" "nb_max_nodes b' = 0 \<or> nb_max_bytes b' < length raw" by auto
    with take_claim_again [OF l] show ?thesis by (simp add: name_offer_def)
  qed
  show ?thesis
  proof (cases rule: name_offer_cases [of u c raw b])
    case too_large
    with assms show ?thesis by simp
  next
    case (stale cur b1)
    then have "nb_by_node b' = nb_by_node b" using assms(2) by auto
    with again [of cur] stale show ?thesis by simp
  next
    case (newer cur)
    with assms(2) taken [OF tables_ready(2) [OF assms(1) newer(2)]] show ?thesis by simp
  next
    case first
    with assms(2) taken [OF tables_ready(1) [OF assms(1) first(2)]] show ?thesis by simp
  qed
qed

section \<open>What the book promises\<close>

text \<open>
  C26: Nobody is called what they did not sign. After any sequence of arriving bytes and forgotten nodes, what the
  book calls a node is the name in a claim it holds, which parses as that node's own; what it answers to a
  directory key are claims whose own name is filed under that key; what it keeps as a proof pairs two claims
  of the node for one instant; and it holds no more nodes and bytes than it was given.
\<close>
theorem names_are_signed:
  assumes "b = fold (name_step h u vf) es (new_name_book m mb k)"
  shows "(\<forall>nid p. pseudo_of nid b = Some p \<longrightarrow>
      (\<exists>raw c. claim_of nid b = Some raw \<and> parse_claim h u vf raw = Inr (Some c) \<and> cl_node c = nid \<and> cl_pseudo c = p)) \<and>
    (\<forall>key. \<forall>raw \<in> set (names_get key b). \<exists>c. parse_claim h u vf raw = Inr (Some c) \<and> key \<in> set (cl_key c # cl_keys c)) \<and>
    (\<forall>nid pr. equivocated nid b = Some pr \<longrightarrow> proof_genuine h js u vf nid pr) \<and>
    length (nb_by_node b) \<le> m \<and> raw_bytes (nb_by_node b) \<le> mb"
proof -
  have g: "name_book_ok b" "book_genuine h js u vf b" for js
    unfolding assms using genuine_run [OF new_name_book_ok] by blast+
  have "length (nb_by_node b) \<le> nb_max_nodes (new_name_book m mb k)"
    unfolding assms by (rule names.run_bound) (simp_all add: new_name_book_ok, simp add: new_name_book_def)
  then have "length (nb_by_node b) \<le> m" by (simp add: new_name_book_def)
  moreover have "nb_max_bytes b = mb"
    unfolding assms
  proof (induction es rule: rev_induct)
    case (snoc e es)
    then show ?case by (cases e) (simp_all add: name_offer_same name_forget_same split: sum.split option.split)
  qed (simp add: new_name_book_def)
  then have "raw_bytes (nb_by_node b) \<le> mb" using g(1) by (simp add: name_book_ok_def tables_ok_def)
  moreover have "\<exists>raw c. claim_of nid b = Some raw \<and> parse_claim h u vf raw = Inr (Some c) \<and> cl_node c = nid \<and> cl_pseudo c = p"
    if "pseudo_of nid b = Some p" for nid p
  proof -
    from that obtain e where e: "map_of (nb_by_node b) nid = Some e" "nm_pseudo e = p" by (auto simp: pseudo_of_def)
    with g(2) have "genuine h u vf nid e" by (auto simp: book_genuine_def dest: od_allD)
    with e show ?thesis unfolding genuine_def claim_of_def by (metis entry_keys_of(5) option.simps(9))
  qed
  moreover have "proof_genuine h js u vf nid pr" if "equivocated nid b = Some pr" for nid pr
    using that g(2) [of js] by (auto simp: book_genuine_def equivocated_def dest: od_allD)
  ultimately show ?thesis using names_get_sound [OF g(1) g(2)] by blast
qed

text \<open>
  C12: A name only moves forward, and gossip about it ends. When a claim is offered after any history, a node that
  is in the book before and after keeps its entry or gets one of a strictly later instant, and only the node
  the claim is of; an offer that is said to have changed the view leaves the node called what the claim says;
  and the same claim offered again changes nothing, so that it is not passed on a second time.
\<close>
theorem name_moves_forward:
  assumes "b = fold (name_step h u vf) es (new_name_book m mb k)" "name_offer u c raw b = (changed, b')"
  shows "(\<forall>nid t t'. name_ts_of nid b = Some t \<and> name_ts_of nid b' = Some t' \<longrightarrow>
      pseudo_of nid b' = pseudo_of nid b \<and> t' = t \<or> nid = cl_node c \<and> t < t') \<and>
    (changed \<longrightarrow> pseudo_of (cl_node c) b' = Some (cl_pseudo c) \<and> name_ts_of (cl_node c) b' = Some (cl_ts c)) \<and>
    \<not> fst (name_offer u c raw b')"
proof -
  have ok: "name_book_ok b" unfolding assms(1) using genuine_run [OF new_name_book_ok] by blast
  then have d: "od_ok (nb_by_node b)" by (simp add: name_book_ok_def tables_ok_def)
  have entry: "map_of (nb_by_node b') nid = map_of (nb_by_node b) nid \<or> nid = cl_node c \<and> changed \<and>
      e' = entry_of u c raw \<and> (\<forall>cur. map_of (nb_by_node b) nid = Some cur \<longrightarrow> nm_ts cur < cl_ts c)"
    if m: "map_of (nb_by_node b') nid = Some e'" for nid e'
    using name_offer_spec(5) [OF ok assms(2)]
  proof (elim disjE conjE exE)
    fix n
    assume n: "nb_by_node b' = drop n (AList.delete (cl_node c) (nb_by_node b) @ [(cl_node c, entry_of u c raw)])"
      and ch: "changed \<longleftrightarrow> cl_node c \<in> set (od_keys (nb_by_node b'))"
      and newer: "\<forall>cur. map_of (nb_by_node b) (cl_node c) = Some cur \<longrightarrow> nm_ts cur < cl_ts c"
    have "(nid, e') \<in> set (nb_by_node b')" using m by (rule map_of_SomeD)
    then have "(nid, e') \<in> set (AList.delete (cl_node c) (nb_by_node b) @ [(cl_node c, entry_of u c raw)])"
      unfolding n by (rule in_set_dropD)
    then have i: "(nid, e') \<in> set (AList.delete (cl_node c) (nb_by_node b)) \<or> nid = cl_node c \<and> e' = entry_of u c raw" by auto
    show ?thesis
    proof (cases "nid = cl_node c")
      case True
      then have "e' = entry_of u c raw" using i by (auto simp: AList.delete_eq)
      moreover have changed using ch m True by (auto dest: map_of_mem)
      ultimately show ?thesis using True newer by simp
    next
      case False
      then have "(nid, e') \<in> set (nb_by_node b)" using i by (auto simp: AList.delete_eq)
      then show ?thesis using m d by simp
    qed
  qed simp
  have ts: "pseudo_of nid b' = pseudo_of nid b \<and> t' = t \<or> nid = cl_node c \<and> t < t'"
    if "name_ts_of nid b = Some t" "name_ts_of nid b' = Some t'" for nid t t'
  proof -
    from that obtain e e' where e: "map_of (nb_by_node b) nid = Some e" "nm_ts e = t" "map_of (nb_by_node b') nid = Some e'" "nm_ts e' = t'"
      by (auto simp: name_ts_of_def)
    from entry [OF e(3)] e show ?thesis by (auto simp: pseudo_of_def)
  qed
  have "pseudo_of (cl_node c) b' = Some (cl_pseudo c) \<and> name_ts_of (cl_node c) b' = Some (cl_ts c)" if changed
  proof -
    from that name_offer_spec(5) [OF ok assms(2)] obtain n where
      n: "nb_by_node b' = drop n (AList.delete (cl_node c) (nb_by_node b) @ [(cl_node c, entry_of u c raw)])"
        "cl_node c \<in> set (od_keys (nb_by_node b'))" by blast
    then obtain e where e: "map_of (nb_by_node b') (cl_node c) = Some e" by (metis list.set_map map_of_eq_None_iff not_None_eq)
    then have "(cl_node c, e) \<in> set (nb_by_node b')" by (rule map_of_SomeD)
    then have "(cl_node c, e) \<in> set (AList.delete (cl_node c) (nb_by_node b) @ [(cl_node c, entry_of u c raw)])"
      unfolding n(1) by (rule in_set_dropD)
    then have "e = entry_of u c raw" by (auto simp: AList.delete_eq)
    with e show ?thesis by (simp add: pseudo_of_def name_ts_of_def)
  qed
  with ts offer_twice [OF ok assms(2)] show ?thesis by blast
qed

section \<open>Witnesses\<close>

lemma demo_claim: "\<exists>data. build_claim flat_hash plain_unicode [97] [5] (\<lambda>_. [9]) 7 = Inr data \<and>
    parse_claim flat_hash plain_unicode (\<lambda>_ _ _. True) data = Inr (Some \<lparr> cl_node = key_id flat_hash [5], cl_pubkey = [5],
      cl_pseudo = [97], cl_ts = 7, cl_key = demo_key, cl_keys = [demo_key] \<rparr>) \<and> length data \<le> MAX_CLAIM"
proof -
  obtain data where b: "build_claim flat_hash plain_unicode [97] [5] (\<lambda>_. [9]) 7 = Inr data"
    by (simp add: build_claim_def demo_fold demo_name_bytes claim_sizes)
  have p: "parse_claim flat_hash plain_unicode (\<lambda>_ _ _. True) data = Inr (Some \<lparr> cl_node = key_id flat_hash [5],
      cl_pubkey = [5], cl_pseudo = [97], cl_ts = 7, cl_key = demo_key, cl_keys = [demo_key] \<rparr>)"
    using parse_built_claim [where vf = "\<lambda>_ _ _. True", OF b _ demo_name] by simp
  then have "length data \<le> MAX_CLAIM" by (simp add: parse_claim_def split: if_splits)
  with b p show ?thesis by blast
qed

theorem names_are_signed_witness:
  "\<exists>data raw c. pseudo_of (key_id flat_hash [5])
       (fold (name_step flat_hash plain_unicode (\<lambda>_ _ _. True)) [Claim_arrives data] (new_name_book 4 9999 8)) = Some [97] \<and>
     claim_of (key_id flat_hash [5])
       (fold (name_step flat_hash plain_unicode (\<lambda>_ _ _. True)) [Claim_arrives data] (new_name_book 4 9999 8)) = Some raw \<and>
     parse_claim flat_hash plain_unicode (\<lambda>_ _ _. True) raw = Inr (Some c) \<and> cl_pseudo c = [97]"
proof -
  from demo_claim obtain data where p: "parse_claim flat_hash plain_unicode (\<lambda>_ _ _. True) data = Inr (Some
      \<lparr> cl_node = key_id flat_hash [5], cl_pubkey = [5], cl_pseudo = [97], cl_ts = 7, cl_key = demo_key, cl_keys = [demo_key] \<rparr>)"
    "length data \<le> MAX_CLAIM" by blast
  let ?b = "fold (name_step flat_hash plain_unicode (\<lambda>_ _ _. True)) [Claim_arrives data] (new_name_book 4 9999 8)"
  have "pseudo_of (key_id flat_hash [5]) ?b = Some [97]"
    using p(2) by (simp add: p(1) name_offer_def take_claim_def new_name_book_def Let_def enforce_name_bounds_def od_put_last_def
        entry_of_def pseudo_of_def claim_sizes)
  with names_are_signed [where u = plain_unicode and h = flat_hash and js = undefined, OF refl] show ?thesis by blast
qed

theorem name_moves_forward_witness:
  "\<exists>data c b'. parse_claim flat_hash plain_unicode (\<lambda>_ _ _. True) data = Inr (Some c) \<and>
     name_offer plain_unicode c data (new_name_book 4 9999 8) = (True, b') \<and> pseudo_of (cl_node c) b' = Some (cl_pseudo c) \<and>
     \<not> fst (name_offer plain_unicode c data b')"
proof -
  from demo_claim obtain data c where p: "parse_claim flat_hash plain_unicode (\<lambda>_ _ _. True) data = Inr (Some c)"
    "c = \<lparr> cl_node = key_id flat_hash [5], cl_pubkey = [5], cl_pseudo = [97], cl_ts = 7, cl_key = demo_key, cl_keys = [demo_key] \<rparr>"
    "length data \<le> MAX_CLAIM" by blast
  have "fst (name_offer plain_unicode c data (new_name_book 4 9999 8))"
    using p(3) by (simp add: p(2) name_offer_def take_claim_def new_name_book_def Let_def enforce_name_bounds_def od_put_last_def claim_sizes)
  then obtain b' where o: "name_offer plain_unicode c data (new_name_book 4 9999 8) = (True, b')" by (metis prod.collapse)
  have "new_name_book 4 9999 8 = fold (name_step flat_hash plain_unicode (\<lambda>_ _ _. True)) [] (new_name_book 4 9999 8)" by simp
  from name_moves_forward [OF this o] p(1) o show ?thesis by blast
qed

text \<open>
  A name can roll back once its node was pushed out of the book: with room for one node, a claim of another
  node makes the older claim of the first new again.
\<close>

definition demo_named :: "node_id \<Rightarrow> nat \<Rightarrow> nat \<Rightarrow> name_claim" where
  "demo_named nid name ts = \<lparr> cl_node = nid, cl_pubkey = [], cl_pseudo = [name], cl_ts = ts, cl_key = [], cl_keys = [] \<rparr>"

definition demo_held :: "node_id \<Rightarrow> nat \<Rightarrow> nat \<Rightarrow> name_book" where
  "demo_held nid name ts =
     \<lparr> nb_max_nodes = 1, nb_max_bytes = 10, nb_max_per_key = 8,
       nb_by_node = [(nid, entry_of plain_unicode (demo_named nid name ts) [])], nb_by_key = [([], [nid])],
       nb_bytes = 0, nb_equiv = [] \<rparr>"

lemma demo_offers:
  "name_offer plain_unicode (demo_named nid name ts) [] (new_name_book 1 10 8) = (True, demo_held nid name ts)"
  "nid' \<noteq> nid \<Longrightarrow> name_offer plain_unicode (demo_named nid' name' ts') [] (demo_held nid name ts) = (True, demo_held nid' name' ts')"
  by (simp_all add: name_offer_def take_claim_def new_name_book_def Let_def enforce_name_bounds_def od_put_last_def
      demo_named_def demo_held_def bucket_of_def keep_newest_def entry_of_def entry_keys_def)

lemma evicted_name_rolls_back:
  "let b = demo_held [1] 97 2; b' = snd (name_offer plain_unicode (demo_named [2] 99 5) [] b);
       b'' = snd (name_offer plain_unicode (demo_named [1] 98 1) [] b')
   in pseudo_of [1] b = Some [97] \<and> name_ts_of [1] b = Some 2 \<and> pseudo_of [1] b'' = Some [98] \<and> name_ts_of [1] b'' = Some 1"
  by (simp add: demo_offers) (simp add: demo_held_def demo_named_def pseudo_of_def name_ts_of_def)

end
