(* ===== verification/ReleaseBook.thy ===== *)
theory ReleaseBook
  imports Equivocation "HOL-Library.List_Lexorder"
begin

text \<open>
  What a node keeps about releases (\<open>src/core_release.py\<close>, from \<open>TrustedPublishers\<close> on): the keys its
  operator pinned, the journal of automatic installs, the book of releases it heard of. Ids are the bytes
  their hexadecimal spells; the files the first two are written to are not modelled.
\<close>

definition MAX_PUBLISHERS :: nat where "MAX_PUBLISHERS = 32"
definition MAX_CATALOG :: nat where "MAX_CATALOG = 64"
definition MAX_RELEASE_EQUIVOCATIONS :: nat where "MAX_RELEASE_EQUIVOCATIONS = 8"
definition MAX_AUTO_ATTEMPTS :: nat where "MAX_AUTO_ATTEMPTS = 2"
definition MAX_AUTO_JOURNAL :: nat where "MAX_AUTO_JOURNAL = 8"
definition MAX_PUBLISHER_NAME :: nat where "MAX_PUBLISHER_NAME = 64"

section \<open>The pinned keys\<close>

record publisher =
  pu_key :: bytes
  pu_name :: string
  pu_code :: bool
  pu_auto :: bool
  pu_endorsed :: bool
  pu_added :: int

record publishers =
  tp_max :: nat
  tp_entries :: "(bytes, publisher) odict"

definition pin_key ::
  "hash_env \<Rightarrow> bytes \<Rightarrow> string \<Rightarrow> bool \<Rightarrow> bool \<Rightarrow> bool \<Rightarrow> int \<Rightarrow> publishers \<Rightarrow> publisher result \<times> publishers" where
  "pin_key h public_key name auto_ok endorsed code now p =
     (let pid = publisher_id h public_key; existing = map_of (tp_entries p) pid in
      if public_key = [] then (Inl ValueError, p)
      else if existing = None \<and> tp_max p \<le> length (tp_entries p) then (Inl ValueError, p)
      else
        (let code = (code \<or> (case existing of None \<Rightarrow> False | Some e \<Rightarrow> pu_code e));
             name = (if name \<noteq> [] then name else case existing of None \<Rightarrow> [] | Some e \<Rightarrow> pu_name e);
             added = (case existing of None \<Rightarrow> now | Some e \<Rightarrow> if pu_added e \<noteq> 0 then pu_added e else now);
             entry = \<lparr> pu_key = public_key, pu_name = take MAX_PUBLISHER_NAME name, pu_code = code, pu_auto = auto_ok \<and> code,
                       pu_endorsed = endorsed, pu_added = added \<rparr>
         in (Inr entry, p\<lparr> tp_entries := AList.update pid entry (tp_entries p) \<rparr>)))"

definition unpin_key :: "bytes \<Rightarrow> publishers \<Rightarrow> bool \<times> publishers" where
  "unpin_key pid p =
     (if pid \<notin> set (od_keys (tp_entries p)) then (False, p)
      else (True, p\<lparr> tp_entries := AList.delete pid (tp_entries p) \<rparr>))"

definition set_auto :: "bytes \<Rightarrow> bool \<Rightarrow> publishers \<Rightarrow> bool \<times> publishers" where
  "set_auto pid auto_ok p =
     (case map_of (tp_entries p) pid of
        None \<Rightarrow> (False, p)
      | Some e \<Rightarrow>
          if auto_ok \<and> \<not> pu_code e then (False, p)
          else (True, p\<lparr> tp_entries := AList.update pid (e\<lparr> pu_auto := auto_ok \<rparr>) (tp_entries p) \<rparr>))"

definition set_endorse :: "bytes \<Rightarrow> bool \<Rightarrow> publishers \<Rightarrow> bool \<times> publishers" where
  "set_endorse pid endorsed p =
     (case map_of (tp_entries p) pid of
        None \<Rightarrow> (False, p)
      | Some e \<Rightarrow> (True, p\<lparr> tp_entries := AList.update pid (e\<lparr> pu_endorsed := endorsed \<rparr>) (tp_entries p) \<rparr>))"

definition endorsed_among :: "hash_env \<Rightarrow> bytes list \<Rightarrow> publishers \<Rightarrow> bytes list" where
  "endorsed_among h public_keys p =
     first_of_each (filter (\<lambda>pid. case map_of (tp_entries p) pid of None \<Rightarrow> False | Some e \<Rightarrow> pu_endorsed e)
       (map (publisher_id h) public_keys))"

definition pinned :: "hash_env \<Rightarrow> bytes \<Rightarrow> publishers \<Rightarrow> bool" where
  "pinned h public_key p \<longleftrightarrow> publisher_id h public_key \<in> set (od_keys (tp_entries p))"

definition may_install_code :: "hash_env \<Rightarrow> bytes \<Rightarrow> publishers \<Rightarrow> bool" where
  "may_install_code h public_key p =
     (case map_of (tp_entries p) (publisher_id h public_key) of None \<Rightarrow> False | Some e \<Rightarrow> pu_code e)"

definition auto_for :: "hash_env \<Rightarrow> bytes \<Rightarrow> publishers \<Rightarrow> bool" where
  "auto_for h public_key p =
     (case map_of (tp_entries p) (publisher_id h public_key) of None \<Rightarrow> False | Some e \<Rightarrow> pu_auto e \<and> pu_code e)"

section \<open>The journal of automatic installs\<close>

record attempt =
  at_version :: string
  at_count :: nat
  at_refused :: bool
  at_when :: int

record journal =
  jr_max :: nat
  jr_entries :: "(bytes, attempt) odict"

definition journal_settle :: "string \<Rightarrow> journal \<Rightarrow> string list \<times> journal" where
  "journal_settle running j =
     (map (\<lambda>(_, a). at_version a) (filter (\<lambda>(_, a). at_version a \<noteq> running \<and> \<not> at_refused a) (jr_entries j)),
      j\<lparr> jr_entries := filter (\<lambda>(_, a). at_version a \<noteq> running) (jr_entries j) \<rparr>)"

definition journal_attempts :: "bytes \<Rightarrow> journal \<Rightarrow> nat" where
  "journal_attempts rid j = (case map_of (jr_entries j) rid of None \<Rightarrow> 0 | Some a \<Rightarrow> at_count a)"

definition journal_exhausted :: "bytes \<Rightarrow> journal \<Rightarrow> bool" where
  "journal_exhausted rid j \<longleftrightarrow> MAX_AUTO_ATTEMPTS \<le> journal_attempts rid j"

text \<open>An id of any other length than 20 bytes does not match the pattern of a release id.\<close>

definition journal_record :: "bytes \<Rightarrow> string \<Rightarrow> bool \<Rightarrow> int \<Rightarrow> journal \<Rightarrow> nat \<times> journal" where
  "journal_record rid version refused now j =
     (if length rid \<noteq> PUBLISHER_ID_LEN then (0, j)
      else
        (let attempts = journal_attempts rid j + 1;
             a = \<lparr> at_version = take MAX_VERSION_LEN version, at_count = min attempts MAX_AUTO_ATTEMPTS, at_refused = refused,
                   at_when = now \<rparr>
         in (attempts, j\<lparr> jr_entries := od_trim (jr_max j) (AList.update rid a (jr_entries j)) \<rparr>)))"

definition journal_forget :: "bytes \<Rightarrow> journal \<Rightarrow> journal" where
  "journal_forget rid j = j\<lparr> jr_entries := AList.delete rid (jr_entries j) \<rparr>"

definition journal_abandon :: "string \<Rightarrow> journal \<Rightarrow> nat \<times> journal" where
  "journal_abandon version j =
     (length (filter (\<lambda>(_, a). at_version a = version \<and> at_count a < MAX_AUTO_ATTEMPTS) (jr_entries j)),
      j\<lparr> jr_entries := map (\<lambda>(k, a). (k, if at_version a = version \<and> at_count a < MAX_AUTO_ATTEMPTS
                                        then a\<lparr> at_count := MAX_AUTO_ATTEMPTS \<rparr> else a)) (jr_entries j) \<rparr>)"

section \<open>The book of releases\<close>

record release_entry =
  re_publisher_id :: bytes
  re_publisher :: bytes
  re_release :: bytes
  re_release_id :: bytes
  re_version :: string
  re_sha256 :: string
  re_size :: int
  re_notes :: string
  re_ts :: int
  re_trusted :: bool

record release_book =
  rb_max :: nat
  rb_entries :: "(bytes, release_entry) odict"
  rb_equiv :: "(bytes, bytes) odict"

definition new_release_book :: "nat \<Rightarrow> release_book" where
  "new_release_book max_entries = \<lparr> rb_max = max_entries, rb_entries = [], rb_equiv = [] \<rparr>"

definition descriptor_key :: "hash_env \<Rightarrow> bytes \<Rightarrow> bytes" where
  "descriptor_key h release_bytes = take PUBLISHER_ID_LEN (h_sha256 h release_bytes)"

definition catalogue_entry :: "release_doc \<Rightarrow> bytes \<Rightarrow> bool \<Rightarrow> release_entry" where
  "catalogue_entry d release_bytes is_trusted =
     \<lparr> re_publisher_id = rd_publisher_id d, re_publisher = rd_publisher d, re_release = release_bytes,
       re_release_id = take PUBLISHER_ID_LEN (the (from_hex (rd_sha256 d))), re_version = rd_version d,
       re_sha256 = rd_sha256 d, re_size = rd_size d, re_notes = rd_notes d, re_ts = rd_ts d, re_trusted = is_trusted \<rparr>"

text \<open>A proof about a key none of whose releases is trusted: the first in the table.\<close>

definition evictable_signer :: "release_book \<Rightarrow> bytes option" where
  "evictable_signer b =
     List.find (\<lambda>signer. \<not> (\<exists>(_, e) \<in> set (rb_entries b). re_publisher_id e = signer \<and> re_trusted e)) (od_keys (rb_equiv b))"

definition note_contradiction :: "release_doc \<Rightarrow> bytes \<Rightarrow> bool \<Rightarrow> release_book \<Rightarrow> release_book" where
  "note_contradiction d incoming is_trusted b =
     (let signer = rd_publisher_id d in
      if signer \<in> set (od_keys (rb_equiv b)) then b
      else case List.find (\<lambda>(_, e). re_publisher_id e = signer \<and> re_version e = rd_version d \<and> re_sha256 e \<noteq> rd_sha256 d) (rb_entries b) of
        None \<Rightarrow> b
      | Some (_, e) \<Rightarrow>
          (case equiv_build KIND_RELEASE (re_release e) incoming of
             Inl _ \<Rightarrow> b
           | Inr pr \<Rightarrow>
               (if MAX_RELEASE_EQUIVOCATIONS \<le> length (rb_equiv b)
                then (if \<not> is_trusted then b
                      else case evictable_signer b of
                        None \<Rightarrow> b
                      | Some s \<Rightarrow> b\<lparr> rb_equiv := AList.delete s (rb_equiv b) @ [(signer, pr)] \<rparr>)
                else b\<lparr> rb_equiv := rb_equiv b @ [(signer, pr)] \<rparr>)))"

text \<open>\<open>min(untrusted)\<close>: the least pair of time and key.\<close>

fun oldest_untrusted :: "(bytes, release_entry) odict \<Rightarrow> (int \<times> bytes) option" where
  "oldest_untrusted [] = None"
| "oldest_untrusted ((k, e) # d) =
     (if re_trusted e then oldest_untrusted d
      else case oldest_untrusted d of
        None \<Rightarrow> Some (re_ts e, k)
      | Some (t, k') \<Rightarrow> if re_ts e < t \<or> re_ts e = t \<and> k < k' then Some (re_ts e, k) else Some (t, k'))"

definition make_release_room :: "bool \<Rightarrow> release_book \<Rightarrow> bool \<times> release_book" where
  "make_release_room for_trusted b =
     (if \<not> for_trusted then (False, b)
      else case oldest_untrusted (rb_entries b) of
        None \<Rightarrow> (False, b)
      | Some (_, k) \<Rightarrow> (True, b\<lparr> rb_entries := AList.delete k (rb_entries b) \<rparr>))"

definition release_offer ::
  "hash_env \<Rightarrow> json_codec \<Rightarrow> verifier \<Rightarrow> (bytes \<Rightarrow> bool) \<Rightarrow> bytes \<Rightarrow> release_book \<Rightarrow> bool \<times> release_book" where
  "release_offer h js vf trusted release_bytes b =
     (case parse_release h js vf release_bytes of
        Inl _ \<Rightarrow> (False, b)
      | Inr d \<Rightarrow>
          (let key = descriptor_key h release_bytes in
           if key \<in> set (od_keys (rb_entries b)) then (False, b\<lparr> rb_entries := od_to_end key (rb_entries b) \<rparr>)
           else
             (let is_trusted = trusted (rd_publisher d);
                  b = note_contradiction d release_bytes is_trusted b;
                  (room, b) = (if rb_max b \<le> length (rb_entries b) then make_release_room is_trusted b else (True, b))
              in if \<not> room then (False, b)
                 else (True, b\<lparr> rb_entries := rb_entries b @ [(key, catalogue_entry d release_bytes is_trusted)] \<rparr>))))"

definition retrust :: "(bytes \<Rightarrow> bool) \<Rightarrow> release_book \<Rightarrow> release_book" where
  "retrust trusted b =
     b\<lparr> rb_entries := map (\<lambda>(k, e). (k, e\<lparr> re_trusted := trusted (re_publisher e) \<rparr>)) (rb_entries b) \<rparr>"

definition release_get :: "bytes \<Rightarrow> release_book \<Rightarrow> release_entry option" where
  "release_get key b = map_of (rb_entries b) key"

text \<open>\<open>equivocated\<close> takes the id or the key it is derived from.\<close>

definition release_equivocated :: "hash_env \<Rightarrow> bytes \<Rightarrow> release_book \<Rightarrow> bytes option" where
  "release_equivocated h key b =
     map_of (rb_equiv b) (if length key \<noteq> PUBLISHER_ID_LEN then publisher_id h key else key)"

definition attesters :: "string \<Rightarrow> string \<Rightarrow> release_book \<Rightarrow> bytes list" where
  "attesters version sha256 b =
     first_of_each (map (\<lambda>(_, e). re_publisher e)
       (filter (\<lambda>(_, e). re_version e = version \<and> re_sha256 e = sha256) (rb_entries b)))"

definition contradicts :: "string \<Rightarrow> string \<Rightarrow> release_book \<Rightarrow> bool" where
  "contradicts version sha256 b \<longleftrightarrow> (\<exists>(_, e) \<in> set (rb_entries b). re_version e = version \<and> re_sha256 e \<noteq> sha256)"

section \<open>The pins keep their form\<close>

datatype pin_event = Pin bytes string bool bool bool int | Unpin bytes | Set_auto bytes bool | Set_endorse bytes bool

fun pin_step :: "hash_env \<Rightarrow> pin_event \<Rightarrow> publishers \<Rightarrow> publishers" where
  "pin_step h (Pin key name auto_ok endorsed code now) p = snd (pin_key h key name auto_ok endorsed code now p)"
| "pin_step h (Unpin pid) p = snd (unpin_key pid p)"
| "pin_step h (Set_auto pid auto_ok) p = snd (set_auto pid auto_ok p)"
| "pin_step h (Set_endorse pid endorsed) p = snd (set_endorse pid endorsed p)"

definition publisher_ok :: "hash_env \<Rightarrow> bytes \<Rightarrow> publisher \<Rightarrow> bool" where
  "publisher_ok h pid e \<longleftrightarrow>
     pid = publisher_id h (pu_key e) \<and> pu_key e \<noteq> [] \<and> (pu_auto e \<longrightarrow> pu_code e) \<and> length (pu_name e) \<le> MAX_PUBLISHER_NAME"

definition publishers_ok :: "hash_env \<Rightarrow> publishers \<Rightarrow> bool" where
  "publishers_ok h p \<longleftrightarrow> od_ok (tp_entries p) \<and> od_all (publisher_ok h) (tp_entries p)"

lemma pin_step_ok:
  assumes "publishers_ok h p"
  shows "publishers_ok h (pin_step h e p)"
proof (cases e)
  case (Pin key name auto_ok endorsed code now)
  with assms show ?thesis
    by (auto simp: pin_key_def Let_def publishers_ok_def publisher_ok_def intro!: od_all_update)
next
  case (Unpin pid)
  with assms show ?thesis by (simp add: unpin_key_def publishers_ok_def od_all_delete)
next
  case (Set_auto pid auto_ok)
  with assms show ?thesis
    by (auto simp: set_auto_def publishers_ok_def publisher_ok_def intro!: od_all_update dest: od_allD split: option.split)
next
  case (Set_endorse pid endorsed)
  with assms show ?thesis
    by (auto simp: set_endorse_def publishers_ok_def publisher_ok_def intro!: od_all_update dest: od_allD split: option.split)
qed

lemma length_update_held: "map_of d k = Some v \<Longrightarrow> length (AList.update k x d) = length d"
  by (rule length_update_present [OF map_of_mem])

lemma pin_step_bound:
  assumes "length (tp_entries p) \<le> tp_max p"
  shows "length (tp_entries (pin_step h e p)) \<le> tp_max p"
proof (cases e)
  case (Pin key name auto_ok endorsed code now)
  let ?pid = "publisher_id h key"
  show ?thesis
  proof (cases "map_of (tp_entries p) ?pid")
    case None
    then have "?pid \<notin> fst ` set (tp_entries p)" by (simp add: map_of_eq_None_iff)
    with assms None show ?thesis unfolding Pin by (auto simp: pin_key_def Let_def length_update_absent)
  next
    case (Some x)
    then have "?pid \<in> fst ` set (tp_entries p)" by (rule map_of_mem)
    with assms Some show ?thesis unfolding Pin by (auto simp: pin_key_def Let_def length_update_present)
  qed
next
  case (Unpin pid)
  have "length (AList.delete pid (tp_entries p)) \<le> length (tp_entries p)" by (simp add: AList.delete_eq)
  with assms show ?thesis by (simp add: Unpin unpin_key_def)
next
  case (Set_auto pid auto_ok)
  with assms show ?thesis
    by (simp add: set_auto_def length_update_held split: option.split)
next
  case (Set_endorse pid endorsed)
  with assms show ?thesis
    by (simp add: set_endorse_def length_update_held split: option.split)
qed

lemma pin_step_max: "tp_max (pin_step h e p) = tp_max p"
  by (cases e) (simp_all add: pin_key_def unpin_key_def set_auto_def set_endorse_def Let_def split: option.split)

interpretation pins: bounded_book "\<lambda>p. length (tp_entries p)" tp_max "pin_step h" "publishers_ok h" for h
  by unfold_locales (simp_all add: pin_step_ok pin_step_bound pin_step_max)

section \<open>The book keeps its form\<close>

definition release_genuine :: "hash_env \<Rightarrow> json_codec \<Rightarrow> verifier \<Rightarrow> bytes \<Rightarrow> release_entry \<Rightarrow> bool" where
  "release_genuine h js vf key e \<longleftrightarrow>
     key = descriptor_key h (re_release e) \<and>
     (\<exists>d. parse_release h js vf (re_release e) = Inr d \<and> e = catalogue_entry d (re_release e) (re_trusted e))"

definition release_proof_genuine :: "hash_env \<Rightarrow> json_codec \<Rightarrow> verifier \<Rightarrow> bytes \<Rightarrow> bytes \<Rightarrow> bool" where
  "release_proof_genuine h js vf signer pr \<longleftrightarrow>
     (\<exists>a b da db. equiv_split pr = Some (KIND_RELEASE, a, b) \<and> parse_release h js vf a = Inr da \<and> parse_release h js vf b = Inr db \<and>
        rd_publisher_id da = signer \<and> rd_publisher_id db = signer \<and> rd_version da = rd_version db \<and> rd_sha256 da \<noteq> rd_sha256 db)"

definition release_book_ok :: "hash_env \<Rightarrow> json_codec \<Rightarrow> verifier \<Rightarrow> release_book \<Rightarrow> bool" where
  "release_book_ok h js vf b \<longleftrightarrow>
     od_ok (rb_entries b) \<and> od_all (release_genuine h js vf) (rb_entries b) \<and>
     od_all (release_proof_genuine h js vf) (rb_equiv b) \<and> length (rb_equiv b) \<le> MAX_RELEASE_EQUIVOCATIONS"

lemma catalogue_entry_simps [simp]:
  "re_release (catalogue_entry d raw t) = raw" "re_publisher (catalogue_entry d raw t) = rd_publisher d"
  "re_publisher_id (catalogue_entry d raw t) = rd_publisher_id d" "re_version (catalogue_entry d raw t) = rd_version d"
  "re_sha256 (catalogue_entry d raw t) = rd_sha256 d" "re_trusted (catalogue_entry d raw t) = t"
  "(catalogue_entry d raw t)\<lparr> re_trusted := t' \<rparr> = catalogue_entry d raw t'"
  by (simp_all add: catalogue_entry_def)

lemma find_Some_mem: "List.find P xs = Some x \<Longrightarrow> x \<in> set xs \<and> P x"
  by (induction xs) (auto split: if_splits)

lemma note_contradiction_same [simp]: "rb_entries (note_contradiction d raw t b) = rb_entries b"
  "rb_max (note_contradiction d raw t b) = rb_max b"
  by (simp_all add: note_contradiction_def Let_def split: option.split sum.split)

lemma delete_shorter: "s \<in> fst ` set d \<Longrightarrow> Suc (length (AList.delete s d)) \<le> length d"
proof (induction d)
  case (Cons p d)
  have "length (AList.delete s d) \<le> length d" by (simp add: AList.delete_eq)
  with Cons show ?case by (cases "fst p = s") auto
qed simp

lemma note_contradiction_ok:
  assumes "release_book_ok h js vf b" "parse_release h js vf raw = Inr d"
  shows "release_book_ok h js vf (note_contradiction d raw t b)"
proof (cases "List.find (\<lambda>(_, e). re_publisher_id e = rd_publisher_id d \<and> re_version e = rd_version d \<and> re_sha256 e \<noteq> rd_sha256 d) (rb_entries b)")
  case (Some p)
  obtain k e where p: "p = (k, e)" by (cases p)
  from find_Some_mem [OF Some] have e: "(k, e) \<in> set (rb_entries b)" "re_publisher_id e = rd_publisher_id d"
    "re_version e = rd_version d" "re_sha256 e \<noteq> rd_sha256 d" by (auto simp: p)
  have "release_genuine h js vf k e" using assms(1) e(1) by (auto simp: release_book_ok_def od_all_def)
  then obtain da where da: "parse_release h js vf (re_release e) = Inr da" "e = catalogue_entry da (re_release e) (re_trusted e)"
    by (auto simp: release_genuine_def)
  have f: "rd_publisher_id da = rd_publisher_id d" "rd_version da = rd_version d" "rd_sha256 da \<noteq> rd_sha256 d"
    using e(2-4) da(2) by (metis catalogue_entry_simps(3), metis catalogue_entry_simps(4), metis catalogue_entry_simps(5))
  have new: "release_proof_genuine h js vf (rd_publisher_id d) pr" if "equiv_build KIND_RELEASE (re_release e) raw = Inr pr" for pr
    using equiv_split_build [OF that] da(1) assms(2) f unfolding release_proof_genuine_def by blast
  note drop_one = delete_shorter [of _ "rb_equiv b"]
  have ev: "s \<in> fst ` set (rb_equiv b)" if "evictable_signer b = Some s" for s
    using find_Some_mem [OF that [unfolded evictable_signer_def]] by auto
  show ?thesis
  proof (cases "equiv_build KIND_RELEASE (re_release e) raw")
    case (Inr pr)
    show ?thesis
      using assms(1) new [OF Inr] Inr Some
      by (auto simp: note_contradiction_def Let_def p release_book_ok_def od_all_delete dest!: ev drop_one split: option.split)
  qed (use assms(1) Some in \<open>simp add: note_contradiction_def Let_def p\<close>)
qed (use assms(1) in \<open>simp add: note_contradiction_def Let_def\<close>)

lemma delete_filter: "AList.delete k d = filter (\<lambda>(k', _). k' \<notin> {k}) d"
  by (induction d) auto

lemma make_release_room_cases:
  obtains (none) "make_release_room t b = (False, b)"
  | (some) k ts where "make_release_room t b = (True, b\<lparr> rb_entries := AList.delete k (rb_entries b) \<rparr>)" "t"
      "oldest_untrusted (rb_entries b) = Some (ts, k)"
  by (cases t; cases "oldest_untrusted (rb_entries b)") (auto simp: make_release_room_def)

lemma make_release_room_ok:
  assumes "release_book_ok h js vf b"
  shows "release_book_ok h js vf (snd (make_release_room t b))" "rb_max (snd (make_release_room t b)) = rb_max b"
    "rb_equiv (snd (make_release_room t b)) = rb_equiv b"
  by (cases rule: make_release_room_cases [of t b]; use assms in \<open>simp add: release_book_ok_def od_all_delete\<close>)+

lemma oldest_untrusted_Some:
  "od_ok d \<Longrightarrow> oldest_untrusted d = Some (ts, k) \<Longrightarrow> \<exists>e. map_of d k = Some e \<and> \<not> re_trusted e"
proof (induction d arbitrary: ts k)
  case (Cons p d)
  obtain k0 e0 where p: "p = (k0, e0)" by (cases p)
  show ?case
  proof (cases "oldest_untrusted d")
    case None
    with Cons.prems show ?thesis by (auto simp: p split: if_splits)
  next
    case (Some q)
    obtain t1 k1 where q: "q = (t1, k1)" by (cases q)
    from Cons.IH [of t1 k1] Cons.prems(1) Some q obtain e1 where e1: "map_of d k1 = Some e1" "\<not> re_trusted e1" by auto
    then have "k1 \<noteq> k0" using Cons.prems(1) map_of_mem [OF e1(1)] by (auto simp: p)
    have "k = k1 \<or> k = k0 \<and> \<not> re_trusted e0" using Cons.prems(2) Some q by (auto simp: p split: if_splits)
    with e1 \<open>k1 \<noteq> k0\<close> show ?thesis by (auto simp: p)
  qed
qed simp

text \<open>The ways an offer ends.\<close>

lemma release_offer_cases:
  obtains (invalid) x where "release_offer h js vf trusted raw b = (False, b)" "parse_release h js vf raw = Inl x"
  | (held) d where "release_offer h js vf trusted raw b =
        (False, b\<lparr> rb_entries := od_to_end (descriptor_key h raw) (rb_entries b) \<rparr>)"
      "parse_release h js vf raw = Inr d" "descriptor_key h raw \<in> set (od_keys (rb_entries b))"
  | (full) d where "release_offer h js vf trusted raw b = (False, note_contradiction d raw (trusted (rd_publisher d)) b)"
      "parse_release h js vf raw = Inr d" "rb_max b \<le> length (rb_entries b)"
  | (room) d where "release_offer h js vf trusted raw b =
        (True, (note_contradiction d raw (trusted (rd_publisher d)) b)
           \<lparr> rb_entries := rb_entries b @ [(descriptor_key h raw, catalogue_entry d raw (trusted (rd_publisher d)))] \<rparr>)"
      "parse_release h js vf raw = Inr d" "descriptor_key h raw \<notin> set (od_keys (rb_entries b))" "length (rb_entries b) < rb_max b"
  | (traded) d k ts where "release_offer h js vf trusted raw b =
        (True, (note_contradiction d raw True b)
           \<lparr> rb_entries := AList.delete k (rb_entries b) @ [(descriptor_key h raw, catalogue_entry d raw True)] \<rparr>)"
      "parse_release h js vf raw = Inr d" "descriptor_key h raw \<notin> set (od_keys (rb_entries b))" "trusted (rd_publisher d)"
      "rb_max b \<le> length (rb_entries b)" "oldest_untrusted (rb_entries b) = Some (ts, k)"
proof (cases "parse_release h js vf raw")
  case (Inl x)
  then show ?thesis by (intro invalid) (simp_all add: release_offer_def)
next
  case (Inr d)
  show ?thesis
  proof (cases "descriptor_key h raw \<in> set (od_keys (rb_entries b))")
    case True
    with Inr show ?thesis by (intro held [where d = d]) (simp_all add: release_offer_def Let_def)
  next
    case new: False
    show ?thesis
    proof (cases "rb_max b \<le> length (rb_entries b)")
      case False
      with Inr new show ?thesis by (intro room [where d = d]) (simp_all add: release_offer_def Let_def)
    next
      case True
      let ?b = "note_contradiction d raw (trusted (rd_publisher d)) b"
      show ?thesis
      proof (cases rule: make_release_room_cases [of "trusted (rd_publisher d)" ?b])
        case none
        with Inr new True show ?thesis by (intro full [where d = d]) (simp_all add: release_offer_def Let_def)
      next
        case (some k ts)
        with Inr new True show ?thesis by (intro traded [where d = d and k = k and ts = ts]) (simp_all add: release_offer_def Let_def)
      qed
    qed
  qed
qed

lemma release_offer_ok:
  assumes "release_book_ok h js vf b"
  shows "release_book_ok h js vf (snd (release_offer h js vf trusted raw b))"
proof (cases rule: release_offer_cases [of h js vf trusted raw b])
  case held
  with assms show ?thesis by (simp add: release_book_ok_def od_all_to_end)
next
  case (full d)
  with note_contradiction_ok [OF assms full(2)] show ?thesis by simp
next
  case (room d)
  have "release_genuine h js vf (descriptor_key h raw) (catalogue_entry d raw t)" for t
    using room(2) by (auto simp: release_genuine_def)
  with room note_contradiction_ok [OF assms room(2), of "trusted (rd_publisher d)"] show ?thesis
    by (simp add: release_book_ok_def)
next
  case (traded d k ts)
  have "release_genuine h js vf (descriptor_key h raw) (catalogue_entry d raw True)"
    using traded(2) by (auto simp: release_genuine_def)
  moreover have "descriptor_key h raw \<notin> fst ` set (AList.delete k (rb_entries b))" using traded(3) by (auto simp: AList.delete_eq)
  ultimately show ?thesis using traded note_contradiction_ok [OF assms traded(2), of True]
    by (simp add: release_book_ok_def od_all_delete)
qed (use assms in simp)

datatype release_event = Release_arrives bytes "bytes \<Rightarrow> bool" | Pins_changed "bytes \<Rightarrow> bool"

fun release_step :: "hash_env \<Rightarrow> json_codec \<Rightarrow> verifier \<Rightarrow> release_event \<Rightarrow> release_book \<Rightarrow> release_book" where
  "release_step h js vf (Release_arrives raw trusted) b = snd (release_offer h js vf trusted raw b)"
| "release_step h js vf (Pins_changed trusted) b = retrust trusted b"

lemma retrust_ok: "release_book_ok h js vf b \<Longrightarrow> release_book_ok h js vf (retrust trusted b)"
proof -
  assume ok: "release_book_ok h js vf b"
  have "release_genuine h js vf k (e\<lparr> re_trusted := t \<rparr>)" if g: "release_genuine h js vf k e" for k e t
  proof -
    from g obtain d where d: "k = descriptor_key h (re_release e)" "parse_release h js vf (re_release e) = Inr d"
      "e = catalogue_entry d (re_release e) (re_trusted e)" by (auto simp: release_genuine_def)
    have "e\<lparr> re_trusted := t \<rparr> = catalogue_entry d (re_release e) t" by (subst d(3)) simp
    then show ?thesis using d(1,2) by (simp add: release_genuine_def)
  qed
  with ok show ?thesis by (auto simp: release_book_ok_def retrust_def od_all_def case_prod_unfold o_def)
qed

lemma release_step_ok: "release_book_ok h js vf b \<Longrightarrow> release_book_ok h js vf (release_step h js vf e b)"
  by (cases e) (simp_all add: release_offer_ok retrust_ok)

lemma release_offer_bound:
  assumes "od_ok (rb_entries b)" "length (rb_entries b) \<le> rb_max b"
  shows "length (rb_entries (snd (release_offer h js vf trusted raw b))) \<le> rb_max b"
proof (cases rule: release_offer_cases [of h js vf trusted raw b])
  case (traded d k ts)
  from oldest_untrusted_Some [OF assms(1) traded(6)] have "k \<in> fst ` set (rb_entries b)" by (auto dest: map_of_mem)
  from delete_shorter [OF this] assms(2) show ?thesis by (simp add: traded(1))
qed (use assms in simp_all)

lemma release_step_max: "rb_max (release_step h js vf e b) = rb_max b"
proof (cases e)
  case (Release_arrives raw trusted)
  then show ?thesis by (cases rule: release_offer_cases [of h js vf trusted raw b]) simp_all
qed (simp add: retrust_def)

interpretation releases: bounded_book "\<lambda>b. length (rb_entries b)" rb_max "release_step h js vf" "release_book_ok h js vf" for h js vf
proof
  fix b e
  assume ok: "release_book_ok h js vf b" and "length (rb_entries b) \<le> rb_max b"
  then show "length (rb_entries (release_step h js vf e b)) \<le> rb_max b"
    by (cases e) (simp_all add: release_offer_bound release_book_ok_def retrust_def)
qed (simp_all add: release_step_ok release_step_max)

lemma new_release_book_ok: "release_book_ok h js vf (new_release_book m)"
  by (simp add: release_book_ok_def new_release_book_def)

text \<open>
  C27: The book holds what was signed. After any sequence of announced releases, from anybody, and of changes of
  the pins, every entry is named by the hash of its descriptor, which parses, and shows that descriptor's
  own version, hash, size and publisher, whose key is hashed to the publisher's id; every proof that is kept
  pairs two descriptors of one publisher id and one version with different contents; and the book holds no
  more than its bound.
\<close>
theorem releases_are_signed:
  assumes "b = fold (release_step h js vf) es (new_release_book m)"
  shows "(\<forall>key e. release_get key b = Some e \<longrightarrow> key = descriptor_key h (re_release e) \<and>
      (\<exists>d. parse_release h js vf (re_release e) = Inr d \<and> e = catalogue_entry d (re_release e) (re_trusted e) \<and>
         re_publisher_id e = publisher_id h (re_publisher e))) \<and>
    (\<forall>signer pr. map_of (rb_equiv b) signer = Some pr \<longrightarrow> release_proof_genuine h js vf signer pr) \<and>
    length (rb_entries b) \<le> m"
proof -
  have l: "length (rb_entries (new_release_book m)) \<le> rb_max (new_release_book m)" by (simp add: new_release_book_def)
  from releases.run_inv [OF new_release_book_ok l] have r: "release_book_ok h js vf b" "length (rb_entries b) \<le> m"
    unfolding assms by (simp_all add: new_release_book_def)
  have "key = descriptor_key h (re_release e) \<and> (\<exists>d. parse_release h js vf (re_release e) = Inr d \<and>
      e = catalogue_entry d (re_release e) (re_trusted e) \<and> re_publisher_id e = publisher_id h (re_publisher e))"
    if "release_get key b = Some e" for key e
  proof -
    have "release_genuine h js vf key e" using r(1) that by (auto simp: release_book_ok_def release_get_def dest: od_allD)
    then obtain d where d: "key = descriptor_key h (re_release e)" "parse_release h js vf (re_release e) = Inr d"
      "e = catalogue_entry d (re_release e) (re_trusted e)" by (auto simp: release_genuine_def)
    from parsed_release [OF d(2)] have "rd_publisher_id d = publisher_id h (rd_publisher d)" by blast
    then have "re_publisher_id e = publisher_id h (re_publisher e)" by (subst (1 2) d(3)) simp
    with d show ?thesis by blast
  qed
  moreover have "release_proof_genuine h js vf signer pr" if "map_of (rb_equiv b) signer = Some pr" for signer pr
    using r(1) that by (auto simp: release_book_ok_def dest: od_allD)
  ultimately show ?thesis using r(2) by blast
qed

text \<open>
  C28: A release of a pinned key cannot be crowded out. Whatever is announced, in whatever number, by whomever, an
  entry whose publisher was trusted stays in the book as it is, as long as the operator changes no pin.
\<close>
theorem pinned_release_stays:
  assumes "b = fold (release_step h js vf) es (new_release_book m)"
    and "release_get key b = Some e" "re_trusted e"
    and "\<forall>ev \<in> set es'. \<exists>raw trusted. ev = Release_arrives raw trusted"
  shows "release_get key (fold (release_step h js vf) es' b) = Some e"
proof -
  have keep: "map_of (rb_entries (snd (release_offer h js vf trusted raw b))) key = Some e"
    if ok: "release_book_ok h js vf b" and m: "map_of (rb_entries b) key = Some e" for b raw trusted
  proof (cases rule: release_offer_cases [of h js vf trusted raw b])
    case (traded d k ts)
    have "od_ok (rb_entries b)" using ok by (simp add: release_book_ok_def)
    from oldest_untrusted_Some [OF this traded(6)] m assms(3) have "k \<noteq> key" by auto
    moreover have "descriptor_key h raw \<noteq> key" using traded(3) m by (auto dest: map_of_mem)
    ultimately show ?thesis using m by (simp add: traded(1) delete_conv' map_add_Some_iff)
  next
    case (room d)
    have "descriptor_key h raw \<noteq> key" using room(3) m by (auto dest: map_of_mem)
    then show ?thesis using m by (simp add: room(1) map_add_Some_iff)
  qed (use m in \<open>simp_all add: map_of_to_end\<close>)
  have "release_book_ok h js vf b" unfolding assms(1)
    using releases.run_inv [OF new_release_book_ok] by (simp add: new_release_book_def)
  moreover have "map_of (rb_entries b) key = Some e" using assms(2) by (simp add: release_get_def)
  ultimately have "map_of (rb_entries (fold (release_step h js vf) es' b)) key = Some e"
    using assms(4)
  proof (induction es' arbitrary: b)
    case (Cons ev es')
    from Cons.prems(3) obtain raw trusted where ev: "ev = Release_arrives raw trusted" by auto
    show ?case using Cons.IH [OF release_step_ok [OF Cons.prems(1), of ev]] keep [OF Cons.prems(1,2)] Cons.prems(3) by (simp add: ev)
  qed simp
  then show ?thesis by (simp add: release_get_def)
qed

definition demo_doc :: release_doc where
  "demo_doc = \<lparr> rd_version = ''1.2'', rd_size = 2, rd_sha256 = hex_of (take 32 ([1, 2] @ replicate 32 0)), rd_publisher = [5],
     rd_publisher_id = publisher_id demo_sha [5], rd_ts = 7, rd_notes = [] \<rparr>"

lemma demo_release_parses: "parse_release demo_sha (one_text demo_release) (\<lambda>_ _ _. True) raw =
    (if 64 * 1024 < length raw then Inl ValueError else Inr demo_doc)"
  by (simp add: parse_release_def one_text_def demo_release_def is_two_def doc_str_def doc_int_def doc_notes_def
      check_release_def MAX_PACKAGE_BYTES_def MAX_VERSION_LEN_def demo_doc_def)

abbreviation demo_release_step :: "release_event \<Rightarrow> release_book \<Rightarrow> release_book" where
  "demo_release_step \<equiv> release_step demo_sha (one_text demo_release) (\<lambda>_ _ _. True)"

lemma demo_taken: "demo_release_step (Release_arrives [] (\<lambda>_. True)) (new_release_book 4) =
    \<lparr> rb_max = 4, rb_entries = [(descriptor_key demo_sha [], catalogue_entry demo_doc [] True)], rb_equiv = [] \<rparr>"
  by (simp add: release_offer_def demo_release_parses new_release_book_def Let_def note_contradiction_def)

theorem releases_are_signed_witness:
  "\<exists>e d. release_get (descriptor_key demo_sha [])
       (fold demo_release_step [Release_arrives [] (\<lambda>_. True)] (new_release_book 4)) = Some e \<and>
     parse_release demo_sha (one_text demo_release) (\<lambda>_ _ _. True) (re_release e) = Inr d \<and>
     re_publisher_id e = publisher_id demo_sha (re_publisher e)"
proof -
  have "release_get (descriptor_key demo_sha []) (fold demo_release_step [Release_arrives [] (\<lambda>_. True)] (new_release_book 4)) =
      Some (catalogue_entry demo_doc [] True)"
    by (simp add: demo_taken release_get_def del: release_step.simps)
  with releases_are_signed [OF refl] show ?thesis by blast
qed

theorem pinned_release_stays_witness:
  "\<exists>e. release_get (descriptor_key demo_sha [])
     (fold demo_release_step [Release_arrives [1] (\<lambda>_. False), Release_arrives [2] (\<lambda>_. True)]
       (fold demo_release_step [Release_arrives [] (\<lambda>_. True)] (new_release_book 4))) = Some e"
proof -
  have g: "release_get (descriptor_key demo_sha []) (fold demo_release_step [Release_arrives [] (\<lambda>_. True)] (new_release_book 4)) =
      Some (catalogue_entry demo_doc [] True)"
    by (simp add: demo_taken release_get_def del: release_step.simps)
  have "\<forall>ev \<in> set [Release_arrives [1] (\<lambda>_. False), Release_arrives [2] (\<lambda>_. True)]. \<exists>raw trusted. ev = Release_arrives raw trusted"
    by simp
  from pinned_release_stays [OF refl g _ this] show ?thesis by simp
qed

section \<open>What the journal forgets\<close>

text \<open>A release is exhausted after two attempts, and stays so when other releases are tried and there is room.\<close>

lemma journal_two_attempts:
  assumes "length rid = PUBLISHER_ID_LEN" "length (jr_entries j) < jr_max j"
  shows "journal_exhausted rid (snd (journal_record rid v r t (snd (journal_record rid v' r' t' j))))"
proof -
  have l: "length (AList.update rid a (jr_entries j)) \<le> jr_max j" for a
    using length_update_le [of rid a "jr_entries j"] assms(2) by simp
  have "length (AList.update rid a (AList.update rid a' (jr_entries j))) \<le> jr_max j" for a a'
  proof -
    have "map_of (AList.update rid a' (jr_entries j)) rid = Some a'" by (simp add: update_conv')
    from length_update_held [OF this] l show ?thesis by simp
  qed
  with l assms(1) show ?thesis
    by (simp add: journal_record_def journal_exhausted_def journal_attempts_def Let_def update_conv' MAX_AUTO_ATTEMPTS_def)
qed

text \<open>
  The journal is no bound on restarts when more releases fail than it holds: with room for one, an attempt at
  a second release makes the first, which had used its attempts, new again.
\<close>

lemma journal_forgets_exhausted:
  assumes "length a = PUBLISHER_ID_LEN" "length b = PUBLISHER_ID_LEN" "a \<noteq> b"
    and "j = snd (journal_record a v False t (snd (journal_record a v False t \<lparr> jr_max = 1, jr_entries = [] \<rparr>)))"
  shows "journal_exhausted a j \<and> journal_attempts a (snd (journal_record b v' False t' j)) = 0"
  using assms by (simp add: journal_record_def journal_exhausted_def journal_attempts_def Let_def MAX_AUTO_ATTEMPTS_def)

end
