(* ===== verification/ReleaseGate.thy ===== *)
theory ReleaseGate
  imports ReleaseBook Version CertStore
begin

text \<open>
  When a node replaces its own program with nobody watching (\<open>src/node.py\<close>, \<open>may_auto_install\<close> to
  \<open>_note_tried\<close>): the state of a release, the two routes to an unattended install, the pass that picks one
  release, the back-off of a failed one. What fetching and writing the files came to is an argument, and so
  is the version that runs. The certificate store answers ancestors and remembers chains, so it is handed on.
\<close>

definition RELEASE_TRIED_MAX :: nat where "RELEASE_TRIED_MAX = 32"
definition RELEASE_RETRY_MIN :: real where "RELEASE_RETRY_MIN = 60"
definition RELEASE_RETRY_MAX :: real where "RELEASE_RETRY_MAX = 3600"

text \<open>\<open>rn_tried\<close>: failures in a row, and when it may be tried again; \<open>None\<close> is the infinite time.\<close>

record release_node =
  rn_releases :: release_book
  rn_publishers :: publishers
  rn_journal :: journal
  rn_certs :: cert_store
  rn_quorum :: nat
  rn_tried :: "(bytes, nat \<times> real option) odict"

section \<open>One family\<close>

fun ancestor_sets :: "node_id list \<Rightarrow> int \<Rightarrow> cert_store \<Rightarrow> node_id set list \<times> cert_store" where
  "ancestor_sets [] now s = ([], s)"
| "ancestor_sets (nid # nids) now s =
     (let (a, s) = cs_ancestors nid now s; (as, s) = ancestor_sets nids now s in (a # as, s))"

text \<open>\<open>shared_ancestor\<close>, of which only the number is used: how many of the nodes descend from the issuer most descend from.\<close>

definition shared_ancestor :: "node_id list \<Rightarrow> int \<Rightarrow> cert_store \<Rightarrow> nat \<times> cert_store" where
  "shared_ancestor nids now s =
     (let (as, s) = ancestor_sets nids now s
      in (Max (insert 0 ((\<lambda>a. length (filter (\<lambda>A. a \<in> A) as)) ` \<Union> (set as))), s))"

definition publisher_family :: "bytes list \<Rightarrow> int \<Rightarrow> cert_store \<Rightarrow> nat option \<times> cert_store" where
  "publisher_family publisher_ids now s =
     (let placed = filter (\<lambda>pid. length pid = 20) publisher_ids in
      if length placed < 2 then (None, s)
      else
        (let (count, s) = shared_ancestor placed now s
         in if count < 2 \<or> 2 * count \<le> length placed then (None, s) else (Some count, s)))"

section \<open>The gate\<close>

datatype gate_answer =
    Self_contradiction
  | Disputed
  | Auto_publisher
  | No_auto_publisher
  | Too_few nat
  | One_family nat
  | Agreed nat

fun gate_allows :: "gate_answer \<Rightarrow> bool" where
  "gate_allows Auto_publisher = True"
| "gate_allows (Agreed _) = True"
| "gate_allows _ = False"

definition may_auto_install :: "hash_env \<Rightarrow> int \<Rightarrow> release_entry \<Rightarrow> release_node \<Rightarrow> gate_answer \<times> release_node" where
  "may_auto_install h now e n =
     (if release_equivocated h (re_publisher e) (rn_releases n) \<noteq> None then (Self_contradiction, n)
      else if contradicts (re_version e) (re_sha256 e) (rn_releases n) then (Disputed, n)
      else
        (let signers = attesters (re_version e) (re_sha256 e) (rn_releases n) in
         if auto_for h (re_publisher e) (rn_publishers n) then (Auto_publisher, n)
         else if rn_quorum n = 0 then (No_auto_publisher, n)
         else
           (let endorsed = endorsed_among h signers (rn_publishers n) in
            if length endorsed < rn_quorum n then (Too_few (length endorsed), n)
            else case publisher_family endorsed now (rn_certs n) of
              (Some count, s) \<Rightarrow> (One_family count, n\<lparr> rn_certs := s \<rparr>)
            | (None, s) \<Rightarrow> (Agreed (length endorsed), n\<lparr> rn_certs := s \<rparr>))))"

datatype release_status = Running_it | Untrusted | Older | Available

definition release_state :: "hash_env \<Rightarrow> string \<Rightarrow> release_node \<Rightarrow> release_entry \<Rightarrow> release_status" where
  "release_state h running n e =
     (if re_version e = running then Running_it
      else if \<not> may_install_code h (re_publisher e) (rn_publishers n) then Untrusted
      else if \<not> is_newer (re_version e) running then Older
      else Available)"

section \<open>One install\<close>

datatype install_outcome = Unfetched | Preflight_failed | Apply_failed | Applied

datatype install_answer = Refused_untrusted | Refused_not_newer | Not_fetched | Would_not_start | Not_applied | Installed

definition install_release_entry ::
  "hash_env \<Rightarrow> string \<Rightarrow> int \<Rightarrow> (release_entry \<Rightarrow> install_outcome) \<Rightarrow> bool \<Rightarrow> release_entry \<Rightarrow> release_node \<Rightarrow>
     install_answer \<times> release_node" where
  "install_release_entry h running wall outcome unattended e n =
     (case release_state h running n e of
        Untrusted \<Rightarrow> (Refused_untrusted, n)
      | Running_it \<Rightarrow> (Refused_not_newer, n)
      | Older \<Rightarrow> (Refused_not_newer, n)
      | Available \<Rightarrow>
          (case outcome e of
             Unfetched \<Rightarrow> (Not_fetched, n)
           | Preflight_failed \<Rightarrow>
               (Would_not_start,
                if unattended then n\<lparr> rn_journal := snd (journal_record (re_release_id e) (re_version e) True wall (rn_journal n)) \<rparr> else n)
           | Apply_failed \<Rightarrow> (Not_applied, n)
           | Applied \<Rightarrow>
               (Installed,
                if unattended then n\<lparr> rn_journal := snd (journal_record (re_release_id e) (re_version e) False wall (rn_journal n)) \<rparr>
                else n\<lparr> rn_journal := journal_forget (re_release_id e) (rn_journal n) \<rparr>)))"

definition note_tried :: "bytes \<Rightarrow> nat \<Rightarrow> real option \<Rightarrow> release_node \<Rightarrow> release_node" where
  "note_tried rid failures until n =
     n\<lparr> rn_tried := od_trim RELEASE_TRIED_MAX (od_to_end rid (AList.update rid (failures, until) (rn_tried n))) \<rparr>"

definition may_try :: "real \<Rightarrow> bytes \<Rightarrow> release_node \<Rightarrow> bool" where
  "may_try clock rid n =
     (case map_of (rn_tried n) rid of None \<Rightarrow> True | Some (_, None) \<Rightarrow> False | Some (_, Some t) \<Rightarrow> t \<le> clock)"

definition retry_wait :: "nat \<Rightarrow> real" where
  "retry_wait failures = min RELEASE_RETRY_MAX (RELEASE_RETRY_MIN * 2 ^ min (failures - 1) 16)"

text \<open>The clock is read again after the install, which took \<open>took\<close> seconds.\<close>

definition install_unattended ::
  "hash_env \<Rightarrow> string \<Rightarrow> int \<Rightarrow> real \<Rightarrow> real \<Rightarrow> (release_entry \<Rightarrow> install_outcome) \<Rightarrow> release_entry \<Rightarrow> release_node \<Rightarrow>
     bool \<times> release_node" where
  "install_unattended h running wall clock took outcome e n =
     (let tried = map_of (rn_tried n) (re_release_id e) in
      case install_release_entry h running wall outcome True e n of
        (Installed, n) \<Rightarrow> (True, note_tried (re_release_id e) 0 None n)
      | (_, n) \<Rightarrow>
          (let failures = (case tried of None \<Rightarrow> 0 | Some (f, _) \<Rightarrow> f) + 1
           in (False, note_tried (re_release_id e) failures (Some (clock + took + retry_wait failures)) n)))"

definition release_retry_delay :: "real \<Rightarrow> release_node \<Rightarrow> real option" where
  "release_retry_delay clock n =
     (case List.map_filter (\<lambda>(_, _, t). t) (rn_tried n) of
        [] \<Rightarrow> None
      | t # ts \<Rightarrow> Some (max 1 (foldl min t ts - clock)))"

section \<open>One pass\<close>

definition newest_release_first :: "release_entry \<Rightarrow> release_entry \<Rightarrow> int" where
  "newest_release_first l r =
     (if is_newer (re_version l) (re_version r) then - 1
      else if is_newer (re_version r) (re_version l) then 1
      else re_ts r - re_ts l)"

text \<open>A stable sort by the comparison.\<close>

fun insert_newest :: "release_entry \<Rightarrow> release_entry list \<Rightarrow> release_entry list" where
  "insert_newest x [] = [x]"
| "insert_newest x (y # ys) = (if newest_release_first x y \<le> 0 then x # y # ys else y # insert_newest x ys)"

definition sort_newest :: "release_entry list \<Rightarrow> release_entry list" where
  "sort_newest es = foldr insert_newest es []"

definition release_list :: "release_book \<Rightarrow> bytes list" where
  "release_list b = map fst (sort_key (\<lambda>(_, e). - re_ts e) (rb_entries b))"

fun release_candidates :: "hash_env \<Rightarrow> string \<Rightarrow> int \<Rightarrow> bytes list \<Rightarrow> release_node \<Rightarrow> release_entry list \<times> release_node" where
  "release_candidates h running now [] n = ([], n)"
| "release_candidates h running now (k # ks) n =
     (case release_get k (rn_releases n) of
        None \<Rightarrow> release_candidates h running now ks n
      | Some e \<Rightarrow>
          (if release_state h running n e \<noteq> Available then release_candidates h running now ks n
           else
             (let (answer, n) = may_auto_install h now e n; (es, n) = release_candidates h running now ks n
              in (if gate_allows answer then e # es else es, n))))"

fun release_pick ::
  "hash_env \<Rightarrow> string \<Rightarrow> int \<Rightarrow> real \<Rightarrow> real \<Rightarrow> (release_entry \<Rightarrow> install_outcome) \<Rightarrow> release_entry list \<Rightarrow> release_node \<Rightarrow>
     release_entry option \<times> release_node" where
  "release_pick h running wall clock took outcome [] n = (None, n)"
| "release_pick h running wall clock took outcome (e # es) n =
     (if \<not> may_try clock (re_release_id e) n then release_pick h running wall clock took outcome es n
      else if journal_exhausted (re_release_id e) (rn_journal n)
      then release_pick h running wall clock took outcome es (note_tried (re_release_id e) 0 None n)
      else
        (let (installed, n) = install_unattended h running wall clock took outcome e n
         in (if installed then Some e else None, n)))"

definition release_pass ::
  "hash_env \<Rightarrow> string \<Rightarrow> int \<Rightarrow> int \<Rightarrow> real \<Rightarrow> real \<Rightarrow> (release_entry \<Rightarrow> install_outcome) \<Rightarrow> release_node \<Rightarrow>
     release_entry option \<times> release_node" where
  "release_pass h running now wall clock took outcome n =
     (let (candidates, n) = release_candidates h running now (release_list (rn_releases n)) n
      in release_pick h running wall clock took outcome (sort_newest candidates) n)"

section \<open>What the gate lets through\<close>

lemma first_of_each_length: "length (first_of_each xs) = card (set xs)"
  by (simp add: first_of_each_def length_remdups_card_conv)

definition endorsed_signers :: "hash_env \<Rightarrow> string \<Rightarrow> string \<Rightarrow> release_node \<Rightarrow> bytes set" where
  "endorsed_signers h version sha256 n =
     {pid. (\<exists>key e. release_get key (rn_releases n) = Some e \<and> re_version e = version \<and> re_sha256 e = sha256 \<and>
              pid = publisher_id h (re_publisher e)) \<and>
           (\<exists>p. map_of (tp_entries (rn_publishers n)) pid = Some p \<and> pu_endorsed p)}"

lemma set_attesters: "od_ok (rb_entries b) \<Longrightarrow>
    set (attesters v s b) = {re_publisher e | e. (\<exists>k. release_get k b = Some e) \<and> re_version e = v \<and> re_sha256 e = s}"
  by (force simp: attesters_def release_get_def)

lemma endorsed_count:
  assumes "od_ok (rb_entries (rn_releases n))"
  shows "length (endorsed_among h (attesters v s (rn_releases n)) (rn_publishers n)) = card (endorsed_signers h v s n)"
proof -
  have "set (filter (\<lambda>pid. case map_of (tp_entries (rn_publishers n)) pid of None \<Rightarrow> False | Some e \<Rightarrow> pu_endorsed e)
      (map (publisher_id h) (attesters v s (rn_releases n)))) = endorsed_signers h v s n"
    by (auto simp: endorsed_signers_def set_attesters [OF assms] split: option.splits) blast
  then show ?thesis by (simp only: endorsed_among_def first_of_each_length)
qed

definition authorised :: "hash_env \<Rightarrow> release_node \<Rightarrow> release_entry \<Rightarrow> bool" where
  "authorised h n e \<longleftrightarrow>
     release_equivocated h (re_publisher e) (rn_releases n) = None \<and>
     \<not> contradicts (re_version e) (re_sha256 e) (rn_releases n) \<and>
     (auto_for h (re_publisher e) (rn_publishers n) \<or>
      0 < rn_quorum n \<and> rn_quorum n \<le> card (endorsed_signers h (re_version e) (re_sha256 e) n))"

lemma gate_frame: "\<exists>s. snd (may_auto_install h now e n) = n\<lparr> rn_certs := s \<rparr>"
proof -
  have "\<exists>s. n = n\<lparr> rn_certs := s \<rparr>" by (rule exI [of _ "rn_certs n"]) simp
  then show ?thesis by (auto simp: may_auto_install_def Let_def split: prod.split option.split)
qed

lemma gate_authorises:
  assumes "gate_allows (fst (may_auto_install h now e n))" "od_ok (rb_entries (rn_releases n))"
  shows "authorised h n e"
  using assms by (auto simp: may_auto_install_def authorised_def endorsed_count [symmetric] Let_def split: if_splits prod.splits option.splits)

lemma authorised_frame [simp]: "authorised h (n\<lparr> rn_certs := s \<rparr>) e = authorised h n e"
  by (simp add: authorised_def endorsed_signers_def)

lemma release_state_frame [simp]: "release_state h running (n\<lparr> rn_certs := s \<rparr>) e = release_state h running n e"
  by (simp add: release_state_def)

lemma candidates_sound:
  "od_ok (rb_entries (rn_releases n)) \<Longrightarrow> release_candidates h running now ks n = (es, n') \<Longrightarrow>
     (\<exists>s. n' = n\<lparr> rn_certs := s \<rparr>) \<and>
     (\<forall>e \<in> set es. (\<exists>k. release_get k (rn_releases n) = Some e) \<and> release_state h running n e = Available \<and> authorised h n e)"
proof (induction ks arbitrary: n es n')
  case Nil
  then have "es = []" "n' = n\<lparr> rn_certs := rn_certs n \<rparr>" by simp_all
  then show ?case by (metis empty_iff list.set(1))
next
  case (Cons k ks)
  show ?case
  proof (cases "\<exists>e. release_get k (rn_releases n) = Some e \<and> release_state h running n e = Available")
    case False
    with Cons.prems(2) have "release_candidates h running now ks n = (es, n')" by (auto split: option.splits if_splits)
    with Cons show ?thesis by blast
  next
    case True
    then obtain e where e: "release_get k (rn_releases n) = Some e" "release_state h running n e = Available" by blast
    obtain a n1 where a: "may_auto_install h now e n = (a, n1)" by (cases "may_auto_install h now e n")
    obtain es1 where r: "release_candidates h running now ks n1 = (es1, n')" "es = (if gate_allows a then e # es1 else es1)"
      using Cons.prems(2) e a by (auto split: prod.splits)
    from gate_frame [of h now e n] a obtain s where s: "n1 = n\<lparr> rn_certs := s \<rparr>" by auto
    from Cons.IH [OF _ r(1)] Cons.prems(1) have ih: "(\<exists>s. n' = n1\<lparr> rn_certs := s \<rparr>) \<and>
       (\<forall>e \<in> set es1. (\<exists>k. release_get k (rn_releases n1) = Some e) \<and> release_state h running n1 e = Available \<and> authorised h n1 e)"
      by (simp add: s)
    then have "\<exists>s. n' = n\<lparr> rn_certs := s \<rparr>" by (auto simp: s)
    moreover have "authorised h n e" if "gate_allows a"
      using gate_authorises [of h now e n] a that Cons.prems(1) by simp
    ultimately show ?thesis using ih e by (auto simp: r(2) s)
  qed
qed

lemma set_insert_newest [simp]: "set (insert_newest x es) = insert x (set es)"
  by (induction es) auto

lemma set_sort_newest [simp]: "set (sort_newest es) = set es"
  by (induction es) (simp_all add: sort_newest_def)

lemma note_tried_frame [simp]: "rn_journal (note_tried r f u n) = rn_journal n" "rn_releases (note_tried r f u n) = rn_releases n"
  "rn_publishers (note_tried r f u n) = rn_publishers n" "rn_quorum (note_tried r f u n) = rn_quorum n"
  "rn_certs (note_tried r f u n) = rn_certs n"
  by (simp_all add: note_tried_def)

lemma pick_sound:
  "release_pick h running wall clock took outcome es n = (Some e, n') \<Longrightarrow>
     e \<in> set es \<and> \<not> journal_exhausted (re_release_id e) (rn_journal n) \<and> outcome e = Applied"
proof (induction es arbitrary: n)
  case (Cons x es)
  show ?case
  proof (cases "may_try clock (re_release_id x) n \<and> \<not> journal_exhausted (re_release_id x) (rn_journal n)")
    case False
    with Cons show ?thesis by (fastforce split: if_splits)
  next
    case True
    with Cons.prems show ?thesis
      by (auto simp: install_unattended_def install_release_entry_def Let_def
          split: release_status.splits install_outcome.splits)
  qed
qed simp

text \<open>
  C5: A program is replaced with nobody watching only when that was authorised. Whatever was announced by anybody
  before, what a pass installs is an entry of the book of releases whose descriptor its publisher signed, of a
  version newer than the one that runs; its publisher is pinned for the node's program; nobody the book knows signed
  another content as that version, and no proof is held that its publisher ever signed two; it has not used up its
  attempts; and either the operator pinned that very publisher for automatic install, or as many different
  endorsed publishers as the quorum asks signed the same version with the same hash.
\<close>
theorem unattended_install_is_authorised:
  assumes "rn_releases n = fold (release_step h js vf) events (new_release_book m)"
    and "release_pass h running now wall clock took outcome n = (Some e, n')"
  shows "(\<exists>key d. release_get key (rn_releases n) = Some e \<and> parse_release h js vf (re_release e) = Inr d \<and>
       e = catalogue_entry d (re_release e) (re_trusted e)) \<and>
     is_newer (re_version e) running \<and> may_install_code h (re_publisher e) (rn_publishers n) \<and> outcome e = Applied \<and>
     release_equivocated h (re_publisher e) (rn_releases n) = None \<and> \<not> contradicts (re_version e) (re_sha256 e) (rn_releases n) \<and>
     journal_attempts (re_release_id e) (rn_journal n) < MAX_AUTO_ATTEMPTS \<and>
     (auto_for h (re_publisher e) (rn_publishers n) \<or>
      0 < rn_quorum n \<and> rn_quorum n \<le> card (endorsed_signers h (re_version e) (re_sha256 e) n))"
proof -
  have ok: "release_book_ok h js vf (rn_releases n)"
    unfolding assms(1) using releases.run_inv [OF new_release_book_ok] by (simp add: new_release_book_def)
  then have od: "od_ok (rb_entries (rn_releases n))" by (simp add: release_book_ok_def)
  obtain es n1 where c: "release_candidates h running now (release_list (rn_releases n)) n = (es, n1)"
    by (cases "release_candidates h running now (release_list (rn_releases n)) n")
  with assms(2) have p: "release_pick h running wall clock took outcome (sort_newest es) n1 = (Some e, n')"
    by (simp add: release_pass_def)
  from candidates_sound [OF od c] obtain s where s: "n1 = n\<lparr> rn_certs := s \<rparr>" by blast
  from pick_sound [OF p] have e: "e \<in> set es" "\<not> journal_exhausted (re_release_id e) (rn_journal n)" "outcome e = Applied"
    by (simp_all add: s)
  from candidates_sound [OF od c] e(1) obtain key where k: "release_get key (rn_releases n) = Some e"
    "release_state h running n e = Available" "authorised h n e" by blast
  from k(1) ok have "release_genuine h js vf key e" by (auto simp: release_book_ok_def release_get_def dest: od_allD)
  then obtain d where "parse_release h js vf (re_release e) = Inr d" "e = catalogue_entry d (re_release e) (re_trusted e)"
    by (auto simp: release_genuine_def)
  moreover from k(2) have "is_newer (re_version e) running" "may_install_code h (re_publisher e) (rn_publishers n)"
    by (auto simp: release_state_def split: if_splits)
  ultimately show ?thesis using k(1,3) e(2,3) by (auto simp: authorised_def journal_exhausted_def)
qed

definition demo_node :: release_node where
  "demo_node = \<lparr> rn_releases = fold demo_release_step [Release_arrives [] (\<lambda>_. True)] (new_release_book 4),
     rn_publishers = \<lparr> tp_max = 4, tp_entries = [(publisher_id demo_sha [5],
       \<lparr> pu_key = [5], pu_name = [], pu_code = True, pu_auto = True, pu_endorsed = False, pu_added = 0 \<rparr>)] \<rparr>,
     rn_journal = \<lparr> jr_max = 8, jr_entries = [] \<rparr>, rn_certs = new_cert_store [] 1 1 1, rn_quorum = 0, rn_tried = [] \<rparr>"

lemma demo_node_simps: "rn_releases demo_node = \<lparr> rb_max = 4, rb_entries = [(descriptor_key demo_sha [], catalogue_entry demo_doc [] True)], rb_equiv = [] \<rparr>"
  "tp_entries (rn_publishers demo_node) = [(publisher_id demo_sha [5],
       \<lparr> pu_key = [5], pu_name = [], pu_code = True, pu_auto = True, pu_endorsed = False, pu_added = 0 \<rparr>)]"
  "jr_entries (rn_journal demo_node) = []" "rn_tried demo_node = []"
  by (simp_all only: demo_node_def release_node.simps publishers.simps journal.simps fold.simps o_apply id_apply demo_taken)

lemma demo_available: "release_state demo_sha ''1.1'' demo_node (catalogue_entry demo_doc [] True) = Available"
proof -
  have "is_newer ''1.2'' ''1.1''" by code_simp
  then show ?thesis by (simp add: release_state_def demo_doc_def may_install_code_def demo_node_simps)
qed

lemma demo_gate: "may_auto_install demo_sha 0 (catalogue_entry demo_doc [] True) demo_node = (Auto_publisher, demo_node)"
  by (simp add: may_auto_install_def release_equivocated_def contradicts_def auto_for_def demo_node_simps demo_doc_def Let_def)

lemma demo_candidates: "release_candidates demo_sha ''1.1'' 0 (release_list (rn_releases demo_node)) demo_node =
    ([catalogue_entry demo_doc [] True], demo_node)"
  by (simp add: demo_node_simps release_list_def release_get_def demo_available demo_gate)

theorem unattended_install_is_authorised_witness:
  "\<exists>e n'. release_pass demo_sha ''1.1'' 0 0 0 1 (\<lambda>_. Applied) demo_node = (Some e, n') \<and> is_newer (re_version e) ''1.1'' \<and>
     may_install_code demo_sha (re_publisher e) (rn_publishers demo_node)"
proof -
  let ?e = "catalogue_entry demo_doc [] True"
  have "fst (release_pass demo_sha ''1.1'' 0 0 0 1 (\<lambda>_. Applied) demo_node) = Some ?e"
    unfolding release_pass_def demo_candidates
    by (simp add: sort_newest_def may_try_def demo_node_simps(3,4) journal_exhausted_def
        journal_attempts_def MAX_AUTO_ATTEMPTS_def install_unattended_def install_release_entry_def demo_available)
  then obtain n' where n: "release_pass demo_sha ''1.1'' 0 0 0 1 (\<lambda>_. Applied) demo_node = (Some ?e, n')" by (metis prod.collapse)
  have "rn_releases demo_node = fold demo_release_step [Release_arrives [] (\<lambda>_. True)] (new_release_book 4)"
    by (simp only: demo_node_def release_node.simps)
  from unattended_install_is_authorised [OF this n] n show ?thesis by blast
qed

section \<open>The newest first, and failures again\<close>

lemma candidates_complete:
  assumes "release_candidates h running now ks n = (es, n')" "k \<in> set ks" "release_get k (rn_releases n) = Some x"
    "release_state h running n x = Available" "auto_for h (re_publisher x) (rn_publishers n)"
    "release_equivocated h (re_publisher x) (rn_releases n) = None" "\<not> contradicts (re_version x) (re_sha256 x) (rn_releases n)"
  shows "x \<in> set es"
  using assms
proof (induction ks arbitrary: n es n')
  case (Cons k' ks)
  have g: "gate_allows (fst (may_auto_install h now x n))"
    using Cons.prems by (simp add: may_auto_install_def Let_def)
  show ?case
  proof (cases "\<exists>e. release_get k' (rn_releases n) = Some e \<and> release_state h running n e = Available")
    case False
    with Cons.prems have "release_candidates h running now ks n = (es, n')" "k \<in> set ks" by (auto split: option.splits if_splits)
    with Cons show ?thesis by blast
  next
    case True
    then obtain e where e: "release_get k' (rn_releases n) = Some e" "release_state h running n e = Available" by blast
    obtain a n1 where a: "may_auto_install h now e n = (a, n1)" by (cases "may_auto_install h now e n")
    obtain es1 where r: "release_candidates h running now ks n1 = (es1, n')" "es = (if gate_allows a then e # es1 else es1)"
      using Cons.prems(1) e a by (auto split: prod.splits)
    from gate_frame [of h now e n] a obtain s where s: "n1 = n\<lparr> rn_certs := s \<rparr>" by auto
    show ?thesis
    proof (cases "k = k'")
      case True
      with e Cons.prems(3) g a r show ?thesis by simp
    next
      case False
      with Cons.prems have "x \<in> set es1" by (intro Cons.IH [OF r(1)]) (simp_all add: s)
      then show ?thesis by (simp add: r(2))
    qed
  qed
qed simp

definition comes_first :: "release_entry \<Rightarrow> release_entry \<Rightarrow> bool" where
  "comes_first x y \<longleftrightarrow> newest_release_first x y \<le> 0"

lemma comes_first_eq: "comes_first x y \<longleftrightarrow> is_newer (re_version x) (re_version y) \<or>
    \<not> is_newer (re_version y) (re_version x) \<and> re_ts y \<le> re_ts x"
  by (simp add: comes_first_def newest_release_first_def)

definition readable :: "release_entry \<Rightarrow> bool" where
  "readable e \<longleftrightarrow> version_parse (re_version e) \<noteq> None"

lemma comes_first_total: "comes_first x y \<or> comes_first y x"
  by (auto simp: comes_first_eq)

lemma comes_first_trans:
  assumes "comes_first x y" "comes_first y z" "readable x" "readable y" "readable z"
  shows "comes_first x z"
proof -
  from assms(3-5) obtain kx ky kz where k: "version_parse (re_version x) = Some kx" "version_parse (re_version y) = Some ky"
    "version_parse (re_version z) = Some kz" by (auto simp: readable_def)
  from assms(1) have xy: "key_newer kx ky \<or> kx = ky \<and> re_ts y \<le> re_ts x"
    using key_newer_total [of kx ky] by (auto simp: comes_first_eq is_newer_def k)
  from assms(2) have yz: "key_newer ky kz \<or> ky = kz \<and> re_ts z \<le> re_ts y"
    using key_newer_total [of ky kz] by (auto simp: comes_first_eq is_newer_def k)
  from xy yz have "key_newer kx kz \<or> kx = kz \<and> re_ts z \<le> re_ts x"
    using key_newer_trans [of kx ky kz] by auto
  then show ?thesis by (auto simp: comes_first_eq is_newer_def k key_newer_irrefl)
qed

lemma insert_newest_sorted:
  assumes "sorted_wrt comes_first es" "readable x" "\<forall>y \<in> set es. readable y"
  shows "sorted_wrt comes_first (insert_newest x es)"
  using assms
proof (induction es)
  case (Cons y ys)
  show ?case
  proof (cases "comes_first x y")
    case True
    then have "comes_first x z" if "z \<in> set ys" for z
      using comes_first_trans [of x y z] Cons.prems that by auto
    with True Cons.prems show ?thesis by (simp add: comes_first_def)
  next
    case False
    with comes_first_total [of x y] have "comes_first y x" by blast
    with False Cons show ?thesis by (simp add: comes_first_def)
  qed
qed simp

lemma sort_newest_sorted: "\<forall>y \<in> set es. readable y \<Longrightarrow> sorted_wrt comes_first (sort_newest es)"
proof (induction es)
  case (Cons e es)
  have "sort_newest (e # es) = insert_newest e (sort_newest es)" by (simp add: sort_newest_def)
  with insert_newest_sorted [of "sort_newest es" e] Cons show ?case by simp
qed (simp add: sort_newest_def)

lemma note_tried_lookup:
  assumes "od_ok (rn_tried n)" "map_of (rn_tried (note_tried r f u n)) r' = Some v"
  shows "if r' = r then v = (f, u) else map_of (rn_tried n) r' = Some v"
proof -
  let ?d = "od_to_end r (AList.update r (f, u) (rn_tried n))"
  have ok: "od_ok ?d" using assms(1) by simp
  from assms(2) have "(r', v) \<in> set ?d"
    using set_od_trim [of RELEASE_TRIED_MAX ?d] by (auto simp: note_tried_def dest: map_of_SomeD)
  with ok have "map_of ?d r' = Some v" by simp
  then show ?thesis by (simp add: map_of_to_end update_conv' split: if_splits)
qed

lemma note_tried_ok [simp]: "od_ok (rn_tried n) \<Longrightarrow> od_ok (rn_tried (note_tried r f u n))"
  by (simp add: note_tried_def)

lemma pick_skips:
  assumes "release_pick h running wall clock took outcome es n = (Some e, n')" "od_ok (rn_tried n)" "sorted_wrt comes_first es"
    "x \<in> set es" "\<not> comes_first e x"
  shows "\<not> may_try clock (re_release_id x) n \<or> journal_exhausted (re_release_id x) (rn_journal n)"
  using assms
proof (induction es arbitrary: n)
  case (Cons y es)
  let ?r = "re_release_id y"
  have e: "e \<in> insert y (set es)" using pick_sound [OF Cons.prems(1)] by simp
  consider (wait) "\<not> may_try clock ?r n" | (gone) "may_try clock ?r n" "journal_exhausted ?r (rn_journal n)"
    | (now) "may_try clock ?r n" "\<not> journal_exhausted ?r (rn_journal n)" by blast
  then show ?case
  proof cases
    case wait
    with Cons.prems have "release_pick h running wall clock took outcome es n = (Some e, n')" by simp
    from Cons.IH [OF this] wait Cons.prems show ?thesis by auto
  next
    case gone
    let ?n = "note_tried ?r 0 None n"
    from gone Cons.prems have p: "release_pick h running wall clock took outcome es ?n = (Some e, n')" by simp
    show ?thesis
    proof (cases "re_release_id x = ?r")
      case False
      with Cons.prems have "x \<in> set es" by auto
      with Cons.IH [OF p] Cons.prems have "\<not> may_try clock (re_release_id x) ?n \<or> journal_exhausted (re_release_id x) (rn_journal n)"
        by simp
      moreover have "\<not> may_try clock (re_release_id x) n" if "\<not> may_try clock (re_release_id x) ?n"
      proof -
        from that obtain v where "map_of (rn_tried ?n) (re_release_id x) = Some v" by (auto simp: may_try_def split: option.splits)
        with note_tried_lookup [OF Cons.prems(2) this] False that show ?thesis by (simp add: may_try_def)
      qed
      ultimately show ?thesis by blast
    qed (use gone in simp)
  next
    case now
    with Cons.prems(1) have "e = y"
      by (auto simp: install_unattended_def Let_def split: prod.splits if_splits)
    moreover have "comes_first y y" by (simp add: comes_first_eq)
    ultimately show ?thesis using Cons.prems(3,4,5) by auto
  qed
qed simp

text \<open>
  A node goes straight to the newest. When a pass installs a release, every newer one that a publisher pinned
  for automatic install signed, and that nothing is held against, had already failed: it waits for its next try or has
  used up its attempts.
\<close>
lemma newest_goes_first:
  assumes "rn_releases n = fold (release_step h js vf) events (new_release_book m)" "od_ok (rn_tried n)"
    and "release_pass h running now wall clock took outcome n = (Some e, n')"
    and "release_get key (rn_releases n) = Some x" "release_state h running n x = Available"
      "auto_for h (re_publisher x) (rn_publishers n)" "release_equivocated h (re_publisher x) (rn_releases n) = None"
      "\<not> contradicts (re_version x) (re_sha256 x) (rn_releases n)"
    and "is_newer (re_version x) (re_version e)"
  shows "\<not> may_try clock (re_release_id x) n \<or> journal_exhausted (re_release_id x) (rn_journal n)"
proof -
  have "release_book_ok h js vf (rn_releases n)"
    unfolding assms(1) using releases.run_inv [OF new_release_book_ok] by (simp add: new_release_book_def)
  then have od: "od_ok (rb_entries (rn_releases n))" by (simp add: release_book_ok_def)
  obtain es n1 where c: "release_candidates h running now (release_list (rn_releases n)) n = (es, n1)"
    by (cases "release_candidates h running now (release_list (rn_releases n)) n")
  with assms(3) have p: "release_pick h running wall clock took outcome (sort_newest es) n1 = (Some e, n')"
    by (simp add: release_pass_def)
  from candidates_sound [OF od c] obtain s where s: "n1 = n\<lparr> rn_certs := s \<rparr>" by blast
  have "key \<in> set (release_list (rn_releases n))"
    using assms(4) by (force simp: release_list_def release_get_def dest: map_of_SomeD)
  from candidates_complete [OF c this assms(4-8)] have x: "x \<in> set (sort_newest es)" by simp
  have "readable y" if "y \<in> set es" for y
    using candidates_sound [OF od c] that is_newer_parsed by (fastforce simp: release_state_def readable_def split: if_splits)
  then have so: "sorted_wrt comes_first (sort_newest es)" by (intro sort_newest_sorted) blast
  have "\<not> is_newer (re_version e) (re_version x)" using is_newer_trans [OF assms(9)] is_newer_irrefl by blast
  with assms(9) have "\<not> comes_first e x" by (simp add: comes_first_eq)
  from pick_skips [OF p _ so x this] assms(2) show ?thesis by (simp add: s may_try_def)
qed

text \<open>A failed install waits a minute at least, and an hour at most.\<close>

lemma retry_wait_bounds: "RELEASE_RETRY_MIN \<le> retry_wait f" "retry_wait f \<le> RELEASE_RETRY_MAX"
  by (simp_all add: retry_wait_def RELEASE_RETRY_MIN_def RELEASE_RETRY_MAX_def)

lemma note_tried_last:
  assumes "od_ok (rn_tried n)"
  shows "map_of (rn_tried (note_tried r f u n)) r = Some (f, u)"
proof -
  let ?d = "AList.delete r (AList.update r (f, u) (rn_tried n))"
  have e: "rn_tried (note_tried r f u n) = od_trim (RELEASE_TRIED_MAX - 1) ?d @ [(r, f, u)]"
    by (simp add: note_tried_def od_to_end_def update_conv' od_trim_snoc RELEASE_TRIED_MAX_def)
  have ok: "od_ok (rn_tried (note_tried r f u n))" using assms by simp
  have "(r, f, u) \<in> set (rn_tried (note_tried r f u n))" by (simp add: e)
  with ok show ?thesis by simp
qed

lemma failed_install_waits:
  assumes "install_unattended h running wall clock took outcome e n = (False, n')" "od_ok (rn_tried n)"
  shows "(t < clock + took + RELEASE_RETRY_MIN \<longrightarrow> \<not> may_try t (re_release_id e) n') \<and>
    (clock + took + RELEASE_RETRY_MAX \<le> t \<longrightarrow> may_try t (re_release_id e) n')"
proof -
  obtain m f where n': "n' = note_tried (re_release_id e) f (Some (clock + took + retry_wait f)) m" and m: "rn_tried m = rn_tried n"
    using assms(1) by (auto simp: install_unattended_def install_release_entry_def Let_def
        split: prod.splits install_answer.splits release_status.splits install_outcome.splits)
  have "map_of (rn_tried n') (re_release_id e) = Some (f, Some (clock + took + retry_wait f))"
    unfolding n' by (rule note_tried_last) (simp add: m assms(2))
  with retry_wait_bounds [of f] show ?thesis by (auto simp: may_try_def)
qed

end
