(* ===== verification/KeyShare.thy ===== *)
theory KeyShare
  imports Claims Standing
begin

text \<open>
  The three messages with which a publisher key is handed from one node to another (\<open>src/key_share.py\<close>):
  the offer, signed by the key that is offered; the acceptance, signed by the node that accepts and naming a
  key to seal to; the grant, the secret sealed to that key.

  Key encapsulation, the key derivation of a grant and AES-GCM are the record \<open>seal_env\<close>; what they answer
  when they raise is \<open>None\<close>. A random offer id or nonce is an argument. A \<open>KeyShareError\<close> is \<open>ValueError\<close> here.
\<close>

definition SHARE_DOMAIN :: bytes where "SHARE_DOMAIN = ascii ''nmesh-publisher-share-v1''"
definition SHARE_VERSION :: nat where "SHARE_VERSION = 1"
definition OFFER_ID_LEN :: nat where "OFFER_ID_LEN = 16"
definition SHARE_ID_LEN :: nat where "SHARE_ID_LEN = 20"
definition OFFER_TTL :: real where "OFFER_TTL = 300"
definition SHARE_MAX_LABEL :: nat where "SHARE_MAX_LABEL = 64"
definition SHARE_MAX_PUBKEY :: nat where "SHARE_MAX_PUBKEY = 4096"
definition SHARE_MAX_SECRET :: nat where "SHARE_MAX_SECRET = 8192"
definition MAX_KEM_PUBLIC :: nat where "MAX_KEM_PUBLIC = 4096"
definition MAX_KEM_CIPHERTEXT :: nat where "MAX_KEM_CIPHERTEXT = 4096"
definition SHARE_MAX_SIG :: nat where "SHARE_MAX_SIG = 5000"
definition SHARE_NONCE_LEN :: nat where "SHARE_NONCE_LEN = 12"
definition SHARE_TAG_LEN :: nat where "SHARE_TAG_LEN = 16"
definition SHARE_HDR :: nat where "SHARE_HDR = 31"
definition MAX_OFFER :: nat where "MAX_OFFER = SHARE_HDR + SHARE_MAX_PUBKEY + SHARE_MAX_LABEL * 4 + SHARE_MAX_SIG"
definition MAX_ACCEPT :: nat where "MAX_ACCEPT = SHARE_HDR + MAX_KEM_PUBLIC + SHARE_MAX_PUBKEY + SHARE_MAX_SIG"
definition GRANT_HDR :: nat where "GRANT_HDR = 31"
definition MAX_GRANT :: nat where "MAX_GRANT = GRANT_HDR + MAX_KEM_CIPHERTEXT + SHARE_MAX_SECRET + SHARE_TAG_LEN"

lemmas share_sizes = SHARE_HDR_def GRANT_HDR_def OFFER_ID_LEN_def SHARE_ID_LEN_def SHARE_MAX_LABEL_def SHARE_MAX_PUBKEY_def
  SHARE_MAX_SECRET_def MAX_KEM_PUBLIC_def MAX_KEM_CIPHERTEXT_def SHARE_MAX_SIG_def SHARE_NONCE_LEN_def SHARE_TAG_LEN_def
  MAX_OFFER_def MAX_ACCEPT_def MAX_GRANT_def

record seal_env =
  se_encapsulate :: "bytes \<Rightarrow> (bytes \<times> bytes) option"
  se_decapsulate :: "bytes \<Rightarrow> bytes \<Rightarrow> bytes option"
  se_derive :: "bytes \<Rightarrow> bytes \<Rightarrow> bytes"
  se_encrypt :: "bytes \<Rightarrow> bytes \<Rightarrow> bytes \<Rightarrow> bytes \<Rightarrow> bytes"
  se_decrypt :: "bytes \<Rightarrow> bytes \<Rightarrow> bytes \<Rightarrow> bytes \<Rightarrow> bytes option"

text \<open>\<open>str.isprintable\<close>: no character of the categories other or separator but the space.\<close>

definition label_printable :: "unicode \<Rightarrow> pystr \<Rightarrow> bool" where
  "label_printable u s = list_all (\<lambda>c. c = SPACE \<or> uc_category u c \<notin> set (FORBIDDEN_CATEGORIES @ SEPARATOR_CATEGORIES)) s"

definition ids_ok :: "bytes \<Rightarrow> bytes \<Rightarrow> bool" where
  "ids_ok from_id to_id \<longleftrightarrow> length from_id = SHARE_ID_LEN \<and> length to_id = SHARE_ID_LEN"

section \<open>The offer\<close>

record key_offer =
  ko_id :: bytes
  ko_publisher :: bytes
  ko_label :: pystr
  ko_ts :: nat

definition offer_input :: "bytes \<Rightarrow> bytes \<Rightarrow> bytes \<Rightarrow> nat \<Rightarrow> bytes \<Rightarrow> bytes \<Rightarrow> bytes" where
  "offer_input offer_id from_id to_id ts pub encoded =
     SHARE_DOMAIN @ ascii '':offer:'' @ offer_id @ from_id @ to_id @ be_bytes 8 ts @ pub @ encoded"

definition build_offer ::
  "bytes \<Rightarrow> bytes \<Rightarrow> bytes \<Rightarrow> bytes \<Rightarrow> (bytes \<Rightarrow> bytes) \<Rightarrow> pystr \<Rightarrow> int \<Rightarrow> bytes result" where
  "build_offer offer_id from_id to_id pub sign label ts =
     (if \<not> ids_ok from_id to_id then Inl ValueError
      else if pub = [] \<or> SHARE_MAX_PUBKEY < length pub then Inl ValueError
      else if length offer_id \<noteq> OFFER_ID_LEN then Inl ValueError
      else rbind (pack_uint 8 ts) (\<lambda>ts_bytes. rbind (utf8_encode (take SHARE_MAX_LABEL label)) (\<lambda>encoded.
        let sig = sign (offer_input offer_id from_id to_id (nat ts) pub encoded) in
        if SHARE_MAX_SIG < length sig \<or> SHARE_MAX_LABEL * 4 < length encoded then Inl ValueError
        else Inr (be_bytes 1 SHARE_VERSION @ ts_bytes @ offer_id @ be_bytes 2 (length pub) @
                  be_bytes 2 (length encoded) @ be_bytes 2 (length sig) @ pub @ encoded @ sig))))"

definition parse_offer :: "unicode \<Rightarrow> verifier \<Rightarrow> bytes \<Rightarrow> bytes \<Rightarrow> bytes \<Rightarrow> key_offer option" where
  "parse_offer u vf from_id to_id data =
     (if \<not> (SHARE_HDR \<le> length data \<and> length data \<le> MAX_OFFER) then None
      else
        (let version = be_val (slice 0 1 data); ts = be_val (slice 1 9 data); offer_id = slice 9 25 data;
             pub_len = be_val (slice 25 27 data); label_len = be_val (slice 27 29 data); sig_len = be_val (slice 29 31 data);
             off = SHARE_HDR
         in if version \<noteq> SHARE_VERSION then None
            else if SHARE_MAX_PUBKEY < pub_len \<or> SHARE_MAX_LABEL * 4 < label_len \<or> SHARE_MAX_SIG < sig_len \<or>
              pub_len = 0 \<or> sig_len = 0 then None
            else if length data \<noteq> off + pub_len + label_len + sig_len then None
            else
              (let pub = slice off (off + pub_len) data; raw_label = slice (off + pub_len) (off + pub_len + label_len) data;
                   sig = drop (off + pub_len + label_len) data
               in case utf8_decode raw_label of
                    None \<Rightarrow> None
                  | Some label \<Rightarrow>
                      (if SHARE_MAX_LABEL < length label \<or> \<not> label_printable u label then None
                       else if \<not> vf (offer_input offer_id from_id to_id ts pub raw_label) sig pub then None
                       else Some \<lparr> ko_id = offer_id, ko_publisher = pub, ko_label = label, ko_ts = ts \<rparr>))))"

section \<open>The acceptance\<close>

record key_accept =
  ka_id :: bytes
  ka_kem :: bytes
  ka_node :: bytes
  ka_ts :: nat

definition accept_input :: "bytes \<Rightarrow> bytes \<Rightarrow> bytes \<Rightarrow> nat \<Rightarrow> bytes \<Rightarrow> bytes" where
  "accept_input offer_id from_id to_id ts kem =
     SHARE_DOMAIN @ ascii '':accept:'' @ offer_id @ from_id @ to_id @ be_bytes 8 ts @ kem"

definition build_accept ::
  "bytes \<Rightarrow> bytes \<Rightarrow> bytes \<Rightarrow> bytes \<Rightarrow> bytes \<Rightarrow> (bytes \<Rightarrow> bytes) \<Rightarrow> int \<Rightarrow> bytes result" where
  "build_accept offer_id from_id to_id kem node_pub sign ts =
     (if \<not> ids_ok from_id to_id then Inl ValueError
      else if length offer_id \<noteq> OFFER_ID_LEN then Inl ValueError
      else if kem = [] \<or> MAX_KEM_PUBLIC < length kem then Inl ValueError
      else if node_pub = [] \<or> SHARE_MAX_PUBKEY < length node_pub then Inl ValueError
      else rbind (pack_uint 8 ts) (\<lambda>ts_bytes.
        let sig = sign (accept_input offer_id from_id to_id (nat ts) kem) in
        if SHARE_MAX_SIG < length sig then Inl ValueError
        else Inr (be_bytes 1 SHARE_VERSION @ ts_bytes @ offer_id @ be_bytes 2 (length kem) @
                  be_bytes 2 (length node_pub) @ be_bytes 2 (length sig) @ kem @ node_pub @ sig)))"

definition parse_accept :: "hash_env \<Rightarrow> verifier \<Rightarrow> bytes \<Rightarrow> bytes \<Rightarrow> bytes \<Rightarrow> key_accept option" where
  "parse_accept h vf from_id to_id data =
     (if \<not> (SHARE_HDR \<le> length data \<and> length data \<le> MAX_ACCEPT) then None
      else
        (let version = be_val (slice 0 1 data); ts = be_val (slice 1 9 data); offer_id = slice 9 25 data;
             kem_len = be_val (slice 25 27 data); pub_len = be_val (slice 27 29 data); sig_len = be_val (slice 29 31 data);
             off = SHARE_HDR
         in if version \<noteq> SHARE_VERSION then None
            else if MAX_KEM_PUBLIC < kem_len \<or> SHARE_MAX_PUBKEY < pub_len \<or> SHARE_MAX_SIG < sig_len \<or>
              kem_len = 0 \<or> pub_len = 0 \<or> sig_len = 0 then None
            else if length data \<noteq> off + kem_len + pub_len + sig_len then None
            else
              (let kem = slice off (off + kem_len) data; node_pub = slice (off + kem_len) (off + kem_len + pub_len) data;
                   sig = drop (off + kem_len + pub_len) data
               in if key_id h node_pub \<noteq> from_id then None
                  else if \<not> vf (accept_input offer_id from_id to_id ts kem) sig node_pub then None
                  else Some \<lparr> ka_id = offer_id, ka_kem = kem, ka_node = node_pub, ka_ts = ts \<rparr>)))"

definition accept_offer_id :: "bytes \<Rightarrow> bytes option" where
  "accept_offer_id data =
     (if \<not> (SHARE_HDR \<le> length data \<and> length data \<le> MAX_ACCEPT) then None
      else if be_val (slice 0 1 data) = SHARE_VERSION then Some (slice 9 25 data) else None)"

section \<open>The grant\<close>

definition grant_key :: "seal_env \<Rightarrow> bytes \<Rightarrow> bytes \<Rightarrow> bytes" where
  "grant_key v shared offer_id = se_derive v shared (SHARE_DOMAIN @ ascii '':grant:'' @ offer_id)"

definition grant_aad :: "bytes \<Rightarrow> bytes \<Rightarrow> bytes \<Rightarrow> bytes \<Rightarrow> bytes" where
  "grant_aad offer_id from_id to_id pub = SHARE_DOMAIN @ ascii '':grant:'' @ offer_id @ from_id @ to_id @ pub"

definition seal_grant ::
  "seal_env \<Rightarrow> bytes \<Rightarrow> bytes \<Rightarrow> bytes \<Rightarrow> bytes \<Rightarrow> bytes \<Rightarrow> bytes \<Rightarrow> bytes \<Rightarrow> bytes option" where
  "seal_grant v nonce offer_id from_id to_id pub secret kem =
     (if \<not> ids_ok from_id to_id then None
      else if secret = [] \<or> SHARE_MAX_SECRET < length secret then None
      else case se_encapsulate v kem of
        None \<Rightarrow> None
      | Some (ciphertext, shared) \<Rightarrow>
          (if MAX_KEM_CIPHERTEXT < length ciphertext then None
           else Some (be_bytes 1 SHARE_VERSION @ pack_str 16 offer_id @ be_bytes 2 (length ciphertext) @ pack_str 12 nonce @ ciphertext @
                      se_encrypt v (grant_key v shared offer_id) nonce secret (grant_aad offer_id from_id to_id pub))))"

definition open_grant :: "seal_env \<Rightarrow> bytes \<Rightarrow> bytes \<Rightarrow> bytes \<Rightarrow> bytes \<Rightarrow> bytes \<Rightarrow> bytes option" where
  "open_grant v from_id to_id pub kem_secret data =
     (if \<not> (GRANT_HDR \<le> length data \<and> length data \<le> MAX_GRANT) then None
      else
        (let version = be_val (slice 0 1 data); offer_id = slice 1 17 data; ct_len = be_val (slice 17 19 data);
             nonce = slice 19 31 data; off = GRANT_HDR
         in if version \<noteq> SHARE_VERSION \<or> ct_len = 0 \<or> MAX_KEM_CIPHERTEXT < ct_len then None
            else if length data < off + ct_len + SHARE_TAG_LEN then None
            else
              (let ciphertext = slice off (off + ct_len) data; sealed = drop (off + ct_len) data
               in if SHARE_MAX_SECRET + SHARE_TAG_LEN < length sealed then None
                  else case se_decapsulate v ciphertext kem_secret of
                    None \<Rightarrow> None
                  | Some shared \<Rightarrow>
                      se_decrypt v (grant_key v shared offer_id) nonce sealed (grant_aad offer_id from_id to_id pub))))"

definition grant_offer_id :: "bytes \<Rightarrow> bytes option" where
  "grant_offer_id data =
     (if \<not> (GRANT_HDR \<le> length data \<and> length data \<le> MAX_GRANT) then None
      else if be_val (slice 0 1 data) = SHARE_VERSION then Some (slice 1 17 data) else None)"

section \<open>What a message says\<close>

text \<open>The layout the offer and the acceptance share: a header and three fields.\<close>

lemma three_fields:
  assumes "data = be_bytes 1 SHARE_VERSION @ be_bytes 8 ts @ oid @ be_bytes 2 (length a) @ be_bytes 2 (length b) @ be_bytes 2 (length c) @ a @ b @ c"
    and "length oid = 16" "ts < 256 ^ 8" "length a < 65536" "length b < 65536" "length c < 65536"
  shows "be_val (slice 0 1 data) = SHARE_VERSION" "be_val (slice 1 9 data) = ts" "slice 9 25 data = oid"
    "be_val (slice 25 27 data) = length a" "be_val (slice 27 29 data) = length b" "be_val (slice 29 31 data) = length c"
    "slice 31 (31 + length a) data = a" "slice (31 + length a) (31 + length a + length b) data = b"
    "drop (31 + length a + length b) data = c" "length data = 31 + length a + length b + length c"
proof -
  define h1 h2 h3 h4 h5 where "h1 = be_bytes 1 SHARE_VERSION" and "h2 = be_bytes 8 ts" and "h3 = be_bytes 2 (length a)"
    and "h4 = be_bytes 2 (length b)" and "h5 = be_bytes 2 (length c)"
  have d: "data = h1 @ h2 @ oid @ h3 @ h4 @ h5 @ a @ b @ c" by (simp only: assms(1) h1_def h2_def h3_def h4_def h5_def)
  have hl: "length h1 = 1" "length h2 = 8" "length h3 = 2" "length h4 = 2" "length h5 = 2"
    by (simp_all add: h1_def h2_def h3_def h4_def h5_def del: be_bytes.simps)
  have v: "be_val h1 = SHARE_VERSION" "be_val h2 = ts" "be_val h3 = length a" "be_val h4 = length b" "be_val h5 = length c"
    using assms(3-6) by (simp_all add: h1_def h2_def h3_def h4_def h5_def SHARE_VERSION_def del: be_bytes.simps)
  have s: "slice 0 1 data = h1" "slice 1 9 data = h2" "slice 25 27 data = h3" "slice 27 29 data = h4" "slice 29 31 data = h5"
    by (simp_all add: d slice_def hl assms(2))
  show "be_val (slice 0 1 data) = SHARE_VERSION" "be_val (slice 1 9 data) = ts"
    "be_val (slice 25 27 data) = length a" "be_val (slice 27 29 data) = length b" "be_val (slice 29 31 data) = length c"
    by (simp_all only: s v)
  show "slice 9 25 data = oid" "slice 31 (31 + length a) data = a" "slice (31 + length a) (31 + length a + length b) data = b"
    "drop (31 + length a + length b) data = c" "length data = 31 + length a + length b + length c"
    by (simp_all add: d slice_def hl assms(2))
qed

lemma parsed_offer:
  assumes "parse_offer u vf from_id to_id data = Some off"
  shows "\<exists>encoded sig. utf8_encode (ko_label off) = Inr encoded \<and>
    vf (offer_input (ko_id off) from_id to_id (ko_ts off) (ko_publisher off) encoded) sig (ko_publisher off) \<and>
    ko_publisher off \<noteq> [] \<and> length (ko_label off) \<le> SHARE_MAX_LABEL \<and> label_printable u (ko_label off)"
proof -
  let ?pk = "be_val (slice 25 27 data)" and ?ll = "be_val (slice 27 29 data)"
  let ?pub = "slice 31 (31 + ?pk) data" and ?enc = "slice (31 + ?pk) (31 + ?pk + ?ll) data" and ?sig = "drop (31 + ?pk + ?ll) data"
  obtain label where p: "utf8_decode ?enc = Some label" "length label \<le> SHARE_MAX_LABEL" "label_printable u label" "?pk \<noteq> 0"
      "31 + ?pk \<le> length data" "vf (offer_input (slice 9 25 data) from_id to_id (be_val (slice 1 9 data)) ?pub ?enc) ?sig ?pub"
      "off = \<lparr> ko_id = slice 9 25 data, ko_publisher = ?pub, ko_label = label, ko_ts = be_val (slice 1 9 data) \<rparr>"
    using assms by (auto simp: parse_offer_def SHARE_HDR_def Let_def split: if_splits option.splits)
  have "length ?pub = ?pk" using p(5) by (simp add: length_slice)
  with p(4) have "?pub \<noteq> []" by auto
  with utf8_decode_encode [OF p(1)] p(2,3,6) show ?thesis by (auto simp: p(7))
qed

lemma parsed_accept:
  assumes "parse_accept h vf from_id to_id data = Some a"
  shows "key_id h (ka_node a) = from_id \<and> accept_offer_id data = Some (ka_id a) \<and>
    (\<exists>sig. vf (accept_input (ka_id a) from_id to_id (ka_ts a) (ka_kem a)) sig (ka_node a))"
  using assms by (auto simp: parse_accept_def accept_offer_id_def Let_def split: if_splits)

section \<open>What is sent arrives\<close>

lemma parse_built_offer:
  assumes "build_offer offer_id from_id to_id pub sign label ts = Inr data"
    and "\<And>m. vf m (sign m) pub" "\<And>m. sign m \<noteq> []"
  shows "parse_offer u vf from_id to_id data =
    (if label_printable u (take SHARE_MAX_LABEL label)
     then Some \<lparr> ko_id = offer_id, ko_publisher = pub, ko_label = take SHARE_MAX_LABEL label, ko_ts = nat ts \<rparr> else None)"
proof -
  define l where "l = take SHARE_MAX_LABEL label"
  obtain enc where e: "length offer_id = 16" "pub \<noteq> []" "length pub \<le> 4096" "0 \<le> ts" "ts < 256 ^ 8" "utf8_encode l = Inr enc"
      "length (sign (offer_input offer_id from_id to_id (nat ts) pub enc)) \<le> 5000" "length enc \<le> 256"
      "data = be_bytes 1 SHARE_VERSION @ be_bytes 8 (nat ts) @ offer_id @ be_bytes 2 (length pub) @ be_bytes 2 (length enc) @
         be_bytes 2 (length (sign (offer_input offer_id from_id to_id (nat ts) pub enc))) @ pub @ enc @
         sign (offer_input offer_id from_id to_id (nat ts) pub enc)"
    using assms(1) by (auto simp: build_offer_def rbind_Inr pack_uint_Inr Let_def share_sizes l_def [unfolded share_sizes]
        simp del: be_bytes.simps split: if_splits)
  define sg where "sg = sign (offer_input offer_id from_id to_id (nat ts) pub enc)"
  have tl: "nat ts < 256 ^ 8" by (rule nat_lt_pow [OF e(4,5)])
  note f = three_fields [OF e(9) [folded sg_def] e(1) tl]
  have sl: "length sg \<le> 5000" "sg \<noteq> []" using e(7) assms(3) by (simp_all add: sg_def)
  have b: "length pub < 65536" "length enc < 65536" "length sg < 65536" using e(3,8) sl by simp_all
  note f = f [OF b]
  have g: "vf (offer_input offer_id from_id to_id (nat ts) pub enc) sg pub" unfolding sg_def by (rule assms(2))
  have ll: "length l \<le> 64" by (simp add: l_def SHARE_MAX_LABEL_def)
  show ?thesis
    unfolding l_def [symmetric]
    using e(2,3,8) sl utf8_roundtrip [OF e(6)] g ll
    by (simp add: parse_offer_def share_sizes f [simplified] Let_def)
qed

lemma parse_built_accept:
  assumes "build_accept offer_id from_id to_id kem node_pub sign ts = Inr data"
    and "\<And>m. vf m (sign m) node_pub" "\<And>m. sign m \<noteq> []" "key_id h node_pub = from_id"
  shows "parse_accept h vf from_id to_id data =
      Some \<lparr> ka_id = offer_id, ka_kem = kem, ka_node = node_pub, ka_ts = nat ts \<rparr> \<and>
    accept_offer_id data = Some offer_id"
proof -
  have e: "length offer_id = 16" "kem \<noteq> []" "length kem \<le> 4096" "node_pub \<noteq> []" "length node_pub \<le> 4096" "0 \<le> ts" "ts < 256 ^ 8"
      "length (sign (accept_input offer_id from_id to_id (nat ts) kem)) \<le> 5000"
      "data = be_bytes 1 SHARE_VERSION @ be_bytes 8 (nat ts) @ offer_id @ be_bytes 2 (length kem) @ be_bytes 2 (length node_pub) @
         be_bytes 2 (length (sign (accept_input offer_id from_id to_id (nat ts) kem))) @ kem @ node_pub @
         sign (accept_input offer_id from_id to_id (nat ts) kem)"
    using assms(1) by (auto simp: build_accept_def rbind_Inr pack_uint_Inr Let_def share_sizes simp del: be_bytes.simps split: if_splits)
  define sg where "sg = sign (accept_input offer_id from_id to_id (nat ts) kem)"
  have tl: "nat ts < 256 ^ 8" by (rule nat_lt_pow [OF e(6,7)])
  have sl: "length sg \<le> 5000" "sg \<noteq> []" using e(8) assms(3) by (simp_all add: sg_def)
  have b: "length kem < 65536" "length node_pub < 65536" "length sg < 65536" using e(3,5) sl by simp_all
  note f = three_fields [OF e(9) [folded sg_def] e(1) tl b]
  have g: "vf (accept_input offer_id from_id to_id (nat ts) kem) sg node_pub" unfolding sg_def by (rule assms(2))
  show ?thesis
    using e(2-5) sl assms(4) g
    by (simp add: parse_accept_def accept_offer_id_def share_sizes f [simplified] Let_def)
qed

lemma open_sealed_grant:
  assumes "seal_grant v nonce offer_id from_id to_id pub secret kem = Some data"
    and "length offer_id = 16" "length nonce = 12"
    and "\<And>ct shared. se_encapsulate v kem = Some (ct, shared) \<Longrightarrow> ct \<noteq> [] \<and> se_decapsulate v ct kem_secret = Some shared"
    and "\<And>k n p a. se_decrypt v k n (se_encrypt v k n p a) a = Some p \<and> length (se_encrypt v k n p a) = length p + 16"
  shows "open_grant v from_id to_id pub kem_secret data = Some secret \<and> grant_offer_id data = Some offer_id"
proof -
  obtain ct shared where s: "se_encapsulate v kem = Some (ct, shared)" "secret \<noteq> []" "length secret \<le> 8192" "length ct \<le> 4096"
    "data = be_bytes 1 SHARE_VERSION @ offer_id @ be_bytes 2 (length ct) @ nonce @ ct @
       se_encrypt v (grant_key v shared offer_id) nonce secret (grant_aad offer_id from_id to_id pub)"
    using assms(1-3) by (auto simp: seal_grant_def share_sizes simp del: be_bytes.simps split: if_splits option.splits prod.splits)
  define x h1 h2 where "x = se_encrypt v (grant_key v shared offer_id) nonce secret (grant_aad offer_id from_id to_id pub)"
    and "h1 = be_bytes 1 SHARE_VERSION" and "h2 = be_bytes 2 (length ct)"
  have d: "data = h1 @ offer_id @ h2 @ nonce @ ct @ x" by (simp only: s(5) x_def h1_def h2_def)
  have hl: "length h1 = 1" "length h2 = 2" by (simp_all add: h1_def h2_def del: be_bytes.simps)
  have hv: "be_val h1 = SHARE_VERSION" "be_val h2 = length ct" using s(4) by (simp_all add: h1_def h2_def SHARE_VERSION_def del: be_bytes.simps)
  have f: "slice 0 1 data = h1" "slice 1 17 data = offer_id" "slice 17 19 data = h2" "slice 19 31 data = nonce"
    "slice 31 (31 + length ct) data = ct" "drop (31 + length ct) data = x" "length data = 31 + length ct + length x"
    by (simp_all add: d slice_def hl assms(2,3))
  have x: "length x = length secret + 16" "se_decrypt v (grant_key v shared offer_id) nonce x (grant_aad offer_id from_id to_id pub) = Some secret"
    using assms(5) by (simp_all add: x_def)
  show ?thesis using assms(4) [OF s(1)] s(2-4) x
    by (simp add: open_grant_def grant_offer_id_def share_sizes f [simplified] hv Let_def)
qed

text \<open>
  An offer is signed by the key it offers, an acceptance by the node it is asked of. Whatever bytes are parsed, an
  offer that comes out carries a signature that the offered key verifies over the exchange, both nodes, the
  instant and the label; an acceptance carries a key whose hash is the node the offer went to, and that key
  verifies a signature over the exchange, both nodes, the instant and the key to seal to.
\<close>
theorem share_messages_signed:
  "(\<forall>off. parse_offer u vf from_id to_id data = Some off \<longrightarrow>
      (\<exists>encoded sig. utf8_encode (ko_label off) = Inr encoded \<and>
         vf (offer_input (ko_id off) from_id to_id (ko_ts off) (ko_publisher off) encoded) sig (ko_publisher off))) \<and>
   (\<forall>a. parse_accept h vf from_id to_id data = Some a \<longrightarrow> key_id h (ka_node a) = from_id \<and>
      (\<exists>sig. vf (accept_input (ka_id a) from_id to_id (ka_ts a) (ka_kem a)) sig (ka_node a)))"
  using parsed_offer parsed_accept by blast

text \<open>What is built with a label that cannot be printed is refused by everyone it is sent to.\<close>

lemma unprintable_label_refused:
  "\<exists>data. build_offer (replicate 16 0) (replicate 20 0) (replicate 20 1) [5] (\<lambda>_. [9]) [10] 7 = Inr data \<and>
     parse_offer plain_unicode (\<lambda>_ _ _. True) (replicate 20 0) (replicate 20 1) data = None"
proof -
  have "utf8_encode [10] = Inr [10]" by (simp add: utf8_encode_def scalar_def utf8_char_def byte_of_def)
  then obtain data where b: "build_offer (replicate 16 0) (replicate 20 0) (replicate 20 1) [5] (\<lambda>_. [9]) [10] 7 = Inr data"
    by (simp add: build_offer_def ids_ok_def share_sizes pack_uint_def rbind_def take_Cons')
  have "\<not> label_printable plain_unicode (take SHARE_MAX_LABEL [10])" by code_simp
  with parse_built_offer [where vf = "\<lambda>_ _ _. True" and u = plain_unicode, OF b] b show ?thesis by simp
qed

end
