(* ===== verification/KeyHandover.thy ===== *)
theory KeyHandover
  imports KeyShare
begin

text \<open>
  The node's part of handing a publisher key over (\<open>src/node.py\<close>, \<open>_key_share_allowed\<close> to
  \<open>refuse_publisher_key\<close>): what was offered to this node, what it offered and to whom, what its operator
  accepted; the three handlers and what an operator does.

  A step gives what leaves the node and the desk after it. The name of the link in the rate table, the wall
  clock and random values are arguments. What checking a pair against itself and writing the key store came
  to, and reading a key file, are arguments too.
\<close>

definition KEY_SHARE_WINDOW :: real where "KEY_SHARE_WINDOW = 60"
definition KEY_SHARE_MAX :: nat where "KEY_SHARE_MAX = 8"
definition MAX_KEY_OFFERS :: nat where "MAX_KEY_OFFERS = 8"

record offer_in =
  oi_from :: bytes
  oi_publisher :: bytes
  oi_label :: pystr
  oi_deadline :: real

record offer_out =
  oo_to :: bytes
  oo_publisher :: bytes
  oo_secret :: bytes
  oo_label :: pystr
  oo_deadline :: real

record accept_out =
  ao_from :: bytes
  ao_publisher :: bytes
  ao_label :: pystr
  ao_kem_secret :: bytes
  ao_passphrase :: string
  ao_deadline :: real

record key_desk =
  kd_id :: node_id
  kd_rate :: "(bytes, nat \<times> real) odict"
  kd_in :: "(bytes, offer_in) odict"
  kd_out :: "(bytes, offer_out) odict"
  kd_accepts :: "(bytes, accept_out) odict"

definition new_key_desk :: "node_id \<Rightarrow> key_desk" where
  "new_key_desk me = \<lparr> kd_id = me, kd_rate = [], kd_in = [], kd_out = [], kd_accepts = [] \<rparr>"

text \<open>What a node brings: its hash and verifier, the sealing, the test of a key pair, its own key and signature.\<close>

record share_env =
  sv_hash :: hash_env
  sv_unicode :: unicode
  sv_verify :: verifier
  sv_seal :: seal_env
  sv_pair_ok :: "bytes \<Rightarrow> bytes \<Rightarrow> bool"
  sv_own_key :: bytes
  sv_sign :: "bytes \<Rightarrow> bytes"

datatype share_effect =
    Send_offer bytes bytes
  | Send_accept bytes bytes
  | Send_grant bytes bytes
  | Charge_sender
  | Key_kept bytes bytes string pystr bytes
  | Key_not_kept
  | Share_refused

definition key_share_allowed :: "real \<Rightarrow> bytes \<Rightarrow> key_desk \<Rightarrow> bool \<times> key_desk" where
  "key_share_allowed clk link d =
     (let (ok, table) = gossip_allowed clk link KEY_SHARE_WINDOW KEY_SHARE_MAX (kd_rate d) in (ok, d\<lparr> kd_rate := table \<rparr>))"

definition sweep_key_shares :: "real \<Rightarrow> key_desk \<Rightarrow> key_desk" where
  "sweep_key_shares clk d =
     d\<lparr> kd_in := filter (\<lambda>(_, row). clk < oi_deadline row) (kd_in d),
        kd_out := filter (\<lambda>(_, row). clk < oo_deadline row) (kd_out d),
        kd_accepts := filter (\<lambda>(_, row). clk < ao_deadline row) (kd_accepts d) \<rparr>"

definition remember_key_share :: "bytes \<Rightarrow> 'r \<Rightarrow> (bytes, 'r) odict \<Rightarrow> (bytes, 'r) odict" where
  "remember_key_share offer_id row table = od_trim MAX_KEY_OFFERS (AList.update offer_id row table)"

section \<open>The handlers\<close>

definition handle_key_offer ::
  "share_env \<Rightarrow> real \<Rightarrow> bytes \<Rightarrow> bytes \<Rightarrow> bytes \<Rightarrow> key_desk \<Rightarrow> share_effect list \<times> key_desk" where
  "handle_key_offer e clk link src payload d =
     (case key_share_allowed clk link d of
        (False, d) \<Rightarrow> ([], d)
      | (True, d) \<Rightarrow>
          (let d = sweep_key_shares clk d in
           case parse_offer (sv_unicode e) (sv_verify e) src (kd_id d) payload of
             None \<Rightarrow> ([Charge_sender], d)
           | Some off \<Rightarrow>
               (if ko_id off \<in> set (od_keys (kd_in d)) then ([], d)
                else ([], d\<lparr> kd_in := remember_key_share (ko_id off)
                        \<lparr> oi_from = src, oi_publisher = ko_publisher off, oi_label = ko_label off, oi_deadline = clk + OFFER_TTL \<rparr>
                        (kd_in d) \<rparr>))))"

definition handle_key_accept ::
  "share_env \<Rightarrow> real \<Rightarrow> bytes \<Rightarrow> bytes \<Rightarrow> bytes \<Rightarrow> key_desk \<Rightarrow> share_effect list \<times> key_desk" where
  "handle_key_accept e clk link payload nonce d =
     (case key_share_allowed clk link d of
        (False, d) \<Rightarrow> ([], d)
      | (True, d) \<Rightarrow>
          (let d = sweep_key_shares clk d in
           case accept_offer_id payload of
             None \<Rightarrow> ([Charge_sender], d)
           | Some offer_id \<Rightarrow>
               (case map_of (kd_out d) offer_id of
                  None \<Rightarrow> ([], d)
                | Some row \<Rightarrow>
                    (case parse_accept (sv_hash e) (sv_verify e) (oo_to row) (kd_id d) payload of
                       None \<Rightarrow> ([Charge_sender], d)
                     | Some a \<Rightarrow>
                         (case seal_grant (sv_seal e) nonce offer_id (kd_id d) (oo_to row) (oo_publisher row) (oo_secret row) (ka_kem a) of
                            None \<Rightarrow> ([], d)
                          | Some grant \<Rightarrow>
                              ([Send_grant (oo_to row) grant], d\<lparr> kd_out := AList.delete offer_id (kd_out d) \<rparr>))))))"

definition handle_key_grant ::
  "share_env \<Rightarrow> real \<Rightarrow> bytes \<Rightarrow> bytes \<Rightarrow> bool \<Rightarrow> key_desk \<Rightarrow> share_effect list \<times> key_desk" where
  "handle_key_grant e clk link payload stored d =
     (case key_share_allowed clk link d of
        (False, d) \<Rightarrow> ([], d)
      | (True, d) \<Rightarrow>
          (let d = sweep_key_shares clk d in
           case grant_offer_id payload of
             None \<Rightarrow> ([Charge_sender], d)
           | Some offer_id \<Rightarrow>
               (case map_of (kd_accepts d) offer_id of
                  None \<Rightarrow> ([], d)
                | Some row \<Rightarrow>
                    (case open_grant (sv_seal e) (ao_from row) (kd_id d) (ao_publisher row) (ao_kem_secret row) payload of
                       None \<Rightarrow> ([Charge_sender], d)
                     | Some secret \<Rightarrow>
                         (let d = d\<lparr> kd_accepts := AList.delete offer_id (kd_accepts d) \<rparr>
                          in if sv_pair_ok e (ao_publisher row) secret \<and> stored
                             then ([Key_kept (ao_publisher row) secret (ao_passphrase row) (ao_label row) (ao_from row)], d)
                             else ([Key_not_kept], d))))))"

section \<open>What an operator does\<close>

definition offer_publisher_key ::
  "share_env \<Rightarrow> real \<Rightarrow> node_id \<Rightarrow> bytes \<Rightarrow> bytes \<Rightarrow> (bytes \<Rightarrow> bytes) \<Rightarrow> bytes \<Rightarrow> pystr \<Rightarrow> int \<Rightarrow> key_desk \<Rightarrow>
     share_effect list \<times> key_desk" where
  "offer_publisher_key e clk target public secret sign offer_id label ts d =
     (if target = kd_id d then ([Share_refused], d)
      else if \<not> sv_pair_ok e public secret then ([Share_refused], d)
      else case build_offer offer_id (kd_id d) target public sign label ts of
        Inl _ \<Rightarrow> ([Share_refused], d)
      | Inr offer \<Rightarrow>
          (let d = sweep_key_shares clk d in
           ([Send_offer target offer],
            d\<lparr> kd_out := remember_key_share offer_id
                  \<lparr> oo_to = target, oo_publisher = public, oo_secret = secret, oo_label = label, oo_deadline = clk + OFFER_TTL \<rparr>
                  (kd_out d) \<rparr>)))"

definition accept_publisher_key ::
  "share_env \<Rightarrow> real \<Rightarrow> bytes \<Rightarrow> string \<Rightarrow> bytes \<Rightarrow> bytes \<Rightarrow> int \<Rightarrow> key_desk \<Rightarrow> share_effect list \<times> key_desk" where
  "accept_publisher_key e clk offer_id passphrase kem_public kem_secret ts d =
     (if passphrase = [] then ([Share_refused], d)
      else
        (let d = sweep_key_shares clk d in
         case map_of (kd_in d) offer_id of
           None \<Rightarrow> ([Share_refused], d)
         | Some row \<Rightarrow>
             (let d = d\<lparr> kd_in := AList.delete offer_id (kd_in d) \<rparr> in
              case build_accept offer_id (kd_id d) (oi_from row) kem_public (sv_own_key e) (sv_sign e) ts of
                Inl _ \<Rightarrow> ([Share_refused], d)
              | Inr acceptance \<Rightarrow>
                  ([Send_accept (oi_from row) acceptance],
                   d\<lparr> kd_accepts := remember_key_share offer_id
                         \<lparr> ao_from = oi_from row, ao_publisher = oi_publisher row, ao_label = oi_label row,
                           ao_kem_secret = kem_secret, ao_passphrase = passphrase, ao_deadline = clk + OFFER_TTL \<rparr>
                         (kd_accepts d) \<rparr>))))"

definition refuse_publisher_key :: "bytes \<Rightarrow> key_desk \<Rightarrow> bool \<times> key_desk" where
  "refuse_publisher_key offer_id d =
     (offer_id \<in> set (od_keys (kd_in d)), d\<lparr> kd_in := AList.delete offer_id (kd_in d) \<rparr>)"

section \<open>A node over time\<close>

datatype share_event =
    Offer_arrives real bytes bytes bytes
  | Accept_arrives real bytes bytes bytes
  | Grant_arrives real bytes bytes bool
  | Operator_offers real node_id bytes bytes "bytes \<Rightarrow> bytes" bytes pystr int
  | Operator_accepts real bytes string bytes bytes int
  | Operator_refuses bytes

fun share_step :: "share_env \<Rightarrow> share_event \<Rightarrow> key_desk \<Rightarrow> share_effect list \<times> key_desk" where
  "share_step e (Offer_arrives clk link src payload) d = handle_key_offer e clk link src payload d"
| "share_step e (Accept_arrives clk link payload nonce) d = handle_key_accept e clk link payload nonce d"
| "share_step e (Grant_arrives clk link payload stored) d = handle_key_grant e clk link payload stored d"
| "share_step e (Operator_offers clk target public secret sign offer_id label ts) d =
     offer_publisher_key e clk target public secret sign offer_id label ts d"
| "share_step e (Operator_accepts clk offer_id passphrase kem_public kem_secret ts) d =
     accept_publisher_key e clk offer_id passphrase kem_public kem_secret ts d"
| "share_step e (Operator_refuses offer_id) d = ([], snd (refuse_publisher_key offer_id d))"

fun share_run :: "share_env \<Rightarrow> share_event list \<Rightarrow> key_desk \<Rightarrow> share_effect list \<times> key_desk" where
  "share_run e [] d = ([], d)"
| "share_run e (ev # evs) d =
     (let (out, d) = share_step e ev d; (outs, d) = share_run e evs d in (out @ outs, d))"

section \<open>Where every row comes from\<close>

definition offered :: "share_env \<Rightarrow> node_id \<Rightarrow> share_event list \<Rightarrow> bytes \<Rightarrow> offer_out \<Rightarrow> bool" where
  "offered e me evs oid row \<longleftrightarrow>
     (\<exists>clk sign ts. Operator_offers clk (oo_to row) (oo_publisher row) (oo_secret row) sign oid (oo_label row) ts \<in> set evs \<and>
        oo_deadline row = clk + OFFER_TTL)"

definition arrived :: "share_env \<Rightarrow> node_id \<Rightarrow> share_event list \<Rightarrow> bytes \<Rightarrow> bytes \<Rightarrow> bytes \<Rightarrow> bool" where
  "arrived e me evs oid src pub \<longleftrightarrow>
     (\<exists>clk link payload off. Offer_arrives clk link src payload \<in> set evs \<and>
        parse_offer (sv_unicode e) (sv_verify e) src me payload = Some off \<and> ko_id off = oid \<and> ko_publisher off = pub)"

definition accepted :: "share_env \<Rightarrow> node_id \<Rightarrow> share_event list \<Rightarrow> bytes \<Rightarrow> accept_out \<Rightarrow> bool" where
  "accepted e me evs oid row \<longleftrightarrow>
     arrived e me evs oid (ao_from row) (ao_publisher row) \<and> ao_passphrase row \<noteq> [] \<and>
     (\<exists>clk kem ts. Operator_accepts clk oid (ao_passphrase row) kem (ao_kem_secret row) ts \<in> set evs \<and>
        ao_deadline row = clk + OFFER_TTL)"

definition desk_ok :: "share_env \<Rightarrow> node_id \<Rightarrow> share_event list \<Rightarrow> key_desk \<Rightarrow> bool" where
  "desk_ok e me evs d \<longleftrightarrow> kd_id d = me \<and> od_all (offered e me evs) (kd_out d) \<and>
     od_all (\<lambda>oid row. arrived e me evs oid (oi_from row) (oi_publisher row)) (kd_in d) \<and>
     od_all (accepted e me evs) (kd_accepts d) \<and>
     length (kd_in d) \<le> MAX_KEY_OFFERS \<and> length (kd_out d) \<le> MAX_KEY_OFFERS \<and> length (kd_accepts d) \<le> MAX_KEY_OFFERS"

lemma od_all_mono: "od_all P d \<Longrightarrow> (\<And>k v. P k v \<Longrightarrow> Q k v) \<Longrightarrow> od_all Q d"
  by (simp add: od_all_def)

lemma desk_ok_more:
  assumes "desk_ok e me evs d" "set evs \<subseteq> set evs'"
  shows "desk_ok e me evs' d"
proof -
  have a: "arrived e me evs oid src pub \<Longrightarrow> arrived e me evs' oid src pub" for oid src pub
    using assms(2) unfolding arrived_def by blast
  have "offered e me evs oid row \<Longrightarrow> offered e me evs' oid row" "accepted e me evs oid row' \<Longrightarrow> accepted e me evs' oid row'" for oid row row'
    using assms(2) a unfolding offered_def accepted_def by blast+
  with assms(1) a show ?thesis unfolding desk_ok_def by (auto elim!: od_all_mono)
qed

lemma sweep_ok: "desk_ok e me evs d \<Longrightarrow> desk_ok e me evs (sweep_key_shares clk d)"
  by (auto simp: desk_ok_def sweep_key_shares_def od_all_filter intro: le_trans [OF length_filter_le])

lemma desk_ok_rate [simp]: "desk_ok e me evs (d\<lparr> kd_rate := t \<rparr>) = desk_ok e me evs d"
  by (simp add: desk_ok_def)

lemma desk_rows:
  assumes "desk_ok e me evs d"
  shows "map_of (kd_in d) oid = Some ri \<Longrightarrow> arrived e me evs oid (oi_from ri) (oi_publisher ri)"
    "map_of (kd_out d) oid = Some ro \<Longrightarrow> offered e me evs oid ro"
    "map_of (kd_accepts d) oid = Some ra \<Longrightarrow> accepted e me evs oid ra"
  using assms unfolding desk_ok_def by (blast dest: od_allD)+

lemma remember_ok: "od_all P t \<Longrightarrow> P oid row \<Longrightarrow> od_all P (remember_key_share oid row t)"
  by (simp add: remember_key_share_def od_all_trim od_all_update)

lemma remember_length [simp]: "length (remember_key_share oid row t) \<le> MAX_KEY_OFFERS"
  by (simp add: remember_key_share_def)

lemma delete_length: "length (AList.delete k d) \<le> length d"
  by (simp add: AList.delete_eq)

text \<open>What the rate gate and the sweep leave: the same desk with fewer rows.\<close>

lemma admitted_ok:
  assumes "key_share_allowed clk link d = (b, d1)" "desk_ok e me evs d"
  shows "desk_ok e me evs d1" "desk_ok e me evs (sweep_key_shares clk d1)"
proof -
  obtain t where "d1 = d\<lparr> kd_rate := t \<rparr>" using assms(1) by (auto simp: key_share_allowed_def split: prod.splits)
  with assms(2) show "desk_ok e me evs d1" by simp
  then show "desk_ok e me evs (sweep_key_shares clk d1)" by (rule sweep_ok)
qed

lemma offer_step_ok:
  assumes ok: "desk_ok e me evs d" and ev: "Offer_arrives clk link src payload \<in> set evs"
  shows "desk_ok e me evs (snd (handle_key_offer e clk link src payload d))"
proof -
  obtain b d1 where a: "key_share_allowed clk link d = (b, d1)" by (meson surj_pair)
  let ?d = "sweep_key_shares clk d1"
  note o = admitted_ok [OF a ok]
  show ?thesis
  proof (cases "b \<and> (\<exists>off. parse_offer (sv_unicode e) (sv_verify e) src (kd_id ?d) payload = Some off \<and> ko_id off \<notin> set (od_keys (kd_in ?d)))")
    case True
    then obtain off where off: "b" "parse_offer (sv_unicode e) (sv_verify e) src (kd_id ?d) payload = Some off"
      "ko_id off \<notin> set (od_keys (kd_in ?d))" by blast
    have "kd_id ?d = me" using o(2) by (simp add: desk_ok_def)
    then have "arrived e me evs (ko_id off) src (ko_publisher off)" using ev off(2) unfolding arrived_def by auto
    with o(2) off a show ?thesis
      by (simp add: handle_key_offer_def Let_def desk_ok_def remember_ok)
  next
    case False
    then have "snd (handle_key_offer e clk link src payload d) \<in> {d1, ?d}"
      using a by (cases b) (auto simp: handle_key_offer_def Let_def split: option.split)
    with o show ?thesis by auto
  qed
qed

lemma accept_arrival_cases:
  assumes "handle_key_accept e clk link payload nonce d = (out, d')"
  obtains (sent) d1 row a grant where "key_share_allowed clk link d = (True, d1)"
      "map_of (kd_out (sweep_key_shares clk d1)) (ka_id a) = Some row"
      "parse_accept (sv_hash e) (sv_verify e) (oo_to row) (kd_id d) payload = Some a"
      "seal_grant (sv_seal e) nonce (ka_id a) (kd_id d) (oo_to row) (oo_publisher row) (oo_secret row) (ka_kem a) = Some grant"
      "out = [Send_grant (oo_to row) grant]"
      "d' = (sweep_key_shares clk d1)\<lparr> kd_out := AList.delete (ka_id a) (kd_out (sweep_key_shares clk d1)) \<rparr>"
  | (quiet) b d1 where "key_share_allowed clk link d = (b, d1)" "out \<in> {[], [Charge_sender]}" "d' \<in> {d1, sweep_key_shares clk d1}"
proof -
  obtain b d1 where a: "key_share_allowed clk link d = (b, d1)" by (meson surj_pair)
  then have id: "kd_id (sweep_key_shares clk d1) = kd_id d"
    by (auto simp: key_share_allowed_def sweep_key_shares_def split: prod.splits)
  show ?thesis
  proof (cases "b \<and> out \<notin> {[], [Charge_sender]}")
    case True
    with assms a obtain oid row acc grant where g: "accept_offer_id payload = Some oid"
      "map_of (kd_out (sweep_key_shares clk d1)) oid = Some row"
      "parse_accept (sv_hash e) (sv_verify e) (oo_to row) (kd_id d) payload = Some acc"
      "seal_grant (sv_seal e) nonce oid (kd_id d) (oo_to row) (oo_publisher row) (oo_secret row) (ka_kem acc) = Some grant"
      "out = [Send_grant (oo_to row) grant]"
      "d' = (sweep_key_shares clk d1)\<lparr> kd_out := AList.delete oid (kd_out (sweep_key_shares clk d1)) \<rparr>"
      by (auto simp: handle_key_accept_def Let_def id split: option.splits)
    moreover have "ka_id acc = oid" using parsed_accept [OF g(3)] g(1) by simp
    ultimately show ?thesis using a True by (intro sent [of d1 acc row grant]) auto
  next
    case False
    with assms a show ?thesis
      by (intro quiet [OF a]) (cases b; auto simp: handle_key_accept_def Let_def split: option.splits)+
  qed
qed

lemma accept_arrival_ok:
  assumes "desk_ok e me evs d"
  shows "desk_ok e me evs (snd (handle_key_accept e clk link payload nonce d))"
proof -
  obtain out d' where r: "handle_key_accept e clk link payload nonce d = (out, d')" by (meson surj_pair)
  from r show ?thesis
  proof (cases rule: accept_arrival_cases)
    case (sent d1 row a grant)
    from admitted_ok(2) [OF sent(1) assms] sent(6) show ?thesis
      by (simp add: r desk_ok_def od_all_delete le_trans [OF delete_length])
  next
    case (quiet b d1)
    from admitted_ok [OF quiet(1) assms] quiet(3) show ?thesis by (auto simp: r)
  qed
qed

lemma grant_cases:
  assumes "handle_key_grant e clk link payload stored d = (out, d')"
  obtains (opened) d1 oid row secret where "key_share_allowed clk link d = (True, d1)"
      "map_of (kd_accepts (sweep_key_shares clk d1)) oid = Some row"
      "open_grant (sv_seal e) (ao_from row) (kd_id d) (ao_publisher row) (ao_kem_secret row) payload = Some secret"
      "out = (if sv_pair_ok e (ao_publisher row) secret \<and> stored
              then [Key_kept (ao_publisher row) secret (ao_passphrase row) (ao_label row) (ao_from row)] else [Key_not_kept])"
      "d' = (sweep_key_shares clk d1)\<lparr> kd_accepts := AList.delete oid (kd_accepts (sweep_key_shares clk d1)) \<rparr>"
  | (quiet) b d1 where "key_share_allowed clk link d = (b, d1)" "out \<in> {[], [Charge_sender]}" "d' \<in> {d1, sweep_key_shares clk d1}"
proof -
  obtain b d1 where a: "key_share_allowed clk link d = (b, d1)" by (meson surj_pair)
  then have id: "kd_id (sweep_key_shares clk d1) = kd_id d"
    by (auto simp: key_share_allowed_def sweep_key_shares_def split: prod.splits)
  show ?thesis
  proof (cases "b \<and> out \<notin> {[], [Charge_sender]}")
    case True
    with assms a obtain oid row secret where "grant_offer_id payload = Some oid"
      "map_of (kd_accepts (sweep_key_shares clk d1)) oid = Some row"
      "open_grant (sv_seal e) (ao_from row) (kd_id d) (ao_publisher row) (ao_kem_secret row) payload = Some secret"
      by (auto simp: handle_key_grant_def Let_def id split: option.splits if_splits)
    with assms a True show ?thesis
      by (intro opened [of d1 oid row secret]) (auto simp: handle_key_grant_def Let_def id split: if_splits)
  next
    case False
    with assms a show ?thesis
      by (intro quiet [OF a]) (cases b; auto simp: handle_key_grant_def Let_def split: option.splits if_splits)+
  qed
qed

lemma grant_ok:
  assumes "desk_ok e me evs d"
  shows "desk_ok e me evs (snd (handle_key_grant e clk link payload stored d))"
proof -
  obtain out d' where r: "handle_key_grant e clk link payload stored d = (out, d')" by (meson surj_pair)
  from r show ?thesis
  proof (cases rule: grant_cases)
    case (opened d1 oid row secret)
    from admitted_ok(2) [OF opened(1) assms] opened(5) show ?thesis
      by (simp add: r desk_ok_def od_all_delete le_trans [OF delete_length])
  next
    case (quiet b d1)
    from admitted_ok [OF quiet(1) assms] quiet(3) show ?thesis by (auto simp: r)
  qed
qed

lemma operator_offers_ok:
  assumes ok: "desk_ok e me evs d" and ev: "Operator_offers clk target public secret sign oid label ts \<in> set evs"
  shows "desk_ok e me evs (snd (offer_publisher_key e clk target public secret sign oid label ts d))"
proof -
  let ?row = "\<lparr> oo_to = target, oo_publisher = public, oo_secret = secret, oo_label = label, oo_deadline = clk + OFFER_TTL \<rparr>"
  have "offered e me evs oid ?row" using ev unfolding offered_def by auto
  with sweep_ok [OF ok, of clk] ok show ?thesis
    by (auto simp: offer_publisher_key_def Let_def desk_ok_def remember_ok split: sum.split)
qed

lemma operator_accepts_ok:
  assumes ok: "desk_ok e me evs d" and ev: "Operator_accepts clk oid passphrase kem_public kem_secret ts \<in> set evs"
  shows "desk_ok e me evs (snd (accept_publisher_key e clk oid passphrase kem_public kem_secret ts d))"
proof (cases "passphrase = []")
  case False
  let ?d = "sweep_key_shares clk d"
  note s = sweep_ok [OF ok, of clk]
  show ?thesis
  proof (cases "map_of (kd_in ?d) oid")
    case (Some row)
    let ?row = "\<lparr> ao_from = oi_from row, ao_publisher = oi_publisher row, ao_label = oi_label row,
        ao_kem_secret = kem_secret, ao_passphrase = passphrase, ao_deadline = clk + OFFER_TTL \<rparr>"
    have "arrived e me evs oid (oi_from row) (oi_publisher row)" by (rule desk_rows(1) [OF s Some])
    then have "accepted e me evs oid ?row" using ev False unfolding accepted_def by auto
    with s Some False show ?thesis
      by (auto simp: accept_publisher_key_def Let_def desk_ok_def remember_ok od_all_delete le_trans [OF delete_length] split: sum.split)
  qed (use s False in \<open>simp add: accept_publisher_key_def\<close>)
qed (use ok in \<open>simp add: accept_publisher_key_def\<close>)

lemma share_step_ok:
  assumes "desk_ok e me evs d" "ev \<in> set evs"
  shows "desk_ok e me evs (snd (share_step e ev d))"
proof (cases ev)
  case (Operator_refuses oid)
  with assms(1) show ?thesis
    by (simp add: refuse_publisher_key_def desk_ok_def od_all_delete le_trans [OF delete_length])
qed (use assms offer_step_ok accept_arrival_ok grant_ok operator_offers_ok operator_accepts_ok in simp_all)

lemma share_run_ok:
  assumes "desk_ok e me before d"
  shows "desk_ok e me (before @ evs) (snd (share_run e evs d))"
  using assms
proof (induction evs arbitrary: before d)
  case (Cons ev evs)
  have "desk_ok e me (before @ [ev]) d" by (rule desk_ok_more [OF Cons.prems]) auto
  then have "desk_ok e me (before @ [ev]) (snd (share_step e ev d))" by (rule share_step_ok) simp
  from Cons.IH [OF this] show ?case by (simp add: case_prod_beta Let_def)
qed simp

lemma run_desk_ok: "desk_ok e me evs (snd (share_run e evs (new_key_desk me)))"
proof -
  have "desk_ok e me [] (new_key_desk me)" by (simp add: desk_ok_def new_key_desk_def)
  from share_run_ok [OF this] show ?thesis by simp
qed

section \<open>What leaves the node\<close>

lemma swept_rows:
  "map_of (kd_out (sweep_key_shares clk d)) k = Some row \<Longrightarrow> clk < oo_deadline row"
  "map_of (kd_accepts (sweep_key_shares clk d)) k = Some row' \<Longrightarrow> clk < ao_deadline row'"
  by (auto simp: sweep_key_shares_def dest!: map_of_SomeD)

lemma delete_gone: "map_of (AList.delete k d) k = None"
  by (simp add: delete_conv')

lemma step_effects:
  "x \<in> set (fst (handle_key_offer e clk link src payload d)) \<Longrightarrow> x = Charge_sender"
  "x \<in> set (fst (offer_publisher_key e clk target public secret sign oid label ts d)) \<Longrightarrow> x = Share_refused \<or> (\<exists>t m. x = Send_offer t m)"
  "x \<in> set (fst (accept_publisher_key e clk oid passphrase kem kem_secret ts d)) \<Longrightarrow> x = Share_refused \<or> (\<exists>t m. x = Send_accept t m)"
  by (auto simp: handle_key_offer_def offer_publisher_key_def accept_publisher_key_def Let_def
      split: prod.splits bool.splits option.splits if_splits sum.splits)

lemma accept_effects: "x \<in> set (fst (handle_key_accept e clk link payload nonce d)) \<Longrightarrow> x = Charge_sender \<or> (\<exists>t m. x = Send_grant t m)"
proof -
  assume x: "x \<in> set (fst (handle_key_accept e clk link payload nonce d))"
  obtain out d' where r: "handle_key_accept e clk link payload nonce d = (out, d')" by (meson surj_pair)
  from r show ?thesis by (cases rule: accept_arrival_cases) (use x in \<open>auto simp: r\<close>)
qed

lemma grant_effects: "x \<in> set (fst (handle_key_grant e clk link payload stored d)) \<Longrightarrow>
    x = Charge_sender \<or> x = Key_not_kept \<or> (\<exists>p s w l f. x = Key_kept p s w l f)"
proof -
  assume x: "x \<in> set (fst (handle_key_grant e clk link payload stored d))"
  obtain out d' where r: "handle_key_grant e clk link payload stored d = (out, d')" by (meson surj_pair)
  from r show ?thesis by (cases rule: grant_cases) (use x in \<open>auto simp: r split: if_splits\<close>)
qed

lemma who_sends:
  assumes "x \<in> set (fst (share_step e ev d))"
  shows "x = Send_grant t m \<Longrightarrow> \<exists>clk link payload nonce. ev = Accept_arrives clk link payload nonce"
    "x = Key_kept p s w l f \<Longrightarrow> \<exists>clk link payload stored. ev = Grant_arrives clk link payload stored"
  using assms by (cases ev; auto dest: step_effects accept_effects grant_effects)+

definition grant_follows :: "share_env \<Rightarrow> node_id \<Rightarrow> share_event list \<Rightarrow> share_event \<Rightarrow> bytes \<Rightarrow> bytes \<Rightarrow> key_desk \<Rightarrow> bool" where
  "grant_follows e me evs ev to_id grant d' \<longleftrightarrow>
     (\<exists>clk link payload nonce a. ev = Accept_arrives clk link payload nonce \<and>
        parse_accept (sv_hash e) (sv_verify e) to_id me payload = Some a \<and> key_id (sv_hash e) (ka_node a) = to_id \<and>
        (\<exists>sig. sv_verify e (accept_input (ka_id a) to_id me (ka_ts a) (ka_kem a)) sig (ka_node a)) \<and>
        (\<exists>clk0 public secret sign label ts. Operator_offers clk0 to_id public secret sign (ka_id a) label ts \<in> set evs \<and>
           clk < clk0 + OFFER_TTL \<and> seal_grant (sv_seal e) nonce (ka_id a) me to_id public secret (ka_kem a) = Some grant) \<and>
        map_of (kd_out d') (ka_id a) = None)"

lemma grant_sent:
  assumes "desk_ok e me evs d" "share_step e ev d = (out, d')" "Send_grant to_id grant \<in> set out"
  shows "grant_follows e me evs ev to_id grant d'"
proof -
  have "Send_grant to_id grant \<in> set (fst (share_step e ev d))" using assms(2,3) by simp
  from who_sends(1) [OF this refl] obtain clk link payload nonce where ev: "ev = Accept_arrives clk link payload nonce" by blast
  have id: "kd_id d = me" using assms(1) by (simp add: desk_ok_def)
  from assms(2) ev have "handle_key_accept e clk link payload nonce d = (out, d')" by simp
  then show ?thesis
  proof (cases rule: accept_arrival_cases)
    case (sent d1 row a grant')
    have to: "to_id = oo_to row" "grant' = grant" using assms(3) sent(5) by auto
    have "offered e me evs (ka_id a) row" by (rule desk_rows(2) [OF admitted_ok(2) [OF sent(1) assms(1)] sent(2)])
    then obtain clk0 sign ts where o: "Operator_offers clk0 to_id (oo_publisher row) (oo_secret row) sign (ka_id a) (oo_label row) ts \<in> set evs"
      "oo_deadline row = clk0 + OFFER_TTL" unfolding offered_def to by blast
    have c: "clk < clk0 + OFFER_TTL" using swept_rows(1) [OF sent(2)] o(2) by simp
    have m: "map_of (kd_out d') (ka_id a) = None" by (simp add: sent(6) delete_gone)
    note s = sent(3) [folded to(1), unfolded id] and g = sent(4) [folded to(1), unfolded id to(2)]
    from parsed_accept [OF s] obtain sig where k: "key_id (sv_hash e) (ka_node a) = to_id"
      "sv_verify e (accept_input (ka_id a) to_id me (ka_ts a) (ka_kem a)) sig (ka_node a)" by blast
    show ?thesis unfolding grant_follows_def ev by (intro exI conjI) (rule refl s k o(1) c g m)+
  next
    case (quiet b d1)
    with assms(3) show ?thesis by auto
  qed
qed

text \<open>
  C13: A secret goes only where its operator sent it. Whatever came before and whoever sent it, when a node sends a grant, it
  answers an acceptance: its operator had offered this very key to this very node less than five minutes
  ago; the acceptance carries a key whose hash is that node, which signed the sealing key for this exchange; the grant is
  that secret sealed to that sealing key; and the offer is gone, so that it is not answered twice.
\<close>
theorem secret_goes_where_sent:
  assumes "share_step e ev (snd (share_run e evs (new_key_desk me))) = (out, d')" "Send_grant to_id grant \<in> set out"
  shows "\<exists>clk link payload nonce a. ev = Accept_arrives clk link payload nonce \<and>
    parse_accept (sv_hash e) (sv_verify e) to_id me payload = Some a \<and> key_id (sv_hash e) (ka_node a) = to_id \<and>
    (\<exists>sig. sv_verify e (accept_input (ka_id a) to_id me (ka_ts a) (ka_kem a)) sig (ka_node a)) \<and>
    (\<exists>clk0 public secret sign label ts. Operator_offers clk0 to_id public secret sign (ka_id a) label ts \<in> set evs \<and>
       clk < clk0 + OFFER_TTL \<and> seal_grant (sv_seal e) nonce (ka_id a) me to_id public secret (ka_kem a) = Some grant) \<and>
    map_of (kd_out d') (ka_id a) = None"
  using grant_sent [OF run_desk_ok assms] unfolding grant_follows_def .

definition keeping_follows ::
  "share_env \<Rightarrow> node_id \<Rightarrow> share_event list \<Rightarrow> share_event \<Rightarrow> bytes \<Rightarrow> bytes \<Rightarrow> string \<Rightarrow> bytes \<Rightarrow> bool" where
  "keeping_follows e me evs ev public secret passphrase src \<longleftrightarrow>
     (\<exists>oid clk clk0 link payload stored kem kem_secret ts. ev = Grant_arrives clk link payload stored \<and>
        arrived e me evs oid src public \<and> Operator_accepts clk0 oid passphrase kem kem_secret ts \<in> set evs \<and> clk < clk0 + OFFER_TTL \<and>
        open_grant (sv_seal e) src me public kem_secret payload = Some secret \<and> sv_pair_ok e public secret \<and> passphrase \<noteq> [])"

lemma key_kept:
  assumes "desk_ok e me evs d" "share_step e ev d = (out, d')" "Key_kept public secret passphrase label src \<in> set out"
  shows "keeping_follows e me evs ev public secret passphrase src"
proof -
  have "Key_kept public secret passphrase label src \<in> set (fst (share_step e ev d))" using assms(2,3) by simp
  from who_sends(2) [OF this refl] obtain clk link payload stored where ev: "ev = Grant_arrives clk link payload stored" by blast
  have id: "kd_id d = me" using assms(1) by (simp add: desk_ok_def)
  from assms(2) ev have "handle_key_grant e clk link payload stored d = (out, d')" by simp
  then show ?thesis
  proof (cases rule: grant_cases)
    case (opened d1 oid row secret')
    have k: "sv_pair_ok e public secret" "public = ao_publisher row" "secret' = secret" "passphrase = ao_passphrase row" "src = ao_from row"
      using assms(3) opened(4) by (auto split: if_splits)
    have acc: "accepted e me evs oid row" by (rule desk_rows(3) [OF admitted_ok(2) [OF opened(1) assms(1)] opened(2)])
    then obtain clk0 kem ts where o: "Operator_accepts clk0 oid passphrase kem (ao_kem_secret row) ts \<in> set evs"
      "ao_deadline row = clk0 + OFFER_TTL" unfolding accepted_def k(4) by blast
    have c: "clk < clk0 + OFFER_TTL" using swept_rows(2) [OF opened(2)] o(2) by simp
    have a: "arrived e me evs oid src public" "passphrase \<noteq> []" using acc unfolding accepted_def k by simp_all
    have g: "open_grant (sv_seal e) src me public (ao_kem_secret row) payload = Some secret"
      using opened(3) by (simp add: id k(2,3,5))
    show ?thesis unfolding keeping_follows_def ev by (intro exI conjI) (rule refl a o(1) c g k(1))+
  next
    case (quiet b d1)
    with assms(3) show ?thesis by auto
  qed
qed

text \<open>
  A key is kept only by a node whose operator accepted it. When a node keeps a key it was handed, an offer of that
  key had come from the node it is said to be from, signed by the key itself; its operator had accepted it less than
  five minutes ago and chosen the passphrase it is kept under; and the secret was sealed for this exchange and
  belongs to the public key.
\<close>
theorem kept_key_was_accepted:
  assumes "share_step e ev (snd (share_run e evs (new_key_desk me))) = (out, d')" "Key_kept public secret passphrase label src \<in> set out"
  shows "\<exists>oid clk clk0 link payload stored kem kem_secret ts. ev = Grant_arrives clk link payload stored \<and>
    arrived e me evs oid src public \<and> Operator_accepts clk0 oid passphrase kem kem_secret ts \<in> set evs \<and> clk < clk0 + OFFER_TTL \<and>
    open_grant (sv_seal e) src me public kem_secret payload = Some secret \<and> sv_pair_ok e public secret \<and> passphrase \<noteq> []"
  using key_kept [OF run_desk_ok assms] unfolding keeping_follows_def .

section \<open>The exchange reaches its end\<close>

text \<open>A row that is in its table with at most \<open>k\<close> younger ones.\<close>

definition row_kept :: "bytes \<Rightarrow> 'r \<Rightarrow> nat \<Rightarrow> (bytes, 'r) odict \<Rightarrow> bool" where
  "row_kept oid row k t \<longleftrightarrow> (\<exists>A B. t = A @ (oid, row) # B \<and> oid \<notin> fst ` set A \<and> length B \<le> k)"

lemma kept_lookup: "row_kept oid row k t \<Longrightarrow> map_of t oid = Some row"
  by (auto simp: row_kept_def map_add_def map_of_eq_None_iff [THEN iffD2] split: option.split)

lemma kept_more: "row_kept oid row k t \<Longrightarrow> k \<le> k' \<Longrightarrow> row_kept oid row k' t"
proof -
  assume "row_kept oid row k t" "k \<le> k'"
  then obtain A B where "t = A @ (oid, row) # B" "oid \<notin> fst ` set A" "length B \<le> k" by (auto simp: row_kept_def)
  with \<open>k \<le> k'\<close> show ?thesis unfolding row_kept_def by (intro exI [of _ A] exI [of _ B]) simp
qed

lemma kept_filter: "row_kept oid row k t \<Longrightarrow> P (oid, row) \<Longrightarrow> row_kept oid row k (filter P t)"
proof -
  assume "row_kept oid row k t" "P (oid, row)"
  then obtain A B where "t = A @ (oid, row) # B" "oid \<notin> fst ` set A" "length B \<le> k" by (auto simp: row_kept_def)
  with \<open>P (oid, row)\<close> show ?thesis unfolding row_kept_def
    by (intro exI [of _ "filter P A"] exI [of _ "filter P B"]) (auto intro: le_trans [OF length_filter_le])
qed

lemma kept_delete: "row_kept oid row k t \<Longrightarrow> oid' \<noteq> oid \<Longrightarrow> row_kept oid row k (AList.delete oid' t)"
  unfolding AList.delete_eq by (rule kept_filter) simp_all

lemma update_split:
  "k \<noteq> oid \<Longrightarrow> \<exists>A' B'. AList.update k v (A @ (oid, row) # B) = A' @ (oid, row) # B' \<and>
     (oid \<notin> fst ` set A \<longrightarrow> oid \<notin> fst ` set A') \<and> length B' \<le> Suc (length B)"
proof (induction A)
  case Nil
  then show ?case by (intro exI [of _ "[]"] exI [of _ "AList.update k v B"]) (simp add: length_update_le)
next
  case (Cons x A)
  obtain A' B' where IH: "AList.update k v (A @ (oid, row) # B) = A' @ (oid, row) # B'"
    "oid \<notin> fst ` set A \<longrightarrow> oid \<notin> fst ` set A'" "length B' \<le> Suc (length B)" using Cons.IH [OF Cons.prems] by blast
  obtain a b where x: "x = (a, b)" by (cases x)
  show ?case
  proof (cases "a = k")
    case True
    with Cons.prems x show ?thesis by (intro exI [of _ "(k, v) # A"] exI [of _ B]) auto
  next
    case False
    with IH x show ?thesis by (intro exI [of _ "x # A'"] exI [of _ B']) auto
  qed
qed

lemma kept_remember:
  assumes "row_kept oid row k t" "oid' \<noteq> oid" "Suc k < MAX_KEY_OFFERS"
  shows "row_kept oid row (Suc k) (remember_key_share oid' row' t)"
proof -
  obtain A B where t: "t = A @ (oid, row) # B" "oid \<notin> fst ` set A" "length B \<le> k" using assms(1) by (auto simp: row_kept_def)
  obtain A' B' where u: "AList.update oid' row' t = A' @ (oid, row) # B'" "oid \<notin> fst ` set A'" and len: "length B' \<le> Suc (length B)"
    using update_split [OF assms(2), of row' A row B] t(1,2) by auto
  have u3: "length B' \<le> Suc k" using len t(3) by simp
  define m where "m = length A' + Suc (length B') - MAX_KEY_OFFERS"
  have "od_trim MAX_KEY_OFFERS (A' @ (oid, row) # B') = drop m A' @ (oid, row) # B'"
    using assms(3) u3 by (simp add: od_trim_drop m_def drop_Cons')
  then have "remember_key_share oid' row' t = drop m A' @ (oid, row) # B'" by (simp add: remember_key_share_def u(1))
  moreover have "oid \<notin> fst ` set (drop m A')" using u(2) by (auto dest: in_set_dropD)
  ultimately show ?thesis using u3 unfolding row_kept_def by blast
qed

lemma kept_new: "oid \<notin> fst ` set t \<Longrightarrow> row_kept oid row 0 (remember_key_share oid row t)"
proof -
  assume "oid \<notin> fst ` set t"
  then have "remember_key_share oid row t = od_trim (MAX_KEY_OFFERS - 1) t @ [(oid, row)]"
    "oid \<notin> fst ` set (od_trim (MAX_KEY_OFFERS - 1) t)"
    using set_od_trim [of "MAX_KEY_OFFERS - 1" t]
    by (auto simp: remember_key_share_def update_absent od_trim_snoc MAX_KEY_OFFERS_def)
  then show ?thesis unfolding row_kept_def by blast
qed

text \<open>What else may happen on a desk between two steps of an exchange: anything that does not name the offer, up
  to a moment, with fewer rows put in the table than it holds.\<close>

fun names_offer :: "bytes \<Rightarrow> share_event \<Rightarrow> bool" where
  "names_offer oid (Offer_arrives _ _ _ _) \<longleftrightarrow> False"
| "names_offer oid (Accept_arrives _ _ payload _) \<longleftrightarrow> accept_offer_id payload = Some oid"
| "names_offer oid (Grant_arrives _ _ payload _) \<longleftrightarrow> grant_offer_id payload = Some oid"
| "names_offer oid (Operator_offers _ _ _ _ _ offer_id _ _) \<longleftrightarrow> offer_id = oid"
| "names_offer oid (Operator_accepts _ offer_id _ _ _ _) \<longleftrightarrow> offer_id = oid"
| "names_offer oid (Operator_refuses offer_id) \<longleftrightarrow> offer_id = oid"

fun happens_before :: "real \<Rightarrow> share_event \<Rightarrow> bool" where
  "happens_before t (Offer_arrives clk _ _ _) \<longleftrightarrow> clk < t"
| "happens_before t (Accept_arrives clk _ _ _) \<longleftrightarrow> clk < t"
| "happens_before t (Grant_arrives clk _ _ _) \<longleftrightarrow> clk < t"
| "happens_before t (Operator_offers clk _ _ _ _ _ _ _) \<longleftrightarrow> clk < t"
| "happens_before t (Operator_accepts clk _ _ _ _ _) \<longleftrightarrow> clk < t"
| "happens_before t (Operator_refuses _) \<longleftrightarrow> True"

fun fills_in :: "share_event \<Rightarrow> bool" where
  "fills_in (Offer_arrives _ _ _ _) \<longleftrightarrow> True"
| "fills_in _ \<longleftrightarrow> False"

fun fills_out :: "share_event \<Rightarrow> bool" where
  "fills_out (Operator_offers _ _ _ _ _ _ _ _) \<longleftrightarrow> True"
| "fills_out _ \<longleftrightarrow> False"

fun fills_accepts :: "share_event \<Rightarrow> bool" where
  "fills_accepts (Operator_accepts _ _ _ _ _ _) \<longleftrightarrow> True"
| "fills_accepts _ \<longleftrightarrow> False"

definition leaves_alone :: "bytes \<Rightarrow> real \<Rightarrow> (share_event \<Rightarrow> bool) \<Rightarrow> share_event list \<Rightarrow> bool" where
  "leaves_alone oid t fills evs \<longleftrightarrow>
     (\<forall>ev \<in> set evs. \<not> names_offer oid ev \<and> happens_before t ev) \<and> length (filter fills evs) < MAX_KEY_OFFERS"

lemma allowed_desk: "key_share_allowed clk link d = (b, d') \<Longrightarrow> \<exists>t. d' = d\<lparr> kd_rate := t \<rparr>"
  by (auto simp: key_share_allowed_def split: prod.splits)

lemma in_kept_step:
  assumes "row_kept oid row k (kd_in d)" "\<not> names_offer oid ev" "happens_before (oi_deadline row) ev"
    and "(if fills_in ev then Suc k else k) < MAX_KEY_OFFERS"
  shows "row_kept oid row (if fills_in ev then Suc k else k) (kd_in (snd (share_step e ev d)))"
proof -
  have sweep: "row_kept oid row k (kd_in (sweep_key_shares clk x))" if "kd_in x = kd_in d" "clk < oi_deadline row" for clk x
    using that assms(1) by (auto simp: sweep_key_shares_def intro: kept_filter)
  show ?thesis
  proof (cases ev)
    case (Offer_arrives clk link src payload)
    obtain b d1 where a: "key_share_allowed clk link d = (b, d1)" by (meson surj_pair)
    then have d1: "kd_in d1 = kd_in d" using allowed_desk by fastforce
    have s: "row_kept oid row k (kd_in (sweep_key_shares clk d1))" using sweep [OF d1] assms(3) Offer_arrives by simp
    have "oid \<in> set (od_keys (kd_in (sweep_key_shares clk d1)))" using map_of_mem [OF kept_lookup [OF s]] by simp
    then have "oid' \<notin> set (od_keys (kd_in (sweep_key_shares clk d1))) \<Longrightarrow>
        row_kept oid row (Suc k) (remember_key_share oid' r (kd_in (sweep_key_shares clk d1)))" for oid' r
      using kept_remember [OF s] assms(4) Offer_arrives by auto
    with kept_more [OF s, of "Suc k"] kept_more [OF assms(1), of "Suc k"] d1 a Offer_arrives show ?thesis
      by (auto simp: handle_key_offer_def Let_def split: bool.split option.split)
  next
    case (Accept_arrives clk link payload nonce)
    obtain b d1 where a: "key_share_allowed clk link d = (b, d1)" by (meson surj_pair)
    then have d1: "kd_in d1 = kd_in d" using allowed_desk by fastforce
    with a Accept_arrives sweep [OF d1] assms(1,3) show ?thesis
      by (auto simp: handle_key_accept_def Let_def split: bool.split option.split)
  next
    case (Grant_arrives clk link payload stored)
    obtain b d1 where a: "key_share_allowed clk link d = (b, d1)" by (meson surj_pair)
    then have d1: "kd_in d1 = kd_in d" using allowed_desk by fastforce
    with a Grant_arrives sweep [OF d1] assms(1,3) show ?thesis
      by (auto simp: handle_key_grant_def Let_def split: bool.split option.split)
  next
    case (Operator_offers clk target public secret sign id label ts)
    with sweep [OF refl] assms(1,3) show ?thesis
      by (auto simp: offer_publisher_key_def Let_def split: sum.split)
  next
    case (Operator_accepts clk id passphrase kem_public kem_secret ts)
    with sweep [OF refl] assms(1-3) show ?thesis
      by (auto simp: accept_publisher_key_def Let_def intro: kept_delete split: sum.split option.split)
  next
    case (Operator_refuses id)
    with assms(1,2) show ?thesis by (simp add: refuse_publisher_key_def kept_delete)
  qed
qed

lemma out_kept_step:
  assumes "row_kept oid row k (kd_out d)" "\<not> names_offer oid ev" "happens_before (oo_deadline row) ev"
    and "(if fills_out ev then Suc k else k) < MAX_KEY_OFFERS"
  shows "row_kept oid row (if fills_out ev then Suc k else k) (kd_out (snd (share_step e ev d)))"
proof -
  have sweep: "row_kept oid row k (kd_out (sweep_key_shares clk x))" if "kd_out x = kd_out d" "clk < oo_deadline row" for clk x
    using that assms(1) by (auto simp: sweep_key_shares_def intro: kept_filter)
  show ?thesis
  proof (cases ev)
    case (Operator_offers clk target public secret sign id label ts)
    then have s: "row_kept oid row k (kd_out (sweep_key_shares clk d))" "id \<noteq> oid" "Suc k < MAX_KEY_OFFERS"
      using sweep assms(2-4) by simp_all
    from kept_remember [OF s(1,2,3)] kept_more [OF assms(1), of "Suc k"] Operator_offers show ?thesis
      by (simp add: offer_publisher_key_def Let_def split: sum.split)
  next
    case (Accept_arrives clk link payload nonce)
    obtain b d1 where a: "key_share_allowed clk link d = (b, d1)" by (meson surj_pair)
    then have d1: "kd_out d1 = kd_out d" using allowed_desk by fastforce
    have s: "row_kept oid row k (kd_out (sweep_key_shares clk d1))" using sweep [OF d1] assms(3) Accept_arrives by simp
    have "accept_offer_id payload = Some id \<Longrightarrow> row_kept oid row k (AList.delete id (kd_out (sweep_key_shares clk d1)))" for id
      using kept_delete [OF s] assms(2) Accept_arrives by auto
    with s d1 assms(1) a Accept_arrives show ?thesis
      by (auto simp: handle_key_accept_def Let_def split: bool.split option.split)
  next
    case (Offer_arrives clk link src payload)
    obtain b d1 where a: "key_share_allowed clk link d = (b, d1)" by (meson surj_pair)
    then have d1: "kd_out d1 = kd_out d" using allowed_desk by fastforce
    with a Offer_arrives sweep [OF d1] assms(1,3) show ?thesis
      by (auto simp: handle_key_offer_def Let_def split: bool.split option.split)
  next
    case (Grant_arrives clk link payload stored)
    obtain b d1 where a: "key_share_allowed clk link d = (b, d1)" by (meson surj_pair)
    then have d1: "kd_out d1 = kd_out d" using allowed_desk by fastforce
    with a Grant_arrives sweep [OF d1] assms(1,3) show ?thesis
      by (auto simp: handle_key_grant_def Let_def split: bool.split option.split)
  next
    case (Operator_accepts clk id passphrase kem_public kem_secret ts)
    with sweep [OF refl] assms(1,3) show ?thesis
      by (auto simp: accept_publisher_key_def Let_def split: sum.split option.split)
  next
    case (Operator_refuses id)
    with assms(1) show ?thesis by (simp add: refuse_publisher_key_def)
  qed
qed

lemma accepts_kept_step:
  assumes "row_kept oid row k (kd_accepts d)" "\<not> names_offer oid ev" "happens_before (ao_deadline row) ev"
    and "(if fills_accepts ev then Suc k else k) < MAX_KEY_OFFERS"
  shows "row_kept oid row (if fills_accepts ev then Suc k else k) (kd_accepts (snd (share_step e ev d)))"
proof -
  have sweep: "row_kept oid row k (kd_accepts (sweep_key_shares clk x))" if "kd_accepts x = kd_accepts d" "clk < ao_deadline row" for clk x
    using that assms(1) by (auto simp: sweep_key_shares_def intro: kept_filter)
  show ?thesis
  proof (cases ev)
    case (Operator_accepts clk id passphrase kem_public kem_secret ts)
    then have s: "row_kept oid row k (kd_accepts (sweep_key_shares clk d))" "id \<noteq> oid" "Suc k < MAX_KEY_OFFERS"
      using sweep assms(2-4) by simp_all
    from kept_remember [OF s(1,2,3)] kept_more [OF s(1), of "Suc k"] kept_more [OF assms(1), of "Suc k"] Operator_accepts
    show ?thesis by (simp add: accept_publisher_key_def Let_def split: sum.split option.split)
  next
    case (Grant_arrives clk link payload stored)
    obtain b d1 where a: "key_share_allowed clk link d = (b, d1)" by (meson surj_pair)
    then have d1: "kd_accepts d1 = kd_accepts d" using allowed_desk by fastforce
    have s: "row_kept oid row k (kd_accepts (sweep_key_shares clk d1))" using sweep [OF d1] assms(3) Grant_arrives by simp
    have "grant_offer_id payload = Some id \<Longrightarrow> row_kept oid row k (AList.delete id (kd_accepts (sweep_key_shares clk d1)))" for id
      using kept_delete [OF s] assms(2) Grant_arrives by auto
    with s d1 assms(1) a Grant_arrives show ?thesis
      by (auto simp: handle_key_grant_def Let_def split: bool.split option.split)
  next
    case (Offer_arrives clk link src payload)
    obtain b d1 where a: "key_share_allowed clk link d = (b, d1)" by (meson surj_pair)
    then have d1: "kd_accepts d1 = kd_accepts d" using allowed_desk by fastforce
    with a Offer_arrives sweep [OF d1] assms(1,3) show ?thesis
      by (auto simp: handle_key_offer_def Let_def split: bool.split option.split)
  next
    case (Accept_arrives clk link payload nonce)
    obtain b d1 where a: "key_share_allowed clk link d = (b, d1)" by (meson surj_pair)
    then have d1: "kd_accepts d1 = kd_accepts d" using allowed_desk by fastforce
    with a Accept_arrives sweep [OF d1] assms(1,3) show ?thesis
      by (auto simp: handle_key_accept_def Let_def split: bool.split option.split)
  next
    case (Operator_offers clk target public secret sign id label ts)
    with sweep [OF refl] assms(1,3) show ?thesis
      by (auto simp: offer_publisher_key_def Let_def split: sum.split)
  next
    case (Operator_refuses id)
    with assms(1) show ?thesis by (simp add: refuse_publisher_key_def)
  qed
qed

lemma kept_run:
  assumes "\<And>k d ev. ev \<in> set evs \<Longrightarrow> row_kept oid row k (table d) \<Longrightarrow> (if fills ev then Suc k else k) < MAX_KEY_OFFERS \<Longrightarrow>
      row_kept oid row (if fills ev then Suc k else k) (table (snd (share_step e ev d)))"
    and "row_kept oid row k (table d)" "k + length (filter fills evs) < MAX_KEY_OFFERS"
  shows "row_kept oid row (k + length (filter fills evs)) (table (snd (share_run e evs d)))"
  using assms
proof (induction evs arbitrary: k d)
  case (Cons ev evs)
  have "row_kept oid row (if fills ev then Suc k else k) (table (snd (share_step e ev d)))"
    using Cons.prems by (intro Cons.prems(1)) (auto split: if_splits)
  from Cons.IH [OF Cons.prems(1) this] Cons.prems(3) show ?case
    by (simp add: case_prod_beta split: if_splits)
qed simp

lemma share_run_append: "snd (share_run e (xs @ ys) d) = snd (share_run e ys (snd (share_run e xs d)))"
  by (induction xs arbitrary: d) (simp_all add: case_prod_beta)

lemma share_step_id [simp]: "kd_id (snd (share_step e ev d)) = kd_id d"
proof -
  have [simp]: "kd_id (sweep_key_shares clk x) = kd_id x" for clk x by (simp add: sweep_key_shares_def)
  have a: "key_share_allowed clk link d = (b, x) \<Longrightarrow> kd_id x = kd_id d" for clk link b x
    using allowed_desk by fastforce
  show ?thesis
    by (cases ev) (auto simp: handle_key_offer_def handle_key_accept_def handle_key_grant_def offer_publisher_key_def
        accept_publisher_key_def refuse_publisher_key_def Let_def dest!: a split: prod.split bool.split option.split sum.split)
qed

lemma share_run_id [simp]: "kd_id (snd (share_run e evs d)) = kd_id d"
  by (induction evs arbitrary: d) (simp_all add: case_prod_beta)

abbreviation desk_after :: "share_env \<Rightarrow> share_event list \<Rightarrow> key_desk \<Rightarrow> key_desk" where
  "desk_after e evs d \<equiv> snd (share_run e evs d)"

lemma sender_side:
  assumes "build_offer oid me peer pub sign label ts = Inr offer" "me \<noteq> peer" "sv_pair_ok e pub secret"
    and "accept_offer_id acc = Some oid" "parse_accept (sv_hash e) (sv_verify e) peer me acc = Some a"
    and "seal_grant (sv_seal e) nonce oid me peer pub secret (ka_kem a) = Some grant" "t3 < t0 + OFFER_TTL"
    and d: "kd_id d = me" "oid \<notin> set (od_keys (kd_out d))" "leaves_alone oid (t0 + OFFER_TTL) fills_out es"
      "fst (key_share_allowed t3 link (desk_after e (Operator_offers t0 peer pub secret sign oid label ts # es) d))"
  shows "fst (share_step e (Operator_offers t0 peer pub secret sign oid label ts) d) = [Send_offer peer offer]"
    "fst (share_step e (Accept_arrives t3 link acc nonce)
       (desk_after e (Operator_offers t0 peer pub secret sign oid label ts # es) d)) = [Send_grant peer grant]"
proof -
  let ?row = "\<lparr> oo_to = peer, oo_publisher = pub, oo_secret = secret, oo_label = label, oo_deadline = t0 + OFFER_TTL \<rparr>"
  let ?ev = "Operator_offers t0 peer pub secret sign oid label ts"
  let ?d0 = "snd (share_step e ?ev d)" and ?d1 = "desk_after e (?ev # es) d"
  have 1: "fst (share_step e ?ev d) = [Send_offer peer offer]"
    "kd_out ?d0 = remember_key_share oid ?row (kd_out (sweep_key_shares t0 d))"
    using assms(1-3) d(1) by (simp_all add: offer_publisher_key_def sweep_key_shares_def)
  then show "fst (share_step e ?ev d) = [Send_offer peer offer]" by simp
  have "row_kept oid ?row 0 (kd_out ?d0)" unfolding 1(2) using d(2) by (intro kept_new) (auto simp: sweep_key_shares_def)
  then have "row_kept oid ?row (0 + length (filter fills_out es)) (kd_out (desk_after e es ?d0))"
    using d(3) by (intro kept_run out_kept_step) (auto simp: leaves_alone_def)
  then have kept: "row_kept oid ?row (length (filter fills_out es)) (kd_out ?d1)" by (simp add: case_prod_beta del: share_step.simps)
  have me: "kd_id ?d1 = me" using d(1) by (simp add: case_prod_beta del: share_step.simps)
  obtain x where x: "key_share_allowed t3 link ?d1 = (True, ?d1\<lparr> kd_rate := x \<rparr>)"
    using d(4) allowed_desk [of t3 link ?d1] by (metis prod.collapse)
  have "row_kept oid ?row (length (filter fills_out es)) (kd_out (sweep_key_shares t3 (?d1\<lparr> kd_rate := x \<rparr>)))"
    using kept_filter [OF kept] assms(7) by (simp add: sweep_key_shares_def)
  note row = kept_lookup [OF this]
  have id: "kd_id (sweep_key_shares t3 (?d1\<lparr> kd_rate := x \<rparr>)) = me" using me by (simp add: sweep_key_shares_def)
  show "fst (share_step e (Accept_arrives t3 link acc nonce) ?d1) = [Send_grant peer grant]"
    using row id assms(4-6) by (simp add: handle_key_accept_def x Let_def del: share_run.simps)
qed

lemma receiver_side:
  assumes "parse_offer (sv_unicode e) (sv_verify e) peer me offer = Some off" "ko_id off = oid"
    and "build_accept oid me peer kem (sv_own_key e) (sv_sign e) ts = Inr acc" "passphrase \<noteq> []"
    and "grant_offer_id grant = Some oid"
      "open_grant (sv_seal e) peer me (ko_publisher off) kem_secret grant = Some secret" "sv_pair_ok e (ko_publisher off) secret"
    and "t2 < t1 + OFFER_TTL" "t4 < t2 + OFFER_TTL"
    and d: "kd_id d = me" "oid \<notin> set (od_keys (kd_in d))" "fst (key_share_allowed t1 link d)"
      "leaves_alone oid (t1 + OFFER_TTL) fills_in xs"
      "oid \<notin> set (od_keys (kd_accepts (desk_after e (Offer_arrives t1 link peer offer # xs) d)))"
      "leaves_alone oid (t2 + OFFER_TTL) fills_accepts ys"
      "fst (key_share_allowed t4 link' (desk_after e (Offer_arrives t1 link peer offer # xs @
         Operator_accepts t2 oid passphrase kem kem_secret ts # ys) d))"
  shows "fst (share_step e (Operator_accepts t2 oid passphrase kem kem_secret ts)
      (desk_after e (Offer_arrives t1 link peer offer # xs) d)) = [Send_accept peer acc]"
    "fst (share_step e (Grant_arrives t4 link' grant True) (desk_after e (Offer_arrives t1 link peer offer # xs @
         Operator_accepts t2 oid passphrase kem kem_secret ts # ys) d)) =
       [Key_kept (ko_publisher off) secret passphrase (ko_label off) peer]"
proof -
  let ?in = "\<lparr> oi_from = peer, oi_publisher = ko_publisher off, oi_label = ko_label off, oi_deadline = t1 + OFFER_TTL \<rparr>"
  let ?ao = "\<lparr> ao_from = peer, ao_publisher = ko_publisher off, ao_label = ko_label off, ao_kem_secret = kem_secret,
      ao_passphrase = passphrase, ao_deadline = t2 + OFFER_TTL \<rparr>"
  let ?offer = "Offer_arrives t1 link peer offer" and ?accept = "Operator_accepts t2 oid passphrase kem kem_secret ts"
  let ?d0 = "snd (share_step e ?offer d)" and ?d1 = "desk_after e (?offer # xs) d"
  let ?d2 = "snd (share_step e ?accept ?d1)" and ?d3 = "desk_after e (?offer # xs @ ?accept # ys) d"
  obtain x where x: "key_share_allowed t1 link d = (True, d\<lparr> kd_rate := x \<rparr>)"
    using d(3) allowed_desk [of t1 link d] by (metis prod.collapse)
  have "oid \<notin> set (od_keys (kd_in (sweep_key_shares t1 (d\<lparr> kd_rate := x \<rparr>))))"
    using d(2) by (auto simp: sweep_key_shares_def)
  moreover have "kd_id (sweep_key_shares t1 (d\<lparr> kd_rate := x \<rparr>)) = me" using d(1) by (simp add: sweep_key_shares_def)
  ultimately have "row_kept oid ?in 0 (kd_in ?d0)"
    using assms(1,2) by (simp add: handle_key_offer_def x Let_def kept_new)
  then have "row_kept oid ?in (0 + length (filter fills_in xs)) (kd_in (desk_after e xs ?d0))"
    using d(4) by (intro kept_run in_kept_step) (auto simp: leaves_alone_def)
  then have kept: "row_kept oid ?in (length (filter fills_in xs)) (kd_in ?d1)" by (simp add: case_prod_beta del: share_step.simps)
  have me: "kd_id ?d1 = me" using d(1) by (simp add: case_prod_beta del: share_step.simps)
  have "row_kept oid ?in (length (filter fills_in xs)) (kd_in (sweep_key_shares t2 ?d1))"
    using kept_filter [OF kept] assms(8) by (simp add: sweep_key_shares_def)
  note row = kept_lookup [OF this]
  have id: "kd_id (sweep_key_shares t2 ?d1) = me" using me by (simp add: sweep_key_shares_def)
  have 2: "fst (share_step e ?accept ?d1) = [Send_accept peer acc]"
    "kd_accepts ?d2 = remember_key_share oid ?ao (kd_accepts (sweep_key_shares t2 ?d1))"
    using row id assms(3,4) by (simp_all add: accept_publisher_key_def Let_def del: share_run.simps)
  then show "fst (share_step e ?accept ?d1) = [Send_accept peer acc]" by simp
  have "row_kept oid ?ao 0 (kd_accepts ?d2)"
    unfolding 2(2) using d(5) by (intro kept_new) (auto simp: sweep_key_shares_def simp del: share_run.simps)
  then have kept2: "row_kept oid ?ao (0 + length (filter fills_accepts ys)) (kd_accepts (desk_after e ys ?d2))"
    using d(6) by (intro kept_run accepts_kept_step) (auto simp: leaves_alone_def simp del: share_step.simps share_run.simps)
  have d3: "?d3 = desk_after e ys ?d2"
    using share_run_append [of e "?offer # xs" "?accept # ys" d] by (simp add: case_prod_beta del: share_step.simps)
  have kept3: "row_kept oid ?ao (length (filter fills_accepts ys)) (kd_accepts ?d3)"
    using kept2 unfolding d3 add_0 .
  obtain z where z: "key_share_allowed t4 link' ?d3 = (True, ?d3\<lparr> kd_rate := z \<rparr>)"
    using d(7) allowed_desk [of t4 link' ?d3] by (metis prod.collapse)
  have me3: "kd_id ?d3 = me" using d(1) by (simp add: case_prod_beta del: share_step.simps)
  have "row_kept oid ?ao (length (filter fills_accepts ys)) (kd_accepts (sweep_key_shares t4 (?d3\<lparr> kd_rate := z \<rparr>)))"
    using kept_filter [OF kept3] assms(9) by (simp add: sweep_key_shares_def)
  note row2 = kept_lookup [OF this]
  have id3: "kd_id (sweep_key_shares t4 (?d3\<lparr> kd_rate := z \<rparr>)) = me" using me3 by (simp add: sweep_key_shares_def)
  show "fst (share_step e (Grant_arrives t4 link' grant True) ?d3) =
      [Key_kept (ko_publisher off) secret passphrase (ko_label off) peer]"
    using row2 id3 assms(5-7) by (simp add: handle_key_grant_def z Let_def del: share_run.simps)
qed

text \<open>
  C29: A key that is offered and accepted arrives, whatever else happens on the two desks. One node offers a key it
  holds to another, the other's operator accepts with a passphrase that is not empty, and the offer, the acceptance
  and the grant reach the other node less than five minutes after what they answer and are admitted by the rate
  limit of their link. Then the offer, the acceptance and the grant are sent, and the receiving node keeps the key with
  its label and the passphrase its operator chose. In between anything else may happen on either desk, within the
  five minutes, that does not name this offer, as long as fewer than eight other offers are made on the one desk and
  fewer than eight others arrive and are accepted on the other. Relied on: the three messages can be
  built, the offer's id is new to its tables, the key pair matches itself on both nodes, the receiver's key store
  takes it, the sealing opens what it sealed, the nodes' keys verify what they sign and the label can be printed.
\<close>
theorem handover_delivers:
  assumes built: "build_offer oid a b pub sign label ts = Inr offer"
      "build_accept oid b a kem (sv_own_key eb) (sv_sign eb) ts' = Inr acc"
      "seal_grant (sv_seal ea) nonce oid a b pub secret kem = Some grant"
    and offer_verifies: "\<And>m. sv_verify eb m (sign m) pub" "\<And>m. sign m \<noteq> []"
      "label_printable (sv_unicode eb) (take SHARE_MAX_LABEL label)"
    and accept_verifies: "\<And>m. sv_verify ea m (sv_sign eb m) (sv_own_key eb)" "\<And>m. sv_sign eb m \<noteq> []"
      "key_id (sv_hash ea) (sv_own_key eb) = b"
    and seal: "\<And>ct shared. se_encapsulate (sv_seal ea) kem = Some (ct, shared) \<Longrightarrow> ct \<noteq> [] \<and> se_decapsulate (sv_seal ea) ct kem_secret = Some shared"
      "\<And>k n p x. se_decrypt (sv_seal ea) k n (se_encrypt (sv_seal ea) k n p x) x = Some p \<and>
      length (se_encrypt (sv_seal ea) k n p x) = length p + 16"
      "sv_seal eb = sv_seal ea" "length nonce = 12"
    and ends: "a \<noteq> b" "sv_pair_ok ea pub secret" "sv_pair_ok eb pub secret" "passphrase \<noteq> []"
    and times: "t2 < t1 + OFFER_TTL" "t3 < t0 + OFFER_TTL" "t4 < t2 + OFFER_TTL"
    and sender: "kd_id da = a" "oid \<notin> set (od_keys (kd_out da))" "leaves_alone oid (t0 + OFFER_TTL) fills_out es"
      "fst (key_share_allowed t3 la (desk_after ea (Operator_offers t0 b pub secret sign oid label ts # es) da))"
    and receiver: "kd_id db = b" "oid \<notin> set (od_keys (kd_in db))" "fst (key_share_allowed t1 lb db)"
      "leaves_alone oid (t1 + OFFER_TTL) fills_in xs"
      "oid \<notin> set (od_keys (kd_accepts (desk_after eb (Offer_arrives t1 lb a offer # xs) db)))"
      "leaves_alone oid (t2 + OFFER_TTL) fills_accepts ys"
      "fst (key_share_allowed t4 lb' (desk_after eb (Offer_arrives t1 lb a offer # xs @
         Operator_accepts t2 oid passphrase kem kem_secret ts' # ys) db))"
  shows "fst (share_step ea (Operator_offers t0 b pub secret sign oid label ts) da) = [Send_offer b offer] \<and>
    fst (share_step eb (Operator_accepts t2 oid passphrase kem kem_secret ts')
      (desk_after eb (Offer_arrives t1 lb a offer # xs) db)) = [Send_accept a acc] \<and>
    fst (share_step ea (Accept_arrives t3 la acc nonce)
      (desk_after ea (Operator_offers t0 b pub secret sign oid label ts # es) da)) = [Send_grant b grant] \<and>
    fst (share_step eb (Grant_arrives t4 lb' grant True) (desk_after eb (Offer_arrives t1 lb a offer # xs @
         Operator_accepts t2 oid passphrase kem kem_secret ts' # ys) db)) =
      [Key_kept pub secret passphrase (take SHARE_MAX_LABEL label) a]"
proof -
  have oid: "length oid = 16" using built(1) by (auto simp: build_offer_def share_sizes split: if_splits)
  obtain off where o: "parse_offer (sv_unicode eb) (sv_verify eb) a b offer = Some off" and
    off: "ko_id off = oid" "ko_publisher off = pub" "ko_label off = take SHARE_MAX_LABEL label"
    using parse_built_offer [where vf = "sv_verify eb" and u = "sv_unicode eb", OF built(1) offer_verifies(1,2)] offer_verifies(3)
    by simp
  note c = parse_built_accept [where vf = "sv_verify ea" and h = "sv_hash ea", OF built(2) accept_verifies]
  note g = open_sealed_grant [OF built(3) oid seal(4) seal(1,2)]
  have g1: "grant_offer_id grant = Some oid" and g2: "open_grant (sv_seal eb) a b (ko_publisher off) kem_secret grant = Some secret"
    using g by (simp_all add: seal(3) off)
  have "seal_grant (sv_seal ea) nonce oid a b pub secret
      (ka_kem \<lparr> ka_id = oid, ka_kem = kem, ka_node = sv_own_key eb, ka_ts = nat ts' \<rparr>) = Some grant" using built(3) by simp
  note s = sender_side [OF built(1) ends(1,2) c [THEN conjunct2] c [THEN conjunct1] this times(2) sender]
  have "sv_pair_ok eb (ko_publisher off) secret" using ends(3) off by simp
  note r = receiver_side [OF o off(1) built(2) ends(4) g1 g2 this times(1,3) receiver]
  show ?thesis using s r unfolding off by blast
qed

definition demo_seal :: seal_env where
  "demo_seal = \<lparr> se_encapsulate = (\<lambda>k. Some ([1], k)), se_decapsulate = (\<lambda>_ k. Some k), se_derive = (\<lambda>k _. k),
     se_encrypt = (\<lambda>_ _ p _. p @ replicate 16 0), se_decrypt = (\<lambda>_ _ c _. Some (take (length c - 16) c)) \<rparr>"

definition demo_share :: "byte \<Rightarrow> share_env" where
  "demo_share own = \<lparr> sv_hash = flat_hash, sv_unicode = plain_unicode, sv_verify = (\<lambda>_ _ _. True), sv_seal = demo_seal,
     sv_pair_ok = (\<lambda>p s. p = s), sv_own_key = [own], sv_sign = (\<lambda>_. [9]) \<rparr>"

lemma demo_share_built:
  "\<exists>m. build_offer (replicate 16 0) (key_id flat_hash [1]) (key_id flat_hash [2]) [7] (\<lambda>_. [9]) [97] 7 = Inr m"
  "\<exists>m. build_accept (replicate 16 0) (key_id flat_hash [2]) (key_id flat_hash [1]) [4] [2] (\<lambda>_. [9]) 8 = Inr m"
  "\<exists>m. seal_grant demo_seal (replicate 12 0) (replicate 16 0) (key_id flat_hash [1]) (key_id flat_hash [2]) [7] [7] [4] = Some m"
  by (simp_all add: build_offer_def build_accept_def seal_grant_def ids_ok_def share_sizes pack_uint_def demo_name_bytes take_Cons'
      key_id_def flat_hash_def demo_seal_def del: be_bytes.simps)

abbreviation demo_a :: bytes where "demo_a \<equiv> key_id flat_hash [1]"
abbreviation demo_b :: bytes where "demo_b \<equiv> key_id flat_hash [2]"
abbreviation demo_oid :: bytes where "demo_oid \<equiv> replicate 16 0"

lemma demo_ends: "demo_a \<noteq> demo_b"
  by (simp add: key_id_def flat_hash_def take_Cons')

lemma demo_seal_laws:
  "se_encapsulate demo_seal kem = Some (ct, shared) \<Longrightarrow> ct \<noteq> [] \<and> se_decapsulate demo_seal ct kem = Some shared"
  "se_decrypt demo_seal k n (se_encrypt demo_seal k n p x) x = Some p \<and> length (se_encrypt demo_seal k n p x) = length p + 16"
  by (auto simp: demo_seal_def)

lemma demo_share_simps [simp]: "sv_hash (demo_share own) = flat_hash" "sv_unicode (demo_share own) = plain_unicode"
  "sv_verify (demo_share own) = (\<lambda>_ _ _. True)" "sv_seal (demo_share own) = demo_seal" "sv_pair_ok (demo_share own) = (\<lambda>p s. p = s)"
  "sv_own_key (demo_share own) = [own]" "sv_sign (demo_share own) = (\<lambda>_. [9])"
  by (simp_all add: demo_share_def)

lemma demo_printable: "label_printable plain_unicode [97]" "label_printable plain_unicode (take SHARE_MAX_LABEL [97])" "take SHARE_MAX_LABEL [97 :: nat] = [97]"
  by code_simp+

lemma demo_rates [simp]:
  "fst (key_share_allowed clk link d) = fst (gossip_allowed clk link KEY_SHARE_WINDOW KEY_SHARE_MAX (kd_rate d))"
  "kd_rate (snd (offer_publisher_key e clk target public secret sign offer_id label ts d)) = kd_rate d"
  "kd_rate (snd (accept_publisher_key e clk offer_id passphrase kem_public kem_secret ts d)) = kd_rate d"
  "kd_rate (snd (refuse_publisher_key offer_id d)) = kd_rate d"
  "kd_rate (snd (handle_key_offer e clk link src payload d)) = snd (gossip_allowed clk link KEY_SHARE_WINDOW KEY_SHARE_MAX (kd_rate d))"
  by (auto simp: key_share_allowed_def offer_publisher_key_def accept_publisher_key_def refuse_publisher_key_def
      handle_key_offer_def sweep_key_shares_def Let_def split: prod.split bool.split sum.split option.split)

lemma demo_admitted:
  "fst (gossip_allowed clk link KEY_SHARE_WINDOW KEY_SHARE_MAX [])"
  "fst (gossip_allowed 4 [] KEY_SHARE_WINDOW KEY_SHARE_MAX (snd (gossip_allowed 1 [] KEY_SHARE_WINDOW KEY_SHARE_MAX [])))"
  by (simp_all add: gossip_allowed_def KEY_SHARE_WINDOW_def KEY_SHARE_MAX_def MAX_PEERS_def)

lemma demo_new [simp]: "kd_id (new_key_desk me) = me" "kd_rate (new_key_desk me) = []" "kd_in (new_key_desk me) = []"
  "kd_out (new_key_desk me) = []" "kd_accepts (new_key_desk me) = []"
  by (simp_all add: new_key_desk_def)

lemma offer_no_accepts: "kd_accepts (snd (handle_key_offer e clk link src payload (new_key_desk me))) = []"
  by (auto simp: handle_key_offer_def key_share_allowed_def sweep_key_shares_def Let_def
      split: prod.split bool.split option.split)

theorem handover_delivers_witness:
  "\<exists>offer acc grant.
     fst (share_step (demo_share 1) (Operator_offers 0 demo_b [7] [7] (\<lambda>_. [9]) demo_oid [97] 7) (new_key_desk demo_a)) =
       [Send_offer demo_b offer] \<and>
     fst (share_step (demo_share 1) (Accept_arrives 3 [] acc (replicate 12 0)) (desk_after (demo_share 1)
       [Operator_offers 0 demo_b [7] [7] (\<lambda>_. [9]) demo_oid [97] 7, Operator_refuses []] (new_key_desk demo_a))) = [Send_grant demo_b grant] \<and>
     fst (share_step (demo_share 2) (Grant_arrives 4 [] grant True) (desk_after (demo_share 2)
       [Offer_arrives 1 [] demo_a offer, Operator_accepts 2 demo_oid ''pw'' [4] [4] 8] (new_key_desk demo_b))) =
       [Key_kept [7] [7] ''pw'' [97] demo_a]"
proof -
  from demo_share_built obtain offer acc grant where
    b: "build_offer demo_oid demo_a demo_b [7] (\<lambda>_. [9]) [97] 7 = Inr offer"
      "build_accept demo_oid demo_b demo_a [4] (sv_own_key (demo_share 2)) (sv_sign (demo_share 2)) 8 = Inr acc"
      "seal_grant (sv_seal (demo_share 1)) (replicate 12 0) demo_oid demo_a demo_b [7] [7] [4] = Some grant"
    unfolding demo_share_simps by blast
  let ?o = "Operator_offers 0 demo_b [7] [7] (\<lambda>_. [9]) demo_oid [97] 7"
  let ?s = "Operator_accepts 2 demo_oid ''pw'' [4] [4] 8"
  have sender: "leaves_alone demo_oid (0 + OFFER_TTL) fills_out [Operator_refuses []]"
    "fst (key_share_allowed 3 [] (desk_after (demo_share 1) (?o # [Operator_refuses []]) (new_key_desk demo_a)))"
    by (simp_all add: leaves_alone_def MAX_KEY_OFFERS_def case_prod_beta demo_admitted)
  have receiver: "leaves_alone demo_oid (1 + OFFER_TTL) fills_in []" "leaves_alone demo_oid (2 + OFFER_TTL) fills_accepts []"
    "fst (key_share_allowed 1 [] (new_key_desk demo_b))"
    "demo_oid \<notin> set (od_keys (kd_accepts (desk_after (demo_share 2) (Offer_arrives 1 [] demo_a offer # []) (new_key_desk demo_b))))"
    "fst (key_share_allowed 4 [] (desk_after (demo_share 2) (Offer_arrives 1 [] demo_a offer # [] @ ?s # []) (new_key_desk demo_b)))"
    by (simp_all add: leaves_alone_def MAX_KEY_OFFERS_def case_prod_beta demo_admitted offer_no_accepts)
  have "fst (share_step (demo_share 1) ?o (new_key_desk demo_a)) = [Send_offer demo_b offer] \<and>
    fst (share_step (demo_share 2) ?s (desk_after (demo_share 2) (Offer_arrives 1 [] demo_a offer # []) (new_key_desk demo_b))) =
      [Send_accept demo_a acc] \<and>
    fst (share_step (demo_share 1) (Accept_arrives 3 [] acc (replicate 12 0))
      (desk_after (demo_share 1) (?o # [Operator_refuses []]) (new_key_desk demo_a))) = [Send_grant demo_b grant] \<and>
    fst (share_step (demo_share 2) (Grant_arrives 4 [] grant True) (desk_after (demo_share 2)
      (Offer_arrives 1 [] demo_a offer # [] @ ?s # []) (new_key_desk demo_b))) =
      [Key_kept [7] [7] ''pw'' (take SHARE_MAX_LABEL [97]) demo_a]"
    by (rule handover_delivers [OF b _ _ _ _ _ _ _ _ _ _ _ _ _ _ _ _ _ _ _ sender(1,2) _ _ receiver(3,1,4,2,5)])
      (simp_all add: demo_printable demo_ends demo_seal_laws OFFER_TTL_def del: share_run.simps)
  then show ?thesis unfolding demo_printable(3) append_Nil by blast
qed

lemma demo_granted:
  obtains evs acc nonce grant where "share_step (demo_share 1) (Accept_arrives 3 [] acc nonce) (snd (share_run (demo_share 1) evs (new_key_desk demo_a))) =
    ([Send_grant demo_b grant], snd (share_step (demo_share 1) (Accept_arrives 3 [] acc nonce) (snd (share_run (demo_share 1) evs (new_key_desk demo_a)))))"
proof -
  from demo_share_built obtain offer acc grant where
    b: "build_offer demo_oid demo_a demo_b [7] (\<lambda>_. [9]) [97] 7 = Inr offer"
      "build_accept demo_oid demo_b demo_a [4] [2] (\<lambda>_. [9]) 8 = Inr acc"
      "seal_grant demo_seal (replicate 12 0) demo_oid demo_a demo_b [7] [7] [4] = Some grant" by blast
  note c = parse_built_accept [where vf = "\<lambda>_ _ _. True" and h = flat_hash, OF b(2) _ _ refl, simplified]
  let ?o = "Operator_offers 0 demo_b [7] [7] (\<lambda>_. [9]) demo_oid [97] 7"
  have "fst (share_step (demo_share 1) (Accept_arrives 3 [] acc (replicate 12 0)) (desk_after (demo_share 1) [?o] (new_key_desk demo_a))) =
      [Send_grant demo_b grant]"
    by (rule sender_side(2) [where a = "\<lparr> ka_id = demo_oid, ka_kem = [4], ka_node = [2], ka_ts = 8 \<rparr>", OF b(1) demo_ends _ c [THEN conjunct2]])
      (use b(3) in \<open>simp_all add: c OFFER_TTL_def leaves_alone_def MAX_KEY_OFFERS_def case_prod_beta demo_admitted\<close>)
  then show ?thesis by (intro that [of acc "replicate 12 0" "[?o]" grant] prod_eqI) simp_all
qed

theorem secret_goes_where_sent_witness:
  "\<exists>evs acc nonce grant. Send_grant demo_b grant \<in> set (fst (share_step (demo_share 1) (Accept_arrives 3 [] acc nonce)
       (snd (share_run (demo_share 1) evs (new_key_desk demo_a))))) \<and>
     (\<exists>clk0 public secret sign oid label ts. Operator_offers clk0 demo_b public secret sign oid label ts \<in> set evs)"
proof -
  obtain evs acc nonce grant where s: "share_step (demo_share 1) (Accept_arrives 3 [] acc nonce) (snd (share_run (demo_share 1) evs (new_key_desk demo_a))) =
    ([Send_grant demo_b grant], snd (share_step (demo_share 1) (Accept_arrives 3 [] acc nonce) (snd (share_run (demo_share 1) evs (new_key_desk demo_a)))))"
    by (rule demo_granted)
  then have m: "Send_grant demo_b grant \<in> set (fst (share_step (demo_share 1) (Accept_arrives 3 [] acc nonce)
       (snd (share_run (demo_share 1) evs (new_key_desk demo_a)))))" by (metis fst_conv list.set_intros(1))
  from secret_goes_where_sent [OF s] m show ?thesis by (metis list.set_intros(1))
qed

end
