(* ===== verification/Spec2Isabelle.thy ===== *)
theory Spec2Isabelle
  imports SeenSet Packet NodeId Routing Reputation Metrics Mlo Routed Json AppPerms AppAuth Protocol
    Behaviour Accusation Standing Verdicts Doctrine Features Traffic Links Invites Router Seeking Delivery Forwarding
    Transit RouterBooks Params Plane PlaneSafe Jobs Transfers Carriage Uploads Retransmit Content
    Version Names Claims ReleaseDoc Equivocation NameBook ReleaseBook ReleaseGate
    KeyShare KeyHandover
begin

text \<open>
  NMesh: a peer-to-peer mesh of nodes written in Python (\<open>src/\<close>, package \<open>src/src/\<close>). A node is its
  ML-DSA key; its id is the first 20 bytes of the SHA-256 of that key. Nodes hold links over several
  transports, authenticate each other by a chain of certificates that ends in a root they trust,
  find each other with a Kademlia table, and carry each other's packets end to end encrypted.
  Applications run beside the node, call each other over it, and drive it only as far as the operator
  granted. Every table an outsider can write to is bounded.

  \<^bold>\<open>How the parts interact.\<close> A packet (\<open>packet.py\<close>) enters through a link; the node checks that its
  message id commits to its content and asks the replay window (\<open>seen.py\<close>) before it forwards or
  decrypts it. Handshakes and FOUND_NODE answers (\<open>mesh/codecs.py\<close>) carry certificates
  (\<open>cert.py\<close>), which the store (\<open>cert_store.py\<close>) verifies, bounds, revokes (\<open>revocation.py\<close>,
  \<open>lineage.py\<close>) and searches for a chain. What a link does is measured (\<open>metrics.py\<close>), its pace agreed
  (\<open>mlo.py\<close>), its ways through others kept (\<open>routed.py\<close>); what a peer does is judged by rules
  (\<open>behaviour.py\<close>), by this node's eyes and by other nodes' signed accusations (\<open>accusation.py\<close>), all of
  which meet in one ledger (\<open>reputation.py\<close>) behind one door of the node (\<open>node.py\<close>, \<open>report_abuse\<close>).
  An application proves who it is (\<open>app_auth.py\<close>) and is held to its grants (\<open>app_perms.py\<close>).
  Whoever drives a node (its console, a console elsewhere, an application) does it with operations of one
  plane (\<open>control/plane.py\<close>): where the call comes from decides what it may reach, its arguments are bound to
  what the operation declares (\<open>control/params.py\<close>), long work is a job under a ticket (\<open>control/jobs.py\<close>),
  files are transfers of chunks (\<open>control/transfer.py\<close>). Values of the DHT lie in the content store
  (\<open>dht.py\<close>). A node may call itself by a name: a claim it signed, gossiped and kept in every node's book of
  names (\<open>pseudo_dir.py\<close>). The program itself travels as signed releases (\<open>core_release.py\<close>); a node replaces
  its own code unattended only through the gate of \<open>may_auto_install\<close> (\<open>node.py\<close>). Both books keep, of a key that
  signed two different things as one, the pair that proves it (\<open>equivocation.py\<close>). A publisher's key is handed from
  one node to another in three messages, the middle one only after its operator accepted (\<open>key_share.py\<close>).

  \<^bold>\<open>The theories.\<close>
  \<^item> \<open>Prelude\<close>: exceptions as values (\<open>'a result\<close>), Python dictionaries as association lists in
    insertion order, and the locale \<open>bounded_book\<close>, the contract of every bounded table.
    \<open>Bytes\<close>: big-endian fields, slices, the strictness of UTF-8 and the locale \<open>wire_codec\<close>, the contract
    of a wire format (decoding is the inverse of encoding and accepts nothing else). \<open>Utf8\<close>: the
    encoder and decoder of code points. \<open>Json\<close>: the values of parsed JSON.
  \<^item> \<open>ReplayWindow\<close>, \<open>SeenSet\<close>: the specification of a replay window as a locale, and the two
    open-addressing tables of 64-bit words of \<open>seen.py\<close>, refined to a pair of sets of ids.
  \<^item> \<open>Packet\<close>: the header, lazy message ids, replay keys, twins and the nonce pool.
    \<open>NodeId\<close>: ids, the XOR distance, address validation.
  \<^item> \<open>Routing\<close>: buckets, the routing table, struck addresses and silence.
  \<^item> \<open>Cert\<close>, \<open>Revocation\<close>, \<open>CertStore\<close>, \<open>Membership\<close>: certificates and their bytes, signed
    revocations and the lineage, the store with its memoised breadth-first search, and the theorems
    about membership.
  \<^item> \<open>Codecs\<close>, \<open>FoundNode\<close>, \<open>Protocol\<close>: the payloads of the mesh messages, the pool of FOUND_NODE
    entries with certificates named by fingerprint, and their round trips.
  \<^item> \<open>Metrics\<close>, \<open>Mlo\<close>, \<open>Routed\<close>: link quality, the keepalive accord and link bundles, the book of
    paths.
  \<^item> \<open>Reputation\<close>: the decaying ledger and the rate gate. \<open>Behaviour\<close>: the rules, the books of habits
    and admissions and the watch. \<open>Accusation\<close>: signed accusations and stop-relay requests.
    \<open>Standing\<close>: the node's part (the door, tarpits, the accusation handler, witnesses, the sweep).
    \<open>Verdicts\<close>, \<open>Doctrine\<close>: what that judgement can and cannot do.
  \<^item> \<open>Features\<close>, \<open>Traffic\<close>: what two nodes agree to speak; what applications declare of their traffic.
    \<open>Links\<close> scores links and picks one per neighbour. \<open>Router\<close> is the send path of the node: hints, leads,
    candidates, striping, sending, forwarding and rerouting. \<open>Invites\<close> is what a node keeps for the relayed
    invitation (rates, ways back to seekers, offers, codes), \<open>Seeking\<close> its handlers, which run before the gates
    of the door, and the hand-over of a seek to two neighbours. \<open>Delivery\<close> is the door every packet comes
    through (\<open>_handle_packet\<close>) with the stop-relay plane. \<open>Forwarding\<close> proves that one step is fair: every
    packet it sends is the one that came, one hop shorter, over a usable link it did not come from.
    \<open>Transit\<close> composes steps: a packet in a network of nodes, a node over a history of arrivals.
    \<open>RouterBooks\<close> bounds what a router remembers.
  \<^item> \<open>AppPerms\<close>, \<open>AppAuth\<close>: manifests, grants and the control gate; assertions and the login.
  \<^item> \<open>Params\<close>: declared parameters and the binding of arguments. \<open>Plane\<close>: origins, reaches, modules and their
    operations, the checks of every call, modders' hooks, requests and replies; \<open>PlaneSafe\<close> is what a call can
    and cannot do, and composes the plane with the gate of \<open>AppPerms\<close>. \<open>Jobs\<close>: tickets and the job book.
    \<open>Transfers\<close>: the transfer book, the kinds of transfer; \<open>Carriage\<close>: the names of files; \<open>Uploads\<close>: the
    client's loops and what arrives; \<open>Retransmit\<close>: chunks that come again.
  \<^item> \<open>Content\<close>: the content-addressed store.
  \<^item> \<open>Names\<close>: the one form a name has, what it is filed under and how it ranks for a search. \<open>Claims\<close>: signed
    claims of names and their bytes. \<open>NameBook\<close>: the book of names, its index and its bounds.
  \<^item> \<open>Version\<close>: version numbers. \<open>ReleaseDoc\<close>: descriptors of releases. \<open>Equivocation\<close>: proofs of
    contradiction, of both kinds. \<open>ReleaseBook\<close>: the pinned publishers, the journal of automatic installs, the
    book of releases. \<open>ReleaseGate\<close>: the two routes to an unattended install, the pass that makes it, its
    back-off.
  \<^item> \<open>KeyShare\<close>: the offer, the acceptance and the grant of a publisher's key. \<open>KeyHandover\<close>: the node's desk of
    handovers, its handlers and its operator, over a history of events.

  \<^bold>\<open>Correspondence.\<close> A class is a record with the class's fields, a method a function from the record
  (and its arguments) to its result and the record after it. An exception is the left side of a
  \<open>result\<close>. Bytes are lists of 8-bit words; integers of fixed width are packed and read at their
  width, with \<open>struct.error\<close> where Python raises it. Floats are reals. A clock reading is an argument.
  Handlers of the control plane are functions on the state of the node, a type variable. \<open>float\<close> values that
  are not numbers do not occur in the model's parsed JSON.
  A handler of the node is a step from the router (a record of the fields of \<open>MeshNode\<close> it touches) to
  the effects it has outside (packets sent, links ended, work put off, handlers called) and the router
  after it; what the sockets answered is an argument (\<open>nt_wire\<close>). A step is atomic: tasks that
  interleave at an \<open>await\<close> inside one are not modelled.
  SHA-256 and BLAKE2b are the record \<open>hash_env\<close>, signatures and AES-GCM are functions given to the
  operations that call them. The tables of Unicode (record \<open>unicode\<close>) and the reading and writing of JSON texts
  (record \<open>json_codec\<close>) are parameters too, and so is the sealing of a grant (record \<open>seal_env\<close>). A loop that terminates structurally is \<open>fun\<close>, the others (the chain
  search, the trimming of accusers) are \<open>function\<close> with their termination proof; there is no fuel.

  \<^bold>\<open>What the lemmas show.\<close> Invariants: the routing table, the certificate store, the ledger and every
  book keep their form and their bounds under every operation. Wire formats: what is built parses
  back to what was meant, and what parses was signed over exactly its fields. Refinement: the replay
  window answers as its specification does. Security: a revocation by a trusted root stands, a chain
  handed out verifies, an assertion is used once and by the app it names, and no other message its owner signed passes for one, an app drives only what it
  was granted, hearsay never decides nor is repeated, and no behaviour rule bans while the book of charges holds all its
  charges. Transit: a packet
  of any type but the two of the relayed invitation, which may go to two neighbours at a hop, stays one copy and
  leaves every network after as many steps as its hop count allows; a node hands a packet to its handler
  at most once; over a link that is not in a tarpit only the destination can have a source silenced towards it; and
  a reply takes the way its request came for as long as the hint of that request stands. Control: nothing a caller may not reach changes the node, a handler sees values of the
  declared types only, a broken modder is not felt, tickets are handed out while there is room, and what is
  sent in chunks arrives whole and once. Names and releases: both books hold only what was signed, a name only
  moves forward while it is held, no proof convicts a key that did not sign both sides, a pinned release is not
  crowded out, and an unattended install was authorised by a pinned publisher or by a quorum of endorsed ones.
  Handovers: a secret is sealed only to the node its operator offered it to, within five minutes, once, and an
  exchange that is brought to its end delivers the key whatever else happens on the two desks, within what their
  tables hold.
  Accounting: every
  probe is resolved, link statistics are those of the last samples, a rate gate passes exactly
  its allowance.

  \<^bold>\<open>Locales.\<close> \<open>bounded_book\<close> is interpreted for the rate gate, the lineage, the book of habits, the
  issuers, the traffic declarations, the stop rules, the jobs, the transfers, the content store, the book of names,
  the pins, the book of releases and the other bounded tables; \<open>wire_codec\<close> for certificates and the codecs; the replay
  window for the tables of \<open>SeenSet\<close>.

  \<^bold>\<open>Not modelled.\<close> Sockets, transports and event loops; the web console, its assets and HTTP; the
  bundled applications; cryptography (parameters); files and their JSON forms (the store, the
  session file, the pins and the journal), trees of files, packages and what writing them to disk comes to; the text of the control plane's frames and its listings, and what its
  modules do with the node; the search of the book of names; the directory of packages and subscriptions; QR codes; and of the node itself the handlers behind the door other than those of
  stop-relay requests, accusations and the relayed invitation, the task that opens a relayed invitation and the tunnel
  it opens, the making and redeeming of invite codes, the gossip and the fetching of releases, the acquisition of routes, the forming of bundles, reconnecting,
  and every loop. Listings for the console, log lines and alerts are left out of the components that have
  them.
\<close>

end
